(* ===== verification/Prpc_Prelude.thy ===== *)
theory Prpc_Prelude
  imports Main "HOL-Library.Word" "HOL-Library.Sublist"
begin

text \<open>
  Shared vocabulary of the development.

  \<^item> \<open>fault\<close> and \<open>res\<close>: a C++ function that may abort returns \<open>fault + 'a\<close>.
    \<open>Check_failed\<close> is a failed \<open>SCHECK\<close>/\<open>PSCHECK\<close> or a \<open>LOG(FATAL)\<close> (the process stops),
    \<open>Out_of_bounds\<close> is an access outside an array and \<open>Overflow\<close> the overflow of a signed integer,
    which C++ leaves undefined.
  \<^item> \<open>byte\<close>, \<open>le_bytes\<close>, \<open>le_val\<close>: the little-endian memory image of an unsigned integer.
  \<^item> \<open>reach\<close> and the locale \<open>inductive_invariant\<close>: reachable states of a step relation and the
    proof principle that every component model with interleaved steps uses.
  \<^item> generic facts on lists and options, collected in \<open>prpc_simps\<close>.
\<close>

named_theorems prpc_simps \<open>rewrite rules shared by the component proofs\<close>

section \<open>Faults and results\<close>

datatype fault = Check_failed | Out_of_bounds | Overflow

type_synonym 'a res = "fault + 'a"

definition rbind :: "'a res \<Rightarrow> ('a \<Rightarrow> 'b res) \<Rightarrow> 'b res" where
  "rbind m f = (case m of Inl e \<Rightarrow> Inl e | Inr x \<Rightarrow> f x)"

definition scheck :: "bool \<Rightarrow> unit res" where
  "scheck b = (if b then Inr () else Inl Check_failed)"

section \<open>Bytes\<close>

type_synonym byte = "8 word"

fun le_bytes :: "nat \<Rightarrow> nat \<Rightarrow> byte list" where
  "le_bytes 0 v = []"
| "le_bytes (Suc n) v = word_of_nat (v mod 256) # le_bytes n (v div 256)"

fun le_val :: "byte list \<Rightarrow> nat" where
  "le_val [] = 0"
| "le_val (b # bs) = unat b + 256 * le_val bs"

section \<open>Reachable states\<close>

definition reach :: "('s \<Rightarrow> bool) \<Rightarrow> ('s \<Rightarrow> 's \<Rightarrow> bool) \<Rightarrow> 's \<Rightarrow> bool" where
  "reach init step s = (\<exists>s0. init s0 \<and> step\<^sup>*\<^sup>* s0 s)"

section \<open>Counting threads\<close>

text \<open>How many threads of a list of program counters satisfy a predicate.\<close>

definition cnt :: "('a \<Rightarrow> bool) \<Rightarrow> 'a list \<Rightarrow> nat" where
  "cnt P ps = length (filter P ps)"

definition one_if :: "bool \<Rightarrow> nat" where
  "one_if b = (if b then 1 else 0)"

section \<open>Facts on results\<close>

lemma rbind_Inl [simp]: "rbind (Inl e) f = Inl e"
  by (simp add: rbind_def)

lemma rbind_Inr [simp]: "rbind (Inr x) f = f x"
  by (simp add: rbind_def)

lemma rbind_eq_Inr [prpc_simps]: "rbind m f = Inr y \<longleftrightarrow> (\<exists>x. m = Inr x \<and> f x = Inr y)"
  by (cases m) auto

lemma scheck_simps [simp]:
  "scheck True = Inr ()" "scheck False = Inl Check_failed"
  by (simp_all add: scheck_def)

lemma scheck_eq_Inr [prpc_simps]: "scheck b = Inr u \<longleftrightarrow> b"
  by (cases b) auto

section \<open>Facts on bytes\<close>

lemma unat_byte_lt [simp]: "unat (b :: byte) < 256"
  using unsigned_less [of b, where ?'a = nat] by simp

lemma unat_byte_of_nat: "unat (word_of_nat n :: byte) = n mod 256"
  by (simp add: unat_of_nat)

lemma length_le_bytes [simp]: "length (le_bytes n v) = n"
  by (induction n arbitrary: v) auto

lemma le_val_le_bytes: "le_val (le_bytes n v) = v mod 256 ^ n"
proof (induction n arbitrary: v)
  case (Suc n)
  have "v mod (256 * 256 ^ n) = v mod 256 + 256 * (v div 256 mod 256 ^ n)"
    by (simp add: mod_mult2_eq)
  with Suc show ?case
    by (simp add: unat_byte_of_nat)
qed simp

lemma le_bytes_le_val: "le_bytes (length bs) (le_val bs) = bs"
  by (induction bs) simp_all

lemma le_val_lt: "le_val bs < 256 ^ length bs"
proof (induction bs)
  case (Cons b bs)
  have "unat b + 256 * le_val bs < 256 + 256 * le_val bs"
    by simp
  also have "256 + 256 * le_val bs \<le> 256 * 256 ^ length bs"
    using Cons by linarith
  finally show ?case by simp
qed simp

lemma le_val_le_bytes_lt: "v < 256 ^ n \<Longrightarrow> le_val (le_bytes n v) = v"
  by (simp add: le_val_le_bytes)

lemma le_bytes_inj: "le_bytes n v = le_bytes n w \<Longrightarrow> v < 256 ^ n \<Longrightarrow> w < 256 ^ n \<Longrightarrow> v = w"
  by (metis le_val_le_bytes_lt)

section \<open>Facts on masks\<close>

lemma and_ones: "and h (2 ^ k - 1) = h mod 2 ^ k" for h :: nat
  by (simp only: mask_eq_exp_minus_1 [symmetric] take_bit_eq_mask [symmetric] take_bit_eq_mod)

section \<open>Invariants of step relations\<close>

text \<open>
  A component whose operations interleave gives its initial states, its step relation and an
  invariant; the locale turns preservation by one step into a fact of every reachable state.
\<close>

locale inductive_invariant =
  fixes init :: "'s \<Rightarrow> bool"
    and step :: "'s \<Rightarrow> 's \<Rightarrow> bool"
    and inv :: "'s \<Rightarrow> bool"
  assumes inv_init: "init s \<Longrightarrow> inv s"
    and inv_step: "inv s \<Longrightarrow> step s t \<Longrightarrow> inv t"
begin

lemma inv_steps: "step\<^sup>*\<^sup>* s t \<Longrightarrow> inv s \<Longrightarrow> inv t"
  by (induction rule: rtranclp_induct) (auto intro: inv_step)

lemma inv_reach: "reach init step s \<Longrightarrow> inv s"
  unfolding reach_def using inv_init inv_steps by blast

end

lemma reach_init: "init s \<Longrightarrow> reach init step s"
  unfolding reach_def by blast

lemma reach_step: "reach init step s \<Longrightarrow> step s t \<Longrightarrow> reach init step t"
  unfolding reach_def by (meson rtranclp.rtrancl_into_rtrancl)

section \<open>Facts on lists\<close>

lemma length_filter_update [prpc_simps]:
  assumes "i < length xs"
  shows "length (filter P (xs[i := y])) + (if P (xs ! i) then 1 else 0) =
         length (filter P xs) + (if P y then 1 else 0)"
  using assms
proof (induction xs arbitrary: i)
  case (Cons x xs)
  then show ?case by (cases i) auto
qed simp

lemma length_filter_pos: "i < length xs \<Longrightarrow> P (xs ! i) \<Longrightarrow> 0 < length (filter P xs)"
  by (metis filter_empty_conv length_greater_0_conv nth_mem)

section \<open>Facts on counting\<close>

lemma one_if_simps [simp]: "one_if True = 1" "one_if False = 0"
  by (simp_all add: one_if_def)

lemma cnt_le: "cnt P ps \<le> length ps"
  by (simp add: cnt_def)

lemma cnt_update:
  assumes "i < length ps"
  shows "cnt P (ps[i := pc]) + (if P (ps ! i) then 1 else 0) = cnt P ps + (if P pc then 1 else 0)"
  using length_filter_update [OF assms] by (simp add: cnt_def)

lemma cnt_pos: "i < length ps \<Longrightarrow> P (ps ! i) \<Longrightarrow> 0 < cnt P ps"
  unfolding cnt_def by (rule length_filter_pos)

lemma cnt_unique:
  assumes "cnt P ps \<le> 1" "i < length ps" "j < length ps" "i \<noteq> j" "P (ps ! i)"
  shows "\<not> P (ps ! j)"
proof
  assume "P (ps ! j)"
  then have "{i, j} \<subseteq> {k. k < length ps \<and> P (ps ! k)}" using assms by auto
  then have "card {i, j} \<le> cnt P ps"
    unfolding cnt_def length_filter_conv_card by (intro card_mono) auto
  then show False using assms by simp
qed

lemma cnt_zero_iff: "cnt P ps = 0 \<longleftrightarrow> list_all (\<lambda>pc. \<not> P pc) ps"
  by (auto simp: cnt_def list_all_iff filter_empty_conv)

lemma cnt_mono_eq:
  assumes "\<And>pc. Q pc \<Longrightarrow> P pc"
  shows "cnt Q ps = cnt P ps \<longleftrightarrow> list_all (\<lambda>pc. P pc \<longrightarrow> Q pc) ps"
proof (induction ps)
  case (Cons p ps)
  have "cnt Q ps \<le> cnt P ps" using assms unfolding cnt_def
    by (induction ps) (auto intro: le_SucI)
  with Cons assms [of p] show ?case by (auto simp: cnt_def)
qed (simp add: cnt_def)

lemma cnt_update_one_if:
  "i < length ps \<Longrightarrow> cnt P (ps[i := pc]) + one_if (P (ps ! i)) = cnt P ps + one_if (P pc)"
  using cnt_update [of i ps P pc] by (simp add: one_if_def)

lemma one_if_le_cnt: "i < length ps \<Longrightarrow> one_if (P (ps ! i)) \<le> cnt P ps"
  using cnt_pos [of i ps P] by (auto simp: one_if_def)

lemma in_set_tlD: "x \<in> set (tl xs) \<Longrightarrow> x \<in> set xs"
  by (cases xs) auto

end
