(* ===== verification/Codec.thy ===== *)
theory Codec
  imports Prpc_Prelude
begin

unbundle bit_operations_syntax

text \<open>
  The text codecs of \<open>src/codec\<close>: \<open>Base64\<close> (\<open>Base64.h\<close>) and the percent encoding of
  \<open>URICode\<close> (\<open>URICode.h\<close>). A C++ \<open>std::string\<close> is a \<open>string\<close>; a raw buffer is a \<open>byte list\<close>.
  Integer promotion is kept: \<open>unsigned char\<close> operands of a shift are widened to 32 bits first.
  A read past the terminator of a string or outside a table is \<open>Out_of_bounds\<close>.
\<close>

section \<open>Base64\<close>

definition encode_table :: string where
  "encode_table = ''ABCDEFGHIJKLMNOPQRSTUVWXYZabcdefghijklmnopqrstuvwxyz0123456789+/''"

definition decode_table :: "nat list" where
  "decode_table =
     replicate 43 0 @ [62] @ replicate 3 0 @ [63] @ [52..<62] @ replicate 7 0 @
     [0..<26] @ replicate 6 0 @ [26..<52]"

definition is_base64 :: "char \<Rightarrow> bool" where
  "is_base64 c \<longleftrightarrow> c = CHR ''+'' \<or> c = CHR ''/''
     \<or> (48 \<le> (of_char c :: nat) \<and> (of_char c :: nat) \<le> 57)
     \<or> (65 \<le> (of_char c :: nat) \<and> (of_char c :: nat) \<le> 90)
     \<or> (97 \<le> (of_char c :: nat) \<and> (of_char c :: nat) \<le> 122)"

definition encode_char :: "32 word \<Rightarrow> char" where
  "encode_char k = encode_table ! unat k"

fun base64_encode :: "byte list \<Rightarrow> string" where
  "base64_encode (x # y # z # rest) =
     (let b0 = ucast x :: 32 word; b1 = ucast y :: 32 word; b2 = ucast z :: 32 word in
      encode_char (drop_bit 2 b0) #
      encode_char ((push_bit 4 b0 OR drop_bit 4 b1) AND 0x3F) #
      encode_char ((push_bit 2 b1 OR drop_bit 6 b2) AND 0x3F) #
      encode_char (b2 AND 0x3F) # base64_encode rest)"
| "base64_encode [x] =
     (let b0 = ucast x :: 32 word in
      [encode_char (drop_bit 2 (b0 AND 0xFC)),
       encode_char (push_bit 4 (b0 AND 0x03)), CHR ''='', CHR ''=''])"
| "base64_encode [x, y] =
     (let b0 = ucast x :: 32 word; b1 = ucast y :: 32 word in
      [encode_char (drop_bit 2 (b0 AND 0xFC)),
       encode_char (push_bit 4 (b0 AND 0x03) OR drop_bit 4 (b1 AND 0xF0)),
       encode_char (push_bit 2 (b1 AND 0x0F)), CHR ''=''])"
| "base64_encode [] = []"

text \<open>\<open>input[in_idx]\<close>: reading at the length yields the terminator, past it is undefined.\<close>

definition str_at :: "string \<Rightarrow> nat \<Rightarrow> char res" where
  "str_at s i = (if i < length s then Inr (s ! i)
                 else if i = length s then Inr (CHR 0x00) else Inl Out_of_bounds)"

text \<open>\<open>decode_table[static_cast<size_t>(c)]\<close>: a negative \<open>char\<close> becomes a huge index.\<close>

definition decode_char :: "char \<Rightarrow> (32 word) res" where
  "decode_char c = (if (of_char c :: nat) < length decode_table
                    then Inr (word_of_nat (decode_table ! of_char c)) else Inl Out_of_bounds)"

text \<open>One round of the loop of \<open>base64_decode\<close>: the bytes written and the next \<open>in_idx\<close>.\<close>

definition decode_round :: "string \<Rightarrow> nat \<Rightarrow> (byte list \<times> nat) res" where
  "decode_round s i =
     rbind (str_at s i) (\<lambda>c0.
     rbind (scheck (is_base64 c0)) (\<lambda>_.
     rbind (decode_char c0) (\<lambda>v0.
     rbind (str_at s (i + 1)) (\<lambda>c1.
     rbind (decode_char c1) (\<lambda>v1.
     (let value = push_bit 18 v0 + push_bit 12 v1;
          o0 = ucast (drop_bit 16 (value AND 0x00FF0000)) :: byte in
      rbind (str_at s (i + 2)) (\<lambda>c2.
      if c2 = CHR ''='' then Inr ([o0], i + 2) else
      rbind (scheck (is_base64 c2)) (\<lambda>_.
      rbind (decode_char c2) (\<lambda>v2.
      (let value = value + push_bit 6 v2;
           o1 = ucast (drop_bit 8 (value AND 0x0000FF00)) :: byte in
       rbind (str_at s (i + 3)) (\<lambda>c3.
       if c3 = CHR ''='' then Inr ([o0, o1], i + 3) else
       rbind (scheck (is_base64 c3)) (\<lambda>_.
       rbind (decode_char c3) (\<lambda>v3.
       (let value = value + v3; o2 = ucast (value AND 0x000000FF) :: byte in
        Inr ([o0, o1, o2], i + 4)))))))))))))))"

function base64_decode_loop :: "string \<Rightarrow> nat \<Rightarrow> nat \<Rightarrow> byte list \<Rightarrow> (byte list) res" where
  "base64_decode_loop s i in_idx out =
     (if i < length s then
        rbind (decode_round s in_idx) (\<lambda>(bs, in_idx').
          base64_decode_loop s (i + 4) in_idx' (out @ bs))
      else Inr out)"
  by pat_completeness auto
termination
  by (relation "measure (\<lambda>(s, i, in_idx, out). length s - i)") auto

text \<open>What is written to \<open>output\<close>, with the final zero byte, and \<open>out_len\<close>.\<close>

definition base64_decode :: "string \<Rightarrow> (byte list \<times> nat) res" where
  "base64_decode s = rbind (base64_decode_loop s 0 0 []) (\<lambda>out. Inr (out @ [0], length out))"

section \<open>URICode\<close>

definition char_code :: "char \<Rightarrow> nat" where
  "char_code c = of_char c"

definition is_alnum :: "char \<Rightarrow> bool" where
  "is_alnum c \<longleftrightarrow> (48 \<le> char_code c \<and> char_code c \<le> 57)
     \<or> (65 \<le> char_code c \<and> char_code c \<le> 90) \<or> (97 \<le> char_code c \<and> char_code c \<le> 122)"

definition hex_digits :: string where
  "hex_digits = ''0123456789ABCDEF''"

text \<open>
  \<open>_hex[*i >> 4]\<close> with the signed \<open>char\<close> of the target: a byte of 128 or more is negative, the
  arithmetic shift keeps it negative and the index lies before the table.
\<close>

definition uri_encode_char :: "char \<Rightarrow> string res" where
  "uri_encode_char c =
     (if is_alnum c \<or> c = CHR ''_'' \<or> c = CHR ''-'' \<or> c = CHR ''.'' \<or> c = CHR ''~'' then Inr [c]
      else if 128 \<le> char_code c then Inl Out_of_bounds
      else Inr [CHR ''%'', hex_digits ! (char_code c div 16), hex_digits ! (char_code c mod 16)])"

fun uri_encode :: "string \<Rightarrow> string res" where
  "uri_encode [] = Inr []"
| "uri_encode (c # s) =
     rbind (uri_encode_char c) (\<lambda>e. rbind (uri_encode s) (\<lambda>es. Inr (e @ es)))"

definition letter_to_hex :: "char \<Rightarrow> nat res" where
  "letter_to_hex c =
     (if 65 \<le> char_code c \<and> char_code c \<le> 70 then Inr (char_code c + 10 - 65)
      else if 97 \<le> char_code c \<and> char_code c \<le> 102 then Inr (char_code c + 10 - 97)
      else if 48 \<le> char_code c \<and> char_code c \<le> 57 then Inr (char_code c - 48)
      else Inl Check_failed)"

fun uri_decode :: "string \<Rightarrow> string res" where
  "uri_decode [] = Inr []"
| "uri_decode (c # s) =
     (if c = CHR ''%'' then
        (case s of
           h # l # s' \<Rightarrow>
             rbind (letter_to_hex h) (\<lambda>hv. rbind (letter_to_hex l) (\<lambda>lv.
             rbind (uri_decode s') (\<lambda>r. Inr (char_of (16 * hv + lv) # r))))
         | _ \<Rightarrow> Inl Check_failed)
      else rbind (uri_decode s) (\<lambda>r. Inr (c # r)))"

section \<open>Round trip of Base64\<close>

declare base64_decode_loop.simps [simp del]

lemma length_encode_table: "length encode_table = 64"
  by (simp add: encode_table_def)

lemma length_decode_table: "length decode_table = 123"
  by (simp add: decode_table_def)


lemma decode_map: "map (\<lambda>c. decode_table ! of_char c) encode_table = [0..<64]"
  by code_simp

lemma base64_all: "list_all (\<lambda>c. is_base64 c \<and> (of_char c :: nat) < 123) encode_table"
  by (simp add: encode_table_def is_base64_def)

lemma encode_decode_nat:
  assumes "k < 64"
  shows "decode_table ! (of_char (encode_table ! k)) = k" "is_base64 (encode_table ! k)"
    "(of_char (encode_table ! k) :: nat) < 123"
proof -
  have "map (\<lambda>c. decode_table ! of_char c) encode_table ! k = [0..<64] ! k"
    by (simp only: decode_map)
  then show "decode_table ! (of_char (encode_table ! k)) = k"
    using assms by (simp add: length_encode_table)
  show "is_base64 (encode_table ! k)" "(of_char (encode_table ! k) :: nat) < 123"
    using base64_all assms by (simp_all add: list_all_length length_encode_table)
qed

lemma is_base64_not_pad: "is_base64 c \<Longrightarrow> c \<noteq> CHR ''=''"
  by (auto simp: is_base64_def)

lemma encode_char_ok:
  assumes "unat k < 64"
  shows "decode_char (encode_char k) = Inr k" "is_base64 (encode_char k)"
    "encode_char k \<noteq> CHR ''=''"
  using encode_decode_nat [OF assms]
  by (auto simp: decode_char_def encode_char_def length_decode_table dest: is_base64_not_pad)


lemma suc_sub: "\<not> n < 2 \<Longrightarrow> Suc (Suc (n - 2)) = n" "2 \<le> n \<Longrightarrow> Suc (Suc (n - 2)) = n"
  by arith+

lemma no_bit_byte [dest]: "bit (b :: byte) n \<Longrightarrow> n < 8"
  using bit_imp_le_length [of b n] by simp

lemma masks:
  "(0x3F :: 32 word) = mask 6" "(0x00FF0000 :: 32 word) = push_bit 16 (mask 8)"
  "(0x0000FF00 :: 32 word) = push_bit 8 (mask 8)" "(0x000000FF :: 32 word) = mask 8"
  "(0xFC :: 32 word) = push_bit 2 (mask 6)" "(0x03 :: 32 word) = mask 2"
  "(0xF0 :: 32 word) = push_bit 4 (mask 4)" "(0x0F :: 32 word) = mask 4"
  by (simp_all add: mask_eq_exp_minus_1)

lemma sextets_or:
  fixes v0 v1 v2 v3 :: "32 word"
  assumes "v1 = v1 AND mask 6" "v2 = v2 AND mask 6" "v3 = v3 AND mask 6"
  shows "push_bit 18 v0 + push_bit 12 v1 = push_bit 18 v0 OR push_bit 12 v1"
   "push_bit 18 v0 + push_bit 12 v1 + push_bit 6 v2 = push_bit 18 v0 OR push_bit 12 v1 OR push_bit 6 v2"
   "push_bit 18 v0 + push_bit 12 v1 + push_bit 6 v2 + v3 = push_bit 18 v0 OR push_bit 12 v1 OR push_bit 6 v2 OR v3"
proof -
  show 1: "push_bit 18 v0 + push_bit 12 v1 = push_bit 18 v0 OR push_bit 12 v1"
    by (rule disjunctive_add, subst assms(1)) (auto simp: bit_simps)
  show 2: "push_bit 18 v0 + push_bit 12 v1 + push_bit 6 v2 = push_bit 18 v0 OR push_bit 12 v1 OR push_bit 6 v2"
    unfolding 1 or.assoc [symmetric]
    by (rule disjunctive_add, subst assms(1), subst assms(2)) (auto simp: bit_simps)
  show "push_bit 18 v0 + push_bit 12 v1 + push_bit 6 v2 + v3 = push_bit 18 v0 OR push_bit 12 v1 OR push_bit 6 v2 OR v3"
    unfolding 2 or.assoc [symmetric]
    by (rule disjunctive_add, subst assms(1), subst assms(2), subst assms(3)) (auto simp: bit_simps)
qed


lemma sextet_of_three_bytes:
  fixes x y z :: byte
  defines "b0 \<equiv> ucast x :: 32 word" and "b1 \<equiv> ucast y :: 32 word" and "b2 \<equiv> ucast z :: 32 word"
  defines "v0 \<equiv> drop_bit 2 b0" and "v1 \<equiv> (push_bit 4 b0 OR drop_bit 4 b1) AND 0x3F"
    and "v2 \<equiv> (push_bit 2 b1 OR drop_bit 6 b2) AND 0x3F" and "v3 \<equiv> b2 AND 0x3F"
  shows "ucast (drop_bit 16 ((push_bit 18 v0 + push_bit 12 v1) AND 0x00FF0000)) = x"
    "ucast (drop_bit 8 ((push_bit 18 v0 + push_bit 12 v1 + push_bit 6 v2) AND 0x0000FF00)) = y"
    "ucast ((push_bit 18 v0 + push_bit 12 v1 + push_bit 6 v2 + v3) AND 0x000000FF) = z"
proof -
  have v: "v1 = v1 AND mask 6" "v2 = v2 AND mask 6" "v3 = v3 AND mask 6"
    unfolding assms masks by (simp_all add: and.assoc)
  show "ucast (drop_bit 16 ((push_bit 18 v0 + push_bit 12 v1) AND 0x00FF0000)) = x"
    unfolding sextets_or(1) [OF v] unfolding assms masks
    by (rule bit_word_eqI) (auto simp: bit_simps suc_sub)
  show "ucast (drop_bit 8 ((push_bit 18 v0 + push_bit 12 v1 + push_bit 6 v2) AND 0x0000FF00)) = y"
    unfolding sextets_or(2) [OF v] unfolding assms masks
    by (rule bit_word_eqI) (auto simp: bit_simps suc_sub)
  show "ucast ((push_bit 18 v0 + push_bit 12 v1 + push_bit 6 v2 + v3) AND 0x000000FF) = z"
    unfolding sextets_or(3) [OF v] unfolding assms masks
    by (rule bit_word_eqI) (auto simp: bit_simps suc_sub)
qed

lemma sextet_of_tail:
  fixes x y :: byte
  defines "b0 \<equiv> ucast x :: 32 word" and "b1 \<equiv> ucast y :: 32 word"
  defines "v0 \<equiv> drop_bit 2 (b0 AND 0xFC)" and "w1 \<equiv> push_bit 4 (b0 AND 0x03)"
    and "v1 \<equiv> push_bit 4 (b0 AND 0x03) OR drop_bit 4 (b1 AND 0xF0)"
    and "v2 \<equiv> push_bit 2 (b1 AND 0x0F)"
  shows "ucast (drop_bit 16 ((push_bit 18 v0 + push_bit 12 w1) AND 0x00FF0000)) = x"
    "ucast (drop_bit 16 ((push_bit 18 v0 + push_bit 12 v1) AND 0x00FF0000)) = x"
    "ucast (drop_bit 8 ((push_bit 18 v0 + push_bit 12 v1 + push_bit 6 v2) AND 0x0000FF00)) = y"
proof -
  have v: "v1 = v1 AND mask 6" "v2 = v2 AND mask 6" "w1 = w1 AND mask 6" "(0::32 word) = 0 AND mask 6"
    unfolding assms masks by (rule bit_word_eqI; auto simp: bit_simps)+
  show "ucast (drop_bit 16 ((push_bit 18 v0 + push_bit 12 w1) AND 0x00FF0000)) = x"
    unfolding sextets_or(1) [OF v(3,4,4)] unfolding assms masks
    by (rule bit_word_eqI) (auto simp: bit_simps suc_sub)
  show "ucast (drop_bit 16 ((push_bit 18 v0 + push_bit 12 v1) AND 0x00FF0000)) = x"
    unfolding sextets_or(1) [OF v(1,4,4)] unfolding assms masks
    by (rule bit_word_eqI) (auto simp: bit_simps suc_sub)
  show "ucast (drop_bit 8 ((push_bit 18 v0 + push_bit 12 v1 + push_bit 6 v2) AND 0x0000FF00)) = y"
    unfolding sextets_or(2) [OF v(1,2,4)] unfolding assms masks
    by (rule bit_word_eqI) (auto simp: bit_simps suc_sub)
qed


lemma sextet_lt: "(w :: 32 word) = w AND mask 6 \<Longrightarrow> unat w < 64"
  using mask_eq_iff [of w 6] by (simp flip: nat_uint_eq add: nat_less_iff)

lemma sextets_lt:
  fixes a b :: byte
  shows "unat (drop_bit 2 (ucast a :: 32 word)) < 64"
    "unat ((c :: 32 word) AND 0x3F) < 64"
    "unat (drop_bit 2 ((ucast a :: 32 word) AND 0xFC)) < 64"
    "unat (push_bit 4 ((ucast a :: 32 word) AND 0x03)) < 64"
    "unat (push_bit 4 ((ucast a :: 32 word) AND 0x03) OR drop_bit 4 ((ucast b :: 32 word) AND 0xF0)) < 64"
    "unat (push_bit 2 ((ucast b :: 32 word) AND 0x0F)) < 64"
  unfolding masks
  by (rule sextet_lt, rule bit_word_eqI; auto simp: bit_simps suc_sub)+

lemma str_at_append: "str_at (pre @ s) (length pre + k) = str_at s k"
  by (auto simp: str_at_def nth_append)

lemma decode_round_append:
  "decode_round (pre @ s) (length pre) =
     rbind (decode_round s 0) (\<lambda>(bs, n). Inr (bs, length pre + n))"
proof -
  note at = str_at_append [of pre s 0, simplified] str_at_append [of pre s]
  show ?thesis
    unfolding decode_round_def Let_def at add_0
    by (simp add: rbind_def split: sum.split)
qed

lemma decode_round_sextets:
  assumes "unat v0 < 64" "unat v1 < 64" "unat v2 < 64" "unat v3 < 64"
  shows "decode_round (encode_char v0 # encode_char v1 # encode_char v2 # encode_char v3 # s) 0 =
      Inr ([ucast (drop_bit 16 ((push_bit 18 v0 + push_bit 12 v1) AND 0x00FF0000)),
            ucast (drop_bit 8 ((push_bit 18 v0 + push_bit 12 v1 + push_bit 6 v2) AND 0x0000FF00)),
            ucast ((push_bit 18 v0 + push_bit 12 v1 + push_bit 6 v2 + v3) AND 0x000000FF)], 4)"
    "decode_round [encode_char v0, encode_char v1, CHR ''='', CHR ''=''] 0 =
      Inr ([ucast (drop_bit 16 ((push_bit 18 v0 + push_bit 12 v1) AND 0x00FF0000))], 2)"
    "decode_round [encode_char v0, encode_char v1, encode_char v2, CHR ''=''] 0 =
      Inr ([ucast (drop_bit 16 ((push_bit 18 v0 + push_bit 12 v1) AND 0x00FF0000)),
            ucast (drop_bit 8 ((push_bit 18 v0 + push_bit 12 v1 + push_bit 6 v2) AND 0x0000FF00))], 3)"
  using assms
  by (simp_all add: decode_round_def Let_def str_at_def encode_char_ok numeral_3_eq_3)

lemma decode_round_encode3:
  "decode_round (base64_encode (x # y # z # bs)) 0 = Inr ([x, y, z], 4)"
  unfolding base64_encode.simps Let_def
  by (simp only: decode_round_sextets [OF sextets_lt(1) sextets_lt(2,2,2)] sextet_of_three_bytes)

lemma decode_round_encode1: "decode_round (base64_encode [x]) 0 = Inr ([x], 2)"
  unfolding base64_encode.simps Let_def
  by (simp only: decode_round_sextets(2) [OF sextets_lt(3,4) sextets_lt(4,4)] sextet_of_tail)

lemma decode_round_encode2: "decode_round (base64_encode [x, y]) 0 = Inr ([x, y], 3)"
  unfolding base64_encode.simps Let_def
  by (simp only: decode_round_sextets(3) [OF sextets_lt(3,5,6,6)] sextet_of_tail)

lemma length_base64_encode: "length (base64_encode bs) = 4 * ((length bs + 2) div 3)"
  proof (induction bs rule: base64_encode.induct)
  case (1 x y z rest)
  have "(5 + length rest) div 3 = Suc ((length rest + 2) div 3)" by presburger
  with 1 show ?case by (simp add: Let_def)
qed (auto simp: Let_def)

lemma decode_loop_round:
  assumes "decode_round (base64_encode bs) 0 = Inr (os, n)" "bs \<noteq> []"
  shows "base64_decode_loop (pre @ base64_encode bs) (length pre) (length pre) out =
         base64_decode_loop (pre @ base64_encode bs) (length pre + 4) (length pre + n) (out @ os)"
proof -
  have "0 < length (base64_encode bs)"
    using assms(2) by (cases bs) (auto simp: length_base64_encode)
  then show ?thesis
    using assms(1) by (subst base64_decode_loop.simps) (simp add: decode_round_append)
qed

lemma decode_loop_end: "length s \<le> i \<Longrightarrow> base64_decode_loop s i n out = Inr out"
  by (subst base64_decode_loop.simps) simp

lemma decode_loop_encode:
  "base64_decode_loop (pre @ base64_encode bs) (length pre) (length pre) out = Inr (out @ bs)"
proof (induction bs arbitrary: pre out rule: base64_encode.induct)
  case (1 x y z rest)
  define e where "e = take 4 (base64_encode (x # y # z # rest))"
  have e: "base64_encode (x # y # z # rest) = e @ base64_encode rest" "length e = 4"
    by (simp_all add: e_def Let_def numeral_eq_Suc)
  have "base64_decode_loop ((pre @ e) @ base64_encode rest) (length (pre @ e)) (length (pre @ e))
      (out @ [x, y, z]) = Inr ((out @ [x, y, z]) @ rest)"
    by (rule "1.IH" [OF refl refl refl])
  moreover have "base64_decode_loop (pre @ base64_encode (x # y # z # rest)) (length pre) (length pre) out =
      base64_decode_loop (pre @ base64_encode (x # y # z # rest)) (length pre + 4) (length pre + 4) (out @ [x, y, z])"
    by (rule decode_loop_round [OF decode_round_encode3]) simp
  ultimately show ?case
    by (simp only: e) (simp add: e(2))
next
  case (2 x)
  show ?case
    by (simp add: decode_loop_round [OF decode_round_encode1] decode_loop_end length_base64_encode
        del: base64_encode.simps)
next
  case (3 x y)
  show ?case
    by (simp add: decode_loop_round [OF decode_round_encode2] decode_loop_end length_base64_encode
        del: base64_encode.simps)
next
  case 4
  show ?case by (simp add: decode_loop_end)
qed


text \<open>C28. Decoding the Base64 text of any byte sequence gives the bytes back, followed by a zero byte, and
  their number, with no check failing and no read outside the input or the table, whatever the length modulo three.
\<close>

theorem base64_round_trip: "base64_decode (base64_encode bs) = Inr (bs @ [0], length bs)"
  using decode_loop_encode [of "[]" bs "[]"] by (simp add: base64_decode_def)

section \<open>Round trip of URICode\<close>

lemma hex_map: "map letter_to_hex hex_digits = map Inr [0..<16]"
  by code_simp

lemma hex_chars: "list_all (\<lambda>c. c \<noteq> CHR ''%'') hex_digits" "length hex_digits = 16"
  by (simp_all add: hex_digits_def)

lemma letter_to_hex_digit: "k < 16 \<Longrightarrow> letter_to_hex (hex_digits ! k) = Inr k"
proof -
  assume k: "k < 16"
  have "map letter_to_hex hex_digits ! k = map Inr [0..<16] ! k"
    by (simp only: hex_map)
  with k show ?thesis by (simp add: hex_chars)
qed

lemma char_code_lt: "char_code c < 256"
  unfolding char_code_def by (rule nat_of_char_less_256)

lemma uri_decode_escape:
  "char_code c < 128 \<Longrightarrow>
     uri_decode (CHR ''%'' # hex_digits ! (char_code c div 16) # hex_digits ! (char_code c mod 16) # s) =
     rbind (uri_decode s) (\<lambda>r. Inr (c # r))"
  by (simp add: letter_to_hex_digit) (simp add: char_code_def)

lemma uri_decode_plain: "c \<noteq> CHR ''%'' \<Longrightarrow> uri_decode (c # s) = rbind (uri_decode s) (\<lambda>r. Inr (c # r))"
  by simp

lemma uri_encode_char_decode:
  assumes "uri_encode_char c = Inr e"
  shows "uri_decode (e @ s) = rbind (uri_decode s) (\<lambda>r. Inr (c # r))"
proof -
  have "c \<noteq> CHR ''%''" if "e = [c]"
    using that assms by (auto simp: uri_encode_char_def is_alnum_def char_code_def split: if_splits)
  then show ?thesis
    using assms
    by (auto simp: uri_encode_char_def uri_decode_escape simp del: uri_decode.simps
        intro: uri_decode_plain split: if_splits)
qed

text \<open>Whenever \<open>URICode::encode\<close> produces a text, \<open>URICode::decode\<close> of it is the original string,
  and encoding succeeds exactly on the strings of 7-bit characters.
\<close>

theorem uri_round_trip:
  "(case uri_encode s of Inr e \<Rightarrow> uri_decode e = Inr s \<and> list_all (\<lambda>c. char_code c < 128) s
    | Inl f \<Rightarrow> f = Out_of_bounds \<and> list_ex (\<lambda>c. 128 \<le> char_code c) s)"
proof (induction s)
  case (Cons c s)
  have c: "uri_encode_char c = (if 128 \<le> char_code c then Inl Out_of_bounds else uri_encode_char c)"
    by (auto simp: uri_encode_char_def is_alnum_def char_code_def)
  have "\<exists>e. uri_encode_char c = Inr e" if "\<not> 128 \<le> char_code c"
    using that by (auto simp: uri_encode_char_def)
  with c Cons show ?case
    by (cases "128 \<le> char_code c") (auto simp: uri_encode_char_decode split: sum.splits)
qed simp

end
