(* ===== verification/Rw_Spin_Lock.thy ===== *)
theory Rw_Spin_Lock
  imports Prpc_Prelude "HOL-Library.Signed_Division"
begin

unbundle bit_operations_syntax

text \<open>
  \<open>SpinLock\<close> and \<open>RWSpinLock\<close> of \<open>src/thread/SpinLock.h\<close>.

  The lock word is one \<open>std::atomic<int32_t>\<close>, kept as a 32-bit word. Every thread runs the public
  operations; a step of the model is one atomic access (a load, a \<open>fetch_add\<close>, a \<open>fetch_xor\<close>, a
  compare-and-swap) of one thread, so all interleavings of the accesses are covered. A thread's
  position inside an operation is a value of \<open>rw_pc\<close>; a value loaded by \<open>bits()\<close> and used by a later
  compare-and-swap is kept in it. \<open>compare_exchange_weak\<close> may fail spuriously.
\<close>

section \<open>The plain spin lock\<close>

text \<open>
  \<open>SpinLock\<close>: \<open>test_and_set\<close> in a loop (\<open>lock\<close>) or once (\<open>try_lock\<close>), \<open>clear\<close> in \<open>unlock\<close>.
\<close>

datatype sl_pc = Sl_idle | Sl_spin bool | Sl_held

record sl_state =
  flag :: bool
  sl_pcs :: "sl_pc list"

fun sl_moves :: "sl_pc \<Rightarrow> bool \<Rightarrow> (sl_pc \<times> bool) list" where
  "sl_moves Sl_idle f = [(Sl_spin False, f), (Sl_spin True, f)]"
| "sl_moves (Sl_spin once) f = [(if \<not> f then Sl_held else if once then Sl_idle else Sl_spin once, True)]"
| "sl_moves Sl_held f = [(Sl_idle, False)]"

definition sl_init :: "sl_state \<Rightarrow> bool" where
  "sl_init s \<longleftrightarrow> \<not> flag s \<and> list_all (\<lambda>pc. pc = Sl_idle) (sl_pcs s)"

inductive sl_step :: "sl_state \<Rightarrow> sl_state \<Rightarrow> bool" where
  sl_access: "i < length (sl_pcs s) \<Longrightarrow> (pc, f) \<in> set (sl_moves (sl_pcs s ! i) (flag s)) \<Longrightarrow>
     sl_step s (s\<lparr>flag := f, sl_pcs := (sl_pcs s)[i := pc]\<rparr>)"

definition sl_inv :: "sl_state \<Rightarrow> bool" where
  "sl_inv s \<longleftrightarrow> cnt (\<lambda>pc. pc = Sl_held) (sl_pcs s) = one_if (flag s)"

section \<open>The lock word and its tests\<close>

type_synonym i32 = "32 word"

definition UPGRADE :: i32 where "UPGRADE = 65536"
definition READER :: i32 where "READER = 2"
definition WRITER :: i32 where "WRITER = 1"

definition test_lock :: "i32 \<Rightarrow> bool" where
  "test_lock value \<longleftrightarrow> value = 0"

definition test_lock_shared :: "i32 \<Rightarrow> bool" where
  "test_lock_shared value \<longleftrightarrow> value AND WRITER = 0"

definition test_lock_shared_low :: "i32 \<Rightarrow> bool" where
  "test_lock_shared_low value \<longleftrightarrow> sint value < sint UPGRADE \<and> value AND WRITER = 0"

definition test_upgrade :: "i32 \<Rightarrow> bool" where
  "test_upgrade value \<longleftrightarrow> value AND WRITER = 0 \<and>
     sint value sdiv sint UPGRADE = (sint value smod sint UPGRADE) sdiv sint READER"

section \<open>Threads and atomic accesses\<close>

text \<open>
  The flag \<open>once\<close> distinguishes \<open>try_lock\<close>, \<open>try_lock_shared\<close>, \<open>try_lock_shared_low\<close> (return false
  on failure) from the looping \<open>lock\<close>, \<open>lock_shared\<close>, \<open>lock_shared_low\<close>; the flag \<open>low\<close> selects the
  low-priority shared variants. \<open>Shared_back\<close> is the window in which a reader that lost to a writer
  has already been counted and still has to take its \<open>READER\<close> back.
\<close>

datatype rw_pc =
    Idle
  | Lock_load bool | Lock_cas bool i32
  | Shared_load bool bool | Shared_add bool bool | Shared_back bool bool
  | Upgrade_load | Upgrade_cas i32
  | Reading | Writing | Downgrade_xor

definition shared_test :: "bool \<Rightarrow> i32 \<Rightarrow> bool" where
  "shared_test low value = (if low then test_lock_shared_low value else test_lock_shared value)"

definition retry :: "bool \<Rightarrow> rw_pc \<Rightarrow> rw_pc" where
  "retry once pc = (if once then Idle else pc)"

definition cas :: "i32 \<Rightarrow> i32 \<Rightarrow> rw_pc \<Rightarrow> i32 \<Rightarrow> rw_pc \<Rightarrow> (rw_pc \<times> i32) list" where
  "cas expected desired success cur failure =
     (if cur = expected then [(success, desired)] else []) @ [(failure, cur)]"

fun rw_moves :: "rw_pc \<Rightarrow> i32 \<Rightarrow> (rw_pc \<times> i32) list" where
  "rw_moves Idle v =
     [(Lock_load False, v), (Lock_load True, v),
      (Shared_load False False, v), (Shared_load False True, v),
      (Shared_load True False, v), (Shared_load True True, v)]"
| "rw_moves (Lock_load once) v =
     [(if test_lock v then Lock_cas once v else retry once (Lock_load once), v)]"
| "rw_moves (Lock_cas once value) v = cas value WRITER Writing v (retry once (Lock_load once))"
| "rw_moves (Shared_load low once) v =
     [(if shared_test low v then Shared_add low once else retry once (Shared_load low once), v)]"
| "rw_moves (Shared_add low once) v =
     [(if shared_test low v then Reading else Shared_back low once, v + READER)]"
| "rw_moves (Shared_back low once) v = [(retry once (Shared_load low once), v - READER)]"
| "rw_moves Reading v =
     [(Idle, v - READER), (Upgrade_load, v + UPGRADE)] @ cas READER WRITER Writing v Reading"
| "rw_moves Upgrade_load v = [(if test_upgrade v then Upgrade_cas v else Upgrade_load, v)]"
| "rw_moves (Upgrade_cas value) v = cas value (value - UPGRADE - READER + WRITER) Writing v Upgrade_load"
| "rw_moves Writing v = [(Idle, v XOR WRITER), (Downgrade_xor, v + READER)]"
| "rw_moves Downgrade_xor v = [(Reading, v XOR WRITER)]"

record rw_state =
  bits :: i32
  pcs :: "rw_pc list"

definition rw_init :: "rw_state \<Rightarrow> bool" where
  "rw_init s \<longleftrightarrow> bits s = 0 \<and> list_all (\<lambda>pc. pc = Idle) (pcs s) \<and> length (pcs s) < 2 ^ 15"

inductive rw_step :: "rw_state \<Rightarrow> rw_state \<Rightarrow> bool" where
  access: "i < length (pcs s) \<Longrightarrow> (pc, v) \<in> set (rw_moves (pcs s ! i) (bits s)) \<Longrightarrow>
     rw_step s (s\<lparr>bits := v, pcs := (pcs s)[i := pc]\<rparr>)"

text \<open>What a thread holds between operations, as \<open>lock_guard\<close>, \<open>shared_lock_guard\<close> and \<open>upgrade_guard\<close> see it.\<close>

definition holds_write :: "rw_pc \<Rightarrow> bool" where
  "holds_write pc \<longleftrightarrow> pc = Writing \<or> pc = Downgrade_xor"

definition holds_read :: "rw_pc \<Rightarrow> bool" where
  "holds_read pc \<longleftrightarrow> pc = Reading"

section \<open>Counting what is in the lock word\<close>

fun waits_upgrade :: "rw_pc \<Rightarrow> bool" where
  "waits_upgrade Upgrade_load = True"
| "waits_upgrade (Upgrade_cas _) = True"
| "waits_upgrade _ = False"

fun counts_reader :: "rw_pc \<Rightarrow> bool" where
  "counts_reader Reading = True"
| "counts_reader (Shared_back _ _) = True"
| "counts_reader Upgrade_load = True"
| "counts_reader (Upgrade_cas _) = True"
| "counts_reader Downgrade_xor = True"
| "counts_reader _ = False"

fun loaded_ok :: "rw_pc \<Rightarrow> bool" where
  "loaded_ok (Lock_cas _ v) = test_lock v"
| "loaded_ok (Upgrade_cas v) = test_upgrade v"
| "loaded_ok _ = True"

definition word_for :: "nat \<Rightarrow> nat \<Rightarrow> nat \<Rightarrow> i32" where
  "word_for w r u = word_of_nat (w + 2 * r + 65536 * u)"

definition rw_inv :: "rw_state \<Rightarrow> bool" where
  "rw_inv s \<longleftrightarrow>
     bits s = word_for (cnt holds_write (pcs s)) (cnt counts_reader (pcs s)) (cnt waits_upgrade (pcs s)) \<and>
     cnt holds_write (pcs s) \<le> 1 \<and>
     (cnt holds_write (pcs s) = 1 \<longrightarrow> cnt holds_read (pcs s) = 0) \<and>
     length (pcs s) < 2 ^ 15 \<and>
     list_all loaded_ok (pcs s)"

section \<open>Arithmetic of the lock word\<close>

lemma cnt_read_upgrade: "cnt holds_read ps + cnt waits_upgrade ps \<le> cnt counts_reader ps"
proof (induction ps)
  case (Cons p ps)
  then show ?case by (cases p) (auto simp: cnt_def holds_read_def)
qed (simp add: cnt_def)

lemma unat_word_for:
  assumes "w \<le> 1" "r < 2 ^ 15" "u < 2 ^ 15"
  shows "unat (word_for w r u) = w + 2 * r + 65536 * u"
proof -
  have "w + 2 * r + 65536 * u < 2 ^ 32" using assms by simp
  then show ?thesis unfolding word_for_def by (simp add: unat_of_nat del: of_nat_add of_nat_mult)
qed

lemma sint_word_for:
  assumes "w \<le> 1" "r < 2 ^ 15" "u < 2 ^ 15"
  shows "sint (word_for w r u) = int (w + 2 * r + 65536 * u)"
proof -
  have "w + 2 * r + 65536 * u < 2 ^ 31" using assms by simp
  then have "signed_take_bit 31 (int (w + 2 * r + 65536 * u)) = int (w + 2 * r + 65536 * u)"
    by (intro signed_take_bit_int_eq_self) auto
  moreover have "uint (word_for w r u) = int (w + 2 * r + 65536 * u)"
    by (simp only: uint_nat unat_word_for [OF assms])
  ultimately show ?thesis by (simp only: sint_uint) simp
qed

lemma even_word_for: "even (word_for w r u) \<longleftrightarrow> even w"
proof -
  have "word_for w r u = word_of_nat w + 2 * (word_of_nat r + 32768 * word_of_nat u)"
    by (simp add: word_for_def algebra_simps)
  then show ?thesis by (simp add: even_word_iff)
qed

lemma and_WRITER: "w \<le> 1 \<Longrightarrow> (word_for w r u AND WRITER = 0) = (w = 0)"
  by (auto simp: WRITER_def and_one_eq even_word_for le_Suc_eq mod_2_eq_odd)

lemma word_for_add: "word_for w r u + READER = word_for w (r + 1) u"
  "word_for w r u + UPGRADE = word_for w r (u + 1)"
  "word_for w (r + 1) u - READER = word_for w r u"
  by (simp_all add: word_for_def READER_def UPGRADE_def algebra_simps)

lemma word_for_xor: "word_for (Suc 0) r u XOR WRITER = word_for 0 r u"
  by (simp add: WRITER_def xor_one_eq even_word_for) (simp add: word_for_def)

lemma word_for_upgrade: "word_for 0 (r + 1) (u + 1) - UPGRADE - READER + WRITER = word_for 1 r u"
  by (simp add: word_for_def READER_def UPGRADE_def WRITER_def algebra_simps)

lemma sdiv_nonneg: "0 \<le> a \<Longrightarrow> 0 < b \<Longrightarrow> a sdiv b = a div b" for a b :: int
  by (cases "a = 0") (simp_all add: signed_divide_int_def)

lemma smod_nonneg: "0 \<le> a \<Longrightarrow> 0 < b \<Longrightarrow> a smod b = a mod b" for a b :: int
  by (cases "a = 0") (simp_all add: signed_modulo_int_def)

lemma test_upgrade_word_for:
  assumes "w \<le> 1" "r < 2 ^ 15" "u < 2 ^ 15"
  shows "test_upgrade (word_for w r u) \<longleftrightarrow> w = 0 \<and> u = r"
proof -
  have c: "sint UPGRADE = 65536" "sint READER = 2"
    by (simp_all add: UPGRADE_def READER_def)
  have "int (w + 2 * r + 65536 * u) div 65536 = int u"
    "int (w + 2 * r + 65536 * u) mod 65536 div 2 = int r"
    using assms by simp_all
  then show ?thesis
    using assms unfolding test_upgrade_def c
    by (auto simp: and_WRITER sint_word_for sdiv_nonneg smod_nonneg)
qed

lemma test_lock_word_for:
  assumes "w \<le> 1" "r < 2 ^ 15" "u < 2 ^ 15"
  shows "test_lock (word_for w r u) \<longleftrightarrow> w = 0 \<and> r = 0 \<and> u = 0"
  using unat_word_for [OF assms] unfolding test_lock_def
  by (metis add_eq_0_iff_both_eq_0 mult_eq_0_iff unat_0 unat_eq_zero zero_neq_numeral)

lemma shared_test_no_writer: "shared_test low v \<Longrightarrow> v AND WRITER = 0"
  by (auto simp: shared_test_def test_lock_shared_def test_lock_shared_low_def split: if_splits)


lemma word_for_inj:
  assumes "word_for w r u = word_for w' r' u'"
    and "w \<le> 1" "r < 2 ^ 15" "u < 2 ^ 15" "w' \<le> 1" "r' < 2 ^ 15" "u' < 2 ^ 15"
  shows "w = w' \<and> r = r' \<and> u = u'"
proof -
  let ?n = "w + 2 * r + 65536 * u" and ?n' = "w' + 2 * r' + 65536 * u'"
  have "?n = ?n'" using assms unat_word_for by metis
  moreover have "u = ?n div 65536" "u' = ?n' div 65536" "r = ?n mod 65536 div 2" "r' = ?n' mod 65536 div 2"
    using assms(2-) by simp_all
  ultimately show ?thesis by (metis add_right_cancel)
qed

lemma word_for_sub_reader: "0 < r \<Longrightarrow> word_for w r u - READER = word_for w (r - 1) u"
  using word_for_add(3) [of w "r - 1" u] by simp

lemma word_for_upgraded:
  "0 < r \<Longrightarrow> 0 < u \<Longrightarrow>
     word_for 0 r u - UPGRADE - READER + WRITER = word_for 1 (r - 1) (u - 1)"
  using word_for_upgrade [of "r - 1" "u - 1"] by simp

lemma word_for_consts: "READER = word_for 0 1 0" "WRITER = word_for 1 0 0" "0 = word_for 0 0 0"
  by (simp_all add: word_for_def READER_def WRITER_def)

lemma word_for_eq_READER:
  assumes "w \<le> 1" "r < 2 ^ 15" "u < 2 ^ 15"
  shows "word_for w r u = READER \<longleftrightarrow> w = 0 \<and> r = 1 \<and> u = 0"
  using word_for_inj [of w r u 0 1 0] assms by (auto simp: word_for_consts)

section \<open>The invariant\<close>

text \<open>
  The invariant over the counters alone: \<open>w\<close> threads hold the write lock, \<open>r\<close> are counted as
  readers, \<open>u\<close> wait in \<open>upgrade\<close>, \<open>h\<close> hold the read lock.
\<close>

definition counters_ok :: "nat \<Rightarrow> nat \<Rightarrow> nat \<Rightarrow> nat \<Rightarrow> bool" where
  "counters_ok w r u h \<longleftrightarrow>
     w \<le> 1 \<and> (w = 1 \<longrightarrow> h = 0) \<and> h + u \<le> r \<and> r < 2 ^ 15 \<and> u < 2 ^ 15"

lemma move_counters:
  assumes ok: "counters_ok w r u h"
    and move: "(pc, v) \<in> set (rw_moves p (word_for w r u))"
    and loaded: "loaded_ok p"
    and pos: "one_if (holds_write p) \<le> w" "one_if (counts_reader p) \<le> r"
      "one_if (waits_upgrade p) \<le> u" "one_if (holds_read p) \<le> h"
    and w': "w' + one_if (holds_write p) = w + one_if (holds_write pc)"
    and r': "r' + one_if (counts_reader p) = r + one_if (counts_reader pc)"
    and u': "u' + one_if (waits_upgrade p) = u + one_if (waits_upgrade pc)"
    and h': "h' + one_if (holds_read p) = h + one_if (holds_read pc)"
  shows "v = word_for w' r' u' \<and> w' \<le> 1 \<and> (w' = 1 \<longrightarrow> h' = 0) \<and> loaded_ok pc"
proof (cases p)
  case Idle
  then show ?thesis using assms
    by (auto simp: holds_write_def holds_read_def counters_ok_def)
next
  case (Lock_load x)
  then show ?thesis using assms
    by (auto simp: holds_write_def holds_read_def counters_ok_def retry_def split: if_splits)
next
  case (Lock_cas x y)
  then show ?thesis using assms
    by (auto simp: holds_write_def holds_read_def counters_ok_def retry_def cas_def
        test_lock_word_for word_for_consts(2) le_Suc_eq split: if_splits)
next
  case (Shared_load x y)
  then show ?thesis using assms
    by (auto simp: holds_write_def holds_read_def counters_ok_def retry_def split: if_splits)
next
  case (Shared_add x y)
  then show ?thesis using assms
    by (auto simp: holds_write_def holds_read_def counters_ok_def word_for_add and_WRITER
        dest: shared_test_no_writer split: if_splits)
next
  case (Shared_back x y)
  then show ?thesis using assms
    by (auto simp: holds_write_def holds_read_def counters_ok_def retry_def word_for_sub_reader
        split: if_splits)
next
  case Upgrade_load
  then show ?thesis using assms
    by (auto simp: holds_write_def holds_read_def counters_ok_def split: if_splits)
next
  case (Upgrade_cas x)
  then show ?thesis using assms
    by (auto simp: holds_write_def holds_read_def counters_ok_def cas_def test_upgrade_word_for
        word_for_upgraded le_Suc_eq split: if_splits)
next
  case Reading
  then show ?thesis using assms
    by (auto simp: holds_write_def holds_read_def counters_ok_def cas_def word_for_sub_reader
        word_for_add word_for_eq_READER word_for_consts(2) le_Suc_eq split: if_splits)
next
  case Writing
  then show ?thesis using assms
    by (auto simp: holds_write_def holds_read_def counters_ok_def word_for_add word_for_xor
        split: if_splits)
next
  case Downgrade_xor
  then show ?thesis using assms
    by (auto simp: holds_write_def holds_read_def counters_ok_def word_for_xor split: if_splits)
qed


lemma rw_inv_counters:
  assumes "rw_inv s"
  shows "counters_ok (cnt holds_write (pcs s)) (cnt counts_reader (pcs s))
     (cnt waits_upgrade (pcs s)) (cnt holds_read (pcs s))"
  using assms cnt_read_upgrade [of "pcs s"] cnt_le [of counts_reader "pcs s"]
    cnt_le [of waits_upgrade "pcs s"]
  by (auto simp: rw_inv_def counters_ok_def)

lemma rw_inv_step:
  assumes inv: "rw_inv s" and step: "rw_step s t"
  shows "rw_inv t"
  using step
proof cases
  case (access i pc v)
  let ?ps = "pcs s"
  have b: "bits s = word_for (cnt holds_write ?ps) (cnt counts_reader ?ps) (cnt waits_upgrade ?ps)"
    and len: "length ?ps < 2 ^ 15" and ok: "list_all loaded_ok ?ps"
    using inv by (auto simp: rw_inv_def)
  have li: "loaded_ok (?ps ! i)"
    using ok access(2) by (simp add: list_all_length)
  note m = move_counters [OF rw_inv_counters [OF inv] access(3) [unfolded b] li
      one_if_le_cnt [OF access(2)] one_if_le_cnt [OF access(2)] one_if_le_cnt [OF access(2)]
      one_if_le_cnt [OF access(2)] cnt_update_one_if [OF access(2)] cnt_update_one_if [OF access(2)]
      cnt_update_one_if [OF access(2)] cnt_update_one_if [OF access(2)]]
  have "list_all loaded_ok (?ps[i := pc])"
    using ok m access(2) by (auto simp: list_all_length nth_list_update)
  then show ?thesis
    using m len access(1) by (auto simp: rw_inv_def)
qed

lemma cnt_idle:
  assumes "list_all (\<lambda>pc. pc = Idle) ps" "\<not> P Idle"
  shows "cnt P ps = 0"
  using assms by (auto simp: cnt_zero_iff list_all_iff)

lemma rw_inv_init: "rw_init s \<Longrightarrow> rw_inv s"
  by (auto simp: rw_init_def rw_inv_def word_for_def cnt_idle holds_write_def list_all_iff)

interpretation rw: inductive_invariant rw_init rw_step rw_inv
  by unfold_locales (auto intro: rw_inv_init rw_inv_step)


lemma sl_inv_step: "sl_inv s \<Longrightarrow> sl_step s t \<Longrightarrow> sl_inv t"
proof (erule sl_step.cases)
  fix i s' pc f
  assume inv: "sl_inv s" and st: "s = s'" "t = s'\<lparr>flag := f, sl_pcs := (sl_pcs s')[i := pc]\<rparr>"
    and i: "i < length (sl_pcs s')" and m: "(pc, f) \<in> set (sl_moves (sl_pcs s' ! i) (flag s'))"
  show "sl_inv t"
    using cnt_update_one_if [OF i, of "\<lambda>pc. pc = Sl_held" pc] one_if_le_cnt [OF i, of "\<lambda>pc. pc = Sl_held"]
      inv m st
    by (cases "sl_pcs s' ! i") (auto simp: sl_inv_def one_if_def split: if_splits)
qed

interpretation sl: inductive_invariant sl_init sl_step sl_inv
  by unfold_locales
    (auto simp: sl_init_def sl_inv_def cnt_zero_iff list_all_iff dest: sl_inv_step [unfolded sl_inv_def])

section \<open>Properties\<close>

text \<open>C24. Mutual exclusion of the reader/writer spin lock: for any number of threads below 2^15, any interleaving of
  their atomic accesses to the lock word and any spurious failure of the weak compare-and-swap, whenever a thread
  holds the write lock (through \<open>lock\<close>, \<open>try_lock\<close>, \<open>upgrade\<close> or \<open>try_upgrade\<close>) no other thread holds the read or
  the write lock.\<close>

theorem rw_mutual_exclusion:
  assumes "reach rw_init rw_step s"
    and "i < length (pcs s)" "j < length (pcs s)" "i \<noteq> j"
    and "holds_write (pcs s ! i)"
  shows "\<not> holds_write (pcs s ! j) \<and> \<not> holds_read (pcs s ! j)"
proof -
  have inv: "rw_inv s" using assms(1) by (rule rw.inv_reach)
  then have le: "cnt holds_write (pcs s) \<le> 1" by (simp add: rw_inv_def)
  moreover have "0 < cnt holds_write (pcs s)" using assms by (blast intro: cnt_pos)
  ultimately have "cnt holds_read (pcs s) = 0" using inv by (simp add: rw_inv_def)
  then show ?thesis
    using cnt_unique [OF le assms(2-)] cnt_pos [of j "pcs s" holds_read] assms(3) by auto
qed

definition writer_run :: rw_state where
  "writer_run = \<lparr>bits = 3, pcs = [Writing, Shared_back False True]\<rparr>"

lemma writer_run_reach: "reach rw_init rw_step writer_run"
proof -
  let ?s = "\<lambda>b ps. \<lparr>bits = b, pcs = ps\<rparr>"
  have st: "rw_step (?s b ps) (?s v (ps[i := pc]))"
    if "i < length ps" "(pc, v) \<in> set (rw_moves (ps ! i) b)" for b ps i pc v
    using access [of i "?s b ps" pc v] that by simp
  have "rw_init (?s 0 [Idle, Idle])" by (simp add: rw_init_def)
  then have "reach rw_init rw_step (?s 0 [Idle, Idle])" by (rule reach_init)
  then have "reach rw_init rw_step (?s 0 [Lock_load False, Idle])"
    by (rule reach_step) (use st [of 0 "[Idle, Idle]" "Lock_load False" 0 0] in simp)
  then have "reach rw_init rw_step (?s 0 [Lock_cas False 0, Idle])"
    by (rule reach_step)
      (use st [of 0 "[Lock_load False, Idle]" "Lock_cas False 0" 0 0] in \<open>simp add: test_lock_def\<close>)
  then have "reach rw_init rw_step (?s 0 [Lock_cas False 0, Shared_load False True])"
    by (rule reach_step)
      (use st [of 1 "[Lock_cas False 0, Idle]" "Shared_load False True" 0 0] in simp)
  then have "reach rw_init rw_step (?s 0 [Lock_cas False 0, Shared_add False True])"
    by (rule reach_step)
      (use st [of 1 "[Lock_cas False 0, Shared_load False True]" "Shared_add False True" 0 0] in
        \<open>simp add: shared_test_def test_lock_shared_def\<close>)
  then have "reach rw_init rw_step (?s 1 [Writing, Shared_add False True])"
    by (rule reach_step)
      (use st [of 0 "[Lock_cas False 0, Shared_add False True]" Writing 1 0] in
        \<open>simp add: cas_def WRITER_def\<close>)
  then have "reach rw_init rw_step (?s 3 [Writing, Shared_back False True])"
    by (rule reach_step)
      (use st [of 1 "[Writing, Shared_add False True]" "Shared_back False True" 3 1] in
        \<open>simp add: shared_test_def test_lock_shared_def WRITER_def READER_def\<close>)
  then show ?thesis by (simp add: writer_run_def)
qed

theorem rw_mutual_exclusion_witness:
  "holds_write (pcs writer_run ! 0) \<and> \<not> holds_read (pcs writer_run ! 1)"
  using rw_mutual_exclusion [OF writer_run_reach, of 0 1]
  by (simp add: writer_run_def holds_write_def)

text \<open>In every reachable state the tests on the lock word decide exactly what they are named for: \<open>test_lock\<close>
  passes iff no thread holds or is counted in the lock; \<open>test_lock_shared\<close> iff there is no writer;
  \<open>test_lock_shared_low\<close> iff there is neither a writer nor a pending upgrade; \<open>test_upgrade\<close> iff there is no writer
  and every counted reader is itself waiting in \<open>upgrade\<close>. Hence simultaneous upgrades cannot deadlock each other,
  and a pending upgrade keeps out \<open>lock\<close> and \<open>lock_shared_low\<close>, the priorities the header comment promises.\<close>

theorem rw_tests_decide:
  assumes "reach rw_init rw_step s"
  shows "test_lock (bits s) = list_all (\<lambda>pc. \<not> holds_write pc \<and> \<not> counts_reader pc) (pcs s) \<and>
     test_lock_shared (bits s) = list_all (\<lambda>pc. \<not> holds_write pc) (pcs s) \<and>
     test_lock_shared_low (bits s) = list_all (\<lambda>pc. \<not> holds_write pc \<and> \<not> waits_upgrade pc) (pcs s) \<and>
     test_upgrade (bits s) =
      list_all (\<lambda>pc. \<not> holds_write pc \<and> (counts_reader pc \<longrightarrow> waits_upgrade pc)) (pcs s)"
proof -
  let ?w = "cnt holds_write (pcs s)" and ?r = "cnt counts_reader (pcs s)"
    and ?u = "cnt waits_upgrade (pcs s)"
  have inv: "rw_inv s" using assms by (rule rw.inv_reach)
  have b: "bits s = word_for ?w ?r ?u" using inv by (simp add: rw_inv_def)
  have ok: "?w \<le> 1" "?r < 2 ^ 15" "?u < 2 ^ 15" "?u \<le> ?r"
    using rw_inv_counters [OF inv] by (auto simp: counters_ok_def)
  have up: "waits_upgrade pc \<Longrightarrow> counts_reader pc" for pc by (cases pc) auto
  have low: "sint (word_for ?w ?r ?u) < 65536 \<longleftrightarrow> ?u = 0"
    using ok sint_word_for [OF ok(1-3)] by auto
  have low': "sint UPGRADE = 65536" by (simp add: UPGRADE_def)
  have "test_lock (bits s) = list_all (\<lambda>pc. \<not> holds_write pc \<and> \<not> counts_reader pc) (pcs s)"
    using ok up by (auto simp: b test_lock_word_for cnt_zero_iff list_all_iff)
  moreover have "test_lock_shared (bits s) = list_all (\<lambda>pc. \<not> holds_write pc) (pcs s)"
    using ok by (simp add: b test_lock_shared_def and_WRITER cnt_zero_iff)
  moreover have "test_lock_shared_low (bits s) =
      list_all (\<lambda>pc. \<not> holds_write pc \<and> \<not> waits_upgrade pc) (pcs s)"
    using ok low unfolding b test_lock_shared_low_def low'
    by (auto simp: and_WRITER cnt_zero_iff list_all_iff)
  moreover have "test_upgrade (bits s) =
      list_all (\<lambda>pc. \<not> holds_write pc \<and> (counts_reader pc \<longrightarrow> waits_upgrade pc)) (pcs s)"
    using ok cnt_mono_eq [OF up, where ps = "pcs s"]
    by (auto simp: b test_upgrade_word_for cnt_zero_iff list_all_iff)
  ultimately show ?thesis by blast
qed

theorem rw_tests_decide_witness:
  "\<not> test_lock_shared (bits writer_run) \<and> \<not> list_all (\<lambda>pc. \<not> holds_write pc) (pcs writer_run)"
  using rw_tests_decide [OF writer_run_reach]
  by (simp add: writer_run_def holds_write_def)

text \<open>Mutual exclusion of \<open>SpinLock\<close>: in every reachable state of any number of threads at most one thread is
  between a successful \<open>try_lock\<close>/\<open>lock\<close> and its \<open>unlock\<close>, and the flag is set exactly while there is one.\<close>

theorem spin_lock_exclusion:
  assumes "reach sl_init sl_step s"
  shows "cnt (\<lambda>pc. pc = Sl_held) (sl_pcs s) = one_if (flag s)"
  using sl.inv_reach [OF assms] by (simp add: sl_inv_def)

theorem spin_lock_exclusion_witness:
  "cnt (\<lambda>pc. pc = Sl_held) (sl_pcs \<lparr>flag = False, sl_pcs = [Sl_idle, Sl_spin False]\<rparr>) = 0"
proof -
  have "sl_init \<lparr>flag = False, sl_pcs = [Sl_idle, Sl_idle]\<rparr>" by (simp add: sl_init_def)
  then have "reach sl_init sl_step \<lparr>flag = False, sl_pcs = [Sl_idle, Sl_idle]\<rparr>" by (rule reach_init)
  then have "reach sl_init sl_step \<lparr>flag = False, sl_pcs = [Sl_idle, Sl_spin False]\<rparr>"
    by (rule reach_step)
      (use sl_access [of 1 "\<lparr>flag = False, sl_pcs = [Sl_idle, Sl_idle]\<rparr>" "Sl_spin False" False] in simp)
  from spin_lock_exclusion [OF this] show ?thesis by simp
qed

end
