(* ===== verification/Mpsc_Queue.thy ===== *)
theory Mpsc_Queue
  imports Prpc_Prelude
begin

text \<open>
  \<open>MpscQueue\<close> of \<open>src/thread/MpscQueue.h\<close>: a linked queue with any number of producers and one
  consumer.

  The nodes live in an explicit heap, a node address is a natural number and \<open>fresh\<close> is the next
  address \<open>pico_new\<close> returns; touching a deleted node is \<open>Inl Out_of_bounds\<close>. The first part has the
  operations as they run alone; the second has them cut at their atomic accesses, with every
  interleaving of the producers and the consumer.
\<close>

section \<open>Nodes and operations\<close>

record 'a node =
  val :: "'a option"
  nxt :: "nat option"

record 'a mpsc =
  heap :: "nat \<Rightarrow> 'a node option"
  tail :: nat
  head :: nat
  fresh :: nat

definition new_node :: "'a option \<Rightarrow> 'a mpsc \<Rightarrow> nat \<times> 'a mpsc" where
  "new_node v q =
     (fresh q, q\<lparr>heap := (heap q)(fresh q \<mapsto> \<lparr>val = v, nxt = None\<rparr>), fresh := fresh q + 1\<rparr>)"

definition delete_node :: "nat \<Rightarrow> 'a mpsc \<Rightarrow> 'a mpsc res" where
  "delete_node p q =
     (case heap q p of None \<Rightarrow> Inl Out_of_bounds | Some _ \<Rightarrow> Inr (q\<lparr>heap := (heap q)(p := None)\<rparr>))"

definition load_next :: "nat \<Rightarrow> 'a mpsc \<Rightarrow> nat option res" where
  "load_next p q = (case heap q p of None \<Rightarrow> Inl Out_of_bounds | Some n \<Rightarrow> Inr (nxt n))"

definition store_next :: "nat \<Rightarrow> nat \<Rightarrow> 'a mpsc \<Rightarrow> 'a mpsc res" where
  "store_next p n q =
     (case heap q p of None \<Rightarrow> Inl Out_of_bounds
      | Some nd \<Rightarrow> Inr (q\<lparr>heap := (heap q)(p \<mapsto> nd\<lparr>nxt := Some n\<rparr>)\<rparr>))"

definition exchange_head :: "nat \<Rightarrow> 'a mpsc \<Rightarrow> nat \<times> 'a mpsc" where
  "exchange_head n q = (head q, q\<lparr>head := n\<rparr>)"

definition take_val :: "nat \<Rightarrow> 'a mpsc \<Rightarrow> ('a option \<times> 'a mpsc) res" where
  "take_val n q =
     (case heap q n of None \<Rightarrow> Inl Out_of_bounds
      | Some nd \<Rightarrow> Inr (val nd, q\<lparr>heap := (heap q)(n \<mapsto> nd\<lparr>val := None\<rparr>)\<rparr>))"

definition mpsc_new :: "'a mpsc" where
  "mpsc_new =
     (let (n, q) = new_node None \<lparr>heap = (\<lambda>_. None), tail = 0, head = 0, fresh = 0\<rparr>
      in q\<lparr>tail := n, head := n\<rparr>)"

definition push :: "'a \<Rightarrow> 'a mpsc \<Rightarrow> 'a mpsc res" where
  "push v q =
     (let (n, q1) = new_node (Some v) q;
          (prev_head, q2) = exchange_head n q1
      in store_next prev_head n q2)"

definition pop :: "'a mpsc \<Rightarrow> ('a option \<times> 'a mpsc) res" where
  "pop q =
     rbind (load_next (tail q) q) (\<lambda>next.
       case next of None \<Rightarrow> Inr (None, q)
       | Some n \<Rightarrow> rbind (take_val n q) (\<lambda>(v, q1).
           rbind (delete_node (tail q) (q1\<lparr>tail := n\<rparr>)) (\<lambda>q2. Inr (v, q2))))"

definition top :: "'a mpsc \<Rightarrow> 'a option res" where
  "top q =
     rbind (load_next (tail q) q) (\<lambda>next.
       case next of None \<Rightarrow> Inr None
       | Some n \<Rightarrow> (case heap q n of None \<Rightarrow> Inl Out_of_bounds | Some nd \<Rightarrow> Inr (val nd)))"

text \<open>The destructor, with \<open>fuel\<close> bounding the walk along the \<open>next\<close> pointers.\<close>

fun destroy_from :: "nat \<Rightarrow> nat \<Rightarrow> 'a mpsc \<Rightarrow> 'a mpsc res option" where
  "destroy_from 0 n q = None"
| "destroy_from (Suc fuel) n q =
     (case load_next n q of Inl e \<Rightarrow> Some (Inl e)
      | Inr next \<Rightarrow>
          (case delete_node n q of Inl e \<Rightarrow> Some (Inl e)
           | Inr q1 \<Rightarrow> (case next of None \<Rightarrow> Some (Inr q1) | Some m \<Rightarrow> destroy_from fuel m q1)))"

definition destroy :: "nat \<Rightarrow> 'a mpsc \<Rightarrow> 'a mpsc res option" where
  "destroy fuel q = destroy_from fuel (head q) q"

section \<open>Interleaved producers and one consumer\<close>

text \<open>
  \<open>Push_new n\<close>: the node is allocated; \<open>Push_link p n\<close>: the head was exchanged and \<open>p\<close> was the old
  head, its \<open>next\<close> is still to be stored. \<open>Pop_take n\<close>: the consumer saw \<open>next = n\<close>; \<open>Pop_delete t\<close>:
  the tail was moved on and the old dummy \<open>t\<close> is still to be deleted. \<open>pushed\<close> and \<open>popped\<close> record the
  values in the order of the exchanges and of the consumer's takes; \<open>broken\<close> is set by an access to
  a deleted node and by a take from a node whose value is gone.
\<close>

datatype push_pc = Push_idle | Push_new nat | Push_link nat nat

datatype pop_pc = Pop_idle | Pop_take nat | Pop_delete nat

record 'a mpsc_sys =
  queue :: "'a mpsc"
  prods :: "nat \<Rightarrow> push_pc"
  consumer :: pop_pc
  pushed :: "'a list"
  popped :: "'a list"
  broken :: bool

definition value_of :: "'a mpsc \<Rightarrow> nat \<Rightarrow> 'a option" where
  "value_of q n = (case heap q n of None \<Rightarrow> None | Some nd \<Rightarrow> val nd)"

definition update_queue :: "'a mpsc res \<Rightarrow> 'a mpsc_sys \<Rightarrow> 'a mpsc_sys" where
  "update_queue r s = (case r of Inl _ \<Rightarrow> s\<lparr>broken := True\<rparr> | Inr q \<Rightarrow> s\<lparr>queue := q\<rparr>)"

definition mpsc_init :: "'a mpsc_sys \<Rightarrow> bool" where
  "mpsc_init s \<longleftrightarrow> queue s = mpsc_new \<and> prods s = (\<lambda>_. Push_idle) \<and> consumer s = Pop_idle \<and>
     pushed s = [] \<and> popped s = [] \<and> \<not> broken s"

definition do_push_new :: "nat \<Rightarrow> 'a \<Rightarrow> 'a mpsc_sys \<Rightarrow> 'a mpsc_sys" where
  "do_push_new i v s =
     (let (n, q) = new_node (Some v) (queue s)
      in s\<lparr>queue := q, prods := (prods s)(i := Push_new n)\<rparr>)"

definition do_push_exchange :: "nat \<Rightarrow> nat \<Rightarrow> 'a mpsc_sys \<Rightarrow> 'a mpsc_sys" where
  "do_push_exchange i n s =
     (let (p, q) = exchange_head n (queue s)
      in s\<lparr>queue := q, prods := (prods s)(i := Push_link p n),
           pushed := pushed s @ (case value_of (queue s) n of None \<Rightarrow> [] | Some v \<Rightarrow> [v])\<rparr>)"

definition do_push_link :: "nat \<Rightarrow> nat \<Rightarrow> nat \<Rightarrow> 'a mpsc_sys \<Rightarrow> 'a mpsc_sys" where
  "do_push_link i p n s =
     update_queue (store_next p n (queue s)) (s\<lparr>prods := (prods s)(i := Push_idle)\<rparr>)"

definition do_pop_load :: "'a mpsc_sys \<Rightarrow> 'a mpsc_sys" where
  "do_pop_load s =
     (case load_next (tail (queue s)) (queue s) of
        Inl _ \<Rightarrow> s\<lparr>broken := True\<rparr>
      | Inr None \<Rightarrow> s
      | Inr (Some n) \<Rightarrow> s\<lparr>consumer := Pop_take n\<rparr>)"

definition do_pop_take :: "nat \<Rightarrow> 'a mpsc_sys \<Rightarrow> 'a mpsc_sys" where
  "do_pop_take n s =
     (case take_val n (queue s) of
        Inl _ \<Rightarrow> s\<lparr>broken := True\<rparr>
      | Inr (None, q) \<Rightarrow> s\<lparr>broken := True\<rparr>
      | Inr (Some v, q) \<Rightarrow>
          s\<lparr>queue := q\<lparr>tail := n\<rparr>, consumer := Pop_delete (tail (queue s)), popped := popped s @ [v]\<rparr>)"

definition do_pop_delete :: "nat \<Rightarrow> 'a mpsc_sys \<Rightarrow> 'a mpsc_sys" where
  "do_pop_delete t s = update_queue (delete_node t (queue s)) (s\<lparr>consumer := Pop_idle\<rparr>)"

inductive mpsc_step :: "'a mpsc_sys \<Rightarrow> 'a mpsc_sys \<Rightarrow> bool" where
  push_new: "prods s i = Push_idle \<Longrightarrow> mpsc_step s (do_push_new i v s)"
| push_exchange: "prods s i = Push_new n \<Longrightarrow> mpsc_step s (do_push_exchange i n s)"
| push_link: "prods s i = Push_link p n \<Longrightarrow> mpsc_step s (do_push_link i p n s)"
| pop_load: "consumer s = Pop_idle \<Longrightarrow> mpsc_step s (do_pop_load s)"
| pop_take: "consumer s = Pop_take n \<Longrightarrow> mpsc_step s (do_pop_take n s)"
| pop_delete: "consumer s = Pop_delete t \<Longrightarrow> mpsc_step s (do_pop_delete t s)"

section \<open>The chain of nodes\<close>

fun adj :: "'n list \<Rightarrow> 'n \<Rightarrow> 'n \<Rightarrow> bool" where
  "adj (x # y # zs) a b = ((a = x \<and> b = y) \<or> adj (y # zs) a b)"
| "adj _ a b = False"

lemma adj_append: "adj (ns @ [n]) a b \<longleftrightarrow> adj ns a b \<or> (ns \<noteq> [] \<and> a = last ns \<and> b = n)"
  by (induction ns a b rule: adj.induct) auto

lemma adj_mem: "adj ns a b \<Longrightarrow> a \<in> set ns \<and> b \<in> set ns"
  by (induction ns a b rule: adj.induct) auto

lemma adj_not_last: "distinct ns \<Longrightarrow> adj ns a b \<Longrightarrow> a \<noteq> last ns"
  by (induction ns a b rule: adj.induct) (auto split: if_splits)

lemma adj_fun: "distinct ns \<Longrightarrow> adj ns a b \<Longrightarrow> adj ns a c \<Longrightarrow> b = c"
  by (induction ns a b rule: adj.induct) (auto dest: adj_mem)

lemma adj_hd: "distinct (t # ns) \<Longrightarrow> adj (t # ns) t n \<Longrightarrow> \<exists>ms. ns = n # ms"
  by (cases ns) (auto dest: adj_mem)

text \<open>
  \<open>linking\<close> and \<open>unlinked\<close> are the pairs and the nodes the producers are working on. The invariant
  \<open>linked\<close>: the queue's nodes from the dummy to the newest are \<open>ns\<close>, and a missing \<open>next\<close> between
  two neighbours is exactly a producer that has exchanged the head and not yet stored the pointer.
\<close>

definition next_of :: "'a mpsc \<Rightarrow> nat \<Rightarrow> nat option" where
  "next_of q n = (case heap q n of None \<Rightarrow> None | Some nd \<Rightarrow> nxt nd)"

definition linking :: "(nat \<Rightarrow> push_pc) \<Rightarrow> (nat \<times> nat) set" where
  "linking ps = {(a, b). \<exists>i. ps i = Push_link a b}"

definition unlinked :: "(nat \<Rightarrow> push_pc) \<Rightarrow> nat set" where
  "unlinked ps = {n. \<exists>i. ps i = Push_new n}"

definition uniq :: "(nat \<Rightarrow> push_pc) \<Rightarrow> bool" where
  "uniq ps \<longleftrightarrow> (\<forall>i j. ps i = ps j \<longrightarrow> ps i \<noteq> Push_idle \<longrightarrow> i = j)"

definition shape :: "'a mpsc \<Rightarrow> nat list \<Rightarrow> bool" where
  "shape q ns \<longleftrightarrow> ns \<noteq> [] \<and> distinct ns \<and> hd ns = tail q \<and> last ns = head q \<and>
     next_of q (head q) = None \<and> (\<forall>n \<in> set ns. heap q n \<noteq> None) \<and>
     (\<forall>n. fresh q \<le> n \<longrightarrow> heap q n = None)"

definition links :: "(nat \<Rightarrow> nat option) \<Rightarrow> (nat \<times> nat) set \<Rightarrow> nat list \<Rightarrow> bool" where
  "links nx P ns \<longleftrightarrow> (\<forall>(a, b) \<in> P. adj ns a b) \<and>
     (\<forall>a b. adj ns a b \<longrightarrow> nx a = (if (a, b) \<in> P then None else Some b))"

definition news :: "'a mpsc \<Rightarrow> nat set \<Rightarrow> nat list \<Rightarrow> bool" where
  "news q N ns \<longleftrightarrow> (\<forall>n \<in> N. n \<notin> set ns \<and> heap q n \<noteq> None \<and> value_of q n \<noteq> None \<and> next_of q n = None)"

definition linked :: "'a mpsc \<Rightarrow> (nat \<Rightarrow> push_pc) \<Rightarrow> nat list \<Rightarrow> bool" where
  "linked q ps ns \<longleftrightarrow> shape q ns \<and> links (next_of q) (linking ps) ns \<and> news q (unlinked ps) ns \<and> uniq ps"

definition consumer_ok :: "'a mpsc \<Rightarrow> nat set \<Rightarrow> nat list \<Rightarrow> pop_pc \<Rightarrow> bool" where
  "consumer_ok q N ns c \<longleftrightarrow>
     (case c of Pop_idle \<Rightarrow> True
      | Pop_take n \<Rightarrow> next_of q (tail q) = Some n \<and> adj ns (tail q) n
      | Pop_delete t \<Rightarrow> t \<notin> set ns \<and> heap q t \<noteq> None \<and> t \<notin> N)"

definition mpsc_rel :: "'a mpsc_sys \<Rightarrow> nat list \<Rightarrow> 'a list \<Rightarrow> bool" where
  "mpsc_rel s ns pend \<longleftrightarrow> \<not> broken s \<and> linked (queue s) (prods s) ns \<and>
     consumer_ok (queue s) (unlinked (prods s)) ns (consumer s) \<and>
     pushed s = popped s @ pend \<and> map (value_of (queue s)) (tl ns) = map Some pend"

definition mpsc_inv :: "'a mpsc_sys \<Rightarrow> bool" where
  "mpsc_inv s \<longleftrightarrow> (\<exists>ns pend. mpsc_rel s ns pend)"

section \<open>Producers' bookkeeping\<close>

lemma active_upd:
  assumes "uniq ps" "x \<noteq> Push_idle"
  shows "(\<exists>j. (ps(i := y)) j = x) \<longleftrightarrow> x = y \<or> (x \<noteq> ps i \<and> (\<exists>j. ps j = x))"
  using assms by (auto simp: uniq_def split: if_splits)

lemma linking_upd:
  assumes "uniq ps"
  shows "ps i = Push_idle \<Longrightarrow> linking (ps(i := Push_new n)) = linking ps"
    and "ps i = Push_new n \<Longrightarrow> linking (ps(i := Push_link p n)) = insert (p, n) (linking ps)"
    and "ps i = Push_link p n \<Longrightarrow> linking (ps(i := Push_idle)) = linking ps - {(p, n)}"
  unfolding linking_def by (subst active_upd [OF assms]; auto)+

lemma unlinked_upd:
  assumes "uniq ps"
  shows "ps i = Push_idle \<Longrightarrow> unlinked (ps(i := Push_new n)) = insert n (unlinked ps)"
    and "ps i = Push_new n \<Longrightarrow> unlinked (ps(i := Push_link p n)) = unlinked ps - {n}"
    and "ps i = Push_link p n \<Longrightarrow> unlinked (ps(i := Push_idle)) = unlinked ps"
  unfolding unlinked_def by (subst active_upd [OF assms]; auto)+

lemma uniq_upd:
  "uniq ps \<Longrightarrow> uniq (ps(i := Push_idle))"
  "uniq ps \<Longrightarrow> n \<notin> unlinked ps \<Longrightarrow> uniq (ps(i := Push_new n))"
  "uniq ps \<Longrightarrow> (p, n) \<notin> linking ps \<Longrightarrow> uniq (ps(i := Push_link p n))"
  by (auto simp: uniq_def linking_def unlinked_def)

section \<open>The invariant is preserved\<close>

lemma mpsc_inv_init:
  assumes "mpsc_init s"
  shows "mpsc_rel s [0] []"
  using assms
  by (auto simp: mpsc_init_def mpsc_rel_def mpsc_new_def new_node_def linked_def shape_def links_def
      news_def uniq_def linking_def unlinked_def consumer_ok_def next_of_def)

lemma inv_push_new:
  assumes rel: "mpsc_rel s ns pend" and idle: "prods s i = Push_idle"
  shows "mpsc_rel (do_push_new i v s) ns pend"
proof -
  let ?q = "queue s" and ?t = "do_push_new i v s"
  let ?n = "fresh ?q"
  have l: "linked ?q (prods s) ns" using rel by (simp add: mpsc_rel_def)
  have u: "uniq (prods s)" using l by (simp add: linked_def)
  have fr: "heap ?q ?n = None" "?n \<notin> set ns" "?n \<notin> unlinked (prods s)"
    using l by (auto simp: linked_def shape_def news_def)
  have q: "queue ?t = ?q\<lparr>heap := (heap ?q)(?n \<mapsto> \<lparr>val = Some v, nxt = None\<rparr>), fresh := Suc ?n\<rparr>"
    by (simp add: do_push_new_def new_node_def)
  have nx: "next_of (queue ?t) = next_of ?q"
    using fr by (auto simp: q next_of_def)
  have vl: "value_of (queue ?t) m = (if m = ?n then Some v else value_of ?q m)" for m
    by (auto simp: q value_of_def)
  have hp: "heap (queue ?t) m \<noteq> None \<longleftrightarrow> m = ?n \<or> heap ?q m \<noteq> None" for m
    by (auto simp: q)
  have "linked (queue ?t) (prods ?t) ns"
    using l fr idle unfolding linked_def shape_def news_def nx vl hp
    by (auto simp: do_push_new_def new_node_def linking_upd unlinked_upd uniq_upd next_of_def)
  moreover have "consumer_ok (queue ?t) (unlinked (prods ?t)) ns (consumer ?t)"
    using rel fr idle unfolding mpsc_rel_def consumer_ok_def nx hp
    by (auto simp: do_push_new_def new_node_def unlinked_upd [OF u] split: pop_pc.splits)
  moreover have "map (value_of (queue ?t)) (tl ns) = map (value_of ?q) (tl ns)"
    using fr(2) by (auto simp: vl dest: in_set_tlD)
  moreover have "pushed ?t = pushed s" "popped ?t = popped s" "broken ?t = broken s"
    by (simp_all add: do_push_new_def new_node_def)
  ultimately show ?thesis using rel by (simp add: mpsc_rel_def del: map_eq_conv)
qed

lemma inv_push_exchange:
  assumes rel: "mpsc_rel s ns pend" and new: "prods s i = Push_new n"
  shows "\<exists>v. mpsc_rel (do_push_exchange i n s) (ns @ [n]) (pend @ [v])"
proof -
  let ?q = "queue s" and ?ps = "prods s" and ?t = "do_push_exchange i n s"
  have l: "linked ?q ?ps ns" and u: "uniq ?ps" using rel by (simp_all add: mpsc_rel_def linked_def)
  have sh: "ns \<noteq> []" "distinct ns" "last ns = head ?q" "hd ns = tail ?q" "next_of ?q (head ?q) = None"
    using l by (auto simp: linked_def shape_def)
  have "n \<in> unlinked ?ps" using new by (auto simp: unlinked_def)
  then have n: "n \<notin> set ns" "heap ?q n \<noteq> None" "next_of ?q n = None"
    and "value_of ?q n \<noteq> None"
    using l by (auto simp: linked_def news_def)
  then obtain v where v: "value_of ?q n = Some v" by auto
  have nl: "(head ?q, n) \<notin> linking ?ps"
    using l n(1) by (auto simp: linked_def links_def dest: adj_mem)
  have eqs: "queue ?t = ?q\<lparr>head := n\<rparr>" "prods ?t = ?ps(i := Push_link (head ?q) n)"
    "pushed ?t = pushed s @ [v]" "popped ?t = popped s" "consumer ?t = consumer s" "broken ?t = broken s"
    by (simp_all add: do_push_exchange_def exchange_head_def v)
  have nx: "next_of (?q\<lparr>head := n\<rparr>) = next_of ?q" and vl: "value_of (?q\<lparr>head := n\<rparr>) = value_of ?q"
    by (auto simp: next_of_def value_of_def)
  have "shape (?q\<lparr>head := n\<rparr>) (ns @ [n])"
    using l n unfolding linked_def shape_def nx by auto
  moreover have "links (next_of ?q) (insert (head ?q, n) (linking ?ps)) (ns @ [n])"
    using l sh n adj_not_last [OF sh(2)] unfolding linked_def links_def
    by (auto simp: adj_append dest: adj_mem)
  moreover have "news (?q\<lparr>head := n\<rparr>) (unlinked ?ps - {n}) (ns @ [n])"
    using l unfolding linked_def news_def nx vl by auto
  ultimately have "linked (?q\<lparr>head := n\<rparr>) (prods ?t) (ns @ [n])"
    using u nl by (simp add: linked_def eqs nx linking_upd [OF u] unlinked_upd [OF u] new uniq_upd)
  moreover have "consumer_ok (?q\<lparr>head := n\<rparr>) (unlinked ?ps - {n}) (ns @ [n]) (consumer s)"
    using rel \<open>n \<in> unlinked ?ps\<close> unfolding mpsc_rel_def consumer_ok_def nx
    by (auto simp: adj_append split: pop_pc.splits)
  ultimately have "mpsc_rel ?t (ns @ [n]) (pend @ [v])"
    using rel sh(1) v unfolding mpsc_rel_def eqs vl by (auto simp: unlinked_upd [OF u] new)
  then show ?thesis ..
qed

lemma inv_push_link:
  assumes rel: "mpsc_rel s ns pend" and lk: "prods s i = Push_link p n"
  shows "mpsc_rel (do_push_link i p n s) ns pend"
proof -
  let ?q = "queue s" and ?ps = "prods s" and ?t = "do_push_link i p n s"
  have l: "linked ?q ?ps ns" and u: "uniq ?ps" using rel by (simp_all add: mpsc_rel_def linked_def)
  have d: "distinct ns" and hd: "last ns = head ?q" using l by (auto simp: linked_def shape_def)
  have pl: "(p, n) \<in> linking ?ps" using lk by (auto simp: linking_def)
  then have a: "adj ns p n" using l by (auto simp: linked_def links_def)
  then have np: "next_of ?q p = None" using l pl by (auto simp: linked_def links_def)
  have p: "p \<in> set ns" "p \<noteq> head ?q" using adj_mem [OF a] adj_not_last [OF d a] hd by auto
  then obtain nd where nd: "heap ?q p = Some nd" using l by (auto simp: linked_def shape_def)
  define q' where "q' = ?q\<lparr>heap := (heap ?q)(p \<mapsto> nd\<lparr>nxt := Some n\<rparr>)\<rparr>"
  have eqs: "queue ?t = q'" "prods ?t = ?ps(i := Push_idle)" "pushed ?t = pushed s"
    "popped ?t = popped s" "consumer ?t = consumer s" "broken ?t = broken s"
    by (simp_all add: do_push_link_def store_next_def update_queue_def nd q'_def)
  have nx: "next_of q' m = (if m = p then Some n else next_of ?q m)" for m
    by (simp add: next_of_def q'_def)
  have vl: "value_of q' = value_of ?q"
    using nd by (auto simp: value_of_def q'_def)
  have hp: "heap q' m \<noteq> None \<longleftrightarrow> heap ?q m \<noteq> None" for m using nd by (auto simp: q'_def)
  have fl: "tail q' = tail ?q" "head q' = head ?q" "fresh q' = fresh ?q" by (simp_all add: q'_def)
  have "shape q' ns" using l p hp [THEN iffD1, THEN notE] unfolding linked_def shape_def nx fl
    by (auto simp: q'_def)
  moreover have "links (next_of q') (linking ?ps - {(p, n)}) ns"
    unfolding links_def nx
  proof (intro conjI ballI allI impI)
    fix x assume "x \<in> linking ?ps - {(p, n)}"
    then show "case x of (a, b) \<Rightarrow> adj ns a b" using l unfolding linked_def links_def by blast
  next
    fix c b assume "adj ns c b"
    moreover from this have "c = p \<Longrightarrow> b = n" using adj_fun [OF d a] by blast
    ultimately show "(if c = p then Some n else next_of ?q c) = (if (c, b) \<in> linking ?ps - {(p, n)} then None else Some b)"
      using l unfolding linked_def links_def by simp
  qed
  moreover have "news q' (unlinked ?ps) ns"
    using l p unfolding linked_def news_def nx vl hp by auto
  ultimately have "linked q' (prods ?t) ns"
    using u by (simp add: linked_def eqs linking_upd [OF u] unlinked_upd [OF u] lk uniq_upd)
  moreover have "consumer_ok q' (unlinked ?ps) ns (consumer s)"
    using rel np unfolding mpsc_rel_def consumer_ok_def nx hp fl
    by (auto split: pop_pc.splits)
  ultimately show ?thesis
    using rel unfolding mpsc_rel_def eqs vl by (auto simp: unlinked_upd [OF u] lk)
qed

lemma inv_pop_load:
  assumes rel: "mpsc_rel s ns pend" and idle: "consumer s = Pop_idle"
  shows "mpsc_rel (do_pop_load s) ns pend"
proof -
  let ?q = "queue s"
  have sh: "shape ?q ns" and l: "links (next_of ?q) (linking (prods s)) ns"
    using rel by (simp_all add: mpsc_rel_def linked_def)
  obtain ms where ns: "ns = tail ?q # ms" using sh by (cases ns) (auto simp: shape_def)
  then obtain nd where nd: "heap ?q (tail ?q) = Some nd" using sh by (auto simp: shape_def)
  have "adj ns (tail ?q) m" if "nxt nd = Some m" for m
  proof (cases ms)
    case Nil
    then show ?thesis using sh ns nd that by (auto simp: shape_def next_of_def)
  next
    case (Cons k ks)
    then have "adj ns (tail ?q) k" using ns by simp
    moreover from this have "k = m"
      using l nd that unfolding links_def by (fastforce simp: next_of_def split: if_splits)
    ultimately show ?thesis by simp
  qed
  then show ?thesis
    using rel nd by (auto simp: do_pop_load_def load_next_def mpsc_rel_def consumer_ok_def
        next_of_def split: option.split)
qed

lemma inv_pop_take:
  assumes rel: "mpsc_rel s ns pend" and tk: "consumer s = Pop_take n"
  shows "mpsc_rel (do_pop_take n s) (tl ns) (tl pend) \<and> pend \<noteq> []"
proof -
  let ?q = "queue s" and ?ps = "prods s" and ?t = "do_pop_take n s"
  have l: "linked ?q ?ps ns" and c: "adj ns (tail ?q) n" "next_of ?q (tail ?q) = Some n"
    using rel tk by (simp_all add: mpsc_rel_def consumer_ok_def)
  have d: "distinct ns" "ns \<noteq> []" "hd ns = tail ?q" using l by (auto simp: linked_def shape_def)
  obtain ms where ns: "ns = tail ?q # n # ms"
    using adj_hd [of "tail ?q" "tl ns" n] c d by (cases ns) auto
  obtain v vs where p: "pend = v # vs" "value_of ?q n = Some v" "map (value_of ?q) ms = map Some vs"
    using rel ns by (cases pend) (auto simp: mpsc_rel_def)
  obtain nd where nd: "heap ?q n = Some nd" using l ns by (auto simp: linked_def shape_def)
  define q' where "q' = ?q\<lparr>heap := (heap ?q)(n \<mapsto> nd\<lparr>val := None\<rparr>), tail := n\<rparr>"
  have v: "val nd = Some v" using p(2) nd by (simp add: value_of_def)
  have eqs: "queue ?t = q'" "prods ?t = ?ps" "pushed ?t = pushed s" "popped ?t = popped s @ [v]"
    "consumer ?t = Pop_delete (tail ?q)" "broken ?t = broken s"
    using v by (simp_all add: do_pop_take_def take_val_def nd q'_def)
  have nx: "next_of q' = next_of ?q" using nd by (auto simp: next_of_def q'_def)
  have vl: "value_of q' m = (if m = n then None else value_of ?q m)" for m
    by (simp add: value_of_def q'_def)
  have hp: "heap q' m \<noteq> None \<longleftrightarrow> heap ?q m \<noteq> None" for m using nd by (auto simp: q'_def)
  have fl: "tail q' = n" "head q' = head ?q" "fresh q' = fresh ?q" by (simp_all add: q'_def)
  have nn: "n \<notin> unlinked ?ps" "n \<notin> set ms" using l ns d by (auto simp: linked_def news_def)
  have nl: "(tail ?q, n) \<notin> linking ?ps"
    using l c unfolding linked_def links_def by (metis option.distinct(1))
  have "shape q' (n # ms)"
    using l ns nd unfolding linked_def shape_def nx fl by (auto simp: q'_def)
  moreover have "links (next_of q') (linking ?ps) (n # ms)"
    unfolding links_def nx
  proof (intro conjI ballI allI impI)
    fix x assume "x \<in> linking ?ps"
    then show "case x of (a, b) \<Rightarrow> adj (n # ms) a b"
      using l nl unfolding linked_def links_def ns by fastforce
  next
    fix a b assume "adj (n # ms) a b"
    then show "next_of ?q a = (if (a, b) \<in> linking ?ps then None else Some b)"
      using l unfolding linked_def links_def ns by simp
  qed
  moreover have "news q' (unlinked ?ps) (n # ms)"
    using l nn unfolding linked_def news_def nx vl hp ns by auto
  ultimately have "linked q' ?ps (n # ms)" using l by (simp add: linked_def)
  moreover have "consumer_ok q' (unlinked ?ps) (n # ms) (Pop_delete (tail ?q))"
    using l d unfolding consumer_ok_def linked_def shape_def news_def pop_pc.case hp ns by auto
  moreover have "map (value_of q') ms = map Some vs"
    using p(3) nn(2) by (metis (no_types, lifting) map_cong vl)
  ultimately show ?thesis using rel p(1) unfolding mpsc_rel_def eqs ns by simp
qed

lemma inv_pop_delete:
  assumes rel: "mpsc_rel s ns pend" and dl: "consumer s = Pop_delete t"
  shows "mpsc_rel (do_pop_delete t s) ns pend"
proof -
  let ?q = "queue s" and ?t = "do_pop_delete t s"
  have t: "t \<notin> set ns" "t \<notin> unlinked (prods s)" "heap ?q t \<noteq> None"
    using rel dl by (auto simp: mpsc_rel_def consumer_ok_def)
  define q' where "q' = ?q\<lparr>heap := (heap ?q)(t := None)\<rparr>"
  have eqs: "queue ?t = q'" "prods ?t = prods s" "pushed ?t = pushed s" "popped ?t = popped s"
    "consumer ?t = Pop_idle" "broken ?t = broken s"
    using t by (auto simp: do_pop_delete_def delete_node_def update_queue_def q'_def)
  have nx: "next_of q' m = (if m = t then None else next_of ?q m)"
    and vl: "value_of q' m = (if m = t then None else value_of ?q m)"
    and hp: "heap q' m = (if m = t then None else heap ?q m)" for m
    by (simp_all add: next_of_def value_of_def q'_def)
  have fl: "tail q' = tail ?q" "head q' = head ?q" "fresh q' = fresh ?q" by (simp_all add: q'_def)
  have l: "linked ?q (prods s) ns" using rel by (simp add: mpsc_rel_def)
  have "shape q' ns" using l t unfolding linked_def shape_def nx hp fl by auto
  moreover have "links (next_of q') (linking (prods s)) ns"
    using l t unfolding linked_def links_def nx by (auto dest: adj_mem)
  moreover have "news q' (unlinked (prods s)) ns"
    using l t unfolding linked_def news_def nx vl hp by auto
  ultimately have "linked q' (prods s) ns" using l by (simp add: linked_def)
  moreover have "map (value_of q') (tl ns) = map (value_of ?q) (tl ns)"
    using t(1) by (auto simp: vl dest: in_set_tlD)
  ultimately show ?thesis
    using rel unfolding mpsc_rel_def eqs by (simp add: consumer_ok_def)
qed

lemma mpsc_inv_step: "mpsc_inv s \<Longrightarrow> mpsc_step s t \<Longrightarrow> mpsc_inv t"
  unfolding mpsc_inv_def
  by (erule mpsc_step.cases)
    (blast dest: inv_push_new inv_push_exchange inv_push_link inv_pop_load inv_pop_take inv_pop_delete)+

interpretation mpsc: inductive_invariant mpsc_init mpsc_step mpsc_inv
  by unfold_locales (auto simp: mpsc_inv_def dest: mpsc_inv_init intro: mpsc_inv_step [unfolded mpsc_inv_def])

section \<open>The operations as a queue\<close>

text \<open>
  What a client relies on when it calls the operations one after the other: \<open>holds q xs\<close> says that
  the queue contains \<open>xs\<close>, oldest first.
\<close>

fun push_all :: "('a \<Rightarrow> 'q \<Rightarrow> 'q res) \<Rightarrow> 'a list \<Rightarrow> 'q \<Rightarrow> 'q res" where
  "push_all psh [] q = Inr q"
| "push_all psh (v # vs) q = rbind (psh v q) (push_all psh vs)"

fun drain :: "('q \<Rightarrow> ('a option \<times> 'q) res) \<Rightarrow> nat \<Rightarrow> 'q \<Rightarrow> ('a list \<times> 'q) res option" where
  "drain pp 0 q = None"
| "drain pp (Suc fuel) q =
     (case pp q of Inl e \<Rightarrow> Some (Inl e)
      | Inr (None, q1) \<Rightarrow> Some (Inr ([], q1))
      | Inr (Some v, q1) \<Rightarrow>
          (case drain pp fuel q1 of None \<Rightarrow> None
           | Some (Inl e) \<Rightarrow> Some (Inl e)
           | Some (Inr (vs, q2)) \<Rightarrow> Some (Inr (v # vs, q2))))"

locale fifo_queue =
  fixes q_new :: 'q
    and q_push :: "'a \<Rightarrow> 'q \<Rightarrow> 'q res"
    and q_pop :: "'q \<Rightarrow> ('a option \<times> 'q) res"
    and holds :: "'q \<Rightarrow> 'a list \<Rightarrow> bool"
  assumes holds_new: "holds q_new []"
    and holds_push: "holds q xs \<Longrightarrow> \<exists>q'. q_push v q = Inr q' \<and> holds q' (xs @ [v])"
    and holds_pop_empty: "holds q [] \<Longrightarrow> q_pop q = Inr (None, q)"
    and holds_pop_cons: "holds q (x # xs) \<Longrightarrow> \<exists>q'. q_pop q = Inr (Some x, q') \<and> holds q' xs"
begin

lemma holds_push_all: "holds q xs \<Longrightarrow> \<exists>q'. push_all q_push vs q = Inr q' \<and> holds q' (xs @ vs)"
proof (induction vs arbitrary: q xs)
  case (Cons v vs)
  obtain q1 where "q_push v q = Inr q1" "holds q1 (xs @ [v])"
    using holds_push [OF Cons.prems] by blast
  with Cons.IH [of q1 "xs @ [v]"] show ?case by auto
qed simp

lemma holds_drain:
  "holds q xs \<Longrightarrow> length xs < fuel \<Longrightarrow> \<exists>q'. drain q_pop fuel q = Some (Inr (xs, q')) \<and> holds q' []"
proof (induction xs arbitrary: q fuel)
  case Nil
  then show ?case by (cases fuel) (auto simp: holds_pop_empty)
next
  case (Cons x xs)
  obtain q1 where q1: "q_pop q = Inr (Some x, q1)" "holds q1 xs"
    using holds_pop_cons [OF Cons.prems(1)] by blast
  obtain f where f: "fuel = Suc f" "length xs < f" using Cons.prems(2) by (cases fuel) auto
  show ?case using Cons.IH [OF q1(2) f(2)] by (auto simp: f(1) q1(1))
qed

lemma push_drain:
  "length vs < fuel \<Longrightarrow>
     \<exists>q q'. push_all q_push vs q_new = Inr q \<and> drain q_pop fuel q = Some (Inr (vs, q')) \<and> holds q' []"
  using holds_push_all [OF holds_new, of vs] holds_drain [of _ vs fuel] by auto

end

definition sys :: "'a mpsc \<Rightarrow> 'a list \<Rightarrow> 'a mpsc_sys" where
  "sys q xs = \<lparr>queue = q, prods = (\<lambda>_. Push_idle), consumer = Pop_idle, pushed = xs, popped = [],
     broken = False\<rparr>"

definition holds :: "'a mpsc \<Rightarrow> 'a list \<Rightarrow> bool" where
  "holds q xs \<longleftrightarrow> (\<exists>ns. mpsc_rel (sys q xs) ns xs \<and> dom (heap q) = set ns)"

lemma mpsc_rel_not_broken: "mpsc_rel s ns pend \<Longrightarrow> \<not> broken s"
  by (simp add: mpsc_rel_def)

lemma sys_push:
  assumes "\<not> broken (do_push_link 0 (head q) (fresh q) (do_push_exchange 0 (fresh q) (do_push_new 0 v (sys q xs))))"
  shows "\<exists>q'. push v q = Inr q' \<and>
    do_push_link 0 (head q) (fresh q) (do_push_exchange 0 (fresh q) (do_push_new 0 v (sys q xs))) =
      sys q' (xs @ [v]) \<and> dom (heap q') = insert (fresh q) (dom (heap q))"
  using assms
  by (simp add: do_push_new_def do_push_exchange_def do_push_link_def sys_def new_node_def
      exchange_head_def store_next_def push_def update_queue_def value_of_def split: option.splits)
    (auto split: if_splits)

lemma sys_pop:
  assumes "next_of q (tail q) = Some n" "heap q (tail q) \<noteq> None" 
    and "\<not> broken (do_pop_delete (tail q) (do_pop_take n (do_pop_load (sys q xs))))"
    and "value_of q n = Some v"
  shows "\<exists>q'. pop q = Inr (Some v, q') \<and>
    do_pop_delete (tail q) (do_pop_take n (do_pop_load (sys q xs))) = (sys q' xs)\<lparr>popped := [v]\<rparr> \<and>
    dom (heap q') = dom (heap q) - {tail q}"
  using assms
  by (simp add: do_pop_delete_def do_pop_take_def do_pop_load_def sys_def load_next_def next_of_def
      take_val_def delete_node_def pop_def update_queue_def value_of_def split: option.splits)
    (auto split: if_splits)

lemma holds_mpsc_new: "holds mpsc_new []"
proof -
  have "mpsc_rel (sys mpsc_new []) [0] []"
    by (rule mpsc_inv_init) (simp add: mpsc_init_def sys_def)
  then show ?thesis by (auto simp: holds_def mpsc_new_def new_node_def intro!: exI [of _ "[0]"])
qed

lemma holds_mpsc_push:
  assumes "holds q xs"
  shows "\<exists>q'. push v q = Inr q' \<and> holds q' (xs @ [v])"
proof -
  obtain ns where r: "mpsc_rel (sys q xs) ns xs" and dom: "dom (heap q) = set ns"
    using assms by (auto simp: holds_def)
  let ?s1 = "do_push_new 0 v (sys q xs)"
  let ?s2 = "do_push_exchange 0 (fresh q) ?s1"
  let ?s3 = "do_push_link 0 (head q) (fresh q) ?s2"
  have p: "prods ?s1 0 = Push_new (fresh q)" "prods ?s2 0 = Push_link (head q) (fresh q)"
    "prods (sys q xs) 0 = Push_idle"
    by (simp_all add: do_push_new_def do_push_exchange_def new_node_def exchange_head_def sys_def)
  obtain v' where r3: "mpsc_rel ?s3 (ns @ [fresh q]) (xs @ [v'])"
    using inv_push_link [OF _ p(2)] inv_push_exchange [OF inv_push_new [OF r p(3)] p(1)] by blast
  then obtain q' where q': "push v q = Inr q'" "?s3 = sys q' (xs @ [v])"
      "dom (heap q') = insert (fresh q) (dom (heap q))"
    using sys_push [OF mpsc_rel_not_broken] by meson
  have r4: "mpsc_rel (sys q' (xs @ [v])) (ns @ [fresh q]) (xs @ [v'])" using r3 q'(2) by simp
  then have "v' = v" by (simp add: mpsc_rel_def sys_def)
  then show ?thesis using q' r4 dom by (auto simp: holds_def intro!: exI [of _ "ns @ [fresh q]"])
qed

lemma links_idle: "linking (\<lambda>_. Push_idle) = {}" "unlinked (\<lambda>_. Push_idle) = {}"
  by (simp_all add: linking_def unlinked_def)

lemma holds_mpsc_pop_empty:
  assumes "holds q []"
  shows "pop q = Inr (None, q)"
proof -
  obtain ns where "mpsc_rel (sys q []) ns []" using assms by (auto simp: holds_def)
  then obtain n where "ns = [n]" "shape q ns"
    by (cases ns) (auto simp: mpsc_rel_def sys_def linked_def shape_def)
  then show ?thesis
    by (auto simp: shape_def pop_def load_next_def next_of_def split: option.splits)
qed

lemma holds_mpsc_pop_cons:
  assumes "holds q (x # xs)"
  shows "\<exists>q'. pop q = Inr (Some x, q') \<and> holds q' xs"
proof -
  let ?s = "sys q (x # xs)"
  obtain ns where r: "mpsc_rel ?s ns (x # xs)" and dom: "dom (heap q) = set ns"
    using assms by (auto simp: holds_def)
  obtain n ms where ns: "ns = tail q # n # ms" and v: "value_of q n = Some x"
    using r by (cases ns; cases "tl ns") (auto simp: mpsc_rel_def sys_def linked_def shape_def)
  have hp: "heap q (tail q) \<noteq> None" and nx: "next_of q (tail q) = Some n" and d: "distinct ns"
    using r ns by (auto simp: mpsc_rel_def sys_def linked_def shape_def links_def links_idle)
  let ?s1 = "do_pop_load ?s"
  let ?s2 = "do_pop_take n ?s1"
  let ?s3 = "do_pop_delete (tail q) ?s2"
  have c: "consumer ?s = Pop_idle" "consumer ?s1 = Pop_take n" "queue ?s1 = q"
    using hp nx by (auto simp: sys_def do_pop_load_def load_next_def next_of_def)
  have r2: "mpsc_rel ?s2 (tl ns) (tl (x # xs))"
    using inv_pop_take [OF inv_pop_load [OF r c(1)] c(2)] by blast
  have c2: "consumer ?s2 = Pop_delete (tail q)"
    using r2 c v by (auto simp: do_pop_take_def take_val_def mpsc_rel_def value_of_def split: option.splits)
  have r3: "mpsc_rel ?s3 (tl ns) xs" using inv_pop_delete [OF r2 c2] by simp
  then obtain q' where q': "pop q = Inr (Some x, q')" "?s3 = (sys q' (x # xs))\<lparr>popped := [x]\<rparr>"
      "dom (heap q') = dom (heap q) - {tail q}"
    using sys_pop [OF nx hp mpsc_rel_not_broken v] by meson
  have "mpsc_rel (sys q' xs) (tl ns) xs"
    using r3 unfolding q'(2) by (simp add: mpsc_rel_def sys_def)
  moreover have "dom (heap q') = set (tl ns)" using q'(3) dom d ns by auto
  ultimately show ?thesis using q'(1) by (auto simp: holds_def)
qed

lemma pop_top:
  assumes "pop q = Inr (r, q')"
  shows "top q = Inr r"
proof -
  obtain nx where l: "load_next (tail q) q = Inr nx"
    and r: "(case nx of None \<Rightarrow> Inr (None, q)
       | Some n \<Rightarrow> rbind (take_val n q) (\<lambda>(v, q1).
           rbind (delete_node (tail q) (q1\<lparr>tail := n\<rparr>)) (\<lambda>q2. Inr (v, q2)))) = Inr (r, q')"
    using assms unfolding pop_def rbind_eq_Inr by blast
  show ?thesis
  proof (cases nx)
    case (Some n)
    then show ?thesis using l r
      by (cases "heap q n") (auto simp: top_def take_val_def rbind_eq_Inr)
  qed (use l r in \<open>simp add: top_def\<close>)
qed

lemma holds_top:
  assumes "holds q xs"
  shows "top q = Inr (case xs of [] \<Rightarrow> None | x # _ \<Rightarrow> Some x)"
  using assms holds_mpsc_pop_empty [of q] holds_mpsc_pop_cons [of q]
  by (cases xs) (auto dest: pop_top)

interpretation mq: fifo_queue mpsc_new push pop holds
  by unfold_locales
    (simp_all add: holds_mpsc_new holds_mpsc_push holds_mpsc_pop_empty holds_mpsc_pop_cons)

section \<open>Properties\<close>

text \<open>C21. The queue is first-in first-out and memory safe under every interleaving of any number of producers with
  the consumer: no access ever touches a deleted node, and the values popped so far are a prefix of the values pushed,
  in the order in which the producers exchanged the head.\<close>

theorem mpsc_fifo:
  assumes "reach mpsc_init mpsc_step s"
  shows "\<not> broken s \<and> prefix (popped s) (pushed s)"
  using mpsc.inv_reach [OF assms] by (auto simp: mpsc_inv_def mpsc_rel_def)

definition two_producers :: "nat mpsc_sys" where
  "two_producers = do_push_link 1 0 2 (do_push_exchange 0 1 (do_push_exchange 1 2
     (do_push_new 1 8 (do_push_new 0 7 (sys mpsc_new [])))))"

definition popped_once :: "nat mpsc_sys" where
  "popped_once = do_pop_delete 0 (do_pop_take 2 (do_pop_load two_producers))"

lemmas mpsc_run_defs = two_producers_def popped_once_def sys_def mpsc_new_def new_node_def do_push_new_def
  do_push_exchange_def exchange_head_def do_push_link_def store_next_def update_queue_def
  do_pop_load_def load_next_def do_pop_take_def take_val_def do_pop_delete_def delete_node_def value_of_def

lemma two_producers_reach: "reach mpsc_init mpsc_step two_producers"
proof -
  let ?s0 = "sys mpsc_new [] :: nat mpsc_sys"
  let ?s1 = "do_push_new 1 8 (do_push_new 0 7 ?s0)"
  let ?s2 = "do_push_exchange 0 1 (do_push_exchange 1 2 ?s1)"
  have "reach mpsc_init mpsc_step ?s0"
    by (rule reach_init) (simp add: sys_def mpsc_init_def)
  then have "reach mpsc_init mpsc_step (do_push_new 0 7 ?s0)"
    by (rule reach_step) (rule push_new, simp add: mpsc_run_defs)
  then have "reach mpsc_init mpsc_step ?s1"
    by (rule reach_step) (rule push_new, simp add: mpsc_run_defs)
  then have "reach mpsc_init mpsc_step (do_push_exchange 1 2 ?s1)"
    by (rule reach_step) (rule push_exchange, simp add: mpsc_run_defs)
  then have "reach mpsc_init mpsc_step ?s2"
    by (rule reach_step) (rule push_exchange, simp add: mpsc_run_defs)
  then show ?thesis
    unfolding two_producers_def by (rule reach_step) (rule push_link, simp add: mpsc_run_defs)
qed

lemma popped_once_reach: "reach mpsc_init mpsc_step popped_once"
proof -
  have "reach mpsc_init mpsc_step (do_pop_load two_producers)"
    by (rule reach_step [OF two_producers_reach]) (rule pop_load, simp add: mpsc_run_defs)
  then have "reach mpsc_init mpsc_step (do_pop_take 2 (do_pop_load two_producers))"
    by (rule reach_step) (rule pop_take, simp add: mpsc_run_defs)
  then show ?thesis
    unfolding popped_once_def by (rule reach_step) (rule pop_delete, simp add: mpsc_run_defs)
qed

theorem mpsc_fifo_witness:
  "popped popped_once = [8] \<and> pushed popped_once = [8, 7] \<and> prefix (popped popped_once) (pushed popped_once)"
  using mpsc_fifo [OF popped_once_reach] by (simp add: mpsc_run_defs)

text \<open>While no producer stands between its exchange of the head and its store of the \<open>next\<close> pointer, \<open>pop\<close>
  fails exactly when everything pushed has been popped: the queue loses no wake-up beyond the window the two
  instructions of \<open>push\<close> leave open.\<close>

theorem mpsc_pop_available:
  assumes "reach mpsc_init mpsc_step s"
    and "consumer s = Pop_idle" and "linking (prods s) = {}"
  shows "consumer (do_pop_load s) = Pop_idle \<longleftrightarrow> popped s = pushed s"
proof -
  obtain ns pend where r: "mpsc_rel s ns pend"
    using mpsc.inv_reach [OF assms(1)] by (auto simp: mpsc_inv_def)
  let ?q = "queue s"
  have l: "shape ?q ns" "links (next_of ?q) {} ns" using r assms(3) by (simp_all add: mpsc_rel_def linked_def)
  have p: "popped s = pushed s \<longleftrightarrow> tl ns = []" using r by (auto simp: mpsc_rel_def)
  obtain ms where ns: "ns = tail ?q # ms" using l(1) by (cases ns) (auto simp: shape_def)
  obtain nd where nd: "heap ?q (tail ?q) = Some nd" using l(1) ns by (auto simp: shape_def)
  have "nxt nd = None \<longleftrightarrow> ms = []"
    using l ns nd by (cases ms) (auto simp: shape_def links_def next_of_def)
  then show ?thesis using p ns nd assms(2)
    by (auto simp: do_pop_load_def load_next_def split: option.splits)
qed

definition one_pushed :: "nat mpsc_sys" where
  "one_pushed = do_push_link 0 0 1 (do_push_exchange 0 1 (do_push_new 0 7 (sys mpsc_new [])))"

lemma one_pushed_reach: "reach mpsc_init mpsc_step one_pushed"
proof -
  let ?s0 = "sys mpsc_new [] :: nat mpsc_sys"
  have "reach mpsc_init mpsc_step ?s0"
    by (rule reach_init) (simp add: sys_def mpsc_init_def)
  then have "reach mpsc_init mpsc_step (do_push_new 0 7 ?s0)"
    by (rule reach_step) (rule push_new, simp add: mpsc_run_defs)
  then have "reach mpsc_init mpsc_step (do_push_exchange 0 1 (do_push_new 0 7 ?s0))"
    by (rule reach_step) (rule push_exchange, simp add: mpsc_run_defs)
  then show ?thesis
    unfolding one_pushed_def by (rule reach_step) (rule push_link, simp add: mpsc_run_defs)
qed

theorem mpsc_pop_available_witness:
  "pushed one_pushed = [7] \<and> popped one_pushed = [] \<and> consumer (do_pop_load one_pushed) \<noteq> Pop_idle"
proof -
  have "consumer one_pushed = Pop_idle" "linking (prods one_pushed) = {}"
    "pushed one_pushed = [7]" "popped one_pushed = []"
    by (simp_all add: one_pushed_def mpsc_run_defs linking_def)
  then show ?thesis using mpsc_pop_available [OF one_pushed_reach] by simp
qed

text \<open>Pushing any list of values into a new queue and popping until \<open>pop\<close> returns false gives back exactly these
  values in order, \<open>top\<close> shows the first of them, for every fuel above their number, and neither loop touches a deleted node.\<close>

theorem mpsc_push_drain:
  assumes "length vs < fuel"
  shows "\<exists>q q'. push_all push vs mpsc_new = Inr q \<and>
    top q = Inr (case vs of [] \<Rightarrow> None | v # _ \<Rightarrow> Some v) \<and>
    drain pop fuel q = Some (Inr (vs, q')) \<and> pop q' = Inr (None, q')"
proof -
  obtain q where q: "push_all push vs mpsc_new = Inr q" "holds q vs"
    using mq.holds_push_all [OF mq.holds_new, of vs] by auto
  obtain q' where "drain pop fuel q = Some (Inr (vs, q'))" "holds q' []"
    using mq.holds_drain [OF q(2) assms] by auto
  then show ?thesis using q(1) holds_top [OF q(2)] mq.holds_pop_empty by blast
qed

theorem mpsc_push_drain_witness:
  "\<exists>q q'. push_all push [4, 5, 6 :: nat] mpsc_new = Inr q \<and> top q = Inr (Some 4) \<and> drain pop 4 q = Some (Inr ([4, 5, 6], q')) \<and>
    pop q' = Inr (None, q')"
  using mpsc_push_drain [of "[4, 5, 6 :: nat]" 4] by simp

text \<open>The destructor starts at \<open>_head\<close>, the newest node, instead of \<open>_tail\<close>: it ends after one round and deletes
  one node only, so a queue destroyed with \<open>n\<close> values still inside leaves \<open>n\<close> nodes allocated; nothing leaks exactly
  when the queue is empty.\<close>

theorem mpsc_destroy_leaks:
  assumes "holds q xs"
  shows "\<exists>q'. destroy (Suc fuel) q = Some (Inr q') \<and> card (dom (heap q')) = length xs"
proof -
  obtain ns where r: "mpsc_rel (sys q xs) ns xs" and dom: "dom (heap q) = set ns"
    using assms by (auto simp: holds_def)
  have sh: "shape q ns" and len: "length (tl ns) = length xs"
    using r by (auto simp: mpsc_rel_def sys_def linked_def dest: map_eq_imp_length_eq)
  obtain nd where nd: "heap q (head q) = Some nd" "nxt nd = None" "head q \<in> set ns"
    using sh by (auto simp: shape_def next_of_def split: option.splits) (metis last_in_set option.distinct(1))+
  have "card (dom (heap q) - {head q}) = length xs"
    using sh nd(3) len by (simp add: dom shape_def distinct_card)
  then show ?thesis
    using nd by (auto simp: destroy_def load_next_def delete_node_def)
qed

theorem mpsc_destroy_leaks_witness:
  "\<exists>q q'. push (7 :: nat) mpsc_new = Inr q \<and> destroy 1 q = Some (Inr q') \<and> card (dom (heap q')) = 1"
  using holds_mpsc_push [OF holds_mpsc_new, of "7 :: nat"] mpsc_destroy_leaks [of _ "[7 :: nat]" 0] by auto

end
