(* ===== verification/Spsc_Queue.thy ===== *)
theory Spsc_Queue
  imports Mpsc_Queue "HOL-Library.Sublist"
begin

text \<open>
  \<open>SpscQueue\<close> of \<open>src/thread/SpscQueue.h\<close>: a linked queue for one producer and one consumer that uses its nodes again.
  The nodes from \<open>_first\<close> to \<open>_tail\<close> have been consumed; the producer takes the first of them for the next value,
  unless it is the tail it saw last, in which case it looks at the tail once more and allocates a node when
  this is still the one.

  The first part has the operations as they run alone, on an explicit heap where touching a node that does not exist
  is \<open>Inl Out_of_bounds\<close>; they implement the queue of the locale \<open>fifo_queue\<close>. The second part cuts them at their
  accesses to shared memory, with every interleaving of producer and consumer.
\<close>

section \<open>Nodes and operations\<close>

record 'a spsc =
  sq_heap :: "nat \<Rightarrow> 'a node option"
  sq_tail :: nat
  sq_head :: nat
  sq_first :: "nat option"
  sq_tailcopy :: nat
  sq_fresh :: nat

definition sq_node :: "nat \<Rightarrow> 'a spsc \<Rightarrow> 'a node res" where
  "sq_node p q = (case sq_heap q p of None \<Rightarrow> Inl Out_of_bounds | Some n \<Rightarrow> Inr n)"

definition sq_upd :: "nat \<Rightarrow> ('a node \<Rightarrow> 'a node) \<Rightarrow> 'a spsc \<Rightarrow> 'a spsc res" where
  "sq_upd p f q = rbind (sq_node p q) (\<lambda>n. Inr (q\<lparr>sq_heap := (sq_heap q)(p \<mapsto> f n)\<rparr>))"

definition sq_alloc :: "'a option \<Rightarrow> 'a spsc \<Rightarrow> nat \<times> 'a spsc" where
  "sq_alloc v q = (sq_fresh q,
     q\<lparr>sq_heap := (sq_heap q)(sq_fresh q \<mapsto> \<lparr>val = v, nxt = None\<rparr>), sq_fresh := sq_fresh q + 1\<rparr>)"

definition spsc_new :: "'a spsc" where
  "spsc_new = (let (n, q) = sq_alloc None
       \<lparr>sq_heap = (\<lambda>_. None), sq_tail = 0, sq_head = 0, sq_first = None, sq_tailcopy = 0, sq_fresh = 0\<rparr>
     in q\<lparr>sq_tail := n, sq_head := n, sq_first := Some n, sq_tailcopy := n\<rparr>)"

text \<open>\<open>_first\<close> moves on and the node gets its new value.\<close>

definition reuse_node :: "nat \<Rightarrow> nat option \<Rightarrow> 'a \<Rightarrow> 'a spsc \<Rightarrow> (nat \<times> 'a spsc) res" where
  "reuse_node n next v q = rbind (sq_upd n (\<lambda>nd. nd\<lparr>nxt := None\<rparr>) (q\<lparr>sq_first := next\<rparr>)) (\<lambda>q.
     rbind (sq_upd n (\<lambda>nd. nd\<lparr>val := Some v\<rparr>) q) (\<lambda>q. Inr (n, q)))"

definition alloc_node :: "'a \<Rightarrow> 'a spsc \<Rightarrow> (nat \<times> 'a spsc) res" where
  "alloc_node v q = (case sq_first q of None \<Rightarrow> Inl Out_of_bounds | Some n \<Rightarrow>
     rbind (sq_node n q) (\<lambda>nd. let next = nxt nd in
     if n \<noteq> sq_tailcopy q then reuse_node n next v q
     else let q = q\<lparr>sq_tailcopy := sq_tail q\<rparr> in
       if n \<noteq> sq_tailcopy q then reuse_node n next v q
       else Inr (sq_alloc (Some v) q)))"

definition spsc_push :: "'a \<Rightarrow> 'a spsc \<Rightarrow> 'a spsc res" where
  "spsc_push v q = rbind (alloc_node v q) (\<lambda>(n, q).
     rbind (sq_upd (sq_head q) (\<lambda>nd. nd\<lparr>nxt := Some n\<rparr>) q) (\<lambda>q. Inr (q\<lparr>sq_head := n\<rparr>)))"

definition spsc_pop :: "'a spsc \<Rightarrow> ('a option \<times> 'a spsc) res" where
  "spsc_pop q = rbind (sq_node (sq_tail q) q) (\<lambda>t. case nxt t of
       None \<Rightarrow> Inr (None, q)
     | Some n \<Rightarrow> rbind (sq_node n q) (\<lambda>nd.
         rbind (sq_upd n (\<lambda>nd. nd\<lparr>val := None\<rparr>) q) (\<lambda>q. Inr (val nd, q\<lparr>sq_tail := n\<rparr>))))"

definition spsc_top :: "'a spsc \<Rightarrow> 'a option res" where
  "spsc_top q = rbind (sq_node (sq_tail q) q) (\<lambda>t. case nxt t of
       None \<Rightarrow> Inr None | Some n \<Rightarrow> rbind (sq_node n q) (\<lambda>nd. Inr (val nd)))"

text \<open>The destructor, with fuel for the walk along the nodes.\<close>

fun sq_destroy_from :: "nat \<Rightarrow> nat option \<Rightarrow> 'a spsc \<Rightarrow> 'a spsc res option" where
  "sq_destroy_from 0 n q = None"
| "sq_destroy_from (Suc f) n q = (case n of None \<Rightarrow> Some (Inl Out_of_bounds) | Some p \<Rightarrow>
     (case sq_node p q of Inl e \<Rightarrow> Some (Inl e) | Inr nd \<Rightarrow>
       (let q = q\<lparr>sq_heap := (sq_heap q)(p := None)\<rparr> in
        if nxt nd = None then Some (Inr q) else sq_destroy_from f (nxt nd) q)))"

definition spsc_destroy :: "'a spsc \<Rightarrow> 'a spsc res option" where
  "spsc_destroy q = sq_destroy_from (sq_fresh q) (sq_first q) q"

section \<open>Producer and consumer interleaved\<close>

text \<open>
  \<open>P_load\<close>: the first node is the tail seen last, its successor was read, the tail is to be loaded. \<open>P_reset\<close>, \<open>P_store\<close>:
  the node is taken, its \<open>next\<close> and then its value are to be written. \<open>P_link\<close>: the node is to be published by the store to
  \<open>h->next\<close>, \<open>P_head\<close>: \<open>_head\<close> is to be set. \<open>C_take\<close>: the consumer saw a node, \<open>C_tail\<close>: it took the value and is
  to store the tail. \<open>pushed\<close> and \<open>popped\<close> record the values in the order of these steps.
\<close>

datatype 'a prod_pc =
    P_idle | P_load 'a nat "nat option" | P_reset 'a nat | P_store 'a nat | P_new 'a | P_link 'a nat | P_head nat

datatype cons_pc = C_idle | C_take nat | C_tail nat

record 'a spsc_sys =
  sp_queue :: "'a spsc"
  sp_prod :: "'a prod_pc"
  sp_cons :: cons_pc
  sp_pushed :: "'a list"
  sp_popped :: "'a list"

fun prod_step :: "'a \<Rightarrow> 'a spsc_sys \<Rightarrow> 'a spsc_sys res" where
  "prod_step v s = (let q = sp_queue s in case sp_prod s of
     P_idle \<Rightarrow> (case sq_first q of None \<Rightarrow> Inl Out_of_bounds | Some n \<Rightarrow>
       rbind (sq_node n q) (\<lambda>nd.
       if n \<noteq> sq_tailcopy q then Inr (s\<lparr>sp_queue := q\<lparr>sq_first := nxt nd\<rparr>, sp_prod := P_reset v n\<rparr>)
       else Inr (s\<lparr>sp_prod := P_load v n (nxt nd)\<rparr>)))
   | P_load w n next \<Rightarrow> (let q = q\<lparr>sq_tailcopy := sq_tail q\<rparr> in
       if n \<noteq> sq_tailcopy q then Inr (s\<lparr>sp_queue := q\<lparr>sq_first := next\<rparr>, sp_prod := P_reset w n\<rparr>)
       else Inr (s\<lparr>sp_queue := q, sp_prod := P_new w\<rparr>))
   | P_reset w n \<Rightarrow> rbind (sq_upd n (\<lambda>nd. nd\<lparr>nxt := None\<rparr>) q) (\<lambda>q. Inr (s\<lparr>sp_queue := q, sp_prod := P_store w n\<rparr>))
   | P_store w n \<Rightarrow> rbind (sq_upd n (\<lambda>nd. nd\<lparr>val := Some w\<rparr>) q) (\<lambda>q. Inr (s\<lparr>sp_queue := q, sp_prod := P_link w n\<rparr>))
   | P_new w \<Rightarrow> (case sq_alloc (Some w) q of (n, q) \<Rightarrow> Inr (s\<lparr>sp_queue := q, sp_prod := P_link w n\<rparr>))
   | P_link w n \<Rightarrow> rbind (sq_upd (sq_head q) (\<lambda>nd. nd\<lparr>nxt := Some n\<rparr>) q) (\<lambda>q.
       Inr (s\<lparr>sp_queue := q, sp_prod := P_head n, sp_pushed := sp_pushed s @ [w]\<rparr>))
   | P_head n \<Rightarrow> Inr (s\<lparr>sp_queue := q\<lparr>sq_head := n\<rparr>, sp_prod := P_idle\<rparr>))"

fun cons_step :: "'a spsc_sys \<Rightarrow> 'a spsc_sys res" where
  "cons_step s = (let q = sp_queue s in case sp_cons s of
     C_idle \<Rightarrow> rbind (sq_node (sq_tail q) q) (\<lambda>t. case nxt t of None \<Rightarrow> Inr s | Some n \<Rightarrow> Inr (s\<lparr>sp_cons := C_take n\<rparr>))
   | C_take n \<Rightarrow> rbind (sq_node n q) (\<lambda>nd. case val nd of
         None \<Rightarrow> Inl Out_of_bounds
       | Some x \<Rightarrow> rbind (sq_upd n (\<lambda>nd. nd\<lparr>val := None\<rparr>) q) (\<lambda>q.
           Inr (s\<lparr>sp_queue := q, sp_cons := C_tail n, sp_popped := sp_popped s @ [x]\<rparr>)))
   | C_tail n \<Rightarrow> Inr (s\<lparr>sp_queue := q\<lparr>sq_tail := n\<rparr>, sp_cons := C_idle\<rparr>))"

declare prod_step.simps [simp del] cons_step.simps [simp del]

inductive spsc_step :: "'a spsc_sys \<Rightarrow> 'a spsc_sys \<Rightarrow> bool" where
  producer: "prod_step v s = Inr t \<Longrightarrow> spsc_step s t"
| consumer: "cons_step s = Inr t \<Longrightarrow> spsc_step s t"

definition spsc_start :: "'a spsc_sys" where
  "spsc_start = \<lparr>sp_queue = spsc_new, sp_prod = P_idle, sp_cons = C_idle, sp_pushed = [], sp_popped = []\<rparr>"

section \<open>The nodes of a queue\<close>

fun chained_from :: "(nat \<Rightarrow> 'a node option) \<Rightarrow> nat list \<Rightarrow> bool" where
  "chained_from h [] \<longleftrightarrow> True"
| "chained_from h [x] \<longleftrightarrow> (\<exists>nd. h x = Some nd \<and> nxt nd = None)"
| "chained_from h (x # y # ys) \<longleftrightarrow> (\<exists>nd. h x = Some nd \<and> nxt nd = Some y) \<and> chained_from h (y # ys)"

definition value_at :: "(nat \<Rightarrow> 'a node option) \<Rightarrow> nat \<Rightarrow> 'a option" where
  "value_at h n = (case h n of None \<Rightarrow> None | Some nd \<Rightarrow> val nd)"

text \<open>Consumed nodes \<open>A\<close>, the tail, and the nodes \<open>B\<close> of the values to come; \<open>X\<close> are the nodes outside of the chain.\<close>

definition chain_at :: "'a spsc \<Rightarrow> nat list \<Rightarrow> nat list \<Rightarrow> nat set \<Rightarrow> bool" where
  "chain_at q A B X \<longleftrightarrow> chained_from (sq_heap q) (A @ sq_tail q # B) \<and> distinct (A @ sq_tail q # B) \<and>
     sq_first q = Some (hd (A @ [sq_tail q])) \<and> sq_tailcopy q \<in> set (A @ [sq_tail q]) \<and>
     set (A @ sq_tail q # B) \<inter> X = {} \<and> dom (sq_heap q) = {..<sq_fresh q} \<and>
     set (A @ sq_tail q # B) \<union> X = {..<sq_fresh q}"

lemma chained_from_Cons: "chained_from h (x # xs) \<longleftrightarrow>
    (\<exists>nd. h x = Some nd \<and> nxt nd = (if xs = [] then None else Some (hd xs))) \<and> chained_from h xs"
  by (cases xs) auto

lemma chained_from_cong:
  "(\<And>n. n \<in> set xs \<Longrightarrow> map_option nxt (h n) = map_option nxt (h' n)) \<Longrightarrow> chained_from h xs = chained_from h' xs"
proof (induction xs)
  case (Cons x xs)
  have "map_option nxt (h x) = map_option nxt (h' x)" "chained_from h xs = chained_from h' xs"
    using Cons by auto
  then show ?case by (cases "h x"; cases "h' x") (auto simp: chained_from_Cons)
qed simp

lemma chained_from_tail: "chained_from h (xs @ ys) \<Longrightarrow> chained_from h ys"
  by (induction xs) (auto simp: chained_from_Cons)

lemma chained_from_snoc:
  assumes "chained_from h xs" "distinct xs" "xs \<noteq> []" "h n = Some nd" "nxt nd = None" "n \<notin> set xs"
  shows "\<exists>l. h (last xs) = Some l \<and> chained_from (h(last xs \<mapsto> l\<lparr>nxt := Some n\<rparr>)) (xs @ [n])"
  using assms
proof (induction xs)
  case (Cons x xs)
  show ?case
  proof (cases xs)
    case (Cons y ys)
    then have ne: "xs \<noteq> []" "(x # xs) @ [n] = x # (xs @ [n])" "hd (xs @ [n]) = hd xs" by simp_all
    have x: "chained_from h xs" "\<exists>nd. h x = Some nd \<and> nxt nd = Some (hd xs)"
      using Cons.prems(1) ne(1) by (simp_all add: chained_from_Cons [of h x xs])
    obtain l where l: "h (last xs) = Some l" "chained_from (h(last xs \<mapsto> l\<lparr>nxt := Some n\<rparr>)) (xs @ [n])"
      using Cons.IH [OF x(1) _ ne(1) Cons.prems(4,5)] Cons.prems(2,6) by (metis distinct.simps(2) list.set_intros(2))
    have "x \<noteq> last xs" using ne(1) Cons.prems(2) by (metis distinct.simps(2) last_in_set)
    then have "chained_from (h(last xs \<mapsto> l\<lparr>nxt := Some n\<rparr>)) (x # (xs @ [n]))"
      using l(2) x(2) ne by (simp add: chained_from_Cons [of _ x "xs @ [n]"] del: append_is_Nil_conv)
    then show ?thesis using l(1) ne by (metis last_ConsR)
  qed (use Cons.prems in auto)
qed simp

lemma chain_at_mem:
  assumes "chain_at q A B X" "n \<in> set (A @ sq_tail q # B) \<union> X"
  obtains nd where "sq_heap q n = Some nd"
  using assms unfolding chain_at_def by (metis domD)

lemma chain_at_head [simp]: "chain_at (q\<lparr>sq_head := h\<rparr>) A B X = chain_at q A B X"
  by (simp add: chain_at_def)

lemma chain_load_tail: "chain_at q A B X \<Longrightarrow> chain_at (q\<lparr>sq_tailcopy := sq_tail q\<rparr>) A B X"
  by (simp add: chain_at_def)

lemma chain_first: "chain_at q A B X \<Longrightarrow> sq_first q = Some n \<Longrightarrow> n \<noteq> sq_tailcopy q \<Longrightarrow> \<exists>A'. A = n # A'"
  by (cases A) (auto simp: chain_at_def)

lemma chain_first_tail: "chain_at q A B X \<Longrightarrow> sq_first q = Some (sq_tail q) \<longleftrightarrow> A = []"
  by (cases A) (auto simp: chain_at_def)

lemma chain_take:
  assumes "chain_at q (n # A) B X"
  obtains nd where "sq_heap q n = Some nd" "nxt nd = Some (hd (A @ [sq_tail q]))"
    "sq_tailcopy q \<noteq> n \<Longrightarrow> chain_at (q\<lparr>sq_first := nxt nd\<rparr>) A B (insert n X)"
proof -
  obtain nd where nd: "sq_heap q n = Some nd" "nxt nd = Some (hd (A @ sq_tail q # B))"
    using assms by (auto simp: chain_at_def chained_from_Cons)
  have "hd (A @ sq_tail q # B) = hd (A @ [sq_tail q])" by (cases A) auto
  then show thesis using that [OF nd(1)] nd assms by (auto simp: chain_at_def chained_from_Cons)
qed

lemma chain_private:
  assumes "chain_at q A B X" "n \<in> X"
  shows "chain_at (q\<lparr>sq_heap := (sq_heap q)(n \<mapsto> nd)\<rparr>) A B X"
proof -
  have "n \<notin> set (A @ sq_tail q # B)" using assms by (auto simp: chain_at_def)
  moreover from this have "chained_from ((sq_heap q)(n \<mapsto> nd)) (A @ sq_tail q # B) = chained_from (sq_heap q) (A @ sq_tail q # B)"
    by (intro chained_from_cong) auto
  ultimately show ?thesis using assms unfolding chain_at_def by auto
qed

lemma chain_value:
  assumes "chain_at q A B X" "sq_heap q n = Some nd" "n \<in> set B"
  shows "chain_at (q\<lparr>sq_heap := (sq_heap q)(n \<mapsto> nd\<lparr>val := v\<rparr>)\<rparr>) A B X"
proof -
  have "chained_from ((sq_heap q)(n \<mapsto> nd\<lparr>val := v\<rparr>)) (A @ sq_tail q # B) = chained_from (sq_heap q) (A @ sq_tail q # B)"
    using assms(2) by (intro chained_from_cong) auto
  then show ?thesis using assms unfolding chain_at_def by auto
qed

lemma chain_alloc:
  assumes "chain_at q A B {}"
  shows "chain_at (snd (sq_alloc v q)) A B {sq_fresh q}"
proof -
  have "sq_fresh q \<notin> set (A @ sq_tail q # B)" using assms by (auto simp: chain_at_def)
  moreover from this have "chained_from ((sq_heap q)(sq_fresh q \<mapsto> \<lparr>val = v, nxt = None\<rparr>)) (A @ sq_tail q # B)
      = chained_from (sq_heap q) (A @ sq_tail q # B)"
    by (intro chained_from_cong) auto
  ultimately show ?thesis using assms unfolding chain_at_def sq_alloc_def by auto
qed

lemma chain_link:
  assumes "chain_at q A B {n}" "sq_heap q n = Some nd" "nxt nd = None"
  obtains l where "sq_heap q (last (A @ sq_tail q # B)) = Some l"
    "chain_at (q\<lparr>sq_heap := (sq_heap q)(last (A @ sq_tail q # B) \<mapsto> l\<lparr>nxt := Some n\<rparr>)\<rparr>) A (B @ [n]) {}"
proof -
  obtain l where l: "sq_heap q (last (A @ sq_tail q # B)) = Some l"
    "chained_from ((sq_heap q)(last (A @ sq_tail q # B) \<mapsto> l\<lparr>nxt := Some n\<rparr>)) ((A @ sq_tail q # B) @ [n])"
    using chained_from_snoc [of "sq_heap q" "A @ sq_tail q # B" n nd] assms unfolding chain_at_def by auto
  moreover have "insert (last (A @ sq_tail q # B)) {..<sq_fresh q} = {..<sq_fresh q}"
    using l(1) assms(1) unfolding chain_at_def by blast
  ultimately show thesis using that [OF l(1)] assms(1) unfolding chain_at_def by auto
qed

lemma chain_advance: "chain_at q A (n # B) X \<Longrightarrow> chain_at (q\<lparr>sq_tail := n\<rparr>) (A @ [sq_tail q]) B X"
  by (cases A) (auto simp: chain_at_def)

lemma chain_tail_next:
  assumes "chain_at q A B X"
  obtains nd where "sq_heap q (sq_tail q) = Some nd" "nxt nd = (if B = [] then None else Some (hd B))"
  using assms chained_from_tail [of "sq_heap q" A "sq_tail q # B"] by (auto simp: chain_at_def chained_from_Cons)

lemma chain_count:
  assumes "chain_at q A B {}"
  shows "sq_fresh q = Suc (length A + length B)"
proof -
  have "card (set (A @ sq_tail q # B)) = length (A @ sq_tail q # B)"
    using assms distinct_card unfolding chain_at_def by blast
  then show ?thesis using assms unfolding chain_at_def by simp
qed

lemma values_other [simp]: "n \<notin> set B \<Longrightarrow> map (value_at (h(n := x))) B = map (value_at h) B"
  by (simp add: value_at_def)

lemma values_next [simp]: "h n = Some nd \<Longrightarrow> map (value_at (h(n \<mapsto> nd\<lparr>nxt := x\<rparr>))) B = map (value_at h) B"
  by (simp add: value_at_def)

lemma values_set: "distinct B \<Longrightarrow> B = n # B' \<Longrightarrow> h n = Some nd \<Longrightarrow>
    map (value_at (h(n \<mapsto> nd\<lparr>val := x\<rparr>))) B = x # map (value_at h) B'"
  by (auto simp: value_at_def)

section \<open>The operations as a queue\<close>

text \<open>The queue has the consumed nodes \<open>A\<close> and contains \<open>xs\<close>.\<close>

definition spsc_rep :: "'a spsc \<Rightarrow> nat list \<Rightarrow> 'a list \<Rightarrow> bool" where
  "spsc_rep q A xs \<longleftrightarrow> (\<exists>B. chain_at q A B {} \<and> last (A @ sq_tail q # B) = sq_head q \<and>
     map (value_at (sq_heap q)) B = map Some xs)"

definition spsc_holds :: "'a spsc \<Rightarrow> 'a list \<Rightarrow> bool" where
  "spsc_holds q xs \<longleftrightarrow> (\<exists>A. spsc_rep q A xs)"

lemma rep_count: "spsc_rep q A xs \<Longrightarrow> sq_fresh q = Suc (length A + length xs)"
  unfolding spsc_rep_def using chain_count by (metis length_map)

lemma rep_new: "spsc_rep spsc_new [] []"
  by (auto simp: spsc_rep_def chain_at_def spsc_new_def sq_alloc_def)

text \<open>A node that is not part of the chain, with the value in it.\<close>

definition ready :: "'a spsc \<Rightarrow> nat list \<Rightarrow> nat list \<Rightarrow> nat \<Rightarrow> 'a \<Rightarrow> bool" where
  "ready q A B n v \<longleftrightarrow> chain_at q A B {n} \<and> sq_heap q n = Some \<lparr>val = Some v, nxt = None\<rparr>"

definition same_values :: "'a spsc \<Rightarrow> 'a spsc \<Rightarrow> nat list \<Rightarrow> bool" where
  "same_values q q' B \<longleftrightarrow> sq_tail q' = sq_tail q \<and> sq_head q' = sq_head q \<and>
     map (value_at (sq_heap q')) B = map (value_at (sq_heap q)) B"

lemma reuse_ready:
  assumes c: "chain_at q (n # A) B {}" and "sq_tailcopy q \<noteq> n" and nd: "sq_heap q n = Some nd"
  shows "\<exists>q'. reuse_node n (nxt nd) v q = Inr (n, q') \<and> ready q' A B n v \<and> same_values q q' B"
proof -
  let ?q = "q\<lparr>sq_first := nxt nd\<rparr>"
  have c1: "chain_at ?q A B {n}" using chain_take [OF c] assms(2) nd by (metis option.inject)
  have nB: "n \<notin> set B" using c by (auto simp: chain_at_def)
  let ?q1 = "?q\<lparr>sq_heap := (sq_heap ?q)(n \<mapsto> nd\<lparr>nxt := None\<rparr>)\<rparr>"
  have c2: "chain_at ?q1 A B {n}" by (rule chain_private [OF c1]) simp
  let ?q2 = "?q1\<lparr>sq_heap := (sq_heap ?q1)(n \<mapsto> \<lparr>val = Some v, nxt = None\<rparr>)\<rparr>"
  have c3: "chain_at ?q2 A B {n}" by (rule chain_private [OF c2]) simp
  have "reuse_node n (nxt nd) v q = Inr (n, ?q2)"
    using nd by (cases nd) (simp add: reuse_node_def sq_upd_def sq_node_def)
  moreover have "ready ?q2 A B n v" using c3 by (simp add: ready_def)
  moreover have "same_values q ?q2 B" using nB by (simp add: same_values_def del: map_eq_conv)
  ultimately show ?thesis by blast
qed

lemma alloc_node_ready:
  assumes c: "chain_at q A B {}"
  shows "\<exists>n q'. alloc_node v q = Inr (n, q') \<and> ready q' (tl A) B n v \<and> same_values q q' B"
proof -
  obtain n where n: "sq_first q = Some n" "n \<in> set (A @ [sq_tail q])" using c by (cases A) (auto simp: chain_at_def)
  obtain nd where nd: "sq_heap q n = Some nd" using chain_at_mem [OF c, of n] n(2) by auto
  let ?q = "q\<lparr>sq_tailcopy := sq_tail q\<rparr>"
  have c': "chain_at ?q A B {}" by (rule chain_load_tail [OF c])
  consider "n \<noteq> sq_tailcopy q" | "n = sq_tailcopy q" "n \<noteq> sq_tail q" | "n = sq_tailcopy q" "n = sq_tail q" by blast
  then show ?thesis
  proof cases
    case 1
    then obtain A' where A: "A = n # A'" using chain_first [OF c n(1)] by blast
    from 1 reuse_ready [of q n A' B nd v] c n nd A show ?thesis by (auto simp: alloc_node_def sq_node_def)
  next
    case 2
    then obtain A' where A: "A = n # A'" using chain_first [OF c'] n(1) by auto
    from 2 reuse_ready [of ?q n A' B nd v] c' n nd A show ?thesis
      by (auto simp: alloc_node_def sq_node_def same_values_def)
  next
    case 3
    then have A: "A = []" using chain_first_tail [OF c] n(1) by simp
    have fB: "sq_fresh q \<notin> set B" using c by (auto simp: chain_at_def)
    have "alloc_node v q = Inr (sq_fresh q, snd (sq_alloc (Some v) ?q))"
      using 3 n(1) nd by (simp add: alloc_node_def sq_node_def sq_alloc_def)
    moreover have "ready (snd (sq_alloc (Some v) ?q)) (tl A) B (sq_fresh q) v"
      using A chain_alloc [OF c', of "Some v"] by (simp add: ready_def sq_alloc_def)
    moreover have "same_values q (snd (sq_alloc (Some v) ?q)) B"
      using fB by (simp add: same_values_def sq_alloc_def del: map_eq_conv)
    ultimately show ?thesis by blast
  qed
qed

lemma rep_push:
  assumes "spsc_rep q A xs"
  shows "\<exists>q'. spsc_push v q = Inr q' \<and> spsc_rep q' (tl A) (xs @ [v])"
proof -
  obtain B where B: "chain_at q A B {}" "last (A @ sq_tail q # B) = sq_head q" "map (value_at (sq_heap q)) B = map Some xs"
    using assms by (auto simp: spsc_rep_def)
  obtain n q1 where q1: "alloc_node v q = Inr (n, q1)" "ready q1 (tl A) B n v" "same_values q q1 B"
    using alloc_node_ready [OF B(1)] by blast
  have h: "last (tl A @ sq_tail q1 # B) = sq_head q1" using B(2) q1(3) by (simp add: same_values_def)
  obtain l where l: "sq_heap q1 (sq_head q1) = Some l"
    "chain_at (q1\<lparr>sq_heap := (sq_heap q1)(sq_head q1 \<mapsto> l\<lparr>nxt := Some n\<rparr>)\<rparr>) (tl A) (B @ [n]) {}"
    using chain_link [of q1 "tl A" B n] q1(2) h unfolding ready_def by (metis node.select_convs(2))
  have nh: "n \<noteq> sq_head q1" using q1(2) h unfolding ready_def chain_at_def
    by (metis disjoint_insert(2) last_in_set append_is_Nil_conv list.distinct(1))
  show ?thesis
  proof (intro exI conjI)
    show "spsc_push v q = Inr (q1\<lparr>sq_heap := (sq_heap q1)(sq_head q1 \<mapsto> l\<lparr>nxt := Some n\<rparr>), sq_head := n\<rparr>)"
      using q1(1) l(1) by (simp add: spsc_push_def sq_upd_def sq_node_def)
    have "map (value_at ((sq_heap q1)(sq_head q1 \<mapsto> l\<lparr>nxt := Some n\<rparr>))) (B @ [n]) = map Some (xs @ [v])"
      using q1(2,3) B(3) l(1) nh by (simp add: ready_def same_values_def value_at_def)
    moreover have "chain_at (q1\<lparr>sq_heap := (sq_heap q1)(sq_head q1 \<mapsto> l\<lparr>nxt := Some n\<rparr>), sq_head := n\<rparr>) (tl A) (B @ [n]) {}"
      using l(2) by (simp add: chain_at_def)
    ultimately show "spsc_rep (q1\<lparr>sq_heap := (sq_heap q1)(sq_head q1 \<mapsto> l\<lparr>nxt := Some n\<rparr>), sq_head := n\<rparr>) (tl A) (xs @ [v])"
      unfolding spsc_rep_def by (intro exI [of _ "B @ [n]"]) simp
  qed
qed

lemma rep_pop_empty:
  assumes "spsc_rep q A []"
  shows "spsc_pop q = Inr (None, q)" "spsc_top q = Inr None"
proof -
  have "chain_at q A [] {}" using assms by (auto simp: spsc_rep_def)
  then obtain nd where "sq_heap q (sq_tail q) = Some nd" "nxt nd = None" by (rule chain_tail_next) simp
  then show "spsc_pop q = Inr (None, q)" "spsc_top q = Inr None"
    by (simp_all add: spsc_pop_def spsc_top_def sq_node_def)
qed

lemma rep_pop_cons:
  assumes "spsc_rep q A (x # xs)"
  shows "\<exists>q'. spsc_pop q = Inr (Some x, q') \<and> spsc_rep q' (A @ [sq_tail q]) xs" "spsc_top q = Inr (Some x)"
proof -
  obtain n B where B: "chain_at q A (n # B) {}" "last (A @ sq_tail q # n # B) = sq_head q"
      "value_at (sq_heap q) n = Some x" "map (value_at (sq_heap q)) B = map Some xs"
    using assms by (auto simp: spsc_rep_def Cons_eq_map_conv)
  obtain t where t: "sq_heap q (sq_tail q) = Some t" "nxt t = Some n" using chain_tail_next [OF B(1)] by auto
  obtain nd where nd: "sq_heap q n = Some nd" "val nd = Some x"
    using B(3) by (auto simp: value_at_def split: option.splits)
  show "spsc_top q = Inr (Some x)" using t nd by (simp add: spsc_top_def sq_node_def)
  have nB: "n \<notin> set B" using B(1) by (auto simp: chain_at_def)
  let ?q = "q\<lparr>sq_heap := (sq_heap q)(n \<mapsto> nd\<lparr>val := None\<rparr>)\<rparr>"
  have "chain_at ?q A (n # B) {}" by (rule chain_value [OF B(1) nd(1)]) simp
  then have "chain_at (?q\<lparr>sq_tail := n\<rparr>) (A @ [sq_tail q]) B {}" using chain_advance by fastforce
  then have "spsc_rep (?q\<lparr>sq_tail := n\<rparr>) (A @ [sq_tail q]) xs"
    using B(2,4) nB unfolding spsc_rep_def by (intro exI [of _ B]) (simp del: map_eq_conv)
  moreover have "spsc_pop q = Inr (Some x, ?q\<lparr>sq_tail := n\<rparr>)"
    using t nd by (simp add: spsc_pop_def sq_upd_def sq_node_def)
  ultimately show "\<exists>q'. spsc_pop q = Inr (Some x, q') \<and> spsc_rep q' (A @ [sq_tail q]) xs" by blast
qed

interpretation sq: fifo_queue spsc_new spsc_push spsc_pop spsc_holds
proof unfold_locales
  show "spsc_holds spsc_new []" using rep_new by (auto simp: spsc_holds_def)
  show "\<exists>q'. spsc_push v q = Inr q' \<and> spsc_holds q' (xs @ [v])" if "spsc_holds q xs" for q xs v
    using that rep_push unfolding spsc_holds_def by meson
  show "spsc_pop q = Inr (None, q)" if "spsc_holds q []" for q
    using that rep_pop_empty unfolding spsc_holds_def by blast
  show "\<exists>q'. spsc_pop q = Inr (Some x, q') \<and> spsc_holds q' xs" if "spsc_holds q (x # xs)" for q x xs
    using that rep_pop_cons(1) unfolding spsc_holds_def by meson
qed

section \<open>The destructor\<close>

lemma destroy_chain:
  "chained_from (sq_heap q) L \<Longrightarrow> distinct L \<Longrightarrow> L \<noteq> [] \<Longrightarrow> length L \<le> f \<Longrightarrow>
   sq_destroy_from f (Some (hd L)) q = Some (Inr (q\<lparr>sq_heap := (\<lambda>p. if p \<in> set L then None else sq_heap q p)\<rparr>))"
proof (induction L arbitrary: q f)
  case (Cons x L)
  obtain f' where f: "f = Suc f'" using Cons.prems(4) by (cases f) auto
  obtain nd where nd: "sq_heap q x = Some nd" "nxt nd = (if L = [] then None else Some (hd L))" "chained_from (sq_heap q) L"
    using Cons.prems(1) by (auto simp: chained_from_Cons)
  let ?q = "q\<lparr>sq_heap := (sq_heap q)(x := None)\<rparr>"
  show ?case
  proof (cases "L = []")
    case True
    have "(sq_heap q)(x := None) = (\<lambda>p. if p = x then None else sq_heap q p)" by auto
    then show ?thesis using True nd f by (simp add: sq_node_def Let_def)
  next
    case False
    have "chained_from (sq_heap ?q) L = chained_from (sq_heap q) L"
      using Cons.prems(2) by (intro chained_from_cong) auto
    with nd(3) have "chained_from (sq_heap ?q) L" by blast
    then have "sq_destroy_from f' (Some (hd L)) ?q =
        Some (Inr (?q\<lparr>sq_heap := (\<lambda>p. if p \<in> set L then None else sq_heap ?q p)\<rparr>))"
      using Cons.IH [of ?q f'] Cons.prems(2,4) False f by (metis Suc_le_mono distinct.simps(2) length_Cons)
    moreover have "(\<lambda>p. if p \<in> set L then None else sq_heap ?q p) = (\<lambda>p. if p \<in> set (x # L) then None else sq_heap q p)"
      by auto
    ultimately show ?thesis using False nd f by (simp add: sq_node_def Let_def)
  qed
qed simp

lemma rep_destroy:
  assumes "spsc_rep q A xs"
  shows "\<exists>q'. spsc_destroy q = Some (Inr q') \<and> sq_heap q' = Map.empty"
proof -
  obtain B where B: "chain_at q A B {}" using assms by (auto simp: spsc_rep_def)
  let ?L = "A @ sq_tail q # B"
  have "hd (A @ [sq_tail q]) = hd ?L" by (cases A) auto
  then have "spsc_destroy q = Some (Inr (q\<lparr>sq_heap := (\<lambda>p. if p \<in> set ?L then None else sq_heap q p)\<rparr>))"
    using B chain_count [OF B] destroy_chain [of q ?L "sq_fresh q"] by (simp add: chain_at_def spsc_destroy_def)
  moreover have "(\<lambda>p. if p \<in> set ?L then None else sq_heap q p) = Map.empty"
  proof
    have "dom (sq_heap q) = set ?L" using B unfolding chain_at_def by (metis sup_bot_right)
    then show "(if p \<in> set ?L then None else sq_heap q p) = None" for p by (metis domIff)
  qed
  ultimately show ?thesis by auto
qed

section \<open>Calls one after the other\<close>

datatype 'a sq_call = Sq_push 'a | Sq_pop | Sq_top

text \<open>The answers of \<open>pop\<close> and \<open>top\<close>, and the queue at the end.\<close>

fun sq_run :: "'a sq_call list \<Rightarrow> 'a spsc \<Rightarrow> ('a option list \<times> 'a spsc) res" where
  "sq_run [] q = Inr ([], q)"
| "sq_run (Sq_push v # cs) q = rbind (spsc_push v q) (sq_run cs)"
| "sq_run (Sq_pop # cs) q = rbind (spsc_pop q) (\<lambda>(x, q). rbind (sq_run cs q) (\<lambda>(xs, q). Inr (x # xs, q)))"
| "sq_run (Sq_top # cs) q = rbind (spsc_top q) (\<lambda>x. rbind (sq_run cs q) (\<lambda>(xs, q). Inr (x # xs, q)))"

text \<open>The same calls on a list, and the greatest length it has, at least \<open>m\<close>.\<close>

fun list_answers :: "'a sq_call list \<Rightarrow> 'a list \<Rightarrow> 'a option list" where
  "list_answers [] xs = []"
| "list_answers (Sq_push v # cs) xs = list_answers cs (xs @ [v])"
| "list_answers (Sq_pop # cs) xs = (if xs = [] then None else Some (hd xs)) # list_answers cs (tl xs)"
| "list_answers (Sq_top # cs) xs = (if xs = [] then None else Some (hd xs)) # list_answers cs xs"

fun peak :: "'a sq_call list \<Rightarrow> nat \<Rightarrow> nat \<Rightarrow> nat" where
  "peak [] m k = m"
| "peak (Sq_push v # cs) m k = peak cs (max m (Suc k)) (Suc k)"
| "peak (Sq_pop # cs) m k = peak cs m (k - 1)"
| "peak (Sq_top # cs) m k = peak cs m k"

lemma run_rep:
  "spsc_rep q A xs \<Longrightarrow> \<exists>q' A' xs'. sq_run cs q = Inr (list_answers cs xs, q') \<and> spsc_rep q' A' xs' \<and>
     sq_fresh q' = Suc (peak cs (length A + length xs) (length xs))"
proof (induction cs arbitrary: q A xs)
  case Nil
  then show ?case using rep_count by fastforce
next
  case (Cons c cs)
  show ?case
  proof (cases c)
    case (Sq_push v)
    obtain q1 where q1: "spsc_push v q = Inr q1" "spsc_rep q1 (tl A) (xs @ [v])" using rep_push [OF Cons.prems] by blast
    have "length (tl A) + length (xs @ [v]) = max (length A + length xs) (Suc (length xs))" by (cases A) auto
    then show ?thesis using Cons.IH [OF q1(2)] q1(1) Sq_push by (metis (lifting) length_append_singleton
        list_answers.simps(2) peak.simps(2) rbind_Inr sq_run.simps(2))
  next
    case Sq_pop
    show ?thesis
    proof (cases xs)
      case Nil
      then show ?thesis using Cons.IH [OF Cons.prems] rep_pop_empty(1) [of q A] Cons.prems Sq_pop by fastforce
    next
      case (Cons x ys)
      obtain q1 where q1: "spsc_pop q = Inr (Some x, q1)" "spsc_rep q1 (A @ [sq_tail q]) ys"
        using rep_pop_cons(1) \<open>spsc_rep q A xs\<close> Cons by meson
      then show ?thesis using Cons.IH [OF q1(2)] Cons Sq_pop by fastforce
    qed
  next
    case Sq_top
    have "spsc_top q = Inr (if xs = [] then None else Some (hd xs))"
      using rep_pop_empty(2) [of q A] rep_pop_cons(2) [of q A] Cons.prems by (cases xs) auto
    then show ?thesis using Cons.IH [OF Cons.prems] Sq_top by fastforce
  qed
qed

section \<open>The invariant of producer and consumer\<close>

text \<open>The node the producer owns; the values of the nodes the consumer has emptied and not left.\<close>

definition private_nodes :: "'a prod_pc \<Rightarrow> nat set" where
  "private_nodes pc = (case pc of P_reset w n \<Rightarrow> {n} | P_store w n \<Rightarrow> {n} | P_link w n \<Rightarrow> {n} | _ \<Rightarrow> {})"

definition emptied :: "cons_pc \<Rightarrow> 'a option list" where
  "emptied pc = (case pc of C_tail n \<Rightarrow> [None] | _ \<Rightarrow> [])"

definition producer_ok :: "'a spsc \<Rightarrow> 'a prod_pc \<Rightarrow> nat list \<Rightarrow> bool" where
  "producer_ok q pc L \<longleftrightarrow> last L = (case pc of P_head n \<Rightarrow> n | _ \<Rightarrow> sq_head q) \<and>
     (case pc of
        P_load w n next \<Rightarrow> sq_first q = Some n \<and> map_option nxt (sq_heap q n) = Some next
      | P_store w n \<Rightarrow> map_option nxt (sq_heap q n) = Some None
      | P_link w n \<Rightarrow> sq_heap q n = Some \<lparr>val = Some w, nxt = None\<rparr>
      | _ \<Rightarrow> True)"

definition consumer_ok :: "cons_pc \<Rightarrow> nat list \<Rightarrow> bool" where
  "consumer_ok pc B \<longleftrightarrow> (case pc of C_idle \<Rightarrow> True | C_take n \<Rightarrow> B \<noteq> [] \<and> hd B = n | C_tail n \<Rightarrow> B \<noteq> [] \<and> hd B = n)"

definition spsc_rel :: "'a spsc_sys \<Rightarrow> nat list \<Rightarrow> nat list \<Rightarrow> 'a list \<Rightarrow> bool" where
  "spsc_rel s A B rest \<longleftrightarrow> (let q = sp_queue s in
     chain_at q A B (private_nodes (sp_prod s)) \<and> producer_ok q (sp_prod s) (A @ sq_tail q # B) \<and>
     consumer_ok (sp_cons s) B \<and> sp_pushed s = sp_popped s @ rest \<and>
     map (value_at (sq_heap q)) B = emptied (sp_cons s) @ map Some rest)"

definition spsc_inv :: "'a spsc_sys \<Rightarrow> bool" where
  "spsc_inv s \<longleftrightarrow> (\<exists>A B rest. spsc_rel s A B rest)"

lemmas spsc_rel_simps = spsc_rel_def Let_def private_nodes_def emptied_def producer_ok_def consumer_ok_def

lemma inv_start: "spsc_inv spsc_start"
proof -
  have "chain_at (spsc_new :: 'a spsc) [] [] {}" "sq_head (spsc_new :: 'a spsc) = sq_tail (spsc_new :: 'a spsc)"
    by (auto simp: chain_at_def spsc_new_def sq_alloc_def)
  then have "spsc_rel (spsc_start :: 'a spsc_sys) [] [] []" by (simp add: spsc_rel_simps spsc_start_def)
  then show ?thesis unfolding spsc_inv_def by blast
qed

text \<open>The producer, one lemma per step.\<close>

lemma prod_idle:
  assumes r: "spsc_rel s A B rest" and pc: "sp_prod s = P_idle"
  shows "\<exists>t A'. prod_step v s = Inr t \<and> spsc_rel t A' B rest"
proof -
  let ?q = "sp_queue s"
  have c: "chain_at ?q A B {}" using r pc by (simp add: spsc_rel_simps)
  obtain n where n: "sq_first ?q = Some n" "n \<in> set (A @ [sq_tail ?q])" using c by (cases A) (auto simp: chain_at_def)
  obtain nd where nd: "sq_heap ?q n = Some nd" using chain_at_mem [OF c, of n] n(2) by auto
  show ?thesis
  proof (cases "n = sq_tailcopy ?q")
    case True
    then have "prod_step v s = Inr (s\<lparr>sp_prod := P_load v n (nxt nd)\<rparr>)"
      using n nd pc by (simp add: prod_step.simps sq_node_def)
    moreover have "spsc_rel (s\<lparr>sp_prod := P_load v n (nxt nd)\<rparr>) A B rest"
      using r pc n nd by (simp add: spsc_rel_simps)
    ultimately show ?thesis by blast
  next
    case False
    then obtain A' where A: "A = n # A'" using chain_first [OF c n(1)] by blast
    then have "chain_at (?q\<lparr>sq_first := nxt nd\<rparr>) A' B {n}"
      using chain_take [of ?q n A' B "{}"] c False nd by (metis option.inject)
    then have "spsc_rel (s\<lparr>sp_queue := ?q\<lparr>sq_first := nxt nd\<rparr>, sp_prod := P_reset v n\<rparr>) A' B rest"
      using r pc A by (simp add: spsc_rel_simps split: if_splits)
    moreover have "prod_step v s = Inr (s\<lparr>sp_queue := ?q\<lparr>sq_first := nxt nd\<rparr>, sp_prod := P_reset v n\<rparr>)"
      using n nd pc False by (simp add: prod_step.simps sq_node_def)
    ultimately show ?thesis by blast
  qed
qed

lemma prod_load:
  assumes r: "spsc_rel s A B rest" and pc: "sp_prod s = P_load w n next"
  shows "\<exists>t A'. prod_step v s = Inr t \<and> spsc_rel t A' B rest"
proof -
  let ?q = "sp_queue s" and ?q' = "(sp_queue s)\<lparr>sq_tailcopy := sq_tail (sp_queue s)\<rparr>"
  have c: "chain_at ?q A B {}" using r pc by (simp add: spsc_rel_simps)
  have c': "chain_at ?q' A B {}" by (rule chain_load_tail [OF c])
  obtain nd where nd: "sq_heap ?q n = Some nd" "nxt nd = next" "sq_first ?q = Some n"
    using r pc by (auto simp: spsc_rel_simps)
  show ?thesis
  proof (cases "n = sq_tail ?q")
    case True
    have "spsc_rel (s\<lparr>sp_queue := ?q', sp_prod := P_new w\<rparr>) A B rest" using r pc c' by (simp add: spsc_rel_simps split: if_splits)
    then show ?thesis using True pc by (auto simp: prod_step.simps Let_def)
  next
    case False
    then obtain A' where A: "A = n # A'" using chain_first [OF c'] nd(3) by auto
    then have "chain_at (?q'\<lparr>sq_first := nxt nd\<rparr>) A' B {n}"
      using chain_take [of ?q' n A' B "{}"] c' False nd by (metis option.inject spsc.select_convs(1) spsc.select_convs(5) spsc.surjective spsc.update_convs(5))
    then have "spsc_rel (s\<lparr>sp_queue := ?q'\<lparr>sq_first := next\<rparr>, sp_prod := P_reset w n\<rparr>) A' B rest"
      using r pc A nd(2) by (simp add: spsc_rel_simps split: if_splits)
    then show ?thesis using False pc by (auto simp: prod_step.simps Let_def)
  qed
qed

lemma rel_private:
  assumes r: "spsc_rel s A B rest" and "n \<in> private_nodes (sp_prod s)" "private_nodes pc = private_nodes (sp_prod s)"
    and "producer_ok (sp_queue s\<lparr>sq_heap := (sq_heap (sp_queue s))(n \<mapsto> nd)\<rparr>) pc (A @ sq_tail (sp_queue s) # B)"
  shows "spsc_rel (s\<lparr>sp_queue := sp_queue s\<lparr>sq_heap := (sq_heap (sp_queue s))(n \<mapsto> nd)\<rparr>, sp_prod := pc\<rparr>) A B rest"
proof -
  have c: "chain_at (sp_queue s) A B (private_nodes (sp_prod s))" using r by (simp add: spsc_rel_def Let_def)
  have "n \<notin> set B" using c assms(2) by (auto simp: chain_at_def)
  then show ?thesis using r chain_private [OF c assms(2), of nd] assms(3,4)
    by (simp add: spsc_rel_def Let_def del: map_eq_conv)
qed

lemma rel_last: "spsc_rel s A B rest \<Longrightarrow> last (A @ sq_tail (sp_queue s) # B) =
    (case sp_prod s of P_head n \<Rightarrow> n | _ \<Rightarrow> sq_head (sp_queue s))"
  by (simp add: spsc_rel_def Let_def producer_ok_def)

lemma prod_reset:
  assumes r: "spsc_rel s A B rest" and pc: "sp_prod s = P_reset w n"
  shows "\<exists>t. prod_step v s = Inr t \<and> spsc_rel t A B rest"
proof -
  have c: "chain_at (sp_queue s) A B {n}" using r pc by (simp add: spsc_rel_simps)
  obtain nd where nd: "sq_heap (sp_queue s) n = Some nd" using chain_at_mem [OF c, of n] by auto
  show ?thesis
    using rel_private [OF r, of n "P_store w n" "nd\<lparr>nxt := None\<rparr>"] rel_last [OF r] pc nd
    by (simp add: private_nodes_def producer_ok_def prod_step.simps sq_upd_def sq_node_def Let_def)
qed

lemma prod_store:
  assumes r: "spsc_rel s A B rest" and pc: "sp_prod s = P_store w n"
  shows "\<exists>t. prod_step v s = Inr t \<and> spsc_rel t A B rest"
proof -
  obtain nd where nd: "sq_heap (sp_queue s) n = Some nd" "nxt nd = None"
    using r pc by (auto simp: spsc_rel_simps)
  then have "nd\<lparr>val := Some w\<rparr> = \<lparr>val = Some w, nxt = None\<rparr>" by (cases nd) simp
  then show ?thesis
    using rel_private [OF r, of n "P_link w n" "nd\<lparr>val := Some w\<rparr>"] rel_last [OF r] pc nd
    by (simp add: private_nodes_def producer_ok_def prod_step.simps sq_upd_def sq_node_def Let_def)
qed

lemma prod_new:
  assumes r: "spsc_rel s A B rest" and pc: "sp_prod s = P_new w"
  shows "\<exists>t. prod_step v s = Inr t \<and> spsc_rel t A B rest"
proof -
  let ?q = "sp_queue s" and ?q' = "snd (sq_alloc (Some w) (sp_queue s))"
  have c: "chain_at ?q A B {}" using r pc by (simp add: spsc_rel_simps)
  have f: "sq_fresh ?q \<notin> set B" using c by (auto simp: chain_at_def)
  have "prod_step v s = Inr (s\<lparr>sp_queue := ?q', sp_prod := P_link w (sq_fresh ?q)\<rparr>)"
    using pc by (simp add: prod_step.simps sq_alloc_def Let_def)
  moreover have "spsc_rel (s\<lparr>sp_queue := ?q', sp_prod := P_link w (sq_fresh ?q)\<rparr>) A B rest"
    using r pc chain_alloc [OF c, of "Some w"] rel_last [OF r] f
    by (simp add: spsc_rel_simps sq_alloc_def del: map_eq_conv split: if_splits)
  ultimately show ?thesis by blast
qed

lemma prod_link:
  assumes r: "spsc_rel s A B rest" and pc: "sp_prod s = P_link w n"
  shows "\<exists>t. prod_step v s = Inr t \<and> spsc_rel t A (B @ [n]) (rest @ [w])"
proof -
  let ?q = "sp_queue s"
  have c: "chain_at ?q A B {n}" and n: "sq_heap ?q n = Some \<lparr>val = Some w, nxt = None\<rparr>"
    using r pc by (simp_all add: spsc_rel_simps)
  have h: "last (A @ sq_tail ?q # B) = sq_head ?q" using rel_last [OF r] pc by simp
  obtain l where l: "sq_heap ?q (sq_head ?q) = Some l"
    "chain_at (?q\<lparr>sq_heap := (sq_heap ?q)(sq_head ?q \<mapsto> l\<lparr>nxt := Some n\<rparr>)\<rparr>) A (B @ [n]) {}"
    using chain_link [OF c n] h by (metis node.select_convs(2))
  let ?t = "s\<lparr>sp_queue := ?q\<lparr>sq_heap := (sq_heap ?q)(sq_head ?q \<mapsto> l\<lparr>nxt := Some n\<rparr>)\<rparr>, sp_prod := P_head n,
              sp_pushed := sp_pushed s @ [w]\<rparr>"
  have v: "map (value_at ((sq_heap ?q)(sq_head ?q \<mapsto> l\<lparr>nxt := Some n\<rparr>))) (B @ [n]) = map (value_at (sq_heap ?q)) (B @ [n])"
    using l(1) by (rule values_next)
  have "consumer_ok (sp_cons s) (B @ [n])" using r by (auto simp: spsc_rel_simps split: cons_pc.splits)
  moreover have "map (value_at (sq_heap ?q)) (B @ [n]) = emptied (sp_cons s) @ map Some (rest @ [w])"
    using r n by (simp add: spsc_rel_def Let_def value_at_def)
  ultimately have "spsc_rel ?t A (B @ [n]) (rest @ [w])"
    using l(2) v r unfolding spsc_rel_def Let_def by (simp add: private_nodes_def producer_ok_def)
  moreover have "prod_step v s = Inr ?t" using pc l(1) by (simp add: prod_step.simps sq_upd_def sq_node_def Let_def)
  ultimately show ?thesis by blast
qed

lemma prod_head:
  assumes r: "spsc_rel s A B rest" and pc: "sp_prod s = P_head n"
  shows "\<exists>t. prod_step v s = Inr t \<and> spsc_rel t A B rest"
  using r pc by (simp add: prod_step.simps spsc_rel_simps split: if_splits)

text \<open>The consumer.\<close>

lemma cons_idle:
  assumes r: "spsc_rel s A B rest" and pc: "sp_cons s = C_idle"
  shows "cons_step s = Inr (if B = [] then s else s\<lparr>sp_cons := C_take (hd B)\<rparr>)"
    "spsc_rel (if B = [] then s else s\<lparr>sp_cons := C_take (hd B)\<rparr>) A B rest"
proof -
  have c: "chain_at (sp_queue s) A B (private_nodes (sp_prod s))" using r by (simp add: spsc_rel_def Let_def)
  obtain nd where "sq_heap (sp_queue s) (sq_tail (sp_queue s)) = Some nd" "nxt nd = (if B = [] then None else Some (hd B))"
    using chain_tail_next [OF c] by blast
  then show "cons_step s = Inr (if B = [] then s else s\<lparr>sp_cons := C_take (hd B)\<rparr>)" using pc by (simp add: cons_step.simps sq_node_def)
  show "spsc_rel (if B = [] then s else s\<lparr>sp_cons := C_take (hd B)\<rparr>) A B rest" using r pc by (cases B) (simp_all add: spsc_rel_def Let_def consumer_ok_def emptied_def)
qed

lemma producer_ok_value:
  assumes "producer_ok q pc L" "sq_heap q n = Some nd" "n \<notin> private_nodes pc"
  shows "producer_ok (q\<lparr>sq_heap := (sq_heap q)(n \<mapsto> nd\<lparr>val := x\<rparr>)\<rparr>) pc L"
  using assms by (auto simp: producer_ok_def private_nodes_def split: prod_pc.splits)

lemma cons_take:
  assumes r: "spsc_rel s A B rest" and pc: "sp_cons s = C_take n"
  shows "\<exists>t. cons_step s = Inr t \<and> spsc_rel t A B (tl rest)"
proof -
  let ?q = "sp_queue s"
  obtain B' where B: "B = n # B'" using r pc by (cases B) (auto simp: spsc_rel_simps)
  have c: "chain_at ?q A B (private_nodes (sp_prod s))" using r by (simp add: spsc_rel_def Let_def)
  have "map (value_at (sq_heap ?q)) B = map Some rest" using r pc by (simp add: spsc_rel_def Let_def emptied_def)
  then obtain x rest' where x: "rest = x # rest'" "value_at (sq_heap ?q) n = Some x" "map (value_at (sq_heap ?q)) B' = map Some rest'"
    using B by (auto simp: Cons_eq_map_conv)
  obtain nd where nd: "sq_heap ?q n = Some nd" "val nd = Some x" using x(2) by (auto simp: value_at_def split: option.splits)
  let ?h = "(sq_heap ?q)(n \<mapsto> nd\<lparr>val := None\<rparr>)"
  let ?t = "s\<lparr>sp_queue := ?q\<lparr>sq_heap := ?h\<rparr>, sp_cons := C_tail n, sp_popped := sp_popped s @ [x]\<rparr>"
  have n: "n \<notin> private_nodes (sp_prod s)" "distinct B" using c B by (auto simp: chain_at_def)
  have "chain_at (?q\<lparr>sq_heap := ?h\<rparr>) A B (private_nodes (sp_prod s))" by (rule chain_value [OF c nd(1)]) (simp add: B)
  moreover have "producer_ok (?q\<lparr>sq_heap := ?h\<rparr>) (sp_prod s) (A @ sq_tail ?q # B)"
    using producer_ok_value [OF _ nd(1) n(1)] r by (simp add: spsc_rel_def Let_def)
  moreover have "map (value_at ?h) B = None # map Some rest'" using values_set [of B n B' "sq_heap ?q" nd None] n(2) B nd(1) x(3) by simp
  ultimately have "spsc_rel ?t A B rest'"
    using r x(1) B unfolding spsc_rel_def Let_def by (simp add: consumer_ok_def emptied_def)
  moreover have "cons_step s = Inr ?t" using pc nd by (simp add: cons_step.simps sq_upd_def sq_node_def Let_def)
  ultimately show ?thesis using x(1) by auto
qed

lemma cons_tail:
  assumes r: "spsc_rel s A B rest" and pc: "sp_cons s = C_tail n"
  shows "\<exists>t A' B'. cons_step s = Inr t \<and> spsc_rel t A' B' rest"
proof -
  let ?q = "sp_queue s"
  obtain B' where B: "B = n # B'" using r pc by (cases B) (auto simp: spsc_rel_simps)
  have c: "chain_at ?q A (n # B') (private_nodes (sp_prod s))" using r B by (simp add: spsc_rel_def Let_def)
  have "producer_ok (?q\<lparr>sq_tail := n\<rparr>) (sp_prod s) ((A @ [sq_tail ?q]) @ n # B')"
    using r B unfolding spsc_rel_def Let_def producer_ok_def by (simp cong: prod_pc.case_cong)
  then have "spsc_rel (s\<lparr>sp_queue := ?q\<lparr>sq_tail := n\<rparr>, sp_cons := C_idle\<rparr>) (A @ [sq_tail ?q]) B' rest"
    using r pc B chain_advance [OF c] by (simp add: spsc_rel_def Let_def consumer_ok_def emptied_def)
  moreover have "cons_step s = Inr (s\<lparr>sp_queue := ?q\<lparr>sq_tail := n\<rparr>, sp_cons := C_idle\<rparr>)"
    using pc by (simp add: cons_step.simps)
  ultimately show ?thesis by blast
qed

lemma prod_step_inv:
  assumes "spsc_inv s"
  shows "\<exists>t. prod_step v s = Inr t \<and> spsc_inv t"
proof -
  obtain A B rest where r: "spsc_rel s A B rest" using assms by (auto simp: spsc_inv_def)
  have "\<exists>t A B rest. prod_step v s = Inr t \<and> spsc_rel t A B rest"
    using prod_idle [OF r] prod_load [OF r] prod_reset [OF r] prod_store [OF r] prod_new [OF r] prod_link [OF r]
      prod_head [OF r] by (cases "sp_prod s"; metis)
  then show ?thesis unfolding spsc_inv_def by blast
qed

lemma cons_step_inv:
  assumes "spsc_inv s"
  shows "\<exists>t. cons_step s = Inr t \<and> spsc_inv t"
proof -
  obtain A B rest where r: "spsc_rel s A B rest" using assms by (auto simp: spsc_inv_def)
  have "\<exists>t A B rest. cons_step s = Inr t \<and> spsc_rel t A B rest"
    using cons_idle [OF r] cons_take [OF r] cons_tail [OF r] by (cases "sp_cons s"; metis)
  then show ?thesis unfolding spsc_inv_def by blast
qed

interpretation spsc: inductive_invariant "\<lambda>s. s = spsc_start" spsc_step spsc_inv
proof unfold_locales
  show "spsc_inv s" if "s = spsc_start" for s :: "'a spsc_sys" using that inv_start by simp
  show "spsc_inv t" if "spsc_inv s" "spsc_step s t" for s t :: "'a spsc_sys"
    using that(2,1) by cases (metis prod_step_inv sum.inject(2), metis cons_step_inv sum.inject(2))
qed

lemma inv_empty:
  assumes "spsc_inv s" "sp_cons s = C_idle"
  shows "cons_step s = Inr s \<longleftrightarrow> sp_popped s = sp_pushed s"
proof -
  obtain A B rest where r: "spsc_rel s A B rest" using assms(1) by (auto simp: spsc_inv_def)
  then have "sp_popped s = sp_pushed s \<longleftrightarrow> B = []" using assms(2) by (auto simp: spsc_rel_simps)
  moreover have "s\<lparr>sp_cons := C_take (hd B)\<rparr> \<noteq> s" using assms(2)
    by (metis cons_pc.distinct(1) spsc_sys.select_convs(3) spsc_sys.surjective spsc_sys.update_convs(3))
  ultimately show ?thesis using cons_idle(1) [OF r assms(2)] by simp
qed

text \<open>The nodes each side touches without atomic operations.\<close>

lemma inv_private:
  assumes "spsc_inv s" "n \<in> private_nodes (sp_prod s)"
  shows "n \<noteq> sq_tail (sp_queue s)" "sp_cons s \<noteq> C_take n" "sp_cons s \<noteq> C_tail n"
proof -
  obtain A B rest where r: "spsc_rel s A B rest" using assms(1) by (auto simp: spsc_inv_def)
  then have "n \<notin> set (A @ sq_tail (sp_queue s) # B)" using assms(2) unfolding spsc_rel_def Let_def chain_at_def by blast
  moreover have "sp_cons s = C_take n \<or> sp_cons s = C_tail n \<Longrightarrow> n \<in> set B"
    using r by (auto simp: spsc_rel_simps)
  ultimately show "n \<noteq> sq_tail (sp_queue s)" "sp_cons s \<noteq> C_take n" "sp_cons s \<noteq> C_tail n" by auto
qed

section \<open>Properties\<close>

text \<open>C22. One producer and one consumer under every interleaving: no step touches a node that does not exist or a value
  that is not there, the values come out in the order they went in, the consumer is told that the queue is empty exactly
  when it has taken every published value, and the node the producer writes to is neither the consumer's tail nor the
  node the consumer is at, although nodes are used again.\<close>

theorem spsc_fifo:
  assumes "reach (\<lambda>s. s = spsc_start) spsc_step s"
  shows "(\<exists>t. prod_step v s = Inr t) \<and> (\<exists>t. cons_step s = Inr t) \<and> prefix (sp_popped s) (sp_pushed s) \<and>
    (sp_cons s = C_idle \<longrightarrow> (cons_step s = Inr s \<longleftrightarrow> sp_popped s = sp_pushed s)) \<and>
    (\<forall>n\<in>private_nodes (sp_prod s). n \<noteq> sq_tail (sp_queue s) \<and> sp_cons s \<noteq> C_take n \<and> sp_cons s \<noteq> C_tail n)"
proof -
  have i: "spsc_inv s" by (rule spsc.inv_reach [OF assms])
  then have "prefix (sp_popped s) (sp_pushed s)" by (auto simp: spsc_inv_def spsc_rel_def Let_def)
  then show ?thesis using prod_step_inv [OF i] cons_step_inv [OF i] inv_empty [OF i] inv_private [OF i] by blast
qed

theorem spsc_fifo_witness:
  "\<exists>s :: nat spsc_sys. sp_popped s = [7] \<and> prefix (sp_popped s) (sp_pushed s) \<and> (\<exists>t. prod_step 8 s = Inr t)"
proof -
  let ?r = "reach (\<lambda>s. s = spsc_start) spsc_step :: nat spsc_sys \<Rightarrow> bool"
  define go where "go = (\<lambda>(f :: nat spsc_sys \<Rightarrow> nat spsc_sys res) s. case f s of Inl _ \<Rightarrow> s | Inr t \<Rightarrow> t)"
  have P: "?r (go (prod_step 7) s)" and C: "?r (go cons_step s)" if "?r s" for s
    using that unfolding go_def by (auto split: sum.splits intro: reach_step spsc_step.intros)
  let ?s = "go cons_step (go cons_step (go (prod_step 7) (go (prod_step 7) (go (prod_step 7) (go (prod_step 7) spsc_start)))))"
  have r: "?r ?s" by (intro P C reach_init) simp
  have "sp_popped ?s = [7]"
    by (simp add: go_def spsc_start_def spsc_new_def sq_alloc_def prod_step.simps cons_step.simps sq_node_def sq_upd_def Let_def)
  then show ?thesis using spsc_fifo [OF r, of 8] by blast
qed

text \<open>C38. Calls one after the other answer what a list answers. The queue allocates a node only when every node holds a
  value: the number of nodes is one more than the greatest number of values it ever held. The destructor returns and frees
  each node once.\<close>

theorem spsc_refines_list:
  "\<exists>q q'. sq_run cs spsc_new = Inr (list_answers cs [], q) \<and> sq_fresh q = Suc (peak cs 0 0) \<and>
     spsc_destroy q = Some (Inr q') \<and> sq_heap q' = Map.empty"
  using run_rep [OF rep_new, of cs] rep_destroy by fastforce

end
