(* ===== verification/Rpc_Channel.thy ===== *)
theory Rpc_Channel
  imports Mpsc_Queue
begin

text \<open>
  \<open>RpcChannel\<close> of \<open>src/thread/RpcChannel.h\<close>: an unbounded channel made of an \<open>MpscQueue\<close>, an atomic
  counter \<open>_size\<close> and an eventfd in semaphore mode that is written only when the receiver sleeps.

  The queue is represented by its contents, oldest first; an item whose producer \<open>i\<close> has not stored
  its \<open>next\<close> pointer yet carries \<open>Some i\<close>, and \<open>pop\<close> fails while the first item is in that state
  (the behaviour \<open>mpsc_rel\<close> shows of the linked queue). A step is one atomic access. \<open>poll\<close> returns
  0 only when the eventfd holds no token; it may also be interrupted and return -1. A \<open>read\<close> of an
  eventfd without token blocks, so its step has no successor then. \<open>got\<close> are the items of the calls of \<open>recv\<close> that have
  returned true, \<open>woken_false\<close> counts the calls that returned false although they had read the eventfd.
\<close>

section \<open>Model\<close>

datatype send_pc = S_idle | S_link | S_size | S_write

datatype 'a recv_pc =
    R_idle
  | R_spin int nat
  | R_dec 'a | R_dec_read 'a
  | R_sub int
  | R_wait | R_check | R_must
  | R_poll int | R_timeout int | R_poll_read int | R_poll_pop int

record 'a chan =
  cq :: "('a \<times> nat option) list"
  csize :: int
  tokens :: nat
  senders :: "send_pc list"
  receiver :: "'a recv_pc"
  sent :: "'a list"
  got :: "'a list"
  false_returns :: "int list"
  woken_false :: nat
  terminates :: nat
  aborted :: bool

definition chan_init :: "'a chan \<Rightarrow> bool" where
  "chan_init s \<longleftrightarrow> cq s = [] \<and> csize s = 0 \<and> tokens s = 0 \<and> list_all (\<lambda>pc. pc = S_idle) (senders s) \<and>
     receiver s = R_idle \<and> sent s = [] \<and> got s = [] \<and> false_returns s = [] \<and> woken_false s = 0 \<and> terminates s = 0 \<and> \<not> aborted s"

definition set_sender :: "nat \<Rightarrow> send_pc \<Rightarrow> 'a chan \<Rightarrow> 'a chan" where
  "set_sender i pc s = s\<lparr>senders := (senders s)[i := pc]\<rparr>"

definition send_push :: "nat \<Rightarrow> 'a \<Rightarrow> 'a chan \<Rightarrow> 'a chan" where
  "send_push i v s = set_sender i S_link (s\<lparr>cq := cq s @ [(v, Some i)], sent := sent s @ [v]\<rparr>)"

definition send_link :: "nat \<Rightarrow> 'a chan \<Rightarrow> 'a chan" where
  "send_link i s =
     set_sender i S_size (s\<lparr>cq := map (\<lambda>(v, t). (v, if t = Some i then None else t)) (cq s)\<rparr>)"

definition send_size :: "nat \<Rightarrow> 'a chan \<Rightarrow> 'a chan" where
  "send_size i s = set_sender i (if csize s = -1 then S_write else S_idle) (s\<lparr>csize := csize s + 1\<rparr>)"

definition send_write :: "nat \<Rightarrow> 'a chan \<Rightarrow> 'a chan" where
  "send_write i s = set_sender i S_idle (s\<lparr>tokens := tokens s + 1\<rparr>)"

definition terminate :: "'a chan \<Rightarrow> 'a chan" where
  "terminate s = s\<lparr>tokens := tokens s + 1, terminates := terminates s + 1\<rparr>"

definition send_step :: "nat \<Rightarrow> 'a \<Rightarrow> 'a chan \<Rightarrow> 'a chan" where
  "send_step i v s =
     (case senders s ! i of S_idle \<Rightarrow> send_push i v s | S_link \<Rightarrow> send_link i s
      | S_size \<Rightarrow> send_size i s | S_write \<Rightarrow> send_write i s)"

fun cpop :: "('a \<times> nat option) list \<Rightarrow> ('a \<times> ('a \<times> nat option) list) option" where
  "cpop ((v, None) # q) = Some (v, q)"
| "cpop _ = None"

definition try_pop :: "('a \<Rightarrow> 'a chan \<Rightarrow> 'a chan) \<Rightarrow> ('a chan \<Rightarrow> 'a chan) \<Rightarrow> 'a chan \<Rightarrow> 'a chan" where
  "try_pop success failure s =
     (case cpop (cq s) of Some (v, q) \<Rightarrow> success v (s\<lparr>cq := q\<rparr>) | None \<Rightarrow> failure s)"

definition goto :: "'a recv_pc \<Rightarrow> 'a chan \<Rightarrow> 'a chan" where
  "goto pc s = s\<lparr>receiver := pc\<rparr>"

definition return_false :: "int \<Rightarrow> 'a chan \<Rightarrow> 'a chan" where
  "return_false timeout s = s\<lparr>receiver := R_idle, false_returns := timeout # false_returns s\<rparr>"

definition return_woken_false :: "int \<Rightarrow> 'a chan \<Rightarrow> 'a chan" where
  "return_woken_false timeout s = return_false timeout (s\<lparr>woken_false := woken_false s + 1\<rparr>)"

definition return_true :: "'a \<Rightarrow> 'a chan \<Rightarrow> 'a chan" where
  "return_true v s = s\<lparr>receiver := R_idle, got := got s @ [v]\<rparr>"

definition read_fd :: "('a chan \<Rightarrow> 'a chan) \<Rightarrow> 'a chan \<Rightarrow> 'a chan list" where
  "read_fd k s = (if tokens s = 0 then [] else [k (s\<lparr>tokens := tokens s - 1\<rparr>)])"

text \<open>The successors of the receiver's position: one for every way the access can turn out.\<close>

fun recv_moves :: "'a recv_pc \<Rightarrow> 'a chan \<Rightarrow> 'a chan list" where
  "recv_moves R_idle s = []"
| "recv_moves (R_spin timeout k) s =
     (case k of
        0 \<Rightarrow> [if timeout = 0 then return_false timeout s else goto (R_sub timeout) s]
      | Suc n \<Rightarrow> [try_pop (\<lambda>v. goto (R_dec v)) (goto (R_spin timeout n)) s])"
| "recv_moves (R_dec v) s =
     [(if csize s = 0 then goto (R_dec_read v) else return_true v) (s\<lparr>csize := csize s - 1\<rparr>)]"
| "recv_moves (R_dec_read v) s = read_fd (return_true v) s"
| "recv_moves (R_sub timeout) s =
     [(if csize s < 0 then (\<lambda>s. s\<lparr>aborted := True\<rparr>)
       else if csize s = 0 then goto (if timeout = -1 then R_wait else R_poll timeout)
       else goto R_must) (s\<lparr>csize := csize s - 1\<rparr>)]"
| "recv_moves R_wait s = read_fd (goto R_check) s"
| "recv_moves R_check s = [if csize s \<ge> 0 then goto R_must s else return_woken_false (-1) s]"
| "recv_moves R_must s = [try_pop return_true (\<lambda>s. s) s]"
| "recv_moves (R_poll timeout) s =
     (if tokens s = 0 then [goto (R_timeout timeout) s] else []) @ [goto (R_poll_read timeout) s]"
| "recv_moves (R_timeout timeout) s = [return_false timeout (s\<lparr>csize := csize s + 1\<rparr>)]"
| "recv_moves (R_poll_read timeout) s = read_fd (goto (R_poll_pop timeout)) s"
| "recv_moves (R_poll_pop timeout) s = [try_pop return_true (return_woken_false timeout) s]"

text \<open>
  \<open>timed\<close> tells whether the receiver may call \<open>recv\<close> with a positive timeout; -1 waits for ever and
  0 polls.
\<close>

inductive chan_step :: "bool \<Rightarrow> 'a chan \<Rightarrow> 'a chan \<Rightarrow> bool" for timed where
  send: "i < length (senders s) \<Longrightarrow> \<not> aborted s \<Longrightarrow> chan_step timed s (send_step i v s)"
| stop: "\<not> aborted s \<Longrightarrow> chan_step timed s (terminate s)"
| recv: "receiver s = R_idle \<Longrightarrow> \<not> aborted s \<Longrightarrow> timeout = -1 \<or> timeout = 0 \<or> (timed \<and> 0 < timeout) \<Longrightarrow>
    chan_step timed s (goto (R_spin timeout spin_count) s)"
| recv_move: "t \<in> set (recv_moves (receiver s) s) \<Longrightarrow> \<not> aborted s \<Longrightarrow> chan_step timed s t"

section \<open>Invariants\<close>

text \<open>The item a call has popped and not returned yet.\<close>

fun in_hand :: "'a recv_pc \<Rightarrow> 'a list" where
  "in_hand (R_dec v) = [v]"
| "in_hand (R_dec_read v) = [v]"
| "in_hand _ = []"

text \<open>A pushed item that its sender has not counted.\<close>

definition uncounted :: "send_pc \<Rightarrow> bool" where
  "uncounted pc \<longleftrightarrow> pc = S_link \<or> pc = S_size"

text \<open>What the receiver has already taken from the queue but not from the counter, or the reverse.\<close>

fun ahead :: "'a recv_pc \<Rightarrow> int" where
  "ahead (R_dec _) = 1"
| "ahead R_wait = -1"
| "ahead R_check = -1"
| "ahead R_must = -1"
| "ahead (R_poll _) = -1"
| "ahead (R_timeout _) = -1"
| "ahead (R_poll_read _) = -1"
| "ahead (R_poll_pop _) = -1"
| "ahead _ = 0"

definition count_inv :: "'a chan \<Rightarrow> bool" where
  "count_inv s \<longleftrightarrow> sent s = got s @ in_hand (receiver s) @ map fst (cq s) \<and>
     (\<not> aborted s \<longrightarrow>
       csize s = int (length (cq s)) - int (cnt uncounted (senders s)) + ahead (receiver s) - int (woken_false s))"

fun waiting :: "'a recv_pc \<Rightarrow> bool" where
  "waiting (R_dec_read _) = True"
| "waiting R_wait = True"
| "waiting _ = False"

fun untimed :: "'a recv_pc \<Rightarrow> bool" where
  "untimed (R_poll _) = False"
| "untimed (R_timeout _) = False"
| "untimed (R_poll_read _) = False"
| "untimed (R_poll_pop _) = False"
| "untimed (R_spin t _) = (t = -1 \<or> t = 0)"
| "untimed (R_sub t) = (t = -1)"
| "untimed _ = True"

definition tags_ok :: "send_pc list \<Rightarrow> ('a \<times> nat option) list \<Rightarrow> bool" where
  "tags_ok ps q \<longleftrightarrow> (\<forall>v i. (v, Some i) \<in> set q \<longrightarrow> i < length ps \<and> ps ! i = S_link)"

definition block_inv :: "'a chan \<Rightarrow> bool" where
  "block_inv s \<longleftrightarrow>
     csize s = int (length (cq s)) - int (cnt uncounted (senders s)) + ahead (receiver s) \<and>
     (if waiting (receiver s) then -1 \<le> csize s else 0 \<le> csize s) \<and>
     tokens s + cnt (\<lambda>pc. pc = S_write) (senders s) = one_if (waiting (receiver s) \<and> 0 \<le> csize s) \<and>
     untimed (receiver s) \<and> woken_false s = 0 \<and> \<not> aborted s \<and> -1 \<notin> set (false_returns s) \<and> tags_ok (senders s) (cq s)"

definition chan_inv :: "'a chan \<Rightarrow> bool" where
  "chan_inv s \<longleftrightarrow> 0 < terminates s \<or> block_inv s"

lemmas chan_defs = goto_def return_false_def return_woken_false_def return_true_def set_sender_def try_pop_def read_fd_def

lemma cpop_Some: "cpop q = Some (v, r) \<longleftrightarrow> q = (v, None) # r"
  by (cases q rule: cpop.cases) auto

lemma cnt_senders:
  assumes "i < length ps"
  shows "int (cnt P (ps[i := pc])) = int (cnt P ps) + int (one_if (P pc)) - int (one_if (P (ps ! i)))"
  using cnt_update_one_if [OF assms, of P pc] by linarith

lemma count_inv_send:
  assumes inv: "count_inv s" and i: "i < length (senders s)"
  shows "count_inv (send_step i v s)"
  using inv cnt_senders [OF i, of uncounted]
  by (cases "senders s ! i") (auto simp: count_inv_def send_step_def send_push_def send_link_def send_size_def send_write_def
      set_sender_def uncounted_def one_if_def comp_def case_prod_unfold)

lemma count_inv_recv: "count_inv s \<Longrightarrow> \<not> aborted s \<Longrightarrow> t \<in> set (recv_moves (receiver s) s) \<Longrightarrow> count_inv t"
  by (cases "receiver s")
    (auto simp: count_inv_def chan_defs cpop_Some split: option.splits if_splits nat.splits)

lemma tags_upd:
  assumes "tags_ok ps q" "pc = S_link \<or> ps ! i \<noteq> S_link" "i < length ps"
  shows "tags_ok (ps[i := pc]) q"
  using assms by (auto simp: tags_ok_def nth_list_update split: if_splits)

lemma tags_push: "tags_ok ps q \<Longrightarrow> i < length ps \<Longrightarrow> tags_ok (ps[i := S_link]) (q @ [(v, Some i)])"
  by (auto simp: tags_ok_def nth_list_update)

lemma tags_link:
  "tags_ok ps q \<Longrightarrow> tags_ok (ps[i := S_size]) (map (\<lambda>(v, t). (v, if t = Some i then None else t)) q)"
  unfolding tags_ok_def
proof (intro allI impI)
  fix v k
  assume q: "\<forall>v i. (v, Some i) \<in> set q \<longrightarrow> i < length ps \<and> ps ! i = S_link"
    and "(v, Some k) \<in> set (map (\<lambda>(v, t). (v, if t = Some i then None else t)) q)"
  then have "(v, Some k) \<in> set q" "k \<noteq> i" by (auto split: if_splits)
  with q show "k < length (ps[i := S_size]) \<and> ps[i := S_size] ! k = S_link" by auto
qed

lemma tags_pop: "tags_ok ps ((v, t) # q) \<Longrightarrow> tags_ok ps q"
  by (auto simp: tags_ok_def)

lemma block_inv_send:
  assumes inv: "block_inv s" and i: "i < length (senders s)"
  shows "block_inv (send_step i v s)"
proof -
  have tags: "tags_ok (senders s) (cq s)" using inv by (simp add: block_inv_def)
  note w = cnt_update_one_if [OF i, of "\<lambda>pc. pc = S_write"]
  note u = cnt_senders [OF i, of uncounted]
  show ?thesis
  proof (cases "senders s ! i")
    case S_idle
    then show ?thesis
      using inv w [of S_link] u [of S_link] tags_push [OF tags i, of v]
      by (auto simp: send_step_def send_push_def set_sender_def block_inv_def uncounted_def)
  next
    case S_link
    then show ?thesis
      using inv w [of S_size] u [of S_size] tags_link [OF tags, of i]
      by (auto simp: send_step_def send_link_def set_sender_def block_inv_def uncounted_def)
  next
    case S_size
    then show ?thesis
      using inv w [of S_idle] w [of S_write] u [of S_idle] u [of S_write] tags_upd [OF tags _ i]
      by (auto simp: send_step_def send_size_def set_sender_def block_inv_def uncounted_def one_if_def
          split: if_splits)
  next
    case S_write
    then show ?thesis
      using inv w [of S_idle] u [of S_idle] tags_upd [OF tags _ i, of S_idle]
      by (auto simp: send_step_def send_write_def set_sender_def block_inv_def uncounted_def one_if_def
          split: if_splits)
  qed
qed

lemma block_inv_recv:
  assumes inv: "block_inv s" and t: "t \<in> set (recv_moves (receiver s) s)"
  shows "block_inv t"
  using assms
  by (cases "receiver s")
    (auto simp: block_inv_def chan_defs cpop_Some one_if_def dest: tags_pop split: option.splits if_splits nat.splits)

lemma count_inv_step: "count_inv s \<Longrightarrow> chan_step timed s t \<Longrightarrow> count_inv t"
  by (erule chan_step.cases)
    (simp_all add: count_inv_send count_inv_recv, simp_all add: terminate_def goto_def count_inv_def)

lemma count_inv_init: "chan_init s \<Longrightarrow> count_inv s"
  by (auto simp: chan_init_def count_inv_def cnt_zero_iff list_all_iff uncounted_def)

lemma chan_inv_step:
  assumes "chan_inv s" "chan_step False s t"
  shows "chan_inv t"
proof (cases "0 < terminates s")
  case True
  from assms(2) have "terminates s \<le> terminates t"
  proof cases
    case (send i v)
    then show ?thesis
      by (auto simp: send_step_def send_push_def send_link_def send_size_def send_write_def
          set_sender_def split: send_pc.split)
  next
    case recv_move
    then show ?thesis
      by (cases "receiver s")
        (auto simp: chan_defs split: option.splits if_splits nat.splits)
  qed (auto simp: terminate_def goto_def)
  with True show ?thesis by (simp add: chan_inv_def)
next
  case False
  then have inv: "block_inv s" using assms(1) by (simp add: chan_inv_def)
  from assms(2) show ?thesis
  proof cases
    case (send i v)
    then show ?thesis using block_inv_send [OF inv] by (simp add: chan_inv_def)
  next
    case recv_move
    then show ?thesis using block_inv_recv [OF inv] by (simp add: chan_inv_def)
  next
    case (recv timeout spin_count)
    then show ?thesis using inv by (auto simp: chan_inv_def block_inv_def goto_def tags_ok_def)
  qed (simp add: terminate_def chan_inv_def)
qed

lemma chan_inv_init: "chan_init s \<Longrightarrow> chan_inv s"
  by (auto simp: chan_init_def chan_inv_def block_inv_def tags_ok_def cnt_zero_iff list_all_iff uncounted_def)

interpretation chan_order: inductive_invariant chan_init "chan_step timed" count_inv
  by unfold_locales (auto intro: count_inv_init count_inv_step)

interpretation chan_block: inductive_invariant chan_init "chan_step False" chan_inv
  by unfold_locales (auto intro: chan_inv_init chan_inv_step)

section \<open>Properties\<close>

text \<open>As long as \<open>recv\<close> is called with timeout -1 or 0 only and \<open>terminate\<close> was not called, the \<open>SCHECK\<close> on the
  counter never fails, a blocking \<open>recv\<close> never returns false, and whenever the receiver waits on the eventfd although the
  queue is not empty and no sender is in a call, there is a token.\<close>

lemma blocking_recv:
  assumes "reach chan_init (chan_step False) s" and "terminates s = 0"
  shows "\<not> aborted s \<and> -1 \<notin> set (false_returns s) \<and>
    (receiver s = R_wait \<and> cq s \<noteq> [] \<and> list_all (\<lambda>pc. pc = S_idle) (senders s) \<longrightarrow>
       tokens s = 1 \<and> recv_moves R_wait s \<noteq> [])"
proof -
  have inv: "block_inv s" using chan_block.inv_reach [OF assms(1)] assms(2) by (simp add: chan_inv_def)
  have "tokens s = 1"
    if "receiver s = R_wait" "cq s \<noteq> []" "list_all (\<lambda>pc. pc = S_idle) (senders s)"
  proof -
    have "cnt uncounted (senders s) = 0" "cnt (\<lambda>pc. pc = S_write) (senders s) = 0"
      using that(3) by (auto simp: cnt_zero_iff list_all_iff uncounted_def)
    then show ?thesis using inv that(1,2) by (cases "cq s") (auto simp: block_inv_def)
  qed
  then show ?thesis using inv by (auto simp: block_inv_def read_fd_def)
qed

text \<open>Runs given as lists of actions, to reach concrete states.\<close>

datatype 'a act = Do_send nat 'a | Do_recv int nat | Do_move nat

definition perform :: "bool \<Rightarrow> 'a act \<Rightarrow> 'a chan \<Rightarrow> 'a chan option" where
  "perform timed a s =
     (if aborted s then None
      else case a of
        Do_send i v \<Rightarrow> if i < length (senders s) then Some (send_step i v s) else None
      | Do_recv timeout k \<Rightarrow>
          if receiver s = R_idle \<and> (timeout = -1 \<or> timeout = 0 \<or> (timed \<and> 0 < timeout))
          then Some (goto (R_spin timeout k) s) else None
      | Do_move n \<Rightarrow>
          if n < length (recv_moves (receiver s) s) then Some (recv_moves (receiver s) s ! n) else None)"

fun performs :: "bool \<Rightarrow> 'a act list \<Rightarrow> 'a chan \<Rightarrow> 'a chan option" where
  "performs timed [] s = Some s"
| "performs timed (a # as) s = (case perform timed a s of None \<Rightarrow> None | Some t \<Rightarrow> performs timed as t)"

lemma perform_step: "perform timed a s = Some t \<Longrightarrow> chan_step timed s t"
  by (cases a) (auto simp: perform_def intro: chan_step.intros split: if_splits)

lemma performs_reach:
  "performs timed as s = Some t \<Longrightarrow> reach chan_init (chan_step timed) s \<Longrightarrow>
     reach chan_init (chan_step timed) t"
  by (induction as arbitrary: s)
    (auto split: option.splits dest: perform_step intro: reach_step)

definition idle_chan :: "nat chan" where
  "idle_chan = \<lparr>cq = [], csize = 0, tokens = 0, senders = [S_idle], receiver = R_idle, sent = [], got = [],
     false_returns = [], woken_false = 0, terminates = 0, aborted = False\<rparr>"

lemma idle_chan_reach: "reach chan_init (chan_step timed) idle_chan"
  by (rule reach_init) (simp add: chan_init_def idle_chan_def)

lemmas run_defs = perform_def idle_chan_def chan_defs send_step_def send_push_def send_link_def
  send_size_def send_write_def

text \<open>C23. Whatever the interleaving, the timeouts and the calls of \<open>terminate\<close>: the items that calls of \<open>recv\<close> returned, the
  one a call has in hand and those still in the channel are exactly the items sent, in order; and until a check fails
  the counter is the number of items in the channel that their senders have counted, corrected by what the receiver is
  ahead or behind, less one for every call that was woken and returned false. Without positive timeouts and before
  \<open>terminate\<close> no check fails, a blocking call never returns false, and no wake-up is lost: when the receiver is blocked on
  the eventfd, there is an item and no sender is in a call, then it can go on.\<close>

theorem channel_fifo:
  assumes "reach chan_init (chan_step timed) s"
  shows "sent s = got s @ in_hand (receiver s) @ map fst (cq s) \<and>
    (\<not> aborted s \<longrightarrow>
      csize s = int (length (cq s)) - int (cnt uncounted (senders s)) + ahead (receiver s) - int (woken_false s)) \<and>
    (\<not> timed \<and> terminates s = 0 \<longrightarrow> \<not> aborted s \<and> -1 \<notin> set (false_returns s) \<and>
      (receiver s = R_wait \<and> cq s \<noteq> [] \<and> list_all (\<lambda>pc. pc = S_idle) (senders s) \<longrightarrow> recv_moves R_wait s \<noteq> []))"
  using chan_order.inv_reach [OF assms] blocking_recv [of s] assms by (cases timed) (auto simp: count_inv_def)

text \<open>The receiver blocks, a sender wakes it, and it returns the first of two items.\<close>

definition wakeup_run :: "nat act list" where
  "wakeup_run = [Do_recv (-1) 0, Do_move 0, Do_move 0, Do_send 0 7, Do_send 0 7, Do_send 0 7, Do_send 0 7,
     Do_move 0, Do_move 0, Do_move 0, Do_send 0 8, Do_send 0 8, Do_send 0 8]"

theorem channel_fifo_witness:
  "\<exists>s. performs False wakeup_run idle_chan = Some s \<and> got s = [7] \<and> cq s = [(8, None)] \<and> sent s = [7, 8] \<and> csize s = 1"
proof -
  obtain s where s: "performs False wakeup_run idle_chan = Some s" "got s = [7]" "cq s = [(8, None)]"
      "receiver s = R_idle" "senders s = [S_idle]" "woken_false s = 0" "\<not> aborted s"
    by (simp add: wakeup_run_def run_defs)
  have "sent s = [7, 8] \<and> csize s = 1"
    using channel_fifo [OF performs_reach [OF s(1) idle_chan_reach]] s by (simp add: cnt_def uncounted_def)
  then show ?thesis using s by blast
qed

definition race_run :: "nat act list" where
  "race_run = [Do_recv 5 0, Do_move 0, Do_move 0, Do_move 0,
     Do_send 0 7, Do_send 0 7, Do_send 0 7, Do_send 0 7, Do_move 0,
     Do_recv (-1) 1, Do_move 0, Do_move 0,
     Do_recv (-1) 0, Do_move 0, Do_move 0, Do_move 0, Do_move 0]"

text \<open>With a positive timeout the guarantee of the previous property is lost. When \<open>poll\<close> times out, a sender that
  finds \<open>_size\<close> still at -1 writes a token which the receiver, having restored \<open>_size\<close>, never reads. A later blocking
  \<open>recv\<close> on the empty channel takes this token for a wake-up and returns false although the channel was never
  terminated, and the call after it fails the check \<open>sz >= 0\<close>.\<close>

theorem channel_timed_race:
  "\<exists>s t. performs True race_run idle_chan = Some s \<and> reach chan_init (chan_step True) s \<and>
     terminates s = 0 \<and> receiver s = R_idle \<and> -1 \<in> set (false_returns s) \<and> cq s = [] \<and> got s = [7] \<and>
     performs True [Do_recv (-1) 0, Do_move 0, Do_move 0] s = Some t \<and> aborted t"
proof -
  obtain s where s: "performs True race_run idle_chan = Some s" "terminates s = 0"
      "receiver s = R_idle" "false_returns s = [-1, 5]" "cq s = []" "got s = [7]" "csize s = -1" "\<not> aborted s"
    by (simp add: race_run_def run_defs)
  moreover obtain t where "performs True [Do_recv (-1) 0, Do_move 0, Do_move 0] s = Some t" "aborted t"
    using s by (simp add: perform_def goto_def)
  ultimately show ?thesis using performs_reach [OF s(1) idle_chan_reach] by auto
qed

end
