(* ===== verification/Memory_Archive.thy ===== *)
theory Memory_Archive
  imports Prpc_Prelude
begin

text \<open>
  \<open>MemoryArchive\<close> of \<open>src/rpc/Archive.h\<close>: a growing byte buffer with a read cursor and an end.

  \<open>buf\<close> is the memory from \<open>_buffer\<close> to \<open>_border\<close>; a byte nobody has written is \<open>None\<close>. \<open>cursor\<close> and
  \<open>fin\<close> are the offsets of \<open>_cursor\<close> and \<open>_end\<close> from \<open>_buffer\<close>; \<open>null_buffer\<close> is \<open>_buffer == nullptr\<close>.
  Of the deleter only its kind is kept: which allocator call it makes is outside the model.
\<close>

section \<open>State\<close>

datatype deleter = Warn_leak | Buf_free bool | No_delete | Custom nat

record marchive =
  is_msg :: bool
  default_malloc :: bool
  del :: deleter
  null_buffer :: bool
  buf :: "byte option list"
  cursor :: nat
  fin :: nat

definition capacity :: "marchive \<Rightarrow> nat" where
  "capacity ar = length (buf ar)"

definition position :: "marchive \<Rightarrow> nat" where
  "position ar = cursor ar"

definition archive_length :: "marchive \<Rightarrow> nat" where
  "archive_length ar = fin ar"

definition readable_length :: "marchive \<Rightarrow> nat" where
  "readable_length ar = fin ar - cursor ar"

definition is_exhausted :: "marchive \<Rightarrow> bool" where
  "is_exhausted ar \<longleftrightarrow> fin ar = cursor ar"

section \<open>Memory\<close>

text \<open>Memory of \<open>n\<close> bytes whose beginning is a copy of \<open>bs\<close>.\<close>

definition pad_to :: "nat \<Rightarrow> byte option list \<Rightarrow> byte option list" where
  "pad_to n bs = take n bs @ replicate (n - length bs) None"

definition buf_realloc :: "byte option list \<Rightarrow> nat \<Rightarrow> nat \<Rightarrow> bool \<Rightarrow> byte option list" where
  "buf_realloc buffer cur_size new_size msg =
     (if msg then pad_to new_size (take (min cur_size new_size) buffer) else pad_to new_size buffer)"

definition store_at :: "nat \<Rightarrow> byte option list \<Rightarrow> byte option list \<Rightarrow> byte option list" where
  "store_at pos bs m = take pos m @ bs @ drop (pos + length bs) m"

section \<open>Operations\<close>

definition set_default_deleter :: "marchive \<Rightarrow> marchive" where
  "set_default_deleter ar = ar\<lparr>default_malloc := True, del := Buf_free (is_msg ar)\<rparr>"

definition archive_new :: "bool \<Rightarrow> marchive" where
  "archive_new msg = set_default_deleter
     \<lparr>is_msg = msg, default_malloc = False, del = Warn_leak, null_buffer = True, buf = [], cursor = 0, fin = 0\<rparr>"

definition view :: "marchive \<Rightarrow> marchive" where
  "view ar = ar\<lparr>default_malloc := False, del := No_delete\<rparr>"

definition reset :: "marchive \<Rightarrow> marchive" where
  "reset ar = ar\<lparr>null_buffer := True, buf := [], cursor := 0, fin := 0\<rparr>"

definition release :: "marchive \<Rightarrow> marchive" where
  "release ar = (reset ar)\<lparr>del := No_delete\<rparr>"

definition copy_assign :: "marchive \<Rightarrow> marchive \<Rightarrow> marchive" where
  "copy_assign ar other =
     (let ar1 = (reset ar)\<lparr>is_msg := is_msg other\<rparr>
      in if capacity other = 0 then ar1
         else (set_default_deleter ar1)
           \<lparr>null_buffer := False, buf := pad_to (capacity other) (take (fin other) (buf other)),
            cursor := cursor other, fin := fin other\<rparr>)"

definition move_assign :: "marchive \<Rightarrow> marchive \<Rightarrow> marchive \<times> marchive" where
  "move_assign ar other = (other, release other)"

definition set_buffer :: "byte option list option \<Rightarrow> nat \<Rightarrow> nat \<Rightarrow> deleter \<Rightarrow> marchive \<Rightarrow> marchive res" where
  "set_buffer buffer len cap d ar =
     rbind (scheck (buffer \<noteq> None \<or> cap = 0)) (\<lambda>_.
     rbind (scheck (len \<le> cap)) (\<lambda>_.
     Inr ((reset ar)\<lparr>del := d, default_malloc := False, null_buffer := (buffer = None),
       buf := pad_to cap (case buffer of None \<Rightarrow> [] | Some b \<Rightarrow> b), fin := len\<rparr>)))"

definition set_read_buffer :: "byte option list option \<Rightarrow> nat \<Rightarrow> deleter \<Rightarrow> marchive \<Rightarrow> marchive res" where
  "set_read_buffer buffer len d ar = set_buffer buffer len len d ar"

definition set_write_buffer :: "byte option list option \<Rightarrow> nat \<Rightarrow> deleter \<Rightarrow> marchive \<Rightarrow> marchive res" where
  "set_write_buffer buffer cap d ar = set_buffer buffer 0 cap d ar"

definition assign :: "byte option list option \<Rightarrow> marchive \<Rightarrow> marchive res" where
  "assign buffer ar =
     rbind (scheck (buffer \<noteq> None)) (\<lambda>_.
       let bs = the buffer;
           ar1 = (if null_buffer ar \<or> capacity ar < length bs
                  then (set_default_deleter (reset ar))\<lparr>null_buffer := False, buf := replicate (length bs) None\<rparr>
                  else ar)
       in Inr (ar1\<lparr>buf := store_at 0 bs (buf ar1), cursor := 0, fin := length bs\<rparr>))"

definition rewind :: "marchive \<Rightarrow> marchive" where
  "rewind ar = ar\<lparr>cursor := 0\<rparr>"

definition set_cursor :: "nat \<Rightarrow> marchive \<Rightarrow> marchive res" where
  "set_cursor c ar = rbind (scheck (c \<le> fin ar)) (\<lambda>_. Inr (ar\<lparr>cursor := c\<rparr>))"

definition advance_cursor :: "nat \<Rightarrow> marchive \<Rightarrow> marchive res" where
  "advance_cursor offset ar =
     rbind (scheck (offset \<le> fin ar - cursor ar)) (\<lambda>_. Inr (ar\<lparr>cursor := cursor ar + offset\<rparr>))"

definition set_end :: "nat \<Rightarrow> marchive \<Rightarrow> marchive res" where
  "set_end e ar = rbind (scheck (cursor ar \<le> e \<and> e \<le> capacity ar)) (\<lambda>_. Inr (ar\<lparr>fin := e\<rparr>))"

definition advance_end :: "nat \<Rightarrow> marchive \<Rightarrow> marchive res" where
  "advance_end offset ar =
     rbind (scheck (offset \<le> capacity ar - fin ar)) (\<lambda>_. Inr (ar\<lparr>fin := fin ar + offset\<rparr>))"

definition clear :: "marchive \<Rightarrow> marchive" where
  "clear ar = ar\<lparr>cursor := 0, fin := 0\<rparr>"

text \<open>
  In the second branch of \<open>reserve\<close> the pointers are read after \<open>reset\<close> has cleared them, so both
  offsets are 0 from then on.
\<close>

definition reserve :: "nat \<Rightarrow> marchive \<Rightarrow> marchive" where
  "reserve newcap ar =
     (if capacity ar < newcap then
        let cap = (newcap + 64 - 1) div 64 * 64
        in if default_malloc ar
           then ar\<lparr>null_buffer := False, buf := buf_realloc (buf ar) (archive_length ar) cap (is_msg ar)\<rparr>
           else (set_default_deleter (reset ar))
             \<lparr>null_buffer := False, buf := pad_to cap (take (archive_length ar) (buf ar))\<rparr>
      else ar)"

definition resize :: "nat \<Rightarrow> marchive \<Rightarrow> marchive" where
  "resize sz ar =
     (let ar1 = (if capacity ar < sz then reserve (max (capacity ar * 2) sz) ar else ar)
      in ar1\<lparr>fin := sz, cursor := min (cursor ar1) sz\<rparr>)"

definition prepare_read :: "nat \<Rightarrow> marchive \<Rightarrow> unit res" where
  "prepare_read sz ar = scheck (sz \<le> fin ar - cursor ar)"

definition prepare_write :: "nat \<Rightarrow> marchive \<Rightarrow> marchive" where
  "prepare_write sz ar =
     (if capacity ar - fin ar < sz
      then reserve (max (capacity ar * 2) (archive_length ar + sz)) ar else ar)"

definition read_raw :: "nat \<Rightarrow> marchive \<Rightarrow> (byte option list \<times> marchive) res" where
  "read_raw len ar =
     (if 0 < len then
        rbind (prepare_read len ar) (\<lambda>_.
        rbind (advance_cursor len ar) (\<lambda>ar1.
        Inr (take len (drop (cursor ar) (buf ar)), ar1)))
      else Inr ([], ar))"

definition read_raw_uncheck :: "nat \<Rightarrow> marchive \<Rightarrow> (byte option list option \<times> marchive) res" where
  "read_raw_uncheck len ar =
     (if 0 < len then
        if is_exhausted ar then Inr (None, ar)
        else rbind (read_raw len ar) (\<lambda>(bs, ar1). Inr (Some bs, ar1))
      else Inr (Some [], ar))"

definition write_raw :: "byte option list \<Rightarrow> marchive \<Rightarrow> marchive res" where
  "write_raw bs ar =
     (if bs \<noteq> [] then
        let ar1 = prepare_write (length bs) ar
        in advance_end (length bs) (ar1\<lparr>buf := store_at (fin ar1) bs (buf ar1)\<rparr>)
      else Inr ar)"

definition write_raw_uncheck :: "byte option list \<Rightarrow> marchive \<Rightarrow> (bool \<times> marchive) res" where
  "write_raw_uncheck bs ar = rbind (write_raw bs ar) (\<lambda>ar1. Inr (True, ar1))"

definition read_back :: "nat \<Rightarrow> marchive \<Rightarrow> (byte option list \<times> marchive) res" where
  "read_back len ar =
     (if 0 < len then
        rbind (scheck (len \<le> fin ar - cursor ar)) (\<lambda>_.
        Inr (take len (drop (fin ar - len) (buf ar)), ar\<lparr>fin := fin ar - len\<rparr>))
      else Inr ([], ar))"

section \<open>Well-formed archives\<close>

definition archive_ok :: "marchive \<Rightarrow> bool" where
  "archive_ok ar \<longleftrightarrow> cursor ar \<le> fin ar \<and> fin ar \<le> capacity ar \<and> (null_buffer ar \<longrightarrow> buf ar = [])"

text \<open>What a reader will see: the bytes between the cursor and the end.\<close>

definition unread :: "marchive \<Rightarrow> byte option list" where
  "unread ar = drop (cursor ar) (take (fin ar) (buf ar))"

datatype archive_op =
    Op_view | Op_reset | Op_release | Op_copy_from marchive | Op_move_from marchive
  | Op_set_buffer "byte option list option" nat nat deleter | Op_assign "byte option list option"
  | Op_rewind | Op_set_cursor nat | Op_advance_cursor nat | Op_set_end nat | Op_advance_end nat
  | Op_clear | Op_reserve nat | Op_resize nat | Op_read nat | Op_write "byte option list"
  | Op_read_back nat

fun archive_apply :: "archive_op \<Rightarrow> marchive \<Rightarrow> marchive res" where
  "archive_apply Op_view ar = Inr (view ar)"
| "archive_apply Op_reset ar = Inr (reset ar)"
| "archive_apply Op_release ar = Inr (release ar)"
| "archive_apply (Op_copy_from other) ar = Inr (copy_assign ar other)"
| "archive_apply (Op_move_from other) ar = Inr (fst (move_assign ar other))"
| "archive_apply (Op_set_buffer b l c d) ar = set_buffer b l c d ar"
| "archive_apply (Op_assign b) ar = assign b ar"
| "archive_apply Op_rewind ar = Inr (rewind ar)"
| "archive_apply (Op_set_cursor c) ar = set_cursor c ar"
| "archive_apply (Op_advance_cursor c) ar = advance_cursor c ar"
| "archive_apply (Op_set_end e) ar = set_end e ar"
| "archive_apply (Op_advance_end e) ar = advance_end e ar"
| "archive_apply Op_clear ar = Inr (clear ar)"
| "archive_apply (Op_reserve n) ar = Inr (reserve n ar)"
| "archive_apply (Op_resize n) ar = Inr (resize n ar)"
| "archive_apply (Op_read n) ar = rbind (read_raw n ar) (\<lambda>(_, ar1). Inr ar1)"
| "archive_apply (Op_write bs) ar = write_raw bs ar"
| "archive_apply (Op_read_back n) ar = rbind (read_back n ar) (\<lambda>(_, ar1). Inr ar1)"

lemma length_pad_to [simp]: "length (pad_to n bs) = n"
  by (simp add: pad_to_def)

lemma take_pad_to: "m \<le> n \<Longrightarrow> m \<le> length bs \<Longrightarrow> take m (pad_to n bs) = take m bs"
  by (simp add: pad_to_def)

lemma length_buf_realloc [simp]: "length (buf_realloc b cs n msg) = n"
  by (simp add: buf_realloc_def)

lemma length_store_at: "pos + length bs \<le> length m \<Longrightarrow> length (store_at pos bs m) = length m"
  by (simp add: store_at_def)

lemma round_up: "(n :: nat) \<le> (n + 64 - 1) div 64 * 64"
  by simp

lemma capacity_reserve: "newcap \<le> capacity (reserve newcap ar)" "capacity ar \<le> capacity (reserve newcap ar)"
  using round_up [of newcap] by (auto simp: reserve_def capacity_def Let_def)

lemma reserve_ok: "archive_ok ar \<Longrightarrow> archive_ok (reserve newcap ar)"
  using round_up [of newcap]
  by (auto simp: reserve_def archive_ok_def capacity_def Let_def set_default_deleter_def reset_def)

lemma prepare_write_room:
  assumes "archive_ok ar"
  shows "fin (prepare_write n ar) + n \<le> capacity (prepare_write n ar)"
    and "archive_ok (prepare_write n ar)"
proof -
  have fin: "fin (reserve m ar) \<le> fin ar" for m
    by (simp add: reserve_def Let_def set_default_deleter_def reset_def)
  show "fin (prepare_write n ar) + n \<le> capacity (prepare_write n ar)"
    using assms capacity_reserve(1) [of "max (capacity ar * 2) (fin ar + n)" ar]
      fin [of "max (capacity ar * 2) (fin ar + n)"]
    by (auto simp: prepare_write_def archive_ok_def archive_length_def)
  show "archive_ok (prepare_write n ar)"
    using assms reserve_ok by (simp add: prepare_write_def)
qed

text \<open>\<open>write_raw\<close> never fails; it appends behind whatever \<open>prepare_write\<close> has kept.\<close>

lemma write_raw_result:
  assumes "archive_ok ar" "bs \<noteq> []"
  defines "ar1 \<equiv> prepare_write (length bs) ar"
  shows "write_raw bs ar =
    Inr (ar1\<lparr>buf := store_at (fin ar1) bs (buf ar1), fin := fin ar1 + length bs\<rparr>)"
proof -
  have "fin ar1 + length bs \<le> capacity ar1" using prepare_write_room [OF assms(1)] by (simp add: ar1_def)
  then have "length bs \<le> capacity ar1 - fin ar1" "fin ar1 + length bs \<le> length (buf ar1)"
    by (simp_all add: capacity_def)
  then show ?thesis
    using assms(2) by (simp add: write_raw_def ar1_def advance_end_def capacity_def length_store_at Let_def)
qed

lemma unread_store:
  assumes "archive_ok ar" "fin ar + length bs \<le> capacity ar"
  shows "unread (ar\<lparr>buf := store_at (fin ar) bs (buf ar), fin := fin ar + length bs\<rparr>) = unread ar @ bs"
  using assms by (simp add: unread_def store_at_def archive_ok_def capacity_def)

lemma write_raw_ok: "archive_ok ar \<Longrightarrow> write_raw bs ar = Inr ar' \<Longrightarrow> archive_ok ar'"
  using prepare_write_room [of ar "length bs"]
  by (cases "bs = []")
    (auto simp: write_raw_result, auto simp: write_raw_def archive_ok_def capacity_def length_store_at store_at_def)

lemma prepare_write_keeps:
  assumes "archive_ok ar" "default_malloc ar \<or> fin ar + n \<le> capacity ar"
  shows "unread (prepare_write n ar) = unread ar" "cursor (prepare_write n ar) = cursor ar"
    "fin (prepare_write n ar) = fin ar" "default_malloc ar \<Longrightarrow> default_malloc (prepare_write n ar)"
proof -
  have eq: "take (fin ar) (buf_realloc (buf ar) (fin ar) m msg) = take (fin ar) (buf ar)" if "fin ar \<le> m" for m msg
    using that assms(1) by (auto simp: buf_realloc_def take_pad_to archive_ok_def capacity_def)
  show "unread (prepare_write n ar) = unread ar" "cursor (prepare_write n ar) = cursor ar"
    "fin (prepare_write n ar) = fin ar" "default_malloc ar \<Longrightarrow> default_malloc (prepare_write n ar)"
    using assms round_up [of "max (capacity ar * 2) (fin ar + n)"]
    by (auto simp: prepare_write_def reserve_def Let_def archive_length_def unread_def archive_ok_def eq)
qed

lemma write_raw_append:
  assumes "archive_ok ar" "default_malloc ar \<or> fin ar + length bs \<le> capacity ar"
  shows "\<exists>ar'. write_raw bs ar = Inr ar' \<and> archive_ok ar' \<and> unread ar' = unread ar @ bs \<and>
    cursor ar' = cursor ar \<and> (default_malloc ar \<longrightarrow> default_malloc ar')"
proof (cases "bs = []")
  case True
  then show ?thesis using assms by (simp add: write_raw_def)
next
  case False
  let ?p = "prepare_write (length bs) ar"
  note k = prepare_write_keeps [OF assms]
  have "archive_ok ?p" "fin ?p + length bs \<le> capacity ?p"
    using prepare_write_room [OF assms(1), of "length bs"] by simp_all
  from unread_store [OF this] show ?thesis
    using write_raw_result [OF assms(1) False] write_raw_ok [OF assms(1), of bs] k by simp
qed

lemma read_raw_prefix:
  assumes "archive_ok ar" "unread ar = bs @ rest"
  shows "\<exists>ar'. read_raw (length bs) ar = Inr (bs, ar') \<and> archive_ok ar' \<and> unread ar' = rest \<and>
    default_malloc ar' = default_malloc ar"
proof -
  have len: "length bs \<le> fin ar - cursor ar"
    using arg_cong [OF assms(2), of length] assms(1) by (simp add: unread_def archive_ok_def capacity_def)
  have "take (length bs) (drop (cursor ar) (buf ar)) = take (length bs) (unread ar)"
    using len by (simp add: unread_def drop_take min.absorb1)
  moreover have "unread (ar\<lparr>cursor := cursor ar + length bs\<rparr>) = drop (length bs) (unread ar)"
    by (simp add: unread_def add.commute)
  ultimately show ?thesis
    using assms len by (auto simp: read_raw_def prepare_read_def advance_cursor_def archive_ok_def capacity_def)
qed

lemma read_raw_uncheck_prefix:
  assumes "archive_ok ar" "unread ar = bs @ rest"
  shows "\<exists>ar'. read_raw_uncheck (length bs) ar = Inr (Some bs, ar') \<and> archive_ok ar' \<and> unread ar' = rest \<and>
    default_malloc ar' = default_malloc ar"
proof (cases "bs = []")
  case True
  then show ?thesis using assms by (simp add: read_raw_uncheck_def)
next
  case False
  then have "\<not> is_exhausted ar" using assms by (auto simp: is_exhausted_def unread_def)
  then show ?thesis using read_raw_prefix [OF assms] False by (auto simp: read_raw_uncheck_def)
qed

lemma archive_new_ok: "archive_ok (archive_new msg)" "default_malloc (archive_new msg)" "unread (archive_new msg) = []"
  by (simp_all add: archive_new_def set_default_deleter_def archive_ok_def capacity_def unread_def)

definition op_args_ok :: "archive_op \<Rightarrow> bool" where
  "op_args_ok a = (case a of Op_copy_from other \<Rightarrow> archive_ok other | Op_move_from other \<Rightarrow> archive_ok other | _ \<Rightarrow> True)"

inductive archive_step :: "marchive \<Rightarrow> marchive \<Rightarrow> bool" where
  op: "op_args_ok a \<Longrightarrow> archive_apply a ar = Inr ar' \<Longrightarrow> archive_step ar ar'"

lemma resize_ok: "archive_ok ar \<Longrightarrow> archive_ok (resize n ar)"
  using capacity_reserve(1) [of "max (capacity ar * 2) n" ar] reserve_ok [of ar "max (capacity ar * 2) n"]
  by (auto simp: resize_def Let_def archive_ok_def capacity_def)

lemma archive_apply_ok:
  assumes ok: "archive_ok ar" and args: "op_args_ok a" and r: "archive_apply a ar = Inr ar'"
  shows "archive_ok ar'"
proof (cases a)
  case (Op_reserve n)
  then show ?thesis using ok r reserve_ok by auto
next
  case (Op_resize n)
  then show ?thesis using ok r resize_ok by auto
next
  case (Op_write bs)
  then show ?thesis using ok r write_raw_ok by auto
next
  case (Op_copy_from other)
  then show ?thesis using ok args r
    by (auto simp: op_args_ok_def copy_assign_def Let_def archive_ok_def capacity_def reset_def
        set_default_deleter_def)
next
  case (Op_set_buffer b l c d)
  then show ?thesis using ok r
    by (auto simp: set_buffer_def archive_ok_def capacity_def reset_def pad_to_def prpc_simps)
next
  case (Op_assign b)
  then show ?thesis using ok r
    by (auto simp: assign_def archive_ok_def capacity_def reset_def set_default_deleter_def store_at_def
        prpc_simps Let_def split: if_splits)
next
  case (Op_read n)
  then show ?thesis using ok r
    by (auto simp: read_raw_def prepare_read_def advance_cursor_def archive_ok_def capacity_def prpc_simps
        split: if_splits)
next
  case (Op_read_back n)
  then show ?thesis using ok r
    by (auto simp: read_back_def archive_ok_def capacity_def prpc_simps split: if_splits)
next
  case (Op_move_from other)
  then show ?thesis using args r by (auto simp: op_args_ok_def move_assign_def)
qed (use ok r in \<open>auto simp: view_def reset_def release_def rewind_def clear_def set_cursor_def
      advance_cursor_def set_end_def advance_end_def archive_ok_def capacity_def prpc_simps\<close>)

interpretation arch: inductive_invariant "\<lambda>ar. \<exists>msg. ar = archive_new msg" archive_step archive_ok
  by unfold_locales (auto simp: archive_new_ok archive_step.simps dest: archive_apply_ok)

section \<open>Properties\<close>

text \<open>Every archive that any sequence of \<open>MemoryArchive\<close> operations produces from a new one is well formed:
  the cursor does not pass the end, the end does not pass the border, and a null buffer has capacity 0.\<close>

theorem archive_wf:
  assumes "reach (\<lambda>ar. \<exists>msg. ar = archive_new msg) archive_step ar"
  shows "archive_ok ar"
  using arch.inv_reach [OF assms] .

theorem archive_wf_witness:
  "archive_ok (resize 100 (archive_new True))"
proof -
  have "archive_step (archive_new True) (resize 100 (archive_new True))"
    by (rule archive_step.intros [of "Op_resize 100"]) (simp_all add: op_args_ok_def)
  moreover have "reach (\<lambda>ar. \<exists>msg. ar = archive_new msg) archive_step (archive_new True)"
    by (rule reach_init) blast
  ultimately have "reach (\<lambda>ar. \<exists>msg. ar = archive_new msg) archive_step (resize 100 (archive_new True))"
    by (blast intro: reach_step)
  then show ?thesis by (rule archive_wf)
qed

text \<open>On an archive that owns its buffer (\<open>_is_default_malloc\<close>) \<open>write_raw\<close> never fails and appends: the readable
  bytes grow by exactly the bytes written, whether or not the buffer had to be reallocated, and a \<open>read_raw\<close> of
  the old content followed by one of the new length returns the bytes written.\<close>

theorem archive_write_read:
  assumes "archive_ok ar" and "default_malloc ar"
  shows "\<exists>ar1 ar2 ar3. write_raw bs ar = Inr ar1 \<and> archive_ok ar1 \<and> unread ar1 = unread ar @ bs \<and>
    read_raw (length (unread ar)) ar1 = Inr (unread ar, ar2) \<and>
    read_raw (length bs) ar2 = Inr (bs, ar3) \<and> unread ar3 = []"
proof -
  obtain ar1 where w: "write_raw bs ar = Inr ar1" "archive_ok ar1" "unread ar1 = unread ar @ bs"
    using write_raw_append [OF assms(1), of bs] assms(2) by auto
  obtain ar2 where r: "read_raw (length (unread ar)) ar1 = Inr (unread ar, ar2)" "archive_ok ar2" "unread ar2 = bs @ []"
    using read_raw_prefix [OF w(2,3)] by auto
  show ?thesis using read_raw_prefix [OF r(2,3)] w r by auto
qed

theorem archive_write_read_witness:
  "\<exists>ar1 ar2 ar3. write_raw [Some 1, Some 2] (archive_new False) = Inr ar1 \<and> archive_ok ar1 \<and>
    unread ar1 = [Some 1, Some 2] \<and> read_raw 0 ar1 = Inr ([], ar2) \<and>
    read_raw 2 ar2 = Inr ([Some 1, Some 2], ar3) \<and> unread ar3 = []"
  using archive_write_read [OF archive_new_ok(1,2) [of False], of "[Some 1, Some 2]"]
  by (simp add: archive_new_ok(3) numeral_2_eq_2)

text \<open>On an archive over a foreign buffer (\<open>set_write_buffer\<close>, \<open>set_buffer\<close>, \<open>view\<close>) a \<open>write_raw\<close> that does not
  fit loses everything written before: \<open>reserve\<close> copies the old bytes and then computes the new cursor and end from
  pointers that \<open>reset\<close> has already cleared, so only the bytes of the last write are readable.\<close>

theorem archive_foreign_write_loses:
  assumes "archive_ok ar" and "\<not> default_malloc ar" and "capacity ar < fin ar + length bs"
  shows "\<exists>ar'. write_raw bs ar = Inr ar' \<and> unread ar' = bs \<and> position ar' = 0 \<and> archive_length ar' = length bs"
proof -
  have ne: "bs \<noteq> []" using assms by (auto simp: archive_ok_def)
  let ?p = "prepare_write (length bs) ar"
  have p: "fin ?p = 0" "cursor ?p = 0"
    using assms by (auto simp: prepare_write_def reserve_def Let_def archive_length_def archive_ok_def
        set_default_deleter_def reset_def)
  have "unread (?p\<lparr>buf := store_at (fin ?p) bs (buf ?p), fin := fin ?p + length bs\<rparr>) = unread ?p @ bs"
    using prepare_write_room [OF assms(1), of "length bs"] by (intro unread_store) auto
  moreover have "unread ?p = []" using p by (simp add: unread_def)
  ultimately show ?thesis
    using write_raw_result [OF assms(1) ne] p by (simp add: position_def archive_length_def)
qed

definition foreign_archive :: marchive where
  "foreign_archive =
     \<lparr>is_msg = False, default_malloc = False, del = No_delete, null_buffer = False,
      buf = [Some 1, Some 2, None], cursor = 0, fin = 2\<rparr>"

theorem archive_foreign_write_loses_witness:
  "unread foreign_archive = [Some 1, Some 2] \<and>
   (\<exists>ar'. write_raw [Some 3, Some 4] foreign_archive = Inr ar' \<and> unread ar' = [Some 3, Some 4])"
  using archive_foreign_write_loses [of foreign_archive "[Some 3, Some 4]"]
  by (auto simp: foreign_archive_def archive_ok_def capacity_def unread_def)

end
