(* ===== verification/Serialization.thy ===== *)
theory Serialization
  imports Memory_Archive
begin

unbundle bit_operations_syntax

text \<open>
  Binary serialization of \<open>src/rpc/Archive.h\<close>: \<open>BinaryArchive\<close> and the \<open>pico_serialize\<close> and
  \<open>pico_deserialize\<close> overloads over it.

  A serializer takes a value and an archive and returns the C++ result and the archive; a deserializer
  returns \<open>None\<close> when the C++ function returns false. An \<open>Inl\<close> is a failed check inside the archive, or
  the use of a byte that was never written. A C++ integer is a word and a trivially copyable value is
  given by the functions to and from its memory image. An overload for a container takes the
  serializer of its elements as an argument, the way the template instantiates it. Containers with
  keys are the list of their entries in iteration order.

  The locale \<open>archivable\<close> is the contract of a pair of overloads; every container overload is shown to
  keep it.
\<close>

section \<open>Plain values\<close>

type_synonym 'a serializer = "'a \<Rightarrow> marchive \<Rightarrow> (bool \<times> marchive) res"
type_synonym 'a deserializer = "marchive \<Rightarrow> ('a option \<times> marchive) res"

definition and_then :: "(bool \<times> marchive) res \<Rightarrow> (marchive \<Rightarrow> (bool \<times> marchive) res) \<Rightarrow> (bool \<times> marchive) res" where
  "and_then r k = rbind r (\<lambda>(b, ar). if b then k ar else Inr (False, ar))"

definition or_fail :: "('a option \<times> marchive) res \<Rightarrow> ('a \<Rightarrow> marchive \<Rightarrow> ('b option \<times> marchive) res) \<Rightarrow>
    ('b option \<times> marchive) res" where
  "or_fail r k = rbind r (\<lambda>(x, ar). case x of None \<Rightarrow> Inr (None, ar) | Some v \<Rightarrow> k v ar)"

fun initialised :: "byte option list \<Rightarrow> byte list res" where
  "initialised [] = Inr []"
| "initialised (None # bs) = Inl Out_of_bounds"
| "initialised (Some b # bs) = rbind (initialised bs) (\<lambda>cs. Inr (b # cs))"

definition write_pod_uncheck :: "byte list \<Rightarrow> marchive \<Rightarrow> (bool \<times> marchive) res" where
  "write_pod_uncheck img ar = rbind (write_raw (map Some img) ar) (\<lambda>ar1. Inr (True, ar1))"

definition read_pod_uncheck :: "nat \<Rightarrow> (byte list \<Rightarrow> 'a) \<Rightarrow> 'a deserializer" where
  "read_pod_uncheck n of_img ar =
     (if is_exhausted ar then Inr (None, ar)
      else rbind (read_raw n ar) (\<lambda>(cells, ar1).
           rbind (initialised cells) (\<lambda>bs. Inr (Some (of_img bs), ar1))))"

definition word_bytes :: "'w :: len word \<Rightarrow> byte list" where
  "word_bytes w = le_bytes (LENGTH('w) div 8) (unat w)"

definition bytes_word :: "byte list \<Rightarrow> 'w :: len word" where
  "bytes_word bs = word_of_nat (le_val bs)"

definition serialize_word :: "'w :: len word serializer" where
  "serialize_word x ar = write_pod_uncheck (word_bytes x) ar"

definition deserialize_word :: "'w :: len word deserializer" where
  "deserialize_word ar = read_pod_uncheck (LENGTH('w) div 8) bytes_word ar"

definition serialize_size :: "nat serializer" where
  "serialize_size n ar = serialize_word (word_of_nat n :: 64 word) ar"

definition deserialize_size :: "nat deserializer" where
  "deserialize_size ar = or_fail (deserialize_word ar) (\<lambda>w :: 64 word. \<lambda>ar1. Inr (Some (unat w), ar1))"

definition serialize_enum :: "('e \<Rightarrow> 32 word) \<Rightarrow> 'e serializer" where
  "serialize_enum to_int x ar = and_then (serialize_word (to_int x) ar) (\<lambda>ar1. Inr (True, ar1))"

definition deserialize_enum :: "(32 word \<Rightarrow> 'e) \<Rightarrow> 'e deserializer" where
  "deserialize_enum from_int ar = or_fail (deserialize_word ar) (\<lambda>t ar1. Inr (Some (from_int t), ar1))"

section \<open>Containers\<close>

fun serialize_each :: "'a serializer \<Rightarrow> 'a list serializer" where
  "serialize_each s [] ar = Inr (True, ar)"
| "serialize_each s (x # xs) ar = and_then (s x ar) (serialize_each s xs)"

fun deserialize_each :: "'a deserializer \<Rightarrow> nat \<Rightarrow> 'a list deserializer" where
  "deserialize_each d 0 ar = Inr (Some [], ar)"
| "deserialize_each d (Suc n) ar =
     or_fail (d ar) (\<lambda>x ar1. or_fail (deserialize_each d n ar1) (\<lambda>xs ar2. Inr (Some (x # xs), ar2)))"

text \<open>\<open>std::vector\<close>, \<open>std::deque\<close> and \<open>std::valarray\<close> of values that are not trivially copyable.\<close>

definition serialize_vector :: "'a serializer \<Rightarrow> 'a list serializer" where
  "serialize_vector s vect ar = and_then (serialize_size (length vect) ar) (serialize_each s vect)"

definition deserialize_vector :: "'a deserializer \<Rightarrow> 'a list deserializer" where
  "deserialize_vector d ar = or_fail (deserialize_size ar) (\<lambda>n. deserialize_each d n)"

definition serialize_deque :: "'a serializer \<Rightarrow> 'a list serializer" where
  "serialize_deque s vect ar = and_then (serialize_size (length vect) ar) (serialize_each s vect)"

definition deserialize_deque :: "'a deserializer \<Rightarrow> 'a list deserializer" where
  "deserialize_deque d ar = or_fail (deserialize_size ar) (\<lambda>n. deserialize_each d n)"

definition serialize_valarray :: "'a serializer \<Rightarrow> 'a list serializer" where
  "serialize_valarray s valarr ar = and_then (serialize_size (length valarr) ar) (serialize_each s valarr)"

definition deserialize_valarray :: "'a deserializer \<Rightarrow> 'a list deserializer" where
  "deserialize_valarray d ar = or_fail (deserialize_size ar) (\<lambda>n. deserialize_each d n)"

text \<open>The overloads for trivially copyable elements write the elements' memory in one piece.\<close>

fun split_images :: "nat \<Rightarrow> nat \<Rightarrow> byte list \<Rightarrow> byte list list" where
  "split_images sz 0 bs = []"
| "split_images sz (Suc n) bs = take sz bs # split_images sz n (drop sz bs)"

definition read_images :: "nat \<Rightarrow> (byte list \<Rightarrow> 'a) \<Rightarrow> nat \<Rightarrow> 'a list deserializer" where
  "read_images sz of_img n ar =
     or_fail (read_raw_uncheck (sz * n) ar) (\<lambda>cells ar1.
       rbind (initialised cells) (\<lambda>bs. Inr (Some (map of_img (split_images sz n bs)), ar1)))"

definition serialize_pod_vector :: "('a \<Rightarrow> byte list) \<Rightarrow> 'a list serializer" where
  "serialize_pod_vector img vect ar =
     and_then (serialize_size (length vect) ar) (write_raw_uncheck (map Some (concat (map img vect))))"

definition deserialize_pod_vector :: "nat \<Rightarrow> (byte list \<Rightarrow> 'a) \<Rightarrow> 'a list deserializer" where
  "deserialize_pod_vector sz of_img ar = or_fail (deserialize_size ar) (\<lambda>n. read_images sz of_img n)"

definition serialize_array :: "'a serializer \<Rightarrow> 'a list serializer" where
  "serialize_array s vect ar = serialize_each s vect ar"

definition deserialize_array :: "nat \<Rightarrow> 'a deserializer \<Rightarrow> 'a list deserializer" where
  "deserialize_array N d ar = deserialize_each d N ar"

definition serialize_pod_array :: "('a \<Rightarrow> byte list) \<Rightarrow> 'a list serializer" where
  "serialize_pod_array img vect ar = write_raw_uncheck (map Some (concat (map img vect))) ar"

definition deserialize_pod_array :: "nat \<Rightarrow> nat \<Rightarrow> (byte list \<Rightarrow> 'a) \<Rightarrow> 'a list deserializer" where
  "deserialize_pod_array N sz of_img ar = read_images sz of_img N ar"

definition serialize_pod_carray :: "('a \<Rightarrow> byte list) \<Rightarrow> 'a list serializer" where
  "serialize_pod_carray img arr ar =
     and_then (serialize_size (length arr) ar) (write_raw_uncheck (map Some (concat (map img arr))))"

definition deserialize_pod_carray :: "nat \<Rightarrow> nat \<Rightarrow> (byte list \<Rightarrow> 'a) \<Rightarrow> 'a list deserializer" where
  "deserialize_pod_carray N sz of_img ar =
     or_fail (deserialize_size ar) (\<lambda>n ar1. if n \<noteq> N then Inr (None, ar1) else read_images sz of_img N ar1)"

definition serialize_carray :: "'a serializer \<Rightarrow> 'a list serializer" where
  "serialize_carray s arr ar = and_then (serialize_size (length arr) ar) (serialize_each s arr)"

definition deserialize_carray :: "nat \<Rightarrow> 'a deserializer \<Rightarrow> 'a list deserializer" where
  "deserialize_carray N d ar =
     or_fail (deserialize_size ar) (\<lambda>n ar1. if n \<noteq> N then Inr (None, ar1) else deserialize_each d N ar1)"

definition serialize_string :: "byte list serializer" where
  "serialize_string str ar =
     and_then (serialize_size (length str) ar) (write_raw_uncheck (map Some str))"

definition deserialize_string :: "byte list deserializer" where
  "deserialize_string ar =
     or_fail (deserialize_size ar) (\<lambda>n ar1.
     or_fail (read_raw_uncheck n ar1) (\<lambda>cells ar2.
       rbind (initialised cells) (\<lambda>bs. Inr (Some bs, ar2))))"

text \<open>\<open>std::vector<bool>\<close>: 64 values to a word, the last word possibly partly used.\<close>

fun serialize_bits_loop :: "bool list \<Rightarrow> 64 word \<Rightarrow> nat \<Rightarrow> marchive \<Rightarrow> (bool \<times> marchive) res" where
  "serialize_bits_loop [] bits offset ar =
     (if 0 < offset then rbind (serialize_word bits ar) (\<lambda>(b, ar1). rbind (scheck b) (\<lambda>_. Inr (True, ar1)))
      else Inr (True, ar))"
| "serialize_bits_loop (v # vs) bits offset ar =
     (if offset = 64
      then and_then (serialize_word bits ar) (serialize_bits_loop vs (if v then push_bit 0 1 else 0) 1)
      else serialize_bits_loop vs (if v then bits OR push_bit offset 1 else bits) (offset + 1) ar)"

definition serialize_bits :: "bool list serializer" where
  "serialize_bits vect ar =
     and_then (serialize_size (length vect) ar) (serialize_bits_loop vect 0 0)"

fun deserialize_bits_loop :: "nat \<Rightarrow> 64 word \<Rightarrow> nat \<Rightarrow> bool list deserializer" where
  "deserialize_bits_loop 0 bits offset ar = Inr (Some [], ar)"
| "deserialize_bits_loop (Suc n) bits offset ar =
     or_fail (if offset = 64 then or_fail (deserialize_word ar) (\<lambda>w ar1. Inr (Some (w, 0), ar1))
              else Inr (Some (bits, offset), ar))
       (\<lambda>(w, k) ar1.
          or_fail (deserialize_bits_loop n w (k + 1) ar1) (\<lambda>vs ar2.
            Inr (Some ((w AND push_bit k 1 \<noteq> 0) # vs), ar2)))"

definition deserialize_bits :: "bool list deserializer" where
  "deserialize_bits ar = or_fail (deserialize_size ar) (\<lambda>n. deserialize_bits_loop n 0 64)"

definition serialize_pair :: "'a serializer \<Rightarrow> 'b serializer \<Rightarrow> ('a \<times> 'b) serializer" where
  "serialize_pair s1 s2 p ar = and_then (s1 (fst p) ar) (s2 (snd p))"

definition deserialize_pair :: "'a deserializer \<Rightarrow> 'b deserializer \<Rightarrow> ('a \<times> 'b) deserializer" where
  "deserialize_pair d1 d2 ar =
     or_fail (d1 ar) (\<lambda>x ar1. or_fail (d2 ar1) (\<lambda>y ar2. Inr (Some (x, y), ar2)))"

text \<open>
  \<open>std::tuple\<close>, here with three components: unlike \<open>std::pair\<close> all components are written and read
  before the results are looked at.
\<close>

definition serialize_tuple :: "'a serializer \<Rightarrow> 'b serializer \<Rightarrow> 'c serializer \<Rightarrow> ('a \<times> 'b \<times> 'c) serializer" where
  "serialize_tuple s1 s2 s3 t ar =
     (case t of (x, y, z) \<Rightarrow>
        rbind (s1 x ar) (\<lambda>(b1, ar1). rbind (s2 y ar1) (\<lambda>(b2, ar2). rbind (s3 z ar2) (\<lambda>(b3, ar3).
          Inr (b1 \<and> b2 \<and> b3, ar3)))))"

definition deserialize_tuple :: "'a deserializer \<Rightarrow> 'b deserializer \<Rightarrow> 'c deserializer \<Rightarrow> ('a \<times> 'b \<times> 'c) deserializer" where
  "deserialize_tuple d1 d2 d3 ar =
     rbind (d1 ar) (\<lambda>(x, ar1). rbind (d2 ar1) (\<lambda>(y, ar2). rbind (d3 ar2) (\<lambda>(z, ar3).
       Inr (case (x, y, z) of (Some a, Some b, Some c) \<Rightarrow> Some (a, b, c) | _ \<Rightarrow> None, ar3))))"

text \<open>
  \<open>std::map\<close>, \<open>std::unordered_map\<close> and \<open>HashTable\<close>; \<open>insert\<close> of a key already present makes the
  deserializer return false.
\<close>

definition serialize_map :: "'k serializer \<Rightarrow> 'v serializer \<Rightarrow> ('k \<times> 'v) list serializer" where
  "serialize_map sk sv m ar =
     and_then (serialize_size (length m) ar)
       (serialize_each (\<lambda>item ar1. and_then (sk (fst item) ar1) (sv (snd item))) m)"

fun insert_each :: "'k deserializer \<Rightarrow> 'v deserializer \<Rightarrow> nat \<Rightarrow> ('k \<times> 'v) list \<Rightarrow> ('k \<times> 'v) list deserializer" where
  "insert_each dk dv 0 m ar = Inr (Some m, ar)"
| "insert_each dk dv (Suc n) m ar =
     or_fail (dk ar) (\<lambda>k ar1. or_fail (dv ar1) (\<lambda>v ar2.
       if k \<in> fst ` set m then Inr (None, ar2) else insert_each dk dv n (m @ [(k, v)]) ar2))"

definition deserialize_map :: "'k deserializer \<Rightarrow> 'v deserializer \<Rightarrow> ('k \<times> 'v) list deserializer" where
  "deserialize_map dk dv ar = or_fail (deserialize_size ar) (\<lambda>n. insert_each dk dv n [])"

definition serialize_set :: "'k serializer \<Rightarrow> 'k list serializer" where
  "serialize_set sk s ar = and_then (serialize_size (length s) ar) (serialize_each sk s)"

fun insert_keys :: "'k deserializer \<Rightarrow> nat \<Rightarrow> 'k list \<Rightarrow> 'k list deserializer" where
  "insert_keys dk 0 s ar = Inr (Some s, ar)"
| "insert_keys dk (Suc n) s ar =
     or_fail (dk ar) (\<lambda>k ar1. if k \<in> set s then Inr (None, ar1) else insert_keys dk n (s @ [k]) ar1)"

definition deserialize_set :: "'k deserializer \<Rightarrow> 'k list deserializer" where
  "deserialize_set dk ar = or_fail (deserialize_size ar) (\<lambda>n. insert_keys dk n [])"

text \<open>An archive inside an archive: all of \<open>[buffer, end)\<close>, wherever its cursor is.\<close>

definition serialize_archive :: "marchive serializer" where
  "serialize_archive inner ar =
     and_then (serialize_size (archive_length inner) ar)
       (write_raw_uncheck (take (archive_length inner) (buf inner)))"

definition deserialize_archive :: "marchive \<Rightarrow> marchive deserializer" where
  "deserialize_archive out ar =
     or_fail (deserialize_size ar) (\<lambda>n ar1.
       let out1 = resize n out
       in rbind (set_cursor 0 out1) (\<lambda>out2.
          or_fail (read_raw_uncheck (archive_length out2) ar1) (\<lambda>cells ar2.
            Inr (Some (out2\<lparr>buf := store_at 0 cells (buf out2)\<rparr>), ar2))))"

text \<open>\<open>operator<<\<close> and \<open>operator>>\<close>.\<close>

definition put :: "'a serializer \<Rightarrow> 'a \<Rightarrow> marchive \<Rightarrow> marchive res" where
  "put s x ar = rbind (s x ar) (\<lambda>(b, ar1). rbind (scheck b) (\<lambda>_. Inr ar1))"

definition get :: "'a deserializer \<Rightarrow> marchive \<Rightarrow> ('a \<times> marchive) res" where
  "get d ar = rbind (d ar) (\<lambda>(x, ar1). case x of None \<Rightarrow> Inl Check_failed | Some v \<Rightarrow> Inr (v, ar1))"

section \<open>The contract of a pair of overloads\<close>

definition writes :: "(bool \<times> marchive) res \<Rightarrow> marchive \<Rightarrow> byte list \<Rightarrow> bool" where
  "writes r ar bs \<longleftrightarrow> (\<exists>ar'. r = Inr (True, ar') \<and> archive_ok ar' \<and> default_malloc ar' \<and>
     unread ar' = unread ar @ map Some bs)"

definition reads :: "('a option \<times> marchive) res \<Rightarrow> 'a \<Rightarrow> byte option list \<Rightarrow> bool" where
  "reads r x rest \<longleftrightarrow> (\<exists>ar'. r = Inr (Some x, ar') \<and> archive_ok ar' \<and> unread ar' = rest)"

locale archivable =
  fixes ser :: "'a serializer"
    and des :: "'a deserializer"
    and enc :: "'a \<Rightarrow> byte list"
    and valid :: "'a \<Rightarrow> bool"
  assumes ser_writes: "archive_ok ar \<Longrightarrow> default_malloc ar \<Longrightarrow> valid x \<Longrightarrow> writes (ser x ar) ar (enc x)"
    and des_reads: "archive_ok ar \<Longrightarrow> valid x \<Longrightarrow> unread ar = map Some (enc x) @ rest \<Longrightarrow> reads (des ar) x rest"
begin

lemma put_get:
  assumes "valid x"
  shows "\<exists>ar1 ar2. put ser x (archive_new msg) = Inr ar1 \<and> unread ar1 = map Some (enc x) \<and>
    get des ar1 = Inr (x, ar2) \<and> is_exhausted ar2"
proof -
  obtain ar1 where w: "ser x (archive_new msg) = Inr (True, ar1)" "archive_ok ar1"
      "unread ar1 = map Some (enc x) @ []"
    using ser_writes [OF archive_new_ok(1,2) assms, of msg] by (auto simp: writes_def archive_new_ok)
  obtain ar2 where "des ar1 = Inr (Some x, ar2)" "unread ar2 = []" "archive_ok ar2"
    using des_reads [OF w(2) assms w(3)] by (auto simp: reads_def)
  then show ?thesis using w
    by (auto simp: put_def get_def is_exhausted_def unread_def archive_ok_def capacity_def)
qed

end

lemma writes_and_then:
  assumes "writes r ar bs"
    and "\<And>ar'. archive_ok ar' \<Longrightarrow> default_malloc ar' \<Longrightarrow> writes (k ar') ar' cs"
  shows "writes (and_then r k) ar (bs @ cs)"
  using assms unfolding writes_def and_then_def by force

lemma reads_or_fail:
  assumes "reads r x rest"
    and "\<And>ar'. archive_ok ar' \<Longrightarrow> unread ar' = rest \<Longrightarrow> reads (k x ar') y rest'"
  shows "reads (or_fail r k) y rest'"
  using assms unfolding reads_def or_fail_def by force

lemma initialised_map: "initialised (map Some bs) = Inr bs"
  by (induction bs) auto

lemma writes_raw: "archive_ok ar \<Longrightarrow> default_malloc ar \<Longrightarrow> writes (write_raw_uncheck (map Some bs) ar) ar bs"
  using write_raw_append [of ar "map Some bs"] by (auto simp: writes_def write_raw_uncheck_def)

lemma writes_pod: "archive_ok ar \<Longrightarrow> default_malloc ar \<Longrightarrow> writes (write_pod_uncheck bs ar) ar bs"
  using write_raw_append [of ar "map Some bs"] by (auto simp: writes_def write_pod_uncheck_def)

lemma reads_raw:
  "archive_ok ar \<Longrightarrow> unread ar = map Some bs @ rest \<Longrightarrow>
     reads (read_raw_uncheck (length bs) ar) (map Some bs) rest"
  using read_raw_uncheck_prefix [of ar "map Some bs" rest] by (auto simp: reads_def)

lemma reads_pod:
  assumes "archive_ok ar" "unread ar = map Some bs @ rest" "bs \<noteq> []"
  shows "reads (read_pod_uncheck (length bs) of_img ar) (of_img bs) rest"
proof -
  have "\<not> is_exhausted ar" using assms by (auto simp: is_exhausted_def unread_def)
  then show ?thesis
    using read_raw_prefix [OF assms(1,2)] by (auto simp: reads_def read_pod_uncheck_def initialised_map)
qed

lemma reads_return: "archive_ok ar \<Longrightarrow> reads (Inr (Some x, ar)) x (unread ar)"
  by (auto simp: reads_def)

lemma writes_return: "archive_ok ar \<Longrightarrow> default_malloc ar \<Longrightarrow> writes (Inr (True, ar)) ar []"
  by (auto simp: writes_def)

section \<open>Every overload keeps the contract\<close>

lemma bytes_word_bytes:
  assumes "8 dvd LENGTH('w)"
  shows "bytes_word (word_bytes (w :: 'w :: len word)) = w"
proof -
  obtain k where k: "LENGTH('w) = 8 * k" using assms by (auto elim: dvdE)
  have "unat w < 2 ^ LENGTH('w)" by (rule unsigned_less)
  then have "unat w < 256 ^ k" by (simp add: k power_mult)
  then show ?thesis by (simp add: bytes_word_def word_bytes_def k le_val_le_bytes_lt)
qed

lemma archivable_word:
  assumes "8 dvd LENGTH('w)"
  shows "archivable serialize_word deserialize_word (word_bytes :: 'w :: len word \<Rightarrow> byte list) (\<lambda>_. True)"
proof
  fix ar :: marchive and x :: "'w word"
  assume "archive_ok ar" "default_malloc ar"
  then show "writes (serialize_word x ar) ar (word_bytes x)"
    unfolding serialize_word_def by (rule writes_pod)
next
  fix ar :: marchive and x :: "'w word" and rest
  assume ar: "archive_ok ar" "unread ar = map Some (word_bytes x) @ rest"
  obtain k where "LENGTH('w) = 8 * k" using assms by (auto elim: dvdE)
  then have ne: "word_bytes x \<noteq> []" and len: "length (word_bytes x) = LENGTH('w) div 8"
    using len_gt_0 [where 'a = 'w] by (auto simp: word_bytes_def simp flip: length_0_conv)
  show "reads (deserialize_word ar) x rest"
    using reads_pod [OF ar ne, of "bytes_word :: byte list \<Rightarrow> 'w word"] bytes_word_bytes [OF assms, of x]
    by (simp add: deserialize_word_def len)
qed

interpretation u64_ar: archivable serialize_word deserialize_word "word_bytes :: 64 word \<Rightarrow> byte list" "\<lambda>_. True"
  by (rule archivable_word) simp

interpretation u32_ar: archivable serialize_word deserialize_word "word_bytes :: 32 word \<Rightarrow> byte list" "\<lambda>_. True"
  by (rule archivable_word) simp

definition size_bytes :: "nat \<Rightarrow> byte list" where
  "size_bytes n = word_bytes (word_of_nat n :: 64 word)"

interpretation size_ar: archivable serialize_size deserialize_size size_bytes "\<lambda>n. n < 2 ^ 64"
proof
  fix ar :: marchive and n :: nat
  assume "archive_ok ar" "default_malloc ar"
  then show "writes (serialize_size n ar) ar (size_bytes n)"
    using u64_ar.ser_writes by (simp add: serialize_size_def size_bytes_def)
next
  fix ar :: marchive and n :: nat and rest
  assume ar: "archive_ok ar" "n < 2 ^ 64" "unread ar = map Some (size_bytes n) @ rest"
  then have "unat (word_of_nat n :: 64 word) = n" by (simp add: unat_of_nat)
  then show "reads (deserialize_size ar) n rest"
    unfolding deserialize_size_def
    using ar u64_ar.des_reads [of ar "word_of_nat n" rest]
    by (auto simp: size_bytes_def reads_def or_fail_def)
qed

context archivable
begin

lemma each_writes:
  "archive_ok ar \<Longrightarrow> default_malloc ar \<Longrightarrow> list_all valid xs \<Longrightarrow>
     writes (serialize_each ser xs ar) ar (concat (map enc xs))"
  by (induction xs arbitrary: ar) (auto intro!: writes_and_then writes_return ser_writes)

lemma each_reads:
  "archive_ok ar \<Longrightarrow> list_all valid xs \<Longrightarrow> unread ar = map Some (concat (map enc xs)) @ rest \<Longrightarrow>
     reads (deserialize_each des (length xs) ar) xs rest"
proof (induction xs arbitrary: ar)
  case (Cons x xs)
  have 1: "reads (des ar) x (map Some (concat (map enc xs)) @ rest)"
    using Cons.prems by (intro des_reads) auto
  show ?case
    unfolding length_Cons deserialize_each.simps
    by (rule reads_or_fail [OF 1], rule reads_or_fail [OF Cons.IH])
      (use Cons.prems in \<open>auto simp: reads_def\<close>)
qed (auto simp: reads_def)

end

definition enc_vector :: "('a \<Rightarrow> byte list) \<Rightarrow> 'a list \<Rightarrow> byte list" where
  "enc_vector e xs = size_bytes (length xs) @ concat (map e xs)"

definition valid_vector :: "('a \<Rightarrow> bool) \<Rightarrow> 'a list \<Rightarrow> bool" where
  "valid_vector v xs \<longleftrightarrow> length xs < 2 ^ 64 \<and> list_all v xs"

lemma reads_size:
  assumes "archive_ok ar" "n < 2 ^ 64" "unread ar = map Some (size_bytes n @ bs) @ rest"
    and "\<And>ar'. archive_ok ar' \<Longrightarrow> unread ar' = map Some bs @ rest \<Longrightarrow> reads (k n ar') y rest"
  shows "reads (or_fail (deserialize_size ar) k) y rest"
  by (rule reads_or_fail [OF size_ar.des_reads [of ar n "map Some bs @ rest"]]) (use assms in auto)

lemma archivable_vector:
  assumes "archivable s d e v"
  shows "archivable (serialize_vector s) (deserialize_vector d) (enc_vector e) (valid_vector v)"
proof -
  have w: "writes (serialize_vector s xs ar) ar (enc_vector e xs)"
    if "archive_ok ar" "default_malloc ar" "valid_vector v xs" for xs ar
    using that archivable.each_writes [OF assms]
    unfolding serialize_vector_def enc_vector_def valid_vector_def
    by (intro writes_and_then size_ar.ser_writes) auto
  have r: "reads (deserialize_vector d ar) xs rest"
    if "archive_ok ar" "valid_vector v xs" "unread ar = map Some (enc_vector e xs) @ rest" for xs ar rest
    using that archivable.each_reads [OF assms]
    unfolding deserialize_vector_def enc_vector_def valid_vector_def
    by (intro reads_size) auto
  show ?thesis using w r by unfold_locales auto
qed

lemma vector_like:
  "serialize_deque s = serialize_vector s" "deserialize_deque d = deserialize_vector d"
  "serialize_valarray s = serialize_vector s" "deserialize_valarray d = deserialize_vector d"
  "serialize_set s = serialize_vector s" "serialize_carray s = serialize_vector s"
  by (intro ext; simp add: serialize_deque_def serialize_vector_def deserialize_deque_def
      deserialize_vector_def serialize_valarray_def deserialize_valarray_def serialize_set_def
      serialize_carray_def)+

lemma archivable_pair:
  assumes "archivable s1 d1 e1 v1" "archivable s2 d2 e2 v2"
  shows "archivable (serialize_pair s1 s2) (deserialize_pair d1 d2)
    (\<lambda>(x, y). e1 x @ e2 y) (\<lambda>(x, y). v1 x \<and> v2 y)"
proof -
  note a = archivable.ser_writes [OF assms(1)] archivable.ser_writes [OF assms(2)]
  note b = archivable.des_reads [OF assms(1)] archivable.des_reads [OF assms(2)]
  have r: "reads (deserialize_pair d1 d2 ar) (x, y) rest"
    if "archive_ok ar" "v1 x" "v2 y" "unread ar = map Some (e1 x @ e2 y) @ rest" for x y ar rest
    unfolding deserialize_pair_def
    by (rule reads_or_fail [OF b(1) [of ar x "map Some (e2 y) @ rest"]],
        use that in auto, rule reads_or_fail [OF b(2) [of _ y rest]])
      (use that in \<open>auto simp: reads_def\<close>)
  show ?thesis
    using a r by unfold_locales (auto simp: serialize_pair_def intro!: writes_and_then)
qed

lemma writes_rbind:
  assumes "writes r ar bs"
    and "\<And>ar'. archive_ok ar' \<Longrightarrow> default_malloc ar' \<Longrightarrow> writes (k (True, ar')) ar' cs"
  shows "writes (rbind r k) ar (bs @ cs)"
  using assms unfolding writes_def by force

lemma reads_rbind:
  assumes "reads r x rest"
    and "\<And>ar'. archive_ok ar' \<Longrightarrow> unread ar' = rest \<Longrightarrow> reads (k (Some x, ar')) y rest'"
  shows "reads (rbind r k) y rest'"
  using assms unfolding reads_def by force

lemma archivable_tuple:
  assumes "archivable s1 d1 e1 v1" "archivable s2 d2 e2 v2" "archivable s3 d3 e3 v3"
  shows "archivable (serialize_tuple s1 s2 s3) (deserialize_tuple d1 d2 d3)
    (\<lambda>(x, y, z). e1 x @ e2 y @ e3 z) (\<lambda>(x, y, z). v1 x \<and> v2 y \<and> v3 z)"
proof -
  note a = archivable.ser_writes [OF assms(1)] archivable.ser_writes [OF assms(2)] archivable.ser_writes [OF assms(3)]
  note b = archivable.des_reads [OF assms(1)] archivable.des_reads [OF assms(2)] archivable.des_reads [OF assms(3)]
  have w: "writes (serialize_tuple s1 s2 s3 (x, y, z) ar) ar (e1 x @ e2 y @ (e3 z @ []))"
    if "archive_ok ar" "default_malloc ar" "v1 x" "v2 y" "v3 z" for x y z ar
    unfolding serialize_tuple_def prod.case
    by (rule writes_rbind [OF a(1)], (rule that)+, unfold prod.case,
        rule writes_rbind [OF a(2)], assumption+, rule that, unfold prod.case,
        rule writes_rbind [OF a(3)], assumption+, rule that, simp add: writes_return)
  have r: "reads (deserialize_tuple d1 d2 d3 ar) (x, y, z) rest"
    if "archive_ok ar" "v1 x" "v2 y" "v3 z" "unread ar = map Some (e1 x @ e2 y @ e3 z) @ rest" for x y z ar rest
    unfolding deserialize_tuple_def
    by (rule reads_rbind [OF b(1) [of ar x "map Some (e2 y @ e3 z) @ rest"]], use that in auto,
        rule reads_rbind [OF b(2) [of _ y "map Some (e3 z) @ rest"]], use that in auto,
        rule reads_rbind [OF b(3) [of _ z rest]])
      (use that in \<open>auto simp: reads_def\<close>)
  show ?thesis using w r by unfold_locales auto
qed

lemma archivable_map:
  assumes "archivable sk dk ek vk" "archivable sv dv ev vv"
  shows "archivable (serialize_map sk sv) (deserialize_map dk dv) (enc_vector (\<lambda>(k, v). ek k @ ev v))
    (\<lambda>m. valid_vector (\<lambda>(k, v). vk k \<and> vv v) m \<and> distinct (map fst m))"
proof -
  note p = archivable_pair [OF assms]
  note b = archivable.des_reads [OF assms(1)] archivable.des_reads [OF assms(2)]
  have eq: "(\<lambda>item ar1. and_then (sk (fst item) ar1) (sv (snd item))) = serialize_pair sk sv"
    by (intro ext) (simp add: serialize_pair_def)
  have w: "writes (serialize_map sk sv m ar) ar (enc_vector (\<lambda>(k, v). ek k @ ev v) m)"
    if "archive_ok ar" "default_malloc ar" "valid_vector (\<lambda>(k, v). vk k \<and> vv v) m" for m ar
    using archivable.ser_writes [OF archivable_vector [OF p], OF that]
    by (simp add: serialize_map_def serialize_vector_def eq)
  have ins: "reads (insert_each dk dv (length m) acc ar) (acc @ m) rest"
    if "archive_ok ar" "list_all (\<lambda>(k, v). vk k \<and> vv v) m" "distinct (map fst (acc @ m))"
      "unread ar = map Some (concat (map (\<lambda>(k, v). ek k @ ev v) m)) @ rest" for m acc ar rest
    using that
  proof (induction m arbitrary: acc ar)
    case (Cons kv m)
    obtain k v where kv: "kv = (k, v)" by (cases kv) auto
    have k: "k \<notin> fst ` set acc" using Cons.prems kv by auto
    have r1: "reads (dk ar) k (map Some (ev v @ concat (map (\<lambda>(k, v). ek k @ ev v) m)) @ rest)"
      using Cons.prems kv by (intro b(1)) auto
    show ?case
      unfolding length_Cons insert_each.simps
      apply (rule reads_or_fail [OF r1])
      apply (rule reads_or_fail [OF b(2) [of _ v "map Some (concat (map (\<lambda>(k, v). ek k @ ev v) m)) @ rest"]])
      using Cons.prems Cons.IH [of _ "acc @ [(k, v)]"] kv k by auto
  qed (auto simp: reads_def)
  have r: "reads (deserialize_map dk dv ar) m rest"
    if "archive_ok ar" "valid_vector (\<lambda>(k, v). vk k \<and> vv v) m \<and> distinct (map fst m)"
      "unread ar = map Some (enc_vector (\<lambda>(k, v). ek k @ ev v) m) @ rest" for m ar rest
    using that ins [where acc = "[]"] unfolding deserialize_map_def enc_vector_def valid_vector_def
    by (intro reads_size) auto
  show ?thesis using w r by unfold_locales auto
qed

lemma archivable_set:
  assumes "archivable s d e v"
  shows "archivable (serialize_set s) (deserialize_set d) (enc_vector e) (\<lambda>xs. valid_vector v xs \<and> distinct xs)"
proof -
  note b = archivable.des_reads [OF assms]
  have ins: "reads (insert_keys d (length xs) acc ar) (acc @ xs) rest"
    if "archive_ok ar" "list_all v xs" "distinct (acc @ xs)"
      "unread ar = map Some (concat (map e xs)) @ rest" for xs acc ar rest
    using that
  proof (induction xs arbitrary: acc ar)
    case (Cons x xs)
    have r1: "reads (d ar) x (map Some (concat (map e xs)) @ rest)"
      using Cons.prems by (intro b(1)) auto
    show ?case
      unfolding length_Cons insert_keys.simps
      by (rule reads_or_fail [OF r1]) (use Cons.prems Cons.IH [of _ "acc @ [x]"] in auto)
  qed (auto simp: reads_def)
  have r: "reads (deserialize_set d ar) xs rest"
    if "archive_ok ar" "valid_vector v xs \<and> distinct xs" "unread ar = map Some (enc_vector e xs) @ rest" for xs ar rest
    using that ins [where acc = "[]"] unfolding deserialize_set_def enc_vector_def valid_vector_def
    by (intro reads_size) auto
  show ?thesis
    using archivable.ser_writes [OF archivable_vector [OF assms]] r
    by unfold_locales (auto simp: vector_like)
qed

lemma archivable_string:
  "archivable serialize_string deserialize_string (\<lambda>str. size_bytes (length str) @ str) (\<lambda>str. length str < 2 ^ 64)"
proof -
  have r: "reads (deserialize_string ar) str rest"
    if "archive_ok ar" "length str < 2 ^ 64" "unread ar = map Some (size_bytes (length str) @ str) @ rest"
    for ar str rest
    unfolding deserialize_string_def
    by (rule reads_size [OF that], rule reads_or_fail [OF reads_raw [of _ str rest]])
      (auto simp: initialised_map reads_def)
  show ?thesis using r
    by unfold_locales
      (auto simp: serialize_string_def intro!: writes_and_then size_ar.ser_writes writes_raw)
qed

interpretation string_ar: archivable serialize_string deserialize_string
  "\<lambda>str. size_bytes (length str) @ str" "\<lambda>str. length str < 2 ^ 64"
  by (rule archivable_string)

lemma split_images_concat:
  "list_all (\<lambda>x. length (img x) = sz) xs \<Longrightarrow> split_images sz (length xs) (concat (map img xs)) = map img xs"
  by (induction xs) auto

lemma length_images: "list_all (\<lambda>x. length (img x) = sz) xs \<Longrightarrow> length (concat (map img xs)) = sz * length xs"
  by (induction xs) auto

lemma reads_images:
  assumes "archive_ok ar" "unread ar = map Some (concat (map img xs)) @ rest"
    and "list_all (\<lambda>x. length (img x) = sz \<and> of_img (img x) = x) xs"
  shows "reads (read_images sz of_img (length xs) ar) xs rest"
proof -
  have sz: "list_all (\<lambda>x. length (img x) = sz) xs" and inv: "map (\<lambda>x. of_img (img x)) xs = xs"
    using assms(3) by (auto simp: list_all_iff intro: map_idI)
  show ?thesis
    unfolding read_images_def length_images [OF sz, symmetric]
    by (rule reads_or_fail [OF reads_raw [OF assms(1,2)]])
      (auto simp: initialised_map reads_def split_images_concat [OF sz] comp_def inv)
qed

lemma archivable_pod_vector:
  assumes "\<And>x. v x \<Longrightarrow> length (img x) = sz \<and> of_img (img x) = x"
  shows "archivable (serialize_pod_vector img) (deserialize_pod_vector sz of_img) (enc_vector img) (valid_vector v)"
proof -
  have r: "reads (deserialize_pod_vector sz of_img ar) xs rest"
    if "archive_ok ar" "valid_vector v xs" "unread ar = map Some (enc_vector img xs) @ rest" for ar xs rest
    unfolding deserialize_pod_vector_def
    by (rule reads_size [of ar "length xs" "concat (map img xs)"], (rule that)+)
      (use that assms in \<open>auto simp: enc_vector_def valid_vector_def list_all_iff intro!: reads_images\<close>)
  show ?thesis using r
    by unfold_locales
      (auto simp: serialize_pod_vector_def enc_vector_def valid_vector_def
        intro!: writes_and_then size_ar.ser_writes writes_raw)
qed

lemma archivable_pod_carray:
  assumes "\<And>x. v x \<Longrightarrow> length (img x) = sz \<and> of_img (img x) = x"
  shows "archivable (serialize_pod_carray img) (deserialize_pod_carray N sz of_img) (enc_vector img)
    (\<lambda>xs. valid_vector v xs \<and> length xs = N)"
proof -
  have s: "serialize_pod_carray img = serialize_pod_vector img"
    by (intro ext) (simp add: serialize_pod_carray_def serialize_pod_vector_def)
  have r: "reads (deserialize_pod_carray N sz of_img ar) xs rest"
    if "archive_ok ar" "valid_vector v xs \<and> length xs = N" "unread ar = map Some (enc_vector img xs) @ rest" for ar xs rest
    unfolding deserialize_pod_carray_def
    by (rule reads_size [of ar "length xs" "concat (map img xs)"])
      (use that assms in \<open>auto simp: enc_vector_def valid_vector_def list_all_iff intro!: reads_images\<close>)
  show ?thesis using r archivable.ser_writes [OF archivable_pod_vector [OF assms]]
    by unfold_locales (auto simp: s)
qed

lemma archivable_carray:
  assumes "archivable s d e v"
  shows "archivable (serialize_carray s) (deserialize_carray N d) (enc_vector e)
    (\<lambda>xs. valid_vector v xs \<and> length xs = N)"
proof -
  have r: "reads (deserialize_carray N d ar) xs rest"
    if "archive_ok ar" "valid_vector v xs \<and> length xs = N" "unread ar = map Some (enc_vector e xs) @ rest" for ar xs rest
    unfolding deserialize_carray_def
    by (rule reads_size [of ar "length xs" "concat (map e xs)"])
      (use that archivable.each_reads [OF assms] in \<open>auto simp: enc_vector_def valid_vector_def\<close>)
  show ?thesis using r archivable.ser_writes [OF archivable_vector [OF assms]]
    by unfold_locales (auto simp: vector_like)
qed

lemma archivable_array:
  assumes "archivable s d e v"
  shows "archivable (serialize_array s) (deserialize_array N d) (\<lambda>xs. concat (map e xs))
    (\<lambda>xs. list_all v xs \<and> length xs = N)"
  using archivable.each_writes [OF assms] archivable.each_reads [OF assms]
  by unfold_locales (auto simp: serialize_array_def deserialize_array_def)

lemma archivable_pod_array:
  assumes "\<And>x. v x \<Longrightarrow> length (img x) = sz \<and> of_img (img x) = x"
  shows "archivable (serialize_pod_array img) (deserialize_pod_array N sz of_img) (\<lambda>xs. concat (map img xs))
    (\<lambda>xs. list_all v xs \<and> length xs = N)"
  using assms
  by unfold_locales
    (auto simp: serialize_pod_array_def deserialize_pod_array_def list_all_iff intro!: writes_raw reads_images)

lemma archivable_enum:
  assumes "\<And>x. v x \<Longrightarrow> from_int (to_int x) = x"
  shows "archivable (serialize_enum to_int) (deserialize_enum from_int) (\<lambda>x. word_bytes (to_int x)) v"
proof -
  have w: "writes (serialize_enum to_int x ar) ar (word_bytes (to_int x) @ [])"
    if "archive_ok ar" "default_malloc ar" for x ar
    unfolding serialize_enum_def
    by (intro writes_and_then) (use u32_ar.ser_writes that in \<open>auto intro: writes_return\<close>)
  have r: "reads (deserialize_enum from_int ar) x rest"
    if "archive_ok ar" "v x" "unread ar = map Some (word_bytes (to_int x)) @ rest" for x ar rest
    unfolding deserialize_enum_def
    by (rule reads_or_fail [OF u32_ar.des_reads [OF _ _ that(3)]])
      (use that assms in \<open>auto simp: reads_def\<close>)
  show ?thesis using w r by unfold_locales auto
qed

subsection \<open>Packed booleans\<close>

fun enc_bits :: "bool list \<Rightarrow> 64 word \<Rightarrow> nat \<Rightarrow> 64 word list" where
  "enc_bits [] bits offset = (if 0 < offset then [bits] else [])"
| "enc_bits (v # vs) bits offset =
     (if offset = 64 then bits # enc_bits vs (if v then 1 else 0) 1
      else enc_bits vs (if v then bits OR push_bit offset 1 else bits) (offset + 1))"

lemma bits_loop_writes:
  "archive_ok ar \<Longrightarrow> default_malloc ar \<Longrightarrow>
     writes (serialize_bits_loop vs bits offset ar) ar (concat (map word_bytes (enc_bits vs bits offset)))"
proof (induction vs bits offset ar rule: serialize_bits_loop.induct)
  case (1 bits offset ar)
  then show ?case using u64_ar.ser_writes [of ar bits] by (auto simp: writes_def)
next
  case (2 v vs bits offset ar)
  show ?case
  proof (cases "offset = 64")
    case True
    have "writes (and_then (serialize_word bits ar) (serialize_bits_loop vs (if v then push_bit 0 1 else 0) 1)) ar
      (word_bytes bits @ concat (map word_bytes (enc_bits vs (if v then 1 else 0) 1)))"
      using 2 u64_ar.ser_writes [of ar bits] True
      by (intro writes_and_then) (auto split: if_splits)
    then show ?thesis using True by simp
  next
    case False
    then show ?thesis using 2 by simp
  qed
qed

lemma and_push_bit_iff: "(w AND push_bit k 1 \<noteq> 0) = bit w k" if "k < 64" for w :: "64 word"
proof -
  have "w AND push_bit k 1 = push_bit k (of_bool (bit w k))"
    by (rule bit_word_eqI) (use that in \<open>auto simp: bit_simps\<close>)
  then show ?thesis using that by (auto simp: push_bit_of_1 dest: arg_cong [of _ _ "\<lambda>x. bit x k"])
qed

definition fits :: "64 word \<Rightarrow> nat \<Rightarrow> bool" where
  "fits bits offset \<longleftrightarrow> (\<forall>i \<ge> offset. \<not> bit bits i)"

lemma enc_bits_first:
  assumes "0 < offset" "offset \<le> 64" "fits bits offset"
  shows "\<exists>w ws. enc_bits vs bits offset = w # ws \<and> (\<forall>i < offset. bit w i = bit bits i)"
  using assms
proof (induction vs arbitrary: bits offset)
  case (Cons v vs)
  show ?case
  proof (cases "offset = 64")
    case False
    let ?b = "if v then bits OR push_bit offset 1 else bits"
    have "fits ?b (Suc offset)" using Cons.prems by (auto simp: fits_def bit_simps)
    then obtain w ws where "enc_bits vs ?b (Suc offset) = w # ws" "\<forall>i < Suc offset. bit w i = bit ?b i"
      using Cons.IH [of "Suc offset" ?b] Cons.prems False by auto
    moreover have "\<forall>i < offset. bit ?b i = bit bits i" by (auto simp: bit_simps)
    ultimately show ?thesis using False by auto
  qed simp
qed simp

lemma bits_loop_reads:
  assumes "0 < offset" "offset \<le> 64" "fits bits offset"
    and "enc_bits vs bits offset = w # ws"
    and "archive_ok ar" "unread ar = map Some (concat (map word_bytes ws)) @ rest"
  shows "reads (deserialize_bits_loop (length vs) w offset ar) vs rest"
  using assms
proof (induction vs arbitrary: bits offset w ws ar)
  case Nil
  then show ?case by (auto simp: reads_def)
next
  case (Cons v vs)
  show ?case
  proof (cases "offset = 64")
    case True
    let ?b = "(if v then 1 else 0) :: 64 word"
    have f: "fits ?b 1" by (auto simp: fits_def bit_simps)
    obtain w' ws' where e: "enc_bits vs ?b 1 = w' # ws'" "bit w' 0 = bit ?b 0"
      using enc_bits_first [OF _ _ f, of vs] by auto
    have r: "reads (deserialize_word ar) w' (map Some (concat (map word_bytes ws')) @ rest)"
      using Cons.prems True e by (intro u64_ar.des_reads) auto
    have b: "(w' AND push_bit 0 1 \<noteq> 0) = v" using e(2) and_push_bit_iff [of 0 w'] by (auto split: if_splits)
    have IH: "reads (deserialize_bits_loop (length vs) w' 1 ar') vs rest"
      if "archive_ok ar'" "unread ar' = map Some (concat (map word_bytes ws')) @ rest" for ar'
      using Cons.IH [OF _ _ f e(1) that] by simp
    have ld: "reads (or_fail (deserialize_word ar) (\<lambda>w ar1. Inr (Some (w, 0 :: nat), ar1))) (w', 0)
        (map Some (concat (map word_bytes ws')) @ rest)"
      by (rule reads_or_fail [OF r]) (auto simp: reads_def)
    show ?thesis
      unfolding length_Cons deserialize_bits_loop.simps True if_True simp_thms
      by (rule reads_or_fail [OF ld], unfold prod.case add_0, rule reads_or_fail [OF IH], assumption+,
          unfold b, simp add: reads_def)
  next
    case False
    let ?b = "if v then bits OR push_bit offset 1 else bits"
    have f: "fits ?b (Suc offset)" using Cons.prems by (auto simp: fits_def bit_simps)
    have e: "enc_bits vs ?b (Suc offset) = w # ws" using Cons.prems False by simp
    then have "bit w offset = bit ?b offset"
      using enc_bits_first [OF _ _ f, of vs] Cons.prems False by auto
    then have b: "(w AND push_bit offset 1 \<noteq> 0) = v"
      using and_push_bit_iff [of offset w] Cons.prems False
      by (cases v) (auto simp: bit_simps fits_def)
    have IH: "reads (deserialize_bits_loop (length vs) w (Suc offset) ar) vs rest"
      using Cons.IH [OF _ _ f e Cons.prems(5,6)] Cons.prems False by simp
    show ?thesis
      using False b IH by (auto simp: or_fail_def reads_def)
  qed
qed


lemma archivable_bits:
  "archivable serialize_bits deserialize_bits
     (\<lambda>vs. size_bytes (length vs) @ concat (map word_bytes (enc_bits vs 0 0))) (\<lambda>vs. length vs < 2 ^ 64)"
proof -
  have r: "reads (deserialize_bits ar) vs rest"
    if "archive_ok ar" "length vs < 2 ^ 64"
      "unread ar = map Some (size_bytes (length vs) @ concat (map word_bytes (enc_bits vs 0 0))) @ rest"
    for ar vs rest
    unfolding deserialize_bits_def
  proof (rule reads_size [OF that])
    fix ar' assume ok: "archive_ok ar'"
      and u: "unread ar' = map Some (concat (map word_bytes (enc_bits vs 0 0))) @ rest"
    have f: "fits 0 64" "fits (0 :: 64 word) 0" by (simp_all add: fits_def)
    have "enc_bits vs 0 64 = 0 # enc_bits vs 0 0"
      by (cases vs) auto
    from bits_loop_reads [OF _ _ f(1) this ok] u
    show "reads (deserialize_bits_loop (length vs) 0 64 ar') vs rest" by simp
  qed
  show ?thesis
    using r by unfold_locales (auto simp: serialize_bits_def intro!: writes_and_then size_ar.ser_writes bits_loop_writes)
qed

interpretation bits_ar: archivable serialize_bits deserialize_bits
  "\<lambda>vs. size_bytes (length vs) @ concat (map word_bytes (enc_bits vs 0 0))" "\<lambda>vs. length vs < 2 ^ 64"
  by (rule archivable_bits)

lemma length_word_bytes: "length (word_bytes (w :: 64 word)) = 8" "bytes_word (word_bytes w) = w"
  by (simp add: word_bytes_def) (rule bytes_word_bytes, simp)

text \<open>A composite type of the code base's kind: \<open>std::map<std::string, std::vector<uint64_t>>\<close>.\<close>

interpretation dict_ar: archivable
  "serialize_map serialize_string (serialize_pod_vector (word_bytes :: 64 word \<Rightarrow> byte list))"
  "deserialize_map deserialize_string (deserialize_pod_vector 8 bytes_word)"
  "enc_vector (\<lambda>(k, v). (\<lambda>str. size_bytes (length str) @ str) k @ enc_vector word_bytes v)"
  "\<lambda>m. valid_vector (\<lambda>(k, v). (\<lambda>str. length str < 2 ^ 64) k \<and> valid_vector (\<lambda>_. True) v) m \<and> distinct (map fst m)"
  by (rule archivable_map [OF archivable_string archivable_pod_vector]) (simp add: length_word_bytes)

section \<open>Properties\<close>

text \<open>C29. Compositionality of serialization: whenever the overloads of the element types satisfy the contract (the
  serializer appends the encoding and returns true, the deserializer consumes exactly the encoding and returns the
  value), so do the overloads for vector, deque, valarray, set, pair, tuple, map, array and C array built from them.\<close>

theorem serialization_compositional:
  assumes "archivable s1 d1 e1 v1" and "archivable s2 d2 e2 v2"
  shows "archivable (serialize_vector s1) (deserialize_vector d1) (enc_vector e1) (valid_vector v1) \<and>
    archivable (serialize_deque s1) (deserialize_deque d1) (enc_vector e1) (valid_vector v1) \<and>
    archivable (serialize_valarray s1) (deserialize_valarray d1) (enc_vector e1) (valid_vector v1) \<and>
    archivable (serialize_set s1) (deserialize_set d1) (enc_vector e1) (\<lambda>xs. valid_vector v1 xs \<and> distinct xs) \<and>
    archivable (serialize_pair s1 s2) (deserialize_pair d1 d2) (\<lambda>(x, y). e1 x @ e2 y) (\<lambda>(x, y). v1 x \<and> v2 y) \<and>
    archivable (serialize_tuple s1 s2 s1) (deserialize_tuple d1 d2 d1)
      (\<lambda>(x, y, z). e1 x @ e2 y @ e1 z) (\<lambda>(x, y, z). v1 x \<and> v2 y \<and> v1 z) \<and>
    archivable (serialize_map s1 s2) (deserialize_map d1 d2) (enc_vector (\<lambda>(k, v). e1 k @ e2 v))
      (\<lambda>m. valid_vector (\<lambda>(k, v). v1 k \<and> v2 v) m \<and> distinct (map fst m)) \<and>
    archivable (serialize_array s1) (deserialize_array N d1) (\<lambda>xs. concat (map e1 xs))
      (\<lambda>xs. list_all v1 xs \<and> length xs = N) \<and>
    archivable (serialize_carray s1) (deserialize_carray N d1) (enc_vector e1)
      (\<lambda>xs. valid_vector v1 xs \<and> length xs = N)"
  using archivable_vector [OF assms(1)] archivable_set [OF assms(1)] archivable_pair [OF assms]
    archivable_tuple [OF assms(1) assms(2) assms(1)] archivable_map [OF assms]
    archivable_array [OF assms(1)] archivable_carray [OF assms(1)]
  unfolding vector_like by blast

theorem serialization_compositional_witness:
  "archivable (serialize_map serialize_string serialize_string) (deserialize_map deserialize_string deserialize_string)
     (enc_vector (\<lambda>(k, v). (size_bytes (length k) @ k) @ size_bytes (length v) @ v))
     (\<lambda>m. valid_vector (\<lambda>(k, v). length k < 2 ^ 64 \<and> length v < 2 ^ 64) m \<and> distinct (map fst m))"
  using serialization_compositional [OF archivable_string archivable_string] by blast

text \<open>C12. Round trip on a new archive: a \<open>std::map<std::string, std::vector<uint64_t>>\<close> written with \<open>operator<<\<close> is
  read back by \<open>operator>>\<close> unchanged and nothing is left to read.\<close>

theorem serialization_round_trip:
  assumes "length m < 2 ^ 64" and "distinct (map fst m)"
    and "list_all (\<lambda>(k, v). length k < 2 ^ 64 \<and> length v < 2 ^ 64) m"
  shows "\<exists>ar1 ar2.
    put (serialize_map serialize_string (serialize_pod_vector (word_bytes :: 64 word \<Rightarrow> byte list))) m (archive_new msg)
      = Inr ar1 \<and>
    get (deserialize_map deserialize_string (deserialize_pod_vector 8 bytes_word)) ar1 = Inr (m, ar2) \<and>
    is_exhausted ar2"
proof -
  have "valid_vector (\<lambda>(k, v). (\<lambda>str. length str < 2 ^ 64) k \<and> valid_vector (\<lambda>_. True) v) m \<and> distinct (map fst m)"
    using assms by (auto simp: valid_vector_def list_all_iff)
  from dict_ar.put_get [OF this, of msg] show ?thesis by blast
qed

theorem serialization_round_trip_witness:
  "\<exists>ar1 ar2.
    put (serialize_map serialize_string (serialize_pod_vector (word_bytes :: 64 word \<Rightarrow> byte list)))
      [([97], [1, 2]), ([], [])] (archive_new True) = Inr ar1 \<and>
    get (deserialize_map deserialize_string (deserialize_pod_vector 8 bytes_word)) ar1 =
      Inr ([([97], [1, 2 :: 64 word]), ([], [])], ar2) \<and>
    is_exhausted ar2"
  using serialization_round_trip [of "[([97], [1, 2]), ([], [])]" True] by simp

lemma length_enc_bits: "offset \<le> 64 \<Longrightarrow> length (enc_bits vs bits offset) = (length vs + offset + 63) div 64"
proof (induction vs arbitrary: bits offset)
  case (Cons v vs)
  show ?case
  proof (cases "offset = 64")
    case True
    moreover have "(x + 64) div 64 = Suc (x div 64)" for x :: nat by simp
    from this [of "length vs + 64"] have "(length vs + 128) div 64 = Suc ((length vs + 64) div 64)"
      by (simp only: add.assoc numeral_plus_numeral semiring_norm)
    ultimately show ?thesis using Cons.IH [of 1 "if v then 1 else 0"] by simp
  next
    case False
    then show ?thesis using Cons.IH [of "offset + 1"] Cons.prems by (simp add: add_ac)
  qed
qed auto

text \<open>Packed booleans round trip: \<open>std::vector<bool>\<close> of any length, also one that fills its last 64-bit word
  exactly, is read back unchanged, and it is written in \<open>(n + 63) / 64\<close> words after the size.\<close>

theorem bits_round_trip:
  assumes "length vs < 2 ^ 64"
  shows "\<exists>ar1 ar2. put serialize_bits vs (archive_new msg) = Inr ar1 \<and>
    readable_length ar1 = 8 + 8 * ((length vs + 63) div 64) \<and>
    get deserialize_bits ar1 = Inr (vs, ar2) \<and> is_exhausted ar2"
proof -
  obtain ar1 ar2 where a: "put serialize_bits vs (archive_new msg) = Inr ar1"
      "unread ar1 = map Some (size_bytes (length vs) @ concat (map word_bytes (enc_bits vs 0 0)))"
      "get deserialize_bits ar1 = Inr (vs, ar2)" "is_exhausted ar2"
    using bits_ar.put_get [OF assms, of msg] by blast
  have "archive_ok ar1"
    using a(1) bits_ar.ser_writes [OF archive_new_ok(1,2) assms, of msg]
    by (auto simp: put_def writes_def)
  then have "length (unread ar1) = readable_length ar1"
    by (simp add: unread_def readable_length_def archive_ok_def capacity_def)
  moreover have "length (concat (map word_bytes ws)) = 8 * length ws" for ws :: "64 word list"
    by (induction ws) (simp_all add: length_word_bytes)
  ultimately have "readable_length ar1 = 8 + 8 * ((length vs + 63) div 64)"
    using a(2) length_enc_bits [of 0 vs 0] by (simp add: size_bytes_def length_word_bytes)
  with a show ?thesis by blast
qed

theorem bits_round_trip_witness:
  "\<exists>ar1 ar2. put serialize_bits (replicate 64 True) (archive_new False) = Inr ar1 \<and> readable_length ar1 = 16 \<and>
    get deserialize_bits ar1 = Inr (replicate 64 True, ar2) \<and> is_exhausted ar2"
  using bits_round_trip [of "replicate 64 True" False] by simp

text \<open>Error behaviour of the deserializer of a plain value: from an archive with nothing to read it returns false
  and leaves the archive alone; from an archive with some bytes but fewer than the value needs, the check in
  \<open>prepare_read\<close> stops the process instead of returning false.\<close>

theorem deserialize_word_short:
  assumes "archive_ok ar"
  shows "(readable_length ar = 0 \<longrightarrow> (deserialize_word ar :: ('w :: len word option \<times> marchive) res) = Inr (None, ar)) \<and>
    (0 < readable_length ar \<and> readable_length ar < LENGTH('w) div 8 \<longrightarrow>
       (deserialize_word ar :: ('w word option \<times> marchive) res) = Inl Check_failed)"
  using assms
  by (auto simp: deserialize_word_def read_pod_uncheck_def is_exhausted_def readable_length_def
      archive_ok_def read_raw_def prepare_read_def)

theorem deserialize_word_short_witness:
  "(deserialize_word (resize 3 (archive_new False)) :: (64 word option \<times> marchive) res) = Inl Check_failed"
  using deserialize_word_short [of "resize 3 (archive_new False)", where ?'w = 64] archive_new_ok(1)
  by (simp add: resize_ok, simp add: readable_length_def resize_def reserve_def capacity_def archive_new_def
      set_default_deleter_def Let_def)

text \<open>A map whose encoding repeats a key is rejected: the deserializer returns false.\<close>

theorem deserialize_map_duplicate:
  assumes "archivable sk dk ek vk" and "archivable sv dv ev vv"
    and "vk k" "vv v" "vv w" and "archive_ok ar"
    and "unread ar = map Some (size_bytes 2 @ ek k @ ev v @ ek k @ ev w) @ rest"
  shows "\<exists>ar'. deserialize_map dk dv ar = Inr (None, ar') \<and> unread ar' = rest"
proof -
  note b = archivable.des_reads [OF assms(1)] archivable.des_reads [OF assms(2)]
  obtain ar1 where 1: "deserialize_size ar = Inr (Some 2, ar1)" "archive_ok ar1"
      "unread ar1 = map Some (ek k) @ map Some (ev v @ ek k @ ev w) @ rest"
    using size_ar.des_reads [of ar 2 "map Some (ek k @ ev v @ ek k @ ev w) @ rest"] assms
    by (auto simp: reads_def)
  obtain ar2 where 2: "dk ar1 = Inr (Some k, ar2)" "archive_ok ar2"
      "unread ar2 = map Some (ev v) @ map Some (ek k @ ev w) @ rest"
    using b(1) [OF 1(2) assms(3) 1(3)] by (auto simp: reads_def)
  obtain ar3 where 3: "dv ar2 = Inr (Some v, ar3)" "archive_ok ar3"
      "unread ar3 = map Some (ek k) @ map Some (ev w) @ rest"
    using b(2) [OF 2(2) assms(4) 2(3)] by (auto simp: reads_def)
  obtain ar4 where 4: "dk ar3 = Inr (Some k, ar4)" "archive_ok ar4" "unread ar4 = map Some (ev w) @ rest"
    using b(1) [OF 3(2) assms(3) 3(3)] by (auto simp: reads_def)
  obtain ar5 where 5: "dv ar4 = Inr (Some w, ar5)" "unread ar5 = rest"
    using b(2) [OF 4(2) assms(5) 4(3)] by (auto simp: reads_def)
  show ?thesis
    using 1 2 3 4 5 by (simp add: deserialize_map_def or_fail_def numeral_2_eq_2)
qed

definition dup_archive :: marchive where
  "dup_archive = \<lparr>is_msg = False, default_malloc = True, del = No_delete, null_buffer = False,
     buf = map Some (size_bytes 2 @ word_bytes (5 :: 64 word) @ word_bytes (6 :: 64 word) @
       word_bytes (5 :: 64 word) @ word_bytes (7 :: 64 word)), cursor = 0, fin = 40\<rparr>"

theorem deserialize_map_duplicate_witness:
  "\<exists>ar'. deserialize_map (deserialize_word :: 64 word deserializer) (deserialize_word :: 64 word deserializer) dup_archive
     = Inr (None, ar') \<and> unread ar' = []"
  by (rule deserialize_map_duplicate [OF u64_ar.archivable_axioms u64_ar.archivable_axioms, where k = 5 and v = 6 and w = 7])
    (simp_all add: dup_archive_def archive_ok_def capacity_def unread_def size_bytes_def length_word_bytes)

end
