(* ===== verification/Master_Tree.thy ===== *)
theory Master_Tree
  imports Prpc_Prelude "HOL-Library.AList" "HOL-Library.List_Lexorder" "HOL-Library.Char_ord"
begin

text \<open>
  The master of \<open>src/rpc/Master.h\<close> and \<open>src/rpc/Master.cpp\<close>: a tree of named nodes, some of them
  owned by a client connection and removed with it, and watchers that are told of every change.

  A socket is a number. \<open>std::unordered_map\<close> is an association list, so that the order in which
  \<open>disconnect_clear_data\<close> collects paths is the order of the list; \<open>std::set<std::string>\<close> is a set of
  strings, enumerated in the order of \<open>std::string\<close> comparison. A request is already decoded from its
  archive; the messages that would be sent are appended to \<open>outbox\<close>. A failed \<open>SCHECK\<close> is
  \<open>Inl Check_failed\<close>, and \<open>_gen_id[parent]++\<close> at the largest \<open>int\<close> is \<open>Inl Overflow\<close>.
\<close>

section \<open>Paths\<close>

abbreviation slash :: char where "slash \<equiv> CHR ''/''"

fun slashes_ok :: "string \<Rightarrow> bool" where
  "slashes_ok [] = True"
| "slashes_ok (c # cs) = (if c = slash then cs \<noteq> [] \<and> hd cs \<noteq> slash \<and> slashes_ok cs else slashes_ok cs)"

definition master_check_valid_path :: "string \<Rightarrow> bool" where
  "master_check_valid_path path =
     (if path = [] then False else if hd path \<noteq> slash then False else slashes_ok path)"

text \<open>\<open>find_last_of('/')\<close> and the two substrings around it; without a slash both are the whole string.\<close>

definition path_key :: "string \<Rightarrow> string" where
  "path_key path = rev (takeWhile (\<lambda>c. c \<noteq> slash) (rev path))"

definition path_parent :: "string \<Rightarrow> string" where
  "path_parent path =
     (if slash \<in> set path then rev (tl (dropWhile (\<lambda>c. c \<noteq> slash) (rev path))) else path)"

section \<open>State\<close>

datatype master_status = OK | NODE_FAILED | PATH_FAILED | DISCONNECTED | ERROR

record master_node =
  owner :: "nat option"
  node_value :: string
  sub :: "string set"

datatype reply =
    Status master_status
  | Status_key master_status string
  | Status_value master_status string
  | Status_children master_status "string list"
  | No_reply_body

datatype message = Response reply | Notify string

record master =
  gen_id :: "(string \<times> int) list"
  tree :: "(string \<times> master_node) list"
  watchers :: "nat list"
  sockets :: "nat list"
  exit_requested :: bool
  outbox :: "(nat \<times> message) list"

datatype master_req =
    MASTER_GEN string string bool
  | MASTER_ADD string string bool
  | MASTER_DEL string
  | MASTER_GET string
  | MASTER_SET string string
  | MASTER_SUB string
  | MASTER_EXIT
  | MASTER_CLIENT_FINALIZE
  | MASTER_UNKNOWN

definition master_new :: master where
  "master_new = \<lparr>gen_id = [], tree = [], watchers = [], sockets = [], exit_requested = False, outbox = []\<rparr>"

definition get_node :: "string \<Rightarrow> master \<Rightarrow> master_node option" where
  "get_node path m = map_of (tree m) path"

definition put_node :: "string \<Rightarrow> master_node \<Rightarrow> master \<Rightarrow> master" where
  "put_node path n m = m\<lparr>tree := AList.update path n (tree m)\<rparr>"

definition erase_node :: "string \<Rightarrow> master \<Rightarrow> master" where
  "erase_node path m = m\<lparr>tree := AList.delete path (tree m)\<rparr>"

definition empty_node :: master_node where
  "empty_node = \<lparr>owner = None, node_value = [], sub = {}\<rparr>"

section \<open>Operations\<close>

definition notify_watchers :: "string \<Rightarrow> master \<Rightarrow> master" where
  "notify_watchers path m = m\<lparr>outbox := outbox m @ map (\<lambda>w. (w, Notify path)) (watchers m)\<rparr>"

text \<open>\<open>SCHECK(parent.sub.insert(key).second)\<close> and \<open>SCHECK(parent.sub.erase(key))\<close>.\<close>

definition insert_sub :: "string \<Rightarrow> string \<Rightarrow> master \<Rightarrow> master res" where
  "insert_sub parent key m =
     (case get_node parent m of
        None \<Rightarrow> Inl Check_failed
      | Some n \<Rightarrow> rbind (scheck (key \<notin> sub n)) (\<lambda>_. Inr (put_node parent (n\<lparr>sub := insert key (sub n)\<rparr>) m)))"

definition erase_sub :: "string \<Rightarrow> string \<Rightarrow> master \<Rightarrow> master res" where
  "erase_sub parent key m =
     (case get_node parent m of
        None \<Rightarrow> Inl Check_failed
      | Some n \<Rightarrow> rbind (scheck (key \<in> sub n)) (\<lambda>_. Inr (put_node parent (n\<lparr>sub := sub n - {key}\<rparr>) m)))"

definition dec_digit :: "nat \<Rightarrow> char" where
  "dec_digit n = ''0123456789'' ! (n mod 10)"

fun dec_string :: "nat \<Rightarrow> string" where
  "dec_string n = (if n < 10 then [dec_digit n] else dec_string (n div 10) @ [dec_digit n])"

definition to_string :: "int \<Rightarrow> string" where
  "to_string i = (if i < 0 then CHR ''-'' # dec_string (nat (- i)) else dec_string (nat i))"

function pad_key :: "string \<Rightarrow> string" where
  "pad_key key = (if length key < 10 then pad_key (CHR ''0'' # key) else key)"
  by pat_completeness auto

definition int_max :: int where "int_max = 2147483647"

definition bump_gen_id :: "string \<Rightarrow> master \<Rightarrow> (int \<times> master) res" where
  "bump_gen_id parent m =
     (let c = (case map_of (gen_id m) parent of None \<Rightarrow> 0 | Some c \<Rightarrow> c)
      in if c = int_max then Inl Overflow
         else Inr (c, m\<lparr>gen_id := AList.update parent (c + 1) (gen_id m)\<rparr>))"

definition master_gen :: "nat \<Rightarrow> string \<Rightarrow> string \<Rightarrow> bool \<Rightarrow> master \<Rightarrow> (reply \<times> master) res" where
  "master_gen sock parent val ephemeral m =
     (if \<not> master_check_valid_path parent then Inr (Status ERROR, m)
      else if get_node parent m = None \<or> owner (the (get_node parent m)) \<noteq> None then Inr (Status NODE_FAILED, m)
      else
        rbind (bump_gen_id parent m) (\<lambda>(c, m1).
          let key = CHR ''_'' # pad_key (to_string c);
              path = parent @ [slash] @ key
          in if length key > 11 then Inr (Status ERROR, m1)
             else if get_node path m1 \<noteq> None then Inr (Status PATH_FAILED, m1)
             else
               rbind (insert_sub parent key
                 (put_node path \<lparr>owner = (if ephemeral then Some sock else None), node_value = val, sub = {}\<rparr> m1))
                 (\<lambda>m2. Inr (Status_key OK key, notify_watchers path m2))))"

definition master_add :: "nat \<Rightarrow> string \<Rightarrow> string \<Rightarrow> bool \<Rightarrow> master \<Rightarrow> (reply \<times> master) res" where
  "master_add sock path val ephemeral m =
     (if \<not> master_check_valid_path path then Inr (Status ERROR, m)
      else
        let key = path_key path; parent = path_parent path
        in if get_node parent m = None \<or> owner (the (get_node parent m)) \<noteq> None then Inr (Status PATH_FAILED, m)
           else if get_node path m \<noteq> None then Inr (Status NODE_FAILED, m)
           else
             rbind (insert_sub parent key
               (put_node path \<lparr>owner = (if ephemeral then Some sock else None), node_value = val, sub = {}\<rparr> m))
               (\<lambda>m1. Inr (Status OK, notify_watchers path m1)))"

definition master_del :: "string \<Rightarrow> master \<Rightarrow> (reply \<times> master) res" where
  "master_del path m =
     (if \<not> master_check_valid_path path then Inr (Status ERROR, m)
      else
        let key = path_key path; parent = path_parent path
        in case get_node path m of
             None \<Rightarrow> Inr (Status NODE_FAILED, m)
           | Some n \<Rightarrow>
               if sub n \<noteq> {} then Inr (Status PATH_FAILED, m)
               else
                 let m1 = erase_node path m;
                     m2 = m1\<lparr>gen_id := AList.delete path (gen_id m1)\<rparr>
                 in rbind (erase_sub parent key m2) (\<lambda>m3. Inr (Status OK, notify_watchers path m3)))"

definition master_set :: "string \<Rightarrow> string \<Rightarrow> master \<Rightarrow> (reply \<times> master) res" where
  "master_set path val m =
     (if \<not> master_check_valid_path path then Inr (Status ERROR, m)
      else case get_node path m of
             None \<Rightarrow> Inr (Status NODE_FAILED, m)
           | Some n \<Rightarrow> Inr (Status OK, notify_watchers path (put_node path (n\<lparr>node_value := val\<rparr>) m)))"

definition master_get :: "string \<Rightarrow> master \<Rightarrow> (reply \<times> master) res" where
  "master_get path m =
     (if \<not> master_check_valid_path path then Inr (Status ERROR, m)
      else case get_node path m of
             None \<Rightarrow> Inr (Status NODE_FAILED, m)
           | Some n \<Rightarrow> Inr (Status_value OK (node_value n), m))"

definition master_sub :: "string \<Rightarrow> master \<Rightarrow> (reply \<times> master) res" where
  "master_sub path m =
     (if \<not> master_check_valid_path path then Inr (Status ERROR, m)
      else case get_node path m of
             None \<Rightarrow> Inr (Status NODE_FAILED, m)
           | Some n \<Rightarrow> Inr (Status_children OK (sorted_list_of_set (sub n)), m))"

fun clear_paths :: "string list \<Rightarrow> master \<Rightarrow> master res" where
  "clear_paths [] m = Inr m"
| "clear_paths (path # temp) m =
     rbind (scheck (get_node path m \<noteq> None)) (\<lambda>_.
     rbind (erase_sub (path_parent path) (path_key path) (erase_node path m)) (\<lambda>m1.
     clear_paths temp (notify_watchers path m1)))"

definition disconnect_clear_data :: "nat \<Rightarrow> master \<Rightarrow> master res" where
  "disconnect_clear_data sock m =
     clear_paths (map fst (filter (\<lambda>(p, n). owner n = Some sock) (tree m))) m"

text \<open>\<open>_path[""]\<close> creates the root when it is missing.\<close>

definition ensure_root :: "master \<Rightarrow> master" where
  "ensure_root m = (if get_node [] m = None then put_node [] empty_node m else m)"

definition handle_op :: "nat \<Rightarrow> master_req \<Rightarrow> master \<Rightarrow> (reply \<times> master) res" where
  "handle_op sock req m0 =
     (let m = ensure_root m0
      in case req of
           MASTER_GEN parent val ephemeral \<Rightarrow> master_gen sock parent val ephemeral m
         | MASTER_ADD path val ephemeral \<Rightarrow> master_add sock path val ephemeral m
         | MASTER_DEL path \<Rightarrow> master_del path m
         | MASTER_SET path val \<Rightarrow> master_set path val m
         | MASTER_GET path \<Rightarrow> master_get path m
         | MASTER_SUB path \<Rightarrow> master_sub path m
         | MASTER_EXIT \<Rightarrow> Inr (No_reply_body, m\<lparr>exit_requested := True\<rparr>)
         | MASTER_CLIENT_FINALIZE \<Rightarrow>
             rbind (disconnect_clear_data sock m) (\<lambda>m1.
               Inr (No_reply_body, m1\<lparr>watchers := filter (\<lambda>w. w \<noteq> sock) (watchers m1)\<rparr>))
         | MASTER_UNKNOWN \<Rightarrow> Inr (No_reply_body, m))"

text \<open>The three events \<open>serving\<close> reacts to, and the condition under which its loop ends.\<close>

definition serve_accept :: "nat \<Rightarrow> master \<Rightarrow> master" where
  "serve_accept sock m = m\<lparr>watchers := sock # watchers m, sockets := sock # sockets m\<rparr>"

definition serve_request :: "nat \<Rightarrow> master_req \<Rightarrow> master \<Rightarrow> master res" where
  "serve_request sock req m =
     rbind (scheck (sock \<in> set (sockets m))) (\<lambda>_.
     rbind (handle_op sock req m) (\<lambda>(r, m1).
       Inr (m1\<lparr>outbox := outbox m1 @ [(sock, Response r)]\<rparr>)))"

definition serve_close :: "nat \<Rightarrow> master \<Rightarrow> master res" where
  "serve_close sock m =
     rbind (scheck (sock \<in> set (sockets m))) (\<lambda>_.
     rbind (disconnect_clear_data sock m) (\<lambda>m1.
       Inr (m1\<lparr>watchers := filter (\<lambda>w. w \<noteq> sock) (watchers m1),
               sockets := filter (\<lambda>w. w \<noteq> sock) (sockets m1)\<rparr>)))"

definition serve_done :: "master \<Rightarrow> bool" where
  "serve_done m \<longleftrightarrow> exit_requested m \<and> sockets m = []"

inductive master_step :: "master \<Rightarrow> master \<Rightarrow> bool" where
  accept: "sock \<notin> set (sockets m) \<Longrightarrow> master_step m (serve_accept sock m)"
| request: "sock \<in> set (sockets m) \<Longrightarrow> serve_request sock req m = Inr m' \<Longrightarrow> master_step m m'"
| close: "sock \<in> set (sockets m) \<Longrightarrow> serve_close sock m = Inr m' \<Longrightarrow> master_step m m'"

termination pad_key
  by (relation "measure (\<lambda>key. 10 - length key)") auto

declare pad_key.simps [simp del] dec_string.simps [simp del]

section \<open>Path arithmetic\<close>

lemma path_split: "slash \<in> set p \<Longrightarrow> p = path_parent p @ [slash] @ path_key p"
proof -
  assume a: "slash \<in> set p"
  let ?P = "\<lambda>c. c \<noteq> slash"
  have "dropWhile ?P (rev p) \<noteq> []" using a by auto
  then have hd: "hd (dropWhile ?P (rev p)) = slash" using hd_dropWhile [of ?P "rev p"] by blast
  have "rev p = takeWhile ?P (rev p) @ dropWhile ?P (rev p)" by simp
  also have "dropWhile ?P (rev p) = slash # tl (dropWhile ?P (rev p))"
    using \<open>dropWhile ?P (rev p) \<noteq> []\<close> hd by (metis list.collapse)
  finally have "rev (rev p) = rev (takeWhile ?P (rev p) @ slash # tl (dropWhile ?P (rev p)))" by metis
  then show ?thesis using a by (simp add: path_parent_def path_key_def)
qed

lemma path_key_no_slash: "slash \<notin> set (path_key p)"
  by (auto simp: path_key_def dest: set_takeWhileD)

lemma path_join:
  assumes "slash \<notin> set k"
  shows "path_parent (q @ slash # k) = q" "path_key (q @ slash # k) = k"
proof -
  have t: "takeWhile (\<lambda>c. c \<noteq> slash) (rev k @ slash # rev q) = rev k"
    "dropWhile (\<lambda>c. c \<noteq> slash) (rev k @ slash # rev q) = slash # rev q"
    using assms by (induction k rule: rev_induct) auto
  then show "path_parent (q @ slash # k) = q" "path_key (q @ slash # k) = k"
    by (simp_all add: path_parent_def path_key_def)
qed

lemma valid_path_slash: "master_check_valid_path p \<Longrightarrow> slash \<in> set p"
  by (cases p) (auto simp: master_check_valid_path_def split: if_splits)

lemma slashes_ok_no_slash: "slash \<notin> set k \<Longrightarrow> slashes_ok k"
  by (induction k) auto

lemma slashes_ok_join: "slashes_ok q \<Longrightarrow> k \<noteq> [] \<Longrightarrow> slash \<notin> set k \<Longrightarrow> slashes_ok (q @ slash # k)"
proof (induction q)
  case Nil
  then show ?case by (cases k) (auto simp: slashes_ok_no_slash)
next
  case (Cons c q)
  then show ?case by (cases q) (auto split: if_splits)
qed

lemma slashes_ok_key: "slashes_ok (q @ slash # k) \<Longrightarrow> k \<noteq> []"
  by (induction q) (auto split: if_splits)

lemma valid_path_join:
  assumes "q = [] \<or> master_check_valid_path q" "k \<noteq> []" "slash \<notin> set k"
  shows "master_check_valid_path (q @ slash # k)"
proof -
  have "slashes_ok q" "q \<noteq> [] \<Longrightarrow> hd q = slash"
    using assms(1) by (auto simp: master_check_valid_path_def split: if_splits)
  then show ?thesis
    using slashes_ok_join [OF _ assms(2,3), of q] by (cases q) (auto simp: master_check_valid_path_def)
qed

lemma valid_path_key: "master_check_valid_path p \<Longrightarrow> path_key p \<noteq> []"
  using path_split [OF valid_path_slash, of p] slashes_ok_key [of "path_parent p" "path_key p"]
  by (auto simp: master_check_valid_path_def split: if_splits)

lemma path_parent_neq: "slash \<in> set p \<Longrightarrow> path_parent p \<noteq> p"
  using path_split [of p] by (metis append_Cons append_self_conv list.distinct(1))

section \<open>The tree invariant\<close>

definition node_ok :: "(string \<Rightarrow> master_node option) \<Rightarrow> string \<Rightarrow> bool" where
  "node_ok f p \<longleftrightarrow> p = [] \<or> (master_check_valid_path p \<and>
     (\<exists>pn. f (path_parent p) = Some pn \<and> owner pn = None \<and> path_key p \<in> sub pn))"

definition tree_ok :: "(string \<Rightarrow> master_node option) \<Rightarrow> bool" where
  "tree_ok f \<longleftrightarrow>
     (\<forall>n. f [] = Some n \<longrightarrow> owner n = None) \<and>
     (\<forall>p. f p \<noteq> None \<longrightarrow> node_ok f p) \<and>
     (\<forall>p n k. f p = Some n \<longrightarrow> k \<in> sub n \<longrightarrow> k \<noteq> [] \<and> slash \<notin> set k \<and> f (p @ slash # k) \<noteq> None) \<and>
     (\<forall>p n. f p = Some n \<longrightarrow> finite (sub n))"

definition owners_ok :: "(string \<Rightarrow> master_node option) \<Rightarrow> nat set \<Rightarrow> bool" where
  "owners_ok f S \<longleftrightarrow> (\<forall>p n s. f p = Some n \<longrightarrow> owner n = Some s \<longrightarrow> s \<in> S)"

definition gen_ok :: "(string \<Rightarrow> int option) \<Rightarrow> (string \<Rightarrow> master_node option) \<Rightarrow> bool" where
  "gen_ok g f \<longleftrightarrow> (\<forall>p c. g p = Some c \<longrightarrow> 0 < c \<and> c \<le> int_max \<and> (\<exists>n. f p = Some n \<and> owner n = None))"

definition nodes :: "master \<Rightarrow> string \<Rightarrow> master_node option" where
  "nodes m p = get_node p m"

definition master_inv :: "master \<Rightarrow> bool" where
  "master_inv m \<longleftrightarrow> distinct (map fst (tree m)) \<and> distinct (map fst (gen_id m)) \<and> tree_ok (nodes m) \<and>
     owners_ok (nodes m) (set (sockets m)) \<and> gen_ok (map_of (gen_id m)) (nodes m)"

lemma nodes_put: "nodes (put_node p n m) = (nodes m)(p \<mapsto> n)"
  by (auto simp: nodes_def get_node_def put_node_def update_conv')

lemma nodes_erase: "nodes (erase_node p m) = (nodes m)(p := None)"
  by (auto simp: nodes_def get_node_def erase_node_def delete_conv')

lemma get_nodes: "get_node p m = nodes m p"
  by (simp add: nodes_def)

lemma nodes_frame [simp]:
  "nodes (m\<lparr>outbox := b\<rparr>) = nodes m" "nodes (m\<lparr>watchers := w\<rparr>) = nodes m"
  "nodes (m\<lparr>gen_id := g\<rparr>) = nodes m" "nodes (m\<lparr>sockets := ss\<rparr>) = nodes m"
  "nodes (m\<lparr>exit_requested := e\<rparr>) = nodes m" "nodes (notify_watchers p m) = nodes m"
  by (auto simp: nodes_def get_node_def notify_watchers_def)

text \<open>Changes of the tree on the level of the map.\<close>

definition add_child :: "string \<Rightarrow> string \<Rightarrow> master_node \<Rightarrow> (string \<Rightarrow> master_node option) \<Rightarrow> string \<Rightarrow> master_node option" where
  "add_child q k n f = f(q @ slash # k \<mapsto> n, q \<mapsto> (the (f q))\<lparr>sub := insert k (sub (the (f q)))\<rparr>)"

definition del_child :: "string \<Rightarrow> string \<Rightarrow> (string \<Rightarrow> master_node option) \<Rightarrow> string \<Rightarrow> master_node option" where
  "del_child q k f = f(q @ slash # k := None, q \<mapsto> (the (f q))\<lparr>sub := sub (the (f q)) - {k}\<rparr>)"

lemma node_ok_Some: "tree_ok f \<Longrightarrow> f p = Some n \<Longrightarrow> node_ok f p"
  by (simp add: tree_ok_def)

lemma tree_ok_child:
  assumes "tree_ok f" "f p = Some n" "k \<in> sub n"
  shows "k \<noteq> []" "slash \<notin> set k" "f (p @ slash # k) \<noteq> None" "owner n = None"
proof -
  show k: "k \<noteq> []" "slash \<notin> set k" "f (p @ slash # k) \<noteq> None"
    using assms unfolding tree_ok_def by blast+
  then have "node_ok f (p @ slash # k)" using assms(1) unfolding tree_ok_def by blast
  then show "owner n = None" using assms(2) k(2) by (auto simp: node_ok_def path_join)
qed

lemma tree_ok_key_in_sub:
  assumes "tree_ok f" "f (q @ slash # k) \<noteq> None" "slash \<notin> set k"
  shows "\<exists>pn. f q = Some pn \<and> owner pn = None \<and> k \<in> sub pn"
  using assms unfolding tree_ok_def node_ok_def by (metis append_is_Nil_conv list.distinct(1) path_join)

lemma tree_ok_add:
  assumes ok: "tree_ok f" and q: "f q = Some pn" "owner pn = None"
    and k: "k \<noteq> []" "slash \<notin> set k" and new: "f (q @ slash # k) = None" and n: "sub n = {}"
  shows "tree_ok (add_child q k n f)"
proof -
  let ?p = "q @ slash # k" and ?g = "add_child q k n f"
  have qp: "q \<noteq> ?p" by simp
  have g: "?g r = (if r = q then Some (pn\<lparr>sub := insert k (sub pn)\<rparr>) else if r = ?p then Some n else f r)" for r
    using q by (simp add: add_child_def)
  have vq: "q = [] \<or> master_check_valid_path q" using ok q by (auto simp: tree_ok_def node_ok_def)
  have no: "node_ok ?g r" if "?g r \<noteq> None" for r
  proof (cases "r = ?p")
    case True
    then show ?thesis using valid_path_join [OF vq k] k q qp g by (auto simp: node_ok_def path_join)
  next
    case False
    then have "node_ok f r" using that g ok q by (auto simp: tree_ok_def split: if_splits)
    then show ?thesis using g q new by (auto simp: node_ok_def)
  qed
  show ?thesis
    unfolding tree_ok_def
  proof (intro conjI allI impI)
    fix n' assume "?g [] = Some n'"
    then show "owner n' = None" using ok q g by (auto simp: tree_ok_def split: if_splits)
  next
    fix r assume "?g r \<noteq> None" then show "node_ok ?g r" by (rule no)
  next
    fix r n' k' assume r: "?g r = Some n'" "k' \<in> sub n'"
    have "k' = k \<and> r = q \<or> (\<exists>n''. f r = Some n'' \<and> k' \<in> sub n'')"
      using r g q n by (auto split: if_splits)
    then show "k' \<noteq> []" "slash \<notin> set k'" "?g (r @ slash # k') \<noteq> None"
      using k g tree_ok_child [OF ok] by auto
  next
    fix r n' assume "?g r = Some n'"
    then show "finite (sub n')" using ok q n g by (auto simp: tree_ok_def split: if_splits)
  qed
qed

lemma tree_ok_del:
  assumes ok: "tree_ok f" and p: "f (q @ slash # k) = Some n" and k: "slash \<notin> set k" and leaf: "sub n = {}"
  shows "tree_ok (del_child q k f)"
proof -
  let ?p = "q @ slash # k" and ?g = "del_child q k f"
  obtain pn where q: "f q = Some pn" "owner pn = None" "k \<in> sub pn"
    using tree_ok_key_in_sub [OF ok _ k] p by blast
  have g: "?g r = (if r = q then Some (pn\<lparr>sub := sub pn - {k}\<rparr>) else if r = ?p then None else f r)" for r
    using q by (simp add: del_child_def)
  have no: "node_ok ?g r" if r: "?g r \<noteq> None" for r
  proof -
    have rp: "r \<noteq> ?p" and fr: "f r \<noteq> None" using r g q by (auto split: if_splits)
    then have nf: "node_ok f r" using ok by (simp add: tree_ok_def)
    show ?thesis
    proof (cases "r = []")
      case False
      then have v: "master_check_valid_path r" using nf by (simp add: node_ok_def)
      obtain rn where rn: "f (path_parent r) = Some rn" "owner rn = None" "path_key r \<in> sub rn"
        using nf False by (auto simp: node_ok_def)
      have "path_parent r \<noteq> ?p" using rn p leaf by auto
      moreover have "path_parent r = q \<Longrightarrow> path_key r \<noteq> k"
        using path_split [OF valid_path_slash [OF v]] rp by auto
      ultimately show ?thesis using g rn q v by (auto simp: node_ok_def)
    qed (simp add: node_ok_def)
  qed
  show ?thesis
    unfolding tree_ok_def
  proof (intro conjI allI impI)
    fix n' assume "?g [] = Some n'"
    then show "owner n' = None" using ok q g by (auto simp: tree_ok_def split: if_splits)
  next
    fix r assume "?g r \<noteq> None" then show "node_ok ?g r" by (rule no)
  next
    fix r n' k' assume r: "?g r = Some n'" "k' \<in> sub n'"
    then obtain n'' where n'': "f r = Some n''" "k' \<in> sub n''" "r = q \<Longrightarrow> k' \<noteq> k"
      using g q by (auto split: if_splits)
    note c = tree_ok_child [OF ok n''(1,2)]
    have "r @ slash # k' \<noteq> ?p" using n''(3) path_join [OF c(2), of r] path_join [OF k, of q] by metis
    then show "k' \<noteq> []" "slash \<notin> set k'" "?g (r @ slash # k') \<noteq> None"
      using c g by auto
  next
    fix r n' assume "?g r = Some n'"
    then show "finite (sub n')" using ok q g by (auto simp: tree_ok_def split: if_splits)
  qed
qed

lemma tree_ok_set_value:
  assumes ok: "tree_ok f" and p: "f p = Some n" "owner n' = owner n" "sub n' = sub n"
  shows "tree_ok (f(p \<mapsto> n'))"
proof -
  let ?g = "f(p \<mapsto> n')"
  have old: "\<exists>m0. f r = Some m0 \<and> owner m0 = owner m1 \<and> sub m0 = sub m1" if "?g r = Some m1" for r m1
    using that p by (auto split: if_splits)
  have new: "\<exists>m1. ?g r = Some m1 \<and> owner m1 = owner m0 \<and> sub m1 = sub m0" if "f r = Some m0" for r m0
    using that p by (cases "r = p") auto
  show ?thesis
    unfolding tree_ok_def
  proof (intro conjI allI impI)
    fix m1 assume "?g [] = Some m1"
    then show "owner m1 = None" using old ok unfolding tree_ok_def by metis
  next
    fix r assume "?g r \<noteq> None"
    then have "node_ok f r" using old ok unfolding tree_ok_def by blast
    then show "node_ok ?g r" unfolding node_ok_def using new by metis
  next
    fix r m1 k assume "?g r = Some m1" "k \<in> sub m1"
    then obtain m0 where "f r = Some m0" "k \<in> sub m0" using old by metis
    from tree_ok_child [OF ok this] show "k \<noteq> []" "slash \<notin> set k" "?g (r @ slash # k) \<noteq> None" by auto
  next
    fix r m1 assume "?g r = Some m1"
    then show "finite (sub m1)" using old ok unfolding tree_ok_def by metis
  qed
qed

lemma tree_ok_root: "tree_ok f \<Longrightarrow> f [] = None \<Longrightarrow> tree_ok (f([] \<mapsto> empty_node))"
  unfolding tree_ok_def node_ok_def by (auto simp: empty_node_def)

section \<open>Every operation keeps the invariant and no check fails\<close>

text \<open>The shape of the results: the checks inside \<open>insert_sub\<close> and \<open>erase_sub\<close> hold in a well-formed tree.\<close>

lemma insert_sub_result:
  assumes ok: "tree_ok (nodes m)" and q: "nodes m q = Some pn" and new: "nodes m (q @ slash # k) = None"
  shows "insert_sub q k (put_node (q @ slash # k) n m) =
    Inr (put_node q (pn\<lparr>sub := insert k (sub pn)\<rparr>) (put_node (q @ slash # k) n m))"
proof -
  have "k \<notin> sub pn" using tree_ok_child(3) [OF ok q] new by blast
  then show ?thesis using q by (auto simp: insert_sub_def get_nodes nodes_put)
qed

lemma nodes_insert:
  assumes "nodes m q = Some pn"
  shows "nodes (put_node q (pn\<lparr>sub := insert k (sub pn)\<rparr>) (put_node (q @ slash # k) n m)) =
    add_child q k n (nodes m)"
  using assms by (auto simp: nodes_put add_child_def)

lemma erase_sub_result:
  assumes ok: "tree_ok (nodes m)" and p: "nodes m (q @ slash # k) \<noteq> None" and k: "slash \<notin> set k"
  shows "\<exists>m'. erase_sub q k (erase_node (q @ slash # k) m) = Inr m' \<and> nodes m' = del_child q k (nodes m) \<and>
    gen_id m' = gen_id m \<and> sockets m' = sockets m \<and> watchers m' = watchers m \<and>
    exit_requested m' = exit_requested m \<and> outbox m' = outbox m \<and>
    (distinct (map fst (tree m)) \<longrightarrow> distinct (map fst (tree m')))"
proof -
  obtain pn where q: "nodes m q = Some pn" "k \<in> sub pn" using tree_ok_key_in_sub [OF ok p k] by blast
  then show ?thesis
    by (auto simp: erase_sub_def get_nodes nodes_erase nodes_put del_child_def)
      (auto simp: put_node_def erase_node_def distinct_update distinct_delete)
qed

lemma owners_ok_add:
  assumes "owners_ok f S" "f q = Some pn" "\<And>s. owner n = Some s \<Longrightarrow> s \<in> S"
  shows "owners_ok (add_child q k n f) S"
  using assms unfolding owners_ok_def add_child_def by auto

lemma owners_ok_del: "owners_ok f S \<Longrightarrow> f q = Some pn \<Longrightarrow> owners_ok (del_child q k f) S"
  unfolding owners_ok_def del_child_def by auto

lemma gen_ok_add:
  assumes "gen_ok g f" "f q = Some pn" "owner pn = None" "f (q @ slash # k) = None"
  shows "gen_ok g (add_child q k n f)"
  using assms unfolding gen_ok_def add_child_def by fastforce

lemma gen_ok_del:
  assumes "gen_ok g f" "f q = Some pn" "owner pn = None"
  shows "gen_ok (g(q @ slash # k := None)) (del_child q k f)"
  unfolding gen_ok_def
proof (intro allI impI)
  fix p c assume "(g(q @ slash # k := None)) p = Some c"
  then have p: "p \<noteq> q @ slash # k" "g p = Some c" by (auto split: if_splits)
  then have "0 < c" "c \<le> int_max" "\<exists>n. f p = Some n \<and> owner n = None"
    using assms(1) unfolding gen_ok_def by blast+
  then show "0 < c \<and> c \<le> int_max \<and> (\<exists>n. del_child q k f p = Some n \<and> owner n = None)"
    using p assms(2,3) by (auto simp: del_child_def)
qed

lemma distinct_put: "distinct (map fst (tree m)) \<Longrightarrow> distinct (map fst (tree (put_node p n m)))"
  by (simp add: put_node_def distinct_update)

lemma frame_put [simp]:
  "gen_id (put_node p n m) = gen_id m" "sockets (put_node p n m) = sockets m"
  "watchers (put_node p n m) = watchers m" "outbox (put_node p n m) = outbox m"
  "gen_id (notify_watchers p m) = gen_id m" "sockets (notify_watchers p m) = sockets m"
  "tree (notify_watchers p m) = tree m" "watchers (notify_watchers p m) = watchers m"
  by (simp_all add: put_node_def notify_watchers_def)

text \<open>Adding a child, as \<open>master_add\<close> and \<open>master_gen\<close> do.\<close>

lemma add_child_step:
  assumes inv: "master_inv m" and q: "nodes m q = Some pn" "owner pn = None"
    and k: "k \<noteq> []" "slash \<notin> set k" and new: "nodes m (q @ slash # k) = None"
    and s: "\<And>s. owner n = Some s \<Longrightarrow> s \<in> set (sockets m)" and n: "sub n = {}"
  shows "\<exists>m'. insert_sub q k (put_node (q @ slash # k) n m) = Inr m' \<and>
    nodes m' = add_child q k n (nodes m) \<and> master_inv (notify_watchers p m') \<and>
    watchers m' = watchers m \<and> outbox m' = outbox m \<and> sockets m' = sockets m \<and> gen_id m' = gen_id m"
proof -
  let ?m = "put_node q (pn\<lparr>sub := insert k (sub pn)\<rparr>) (put_node (q @ slash # k) n m)"
  have ok: "tree_ok (nodes m)" using inv by (simp add: master_inv_def)
  have i: "insert_sub q k (put_node (q @ slash # k) n m) = Inr ?m"
    by (rule insert_sub_result [OF ok q(1) new])
  have nd: "nodes ?m = add_child q k n (nodes m)" by (rule nodes_insert [OF q(1)])
  have "master_inv (notify_watchers p ?m)"
    unfolding master_inv_def nodes_frame nd
    using inv tree_ok_add [OF ok q k new n] owners_ok_add [of "nodes m" "set (sockets m)", OF _ q(1) s]
      gen_ok_add [OF _ q new]
    by (auto simp: master_inv_def distinct_put)
  then show ?thesis using i nd by auto
qed

lemma del_child_step:
  assumes inv: "master_inv m" and p: "nodes m (q @ slash # k) = Some n" and k: "slash \<notin> set k" and leaf: "sub n = {}"
  shows "\<exists>m'. erase_sub q k (erase_node (q @ slash # k) m) = Inr m' \<and> nodes m' = del_child q k (nodes m) \<and>
    gen_id m' = gen_id m \<and> sockets m' = sockets m \<and> watchers m' = watchers m \<and>
    exit_requested m' = exit_requested m \<and> outbox m' = outbox m \<and>
    master_inv (m'\<lparr>gen_id := AList.delete (q @ slash # k) (gen_id m')\<rparr>) \<and>
    (owner n \<noteq> None \<longrightarrow> master_inv m')"
proof -
  have ok: "tree_ok (nodes m)" using inv by (simp add: master_inv_def)
  have p': "nodes m (q @ slash # k) \<noteq> None" using p by simp
  obtain pn where q: "nodes m q = Some pn" "owner pn = None" "k \<in> sub pn"
    using tree_ok_key_in_sub [OF ok p' k] by blast
  obtain m' where m': "erase_sub q k (erase_node (q @ slash # k) m) = Inr m'" "nodes m' = del_child q k (nodes m)"
      "gen_id m' = gen_id m" "sockets m' = sockets m" "watchers m' = watchers m"
      "exit_requested m' = exit_requested m" "outbox m' = outbox m"
      "distinct (map fst (tree m)) \<longrightarrow> distinct (map fst (tree m'))"
    using erase_sub_result [OF ok p' k] by blast
  have parts: "tree_ok (nodes m')" "owners_ok (nodes m') (set (sockets m'))" "distinct (map fst (tree m'))"
    using tree_ok_del [OF ok p k leaf] owners_ok_del [where f = "nodes m" and S = "set (sockets m)" and k = k, OF _ q(1)] inv m' by (auto simp: master_inv_def)
  have gen: "gen_ok ((map_of (gen_id m))(q @ slash # k := None)) (nodes m')"
    using gen_ok_del [where f = "nodes m" and g = "map_of (gen_id m)" and k = k, OF _ q(1,2)] inv m'(2) by (simp add: master_inv_def)
  have "gen_ok (map_of (gen_id m)) (nodes m')" if "owner n \<noteq> None"
  proof -
    have "map_of (gen_id m) (q @ slash # k) = None"
    proof (rule ccontr)
      assume "map_of (gen_id m) (q @ slash # k) \<noteq> None"
      then have "\<exists>n. nodes m (q @ slash # k) = Some n \<and> owner n = None"
        using inv unfolding master_inv_def gen_ok_def by blast
      then show False using p that by simp
    qed
    then have "(map_of (gen_id m))(q @ slash # k := None) = map_of (gen_id m)" by auto
    then show ?thesis using gen by simp
  qed
  then show ?thesis
    using m' parts gen inv by (auto simp: master_inv_def delete_conv' distinct_delete)
qed

text \<open>The generated keys.\<close>

lemma dec_digit_mem: "dec_digit n \<in> set ''0123456789''"
  unfolding dec_digit_def by (rule nth_mem) simp

lemma dec_string_digits: "c \<in> set (dec_string n) \<Longrightarrow> c \<in> set ''0123456789''"
proof (induction n rule: dec_string.induct)
  case (1 n)
  have "c = dec_digit n \<or> \<not> n < 10 \<and> c \<in> set (dec_string (n div 10))"
    using 1(2) dec_string.simps [of n] by (auto split: if_splits)
  then show ?case using 1(1) dec_digit_mem [of n] by blast
qed

lemma pad_key_eq: "pad_key k = replicate (10 - length k) (CHR ''0'') @ k"
proof (induction k rule: pad_key.induct)
  case (1 k)
  show ?case
  proof (cases "length k < 10")
    case True
    then have "replicate (10 - length k) (CHR ''0'') = replicate (10 - Suc (length k)) (CHR ''0'') @ [CHR ''0'']"
      by (metis Suc_diff_Suc replicate_Suc replicate_append_same)
    then show ?thesis using True 1 by (subst pad_key.simps) simp
  next
    case False
    then show ?thesis by (subst pad_key.simps) simp
  qed
qed

definition gen_key :: "nat \<Rightarrow> string" where
  "gen_key n = CHR ''_'' # pad_key (to_string (int n))"

lemma gen_key_ok: "gen_key n \<noteq> []" "slash \<notin> set (gen_key n)"
  using dec_string_digits [of slash n]
  by (auto simp: gen_key_def to_string_def pad_key_eq)

text \<open>Adding the root, and bumping the counter.\<close>

lemma ensure_root_inv:
  assumes "master_inv m"
  shows "master_inv (ensure_root m)" "sockets (ensure_root m) = sockets m"
    "nodes (ensure_root m) p = (if p = [] \<and> nodes m [] = None then Some empty_node else nodes m p)"
  using assms tree_ok_root [of "nodes m"]
  by (auto simp: ensure_root_def get_nodes master_inv_def nodes_put distinct_put owners_ok_def gen_ok_def
      empty_node_def)

lemma bump_inv:
  assumes inv: "master_inv m" and q: "nodes m q = Some pn" "owner pn = None"
    and b: "bump_gen_id q m = Inr (c, m')"
  shows "master_inv m'" "0 \<le> c" "c < int_max" "nodes m' = nodes m" "sockets m' = sockets m"
    "gen_id m' = AList.update q (c + 1) (gen_id m)"
proof -
  have c: "c = (case map_of (gen_id m) q of None \<Rightarrow> 0 | Some c \<Rightarrow> c)" "c \<noteq> int_max"
    "m' = m\<lparr>gen_id := AList.update q (c + 1) (gen_id m)\<rparr>"
    using b by (auto simp: bump_gen_id_def Let_def split: if_splits)
  have g: "gen_ok (map_of (gen_id m)) (nodes m)" using inv by (simp add: master_inv_def)
  show r: "0 \<le> c" "c < int_max"
    using c g by (auto simp: gen_ok_def int_max_def split: option.splits) force+
  show "nodes m' = nodes m" "sockets m' = sockets m" "gen_id m' = AList.update q (c + 1) (gen_id m)"
    by (simp_all add: c(3))
  have "gen_ok ((map_of (gen_id m))(q \<mapsto> c + 1)) (nodes m)"
    using g q r by (auto simp: gen_ok_def)
  then show "master_inv m'"
    using inv by (simp add: c(3) master_inv_def distinct_update update_conv')
qed

text \<open>A handler that returns normally and keeps the invariant and the connections.\<close>

definition keeps_inv :: "master \<Rightarrow> (reply \<times> master) res \<Rightarrow> bool" where
  "keeps_inv m r \<longleftrightarrow> (\<exists>rep m'. r = Inr (rep, m') \<and> master_inv m' \<and> sockets m' = sockets m)"

lemma keeps_inv_Inr [simp]: "keeps_inv m (Inr (rep, m')) \<longleftrightarrow> master_inv m' \<and> sockets m' = sockets m"
  by (simp add: keeps_inv_def)

lemma bump_fails: "bump_gen_id q m = Inl f \<Longrightarrow> f = Overflow \<and> map_of (gen_id m) q = Some int_max"
  by (auto simp: bump_gen_id_def Let_def int_max_def split: if_splits option.splits)

lemma master_gen_keeps:
  assumes inv: "master_inv m" and s: "sock \<in> set (sockets m)"
  shows "keeps_inv m (master_gen sock q v e m) \<or>
    master_gen sock q v e m = Inl Overflow \<and> map_of (gen_id m) q = Some int_max"
proof (cases "\<not> master_check_valid_path q \<or> get_node q m = None \<or> owner (the (get_node q m)) \<noteq> None")
  case True
  then show ?thesis using inv by (auto simp: master_gen_def)
next
  case ok: False
  then obtain pn where q: "nodes m q = Some pn" "owner pn = None" by (auto simp: get_nodes)
  show ?thesis
  proof (cases "bump_gen_id q m")
    case (Inl f)
    then show ?thesis using bump_fails [OF Inl] ok by (auto simp: master_gen_def)
  next
    case (Inr cm)
    then obtain c m1 where b: "bump_gen_id q m = Inr (c, m1)" by (cases cm) simp
    note bi = bump_inv [OF inv q b]
    let ?k = "CHR ''_'' # pad_key (to_string c)"
    have k: "?k = gen_key (nat c)" using bi(2) by (simp add: gen_key_def)
    let ?n = "\<lparr>owner = (if e then Some sock else None), node_value = v, sub = {}\<rparr>"
    show ?thesis
    proof (cases "length ?k > 11 \<or> get_node (q @ slash # ?k) m1 \<noteq> None")
      case True
      then show ?thesis using ok b bi by (auto simp: master_gen_def Let_def)
    next
      case f: False
      have "\<exists>m''. insert_sub q ?k (put_node (q @ slash # ?k) ?n m1) = Inr m'' \<and>
        nodes m'' = add_child q ?k ?n (nodes m1) \<and> master_inv (notify_watchers (q @ slash # ?k) m'') \<and>
        watchers m'' = watchers m1 \<and> outbox m'' = outbox m1 \<and> sockets m'' = sockets m1 \<and> gen_id m'' = gen_id m1"
        using add_child_step [OF bi(1), of q pn ?k ?n] q gen_key_ok [of "nat c"] k f s bi
        by (auto simp: get_nodes)
      then show ?thesis
        using ok b f bi by (auto simp: master_gen_def Let_def)
    qed
  qed
qed

lemma master_add_ok:
  fixes v :: string and e :: bool
  assumes inv: "master_inv m" and s: "sock \<in> set (sockets m)" and v: "master_check_valid_path p"
    and q: "nodes m (path_parent p) = Some pn" "owner pn = None" and new: "nodes m p = None"
  defines "n \<equiv> \<lparr>owner = (if e then Some sock else None), node_value = v, sub = {}\<rparr>"
  shows "\<exists>m'. master_add sock p v e m = Inr (Status OK, notify_watchers p m') \<and>
    nodes m' = add_child (path_parent p) (path_key p) n (nodes m) \<and> master_inv (notify_watchers p m') \<and>
    watchers m' = watchers m \<and> outbox m' = outbox m \<and> sockets m' = sockets m \<and> gen_id m' = gen_id m"
proof -
  let ?q = "path_parent p" and ?k = "path_key p"
  have p: "p = ?q @ slash # ?k" using path_split [OF valid_path_slash [OF v]] by simp
  have "nodes m (?q @ slash # ?k) = None" using new p by simp
  then have "\<exists>m''. insert_sub ?q ?k (put_node (?q @ slash # ?k) n m) = Inr m'' \<and>
      nodes m'' = add_child ?q ?k n (nodes m) \<and> master_inv (notify_watchers p m'') \<and>
      watchers m'' = watchers m \<and> outbox m'' = outbox m \<and> sockets m'' = sockets m \<and> gen_id m'' = gen_id m"
    using add_child_step [OF inv q valid_path_key [OF v] path_key_no_slash, of n p] s
    by (auto simp: n_def split: if_splits)
  then show ?thesis
    using v q new p by (auto simp: master_add_def Let_def get_nodes n_def)
qed

lemma master_add_keeps:
  assumes inv: "master_inv m" and s: "sock \<in> set (sockets m)"
  shows "keeps_inv m (master_add sock p v e m)"
proof (cases "master_check_valid_path p \<and> nodes m p = None \<and>
    (\<exists>pn. nodes m (path_parent p) = Some pn \<and> owner pn = None)")
  case True
  then show ?thesis using master_add_ok [OF inv s, of p _ v e] by auto
next
  case False
  then show ?thesis using inv by (auto simp: master_add_def Let_def get_nodes)
qed

lemma master_del_ok:
  assumes inv: "master_inv m" and v: "master_check_valid_path p" and n: "nodes m p = Some n" "sub n = {}"
  shows "\<exists>m'. master_del p m = Inr (Status OK, notify_watchers p m') \<and> master_inv (notify_watchers p m') \<and>
    nodes m' = del_child (path_parent p) (path_key p) (nodes m) \<and> sockets m' = sockets m"
proof -
  let ?q = "path_parent p" and ?k = "path_key p"
  have p: "p = ?q @ slash # ?k" using path_split [OF valid_path_slash [OF v]] by simp
  obtain m1 where m1: "erase_sub ?q ?k (erase_node p m) = Inr m1" "nodes m1 = del_child ?q ?k (nodes m)"
      "sockets m1 = sockets m" "gen_id m1 = gen_id m" "master_inv (m1\<lparr>gen_id := AList.delete p (gen_id m1)\<rparr>)"
    using del_child_step [OF inv, of ?q ?k n] n p path_key_no_slash by metis
  have frame: "erase_sub q k (m0\<lparr>gen_id := g\<rparr>) = rbind (erase_sub q k m0) (\<lambda>m1. Inr (m1\<lparr>gen_id := g\<rparr>))" for q k g m0
    by (auto simp: erase_sub_def get_node_def put_node_def rbind_def scheck_def split: option.splits)
  have g: "gen_id (erase_node p m) = gen_id m" by (simp add: erase_node_def)
  have "master_del p m = Inr (Status OK, notify_watchers p (m1\<lparr>gen_id := AList.delete p (gen_id m)\<rparr>))"
    using v n m1(1) by (auto simp: master_del_def Let_def get_nodes frame g)
  moreover have "master_inv (notify_watchers p x) = master_inv x" for x by (simp add: master_inv_def)
  ultimately show ?thesis using m1 by auto
qed

lemma master_del_keeps:
  assumes inv: "master_inv m"
  shows "keeps_inv m (master_del p m)"
proof (cases "master_check_valid_path p \<and> (\<exists>n. nodes m p = Some n \<and> sub n = {})")
  case True
  then show ?thesis using master_del_ok [OF inv, of p] by auto
next
  case False
  then show ?thesis using inv
    by (auto simp: master_del_def Let_def get_nodes split: option.splits)
qed

lemma master_set_keeps:
  assumes inv: "master_inv m"
  shows "keeps_inv m (master_set p v m)"
proof (cases "nodes m p")
  case None
  then show ?thesis using inv by (auto simp: master_set_def get_nodes)
next
  case (Some n)
  let ?n = "n\<lparr>node_value := v\<rparr>"
  have "tree_ok ((nodes m)(p \<mapsto> ?n))"
    using inv tree_ok_set_value [where f = "nodes m" and p = p and n = n and n' = ?n] Some
    by (simp add: master_inv_def)
  moreover have "owners_ok ((nodes m)(p \<mapsto> ?n)) (set (sockets m))"
    using inv Some by (auto simp: master_inv_def owners_ok_def)
  moreover have "gen_ok (map_of (gen_id m)) ((nodes m)(p \<mapsto> ?n))"
    using inv Some by (auto simp: master_inv_def gen_ok_def) fastforce
  ultimately have "master_inv (notify_watchers p (put_node p ?n m))"
    using inv by (simp add: master_inv_def nodes_put distinct_put)
  then show ?thesis using inv Some by (auto simp: master_set_def get_nodes)
qed

lemma tree_ok_ephemeral_leaf:
  assumes "tree_ok f" "f p = Some n" "owner n \<noteq> None"
  shows "sub n = {}"
proof (rule ccontr)
  assume "sub n \<noteq> {}"
  then obtain k where "k \<in> sub n" by blast
  then show False using tree_ok_child(4) [where f = f and p = p and n = n and k = k] assms by blast
qed

lemma ephemeral_path:
  assumes "tree_ok f" "f p = Some n" "owner n \<noteq> None"
  shows "p = path_parent p @ slash # path_key p" "sub n = {}" "slash \<notin> set (path_key p)"
proof -
  have "p \<noteq> []" using assms by (auto simp: tree_ok_def)
  then have "master_check_valid_path p" using node_ok_Some [OF assms(1,2)] by (simp add: node_ok_def)
  then show "p = path_parent p @ slash # path_key p" using path_split valid_path_slash by fastforce
  show "sub n = {}" by (rule tree_ok_ephemeral_leaf [OF assms])
  show "slash \<notin> set (path_key p)" by (rule path_key_no_slash)
qed

text \<open>What is left of a node when other nodes are removed.\<close>

definition keeps :: "(string \<Rightarrow> master_node option) \<Rightarrow> (string \<Rightarrow> master_node option) \<Rightarrow> string set \<Rightarrow> bool" where
  "keeps f g D \<longleftrightarrow> (\<forall>p. if p \<in> D then g p = None else
     map_option owner (g p) = map_option owner (f p) \<and> map_option node_value (g p) = map_option node_value (f p))"

lemma keeps_del:
  assumes "f q = Some pn"
  shows "keeps f (del_child q k f) {q @ slash # k}"
  using assms by (auto simp: keeps_def del_child_def)

lemma keeps_trans: "keeps f g D \<Longrightarrow> keeps g h E \<Longrightarrow> keeps f h (D \<union> E)"
  by (auto simp: keeps_def) (metis option.map_disc_iff)+

lemma clear_paths_ok:
  assumes "master_inv m" "distinct ps"
    and "\<And>p. p \<in> set ps \<Longrightarrow> map_option owner (nodes m p) = Some (Some s)"
  shows "\<exists>m'. clear_paths ps m = Inr m' \<and> master_inv m' \<and> sockets m' = sockets m \<and> watchers m' = watchers m \<and>
    keeps (nodes m) (nodes m') (set ps) \<and>
    outbox m' = outbox m @ concat (map (\<lambda>p. map (\<lambda>w. (w, Notify p)) (watchers m)) ps)"
  using assms
proof (induction ps arbitrary: m)
  case Nil
  then show ?case by (simp add: keeps_def)
next
  case (Cons p ps)
  obtain n where n: "nodes m p = Some n" "owner n = Some s" using Cons.prems(3) [of p] by auto
  have ok: "tree_ok (nodes m)" using Cons.prems(1) by (simp add: master_inv_def)
  let ?q = "path_parent p" and ?k = "path_key p"
  have e: "p = ?q @ slash # ?k" "sub n = {}" "slash \<notin> set ?k" using ephemeral_path [OF ok n(1)] n(2) by auto
  obtain m1 where m1: "erase_sub ?q ?k (erase_node p m) = Inr m1" "nodes m1 = del_child ?q ?k (nodes m)"
      "sockets m1 = sockets m" "watchers m1 = watchers m" "outbox m1 = outbox m" "master_inv m1"
    using del_child_step [OF Cons.prems(1), of ?q ?k n] n e by (metis option.distinct(1))
  have "nodes m (?q @ slash # ?k) \<noteq> None" using n e(1) by simp
  then obtain pn where "nodes m ?q = Some pn" using tree_ok_key_in_sub [OF ok _ e(3)] by blast
  then have k1: "keeps (nodes m) (nodes m1) {p}" using keeps_del [of "nodes m" ?q pn ?k] m1(2) e(1) by simp
  let ?m2 = "notify_watchers p m1"
  have i2: "master_inv ?m2" using m1(6) by (simp add: master_inv_def)
  have p2: "map_option owner (nodes ?m2 x) = Some (Some s)" if "x \<in> set ps" for x
  proof -
    have "x \<noteq> p" using Cons.prems(2) that by auto
    then have "map_option owner (nodes m1 x) = map_option owner (nodes m x)" using k1 by (simp add: keeps_def)
    then show ?thesis using Cons.prems(3) that by simp
  qed
  obtain m' where m': "clear_paths ps ?m2 = Inr m'" "master_inv m'" "sockets m' = sockets ?m2" "watchers m' = watchers ?m2"
      "keeps (nodes ?m2) (nodes m') (set ps)"
      "outbox m' = outbox ?m2 @ concat (map (\<lambda>p. map (\<lambda>w. (w, Notify p)) (watchers ?m2)) ps)"
    using Cons.IH [OF i2 _ p2] Cons.prems(2) by (meson distinct.simps(2))
  have "keeps (nodes m) (nodes m') (set (p # ps))" using keeps_trans [OF k1, of "nodes m'" "set ps"] m'(5) by simp
  then show ?case
    using m1 m' n by (auto simp: get_nodes notify_watchers_def)
qed

lemma disconnect_ok:
  assumes "master_inv m"
  shows "\<exists>m'. disconnect_clear_data s m = Inr m' \<and> master_inv m' \<and> sockets m' = sockets m \<and> watchers m' = watchers m \<and>
    keeps (nodes m) (nodes m') {p. map_option owner (nodes m p) = Some (Some s)}"
proof -
  let ?ps = "map fst (filter (\<lambda>(p, n). owner n = Some s) (tree m))"
  have d: "distinct (map fst (tree m))" using assms by (simp add: master_inv_def)
  then have ds: "distinct ?ps" by (rule distinct_map_filter)
  have set: "set ?ps = {p. map_option owner (nodes m p) = Some (Some s)}"
    using d by (force simp: nodes_def get_node_def map_of_eq_Some_iff image_iff dest: map_of_SomeD)
  show ?thesis
    using clear_paths_ok [OF assms ds, of s] set unfolding disconnect_clear_data_def by auto
qed

lemma handle_op_keeps:
  assumes inv: "master_inv m" and s: "sock \<in> set (sockets m)"
  shows "keeps_inv m (handle_op sock req m) \<or>
    handle_op sock req m = Inl Overflow \<and> (\<exists>q v e. req = MASTER_GEN q v e \<and> map_of (gen_id m) q = Some int_max)"
proof -
  let ?m = "ensure_root m"
  have i: "master_inv ?m" "sockets ?m = sockets m" using ensure_root_inv [OF inv] by auto
  have g: "gen_id ?m = gen_id m" by (simp add: ensure_root_def)
  have k: "keeps_inv ?m r = keeps_inv m r" for r by (simp add: keeps_inv_def i(2))
  have s': "sock \<in> set (sockets ?m)" using s i(2) by simp
  show ?thesis
  proof (cases req)
    case (MASTER_GEN q v e)
    then show ?thesis using master_gen_keeps [OF i(1) s', of q v e] by (auto simp: handle_op_def Let_def k g)
  next
    case (MASTER_ADD p v e)
    then show ?thesis using master_add_keeps [OF i(1) s', of p v e] by (simp add: handle_op_def Let_def k)
  next
    case (MASTER_DEL p)
    then show ?thesis using master_del_keeps [OF i(1), of p] by (simp add: handle_op_def Let_def k)
  next
    case (MASTER_SET p v)
    then show ?thesis using master_set_keeps [OF i(1), of p v] by (simp add: handle_op_def Let_def k)
  next
    case (MASTER_GET p)
    then show ?thesis using i by (auto simp: handle_op_def Let_def master_get_def split: option.splits)
  next
    case (MASTER_SUB p)
    then show ?thesis using i by (auto simp: handle_op_def Let_def master_sub_def split: option.splits)
  next
    case MASTER_CLIENT_FINALIZE
    then show ?thesis
      using disconnect_ok [OF i(1), of sock] i
      by (auto simp: handle_op_def master_inv_def)
  next
    case MASTER_EXIT
    then show ?thesis using i by (auto simp: handle_op_def master_inv_def)
  next
    case MASTER_UNKNOWN
    then show ?thesis using i by (auto simp: handle_op_def)
  qed
qed

lemma serve_request_ok:
  assumes "master_inv m" "sock \<in> set (sockets m)"
  shows "(\<exists>m'. serve_request sock req m = Inr m' \<and> master_inv m' \<and> sockets m' = sockets m) \<or>
    serve_request sock req m = Inl Overflow \<and> (\<exists>q v e. req = MASTER_GEN q v e \<and> map_of (gen_id m) q = Some int_max)"
  using handle_op_keeps [OF assms, of req] assms(2)
proof (elim disjE)
  assume "keeps_inv m (handle_op sock req m)"
  then obtain rep m1 where "handle_op sock req m = Inr (rep, m1)" "master_inv m1" "sockets m1 = sockets m"
    by (auto simp: keeps_inv_def)
  then show ?thesis using assms(2) by (simp add: serve_request_def master_inv_def)
qed (simp add: serve_request_def)

lemma serve_close_ok:
  assumes "master_inv m" "sock \<in> set (sockets m)"
  shows "\<exists>m'. serve_close sock m = Inr m' \<and> master_inv m' \<and>
    keeps (nodes m) (nodes m') {p. map_option owner (nodes m p) = Some (Some sock)} \<and>
    set (sockets m') = set (sockets m) - {sock} \<and> set (watchers m') = set (watchers m) - {sock}"
proof -
  obtain m1 where m1: "disconnect_clear_data sock m = Inr m1" "master_inv m1" "sockets m1 = sockets m"
      "watchers m1 = watchers m" "keeps (nodes m) (nodes m1) {p. map_option owner (nodes m p) = Some (Some sock)}"
    using disconnect_ok [OF assms(1)] by blast
  have "owners_ok (nodes m1) (set (filter (\<lambda>w. w \<noteq> sock) (sockets m1)))"
    unfolding owners_ok_def
  proof (intro allI impI)
    fix p n s assume p: "nodes m1 p = Some n" "owner n = Some s"
    then have "p \<notin> {p. map_option owner (nodes m p) = Some (Some sock)}"
      using m1(5) unfolding keeps_def by (metis option.distinct(1))
    then have "map_option owner (nodes m1 p) \<noteq> Some (Some sock)"
      using m1(5) unfolding keeps_def by (metis (mono_tags, lifting) mem_Collect_eq)
    then have "s \<noteq> sock" using p by simp
    then show "s \<in> set (filter (\<lambda>w. w \<noteq> sock) (sockets m1))"
      using m1(2) p unfolding master_inv_def owners_ok_def by auto
  qed
  then show ?thesis
    using assms m1 by (auto simp: serve_close_def master_inv_def)
qed

lemma master_inv_step:
  assumes "master_inv m" "master_step m m'"
  shows "master_inv m'"
  using assms(2)
proof cases
  case (accept sock)
  then show ?thesis using assms(1) by (auto simp: serve_accept_def master_inv_def owners_ok_def)
next
  case (request sock req)
  then show ?thesis using serve_request_ok [OF assms(1) request(1), of req] by auto
next
  case (close sock)
  then show ?thesis using serve_close_ok [OF assms(1) close(1)] by auto
qed

interpretation mt: inductive_invariant "\<lambda>m. m = master_new" master_step master_inv
proof
  show "master_inv s" if "s = master_new" for s
    using that by (simp add: master_new_def master_inv_def tree_ok_def owners_ok_def gen_ok_def nodes_def get_node_def)
qed (rule master_inv_step)

section \<open>Generated keys\<close>

text \<open>The ten digits of a generated key, and their order.\<close>

fun digits :: "nat \<Rightarrow> nat \<Rightarrow> string" where
  "digits 0 n = []"
| "digits (Suc k) n = digits k (n div 10) @ [dec_digit n]"

lemma digits_length [simp]: "length (digits k n) = k"
  by (induction k arbitrary: n) auto

lemma digits_zero: "digits k 0 = replicate k (CHR ''0'')"
  by (induction k) (auto simp: dec_digit_def replicate_append_same)

lemma dec_digit_less: "a mod 10 < b mod 10 \<Longrightarrow> dec_digit a < dec_digit b"
proof -
  have "sorted_wrt (<) ''0123456789''" by (simp add: less_char_def)
  then show "a mod 10 < b mod 10 \<Longrightarrow> dec_digit a < dec_digit b"
    unfolding dec_digit_def by (rule sorted_wrt_nth_less) simp_all
qed

lemma digits_less: "a < b \<Longrightarrow> b < 10 ^ k \<Longrightarrow> digits k a < digits k b"
proof (induction k arbitrary: a b)
  case (Suc k)
  show ?case
  proof (cases "a div 10 < b div 10")
    case True
    then have "digits k (a div 10) < digits k (b div 10)" using Suc by (intro Suc.IH) auto
    then show ?thesis by (simp add: list_less_def lexord_sufI)
  next
    case False
    then have e: "a div 10 = b div 10" using Suc.prems by (meson div_le_mono le_antisym less_imp_le not_less)
    then have "a mod 10 < b mod 10"
      using Suc.prems(1) by (metis add_less_cancel_left div_mult_mod_eq)
    then show ?thesis using dec_digit_less e by (simp add: list_less_def lexord_append_leftI)
  qed
qed simp

lemma dec_string_pad:
  assumes "n < 10 ^ k" "0 < k"
  shows "length (dec_string n) \<le> k \<and> replicate (k - length (dec_string n)) (CHR ''0'') @ dec_string n = digits k n"
  using assms
proof (induction k arbitrary: n)
  case (Suc k)
  show ?case
  proof (cases "n < 10")
    case True
    then show ?thesis by (subst (1 2 3) dec_string.simps) (simp add: digits_zero)
  next
    case False
    then have "0 < k" "n div 10 < 10 ^ k" using Suc.prems by (auto intro: gr0I)
    then show ?thesis using Suc.IH [of "n div 10"] False by (subst (1 2 3) dec_string.simps) simp
  qed
qed simp

lemma gen_key_digits: "n < 10 ^ 10 \<Longrightarrow> gen_key n = CHR ''_'' # digits 10 n"
  using dec_string_pad [of n 10] by (simp add: gen_key_def pad_key_eq to_string_def)

text \<open>Two successful generations under one parent, as seen by the client.\<close>

lemma master_gen_result:
  assumes "master_gen sock q v e m = Inr (Status_key st key, m')"
  shows "st = OK \<and> (\<exists>c. key = CHR ''_'' # pad_key (to_string c) \<and>
    c = (case map_of (gen_id m) q of None \<Rightarrow> 0 | Some c \<Rightarrow> c) \<and> c \<noteq> int_max \<and> map_of (gen_id m') q = Some (c + 1))"
proof -
  have g: "gen_id (put_node p n m0) = gen_id m0" "gen_id (notify_watchers p m0) = gen_id m0" for p n m0 by simp_all
  have i: "insert_sub a b m0 = Inr m1 \<Longrightarrow> gen_id m1 = gen_id m0" for a b m0 m1
    by (auto simp: insert_sub_def prpc_simps split: option.splits)
  show ?thesis
    using assms i
    by (auto simp: master_gen_def bump_gen_id_def Let_def prpc_simps split: if_splits)
      (fastforce simp: update_conv' dest!: i)+
qed

definition counter :: "master \<Rightarrow> string \<Rightarrow> int" where
  "counter m q = (case map_of (gen_id m) q of None \<Rightarrow> 0 | Some c \<Rightarrow> c)"

lemma counter_frame [simp]:
  "counter (put_node p n m) = counter m" "counter (notify_watchers p m) = counter m"
  "counter (m\<lparr>outbox := b\<rparr>) = counter m" "counter (m\<lparr>watchers := w\<rparr>) = counter m"
  "counter (m\<lparr>sockets := ss\<rparr>) = counter m" "counter (m\<lparr>exit_requested := x\<rparr>) = counter m"
  "counter (ensure_root m) = counter m"
  by (auto simp: counter_def ensure_root_def)

lemma counter_sub:
  "insert_sub a b m = Inr m' \<Longrightarrow> counter m' = counter m"
  "erase_sub a b m = Inr m' \<Longrightarrow> counter m' = counter m"
  by (auto simp: insert_sub_def erase_sub_def prpc_simps split: option.splits)

lemma counter_clear: "clear_paths ps m = Inr m' \<Longrightarrow> counter m' = counter m"
proof (induction ps arbitrary: m)
  case (Cons p ps)
  have "counter (erase_node p m) = counter m" by (auto simp: counter_def erase_node_def)
  then show ?case using Cons by (auto simp: prpc_simps dest!: counter_sub)
qed simp

lemma counter_bump: "bump_gen_id q m = Inr (c, m') \<Longrightarrow> counter m' q' = (if q' = q then counter m q + 1 else counter m q')"
  by (auto simp: counter_def bump_gen_id_def Let_def update_conv' split: if_splits option.splits)

lemma counter_gen: "master_gen sock q v e m = Inr (rep, m') \<Longrightarrow> counter m q' \<le> counter m' q'"
  by (auto simp: master_gen_def Let_def prpc_simps split: if_splits dest!: counter_sub counter_bump [where q' = q'])

lemma counter_add: "master_add sock p v e m = Inr (rep, m') \<Longrightarrow> counter m' = counter m"
  by (auto simp: master_add_def Let_def prpc_simps split: if_splits dest!: counter_sub)

lemma counter_del: "master_del p m = Inr (rep, m') \<Longrightarrow> q \<noteq> p \<Longrightarrow> counter m' q = counter m q"
  by (auto simp: master_del_def Let_def prpc_simps erase_node_def split: if_splits option.splits dest!: counter_sub)
    (simp add: counter_def delete_conv')

lemma master_del_gone:
  assumes "master_inv m" "master_del p m = Inr (rep, m')" "nodes m' p \<noteq> None"
  shows "m' = m"
proof (cases "master_check_valid_path p \<and> (\<exists>n. nodes m p = Some n \<and> sub n = {})")
  case True
  then have p: "p = path_parent p @ slash # path_key p" using path_split valid_path_slash by fastforce
  then have "del_child (path_parent p) (path_key p) f p = None" for f
    by (metis append_self_conv del_child_def fun_upd_apply list.distinct(1))
  then show ?thesis using True assms master_del_ok [OF assms(1), of p] by auto
next
  case False
  then show ?thesis using assms(2) by (auto simp: master_del_def Let_def get_nodes split: option.splits if_splits)
qed

lemma counter_handle:
  assumes "master_inv m" "handle_op sock req m = Inr (rep, m')" "nodes m' q \<noteq> None"
  shows "counter m q \<le> counter m' q"
proof (cases req)
  case (MASTER_GEN q' v e)
  then show ?thesis using assms(2) counter_gen [of sock q' v e "ensure_root m" rep m' q] by (simp add: handle_op_def)
next
  case (MASTER_ADD p v e)
  then show ?thesis using assms(2) counter_add [of sock p v e "ensure_root m" rep m'] by (simp add: handle_op_def)
next
  case (MASTER_DEL p)
  then have d: "master_del p (ensure_root m) = Inr (rep, m')" using assms(2) by (simp add: handle_op_def)
  have "counter m' q = counter (ensure_root m) q"
    using counter_del [OF d, of q] master_del_gone [OF ensure_root_inv(1) [OF assms(1)] d] assms(3) by (cases "q = p") auto
  then show ?thesis by simp
next
  case (MASTER_SET p v)
  then show ?thesis using assms(2) by (auto simp: handle_op_def master_set_def Let_def split: if_splits option.splits)
next
  case (MASTER_GET p)
  then show ?thesis using assms(2) by (auto simp: handle_op_def master_get_def Let_def split: if_splits option.splits)
next
  case (MASTER_SUB p)
  then show ?thesis using assms(2) by (auto simp: handle_op_def master_sub_def Let_def split: if_splits option.splits)
next
  case MASTER_CLIENT_FINALIZE
  then show ?thesis
    using assms(2) by (auto simp: handle_op_def Let_def prpc_simps disconnect_clear_data_def dest!: counter_clear)
qed (use assms(2) in \<open>auto simp: handle_op_def Let_def\<close>)

lemma counter_step:
  assumes "master_inv m" "master_step m m'" "nodes m' q \<noteq> None"
  shows "counter m q \<le> counter m' q"
  using assms(2)
proof cases
  case (request sock req)
  then obtain rep m1 where "handle_op sock req m = Inr (rep, m1)" "m' = m1\<lparr>outbox := outbox m1 @ [(sock, Response rep)]\<rparr>"
    by (auto simp: serve_request_def prpc_simps)
  then show ?thesis using counter_handle [OF assms(1), of sock req rep m1 q] assms(3) by simp
next
  case (close sock)
  then show ?thesis by (auto simp: serve_close_def prpc_simps disconnect_clear_data_def dest!: counter_clear)
qed (simp add: serve_accept_def)

text \<open>Steps during which the node \<open>q\<close> stays in the tree.\<close>

definition step_keeping :: "string \<Rightarrow> master \<Rightarrow> master \<Rightarrow> bool" where
  "step_keeping q m m' \<longleftrightarrow> master_step m m' \<and> nodes m' q \<noteq> None"

lemma counter_steps: "(step_keeping q)\<^sup>*\<^sup>* m m' \<Longrightarrow> master_inv m \<Longrightarrow> master_inv m' \<and> counter m q \<le> counter m' q"
proof (induction rule: rtranclp_induct)
  case (step y z)
  then show ?case using counter_step [of y z q] master_inv_step [of y z] by (auto simp: step_keeping_def)
qed simp

lemma gen_request:
  assumes inv: "master_inv m" and s: "sock \<in> set (sockets m)"
    and h: "handle_op sock (MASTER_GEN q v e) m = Inr (Status_key st k, m')"
  shows "master_inv m' \<and> 0 \<le> counter m q \<and> counter m q < int_max \<and> counter m' q = counter m q + 1 \<and>
    k = gen_key (nat (counter m q))"
proof -
  have "keeps_inv m (handle_op sock (MASTER_GEN q v e) m)" using handle_op_keeps [OF inv s, of "MASTER_GEN q v e"] h by simp
  then have i: "master_inv m'" using h by (simp add: keeps_inv_def)
  have g: "master_gen sock q v e (ensure_root m) = Inr (Status_key st k, m')" using h by (simp add: handle_op_def)
  have e: "(case map_of (gen_id m0) q of None \<Rightarrow> 0 | Some c \<Rightarrow> c) = counter m0 q" for m0 by (simp add: counter_def)
  obtain c where c: "k = CHR ''_'' # pad_key (to_string c)" "c = counter (ensure_root m) q" "c \<noteq> int_max"
      "map_of (gen_id m') q = Some (c + 1)"
    using master_gen_result [OF g] unfolding e by blast
  have "0 \<le> counter m q \<and> counter m q \<le> int_max"
    using inv by (fastforce simp: counter_def master_inv_def gen_ok_def int_max_def split: option.splits)
  then show ?thesis using c i by (auto simp: gen_key_def counter_def [of m'])
qed

section \<open>Properties\<close>

text \<open>C11. In every state the master reaches, each node but the root has a valid path, its parent is present,
  is not ephemeral and lists it; every listed child is present; and a node owned by a connection has no children
  and its owner is still connected.\<close>

theorem master_tree_reachable:
  assumes "reach (\<lambda>m. m = master_new) master_step m" "get_node p m = Some n"
  shows "(p = [] \<or> master_check_valid_path p \<and>
        (\<exists>pn. get_node (path_parent p) m = Some pn \<and> owner pn = None \<and> path_key p \<in> sub pn)) \<and>
    (\<forall>k. k \<in> sub n \<longrightarrow> get_node (p @ slash # k) m \<noteq> None) \<and>
    (\<forall>s. owner n = Some s \<longrightarrow> sub n = {} \<and> s \<in> set (sockets m))"
proof -
  have inv: "master_inv m" by (rule mt.inv_reach [OF assms(1)])
  then have ok: "tree_ok (nodes m)" by (simp add: master_inv_def)
  have n: "nodes m p = Some n" using assms(2) by (simp add: get_nodes)
  have "k \<in> sub n \<Longrightarrow> nodes m (p @ slash # k) \<noteq> None" for k
    using ok n unfolding tree_ok_def by blast
  moreover have "owner n = Some s \<Longrightarrow> sub n = {} \<and> s \<in> set (sockets m)" for s
    using tree_ok_ephemeral_leaf [where f = "nodes m" and p = p and n = n] ok n inv
    by (auto simp: master_inv_def owners_ok_def)
  moreover have "node_ok (nodes m) p" using ok n by (simp add: tree_ok_def)
  ultimately show ?thesis by (auto simp: node_ok_def get_nodes)
qed

text \<open>The state after two connections, one of which adds an ephemeral node \<open>/a\<close>.\<close>

definition demo_accepted :: master where
  "demo_accepted = serve_accept 8 (serve_accept 7 master_new)"

definition demo_added :: master where
  "demo_added = \<lparr>gen_id = [], tree = [([], \<lparr>owner = None, node_value = [], sub = {''a''}\<rparr>),
     (''/a'', \<lparr>owner = Some 7, node_value = ''v'', sub = {}\<rparr>)], watchers = [8, 7], sockets = [8, 7],
     exit_requested = False, outbox = [(8, Notify ''/a''), (7, Notify ''/a''), (7, Response (Status OK))]\<rparr>"

lemma demo_accepted_reach: "reach (\<lambda>m. m = master_new) master_step demo_accepted"
proof -
  have "master_step master_new (serve_accept 7 master_new)"
    by (rule master_step.accept) (simp add: master_new_def)
  moreover have "master_step (serve_accept 7 master_new) demo_accepted"
    unfolding demo_accepted_def by (rule master_step.accept) (simp add: master_new_def serve_accept_def)
  moreover have "reach (\<lambda>m. m = master_new) master_step master_new" by (rule reach_init) simp
  ultimately show ?thesis by (blast intro: reach_step)
qed

lemma demo_added_request: "serve_request 7 (MASTER_ADD ''/a'' ''v'' True) demo_accepted = Inr demo_added"
  by code_simp

lemma demo_added_reach: "reach (\<lambda>m. m = master_new) master_step demo_added"
proof -
  have "7 \<in> set (sockets demo_accepted)" by code_simp
  then have "master_step demo_accepted demo_added" using demo_added_request by (rule master_step.request)
  then show ?thesis using demo_accepted_reach by (blast intro: reach_step)
qed

theorem master_tree_reachable_witness:
  "get_node ''/a'' demo_added = Some \<lparr>owner = Some 7, node_value = ''v'', sub = {}\<rparr> \<and>
   7 \<in> set (sockets demo_added) \<and> (\<exists>pn. get_node [] demo_added = Some pn \<and> ''a'' \<in> sub pn)"
proof -
  have n: "get_node ''/a'' demo_added = Some \<lparr>owner = Some 7, node_value = ''v'', sub = {}\<rparr>" by code_simp
  have "path_parent ''/a'' = []" "path_key ''/a'' = ''a''" by code_simp+
  then show ?thesis using master_tree_reachable [OF demo_added_reach n] n by force
qed

text \<open>C5. From a reachable state no assertion of the master fails: closing a connection always succeeds, and
  every request on an open connection is answered, except that generating a key under a node whose counter has
  reached the largest \<open>int\<close> overflows it.\<close>

theorem master_never_aborts:
  assumes "reach (\<lambda>m. m = master_new) master_step m" "sock \<in> set (sockets m)"
  shows "(\<exists>m'. serve_close sock m = Inr m') \<and>
    ((\<exists>m'. serve_request sock req m = Inr m') \<or>
     serve_request sock req m = Inl Overflow \<and> (\<exists>q v e. req = MASTER_GEN q v e \<and> map_of (gen_id m) q = Some int_max))"
  using serve_close_ok [OF mt.inv_reach [OF assms(1)] assms(2)]
    serve_request_ok [OF mt.inv_reach [OF assms(1)] assms(2), of req] by blast

theorem master_never_aborts_witness:
  "(\<exists>m'. serve_close 7 demo_added = Inr m') \<and> (\<exists>m'. serve_request 7 (MASTER_DEL ''/a'') demo_added = Inr m')"
proof -
  have "7 \<in> set (sockets demo_added)" by code_simp
  then show ?thesis using master_never_aborts [OF demo_added_reach, of 7 "MASTER_DEL ''/a''"] by auto
qed

text \<open>Closing a connection removes exactly the nodes it owns: they are gone, every other node keeps its
  owner and value, and the connection is no longer known nor notified.\<close>

theorem master_close_cleans:
  assumes "reach (\<lambda>m. m = master_new) master_step m" "sock \<in> set (sockets m)" "serve_close sock m = Inr m'"
  shows "sock \<notin> set (sockets m') \<and> sock \<notin> set (watchers m') \<and>
    (get_node p m' = None \<longleftrightarrow> get_node p m = None \<or> owner (the (get_node p m)) = Some sock) \<and>
    (\<forall>n'. get_node p m' = Some n' \<longrightarrow> owner n' \<noteq> Some sock \<and>
       (\<exists>n. get_node p m = Some n \<and> owner n' = owner n \<and> node_value n' = node_value n))"
proof -
  have k: "keeps (nodes m) (nodes m') {p. map_option owner (nodes m p) = Some (Some sock)}"
    and s: "set (sockets m') = set (sockets m) - {sock}" "set (watchers m') = set (watchers m) - {sock}"
    using serve_close_ok [OF mt.inv_reach [OF assms(1)] assms(2)] assms(3) by auto
  have kp: "if map_option owner (nodes m p) = Some (Some sock) then nodes m' p = None
    else map_option owner (nodes m' p) = map_option owner (nodes m p) \<and>
      map_option node_value (nodes m' p) = map_option node_value (nodes m p)"
    using k unfolding keeps_def by (metis (mono_tags, lifting) mem_Collect_eq)
  then show ?thesis
    using s by (cases "nodes m p"; cases "nodes m' p") (auto simp: get_nodes split: if_splits)
qed

theorem master_close_cleans_witness:
  "\<exists>m'. serve_close 7 demo_added = Inr m' \<and> get_node ''/a'' m' = None \<and> get_node [] m' \<noteq> None \<and> 7 \<notin> set (sockets m')"
proof -
  have s: "7 \<in> set (sockets demo_added)" by code_simp
  obtain m' where m': "serve_close 7 demo_added = Inr m'"
    using serve_close_ok [OF mt.inv_reach [OF demo_added_reach] s] by blast
  have "get_node ''/a'' demo_added = Some \<lparr>owner = Some 7, node_value = ''v'', sub = {}\<rparr>"
    "get_node [] demo_added = Some \<lparr>owner = None, node_value = [], sub = {''a''}\<rparr>" by code_simp+
  then show ?thesis
    using m' master_close_cleans [OF demo_added_reach s m', of "''/a''"]
      master_close_cleans [OF demo_added_reach s m', of "[]"] by auto
qed

text \<open>A node that was added with status \<open>OK\<close> can be read back with its value and then deleted again with
  status \<open>OK\<close>, after which every node, the parent's children included, is as before the addition.\<close>

theorem master_add_get_del:
  assumes "reach (\<lambda>m. m = master_new) master_step m" "sock \<in> set (sockets m)" "get_node [] m \<noteq> None"
    "handle_op sock (MASTER_ADD p v e) m = Inr (Status OK, m1)"
  shows "handle_op s1 (MASTER_GET p) m1 = Inr (Status_value OK v, m1) \<and>
    (\<exists>m2. handle_op s2 (MASTER_DEL p) m1 = Inr (Status OK, m2) \<and> (\<forall>r. get_node r m2 = get_node r m))"
proof -
  have inv: "master_inv m" by (rule mt.inv_reach [OF assms(1)])
  have er: "ensure_root m = m" using assms(3) by (auto simp: ensure_root_def)
  have a: "master_add sock p v e m = Inr (Status OK, m1)" using assms(4) er by (simp add: handle_op_def)
  obtain pn where v: "master_check_valid_path p" and q: "nodes m (path_parent p) = Some pn" "owner pn = None"
    and new: "nodes m p = None"
    using a by (auto simp: master_add_def Let_def get_nodes prpc_simps split: if_splits)
  let ?n = "\<lparr>owner = (if e then Some sock else None), node_value = v, sub = {}\<rparr>"
  obtain m' where m': "m1 = notify_watchers p m'" "master_inv m1"
      "nodes m1 = add_child (path_parent p) (path_key p) ?n (nodes m)"
    using master_add_ok [OF inv assms(2) v q new, of v e] a by auto
  have p: "p = path_parent p @ slash # path_key p" using path_split [OF valid_path_slash [OF v]] by simp
  have pq: "path_parent p \<noteq> p" by (rule path_parent_neq [OF valid_path_slash [OF v]])
  have n1: "nodes m1 r = (if r = path_parent p then Some (pn\<lparr>sub := insert (path_key p) (sub pn)\<rparr>)
      else if r = p then Some ?n else nodes m r)" for r
    using q p m'(3) by (simp add: add_child_def)
  then have r1: "nodes m1 [] \<noteq> None" "nodes m1 p = Some ?n" using pq assms(3) by (auto simp: get_nodes)
  then have er1: "ensure_root m1 = m1" by (auto simp: ensure_root_def get_nodes)
  have get: "handle_op s1 (MASTER_GET p) m1 = Inr (Status_value OK v, m1)"
    using r1(2) v er1 by (simp add: handle_op_def master_get_def get_nodes)
  have fresh: "path_key p \<notin> sub pn"
    using new p q(1) inv unfolding master_inv_def tree_ok_def by metis
  obtain m2 where m2: "master_del p m1 = Inr (Status OK, notify_watchers p m2)"
      "nodes m2 = del_child (path_parent p) (path_key p) (nodes m1)"
    using master_del_ok [OF m'(2) v r1(2)] by auto
  have "nodes m2 r = nodes m r" for r
    using m2(2) n1 p new q fresh by (auto simp: del_child_def)
  then show ?thesis
    using get m2(1) er1 by (auto simp: handle_op_def get_nodes)
qed

theorem master_add_get_del_witness:
  "\<exists>m1. handle_op 8 (MASTER_ADD ''/b'' ''w'' False) demo_added = Inr (Status OK, m1) \<and>
     handle_op 7 (MASTER_GET ''/b'') m1 = Inr (Status_value OK ''w'', m1)"
proof -
  have s: "8 \<in> set (sockets demo_added)" "get_node [] demo_added \<noteq> None" by code_simp+
  have "(case handle_op 8 (MASTER_ADD ''/b'' ''w'' False) demo_added of Inr (Status OK, m1) \<Rightarrow> True | _ \<Rightarrow> False)"
    by code_simp
  then obtain m1 where "handle_op 8 (MASTER_ADD ''/b'' ''w'' False) demo_added = Inr (Status OK, m1)"
    by (auto split: sum.splits prod.splits reply.splits master_status.splits)
  then show ?thesis using master_add_get_del [OF demo_added_reach s] by blast
qed

text \<open>The keys generated under one parent strictly increase in string order as long as the parent stays in
  the tree, so no key is handed out twice.\<close>

theorem master_keys_increase:
  assumes "reach (\<lambda>m. m = master_new) master_step m" "s1 \<in> set (sockets m)" "s2 \<in> set (sockets m2)"
    "handle_op s1 (MASTER_GEN q v1 e1) m = Inr (Status_key st1 k1, m1)"
    "(step_keeping q)\<^sup>*\<^sup>* m1 m2"
    "handle_op s2 (MASTER_GEN q v2 e2) m2 = Inr (Status_key st2 k2, m3)"
  shows "k1 < k2"
proof -
  have inv: "master_inv m" by (rule mt.inv_reach [OF assms(1)])
  note g1 = gen_request [OF inv assms(2,4)]
  have i2: "master_inv m2 \<and> counter m1 q \<le> counter m2 q" using counter_steps [OF assms(5)] g1 by blast
  note g2 = gen_request [OF conjunct1 [OF i2] assms(3,6)]
  have "nat (counter m q) < nat (counter m2 q)" "nat (counter m2 q) < 10 ^ 10"
    using g1 g2 i2 by (auto simp: int_max_def)
  then have "gen_key (nat (counter m q)) < gen_key (nat (counter m2 q))"
    using digits_less [of "nat (counter m q)" "nat (counter m2 q)" 10] by (subst (1 2) gen_key_digits) auto
  then show ?thesis using g1 g2 by blast
qed

definition demo_parent :: master where
  "demo_parent = \<lparr>gen_id = [], tree = [([], \<lparr>owner = None, node_value = [], sub = {''b''}\<rparr>),
     (''/b'', \<lparr>owner = None, node_value = ''w'', sub = {}\<rparr>)], watchers = [8, 7], sockets = [8, 7],
     exit_requested = False, outbox = [(8, Notify ''/b''), (7, Notify ''/b''), (8, Response (Status OK))]\<rparr>"

lemma demo_parent_reach: "reach (\<lambda>m. m = master_new) master_step demo_parent"
proof -
  have "8 \<in> set (sockets demo_accepted)" by code_simp
  moreover have "serve_request 8 (MASTER_ADD ''/b'' ''w'' False) demo_accepted = Inr demo_parent" by code_simp
  ultimately have "master_step demo_accepted demo_parent" by (rule master_step.request)
  then show ?thesis using demo_accepted_reach by (blast intro: reach_step)
qed

definition gen_key_of :: "(reply \<times> master) res \<Rightarrow> string \<times> master" where
  "gen_key_of r = (case r of Inr (Status_key OK k, m) \<Rightarrow> (k, m) | _ \<Rightarrow> ([], master_new))"

definition demo_gen1 :: "string \<times> master" where
  "demo_gen1 = gen_key_of (handle_op 7 (MASTER_GEN ''/b'' ''x'' True) demo_parent)"

definition demo_gen2 :: "string \<times> master" where
  "demo_gen2 = gen_key_of (handle_op 8 (MASTER_GEN ''/b'' ''y'' False) (snd demo_gen1))"

theorem master_keys_increase_witness:
  "fst demo_gen1 = ''_0000000000'' \<and> fst demo_gen2 = ''_0000000001'' \<and> fst demo_gen1 < fst demo_gen2"
proof -
  have s: "7 \<in> set (sockets demo_parent)" "8 \<in> set (sockets (snd demo_gen1))" by code_simp+
  have "handle_op 7 (MASTER_GEN ''/b'' ''x'' True) demo_parent = Inr (Status_key OK (fst demo_gen1), snd demo_gen1)"
    "handle_op 8 (MASTER_GEN ''/b'' ''y'' False) (snd demo_gen1) = Inr (Status_key OK (fst demo_gen2), snd demo_gen2)"
    by code_simp+
  then have "fst demo_gen1 < fst demo_gen2"
    using master_keys_increase [OF demo_parent_reach s] by blast
  moreover have "fst demo_gen1 = ''_0000000000''" "fst demo_gen2 = ''_0000000001''" by code_simp+
  ultimately show ?thesis by blast
qed

end
