(* ===== verification/Lazy_Archive.thy ===== *)
theory Lazy_Archive
  imports Serialization
begin

text \<open>
  The lazy part of a message, \<open>src/rpc/LazyArchive.h\<close>: values that are serialized only when the message
  is sent, large ones as blocks of their own that are not copied into the archive.

  A \<open>data_block_t\<close> is the memory its pointer refers to (\<open>None\<close> for a null pointer) with its 32 bit length and
  owner flag; \<open>baddr\<close> is the value of the pointer, which only ever appears in the image of a block on the
  wire. A pair of \<open>pico_serialize\<close>/\<open>pico_deserialize\<close> overloads works on an archive and a list of blocks. The
  values a \<open>LazyArchive\<close> holds are of many C++ types; the model is parametric in a type \<open>'v\<close> of all of them
  with the dispatch to their overloads, as \<open>Lazy<T>\<close> does it with virtual functions. The locale
  \<open>lazy_archivable\<close> is the contract of a pair of overloads.
\<close>

section \<open>Blocks\<close>

record data_block =
  baddr :: "64 word"
  bmem :: "byte list option"
  blen :: "32 word"
  bowner :: bool

definition block_empty :: data_block where
  "block_empty = \<lparr>baddr = 0, bmem = None, blen = 0, bowner = False\<rparr>"

text \<open>A block of fresh memory at \<open>addr\<close> whose content is \<open>junk\<close>.\<close>

definition block_alloc :: "64 word \<Rightarrow> (nat \<Rightarrow> byte) \<Rightarrow> 32 word \<Rightarrow> data_block" where
  "block_alloc addr junk len =
     (if len = 0 then block_empty
      else \<lparr>baddr = addr, bmem = Some (map junk [0..<unat len]), blen = len, bowner = True\<rparr>)"

definition block_view :: "64 word \<Rightarrow> byte list option \<Rightarrow> 32 word \<Rightarrow> data_block" where
  "block_view addr mem len = \<lparr>baddr = addr, bmem = mem, blen = len, bowner = False\<rparr>"

definition block_move :: "data_block \<Rightarrow> data_block \<times> data_block" where
  "block_move o1 = (o1, o1\<lparr>baddr := 0, bmem := None, blen := 0, bowner := False\<rparr>)"

text \<open>What reading \<open>length\<close> bytes from the pointer gives.\<close>

definition block_read :: "data_block \<Rightarrow> byte list res" where
  "block_read b =
     (case bmem b of
        None \<Rightarrow> if blen b = 0 then Inr [] else Inl Out_of_bounds
      | Some mem \<Rightarrow> if unat (blen b) \<le> length mem then Inr (take (unat (blen b)) mem) else Inl Out_of_bounds)"

section \<open>Readers and writers of blocks\<close>

record shared_reader =
  sdata :: "data_block list"
  spos :: nat

definition shared_exhausted :: "shared_reader \<Rightarrow> bool" where
  "shared_exhausted sh \<longleftrightarrow> spos sh = length (sdata sh)"

definition get_shared_uncheck :: "nat \<Rightarrow> shared_reader \<Rightarrow> (byte list \<times> nat \<times> data_block \<times> shared_reader) res" where
  "get_shared_uncheck sizeof_T sh =
     (if length (sdata sh) \<le> spos sh then Inl Out_of_bounds
      else
        let b = sdata sh ! spos sh;
            n = unat (blen b) div sizeof_T
        in rbind (scheck (unat (blen b) = n * sizeof_T)) (\<lambda>_.
           rbind (block_read b) (\<lambda>p.
             let (own, moved) = block_move b
             in Inr (p, n, own, \<lparr>sdata = (sdata sh)[spos sh := moved], spos = spos sh + 1\<rparr>))))"

definition put_shared_uncheck :: "64 word \<Rightarrow> byte list option \<Rightarrow> nat \<Rightarrow> nat \<Rightarrow> data_block list \<Rightarrow> data_block list" where
  "put_shared_uncheck addr p sizeof_T n data =
     data @ [block_view addr p (word_of_nat (n * sizeof_T))]"

section \<open>Overloads\<close>

type_synonym 'a lazy_serializer = "'a \<Rightarrow> marchive \<Rightarrow> data_block list \<Rightarrow> (marchive \<times> data_block list) res"
type_synonym 'a lazy_deserializer = "marchive \<Rightarrow> shared_reader \<Rightarrow> ('a \<times> marchive \<times> shared_reader) res"

text \<open>A value with a binary serialization goes through \<open>operator<<\<close> of the archive.\<close>

definition lazy_ser_plain :: "'a serializer \<Rightarrow> 'a lazy_serializer" where
  "lazy_ser_plain s x ar data = rbind (put s x ar) (\<lambda>ar1. Inr (ar1, data))"

definition lazy_des_plain :: "'a deserializer \<Rightarrow> 'a lazy_deserializer" where
  "lazy_des_plain d ar sh = rbind (get d ar) (\<lambda>(x, ar1). Inr (x, ar1, sh))"

definition lazy_ser_block :: "data_block lazy_serializer" where
  "lazy_ser_block b ar data = Inr (ar, put_shared_uncheck (baddr b) (bmem b) 1 (unat (blen b)) data)"

definition lazy_des_block :: "data_block lazy_deserializer" where
  "lazy_des_block ar sh = rbind (get_shared_uncheck 1 sh) (\<lambda>(p, n, own, sh1). Inr (own, ar, sh1))"

text \<open>An archive is sent from its cursor to its end and arrives as the buffer of another archive.\<close>

definition lazy_ser_archive :: "64 word \<Rightarrow> marchive lazy_serializer" where
  "lazy_ser_archive addr x ar data =
     rbind (initialised (unread x)) (\<lambda>bs.
       Inr (ar, put_shared_uncheck addr (if null_buffer x then None else Some bs) 1 (readable_length x) data))"

definition lazy_des_archive :: "marchive \<Rightarrow> marchive lazy_deserializer" where
  "lazy_des_archive out ar sh =
     rbind (get_shared_uncheck 1 sh) (\<lambda>(p, n, own, sh1).
     rbind (set_read_buffer (map_option (map Some) (bmem own)) n (Custom (if bowner own then 1 else 0)) out) (\<lambda>out1.
       Inr (out1, ar, sh1)))"

text \<open>\<open>std::vector\<close> of trivially copyable elements: one block.\<close>

definition lazy_ser_pod_vector :: "64 word \<Rightarrow> nat \<Rightarrow> ('a \<Rightarrow> byte list) \<Rightarrow> 'a list lazy_serializer" where
  "lazy_ser_pod_vector addr sz img vec ar data =
     Inr (ar, put_shared_uncheck addr (if vec = [] then None else Some (concat (map img vec))) sz (length vec) data)"

definition lazy_des_pod_vector :: "nat \<Rightarrow> (byte list \<Rightarrow> 'a) \<Rightarrow> 'a list lazy_deserializer" where
  "lazy_des_pod_vector sz of_img ar sh =
     rbind (get_shared_uncheck sz sh) (\<lambda>(p, n, own, sh1). Inr (map of_img (split_images sz n p), ar, sh1))"

text \<open>\<open>std::vector\<close> of other elements, \<open>std::map\<close> and \<open>std::pair\<close>.\<close>

fun lazy_ser_each :: "'a lazy_serializer \<Rightarrow> 'a list lazy_serializer" where
  "lazy_ser_each s [] ar data = Inr (ar, data)"
| "lazy_ser_each s (x # xs) ar data = rbind (s x ar data) (\<lambda>(ar1, data1). lazy_ser_each s xs ar1 data1)"

fun lazy_des_each :: "'a lazy_deserializer \<Rightarrow> nat \<Rightarrow> 'a list lazy_deserializer" where
  "lazy_des_each d 0 ar sh = Inr ([], ar, sh)"
| "lazy_des_each d (Suc n) ar sh =
     rbind (d ar sh) (\<lambda>(x, ar1, sh1). rbind (lazy_des_each d n ar1 sh1) (\<lambda>(xs, ar2, sh2). Inr (x # xs, ar2, sh2)))"

definition lazy_ser_vector :: "'a lazy_serializer \<Rightarrow> 'a list lazy_serializer" where
  "lazy_ser_vector s vec ar data = rbind (put serialize_size (length vec) ar) (\<lambda>ar1. lazy_ser_each s vec ar1 data)"

definition lazy_des_vector :: "'a lazy_deserializer \<Rightarrow> 'a list lazy_deserializer" where
  "lazy_des_vector d ar sh = rbind (get deserialize_size ar) (\<lambda>(n, ar1). lazy_des_each d n ar1 sh)"

definition lazy_ser_map :: "'k serializer \<Rightarrow> 'v lazy_serializer \<Rightarrow> ('k \<times> 'v) list lazy_serializer" where
  "lazy_ser_map sk sv m ar data =
     rbind (put serialize_size (length m) ar) (\<lambda>ar1.
       lazy_ser_each (\<lambda>item ar2 data2. rbind (put sk (fst item) ar2) (\<lambda>ar3. sv (snd item) ar3 data2)) m ar1 data)"

fun lazy_emplace_each :: "'k deserializer \<Rightarrow> 'v lazy_deserializer \<Rightarrow> nat \<Rightarrow> ('k \<times> 'v) list \<Rightarrow>
    ('k \<times> 'v) list lazy_deserializer" where
  "lazy_emplace_each dk dv 0 m ar sh = Inr (m, ar, sh)"
| "lazy_emplace_each dk dv (Suc n) m ar sh =
     rbind (get dk ar) (\<lambda>(k, ar1). rbind (dv ar1 sh) (\<lambda>(v, ar2, sh2).
     rbind (scheck (k \<notin> fst ` set m)) (\<lambda>_. lazy_emplace_each dk dv n (m @ [(k, v)]) ar2 sh2)))"

definition lazy_des_map :: "'k deserializer \<Rightarrow> 'v lazy_deserializer \<Rightarrow> ('k \<times> 'v) list lazy_deserializer" where
  "lazy_des_map dk dv ar sh = rbind (get deserialize_size ar) (\<lambda>(n, ar1). lazy_emplace_each dk dv n [] ar1 sh)"

definition lazy_ser_pair :: "'a lazy_serializer \<Rightarrow> 'b lazy_serializer \<Rightarrow> ('a \<times> 'b) lazy_serializer" where
  "lazy_ser_pair s1 s2 p ar data = rbind (s1 (fst p) ar data) (\<lambda>(ar1, data1). s2 (snd p) ar1 data1)"

definition lazy_des_pair :: "'a lazy_deserializer \<Rightarrow> 'b lazy_deserializer \<Rightarrow> ('a \<times> 'b) lazy_deserializer" where
  "lazy_des_pair d1 d2 ar sh =
     rbind (d1 ar sh) (\<lambda>(x, ar1, sh1). rbind (d2 ar1 sh1) (\<lambda>(y, ar2, sh2). Inr ((x, y), ar2, sh2)))"

section \<open>The archive of lazy values\<close>

record 'v lazy_archive =
  meta_ar :: marchive
  rd_ar :: marchive
  shared :: shared_reader
  lazies :: "'v list"
  lcur :: nat

definition lazy_new :: "'v lazy_archive" where
  "lazy_new = \<lparr>meta_ar = archive_new True, rd_ar = archive_new False, shared = \<lparr>sdata = [], spos = 0\<rparr>,
     lazies = [], lcur = 0\<rparr>"

definition lazy_put :: "'v \<Rightarrow> 'v lazy_archive \<Rightarrow> 'v lazy_archive" where
  "lazy_put v la = la\<lparr>lazies := lazies la @ [v]\<rparr>"

text \<open>
  \<open>operator>>\<close> into a variable of C++ type \<open>t\<close>: from the values put in on this side while nothing was
  attached, otherwise from the received blocks.
\<close>

definition lazy_get :: "('v \<Rightarrow> 't) \<Rightarrow> ('t \<Rightarrow> 'v lazy_deserializer) \<Rightarrow> 't \<Rightarrow> 'v lazy_archive \<Rightarrow>
    ('v \<times> 'v lazy_archive) res" where
  "lazy_get ty_of des t la =
     (if is_exhausted (rd_ar la) \<and> shared_exhausted (shared la) then
        rbind (scheck (lcur la < length (lazies la))) (\<lambda>_.
        rbind (scheck (ty_of (lazies la ! lcur la) = t)) (\<lambda>_.
          Inr (lazies la ! lcur la, la\<lparr>lcur := lcur la + 1\<rparr>)))
      else
        rbind (des t (rd_ar la) (shared la)) (\<lambda>(v, ar, sh). Inr (v, la\<lparr>rd_ar := ar, shared := sh\<rparr>)))"

definition lazy_attach :: "data_block list \<Rightarrow> 'v lazy_archive \<Rightarrow> 'v lazy_archive res" where
  "lazy_attach data la =
     rbind (if data \<noteq> []
            then set_read_buffer (map_option (map Some) (bmem (last data))) (unat (blen (last data))) No_delete (rd_ar la)
            else Inr (rd_ar la))
       (\<lambda>ar. Inr (la\<lparr>rd_ar := ar, shared := \<lparr>sdata = data, spos = 0\<rparr>, lazies := [], lcur := 0\<rparr>))"

definition lazy_apply :: "'v lazy_serializer \<Rightarrow> 64 word \<Rightarrow> 'v lazy_archive \<Rightarrow> (data_block list \<times> 'v lazy_archive) res" where
  "lazy_apply ser addr la =
     (if lazies la = [] then Inr (sdata (shared la), la\<lparr>shared := (shared la)\<lparr>sdata := []\<rparr>\<rparr>)
      else
        rbind (lazy_ser_each ser (drop (lcur la) (lazies la)) (clear (meta_ar la)) (sdata (shared la))) (\<lambda>(ar, data).
        rbind (initialised (take (archive_length ar) (buf ar))) (\<lambda>bs.
          Inr (data @ [block_view addr (if null_buffer ar then None else Some bs) (word_of_nat (archive_length ar))],
               la\<lparr>meta_ar := ar, shared := (shared la)\<lparr>sdata := []\<rparr>, lcur := max (lcur la) (length (lazies la))\<rparr>))))"

section \<open>The contract of a pair of overloads\<close>

definition lwrites :: "(marchive \<times> data_block list) res \<Rightarrow> marchive \<Rightarrow> data_block list \<Rightarrow> byte list \<Rightarrow> byte list list \<Rightarrow> bool" where
  "lwrites r ar data bs cs \<longleftrightarrow> (\<exists>ar' data'. r = Inr (ar', data @ data') \<and> archive_ok ar' \<and> default_malloc ar' \<and>
     unread ar' = unread ar @ map Some bs \<and> cursor ar' = cursor ar \<and> map block_read data' = map Inr cs)"

definition shared_holds :: "shared_reader \<Rightarrow> byte list list \<Rightarrow> bool" where
  "shared_holds sh cs \<longleftrightarrow> map block_read (drop (spos sh) (sdata sh)) = map Inr cs"

definition lreads :: "('a \<times> marchive \<times> shared_reader) res \<Rightarrow> 'a \<Rightarrow> byte option list \<Rightarrow> byte list list \<Rightarrow> bool" where
  "lreads r x rest cs \<longleftrightarrow> (\<exists>ar' sh'. r = Inr (x, ar', sh') \<and> archive_ok ar' \<and> unread ar' = rest \<and> shared_holds sh' cs)"

locale lazy_archivable =
  fixes ser :: "'a lazy_serializer"
    and des :: "'a lazy_deserializer"
    and enc :: "'a \<Rightarrow> byte list"
    and blks :: "'a \<Rightarrow> byte list list"
    and valid :: "'a \<Rightarrow> bool"
  assumes ser_writes: "archive_ok ar \<Longrightarrow> default_malloc ar \<Longrightarrow> valid x \<Longrightarrow> lwrites (ser x ar data) ar data (enc x) (blks x)"
    and des_reads: "archive_ok ar \<Longrightarrow> valid x \<Longrightarrow> unread ar = map Some (enc x) @ rest \<Longrightarrow> shared_holds sh (blks x @ cs) \<Longrightarrow>
      lreads (des ar sh) x rest cs"

lemma lwrites_rbind:
  assumes "lwrites r ar data bs cs"
    and "\<And>ar' data'. archive_ok ar' \<Longrightarrow> default_malloc ar' \<Longrightarrow> lwrites (k (ar', data')) ar' data' bs' cs'"
  shows "lwrites (rbind r k) ar data (bs @ bs') (cs @ cs')"
proof -
  obtain ar1 d1 where 1: "r = Inr (ar1, data @ d1)" "archive_ok ar1" "default_malloc ar1"
      "unread ar1 = unread ar @ map Some bs" "cursor ar1 = cursor ar" "map block_read d1 = map Inr cs"
    using assms(1) by (auto simp: lwrites_def)
  obtain ar2 d2 where "k (ar1, data @ d1) = Inr (ar2, data @ d1 @ d2)" "archive_ok ar2" "default_malloc ar2"
      "unread ar2 = unread ar1 @ map Some bs'" "cursor ar2 = cursor ar1" "map block_read d2 = map Inr cs'"
    using assms(2) [OF 1(2,3), of "data @ d1"] by (auto simp: lwrites_def)
  then show ?thesis using 1 unfolding lwrites_def by (intro exI [of _ ar2] exI [of _ "d1 @ d2"]) auto
qed

lemma lreads_rbind:
  assumes "lreads r x rest cs"
    and "\<And>ar' sh'. archive_ok ar' \<Longrightarrow> unread ar' = rest \<Longrightarrow> shared_holds sh' cs \<Longrightarrow> lreads (k (x, ar', sh')) y rest' cs'"
  shows "lreads (rbind r k) y rest' cs'"
  using assms unfolding lreads_def by force

lemma lwrites_return: "archive_ok ar \<Longrightarrow> default_malloc ar \<Longrightarrow> lwrites (Inr (ar, data)) ar data [] []"
  by (auto simp: lwrites_def)

lemma lreads_return: "archive_ok ar \<Longrightarrow> shared_holds sh cs \<Longrightarrow> lreads (Inr (x, ar, sh)) x (unread ar) cs"
  by (auto simp: lreads_def)

lemma rbind_pair: "rbind (rbind r (\<lambda>ar. Inr (ar, data))) (\<lambda>p. k (fst p) (snd p)) = rbind r (\<lambda>ar. k ar data)"
  by (cases r) auto

text \<open>Serializers of the archive never move its cursor.\<close>

definition cursor_stays :: "(bool \<times> marchive) res \<Rightarrow> marchive \<Rightarrow> bool" where
  "cursor_stays r ar \<longleftrightarrow> (\<exists>b ar'. r = Inr (b, ar') \<and> archive_ok ar' \<and> default_malloc ar' \<and> cursor ar' = cursor ar)"

definition keeps_cursor :: "'a serializer \<Rightarrow> bool" where
  "keeps_cursor s \<longleftrightarrow> (\<forall>x ar. archive_ok ar \<longrightarrow> default_malloc ar \<longrightarrow> cursor_stays (s x ar) ar)"

lemma cursor_stays_raw: "archive_ok ar \<Longrightarrow> default_malloc ar \<Longrightarrow> cursor_stays (write_raw_uncheck cells ar) ar"
  using write_raw_append [of ar cells] by (auto simp: cursor_stays_def write_raw_uncheck_def)

lemma cursor_stays_and_then:
  assumes "cursor_stays r ar" "\<And>ar'. archive_ok ar' \<Longrightarrow> default_malloc ar' \<Longrightarrow> cursor_stays (k ar') ar'"
  shows "cursor_stays (and_then r k) ar"
  using assms unfolding cursor_stays_def and_then_def by force

lemma keeps_cursor_word: "keeps_cursor (serialize_word :: 'w :: len word serializer)"
proof -
  have "cursor_stays (serialize_word x ar) ar" if "archive_ok ar" "default_malloc ar" for x :: "'w word" and ar
    using write_raw_append [of ar "map Some (word_bytes x)"] that
    by (auto simp: cursor_stays_def serialize_word_def write_pod_uncheck_def)
  then show ?thesis by (simp add: keeps_cursor_def)
qed

lemma keeps_cursor_size: "keeps_cursor serialize_size"
  using keeps_cursor_word [where 'w = 64] by (auto simp: keeps_cursor_def serialize_size_def)

lemma keeps_cursor_string: "keeps_cursor serialize_string"
  using keeps_cursor_size unfolding keeps_cursor_def serialize_string_def
  by (auto intro!: cursor_stays_and_then cursor_stays_raw)

lemma lwrites_put:
  assumes "archivable s d e v" "keeps_cursor s" "archive_ok ar" "default_malloc ar" "v x"
  shows "lwrites (rbind (put s x ar) (\<lambda>ar1. Inr (ar1, data))) ar data (e x) []"
proof -
  obtain ar' where "s x ar = Inr (True, ar')" "archive_ok ar'" "default_malloc ar'" "unread ar' = unread ar @ map Some (e x)"
    using archivable.ser_writes [OF assms(1,3,4,5)] by (auto simp: writes_def)
  moreover from this have "cursor ar' = cursor ar"
    using assms(2-4) unfolding keeps_cursor_def cursor_stays_def by (metis Inr_inject Pair_inject)
  ultimately show ?thesis by (simp add: lwrites_def put_def)
qed

lemma lreads_get:
  assumes "archivable s d e v" "archive_ok ar" "v x" "unread ar = map Some (e x) @ rest"
  shows "\<exists>ar'. get d ar = Inr (x, ar') \<and> archive_ok ar' \<and> unread ar' = rest"
  using archivable.des_reads [OF assms] by (auto simp: reads_def get_def)

lemma lazy_plain:
  assumes "archivable s d e v" "keeps_cursor s"
  shows "lazy_archivable (lazy_ser_plain s) (lazy_des_plain d) e (\<lambda>_. []) v"
proof
  show "archive_ok ar \<Longrightarrow> default_malloc ar \<Longrightarrow> v x \<Longrightarrow> lwrites (lazy_ser_plain s x ar data) ar data (e x) []" for ar x data
    unfolding lazy_ser_plain_def by (rule lwrites_put [OF assms])
  show "lreads (lazy_des_plain d ar sh) x rest cs"
    if "archive_ok ar" "v x" "unread ar = map Some (e x) @ rest" "shared_holds sh ([] @ cs)" for ar x rest sh cs
    using lreads_get [OF assms(1) that(1-3)] that(4) by (auto simp: lazy_des_plain_def lreads_def)
qed

lemma get_shared_holds:
  assumes "shared_holds sh (c # cs)" "0 < sz" "sz dvd length c"
  shows "\<exists>own sh'. get_shared_uncheck sz sh = Inr (c, length c div sz, own, sh') \<and> shared_holds sh' cs \<and> block_read own = Inr c"
proof -
  let ?b = "sdata sh ! spos sh"
  have lt: "spos sh < length (sdata sh)" using assms(1) by (cases "spos sh < length (sdata sh)") (auto simp: shared_holds_def)
  then have split: "drop (spos sh) (sdata sh) = ?b # drop (Suc (spos sh)) (sdata sh)" by (simp add: Cons_nth_drop_Suc)
  then have b: "block_read ?b = Inr c" and rest: "map block_read (drop (Suc (spos sh)) (sdata sh)) = map Inr cs"
    using assms(1) by (auto simp: shared_holds_def)
  have len: "unat (blen ?b) = length c"
    using b by (auto simp: block_read_def split: option.splits if_splits)
  have "drop (Suc (spos sh)) ((sdata sh)[spos sh := x]) = drop (Suc (spos sh)) (sdata sh)" for x
    by (simp add: drop_update_swap [symmetric] drop_update_cancel)
  then show ?thesis
    using lt b rest len assms(2,3) by (auto simp: get_shared_uncheck_def Let_def block_move_def shared_holds_def)
qed

lemma block_view_read:
  assumes "length c < 2 ^ 32" "p = Some c \<or> p = None \<and> c = []"
  shows "block_read (block_view addr p (word_of_nat (length c))) = Inr c"
proof -
  have "unat (word_of_nat (length c) :: 32 word) = length c" using assms(1) by (simp only: unat_of_nat) simp
  then show ?thesis using assms(2) by (auto simp: block_read_def block_view_def)
qed

lemma put_shared_lwrites:
  assumes "archive_ok ar" "default_malloc ar" "n * sz < 2 ^ 32" "length c = n * sz" "p = Some c \<or> p = None \<and> c = []"
  shows "lwrites (Inr (ar, put_shared_uncheck addr p sz n data)) ar data [] [c]"
  using assms block_view_read [of c p addr] by (auto simp: lwrites_def put_shared_uncheck_def simp del: of_nat_mult)

lemma lazy_pod_vector:
  assumes "\<And>x. v x \<Longrightarrow> length (img x) = sz \<and> of_img (img x) = x" "0 < sz"
  shows "lazy_archivable (lazy_ser_pod_vector addr sz img) (lazy_des_pod_vector sz of_img) (\<lambda>_. [])
    (\<lambda>xs. [concat (map img xs)]) (\<lambda>xs. list_all v xs \<and> length xs * sz < 2 ^ 32)"
proof
  fix ar :: marchive and xs data assume a: "archive_ok ar" "default_malloc ar" "list_all v xs \<and> length xs * sz < 2 ^ 32"
  have "list_all (\<lambda>x. length (img x) = sz) xs" using a(3) assms(1) by (auto simp: list_all_iff)
  then have "length (concat (map img xs)) = length xs * sz" using length_images [of img sz xs] by (simp add: mult.commute)
  then show "lwrites (lazy_ser_pod_vector addr sz img xs ar data) ar data [] [concat (map img xs)]"
    unfolding lazy_ser_pod_vector_def using a by (intro put_shared_lwrites) auto
next
  fix ar :: marchive and xs rest sh cs
  assume a: "archive_ok ar" "list_all v xs \<and> length xs * sz < 2 ^ 32" "unread ar = map Some [] @ rest"
    "shared_holds sh ([concat (map img xs)] @ cs)"
  have l: "list_all (\<lambda>x. length (img x) = sz) xs" and inv: "map (\<lambda>x. of_img (img x)) xs = xs"
    using a(2) assms(1) by (auto simp: list_all_iff intro: map_idI)
  have len: "length (concat (map img xs)) = sz * length xs" by (rule length_images [OF l])
  obtain own sh' where "get_shared_uncheck sz sh = Inr (concat (map img xs), length xs, own, sh')" "shared_holds sh' cs"
    using get_shared_holds [of sh "concat (map img xs)" cs sz] a(4) assms(2) len by auto
  then show "lreads (lazy_des_pod_vector sz of_img ar sh) xs rest cs"
    using a(1,3) inv by (auto simp: lazy_des_pod_vector_def lreads_def split_images_concat [OF l] comp_def)
qed

context lazy_archivable
begin

lemma each_lwrites:
  "archive_ok ar \<Longrightarrow> default_malloc ar \<Longrightarrow> list_all valid xs \<Longrightarrow>
     lwrites (lazy_ser_each ser xs ar data) ar data (concat (map enc xs)) (concat (map blks xs))"
proof (induction xs arbitrary: ar data)
  case (Cons x xs)
  show ?case
    unfolding lazy_ser_each.simps list.map concat.simps
    by (rule lwrites_rbind [OF ser_writes]) (use Cons in auto)
qed (simp add: lwrites_return)

lemma each_lreads:
  "archive_ok ar \<Longrightarrow> list_all valid xs \<Longrightarrow> unread ar = map Some (concat (map enc xs)) @ rest \<Longrightarrow>
     shared_holds sh (concat (map blks xs) @ cs) \<Longrightarrow> lreads (lazy_des_each des (length xs) ar sh) xs rest cs"
proof (induction xs arbitrary: ar sh)
  case Nil
  then show ?case by (auto simp: lreads_def)
next
  case (Cons x xs)
  have 1: "lreads (des ar sh) x (map Some (concat (map enc xs)) @ rest) (concat (map blks xs) @ cs)"
    using Cons.prems by (intro des_reads) auto
  show ?case
    unfolding length_Cons lazy_des_each.simps
    by (rule lreads_rbind [OF 1], unfold prod.case, rule lreads_rbind [OF Cons.IH])
      (use Cons.prems in \<open>auto simp: lreads_def\<close>)
qed

end

lemma lazy_vector:
  assumes "lazy_archivable s d e b v"
  shows "lazy_archivable (lazy_ser_vector s) (lazy_des_vector d) (enc_vector e) (\<lambda>xs. concat (map b xs)) (valid_vector v)"
proof
  fix ar :: marchive and xs data assume a: "archive_ok ar" "default_malloc ar" "valid_vector v xs"
  have "lwrites (rbind (rbind (put serialize_size (length xs) ar) (\<lambda>ar1. Inr (ar1, data))) (\<lambda>p. lazy_ser_each s xs (fst p) (snd p)))
      ar data (size_bytes (length xs) @ concat (map e xs)) ([] @ concat (map b xs))"
    by (rule lwrites_rbind [OF lwrites_put [OF size_ar.archivable_axioms keeps_cursor_size a(1,2)]])
      (use a lazy_archivable.each_lwrites [OF assms(1)] in \<open>auto simp: valid_vector_def\<close>)
  then show "lwrites (lazy_ser_vector s xs ar data) ar data (enc_vector e xs) (concat (map b xs))"
    unfolding lazy_ser_vector_def enc_vector_def rbind_pair by simp
next
  fix ar :: marchive and xs rest sh cs
  assume a: "archive_ok ar" "valid_vector v xs" "unread ar = map Some (enc_vector e xs) @ rest" "shared_holds sh (concat (map b xs) @ cs)"
  obtain ar' where "get deserialize_size ar = Inr (length xs, ar')" "archive_ok ar'"
      "unread ar' = map Some (concat (map e xs)) @ rest"
    using lreads_get [OF size_ar.archivable_axioms a(1), of "length xs" "map Some (concat (map e xs)) @ rest"] a(2,3)
    by (auto simp: enc_vector_def valid_vector_def)
  then show "lreads (lazy_des_vector d ar sh) xs rest cs"
    using lazy_archivable.each_lreads [OF assms(1), of ar' xs rest sh cs] a by (simp add: lazy_des_vector_def valid_vector_def)
qed

lemma lazy_pair:
  assumes "lazy_archivable s1 d1 e1 b1 v1" "lazy_archivable s2 d2 e2 b2 v2"
  shows "lazy_archivable (lazy_ser_pair s1 s2) (lazy_des_pair d1 d2) (\<lambda>(x, y). e1 x @ e2 y) (\<lambda>(x, y). b1 x @ b2 y)
    (\<lambda>(x, y). v1 x \<and> v2 y)"
proof
  fix ar :: marchive and p data assume a: "archive_ok ar" "default_malloc ar" "case p of (x, y) \<Rightarrow> v1 x \<and> v2 y"
  then show "lwrites (lazy_ser_pair s1 s2 p ar data) ar data (case p of (x, y) \<Rightarrow> e1 x @ e2 y) (case p of (x, y) \<Rightarrow> b1 x @ b2 y)"
    unfolding lazy_ser_pair_def
    by (cases p) (auto intro!: lwrites_rbind lazy_archivable.ser_writes [OF assms(1)] lazy_archivable.ser_writes [OF assms(2)])
next
  fix ar :: marchive and p rest sh cs
  assume a: "archive_ok ar" "case p of (x, y) \<Rightarrow> v1 x \<and> v2 y" "unread ar = map Some (case p of (x, y) \<Rightarrow> e1 x @ e2 y) @ rest"
    "shared_holds sh ((case p of (x, y) \<Rightarrow> b1 x @ b2 y) @ cs)"
  obtain x y where p: "p = (x, y)" by (cases p) auto
  have 1: "lreads (d1 ar sh) x (map Some (e2 y) @ rest) (b2 y @ cs)"
    using a p by (intro lazy_archivable.des_reads [OF assms(1)]) auto
  show "lreads (lazy_des_pair d1 d2 ar sh) p rest cs"
    unfolding lazy_des_pair_def p
    by (rule lreads_rbind [OF 1], unfold prod.case, rule lreads_rbind [OF lazy_archivable.des_reads [OF assms(2), where x = y]])
      (use a p in \<open>auto simp: lreads_def\<close>)
qed

lemma lazy_map:
  assumes "archivable sk dk ek vk" "keeps_cursor sk" "lazy_archivable sv dv ev bv vv"
  shows "lazy_archivable (lazy_ser_map sk sv) (lazy_des_map dk dv) (enc_vector (\<lambda>(k, v). ek k @ ev v))
    (\<lambda>m. concat (map (\<lambda>(k, v). bv v) m)) (\<lambda>m. valid_vector (\<lambda>(k, v). vk k \<and> vv v) m \<and> distinct (map fst m))"
proof -
  have pair: "lazy_archivable (lazy_ser_pair (lazy_ser_plain sk) sv) (lazy_des_pair (lazy_des_plain dk) dv)
      (\<lambda>(k, v). ek k @ ev v) (\<lambda>(k, v). [] @ bv v) (\<lambda>(k, v). vk k \<and> vv v)"
    by (rule lazy_pair [OF lazy_plain [OF assms(1,2)] assms(3)])
  have fn: "(\<lambda>item ar2 data2. rbind (put sk (fst item) ar2) (\<lambda>ar3. sv (snd item) ar3 data2)) = lazy_ser_pair (lazy_ser_plain sk) sv"
    by (intro ext) (simp add: lazy_ser_pair_def lazy_ser_plain_def rbind_def split: sum.splits)
  have ser: "lazy_ser_map sk sv = lazy_ser_vector (lazy_ser_pair (lazy_ser_plain sk) sv)"
    by (intro ext) (simp only: lazy_ser_map_def lazy_ser_vector_def fn)
  have ins: "lreads (lazy_emplace_each dk dv (length m) acc ar sh) (acc @ m) rest cs"
    if "archive_ok ar" "list_all (\<lambda>(k, v). vk k \<and> vv v) m" "distinct (map fst (acc @ m))"
      "unread ar = map Some (concat (map (\<lambda>(k, v). ek k @ ev v) m)) @ rest"
      "shared_holds sh (concat (map (\<lambda>(k, v). bv v) m) @ cs)" for m acc ar sh rest cs
    using that
  proof (induction m arbitrary: acc ar sh)
    case (Cons kv m)
    obtain k v where kv: "kv = (k, v)" by (cases kv) auto
    let ?r = "map Some (concat (map (\<lambda>(k, v). ek k @ ev v) m)) @ rest"
    obtain ar1 where ar1: "get dk ar = Inr (k, ar1)" "archive_ok ar1" "unread ar1 = map Some (ev v) @ ?r"
      using lreads_get [OF assms(1) Cons.prems(1), of k "map Some (ev v) @ ?r"] Cons.prems kv by auto
    have "lreads (dv ar1 sh) v ?r (concat (map (\<lambda>(k, v). bv v) m) @ cs)"
      using ar1 Cons.prems kv by (intro lazy_archivable.des_reads [OF assms(3)]) auto
    moreover have "k \<notin> fst ` set acc" using Cons.prems kv by auto
    ultimately show ?case
      using ar1 Cons.prems Cons.IH [of _ "acc @ [(k, v)]"] kv by (auto simp: lreads_def)
  qed (auto simp: lreads_def)
  show ?thesis
  proof
    show "lwrites (lazy_ser_map sk sv m ar data) ar data (enc_vector (\<lambda>(k, v). ek k @ ev v) m) (concat (map (\<lambda>(k, v). bv v) m))"
      if "archive_ok ar" "default_malloc ar" "valid_vector (\<lambda>(k, v). vk k \<and> vv v) m \<and> distinct (map fst m)" for ar m data
      unfolding ser using lazy_archivable.ser_writes [OF lazy_vector [OF pair]] that by simp
    fix ar :: marchive and m rest sh cs
    assume a: "archive_ok ar" "valid_vector (\<lambda>(k, v). vk k \<and> vv v) m \<and> distinct (map fst m)"
      "unread ar = map Some (enc_vector (\<lambda>(k, v). ek k @ ev v) m) @ rest"
      "shared_holds sh (concat (map (\<lambda>(k, v). bv v) m) @ cs)"
    let ?r = "map Some (concat (map (\<lambda>(k, v). ek k @ ev v) m)) @ rest"
    obtain ar' where "get deserialize_size ar = Inr (length m, ar')" "archive_ok ar'" "unread ar' = ?r"
      using lreads_get [OF size_ar.archivable_axioms a(1), of "length m" ?r] a(2,3)
      by (auto simp: enc_vector_def valid_vector_def)
    then show "lreads (lazy_des_map dk dv ar sh) m rest cs"
      using ins [where acc = "[]" and m = m and ar = ar' and sh = sh] a by (simp add: lazy_des_map_def valid_vector_def)
  qed
qed

section \<open>Values of many types\<close>

fun lazy_gets :: "('v \<Rightarrow> 't) \<Rightarrow> ('t \<Rightarrow> 'v lazy_deserializer) \<Rightarrow> 't list \<Rightarrow> 'v lazy_archive \<Rightarrow> ('v list \<times> 'v lazy_archive) res" where
  "lazy_gets ty_of des [] la = Inr ([], la)"
| "lazy_gets ty_of des (t # ts) la =
     rbind (lazy_get ty_of des t la) (\<lambda>(v, la1). rbind (lazy_gets ty_of des ts la1) (\<lambda>(vs, la2). Inr (v # vs, la2)))"

definition lazy_puts :: "'v list \<Rightarrow> 'v lazy_archive \<Rightarrow> 'v lazy_archive" where
  "lazy_puts vs la = fold lazy_put vs la"

lemma lazy_puts_result: "lazy_puts vs la = la\<lparr>lazies := lazies la @ vs\<rparr>"
  by (induction vs arbitrary: la) (auto simp: lazy_puts_def lazy_put_def)

lemma lazy_attach_reads:
  assumes "map block_read data = map Inr (cs @ [bs])"
  shows "\<exists>la. lazy_attach data lazy_new = Inr la \<and> archive_ok (rd_ar la) \<and> unread (rd_ar la) = map Some bs \<and>
    shared_holds (shared la) (cs @ [bs])"
proof -
  have ne: "data \<noteq> []" using assms by auto
  have "last (map block_read data) = Inr bs" using assms by (metis last_map last_snoc snoc_eq_iff_butlast)
  then have b: "block_read (last data) = Inr bs" using ne by (simp add: last_map)
  let ?p = "map_option (map Some) (bmem (last data))" and ?n = "unat (blen (last data))"
  obtain ar where "set_read_buffer ?p ?n No_delete (archive_new False) = Inr ar" "archive_ok ar" "unread ar = map Some bs"
    using b by (fastforce simp: block_read_def set_read_buffer_def set_buffer_def archive_ok_def unread_def capacity_def
        pad_to_def reset_def take_map archive_new_def set_default_deleter_def split: option.splits if_splits)
  then show ?thesis
    using ne assms by (auto simp: lazy_attach_def lazy_new_def shared_holds_def)
qed

text \<open>The contract of the dispatch over all types: each value is read back by the deserializer of its own type.\<close>

locale lazy_universe =
  fixes ser :: "'v lazy_serializer"
    and ty_of :: "'v \<Rightarrow> 't"
    and des :: "'t \<Rightarrow> 'v lazy_deserializer"
    and enc :: "'v \<Rightarrow> byte list"
    and blks :: "'v \<Rightarrow> byte list list"
    and valid :: "'v \<Rightarrow> bool"
  assumes ser_lwrites: "archive_ok ar \<Longrightarrow> default_malloc ar \<Longrightarrow> valid x \<Longrightarrow> lwrites (ser x ar data) ar data (enc x) (blks x)"
    and des_lreads: "archive_ok ar \<Longrightarrow> valid x \<Longrightarrow> unread ar = map Some (enc x) @ rest \<Longrightarrow> shared_holds sh (blks x @ cs) \<Longrightarrow>
      lreads (des (ty_of x) ar sh) x rest cs"
begin

lemma all_lwrites:
  "archive_ok ar \<Longrightarrow> default_malloc ar \<Longrightarrow> list_all valid xs \<Longrightarrow>
     lwrites (lazy_ser_each ser xs ar data) ar data (concat (map enc xs)) (concat (map blks xs))"
proof (induction xs arbitrary: ar data)
  case (Cons x xs)
  show ?case
    unfolding lazy_ser_each.simps list.map concat.simps
    by (rule lwrites_rbind [OF ser_lwrites]) (use Cons in auto)
qed (simp add: lwrites_return)

lemma gets_remote:
  assumes "archive_ok (rd_ar la)" "list_all valid vs" "unread (rd_ar la) = map Some (concat (map enc vs))"
    "shared_holds (shared la) (concat (map blks vs) @ [c])"
  shows "\<exists>la'. lazy_gets ty_of des (map ty_of vs) la = Inr (vs, la')"
  using assms
proof (induction vs arbitrary: la)
  case (Cons v vs)
  have "spos (shared la) < length (sdata (shared la))"
    using Cons.prems(4) by (cases "spos (shared la) < length (sdata (shared la))") (auto simp: shared_holds_def)
  then have ne: "\<not> shared_exhausted (shared la)" by (simp add: shared_exhausted_def)
  have "lreads (des (ty_of v) (rd_ar la) (shared la)) v (map Some (concat (map enc vs))) (concat (map blks vs) @ [c])"
    using Cons.prems by (intro des_lreads) auto
  then obtain ar sh where g: "lazy_get ty_of des (ty_of v) la = Inr (v, la\<lparr>rd_ar := ar, shared := sh\<rparr>)"
      "archive_ok ar" "unread ar = map Some (concat (map enc vs))" "shared_holds sh (concat (map blks vs) @ [c])"
    using ne by (auto simp: lreads_def lazy_get_def)
  then show ?case using Cons.IH [of "la\<lparr>rd_ar := ar, shared := sh\<rparr>"] Cons.prems(2) by auto
qed simp

lemma gets_local:
  "lcur la + length vs \<le> length (lazies la) \<Longrightarrow> take (length vs) (drop (lcur la) (lazies la)) = vs \<Longrightarrow>
   is_exhausted (rd_ar la) \<Longrightarrow> shared_exhausted (shared la) \<Longrightarrow>
   \<exists>la'. lazy_gets ty_of des (map ty_of vs) la = Inr (vs, la')"
proof (induction vs arbitrary: la)
  case (Cons v vs)
  have d: "drop (lcur la) (lazies la) = lazies la ! lcur la # drop (Suc (lcur la)) (lazies la)"
    using Cons.prems(1) by (simp add: Cons_nth_drop_Suc)
  then have "lazies la ! lcur la = v" "take (length vs) (drop (Suc (lcur la)) (lazies la)) = vs"
    using Cons.prems(2) by simp_all
  then show ?case
    using Cons.IH [of "la\<lparr>lcur := lcur la + 1\<rparr>"] Cons.prems by (auto simp: lazy_get_def)
qed simp

lemma apply_writes:
  assumes "list_all valid vs" "vs \<noteq> []" "length (concat (map enc vs)) < 2 ^ 32"
  shows "\<exists>data la. lazy_apply ser addr (lazy_puts vs lazy_new) = Inr (data, la) \<and>
    map block_read data = map Inr (concat (map blks vs) @ [concat (map enc vs)])"
proof -
  let ?bs = "concat (map enc vs)" and ?ar = "clear (archive_new True)"
  have ok: "archive_ok ?ar" "default_malloc ?ar" "unread ?ar = []" "cursor ?ar = 0"
    by (simp_all add: clear_def archive_new_def archive_ok_def unread_def set_default_deleter_def capacity_def)
  obtain ar data where w: "lazy_ser_each ser vs ?ar [] = Inr (ar, data)" "archive_ok ar" "unread ar = map Some ?bs"
      "cursor ar = 0" "map block_read data = map Inr (concat (map blks vs))"
    using all_lwrites [OF ok(1,2) assms(1), of "[]"] ok by (auto simp: lwrites_def)
  have tk: "take (fin ar) (buf ar) = map Some ?bs" using w(3,4) by (simp add: unread_def)
  then have len: "fin ar = length ?bs" using w(2) by (auto simp: archive_ok_def capacity_def dest: arg_cong [of _ _ length])
  have null: "null_buffer ar \<Longrightarrow> ?bs = []" using w(2) len tk by (auto simp: archive_ok_def)
  let ?m = "block_view addr (if null_buffer ar then None else Some ?bs) (word_of_nat (length ?bs))"
  have "block_read ?m = Inr ?bs"
    by (rule block_view_read [OF assms(3)]) (use null in \<open>cases "null_buffer ar"; simp only: if_True if_False\<close>, blast+)
  moreover have "lazy_apply ser addr (lazy_puts vs lazy_new) = Inr (data @ [?m],
      (lazy_puts vs lazy_new)\<lparr>meta_ar := ar, shared := \<lparr>sdata = [], spos = 0\<rparr>, lcur := length vs\<rparr>)"
    using w(1) tk len assms(2)
    by (simp add: lazy_apply_def lazy_puts_result lazy_new_def archive_length_def initialised_map)
  ultimately show ?thesis using w(5) by auto
qed

lemma send_receive:
  assumes "list_all valid vs" "vs \<noteq> []" "length (concat (map enc vs)) < 2 ^ 32"
  shows "\<exists>data la. lazy_apply ser addr (lazy_puts vs lazy_new) = Inr (data, la) \<and>
    (\<forall>data'. map block_read data' = map block_read data \<longrightarrow>
       (\<exists>la1 la2. lazy_attach data' lazy_new = Inr la1 \<and> lazy_gets ty_of des (map ty_of vs) la1 = Inr (vs, la2)))"
  using apply_writes [OF assms, of addr] lazy_attach_reads gets_remote [OF _ assms(1)] by metis

end

text \<open>An instance with four C++ types: an integer, a string, a vector of integers, a map from strings to vectors.\<close>

datatype lazy_value = LWord "64 word" | LString "byte list" | LWords "32 word list" | LTable "(byte list \<times> 64 word list) list"

datatype lazy_type = TWord | TString | TWords | TTable

fun lazy_type_of :: "lazy_value \<Rightarrow> lazy_type" where
  "lazy_type_of (LWord _) = TWord"
| "lazy_type_of (LString _) = TString"
| "lazy_type_of (LWords _) = TWords"
| "lazy_type_of (LTable _) = TTable"

fun lazy_serialize :: "lazy_value lazy_serializer" where
  "lazy_serialize (LWord w) = lazy_ser_plain serialize_word w"
| "lazy_serialize (LString str) = lazy_ser_plain serialize_string str"
| "lazy_serialize (LWords ws) = lazy_ser_pod_vector 4096 4 word_bytes ws"
| "lazy_serialize (LTable m) = lazy_ser_map serialize_string (lazy_ser_pod_vector 8192 8 word_bytes) m"

definition lmap :: "('a \<Rightarrow> 'b) \<Rightarrow> 'a lazy_deserializer \<Rightarrow> 'b lazy_deserializer" where
  "lmap f d ar sh = rbind (d ar sh) (\<lambda>(x, ar1, sh1). Inr (f x, ar1, sh1))"

fun lazy_deserialize :: "lazy_type \<Rightarrow> lazy_value lazy_deserializer" where
  "lazy_deserialize TWord = lmap LWord (lazy_des_plain deserialize_word)"
| "lazy_deserialize TString = lmap LString (lazy_des_plain deserialize_string)"
| "lazy_deserialize TWords = lmap LWords (lazy_des_pod_vector 4 bytes_word)"
| "lazy_deserialize TTable = lmap LTable (lazy_des_map deserialize_string (lazy_des_pod_vector 8 bytes_word))"

definition string_bytes :: "byte list \<Rightarrow> byte list" where
  "string_bytes str = size_bytes (length str) @ str"

fun lazy_enc :: "lazy_value \<Rightarrow> byte list" where
  "lazy_enc (LWord w) = word_bytes w"
| "lazy_enc (LString str) = string_bytes str"
| "lazy_enc (LWords ws) = []"
| "lazy_enc (LTable m) = enc_vector (\<lambda>(k, v). string_bytes k @ []) m"

fun lazy_blocks :: "lazy_value \<Rightarrow> byte list list" where
  "lazy_blocks (LWords ws) = [concat (map word_bytes ws)]"
| "lazy_blocks (LTable m) = concat (map (\<lambda>(k, v). [concat (map word_bytes v)]) m)"
| "lazy_blocks _ = []"

fun lazy_valid :: "lazy_value \<Rightarrow> bool" where
  "lazy_valid (LWord w) = True"
| "lazy_valid (LString str) = (length str < 2 ^ 64)"
| "lazy_valid (LWords ws) = (length ws * 4 < 2 ^ 32)"
| "lazy_valid (LTable m) \<longleftrightarrow> valid_vector (\<lambda>(k, v). length k < 2 ^ 64 \<and> length v * 8 < 2 ^ 32) m \<and> distinct (map fst m)"

lemma lazy_pod_words:
  assumes "8 dvd LENGTH('w)" "LENGTH('w) div 8 = sz"
  shows "lazy_archivable (lazy_ser_pod_vector addr sz word_bytes) (lazy_des_pod_vector sz bytes_word) (\<lambda>_. [])
    (\<lambda>xs :: 'w :: len word list. [concat (map word_bytes xs)]) (\<lambda>xs. length xs * sz < 2 ^ 32)"
proof -
  have "0 < LENGTH('w)" by simp
  then have sz: "0 < sz" using assms by (metis dvd_div_eq_0_iff less_numeral_extra(3) neq0_conv)
  have e: "(\<lambda>xs :: 'w word list. length xs * sz < 2 ^ 32) = (\<lambda>xs. list_all (\<lambda>_. True) xs \<and> length xs * sz < 2 ^ 32)"
    by (simp add: list_all_iff)
  have "length (word_bytes w) = sz \<and> bytes_word (word_bytes w) = w" for w :: "'w word"
    using bytes_word_bytes [OF assms(1)] assms(2) by (simp add: word_bytes_def)
  then show ?thesis
    unfolding e using lazy_pod_vector [where img = word_bytes and of_img = bytes_word, OF _ sz] by blast
qed

lemma lreads_lmap: "lreads (d ar sh) x rest cs \<Longrightarrow> lreads (lmap f d ar sh) (f x) rest cs"
  by (auto simp: lreads_def lmap_def)

lemmas lazy_word_contract = lazy_plain [OF u64_ar.archivable_axioms keeps_cursor_word]
lemmas lazy_string_contract = lazy_plain [OF string_ar.archivable_axioms keeps_cursor_string, folded string_bytes_def]

lemma lazy_words_contract:
  "lazy_archivable (lazy_ser_pod_vector addr 4 word_bytes) (lazy_des_pod_vector 4 bytes_word) (\<lambda>_. [])
    (\<lambda>xs :: 32 word list. [concat (map word_bytes xs)]) (\<lambda>xs. length xs * 4 < 2 ^ 32)"
  by (rule lazy_pod_words) simp_all

lemma lazy_table_contract:
  "lazy_archivable (lazy_ser_map serialize_string (lazy_ser_pod_vector addr 8 word_bytes))
    (lazy_des_map deserialize_string (lazy_des_pod_vector 8 bytes_word)) (enc_vector (\<lambda>(k, v). string_bytes k @ []))
    (\<lambda>m. concat (map (\<lambda>(k, v :: 64 word list). [concat (map word_bytes v)]) m))
    (\<lambda>m. valid_vector (\<lambda>(k, v). length k < 2 ^ 64 \<and> length v * 8 < 2 ^ 32) m \<and> distinct (map fst m))"
  unfolding string_bytes_def
  by (rule lazy_map [OF string_ar.archivable_axioms keeps_cursor_string lazy_pod_words]) simp_all

interpretation lz: lazy_universe lazy_serialize lazy_type_of lazy_deserialize lazy_enc lazy_blocks lazy_valid
proof
  fix ar :: marchive and x data assume a: "archive_ok ar" "default_malloc ar" "lazy_valid x"
  show "lwrites (lazy_serialize x ar data) ar data (lazy_enc x) (lazy_blocks x)"
    using a lazy_archivable.ser_writes [OF lazy_word_contract] lazy_archivable.ser_writes [OF lazy_string_contract]
      lazy_archivable.ser_writes [OF lazy_words_contract] lazy_archivable.ser_writes [OF lazy_table_contract]
    by (cases x) simp_all
next
  fix ar :: marchive and x rest sh cs
  assume a: "archive_ok ar" "lazy_valid x" "unread ar = map Some (lazy_enc x) @ rest" "shared_holds sh (lazy_blocks x @ cs)"
  show "lreads (lazy_deserialize (lazy_type_of x) ar sh) x rest cs"
  proof (cases x)
    case (LWord w)
    then show ?thesis using a lazy_archivable.des_reads [OF lazy_word_contract, of ar w rest sh cs] by (simp add: lreads_lmap)
  next
    case (LString str)
    then show ?thesis using a lazy_archivable.des_reads [OF lazy_string_contract, of ar str rest sh cs] by (simp add: lreads_lmap)
  next
    case (LWords ws)
    then show ?thesis using a by (auto intro!: lreads_lmap lazy_archivable.des_reads [OF lazy_words_contract])
  next
    case (LTable m)
    then show ?thesis using a by (auto intro!: lreads_lmap lazy_archivable.des_reads [OF lazy_table_contract])
  qed
qed

section \<open>Properties\<close>

text \<open>C13. Any sequence of values put into a lazy archive and applied gives blocks from which, once the same bytes
  have arrived in blocks on the other side, reading the types in order gives the values back.\<close>

theorem lazy_send_receive:
  assumes "list_all lazy_valid vs" "vs \<noteq> []" "length (concat (map lazy_enc vs)) < 2 ^ 32"
  shows "\<exists>data la. lazy_apply lazy_serialize addr (lazy_puts vs lazy_new) = Inr (data, la) \<and>
    (\<forall>data'. map block_read data' = map block_read data \<longrightarrow>
       (\<exists>la1 la2. lazy_attach data' lazy_new = Inr la1 \<and>
          lazy_gets lazy_type_of lazy_deserialize (map lazy_type_of vs) la1 = Inr (vs, la2)))"
  by (rule lz.send_receive [OF assms])

theorem lazy_send_receive_witness:
  "\<exists>data la. lazy_apply lazy_serialize 0 (lazy_puts [LWords [1, 2], LString [7], LTable [([8], [9])]] lazy_new) = Inr (data, la) \<and>
    (\<exists>la1 la2. lazy_attach data lazy_new = Inr la1 \<and>
       lazy_gets lazy_type_of lazy_deserialize [TWords, TString, TTable] la1 =
         Inr ([LWords [1, 2], LString [7], LTable [([8], [9])]], la2))"
  using lazy_send_receive [of "[LWords [1, 2], LString [7], LTable [([8], [9])]]" 0]
  by (fastforce simp: valid_vector_def string_bytes_def size_bytes_def word_bytes_def enc_vector_def)

text \<open>A vector whose bytes do not fit in 32 bits is truncated without notice: the block that represents it has
  its length modulo \<open>2 ^ 32\<close>, and that many elements arrive.\<close>

theorem lazy_block_truncates:
  assumes "0 < sz" "sz dvd 2 ^ 32" "length bs = n * sz"
  shows "\<exists>own sh. get_shared_uncheck sz \<lparr>sdata = put_shared_uncheck addr (Some bs) sz n [], spos = 0\<rparr> =
    Inr (take (n * sz mod 2 ^ 32) bs, n mod (2 ^ 32 div sz), own, sh)"
proof -
  have u: "unat (word_of_nat (n * sz) :: 32 word) = n * sz mod 2 ^ 32" by (simp only: unat_of_nat) simp
  obtain k where k: "2 ^ 32 = sz * k" using assms(2) unfolding dvd_def by blast
  have m: "n * sz mod 2 ^ 32 = (n mod k) * sz" unfolding k by (metis mult.commute mod_mult_mult1)
  have d: "2 ^ 32 div sz = k" unfolding k using assms(1) by simp
  have le: "n * sz mod 2 ^ 32 \<le> n * sz" by (rule mod_less_eq_dividend)
  show ?thesis
    using u m assms d le
    by (simp add: get_shared_uncheck_def put_shared_uncheck_def block_view_def block_read_def block_move_def Let_def
        del: of_nat_mult)
qed

theorem lazy_block_truncates_witness:
  "\<exists>own sh. get_shared_uncheck 4 \<lparr>sdata = put_shared_uncheck 0 (Some [1, 0, 0, 0, 2, 0, 0, 0]) 4 2 [], spos = 0\<rparr> =
    Inr ([1, 0, 0, 0, 2, 0, 0, 0], 2, own, sh)"
  using lazy_block_truncates [of 4 "[1, 0, 0, 0, 2, 0, 0, 0]" 2 0] by simp

end
