(* ===== verification/Rpc_Message.thy ===== *)
theory Rpc_Message
  imports Lazy_Archive
begin

text \<open>
  Messages, \<open>src/rpc/RpcMessage.h\<close> and \<open>src/rpc/RpcMessage.cpp\<close>: the head, requests and responses, the
  layout of a message in memory and the cursor that enumerates the pieces to be sent.

  Memory layout on a 64 bit little-endian machine without RDMA: a head has 40 bytes, the last two of them
  padding (zero here), a \<open>data_block_t\<close> has 16. \<open>start\<close> is the memory from the pointer \<open>_start\<close> to the end
  of the message, and pointers that leave it are errors. The callback of a failed send and the object \<open>_hold\<close> that only keeps memory alive are
  left out.
\<close>

section \<open>Head\<close>

datatype rpc_error_code =
    SUCC | ENOSUCHSERVER | ENOSUCHRANK | ENOSUCHSERVICE | ELOGICERROR | EILLEGALMSG | ETIMEOUT | ENOTFOUND
  | ECONNECTION | Unnamed_code "16 word"

fun error_word :: "rpc_error_code \<Rightarrow> 16 word" where
  "error_word SUCC = 0"
| "error_word ENOSUCHSERVER = 101"
| "error_word ENOSUCHRANK = 102"
| "error_word ENOSUCHSERVICE = 103"
| "error_word ELOGICERROR = 104"
| "error_word EILLEGALMSG = 105"
| "error_word ETIMEOUT = 106"
| "error_word ENOTFOUND = 107"
| "error_word ECONNECTION = 108"
| "error_word (Unnamed_code w) = w"

definition error_of_word :: "16 word \<Rightarrow> rpc_error_code" where
  "error_of_word w =
     (if w = 0 then SUCC else if w = 101 then ENOSUCHSERVER else if w = 102 then ENOSUCHRANK
      else if w = 103 then ENOSUCHSERVICE else if w = 104 then ELOGICERROR else if w = 105 then EILLEGALMSG
      else if w = 106 then ETIMEOUT else if w = 107 then ENOTFOUND else if w = 108 then ECONNECTION
      else Unnamed_code w)"

record rpc_head =
  body_size :: "64 word"
  src_rank :: "16 word"
  dest_rank :: "16 word"
  src_dealer :: "32 word"
  dest_dealer :: "32 word"
  rpc_id :: "32 word"
  sid :: "32 word"
  extra_block_count :: "32 word"
  extra_block_length :: "32 word"
  error_code :: rpc_error_code

definition rpc_head_new :: rpc_head where
  "rpc_head_new = \<lparr>body_size = 0, src_rank = -1, dest_rank = -1, src_dealer = -1, dest_dealer = -1, rpc_id = -1,
     sid = -1, extra_block_count = 0, extra_block_length = 0, error_code = SUCC\<rparr>"

abbreviation HEAD_SIZE :: nat where "HEAD_SIZE \<equiv> 40"
abbreviation BLOCK_SIZE :: nat where "BLOCK_SIZE \<equiv> 16"
abbreviation MIN_ZERO_COPY_SIZE :: nat where "MIN_ZERO_COPY_SIZE \<equiv> 4096"

definition msg_size :: "rpc_head \<Rightarrow> 64 word" where
  "msg_size h = word_of_nat HEAD_SIZE + ucast (extra_block_length h) + body_size h"

text \<open>\<open>sizeof(rpc_head_t) + body_size\<close>, in 64 bits.\<close>

definition body_end :: "rpc_head \<Rightarrow> nat" where
  "body_end h = unat (word_of_nat HEAD_SIZE + body_size h)"

text \<open>The bytes of a head in memory, and the head read from memory.\<close>

definition head_image :: "rpc_head \<Rightarrow> byte list" where
  "head_image h = word_bytes (body_size h) @ word_bytes (src_rank h) @ word_bytes (dest_rank h) @
     word_bytes (src_dealer h) @ word_bytes (dest_dealer h) @ word_bytes (rpc_id h) @ word_bytes (sid h) @
     word_bytes (extra_block_count h) @ word_bytes (extra_block_length h) @
     word_bytes (error_word (error_code h)) @ [0, 0]"

definition field :: "nat \<Rightarrow> byte list \<Rightarrow> 'w :: len word" where
  "field off bs = bytes_word (take (LENGTH('w) div 8) (drop off bs))"

definition head_read :: "byte list \<Rightarrow> rpc_head" where
  "head_read bs = \<lparr>body_size = field 0 bs, src_rank = field 8 bs, dest_rank = field 10 bs, src_dealer = field 12 bs,
     dest_dealer = field 16 bs, rpc_id = field 20 bs, sid = field 24 bs, extra_block_count = field 28 bs,
     extra_block_length = field 32 bs, error_code = error_of_word (field 36 bs)\<rparr>"

section \<open>Messages\<close>

record rpc_message =
  start :: "byte list"
  mdata :: "data_block list"
  pending_block_cnt :: nat

definition block_image :: "data_block \<Rightarrow> byte list" where
  "block_image b = word_bytes (baddr b) @ word_bytes (blen b) @ word_bytes (if bowner b then 1 else 0 :: 32 word)"

text \<open>The pointers \<open>head()\<close>, \<open>lazy_meta()\<close> and \<open>extra()\<close> as offsets from \<open>_start\<close>.\<close>

definition message_head :: "rpc_message \<Rightarrow> rpc_head" where
  "message_head m = head_read (start m)"

definition lazy_meta :: "rpc_head \<Rightarrow> nat" where
  "lazy_meta h = HEAD_SIZE + unat (body_size h)"

definition extra :: "rpc_head \<Rightarrow> nat" where
  "extra h = HEAD_SIZE + unat (body_size h) + unat (extra_block_count h) * BLOCK_SIZE"

text \<open>
  The constructor for received bytes: \<open>memory\<close> is the buffer from \<open>start\<close> on and \<open>sz\<close> the size of the message
  in it. The i-th block it allocates has the address and the initial content \<open>mem i\<close>; the content of the
  larger blocks is still to be received.
\<close>

type_synonym allocator = "nat \<Rightarrow> 64 word \<times> (nat \<Rightarrow> byte)"

fun recv_blocks :: "allocator \<Rightarrow> nat \<Rightarrow> 32 word list \<Rightarrow> byte list \<Rightarrow> (data_block list \<times> nat) res" where
  "recv_blocks mem i [] cur = Inr ([], 0)"
| "recv_blocks mem i (len # lens) cur =
     (let b = block_alloc (fst (mem i)) (snd (mem i)) len
      in if unat len < MIN_ZERO_COPY_SIZE then
           if length cur < unat len then Inl Out_of_bounds
           else rbind (recv_blocks mem (Suc i) lens (drop (unat len) cur)) (\<lambda>(bs, n).
             Inr ((if len = 0 then b else b\<lparr>bmem := Some (take (unat len) cur)\<rparr>) # bs, n))
         else rbind (recv_blocks mem (Suc i) lens cur) (\<lambda>(bs, n). Inr (b # bs, Suc n)))"

definition meta_length :: "byte list \<Rightarrow> nat \<Rightarrow> nat \<Rightarrow> 32 word" where
  "meta_length bs off i = field (off + BLOCK_SIZE * i + 8) bs"

definition message_recv :: "allocator \<Rightarrow> nat \<Rightarrow> byte list \<Rightarrow> rpc_message res" where
  "message_recv mem sz memory =
     (let h = head_read memory; n = unat (extra_block_count h); bs = take (max HEAD_SIZE sz) memory
      in if n = 0 then Inr \<lparr>start = bs, mdata = [], pending_block_cnt = 0\<rparr>
         else if length bs < extra h then Inl Out_of_bounds
         else rbind (recv_blocks mem 0 (map (meta_length bs (lazy_meta h)) [0..<n]) (drop (extra h) bs)) (\<lambda>(data, p).
           Inr \<lparr>start = bs, mdata = data, pending_block_cnt = p\<rparr>))"

definition message_of_head :: "rpc_head \<Rightarrow> rpc_message" where
  "message_of_head h = \<lparr>start = head_image h, mdata = [], pending_block_cnt = 0\<rparr>"

definition small :: "data_block \<Rightarrow> bool" where
  "small b \<longleftrightarrow> unat (blen b) < MIN_ZERO_COPY_SIZE"

definition message_initialize :: "rpc_head \<Rightarrow> marchive \<Rightarrow> data_block list \<Rightarrow> rpc_message res" where
  "message_initialize h ar data =
     (if archive_length ar < HEAD_SIZE then Inl Out_of_bounds
      else
        let h1 = h\<lparr>extra_block_count := word_of_nat (length data),
                   extra_block_length := word_of_nat (BLOCK_SIZE * length data)\<rparr>;
            h2 = h1\<lparr>extra_block_length := fold (\<lambda>b l. if small b then l + blen b else l) data (extra_block_length h1)\<rparr>;
            h3 = h2\<lparr>body_size := word_of_nat (archive_length ar - HEAD_SIZE)\<rparr>
        in rbind (initialised (drop HEAD_SIZE (take (archive_length ar) (buf ar)))) (\<lambda>body.
             Inr \<lparr>start = head_image h3 @ body, mdata = data, pending_block_cnt = 0\<rparr>))"

definition message_finalize :: "rpc_message \<Rightarrow> marchive \<Rightarrow> 'v lazy_archive \<Rightarrow> (rpc_head \<times> marchive \<times> 'v lazy_archive) res" where
  "message_finalize m ar lazy =
     (let h = message_head m; n = body_end h
      in if length (start m) < n then Inl Out_of_bounds
         else
           rbind (set_read_buffer (Some (map Some (start m))) n No_delete ar) (\<lambda>ar1.
           rbind (advance_cursor HEAD_SIZE ar1) (\<lambda>ar2.
           rbind (lazy_attach (mdata m) lazy) (\<lambda>lazy1. Inr (h, ar2, lazy1)))))"

section \<open>Requests and responses\<close>

record 'v rpc_packet =
  pk_head :: rpc_head
  pk_ar :: marchive
  pk_lazy :: "'v lazy_archive"
  pk_msg :: "rpc_message option"

definition packet_archive :: "marchive res" where
  "packet_archive = (let ar = resize HEAD_SIZE (archive_new False) in set_cursor (fin ar) ar)"

definition request_new :: "16 word \<Rightarrow> 'v rpc_packet res" where
  "request_new rank = rbind packet_archive (\<lambda>ar.
     Inr \<lparr>pk_head = rpc_head_new\<lparr>dest_rank := rank, dest_dealer := -1\<rparr>, pk_ar = ar, pk_lazy = lazy_new, pk_msg = None\<rparr>)"

definition set_sid :: "32 word \<Rightarrow> 'v rpc_packet \<Rightarrow> 'v rpc_packet" where
  "set_sid s p = p\<lparr>pk_head := (pk_head p)\<lparr>sid := s\<rparr>\<rparr>"

definition response_new :: "rpc_head \<Rightarrow> 'v rpc_packet res" where
  "response_new req_head = rbind packet_archive (\<lambda>ar.
     Inr \<lparr>pk_head = rpc_head_new\<lparr>dest_rank := src_rank req_head, dest_dealer := src_dealer req_head,
            src_rank := dest_rank req_head,
            sid := sid req_head, rpc_id := rpc_id req_head\<rparr>,
          pk_ar = ar, pk_lazy = lazy_new, pk_msg = None\<rparr>)"

definition packet_put :: "'a serializer \<Rightarrow> 'a \<Rightarrow> 'v rpc_packet \<Rightarrow> 'v rpc_packet res" where
  "packet_put s x p = rbind (put s x (pk_ar p)) (\<lambda>ar. Inr (p\<lparr>pk_ar := ar\<rparr>))"

definition packet_get :: "'a deserializer \<Rightarrow> 'v rpc_packet \<Rightarrow> ('a \<times> 'v rpc_packet) res" where
  "packet_get d p = rbind (get d (pk_ar p)) (\<lambda>(x, ar). Inr (x, p\<lparr>pk_ar := ar\<rparr>))"

definition set_error_code :: "rpc_error_code \<Rightarrow> 'v rpc_packet \<Rightarrow> 'v rpc_packet" where
  "set_error_code e p = p\<lparr>pk_head := (pk_head p)\<lparr>error_code := e\<rparr>\<rparr>"

definition message_of_packet :: "'v lazy_serializer \<Rightarrow> 64 word \<Rightarrow> 'v rpc_packet \<Rightarrow> rpc_message res" where
  "message_of_packet ser addr p =
     (case pk_msg p of
        Some m \<Rightarrow> Inr m
      | None \<Rightarrow> rbind (lazy_apply ser addr (pk_lazy p)) (\<lambda>(data, lazy). message_initialize (pk_head p) (pk_ar p) data))"

definition packet_of_message :: "rpc_message \<Rightarrow> 'v rpc_packet res" where
  "packet_of_message m = rbind (message_finalize m (archive_new False) lazy_new) (\<lambda>(h, ar, lazy).
     Inr \<lparr>pk_head = h, pk_ar = ar, pk_lazy = lazy, pk_msg = Some (m\<lparr>mdata := []\<rparr>)\<rparr>)"

section \<open>The cursor over the pieces of a message\<close>

text \<open>A piece is what is left of it from its pointer on.\<close>

record byte_cursor =
  ci :: nat
  pieces :: "byte list list"

definition cursor_reset :: "byte_cursor \<Rightarrow> byte_cursor" where
  "cursor_reset c = c\<lparr>ci := 0, pieces := []\<rparr>"

fun block_pieces :: "bool \<Rightarrow> data_block list \<Rightarrow> byte list list res" where
  "block_pieces zero_copy [] = Inr []"
| "block_pieces zero_copy (b # bs) =
     (if zero_copy \<and> \<not> small b \<or> \<not> zero_copy \<and> small b \<and> 0 < unat (blen b)
      then rbind (block_read b) (\<lambda>p. rbind (block_pieces zero_copy bs) (\<lambda>ps. Inr (p # ps)))
      else block_pieces zero_copy bs)"

definition cursor_attach :: "rpc_message \<Rightarrow> bool \<Rightarrow> byte_cursor \<Rightarrow> byte_cursor res" where
  "cursor_attach m zero_copy c =
     (let c0 = cursor_reset c;
          n = body_end (message_head m)
      in if \<not> zero_copy \<and> length (start m) < n then Inl Out_of_bounds
         else
           let front = (if zero_copy then []
                        else [take n (start m)] @ (if mdata m \<noteq> [] then [concat (map block_image (mdata m))] else []))
           in rbind (block_pieces zero_copy (mdata m)) (\<lambda>ps. Inr (c0\<lparr>pieces := front @ ps\<rparr>)))"

definition cursor_has_next :: "byte_cursor \<Rightarrow> bool" where
  "cursor_has_next c \<longleftrightarrow> ci c \<noteq> length (pieces c)"

definition cursor_size :: "byte_cursor \<Rightarrow> nat" where
  "cursor_size c = length (pieces c) - ci c"

definition cursor_head :: "byte_cursor \<Rightarrow> byte list res" where
  "cursor_head c = (if ci c < length (pieces c) then Inr (pieces c ! ci c) else Inl Out_of_bounds)"

definition cursor_next :: "byte_cursor \<Rightarrow> byte_cursor" where
  "cursor_next c = c\<lparr>ci := ci c + 1\<rparr>"

fun skip_empty :: "byte list list \<Rightarrow> nat" where
  "skip_empty [] = 0"
| "skip_empty (p # ps) = (if p = [] then Suc (skip_empty ps) else 0)"

definition cursor_advance :: "nat \<Rightarrow> byte_cursor \<Rightarrow> byte_cursor res" where
  "cursor_advance nbytes c =
     rbind (cursor_head c) (\<lambda>p.
     rbind (scheck (nbytes \<le> length p)) (\<lambda>_.
       let ps = (pieces c)[ci c := drop nbytes p]
       in Inr (c\<lparr>pieces := ps, ci := ci c + skip_empty (drop (ci c) ps)\<rparr>)))"

section \<open>Reading what was written\<close>

definition error_ok :: "rpc_error_code \<Rightarrow> bool" where
  "error_ok e \<longleftrightarrow> error_of_word (error_word e) = e"

lemma error_ok_named [simp]:
  "error_ok SUCC" "error_ok ENOSUCHSERVER" "error_ok ENOSUCHRANK" "error_ok ENOSUCHSERVICE" "error_ok ELOGICERROR"
  "error_ok EILLEGALMSG" "error_ok ETIMEOUT" "error_ok ENOTFOUND" "error_ok ECONNECTION"
  by (simp_all add: error_ok_def error_of_word_def)

lemma word_bytes_length [simp]: "length (word_bytes (w :: 'w :: len word)) = LENGTH('w) div 8"
  by (simp add: word_bytes_def)

lemma length_head_image [simp]: "length (head_image h) = HEAD_SIZE"
  by (simp add: head_image_def)

lemma field_at:
  assumes "8 dvd LENGTH('w)" "length pre = off"
  shows "field off (pre @ word_bytes (w :: 'w :: len word) @ rest) = w"
  using assms(2) by (simp add: field_def bytes_word_bytes [OF assms(1)])

lemma field_first: "8 dvd LENGTH('w) \<Longrightarrow> field 0 (word_bytes (w :: 'w :: len word) @ rest) = w"
  using field_at [of "[]" 0 w rest] by simp

lemma field_skip:
  assumes "length (word_bytes w) \<le> off"
  shows "field off (word_bytes (w :: 'w :: len word) @ rest) = field (off - LENGTH('w) div 8) rest"
  using assms by (simp add: field_def)

lemma head_read_image:
  assumes "error_ok (error_code h)"
  shows "head_read (head_image h @ rest) = h"
  using assms by (simp add: head_read_def head_image_def field_skip field_first error_ok_def)

lemma meta_length_at:
  assumes "length pre = off" "i < length data"
  shows "meta_length (pre @ concat (map block_image data) @ rest) off i = blen (data ! i)"
  using assms
proof (induction data arbitrary: pre off i)
  case (Cons b data)
  show ?case
  proof (cases i)
    case 0
    have "field (off + 8) ((pre @ word_bytes (baddr b)) @ word_bytes (blen b) @
        word_bytes (if bowner b then 1 else 0 :: 32 word) @ concat (map block_image data) @ rest) = blen b"
      by (rule field_at) (use Cons.prems in auto)
    then show ?thesis using 0 by (simp add: meta_length_def block_image_def [of b])
  next
    case (Suc j)
    have "meta_length ((pre @ block_image b) @ concat (map block_image data) @ rest) (off + BLOCK_SIZE) j = blen (data ! j)"
      by (rule Cons.IH) (use Cons.prems Suc in \<open>auto simp: block_image_def\<close>)
    then show ?thesis using Suc by (simp add: meta_length_def add.assoc)
  qed
qed simp

section \<open>Messages that can be sent\<close>

text \<open>The content of a block, and the two streams a message is sent on.\<close>

definition block_bytes :: "data_block \<Rightarrow> byte list" where
  "block_bytes b = (case block_read b of Inr bs \<Rightarrow> bs | Inl _ \<Rightarrow> [])"

definition body :: "rpc_message \<Rightarrow> byte list" where
  "body m = drop HEAD_SIZE (start m)"

definition wire1 :: "rpc_message \<Rightarrow> byte list" where
  "wire1 m = start m @ concat (map block_image (mdata m)) @ concat (map block_bytes (filter small (mdata m)))"

definition wire2 :: "rpc_message \<Rightarrow> byte list" where
  "wire2 m = concat (map block_bytes (filter (\<lambda>b. \<not> small b) (mdata m)))"

definition block_ok :: "data_block \<Rightarrow> bool" where
  "block_ok b \<longleftrightarrow> block_read b = Inr (block_bytes b)"

definition message_ok :: "rpc_message \<Rightarrow> bool" where
  "message_ok m \<longleftrightarrow>
     (let h = message_head m
      in start m = head_image h @ body m \<and> error_ok (error_code h) \<and> length (wire1 m) < 2 ^ 62 \<and>
         unat (body_size h) = length (body m) \<and> unat (extra_block_count h) = length (mdata m) \<and>
         unat (extra_block_length h) = BLOCK_SIZE * length (mdata m) + sum_list (map (\<lambda>b. unat (blen b)) (filter small (mdata m))) \<and>
         list_all block_ok (mdata m))"

lemma block_ok_length: "block_ok b \<Longrightarrow> length (block_bytes b) = unat (blen b)"
  by (auto simp: block_ok_def block_read_def split: option.splits if_splits dest: arg_cong [of _ _ length])

lemma length_block_images [simp]: "length (concat (map block_image data)) = BLOCK_SIZE * length data"
  by (induction data) (auto simp: block_image_def)

lemma length_blocks:
  "list_all block_ok data \<Longrightarrow> length (concat (map block_bytes data)) = sum_list (map (\<lambda>b. unat (blen b)) data)"
  by (induction data) (auto simp: block_ok_length)

lemma list_all_filter: "list_all P xs \<Longrightarrow> list_all P (filter Q xs)"
  by (induction xs) auto

lemma message_ok_start:
  assumes "message_ok m"
  shows "start m = head_image (message_head m) @ body m" "length (start m) = HEAD_SIZE + length (body m)"
  using assms by (auto simp: message_ok_def Let_def dest: arg_cong [of _ _ length])

lemma message_ok_size:
  assumes "message_ok m"
  shows "unat (msg_size (message_head m)) = length (wire1 m)"
proof -
  let ?h = "message_head m"
  have sm: "length (concat (map block_bytes (filter small (mdata m)))) = sum_list (map (\<lambda>b. unat (blen b)) (filter small (mdata m)))"
    using assms by (intro length_blocks list_all_filter) (simp add: message_ok_def Let_def)
  then have l: "length (wire1 m) = HEAD_SIZE + (unat (extra_block_length ?h) + unat (body_size ?h))"
    using assms message_ok_start(2) [OF assms] by (simp add: wire1_def message_ok_def Let_def)
  then have lt: "HEAD_SIZE + (unat (extra_block_length ?h) + unat (body_size ?h)) < 2 ^ 64"
    using assms by (simp add: message_ok_def Let_def)
  have "msg_size ?h = word_of_nat (HEAD_SIZE + (unat (extra_block_length ?h) + unat (body_size ?h)))"
    by (simp add: msg_size_def unsigned_ucast_eq of_nat_unat)
  then show ?thesis using lt l by (simp add: unat_of_nat del: of_nat_add)
qed

lemma body_end_small: "HEAD_SIZE + unat (body_size h) < 2 ^ 64 \<Longrightarrow> body_end h = HEAD_SIZE + unat (body_size h)"
  unfolding body_end_def by (subst unat_add_lem [THEN iffD1]) simp_all

lemma message_ok_end:
  assumes "message_ok m"
  shows "body_end (message_head m) = HEAD_SIZE + length (body m)"
proof -
  have "unat (body_size (message_head m)) = length (body m)" "length (wire1 m) < 2 ^ 62"
    using assms by (simp_all add: message_ok_def Let_def)
  moreover have "HEAD_SIZE + length (body m) \<le> length (wire1 m)" using message_ok_start(2) [OF assms] by (simp add: wire1_def)
  ultimately show ?thesis using body_end_small [of "message_head m"] by simp
qed

text \<open>What the receiving constructor makes of a block: small blocks are complete, large ones have their length.\<close>

definition received :: "allocator \<Rightarrow> nat \<Rightarrow> data_block \<Rightarrow> data_block" where
  "received mem i b =
     (if blen b = 0 then block_empty
      else if small b then \<lparr>baddr = fst (mem i), bmem = Some (block_bytes b), blen = blen b, bowner = True\<rparr>
      else block_alloc (fst (mem i)) (snd (mem i)) (blen b))"

fun received_all :: "allocator \<Rightarrow> nat \<Rightarrow> data_block list \<Rightarrow> data_block list" where
  "received_all mem i [] = []"
| "received_all mem i (b # bs) = received mem i b # received_all mem (Suc i) bs"

lemma recv_blocks_result:
  assumes "list_all block_ok data"
  shows "recv_blocks mem i (map blen data) (concat (map block_bytes (filter small data)) @ rest) =
    Inr (received_all mem i data, length (filter (\<lambda>b. \<not> small b) data))"
  using assms
proof (induction data arbitrary: i)
  case (Cons b data)
  have len: "length (block_bytes b) = unat (blen b)" using Cons.prems by (simp add: block_ok_length)
  show ?case
    using Cons len by (auto simp: Let_def small_def received_def block_alloc_def unat_eq_0)
qed simp

definition received_message :: "allocator \<Rightarrow> rpc_message \<Rightarrow> rpc_message" where
  "received_message mem m = \<lparr>start = wire1 m, mdata = received_all mem 0 (mdata m),
     pending_block_cnt = length (filter (\<lambda>b. \<not> small b) (mdata m))\<rparr>"

lemma head_read_wire:
  assumes "message_ok m"
  shows "head_read (wire1 m @ rest) = message_head m"
proof -
  have "wire1 m @ rest = head_image (message_head m) @ body m @ concat (map block_image (mdata m)) @
      concat (map block_bytes (filter small (mdata m))) @ rest"
    using message_ok_start(1) [OF assms] by (simp add: wire1_def)
  then show ?thesis using assms head_read_image by (simp add: message_ok_def Let_def)
qed

lemma message_recv_wire:
  assumes "message_ok m"
  shows "message_recv mem (length (wire1 m)) (wire1 m @ rest) = Inr (received_message mem m)"
proof -
  let ?h = "message_head m" and ?sm = "concat (map block_bytes (filter small (mdata m)))"
  have h: "head_read (wire1 m @ rest) = ?h" by (rule head_read_wire [OF assms])
  have n: "unat (extra_block_count ?h) = length (mdata m)" "unat (body_size ?h) = length (body m)" "list_all block_ok (mdata m)"
    using assms by (auto simp: message_ok_def Let_def)
  have l: "length (start m) = lazy_meta ?h" using message_ok_start(2) [OF assms] n by (simp add: lazy_meta_def)
  then have "extra ?h = length (start m @ concat (map block_image (mdata m)))"
    using n by (simp add: extra_def lazy_meta_def)
  then have d: "drop (extra ?h) (wire1 m) = ?sm" "extra ?h \<le> length (wire1 m)"
    by (simp_all add: wire1_def)
  have "map (meta_length (wire1 m) (lazy_meta ?h)) [0..<length (mdata m)] = map (\<lambda>i. blen (mdata m ! i)) [0..<length (mdata m)]"
    using meta_length_at [OF l, of _ "mdata m" ?sm] by (intro map_cong) (auto simp: wire1_def)
  also have "\<dots> = map blen (mdata m)" by (rule nth_equalityI) simp_all
  finally have "map (meta_length (wire1 m) (lazy_meta ?h)) [0..<length (mdata m)] = map blen (mdata m)" .
  moreover have "max HEAD_SIZE (length (wire1 m)) = length (wire1 m)"
    using message_ok_start(2) [OF assms] by (simp add: wire1_def max_def)
  ultimately show ?thesis
    using recv_blocks_result [OF n(3), of mem 0 "[]"] h n(1) d
    by (cases "mdata m = []") (simp_all add: message_recv_def Let_def received_message_def)
qed

section \<open>From a packet to a message and back\<close>

text \<open>A received message with the head, the body and all blocks of the message that was sent.\<close>

definition same_message :: "rpc_message \<Rightarrow> rpc_message \<Rightarrow> bool" where
  "same_message m m' \<longleftrightarrow> start m' = wire1 m \<and> map block_read (mdata m') = map block_read (mdata m)"

lemma message_initialize_ok:
  assumes ar: "archive_ok ar" "cursor ar = HEAD_SIZE" "unread ar = map Some bs"
    and data: "list_all block_ok data" and h: "error_ok (error_code h)"
    and small: "HEAD_SIZE + length bs + BLOCK_SIZE * length data + sum_list (map (\<lambda>b. unat (blen b)) (filter small data)) < 2 ^ 32"
  shows "\<exists>m. message_initialize h ar data = Inr m \<and> message_ok m \<and> body m = bs \<and> mdata m = data \<and>
    (\<exists>c l. message_head m = h\<lparr>extra_block_count := c, extra_block_length := l, body_size := word_of_nat (length bs)\<rparr>)"
proof -
  let ?S = "\<lambda>data. sum_list (map (\<lambda>b. unat (blen b)) (filter Rpc_Message.small data))"
  let ?l = "fold (\<lambda>b l. if Rpc_Message.small b then l + blen b else l) data (word_of_nat (BLOCK_SIZE * length data)) :: 32 word"
  have fold: "fold (\<lambda>b l. if Rpc_Message.small b then l + blen b else l) ds w = w + word_of_nat (?S ds)" for ds :: "data_block list" and w :: "32 word"
    by (induction ds arbitrary: w) (auto simp: of_nat_unat add.assoc)
  have l: "unat ?l = BLOCK_SIZE * length data + ?S data"
  proof -
    have "?l = word_of_nat (BLOCK_SIZE * length data + ?S data)" by (simp only: fold of_nat_add)
    then show ?thesis using small by (simp only: unat_of_nat) simp
  qed
  have c: "unat (word_of_nat (length data) :: 32 word) = length data" using small by (simp only: unat_of_nat) simp
  have b: "unat (word_of_nat (length bs) :: 64 word) = length bs" using small by (simp only: unat_of_nat) simp
  have fin: "fin ar = HEAD_SIZE + length bs" "HEAD_SIZE \<le> fin ar"
    using ar by (auto simp: unread_def archive_ok_def capacity_def dest: arg_cong [of _ _ length])
  let ?h = "h\<lparr>extra_block_count := word_of_nat (length data), extra_block_length := ?l, body_size := word_of_nat (length bs)\<rparr>"
  let ?m = "\<lparr>start = head_image ?h @ bs, mdata = data, pending_block_cnt = 0\<rparr>"
  have init: "initialised (drop HEAD_SIZE (take (archive_length ar) (buf ar))) = Inr bs"
    using ar by (simp add: archive_length_def unread_def initialised_map)
  have i: "message_initialize h ar data = Inr ?m"
    using init fin by (simp add: message_initialize_def Let_def archive_length_def)
  have hd: "message_head ?m = ?h" using head_read_image [of ?h bs] h by (simp add: message_head_def)
  have bd: "body ?m = bs" by (simp add: body_def)
  have "length (wire1 ?m) < 2 ^ 62"
    using small length_blocks [OF list_all_filter [OF data, of Rpc_Message.small]] by (simp add: wire1_def)
  then have "message_ok ?m"
    unfolding message_ok_def Let_def hd using bd b c l data h by simp
  then show ?thesis using i hd bd by auto
qed

lemma message_finalize_ok:
  assumes "message_ok m" "start m' = wire1 m" "lazy_attach (mdata m') (lazy_new :: 'v lazy_archive) = Inr lazy"
  shows "\<exists>ar. message_finalize m' (archive_new False) (lazy_new :: 'v lazy_archive) = Inr (message_head m, ar, lazy) \<and>
    archive_ok ar \<and> unread ar = map Some (body m)"
proof -
  let ?h = "message_head m"
  have hd: "message_head m' = ?h" using head_read_wire [OF assms(1), of "[]"] assms(2) by (simp add: message_head_def)
  have b: "unat (body_size ?h) = length (body m)" using assms(1) by (simp add: message_ok_def Let_def)
  note e = message_ok_end [OF assms(1)]
  have tk: "take (length (body m) + HEAD_SIZE) (wire1 m) = start m" "length (body m) + HEAD_SIZE \<le> length (wire1 m)"
    using message_ok_start(2) [OF assms(1)] by (simp_all add: wire1_def)
  have sm: "drop HEAD_SIZE (start m) = body m" by (simp add: body_def)
  obtain ar where "set_read_buffer (Some (map Some (wire1 m))) (length (body m) + HEAD_SIZE) No_delete (archive_new False) = Inr ar"
    "fin ar = length (body m) + HEAD_SIZE" "cursor ar = 0" "take (fin ar) (buf ar) = map Some (start m)" "archive_ok ar"
    using tk message_ok_start(2) [OF assms(1)] by (auto simp: set_read_buffer_def set_buffer_def archive_ok_def capacity_def pad_to_def reset_def take_map)
  then show ?thesis
    using assms(2,3) hd b e tk sm
    by (auto simp: message_finalize_def Let_def advance_cursor_def archive_ok_def unread_def capacity_def drop_map add.commute)
qed

text \<open>The archive a packet starts with: positioned behind the room for the head.\<close>

lemma packet_archive_ok:
  "\<exists>ar. packet_archive = Inr ar \<and> archive_ok ar \<and> default_malloc ar \<and> cursor ar = HEAD_SIZE \<and> unread ar = []"
proof -
  let ?ar = "resize HEAD_SIZE (archive_new False)"
  have "fin ?ar = HEAD_SIZE" "cursor ?ar = 0" "default_malloc ?ar" "HEAD_SIZE \<le> capacity ?ar" "\<not> null_buffer ?ar"
    by (simp_all add: resize_def reserve_def archive_new_def capacity_def set_default_deleter_def Let_def buf_realloc_def
        pad_to_def archive_length_def)
  then show ?thesis by (auto simp: packet_archive_def Let_def set_cursor_def archive_ok_def unread_def capacity_def)
qed

lemma blocks_ok_of_reads:
  assumes "map block_read data = map Inr cs"
  shows "list_all block_ok data" "sum_list (map (\<lambda>b. unat (blen b)) data) = length (concat cs)" "length data = length cs"
proof -
  show l: "length data = length cs" using assms by (metis length_map)
  have r: "block_read (data ! i) = Inr (cs ! i)" if "i < length cs" for i
    using assms that l by (metis nth_map)
  show ok: "list_all block_ok data" using r l by (simp add: list_all_length block_ok_def block_bytes_def)
  have "map block_bytes data = cs" using r l by (intro nth_equalityI) (auto simp: block_bytes_def)
  then show "sum_list (map (\<lambda>b. unat (blen b)) data) = length (concat cs)" using length_blocks [OF ok] by simp
qed

lemma sum_filter_le: "sum_list (map f (filter P xs)) \<le> (sum_list (map f xs) :: nat)"
  by (induction xs) auto

lemma packet_put_string:
  assumes "pk_ar p = ar" "archive_ok ar" "default_malloc ar" "length str < 2 ^ 64"
  shows "\<exists>ar'. packet_put serialize_string str p = Inr (p\<lparr>pk_ar := ar'\<rparr>) \<and> archive_ok ar' \<and> default_malloc ar' \<and>
    cursor ar' = cursor ar \<and> unread ar' = unread ar @ map Some (string_bytes str)"
  using lwrites_put [OF string_ar.archivable_axioms keeps_cursor_string assms(2,3,4), of "[]"] assms(1)
  by (auto simp: packet_put_def lwrites_def string_bytes_def rbind_def split: sum.splits)

section \<open>Properties\<close>

text \<open>C30. A request built from any head, a string argument and any sequence of lazy values becomes a well-formed message;
  from whatever is received with the same bytes and blocks, the receiver gets the string and all lazy values back, and
  every field of the head as it was, but for the three sizes, which the message defines.\<close>

theorem packet_round_trip:
  assumes "list_all lazy_valid vs" "vs \<noteq> []" "error_ok (error_code h)"
    and total: "100 + length str + length (concat (map lazy_enc vs)) + length (concat (concat (map lazy_blocks vs))) +
      16 * length (concat (map lazy_blocks vs)) < 2 ^ 32"
  shows "\<exists>p0 p m c l. request_new rank = Inr p0 \<and> pk_head p0 = rpc_head_new\<lparr>dest_rank := rank, dest_dealer := -1\<rparr> \<and>
    packet_put serialize_string str (p0\<lparr>pk_head := h, pk_lazy := lazy_puts vs (pk_lazy p0)\<rparr>) = Inr p \<and>
    message_of_packet lazy_serialize addr p = Inr m \<and> message_ok m \<and>
    (\<forall>m'. same_message m m' \<longrightarrow> (\<exists>q q' la. packet_of_message m' = Inr q \<and>
       pk_head q = h\<lparr>extra_block_count := c, extra_block_length := l, body_size := word_of_nat (8 + length str)\<rparr> \<and>
       packet_get deserialize_string q = Inr (str, q') \<and>
       lazy_gets lazy_type_of lazy_deserialize (map lazy_type_of vs) (pk_lazy q) = Inr (vs, la)))"
proof -
  obtain ar0 where ar0: "packet_archive = Inr ar0" "archive_ok ar0" "default_malloc ar0" "cursor ar0 = HEAD_SIZE" "unread ar0 = []"
    using packet_archive_ok by blast
  let ?p0 = "\<lparr>pk_head = rpc_head_new\<lparr>dest_rank := rank, dest_dealer := -1\<rparr>, pk_ar = ar0, pk_lazy = lazy_new, pk_msg = None\<rparr> :: lazy_value rpc_packet"
  let ?p1 = "?p0\<lparr>pk_head := h, pk_lazy := lazy_puts vs (pk_lazy ?p0)\<rparr>"
  have p0: "request_new rank = Inr ?p0" unfolding request_new_def ar0(1) by simp
  obtain ar where ar: "packet_put serialize_string str ?p1 = Inr (?p1\<lparr>pk_ar := ar\<rparr>)" "archive_ok ar" "cursor ar = HEAD_SIZE"
      "unread ar = map Some (string_bytes str)"
    using packet_put_string [of ?p1 ar0 str] ar0 total by auto
  let ?pk = "?p1\<lparr>pk_ar := ar\<rparr>" and ?cs = "concat (map lazy_blocks vs) @ [concat (map lazy_enc vs)]"
  obtain data la where ap: "lazy_apply lazy_serialize addr (lazy_puts vs lazy_new) = Inr (data, la)" "map block_read data = map Inr ?cs"
    using lz.apply_writes [OF assms(1,2), of addr] total by auto
  note bl = blocks_ok_of_reads [OF ap(2)]
  have sb: "length (string_bytes str) = 8 + length str" by (simp add: string_bytes_def size_bytes_def)
  have "HEAD_SIZE + length (string_bytes str) + BLOCK_SIZE * length data + sum_list (map (\<lambda>b. unat (blen b)) (filter small data)) < 2 ^ 32"
    using total bl(2,3) sum_filter_le [of "\<lambda>b. unat (blen b)" small data] by (simp add: sb)
  then obtain m c l where m: "message_initialize h ar data = Inr m" "message_ok m" "body m = string_bytes str" "mdata m = data"
      "message_head m = h\<lparr>extra_block_count := c, extra_block_length := l, body_size := word_of_nat (8 + length str)\<rparr>"
    using message_initialize_ok [OF ar(2-4) bl(1) assms(3)] by (auto simp: sb)
  have mp: "message_of_packet lazy_serialize addr ?pk = Inr m" using ap(1) m(1) by (simp add: message_of_packet_def)
  have "\<exists>q q' la. packet_of_message m' = Inr q \<and> pk_head q = message_head m \<and> packet_get deserialize_string q = Inr (str, q') \<and>
      lazy_gets lazy_type_of lazy_deserialize (map lazy_type_of vs) (pk_lazy q) = Inr (vs, la)" if s: "same_message m m'" for m'
  proof -
    have d': "map block_read (mdata m') = map Inr ?cs" using s m(4) ap(2) by (simp add: same_message_def)
    obtain la1 where la1: "lazy_attach (mdata m') (lazy_new :: lazy_value lazy_archive) = Inr la1" "archive_ok (rd_ar la1)"
        "unread (rd_ar la1) = map Some (concat (map lazy_enc vs))" "shared_holds (shared la1) ?cs"
      using lazy_attach_reads [OF d'] by blast
    obtain la2 where g: "lazy_gets lazy_type_of lazy_deserialize (map lazy_type_of vs) la1 = Inr (vs, la2)"
      using lz.gets_remote [OF la1(2) assms(1) la1(3,4)] by blast
    obtain ar1 where f: "message_finalize m' (archive_new False) lazy_new = Inr (message_head m, ar1, la1)" "archive_ok ar1"
        "unread ar1 = map Some (string_bytes str)"
      using message_finalize_ok [OF m(2) _ la1(1)] s m(3) by (auto simp: same_message_def)
    obtain ar2 where "get deserialize_string ar1 = Inr (str, ar2)"
      using lreads_get [OF string_ar.archivable_axioms f(2), of str "[]"] f(3) total by (auto simp: string_bytes_def)
    then show ?thesis using f g by (simp add: packet_of_message_def packet_get_def)
  qed
  moreover have "pk_head ?p0 = rpc_head_new\<lparr>dest_rank := rank, dest_dealer := -1\<rparr>" by simp
  ultimately show ?thesis using p0 ar(1) mp m(2) unfolding m(5) by blast
qed

text \<open>A request for the server 3 of service 7, whose message is read back.\<close>

theorem packet_round_trip_witness:
  "\<exists>p0 p m q q' la. request_new 5 = Inr p0 \<and>
    packet_put serialize_string [65, 66]
      (p0\<lparr>pk_head := rpc_head_new\<lparr>dest_rank := 5, sid := 3, rpc_id := 7, src_dealer := 9\<rparr>,
         pk_lazy := lazy_puts [LWords [1, 2], LWord 9] (pk_lazy p0)\<rparr>) = Inr p \<and>
    message_of_packet lazy_serialize 0 p = Inr m \<and> message_ok m \<and> packet_of_message (m\<lparr>start := wire1 m\<rparr>) = Inr q \<and>
    dest_rank (pk_head q) = 5 \<and> sid (pk_head q) = 3 \<and> rpc_id (pk_head q) = 7 \<and> src_dealer (pk_head q) = 9 \<and>
    packet_get deserialize_string q = Inr ([65, 66], q') \<and>
    lazy_gets lazy_type_of lazy_deserialize (map lazy_type_of [LWords [1, 2], LWord 9]) (pk_lazy q) = Inr ([LWords [1, 2], LWord 9], la)"
proof -
  let ?vs = "[LWords [1, 2], LWord 9]" and ?h = "rpc_head_new\<lparr>dest_rank := 5, sid := 3, rpc_id := 7, src_dealer := 9\<rparr>"
  have v: "list_all lazy_valid ?vs" "?vs \<noteq> []" "error_ok (error_code ?h)"
    "100 + length [65, 66 :: byte] + length (concat (map lazy_enc ?vs)) + length (concat (concat (map lazy_blocks ?vs))) +
      16 * length (concat (map lazy_blocks ?vs)) < 2 ^ 32"
    by (simp_all add: word_bytes_def rpc_head_new_def)
  obtain p0 p m c l where w: "request_new 5 = Inr p0"
      "packet_put serialize_string [65, 66] (p0\<lparr>pk_head := ?h, pk_lazy := lazy_puts ?vs (pk_lazy p0)\<rparr>) = Inr p"
      "message_of_packet lazy_serialize 0 p = Inr m" "message_ok m"
      "\<And>m'. same_message m m' \<Longrightarrow> \<exists>q q' la. packet_of_message m' = Inr q \<and>
         pk_head q = ?h\<lparr>extra_block_count := c, extra_block_length := l, body_size := word_of_nat (8 + length [65, 66 :: byte])\<rparr> \<and>
         packet_get deserialize_string q = Inr ([65, 66], q') \<and>
         lazy_gets lazy_type_of lazy_deserialize (map lazy_type_of ?vs) (pk_lazy q) = Inr (?vs, la)"
    using packet_round_trip [OF v, of 5 0] by blast
  have "same_message m (m\<lparr>start := wire1 m\<rparr>)" by (simp add: same_message_def)
  then obtain q q' la where "packet_of_message (m\<lparr>start := wire1 m\<rparr>) = Inr q"
      "pk_head q = ?h\<lparr>extra_block_count := c, extra_block_length := l, body_size := word_of_nat (8 + length [65, 66 :: byte])\<rparr>"
      "packet_get deserialize_string q = Inr ([65, 66], q')"
      "lazy_gets lazy_type_of lazy_deserialize (map lazy_type_of ?vs) (pk_lazy q) = Inr (?vs, la)"
    using w(5) by blast
  moreover from this(2) have "dest_rank (pk_head q) = 5" "sid (pk_head q) = 3" "rpc_id (pk_head q) = 7" "src_dealer (pk_head q) = 9"
    by simp_all
  ultimately show ?thesis using w(1-4) by blast
qed

section \<open>The pieces that are sent\<close>

lemma block_pieces_result:
  assumes "list_all block_ok data"
  shows "block_pieces True data = Inr (map block_bytes (filter (\<lambda>b. \<not> small b) data))"
    "block_pieces False data = Inr (map block_bytes (filter (\<lambda>b. small b \<and> 0 < unat (blen b)) data))"
  using assms by (induction data) (auto simp: block_ok_def)

lemma concat_nonempty_small:
  "list_all block_ok data \<Longrightarrow>
     concat (map block_bytes (filter (\<lambda>b. small b \<and> 0 < unat (blen b)) data)) = concat (map block_bytes (filter small data))"
proof (induction data)
  case (Cons b data)
  have "\<not> 0 < unat (blen b) \<Longrightarrow> block_bytes b = []" using Cons.prems block_ok_length [of b] by (simp add: unat_eq_zero)
  then show ?case using Cons by auto
qed simp

lemma cursor_attach_result:
  assumes "message_ok m"
  shows "\<exists>ps. cursor_attach m False c = Inr (c\<lparr>ci := 0, pieces := ps\<rparr>) \<and> concat ps = wire1 m \<and> [] \<notin> set ps"
    "\<exists>ps. cursor_attach m True c = Inr (c\<lparr>ci := 0, pieces := ps\<rparr>) \<and> concat ps = wire2 m \<and> [] \<notin> set ps"
proof -
  let ?d = "mdata m" and ?h = "message_head m"
  have ok: "list_all block_ok ?d" "unat (body_size ?h) = length (body m)" using assms by (auto simp: message_ok_def Let_def)
  have st: "length (start m) = HEAD_SIZE + length (body m)" "body_end ?h = HEAD_SIZE + length (body m)"
    by (rule message_ok_start [OF assms], rule message_ok_end [OF assms])
  let ?front = "[start m] @ (if ?d \<noteq> [] then [concat (map block_image ?d)] else [])"
  let ?ps = "map block_bytes (filter (\<lambda>b. small b \<and> 0 < unat (blen b)) ?d)"
  have im: "?d \<noteq> [] \<Longrightarrow> concat (map block_image ?d) \<noteq> []" using length_block_images [of ?d] by (metis length_greater_0_conv mult_eq_0_iff neq0_conv zero_neq_numeral)
  have ne: "[] \<noteq> block_bytes b" if "b \<in> set ?d" "0 < unat (blen b)" for b
    using that ok(1) block_ok_length [of b] by (auto simp: list_all_iff)
  have big: "\<not> small b \<Longrightarrow> 0 < unat (blen b)" for b by (simp add: small_def)
  have "cursor_attach m False c = Inr (c\<lparr>ci := 0, pieces := ?front @ ?ps\<rparr>)"
    using st ok by (auto simp: cursor_attach_def Let_def block_pieces_result cursor_reset_def)
  moreover have "concat (?front @ ?ps) = wire1 m"
    using concat_nonempty_small [OF ok(1)] by (simp add: wire1_def)
  moreover have "[] \<notin> set (?front @ ?ps)" using im ne st by (auto split: if_splits)
  ultimately show "\<exists>ps. cursor_attach m False c = Inr (c\<lparr>ci := 0, pieces := ps\<rparr>) \<and> concat ps = wire1 m \<and> [] \<notin> set ps" by blast
  show "\<exists>ps. cursor_attach m True c = Inr (c\<lparr>ci := 0, pieces := ps\<rparr>) \<and> concat ps = wire2 m \<and> [] \<notin> set ps"
    using ok ne big
    by (intro exI [of _ "map block_bytes (filter (\<lambda>b. \<not> small b) ?d)"])
      (auto simp: cursor_attach_def Let_def block_pieces_result cursor_reset_def wire2_def)
qed

text \<open>What is still to be sent, and what one step of \<open>advance\<close> does to it.\<close>

definition left :: "byte_cursor \<Rightarrow> byte list" where
  "left c = concat (drop (ci c) (pieces c))"

definition cursor_ok :: "byte_cursor \<Rightarrow> bool" where
  "cursor_ok c \<longleftrightarrow> ci c \<le> length (pieces c) \<and> [] \<notin> set (drop (ci c) (pieces c))"

lemma skip_empty_tail: "[] \<notin> set ps \<Longrightarrow> skip_empty ps = 0"
  by (cases ps) auto

lemma cursor_advance_result:
  assumes ok: "cursor_ok c" and n: "cursor_head c = Inr p" "n \<le> length p"
  shows "\<exists>c'. cursor_advance n c = Inr c' \<and> cursor_ok c' \<and> left c' = drop n (left c) \<and> take n (left c) = take n p \<and>
    (n = length p \<longrightarrow> ci c' = ci c + 1 \<and> pieces c' = (pieces c)[ci c := []]) \<and>
    (n < length p \<longrightarrow> ci c' = ci c \<and> pieces c' = (pieces c)[ci c := drop n p])"
proof -
  have i: "ci c < length (pieces c)" "p = pieces c ! ci c" using n(1) by (auto simp: cursor_head_def split: if_splits)
  let ?rest = "drop (Suc (ci c)) (pieces c)"
  have d: "drop (ci c) (pieces c) = p # ?rest" using i by (simp add: Cons_nth_drop_Suc)
  have ne: "[] \<notin> set ?rest" using ok d by (simp add: cursor_ok_def)
  have d': "drop (ci c) ((pieces c)[ci c := x]) = x # ?rest" for x
    using i by (simp add: drop_update_swap d)
  have d'': "drop (Suc (ci c)) ((pieces c)[ci c := x]) = ?rest" for x
    using i by (simp add: drop_update_cancel)
  have sk: "skip_empty (drop n p # ?rest) = (if n = length p then 1 else 0)"
    using n(2) skip_empty_tail [OF ne] by auto
  show ?thesis
    using n i d d' d'' sk ne
    by (auto simp: cursor_advance_def Let_def cursor_ok_def left_def)
qed

end
