(* ===== verification/Tcp_Socket.thy ===== *)
theory Tcp_Socket
  imports Rpc_Message
begin

text \<open>
  Sending and receiving messages over a pair of TCP connections: \<open>try_recv_msgs\<close> of
  \<open>src/rpc/RpcSocket.cpp\<close> and the functions of \<open>src/rpc/TcpSocket.cpp\<close> and \<open>src/rpc/TcpSocket.h\<close>. The first
  connection carries heads, bodies and small blocks, the second one the blocks of at least 4096 bytes.

  The operating system is an argument: what successive calls of \<open>send\<close> return, and, for \<open>recv\<close>, the pieces of
  the byte stream that are ready to be read together with what \<open>recv\<close> returns when nothing is ready. \<open>recv\<close>
  with a buffer of size 0 returns 0, like a closed connection. \<open>None\<close> stands for a call that does not return.
\<close>

section \<open>Sending\<close>

datatype send_result = Sent nat | Send_again | Send_error

text \<open>
  \<open>_send\<close>: \<open>send_pieces\<close> is its outer and \<open>send_piece\<close> its inner loop. A piece without bytes would never be
  left by the loops. The list \<open>os\<close> is used up by the calls of \<open>send\<close>.
\<close>

function send_pieces :: "send_result list \<Rightarrow> byte_cursor \<Rightarrow> byte list \<Rightarrow> (bool \<times> byte_cursor \<times> byte list \<times> send_result list) option res"
  and send_piece :: "send_result list \<Rightarrow> byte list \<Rightarrow> nat \<Rightarrow> byte_cursor \<Rightarrow> byte list \<Rightarrow>
    (bool \<times> byte_cursor \<times> byte list \<times> send_result list) option res" where
  "send_pieces os cur out =
     (if \<not> cursor_has_next cur then Inr (Some (True, cur, out, os))
      else rbind (cursor_head cur) (\<lambda>ptr. if ptr = [] then Inr None else send_piece os ptr 0 cur out))"
| "send_piece os ptr sent cur out =
     (if sent < length ptr then
        case os of
          [] \<Rightarrow> Inr None
        | Sent n # os' \<Rightarrow>
            let nbytes = min n (length ptr - sent)
            in rbind (cursor_advance nbytes cur) (\<lambda>cur'.
                 send_piece os' ptr (sent + nbytes) cur' (out @ take nbytes (drop sent ptr)))
        | Send_again # os' \<Rightarrow> Inr (Some (True, cur, out, os'))
        | Send_error # os' \<Rightarrow> Inr (Some (False, cur, out, os'))
      else send_pieces os cur out)"
  by pat_completeness auto
termination
  by (relation "measure (\<lambda>x. case x of Inl (os, cur, out) \<Rightarrow> 3 * length os + 1
      | Inr (os, ptr, sent, cur, out) \<Rightarrow> if sent < length ptr then 3 * length os else 3 * length os + 2)") auto

text \<open>What \<open>send_msg\<close> has written to the two connections, and the cursors it leaves.\<close>

definition tcp_send_msg :: "send_result list \<Rightarrow> send_result list \<Rightarrow> byte_cursor \<Rightarrow> byte_cursor \<Rightarrow>
    (bool \<times> byte list \<times> byte list \<times> byte_cursor \<times> byte_cursor) option res" where
  "tcp_send_msg os1 os2 it1 it2 =
     rbind (send_pieces os1 it1 []) (\<lambda>r1.
       case r1 of
         None \<Rightarrow> Inr None
       | Some (ok1, it1', out1, _) \<Rightarrow>
           if cursor_has_next it2 \<and> ok1 then
             rbind (send_pieces os2 it2 []) (\<lambda>r2.
               case r2 of None \<Rightarrow> Inr None | Some (ok2, it2', out2, _) \<Rightarrow> Inr (Some (ok2, out1, out2, it1', it2')))
           else Inr (Some (ok1, out1, [], it1', it2)))"

definition cursor_new :: byte_cursor where
  "cursor_new = \<lparr>ci = 0, pieces = []\<rparr>"

definition send_rpc_message :: "send_result list \<Rightarrow> send_result list \<Rightarrow> rpc_message \<Rightarrow>
    (bool \<times> byte list \<times> byte list \<times> byte_cursor \<times> byte_cursor) option res" where
  "send_rpc_message os1 os2 m =
     rbind (cursor_attach m False cursor_new) (\<lambda>it1.
     rbind (cursor_attach m True cursor_new) (\<lambda>it2. tcp_send_msg os1 os2 it1 it2))"

section \<open>The receive buffer\<close>

text \<open>
  \<open>raddr\<close> is the address of the memory (addresses of a process have 47 bits), the two pointers into it are offsets. The
  argument \<open>addr\<close> tells where the allocator puts a buffer of a given size.
\<close>

record recv_buffer =
  raddr :: "47 word"
  rmem :: "byte list"
  rcursor :: nat
  msg_cursor :: nat

definition buffer_new :: recv_buffer where
  "buffer_new = \<lparr>raddr = 0, rmem = [], rcursor = 0, msg_cursor = 0\<rparr>"

definition buffer_alloc :: "(nat \<Rightarrow> 47 word) \<Rightarrow> nat \<Rightarrow> recv_buffer" where
  "buffer_alloc addr sz = \<lparr>raddr = addr sz, rmem = replicate sz 0, rcursor = 0, msg_cursor = 0\<rparr>"

definition avaliable_size :: "recv_buffer \<Rightarrow> nat" where
  "avaliable_size b = length (rmem b) - rcursor b"

definition write_at :: "nat \<Rightarrow> byte list \<Rightarrow> byte list \<Rightarrow> byte list" where
  "write_at pos bs mem = take pos mem @ bs @ drop (pos + length bs) mem"

definition pending_bytes :: "recv_buffer \<Rightarrow> byte list" where
  "pending_bytes b = drop (msg_cursor b) (take (rcursor b) (rmem b))"

text \<open>A new buffer with a copy of the bytes that do not make a whole message yet.\<close>

definition buffer_move :: "(nat \<Rightarrow> 47 word) \<Rightarrow> nat \<Rightarrow> recv_buffer \<Rightarrow> recv_buffer res" where
  "buffer_move addr sz b =
     (let tmp = buffer_alloc addr sz; p = pending_bytes b
      in if sz < length p then Inl Out_of_bounds
         else Inr (tmp\<lparr>rmem := write_at (rcursor tmp) p (rmem tmp), rcursor := rcursor tmp + length p\<rparr>))"

abbreviation recv_block_size :: nat where "recv_block_size \<equiv> 262144"

text \<open>
  A callback fails or returns. The callbacks of the library first make a request or a response of the message, which runs
  the checks of \<open>finalize\<close>.
\<close>

type_synonym callback = "rpc_message \<Rightarrow> unit res"

definition on_message :: callback where
  "on_message m = rbind (packet_of_message m :: lazy_value rpc_packet res) (\<lambda>_. Inr ())"

text \<open>
  The inner loop of \<open>try_recv_msgs\<close>; the messages given to the callback are collected in \<open>calls\<close>. \<open>expected_msg_end\<close> is a
  pointer, so its sum wraps around; with a pointer before the buffer the next head would be read from foreign memory.
\<close>

partial_function (option) parse_loop :: "(nat \<Rightarrow> 47 word) \<Rightarrow> allocator \<Rightarrow> callback \<Rightarrow> recv_buffer \<Rightarrow> rpc_message list \<Rightarrow>
    (recv_buffer \<times> rpc_message list) res option" where
  "parse_loop addr mem func b calls =
     (if msg_cursor b + HEAD_SIZE \<le> rcursor b then
        let memory = drop (msg_cursor b) (rmem b);
            sz = msg_size (head_read memory);
            expected_msg_end = unat (word_of_nat (unat (raddr b) + msg_cursor b) + sz)
        in if expected_msg_end \<le> unat (raddr b) + rcursor b then
             case message_recv mem (unat sz) memory of
               Inl f \<Rightarrow> Some (Inl f)
             | Inr m \<Rightarrow>
                 (case func m of
                    Inl f \<Rightarrow> Some (Inl f)
                  | Inr _ \<Rightarrow>
                      if expected_msg_end < unat (raddr b) then Some (Inl Out_of_bounds)
                      else parse_loop addr mem func (b\<lparr>msg_cursor := expected_msg_end - unat (raddr b)\<rparr>) (calls @ [m]))
           else if unat (raddr b) + length (rmem b) < expected_msg_end
             then Some (rbind (buffer_move addr (max (unat sz) recv_block_size) b) (\<lambda>tmp. Inr (tmp, calls)))
             else Some (Inr (b, calls))
      else if length (rmem b) < msg_cursor b + HEAD_SIZE
        then Some (rbind (buffer_move addr recv_block_size b) (\<lambda>tmp. Inr (tmp, calls)))
        else Some (Inr (b, calls)))"

datatype recv_end = Again | Peer_close | Recv_error

function try_recv_msgs :: "(nat \<Rightarrow> 47 word) \<Rightarrow> allocator \<Rightarrow> callback \<Rightarrow> byte list list \<Rightarrow> recv_end \<Rightarrow> recv_buffer \<Rightarrow> rpc_message list \<Rightarrow>
    (bool \<times> recv_buffer \<times> rpc_message list) res option" where
  "try_recv_msgs addr mem func ks e b calls =
     (case (if avaliable_size b = 0 then buffer_move addr recv_block_size b else Inr b) of
        Inl f \<Rightarrow> Some (Inl f)
      | Inr b1 \<Rightarrow>
          (case ks of
             [] \<Rightarrow> Some (Inr (e = Again, b1, calls))
           | k # ks' \<Rightarrow>
               (let n = min (length k) (avaliable_size b1)
                in if n = 0 then Some (Inr (False, b1, calls))
                   else
                     case parse_loop addr mem func (b1\<lparr>rmem := write_at (rcursor b1) (take n k) (rmem b1), rcursor := rcursor b1 + n\<rparr>) calls of
                       None \<Rightarrow> None
                     | Some (Inl f) \<Rightarrow> Some (Inl f)
                     | Some (Inr (b2, calls')) \<Rightarrow>
                         try_recv_msgs addr mem func (if n < length k then drop n k # ks' else ks') e b2 calls')))"
  by pat_completeness auto
termination
  by (relation "measure (\<lambda>(addr, mem, func, ks, e, b, calls). length ks + length (concat ks))") auto

section \<open>The socket\<close>

record tcp_socket =
  buffer :: recv_buffer
  pending_msgs :: "rpc_message list"
  block_id :: nat
  received_size :: nat

definition tcp_new :: tcp_socket where
  "tcp_new = \<lparr>buffer = buffer_new, pending_msgs = [], block_id = 0, received_size = 0\<rparr>"

definition fill_block :: "nat \<Rightarrow> byte list \<Rightarrow> data_block \<Rightarrow> data_block" where
  "fill_block pos bs b = b\<lparr>bmem := map_option (write_at pos bs) (bmem b)\<rparr>"

definition blocks_left :: "tcp_socket \<Rightarrow> nat" where
  "blocks_left s = sum_list (map (\<lambda>m. length (mdata m)) (pending_msgs s)) - block_id s"

text \<open>
  \<open>try_recv_pending\<close>. When \<open>recv\<close> returns 0 the value of \<open>errno\<close> is an old one; \<open>stale\<close> tells whether it is
  \<open>EAGAIN\<close>. The result has the part of the stream that was not read.
\<close>

function try_recv_pending :: "callback \<Rightarrow> byte list list \<Rightarrow> recv_end \<Rightarrow> bool \<Rightarrow> tcp_socket \<Rightarrow> rpc_message list \<Rightarrow>
    (bool \<times> byte list list \<times> tcp_socket \<times> rpc_message list) res" where
  "try_recv_pending func ks e stale s calls =
     (case pending_msgs s of
        [] \<Rightarrow> Inr (True, ks, s, calls)
      | msg # rest \<Rightarrow>
          if length (mdata msg) \<le> block_id s then Inl Out_of_bounds
          else
            let b = mdata msg ! block_id s;
                sz = unat (blen b) - received_size s
            in if small b \<or> sz = 0 then
                 if block_id s + 1 = unat (extra_block_count (message_head msg))
                 then rbind (func msg) (\<lambda>_.
                   try_recv_pending func ks e stale (s\<lparr>pending_msgs := rest, block_id := 0, received_size := 0\<rparr>) (calls @ [msg]))
                 else try_recv_pending func ks e stale (s\<lparr>block_id := block_id s + 1, received_size := 0\<rparr>) calls
               else
                 case ks of
                   [] \<Rightarrow> Inr (e = Again \<or> e = Peer_close \<and> stale, [], s, calls)
                 | k # ks' \<Rightarrow>
                     (let n = min (length k) sz
                      in if n = 0 then Inr (stale, ks', s, calls)
                         else
                           let msg' = msg\<lparr>mdata := (mdata msg)[block_id s := fill_block (received_size s) (take n k) b]\<rparr>
                           in try_recv_pending func (if n < length k then drop n k # ks' else ks') e stale
                                (s\<lparr>pending_msgs := msg' # rest, received_size := received_size s + n\<rparr>) calls))"
  by pat_completeness auto
termination
  by (relation "measure (\<lambda>(func, ks, e, stale, s, calls). length ks + length (concat ks) + blocks_left s)")
    (auto simp: blocks_left_def)

definition plain :: "rpc_message \<Rightarrow> bool" where
  "plain m \<longleftrightarrow> extra_block_count (message_head m) = 0"

text \<open>The callback \<open>tcp_func\<close>: a message with blocks waits in \<open>_pending_msgs\<close>.\<close>

definition tcp_func :: "callback \<Rightarrow> callback" where
  "tcp_func func m = (if plain m then func m else Inr ())"

definition handle_event1 :: "(nat \<Rightarrow> 47 word) \<Rightarrow> allocator \<Rightarrow> callback \<Rightarrow> byte list list \<Rightarrow> recv_end \<Rightarrow> byte list list \<Rightarrow> recv_end \<Rightarrow> bool \<Rightarrow> tcp_socket \<Rightarrow>
    (bool \<times> byte list list \<times> tcp_socket \<times> rpc_message list) res option" where
  "handle_event1 addr mem func ks1 e1 ks2 e2 stale s =
     (case try_recv_msgs addr mem (tcp_func func) ks1 e1 (buffer s) [] of
        None \<Rightarrow> None
      | Some (Inl f) \<Rightarrow> Some (Inl f)
      | Some (Inr (ok, b, msgs)) \<Rightarrow>
          let s1 = s\<lparr>buffer := b, pending_msgs := pending_msgs s @ filter (\<lambda>m. \<not> plain m) msgs\<rparr>;
              calls = filter plain msgs
          in if \<not> ok then Some (Inr (False, ks2, s1, calls)) else Some (try_recv_pending func ks2 e2 stale s1 calls))"

definition handle_event2 :: "callback \<Rightarrow> byte list list \<Rightarrow> recv_end \<Rightarrow> bool \<Rightarrow> tcp_socket \<Rightarrow>
    (bool \<times> byte list list \<times> tcp_socket \<times> rpc_message list) res" where
  "handle_event2 func ks2 e2 stale s = try_recv_pending func ks2 e2 stale s []"

declare send_pieces.simps [simp del] send_piece.simps [simp del] try_recv_msgs.simps [simp del] try_recv_pending.simps [simp del]

section \<open>Sending is complete and can be resumed\<close>

definition progress :: "send_result list \<Rightarrow> bool" where
  "progress os \<longleftrightarrow> list_all (\<lambda>r. case r of Sent n \<Rightarrow> 0 < n | _ \<Rightarrow> False) os"

definition send_post :: "send_result list \<Rightarrow> byte_cursor \<Rightarrow> byte list \<Rightarrow>
    (bool \<times> byte_cursor \<times> byte list \<times> send_result list) option res \<Rightarrow> bool" where
  "send_post os cur out r \<longleftrightarrow> (\<exists>x. r = Inr x \<and>
     (\<forall>ok cur' out' os'. x = Some (ok, cur', out', os') \<longrightarrow> cursor_ok cur' \<and> out' @ left cur' = out @ left cur \<and>
        (ok \<and> Send_again \<notin> set os \<longrightarrow> left cur' = []) \<and> (Send_error \<notin> set os \<longrightarrow> ok)) \<and>
     (progress os \<and> length (left cur) \<le> length os \<longrightarrow> x \<noteq> None))"

lemma send_post_step:
  assumes "send_post os cur' (out @ take n (left cur)) r" "left cur' = drop n (left cur)" "0 < n" "n \<le> length (left cur)"
  shows "send_post (Sent k # os) cur out r"
  using assms unfolding send_post_def progress_def by (auto simp: append_assoc [symmetric])

lemma send_loops:
  "cursor_ok cur \<Longrightarrow> send_post os cur out (send_pieces os cur out)"
  "cursor_ok cur \<Longrightarrow> sent \<le> length ptr \<Longrightarrow> (sent < length ptr \<Longrightarrow> cursor_head cur = Inr (drop sent ptr)) \<Longrightarrow>
     send_post os cur out (send_piece os ptr sent cur out)"
proof (induction os cur out and os ptr sent cur out rule: send_pieces_send_piece.induct)
  case (1 os cur out)
  show ?case
  proof (cases "cursor_has_next cur")
    case False
    then have "left cur = []" by (simp add: cursor_has_next_def left_def)
    then show ?thesis using False 1 by (subst send_pieces.simps) (auto simp: send_post_def)
  next
    case True
    then have lt: "ci cur < length (pieces cur)" using 1 by (simp add: cursor_has_next_def cursor_ok_def)
    then have h: "cursor_head cur = Inr (pieces cur ! ci cur)" by (simp add: cursor_head_def)
    have "drop (ci cur) (pieces cur) = pieces cur ! ci cur # drop (Suc (ci cur)) (pieces cur)"
      using lt by (simp add: Cons_nth_drop_Suc)
    then have ne: "pieces cur ! ci cur \<noteq> []" using 1 by (auto simp: cursor_ok_def)
    then show ?thesis using 1(1) [OF _ ne] 1(2) True h by (subst send_pieces.simps) auto
  qed
next
  case (2 os ptr sent cur out)
  show ?case
  proof (cases "sent < length ptr")
    case False
    then show ?thesis using 2 by (subst send_piece.simps) auto
  next
    case True
    then have h: "cursor_head cur = Inr (drop sent ptr)" using 2 by simp
    then have lne: "left cur \<noteq> []"
      using True by (auto simp: cursor_head_def left_def split: if_splits) (metis True drop_eq_Nil not_le Cons_nth_drop_Suc list.set_intros(1))
    show ?thesis
    proof (cases os)
      case Nil
      then show ?thesis using True lne by (subst send_piece.simps) (auto simp: send_post_def)
    next
      case (Cons r os')
      show ?thesis
      proof (cases r)
        case (Sent n)
        let ?n = "min n (length ptr - sent)"
        obtain cur' where c: "cursor_advance ?n cur = Inr cur'" "cursor_ok cur'" "left cur' = drop ?n (left cur)"
            "take ?n (left cur) = take ?n (drop sent ptr)"
            "?n < length (drop sent ptr) \<longrightarrow> ci cur' = ci cur \<and> pieces cur' = (pieces cur)[ci cur := drop ?n (drop sent ptr)]"
          using cursor_advance_result [OF 2(3) h, of ?n] by auto
        have "cursor_head cur' = Inr (drop (sent + ?n) ptr)" if "sent + ?n < length ptr"
          using that c(5) h by (auto simp: cursor_head_def add.commute split: if_splits)
        moreover have "sent + ?n \<le> length ptr" using True by simp
        ultimately have ih: "send_post os' cur' (out @ take ?n (left cur)) (send_piece os' ptr (sent + ?n) cur' (out @ take ?n (drop sent ptr)))"
          using 2(1) [OF True Cons Sent refl c(2)] c(4) by auto
        show ?thesis
        proof (cases "n = 0")
          case True2: True
          then show ?thesis using True Cons Sent c ih
            by (subst send_piece.simps) (auto simp: send_post_def progress_def)
        next
          case False
          have "length (take ?n (left cur)) = ?n" using c(4) by simp
          then have "?n \<le> length (left cur)" by (metis length_take min.cobounded1)
          then show ?thesis using send_post_step [OF ih c(3), of n] False True Cons Sent c(1) by (subst send_piece.simps) (simp add: Let_def)
        qed
      qed (use True Cons 2 in \<open>subst send_piece.simps, auto simp: send_post_def progress_def\<close>)+
    qed
  qed
qed

section \<open>The receive buffer holds a prefix of the stream\<close>

definition buffer_ok :: "recv_buffer \<Rightarrow> bool" where
  "buffer_ok b \<longleftrightarrow> msg_cursor b \<le> rcursor b \<and> rcursor b \<le> length (rmem b) \<and> length (rmem b) < 2 ^ 62"

lemma length_pending: "buffer_ok b \<Longrightarrow> length (pending_bytes b) = rcursor b - msg_cursor b"
  by (simp add: pending_bytes_def buffer_ok_def)

lemma buffer_move_result:
  assumes "buffer_ok b" "length (pending_bytes b) \<le> sz" "sz < 2 ^ 62"
  shows "\<exists>b'. buffer_move addr sz b = Inr b' \<and> buffer_ok b' \<and> pending_bytes b' = pending_bytes b \<and>
    avaliable_size b' = sz - length (pending_bytes b)"
  using assms
  by (auto simp: buffer_move_def Let_def buffer_alloc_def buffer_ok_def write_at_def avaliable_size_def
      pending_bytes_def [of "\<lparr>raddr = _, rmem = _, rcursor = _, msg_cursor = _\<rparr>"])

lemma buffer_receive:
  assumes "buffer_ok b" "length bs \<le> avaliable_size b"
  defines "b' \<equiv> b\<lparr>rmem := write_at (rcursor b) bs (rmem b), rcursor := rcursor b + length bs\<rparr>"
  shows "buffer_ok b'" "pending_bytes b' = pending_bytes b @ bs"
  using assms by (auto simp: buffer_ok_def write_at_def avaliable_size_def pending_bytes_def)

lemma buffer_skip:
  assumes "buffer_ok b" "n \<le> length (pending_bytes b)"
  shows "buffer_ok (b\<lparr>msg_cursor := msg_cursor b + n\<rparr>)"
    "pending_bytes (b\<lparr>msg_cursor := msg_cursor b + n\<rparr>) = drop n (pending_bytes b)"
proof -
  have "n \<le> rcursor b - msg_cursor b" using assms length_pending by simp
  moreover have "msg_cursor b \<le> rcursor b" "rcursor b \<le> length (rmem b)" "length (rmem b) < 2 ^ 62" using assms(1) by (simp_all add: buffer_ok_def)
  ultimately show "buffer_ok (b\<lparr>msg_cursor := msg_cursor b + n\<rparr>)" by (simp add: buffer_ok_def)
  show "pending_bytes (b\<lparr>msg_cursor := msg_cursor b + n\<rparr>) = drop n (pending_bytes b)"
    by (simp add: pending_bytes_def add.commute)
qed

lemma field_take: "off + LENGTH('w) div 8 \<le> n \<Longrightarrow> field off (take n bs) = (field off bs :: 'w :: len word)"
  by (simp add: field_def drop_take)

lemma head_read_take: "head_read (take HEAD_SIZE bs) = head_read bs"
  by (simp add: head_read_def field_take)

definition incomplete :: "byte list \<Rightarrow> rpc_message list \<Rightarrow> bool" where
  "incomplete bs ms \<longleftrightarrow> (case ms of [] \<Rightarrow> True | m # _ \<Rightarrow> length bs < length (wire1 m))"

lemma expected_end:
  assumes "buffer_ok b" "unat sz < 2 ^ 63"
  shows "unat (word_of_nat (unat (raddr b) + msg_cursor b) + sz :: 64 word) = unat (raddr b) + msg_cursor b + unat sz"
proof -
  have a: "unat (raddr b) < 2 ^ 47" using unsigned_less [of "raddr b"] by simp
  have m: "msg_cursor b < 2 ^ 62" using assms(1) by (simp add: buffer_ok_def)
  have u: "unat (word_of_nat (unat (raddr b) + msg_cursor b) :: 64 word) = unat (raddr b) + msg_cursor b"
    using a m by (simp add: unat_of_nat del: of_nat_add)
  show ?thesis using a m assms(2) u by (subst unat_add_lem [THEN iffD1]) simp_all
qed

lemma parse_loop_stop:
  assumes ok: "buffer_ok b" and short: "length (pending_bytes b) < HEAD_SIZE"
  shows "\<exists>b'. parse_loop addr mem func b calls = Some (Inr (b', calls)) \<and> buffer_ok b' \<and> 0 < avaliable_size b' \<and>
    pending_bytes b' = pending_bytes b"
proof -
  have rc: "\<not> msg_cursor b + HEAD_SIZE \<le> rcursor b" using short length_pending [OF ok] by simp
  show ?thesis
  proof (cases "length (rmem b) < msg_cursor b + HEAD_SIZE")
    case True
    then show ?thesis
      using rc buffer_move_result [OF ok, of recv_block_size addr] short by (subst parse_loop.simps) auto
  next
    case False
    then have "0 < avaliable_size b" using rc by (simp add: avaliable_size_def)
    then show ?thesis using rc False ok by (subst parse_loop.simps) auto
  qed
qed

lemma parse_loop_partial:
  assumes ok: "buffer_ok b" and m: "message_ok m" and pre: "pending_bytes b @ rest = wire1 m @ others"
    and long: "HEAD_SIZE \<le> length (pending_bytes b)"
  defines "memory \<equiv> drop (msg_cursor b) (rmem b)"
  shows "msg_cursor b + HEAD_SIZE \<le> rcursor b" "head_read memory = message_head m"
    "unat (msg_size (head_read memory)) = length (wire1 m)" "memory = pending_bytes b @ drop (rcursor b) (rmem b)"
proof -
  show "msg_cursor b + HEAD_SIZE \<le> rcursor b" using long length_pending [OF ok] by simp
  show mem: "memory = pending_bytes b @ drop (rcursor b) (rmem b)"
    using ok unfolding memory_def pending_bytes_def buffer_ok_def
    by (metis append_take_drop_id drop_append drop_take drop_eq_Nil2 append_Nil2 diff_is_0_eq drop0 length_take min.absorb2)
  have "take HEAD_SIZE memory = take HEAD_SIZE (pending_bytes b @ rest)" using mem long by simp
  also have "\<dots> = take HEAD_SIZE (wire1 m @ others)" using pre by simp
  finally show h: "head_read memory = message_head m"
    by (metis head_read_take head_read_wire [OF m])
  show "unat (msg_size (head_read memory)) = length (wire1 m)" using h message_ok_size [OF m] by simp
qed

lemma parse_loop_stream:
  assumes "buffer_ok b" "list_all message_ok ms" "pending_bytes b @ rest = concat (map wire1 ms)"
    "\<And>m. m \<in> set ms \<Longrightarrow> func (received_message mem m) = Inr ()"
  shows "\<exists>k b'. k \<le> length ms \<and> parse_loop addr mem func b calls = Some (Inr (b', calls @ map (received_message mem) (take k ms))) \<and>
    buffer_ok b' \<and> 0 < avaliable_size b' \<and> pending_bytes b' @ rest = concat (map wire1 (drop k ms)) \<and>
    incomplete (pending_bytes b') (drop k ms)"
  using assms
proof (induction ms arbitrary: b calls)
  case Nil
  then have "pending_bytes b = []" by simp
  then show ?case using parse_loop_stop [OF Nil.prems(1), of addr mem func calls] Nil.prems(3) by (auto simp: incomplete_def)
next
  case (Cons m ms)
  note ok = Cons.prems(1)
  have m: "message_ok m" using Cons.prems(2) by simp
  have wl: "HEAD_SIZE \<le> length (wire1 m)" using message_ok_start(2) [OF m] by (simp add: wire1_def)
  show ?case
  proof (cases "length (pending_bytes b) < HEAD_SIZE")
    case True
    then show ?thesis
      using parse_loop_stop [OF ok True, of addr mem func calls] Cons.prems(3) wl by (fastforce simp: incomplete_def)
  next
    case False
    then have pre: "pending_bytes b @ rest = wire1 m @ concat (map wire1 ms)" and long: "HEAD_SIZE \<le> length (pending_bytes b)"
      using Cons.prems(3) by auto
    note p = parse_loop_partial [OF ok m pre long]
    let ?sz = "length (wire1 m)" and ?mem = "drop (msg_cursor b) (rmem b)"
    have lt: "?sz < 2 ^ 62" using m by (simp add: message_ok_def Let_def)
    note e = expected_end [OF ok, of "msg_size (head_read ?mem)", unfolded p(3), OF order.strict_trans [OF lt]]
    have rc: "rcursor b = msg_cursor b + length (pending_bytes b)" using ok length_pending [OF ok] by (simp add: buffer_ok_def)
    show ?thesis
    proof (cases "?sz \<le> length (pending_bytes b)")
      case True
      then have split: "pending_bytes b = wire1 m @ drop ?sz (pending_bytes b)"
        using pre by (metis append_eq_append_conv_if append_take_drop_id)
      let ?b = "b\<lparr>msg_cursor := msg_cursor b + ?sz\<rparr>"
      have b': "buffer_ok ?b" "pending_bytes ?b = drop ?sz (pending_bytes b)"
        using buffer_skip [OF ok True] by auto
      have r: "message_recv mem ?sz ?mem = Inr (received_message mem m)"
        using message_recv_wire [OF m] p(4) split by (metis append_assoc)
      have "parse_loop addr mem func b calls = parse_loop addr mem func ?b (calls @ [received_message mem m])"
        using p(1,3) True rc r e Cons.prems(4) by (subst parse_loop.simps) (simp add: Let_def)
      moreover have "pending_bytes ?b @ rest = concat (map wire1 ms)" using pre split b'(2) by (metis append_assoc same_append_eq)
      ultimately obtain k b2 where "k \<le> length ms" "parse_loop addr mem func b calls = Some (Inr (b2, calls @ map (received_message mem) (take (Suc k) (m # ms))))"
          "buffer_ok b2" "0 < avaliable_size b2" "pending_bytes b2 @ rest = concat (map wire1 (drop (Suc k) (m # ms)))"
          "incomplete (pending_bytes b2) (drop (Suc k) (m # ms))"
        using Cons.IH [OF b'(1), of "calls @ [received_message mem m]"] Cons.prems(2,4) by auto
      then show ?thesis by (intro exI [of _ "Suc k"] exI [of _ b2]) auto
    next
      case short: False
      have "\<exists>b'. parse_loop addr mem func b calls = Some (Inr (b', calls)) \<and> buffer_ok b' \<and> 0 < avaliable_size b' \<and> pending_bytes b' = pending_bytes b"
      proof (cases "length (rmem b) < msg_cursor b + ?sz")
        case True
        have "length (pending_bytes b) < max ?sz recv_block_size" using short by simp
        then obtain b' where "buffer_move addr (max ?sz recv_block_size) b = Inr b'" "buffer_ok b'" "0 < avaliable_size b'"
            "pending_bytes b' = pending_bytes b"
          using buffer_move_result [OF ok, of "max ?sz recv_block_size" addr] lt by auto
        then show ?thesis
          using p(1,3) short rc True e by (subst parse_loop.simps) (simp add: Let_def)
      next
        case False
        then show ?thesis
          using p(1,3) short rc ok e by (subst parse_loop.simps) (auto simp: Let_def avaliable_size_def)
      qed
      then show ?thesis using short Cons.prems(3) by (intro exI [of _ 0]) (auto simp: incomplete_def)
    qed
  qed
qed

lemma try_recv_stream:
  assumes "buffer_ok b" "0 < avaliable_size b \<or> pending_bytes b = []" "list_all message_ok ms" "[] \<notin> set ks"
    "pending_bytes b @ concat ks @ rest = concat (map wire1 ms)" "incomplete (pending_bytes b) ms"
    "\<And>m. m \<in> set ms \<Longrightarrow> func (received_message mem m) = Inr ()"
  shows "\<exists>k b'. k \<le> length ms \<and>
    try_recv_msgs addr mem func ks e b calls = Some (Inr (e = Again, b', calls @ map (received_message mem) (take k ms))) \<and>
    buffer_ok b' \<and> 0 < avaliable_size b' \<and> pending_bytes b' @ rest = concat (map wire1 (drop k ms)) \<and>
    incomplete (pending_bytes b') (drop k ms)"
  using assms
proof (induction ks arbitrary: b ms calls rule: measure_induct_rule [where f = "\<lambda>ks. length ks + length (concat ks)"])
  case (less ks)
  obtain b1 where b1: "(if avaliable_size b = 0 then buffer_move addr recv_block_size b else Inr b) = Inr b1" "buffer_ok b1"
      "0 < avaliable_size b1" "pending_bytes b1 = pending_bytes b"
    using less.prems(1,2) buffer_move_result [OF less.prems(1), of recv_block_size addr] by (cases "avaliable_size b = 0") auto
  show ?case
  proof (cases ks)
    case Nil
    then show ?thesis using b1 less.prems by (intro exI [of _ 0]) (subst try_recv_msgs.simps, auto)
  next
    case (Cons c ks')
    let ?n = "min (length c) (avaliable_size b1)" and ?ks = "if min (length c) (avaliable_size b1) < length c then drop (min (length c) (avaliable_size b1)) c # ks' else ks'"
    have n: "0 < ?n" "?n \<le> length c" "length (take ?n c) = ?n" "length (take ?n c) \<le> avaliable_size b1"
      using less.prems(4) Cons b1(3) by auto
    let ?b = "b1\<lparr>rmem := write_at (rcursor b1) (take ?n c) (rmem b1), rcursor := rcursor b1 + ?n\<rparr>"
    have b2: "buffer_ok ?b" "pending_bytes ?b = pending_bytes b @ take ?n c"
      using buffer_receive [OF b1(2) n(4)] n(3) b1(4) by simp_all
    have cc: "take ?n c @ concat ?ks = concat ks" using Cons n by auto
    have ks: "[] \<notin> set ?ks" using less.prems(4) Cons by auto
    have m: "length ?ks + length (concat ?ks) < length ks + length (concat ks)" using Cons n by (auto split: if_splits)
    have st: "pending_bytes ?b @ (concat ?ks @ rest) = concat (map wire1 ms)"
      using b2(2) cc less.prems(5) by (metis append_assoc)
    obtain k b3 where p: "k \<le> length ms" "parse_loop addr mem func ?b calls = Some (Inr (b3, calls @ map (received_message mem) (take k ms)))"
        "buffer_ok b3" "0 < avaliable_size b3" "pending_bytes b3 @ concat ?ks @ rest = concat (map wire1 (drop k ms))"
        "incomplete (pending_bytes b3) (drop k ms)"
      using parse_loop_stream [where func = func and mem = mem and addr = addr and calls = calls, OF b2(1) less.prems(3) st less.prems(7)] by blast
    have "try_recv_msgs addr mem func ks e b calls = try_recv_msgs addr mem func ?ks e b3 (calls @ map (received_message mem) (take k ms))"
      using b1(1) Cons n(1) p(2) by (subst try_recv_msgs.simps) (simp add: Let_def del: min_less_iff_conj)
    moreover have "list_all message_ok (drop k ms)" using less.prems(3) by (auto simp: list_all_iff dest: in_set_dropD)
    ultimately obtain k2 b4 where "k2 \<le> length (drop k ms)"
        "try_recv_msgs addr mem func ks e b calls = Some (Inr (e = Again, b4, (calls @ map (received_message mem) (take k ms)) @ map (received_message mem) (take k2 (drop k ms))))"
        "buffer_ok b4" "0 < avaliable_size b4" "pending_bytes b4 @ rest = concat (map wire1 (drop k2 (drop k ms)))"
        "incomplete (pending_bytes b4) (drop k2 (drop k ms))"
      using less.IH [OF m p(3) disjI1 [OF p(4)] _ ks p(5,6), of "calls @ map (received_message mem) (take k ms)"] less.prems(7)
      by (auto dest: in_set_dropD)
    moreover have "take (k2 + k) ms = take k ms @ take k2 (drop k ms)" by (metis add.commute take_add)
    ultimately show ?thesis
      using p(1) by (intro exI [of _ "k2 + k"] exI [of _ b4]) auto
  qed
qed

section \<open>The second connection\<close>

text \<open>The block \<open>b'\<close> of the receiver has the first \<open>r\<close> bytes of the block \<open>b\<close> of the sender.\<close>

definition fills :: "data_block \<Rightarrow> data_block \<Rightarrow> nat \<Rightarrow> bool" where
  "fills b b' r \<longleftrightarrow> blen b' = blen b \<and>
     (if small b then block_read b' = Inr (block_bytes b)
      else \<exists>mem. bmem b' = Some mem \<and> length mem = unat (blen b) \<and> take r mem = take r (block_bytes b))"

definition partial :: "rpc_message \<Rightarrow> rpc_message \<Rightarrow> nat \<Rightarrow> nat \<Rightarrow> bool" where
  "partial m m' i r \<longleftrightarrow> start m' = wire1 m \<and> length (mdata m') = length (mdata m) \<and>
     (\<forall>j < length (mdata m). fills (mdata m ! j) (mdata m' ! j)
        (if j < i then unat (blen (mdata m ! j)) else if j = i then r else 0))"

definition todo :: "data_block list \<Rightarrow> nat \<Rightarrow> nat \<Rightarrow> byte list" where
  "todo ds i r = (if small (ds ! i) then [] else drop r (block_bytes (ds ! i))) @
     concat (map block_bytes (filter (\<lambda>b. \<not> small b) (drop (Suc i) ds)))"

fun pend_ok :: "allocator \<Rightarrow> rpc_message list \<Rightarrow> tcp_socket \<Rightarrow> bool" where
  "pend_ok mem [] s \<longleftrightarrow> pending_msgs s = [] \<and> block_id s = 0 \<and> received_size s = 0"
| "pend_ok mem (m # ms) s \<longleftrightarrow> (\<exists>m'. pending_msgs s = m' # map (received_message mem) ms \<and>
     partial m m' (block_id s) (received_size s) \<and> block_id s < length (mdata m) \<and>
     received_size s \<le> unat (blen (mdata m ! block_id s)))"

fun need :: "rpc_message list \<Rightarrow> tcp_socket \<Rightarrow> byte list" where
  "need [] s = []"
| "need (m # ms) s = todo (mdata m) (block_id s) (received_size s) @ concat (map wire2 ms)"

lemma length_received_all [simp]: "length (received_all mem i ds) = length ds"
  by (induction ds arbitrary: i) auto

lemma received_all_nth: "j < length ds \<Longrightarrow> received_all mem i ds ! j = received mem (i + j) (ds ! j)"
  by (induction ds arbitrary: i j) (auto simp: nth_Cons split: nat.splits)

lemma received_fills: "block_ok b \<Longrightarrow> fills b (received mem i b) 0"
  using block_ok_length [of b]
  by (auto simp: fills_def received_def block_alloc_def block_empty_def block_read_def small_def unat_eq_zero)

lemma partial_init:
  assumes "message_ok m"
  shows "partial m (received_message mem m) 0 0"
proof -
  have "list_all block_ok (mdata m)" using assms by (simp add: message_ok_def Let_def)
  then show ?thesis
    by (auto simp: partial_def received_message_def received_all_nth list_all_length intro!: received_fills)
qed

lemma todo_init: "ds \<noteq> [] \<Longrightarrow> todo ds 0 0 = concat (map block_bytes (filter (\<lambda>b. \<not> small b) ds))"
  by (cases ds) (auto simp: todo_def)

lemma pend_ok_start:
  assumes "list_all (\<lambda>m. message_ok m \<and> mdata m \<noteq> []) Q" "pending_msgs s = map (received_message mem) Q" "block_id s = 0" "received_size s = 0"
  shows "pend_ok mem Q s" "need Q s = concat (map wire2 Q)"
  using assms by (cases Q; auto simp: partial_init todo_init wire2_def)+

lemma fills_complete: "block_ok b \<Longrightarrow> fills b b' (unat (blen b)) \<Longrightarrow> block_read b' = block_read b"
  by (auto simp: fills_def block_ok_def [of b] block_read_def [of b'] block_ok_length dest: block_ok_length split: if_splits)

lemma partial_complete:
  assumes "message_ok m" "partial m m' i r" "Suc i = length (mdata m)" "small (mdata m ! i) \<or> r = unat (blen (mdata m ! i))"
  shows "same_message m m'"
proof -
  have ok: "block_ok (mdata m ! j)" if "j < length (mdata m)" for j
    using assms(1) that by (auto simp: message_ok_def Let_def list_all_length)
  have "block_read (mdata m' ! j) = block_read (mdata m ! j)" if j: "j < length (mdata m)" for j
  proof -
    have "fills (mdata m ! j) (mdata m' ! j) (unat (blen (mdata m ! j)))"
    proof -
      have f: "fills (mdata m ! j) (mdata m' ! j) (if j < i then unat (blen (mdata m ! j)) else if j = i then r else 0)"
        using assms(2) j by (simp add: partial_def)
      show ?thesis
      proof (cases "j = i")
        case True
        then show ?thesis using f assms(4) by (auto simp: fills_def)
      next
        case False
        then show ?thesis using f assms(3) j by simp
      qed
    qed
    then show ?thesis by (rule fills_complete [OF ok [OF j]])
  qed
  then show ?thesis using assms(2) by (auto simp: same_message_def partial_def intro!: nth_equalityI)
qed

lemma partial_next:
  assumes "partial m m' i r" "i < length (mdata m)" "small (mdata m ! i) \<or> r = unat (blen (mdata m ! i))"
  shows "partial m m' (Suc i) 0"
proof -
  have "fills (mdata m ! j) (mdata m' ! j) (if j < Suc i then unat (blen (mdata m ! j)) else if j = Suc i then 0 else 0)"
    if j: "j < length (mdata m)" for j
    using assms(1,3) j unfolding partial_def by (cases "j = i") (fastforce simp: fills_def)+
  then show ?thesis using assms(1) by (auto simp: partial_def)
qed

lemma todo_next:
  assumes "Suc i < length ds" "small (ds ! i) \<or> length (block_bytes (ds ! i)) \<le> r"
  shows "todo ds i r = todo ds (Suc i) 0"
proof -
  have "drop (Suc i) ds = ds ! Suc i # drop (Suc (Suc i)) ds" using assms(1) by (simp add: Cons_nth_drop_Suc)
  then show ?thesis using assms(2) by (auto simp: todo_def)
qed

lemma todo_last: "Suc i = length ds \<Longrightarrow> small (ds ! i) \<or> length (block_bytes (ds ! i)) \<le> r \<Longrightarrow> todo ds i r = []"
  by (auto simp: todo_def)

lemma fills_more:
  assumes "fills b b' r" "\<not> small b" "r + length bs \<le> unat (blen b)" "block_ok b" "take (length bs) (drop r (block_bytes b)) = bs"
  shows "fills b (fill_block r bs b') (r + length bs)"
proof -
  obtain mem where m: "bmem b' = Some mem" "length mem = unat (blen b)" "take r mem = take r (block_bytes b)" "blen b' = blen b"
    using assms(1,2) by (auto simp: fills_def)
  have "take (r + length bs) (write_at r bs mem) = take r mem @ bs" using m(2) assms(3) by (simp add: write_at_def)
  also have "\<dots> = take (r + length bs) (block_bytes b)" using assms(5) m(3) by (metis take_add)
  finally have "take (r + length bs) (write_at r bs mem) = take (r + length bs) (block_bytes b)" .
  moreover have "length (write_at r bs mem) = unat (blen b)" using m(2) assms(3) by (simp add: write_at_def)
  ultimately show ?thesis using m assms(2) by (simp add: fills_def fill_block_def)
qed

lemma partial_more:
  assumes "partial m m' i r" "message_ok m" "i < length (mdata m)" "\<not> small (mdata m ! i)" "r + length bs \<le> unat (blen (mdata m ! i))"
    "take (length bs) (drop r (block_bytes (mdata m ! i))) = bs"
  shows "partial m (m'\<lparr>mdata := (mdata m')[i := fill_block r bs (mdata m' ! i)]\<rparr>) i (r + length bs)"
proof -
  have ok: "block_ok (mdata m ! i)" using assms(2,3) by (auto simp: message_ok_def Let_def list_all_length)
  have "fills (mdata m ! i) (mdata m' ! i) r" using assms(1,3) unfolding partial_def by auto
  then have "fills (mdata m ! i) (fill_block r bs (mdata m' ! i)) (r + length bs)" by (rule fills_more) (use assms ok in auto)
  then show ?thesis using assms(1) by (auto simp: partial_def nth_list_update)
qed

lemma append_prefix_split:
  assumes "xs @ ys = us @ vs" "length us \<le> length xs"
  shows "take (length us) xs = us" "drop (length us) xs @ ys = vs"
  using assms by (auto simp: append_eq_append_conv2)

lemma try_recv_pending_stream:
  assumes "list_all (\<lambda>m. message_ok m \<and> mdata m \<noteq> []) Q" "pend_ok mem Q s" "[] \<notin> set ks"
    "need Q s @ later = concat ks @ rest" "\<forall>m \<in> set Q. \<forall>m'. same_message m m' \<longrightarrow> func m' = Inr ()"
  shows "\<exists>n ks' s' ds. try_recv_pending func ks Again stale s calls = Inr (True, ks', s', calls @ ds) \<and> n \<le> length Q \<and>
    list_all2 same_message (take n Q) ds \<and> pend_ok mem (drop n Q) s' \<and> need (drop n Q) s' @ later = concat ks' @ rest \<and>
    [] \<notin> set ks' \<and> (drop n Q \<noteq> [] \<longrightarrow> ks' = [] \<and> need (drop n Q) s' \<noteq> []) \<and> buffer s' = buffer s"
  using assms
proof (induction "length ks + length (concat ks) + blocks_left s" arbitrary: Q s ks calls rule: less_induct)
  case less
  show ?case
  proof (cases Q)
    case Nil
    then show ?thesis using less.prems by (intro exI [of _ 0]) (subst try_recv_pending.simps, auto)
  next
    case (Cons m Q')
    let ?i = "block_id s" and ?r = "received_size s"
    obtain m' where p: "pending_msgs s = m' # map (received_message mem) Q'" "partial m m' ?i ?r" "?i < length (mdata m)"
        "?r \<le> unat (blen (mdata m ! ?i))"
      using less.prems(2) Cons by auto
    have m: "message_ok m" "mdata m \<noteq> []" and Q': "list_all (\<lambda>m. message_ok m \<and> mdata m \<noteq> []) Q'"
      using less.prems(1) Cons by auto
    let ?b = "mdata m ! ?i" and ?b' = "mdata m' ! ?i"
    have blk: "blen ?b' = blen ?b" "small ?b' = small ?b" "length (mdata m') = length (mdata m)" "start m' = wire1 m"
      using p(2,3) by (auto simp: partial_def fills_def small_def)
    have cnt: "unat (extra_block_count (message_head m')) = length (mdata m)"
      using m(1) head_read_wire [OF m(1), of "[]"] blk(4) by (simp add: message_ok_def Let_def message_head_def)
    have bl: "length (block_bytes ?b) = unat (blen ?b)"
      using m(1) p(3) by (auto simp: message_ok_def Let_def list_all_length intro: block_ok_length)
    note unf = try_recv_pending.simps [of func ks Again stale s calls]
    show ?thesis
    proof (cases "small ?b \<or> unat (blen ?b) - ?r = 0")
      case ready: True
      from ready have full: "small ?b \<or> ?r = unat (blen ?b)" "small ?b \<or> length (block_bytes ?b) \<le> ?r" using p(4) bl by auto
      show ?thesis
      proof (cases "Suc ?i = length (mdata m)")
        case True
        let ?s = "s\<lparr>pending_msgs := map (received_message mem) Q', block_id := 0, received_size := 0\<rparr>"
        note same = partial_complete [OF m(1) p(2) True full(1)]
        have eq: "try_recv_pending func ks Again stale s calls = try_recv_pending func ks Again stale ?s (calls @ [m'])"
          unfolding unf using p(1,3) blk cnt ready True less.prems(5) same Cons by (simp add: Let_def)
        have po: "pend_ok mem Q' ?s" "need Q' ?s = concat (map wire2 Q')" using pend_ok_start [OF Q', of ?s mem] by simp_all
        have nd: "need Q' ?s @ later = concat ks @ rest"
          using less.prems(4) Cons todo_last [OF True full(2)] po(2) by simp
        have ms: "length ks + length (concat ks) + blocks_left ?s < length ks + length (concat ks) + blocks_left s"
          using p(1,3) blk(3) by (simp add: blocks_left_def)
        have acc: "\<forall>x \<in> set Q'. \<forall>x'. same_message x x' \<longrightarrow> func x' = Inr ()" using less.prems(5) Cons by simp
        obtain n ks' s' ds where "try_recv_pending func ks Again stale ?s (calls @ [m']) = Inr (True, ks', s', (calls @ [m']) @ ds)"
            "n \<le> length Q'" "list_all2 same_message (take n Q') ds" "pend_ok mem (drop n Q') s'"
            "need (drop n Q') s' @ later = concat ks' @ rest" "[] \<notin> set ks'"
            "drop n Q' \<noteq> [] \<longrightarrow> ks' = [] \<and> need (drop n Q') s' \<noteq> []" "buffer s' = buffer ?s"
          using less.hyps [where calls = "calls @ [m']", OF ms Q' po(1) less.prems(3) nd acc] by blast
        then show ?thesis
          using eq Cons same
          by (intro exI [of _ "Suc n"] exI [of _ ks'] exI [of _ s'] exI [of _ "m' # ds"]) auto
      next
        case False
        then have lt: "Suc ?i < length (mdata m)" using p(3) by simp
        let ?s = "s\<lparr>block_id := ?i + 1, received_size := 0\<rparr>"
        have eq: "try_recv_pending func ks Again stale s calls = try_recv_pending func ks Again stale ?s calls"
          unfolding unf using p(1,3) blk cnt ready False by (simp add: Let_def)
        have po: "pend_ok mem Q ?s" using p partial_next [OF p(2,3) full(1)] lt Cons by auto
        have nd: "need Q ?s @ later = concat ks @ rest"
          using less.prems(4) Cons todo_next [OF lt full(2)] by simp
        have ms: "blocks_left ?s < blocks_left s" using p(1,3) blk(3) by (simp add: blocks_left_def)
        then show ?thesis
          using less.hyps [OF _ less.prems(1) po less.prems(3) nd less.prems(5), of calls] eq by auto
      qed
    next
      case wait: False
      then have big: "\<not> small ?b" "0 < unat (blen ?b) - ?r" by auto
      show ?thesis
      proof (cases ks)
        case Nil
        have "need Q s \<noteq> []" using Cons big bl by (simp add: todo_def)
        then show ?thesis using Nil p(1,3) blk big less.prems unfolding unf
          by (intro exI [of _ 0] exI [of _ "[]"] exI [of _ s]) (simp add: Let_def)
      next
        case k: (Cons c ks')
        let ?n = "min (length c) (unat (blen ?b) - ?r)"
        let ?ks = "if ?n < length c then drop ?n c # ks' else ks'"
        let ?m = "m'\<lparr>mdata := (mdata m')[?i := fill_block ?r (take ?n c) ?b']\<rparr>"
        let ?s = "s\<lparr>pending_msgs := ?m # map (received_message mem) Q', received_size := ?r + ?n\<rparr>"
        have n: "0 < ?n" "length (take ?n c) = ?n" using big(2) less.prems(3) k by auto
        have eq: "try_recv_pending func ks Again stale s calls = try_recv_pending func ?ks Again stale ?s calls"
          unfolding unf using p(1,3) blk big k n(1) by (simp add: Let_def del: min_less_iff_conj)
        have cc: "take ?n c @ concat ?ks = concat ks" using k by auto
        let ?D = "drop ?r (block_bytes ?b)"
        have "?D @ concat (map block_bytes (filter (\<lambda>b. \<not> small b) (drop (Suc ?i) (mdata m)))) @ concat (map wire2 Q') @ later
            = take ?n c @ concat ?ks @ rest"
          using less.prems(4) Cons big(1) cc by (simp add: todo_def)
        note ap = append_prefix_split [OF this]
        have len: "length (take ?n c) \<le> length ?D" using n(2) bl by simp
        have tk: "take ?n ?D = take ?n c" using ap(1) [OF len] n(2) by simp
        have rst: "drop ?n ?D @ concat (map block_bytes (filter (\<lambda>b. \<not> small b) (drop (Suc ?i) (mdata m)))) @ concat (map wire2 Q') @ later
            = concat ?ks @ rest"
          using ap(2) [OF len] n(2) by simp
        have po: "pend_ok mem Q ?s"
          using partial_more [OF p(2) m(1) p(3) big(1), of "take ?n c"] n(2) p(3,4) tk Cons by simp
        have nd: "need Q ?s @ later = concat ?ks @ rest"
          using rst Cons big(1) by (simp add: todo_def add.commute)
        have ms: "length ?ks + length (concat ?ks) + blocks_left ?s < length ks + length (concat ks) + blocks_left s"
          using k n p(1) blk(3) by (auto simp: blocks_left_def)
        have ks: "[] \<notin> set ?ks" using less.prems(3) k by auto
        show ?thesis
          using less.hyps [OF ms less.prems(1) po ks nd less.prems(5), of calls] eq by auto
      qed
    qed
  qed
qed

section \<open>A pair of connections\<close>

text \<open>
  The bytes of all messages are on their way (\<open>net1\<close>, \<open>net2\<close>) and become ready to be read in pieces of any
  size at any time; in between the socket handles events of its two descriptors. \<open>out\<close> is the list of the
  messages given to the callback.
\<close>

record tcp_sys =
  sock :: tcp_socket
  net1 :: "byte list"
  net2 :: "byte list"
  ready1 :: "byte list list"
  ready2 :: "byte list list"
  out :: "rpc_message list"

definition tcp_init :: "rpc_message list \<Rightarrow> tcp_sys \<Rightarrow> bool" where
  "tcp_init ms s \<longleftrightarrow> s = \<lparr>sock = tcp_new, net1 = concat (map wire1 ms), net2 = concat (map wire2 ms),
     ready1 = [], ready2 = [], out = []\<rparr>"

inductive tcp_step :: "(nat \<Rightarrow> 47 word) \<Rightarrow> allocator \<Rightarrow> tcp_sys \<Rightarrow> tcp_sys \<Rightarrow> bool" for addr mem where
  arrive1: "net1 s = c @ n \<Longrightarrow> c \<noteq> [] \<Longrightarrow> tcp_step addr mem s (s\<lparr>net1 := n, ready1 := ready1 s @ [c]\<rparr>)"
| arrive2: "net2 s = c @ n \<Longrightarrow> c \<noteq> [] \<Longrightarrow> tcp_step addr mem s (s\<lparr>net2 := n, ready2 := ready2 s @ [c]\<rparr>)"
| event1: "handle_event1 addr mem on_message (ready1 s) Again (ready2 s) Again stale (sock s) = Some (Inr (ok, ks2, sk, calls)) \<Longrightarrow>
    tcp_step addr mem s (s\<lparr>sock := sk, ready1 := [], ready2 := ks2, out := out s @ calls\<rparr>)"
| event2: "handle_event2 on_message (ready2 s) Again stale (sock s) = Inr (ok, ks2, sk, calls) \<Longrightarrow>
    tcp_step addr mem s (s\<lparr>sock := sk, ready2 := ks2, out := out s @ calls\<rparr>)"

abbreviation blocky :: "rpc_message \<Rightarrow> bool" where "blocky m \<equiv> \<not> plain m"

text \<open>\<open>k\<close> messages have been parsed; of those with blocks, \<open>d\<close> have been completed.\<close>

definition tcp_state :: "allocator \<Rightarrow> rpc_message list \<Rightarrow> tcp_sys \<Rightarrow> nat \<Rightarrow> nat \<Rightarrow> bool" where
  "tcp_state mem ms s k d \<longleftrightarrow> k \<le> length ms \<and> d \<le> length (filter blocky (take k ms)) \<and>
     buffer_ok (buffer (sock s)) \<and> (0 < avaliable_size (buffer (sock s)) \<or> pending_bytes (buffer (sock s)) = []) \<and>
     incomplete (pending_bytes (buffer (sock s))) (drop k ms) \<and>
     pending_bytes (buffer (sock s)) @ concat (ready1 s) @ net1 s = concat (map wire1 (drop k ms)) \<and>
     [] \<notin> set (ready1 s) \<and> [] \<notin> set (ready2 s) \<and>
     pend_ok mem (drop d (filter blocky (take k ms))) (sock s) \<and>
     need (drop d (filter blocky (take k ms))) (sock s) @ concat (map wire2 (drop k ms)) = concat (ready2 s) @ net2 s \<and>
     list_all2 same_message (filter plain (take k ms)) (filter plain (out s)) \<and>
     list_all2 same_message (take d (filter blocky (take k ms))) (filter blocky (out s))"

lemma same_plain: "message_ok m \<Longrightarrow> same_message m m' \<Longrightarrow> plain m' = plain m"
  using head_read_wire [of m "[]"] by (simp add: same_message_def plain_def message_head_def)

lemma blocky_data: "message_ok m \<Longrightarrow> blocky m \<longleftrightarrow> mdata m \<noteq> []"
  by (auto simp: message_ok_def Let_def plain_def unat_eq_zero)

lemma plain_wire2: "message_ok m \<Longrightarrow> plain m \<Longrightarrow> wire2 m = []"
  using blocky_data [of m] by (simp add: wire2_def)

lemma received_plain: "message_ok m \<Longrightarrow> plain (received_message mem m) = plain m"
  using head_read_wire [of m "[]"] by (simp add: received_message_def plain_def message_head_def)

lemma received_same: "message_ok m \<Longrightarrow> plain m \<Longrightarrow> same_message m (received_message mem m)"
  using blocky_data [of m] by (simp add: same_message_def received_message_def)

lemma filter_received:
  "list_all message_ok ms \<Longrightarrow> filter plain (map (received_message mem) ms) = map (received_message mem) (filter plain ms)"
  "list_all message_ok ms \<Longrightarrow> filter blocky (map (received_message mem) ms) = map (received_message mem) (filter blocky ms)"
  by (induction ms) (auto simp: received_plain)

lemma wire2_blocky: "list_all message_ok ms \<Longrightarrow> concat (map wire2 ms) = concat (map wire2 (filter blocky ms))"
  by (induction ms) (auto simp: plain_wire2)

lemma filter_same:
  assumes "list_all message_ok ms" "list_all2 same_message ms ds"
  shows "list_all P ms \<Longrightarrow> (\<And>m d. message_ok m \<Longrightarrow> same_message m d \<Longrightarrow> P m = P d) \<Longrightarrow> filter P ds = ds \<and> filter (\<lambda>m. \<not> P m) ds = []"
  using assms(2,1) by (induction rule: list_all2_induct) auto

lemma pend_ok_append:
  fixes b :: recv_buffer
  assumes "pend_ok mem A s" "list_all (\<lambda>m. message_ok m \<and> mdata m \<noteq> []) B"
  defines "s' \<equiv> s\<lparr>buffer := b, pending_msgs := pending_msgs s @ map (received_message mem) B\<rparr>"
  shows "pend_ok mem (A @ B) s' \<and> need (A @ B) s' = need A s @ concat (map wire2 B)"
proof (cases A)
  case Nil
  then show ?thesis using assms pend_ok_start [OF assms(2), of s' mem] by simp
next
  case (Cons m A')
  then show ?thesis using assms by auto
qed

text \<open>A message that is the same as a well-formed one passes the checks of the callback.\<close>

lemma on_message_ok:
  assumes "message_ok m" "same_message m m'"
  shows "on_message m' = Inr ()"
proof -
  have "list_all block_ok (mdata m)" using assms(1) by (simp add: message_ok_def Let_def)
  then have r: "map block_read (mdata m') = map Inr (map block_bytes (mdata m))"
    using assms(2) by (simp add: same_message_def block_ok_def list_all_iff)
  obtain la where "lazy_attach (mdata m') (lazy_new :: lazy_value lazy_archive) = Inr la"
  proof (cases "mdata m' = []")
    case True
    then show ?thesis using that by (simp add: lazy_attach_def)
  next
    case False
    then obtain cs bs where "map block_bytes (mdata m) = cs @ [bs]" using r by (metis list.map_disc_iff rev_exhaust)
    then show ?thesis using lazy_attach_reads [of "mdata m'" cs bs] r that by auto
  qed
  then obtain ar where "message_finalize m' (archive_new False) (lazy_new :: lazy_value lazy_archive) = Inr (message_head m, ar, la)"
    using message_finalize_ok [OF assms(1), of m' la] assms(2) by (auto simp: same_message_def)
  then show ?thesis by (simp add: on_message_def packet_of_message_def)
qed

lemma tcp_pending:
  assumes ok: "list_all message_ok ms" and st: "tcp_state mem ms s k d"
  shows "\<exists>n ks sk ds. try_recv_pending on_message (ready2 s) Again stale (sock s) calls = Inr (True, ks, sk, calls @ ds) \<and>
    tcp_state mem ms (s\<lparr>sock := sk, ready2 := ks, out := out s @ ds\<rparr>) k (d + n) \<and>
    (drop (d + n) (filter blocky (take k ms)) \<noteq> [] \<longrightarrow> ks = [] \<and> need (drop (d + n) (filter blocky (take k ms))) sk \<noteq> [])"
proof -
  let ?Q = "filter blocky (take k ms)"
  have okt: "list_all message_ok (take k ms)" using ok by (auto simp: list_all_iff dest: in_set_takeD)
  then have okQ: "list_all (\<lambda>m. message_ok m \<and> mdata m \<noteq> []) (drop d ?Q)"
    using blocky_data by (auto simp: list_all_iff dest!: in_set_dropD)
  have pre: "pend_ok mem (drop d ?Q) (sock s)" "[] \<notin> set (ready2 s)"
    "need (drop d ?Q) (sock s) @ concat (map wire2 (drop k ms)) = concat (ready2 s) @ net2 s"
    using st by (auto simp: tcp_state_def)
  have acc: "\<forall>m \<in> set (drop d ?Q). \<forall>m'. same_message m m' \<longrightarrow> on_message m' = Inr ()"
    using on_message_ok okQ by (auto simp: list_all_iff)
  obtain n ks sk ds where r: "try_recv_pending on_message (ready2 s) Again stale (sock s) calls = Inr (True, ks, sk, calls @ ds)"
      "n \<le> length (drop d ?Q)" "list_all2 same_message (take n (drop d ?Q)) ds" "pend_ok mem (drop n (drop d ?Q)) sk"
      "need (drop n (drop d ?Q)) sk @ concat (map wire2 (drop k ms)) = concat ks @ net2 s" "[] \<notin> set ks"
      "drop n (drop d ?Q) \<noteq> [] \<longrightarrow> ks = [] \<and> need (drop n (drop d ?Q)) sk \<noteq> []" "buffer sk = buffer (sock s)"
    using try_recv_pending_stream [where func = on_message and stale = stale and calls = calls, OF okQ pre acc] by blast
  have "list_all message_ok (take n (drop d ?Q))" "list_all blocky (take n (drop d ?Q))"
    using okt by (auto simp: list_all_iff dest!: in_set_takeD in_set_dropD)
  then have f: "filter blocky ds = ds" "filter plain ds = []"
    using filter_same [OF _ r(3), of blocky] same_plain by auto
  have "take (d + n) ?Q = take d ?Q @ take n (drop d ?Q)" by (rule take_add)
  then have l: "list_all2 same_message (take (d + n) ?Q) (filter blocky (out s) @ ds)"
    using st r(3) by (auto simp: tcp_state_def intro: list_all2_appendI)
  show ?thesis
    using r st f l by (intro exI [of _ n] exI [of _ ks] exI [of _ sk] exI [of _ ds]) (auto simp: tcp_state_def add.commute)
qed

lemma tcp_event1:
  assumes ok: "list_all message_ok ms" and st: "tcp_state mem ms s k d"
  shows "\<exists>k' n ks sk calls. handle_event1 addr mem on_message (ready1 s) Again (ready2 s) Again stale (sock s) = Some (Inr (True, ks, sk, calls)) \<and>
    tcp_state mem ms (s\<lparr>sock := sk, ready1 := [], ready2 := ks, out := out s @ calls\<rparr>) (k + k') (d + n) \<and>
    (drop (d + n) (filter blocky (take (k + k') ms)) \<noteq> [] \<longrightarrow> ks = [] \<and> need (drop (d + n) (filter blocky (take (k + k') ms))) sk \<noteq> [])"
proof -
  let ?b = "buffer (sock s)" and ?M = "drop k ms"
  have okM: "list_all message_ok ?M" using ok by (auto simp: list_all_iff dest: in_set_dropD)
  have p: "buffer_ok ?b" "0 < avaliable_size ?b \<or> pending_bytes ?b = []" "[] \<notin> set (ready1 s)"
    "pending_bytes ?b @ concat (ready1 s) @ net1 s = concat (map wire1 ?M)" "incomplete (pending_bytes ?b) ?M"
    using st by (auto simp: tcp_state_def)
  have func: "tcp_func on_message (received_message mem m) = Inr ()" if "m \<in> set ?M" for m
    using that okM received_same [of m mem] on_message_ok [of m] received_plain [of m mem] by (auto simp: tcp_func_def list_all_iff)
  obtain j b' where j: "j \<le> length ?M"
      "try_recv_msgs addr mem (tcp_func on_message) (ready1 s) Again ?b [] = Some (Inr (True, b', map (received_message mem) (take j ?M)))"
      "buffer_ok b'" "0 < avaliable_size b'" "pending_bytes b' @ net1 s = concat (map wire1 (drop j ?M))" "incomplete (pending_bytes b') (drop j ?M)"
    using try_recv_stream [where addr = addr and mem = mem and func = "tcp_func on_message" and e = Again and calls = "[]", OF p(1,2) okM p(3,4,5) func] by auto
  let ?N = "take j ?M" and ?Q = "filter blocky (take k ms)"
  have okN: "list_all message_ok ?N" using okM by (auto simp: list_all_iff dest: in_set_takeD)
  have tk: "take (k + j) ms = take k ms @ ?N" by (rule take_add)
  have dr: "drop (k + j) ms = drop j ?M" by (simp add: add.commute)
  let ?s = "(sock s)\<lparr>buffer := b', pending_msgs := pending_msgs (sock s) @ map (received_message mem) (filter blocky ?N)\<rparr>"
  let ?calls = "map (received_message mem) (filter plain ?N)"
  let ?s1 = "s\<lparr>sock := ?s, ready1 := [], out := out s @ ?calls\<rparr>"
  have h: "handle_event1 addr mem on_message (ready1 s) Again (ready2 s) Again stale (sock s) = Some (try_recv_pending on_message (ready2 s) Again stale ?s ?calls)"
    using j(2) by (simp add: handle_event1_def Let_def filter_received [OF okN])
  have okB: "list_all (\<lambda>m. message_ok m \<and> mdata m \<noteq> []) (filter blocky ?N)"
    using okN blocky_data by (auto simp: list_all_iff)
  have po: "pend_ok mem (drop d ?Q @ filter blocky ?N) ?s" "need (drop d ?Q @ filter blocky ?N) ?s = need (drop d ?Q) (sock s) @ concat (map wire2 (filter blocky ?N))"
    using pend_ok_append [OF _ okB, of mem "drop d ?Q" "sock s" b'] st by (auto simp: tcp_state_def)
  have dl: "d \<le> length ?Q" using st by (simp add: tcp_state_def)
  have Q': "drop d (filter blocky (take (k + j) ms)) = drop d ?Q @ filter blocky ?N" "take d (filter blocky (take (k + j) ms)) = take d ?Q"
    using dl by (simp_all add: tk)
  have w2: "concat (map wire2 ?M) = concat (map wire2 (filter blocky ?N)) @ concat (map wire2 (drop j ?M))"
    using wire2_blocky [OF okN] by (metis append_take_drop_id concat_append map_append)
  have pl: "list_all2 same_message (filter plain ?N) ?calls"
    using okN received_same by (simp add: list_all2_map2 list_all2_same list_all_iff)
  have fc: "filter plain ?calls = ?calls" "filter blocky ?calls = []"
    using okN by (auto simp: filter_empty_conv filter_id_conv list_all_iff received_plain)
  have "list_all2 same_message (filter plain (take k ms)) (filter plain (out s))" using st by (simp add: tcp_state_def)
  then have o1: "list_all2 same_message (filter plain (take (k + j) ms)) (filter plain (out s @ ?calls))"
    unfolding tk filter_append fc(1) using pl by (rule list_all2_appendI)
  have "list_all2 same_message (take d ?Q) (filter blocky (out s))" using st by (simp add: tcp_state_def)
  then have o2: "list_all2 same_message (take d (filter blocky (take (k + j) ms))) (filter blocky (out s @ ?calls))"
    unfolding Q'(2) filter_append fc(2) by simp
  have nd: "need (drop d ?Q @ filter blocky ?N) ?s @ concat (map wire2 (drop j ?M)) = concat (ready2 s) @ net2 s"
    using st w2 unfolding po(2) tcp_state_def by (metis append_assoc)
  have le: "k + j \<le> length ms" "d \<le> length (filter blocky (take (k + j) ms))" using j(1) st dl by (auto simp: tcp_state_def tk)
  have r2: "[] \<notin> set (ready2 s)" using st by (simp add: tcp_state_def)
  have st1: "tcp_state mem ms ?s1 (k + j) d"
    unfolding tcp_state_def Q'(1) dr using le j(3-6) po(1) nd o1 o2 r2 by (auto simp: dr)
  have perm: "?s1\<lparr>sock := x, ready2 := y, out := w\<rparr> = s\<lparr>sock := x, ready1 := [], ready2 := y, out := w\<rparr>" for x y w
    by (rule tcp_sys.equality) simp_all
  obtain n ks sk ds where z: "try_recv_pending on_message (ready2 ?s1) Again stale (sock ?s1) ?calls = Inr (True, ks, sk, ?calls @ ds)"
      "tcp_state mem ms (?s1\<lparr>sock := sk, ready2 := ks, out := out ?s1 @ ds\<rparr>) (k + j) (d + n)"
      "drop (d + n) (filter blocky (take (k + j) ms)) \<noteq> [] \<longrightarrow> ks = [] \<and> need (drop (d + n) (filter blocky (take (k + j) ms))) sk \<noteq> []"
    using tcp_pending [OF ok st1, of stale ?calls] by blast
  show ?thesis
    by (rule exI [of _ j], rule exI [of _ n], rule exI [of _ ks], rule exI [of _ sk], rule exI [of _ "?calls @ ds"])
      (use h z(1,3) z(2) [unfolded perm] in simp)
qed

lemma tcp_state_init:
  assumes "list_all message_ok ms" "tcp_init ms s"
  shows "tcp_state mem ms s 0 0"
proof -
  have "0 < length (wire1 m)" if "message_ok m" for m using message_ok_start(2) [OF that] by (simp add: wire1_def)
  then show ?thesis
    using assms by (auto simp: tcp_init_def tcp_state_def tcp_new_def buffer_new_def buffer_ok_def pending_bytes_def incomplete_def
        split: list.splits)
qed

lemma tcp_invariant:
  assumes "list_all message_ok ms"
  shows "inductive_invariant (tcp_init ms) (tcp_step addr mem) (\<lambda>s. \<exists>k d. tcp_state mem ms s k d)"
proof
  show "\<exists>k d. tcp_state mem ms s k d" if "tcp_init ms s" for s using tcp_state_init [OF assms that] by blast
  fix s t assume s: "\<exists>k d. tcp_state mem ms s k d" and t: "tcp_step addr mem s t"
  from s obtain k d where st: "tcp_state mem ms s k d" by blast
  from t show "\<exists>k d. tcp_state mem ms t k d"
  proof cases
    case (arrive1 c n)
    then have "tcp_state mem ms t k d" using st by (auto simp: tcp_state_def)
    then show ?thesis by blast
  next
    case (arrive2 c n)
    then have "tcp_state mem ms t k d" using st by (auto simp: tcp_state_def)
    then show ?thesis by blast
  next
    case (event1 stale ok ks2 sk calls)
    then show ?thesis using tcp_event1 [OF assms st, of addr stale] by auto
  next
    case (event2 stale ok ks2 sk calls)
    then show ?thesis using tcp_pending [OF assms st, of stale "[]"] by (auto simp: handle_event2_def)
  qed
qed

lemma cursor_finished: "cursor_ok c \<Longrightarrow> left c = [] \<Longrightarrow> \<not> cursor_has_next c"
proof -
  assume ok: "cursor_ok c" "left c = []"
  have "drop (ci c) (pieces c) = []"
    using ok by (cases "drop (ci c) (pieces c)") (auto simp: cursor_ok_def left_def)
  then show ?thesis using ok(1) by (simp add: cursor_ok_def cursor_has_next_def)
qed

lemma send_pieces_all:
  assumes "cursor_ok cur" "progress os" "length (left cur) \<le> length os"
  shows "\<exists>cur' os'. send_pieces os cur [] = Inr (Some (True, cur', left cur, os')) \<and> \<not> cursor_has_next cur'"
proof -
  have p: "send_post os cur [] (send_pieces os cur [])" by (rule send_loops(1) [OF assms(1)])
  have no: "Send_again \<notin> set os" "Send_error \<notin> set os" using assms(2) by (auto simp: progress_def list_all_iff)
  obtain y where y: "send_pieces os cur [] = Inr (Some y)" using p assms(2,3) unfolding send_post_def by blast
  obtain ok cur' out' os' where yy: "y = (ok, cur', out', os')" by (cases y) auto
  have "cursor_ok cur'" "out' @ left cur' = left cur" "ok" "left cur' = []"
    using p no y yy unfolding send_post_def by auto
  then show ?thesis using y yy cursor_finished by auto
qed

section \<open>Properties\<close>

text \<open>Sending: however the operating system splits the writes, a message appears as its two byte streams on
  the two connections, provided \<open>send\<close> writes something each time; both cursors are then at their end.\<close>

theorem tcp_send_complete:
  assumes "message_ok m" "progress os1" "progress os2" "length (wire1 m) \<le> length os1" "length (wire2 m) \<le> length os2"
  shows "\<exists>it1 it2. send_rpc_message os1 os2 m = Inr (Some (True, wire1 m, wire2 m, it1, it2)) \<and>
    \<not> cursor_has_next it1 \<and> \<not> cursor_has_next it2"
proof -
  obtain ps1 where a1: "cursor_attach m False cursor_new = Inr (cursor_new\<lparr>ci := 0, pieces := ps1\<rparr>)" "concat ps1 = wire1 m" "[] \<notin> set ps1"
    using cursor_attach_result(1) [OF assms(1)] by blast
  obtain ps2 where a2: "cursor_attach m True cursor_new = Inr (cursor_new\<lparr>ci := 0, pieces := ps2\<rparr>)" "concat ps2 = wire2 m" "[] \<notin> set ps2"
    using cursor_attach_result(2) [OF assms(1)] by blast
  let ?c1 = "cursor_new\<lparr>ci := 0, pieces := ps1\<rparr>" and ?c2 = "cursor_new\<lparr>ci := 0, pieces := ps2\<rparr>"
  have c: "cursor_ok ?c1" "left ?c1 = wire1 m" "cursor_ok ?c2" "left ?c2 = wire2 m"
    using a1 a2 by (simp_all add: cursor_ok_def left_def)
  obtain d1 o1 where s1: "send_pieces os1 ?c1 [] = Inr (Some (True, d1, wire1 m, o1))" "\<not> cursor_has_next d1"
    using send_pieces_all [OF c(1) assms(2)] assms(4) c(2) by auto
  obtain d2 o2 where s2: "send_pieces os2 ?c2 [] = Inr (Some (True, d2, wire2 m, o2))" "\<not> cursor_has_next d2"
    using send_pieces_all [OF c(3) assms(3)] assms(5) c(4) by auto
  show ?thesis
  proof (cases "cursor_has_next ?c2")
    case True
    then show ?thesis using a1 a2 s1 s2 by (simp add: send_rpc_message_def tcp_send_msg_def)
  next
    case False
    then have "wire2 m = []" using a2 by (simp add: cursor_has_next_def)
    then show ?thesis using a1 a2 s1 False by (simp add: send_rpc_message_def tcp_send_msg_def)
  qed
qed

text \<open>A request without body and blocks, and one with a small block.\<close>

definition demo_head :: "nat \<Rightarrow> nat \<Rightarrow> rpc_head" where
  "demo_head n l = rpc_head_new\<lparr>rpc_id := 3, extra_block_count := word_of_nat n, extra_block_length := word_of_nat l\<rparr>"

definition demo_plain :: rpc_message where
  "demo_plain = \<lparr>start = head_image (demo_head 0 0), mdata = [], pending_block_cnt = 0\<rparr>"

definition demo_block :: rpc_message where
  "demo_block = \<lparr>start = head_image (demo_head 1 18), mdata = [block_view 4096 (Some [7, 9]) 2], pending_block_cnt = 0\<rparr>"

lemma demo_head_error [simp]: "error_code (demo_head n l) = SUCC"
  by (simp add: demo_head_def rpc_head_new_def)

lemma demo_messages: "message_ok demo_plain" "message_ok demo_block" "plain demo_plain" "blocky demo_block"
proof -
  have h: "message_head demo_plain = demo_head 0 0" "message_head demo_block = demo_head 1 18"
    using head_read_image [of "demo_head 0 0" "[]"] head_read_image [of "demo_head 1 18" "[]"]
    by (simp_all add: message_head_def demo_plain_def demo_block_def)
  have f: "body_size (demo_head n l) = 0" "extra_block_count (demo_head n l) = word_of_nat n" "extra_block_length (demo_head n l) = word_of_nat l" for n l
    by (simp_all add: demo_head_def rpc_head_new_def)
  show "plain demo_plain" "blocky demo_block" by (simp_all add: plain_def h f)
  show "message_ok demo_plain" unfolding message_ok_def h
    by (simp add: f) (simp add: demo_plain_def body_def wire1_def)
  show "message_ok demo_block" unfolding message_ok_def h
    by (simp add: f) (simp add: demo_block_def body_def wire1_def small_def block_view_def block_ok_def block_bytes_def block_read_def
        block_image_def)
qed

theorem tcp_send_complete_witness:
  "\<exists>it1 it2. send_rpc_message (replicate 100 (Sent 5)) [] demo_block = Inr (Some (True, wire1 demo_block, [], it1, it2))"
proof -
  have w: "length (wire1 demo_block) = 58" "wire2 demo_block = []"
    by (simp_all add: demo_block_def wire1_def wire2_def small_def block_view_def block_bytes_def block_read_def block_image_def)
  show ?thesis
    using tcp_send_complete [OF demo_messages(2), of "replicate 100 (Sent 5)" "[]"] w by (auto simp: progress_def list_all_iff)
qed

text \<open>C6. Receiving, with a callback that makes a packet of each message: whatever the sizes in which the bytes of the messages
  arrive on the two connections and whatever the order of the events, no assertion fails and no byte outside a buffer is
  touched. Of the first \<open>k\<close> messages sent, those without blocks have all been delivered, in the order in which they were sent,
  and those with blocks have been delivered up to some point, also in their order, each message with its head, body and
  blocks; nothing else has been delivered. Between the two classes there is no order: a message without blocks may overtake one
  with blocks.\<close>

theorem tcp_delivery:
  assumes "list_all message_ok ms" "reach (tcp_init ms) (tcp_step addr mem) s"
  shows "(\<exists>k d. list_all2 same_message (filter plain (take k ms)) (filter plain (out s)) \<and>
      list_all2 same_message (take d (filter blocky (take k ms))) (filter blocky (out s))) \<and>
    (\<exists>ks sk calls. handle_event1 addr mem on_message (ready1 s) Again (ready2 s) Again stale (sock s) = Some (Inr (True, ks, sk, calls))) \<and>
    (\<exists>ks sk calls. handle_event2 on_message (ready2 s) Again stale (sock s) = Inr (True, ks, sk, calls))"
proof -
  obtain k d where st: "tcp_state mem ms s k d"
    using inductive_invariant.inv_reach [OF tcp_invariant [OF assms(1)] assms(2)] by blast
  then have "list_all2 same_message (filter plain (take k ms)) (filter plain (out s)) \<and>
      list_all2 same_message (take d (filter blocky (take k ms))) (filter blocky (out s))"
    by (simp add: tcp_state_def)
  then show ?thesis
    using tcp_event1 [OF assms(1) st, of addr stale] tcp_pending [OF assms(1) st, of stale "[]"] by (auto simp: handle_event2_def)
qed

lemma event_delivers_all:
  assumes ok: "list_all message_ok ms" and st: "tcp_state mem ms s k d" and n: "net1 s = []" "net2 s = []"
    and h: "handle_event1 addr mem on_message (ready1 s) Again (ready2 s) Again stale (sock s) = Some (Inr (ok', ks, sk, calls))"
  shows "list_all2 same_message (filter plain ms) (filter plain (out s @ calls)) \<and>
    list_all2 same_message (filter blocky ms) (filter blocky (out s @ calls))"
proof -
  let ?s = "s\<lparr>sock := sk, ready1 := [], ready2 := ks, out := out s @ calls\<rparr>"
  obtain k' d' where t: "tcp_state mem ms ?s k' d'"
      and w: "drop d' (filter blocky (take k' ms)) \<noteq> [] \<longrightarrow> ks = [] \<and> need (drop d' (filter blocky (take k' ms))) sk \<noteq> []"
    using tcp_event1 [OF ok st, of addr stale] h by auto
  have "pending_bytes (buffer sk) = concat (map wire1 (drop k' ms))" "incomplete (pending_bytes (buffer sk)) (drop k' ms)"
    using t n(1) by (auto simp: tcp_state_def)
  then have k: "drop k' ms = []" by (cases "drop k' ms") (auto simp: incomplete_def)
  then have tk: "take k' ms = ms" by (metis append_Nil2 append_take_drop_id)
  have "need (drop d' (filter blocky ms)) sk = concat ks" using t n(2) k tk by (simp add: tcp_state_def)
  then have "drop d' (filter blocky ms) = []" using w tk by auto
  then have "take d' (filter blocky ms) = filter blocky ms" by (metis append_Nil2 append_take_drop_id)
  then show ?thesis using t tk by (simp add: tcp_state_def)
qed

text \<open>Three messages, one of them with a block that is sent on the second connection; all bytes have arrived.\<close>

definition demo_big :: rpc_message where
  "demo_big = \<lparr>start = head_image (demo_head 1 16), mdata = [block_view 8192 (Some (replicate 5000 7)) 5000], pending_block_cnt = 0\<rparr>"

lemma demo_big_ok: "message_ok demo_big" "blocky demo_big" "wire2 demo_big = replicate 5000 7"
proof -
  have h: "message_head demo_big = demo_head 1 16"
    using head_read_image [of "demo_head 1 16" "[]"] by (simp add: message_head_def demo_big_def)
  have f: "body_size (demo_head n l) = 0" "extra_block_count (demo_head n l) = word_of_nat n" "extra_block_length (demo_head n l) = word_of_nat l" for n l
    by (simp_all add: demo_head_def rpc_head_new_def)
  show "blocky demo_big" by (simp add: plain_def h f)
  show "wire2 demo_big = replicate 5000 7"
    by (simp add: demo_big_def wire2_def small_def block_view_def block_bytes_def block_read_def)
  show "message_ok demo_big" unfolding message_ok_def h
    by (simp add: f) (simp add: demo_big_def body_def wire1_def small_def block_view_def block_ok_def block_bytes_def block_read_def
        block_image_def)
qed

definition demo_messages3 :: "rpc_message list" where
  "demo_messages3 = [demo_big, demo_block, demo_plain]"

definition demo_arrived :: tcp_sys where
  "demo_arrived = \<lparr>sock = tcp_new, net1 = [], net2 = [], ready1 = [concat (map wire1 demo_messages3)],
     ready2 = [concat (map wire2 demo_messages3)], out = []\<rparr>"

lemma demo_messages3_ok: "list_all message_ok demo_messages3"
  using demo_messages demo_big_ok by (simp add: demo_messages3_def)

lemma demo_arrived_reach: "reach (tcp_init demo_messages3) (tcp_step addr mem) demo_arrived"
proof -
  let ?w1 = "concat (map wire1 demo_messages3)" and ?w2 = "concat (map wire2 demo_messages3)"
  let ?s = "\<lparr>sock = tcp_new, net1 = ?w1, net2 = ?w2, ready1 = [], ready2 = [], out = []\<rparr>"
  let ?s1 = "\<lparr>sock = tcp_new, net1 = [], net2 = ?w2, ready1 = [?w1], ready2 = [], out = []\<rparr>"
  have ne: "?w1 \<noteq> []" "?w2 \<noteq> []"
    using message_ok_start(2) [OF demo_big_ok(1)] demo_big_ok(3) by (auto simp: demo_messages3_def wire1_def)
  have "reach (tcp_init demo_messages3) (tcp_step addr mem) ?s" by (rule reach_init) (simp add: tcp_init_def)
  moreover have "tcp_step addr mem ?s ?s1" using tcp_step.arrive1 [of ?s ?w1 "[]" addr mem] ne by simp
  moreover have "tcp_step addr mem ?s1 demo_arrived" using tcp_step.arrive2 [of ?s1 ?w2 "[]" addr mem] ne by (simp add: demo_arrived_def)
  ultimately show ?thesis by (meson reach_step)
qed

lemma demo_event:
  "\<exists>ks sk calls. handle_event1 addr mem on_message (ready1 demo_arrived) Again (ready2 demo_arrived) Again False (sock demo_arrived) =
    Some (Inr (True, ks, sk, calls)) \<and> length calls = 3"
proof -
  obtain k d where st: "tcp_state mem demo_messages3 demo_arrived k d"
    using inductive_invariant.inv_reach [OF tcp_invariant [OF demo_messages3_ok] demo_arrived_reach] by blast
  obtain ks sk calls where h: "handle_event1 addr mem on_message (ready1 demo_arrived) Again (ready2 demo_arrived) Again False (sock demo_arrived) =
      Some (Inr (True, ks, sk, calls))"
    using tcp_event1 [OF demo_messages3_ok st, of addr False] by blast
  have "list_all2 same_message [demo_plain] (filter plain calls)" "list_all2 same_message [demo_big, demo_block] (filter blocky calls)"
    using event_delivers_all [OF demo_messages3_ok st _ _ h] demo_messages demo_big_ok by (simp_all add: demo_messages3_def demo_arrived_def)
  then have "length (filter plain calls) = 1" "length (filter blocky calls) = 2" using list_all2_lengthD by fastforce+
  then have "length calls = 3" using sum_length_filter_compl [of plain calls] by simp
  then show ?thesis using h by blast
qed

theorem tcp_delivery_witness:
  "\<exists>s k d. reach (tcp_init demo_messages3) (tcp_step (\<lambda>_. 4096) (\<lambda>_. (0, \<lambda>_. 0))) s \<and> length (out s) = 3 \<and>
     wire2 demo_big = replicate 5000 7 \<and>
     list_all2 same_message (filter plain (take k demo_messages3)) (filter plain (out s)) \<and>
     list_all2 same_message (take d (filter blocky (take k demo_messages3))) (filter blocky (out s))"
proof -
  let ?a = "\<lambda>_. 4096" and ?m = "\<lambda>_. (0, \<lambda>_. 0)"
  obtain ks sk calls where h: "handle_event1 ?a ?m on_message (ready1 demo_arrived) Again (ready2 demo_arrived) Again False (sock demo_arrived) =
      Some (Inr (True, ks, sk, calls))" "length calls = 3"
    using demo_event [of ?a ?m] by blast
  let ?s = "demo_arrived\<lparr>sock := sk, ready1 := [], ready2 := ks, out := out demo_arrived @ calls\<rparr>"
  have "reach (tcp_init demo_messages3) (tcp_step ?a ?m) ?s"
    by (rule reach_step [OF demo_arrived_reach tcp_step.event1 [OF h(1)]])
  moreover have "length (out ?s) = 3" using h(2) by (simp add: demo_arrived_def)
  ultimately show ?thesis using tcp_delivery [OF demo_messages3_ok, of ?a ?m ?s] demo_big_ok(3) by blast
qed

text \<open>C10. Once all bytes have arrived, handling an event of the first connection has delivered every message.\<close>

theorem tcp_all_delivered:
  assumes "list_all message_ok ms" "reach (tcp_init ms) (tcp_step addr mem) s" "net1 s = []" "net2 s = []"
    "handle_event1 addr mem on_message (ready1 s) Again (ready2 s) Again stale (sock s) = Some (Inr (ok, ks, sk, calls))"
  shows "list_all2 same_message (filter plain ms) (filter plain (out s @ calls)) \<and>
    list_all2 same_message (filter blocky ms) (filter blocky (out s @ calls))"
proof -
  obtain k d where "tcp_state mem ms s k d"
    using inductive_invariant.inv_reach [OF tcp_invariant [OF assms(1)] assms(2)] by blast
  then show ?thesis by (rule event_delivers_all [OF assms(1) _ assms(3-5)])
qed

theorem tcp_all_delivered_witness:
  "\<exists>ks sk calls. handle_event1 (\<lambda>_. 4096) (\<lambda>_. (0, \<lambda>_. 0)) on_message [wire1 demo_big @ wire1 demo_block @ wire1 demo_plain] Again
     [wire2 demo_big @ wire2 demo_block @ wire2 demo_plain] Again False tcp_new = Some (Inr (True, ks, sk, calls)) \<and>
   list_all2 same_message [demo_plain] (filter plain calls) \<and> list_all2 same_message [demo_big, demo_block] (filter blocky calls)"
proof -
  let ?a = "\<lambda>_. 4096" and ?m = "\<lambda>_. (0, \<lambda>_. 0)"
  obtain ks sk calls where h: "handle_event1 ?a ?m on_message (ready1 demo_arrived) Again (ready2 demo_arrived) Again False (sock demo_arrived) =
      Some (Inr (True, ks, sk, calls))"
    using demo_event [of ?a ?m] by blast
  have "net1 demo_arrived = []" "net2 demo_arrived = []" by (simp_all add: demo_arrived_def)
  then have "list_all2 same_message (filter plain demo_messages3) (filter plain (out demo_arrived @ calls)) \<and>
      list_all2 same_message (filter blocky demo_messages3) (filter blocky (out demo_arrived @ calls))"
    by (rule tcp_all_delivered [OF demo_messages3_ok demo_arrived_reach _ _ h])
  then show ?thesis using h demo_messages demo_big_ok by (auto simp: demo_arrived_def demo_messages3_def)
qed

section \<open>Bytes that no sender of this program writes\<close>











end
