(* ===== verification/Send_Queue.thy ===== *)
theory Send_Queue
  imports Prpc_Prelude "HOL-Library.Multiset"
begin

text \<open>
  \<open>RpcSocket::send_msg\<close> of \<open>src/rpc/RpcSocket.cpp\<close>: threads that want to send on one socket combine their
  messages. The first one becomes the sender and sends for all others, which only push their message on a
  queue.

  Each call of \<open>send_msg\<close> is a thread with a position between its atomic accesses; \<open>_sending_queue_size\<close> and
  the queue are shared. The queue is the one of the theory on \<open>MpscQueue\<close>, with the facts shown there: a push
  takes its place in the order when it exchanges the head, and the value can be popped once the pushing
  thread has linked its node. \<open>wire\<close> is what \<open>send_rpc_message\<close> has sent, with its argument \<open>more\<close>; a send may
  fail at any time. The counter does not overflow, as there are fewer than \<open>2 ^ 63\<close> calls.
\<close>

section \<open>Model\<close>

datatype 'm send_pc =
    Start 'm
  | Push 'm
  | Link 'm
  | Pop nat "'m option"
  | Got nat "'m option" 'm
  | Flush nat "'m option"
  | Dec nat
  | Returned
  | Failed nat "'m list"

record 'm send_shared =
  queue_size :: int
  queue :: "('m \<times> nat \<times> bool) list"
  wire :: "('m \<times> bool) list"
  ticket :: "'m list"

definition send_rpc :: "'m option \<Rightarrow> bool \<Rightarrow> 'm send_shared \<Rightarrow> 'm send_shared" where
  "send_rpc msg more_flag sh = (case msg of None \<Rightarrow> sh | Some m \<Rightarrow> sh\<lparr>wire := wire sh @ [(m, more_flag)]\<rparr>)"

text \<open>The successors of a position of thread \<open>i\<close>. \<open>ticket\<close> records the order in which messages enter.\<close>

fun send_next :: "nat \<Rightarrow> 'm send_pc \<Rightarrow> 'm send_shared \<Rightarrow> ('m send_pc \<times> 'm send_shared) list" where
  "send_next i (Start m) sh =
     (let sz = queue_size sh; sh1 = sh\<lparr>queue_size := sz + 1\<rparr>
      in if sz = 0 then [(Pop 1 (Some m), sh1\<lparr>ticket := ticket sh1 @ [m]\<rparr>)] else [(Push m, sh1)])"
| "send_next i (Push m) sh = [(Link m, sh\<lparr>queue := queue sh @ [(m, i, False)], ticket := ticket sh @ [m]\<rparr>)]"
| "send_next i (Link m) sh =
     [(Returned, sh\<lparr>queue := map (\<lambda>(x, j, linked). (x, j, linked \<or> j = i)) (queue sh)\<rparr>)]"
| "send_next i (Pop n msg) sh =
     (case queue sh of
        (prefetch_msg, j, True) # q \<Rightarrow> [(Got n msg prefetch_msg, sh\<lparr>queue := q\<rparr>)]
      | _ \<Rightarrow> [(Flush n msg, sh)])"
| "send_next i (Got n msg prefetch_msg) sh =
     (if 0 < n
      then [(Pop (n + 1) (Some prefetch_msg), send_rpc msg True sh),
            (Failed (n + 1) (case msg of None \<Rightarrow> [prefetch_msg] | Some m \<Rightarrow> [m, prefetch_msg]), sh)]
      else [(Pop (n + 1) (Some prefetch_msg), sh)])"
| "send_next i (Flush n msg) sh =
     (if 0 < n
      then [(Dec n, send_rpc msg False sh), (Failed n (case msg of None \<Rightarrow> [] | Some m \<Rightarrow> [m]), sh)]
      else [(Dec n, sh)])"
| "send_next i (Dec n) sh =
     (let sz = queue_size sh
      in [(if sz = int n then Returned else Pop 0 None, sh\<lparr>queue_size := sz - int n\<rparr>)])"
| "send_next i Returned sh = []"
| "send_next i (Failed n lost) sh = []"

type_synonym 'm send_sys = "'m send_pc list \<times> 'm send_shared"

definition send_init :: "'m list \<Rightarrow> 'm send_sys \<Rightarrow> bool" where
  "send_init ms s \<longleftrightarrow> s = (map Start ms, \<lparr>queue_size = 0, queue = [], wire = [], ticket = []\<rparr>)"

inductive send_step :: "'m send_sys \<Rightarrow> 'm send_sys \<Rightarrow> bool" where
  "i < length pcs \<Longrightarrow> (pc, sh') \<in> set (send_next i (pcs ! i) sh) \<Longrightarrow> send_step (pcs, sh) (pcs[i := pc], sh')"

section \<open>Invariant\<close>

fun sender :: "'m send_pc \<Rightarrow> bool" where
  "sender (Pop _ _) = True"
| "sender (Got _ _ _) = True"
| "sender (Flush _ _) = True"
| "sender (Dec _) = True"
| "sender (Failed _ _) = True"
| "sender _ = False"

fun pushing :: "'m send_pc \<Rightarrow> bool" where
  "pushing (Push _) = True"
| "pushing _ = False"

text \<open>Messages the sender has taken but not yet subtracted from the counter, and those it holds.\<close>

fun weight :: "'m send_pc \<Rightarrow> nat" where
  "weight (Pop c _) = c"
| "weight (Got c _ _) = c + 1"
| "weight (Flush c _) = c"
| "weight (Dec c) = c"
| "weight (Failed c _) = c"
| "weight _ = 0"

definition if_pos :: "nat \<Rightarrow> 'm option \<Rightarrow> 'm list" where
  "if_pos c msg = (if 0 < c then (case msg of None \<Rightarrow> [] | Some m \<Rightarrow> [m]) else [])"

fun held :: "'m send_pc \<Rightarrow> 'm list" where
  "held (Pop c msg) = if_pos c msg"
| "held (Got c msg x) = if_pos c msg @ [x]"
| "held (Flush c msg) = if_pos c msg"
| "held (Failed c lost) = lost"
| "held _ = []"

fun waiting :: "'m send_pc \<Rightarrow> 'm list" where
  "waiting (Start m) = [m]"
| "waiting (Push m) = [m]"
| "waiting _ = []"

text \<open>The last message on the wire, if the sender is done with it, has been sent without \<open>more\<close>.\<close>

fun flushed_pc :: "'m send_pc \<Rightarrow> bool" where
  "flushed_pc (Pop c _) = (c = 0)"
| "flushed_pc (Got c _ _) = (c = 0)"
| "flushed_pc (Flush c _) = (c = 0)"
| "flushed_pc (Dec c) = True"
| "flushed_pc (Failed _ _) = False"
| "flushed_pc _ = True"

definition flushed :: "'m send_shared \<Rightarrow> bool" where
  "flushed sh \<longleftrightarrow> (wire sh = [] \<or> \<not> snd (last (wire sh)))"

text \<open>When the sender has messages to account for it holds one.\<close>

fun pc_ok :: "'m send_pc \<Rightarrow> bool" where
  "pc_ok (Pop c msg) = (0 < c \<longrightarrow> msg \<noteq> None)"
| "pc_ok (Got c msg _) = (0 < c \<longrightarrow> msg \<noteq> None)"
| "pc_ok (Flush c msg) = (0 < c \<longrightarrow> msg \<noteq> None)"
| "pc_ok _ = True"

definition send_inv :: "'m list \<Rightarrow> 'm send_sys \<Rightarrow> bool" where
  "send_inv ms s \<longleftrightarrow> (case s of (pcs, sh) \<Rightarrow>
     length pcs = length ms \<and>
     cnt sender pcs \<le> 1 \<and>
     queue_size sh = int (length (queue sh) + cnt pushing pcs + sum_list (map weight pcs)) \<and>
     (cnt sender pcs = 0 \<longleftrightarrow> queue_size sh = 0) \<and>
     ticket sh = map fst (wire sh) @ concat (map held pcs) @ map fst (queue sh) \<and>
     mset ms = mset (ticket sh) + mset (concat (map waiting pcs)) \<and>
     (list_all flushed_pc pcs \<longrightarrow> flushed sh) \<and> list_all pc_ok pcs)"

lemma send_invD:
  assumes "send_inv ms (pcs, sh)"
  shows "length pcs = length ms" "cnt sender pcs \<le> 1"
    "queue_size sh = int (length (queue sh) + cnt pushing pcs + sum_list (map weight pcs))"
    "cnt sender pcs = 0 \<longleftrightarrow> queue_size sh = 0"
    "ticket sh = map fst (wire sh) @ concat (map held pcs) @ map fst (queue sh)"
    "mset ms = mset (ticket sh) + mset (concat (map waiting pcs))"
    "list_all flushed_pc pcs \<longrightarrow> flushed sh" "list_all pc_ok pcs"
  using assms unfolding send_inv_def by auto

lemma pc_ok_update: "list_all pc_ok pcs \<Longrightarrow> pc_ok pc \<Longrightarrow> list_all pc_ok (pcs[i := pc])"
  by (auto simp: list_all_iff dest: set_update_subset_insert [THEN subsetD])

lemma not_sender [simp]: "\<not> sender pc \<Longrightarrow> held pc = []" "\<not> sender pc \<Longrightarrow> weight pc = 0"
  by (cases pc; simp)+

lemma sole_sender:
  assumes "i < length pcs" "\<And>j. j < length pcs \<Longrightarrow> j \<noteq> i \<Longrightarrow> \<not> sender (pcs ! j)"
  shows "concat (map held (pcs[i := pc])) = held pc" "sum_list (map weight (pcs[i := pc])) = weight pc"
    "cnt sender (pcs[i := pc]) = one_if (sender pc)"
proof -
  have l: "\<not> sender x" if "x \<in> set (take i pcs) \<union> set (drop (Suc i) pcs)" for x
    using that assms by (auto simp: in_set_conv_nth)
  have u: "pcs[i := pc] = take i pcs @ pc # drop (Suc i) pcs" using assms(1) by (simp add: upd_conv_take_nth_drop)
  have z: "concat (map held xs) = [] \<and> sum_list (map weight xs) = 0 \<and> filter sender xs = []" if "\<And>x. x \<in> set xs \<Longrightarrow> \<not> sender x" for xs
    using that by (induction xs) auto
  show "concat (map held (pcs[i := pc])) = held pc" "sum_list (map weight (pcs[i := pc])) = weight pc"
    "cnt sender (pcs[i := pc]) = one_if (sender pc)"
    using z [of "take i pcs", OF l] z [of "drop (Suc i) pcs", OF l] unfolding u by (auto simp: cnt_def simp del: concat_eq_Nil_conv)
qed

lemma both_idle:
  assumes "i < length pcs" "\<not> sender (pcs ! i)" "\<not> sender pc"
  shows "concat (map held (pcs[i := pc])) = concat (map held pcs)" "sum_list (map weight (pcs[i := pc])) = sum_list (map weight pcs)"
    "cnt sender (pcs[i := pc]) = cnt sender pcs"
proof -
  have "map held (pcs[i := pc]) = map held pcs" "map weight (pcs[i := pc]) = map weight pcs"
    using assms by (simp_all add: map_update list_update_same_conv)
  then show "concat (map held (pcs[i := pc])) = concat (map held pcs)" "sum_list (map weight (pcs[i := pc])) = sum_list (map weight pcs)"
    by simp_all
  show "cnt sender (pcs[i := pc]) = cnt sender pcs" using cnt_update [OF assms(1), of sender pc] assms by simp
qed

lemma waiting_update:
  assumes "i < length pcs"
  shows "mset (concat (map waiting (pcs[i := pc]))) + mset (waiting (pcs ! i)) = mset (concat (map waiting pcs)) + mset (waiting pc)"
proof -
  have "pcs = take i pcs @ pcs ! i # drop (Suc i) pcs" using assms by (simp add: id_take_nth_drop)
  then have "mset (concat (map waiting pcs)) = mset (concat (map waiting (take i pcs @ pcs ! i # drop (Suc i) pcs)))" by simp
  then show ?thesis using assms by (simp add: upd_conv_take_nth_drop)
qed

lemma mset_balance:
  assumes "A' + wo = A + wn" "M = T + A" "T' + wn = T + wo"
  shows "M = T' + (A' :: 'm multiset)"
proof -
  have "T' + A' + (wn + wo) = (T' + wn) + (A' + wo)" by (simp add: ac_simps)
  also have "\<dots> = T + A + (wn + wo)" by (simp only: assms(1,3)) (simp add: ac_simps)
  finally show ?thesis using assms(2) by simp
qed

lemma flushed_update:
  assumes "i < length pcs" "list_all flushed_pc pcs \<longrightarrow> flushed sh" "wire sh' = wire sh" "flushed_pc pc \<longrightarrow> flushed_pc (pcs ! i)"
  shows "list_all flushed_pc (pcs[i := pc]) \<longrightarrow> flushed sh'"
proof
  assume a: "list_all flushed_pc (pcs[i := pc])"
  have "flushed_pc (pcs ! j)" if "j < length pcs" for j
    using a assms(1,4) that by (cases "j = i") (auto simp: list_all_length nth_list_update)
  then show "flushed sh'" using assms(2,3) by (simp add: list_all_length flushed_def)
qed

text \<open>A step of a thread that is and stays no sender.\<close>

lemma idle_step:
  assumes inv: "send_inv ms (pcs, sh)" and i: "i < length pcs" and idle: "\<not> sender (pcs ! i)" "\<not> sender pc"
    and size: "queue_size sh' + int (length (queue sh) + one_if (pushing (pcs ! i))) = queue_size sh + int (length (queue sh') + one_if (pushing pc))"
    and zero: "queue_size sh' = 0 \<longleftrightarrow> queue_size sh = 0" and wire: "wire sh' = wire sh"
    and tick: "ticket sh' = ticket sh @ xs" "map fst (queue sh') = map fst (queue sh) @ xs"
    and wait: "mset (waiting (pcs ! i)) = mset xs + mset (waiting pc)" and ok: "pc_ok pc"
  shows "send_inv ms (pcs[i := pc], sh')"
proof -
  have fl: "flushed_pc (pcs ! i)" using idle(1) by (cases "pcs ! i") auto
  have p: "cnt pushing (pcs[i := pc]) + one_if (pushing (pcs ! i)) = cnt pushing pcs + one_if (pushing pc)"
    using cnt_update_one_if [OF i] by blast
  note d = send_invD [OF inv] and u = both_idle [OF i idle]
  have m: "mset ms = mset (ticket sh') + mset (concat (map waiting (pcs[i := pc])))"
    using waiting_update [OF i, of pc] d(6) wait tick(1) by (simp add: ac_simps)
  have t: "ticket sh' = map fst (wire sh') @ concat (map held (pcs[i := pc])) @ map fst (queue sh')"
    using d(5) wire tick u(1) by simp
  have q: "queue_size sh' = int (length (queue sh') + cnt pushing (pcs[i := pc]) + sum_list (map weight (pcs[i := pc])))"
    using d(3) size p u(2) by linarith
  have f: "list_all flushed_pc (pcs[i := pc]) \<longrightarrow> flushed sh'"
    using flushed_update [OF i d(7) wire] fl by blast
  show ?thesis using d(1,2,4) u(3) zero m t q f pc_ok_update [OF d(8) ok] by (simp add: send_inv_def)
qed

text \<open>A step of the sender, or of the thread that becomes it.\<close>

lemma sender_step:
  assumes inv: "send_inv ms (pcs, sh)" and i: "i < length pcs"
    and sole: "sender (pcs ! i) \<or> queue_size sh = 0 \<and> \<not> pushing (pcs ! i)" and np: "\<not> pushing pc"
    and size: "queue_size sh' + int (length (queue sh) + weight (pcs ! i)) = queue_size sh + int (length (queue sh') + weight pc)"
    and zero: "sender pc \<longleftrightarrow> queue_size sh' \<noteq> 0"
    and tick: "ticket sh' = map fst (wire sh') @ held pc @ map fst (queue sh')"
    and wait: "mset (ticket sh') + mset (waiting pc) = mset (ticket sh) + mset (waiting (pcs ! i))"
    and fl: "(flushed_pc pc \<longrightarrow> flushed_pc (pcs ! i)) \<and> wire sh' = wire sh \<or> \<not> flushed_pc pc \<or> flushed sh'" and ok: "pc_ok pc"
  shows "send_inv ms (pcs[i := pc], sh')"
proof -
  note d = send_invD [OF inv]
  note c = d(2,4)
  have others: "\<not> sender (pcs ! j)" if "j < length pcs" "j \<noteq> i" for j
    using sole c that i cnt_unique [OF c(1) i that(1)] cnt_zero_iff [of sender pcs] by (auto simp: list_all_length)
  have npi: "\<not> pushing (pcs ! i)" using sole by (cases "pcs ! i") auto
  have p: "cnt pushing (pcs[i := pc]) = cnt pushing pcs" using cnt_update [OF i, of pushing pc] np npi by simp
  note new = sole_sender [OF i others, of pc] and old = sole_sender [OF i others, of "pcs ! i", simplified]
  have "list_all flushed_pc (pcs[i := pc]) \<longrightarrow> flushed sh'"
    using fl flushed_update [OF i d(7), of sh' pc] i by (auto simp: list_all_length)
  moreover have "mset ms = mset (ticket sh') + mset (concat (map waiting (pcs[i := pc])))"
    by (rule mset_balance [OF waiting_update [OF i] d(6) wait])
  moreover have "queue_size sh' = int (length (queue sh') + cnt pushing (pcs[i := pc]) + sum_list (map weight (pcs[i := pc])))"
    using d(3) size p new(2) old(2) by linarith
  ultimately show ?thesis using d(1) tick new zero pc_ok_update [OF d(8) ok] by (simp add: send_inv_def one_if_def)
qed

lemma send_inv_init: "send_init ms s \<Longrightarrow> send_inv ms s"
proof -
  have "list_all pc_ok (map Start ms)" by (simp add: list_all_iff)
  moreover
  have "cnt P (map Start ms) = 0" if "\<And>m. \<not> P (Start m)" for P :: "'a send_pc \<Rightarrow> bool"
    using that by (auto simp: cnt_zero_iff list_all_iff)
  moreover have "concat (map held (map Start ms)) = []" "sum_list (map weight (map Start ms)) = 0" "concat (map waiting (map Start ms)) = ms"
    by (induction ms) auto
  ultimately show "send_init ms s \<Longrightarrow> send_inv ms s" by (auto simp: send_init_def send_inv_def flushed_def)
qed

lemma map_fst_link: "map fst (map (\<lambda>(x, j, linked). (x, j, linked \<or> j = i)) q) = map fst q"
  by (induction q) auto

lemma send_inv_step:
  assumes inv: "send_inv ms (pcs, sh)" and i: "i < length pcs" and n: "(pc, sh') \<in> set (send_next i (pcs ! i) sh)"
  shows "send_inv ms (pcs[i := pc], sh')"
proof -
  note d = send_invD [OF inv]
  have sole: "concat (map held pcs) = held (pcs ! i)" "sum_list (map weight pcs) = weight (pcs ! i)" if "sender (pcs ! i)"
    using sole_sender [OF i, of "pcs ! i"] cnt_unique [OF d(2) i _ _ that] by auto
  have pos: "0 < queue_size sh" if "sender (pcs ! i)"
    using d(3,4) cnt_pos [of i pcs sender, OF i that] by auto
  have ok: "pc_ok (pcs ! i)" using d(8) i by (simp add: list_all_length)
  show ?thesis
  proof (cases "pcs ! i")
    case (Start m)
    show ?thesis
    proof (cases "queue_size sh = 0")
      case True
      have "length (queue sh) = 0" using d(3) True by linarith
      moreover have "concat (map held pcs) = []" using d(4) True by (auto simp: cnt_zero_iff list_all_iff)
      ultimately show ?thesis
        using True Start n d(5) by (intro sender_step [OF inv i]) (auto simp: if_pos_def Let_def)
    next
      case False
      then have "0 < queue_size sh" using d(3) by linarith
      then show ?thesis
        using False Start n by (intro idle_step [OF inv i, where xs = "[]"]) (auto simp: Let_def)
    qed
  next
    case (Push m)
    have "0 < cnt pushing pcs" using cnt_pos [of i pcs pushing, OF i] Push by simp
    then have "queue_size sh \<noteq> 0" using d(3) by linarith
    then show ?thesis using Push n by (intro idle_step [OF inv i, where xs = "[m]"]) (auto simp: Let_def)
  next
    case (Link m)
    then show ?thesis using n by (intro idle_step [OF inv i, where xs = "[]"]) (auto simp: map_fst_link [symmetric])
  next
    case (Pop c msg)
    then have "(\<exists>x j q. queue sh = (x, j, True) # q \<and> pc = Got c msg x \<and> sh' = sh\<lparr>queue := q\<rparr>) \<or> pc = Flush c msg \<and> sh' = sh"
      using n by (auto split: list.splits prod.splits bool.splits)
    then show ?thesis
      using Pop sole pos d(5) ok by (elim disjE exE conjE; intro sender_step [OF inv i]) auto
  next
    case (Got c msg x)
    then show ?thesis
      using n sole pos d(5) ok by (intro sender_step [OF inv i]) (auto simp: send_rpc_def if_pos_def split: if_splits option.splits)
  next
    case (Flush c msg)
    then show ?thesis
      using n sole pos d(5) ok
      by (intro sender_step [OF inv i]) (auto simp: send_rpc_def if_pos_def flushed_def split: if_splits option.splits)
  next
    case (Dec c)
    then show ?thesis
      using n sole pos d(5) ok by (intro sender_step [OF inv i]) (auto simp: Let_def if_pos_def split: if_splits)
  qed (use n in auto)
qed

lemma send_inv_steps:
  assumes "send_inv ms s" "send_step s t"
  shows "send_inv ms t"
  using assms(2)
proof cases
  case (1 i pcs pc sh' sh)
  then show ?thesis using assms(1) send_inv_step [of ms pcs sh i pc sh'] by simp
qed

lemma send_invariant: "inductive_invariant (send_init ms) send_step (send_inv ms)"
  by unfold_locales (auto intro: send_inv_init send_inv_steps)

text \<open>A schedule: which thread moves next, and to which of its successors.\<close>

fun send_run :: "(nat \<times> nat) list \<Rightarrow> 'm send_sys \<Rightarrow> 'm send_sys option" where
  "send_run [] s = Some s"
| "send_run ((i, k) # sched) (pcs, sh) =
     (if i < length pcs \<and> k < length (send_next i (pcs ! i) sh)
      then let (pc, sh') = send_next i (pcs ! i) sh ! k in send_run sched (pcs[i := pc], sh')
      else None)"

lemma send_run_reach: "send_run sched s = Some t \<Longrightarrow> reach (send_init ms) send_step s \<Longrightarrow> reach (send_init ms) send_step t"
proof (induction sched s rule: send_run.induct)
  case (2 i k sched pcs sh)
  obtain pc sh' where n: "send_next i (pcs ! i) sh ! k = (pc, sh')" by (cases "send_next i (pcs ! i) sh ! k") auto
  then have r: "i < length pcs" "k < length (send_next i (pcs ! i) sh)" "send_run sched (pcs[i := pc], sh') = Some t"
    using 2(2) by (auto split: if_splits)
  then have "send_step (pcs, sh) (pcs[i := pc], sh')" using n by (metis nth_mem send_step.intros)
  then show ?case using 2(1) [OF _ n [symmetric] refl] r reach_step [OF 2(3)] by auto
qed simp

definition demo_start :: "nat send_sys" where
  "demo_start = (map Start [10, 20], \<lparr>queue_size = 0, queue = [], wire = [], ticket = []\<rparr>)"

lemma demo_start_reach: "reach (send_init [10, 20]) send_step demo_start"
  by (rule reach_init) (simp add: send_init_def demo_start_def)

definition demo_schedule :: "(nat \<times> nat) list" where
  "demo_schedule = [(0, 0), (1, 0), (1, 0), (1, 0), (0, 0), (0, 0), (0, 0), (0, 0), (0, 0)]"

section \<open>Properties\<close>

text \<open>At most one thread is sending at any time, and what has been written to the socket is a prefix of the
  messages in the order in which they entered: no message is sent twice or out of this order.\<close>

theorem send_order:
  assumes "reach (send_init ms) send_step (pcs, sh)"
  shows "(\<forall>i j. i < length pcs \<longrightarrow> j < length pcs \<longrightarrow> sender (pcs ! i) \<longrightarrow> sender (pcs ! j) \<longrightarrow> i = j) \<and>
    prefix (map fst (wire sh)) (ticket sh) \<and> mset (ticket sh) \<subseteq># mset ms"
proof -
  note d = send_invD [OF inductive_invariant.inv_reach [OF send_invariant assms]]
  have "i = j" if "i < length pcs" "j < length pcs" "sender (pcs ! i)" "sender (pcs ! j)" for i j
    using cnt_unique [OF d(2) that(1,2) _ that(3)] that(4) by blast
  then show ?thesis using d(5,6) by (auto simp: prefix_def)
qed

theorem send_order_witness:
  "\<exists>pcs sh. send_run (take 6 demo_schedule) demo_start = Some (pcs, sh) \<and> wire sh = [(10, True)] \<and> prefix [10] (ticket sh)"
proof -
  have "map_option (wire \<circ> snd) (send_run (take 6 demo_schedule) demo_start) = Some [(10, True)]" by code_simp
  then obtain pcs sh where r: "send_run (take 6 demo_schedule) demo_start = Some (pcs, sh)" "wire sh = [(10, True)]" by auto
  show ?thesis using send_order [OF send_run_reach [OF r(1) demo_start_reach]] r by auto
qed

text \<open>C14. When every call has returned and no send failed, each message has been sent exactly once, the queue and
  the counter are back to zero, and the last message was sent without the flag that announces more.\<close>

theorem send_all_sent:
  assumes "reach (send_init ms) send_step (pcs, sh)" "list_all (\<lambda>pc. pc = Returned) pcs"
  shows "mset (map fst (wire sh)) = mset ms \<and> queue sh = [] \<and> queue_size sh = 0 \<and> (wire sh = [] \<or> \<not> snd (last (wire sh)))"
proof -
  note d = send_invD [OF inductive_invariant.inv_reach [OF send_invariant assms(1)]]
  have z: "concat (map held pcs) = [] \<and> concat (map waiting pcs) = [] \<and> list_all flushed_pc pcs \<and> cnt sender pcs = 0 \<and> cnt pushing pcs = 0"
    using assms(2) by (auto simp: list_all_iff cnt_zero_iff)
  then have q: "queue_size sh = 0" using d(4) by simp
  have "length (queue sh) = 0" using d(3) q by linarith
  then show ?thesis using d(5,6,7) z q by (simp add: flushed_def del: concat_eq_Nil_conv)
qed

theorem send_all_sent_witness:
  "\<exists>pcs sh. send_run demo_schedule demo_start = Some (pcs, sh) \<and> mset (map fst (wire sh)) = {#10, 20#} \<and> queue_size sh = 0"
proof -
  have "map_option fst (send_run demo_schedule demo_start) = Some [Returned, Returned]" by code_simp
  then obtain pcs sh where r: "send_run demo_schedule demo_start = Some (pcs, sh)" "pcs = [Returned, Returned]" by auto
  show ?thesis using send_all_sent [OF send_run_reach [OF r(1) demo_start_reach]] r by auto
qed

end
