(* ===== verification/Fair_Queue.thy ===== *)
theory Fair_Queue
  imports Prpc_Prelude "HOL-Library.AList" "HOL-Library.Multiset"
begin

text \<open>
  \<open>FairQueue\<close> of \<open>src/rpc/RpcContext.h\<close> and \<open>src/rpc/RpcContext.cpp\<close>: the servers of one rpc service on this
  node, the dealers that serve each of them, and the requests that wait for a first dealer.

  A dealer is any value that can be compared, as the code compares pointers; a request is any value. The
  requests an operation hands to dealers (\<open>dealer->push_request\<close>) are its result. The two
  \<open>std::unordered_map\<close> are association lists in the order of iteration, which may change between operations
  (\<open>Rehash\<close>). A cache is an \<open>MpscQueue\<close>: its contents, oldest first; it is drained only under the write lock,
  when no push is in progress. The two round robin counters are never initialised by the constructor, so a
  new queue has any value in them. They are the only members written under the read lock, and no fact below
  depends on their value.
\<close>

section \<open>Model\<close>

record ('d, 'r) fair_queue =
  sid2dealers :: "(int \<times> 'd list) list"
  sids :: "int list"
  sids_rr_index :: "32 word"
  dealer_id_rr_index :: "64 word"
  sid2cache :: "(int \<times> 'r list) list"

definition fq_new :: "32 word \<Rightarrow> 64 word \<Rightarrow> ('d, 'r) fair_queue" where
  "fq_new i j = \<lparr>sid2dealers = [], sids = [], sids_rr_index = i, dealer_id_rr_index = j, sid2cache = []\<rparr>"

definition fq_add_server :: "int \<Rightarrow> ('d, 'r) fair_queue \<Rightarrow> ('d, 'r) fair_queue res" where
  "fq_add_server sid q =
     rbind (scheck (map_of (sid2cache q) sid = None)) (\<lambda>_. Inr (q\<lparr>sid2cache := (sid, []) # sid2cache q\<rparr>))"

text \<open>One cached request is popped for the warning and the others go with the queue: all are lost.\<close>

definition fq_remove_server :: "int \<Rightarrow> ('d, 'r) fair_queue \<Rightarrow> ('r list \<times> ('d, 'r) fair_queue) res" where
  "fq_remove_server sid q =
     (case map_of (sid2cache q) sid of
        None \<Rightarrow> Inl Check_failed
      | Some cached \<Rightarrow> Inr (cached, q\<lparr>sid2cache := AList.delete sid (sid2cache q)\<rparr>))"

definition fq_add_server_dealer ::
  "int \<Rightarrow> 'd \<Rightarrow> ('d, 'r) fair_queue \<Rightarrow> ('d \<times> 'r) list \<times> ('d, 'r) fair_queue" where
  "fq_add_server_dealer sid dealer q =
     (let q1 = q\<lparr>sid2dealers :=
            (case map_of (sid2dealers q) sid of
               None \<Rightarrow> (sid, [dealer]) # sid2dealers q
             | Some ds \<Rightarrow> AList.update sid (ds @ [dealer]) (sid2dealers q)),
          sids := sids q @ [sid]\<rparr>
      in case map_of (sid2cache q1) sid of
           None \<Rightarrow> ([], q1)
         | Some cached \<Rightarrow>
             (map (\<lambda>req. (dealer, req)) cached, q1\<lparr>sid2cache := AList.update sid [] (sid2cache q1)\<rparr>))"

text \<open>
  The two loops of \<open>remove_server_dealer\<close>: an element is removed by moving the last one into its place; the
  first loop goes on with the next index, the second one stops.
\<close>

function remove_dealer_from :: "'d \<Rightarrow> nat \<Rightarrow> 'd list \<Rightarrow> 'd list" where
  "remove_dealer_from d i ds =
     (if i < length ds
      then if ds ! i = d then remove_dealer_from d (Suc i) (butlast (ds[i := last ds]))
           else remove_dealer_from d (Suc i) ds
      else ds)"
  by pat_completeness auto

function remove_sid_from :: "int \<Rightarrow> nat \<Rightarrow> int list \<Rightarrow> int list" where
  "remove_sid_from sid i ss =
     (if i < length ss
      then if ss ! i = sid then butlast (ss[i := last ss]) else remove_sid_from sid (Suc i) ss
      else ss)"
  by pat_completeness auto

definition fq_remove_server_dealer :: "int \<Rightarrow> 'd \<Rightarrow> ('d, 'r) fair_queue \<Rightarrow> ('d, 'r) fair_queue res" where
  "fq_remove_server_dealer sid dealer q =
     (case map_of (sid2dealers q) sid of
        None \<Rightarrow> Inl Check_failed
      | Some ds \<Rightarrow>
          let ds1 = remove_dealer_from dealer 0 ds
          in Inr (q\<lparr>sid2dealers := (if ds1 = [] then AList.delete sid (sid2dealers q)
                                    else AList.update sid ds1 (sid2dealers q)),
                    sids := remove_sid_from sid 0 (sids q)\<rparr>))"

definition fq_empty :: "('d, 'r) fair_queue \<Rightarrow> bool" where
  "fq_empty q \<longleftrightarrow> sid2dealers q = [] \<and> sid2cache q = []"

text \<open>
  \<open>_sids[_sids_rr_index.fetch_add(1) % _sids.size()]\<close>: the counter wraps around, and a negative value is
  converted to \<open>size_t\<close> before the remainder is taken.
\<close>

definition pick_sid :: "('d, 'r) fair_queue \<Rightarrow> int \<times> ('d, 'r) fair_queue" where
  "pick_sid q =
     (sids q ! (unat (scast (sids_rr_index q) :: 64 word) mod length (sids q)),
      q\<lparr>sids_rr_index := sids_rr_index q + 1\<rparr>)"

text \<open>\<open>next(int)\<close>; \<open>None\<close> is the null pointer.\<close>

definition next_dealer :: "int \<Rightarrow> ('d, 'r) fair_queue \<Rightarrow> ('d option \<times> ('d, 'r) fair_queue) res" where
  "next_dealer sid q =
     (if sid = -1 \<and> sids q = [] then Inr (None, q)
      else
        let (sid, q) = (if sid = -1 then pick_sid q else (sid, q))
        in case map_of (sid2dealers q) sid of
             None \<Rightarrow> Inr (None, q)
           | Some d \<Rightarrow>
               rbind (scheck (d \<noteq> [])) (\<lambda>_.
                 let index = dealer_id_rr_index q + 1;
                     index = (if length d \<le> unat index then 0 else index)
                 in Inr (Some (d ! unat index), q\<lparr>dealer_id_rr_index := index\<rparr>)))"

text \<open>\<open>next()\<close>.\<close>

definition next_any :: "('d, 'r) fair_queue \<Rightarrow> ('d option \<times> ('d, 'r) fair_queue) res" where
  "next_any q =
     rbind (scheck (sids q \<noteq> [])) (\<lambda>_.
       let (sid, q1) = pick_sid q
       in if sid2dealers q1 = [] then Inr (None, q1) else next_dealer sid q1)"

text \<open>\<open>push_request\<close>: whether the request was taken, and the dealer that got it if it was not cached.\<close>

definition fq_push_request ::
  "int \<Rightarrow> 'r \<Rightarrow> ('d, 'r) fair_queue \<Rightarrow> (bool \<times> ('d \<times> 'r) list \<times> ('d, 'r) fair_queue) res" where
  "fq_push_request sid req q =
     (if sid = -1 \<and> sid2cache q = [] then Inr (False, [], q)
      else
        let (sid, q) = (if sid \<noteq> -1 then (sid, q)
                        else if sids q = [] then (fst (hd (sid2cache q)), q)
                        else pick_sid q)
        in case map_of (sid2dealers q) sid of
             Some d \<Rightarrow> rbind (scheck (d \<noteq> [])) (\<lambda>_. Inr (True, [(last d, req)], q))
           | None \<Rightarrow>
               (case map_of (sid2cache q) sid of
                  Some cached \<Rightarrow> Inr (True, [], q\<lparr>sid2cache := AList.update sid (cached @ [req]) (sid2cache q)\<rparr>)
                | None \<Rightarrow> Inr (False, [], q)))"

text \<open>What \<open>RpcContext::push_request\<close> does with the queue of the service.\<close>

definition fq_dispatch ::
  "int \<Rightarrow> 'r \<Rightarrow> ('d, 'r) fair_queue \<Rightarrow> (bool \<times> ('d \<times> 'r) list \<times> ('d, 'r) fair_queue) res" where
  "fq_dispatch sid req q =
     rbind (next_dealer sid q) (\<lambda>(dealer, q1).
       case dealer of
         None \<Rightarrow> fq_push_request sid req q1
       | Some d \<Rightarrow> Inr (True, [(d, req)], q1))"

termination remove_dealer_from
  by (relation "measure (\<lambda>(d, i, ds). length ds - i)") auto

termination remove_sid_from
  by (relation "measure (\<lambda>(sid, i, ss). length ss - i)") auto

declare remove_dealer_from.simps [simp del] remove_sid_from.simps [simp del]

section \<open>Sequences of operations\<close>

datatype ('d, 'r) fq_event =
    Add_server int
  | Remove_server int
  | Add_dealer int 'd
  | Remove_dealer int 'd
  | Push int 'r
  | Rehash "(int \<times> 'd list) list" "(int \<times> 'r list) list"

record ('d, 'r) fq_log =
  pushed :: "'r list"
  delivered :: "('d \<times> 'r) list"
  rejected :: "'r list"
  dropped :: "'r list"

type_synonym ('d, 'r) fq_sys = "('d, 'r) fair_queue \<times> ('d, 'r) fq_log"

fun fq_exec :: "('d, 'r) fq_event \<Rightarrow> ('d, 'r) fq_sys \<Rightarrow> ('d, 'r) fq_sys res" where
  "fq_exec (Add_server sid) (q, l) = rbind (fq_add_server sid q) (\<lambda>q1. Inr (q1, l))"
| "fq_exec (Remove_server sid) (q, l) =
     rbind (fq_remove_server sid q) (\<lambda>(lost, q1). Inr (q1, l\<lparr>dropped := dropped l @ lost\<rparr>))"
| "fq_exec (Add_dealer sid d) (q, l) =
     (let (out, q1) = fq_add_server_dealer sid d q in Inr (q1, l\<lparr>delivered := delivered l @ out\<rparr>))"
| "fq_exec (Remove_dealer sid d) (q, l) = rbind (fq_remove_server_dealer sid d q) (\<lambda>q1. Inr (q1, l))"
| "fq_exec (Push sid r) (q, l) =
     rbind (fq_dispatch sid r q) (\<lambda>(taken, out, q1).
       Inr (q1, l\<lparr>pushed := pushed l @ [r], delivered := delivered l @ out,
                  rejected := (if taken then rejected l else rejected l @ [r])\<rparr>))"
| "fq_exec (Rehash ds cs) (q, l) = Inr (q\<lparr>sid2dealers := ds, sid2cache := cs\<rparr>, l)"

definition dealers_of :: "int \<Rightarrow> ('d, 'r) fair_queue \<Rightarrow> 'd list" where
  "dealers_of sid q = (case map_of (sid2dealers q) sid of None \<Rightarrow> [] | Some ds \<Rightarrow> ds)"

definition cached_of :: "int \<Rightarrow> ('d, 'r) fair_queue \<Rightarrow> 'r list" where
  "cached_of sid q = (case map_of (sid2cache q) sid of None \<Rightarrow> [] | Some rs \<Rightarrow> rs)"

definition has_server :: "int \<Rightarrow> ('d, 'r) fair_queue \<Rightarrow> bool" where
  "has_server sid q \<longleftrightarrow> map_of (sid2cache q) sid \<noteq> None"

text \<open>
  What the callers respect beyond the checks: a dealer is new when it is added and present when it is removed. A
  \<open>Rehash\<close> only changes the order of the tables. Adding a server twice or removing one that is not there is left to
  the checks.
\<close>

fun fq_allowed :: "('d, 'r) fq_event \<Rightarrow> ('d, 'r) fair_queue \<Rightarrow> bool" where
  "fq_allowed (Add_dealer sid d) q = (d \<notin> set (dealers_of sid q))"
| "fq_allowed (Remove_dealer sid d) q = (d \<in> set (dealers_of sid q))"
| "fq_allowed (Rehash ds cs) q = (mset ds = mset (sid2dealers q) \<and> mset cs = mset (sid2cache q))"
| "fq_allowed _ q = True"

text \<open>When a check fails.\<close>

fun fq_aborts :: "('d, 'r) fq_event \<Rightarrow> ('d, 'r) fair_queue \<Rightarrow> bool" where
  "fq_aborts (Add_server sid) q = has_server sid q"
| "fq_aborts (Remove_server sid) q = (\<not> has_server sid q)"
| "fq_aborts (Remove_dealer sid d) q = (dealers_of sid q = [])"
| "fq_aborts _ q = False"

inductive fq_step :: "('d, 'r) fq_sys \<Rightarrow> ('d, 'r) fq_sys \<Rightarrow> bool" where
  "fq_allowed e (fst s) \<Longrightarrow> fq_exec e s = Inr t \<Longrightarrow> fq_step s t"

definition fq_init :: "('d, 'r) fq_sys \<Rightarrow> bool" where
  "fq_init s \<longleftrightarrow> (\<exists>i j. fst s = fq_new i j) \<and> snd s = \<lparr>pushed = [], delivered = [], rejected = [], dropped = []\<rparr>"

section \<open>Removing by swapping with the last element\<close>

lemma mset_swap_last:
  assumes "i < length xs"
  shows "mset (butlast (xs[i := last xs])) + {#xs ! i#} = mset xs"
proof (cases "i = length xs - 1")
  case True
  then have "xs[i := last xs] = xs" using assms by (metis last_conv_nth list_update_id not_less_zero list.size(3))
  moreover have "xs = butlast xs @ [xs ! i]" using assms True
    by (metis append_butlast_last_id last_conv_nth list.size(3) not_less_zero)
  ultimately show ?thesis by (metis mset_append mset_single_iff_right mset.simps(1,2) add.left_neutral union_mset_add_mset_right add_mset_add_single)
next
  case False
  have ne: "xs \<noteq> []" using assms by auto
  then obtain ys z where xs: "xs = ys @ [z]" by (metis rev_exhaust)
  with assms False have i: "i < length ys" by auto
  have "mset (ys[i := z]) + {#ys ! i#} = mset ys + {#z#}"
    using i by (simp add: mset_update nth_mem)
  then show ?thesis using i by (simp add: xs list_update_append nth_append)
qed

lemma remove_sid_mset: "count (mset (remove_sid_from sid i ss)) s + one_if (s = sid \<and> sid \<in> set (drop i ss)) = count (mset ss) s"
proof (induction sid i ss rule: remove_sid_from.induct)
  case (1 sid i ss)
  show ?case
  proof (cases "i < length ss")
    case True
    then have d: "drop i ss = ss ! i # drop (Suc i) ss" by (simp add: Cons_nth_drop_Suc)
    show ?thesis
    proof (cases "ss ! i = sid")
      case True
      have "count (mset (butlast (ss[i := last ss])) + {#ss ! i#}) s = count (mset ss) s"
        using mset_swap_last [OF \<open>i < length ss\<close>] by simp
      then show ?thesis using True \<open>i < length ss\<close> d
        by (subst remove_sid_from.simps) (auto simp: one_if_def)
    next
      case False
      then show ?thesis using 1 True d by (subst remove_sid_from.simps) (auto simp: one_if_def)
    qed
  next
    case False
    then show ?thesis by (subst remove_sid_from.simps) (simp add: one_if_def)
  qed
qed

lemma remove_dealer_absent: "d \<notin> set (drop i ds) \<Longrightarrow> remove_dealer_from d i ds = ds"
proof (induction d i ds rule: remove_dealer_from.induct)
  case (1 d i ds)
  show ?case
  proof (cases "i < length ds")
    case True
    then have "drop i ds = ds ! i # drop (Suc i) ds" by (simp add: Cons_nth_drop_Suc)
    then show ?thesis using 1 True by (subst remove_dealer_from.simps) auto
  next
    case False
    then show ?thesis by (subst remove_dealer_from.simps) simp
  qed
qed

lemma remove_dealer_mset:
  "distinct ds \<Longrightarrow> d \<in> set (drop i ds) \<Longrightarrow> mset (remove_dealer_from d i ds) + {#d#} = mset ds"
proof (induction d i ds rule: remove_dealer_from.induct)
  case (1 d i ds)
  have i: "i < length ds" using 1(4) by (metis drop_all empty_iff list.set(1) not_le)
  then have dr: "drop i ds = ds ! i # drop (Suc i) ds" by (simp add: Cons_nth_drop_Suc)
  show ?case
  proof (cases "ds ! i = d")
    case True
    let ?ds = "butlast (ds[i := last ds])"
    have m: "mset ?ds + {#d#} = mset ds" using mset_swap_last [OF i] True by simp
    then have "count (mset ?ds) d + 1 = count (mset ds) d" by (metis count_single count_union)
    moreover have "count (mset ds) d \<le> 1" using 1(3) by (simp add: distinct_count_atmost_1)
    ultimately have "count (mset ?ds) d = 0" by linarith
    then have "d \<notin> set ?ds" by (simp add: count_mset_0_iff)
    then have "d \<notin> set (drop (Suc i) ?ds)" by (meson in_set_dropD)
    then show ?thesis using m i True by (subst remove_dealer_from.simps) (simp add: remove_dealer_absent)
  next
    case False
    then show ?thesis using 1 i dr by (subst remove_dealer_from.simps) auto
  qed
qed

section \<open>Invariant\<close>

definition all_cached :: "('d, 'r) fair_queue \<Rightarrow> 'r multiset" where
  "all_cached q = mset (concat (map snd (sid2cache q)))"

definition fq_inv :: "('d, 'r) fair_queue \<Rightarrow> bool" where
  "fq_inv q \<longleftrightarrow>
     distinct (map fst (sid2dealers q)) \<and> distinct (map fst (sid2cache q)) \<and>
     (\<forall>s ds. map_of (sid2dealers q) s = Some ds \<longrightarrow> ds \<noteq> [] \<and> distinct ds) \<and>
     (\<forall>s. count (mset (sids q)) s = length (dealers_of s q)) \<and>
     (\<forall>s. dealers_of s q \<noteq> [] \<longrightarrow> cached_of s q = [])"

lemma fq_invI:
  assumes "distinct (map fst (sid2dealers q))" "distinct (map fst (sid2cache q))"
    and "\<And>s ds. map_of (sid2dealers q) s = Some ds \<Longrightarrow> ds \<noteq> [] \<and> distinct ds"
    and "\<And>s. count (mset (sids q)) s = length (dealers_of s q)"
    and "\<And>s. dealers_of s q \<noteq> [] \<Longrightarrow> cached_of s q = []"
  shows "fq_inv q"
  using assms unfolding fq_inv_def by blast

definition log_ok :: "('d, 'r) fq_sys \<Rightarrow> bool" where
  "log_ok s \<longleftrightarrow>
     mset (pushed (snd s)) =
       mset (map snd (delivered (snd s))) + mset (rejected (snd s)) + mset (dropped (snd s)) + all_cached (fst s)"

lemma concat_update:
  "map_of al k = Some v \<Longrightarrow> distinct (map fst al) \<Longrightarrow>
     mset (concat (map snd (AList.update k w al))) + mset v = mset (concat (map snd al)) + mset w"
  by (induction al) (auto simp: add.commute add.left_commute)

lemma concat_delete:
  "map_of al k = Some v \<Longrightarrow> distinct (map fst al) \<Longrightarrow>
     mset (concat (map snd (AList.delete k al))) + mset v = mset (concat (map snd al))"
proof (induction al)
  case (Cons a al)
  have "k \<notin> fst ` set al \<Longrightarrow> AList.delete k al = al" by (rule delete_id)
  with Cons show ?case by (auto simp: add.commute add.left_commute)
qed simp

lemma sids_dealers:
  assumes "fq_inv q" "s \<in> set (sids q)"
  obtains ds where "map_of (sid2dealers q) s = Some ds" "ds \<noteq> []"
proof -
  have "count (mset (sids q)) s \<noteq> 0" using assms(2) by simp
  moreover have "count (mset (sids q)) s = length (dealers_of s q)"
    using assms(1) unfolding fq_inv_def by blast
  ultimately have "dealers_of s q \<noteq> []" by auto
  then show thesis using that by (auto simp: dealers_of_def split: option.splits)
qed

lemma no_sids_no_dealers: "fq_inv q \<Longrightarrow> sids q = [] \<Longrightarrow> sid2dealers q = []"
proof (rule ccontr)
  assume a: "fq_inv q" "sids q = []" "sid2dealers q \<noteq> []"
  then obtain s ds l where "sid2dealers q = (s, ds) # l" by (metis list.exhaust surj_pair)
  then have m: "map_of (sid2dealers q) s = Some ds" by simp
  have "count (mset (sids q)) s = length (dealers_of s q)" using a(1) unfolding fq_inv_def by blast
  then have "ds = []" using a(2) m by (simp add: dealers_of_def)
  then show False using a(1) m unfolding fq_inv_def by blast
qed

lemma pick_sid_mem: "sids q \<noteq> [] \<Longrightarrow> fst (pick_sid q) \<in> set (sids q)"
  by (simp add: pick_sid_def)

text \<open>Choosing a dealer changes only the counters.\<close>

definition same_but_counters :: "('d, 'r) fair_queue \<Rightarrow> ('d, 'r) fair_queue \<Rightarrow> bool" where
  "same_but_counters q q' \<longleftrightarrow>
     sid2dealers q' = sid2dealers q \<and> sids q' = sids q \<and> sid2cache q' = sid2cache q"

lemma same_inv: "same_but_counters q q' \<Longrightarrow> fq_inv q' = fq_inv q"
  by (simp add: same_but_counters_def fq_inv_def dealers_of_def cached_of_def)

lemma pick_sid_same: "same_but_counters q (snd (pick_sid q))"
  by (simp add: pick_sid_def same_but_counters_def)

text \<open>The dealers that may get a request for a server id; -1 asks for any.\<close>

definition serves :: "int \<Rightarrow> 'd \<Rightarrow> ('d, 'r) fair_queue \<Rightarrow> bool" where
  "serves sid d q \<longleftrightarrow> (if sid = -1 then (\<exists>s. d \<in> set (dealers_of s q)) else d \<in> set (dealers_of sid q))"

lemma next_dealer_cases:
  assumes "fq_inv q"
  shows "\<exists>d q'. next_dealer sid q = Inr (d, q') \<and> same_but_counters q q' \<and>
           (case d of Some d \<Rightarrow> serves sid d q
            | None \<Rightarrow> (if sid = -1 then sids q = [] else dealers_of sid q = []))"
proof (cases "sid = -1")
  case False
  then show ?thesis using assms
    by (auto simp: next_dealer_def same_but_counters_def serves_def dealers_of_def fq_inv_def Let_def
        split: option.splits)
next
  case True
  show ?thesis
  proof (cases "sids q = []")
    case True
    then show ?thesis using \<open>sid = -1\<close> by (simp add: next_dealer_def same_but_counters_def)
  next
    case ne: False
    obtain s q1 where p: "pick_sid q = (s, q1)" by fastforce
    with pick_sid_mem [OF ne] pick_sid_same [of q] have s: "s \<in> set (sids q)" "same_but_counters q q1" by auto
    from sids_dealers [OF assms s(1)] obtain ds where ds: "map_of (sid2dealers q) s = Some ds" "ds \<noteq> []" by blast
    have ds1: "map_of (sid2dealers q1) s = Some ds" using s(2) ds by (simp add: same_but_counters_def)
    define i where "i = (if length ds \<le> unat (dealer_id_rr_index q1 + 1) then 0 else dealer_id_rr_index q1 + 1)"
    have "next_dealer sid q = Inr (Some (ds ! unat i), q1\<lparr>dealer_id_rr_index := i\<rparr>)" "unat i < length ds"
      using \<open>sid = -1\<close> ne p ds1 ds(2) by (auto simp: next_dealer_def Let_def i_def)
    then show ?thesis using s(2) ds \<open>sid = -1\<close>
      by (auto simp: same_but_counters_def serves_def dealers_of_def intro!: exI [of _ s])
  qed
qed

lemma dispatch_cases:
  assumes "fq_inv q"
  obtains (served) d q' where "fq_dispatch sid r q = Inr (True, [(d, r)], q')" "same_but_counters q q'" "serves sid d q"
  | (cached) s q1 q' where "fq_dispatch sid r q = Inr (True, [], q')" "same_but_counters q q1"
      "map_of (sid2cache q1) s = Some (cached_of s q)" "dealers_of s q = []" "sid = -1 \<or> s = sid"
      "q' = q1\<lparr>sid2cache := AList.update s (cached_of s q @ [r]) (sid2cache q1)\<rparr>"
  | (rejected) q' where "fq_dispatch sid r q = Inr (False, [], q')" "same_but_counters q q'"
      "if sid = -1 then sid2dealers q = [] \<and> sid2cache q = [] else dealers_of sid q = [] \<and> \<not> has_server sid q"
proof -
  from next_dealer_cases [OF assms, of sid] obtain d q1 where
    n: "next_dealer sid q = Inr (d, q1)" "same_but_counters q q1"
      "case d of Some d \<Rightarrow> serves sid d q | None \<Rightarrow> (if sid = -1 then sids q = [] else dealers_of sid q = [])"
    by blast
  show thesis
  proof (cases d)
    case (Some d')
    then show thesis using n served [of d' q1] by (simp add: fq_dispatch_def)
  next
    case None
    let ?s = "if sid = -1 then fst (hd (sid2cache q)) else sid"
    have no: "sid2dealers q = [] \<or> (sid \<noteq> -1 \<and> dealers_of sid q = [])"
      using n(3) None no_sids_no_dealers [OF assms] by (auto split: if_splits)
    then have dz: "dealers_of ?s q = []" by (auto simp: dealers_of_def)
    then have dm: "map_of (sid2dealers q1) ?s = None"
      using assms n(2) by (auto simp: dealers_of_def same_but_counters_def fq_inv_def split: option.splits)
    show thesis
    proof (cases "(sid = -1 \<and> sid2cache q = []) \<or> map_of (sid2cache q) ?s = None")
      case True
      then have "fq_dispatch sid r q = Inr (False, [], q1)"
        using n None dm by (auto simp: fq_dispatch_def fq_push_request_def same_but_counters_def Let_def)
      moreover have "if sid = -1 then sid2dealers q = [] \<and> sid2cache q = [] else dealers_of sid q = [] \<and> \<not> has_server sid q"
        using True no n(3) None no_sids_no_dealers [OF assms]
        by (cases "sid2cache q") (auto simp: has_server_def split: if_splits)
      ultimately show thesis using n(2) rejected by blast
    next
      case False
      then obtain rs where rs: "map_of (sid2cache q) ?s = Some rs" by auto
      have "fq_dispatch sid r q = Inr (True, [], q1\<lparr>sid2cache := AList.update ?s (rs @ [r]) (sid2cache q1)\<rparr>)"
        using n None dm False rs by (auto simp: fq_dispatch_def fq_push_request_def same_but_counters_def Let_def)
      then show thesis using n(2) rs dz cached [of _ q1 ?s]
        by (auto simp: cached_of_def same_but_counters_def)
    qed
  qed
qed

section \<open>Every operation keeps the invariant\<close>

definition keeps_ok :: "('d, 'r) fq_event \<Rightarrow> ('d, 'r) fq_sys \<Rightarrow> bool" where
  "keeps_ok e s \<longleftrightarrow> (\<exists>t. fq_exec e s = Inr t \<and> fq_inv (fst t) \<and> (log_ok s \<longrightarrow> log_ok t))"

lemma add_server_keeps: "fq_inv q \<Longrightarrow> \<not> has_server sid q \<Longrightarrow> keeps_ok (Add_server sid) (q, l)"
  by (auto simp: keeps_ok_def fq_add_server_def has_server_def fq_inv_def dealers_of_def cached_of_def
      log_ok_def all_cached_def map_of_eq_None_iff split: option.splits)

lemma remove_server_keeps:
  assumes "fq_inv q" "has_server sid q"
  shows "keeps_ok (Remove_server sid) (q, l)"
proof -
  obtain rs where rs: "map_of (sid2cache q) sid = Some rs" using assms(2) by (auto simp: has_server_def)
  have d: "distinct (map fst (sid2cache q))" using assms(1) by (simp add: fq_inv_def)
  have "fq_inv (q\<lparr>sid2cache := AList.delete sid (sid2cache q)\<rparr>)"
    using assms(1) unfolding fq_inv_def
    by (auto simp: dealers_of_def cached_of_def delete_conv distinct_delete split: option.splits)
  then show ?thesis using rs concat_delete [OF rs d]
    by (auto simp: keeps_ok_def fq_remove_server_def log_ok_def all_cached_def add.assoc add.commute add.left_commute)
qed

lemma count_sids: "fq_inv q \<Longrightarrow> count (mset (sids q)) s = length (dealers_of s q)"
  unfolding fq_inv_def by blast

lemma add_dealer_state:
  assumes "fq_inv q" "d \<notin> set (dealers_of sid q)" "fq_add_server_dealer sid d q = (out, q')"
  shows "map_of (sid2dealers q') = (map_of (sid2dealers q))(sid \<mapsto> dealers_of sid q @ [d])"
    "sids q' = sids q @ [sid]" "distinct (map fst (sid2dealers q'))" "distinct (map fst (sid2cache q'))"
    "cached_of s q' = (if s = sid then [] else cached_of s q)"
    "out = map (\<lambda>r. (d, r)) (cached_of sid q)"
    "all_cached q' + mset (cached_of sid q) = all_cached q"
proof -
  have dist: "distinct (map fst (sid2cache q))" "distinct (map fst (sid2dealers q))"
    using assms(1) by (simp_all add: fq_inv_def)
  note defs = fq_add_server_dealer_def Let_def dealers_of_def cached_of_def
  show "map_of (sid2dealers q') = (map_of (sid2dealers q))(sid \<mapsto> dealers_of sid q @ [d])"
    using assms(3) by (auto simp: defs update_conv split: option.splits)
  show "sids q' = sids q @ [sid]" "out = map (\<lambda>r. (d, r)) (cached_of sid q)"
    using assms(3) by (auto simp: defs split: option.splits)
  show "distinct (map fst (sid2dealers q'))"
    using assms(3) dist(2)
    by (auto simp: defs distinct_update map_of_eq_None_iff split: option.splits)
  show "distinct (map fst (sid2cache q'))" "cached_of s q' = (if s = sid then [] else cached_of s q)"
    using assms(3) dist by (auto simp: defs update_conv distinct_update split: option.splits)
  show "all_cached q' + mset (cached_of sid q) = all_cached q"
    using assms(3) concat_update [of "sid2cache q" sid _ "[]"] dist
    by (auto simp: defs all_cached_def split: option.splits)
qed

lemma add_dealer_keeps:
  assumes inv: "fq_inv q" and new: "d \<notin> set (dealers_of sid q)"
  shows "keeps_ok (Add_dealer sid d) (q, l)"
proof -
  obtain out q' where a: "fq_add_server_dealer sid d q = (out, q')" by fastforce
  note st = add_dealer_state [OF inv new a]
  have ds: "dealers_of s q' = (if s = sid then dealers_of sid q @ [d] else dealers_of s q)" for s
    by (simp add: dealers_of_def st(1))
  have ok: "map_of (sid2dealers q) s = Some xs \<Longrightarrow> xs \<noteq> [] \<and> distinct xs" for s xs
    using inv unfolding fq_inv_def by blast
  have "distinct (dealers_of sid q)" using ok by (auto simp: dealers_of_def split: option.splits)
  then have "map_of (sid2dealers q') s = Some xs \<Longrightarrow> xs \<noteq> [] \<and> distinct xs" for s xs
    using ok new by (auto simp: st(1) split: if_splits)
  moreover have "count (mset (sids q')) s = length (dealers_of s q')" for s
    using count_sids [OF inv, of s] by (simp add: st(2) ds)
  moreover have "dealers_of s q' \<noteq> [] \<longrightarrow> cached_of s q' = []" for s
    using inv unfolding fq_inv_def by (auto simp: st(5) ds)
  ultimately have "fq_inv q'" unfolding fq_inv_def using st(3,4) by blast
  moreover have "mset (map snd out) + all_cached q' = all_cached q"
    by (simp add: st(6) comp_def st(7) [symmetric] add.commute)
  ultimately show ?thesis
    by (auto simp: keeps_ok_def a log_ok_def add.assoc add.commute add.left_commute)
qed

lemma remove_dealer_keeps:
  assumes inv: "fq_inv q" and mem: "d \<in> set (dealers_of sid q)"
  shows "keeps_ok (Remove_dealer sid d) (q, l)"
proof -
  from mem obtain ds where ds: "map_of (sid2dealers q) sid = Some ds" "d \<in> set ds" "dealers_of sid q = ds"
    by (cases "map_of (sid2dealers q) sid") (auto simp: dealers_of_def)
  have ok: "map_of (sid2dealers q) s = Some xs \<Longrightarrow> xs \<noteq> [] \<and> distinct xs" for s xs
    using inv unfolding fq_inv_def by blast
  define ds1 where "ds1 = remove_dealer_from d 0 ds"
  have m: "mset ds1 + {#d#} = mset ds" using remove_dealer_mset [of ds d 0] ok ds by (auto simp: ds1_def)
  then have len: "Suc (length ds1) = length ds" by (metis Suc_eq_plus1 size_mset size_union size_single)
  have "mset (ds1 @ [d]) = mset ds" using m by simp
  then have dist1: "distinct ds1" using ok [OF ds(1)] mset_eq_imp_distinct_iff by (metis distinct_append)
  let ?ss = "remove_sid_from sid 0 (sids q)"
  let ?t = "if ds1 = [] then AList.delete sid (sid2dealers q) else AList.update sid ds1 (sid2dealers q)"
  let ?q = "q\<lparr>sid2dealers := ?t, sids := ?ss\<rparr>"
  have mt: "map_of ?t = (map_of (sid2dealers q))(sid := if ds1 = [] then None else Some ds1)"
    by (auto simp: delete_conv update_conv)
  have dq: "dealers_of s ?q = (if s = sid then ds1 else dealers_of s q)" for s
    by (simp add: dealers_of_def mt)
  have cq: "cached_of s ?q = cached_of s q" for s by (simp add: cached_of_def)
  have "sid \<in> set (sids q)" using count_sids [OF inv, of sid] ds by (metis count_mset_0_iff length_0_conv list.set(1) empty_iff)
  then have "count (mset ?ss) s + one_if (s = sid) = count (mset (sids q)) s" for s
    using remove_sid_mset [of sid 0 "sids q" s] by simp
  then have c: "count (mset ?ss) s + one_if (s = sid) = length (dealers_of s q)" for s
    using count_sids [OF inv, of s] by simp
  have "fq_inv ?q"
  proof (rule fq_invI)
    show "distinct (map fst (sid2dealers ?q))" "distinct (map fst (sid2cache ?q))"
      using inv by (auto simp: fq_inv_def distinct_update distinct_delete)
    show "count (mset (sids ?q)) s = length (dealers_of s ?q)" for s
      using c [of s] len ds(3) unfolding dq by (cases "s = sid") auto
    fix s xs
    assume "map_of (sid2dealers ?q) s = Some xs"
    then show "xs \<noteq> [] \<and> distinct xs" using ok dist1 by (simp add: mt split: if_splits)
  next
    fix s
    assume "dealers_of s ?q \<noteq> []"
    moreover have "dealers_of s q \<noteq> [] \<longrightarrow> cached_of s q = []" using inv unfolding fq_inv_def by blast
    ultimately show "cached_of s ?q = []" using mem unfolding cq dq by (cases "s = sid") auto
  qed
  then show ?thesis using ds(1)
    by (auto simp: keeps_ok_def fq_remove_server_dealer_def ds1_def Let_def log_ok_def all_cached_def)
qed

lemma push_keeps:
  assumes inv: "fq_inv q"
  shows "keeps_ok (Push sid r) (q, l)"
  using inv
proof (cases rule: dispatch_cases [of q sid r])
  case (served d q')
  then have "fq_inv q'" using inv same_inv by blast
  moreover have "all_cached q' = all_cached q" using served(2) by (simp add: same_but_counters_def all_cached_def)
  ultimately show ?thesis using served(1) by (auto simp: keeps_ok_def log_ok_def)
next
  case (cached s q1 q')
  have inv1: "fq_inv q1" using inv same_inv cached(2) by blast
  have dist: "distinct (map fst (sid2cache q1))" using inv1 by (simp add: fq_inv_def)
  have "fq_inv q'" using inv1 cached(2,4) unfolding fq_inv_def cached(6)
    by (auto simp: dealers_of_def cached_of_def update_conv distinct_update same_but_counters_def)
  moreover have "all_cached q' = all_cached q + {#r#}"
    using concat_update [OF cached(3) dist, of "cached_of s q @ [r]"] cached(2)
    by (simp add: all_cached_def cached(6) same_but_counters_def)
  ultimately show ?thesis using cached(1) by (auto simp: keeps_ok_def log_ok_def)
next
  case (rejected q')
  then have "fq_inv q'" using inv same_inv by blast
  moreover have "all_cached q' = all_cached q" using rejected(2) by (simp add: same_but_counters_def all_cached_def)
  ultimately show ?thesis using rejected(1) by (auto simp: keeps_ok_def log_ok_def)
qed

lemma map_of_perm:
  assumes "mset xs = mset ys" "distinct (map fst ys)"
  shows "map_of xs = map_of ys" "distinct (map fst xs)"
proof -
  show d: "distinct (map fst xs)" using assms mset_eq_imp_distinct_iff by (metis mset_map)
  show "map_of xs = map_of ys" using map_of_inject_set [OF d assms(2)] assms(1) by (metis set_mset_mset)
qed

lemma rehash_keeps:
  assumes "fq_inv q" "mset ds = mset (sid2dealers q)" "mset cs = mset (sid2cache q)"
  shows "keeps_ok (Rehash ds cs) (q, l)"
proof -
  have d: "distinct (map fst (sid2dealers q))" "distinct (map fst (sid2cache q))"
    using assms(1) by (simp_all add: fq_inv_def)
  note p = map_of_perm [OF assms(2) d(1)] map_of_perm [OF assms(3) d(2)]
  have "mset (concat (map snd xs)) = sum_mset (image_mset (\<lambda>p. mset (snd p)) (mset xs))"
    for xs :: "(int \<times> 'b list) list"
    by (induction xs) auto
  then have "mset (concat (map snd cs)) = mset (concat (map snd (sid2cache q)))"
    using assms(3) by metis
  moreover have "fq_inv (q\<lparr>sid2dealers := ds, sid2cache := cs\<rparr>)"
    using assms(1) p unfolding fq_inv_def by (simp add: dealers_of_def cached_of_def)
  ultimately show ?thesis by (simp add: keeps_ok_def log_ok_def all_cached_def)
qed

lemma exec_keeps:
  assumes "fq_inv q" "fq_allowed e q" "fq_exec e (q, l) = Inr t"
  shows "keeps_ok e (q, l)"
proof (cases e)
  case (Add_server sid)
  then have "\<not> has_server sid q" using assms(3) by (auto simp: fq_add_server_def has_server_def scheck_def split: if_splits)
  then show ?thesis using add_server_keeps [OF assms(1)] Add_server by simp
next
  case (Remove_server sid)
  then have "has_server sid q" using assms(3) by (auto simp: fq_remove_server_def has_server_def split: option.splits)
  then show ?thesis using remove_server_keeps [OF assms(1)] Remove_server by simp
qed (use assms in \<open>auto intro: add_dealer_keeps remove_dealer_keeps push_keeps rehash_keeps\<close>)

lemma exec_aborts:
  assumes "fq_inv q"
  shows "(\<exists>t. fq_exec e (q, l) = Inr t) \<longleftrightarrow> \<not> fq_aborts e q"
proof (cases e)
  case (Remove_dealer sid d)
  have "map_of (sid2dealers q) sid \<noteq> Some []" using assms unfolding fq_inv_def by blast
  then show ?thesis using Remove_dealer
    by (cases "map_of (sid2dealers q) sid") (auto simp: fq_remove_server_dealer_def dealers_of_def Let_def)
next
  case (Push sid r)
  then show ?thesis using push_keeps [OF assms, of sid r l] by (auto simp: keeps_ok_def)
qed (auto simp: fq_add_server_def fq_remove_server_def has_server_def scheck_def split: prod.split option.splits)

lemma fq_invariant: "inductive_invariant fq_init fq_step (\<lambda>s. fq_inv (fst s) \<and> log_ok s)"
proof
  fix s :: "('d, 'r) fq_sys"
  assume "fq_init s"
  then show "fq_inv (fst s) \<and> log_ok s"
    by (auto simp: fq_init_def fq_new_def fq_inv_def log_ok_def all_cached_def dealers_of_def)
next
  fix s t :: "('d, 'r) fq_sys"
  assume s: "fq_inv (fst s) \<and> log_ok s" and "fq_step s t"
  from this(2) show "fq_inv (fst t) \<and> log_ok t"
  proof cases
    case (1 e)
    then show ?thesis using s exec_keeps [of "fst s" e "snd s" t] by (auto simp: keeps_ok_def)
  qed
qed

lemmas fq_reach = inductive_invariant.inv_reach [OF fq_invariant]

section \<open>Properties\<close>

text \<open>C15. Over every sequence of operations that did not abort and in which a dealer was new when it was added and
  present when it was removed: every request that was pushed is, exactly once, delivered to a dealer, rejected, dropped
  with a removed server, or cached; nothing is cached for a server that has a dealer; and the next operation aborts
  exactly when it adds a server that is there, removes one that is not, or removes a dealer of a server that has none.
  In particular a request never fails a check and no access leaves a list.\<close>

theorem fair_queue_conserves:
  assumes "reach fq_init fq_step s"
  shows "(\<forall>e. (\<exists>t. fq_exec e s = Inr t) \<longleftrightarrow> \<not> fq_aborts e (fst s)) \<and>
    mset (pushed (snd s)) =
      mset (map snd (delivered (snd s))) + mset (rejected (snd s)) + mset (dropped (snd s)) + all_cached (fst s) \<and>
    (\<forall>sid. dealers_of sid (fst s) \<noteq> [] \<longrightarrow> cached_of sid (fst s) = [])"
proof (intro conjI)
  have inv: "fq_inv (fst s)" "log_ok s" using fq_reach [OF assms] by auto
  show "\<forall>e. (\<exists>t. fq_exec e s = Inr t) \<longleftrightarrow> \<not> fq_aborts e (fst s)"
    using exec_aborts [OF inv(1), of _ "snd s"] unfolding prod.collapse by blast
  show "mset (pushed (snd s)) =
      mset (map snd (delivered (snd s))) + mset (rejected (snd s)) + mset (dropped (snd s)) + all_cached (fst s)"
    using inv(2) by (simp add: log_ok_def)
  show "\<forall>sid. dealers_of sid (fst s) \<noteq> [] \<longrightarrow> cached_of sid (fst s) = []"
    using inv(1) by (simp add: fq_inv_def)
qed

text \<open>A request goes to one dealer of the server it names, or of any server if it names none; it is cached
  only for a registered server without dealer, and rejected only if there is no such server.\<close>

theorem fair_queue_dispatch:
  assumes "reach fq_init fq_step s"
  shows "\<exists>taken out q'. fq_dispatch sid r (fst s) = Inr (taken, out, q') \<and>
    (if \<not> taken
     then out = [] \<and> all_cached q' = all_cached (fst s) \<and>
          (if sid = -1 then sid2dealers (fst s) = [] \<and> sid2cache (fst s) = []
           else dealers_of sid (fst s) = [] \<and> \<not> has_server sid (fst s))
     else if out = []
     then \<exists>srv. (sid = -1 \<or> srv = sid) \<and> has_server srv (fst s) \<and> dealers_of srv (fst s) = [] \<and>
          cached_of srv q' = cached_of srv (fst s) @ [r]
     else \<exists>d. out = [(d, r)] \<and> serves sid d (fst s))"
proof -
  have inv: "fq_inv (fst s)" using fq_reach [OF assms] by auto
  then show ?thesis
  proof (cases rule: dispatch_cases [of "fst s" sid r])
    case (served d q')
    then show ?thesis by auto
  next
    case (cached srv q1 q')
    then have "has_server srv (fst s)" "cached_of srv q' = cached_of srv (fst s) @ [r]"
      by (auto simp: has_server_def same_but_counters_def cached_of_def update_conv)
    then show ?thesis using cached by auto
  next
    case (rejected q')
    then have "all_cached q' = all_cached (fst s)" by (simp add: same_but_counters_def all_cached_def)
    then show ?thesis using rejected by auto
  qed
qed

text \<open>Repeated calls of \<open>next\<close> by one thread.\<close>

fun next_dealers :: "nat \<Rightarrow> int \<Rightarrow> ('d, 'r) fair_queue \<Rightarrow> 'd option list res" where
  "next_dealers 0 sid q = Inr []"
| "next_dealers (Suc n) sid q =
     rbind (next_dealer sid q) (\<lambda>(d, q1). rbind (next_dealers n sid q1) (\<lambda>ds. Inr (d # ds)))"

text \<open>The index after a call, from the index before it.\<close>

definition rr_next :: "nat \<Rightarrow> nat \<Rightarrow> nat" where
  "rr_next n i = (if i + 1 < n then i + 1 else 0)"

lemma next_dealer_index:
  assumes "map_of (sid2dealers q) sid = Some ds" "ds \<noteq> []" "sid \<noteq> -1"
  shows "\<exists>i. next_dealer sid q = Inr (Some (ds ! unat i), q\<lparr>dealer_id_rr_index := i\<rparr>) \<and> unat i < length ds \<and>
    (unat (dealer_id_rr_index q) < length ds \<longrightarrow> length ds < 2 ^ 64 \<longrightarrow>
       unat i = rr_next (length ds) (unat (dealer_id_rr_index q)))"
proof -
  let ?w = "dealer_id_rr_index q"
  define i where "i = (if length ds \<le> unat (?w + 1) then 0 else ?w + 1)"
  have n: "next_dealer sid q = Inr (Some (ds ! unat i), q\<lparr>dealer_id_rr_index := i\<rparr>)" "unat i < length ds"
    using assms by (auto simp: next_dealer_def Let_def i_def)
  have "unat i = rr_next (length ds) (unat ?w)" if "unat ?w < length ds" "length ds < 2 ^ 64"
  proof -
    have "unat (?w + 1) = unat ?w + 1"
      using that by (subst unat_word_ariths) simp
    then show ?thesis by (simp add: i_def rr_next_def)
  qed
  with n show ?thesis by blast
qed

lemma rr_next_mod: "i < n \<Longrightarrow> rr_next n i = (i + 1) mod n"
  by (cases "i + 1 = n") (auto simp: rr_next_def)

lemma next_dealers_cycle:
  assumes "map_of (sid2dealers q) sid = Some ds" "ds \<noteq> []" "sid \<noteq> -1" "length ds < 2 ^ 64"
    "unat (dealer_id_rr_index q) < length ds"
  shows "next_dealers n sid q = Inr (map (\<lambda>k. Some (ds ! ((unat (dealer_id_rr_index q) + 1 + k) mod length ds))) [0..<n])"
  using assms(1,5)
proof (induction n arbitrary: q)
  case (Suc n)
  from next_dealer_index [OF Suc.prems(1) assms(2,3)] assms(4) Suc.prems(2) obtain i where
    i: "next_dealer sid q = Inr (Some (ds ! unat i), q\<lparr>dealer_id_rr_index := i\<rparr>)" "unat i < length ds"
      "unat i = (unat (dealer_id_rr_index q) + 1) mod length ds"
    by (auto simp: rr_next_mod)
  have e: "(unat i + 1 + k) mod length ds = (unat (dealer_id_rr_index q) + 1 + Suc k) mod length ds" for k
    unfolding i(3) by (metis Suc_eq_plus1 add.assoc add_Suc_right mod_add_left_eq plus_1_eq_Suc)
  have "next_dealers n sid (q\<lparr>dealer_id_rr_index := i\<rparr>) =
      Inr (map (\<lambda>k. Some (ds ! ((unat i + 1 + k) mod length ds))) [0..<n])"
    using Suc.IH [of "q\<lparr>dealer_id_rr_index := i\<rparr>"] Suc.prems i(2) by simp
  then show ?case using i(1,3) unfolding e
    by (simp add: upt_conv_Cons map_Suc_upt [symmetric] del: upt_Suc)
qed simp

text \<open>As many calls of \<open>next\<close> for one server as it has dealers choose every dealer exactly once, whatever
  the uninitialised counter holds at first: the results are the dealers in cyclic order.\<close>

theorem next_round_robin:
  assumes "map_of (sid2dealers q) sid = Some ds" "ds \<noteq> []" "sid \<noteq> -1" "length ds < 2 ^ 64"
  shows "\<exists>k. next_dealers (length ds) sid q = Inr (map Some (rotate k ds))"
proof -
  from next_dealer_index [OF assms(1,2,3)] obtain i where
    i: "next_dealer sid q = Inr (Some (ds ! unat i), q\<lparr>dealer_id_rr_index := i\<rparr>)" "unat i < length ds"
    by blast
  obtain n where n: "length ds = Suc n" using assms(2) by (cases ds) auto
  have "next_dealers (length ds) sid q =
      Inr (Some (ds ! unat i) # map (\<lambda>k. Some (ds ! ((unat i + 1 + k) mod length ds))) [0..<n])"
    using next_dealers_cycle [of "q\<lparr>dealer_id_rr_index := i\<rparr>" sid ds n] assms i by (simp add: n)
  moreover have "Some (ds ! unat i) # map (\<lambda>k. Some (ds ! ((unat i + 1 + k) mod length ds))) [0..<n] =
      map Some (rotate (unat i) ds)" (is "?l = ?r")
  proof (rule nth_equalityI)
    show "length ?l = length ?r" by (simp add: n)
    fix j
    assume "j < length ?l"
    then have "j < length ds" by (simp add: n)
    then show "?l ! j = ?r ! j" using i(2) by (cases j) (auto simp: nth_rotate n)
  qed
  ultimately show ?thesis by auto
qed

section \<open>Instances\<close>

definition demo_fq :: "(nat, string) fair_queue" where
  "demo_fq = \<lparr>sid2dealers = [(3, [7, 8])], sids = [3, 3], sids_rr_index = 0, dealer_id_rr_index = 41, sid2cache = [(3, [])]\<rparr>"

theorem next_round_robin_witness:
  "\<exists>k. next_dealers (length [7, 8 :: nat]) 3 demo_fq = Inr (map Some (rotate k [7, 8]))"
  using next_round_robin [of demo_fq 3 "[7, 8]"] by (simp add: demo_fq_def)

text \<open>A request is cached before the server has a dealer; the first dealer gets it.\<close>

definition demo_cached :: "(nat, string) fq_sys" where
  "demo_cached = (\<lparr>sid2dealers = [], sids = [], sids_rr_index = 0, dealer_id_rr_index = 41, sid2cache = [(3, [''req''])]\<rparr>,
     \<lparr>pushed = [''req''], delivered = [], rejected = [], dropped = []\<rparr>)"

lemma demo_cached_reach: "reach fq_init fq_step demo_cached"
proof -
  let ?l = "\<lparr>pushed = [], delivered = [], rejected = [], dropped = []\<rparr> :: (nat, string) fq_log"
  have "reach fq_init fq_step (fq_new 0 41, ?l)" by (rule reach_init) (auto simp: fq_init_def)
  then have "reach fq_init fq_step ((fq_new 0 41)\<lparr>sid2cache := [(3, [])]\<rparr>, ?l)"
    by (rule reach_step)
      (rule fq_step.intros [of "Add_server 3"], simp_all add: fq_new_def has_server_def fq_add_server_def)
  then show ?thesis
    by (rule reach_step)
      (rule fq_step.intros [of "Push 3 ''req''"],
        simp_all add: fq_new_def demo_cached_def fq_dispatch_def next_dealer_def fq_push_request_def)
qed

theorem fair_queue_conserves_witness:
  "(\<exists>t. fq_exec (Add_dealer 3 7) demo_cached = Inr t \<and> delivered (snd t) = [(7, ''req'')]) \<and>
   \<not> (\<exists>t. fq_exec (Add_server 3) demo_cached = Inr t) \<and>
   mset (pushed (snd demo_cached)) = all_cached (fst demo_cached)"
proof -
  note c = fair_queue_conserves [OF demo_cached_reach]
  obtain t where t: "fq_exec (Add_dealer 3 7) demo_cached = Inr t" using conjunct1 [OF c, rule_format, of "Add_dealer 3 7"] by auto
  have "\<not> (\<exists>t. fq_exec (Add_server 3) demo_cached = Inr t)"
    using conjunct1 [OF c, rule_format, of "Add_server 3"] by (simp add: demo_cached_def has_server_def)
  then show ?thesis using t conjunct1 [OF conjunct2 [OF c]] by (auto simp: demo_cached_def fq_add_server_dealer_def)
qed

theorem fair_queue_dispatch_witness:
  "\<exists>out q'. fq_dispatch (-1) ''more'' (fst demo_cached) = Inr (True, out, q') \<and> cached_of 3 q' = [''req'', ''more'']"
  using fair_queue_dispatch [OF demo_cached_reach, of "-1" "''more''"]
  by (auto simp: demo_cached_def fq_dispatch_def next_dealer_def fq_push_request_def cached_of_def)

end
