(* ===== verification/Rpc_Context.thy ===== *)
theory Rpc_Context
  imports Fair_Queue Rpc_Message
begin

text \<open>
  \<open>RpcContext\<close> of \<open>src/rpc/RpcContext.h\<close> and \<open>src/rpc/RpcContext.cpp\<close>: the tables of one node, the choice of
  the connection for a request, the delivery of requests and responses to dealers, and the updates that follow
  the master. The channels of \<open>Dealer\<close> (\<open>src/rpc/Dealer.h\<close>) that the context pushes to are here as well.

  Front ends and dealers are objects behind pointers: a pointer is a number, \<open>frontends\<close> and \<open>dealers\<close> are the
  memory, and the tables hold pointers, so that a change of a front end is seen through all of them. A message,
  request or response is its head and a body of any type, \<open>None\<close> for an empty archive. A channel is the list
  of the packets in it. A message handed to a front end is appended to \<open>outgoing\<close>; a packet that is dropped with
  a warning is appended to \<open>lost\<close>. The time in nanoseconds and the result of \<open>rand()\<close> are arguments, read once
  per operation. \<open>epoll\<close> is the set of descriptors registered with the kernel: registering twice and removing
  what is not there fail, and so does removing a descriptor that is not open, as \<open>epoll_ctl\<close> documents; a descriptor
  is open while the socket of a front end has it. What a peer sends when it connects is an argument of \<open>ctx_accept\<close>,
  the descriptor of an event and the messages read from it are arguments of \<open>handle_message_event\<close>. Operations take the lock of the context, so they are atomic.
  A \<open>std::unordered_map\<close> is an association list.
\<close>

section \<open>State\<close>

type_synonym 'b packet = "rpc_head \<times> 'b option"

record comm_info =
  global_rank :: "16 word"
  endpoint :: string

record server_info =
  server_id :: "32 word"
  server_rank :: "16 word"

record rpc_service_info =
  rpc_service_name :: string
  service_rpc_id :: "32 word"
  servers :: "server_info list"

abbreviation FRONTEND_DISCONNECT :: "32 word" where "FRONTEND_DISCONNECT \<equiv> 1"
abbreviation FRONTEND_CONNECT :: "32 word" where "FRONTEND_CONNECT \<equiv> 2"
abbreviation FRONTEND_EPIPE :: "32 word" where "FRONTEND_EPIPE \<equiv> 4"

record frontend =
  fe_fds :: "nat list option"
  fe_info :: comm_info
  is_client_socket :: bool
  fe_epfd :: "nat option"
  epipe_time :: int
  fe_state :: "32 word"

record 'b dealer =
  d_id :: "32 word"
  d_rpc_id :: "32 word"
  d_rank :: "16 word"
  server_req_ch :: "'b packet list option"
  client_resp_ch :: "'b packet list option"
  initialized_server :: bool
  initialized_client :: bool
  d_terminated :: bool
  available_rank :: "16 word"
  local_servers :: "32 word set"
  d_server :: "nat option"
  d_client :: "nat option"

record 'b rpc_ctx =
  self_info :: comm_info
  server_backend :: "(32 word \<times> (nat, 'b packet) fair_queue) list"
  client_backend :: "(32 word \<times> nat) list"
  to_del_client_sockets :: "16 word set"
  client_sockets :: "(16 word \<times> nat) list"
  server_sockets :: "(16 word \<times> nat) list"
  fd_map :: "(nat \<times> nat) list"
  rpc_info :: "(string \<times> rpc_service_info) list"
  rpc_server_info :: "(32 word \<times> (32 word \<times> server_info) list) list"
  rpc_server_frontend :: "(32 word \<times> nat list) list"
  rpc_server_id_frontend :: "(64 word \<times> nat) list"
  epfds :: "nat list"
  event_idx :: nat
  n_events :: int
  epoll :: "(nat \<times> nat) set"
  frontends :: "nat \<Rightarrow> frontend"
  next_frontend :: nat
  dealers :: "nat \<Rightarrow> 'b dealer"
  outgoing :: "(nat \<times> 'b packet \<times> bool) list"
  lost :: "'b packet list"

definition frontend_new :: "comm_info \<Rightarrow> bool \<Rightarrow> frontend" where
  "frontend_new info is_client = \<lparr>fe_fds = None, fe_info = info, is_client_socket = is_client, fe_epfd = None,
     epipe_time = 0, fe_state = FRONTEND_DISCONNECT\<rparr>"

section \<open>Dealer channels\<close>

definition dealer_push_request :: "nat \<Rightarrow> 'b packet \<Rightarrow> 'b rpc_ctx \<Rightarrow> 'b rpc_ctx res" where
  "dealer_push_request p req c =
     rbind (scheck (initialized_server (dealers c p))) (\<lambda>_.
       case server_req_ch (dealers c p) of
         None \<Rightarrow> Inl Out_of_bounds
       | Some ch \<Rightarrow> Inr (c\<lparr>dealers := (dealers c)(p := (dealers c p)\<lparr>server_req_ch := Some (ch @ [req])\<rparr>)\<rparr>))"

definition dealer_push_response :: "nat \<Rightarrow> 'b packet \<Rightarrow> 'b rpc_ctx \<Rightarrow> 'b rpc_ctx res" where
  "dealer_push_response p resp c =
     rbind (scheck (initialized_client (dealers c p))) (\<lambda>_.
       case client_resp_ch (dealers c p) of
         None \<Rightarrow> Inl Out_of_bounds
       | Some ch \<Rightarrow> Inr (c\<lparr>dealers := (dealers c)(p := (dealers c p)\<lparr>client_resp_ch := Some (ch @ [resp])\<rparr>)\<rparr>))"

fun deliver :: "(nat \<times> 'b packet) list \<Rightarrow> 'b rpc_ctx \<Rightarrow> 'b rpc_ctx res" where
  "deliver [] c = Inr c"
| "deliver ((p, req) # out) c = rbind (dealer_push_request p req c) (deliver out)"

section \<open>Servers and dealers of this node\<close>

text \<open>A new \<open>FairQueue\<close> has two counters of unspecified value, \<open>ij\<close>.\<close>

definition backend_queue ::
  "32 word \<times> 64 word \<Rightarrow> 32 word \<Rightarrow> 'b rpc_ctx \<Rightarrow> (nat, 'b packet) fair_queue" where
  "backend_queue ij rid c =
     (case map_of (server_backend c) rid of None \<Rightarrow> fq_new (fst ij) (snd ij) | Some q \<Rightarrow> q)"

definition put_backend :: "32 word \<Rightarrow> (nat, 'b packet) fair_queue \<Rightarrow> 'b rpc_ctx \<Rightarrow> 'b rpc_ctx" where
  "put_backend rid q c = c\<lparr>server_backend := AList.update rid q (server_backend c)\<rparr>"

definition erase_if_empty :: "32 word \<Rightarrow> (nat, 'b packet) fair_queue \<Rightarrow> 'b rpc_ctx \<Rightarrow> 'b rpc_ctx" where
  "erase_if_empty rid q c =
     (if fq_empty q then c\<lparr>server_backend := AList.delete rid (server_backend c)\<rparr> else put_backend rid q c)"

definition end_add_server :: "32 word \<times> 64 word \<Rightarrow> 32 word \<Rightarrow> 32 word \<Rightarrow> 'b rpc_ctx \<Rightarrow> 'b rpc_ctx res" where
  "end_add_server ij rid s c =
     rbind (fq_add_server (sint s) (backend_queue ij rid c)) (\<lambda>q. Inr (put_backend rid q c))"

definition ctx_remove_server :: "32 word \<Rightarrow> 32 word \<Rightarrow> 'b rpc_ctx \<Rightarrow> 'b rpc_ctx res" where
  "ctx_remove_server rid s c =
     (case map_of (server_backend c) rid of
        None \<Rightarrow> Inl Check_failed
      | Some q \<Rightarrow> rbind (fq_remove_server (sint s) q) (\<lambda>(cached, q1).
          Inr (erase_if_empty rid q1 (c\<lparr>lost := lost c @ cached\<rparr>))))"

definition ctx_add_server_dealer ::
  "32 word \<times> 64 word \<Rightarrow> 32 word \<Rightarrow> 32 word \<Rightarrow> nat \<Rightarrow> 'b rpc_ctx \<Rightarrow> 'b rpc_ctx res" where
  "ctx_add_server_dealer ij rid s d c =
     (let (out, q) = fq_add_server_dealer (sint s) d (backend_queue ij rid c)
      in deliver out (put_backend rid q c))"

definition ctx_remove_server_dealer :: "32 word \<Rightarrow> 32 word \<Rightarrow> nat \<Rightarrow> 'b rpc_ctx \<Rightarrow> 'b rpc_ctx res" where
  "ctx_remove_server_dealer rid s d c =
     (case map_of (server_backend c) rid of
        None \<Rightarrow> Inl Check_failed
      | Some q \<Rightarrow> rbind (fq_remove_server_dealer (sint s) d q) (\<lambda>q1. Inr (erase_if_empty rid q1 c)))"

text \<open>\<open>emplace\<close> does not replace an entry.\<close>

definition emplace :: "'k \<Rightarrow> 'v \<Rightarrow> ('k \<times> 'v) list \<Rightarrow> ('k \<times> 'v) list" where
  "emplace k v al = (if map_of al k = None then al @ [(k, v)] else al)"

definition add_client_dealer :: "nat \<Rightarrow> 'b rpc_ctx \<Rightarrow> 'b rpc_ctx" where
  "add_client_dealer d c = c\<lparr>client_backend := emplace (d_id (dealers c d)) d (client_backend c)\<rparr>"

definition remove_client_dealer :: "nat \<Rightarrow> 'b rpc_ctx \<Rightarrow> 'b rpc_ctx" where
  "remove_client_dealer d c = c\<lparr>client_backend := AList.delete (d_id (dealers c d)) (client_backend c)\<rparr>"

section \<open>Choosing a front end\<close>

definition fe_available :: "int \<Rightarrow> frontend \<Rightarrow> bool" where
  "fe_available now f =
     (if and (fe_state f) FRONTEND_EPIPE \<noteq> 0
      then if and (fe_state f) FRONTEND_DISCONNECT \<noteq> 0 then now - epipe_time f > 10 * 10 ^ 9 else False
      else True)"

definition if_available :: "int \<Rightarrow> nat option \<Rightarrow> 'b rpc_ctx \<Rightarrow> nat option" where
  "if_available now p c =
     (case p of None \<Rightarrow> None | Some f \<Rightarrow> if fe_available now (frontends c f) then Some f else None)"

definition get_client_frontend_by_rank :: "int \<Rightarrow> 16 word \<Rightarrow> 'b rpc_ctx \<Rightarrow> nat option" where
  "get_client_frontend_by_rank now rank c = if_available now (map_of (client_sockets c) rank) c"

definition get_server_frontend_by_rank :: "int \<Rightarrow> 16 word \<Rightarrow> 'b rpc_ctx \<Rightarrow> nat option" where
  "get_server_frontend_by_rank now rank c = if_available now (map_of (server_sockets c) rank) c"

definition get_client_frontend_by_rpc_id :: "int \<Rightarrow> nat \<Rightarrow> 32 word \<Rightarrow> 'b rpc_ctx \<Rightarrow> nat option res" where
  "get_client_frontend_by_rpc_id now rand rid c =
     (case map_of (rpc_server_frontend c) rid of
        None \<Rightarrow> Inr None
      | Some v \<Rightarrow>
          if v = [] then Inl Out_of_bounds
          else
            let ret = v ! (rand mod length v)
            in Inr (if fe_available now (frontends c ret) then Some ret
                    else find (\<lambda>i. fe_available now (frontends c i)) v))"

definition rpc_sid_pack :: "32 word \<Rightarrow> 32 word \<Rightarrow> 64 word" where
  "rpc_sid_pack rid s = word_of_int (sint rid * 1000000007 + sint s)"

definition get_client_frontend_by_sid :: "int \<Rightarrow> 32 word \<Rightarrow> 32 word \<Rightarrow> 'b rpc_ctx \<Rightarrow> nat option" where
  "get_client_frontend_by_sid now rid s c =
     (case if_available now (map_of (rpc_server_id_frontend c) (rpc_sid_pack rid s)) c of
        Some f \<Rightarrow> Some f
      | None \<Rightarrow>
          (case map_of (rpc_server_info c) rid of
             None \<Rightarrow> None
           | Some m \<Rightarrow>
               (case map_of m s of
                  None \<Rightarrow> None
                | Some info \<Rightarrow> get_client_frontend_by_rank now (server_rank info) c)))"

section \<open>Delivery\<close>

text \<open>The head of \<open>RpcResponse(const rpc_head_t&)\<close>.\<close>

definition response_head :: "rpc_head \<Rightarrow> rpc_head" where
  "response_head h = rpc_head_new\<lparr>dest_rank := src_rank h, dest_dealer := src_dealer h, src_rank := dest_rank h,
     sid := sid h, rpc_id := rpc_id h\<rparr>"

definition push_request :: "'b packet \<Rightarrow> 'b rpc_ctx \<Rightarrow> 'b rpc_ctx res" where
  "push_request req c =
     (case map_of (server_backend c) (rpc_id (fst req)) of
        None \<Rightarrow> Inr (c\<lparr>lost := lost c @ [req]\<rparr>)
      | Some q \<Rightarrow>
          rbind (fq_dispatch (sint (sid (fst req))) req q) (\<lambda>(taken, out, q1).
            let c1 = put_backend (rpc_id (fst req)) q1 c
            in if taken then deliver out c1 else Inr (c1\<lparr>lost := lost c1 @ [req]\<rparr>)))"

definition push_response :: "'b packet \<Rightarrow> 'b rpc_ctx \<Rightarrow> 'b rpc_ctx res" where
  "push_response resp c =
     (case map_of (client_backend c) (dest_dealer (fst resp)) of
        None \<Rightarrow> Inr (c\<lparr>lost := lost c @ [resp]\<rparr>)
      | Some d \<Rightarrow> dealer_push_response d resp c)"

definition choose_frontend :: "int \<Rightarrow> nat \<Rightarrow> rpc_head \<Rightarrow> 'b rpc_ctx \<Rightarrow> nat option res" where
  "choose_frontend now rand h c =
     (if sid h \<noteq> -1 then Inr (get_client_frontend_by_sid now (rpc_id h) (sid h) c)
      else if dest_rank h \<noteq> -1 then Inr (get_client_frontend_by_rank now (dest_rank h) c)
      else get_client_frontend_by_rpc_id now rand (rpc_id h) c)"

definition ctx_send_request :: "int \<Rightarrow> nat \<Rightarrow> 'b packet \<Rightarrow> 'b rpc_ctx \<Rightarrow> (16 word \<times> 'b rpc_ctx) res" where
  "ctx_send_request now rand msg c =
     rbind (choose_frontend now rand (fst msg) c) (\<lambda>f.
       case f of
         None \<Rightarrow>
           rbind (push_response ((response_head (fst msg))\<lparr>error_code := ENOSUCHSERVER\<rparr>, None) c) (\<lambda>c1. Inr (-1, c1))
       | Some p \<Rightarrow>
           let ret = global_rank (fe_info (frontends c p))
           in if ret = global_rank (self_info c) then rbind (push_request msg c) (\<lambda>c1. Inr (ret, c1))
              else Inr (ret, c\<lparr>outgoing := outgoing c @ [(p, msg, True)]\<rparr>))"

definition ctx_send_response :: "int \<Rightarrow> 'b packet \<Rightarrow> bool \<Rightarrow> 'b rpc_ctx \<Rightarrow> 'b rpc_ctx" where
  "ctx_send_response now resp nonblock c =
     (case get_server_frontend_by_rank now (dest_rank (fst resp)) c of
        None \<Rightarrow> c\<lparr>lost := lost c @ [resp]\<rparr>
      | Some p \<Rightarrow>
          if and (fe_state (frontends c p)) FRONTEND_DISCONNECT \<noteq> 0 then c\<lparr>lost := lost c @ [resp]\<rparr>
          else c\<lparr>outgoing := outgoing c @ [(p, resp, nonblock)]\<rparr>)"

section \<open>Events and front ends\<close>

definition add_event :: "nat \<Rightarrow> nat \<Rightarrow> 'b rpc_ctx \<Rightarrow> 'b rpc_ctx" where
  "add_event fd epfd c =
     (let c1 = c\<lparr>n_events := n_events c + 1\<rparr>
      in if (epfd, fd) \<in> epoll c1 then c1\<lparr>n_events := n_events c1 - 1\<rparr>
         else c1\<lparr>epoll := insert (epfd, fd) (epoll c1)\<rparr>)"

text \<open>
  \<open>epoll_ctl(epfd, EPOLL_CTL_DEL, fd)\<close> as a value of \<open>errno\<close>, 0 for success: \<open>EBADF\<close> if one of the two is no open
  descriptor, \<open>ENOENT\<close> if \<open>fd\<close> is not registered.
\<close>

abbreviation ENOENT :: "32 word" where "ENOENT \<equiv> 2"
abbreviation EBADF :: "32 word" where "EBADF \<equiv> 9"

definition socket_fds :: "nat \<Rightarrow> 'b rpc_ctx \<Rightarrow> nat list" where
  "socket_fds p c = (case fe_fds (frontends c p) of None \<Rightarrow> [] | Some fds \<Rightarrow> fds)"

definition fd_open :: "nat \<Rightarrow> 'b rpc_ctx \<Rightarrow> bool" where
  "fd_open fd c \<longleftrightarrow> list_ex (\<lambda>p. fd \<in> set (socket_fds p c)) [0..<next_frontend c]"

definition epoll_ctl_del :: "nat \<Rightarrow> nat \<Rightarrow> 'b rpc_ctx \<Rightarrow> 32 word" where
  "epoll_ctl_del epfd fd c =
     (if epfd \<notin> set (epfds c) \<or> \<not> fd_open fd c then EBADF else if (epfd, fd) \<notin> epoll c then ENOENT else 0)"

definition del_event :: "nat \<Rightarrow> nat \<Rightarrow> 'b rpc_ctx \<Rightarrow> 'b rpc_ctx res" where
  "del_event fd epfd c =
     (if epoll_ctl_del epfd fd c = 0 then Inr (c\<lparr>epoll := epoll c - {(epfd, fd)}, n_events := n_events c - 1\<rparr>)
      else if epoll_ctl_del epfd fd c = ENOENT then Inr c
      else Inl Check_failed)"

fun del_events :: "nat list \<Rightarrow> nat \<Rightarrow> 'b rpc_ctx \<Rightarrow> 'b rpc_ctx res" where
  "del_events [] epfd c = Inr c"
| "del_events (fd # fds) epfd c = rbind (del_event fd epfd c) (del_events fds epfd)"

definition set_frontend :: "nat \<Rightarrow> frontend \<Rightarrow> 'b rpc_ctx \<Rightarrow> 'b rpc_ctx" where
  "set_frontend p f c = c\<lparr>frontends := (frontends c)(p := f)\<rparr>"

definition set_fe_state :: "nat \<Rightarrow> 32 word \<Rightarrow> 'b rpc_ctx \<Rightarrow> 'b rpc_ctx" where
  "set_fe_state p st c = set_frontend p ((frontends c p)\<lparr>fe_state := st\<rparr>) c"

text \<open>The function-static \<open>idx\<close> spreads the front ends over the epoll descriptors.\<close>

definition add_frontend_event :: "nat \<Rightarrow> 'b rpc_ctx \<Rightarrow> 'b rpc_ctx res" where
  "add_frontend_event p c =
     (case fe_fds (frontends c p) of
        None \<Rightarrow> Inl Out_of_bounds
      | Some [] \<Rightarrow> Inr c
      | Some fds \<Rightarrow>
          if epfds c = [] then Inl Out_of_bounds
          else
            let epfd = epfds c ! (event_idx c mod length (epfds c));
                c1 = (set_frontend p ((frontends c p)\<lparr>fe_epfd := Some epfd\<rparr>) c)\<lparr>event_idx := event_idx c + 1\<rparr>
            in Inr (fold (\<lambda>fd c. (add_event fd epfd c)\<lparr>fd_map := AList.update fd p (fd_map c)\<rparr>) fds c1))"

definition remove_frontend_event :: "nat \<Rightarrow> 'b rpc_ctx \<Rightarrow> 'b rpc_ctx res" where
  "remove_frontend_event p c =
     (case fe_epfd (frontends c p) of
        None \<Rightarrow> Inr c
      | Some epfd \<Rightarrow>
          (case fe_fds (frontends c p) of
             None \<Rightarrow> Inl Out_of_bounds
           | Some fds \<Rightarrow> del_events fds epfd c))"

definition remove_frontend :: "nat \<Rightarrow> 'b rpc_ctx \<Rightarrow> 'b rpc_ctx res" where
  "remove_frontend p c =
     rbind (remove_frontend_event p c) (\<lambda>c1.
       let f = frontends c1 p;
           c2 = c1\<lparr>fd_map := fold AList.delete (socket_fds p c1) (fd_map c1)\<rparr>;
           rank = global_rank (fe_info f)
       in Inr (if is_client_socket f then c2\<lparr>client_sockets := AList.delete rank (client_sockets c2)\<rparr>
               else c2\<lparr>server_sockets := AList.delete rank (server_sockets c2)\<rparr>))"

text \<open>
  The part of \<open>FrontEnd::connect\<close> and of \<open>accept\<close> that runs under the write lock once the socket with the
  descriptors \<open>fds\<close> is there.
\<close>

definition frontend_connected :: "nat \<Rightarrow> nat list \<Rightarrow> 'b rpc_ctx \<Rightarrow> 'b rpc_ctx res" where
  "frontend_connected p fds c =
     rbind (add_frontend_event p (set_frontend p ((frontends c p)\<lparr>fe_fds := Some fds\<rparr>) c)) (\<lambda>c1.
       Inr (set_fe_state p FRONTEND_CONNECT c1))"

text \<open>What \<open>FrontEnd::epipe\<close> does to the state before it hands its messages back, and after it.\<close>

definition epipe_begin :: "int \<Rightarrow> nat \<Rightarrow> 'b rpc_ctx \<Rightarrow> 'b rpc_ctx res" where
  "epipe_begin now p c =
     rbind (remove_frontend_event p (set_fe_state p FRONTEND_EPIPE c)) (\<lambda>c1.
       Inr (if is_client_socket (frontends c1 p)
            then set_frontend p ((frontends c1 p)\<lparr>epipe_time := now\<rparr>) c1 else c1))"

definition epipe_end :: "nat \<Rightarrow> 'b rpc_ctx \<Rightarrow> 'b rpc_ctx" where
  "epipe_end p c = set_fe_state p (or FRONTEND_DISCONNECT FRONTEND_EPIPE) c"

definition new_frontend :: "comm_info \<Rightarrow> bool \<Rightarrow> 'b rpc_ctx \<Rightarrow> nat \<times> 'b rpc_ctx" where
  "new_frontend info is_client c =
     (next_frontend c,
      set_frontend (next_frontend c) (frontend_new info is_client) (c\<lparr>next_frontend := next_frontend c + 1\<rparr>))"

definition accept_frontend :: "comm_info \<Rightarrow> nat list \<Rightarrow> 'b rpc_ctx \<Rightarrow> 'b rpc_ctx res" where
  "accept_frontend info fds c =
     (let (p, c0) = new_frontend info False c; rank = global_rank info
      in rbind (case map_of (server_sockets c0) rank of None \<Rightarrow> Inr c0 | Some old \<Rightarrow> remove_frontend old c0) (\<lambda>c1.
           frontend_connected p fds (c1\<lparr>server_sockets := emplace rank p (server_sockets c1)\<rparr>)))"

text \<open>
  \<open>accept\<close>: \<open>None\<close> if there is no socket or its handshake fails, otherwise the magic number and the \<open>CommInfo\<close> read
  from what the peer sent, and the descriptors. The rest runs as a task of its own under the write lock.
\<close>

definition ctx_accept :: "(16 word \<times> comm_info \<times> nat list) option \<Rightarrow> 'b rpc_ctx \<Rightarrow> 'b rpc_ctx res" where
  "ctx_accept conn c =
     (case conn of
        None \<Rightarrow> Inr c
      | Some (magic, info, fds) \<Rightarrow> rbind (scheck (magic = 0)) (\<lambda>_. accept_frontend info fds c))"

text \<open>
  \<open>handle_message_event\<close>, for the messages the socket hands out and the value \<open>alive\<close> it returns. The socket checks
  that the descriptor is one of its two (\<open>TcpSocket::handle_event\<close>).
\<close>

fun push_messages :: "'b packet list \<Rightarrow> 'b rpc_ctx \<Rightarrow> 'b rpc_ctx res" where
  "push_messages [] c = Inr c"
| "push_messages (msg # msgs) c =
     rbind (if dest_dealer (fst msg) = -1 then push_request msg c else push_response msg c) (push_messages msgs)"

definition handle_message_event :: "nat \<Rightarrow> 'b packet list \<Rightarrow> bool \<Rightarrow> 'b rpc_ctx \<Rightarrow> 'b rpc_ctx res" where
  "handle_message_event fd msgs alive c =
     (case map_of (fd_map c) fd of
        None \<Rightarrow> Inr c
      | Some f \<Rightarrow>
          rbind (scheck (fd \<in> set (socket_fds f c))) (\<lambda>_.
          rbind (push_messages msgs c) (\<lambda>c1.
            if alive then Inr c1
            else
              rbind (remove_frontend_event f c1) (\<lambda>c2.
                let c3 = set_fe_state f FRONTEND_EPIPE c2
                in if global_rank (fe_info (frontends c3 f)) \<in> to_del_client_sockets c3
                   then remove_frontend f c3 else Inr c3))))"

text \<open>An event for a descriptor that is in the table belongs to the present socket of its front end.\<close>

definition fd_current :: "nat \<Rightarrow> 'b rpc_ctx \<Rightarrow> bool" where
  "fd_current fd c \<longleftrightarrow> (case map_of (fd_map c) fd of None \<Rightarrow> True | Some f \<Rightarrow> fd \<in> set (socket_fds f c))"

section \<open>Following the master\<close>

definition get_comm_info :: "'b rpc_ctx \<Rightarrow> comm_info list" where
  "get_comm_info c = map (\<lambda>(rank, p). fe_info (frontends c p)) (server_sockets c)"

definition stale :: "comm_info list \<Rightarrow> (16 word \<times> nat) list \<Rightarrow> 'b rpc_ctx \<Rightarrow> nat list" where
  "stale list socks c =
     filter (\<lambda>p. global_rank (fe_info (frontends c p)) \<notin> global_rank ` set list) (map snd socks)"

fun remove_stale :: "int \<Rightarrow> nat list \<Rightarrow> 'b rpc_ctx \<Rightarrow> 'b rpc_ctx res" where
  "remove_stale now [] c = Inr c"
| "remove_stale now (p # to_del) c =
     rbind (if fe_available now (frontends c p)
            then Inr (c\<lparr>to_del_client_sockets := insert (global_rank (fe_info (frontends c p))) (to_del_client_sockets c)\<rparr>)
            else remove_frontend p c) (remove_stale now to_del)"

fun add_clients :: "comm_info list \<Rightarrow> 'b rpc_ctx \<Rightarrow> 'b rpc_ctx" where
  "add_clients [] c = c"
| "add_clients (info # to_add) c =
     (let (p, c1) = new_frontend info True c
      in add_clients to_add (c1\<lparr>client_sockets := emplace (global_rank info) p (client_sockets c1)\<rparr>))"

text \<open>\<open>again\<close> is what \<open>mc->get_comm_info\<close> returns when it is asked a second time.\<close>

definition update_comm_info :: "int \<Rightarrow> comm_info list \<Rightarrow> comm_info list \<Rightarrow> 'b rpc_ctx \<Rightarrow> 'b rpc_ctx res" where
  "update_comm_info now list again c =
     (let (known, del1) = (if stale list (server_sockets c) c = [] then (list, [])
                           else (again, stale again (server_sockets c) c));
          to_del = del1 @ stale known (client_sockets c) c
      in rbind (remove_stale now to_del c) (\<lambda>c1.
           Inr (add_clients (filter (\<lambda>i. map_of (client_sockets c1) (global_rank i) = None) list) c1)))"

definition known_servers :: "'b rpc_ctx \<Rightarrow> rpc_service_info \<Rightarrow> rpc_service_info" where
  "known_servers c info =
     info\<lparr>servers := filter (\<lambda>s. map_of (client_sockets c) (server_rank s) \<noteq> None) (servers info)\<rparr>"

definition register_server_tables ::
  "32 word \<Rightarrow> server_info \<Rightarrow> 'b rpc_ctx \<Rightarrow> 'b rpc_ctx res" where
  "register_server_tables rid s c =
     (case map_of (client_sockets c) (server_rank s) of
        None \<Rightarrow> Inl Out_of_bounds
      | Some p \<Rightarrow>
          let infos = (case map_of (rpc_server_info c) rid of None \<Rightarrow> [] | Some m \<Rightarrow> m);
              fes = (case map_of (rpc_server_frontend c) rid of None \<Rightarrow> [] | Some v \<Rightarrow> v);
              c1 = c\<lparr>rpc_server_info := AList.update rid (AList.update (server_id s) s infos) (rpc_server_info c),
                     rpc_server_frontend := AList.update rid (fes @ [p]) (rpc_server_frontend c)\<rparr>;
              key = rpc_sid_pack rid (server_id s)
          in rbind (scheck (map_of (rpc_server_id_frontend c1) key = None)) (\<lambda>_.
               Inr (c1\<lparr>rpc_server_id_frontend := emplace key p (rpc_server_id_frontend c1)\<rparr>)))"

fun register_all :: "(32 word \<times> server_info) list \<Rightarrow> 'b rpc_ctx \<Rightarrow> 'b rpc_ctx res" where
  "register_all [] c = Inr c"
| "register_all ((rid, s) # ss) c = rbind (register_server_tables rid s c) (register_all ss)"

text \<open>The two nested loops visit every server of every service.\<close>

definition all_servers :: "(string \<times> rpc_service_info) list \<Rightarrow> (32 word \<times> server_info) list" where
  "all_servers al = concat (map (\<lambda>(name, info). map (\<lambda>s. (service_rpc_id info, s)) (servers info)) al)"

definition update_service_info :: "rpc_service_info list \<Rightarrow> 'b rpc_ctx \<Rightarrow> 'b rpc_ctx res" where
  "update_service_info list c =
     (let service_list = map (known_servers c) list;
          infos = fold (\<lambda>info. emplace (rpc_service_name info) info) service_list [];
          c1 = c\<lparr>rpc_info := infos, rpc_server_info := [], rpc_server_frontend := [], rpc_server_id_frontend := []\<rparr>
      in register_all (all_servers infos) c1)"

definition get_rpc_service_info :: "string \<Rightarrow> 'b rpc_ctx \<Rightarrow> rpc_service_info option" where
  "get_rpc_service_info name c = map_of (rpc_info c) name"

definition get_avaliable_servers :: "int \<Rightarrow> string \<Rightarrow> 'b rpc_ctx \<Rightarrow> 32 word list option" where
  "get_avaliable_servers now name c =
     (case map_of (rpc_info c) name of
        None \<Rightarrow> None
      | Some info \<Rightarrow>
          Some (map server_id (filter (\<lambda>s.
            case get_client_frontend_by_sid now (service_rpc_id info) (server_id s) c of
              None \<Rightarrow> False | Some p \<Rightarrow> fe_available now (frontends c p)) (servers info))))"

definition ctx_initialize :: "16 word \<Rightarrow> nat list \<Rightarrow> (nat \<Rightarrow> 'b dealer) \<Rightarrow> 'b rpc_ctx" where
  "ctx_initialize rank fds ds = \<lparr>self_info = \<lparr>global_rank = rank, endpoint = []\<rparr>, server_backend = [], client_backend = [],
     to_del_client_sockets = {}, client_sockets = [], server_sockets = [], fd_map = [], rpc_info = [],
     rpc_server_info = [], rpc_server_frontend = [], rpc_server_id_frontend = [], epfds = fds, event_idx = 0,
     n_events = 0, epoll = {}, frontends = (\<lambda>_. frontend_new \<lparr>global_rank = -1, endpoint = []\<rparr> False),
     next_frontend = 0, dealers = ds, outgoing = [], lost = []\<rparr>"

section \<open>The tables of the services\<close>

lemma response_head_link: "response_new h = Inr p \<Longrightarrow> pk_head p = response_head h"
  by (auto simp: response_new_def response_head_def prpc_simps)

definition server_key :: "32 word \<times> server_info \<Rightarrow> 64 word" where
  "server_key x = rpc_sid_pack (fst x) (server_id (snd x))"

definition sid_lookup :: "32 word \<Rightarrow> 32 word \<Rightarrow> 'b rpc_ctx \<Rightarrow> server_info option" where
  "sid_lookup rid s c = (case map_of (rpc_server_info c) rid of None \<Rightarrow> None | Some m \<Rightarrow> map_of m s)"

definition rank_frontends :: "32 word \<Rightarrow> (32 word \<times> server_info) list \<Rightarrow> 'b rpc_ctx \<Rightarrow> nat list" where
  "rank_frontends rid ss c =
     map (\<lambda>(r, s). the (map_of (client_sockets c) (server_rank s))) (filter (\<lambda>(r, s). r = rid) ss)"

definition fe_lookup :: "32 word \<Rightarrow> 'b rpc_ctx \<Rightarrow> nat list" where
  "fe_lookup rid c = (case map_of (rpc_server_frontend c) rid of None \<Rightarrow> [] | Some v \<Rightarrow> v)"

text \<open>The parts of the context that the service tables do not belong to.\<close>

definition same_frontends :: "'b rpc_ctx \<Rightarrow> 'b rpc_ctx \<Rightarrow> bool" where
  "same_frontends c c' \<longleftrightarrow>
     (\<exists>i f t. c' = c\<lparr>rpc_server_info := i, rpc_server_frontend := f, rpc_server_id_frontend := t\<rparr>)"

lemma register_one:
  assumes "map_of (client_sockets c) (server_rank s) = Some p"
  shows "(case register_server_tables rid s c of
      Inl e \<Rightarrow> map_of (rpc_server_id_frontend c) (server_key (rid, s)) \<noteq> None
    | Inr c' \<Rightarrow> map_of (rpc_server_id_frontend c) (server_key (rid, s)) = None \<and> same_frontends c c' \<and>
        map_of (rpc_server_id_frontend c') = (map_of (rpc_server_id_frontend c))(server_key (rid, s) \<mapsto> p) \<and>
        (\<forall>r x. sid_lookup r x c' = (if r = rid \<and> x = server_id s then Some s else sid_lookup r x c)) \<and>
        (\<forall>r. fe_lookup r c' = (if r = rid then fe_lookup r c @ [p] else fe_lookup r c)) \<and>
        ((\<forall>r. map_of (rpc_server_frontend c) r \<noteq> Some []) \<longrightarrow> (\<forall>r. map_of (rpc_server_frontend c') r \<noteq> Some [])))"
proof (cases "map_of (rpc_server_id_frontend c) (server_key (rid, s))")
  case (Some q)
  then show ?thesis using assms by (simp add: register_server_tables_def server_key_def Let_def)
next
  case None
  then show ?thesis using assms
    by (auto simp: register_server_tables_def server_key_def Let_def same_frontends_def emplace_def sid_lookup_def
        fe_lookup_def update_conv map_add_def fun_eq_iff split: option.splits)
qed

lemma same_frontends_fields:
  "same_frontends c c' \<Longrightarrow> client_sockets c' = client_sockets c \<and> frontends c' = frontends c \<and> rpc_info c' = rpc_info c"
  by (auto simp: same_frontends_def)

lemma same_frontends_trans: "same_frontends c d \<Longrightarrow> same_frontends d e \<Longrightarrow> same_frontends c e"
  by (auto simp: same_frontends_def; intro exI; rule refl)

lemma same_frontends_refl: "same_frontends c c"
  unfolding same_frontends_def
  by (rule exI [of _ "rpc_server_info c"], rule exI [of _ "rpc_server_frontend c"],
      rule exI [of _ "rpc_server_id_frontend c"]) simp

definition servers_known :: "(32 word \<times> server_info) list \<Rightarrow> 'b rpc_ctx \<Rightarrow> bool" where
  "servers_known ss c \<longleftrightarrow> list_all (\<lambda>(r, s). map_of (client_sockets c) (server_rank s) \<noteq> None) ss"

text \<open>What the loops leave behind, if no check fails: \<open>tables_of\<close> relates the context before and after.\<close>

definition tables_of :: "(32 word \<times> server_info) list \<Rightarrow> 'b rpc_ctx \<Rightarrow> 'b rpc_ctx \<Rightarrow> bool" where
  "tables_of ss c c' \<longleftrightarrow> same_frontends c c' \<and>
     (\<forall>x \<in> set ss. map_of (rpc_server_id_frontend c') (server_key x) = map_of (client_sockets c) (server_rank (snd x)) \<and>
        sid_lookup (fst x) (server_id (snd x)) c' = Some (snd x)) \<and>
     (\<forall>k. k \<notin> server_key ` set ss \<longrightarrow> map_of (rpc_server_id_frontend c') k = map_of (rpc_server_id_frontend c) k) \<and>
     (\<forall>r i. (\<forall>x \<in> set ss. fst x = r \<longrightarrow> server_id (snd x) \<noteq> i) \<longrightarrow> sid_lookup r i c' = sid_lookup r i c) \<and>
     (\<forall>r. fe_lookup r c' = fe_lookup r c @ rank_frontends r ss c) \<and>
     ((\<forall>r. map_of (rpc_server_frontend c) r \<noteq> Some []) \<longrightarrow> (\<forall>r. map_of (rpc_server_frontend c') r \<noteq> Some []))"

lemma register_all_spec:
  assumes "servers_known ss c"
  shows "case register_all ss c of
      Inl e \<Rightarrow> \<not> (distinct (map server_key ss) \<and> (\<forall>x \<in> set ss. map_of (rpc_server_id_frontend c) (server_key x) = None))
    | Inr c' \<Rightarrow> distinct (map server_key ss) \<and> (\<forall>x \<in> set ss. map_of (rpc_server_id_frontend c) (server_key x) = None) \<and>
        tables_of ss c c'"
  using assms
proof (induction ss arbitrary: c)
  case Nil
  then show ?case by (simp add: tables_of_def same_frontends_refl rank_frontends_def)
next
  case (Cons x ss)
  obtain rid s where x: "x = (rid, s)" by fastforce
  from Cons.prems obtain p where p: "map_of (client_sockets c) (server_rank s) = Some p"
    by (auto simp: servers_known_def x)
  show ?case
  proof (cases "register_server_tables rid s c")
    case (Inl e)
    then show ?thesis using register_one [OF p, of rid] by (auto simp: x)
  next
    case (Inr c1)
    note one = register_one [OF p, of rid, unfolded Inr sum.case]
    have cs: "client_sockets c1 = client_sockets c" using one same_frontends_fields by blast
    have k1: "servers_known ss c1" using Cons.prems by (simp add: servers_known_def cs)
    have idk: "map_of (rpc_server_id_frontend c1) (server_key y) = None \<longleftrightarrow>
        map_of (rpc_server_id_frontend c) (server_key y) = None \<and> server_key y \<noteq> server_key x" for y
      using one by (auto simp: x)
    note IH = Cons.IH [OF k1]
    show ?thesis
    proof (cases "register_all ss c1")
      case (Inl e)
      have False if "distinct (map server_key (x # ss))"
        "\<forall>y \<in> set (x # ss). map_of (rpc_server_id_frontend c) (server_key y) = None"
      proof -
        have "server_key x \<notin> server_key ` set ss" using that(1) by simp
        then have "\<forall>y \<in> set ss. map_of (rpc_server_id_frontend c1) (server_key y) = None"
          using that(2) unfolding idk by (metis imageI list.set_intros(2))
        then show False using that(1) IH Inl by simp
      qed
      then have n: "\<not> (distinct (map server_key (x # ss)) \<and>
          (\<forall>y \<in> set (x # ss). map_of (rpc_server_id_frontend c) (server_key y) = None))" by blast
      have "register_all (x # ss) c = Inl e" using \<open>register_server_tables rid s c = Inr c1\<close> Inl by (simp add: x)
      then show ?thesis using n by (simp only: sum.case not_False_eq_True)
    next
      case (Inr c2)
      have d: "distinct (map server_key ss)" "\<forall>y \<in> set ss. map_of (rpc_server_id_frontend c1) (server_key y) = None"
        and t: "tables_of ss c1 c2" using IH Inr by auto
      have new: "server_key x \<notin> server_key ` set ss" using d(2) idk by auto
      then have pair: "\<forall>y \<in> set ss. fst y = rid \<longrightarrow> server_id (snd y) \<noteq> server_id s"
        by (force simp: x server_key_def image_iff)
      have rf: "rank_frontends r (x # ss) c = (if r = rid then p # rank_frontends r ss c1 else rank_frontends r ss c1)" for r
        by (simp add: rank_frontends_def x p cs)
      have "tables_of (x # ss) c c2"
        unfolding tables_of_def
      proof (intro conjI)
        show "same_frontends c c2" using one t same_frontends_trans by (auto simp: tables_of_def)
        show "\<forall>y \<in> set (x # ss). map_of (rpc_server_id_frontend c2) (server_key y) = map_of (client_sockets c) (server_rank (snd y)) \<and>
            sid_lookup (fst y) (server_id (snd y)) c2 = Some (snd y)"
          using t new pair one p by (auto simp: tables_of_def cs x)
        show "\<forall>k. k \<notin> server_key ` set (x # ss) \<longrightarrow> map_of (rpc_server_id_frontend c2) k = map_of (rpc_server_id_frontend c) k"
          using t one by (auto simp: tables_of_def x)
        show "\<forall>r i. (\<forall>y \<in> set (x # ss). fst y = r \<longrightarrow> server_id (snd y) \<noteq> i) \<longrightarrow> sid_lookup r i c2 = sid_lookup r i c"
          using t one by (auto simp: tables_of_def x)
        show "\<forall>r. fe_lookup r c2 = fe_lookup r c @ rank_frontends r (x # ss) c"
          using t one by (simp add: tables_of_def rf)
        show "(\<forall>r. map_of (rpc_server_frontend c) r \<noteq> Some []) \<longrightarrow> (\<forall>r. map_of (rpc_server_frontend c2) r \<noteq> Some [])"
          using t one by (simp add: tables_of_def)
      qed
      then show ?thesis using \<open>register_server_tables rid s c = Inr c1\<close> Inr d idk one new
        by (auto simp: x)
    qed
  qed
qed

text \<open>The services that \<open>update_service_info\<close> keeps: their known servers, one entry for a name.\<close>

definition service_table :: "rpc_service_info list \<Rightarrow> 'b rpc_ctx \<Rightarrow> (string \<times> rpc_service_info) list" where
  "service_table list c = fold (\<lambda>info. emplace (rpc_service_name info) info) (map (known_servers c) list) []"

lemma emplace_known:
  assumes "\<forall>x \<in> snd ` set al. servers_known (map (Pair (service_rpc_id x)) (servers x)) c"
  shows "\<forall>x \<in> snd ` set (fold (\<lambda>info. emplace (rpc_service_name info) info) (map (known_servers c) list) al).
      servers_known (map (Pair (service_rpc_id x)) (servers x)) c"
  using assms
proof (induction list arbitrary: al)
  case (Cons i list)
  have "servers_known (map (Pair (service_rpc_id (known_servers c i))) (servers (known_servers c i))) c"
    by (auto simp: servers_known_def known_servers_def list_all_iff)
  with Cons.prems have "\<forall>x \<in> snd ` set (emplace (rpc_service_name (known_servers c i)) (known_servers c i) al).
      servers_known (map (Pair (service_rpc_id x)) (servers x)) c"
    by (auto simp: emplace_def)
  from Cons.IH [OF this] show ?case by simp
qed simp

lemma service_table_known: "servers_known (all_servers (service_table list c)) c"
  using emplace_known [of "[]" c list]
  by (fastforce simp: servers_known_def all_servers_def service_table_def list_all_iff)

lemma update_service_info_spec:
  "case update_service_info list c of
     Inl e \<Rightarrow> \<not> distinct (map server_key (all_servers (service_table list c)))
   | Inr c' \<Rightarrow> distinct (map server_key (all_servers (service_table list c))) \<and> rpc_info c' = service_table list c \<and>
       client_sockets c' = client_sockets c \<and> frontends c' = frontends c \<and>
       tables_of (all_servers (service_table list c))
         (c\<lparr>rpc_info := service_table list c, rpc_server_info := [], rpc_server_frontend := [], rpc_server_id_frontend := []\<rparr>) c'"
proof -
  let ?t = "service_table list c"
  let ?c = "c\<lparr>rpc_info := ?t, rpc_server_info := [], rpc_server_frontend := [], rpc_server_id_frontend := []\<rparr>"
  have u: "update_service_info list c = register_all (all_servers ?t) ?c"
    by (simp add: update_service_info_def service_table_def Let_def)
  have "servers_known (all_servers ?t) ?c" using service_table_known [of list c] by (simp add: servers_known_def)
  from register_all_spec [OF this] show ?thesis unfolding u
    by (auto simp: tables_of_def dest: same_frontends_fields split: sum.splits)
qed

section \<open>Routing\<close>

definition sid_in_range :: "32 word \<Rightarrow> bool" where
  "sid_in_range s \<longleftrightarrow> 0 \<le> sint s \<and> sint s < 1000000007"

lemma rpc_sid_pack_inj:
  assumes "rpc_sid_pack r s = rpc_sid_pack r' s'" "sid_in_range s" "sid_in_range s'"
  shows "r = r' \<and> s = s'"
proof -
  have b: "- (2 ^ 31) \<le> sint w" "sint w < 2 ^ 31" for w :: "32 word"
    using sint_ge [of w] sint_lt [of w] by simp_all
  have val: "sint (rpc_sid_pack a x) = sint a * 1000000007 + sint x" for a x
    using b [of a] b [of x] unfolding rpc_sid_pack_def
    by (subst signed_of_int) (auto simp: signed_take_bit_int_eq_self_iff)
  have e: "sint r * 1000000007 + sint s = sint r' * 1000000007 + sint s'"
    using assms(1) val by metis
  have m: "sint s = (sint r * 1000000007 + sint s) mod 1000000007" "sint s' = (sint r' * 1000000007 + sint s') mod 1000000007"
    using assms(2,3) unfolding sid_in_range_def by simp_all
  have s: "sint s = sint s'" using m unfolding e by simp
  then have "sint r = sint r'" using e by simp
  with s show ?thesis by (simp add: signed_word_eqI)
qed

text \<open>The abstract routing table of the services: which rank serves a server id.\<close>

definition routing_table :: "'b rpc_ctx \<Rightarrow> (32 word \<times> 32 word) \<Rightarrow> 16 word option" where
  "routing_table c = map_of (map (\<lambda>(rid, s). ((rid, server_id s), server_rank s)) (all_servers (rpc_info c)))"

lemma distinct_pairs:
  "distinct (map server_key ss) \<Longrightarrow> distinct (map fst (map (\<lambda>(rid, s). ((rid, server_id s), server_rank s)) ss))"
proof (induction ss)
  case (Cons x ss)
  have "server_key x \<notin> server_key ` set ss" using Cons.prems by simp
  then have "\<forall>y \<in> set ss. \<not> (fst y = fst x \<and> server_id (snd y) = server_id (snd x))"
    by (force simp: server_key_def image_iff)
  with Cons show ?case by (force simp: case_prod_beta)
qed simp

lemma routing_table_mem:
  assumes "distinct (map server_key (all_servers (rpc_info c)))"
  shows "routing_table c (rid, i) = Some rank \<longleftrightarrow>
    (\<exists>s. (rid, s) \<in> set (all_servers (rpc_info c)) \<and> server_id s = i \<and> server_rank s = rank)"
  using map_of_eq_Some_iff [OF distinct_pairs [OF assms]]
  by (force simp: routing_table_def image_iff)

text \<open>C9. After the services were updated, the lookup with its three tables and its fast path is the lookup in
  the list of registered servers, followed by the choice of the connection to the rank found there.\<close>

theorem routing_refines:
  assumes "update_service_info list c = Inr c'"
    and "\<forall>(r, srv) \<in> set (all_servers (rpc_info c')). sid_in_range (server_id srv)"
    and "sid_in_range i"
  shows "get_client_frontend_by_sid now rid i c' =
    (case routing_table c' (rid, i) of
       None \<Rightarrow> None
     | Some rank \<Rightarrow> get_client_frontend_by_rank now rank c')"
proof -
  let ?ss = "all_servers (rpc_info c')"
  let ?c = "c\<lparr>rpc_info := service_table list c, rpc_server_info := [], rpc_server_frontend := [], rpc_server_id_frontend := []\<rparr>"
  have d: "distinct (map server_key ?ss)" and t: "tables_of ?ss ?c c'" and cs: "client_sockets c' = client_sockets c"
    using update_service_info_spec [of list c] assms(1) by auto
  have sid: "get_client_frontend_by_sid now rid i c' =
      (case if_available now (map_of (rpc_server_id_frontend c') (rpc_sid_pack rid i)) c' of
         Some f \<Rightarrow> Some f
       | None \<Rightarrow> (case sid_lookup rid i c' of None \<Rightarrow> None | Some info \<Rightarrow> get_client_frontend_by_rank now (server_rank info) c'))"
    by (simp add: get_client_frontend_by_sid_def sid_lookup_def split: option.splits)
  show ?thesis
  proof (cases "routing_table c' (rid, i)")
    case (Some rank)
    then obtain s where s: "(rid, s) \<in> set ?ss" "server_id s = i" "server_rank s = rank"
      using routing_table_mem [OF d] by blast
    then have "map_of (rpc_server_id_frontend c') (rpc_sid_pack rid i) = map_of (client_sockets c') rank"
      "sid_lookup rid i c' = Some s"
      using t cs by (auto simp: tables_of_def server_key_def)
    then show ?thesis using Some s(3)
      by (auto simp: sid get_client_frontend_by_rank_def split: option.splits)
  next
    case None
    then have no: "\<forall>x \<in> set ?ss. fst x = rid \<longrightarrow> server_id (snd x) \<noteq> i"
      using routing_table_mem [OF d, of rid i] by (metis not_Some_eq prod.collapse)
    have "rpc_sid_pack rid i \<notin> server_key ` set ?ss"
    proof
      assume "rpc_sid_pack rid i \<in> server_key ` set ?ss"
      then obtain r srv where x: "(r, srv) \<in> set ?ss" "rpc_sid_pack rid i = rpc_sid_pack r (server_id srv)"
        by (auto simp: server_key_def)
      then have "rid = r \<and> i = server_id srv" using rpc_sid_pack_inj assms(2,3) by blast
      then show False using no x(1) by auto
    qed
    then have "map_of (rpc_server_id_frontend c') (rpc_sid_pack rid i) = None" "sid_lookup rid i c' = None"
      using t no by (auto simp: tables_of_def sid_lookup_def)
    then show ?thesis using None by (simp add: sid if_available_def)
  qed
qed

text \<open>A request without server id and rank goes to a connection of a rank that serves the service and is
  available; it fails only if no server of the service has an available connection.\<close>

theorem routing_by_service:
  assumes "update_service_info list c = Inr c'"
  shows "\<exists>f. get_client_frontend_by_rpc_id now rand rid c' = Inr f \<and>
    (let ps = rank_frontends rid (all_servers (rpc_info c')) c'
     in case f of
          None \<Rightarrow> list_all (\<lambda>p. \<not> fe_available now (frontends c' p)) ps
        | Some p \<Rightarrow> p \<in> set ps \<and> fe_available now (frontends c' p))"
proof -
  let ?ss = "all_servers (rpc_info c')"
  let ?c = "c\<lparr>rpc_info := service_table list c, rpc_server_info := [], rpc_server_frontend := [], rpc_server_id_frontend := []\<rparr>"
  have t: "tables_of ?ss ?c c'" and cs: "client_sockets c' = client_sockets c"
    using update_service_info_spec [of list c] assms(1) by auto
  have ne: "map_of (rpc_server_frontend c') rid \<noteq> Some []" using t by (auto simp: tables_of_def)
  have fe: "fe_lookup rid c' = rank_frontends rid ?ss c'"
    using t by (simp add: tables_of_def fe_lookup_def rank_frontends_def cs)
  show ?thesis
  proof (cases "map_of (rpc_server_frontend c') rid")
    case None
    then have "rank_frontends rid ?ss c' = []" using fe by (simp add: fe_lookup_def)
    then show ?thesis using None by (simp add: get_client_frontend_by_rpc_id_def)
  next
    case (Some v)
    then have v: "rank_frontends rid ?ss c' = v" "v \<noteq> []" using fe ne by (auto simp: fe_lookup_def)
    then have "v ! (rand mod length v) \<in> set v" by simp
    then show ?thesis using Some v
      by (auto simp: get_client_frontend_by_rpc_id_def Let_def list_all_iff find_None_iff find_Some_iff
          split: option.splits)
  qed
qed

text \<open>\<open>update_service_info\<close> aborts exactly if two of the known servers have the same packed key, which for
  server ids below 1000000007 means that the same server is registered twice under one rpc id.\<close>

theorem update_service_info_total:
  "(\<exists>c'. update_service_info list c = Inr c') \<longleftrightarrow>
     distinct (map server_key (all_servers (service_table list c)))"
  using update_service_info_spec [of list c] by (cases "update_service_info list c") auto

text \<open>Two servers of different services whose packed keys are equal.\<close>

definition colliding :: "16 word \<Rightarrow> rpc_service_info list" where
  "colliding rank =
     [\<lparr>rpc_service_name = ''a'', service_rpc_id = 0, servers = [\<lparr>server_id = 1000000007, server_rank = rank\<rparr>]\<rparr>,
      \<lparr>rpc_service_name = ''b'', service_rpc_id = 1, servers = [\<lparr>server_id = 0, server_rank = rank\<rparr>]\<rparr>]"

text \<open>Two different servers can stop the process: the ids 1000000007 of service 0 and 0 of service 1 have
  the same packed key, and the update that sees both fails its check.\<close>

theorem service_key_collision:
  assumes "map_of (client_sockets c) rank \<noteq> None"
  shows "update_service_info (colliding rank) c = Inl Check_failed"
proof -
  obtain p where p: "map_of (client_sockets c) rank = Some p" using assms by auto
  have k: "rpc_sid_pack 0 1000000007 = rpc_sid_pack 1 0" by (simp add: rpc_sid_pack_def)
  show ?thesis
    by (simp add: update_service_info_def colliding_def known_servers_def p emplace_def all_servers_def
        register_server_tables_def k)
qed

section \<open>Invariant of the context\<close>

definition queue_ok :: "'b rpc_ctx \<Rightarrow> (nat, 'b packet) fair_queue \<Rightarrow> bool" where
  "queue_ok c q \<longleftrightarrow> fq_inv q \<and> \<not> fq_empty q \<and>
     (\<forall>s. \<forall>d \<in> set (dealers_of s q). initialized_server (dealers c d) \<and> server_req_ch (dealers c d) \<noteq> None)"

definition backend_ok :: "'b rpc_ctx \<Rightarrow> bool" where
  "backend_ok c \<longleftrightarrow> (\<forall>rid q. map_of (server_backend c) rid = Some q \<longrightarrow> queue_ok c q)"

definition clients_ok :: "'b rpc_ctx \<Rightarrow> bool" where
  "clients_ok c \<longleftrightarrow> (\<forall>i d. map_of (client_backend c) i = Some d \<longrightarrow>
     initialized_client (dealers c d) \<and> client_resp_ch (dealers c d) \<noteq> None \<and> d_id (dealers c d) = i)"

definition socket_ok :: "bool \<Rightarrow> 'b rpc_ctx \<Rightarrow> (16 word \<times> nat) list \<Rightarrow> bool" where
  "socket_ok is_client c socks \<longleftrightarrow> (\<forall>r p. map_of socks r = Some p \<longrightarrow>
     p < next_frontend c \<and> global_rank (fe_info (frontends c p)) = r \<and> is_client_socket (frontends c p) = is_client)"

definition events_ok :: "'b rpc_ctx \<Rightarrow> bool" where
  "events_ok c \<longleftrightarrow> epfds c \<noteq> [] \<and> finite (epoll c) \<and> n_events c = int (card (epoll c)) \<and>
     (\<forall>p e. fe_epfd (frontends c p) = Some e \<longrightarrow>
        p < next_frontend c \<and> e \<in> set (epfds c) \<and> fe_fds (frontends c p) \<noteq> None)"

definition fes_ok :: "'b rpc_ctx \<Rightarrow> bool" where
  "fes_ok c \<longleftrightarrow> events_ok c \<and> socket_ok True c (client_sockets c) \<and> socket_ok False c (server_sockets c) \<and>
     distinct (map fst (client_sockets c)) \<and> distinct (map fst (server_sockets c)) \<and>
     (\<forall>r. map_of (rpc_server_frontend c) r \<noteq> Some [])"

definition ctx_inv :: "'b rpc_ctx \<Rightarrow> bool" where
  "ctx_inv c \<longleftrightarrow> backend_ok c \<and> clients_ok c \<and> fes_ok c"

subsection \<open>Delivery\<close>

text \<open>A dealer whose channels may have got packets, and nothing else.\<close>

definition dealer_core :: "'b dealer \<Rightarrow> 'b dealer" where
  "dealer_core d = d\<lparr>server_req_ch := None, client_resp_ch := None\<rparr>"

definition only_channels :: "'b rpc_ctx \<Rightarrow> 'b rpc_ctx \<Rightarrow> bool" where
  "only_channels c c' \<longleftrightarrow> (\<forall>p. dealer_core (dealers c' p) = dealer_core (dealers c p) \<and>
     (server_req_ch (dealers c' p) = None \<longleftrightarrow> server_req_ch (dealers c p) = None) \<and>
     (client_resp_ch (dealers c' p) = None \<longleftrightarrow> client_resp_ch (dealers c p) = None))"

lemma dealer_core_update [simp]:
  "dealer_core (d\<lparr>server_req_ch := a\<rparr>) = dealer_core d" "dealer_core (d\<lparr>client_resp_ch := b\<rparr>) = dealer_core d"
  by (simp_all add: dealer_core_def)

lemma dealer_core_fields:
  assumes "dealer_core d = dealer_core e"
  shows "initialized_server d = initialized_server e" "initialized_client d = initialized_client e" "d_id d = d_id e"
    "d_rpc_id d = d_rpc_id e" "d_rank d = d_rank e" "d_server d = d_server e" "d_client d = d_client e"
    "local_servers d = local_servers e" "available_rank d = available_rank e" "d_terminated d = d_terminated e"
  using assms by (cases d; cases e; simp add: dealer_core_def)+

lemma only_channels_core: "only_channels c c' \<Longrightarrow> dealer_core (dealers c' p) = dealer_core (dealers c p)"
  by (simp add: only_channels_def)

lemma only_channels_None:
  "only_channels c c' \<Longrightarrow> (server_req_ch (dealers c' p) = None) = (server_req_ch (dealers c p) = None)"
  "only_channels c c' \<Longrightarrow> (client_resp_ch (dealers c' p) = None) = (client_resp_ch (dealers c p) = None)"
  by (simp_all add: only_channels_def)

lemmas only_channels_fields = dealer_core_fields [OF only_channels_core] only_channels_None

lemma only_channels_refl: "dealers c' = dealers c \<Longrightarrow> only_channels c c'"
  by (simp add: only_channels_def)

lemma only_channels_trans: "only_channels c d \<Longrightarrow> only_channels d e \<Longrightarrow> only_channels c e"
  by (simp add: only_channels_def)

lemma queue_ok_only_channels: "only_channels c c' \<Longrightarrow> queue_ok c' q = queue_ok c q"
  by (simp add: queue_ok_def only_channels_fields)

lemma clients_ok_only_channels:
  "only_channels c c' \<Longrightarrow> client_backend c' = client_backend c \<Longrightarrow> clients_ok c' = clients_ok c"
  by (simp add: clients_ok_def only_channels_fields)

definition same_rest :: "'b rpc_ctx \<Rightarrow> 'b rpc_ctx \<Rightarrow> bool" where
  "same_rest c c' \<longleftrightarrow> (\<exists>ds sb l og. c' = c\<lparr>dealers := ds, server_backend := sb, lost := l, outgoing := og\<rparr>)"

lemma distinct_emplace: "distinct (map fst al) \<Longrightarrow> distinct (map fst (emplace k v al))"
  by (simp add: emplace_def map_of_eq_None_iff)

lemma same_rest_dealers: "same_rest c (c\<lparr>dealers := ds\<rparr>)"
  unfolding same_rest_def
  by (rule exI, rule exI [of _ "server_backend c"], rule exI [of _ "lost c"], rule exI [of _ "outgoing c"]) auto

lemma same_rest_fes: "same_rest c c' \<Longrightarrow> fes_ok c' = fes_ok c"
  unfolding same_rest_def by (elim exE) (simp add: fes_ok_def events_ok_def socket_ok_def)

lemma deliver_ok:
  assumes "\<forall>(p, r) \<in> set out. initialized_server (dealers c p) \<and> server_req_ch (dealers c p) \<noteq> None"
  shows "\<exists>ds. deliver out c = Inr (c\<lparr>dealers := ds\<rparr>) \<and> only_channels c (c\<lparr>dealers := ds\<rparr>)"
  using assms
proof (induction out arbitrary: c)
  case Nil
  show ?case by (rule exI [of _ "dealers c"]) (simp add: only_channels_refl)
next
  case (Cons x out)
  obtain p r where x: "x = (p, r)" by (metis surj_pair)
  with Cons.prems obtain ch where p: "initialized_server (dealers c p)" "server_req_ch (dealers c p) = Some ch" by auto
  let ?c = "c\<lparr>dealers := (dealers c)(p := (dealers c p)\<lparr>server_req_ch := Some (ch @ [r])\<rparr>)\<rparr>"
  have one: "dealer_push_request p r c = Inr ?c" by (simp add: dealer_push_request_def p)
  have oc: "only_channels c ?c" by (simp add: only_channels_def p)
  have "\<forall>(q, r) \<in> set out. initialized_server (dealers ?c q) \<and> server_req_ch (dealers ?c q) \<noteq> None"
    using Cons.prems only_channels_fields [OF oc] by (auto simp: x)
  from Cons.IH [OF this] obtain ds where "deliver out ?c = Inr (?c\<lparr>dealers := ds\<rparr>)" "only_channels ?c (?c\<lparr>dealers := ds\<rparr>)"
    by blast
  then show ?case using one only_channels_trans [OF oc] by (auto simp: x)
qed

lemma push_response_ok:
  assumes "clients_ok c"
  shows "\<exists>c'. push_response r c = Inr c' \<and> same_rest c c' \<and> server_backend c' = server_backend c \<and> only_channels c c'"
proof (cases "map_of (client_backend c) (dest_dealer (fst r))")
  case None
  have "same_rest c (c\<lparr>lost := lost c @ [r]\<rparr>)" unfolding same_rest_def
    by (rule exI [of _ "dealers c"], rule exI [of _ "server_backend c"], rule exI, rule exI [of _ "outgoing c"]) auto
  then show ?thesis using None by (auto simp: push_response_def only_channels_refl)
next
  case (Some d)
  with assms obtain ch where d: "initialized_client (dealers c d)" "client_resp_ch (dealers c d) = Some ch"
    by (auto simp: clients_ok_def)
  let ?c = "c\<lparr>dealers := (dealers c)(d := (dealers c d)\<lparr>client_resp_ch := Some (ch @ [r])\<rparr>)\<rparr>"
  have "only_channels c ?c" by (simp add: only_channels_def d)
  moreover have "same_rest c ?c" by (rule same_rest_dealers)
  ultimately show ?thesis using Some d by (auto simp: push_response_def dealer_push_response_def)
qed

text \<open>The dealers and servers registered for a service.\<close>

definition reg_dealers :: "'b rpc_ctx \<Rightarrow> 32 word \<Rightarrow> int \<Rightarrow> nat list" where
  "reg_dealers c rid s = (case map_of (server_backend c) rid of None \<Rightarrow> [] | Some q \<Rightarrow> dealers_of s q)"

definition reg_server :: "'b rpc_ctx \<Rightarrow> 32 word \<Rightarrow> int \<Rightarrow> bool" where
  "reg_server c rid s = (case map_of (server_backend c) rid of None \<Rightarrow> False | Some q \<Rightarrow> has_server s q)"

definition same_reg :: "'b rpc_ctx \<Rightarrow> 'b rpc_ctx \<Rightarrow> bool" where
  "same_reg c c' \<longleftrightarrow> reg_dealers c' = reg_dealers c \<and> reg_server c' = reg_server c \<and>
     client_backend c' = client_backend c \<and> self_info c' = self_info c"

lemma same_reg_trans: "same_reg c d \<Longrightarrow> same_reg d e \<Longrightarrow> same_reg c e"
  by (simp add: same_reg_def)

lemma same_rest_trans: "same_rest c d \<Longrightarrow> same_rest d e \<Longrightarrow> same_rest c e"
  by (auto simp: same_rest_def; intro exI; rule refl)

lemma dispatch_same:
  assumes "fq_inv q"
  obtains taken out q' where "fq_dispatch s r q = Inr (taken, out, q')" "fq_inv q'"
    "\<And>t. dealers_of t q' = dealers_of t q" "\<And>t. has_server t q' = has_server t q" "fq_empty q' = fq_empty q"
    "\<forall>(d, x) \<in> set out. \<exists>t. d \<in> set (dealers_of t q)"
  using assms
proof (cases rule: dispatch_cases [of q s r])
  case (served d q')
  then have "fq_inv q'" using same_inv assms by blast
  then show thesis using served
    by (intro that [of True "[(d, r)]" q'])
      (auto simp: same_but_counters_def dealers_of_def has_server_def fq_empty_def serves_def split: if_splits)
next
  case (cached srv q1 q')
  have "fq_inv q'" using push_keeps [OF assms, of s r] cached(1) by (auto simp: keeps_ok_def)
  moreover have "sid2cache q1 \<noteq> []" using cached(3) by auto
  ultimately show thesis using cached
    by (intro that [of True "[]" q'])
      (auto simp: same_but_counters_def dealers_of_def has_server_def fq_empty_def update_conv)
next
  case (rejected q')
  then have "fq_inv q'" using same_inv assms by blast
  then show thesis using rejected
    by (intro that [of False "[]" q'])
      (auto simp: same_but_counters_def dealers_of_def has_server_def fq_empty_def)
qed

lemma put_backend_fields [simp]:
  "client_backend (put_backend rid q c) = client_backend c" "self_info (put_backend rid q c) = self_info c"
  "dealers (put_backend rid q c) = dealers c" "lost (put_backend rid q c) = lost c"
  by (simp_all add: put_backend_def)

lemma map_of_put_backend: "map_of (server_backend (put_backend rid q c)) = (map_of (server_backend c))(rid \<mapsto> q)"
  by (simp add: put_backend_def update_conv')

lemma backend_ok_put:
  assumes "backend_ok c" "queue_ok c' q" "only_channels c c'"
    "map_of (server_backend c') = (map_of (server_backend c))(rid \<mapsto> q)"
  shows "backend_ok c'"
  using assms by (auto simp: backend_ok_def queue_ok_only_channels [OF assms(3)])

definition delivers :: "'b rpc_ctx \<Rightarrow> 'b rpc_ctx \<Rightarrow> bool" where
  "delivers c c' \<longleftrightarrow> same_rest c c' \<and> same_reg c c' \<and> only_channels c c' \<and> backend_ok c'"

lemma delivers_trans: "delivers c d \<Longrightarrow> delivers d e \<Longrightarrow> delivers c e"
  unfolding delivers_def using same_rest_trans same_reg_trans only_channels_trans by blast

lemma delivers_inv: "delivers c c' \<Longrightarrow> ctx_inv c \<Longrightarrow> ctx_inv c'"
  using same_rest_fes clients_ok_only_channels by (auto simp: delivers_def ctx_inv_def same_reg_def)

lemma delivers_lost: "backend_ok c \<Longrightarrow> delivers c (c\<lparr>lost := l, outgoing := og\<rparr>)"
  unfolding delivers_def
proof (intro conjI)
  assume b: "backend_ok c"
  show "same_rest c (c\<lparr>lost := l, outgoing := og\<rparr>)" unfolding same_rest_def
    by (rule exI [of _ "dealers c"], rule exI [of _ "server_backend c"], rule exI, rule exI) auto
  show "same_reg c (c\<lparr>lost := l, outgoing := og\<rparr>)" by (simp add: same_reg_def reg_dealers_def reg_server_def fun_eq_iff)
  show "only_channels c (c\<lparr>lost := l, outgoing := og\<rparr>)" by (simp add: only_channels_refl)
  then show "backend_ok (c\<lparr>lost := l, outgoing := og\<rparr>)" using b by (simp add: backend_ok_def queue_ok_only_channels)
qed

lemma push_request_ok:
  assumes "backend_ok c"
  shows "\<exists>c'. push_request r c = Inr c' \<and> delivers c c'"
proof (cases "map_of (server_backend c) (rpc_id (fst r))")
  case None
  then show ?thesis using delivers_lost [OF assms, where l = "lost c @ [r]" and og = "outgoing c"] by (simp add: push_request_def)
next
  case (Some q)
  let ?rid = "rpc_id (fst r)"
  have q: "queue_ok c q" using assms Some by (simp add: backend_ok_def)
  then have "fq_inv q" by (simp add: queue_ok_def)
  from dispatch_same [OF this] obtain taken out q' where
    d: "fq_dispatch (sint (sid (fst r))) r q = Inr (taken, out, q')" "fq_inv q'"
      "\<And>t. dealers_of t q' = dealers_of t q" "\<And>t. has_server t q' = has_server t q" "fq_empty q' = fq_empty q"
      "\<forall>(d, x) \<in> set out. \<exists>t. d \<in> set (dealers_of t q)"
    by blast
  let ?c = "put_backend ?rid q' c"
  have q': "queue_ok c q'" using q d by (simp add: queue_ok_def)
  have m: "map_of (server_backend ?c) = (map_of (server_backend c))(?rid \<mapsto> q')"
    by (rule map_of_put_backend)
  have oc: "only_channels c ?c" by (rule only_channels_refl) (simp add: put_backend_def)
  have q1: "queue_ok ?c q'" using q' queue_ok_only_channels [OF oc] by blast
  have sr: "same_reg c ?c"
    using d(3,4) Some by (simp add: same_reg_def reg_dealers_def reg_server_def m fun_eq_iff)
  have st: "same_rest c ?c" unfolding same_rest_def put_backend_def
    by (rule exI [of _ "dealers c"], rule exI, rule exI [of _ "lost c"], rule exI [of _ "outgoing c"]) auto
  have dc: "delivers c ?c" using sr st oc backend_ok_put [OF assms q1 oc m] by (simp add: delivers_def)
  have "\<forall>(p, x) \<in> set out. initialized_server (dealers ?c p) \<and> server_req_ch (dealers ?c p) \<noteq> None"
    using d(6) q by (fastforce simp: put_backend_def queue_ok_def)
  from deliver_ok [OF this] obtain ds where
    ds: "deliver out ?c = Inr (?c\<lparr>dealers := ds\<rparr>)" "only_channels ?c (?c\<lparr>dealers := ds\<rparr>)" by blast
  have "delivers ?c (?c\<lparr>dealers := ds\<rparr>)" unfolding delivers_def
  proof (intro conjI)
    show "same_rest ?c (?c\<lparr>dealers := ds\<rparr>)" by (rule same_rest_dealers)
    show "same_reg ?c (?c\<lparr>dealers := ds\<rparr>)" by (simp add: same_reg_def reg_dealers_def reg_server_def fun_eq_iff)
    show "backend_ok (?c\<lparr>dealers := ds\<rparr>)"
      using dc queue_ok_only_channels [OF ds(2)] by (simp add: delivers_def backend_ok_def)
  qed (rule ds(2))
  then have "delivers c (?c\<lparr>dealers := ds\<rparr>)" using dc delivers_trans by blast
  moreover have "delivers c (?c\<lparr>lost := lost ?c @ [r], outgoing := outgoing ?c\<rparr>)"
    using dc delivers_lost delivers_trans unfolding delivers_def by blast
  ultimately show ?thesis using Some d(1) ds(1) by (auto simp: push_request_def Let_def)
qed

lemma push_response_delivers:
  assumes "clients_ok c" "backend_ok c"
  shows "\<exists>c'. push_response r c = Inr c' \<and> delivers c c'"
proof -
  from push_response_ok [OF assms(1)] obtain c' where
    c': "push_response r c = Inr c'" "same_rest c c'" "server_backend c' = server_backend c" "only_channels c c'" by blast
  have "backend_ok c'" using assms(2) c'(3) queue_ok_only_channels [OF c'(4)] by (simp add: backend_ok_def)
  moreover have "same_reg c c'" using c'(2,3)
    by (auto simp: same_reg_def reg_dealers_def reg_server_def fun_eq_iff same_rest_def)
  ultimately show ?thesis using c' by (auto simp: delivers_def)
qed

lemma push_messages_ok:
  assumes "ctx_inv c"
  shows "\<exists>c'. push_messages msgs c = Inr c' \<and> delivers c c'"
  using assms
proof (induction msgs arbitrary: c)
  case Nil
  then show ?case using delivers_lost [where c = c and l = "lost c" and og = "outgoing c"] by (simp add: ctx_inv_def)
next
  case (Cons m msgs)
  then obtain c1 where c1: "(if dest_dealer (fst m) = -1 then push_request m c else push_response m c) = Inr c1" "delivers c c1"
    using push_request_ok [of c m] push_response_delivers [of c m]
    by (cases "dest_dealer (fst m) = -1") (auto simp: ctx_inv_def)
  from Cons.IH [OF delivers_inv [OF c1(2) Cons.prems]] show ?case using c1 delivers_trans by auto
qed

subsection \<open>Front ends and events\<close>

lemma fold_invariant_list: "P c \<Longrightarrow> (\<And>x c. P c \<Longrightarrow> P (f x c)) \<Longrightarrow> P (fold f xs c)"
  by (induction xs arbitrary: c) auto

text \<open>Everything but the registration of descriptors is the same.\<close>

definition only_events :: "'b rpc_ctx \<Rightarrow> 'b rpc_ctx \<Rightarrow> bool" where
  "only_events c c' \<longleftrightarrow> c'\<lparr>fd_map := [], epoll := {}, n_events := 0\<rparr> = c\<lparr>fd_map := [], epoll := {}, n_events := 0\<rparr>"

lemma only_events_refl: "only_events c c"
  by (simp add: only_events_def)

lemma only_eventsE:
  assumes "only_events c c'"
  obtains m e n where "c' = c\<lparr>fd_map := m, epoll := e, n_events := n\<rparr>"
proof -
  have "c' = (c'\<lparr>fd_map := [], epoll := {}, n_events := 0\<rparr>)\<lparr>fd_map := fd_map c', epoll := epoll c', n_events := n_events c'\<rparr>"
    by simp
  also have "\<dots> = c\<lparr>fd_map := fd_map c', epoll := epoll c', n_events := n_events c'\<rparr>"
    using assms unfolding only_events_def by simp
  finally show thesis by (rule that)
qed

lemma events_ok_add: "events_ok c \<Longrightarrow> events_ok (add_event fd e c)"
  by (auto simp: events_ok_def add_event_def Let_def)

lemma del_event_ok:
  assumes "events_ok c" "e \<in> set (epfds c)" "fd_open fd c"
  shows "\<exists>c'. del_event fd e c = Inr c' \<and> events_ok c' \<and> only_events c c'"
proof (cases "(e, fd) \<in> epoll c")
  case True
  have "finite (epoll c)" using assms by (simp add: events_ok_def)
  then have "Suc (card (epoll c - {(e, fd)})) = card (epoll c)" using True by (rule card_Suc_Diff1)
  then show ?thesis using assms True by (auto simp: events_ok_def del_event_def epoll_ctl_del_def only_events_def)
qed (use assms in \<open>simp add: del_event_def epoll_ctl_del_def only_events_refl\<close>)

lemma only_events_add: "only_events c c1 \<Longrightarrow> only_events c (add_event fd e c1)"
  by (simp add: only_events_def add_event_def Let_def)

lemma only_events_trans: "only_events c d \<Longrightarrow> only_events d e \<Longrightarrow> only_events c e"
  by (simp add: only_events_def)

lemma only_events_open: "only_events c c' \<Longrightarrow> fd_open fd c' = fd_open fd c \<and> epfds c' = epfds c"
  by (erule only_eventsE) (simp add: fd_open_def socket_fds_def)

lemma only_events_map: "only_events c c1 \<Longrightarrow> only_events c (c1\<lparr>fd_map := m\<rparr>)"
  by (simp add: only_events_def)

lemma add_fds_ok:
  assumes "events_ok c"
  shows "let c' = fold (\<lambda>fd c. (add_event fd e c)\<lparr>fd_map := AList.update fd p (fd_map c)\<rparr>) fds c
    in events_ok c' \<and> only_events c c'"
  unfolding Let_def
proof (rule fold_invariant_list [where P = "\<lambda>c'. events_ok c' \<and> only_events c c'"])
  fix fd c'
  assume "events_ok c' \<and> only_events c c'"
  then have a: "events_ok (add_event fd e c')" "only_events c (add_event fd e c')"
    by (simp_all add: events_ok_add only_events_add)
  then show "events_ok ((add_event fd e c')\<lparr>fd_map := AList.update fd p (fd_map c')\<rparr>) \<and>
      only_events c ((add_event fd e c')\<lparr>fd_map := AList.update fd p (fd_map c')\<rparr>)"
    using only_events_map by (auto simp: events_ok_def)
qed (simp add: assms only_events_refl)

lemma del_fds_ok:
  assumes "events_ok c" "e \<in> set (epfds c)" "\<And>fd. fd \<in> set fds \<Longrightarrow> fd_open fd c"
  shows "\<exists>c'. del_events fds e c = Inr c' \<and> events_ok c' \<and> only_events c c'"
  using assms
proof (induction fds arbitrary: c)
  case (Cons fd fds)
  from del_event_ok [OF Cons.prems(1,2)] Cons.prems(3) obtain c1 where
    c1: "del_event fd e c = Inr c1" "events_ok c1" "only_events c c1" by auto
  have "\<exists>c'. del_events fds e c1 = Inr c' \<and> events_ok c' \<and> only_events c1 c'"
    using only_events_open [OF c1(3)] Cons.prems(2,3) by (intro Cons.IH c1(2)) auto
  then show ?case using c1 only_events_trans by auto
qed (simp add: only_events_refl)

text \<open>Changes of front ends keep the tables of servers and dealers, and who a front end belongs to.\<close>

definition fe_frame :: "'b rpc_ctx \<Rightarrow> 'b rpc_ctx \<Rightarrow> bool" where
  "fe_frame c c' \<longleftrightarrow> server_backend c' = server_backend c \<and> client_backend c' = client_backend c \<and>
     dealers c' = dealers c \<and> self_info c' = self_info c \<and> rpc_server_frontend c' = rpc_server_frontend c \<and>
     next_frontend c \<le> next_frontend c' \<and>
     (\<forall>p < next_frontend c. fe_info (frontends c' p) = fe_info (frontends c p) \<and>
        is_client_socket (frontends c' p) = is_client_socket (frontends c p))"

lemma fe_frame_refl: "fe_frame c c"
  by (simp add: fe_frame_def)

lemma fe_frame_trans: "fe_frame c d \<Longrightarrow> fe_frame d e \<Longrightarrow> fe_frame c e"
  by (auto simp: fe_frame_def)

lemma fe_frame_inv: "fe_frame c c' \<Longrightarrow> ctx_inv c \<Longrightarrow> fes_ok c' \<Longrightarrow> ctx_inv c'"
  by (auto simp: fe_frame_def ctx_inv_def backend_ok_def queue_ok_def clients_ok_def)

lemma fe_frame_reg: "fe_frame c c' \<Longrightarrow> same_reg c c'"
  by (simp add: fe_frame_def same_reg_def reg_dealers_def reg_server_def fun_eq_iff)

lemma only_events_frame: "only_events c c' \<Longrightarrow> fe_frame c c'"
  by (erule only_eventsE) (simp add: fe_frame_def)

lemma only_events_fes: "only_events c c' \<Longrightarrow> events_ok c' \<Longrightarrow> fes_ok c \<Longrightarrow> fes_ok c'"
  by (erule only_eventsE) (simp add: fes_ok_def socket_ok_def)

lemma set_frontend_ok:
  assumes "fes_ok c" "fe_info f = fe_info (frontends c p)" "is_client_socket f = is_client_socket (frontends c p)"
    "\<And>e. fe_epfd f = Some e \<Longrightarrow> p < next_frontend c \<and> e \<in> set (epfds c) \<and> fe_fds f \<noteq> None"
  shows "fes_ok (set_frontend p f c) \<and> fe_frame c (set_frontend p f c)"
  using assms by (auto simp: fes_ok_def events_ok_def socket_ok_def set_frontend_def fe_frame_def)

lemma set_fe_state_ok: "fes_ok c \<Longrightarrow> fes_ok (set_fe_state p st c) \<and> fe_frame c (set_fe_state p st c)"
  unfolding set_fe_state_def by (rule set_frontend_ok) (auto simp: fes_ok_def events_ok_def)

lemma remove_frontend_event_ok:
  assumes "fes_ok c"
  shows "\<exists>c'. remove_frontend_event p c = Inr c' \<and> fes_ok c' \<and> only_events c c'"
proof (cases "fe_epfd (frontends c p)")
  case None
  then show ?thesis using assms by (simp add: remove_frontend_event_def only_events_refl)
next
  case (Some e)
  have ev: "events_ok c" using assms by (simp add: fes_ok_def)
  then obtain fds where fds: "fe_fds (frontends c p) = Some fds" "p < next_frontend c" "e \<in> set (epfds c)"
    using Some by (auto simp: events_ok_def)
  then have "fd_open fd c" if "fd \<in> set fds" for fd
    using that unfolding fd_open_def list_ex_iff by (intro bexI [of _ p]) (simp_all add: socket_fds_def)
  then show ?thesis using Some fds del_fds_ok [OF ev fds(3), of fds] only_events_fes assms
    by (auto simp: remove_frontend_event_def)
qed

lemma sockets_frame:
  "socket_ok b (c\<lparr>client_sockets := x\<rparr>) al = socket_ok b c al" "socket_ok b (c\<lparr>server_sockets := x\<rparr>) al = socket_ok b c al"
  "events_ok (c\<lparr>client_sockets := x\<rparr>) = events_ok c" "events_ok (c\<lparr>server_sockets := x\<rparr>) = events_ok c"
  by (simp_all add: socket_ok_def events_ok_def)

lemma socket_ok_delete: "socket_ok b c al \<Longrightarrow> socket_ok b c (AList.delete r al)"
  by (simp add: socket_ok_def delete_conv')

lemma fes_ok_delete:
  assumes "fes_ok c"
  shows "fes_ok (c\<lparr>client_sockets := AList.delete r (client_sockets c)\<rparr>)"
    "fes_ok (c\<lparr>server_sockets := AList.delete r (server_sockets c)\<rparr>)"
proof -
  have d: "distinct (map fst (AList.delete r (client_sockets c)))" "distinct (map fst (AList.delete r (server_sockets c)))"
    using assms by (simp_all only: fes_ok_def distinct_delete)
  show "fes_ok (c\<lparr>client_sockets := AList.delete r (client_sockets c)\<rparr>)"
    "fes_ok (c\<lparr>server_sockets := AList.delete r (server_sockets c)\<rparr>)"
    using assms d unfolding fes_ok_def sockets_frame by (simp_all add: socket_ok_delete)
qed

lemma remove_frontend_ok:
  assumes "fes_ok c"
  shows "\<exists>c'. remove_frontend p c = Inr c' \<and> fes_ok c' \<and> fe_frame c c' \<and> frontends c' = frontends c \<and>
    (let rank = global_rank (fe_info (frontends c p)); cl = is_client_socket (frontends c p)
     in map_of (client_sockets c') = (if cl then (map_of (client_sockets c))(rank := None) else map_of (client_sockets c)) \<and>
        map_of (server_sockets c') = (if cl then map_of (server_sockets c) else (map_of (server_sockets c))(rank := None)))"
proof -
  from remove_frontend_event_ok [OF assms] obtain c1 where
    c1: "remove_frontend_event p c = Inr c1" "fes_ok c1" "only_events c c1" by blast
  let ?m = "fold AList.delete (socket_fds p c1) (fd_map c1)"
  define c2 where "c2 = c1\<lparr>fd_map := ?m\<rparr>"
  have o2: "only_events c c2" unfolding c2_def using c1(3) by (rule only_events_map)
  have f2: "fes_ok c2" using c1(2) by (auto simp: c2_def fes_ok_def events_ok_def socket_ok_def)
  have eq: "frontends c1 = frontends c" "client_sockets c2 = client_sockets c" "server_sockets c2 = server_sockets c"
    "frontends c2 = frontends c"
    using o2 c1(3) by (auto elim!: only_eventsE)
  let ?rank = "global_rank (fe_info (frontends c p))"
  let ?c3 = "if is_client_socket (frontends c p) then c2\<lparr>client_sockets := AList.delete ?rank (client_sockets c2)\<rparr>
             else c2\<lparr>server_sockets := AList.delete ?rank (server_sockets c2)\<rparr>"
  have r: "remove_frontend p c = Inr ?c3" using c1(1) eq(1) by (simp add: remove_frontend_def c2_def Let_def)
  have "fes_ok ?c3" using fes_ok_delete [OF f2] by simp
  moreover have "fe_frame c2 ?c3" by (simp add: fe_frame_def)
  ultimately show ?thesis using r fe_frame_trans [OF only_events_frame [OF o2]] eq
    by (auto simp: Let_def delete_conv')
qed

lemma add_frontend_event_ok:
  assumes "fes_ok c" "fe_fds (frontends c p) \<noteq> None" "p < next_frontend c"
  shows "\<exists>c'. add_frontend_event p c = Inr c' \<and> fes_ok c' \<and> fe_frame c c' \<and>
    client_sockets c' = client_sockets c \<and> server_sockets c' = server_sockets c"
proof -
  obtain fds where fds: "fe_fds (frontends c p) = Some fds" using assms(2) by auto
  have ep: "epfds c \<noteq> []" using assms(1) by (simp add: fes_ok_def events_ok_def)
  show ?thesis
  proof (cases fds)
    case Nil
    then show ?thesis using assms(1) fds by (simp add: add_frontend_event_def fe_frame_refl)
  next
    case (Cons fd fds')
    let ?e = "epfds c ! (event_idx c mod length (epfds c))"
    let ?f = "(frontends c p)\<lparr>fe_epfd := Some ?e\<rparr>"
    define c1 where "c1 = (set_frontend p ?f c)\<lparr>event_idx := event_idx c + 1\<rparr>"
    define c2 where "c2 = fold (\<lambda>fd c. (add_event fd ?e c)\<lparr>fd_map := AList.update fd p (fd_map c)\<rparr>) fds c1"
    have "fes_ok (set_frontend p ?f c) \<and> fe_frame c (set_frontend p ?f c)"
      by (rule set_frontend_ok) (use assms fds ep in auto)
    then have f1: "fes_ok c1" "fe_frame c c1"
      by (auto simp: c1_def fes_ok_def events_ok_def socket_ok_def fe_frame_def)
    then have "events_ok c1" by (simp add: fes_ok_def)
    from add_fds_ok [OF this, where e = ?e and p = p and fds = fds] have e2: "events_ok c2" "only_events c1 c2"
      by (simp_all add: c2_def Let_def)
    have a: "add_frontend_event p c = Inr c2"
      using fds ep by (simp add: add_frontend_event_def c2_def c1_def Let_def Cons)
    have "client_sockets c2 = client_sockets c" "server_sockets c2 = server_sockets c"
      using e2(2) by (auto elim!: only_eventsE simp: c1_def set_frontend_def)
    then show ?thesis using a only_events_fes [OF e2(2,1) f1(1)] fe_frame_trans [OF f1(2) only_events_frame [OF e2(2)]]
      by simp
  qed
qed

lemma frontend_connected_ok:
  assumes "fes_ok c" "p < next_frontend c"
  shows "\<exists>c'. frontend_connected p fds c = Inr c' \<and> fes_ok c' \<and> fe_frame c c' \<and>
    client_sockets c' = client_sockets c \<and> server_sockets c' = server_sockets c"
proof -
  define c1 where "c1 = set_frontend p ((frontends c p)\<lparr>fe_fds := Some fds\<rparr>) c"
  have f1: "fes_ok c1" "fe_frame c c1"
    unfolding c1_def using set_frontend_ok [OF assms(1), of "(frontends c p)\<lparr>fe_fds := Some fds\<rparr>" p] assms
    by (auto simp: fes_ok_def events_ok_def)
  have "fe_fds (frontends c1 p) \<noteq> None" "p < next_frontend c1" using assms(2) by (simp_all add: c1_def set_frontend_def)
  from add_frontend_event_ok [OF f1(1) this] obtain c2 where
    c2: "add_frontend_event p c1 = Inr c2" "fes_ok c2" "fe_frame c1 c2"
      "client_sockets c2 = client_sockets c1" "server_sockets c2 = server_sockets c1" by blast
  have "client_sockets c1 = client_sockets c" "server_sockets c1 = server_sockets c"
    by (simp_all add: c1_def set_frontend_def)
  then show ?thesis
    using c2 f1 set_fe_state_ok [OF c2(2), of p FRONTEND_CONNECT] fe_frame_trans
    unfolding frontend_connected_def c1_def [symmetric]
    by (auto simp: set_fe_state_def set_frontend_def intro: fe_frame_trans)
qed

lemma new_frontend_ok:
  assumes "fes_ok c" "new_frontend info cl c = (p, c')"
  shows "fes_ok c'" "fe_frame c c'" "p < next_frontend c'" "global_rank (fe_info (frontends c' p)) = global_rank info"
    "is_client_socket (frontends c' p) = cl" "client_sockets c' = client_sockets c" "server_sockets c' = server_sockets c"
    "to_del_client_sockets c' = to_del_client_sockets c" "\<forall>q < next_frontend c. frontends c' q = frontends c q"
proof -
  have e: "p = next_frontend c"
    "c' = c\<lparr>next_frontend := next_frontend c + 1, frontends := (frontends c)(next_frontend c := frontend_new info cl)\<rparr>"
    using assms(2) by (auto simp: new_frontend_def set_frontend_def)
  show "fe_frame c c'" "p < next_frontend c'" "global_rank (fe_info (frontends c' p)) = global_rank info"
    "is_client_socket (frontends c' p) = cl" "client_sockets c' = client_sockets c" "server_sockets c' = server_sockets c"
    "to_del_client_sockets c' = to_del_client_sockets c" "\<forall>q < next_frontend c. frontends c' q = frontends c q"
    by (simp_all add: e fe_frame_def frontend_new_def)
  have "socket_ok b c' socks" if "socket_ok b c socks" for b socks
    using that by (fastforce simp: e socket_ok_def)
  moreover have "events_ok c'" using assms(1) by (auto simp: e events_ok_def fes_ok_def frontend_new_def less_SucI)
  ultimately show "fes_ok c'" using assms(1) by (simp add: fes_ok_def) (simp add: e)
qed

lemma accept_frontend_ok:
  assumes "fes_ok c"
  shows "\<exists>c'. accept_frontend info fds c = Inr c' \<and> fes_ok c' \<and> fe_frame c c' \<and>
    (\<exists>p. map_of (server_sockets c') (global_rank info) = Some p)"
proof -
  obtain p c0 where n: "new_frontend info False c = (p, c0)" by fastforce
  note n' = new_frontend_ok [OF assms n]
  obtain c1 where c1: "(case map_of (server_sockets c0) (global_rank info) of None \<Rightarrow> Inr c0 | Some old \<Rightarrow> remove_frontend old c0) = Inr c1"
    "fes_ok c1" "fe_frame c0 c1" "frontends c1 = frontends c0" "map_of (server_sockets c1) (global_rank info) = None"
  proof (cases "map_of (server_sockets c0) (global_rank info)")
    case None
    then show thesis using that [of c0] n'(1) by (simp add: fe_frame_refl)
  next
    case (Some old)
    from remove_frontend_ok [OF n'(1), of old] obtain c1 where
      r: "remove_frontend old c0 = Inr c1" "fes_ok c1" "fe_frame c0 c1" "frontends c1 = frontends c0"
        "map_of (server_sockets c1) = (if is_client_socket (frontends c0 old) then map_of (server_sockets c0)
           else (map_of (server_sockets c0))(global_rank (fe_info (frontends c0 old)) := None))"
      by (auto simp: Let_def)
    have "global_rank (fe_info (frontends c0 old)) = global_rank info" "\<not> is_client_socket (frontends c0 old)"
      using n'(1) Some by (auto simp: fes_ok_def socket_ok_def)
    then show thesis using that r Some by simp
  qed
  define c2 where "c2 = c1\<lparr>server_sockets := emplace (global_rank info) p (server_sockets c1)\<rparr>"
  have lt: "p < next_frontend c1" using n'(3) c1(3) by (auto simp: fe_frame_def)
  have m2: "map_of (server_sockets c2) = (map_of (server_sockets c1))(global_rank info \<mapsto> p)"
    using c1(5) by (auto simp: c2_def emplace_def map_add_def fun_eq_iff split: option.splits)
  have "distinct (map fst (server_sockets c2))"
    using c1(2) by (simp add: c2_def fes_ok_def distinct_emplace)
  then have "fes_ok c2" using c1(2,4) n'(4,5) lt
    unfolding fes_ok_def socket_ok_def m2 by (auto simp: c2_def events_ok_def split: if_splits)
  moreover have "fe_frame c1 c2" by (simp add: c2_def fe_frame_def)
  moreover have "p < next_frontend c2" using lt by (simp add: c2_def)
  moreover from frontend_connected_ok [OF \<open>fes_ok c2\<close> this] obtain c3 where
    c3: "frontend_connected p fds c2 = Inr c3" "fes_ok c3" "fe_frame c2 c3" "server_sockets c3 = server_sockets c2" by blast
  ultimately show ?thesis using n c1 c3 m2 fe_frame_trans [OF n'(2)] fe_frame_trans
    by (auto simp: accept_frontend_def c2_def Let_def)
qed

lemma ctx_accept_ok:
  assumes "fes_ok c"
  shows "(\<exists>c'. ctx_accept conn c = Inr c') \<longleftrightarrow> (\<forall>magic info fds. conn = Some (magic, info, fds) \<longrightarrow> magic = 0)"
    and "ctx_accept conn c = Inr c' \<Longrightarrow> fes_ok c' \<and> fe_frame c c'"
proof -
  have a: "\<exists>c'. accept_frontend info fds c = Inr c' \<and> fes_ok c' \<and> fe_frame c c'" for info fds
    using accept_frontend_ok [OF assms] by blast
  show "(\<exists>c'. ctx_accept conn c = Inr c') \<longleftrightarrow> (\<forall>magic info fds. conn = Some (magic, info, fds) \<longrightarrow> magic = 0)"
    using a by (auto simp: ctx_accept_def scheck_def split: option.splits)
  show "fes_ok c' \<and> fe_frame c c'" if "ctx_accept conn c = Inr c'"
  proof (cases conn)
    case None
    then show ?thesis using that assms by (simp add: ctx_accept_def fe_frame_refl)
  next
    case (Some x)
    obtain magic info fds where "x = (magic, info, fds)" by (cases x)
    then show ?thesis using that Some a [of info fds] by (auto simp: ctx_accept_def scheck_def split: if_splits)
  qed
qed

lemma handle_message_event_current: "handle_message_event fd msgs alive c = Inr c' \<Longrightarrow> fd_current fd c"
  by (auto simp: handle_message_event_def fd_current_def scheck_def split: option.splits if_splits)

text \<open>
  A front end that connects again keeps the entry of its old descriptor in \<open>_fd_map\<close>: an event that was fetched for
  it before fails the check of the new socket.
\<close>

lemma fold_fd_map:
  assumes "fd \<notin> set fds"
  shows "map_of (fd_map (fold (\<lambda>fd c. (add_event fd e c)\<lparr>fd_map := AList.update fd p (fd_map c)\<rparr>) fds c)) fd = map_of (fd_map c) fd"
  using assms by (induction fds arbitrary: c) (auto simp: update_conv')

theorem stale_descriptor_aborts:
  assumes "map_of (fd_map c) fd = Some p" "frontend_connected p fds c = Inr c'" "fd \<notin> set fds"
  shows "handle_message_event fd msgs alive c' = Inl Check_failed"
proof -
  define c1 where "c1 = set_frontend p ((frontends c p)\<lparr>fe_fds := Some fds\<rparr>) c"
  obtain c2 where c2: "add_frontend_event p c1 = Inr c2" "c' = set_fe_state p FRONTEND_CONNECT c2"
    using assms(2) by (auto simp: frontend_connected_def c1_def rbind_eq_Inr)
  have "fe_fds (frontends c1 p) = Some fds" by (simp add: c1_def set_frontend_def)
  then have "map_of (fd_map c2) fd = map_of (fd_map c1) fd \<and> fe_fds (frontends c2 p) = Some fds"
  proof (cases fds)
    case Nil
    then show ?thesis using c2(1) \<open>fe_fds (frontends c1 p) = Some fds\<close> by (simp add: add_frontend_event_def)
  next
    case (Cons x xs)
    let ?e = "epfds c1 ! (event_idx c1 mod length (epfds c1))"
    let ?c = "(set_frontend p ((frontends c1 p)\<lparr>fe_epfd := Some ?e\<rparr>) c1)\<lparr>event_idx := event_idx c1 + 1\<rparr>"
    have e: "c2 = fold (\<lambda>fd c. (add_event fd ?e c)\<lparr>fd_map := AList.update fd p (fd_map c)\<rparr>) fds ?c"
      using c2(1) \<open>fe_fds (frontends c1 p) = Some fds\<close>
      by (auto simp: add_frontend_event_def Cons Let_def split: if_splits)
    have "frontends c2 = frontends ?c" unfolding e
      by (rule fold_invariant_list [where P = "\<lambda>d. frontends d = frontends ?c"]) (simp_all add: add_event_def Let_def)
    then show ?thesis using \<open>fe_fds (frontends c1 p) = Some fds\<close>
      unfolding e fold_fd_map [OF assms(3)] by (simp add: set_frontend_def)
  qed
  moreover have "fd_map c1 = fd_map c" by (simp add: c1_def set_frontend_def)
  ultimately show ?thesis using assms(1,3)
    by (simp add: handle_message_event_def c2(2) set_fe_state_def set_frontend_def socket_fds_def scheck_def)
qed

lemma handle_message_event_ok:
  assumes "ctx_inv c" "fd_current fd c"
  shows "\<exists>c'. handle_message_event fd msgs alive c = Inr c' \<and> ctx_inv c' \<and> same_reg c c' \<and> only_channels c c'"
proof (cases "map_of (fd_map c) fd")
  case None
  then show ?thesis using assms by (simp add: handle_message_event_def only_channels_refl same_reg_def)
next
  case (Some f)
  have cur: "fd \<in> set (socket_fds f c)" using assms(2) Some by (simp add: fd_current_def)
  from push_messages_ok [OF assms(1), of msgs] obtain c1 where
    c1: "push_messages msgs c = Inr c1" "delivers c c1" by blast
  note i1 = delivers_inv [OF c1(2) assms(1)]
  then have "fes_ok c1" by (simp add: ctx_inv_def)
  from remove_frontend_event_ok [OF this, of f] obtain c2 where
    c2: "remove_frontend_event f c1 = Inr c2" "fes_ok c2" "only_events c1 c2" by blast
  define c3 where "c3 = set_fe_state f FRONTEND_EPIPE c2"
  have f3: "fes_ok c3" "fe_frame c1 c3"
    unfolding c3_def using set_fe_state_ok [OF c2(2), of f FRONTEND_EPIPE] fe_frame_trans [OF only_events_frame [OF c2(3)]]
    by auto
  from remove_frontend_ok [OF f3(1), of f] obtain c4 where
    c4: "remove_frontend f c3 = Inr c4" "fes_ok c4" "fe_frame c3 c4" by auto
  have fin: "ctx_inv d \<and> same_reg c d \<and> only_channels c d" if "fes_ok d" "fe_frame c1 d" for d
  proof (intro conjI)
    show "ctx_inv d" using fe_frame_inv [OF that(2) i1 that(1)] .
    show "same_reg c d" using c1(2) same_reg_trans fe_frame_reg [OF that(2)] by (auto simp: delivers_def)
    have "only_channels c1 d" using that(2) by (simp add: fe_frame_def only_channels_refl)
    then show "only_channels c d" using c1(2) only_channels_trans by (auto simp: delivers_def)
  qed
  show ?thesis
    using Some cur c1(1) c2(1) c4(1) fin [OF \<open>fes_ok c1\<close> fe_frame_refl] fin [OF f3]
      fin [OF c4(2) fe_frame_trans [OF f3(2) c4(3)]]
    by (auto simp: handle_message_event_def c3_def [symmetric] Let_def)
qed

subsection \<open>Updates\<close>

definition fe_rank :: "'b rpc_ctx \<Rightarrow> nat \<Rightarrow> 16 word" where
  "fe_rank c p = global_rank (fe_info (frontends c p))"

lemma remove_stale_ok:
  assumes "fes_ok c"
  shows "\<exists>c'. remove_stale now ps c = Inr c' \<and> fes_ok c' \<and> fe_frame c c' \<and> frontends c' = frontends c \<and>
    to_del_client_sockets c' = to_del_client_sockets c \<union> fe_rank c ` {p \<in> set ps. fe_available now (frontends c p)} \<and>
    (\<forall>r. map_of (client_sockets c') r =
      (if \<exists>p \<in> set ps. \<not> fe_available now (frontends c p) \<and> is_client_socket (frontends c p) \<and> fe_rank c p = r
       then None else map_of (client_sockets c) r))"
  using assms
proof (induction ps arbitrary: c)
  case Nil
  then show ?case by (simp add: fe_frame_refl)
next
  case (Cons p ps)
  show ?case
  proof (cases "fe_available now (frontends c p)")
    case True
    define c0 where "c0 = c\<lparr>to_del_client_sockets := insert (global_rank (fe_info (frontends c p))) (to_del_client_sockets c)\<rparr>"
    have e: "frontends c0 = frontends c" "client_sockets c0 = client_sockets c" "fe_rank c0 = fe_rank c"
      "to_del_client_sockets c0 = insert (fe_rank c p) (to_del_client_sockets c)"
      by (simp_all add: c0_def fe_rank_def fun_eq_iff)
    have f0: "fes_ok c0" "fe_frame c c0"
      using Cons.prems by (simp_all add: c0_def fes_ok_def events_ok_def socket_ok_def fe_frame_def)
    have i: "{q \<in> set (p # ps). fe_available now (frontends c q)} = insert p {q \<in> set ps. fe_available now (frontends c q)}"
      using True by auto
    have s: "remove_stale now (p # ps) c = remove_stale now ps c0" using True by (simp add: c0_def)
    from Cons.IH [OF f0(1), unfolded e] show ?thesis
      unfolding s i using True fe_frame_trans [OF f0(2)] by auto
  next
    case False
    from remove_frontend_ok [OF Cons.prems, of p] obtain c1 where
      c1: "remove_frontend p c = Inr c1" "fes_ok c1" "fe_frame c c1" "frontends c1 = frontends c"
        "map_of (client_sockets c1) = (if is_client_socket (frontends c p)
           then (map_of (client_sockets c))(fe_rank c p := None) else map_of (client_sockets c))"
      by (auto simp: Let_def fe_rank_def)
    have td: "to_del_client_sockets c1 = to_del_client_sockets c"
      using c1(1) remove_frontend_event_ok [OF Cons.prems, of p]
      by (auto simp: remove_frontend_def Let_def elim!: only_eventsE split: if_splits)
    from Cons.IH [OF c1(2)] obtain c' where
      c': "remove_stale now ps c1 = Inr c'" "fes_ok c'" "fe_frame c1 c'" "frontends c' = frontends c"
        "to_del_client_sockets c' = to_del_client_sockets c \<union> fe_rank c ` {p \<in> set ps. fe_available now (frontends c p)}"
        "\<forall>r. map_of (client_sockets c') r =
          (if \<exists>p \<in> set ps. \<not> fe_available now (frontends c p) \<and> is_client_socket (frontends c p) \<and> fe_rank c p = r
           then None else map_of (client_sockets c1) r)"
      unfolding c1(4) td by (auto simp: fe_rank_def c1(4))
    have "{q \<in> set (p # ps). fe_available now (frontends c q)} = {q \<in> set ps. fe_available now (frontends c q)}"
      using False by auto
    then show ?thesis using c1 c' False fe_frame_trans [OF c1(3) c'(3)] by auto
  qed
qed

lemma add_clients_ok:
  assumes "fes_ok c"
  shows "fes_ok (add_clients infos c) \<and> fe_frame c (add_clients infos c) \<and>
    to_del_client_sockets (add_clients infos c) = to_del_client_sockets c \<and>
    (\<forall>q < next_frontend c. frontends (add_clients infos c) q = frontends c q) \<and>
    (\<forall>r p. map_of (client_sockets c) r = Some p \<longrightarrow> map_of (client_sockets (add_clients infos c)) r = Some p) \<and>
    (\<forall>r p. map_of (client_sockets (add_clients infos c)) r = Some p \<longrightarrow> map_of (client_sockets c) r = None \<longrightarrow> next_frontend c \<le> p) \<and>
    (\<forall>r. map_of (client_sockets (add_clients infos c)) r = None \<longleftrightarrow>
       map_of (client_sockets c) r = None \<and> r \<notin> global_rank ` set infos)"
  using assms
proof (induction infos arbitrary: c)
  case Nil
  then show ?case by (simp add: fe_frame_refl)
next
  case (Cons i infos)
  obtain p c1 where n: "new_frontend i True c = (p, c1)" by fastforce
  note n' = new_frontend_ok [OF Cons.prems n]
  define c2 where "c2 = c1\<lparr>client_sockets := emplace (global_rank i) p (client_sockets c1)\<rparr>"
  have m2: "map_of (client_sockets c2) r =
      (if r = global_rank i \<and> map_of (client_sockets c) r = None then Some p else map_of (client_sockets c) r)" for r
    by (auto simp: c2_def emplace_def map_add_def n'(6) split: option.splits)
  have "socket_ok True c2 (client_sockets c2)"
    using n'(1,3,4,5) unfolding socket_ok_def m2
    by (auto simp: fes_ok_def socket_ok_def c2_def n'(6) split: if_splits)
  moreover have "distinct (map fst (client_sockets c2))"
    using n'(1) by (simp add: c2_def fes_ok_def distinct_emplace)
  ultimately have f2: "fes_ok c2" using n'(1) by (auto simp: fes_ok_def events_ok_def socket_ok_def c2_def)
  have "fe_frame c1 c2" by (simp add: c2_def fe_frame_def)
  then have fr: "fe_frame c c2" using fe_frame_trans n'(2) by blast
  have le: "next_frontend c \<le> next_frontend c2" using fr by (simp add: fe_frame_def)
  have a: "add_clients (i # infos) c = add_clients infos c2" by (simp add: n c2_def Let_def)
  have td: "to_del_client_sockets c2 = to_del_client_sockets c" "frontends c2 = frontends c1"
    by (simp_all add: c2_def n'(8))
  note IH = Cons.IH [OF f2]
  show ?case unfolding a
  proof (intro conjI)
    show "fes_ok (add_clients infos c2)" "to_del_client_sockets (add_clients infos c2) = to_del_client_sockets c"
      using IH td by simp_all
    show "fe_frame c (add_clients infos c2)" using IH fe_frame_trans [OF fr] by blast
    show "\<forall>q < next_frontend c. frontends (add_clients infos c2) q = frontends c q"
      using IH le n'(9) td(2) by auto
    show "\<forall>r p. map_of (client_sockets c) r = Some p \<longrightarrow> map_of (client_sockets (add_clients infos c2)) r = Some p"
      using IH m2 by simp
    show "\<forall>r q. map_of (client_sockets (add_clients infos c2)) r = Some q \<longrightarrow> map_of (client_sockets c) r = None \<longrightarrow> next_frontend c \<le> q"
    proof (intro allI impI)
      fix r q
      assume q: "map_of (client_sockets (add_clients infos c2)) r = Some q" "map_of (client_sockets c) r = None"
      show "next_frontend c \<le> q"
      proof (cases "r = global_rank i")
        case True
        then have "map_of (client_sockets (add_clients infos c2)) r = Some p" using IH m2 q(2) by simp
        then show ?thesis using q(1) n by (auto simp: new_frontend_def)
      next
        case False
        then have "map_of (client_sockets c2) r = None" using m2 q(2) by simp
        then show ?thesis using IH q(1) le by (meson le_trans)
      qed
    qed
    show "\<forall>r. map_of (client_sockets (add_clients infos c2)) r = None \<longleftrightarrow>
        map_of (client_sockets c) r = None \<and> r \<notin> global_rank ` set (i # infos)"
      using IH m2 by auto
  qed
qed

text \<open>The list of nodes that decides what is stale: the second answer of the master if the first one misses a
  node that is connected to this one.\<close>

definition known_nodes :: "comm_info list \<Rightarrow> comm_info list \<Rightarrow> 'b rpc_ctx \<Rightarrow> 16 word set" where
  "known_nodes list again c = global_rank ` set (if stale list (server_sockets c) c = [] then list else again)"

lemma update_comm_info_ok:
  assumes "fes_ok c"
  shows "\<exists>c'. update_comm_info now list again c = Inr c' \<and> fes_ok c' \<and> fe_frame c c' \<and>
    (\<forall>r p. map_of (client_sockets c) r = Some p \<longrightarrow>
       (if r \<in> known_nodes list again c then map_of (client_sockets c') r = Some p
        else if fe_available now (frontends c p)
        then map_of (client_sockets c') r = Some p \<and> r \<in> to_del_client_sockets c'
        else map_of (client_sockets c') r \<noteq> Some p)) \<and>
    (\<forall>r. map_of (client_sockets c') r = None \<longrightarrow> r \<notin> global_rank ` set list)"
proof -
  have sk: "map_of (client_sockets c) r = Some p \<Longrightarrow> p < next_frontend c \<and> fe_rank c p = r \<and> is_client_socket (frontends c p)" for r p
    using assms by (auto simp: fes_ok_def socket_ok_def fe_rank_def)
  define kn where "kn = (if stale list (server_sockets c) c = [] then list else again)"
  define ps where "ps = (if stale list (server_sockets c) c = [] then [] else stale again (server_sockets c) c) @
    stale kn (client_sockets c) c"
  have kn: "known_nodes list again c = global_rank ` set kn" by (simp add: known_nodes_def kn_def)
  from remove_stale_ok [OF assms, of now ps] obtain c1 where
    c1: "remove_stale now ps c = Inr c1" "fes_ok c1" "fe_frame c c1" "frontends c1 = frontends c"
      "to_del_client_sockets c1 = to_del_client_sockets c \<union> fe_rank c ` {p \<in> set ps. fe_available now (frontends c p)}"
      "\<And>r. map_of (client_sockets c1) r =
        (if \<exists>p \<in> set ps. \<not> fe_available now (frontends c p) \<and> is_client_socket (frontends c p) \<and> fe_rank c p = r
         then None else map_of (client_sockets c) r)" by blast
  let ?add = "filter (\<lambda>i. map_of (client_sockets c1) (global_rank i) = None) list"
  define c2 where "c2 = add_clients ?add c1"
  note a = add_clients_ok [OF c1(2), of ?add, folded c2_def]
  have u: "update_comm_info now list again c = Inr c2"
    using c1(1) by (auto simp: update_comm_info_def kn_def ps_def c2_def Let_def split: if_splits)
  have rk: "fe_rank c p \<notin> known_nodes list again c" if "p \<in> set ps" for p
    using that by (auto simp: ps_def stale_def kn kn_def fe_rank_def split: if_splits)
  have mem: "p \<in> set ps" if "map_of (client_sockets c) r = Some p" "r \<notin> known_nodes list again c" for r p
  proof -
    have "p \<in> snd ` set (client_sockets c)" using map_of_SomeD [OF that(1)] by force
    then show ?thesis using that(2) sk [OF that(1)] by (auto simp: ps_def stale_def kn fe_rank_def)
  qed
  have own: "map_of (client_sockets c) (fe_rank c p) = Some p" if "p \<in> set ps" "is_client_socket (frontends c p)" for p
  proof -
    have d: "distinct (map fst (client_sockets c))" "distinct (map fst (server_sockets c))"
      using assms by (simp_all add: fes_ok_def)
    have "p \<notin> snd ` set (server_sockets c)"
    proof
      assume "p \<in> snd ` set (server_sockets c)"
      then obtain r where "map_of (server_sockets c) r = Some p" using d(2) by auto
      then show False using assms that(2) by (auto simp: fes_ok_def socket_ok_def)
    qed
    then have "p \<in> snd ` set (client_sockets c)" using that(1) by (auto simp: ps_def stale_def split: if_splits)
    then obtain r where "map_of (client_sockets c) r = Some p" using d(1) by auto
    then show ?thesis using sk by blast
  qed
  have main: "if r \<in> known_nodes list again c then map_of (client_sockets c2) r = Some p
      else if fe_available now (frontends c p)
      then map_of (client_sockets c2) r = Some p \<and> r \<in> to_del_client_sockets c2
      else map_of (client_sockets c2) r \<noteq> Some p" if m: "map_of (client_sockets c) r = Some p" for r p
  proof (cases "r \<in> known_nodes list again c")
    case True
    then have "map_of (client_sockets c1) r = Some p" using rk m by (auto simp: c1(6))
    then show ?thesis using True a by simp
  next
    case False
    note p = mem [OF m False]
    show ?thesis
    proof (cases "fe_available now (frontends c p)")
      case True
      have "\<not> (\<exists>q \<in> set ps. \<not> fe_available now (frontends c q) \<and> is_client_socket (frontends c q) \<and> fe_rank c q = r)"
        using own m True by auto
      then have "map_of (client_sockets c1) r = Some p" using m by (simp add: c1(6))
      moreover have "r \<in> to_del_client_sockets c1" using p True sk [OF m] by (auto simp: c1(5))
      ultimately show ?thesis using a False True by simp
    next
      case nav: False
      then have "map_of (client_sockets c1) r = None" using p sk [OF m] by (auto simp: c1(6))
      moreover have "next_frontend c \<le> next_frontend c1" using c1(3) by (simp add: fe_frame_def)
      ultimately have "map_of (client_sockets c2) r \<noteq> Some p" using a sk [OF m] by (metis leD le_trans)
      then show ?thesis using False nav by simp
    qed
  qed
  show ?thesis using u a fe_frame_trans [OF c1(3)] main by auto
qed

lemma update_service_info_inv:
  assumes "ctx_inv c" "update_service_info list c = Inr c'"
  shows "ctx_inv c' \<and> same_reg c c' \<and> dealers c' = dealers c"
proof -
  let ?t = "service_table list c"
  let ?c = "c\<lparr>rpc_info := ?t, rpc_server_info := [], rpc_server_frontend := [], rpc_server_id_frontend := []\<rparr>"
  have t: "tables_of (all_servers ?t) ?c c'"
    using update_service_info_spec [of list c] assms(2) by auto
  then have ne: "\<forall>r. map_of (rpc_server_frontend c') r \<noteq> Some []" by (simp add: tables_of_def)
  from t obtain a f b where "c' = ?c\<lparr>rpc_server_info := a, rpc_server_frontend := f, rpc_server_id_frontend := b\<rparr>"
    by (auto simp: tables_of_def same_frontends_def)
  then obtain i where c': "c' = c\<lparr>rpc_info := i, rpc_server_info := a, rpc_server_frontend := f, rpc_server_id_frontend := b\<rparr>"
    by simp
  have "fes_ok c'" using assms(1) ne by (simp add: c' ctx_inv_def fes_ok_def events_ok_def socket_ok_def)
  moreover have "backend_ok c'" "clients_ok c'"
    using assms(1) by (simp_all add: c' ctx_inv_def backend_ok_def queue_ok_def clients_ok_def)
  moreover have "same_reg c c'" by (simp add: c' same_reg_def reg_dealers_def reg_server_def fun_eq_iff)
  ultimately show ?thesis by (simp add: ctx_inv_def) (simp add: c')
qed

subsection \<open>Sending\<close>

lemma choose_frontend_ok: "fes_ok c \<Longrightarrow> \<exists>f. choose_frontend now rand h c = Inr f"
  by (auto simp: choose_frontend_def get_client_frontend_by_rpc_id_def fes_ok_def Let_def split: option.splits)

lemma ctx_send_request_ok:
  assumes "ctx_inv c"
  shows "\<exists>rank c'. ctx_send_request now rand msg c = Inr (rank, c') \<and> delivers c c'"
proof -
  have inv: "clients_ok c" "backend_ok c" "fes_ok c" using assms by (simp_all add: ctx_inv_def)
  from choose_frontend_ok [OF inv(3)] obtain f where f: "choose_frontend now rand (fst msg) c = Inr f" by blast
  show ?thesis
  proof (cases f)
    case None
    let ?r = "((response_head (fst msg))\<lparr>error_code := ENOSUCHSERVER\<rparr>, None)"
    from push_response_delivers [OF inv(1,2), of ?r] obtain c' where "push_response ?r c = Inr c'" "delivers c c'" by blast
    then show ?thesis using f None by (simp add: ctx_send_request_def)
  next
    case (Some p)
    have "delivers c (c\<lparr>outgoing := og\<rparr>)" for og
      using delivers_lost [OF inv(2), where l = "lost c" and og = og] by simp
    then show ?thesis using f Some push_request_ok [OF inv(2), of msg]
      by (auto simp: ctx_send_request_def Let_def)
  qed
qed

lemma ctx_send_response_delivers: "backend_ok c \<Longrightarrow> delivers c (ctx_send_response now resp nb c)"
proof -
  assume b: "backend_ok c"
  have 1: "delivers c (c\<lparr>outgoing := og\<rparr>)" for og
    using delivers_lost [OF b, where l = "lost c" and og = og] by simp
  have 2: "delivers c (c\<lparr>lost := l\<rparr>)" for l
    using delivers_lost [OF b, where l = l and og = "outgoing c"] by simp
  show ?thesis using 1 2 by (simp add: ctx_send_response_def split: option.splits)
qed

subsection \<open>Servers and dealers\<close>

lemma fq_new_inv: "fq_inv (fq_new i j)"
  by (simp add: fq_new_def fq_inv_def dealers_of_def)

lemma fq_new_empty: "dealers_of s (fq_new i j) = []" "\<not> has_server s (fq_new i j)"
  by (simp_all add: fq_new_def dealers_of_def has_server_def)

lemma backend_queue_facts:
  assumes "backend_ok c"
  shows "fq_inv (backend_queue ij rid c)" "dealers_of s (backend_queue ij rid c) = reg_dealers c rid s"
    "has_server s (backend_queue ij rid c) = reg_server c rid s"
    "\<forall>d \<in> set (reg_dealers c rid s). initialized_server (dealers c d) \<and> server_req_ch (dealers c d) \<noteq> None"
  using assms
  by (cases "map_of (server_backend c) rid";
      simp add: backend_queue_def backend_ok_def queue_ok_def fq_new_inv fq_new_empty reg_dealers_def reg_server_def)+

text \<open>Replacing the queue of a service, or erasing it when it is empty.\<close>

lemma replace_queue:
  assumes "ctx_inv c" "fq_inv q"
    "\<And>s d. d \<in> set (dealers_of s q) \<Longrightarrow> initialized_server (dealers c d) \<and> server_req_ch (dealers c d) \<noteq> None"
  shows "ctx_inv (erase_if_empty rid q c) \<and>
    reg_dealers (erase_if_empty rid q c) = (\<lambda>r s. if r = rid then dealers_of s q else reg_dealers c r s) \<and>
    reg_server (erase_if_empty rid q c) = (\<lambda>r s. if r = rid then has_server s q else reg_server c r s)"
proof (cases "fq_empty q")
  case True
  let ?c = "c\<lparr>server_backend := AList.delete rid (server_backend c)\<rparr>"
  have m: "map_of (server_backend ?c) = (map_of (server_backend c))(rid := None)" by (simp add: delete_conv')
  have "dealers_of s q = []" "\<not> has_server s q" for s
    using True by (auto simp: fq_empty_def dealers_of_def has_server_def)
  then have "reg_dealers ?c = (\<lambda>r s. if r = rid then dealers_of s q else reg_dealers c r s)"
    "reg_server ?c = (\<lambda>r s. if r = rid then has_server s q else reg_server c r s)"
    by (simp_all add: reg_dealers_def reg_server_def delete_conv' fun_eq_iff)
  moreover have "backend_ok ?c" using assms(1) unfolding ctx_inv_def backend_ok_def m
    by (auto simp: queue_ok_def split: if_splits)
  moreover have "clients_ok ?c" "fes_ok ?c"
    using assms(1) by (simp_all add: ctx_inv_def clients_ok_def fes_ok_def events_ok_def socket_ok_def)
  ultimately show ?thesis using True by (simp add: erase_if_empty_def ctx_inv_def)
next
  case False
  let ?c = "put_backend rid q c"
  note m = map_of_put_backend [of rid q c]
  have "reg_dealers ?c = (\<lambda>r s. if r = rid then dealers_of s q else reg_dealers c r s)"
    "reg_server ?c = (\<lambda>r s. if r = rid then has_server s q else reg_server c r s)"
    by (simp_all add: reg_dealers_def reg_server_def m fun_eq_iff)
  moreover have "backend_ok ?c" using assms False unfolding ctx_inv_def backend_ok_def m
    by (auto simp: queue_ok_def split: if_splits)
  moreover have "clients_ok ?c" "fes_ok ?c"
    using assms(1) by (simp_all add: put_backend_def ctx_inv_def clients_ok_def fes_ok_def events_ok_def socket_ok_def)
  ultimately show ?thesis using False by (simp add: erase_if_empty_def ctx_inv_def)
qed

lemma erase_put: "\<not> fq_empty q \<Longrightarrow> put_backend rid q c = erase_if_empty rid q c"
  by (simp add: erase_if_empty_def)

lemma erase_fields [simp]:
  "dealers (erase_if_empty rid q c) = dealers c" "client_backend (erase_if_empty rid q c) = client_backend c"
  "self_info (erase_if_empty rid q c) = self_info c"
  by (simp_all add: erase_if_empty_def put_backend_def)

text \<open>What an operation on the servers and dealers of a service changes.\<close>

definition reg_step :: "'b rpc_ctx \<Rightarrow> 'b rpc_ctx \<Rightarrow> bool" where
  "reg_step c c' \<longleftrightarrow> ctx_inv c' \<and> only_channels c c' \<and> client_backend c' = client_backend c \<and> self_info c' = self_info c"

lemma end_add_server_ok:
  assumes "ctx_inv c" "\<not> reg_server c rid (sint s)"
  shows "\<exists>c'. end_add_server ij rid s c = Inr c' \<and> reg_step c c' \<and> reg_dealers c' = reg_dealers c \<and>
    reg_server c' = (\<lambda>r t. (r = rid \<and> t = sint s) \<or> reg_server c r t)"
proof -
  let ?q = "backend_queue ij rid c"
  have b: "backend_ok c" using assms(1) by (simp add: ctx_inv_def)
  note q = backend_queue_facts [OF b]
  have ns: "\<not> has_server (sint s) ?q" using assms(2) q(3) by blast
  define q' where "q' = ?q\<lparr>sid2cache := (sint s, []) # sid2cache ?q\<rparr>"
  have a: "fq_add_server (sint s) ?q = Inr q'" using ns by (simp add: fq_add_server_def has_server_def q'_def)
  have inv: "fq_inv q'" using add_server_keeps [OF q(1) ns] a by (auto simp: keeps_ok_def)
  have ds: "dealers_of t q' = reg_dealers c rid t" "has_server t q' \<longleftrightarrow> t = sint s \<or> reg_server c rid t" for t
  proof -
    have "dealers_of t q' = dealers_of t ?q" "has_server t q' \<longleftrightarrow> t = sint s \<or> has_server t ?q"
      by (auto simp: q'_def dealers_of_def has_server_def)
    then show "dealers_of t q' = reg_dealers c rid t" "has_server t q' \<longleftrightarrow> t = sint s \<or> reg_server c rid t"
      by (simp_all add: q(2,3))
  qed
  have ne: "\<not> fq_empty q'" by (simp add: q'_def fq_empty_def)
  from replace_queue [OF assms(1) inv, of rid] q(4) ds have
    r: "ctx_inv (put_backend rid q' c)" "reg_dealers (put_backend rid q' c) = reg_dealers c"
      "reg_server (put_backend rid q' c) = (\<lambda>r t. (r = rid \<and> t = sint s) \<or> reg_server c r t)"
    unfolding erase_put [OF ne] by (auto simp: fun_eq_iff)
  then show ?thesis using a by (auto simp: end_add_server_def reg_step_def only_channels_refl)
qed

lemma ctx_remove_server_ok:
  assumes "ctx_inv c" "reg_server c rid (sint s)"
  shows "\<exists>c'. ctx_remove_server rid s c = Inr c' \<and> reg_step c c' \<and> reg_dealers c' = reg_dealers c \<and>
    reg_server c' = (\<lambda>r t. \<not> (r = rid \<and> t = sint s) \<and> reg_server c r t)"
proof -
  obtain q where q: "map_of (server_backend c) rid = Some q" "has_server (sint s) q"
    using assms(2) by (auto simp: reg_server_def split: option.splits)
  then obtain rs where rs: "map_of (sid2cache q) (sint s) = Some rs" by (auto simp: has_server_def)
  have qo: "queue_ok c q" using assms(1) q(1) by (simp add: ctx_inv_def backend_ok_def)
  define q' where "q' = q\<lparr>sid2cache := AList.delete (sint s) (sid2cache q)\<rparr>"
  have a: "fq_remove_server (sint s) q = Inr (rs, q')" by (simp add: fq_remove_server_def rs q'_def)
  have inv: "fq_inv q'" using remove_server_keeps [of q "sint s"] q(2) qo a by (auto simp: keeps_ok_def queue_ok_def)
  have ds: "dealers_of t q' = reg_dealers c rid t" "has_server t q' \<longleftrightarrow> t \<noteq> sint s \<and> reg_server c rid t" for t
    using q(1) by (auto simp: q'_def dealers_of_def has_server_def reg_dealers_def reg_server_def delete_conv')
  let ?c = "c\<lparr>lost := lost c @ rs\<rparr>"
  have "backend_ok c" using assms(1) by (simp add: ctx_inv_def)
  from delivers_inv [OF delivers_lost [OF this, where l = "lost c @ rs" and og = "outgoing c"] assms(1)]
  have ci: "ctx_inv ?c" by simp
  have "reg_dealers ?c = reg_dealers c" "reg_server ?c = reg_server c"
    by (simp_all add: reg_dealers_def reg_server_def fun_eq_iff)
  with replace_queue [OF ci inv, of rid] ds qo q(1) have
    "ctx_inv (erase_if_empty rid q' ?c)" "reg_dealers (erase_if_empty rid q' ?c) = reg_dealers c"
    "reg_server (erase_if_empty rid q' ?c) = (\<lambda>r t. \<not> (r = rid \<and> t = sint s) \<and> reg_server c r t)"
    by (auto simp: fun_eq_iff queue_ok_def reg_dealers_def)
  then show ?thesis using a q(1) by (auto simp: ctx_remove_server_def reg_step_def only_channels_refl)
qed

lemma reg_dealers_queue:
  "reg_dealers c rid s \<noteq> [] \<Longrightarrow> \<exists>q. map_of (server_backend c) rid = Some q \<and> reg_dealers c rid = (\<lambda>t. dealers_of t q)
     \<and> reg_server c rid = (\<lambda>t. has_server t q)"
  by (cases "map_of (server_backend c) rid") (auto simp: reg_dealers_def reg_server_def fun_eq_iff)

lemma ctx_add_server_dealer_ok:
  assumes "ctx_inv c" "d \<notin> set (reg_dealers c rid (sint s))"
    "initialized_server (dealers c d)" "server_req_ch (dealers c d) \<noteq> None"
  shows "\<exists>c'. ctx_add_server_dealer ij rid s d c = Inr c' \<and> reg_step c c' \<and> reg_server c' = reg_server c \<and>
    reg_dealers c' = (\<lambda>r t. if r = rid \<and> t = sint s then reg_dealers c r t @ [d] else reg_dealers c r t)"
proof -
  let ?q = "backend_queue ij rid c"
  have b: "backend_ok c" using assms(1) by (simp add: ctx_inv_def)
  note q = backend_queue_facts [OF b]
  have new: "d \<notin> set (dealers_of (sint s) ?q)" using assms(2) by (simp add: q(2))
  obtain out q' where a: "fq_add_server_dealer (sint s) d ?q = (out, q')" by fastforce
  note st = add_dealer_state [OF q(1) new a]
  have inv: "fq_inv q'" using add_dealer_keeps [OF q(1) new] a by (auto simp: keeps_ok_def)
  have ds: "dealers_of t q' = (if t = sint s then reg_dealers c rid t @ [d] else reg_dealers c rid t)" for t
  proof -
    have "dealers_of t q' = (if t = sint s then dealers_of t ?q @ [d] else dealers_of t ?q)"
      using st(1) by (simp add: dealers_of_def)
    then show ?thesis by (simp add: q(2))
  qed
  have hs: "has_server t q' = reg_server c rid t" for t
  proof -
    have "has_server t q' = has_server t ?q"
      using a by (auto simp: fq_add_server_dealer_def has_server_def Let_def update_conv split: option.splits if_splits)
    then show ?thesis by (simp add: q(3))
  qed
  have "dealers_of (sint s) q' \<noteq> []" by (simp add: ds)
  then have ne: "\<not> fq_empty q'" by (auto simp: fq_empty_def dealers_of_def)
  have init: "initialized_server (dealers c x) \<and> server_req_ch (dealers c x) \<noteq> None" if "x \<in> set (dealers_of t q')" for t x
    using that assms(3,4) q(4) by (auto simp: ds split: if_splits)
  let ?c = "put_backend rid q' c"
  from replace_queue [OF assms(1) inv init, where rid = rid]
  have r: "ctx_inv ?c" "reg_server ?c = reg_server c"
    "reg_dealers ?c = (\<lambda>r t. if r = rid \<and> t = sint s then reg_dealers c r t @ [d] else reg_dealers c r t)"
    unfolding erase_put [OF ne] by (auto simp: fun_eq_iff ds hs)
  have "\<forall>(p, x) \<in> set out. initialized_server (dealers ?c p) \<and> server_req_ch (dealers ?c p) \<noteq> None"
    using st(6) assms(3,4) by auto
  from deliver_ok [OF this] obtain dd where
    dd: "deliver out ?c = Inr (?c\<lparr>dealers := dd\<rparr>)" "only_channels ?c (?c\<lparr>dealers := dd\<rparr>)" by blast
  have "ctx_inv (?c\<lparr>dealers := dd\<rparr>)"
    using r(1) same_rest_fes [OF same_rest_dealers [of ?c dd]] clients_ok_only_channels [OF dd(2)] queue_ok_only_channels [OF dd(2)]
    by (simp add: ctx_inv_def backend_ok_def)
  moreover have "only_channels c (?c\<lparr>dealers := dd\<rparr>)"
    using only_channels_trans [OF only_channels_refl dd(2), of c] by simp
  moreover have "reg_server (?c\<lparr>dealers := dd\<rparr>) = reg_server ?c" "reg_dealers (?c\<lparr>dealers := dd\<rparr>) = reg_dealers ?c"
    by (simp_all add: reg_server_def reg_dealers_def fun_eq_iff)
  ultimately show ?thesis using a dd(1) r by (simp add: ctx_add_server_dealer_def reg_step_def)
qed

lemma ctx_remove_server_dealer_ok:
  assumes "ctx_inv c" "d \<in> set (reg_dealers c rid (sint s))"
  shows "\<exists>c' ds. ctx_remove_server_dealer rid s d c = Inr c' \<and> reg_step c c' \<and> reg_server c' = reg_server c \<and>
    reg_dealers c' = (\<lambda>r t. if r = rid \<and> t = sint s then ds else reg_dealers c r t) \<and>
    set ds = set (reg_dealers c rid (sint s)) - {d} \<and> dealers c' = dealers c"
proof -
  have "reg_dealers c rid (sint s) \<noteq> []" using assms(2) by auto
  from reg_dealers_queue [OF this] obtain q where
    q: "map_of (server_backend c) rid = Some q" "reg_dealers c rid = (\<lambda>t. dealers_of t q)"
      "reg_server c rid = (\<lambda>t. has_server t q)" by blast
  have qo: "queue_ok c q" using assms(1) q(1) by (simp add: ctx_inv_def backend_ok_def)
  then have iq: "fq_inv q" by (simp add: queue_ok_def)
  have mem: "d \<in> set (dealers_of (sint s) q)" using assms(2) by (simp add: q(2))
  then obtain ds where ds: "map_of (sid2dealers q) (sint s) = Some ds" "dealers_of (sint s) q = ds" "d \<in> set ds"
    by (cases "map_of (sid2dealers q) (sint s)") (auto simp: dealers_of_def)
  have dist: "distinct ds" using iq ds(1) unfolding fq_inv_def by blast
  define ds1 where "ds1 = remove_dealer_from d 0 ds"
  have "mset ds1 + {#d#} = mset ds" using remove_dealer_mset [OF dist, of d 0] ds(3) by (simp add: ds1_def)
  then have ms: "mset (d # ds1) = mset ds" by simp
  then have set1: "set ds1 = set ds - {d}"
    using dist mset_eq_imp_distinct_iff [OF ms] mset_eq_setD [OF ms] by auto
  define q' where "q' = q\<lparr>sid2dealers := (if ds1 = [] then AList.delete (sint s) (sid2dealers q)
      else AList.update (sint s) ds1 (sid2dealers q)), sids := remove_sid_from (sint s) 0 (sids q)\<rparr>"
  have a: "fq_remove_server_dealer (sint s) d q = Inr q'"
    by (simp add: fq_remove_server_dealer_def ds(1) ds1_def q'_def Let_def)
  have inv: "fq_inv q'" using remove_dealer_keeps [OF iq mem] a by (auto simp: keeps_ok_def)
  have dq: "dealers_of t q' = (if t = sint s then ds1 else dealers_of t q)" "has_server t q' = has_server t q" for t
    by (auto simp: q'_def dealers_of_def has_server_def delete_conv' update_conv)
  have "initialized_server (dealers c x) \<and> server_req_ch (dealers c x) \<noteq> None" if "x \<in> set (dealers_of t q')" for t x
  proof -
    have "x \<in> set (dealers_of t q)" using that set1 ds(2) by (auto simp: dq split: if_splits)
    then show ?thesis using qo by (auto simp: queue_ok_def)
  qed
  from replace_queue [OF assms(1) inv this, where rid = rid]
  have "ctx_inv (erase_if_empty rid q' c)" "reg_server (erase_if_empty rid q' c) = reg_server c"
    "reg_dealers (erase_if_empty rid q' c) = (\<lambda>r t. if r = rid \<and> t = sint s then ds1 else reg_dealers c r t)"
    using q by (auto simp: fun_eq_iff dq)
  then show ?thesis using a q set1 ds(2)
    by (auto simp: ctx_remove_server_dealer_def reg_step_def only_channels_refl intro!: exI [of _ ds1])
qed

lemma epipe_begin_ok:
  assumes "fes_ok c"
  shows "\<exists>c'. epipe_begin now p c = Inr c' \<and> fes_ok c' \<and> fe_frame c c'"
proof -
  from set_fe_state_ok [OF assms] have
    a: "fes_ok (set_fe_state p FRONTEND_EPIPE c)" "fe_frame c (set_fe_state p FRONTEND_EPIPE c)" by auto
  from remove_frontend_event_ok [OF a(1)] obtain c1 where
    c1: "remove_frontend_event p (set_fe_state p FRONTEND_EPIPE c) = Inr c1" "fes_ok c1"
      "only_events (set_fe_state p FRONTEND_EPIPE c) c1" by blast
  have fr: "fe_frame c c1" using fe_frame_trans [OF a(2) only_events_frame [OF c1(3)]] .
  have ev: "p < next_frontend c1 \<and> e \<in> set (epfds c1) \<and> fe_fds (frontends c1 p) \<noteq> None" if "fe_epfd (frontends c1 p) = Some e" for e
    using c1(2) that by (auto simp: fes_ok_def events_ok_def)
  have "fes_ok (set_frontend p ((frontends c1 p)\<lparr>epipe_time := now\<rparr>) c1) \<and>
      fe_frame c1 (set_frontend p ((frontends c1 p)\<lparr>epipe_time := now\<rparr>) c1)"
    by (rule set_frontend_ok [OF c1(2)]) (use ev in simp_all)
  then show ?thesis using c1 fr fe_frame_trans by (auto simp: epipe_begin_def)
qed

lemma ctx_initialize_inv: "fds \<noteq> [] \<Longrightarrow> ctx_inv (ctx_initialize rank fds ds)"
  by (simp add: ctx_initialize_def ctx_inv_def backend_ok_def clients_ok_def fes_ok_def events_ok_def socket_ok_def
      frontend_new_def)

text \<open>Following the master: after an update of the nodes every node of the list has a connection object;
  a connection to a node that is still known is kept, one to a vanished node is removed, unless it still
  works, in which case it is kept and marked for removal.\<close>

theorem comm_info_update:
  assumes "ctx_inv c"
  shows "\<exists>c'. update_comm_info now list again c = Inr c' \<and> ctx_inv c' \<and>
    (\<forall>i \<in> set list. map_of (client_sockets c') (global_rank i) \<noteq> None) \<and>
    (\<forall>r p. map_of (client_sockets c) r = Some p \<longrightarrow>
       (if r \<in> known_nodes list again c then map_of (client_sockets c') r = Some p
        else if fe_available now (frontends c p)
        then map_of (client_sockets c') r = Some p \<and> r \<in> to_del_client_sockets c'
        else map_of (client_sockets c') r \<noteq> Some p))"
proof -
  have "fes_ok c" using assms by (simp add: ctx_inv_def)
  from update_comm_info_ok [OF this, of now list again] obtain c' where
    c': "update_comm_info now list again c = Inr c'" "fes_ok c'" "fe_frame c c'"
      "\<forall>r p. map_of (client_sockets c) r = Some p \<longrightarrow>
       (if r \<in> known_nodes list again c then map_of (client_sockets c') r = Some p
        else if fe_available now (frontends c p)
        then map_of (client_sockets c') r = Some p \<and> r \<in> to_del_client_sockets c'
        else map_of (client_sockets c') r \<noteq> Some p)"
      "\<forall>r. map_of (client_sockets c') r = None \<longrightarrow> r \<notin> global_rank ` set list" by blast
  moreover have "ctx_inv c'" using fe_frame_inv [OF c'(3) assms c'(2)] .
  ultimately show ?thesis by auto
qed

section \<open>Instances\<close>

definition demo_nodes :: "comm_info list" where
  "demo_nodes = [\<lparr>global_rank = 0, endpoint = ''a''\<rparr>, \<lparr>global_rank = 1, endpoint = ''b''\<rparr>]"

definition demo_dealer :: "nat dealer" where
  "demo_dealer = \<lparr>d_id = 0, d_rpc_id = 0, d_rank = 0, server_req_ch = None, client_resp_ch = None,
     initialized_server = False, initialized_client = False, d_terminated = False, available_rank = -1,
     local_servers = {}, d_server = None, d_client = None\<rparr>"

definition demo_ctx0 :: "nat rpc_ctx" where
  "demo_ctx0 = ctx_initialize 0 [9] (\<lambda>_. demo_dealer)"

definition demo_ctx :: "nat rpc_ctx" where
  "demo_ctx = add_clients demo_nodes demo_ctx0"

definition demo_services :: "rpc_service_info list" where
  "demo_services = [\<lparr>rpc_service_name = ''s'', service_rpc_id = 5,
     servers = [\<lparr>server_id = 2, server_rank = 0\<rparr>, \<lparr>server_id = 3, server_rank = 1\<rparr>, \<lparr>server_id = 4, server_rank = 8\<rparr>]\<rparr>]"

definition demo_updated :: "nat rpc_ctx" where
  "demo_updated = (case update_service_info demo_services demo_ctx of Inr c \<Rightarrow> c | Inl _ \<Rightarrow> demo_ctx)"

lemmas demo_ctx_defs = demo_ctx_def demo_ctx0_def demo_nodes_def ctx_initialize_def new_frontend_def
  set_frontend_def frontend_new_def emplace_def

lemma demo_ctx_sockets:
  "client_sockets demo_ctx = [(0, 0), (1, 1)]" "fe_available now (frontends demo_ctx (Suc 0))"
  by (simp_all add: demo_ctx_defs fe_available_def)

lemma demo_table:
  "all_servers (service_table demo_services demo_ctx) =
     [(5, \<lparr>server_id = 2, server_rank = 0\<rparr>), (5, \<lparr>server_id = 3, server_rank = 1\<rparr>)]"
  by (simp add: service_table_def demo_services_def known_servers_def demo_ctx_sockets emplace_def all_servers_def)

lemma demo_keys: "distinct (map server_key (all_servers (service_table demo_services demo_ctx)))"
  unfolding demo_table by (simp add: server_key_def rpc_sid_pack_def)

lemma demo_update: "update_service_info demo_services demo_ctx = Inr demo_updated"
  using update_service_info_spec [of demo_services demo_ctx] demo_keys
  by (auto simp: demo_updated_def split: sum.splits)

lemma demo_updated_facts:
  "all_servers (rpc_info demo_updated) = [(5, \<lparr>server_id = 2, server_rank = 0\<rparr>), (5, \<lparr>server_id = 3, server_rank = 1\<rparr>)]"
  "client_sockets demo_updated = [(0, 0), (1, 1)]" "frontends demo_updated = frontends demo_ctx"
  using update_service_info_spec [of demo_services demo_ctx] demo_update demo_table demo_ctx_sockets by auto

theorem routing_refines_witness: "get_client_frontend_by_sid 0 5 3 demo_updated = Some 1"
proof -
  have "\<forall>(r, srv) \<in> set (all_servers (rpc_info demo_updated)). sid_in_range (server_id srv)"
    by (simp add: demo_updated_facts sid_in_range_def)
  from routing_refines [OF demo_update this, of 3 0 5] show ?thesis
    by (simp add: sid_in_range_def routing_table_def demo_updated_facts get_client_frontend_by_rank_def if_available_def
        demo_ctx_sockets)
qed

theorem routing_by_service_witness:
  "\<exists>f. get_client_frontend_by_rpc_id 0 41 5 demo_updated = Inr f \<and> f \<noteq> None"
  using routing_by_service [OF demo_update, of 0 41 5]
  by (auto simp: rank_frontends_def demo_updated_facts Let_def demo_ctx_sockets
      split: option.splits)

theorem service_key_collision_witness: "update_service_info (colliding 1) demo_ctx = Inl Check_failed"
  by (rule service_key_collision) (simp add: demo_ctx_sockets)

lemma demo_ctx0_inv: "ctx_inv demo_ctx0"
  unfolding demo_ctx0_def by (rule ctx_initialize_inv) simp

lemma demo_ctx_inv: "ctx_inv demo_ctx"
  unfolding demo_ctx_def
  using add_clients_ok [of demo_ctx0 demo_nodes] fe_frame_inv [of demo_ctx0 "add_clients demo_nodes demo_ctx0"] demo_ctx0_inv
  by (simp add: ctx_inv_def)

theorem comm_info_update_witness:
  "\<exists>c'. update_comm_info 0 [\<lparr>global_rank = 0, endpoint = ''a''\<rparr>] [] demo_ctx = Inr c' \<and>
     map_of (client_sockets c') 0 = Some 0 \<and> 1 \<in> to_del_client_sockets c'"
proof -
  have s: "map_of (client_sockets demo_ctx) 0 = Some 0" "map_of (client_sockets demo_ctx) 1 = Some 1"
    by (simp_all add: demo_ctx_sockets)
  have k: "known_nodes [\<lparr>global_rank = 0, endpoint = ''a''\<rparr>] [] demo_ctx = {0}"
    by (simp add: known_nodes_def stale_def demo_ctx_defs)
  have a: "fe_available 0 (frontends demo_ctx 1)" by (simp add: demo_ctx_sockets)
  from comm_info_update [OF demo_ctx_inv, of 0 "[\<lparr>global_rank = 0, endpoint = ''a''\<rparr>]" "[]"] s k a show ?thesis
    by (metis insertI1 singletonD zero_neq_one)
qed

end
