(* ===== verification/Rpc_Dealer.thy ===== *)
theory Rpc_Dealer
  imports Rpc_Context
begin

text \<open>
  \<open>Dealer\<close>, \<open>RpcServer\<close>, \<open>RpcClient\<close> (\<open>src/rpc/Dealer.h\<close>, \<open>Dealer.cpp\<close>, \<open>RpcServer.h\<close>, \<open>RpcServer.cpp\<close>,
  \<open>RpcClient.h\<close>, \<open>RpcClient.cpp\<close>) and the operations of \<open>RpcService\<close> that create and remove them
  (\<open>src/rpc/RpcService.cpp\<close>), on top of the context of one node.

  The objects are in tables under their pointers. The static variables of \<open>Dealer::gen_id\<close> are part of the
  node. An operation is atomic: it takes the lock of the context for its main part, and what it does outside
  concerns only the object it is called on. The answers of the master are arguments, whether it accepts or refuses.
\<close>

section \<open>State\<close>

record rpc_server =
  srv_id :: "32 word"
  srv_rpc_id :: "32 word"
  srv_dealers :: "nat set"
  srv_terminate :: bool

record rpc_client =
  cli_rpc_id :: "32 word"
  n_dealers :: int

record 'b node =
  ctx :: "'b rpc_ctx"
  used_ids :: "32 word set"
  next_id :: "32 word"
  next_dealer_ptr :: nat
  rpc_servers :: "(nat \<times> rpc_server) list"
  rpc_clients :: "(nat \<times> rpc_client) list"
  next_object :: nat

section \<open>Dealer ids\<close>

text \<open>\<open>None\<close> is the loop that never ends.\<close>

partial_function (option) gen_id ::
  "32 word set \<Rightarrow> 32 word \<Rightarrow> (32 word \<times> 32 word set \<times> 32 word) option" where
  "gen_id used nxt =
     (let ret = and nxt 0x7FFFFFFF
      in if ret \<notin> used then Some (ret, insert ret used, nxt + 1) else gen_id used (nxt + 1))"

section \<open>Dealers\<close>

definition dealer_object :: "32 word \<Rightarrow> 32 word \<Rightarrow> 16 word \<Rightarrow> 'b dealer" where
  "dealer_object i rid rank = \<lparr>d_id = i, d_rpc_id = rid, d_rank = rank, server_req_ch = None, client_resp_ch = None,
     initialized_server = False, initialized_client = False, d_terminated = False, available_rank = -1,
     local_servers = {}, d_server = None, d_client = None\<rparr>"

definition set_dealer :: "nat \<Rightarrow> 'b dealer \<Rightarrow> 'b node \<Rightarrow> 'b node" where
  "set_dealer p d n = n\<lparr>ctx := (ctx n)\<lparr>dealers := (dealers (ctx n))(p := d)\<rparr>\<rparr>"

abbreviation dealer_at :: "nat \<Rightarrow> 'b node \<Rightarrow> 'b dealer" where
  "dealer_at p n \<equiv> dealers (ctx n) p"

definition dealer_new :: "32 word \<Rightarrow> 'b node \<Rightarrow> (nat \<times> 'b node) option" where
  "dealer_new rid n =
     (case gen_id (used_ids n) (next_id n) of
        None \<Rightarrow> None
      | Some (i, used, nxt) \<Rightarrow>
          let p = next_dealer_ptr n
          in Some (p, set_dealer p (dealer_object i rid (global_rank (self_info (ctx n))))
               (n\<lparr>used_ids := used, next_id := nxt, next_dealer_ptr := p + 1\<rparr>)))"

definition initialize_as_server :: "nat option \<Rightarrow> nat \<Rightarrow> 'b node \<Rightarrow> 'b node res" where
  "initialize_as_server server p n =
     rbind (scheck (\<not> initialized_server (dealer_at p n))) (\<lambda>_.
       Inr (set_dealer p ((dealer_at p n)\<lparr>d_server := server, server_req_ch := Some [], initialized_server := True\<rparr>) n))"

definition initialize_as_client :: "nat option \<Rightarrow> nat \<Rightarrow> 'b node \<Rightarrow> 'b node res" where
  "initialize_as_client client p n =
     rbind (scheck (\<not> initialized_client (dealer_at p n))) (\<lambda>_.
       Inr (set_dealer p ((dealer_at p n)\<lparr>d_client := client, client_resp_ch := Some [], initialized_client := True\<rparr>) n))"

definition dealer_terminate :: "nat \<Rightarrow> 'b node \<Rightarrow> 'b node" where
  "dealer_terminate p n = set_dealer p ((dealer_at p n)\<lparr>d_terminated := True\<rparr>) n"

text \<open>A call that changes only the context.\<close>

definition on_ctx :: "'b rpc_ctx res \<Rightarrow> 'b node \<Rightarrow> 'b node res" where
  "on_ctx r n = rbind r (\<lambda>c. Inr (n\<lparr>ctx := c\<rparr>))"

definition server_release_dealer :: "nat \<Rightarrow> nat \<Rightarrow> 'b node \<Rightarrow> 'b node res" where
  "server_release_dealer s p n =
     (case map_of (rpc_servers n) s of
        None \<Rightarrow> Inl Out_of_bounds
      | Some srv \<Rightarrow>
          rbind (on_ctx (ctx_remove_server_dealer (srv_rpc_id srv) (srv_id srv) p (ctx n)) n) (\<lambda>n1.
            Inr (n1\<lparr>rpc_servers := AList.update s (srv\<lparr>srv_dealers := srv_dealers srv - {p}\<rparr>) (rpc_servers n1)\<rparr>)))"

definition client_release_dealer :: "nat \<Rightarrow> nat \<Rightarrow> 'b node \<Rightarrow> 'b node res" where
  "client_release_dealer k p n =
     (case map_of (rpc_clients n) k of
        None \<Rightarrow> Inl Out_of_bounds
      | Some cli \<Rightarrow>
          Inr (n\<lparr>ctx := remove_client_dealer p (ctx n),
                 rpc_clients := AList.update k (cli\<lparr>n_dealers := n_dealers cli - 1\<rparr>) (rpc_clients n)\<rparr>))"

definition finalize_server :: "nat \<Rightarrow> 'b node \<Rightarrow> 'b node res" where
  "finalize_server p n =
     (if initialized_server (dealer_at p n)
      then
        rbind (case d_server (dealer_at p n) of
                 Some s \<Rightarrow> server_release_dealer s p n
               | None \<Rightarrow> on_ctx (ctx_remove_server_dealer (d_rpc_id (dealer_at p n)) (-1) p (ctx n)) n) (\<lambda>n1.
          Inr (set_dealer p ((dealer_at p n1)\<lparr>server_req_ch := None, initialized_server := False\<rparr>) n1))
      else Inr n)"

definition finalize_client :: "nat \<Rightarrow> 'b node \<Rightarrow> 'b node res" where
  "finalize_client p n =
     (if initialized_client (dealer_at p n)
      then
        rbind (case d_client (dealer_at p n) of
                 Some k \<Rightarrow> client_release_dealer k p n
               | None \<Rightarrow> Inr (n\<lparr>ctx := remove_client_dealer p (ctx n)\<rparr>)) (\<lambda>n1.
          Inr (set_dealer p ((dealer_at p n1)\<lparr>client_resp_ch := None, initialized_client := False\<rparr>) n1))
      else Inr n)"

definition dealer_finalize :: "nat \<Rightarrow> 'b node \<Rightarrow> 'b node res" where
  "dealer_finalize p n = rbind (finalize_server p n) (finalize_client p)"

text \<open>\<open>operator=(Dealer&&)\<close>: what it copies from \<open>q\<close> to \<open>p\<close>, and what it resets in \<open>q\<close>.\<close>

definition dealer_move :: "nat \<Rightarrow> nat \<Rightarrow> 'b node \<Rightarrow> 'b node" where
  "dealer_move p q n =
     (let r = dealer_at q n;
          n1 = set_dealer p ((dealer_at p n)\<lparr>d_rpc_id := d_rpc_id r, d_rank := d_rank r, d_id := d_id r,
                 server_req_ch := server_req_ch r, client_resp_ch := client_resp_ch r,
                 initialized_server := initialized_server r, initialized_client := initialized_client r\<rparr>) n
      in set_dealer q (r\<lparr>server_req_ch := None, client_resp_ch := None, initialized_server := False,
           initialized_client := False\<rparr>) n1)"

section \<open>Sending and receiving\<close>

definition local_push :: "'b packet \<Rightarrow> 'b node \<Rightarrow> 'b node res" where
  "local_push req n = on_ctx (push_request req (ctx n)) n"

definition via_ctx :: "int \<Rightarrow> nat \<Rightarrow> 'b packet \<Rightarrow> 'b node \<Rightarrow> (16 word \<times> 'b node) res" where
  "via_ctx now rand req n =
     rbind (ctx_send_request now rand req (ctx n)) (\<lambda>(rank, c). Inr (rank, n\<lparr>ctx := c\<rparr>))"

definition send_request_raw :: "int \<Rightarrow> nat \<Rightarrow> nat \<Rightarrow> 'b packet \<Rightarrow> 'b node \<Rightarrow> 'b node res" where
  "send_request_raw now rand p req0 n =
     rbind (scheck (initialized_client (dealer_at p n))) (\<lambda>_.
       let d = dealer_at p n; g_rank = d_rank d;
           req = ((fst req0)\<lparr>src_rank := g_rank, rpc_id := d_rpc_id d\<rparr>, snd req0);
           h = fst req
       in if sid h \<noteq> -1
          then if sid h \<in> local_servers d then local_push req n
               else rbind (via_ctx now rand req n) (\<lambda>(rank, n1).
                 Inr (if rank = g_rank
                      then set_dealer p ((dealer_at p n1)\<lparr>local_servers := insert (sid h) (local_servers d),
                             available_rank := g_rank\<rparr>) n1
                      else n1))
          else if dest_rank h \<noteq> -1
          then if dest_rank h = g_rank then local_push req n
               else rbind (via_ctx now rand req n) (\<lambda>(rank, n1).
                 Inr (if available_rank d \<noteq> g_rank
                      then set_dealer p ((dealer_at p n1)\<lparr>available_rank := rank\<rparr>) n1 else n1))
          else if available_rank d = g_rank then local_push req n
               else rbind (via_ctx now rand req n) (\<lambda>(rank, n1).
                 Inr (set_dealer p ((dealer_at p n1)\<lparr>available_rank := rank\<rparr>) n1)))"

definition send_request :: "int \<Rightarrow> nat \<Rightarrow> nat \<Rightarrow> 'b packet \<Rightarrow> 'b node \<Rightarrow> 'b node res" where
  "send_request now rand p req n =
     send_request_raw now rand p ((fst req)\<lparr>src_dealer := d_id (dealer_at p n)\<rparr>, snd req) n"

definition send_request_one_way :: "int \<Rightarrow> nat \<Rightarrow> nat \<Rightarrow> 'b packet \<Rightarrow> 'b node \<Rightarrow> 'b node res" where
  "send_request_one_way now rand p req n = send_request_raw now rand p ((fst req)\<lparr>src_dealer := -1\<rparr>, snd req) n"

definition send_response :: "int \<Rightarrow> nat \<Rightarrow> 'b packet \<Rightarrow> 'b node \<Rightarrow> 'b node res" where
  "send_response now p resp n =
     (if dest_dealer (fst resp) = -1 then Inr n
      else if dest_rank (fst resp) = d_rank (dealer_at p n) then on_ctx (push_response resp (ctx n)) n
      else Inr (n\<lparr>ctx := ctx_send_response now resp True (ctx n)\<rparr>))"

text \<open>\<open>recv\<close> of the channel takes its first packet; without one it blocks or returns false (\<open>None\<close>).\<close>

definition recv_request :: "nat \<Rightarrow> 'b node \<Rightarrow> ('b packet option \<times> 'b node) res" where
  "recv_request p n =
     rbind (scheck (initialized_server (dealer_at p n))) (\<lambda>_.
       case server_req_ch (dealer_at p n) of
         None \<Rightarrow> Inl Out_of_bounds
       | Some [] \<Rightarrow> Inr (None, n)
       | Some (req # ch) \<Rightarrow> Inr (Some req, set_dealer p ((dealer_at p n)\<lparr>server_req_ch := Some ch\<rparr>) n))"

definition recv_response :: "nat \<Rightarrow> 'b node \<Rightarrow> ('b packet option \<times> 'b node) res" where
  "recv_response p n =
     rbind (scheck (initialized_client (dealer_at p n))) (\<lambda>_.
       case client_resp_ch (dealer_at p n) of
         None \<Rightarrow> Inl Out_of_bounds
       | Some [] \<Rightarrow> Inr (None, n)
       | Some (resp # ch) \<Rightarrow> Inr (Some resp, set_dealer p ((dealer_at p n)\<lparr>client_resp_ch := Some ch\<rparr>) n))"

section \<open>Servers, clients and the service\<close>

text \<open>\<open>create_server\<close>: \<open>reg\<close> is what \<open>register_server\<close> of the master client returns, with the ids it assigned.\<close>

definition create_server :: "32 word \<times> 64 word \<Rightarrow> (32 word \<times> 32 word) option \<Rightarrow> 'b node \<Rightarrow> (nat \<times> 'b node) res" where
  "create_server ij reg n =
     (case reg of
        None \<Rightarrow> Inl Check_failed
      | Some (rid, s) \<Rightarrow>
          rbind (on_ctx (end_add_server ij rid s (ctx n)) n) (\<lambda>n1.
            let k = next_object n1
            in Inr (k, n1\<lparr>rpc_servers := (k, \<lparr>srv_id = s, srv_rpc_id = rid, srv_dealers = {}, srv_terminate = False\<rparr>) # rpc_servers n1,
                          next_object := k + 1\<rparr>)))"

definition server_create_dealer :: "32 word \<times> 64 word \<Rightarrow> nat \<Rightarrow> 'b node \<Rightarrow> (nat \<times> 'b node) res option" where
  "server_create_dealer ij s n =
     (case map_of (rpc_servers n) s of
        None \<Rightarrow> Some (Inl Out_of_bounds)
      | Some srv \<Rightarrow>
          (case dealer_new (srv_rpc_id srv) n of
             None \<Rightarrow> None
           | Some (p, n1) \<Rightarrow>
               Some (rbind (initialize_as_server (Some s) p n1) (\<lambda>n2.
                     rbind (on_ctx (ctx_add_server_dealer ij (srv_rpc_id srv) (srv_id srv) p (ctx n2)) n2) (\<lambda>n3.
                       let n4 = n3\<lparr>rpc_servers := AList.update s (srv\<lparr>srv_dealers := insert p (srv_dealers srv)\<rparr>) (rpc_servers n3)\<rparr>
                       in Inr (p, if srv_terminate srv then dealer_terminate p n4 else n4))))))"

definition server_terminate :: "nat \<Rightarrow> 'b node \<Rightarrow> 'b node res" where
  "server_terminate s n =
     (case map_of (rpc_servers n) s of
        None \<Rightarrow> Inl Out_of_bounds
      | Some srv \<Rightarrow>
          let c = ctx n
          in Inr (n\<lparr>rpc_servers := AList.update s (srv\<lparr>srv_terminate := True\<rparr>) (rpc_servers n),
                    ctx := c\<lparr>dealers := (\<lambda>p. if p \<in> srv_dealers srv then (dealers c p)\<lparr>d_terminated := True\<rparr> else dealers c p)\<rparr>\<rparr>))"

definition server_restart :: "nat \<Rightarrow> 'b node \<Rightarrow> 'b node res" where
  "server_restart s n =
     (case map_of (rpc_servers n) s of
        None \<Rightarrow> Inl Out_of_bounds
      | Some srv \<Rightarrow> Inr (n\<lparr>rpc_servers := AList.update s (srv\<lparr>srv_terminate := False\<rparr>) (rpc_servers n)\<rparr>))"

text \<open>\<open>RpcService::remove_server\<close>, where \<open>ret\<close> is the answer of \<open>deregister_server\<close>, and \<open>~RpcServer\<close>.\<close>

definition service_remove_server :: "bool \<Rightarrow> rpc_server \<Rightarrow> 'b node \<Rightarrow> 'b node res" where
  "service_remove_server ret srv n =
     rbind (on_ctx (ctx_remove_server (srv_rpc_id srv) (srv_id srv) (ctx n)) n) (\<lambda>n1.
     rbind (scheck ret) (\<lambda>_. Inr n1))"

definition server_destroy :: "bool \<Rightarrow> nat \<Rightarrow> 'b node \<Rightarrow> 'b node res" where
  "server_destroy ret s n =
     (case map_of (rpc_servers n) s of
        None \<Rightarrow> Inl Out_of_bounds
      | Some srv \<Rightarrow>
          rbind (scheck (srv_dealers srv = {})) (\<lambda>_.
          rbind (service_remove_server ret srv n) (\<lambda>n1.
          Inr (n1\<lparr>rpc_servers := AList.delete s (rpc_servers n1)\<rparr>))))"

text \<open>\<open>create_client\<close> once \<open>wait\<close> has found the service with enough servers.\<close>

definition client_ready :: "string \<Rightarrow> nat \<Rightarrow> 'b node \<Rightarrow> rpc_service_info option" where
  "client_ready name expected n =
     (case get_rpc_service_info name (ctx n) of
        None \<Rightarrow> None
      | Some info \<Rightarrow> if expected \<le> length (servers info) then Some info else None)"

definition create_client :: "rpc_service_info \<Rightarrow> 'b node \<Rightarrow> nat \<times> 'b node" where
  "create_client info n =
     (next_object n,
      n\<lparr>rpc_clients := (next_object n, \<lparr>cli_rpc_id = service_rpc_id info, n_dealers = 0\<rparr>) # rpc_clients n,
        next_object := next_object n + 1\<rparr>)"

definition client_create_dealer :: "nat \<Rightarrow> 'b node \<Rightarrow> (nat \<times> 'b node) res option" where
  "client_create_dealer k n =
     (case map_of (rpc_clients n) k of
        None \<Rightarrow> Some (Inl Out_of_bounds)
      | Some cli \<Rightarrow>
          (case dealer_new (cli_rpc_id cli) n of
             None \<Rightarrow> None
           | Some (p, n1) \<Rightarrow>
               Some (rbind (initialize_as_client (Some k) p n1) (\<lambda>n2.
                 Inr (p, n2\<lparr>ctx := add_client_dealer p (ctx n2),
                            rpc_clients := AList.update k (cli\<lparr>n_dealers := n_dealers cli + 1\<rparr>) (rpc_clients n2)\<rparr>)))))"

definition client_destroy :: "nat \<Rightarrow> 'b node \<Rightarrow> 'b node res" where
  "client_destroy k n =
     (case map_of (rpc_clients n) k of
        None \<Rightarrow> Inl Out_of_bounds
      | Some cli \<Rightarrow> rbind (scheck (n_dealers cli = 0)) (\<lambda>_. Inr (n\<lparr>rpc_clients := AList.delete k (rpc_clients n)\<rparr>)))"

text \<open>\<open>RpcService::create_dealer(rpc_name)\<close>: client and server in one, registered under the server id -1.\<close>

definition service_create_dealer ::
  "32 word \<times> 64 word \<Rightarrow> 32 word \<Rightarrow> 'b node \<Rightarrow> (nat \<times> 'b node) res option" where
  "service_create_dealer ij rid n =
     (case dealer_new rid n of
        None \<Rightarrow> None
      | Some (p, n1) \<Rightarrow>
          Some (rbind (initialize_as_client None p n1) (\<lambda>n2.
                rbind (initialize_as_server None p n2) (\<lambda>n3.
                rbind (on_ctx (ctx_add_server_dealer ij rid (-1) p (ctx n3)) n3) (\<lambda>n4.
                  Inr (p, n4\<lparr>ctx := add_client_dealer p (ctx n4)\<rparr>))))))"

text \<open>\<open>RpcService::update_ctx\<close>, with the answers of the master.\<close>

definition update_ctx ::
  "int \<Rightarrow> comm_info list option \<Rightarrow> comm_info list \<Rightarrow> rpc_service_info list option \<Rightarrow> 'b node \<Rightarrow> 'b node res" where
  "update_ctx now comm again svc n =
     rbind (case comm of None \<Rightarrow> Inr n | Some list \<Rightarrow> on_ctx (update_comm_info now list again (ctx n)) n) (\<lambda>n1.
       case svc of None \<Rightarrow> Inr n1 | Some list \<Rightarrow> on_ctx (update_service_info list (ctx n1)) n1)"

definition node_init :: "16 word \<Rightarrow> nat list \<Rightarrow> 'b node \<Rightarrow> bool" where
  "node_init rank fds n \<longleftrightarrow>
     n = \<lparr>ctx = ctx_initialize rank fds (\<lambda>_. dealer_object 0 (-1) rank), used_ids = {}, next_id = 0, next_dealer_ptr = 0,
          rpc_servers = [], rpc_clients = [], next_object = 0\<rparr>"

section \<open>Events of a node\<close>

datatype 'b node_event =
    Create_server "32 word \<times> 64 word" "(32 word \<times> 32 word) option"
  | Server_dealer "32 word \<times> 64 word" nat
  | Server_terminate nat
  | Server_restart nat
  | Server_destroy bool nat
  | Create_client rpc_service_info
  | Client_dealer nat
  | Client_destroy nat
  | Service_dealer "32 word \<times> 64 word" "32 word"
  | Finalize nat
  | Send_request int nat nat "'b packet"
  | Send_one_way int nat nat "'b packet"
  | Send_response int nat "'b packet"
  | Recv_request nat
  | Recv_response nat
  | Accept "(16 word \<times> comm_info \<times> nat list) option"
  | Connected nat "nat list"
  | Messages nat "'b packet list" bool
  | Epipe_begin int nat
  | Epipe_end nat
  | Update_ctx int "comm_info list option" "comm_info list" "rpc_service_info list option"

definition drop_result :: "('x \<times> 'b node) res \<Rightarrow> 'b node res" where
  "drop_result r = rbind r (\<lambda>(x, n). Inr n)"

text \<open>A call on the front end \<open>p\<close>.\<close>

definition on_frontend :: "nat \<Rightarrow> 'b rpc_ctx res \<Rightarrow> 'b node \<Rightarrow> 'b node res" where
  "on_frontend p r n = (if p < next_frontend (ctx n) then on_ctx r n else Inl Out_of_bounds)"

fun node_exec :: "'b node_event \<Rightarrow> 'b node \<Rightarrow> 'b node res option" where
  "node_exec (Create_server ij reg) n = Some (drop_result (create_server ij reg n))"
| "node_exec (Server_dealer ij s) n = map_option drop_result (server_create_dealer ij s n)"
| "node_exec (Server_terminate s) n = Some (server_terminate s n)"
| "node_exec (Server_restart s) n = Some (server_restart s n)"
| "node_exec (Server_destroy ret s) n = Some (server_destroy ret s n)"
| "node_exec (Create_client info) n = Some (Inr (snd (create_client info n)))"
| "node_exec (Client_dealer k) n = map_option drop_result (client_create_dealer k n)"
| "node_exec (Client_destroy k) n = Some (client_destroy k n)"
| "node_exec (Service_dealer ij rid) n = map_option drop_result (service_create_dealer ij rid n)"
| "node_exec (Finalize p) n = Some (dealer_finalize p n)"
| "node_exec (Send_request now rand p req) n = Some (send_request now rand p req n)"
| "node_exec (Send_one_way now rand p req) n = Some (send_request_one_way now rand p req n)"
| "node_exec (Send_response now p resp) n = Some (send_response now p resp n)"
| "node_exec (Recv_request p) n = Some (drop_result (recv_request p n))"
| "node_exec (Recv_response p) n = Some (drop_result (recv_response p n))"
| "node_exec (Accept conn) n = Some (on_ctx (ctx_accept conn (ctx n)) n)"
| "node_exec (Connected p fds) n = Some (on_frontend p (frontend_connected p fds (ctx n)) n)"
| "node_exec (Messages fd msgs alive) n = Some (on_ctx (handle_message_event fd msgs alive (ctx n)) n)"
| "node_exec (Epipe_begin now p) n = Some (on_frontend p (epipe_begin now p (ctx n)) n)"
| "node_exec (Epipe_end p) n = Some (on_frontend p (Inr (epipe_end p (ctx n))) n)"
| "node_exec (Update_ctx now comm again svc) n = Some (update_ctx now comm again svc n)"

abbreviation ID_LIMIT :: nat where "ID_LIMIT \<equiv> 2 ^ 31"

text \<open>
  The conditions under which an event goes through, as far as they depend on the program that uses the library, on the
  master, on the peer and on the kernel: the master registers a server and its removal, and does not hand out ids of a
  server that this node already has; objects that are named exist; at most \<open>2 ^ 31\<close> dealers are created; a server or
  client is destroyed after its dealers; a dealer is used in a role it has; the server ids the master lists have
  different packed keys; a peer that connects sends the magic number 0; and an event is for a descriptor of the present
  socket of its front end.
\<close>

fun node_allowed :: "'b node_event \<Rightarrow> 'b node \<Rightarrow> bool" where
  "node_allowed (Create_server ij reg) n =
     (case reg of None \<Rightarrow> False | Some (rid, s) \<Rightarrow> \<not> reg_server (ctx n) rid (sint s))"
| "node_allowed (Server_dealer ij s) n = (map_of (rpc_servers n) s \<noteq> None \<and> next_dealer_ptr n < ID_LIMIT)"
| "node_allowed (Server_terminate s) n = (map_of (rpc_servers n) s \<noteq> None)"
| "node_allowed (Server_restart s) n = (map_of (rpc_servers n) s \<noteq> None)"
| "node_allowed (Server_destroy ret s) n =
     (ret \<and> (case map_of (rpc_servers n) s of None \<Rightarrow> False | Some srv \<Rightarrow> srv_dealers srv = {}))"
| "node_allowed (Create_client info) n = True"
| "node_allowed (Client_dealer k) n = (map_of (rpc_clients n) k \<noteq> None \<and> next_dealer_ptr n < ID_LIMIT)"
| "node_allowed (Client_destroy k) n =
     (case map_of (rpc_clients n) k of None \<Rightarrow> False | Some cli \<Rightarrow> n_dealers cli = 0)"
| "node_allowed (Service_dealer ij rid) n = (next_dealer_ptr n < ID_LIMIT)"
| "node_allowed (Finalize p) n = True"
| "node_allowed (Send_request now rand p req) n = initialized_client (dealer_at p n)"
| "node_allowed (Send_one_way now rand p req) n = initialized_client (dealer_at p n)"
| "node_allowed (Send_response now p resp) n = True"
| "node_allowed (Recv_request p) n = initialized_server (dealer_at p n)"
| "node_allowed (Recv_response p) n = initialized_client (dealer_at p n)"
| "node_allowed (Accept conn) n = (case conn of None \<Rightarrow> True | Some (magic, info, fds) \<Rightarrow> magic = 0)"
| "node_allowed (Connected p fds) n = (p < next_frontend (ctx n))"
| "node_allowed (Messages fd msgs alive) n = fd_current fd (ctx n)"
| "node_allowed (Epipe_begin now p) n = (p < next_frontend (ctx n))"
| "node_allowed (Epipe_end p) n = (p < next_frontend (ctx n))"
| "node_allowed (Update_ctx now comm again svc) n =
     (case svc of
        None \<Rightarrow> True
      | Some list \<Rightarrow>
          (case (case comm of None \<Rightarrow> Inr (ctx n) | Some nodes \<Rightarrow> update_comm_info now nodes again (ctx n)) of
             Inl e \<Rightarrow> True
           | Inr c \<Rightarrow> distinct (map server_key (all_servers (service_table list c)))))"

text \<open>A step is any event that does not abort the process.\<close>

inductive node_step :: "'b node \<Rightarrow> 'b node \<Rightarrow> bool" where
  "node_exec e n = Some (Inr n') \<Longrightarrow> node_step n n'"

section \<open>Dealer ids\<close>

definition ids_below :: "nat \<Rightarrow> 32 word set" where
  "ids_below k = word_of_nat ` {..<k}"

lemma unat_id: "k < ID_LIMIT \<Longrightarrow> unat (word_of_nat k :: 32 word) = k"
  by (simp only: unat_of_nat) simp

lemma mask_id: "and (w :: 32 word) 0x7FFFFFFF = word_of_nat (unat w mod ID_LIMIT)"
proof -
  have "and w 0x7FFFFFFF = take_bit 31 w"
    by (simp add: take_bit_eq_mask mask_eq_exp_minus_1)
  moreover have "unat (take_bit 31 w) = unat w mod ID_LIMIT"
    by (subst unsigned_take_bit_eq) (simp add: take_bit_eq_mod)
  moreover have "word_of_nat (unat (take_bit 31 w)) = take_bit 31 w" by simp
  ultimately show ?thesis by metis
qed

lemma id_fresh: "k < ID_LIMIT \<Longrightarrow> word_of_nat k \<notin> ids_below k"
proof
  assume k: "k < ID_LIMIT" "word_of_nat k \<in> ids_below k"
  then obtain j where j: "j < k" "word_of_nat k = (word_of_nat j :: 32 word)" by (auto simp: ids_below_def)
  then have "unat (word_of_nat k :: 32 word) = unat (word_of_nat j :: 32 word)" by simp
  then show False using j k unat_id [of k] unat_id [of j] by simp
qed

lemma gen_id_fresh:
  assumes "k < ID_LIMIT"
  shows "gen_id (ids_below k) (word_of_nat k) = Some (word_of_nat k, ids_below (Suc k), word_of_nat (Suc k))"
proof -
  have "and (word_of_nat k :: 32 word) 0x7FFFFFFF = word_of_nat k"
    using assms by (simp only: mask_id unat_id) simp
  moreover have "insert (word_of_nat k) (ids_below k) = ids_below (Suc k)"
    by (auto simp: ids_below_def lessThan_Suc)
  moreover have "word_of_nat k + 1 = (word_of_nat (Suc k) :: 32 word)" by simp
  ultimately show ?thesis using id_fresh [OF assms] by (subst gen_id.simps) (simp only: Let_def if_True simp_thms)
qed

lemma gen_id_spec:
  "gen_id used nxt = Some r \<Longrightarrow> fst r \<notin> used \<and> (\<exists>w. fst r = and w 0x7FFFFFFF)"
proof (erule gen_id.raw_induct [of "\<lambda>used nxt r. fst r \<notin> used \<and> (\<exists>w. fst r = and w 0x7FFFFFFF)", rotated], goal_cases)
  case (1 f u v r)
  show ?case
  proof (cases "and v 0x7FFFFFFF \<in> u")
    case True
    then have "f u (v + 1) = Some r" using 1(2) by (simp add: Let_def)
    then show ?thesis by (rule 1(1))
  next
    case False
    then have "r = (and v 0x7FFFFFFF, insert (and v 0x7FFFFFFF) u, v + 1)" using 1(2) by (simp add: Let_def)
    then show ?thesis using False by auto
  qed
qed

lemma gen_id_exhausted: "gen_id (ids_below ID_LIMIT) w = None"
proof (rule ccontr)
  assume "gen_id (ids_below ID_LIMIT) w \<noteq> None"
  then obtain i u v where r: "gen_id (ids_below ID_LIMIT) w = Some (i, u, v)" by auto
  from gen_id_spec [OF r] obtain x :: "32 word" where "i = word_of_nat (unat x mod ID_LIMIT)" unfolding mask_id by auto
  then have "i \<in> ids_below ID_LIMIT" unfolding ids_below_def by (intro image_eqI [of _ _ "unat x mod ID_LIMIT"]) auto
  then show False using gen_id_spec [OF r] by simp
qed

text \<open>A new dealer gets the next unused id while fewer than \<open>2 ^ 31\<close> dealers were created in the process; ids
  are never given back, and after that many dealers \<open>gen_id\<close> does not return.\<close>

theorem dealer_id_supply:
  "if k < ID_LIMIT then gen_id (ids_below k) (word_of_nat k) = Some (word_of_nat k, ids_below (Suc k), word_of_nat (Suc k))
      \<and> word_of_nat k \<notin> ids_below k
   else k = ID_LIMIT \<longrightarrow> gen_id (ids_below k) (word_of_nat k) = None"
  using gen_id_fresh id_fresh gen_id_exhausted by simp

section \<open>Invariant of a node\<close>

text \<open>Service and server id under which a dealer is registered.\<close>

definition place :: "'b node \<Rightarrow> nat \<Rightarrow> (32 word \<times> int) option" where
  "place n p =
     (case d_server (dealer_at p n) of
        None \<Rightarrow> Some (d_rpc_id (dealer_at p n), -1)
      | Some s \<Rightarrow> map_option (\<lambda>srv. (srv_rpc_id srv, sint (srv_id srv))) (map_of (rpc_servers n) s))"

definition ids_inv :: "'b node \<Rightarrow> bool" where
  "ids_inv n \<longleftrightarrow> next_dealer_ptr n \<le> ID_LIMIT \<and> used_ids n = ids_below (next_dealer_ptr n) \<and>
     next_id n = word_of_nat (next_dealer_ptr n) \<and>
     (\<forall>p < next_dealer_ptr n. d_id (dealer_at p n) = word_of_nat p \<and>
        d_rank (dealer_at p n) = global_rank (self_info (ctx n))) \<and>
     (\<forall>p. initialized_server (dealer_at p n) \<or> initialized_client (dealer_at p n) \<longrightarrow> p < next_dealer_ptr n)"

definition reg_inv :: "'b node \<Rightarrow> bool" where
  "reg_inv n \<longleftrightarrow>
     (\<forall>rid s p. p \<in> set (reg_dealers (ctx n) rid s) \<longleftrightarrow> initialized_server (dealer_at p n) \<and> place n p = Some (rid, s)) \<and>
     (\<forall>p. initialized_server (dealer_at p n) \<longrightarrow> place n p \<noteq> None)"

definition cli_inv :: "'b node \<Rightarrow> bool" where
  "cli_inv n \<longleftrightarrow> (\<forall>i p. map_of (client_backend (ctx n)) i = Some p \<longleftrightarrow>
     initialized_client (dealer_at p n) \<and> d_id (dealer_at p n) = i)"

definition srv_inv :: "'b node \<Rightarrow> bool" where
  "srv_inv n \<longleftrightarrow>
     (\<forall>s srv. map_of (rpc_servers n) s = Some srv \<longrightarrow> s < next_object n \<and>
        reg_server (ctx n) (srv_rpc_id srv) (sint (srv_id srv)) \<and>
        srv_dealers srv = {p. initialized_server (dealer_at p n) \<and> d_server (dealer_at p n) = Some s}) \<and>
     (\<forall>s t srv tsrv. map_of (rpc_servers n) s = Some srv \<longrightarrow> map_of (rpc_servers n) t = Some tsrv \<longrightarrow> s \<noteq> t \<longrightarrow>
        (srv_rpc_id srv, srv_id srv) \<noteq> (srv_rpc_id tsrv, srv_id tsrv))"

definition clients_inv :: "'b node \<Rightarrow> bool" where
  "clients_inv n \<longleftrightarrow>
     (\<forall>k cli. map_of (rpc_clients n) k = Some cli \<longrightarrow> k < next_object n \<and>
        n_dealers cli = int (card {p. initialized_client (dealer_at p n) \<and> d_client (dealer_at p n) = Some k})) \<and>
     (\<forall>p k. initialized_client (dealer_at p n) \<longrightarrow> d_client (dealer_at p n) = Some k \<longrightarrow> map_of (rpc_clients n) k \<noteq> None)"

definition node_inv :: "'b node \<Rightarrow> bool" where
  "node_inv n \<longleftrightarrow> ctx_inv (ctx n) \<and> ids_inv n \<and> reg_inv n \<and> cli_inv n \<and> srv_inv n \<and> clients_inv n"

lemmas node_inv_defs = node_inv_def ids_inv_def reg_inv_def cli_inv_def srv_inv_def clients_inv_def

subsection \<open>Changes that keep the registrations\<close>

text \<open>What the invariants see of a dealer.\<close>

definition dealer_view :: "'b dealer \<Rightarrow> _" where
  "dealer_view d = (d_id d, d_rpc_id d, d_rank d, initialized_server d, initialized_client d, d_server d, d_client d,
     server_req_ch d = None, client_resp_ch d = None)"

definition same_view :: "'b rpc_ctx \<Rightarrow> 'b rpc_ctx \<Rightarrow> bool" where
  "same_view c c' \<longleftrightarrow> (\<forall>p. dealer_view (dealers c' p) = dealer_view (dealers c p))"

lemma same_view_fields:
  assumes "same_view c c'"
  shows "d_id (dealers c' p) = d_id (dealers c p)" "d_rpc_id (dealers c' p) = d_rpc_id (dealers c p)"
    "d_rank (dealers c' p) = d_rank (dealers c p)" "initialized_server (dealers c' p) = initialized_server (dealers c p)"
    "initialized_client (dealers c' p) = initialized_client (dealers c p)" "d_server (dealers c' p) = d_server (dealers c p)"
    "d_client (dealers c' p) = d_client (dealers c p)"
    "(server_req_ch (dealers c' p) = None) = (server_req_ch (dealers c p) = None)"
    "(client_resp_ch (dealers c' p) = None) = (client_resp_ch (dealers c p) = None)"
  using assms by (simp_all add: same_view_def dealer_view_def)

lemma only_channels_view: "only_channels c c' \<Longrightarrow> same_view c c'"
  by (simp add: same_view_def dealer_view_def only_channels_fields)

lemma same_view_trans: "same_view c d \<Longrightarrow> same_view d e \<Longrightarrow> same_view c e"
  by (simp add: same_view_def)

lemma ctx_inv_view:
  assumes "ctx_inv c" "same_view c (c\<lparr>dealers := ds\<rparr>)"
  shows "ctx_inv (c\<lparr>dealers := ds\<rparr>)"
  using assms(1) same_view_fields [OF assms(2)] same_rest_fes [OF same_rest_dealers [of c ds]]
  by (simp add: ctx_inv_def backend_ok_def queue_ok_def clients_ok_def)

lemma node_inv_frame:
  assumes "node_inv n" "ctx_inv c" "same_reg (ctx n) c" "same_view (ctx n) c"
  shows "node_inv (n\<lparr>ctx := c\<rparr>)"
proof -
  note v = same_view_fields [OF assms(4)]
  have pl: "place (n\<lparr>ctx := c\<rparr>) = place n" by (simp add: place_def fun_eq_iff v split: option.split)
  have r: "reg_dealers c = reg_dealers (ctx n)" "reg_server c = reg_server (ctx n)"
    "client_backend c = client_backend (ctx n)" "self_info c = self_info (ctx n)"
    using assms(3) by (simp_all add: same_reg_def)
  show ?thesis using assms(1,2) by (simp add: node_inv_defs pl v r)
qed

lemma node_inv_delivers: "node_inv n \<Longrightarrow> delivers (ctx n) c \<Longrightarrow> node_inv (n\<lparr>ctx := c\<rparr>)"
  by (rule node_inv_frame)
    (auto simp: delivers_def node_inv_def intro: delivers_inv only_channels_view)

lemma node_inv_fe: "node_inv n \<Longrightarrow> fe_frame (ctx n) c \<Longrightarrow> fes_ok c \<Longrightarrow> node_inv (n\<lparr>ctx := c\<rparr>)"
  by (rule node_inv_frame)
    (auto simp: node_inv_def fe_frame_reg same_view_def fe_frame_def intro: fe_frame_inv)

lemma set_dealer_view:
  assumes "node_inv n" "dealer_view d = dealer_view (dealer_at p n)"
  shows "node_inv (set_dealer p d n)"
proof -
  have v: "same_view (ctx n) ((ctx n)\<lparr>dealers := (dealers (ctx n))(p := d)\<rparr>)"
    using assms(2) by (simp add: same_view_def)
  have "ctx_inv ((ctx n)\<lparr>dealers := (dealers (ctx n))(p := d)\<rparr>)"
    using assms(1) ctx_inv_view [OF _ v] by (simp add: node_inv_def)
  moreover have "same_reg (ctx n) ((ctx n)\<lparr>dealers := (dealers (ctx n))(p := d)\<rparr>)"
    by (simp add: same_reg_def reg_dealers_def reg_server_def fun_eq_iff)
  ultimately show ?thesis using node_inv_frame [OF assms(1)] v by (simp add: set_dealer_def)
qed

lemma via_ctx_ok:
  assumes "node_inv n"
  shows "\<exists>rank n1. via_ctx now rand req n = Inr (rank, n1) \<and> node_inv n1 \<and> same_view (ctx n) (ctx n1)"
proof -
  have "ctx_inv (ctx n)" using assms by (simp add: node_inv_def)
  from ctx_send_request_ok [OF this, of now rand req] obtain rank c where
    "ctx_send_request now rand req (ctx n) = Inr (rank, c)" "delivers (ctx n) c" by blast
  then show ?thesis using node_inv_delivers [OF assms]
    by (auto simp: via_ctx_def delivers_def only_channels_view)
qed

lemma local_push_ok:
  assumes "node_inv n"
  shows "\<exists>n1. local_push req n = Inr n1 \<and> node_inv n1"
proof -
  have "backend_ok (ctx n)" using assms by (simp add: node_inv_def ctx_inv_def)
  from push_request_ok [OF this, of req] show ?thesis using node_inv_delivers [OF assms]
    by (auto simp: local_push_def on_ctx_def)
qed

lemma send_request_raw_ok:
  assumes "node_inv n" "initialized_client (dealer_at p n)"
  shows "\<exists>n1. send_request_raw now rand p req n = Inr n1 \<and> node_inv n1"
proof -
  have sd: "node_inv (set_dealer p ((dealer_at p m)\<lparr>available_rank := a\<rparr>) m)"
    "node_inv (set_dealer p ((dealer_at p m)\<lparr>local_servers := l, available_rank := a\<rparr>) m)" if "node_inv m" for m a l
    by (rule set_dealer_view [OF that]; simp add: dealer_view_def)+
  let ?req = "((fst req)\<lparr>src_rank := d_rank (dealer_at p n), rpc_id := d_rpc_id (dealer_at p n)\<rparr>, snd req)"
  from via_ctx_ok [OF assms(1), of now rand ?req] obtain rank n1 where
    n1: "via_ctx now rand ?req n = Inr (rank, n1)" "node_inv n1" by blast
  from local_push_ok [OF assms(1), of ?req] obtain n2 where n2: "local_push ?req n = Inr n2" "node_inv n2" by blast
  show ?thesis using assms(2) n1 n2 sd [OF n1(2)]
    by (simp add: send_request_raw_def Let_def)
qed

subsection \<open>Creating dealers\<close>

lemma node_dealer_simps [simp]:
  "dealer_at q (set_dealer p d n) = (if q = p then d else dealer_at q n)"
  "rpc_servers (set_dealer p d n) = rpc_servers n" "rpc_clients (set_dealer p d n) = rpc_clients n"
  "used_ids (set_dealer p d n) = used_ids n" "next_id (set_dealer p d n) = next_id n"
  "next_dealer_ptr (set_dealer p d n) = next_dealer_ptr n" "next_object (set_dealer p d n) = next_object n"
  "reg_dealers (ctx (set_dealer p d n)) = reg_dealers (ctx n)" "reg_server (ctx (set_dealer p d n)) = reg_server (ctx n)"
  "client_backend (ctx (set_dealer p d n)) = client_backend (ctx n)" "self_info (ctx (set_dealer p d n)) = self_info (ctx n)"
  by (simp_all add: set_dealer_def reg_dealers_def reg_server_def fun_eq_iff)

text \<open>A dealer without role is in no table, and may be changed at will.\<close>

lemma unused_dealer:
  assumes "node_inv n" "\<not> initialized_server (dealer_at p n)" "\<not> initialized_client (dealer_at p n)"
  shows "p \<notin> set (reg_dealers (ctx n) rid s)" "map_of (client_backend (ctx n)) i \<noteq> Some p"
  using assms by (auto simp: node_inv_def reg_inv_def cli_inv_def)

lemma ctx_inv_set_dealer:
  assumes "ctx_inv (ctx n)" "\<And>rid s. p \<notin> set (reg_dealers (ctx n) rid s)" "\<And>i. map_of (client_backend (ctx n)) i \<noteq> Some p"
  shows "ctx_inv (ctx (set_dealer p d n))"
proof -
  have "p \<notin> set (dealers_of s q)" if "map_of (server_backend (ctx n)) rid = Some q" for rid q s
    using assms(2) [of rid s] that by (simp add: reg_dealers_def)
  then have "backend_ok (ctx (set_dealer p d n))"
    using assms(1) unfolding ctx_inv_def backend_ok_def queue_ok_def set_dealer_def by (auto simp: fun_upd_apply)
  moreover have "clients_ok (ctx (set_dealer p d n))"
    using assms(1,3) by (auto simp: ctx_inv_def clients_ok_def set_dealer_def)
  moreover have "fes_ok (ctx (set_dealer p d n))"
    using assms(1) same_rest_fes [OF same_rest_dealers [of "ctx n" "(dealers (ctx n))(p := d)"]]
    unfolding ctx_inv_def set_dealer_def by simp
  ultimately show ?thesis by (simp add: ctx_inv_def)
qed

lemma dealer_new_ok:
  fixes n :: "'b node"
  assumes "node_inv n" "next_dealer_ptr n < ID_LIMIT"
  shows "\<exists>n1. dealer_new rid n = Some (next_dealer_ptr n, n1) \<and> node_inv n1 \<and>
    dealer_at (next_dealer_ptr n) n1 = dealer_object (word_of_nat (next_dealer_ptr n)) rid (global_rank (self_info (ctx n))) \<and>
    next_dealer_ptr n1 = Suc (next_dealer_ptr n) \<and> rpc_servers n1 = rpc_servers n \<and> rpc_clients n1 = rpc_clients n \<and>
    self_info (ctx n1) = self_info (ctx n) \<and> reg_dealers (ctx n1) = reg_dealers (ctx n) \<and> reg_server (ctx n1) = reg_server (ctx n)"
proof -
  let ?k = "next_dealer_ptr n"
  let ?d = "dealer_object (word_of_nat ?k) rid (global_rank (self_info (ctx n))) :: 'b dealer"
  have g: "gen_id (used_ids n) (next_id n) = Some (word_of_nat ?k, ids_below (Suc ?k), word_of_nat (Suc ?k))"
    using assms(1) gen_id_fresh [OF assms(2)] by (simp add: node_inv_def ids_inv_def)
  define n0 where "n0 = n\<lparr>used_ids := ids_below (Suc ?k), next_id := word_of_nat (Suc ?k), next_dealer_ptr := Suc ?k\<rparr>"
  define n1 where "n1 = set_dealer ?k ?d n0"
  have e: "dealer_new rid n = Some (?k, n1)"
    by (simp add: dealer_new_def g n1_def n0_def Let_def)
  have un: "\<not> initialized_server (dealer_at ?k n)" "\<not> initialized_client (dealer_at ?k n)"
    using assms(1) by (auto simp: node_inv_def ids_inv_def)
  have d: "\<not> initialized_server ?d" "\<not> initialized_client ?d" "d_id ?d = word_of_nat ?k"
    "d_rank ?d = global_rank (self_info (ctx n))" by (simp_all add: dealer_object_def)
  have ci: "ctx_inv (ctx n1)"
    unfolding n1_def using assms(1) unused_dealer [OF assms(1) un]
    by (intro ctx_inv_set_dealer) (simp_all add: n0_def node_inv_def)
  have at: "dealer_at p n1 = (if p = ?k then ?d else dealer_at p n)" for p by (simp add: n1_def n0_def)
  have pl: "initialized_server (dealer_at p n1) \<Longrightarrow> place n1 p = place n p" for p
    using d(1) by (auto simp: place_def n1_def n0_def split: if_splits option.splits)
  have st: "initialized_server (dealer_at p n1) = initialized_server (dealer_at p n)"
    "initialized_client (dealer_at p n1) = initialized_client (dealer_at p n)" for p
    using un d by (simp_all add: at)
  have sets: "{p. initialized_server (dealer_at p n1) \<and> d_server (dealer_at p n1) = x} =
      {p. initialized_server (dealer_at p n) \<and> d_server (dealer_at p n) = x}"
    "{p. initialized_client (dealer_at p n1) \<and> d_client (dealer_at p n1) = y} =
      {p. initialized_client (dealer_at p n) \<and> d_client (dealer_at p n) = y}" for x y
    using un d by (auto simp: at split: if_splits)
  have cl: "initialized_client (dealer_at p n) \<Longrightarrow> d_client (dealer_at p n1) = d_client (dealer_at p n)" for p
    using un(2) by (auto simp: at)
  have tabs: "rpc_servers n1 = rpc_servers n" "rpc_clients n1 = rpc_clients n" "next_object n1 = next_object n"
    "reg_dealers (ctx n1) = reg_dealers (ctx n)" "reg_server (ctx n1) = reg_server (ctx n)"
    "client_backend (ctx n1) = client_backend (ctx n)" "self_info (ctx n1) = self_info (ctx n)"
    "next_dealer_ptr n1 = Suc ?k" "used_ids n1 = ids_below (Suc ?k)" "next_id n1 = word_of_nat (Suc ?k)"
    by (simp_all add: n1_def n0_def)
  have "ids_inv n1"
    using assms d(3,4) unfolding node_inv_def ids_inv_def tabs st by (auto simp: at less_Suc_eq)
  moreover have "reg_inv n1" using assms(1) pl st(1) unfolding node_inv_def reg_inv_def tabs by metis
  moreover have "cli_inv n1" using assms(1) un(2) unfolding node_inv_def cli_inv_def tabs st(2) by (auto simp: at)
  moreover have "srv_inv n1" using assms(1) unfolding node_inv_def srv_inv_def tabs sets by blast
  moreover have "clients_inv n1"
    using assms(1) unfolding node_inv_def clients_inv_def tabs sets by (auto simp: st(2) cl)
  ultimately show ?thesis using e ci tabs by (simp add: node_inv_def at)
qed

text \<open>Giving a dealer that has no role yet the role of a server for a place, and of a client.\<close>

lemma node_inv_server_role:
  fixes n :: "'b node"
  assumes inv: "node_inv n" and un: "\<not> initialized_server (dealer_at p n)" and lt: "p < next_dealer_ptr n"
    and d: "d = (dealer_at p n)\<lparr>d_server := sv, server_req_ch := Some [], initialized_server := True\<rparr>"
    and pl: "place (set_dealer p d n) p = Some (rid, sint i)"
  shows "\<exists>c'. ctx_add_server_dealer ij rid i p (ctx (set_dealer p d n)) = Inr c' \<and>
    reg_step (ctx (set_dealer p d n)) c' \<and> reg_server c' = reg_server (ctx n) \<and>
    reg_dealers c' = (\<lambda>r t. if r = rid \<and> t = sint i then reg_dealers (ctx n) r t @ [p] else reg_dealers (ctx n) r t)"
proof -
  have notin: "p \<notin> set (reg_dealers (ctx n) r t)" for r t using inv un by (simp add: node_inv_def reg_inv_def)
  have q: "p \<notin> set (dealers_of s q)" if "map_of (server_backend (ctx n)) r = Some q" for r q s
    using notin [of r s] that by (simp add: reg_dealers_def)
  have "backend_ok (ctx (set_dealer p d n))"
    using inv q unfolding node_inv_def ctx_inv_def backend_ok_def queue_ok_def set_dealer_def by (auto simp: fun_upd_apply)
  moreover have "clients_ok (ctx (set_dealer p d n))"
    using inv by (auto simp: node_inv_def ctx_inv_def clients_ok_def set_dealer_def d)
  moreover have "fes_ok (ctx (set_dealer p d n))"
    using inv same_rest_fes [OF same_rest_dealers [of "ctx n" "(dealers (ctx n))(p := d)"]]
    unfolding node_inv_def ctx_inv_def set_dealer_def by simp
  ultimately have "ctx_inv (ctx (set_dealer p d n))" by (simp add: ctx_inv_def)
  from ctx_add_server_dealer_ok [OF this, of p rid i ij] notin show ?thesis
    unfolding node_dealer_simps if_P [OF refl] by (simp add: d)
qed

lemma card_insert_role:
  assumes "node_inv n" "\<not> initialized_client (dealer_at p n)"
  shows "card (insert p {q. initialized_client (dealer_at q n) \<and> d_client (dealer_at q n) = Some k}) =
    Suc (card {q. initialized_client (dealer_at q n) \<and> d_client (dealer_at q n) = Some k})"
proof -
  have "{q. initialized_client (dealer_at q n) \<and> d_client (dealer_at q n) = Some k} \<subseteq> {..<next_dealer_ptr n}"
    using assms(1) by (auto simp: node_inv_def ids_inv_def)
  then have "finite {q. initialized_client (dealer_at q n) \<and> d_client (dealer_at q n) = Some k}"
    using finite_lessThan finite_subset by blast
  then show ?thesis using assms(2) by simp
qed

lemma map_of_emplace: "map_of (emplace k v al) = (if map_of al k = None then (map_of al)(k \<mapsto> v) else map_of al)"
  by (auto simp: emplace_def map_add_def fun_eq_iff split: option.splits)

lemma other_id:
  assumes "node_inv n" "initialized_client (dealer_at q n)" "p < next_dealer_ptr n" "d_id (dealer_at q n) = d_id (dealer_at p n)"
  shows "q = p"
proof -
  have lt: "q < next_dealer_ptr n" "next_dealer_ptr n \<le> ID_LIMIT" using assms(1,2) by (auto simp: node_inv_def ids_inv_def)
  then have "(word_of_nat q :: 32 word) = word_of_nat p" using assms by (auto simp: node_inv_def ids_inv_def)
  then have e: "unat (word_of_nat q :: 32 word) = unat (word_of_nat p :: 32 word)" by (rule arg_cong)
  have "unat (word_of_nat q :: 32 word) = q" by (rule unat_id [OF less_le_trans [OF lt]])
  moreover have "unat (word_of_nat p :: 32 word) = p" by (rule unat_id [OF less_le_trans [OF assms(3) lt(2)]])
  ultimately show ?thesis using e by metis
qed

lemma node_inv_client_role:
  fixes n :: "'b node"
  assumes inv: "node_inv n" and un: "\<not> initialized_client (dealer_at p n)" and lt: "p < next_dealer_ptr n"
    and d: "d = (dealer_at p n)\<lparr>d_client := cl, client_resp_ch := Some [], initialized_client := True\<rparr>"
    and cls: "case cl of None \<Rightarrow> cls = rpc_clients n
      | Some k \<Rightarrow> \<exists>cli. map_of (rpc_clients n) k = Some cli \<and> cls = AList.update k (cli\<lparr>n_dealers := n_dealers cli + 1\<rparr>) (rpc_clients n)"
  shows "node_inv ((set_dealer p d n)\<lparr>ctx := add_client_dealer p (ctx (set_dealer p d n)), rpc_clients := cls\<rparr>)"
    (is "node_inv ?m")
proof -
  let ?c = "ctx (set_dealer p d n)"
  define m where "m = ?m"
  have none: "map_of (client_backend (ctx n)) (d_id (dealer_at p n)) = None"
  proof (rule ccontr)
    assume "map_of (client_backend (ctx n)) (d_id (dealer_at p n)) \<noteq> None"
    then obtain q where "map_of (client_backend (ctx n)) (d_id (dealer_at p n)) = Some q" by auto
    then have "initialized_client (dealer_at q n)" "d_id (dealer_at q n) = d_id (dealer_at p n)"
      using inv by (auto simp: node_inv_def cli_inv_def)
    then show False using other_id [OF inv _ lt] un by auto
  qed
  have cb: "map_of (client_backend (ctx m)) = (map_of (client_backend (ctx n)))(d_id (dealer_at p n) \<mapsto> p)"
    using none by (simp add: m_def add_client_dealer_def map_of_emplace d)
  have at: "dealer_at q m = (if q = p then d else dealer_at q n)" for q by (simp add: m_def add_client_dealer_def)
  have tabs: "reg_dealers (ctx m) = reg_dealers (ctx n)" "reg_server (ctx m) = reg_server (ctx n)"
    "self_info (ctx m) = self_info (ctx n)" "server_backend (ctx m) = server_backend (ctx n)"
    "next_dealer_ptr m = next_dealer_ptr n" "used_ids m = used_ids n" "next_id m = next_id n"
    "rpc_servers m = rpc_servers n" "next_object m = next_object n" "rpc_clients m = cls"
    by (simp_all add: m_def add_client_dealer_def reg_dealers_def reg_server_def fun_eq_iff set_dealer_def)
  have dq: "initialized_server d = initialized_server (dealer_at p n)" "d_server d = d_server (dealer_at p n)"
    "d_id d = d_id (dealer_at p n)" "d_rpc_id d = d_rpc_id (dealer_at p n)" "d_rank d = d_rank (dealer_at p n)"
    "server_req_ch d = server_req_ch (dealer_at p n)" "initialized_client d" "d_client d = cl" "client_resp_ch d = Some []"
    by (simp_all add: d)
  have pl: "place m = place n" by (simp add: place_def fun_eq_iff at dq tabs split: option.split)
  have sv: "initialized_server (dealer_at q m) = initialized_server (dealer_at q n)"
    "d_server (dealer_at q m) = d_server (dealer_at q n)" for q by (simp_all add: at dq)
  have "fes_ok (ctx m)"
  proof -
    have "fes_ok ?c" using inv same_rest_fes [OF same_rest_dealers [of "ctx n" "(dealers (ctx n))(p := d)"]]
      unfolding node_inv_def ctx_inv_def set_dealer_def by simp
    then show ?thesis by (simp add: m_def add_client_dealer_def fes_ok_def events_ok_def socket_ok_def)
  qed
  moreover have "backend_ok (ctx m)"
    using inv dq(1,6) unfolding node_inv_def ctx_inv_def backend_ok_def queue_ok_def tabs by (auto simp: at)
  moreover have "clients_ok (ctx m)"
    using inv un dq(3,7,9) unfolding node_inv_def ctx_inv_def clients_ok_def cb by (auto simp: at)
  moreover have "ids_inv m" using inv dq(3,5) lt unfolding node_inv_def ids_inv_def sv tabs by (auto simp: at)
  moreover have "reg_inv m" using inv unfolding node_inv_def reg_inv_def tabs pl sv by blast
  moreover have "cli_inv m"
    using inv un dq(3,7) other_id [OF inv _ lt] unfolding node_inv_def cli_inv_def cb by (auto simp: at)
  moreover have "srv_inv m" using inv unfolding node_inv_def srv_inv_def tabs sv by simp
  moreover have "clients_inv m"
  proof -
    have set: "{q. initialized_client (dealer_at q m) \<and> d_client (dealer_at q m) = Some k} =
        (if cl = Some k then insert p {q. initialized_client (dealer_at q n) \<and> d_client (dealer_at q n) = Some k}
         else {q. initialized_client (dealer_at q n) \<and> d_client (dealer_at q n) = Some k})" for k
      using un by (auto simp: at dq)
    show ?thesis
    proof (cases cl)
      case None
      then show ?thesis using inv cls unfolding node_inv_def clients_inv_def set tabs by (auto simp: at dq)
    next
      case (Some k)
      with cls obtain cli where cli: "map_of (rpc_clients n) k = Some cli"
        "cls = AList.update k (cli\<lparr>n_dealers := n_dealers cli + 1\<rparr>) (rpc_clients n)" by auto
      then show ?thesis using inv card_insert_role [OF inv un, of k] Some
        unfolding node_inv_def clients_inv_def set tabs by (auto simp: update_conv at dq)
    qed
  qed
  ultimately have "node_inv m" by (simp add: node_inv_def ctx_inv_def)
  then show ?thesis by (simp only: m_def)
qed

text \<open>The whole creation of a server dealer, from a node whose new dealer has no role.\<close>

lemma node_inv_register:
  fixes n :: "'b node"
  assumes inv: "node_inv n" and un: "\<not> initialized_server (dealer_at p n)" and lt: "p < next_dealer_ptr n"
    and d: "d = (dealer_at p n)\<lparr>d_server := sv, server_req_ch := Some [], initialized_server := True\<rparr>"
    and pl: "place (set_dealer p d n) p = Some (rid, sint i)"
    and st: "reg_step (ctx (set_dealer p d n)) c" "reg_server c = reg_server (ctx n)"
      "reg_dealers c = (\<lambda>r t. if r = rid \<and> t = sint i then reg_dealers (ctx n) r t @ [p] else reg_dealers (ctx n) r t)"
    and srvs: "case sv of None \<Rightarrow> srvs = rpc_servers n
      | Some s \<Rightarrow> \<exists>srv. map_of (rpc_servers n) s = Some srv \<and>
          srvs = AList.update s (srv\<lparr>srv_dealers := insert p (srv_dealers srv)\<rparr>) (rpc_servers n)"
  shows "node_inv ((set_dealer p d n)\<lparr>ctx := c, rpc_servers := srvs\<rparr>)" (is "node_inv ?m")
proof -
  define m where "m = ?m"
  have oc: "only_channels (ctx (set_dealer p d n)) c" and ci: "ctx_inv c"
    and cb: "client_backend c = client_backend (ctx n)" "self_info c = self_info (ctx n)"
    using st(1) by (simp_all add: reg_step_def)
  note f = only_channels_fields [OF oc]
  have tabs: "ctx m = c" "next_dealer_ptr m = next_dealer_ptr n" "used_ids m = used_ids n" "next_id m = next_id n"
    "rpc_clients m = rpc_clients n" "next_object m = next_object n" "rpc_servers m = srvs"
    by (simp_all add: m_def)
  have dq: "d_id d = d_id (dealer_at p n)" "d_rank d = d_rank (dealer_at p n)" "d_client d = d_client (dealer_at p n)"
    "initialized_client d = initialized_client (dealer_at p n)" "d_rpc_id d = d_rpc_id (dealer_at p n)"
    "initialized_server d" "d_server d = sv" by (simp_all add: d)
  have at: "d_id (dealers c q) = d_id (dealer_at q n)" "d_rank (dealers c q) = d_rank (dealer_at q n)"
    "d_client (dealers c q) = d_client (dealer_at q n)" "initialized_client (dealers c q) = initialized_client (dealer_at q n)"
    "d_rpc_id (dealers c q) = d_rpc_id (dealer_at q n)"
    "initialized_server (dealers c q) \<longleftrightarrow> q = p \<or> initialized_server (dealer_at q n)"
    "d_server (dealers c q) = (if q = p then sv else d_server (dealer_at q n))" for q
    by (simp_all add: f dq)
  have ms: "map_of srvs t = (if sv = Some t then map_option (\<lambda>srv. srv\<lparr>srv_dealers := insert p (srv_dealers srv)\<rparr>) (map_of (rpc_servers n) t)
      else map_of (rpc_servers n) t)" for t
    using srvs by (auto simp: update_conv split: option.splits)
  have id: "map_option (\<lambda>srv. (srv_rpc_id srv, sint (srv_id srv))) (map_of srvs t) =
      map_option (\<lambda>srv. (srv_rpc_id srv, sint (srv_id srv))) (map_of (rpc_servers n) t)" for t
    by (simp add: ms option.map_comp comp_def)
  have plm: "place m q = (if q = p then Some (rid, sint i) else place n q)" for q
    using pl unfolding place_def tabs at id by (cases sv) (auto simp: dq split: option.splits)
  have "ids_inv m" using inv lt unfolding node_inv_def ids_inv_def tabs at cb by auto
  moreover have "reg_inv m"
    using inv un unfolding node_inv_def reg_inv_def tabs at plm st(3) by auto
  moreover have "cli_inv m" using inv unfolding node_inv_def cli_inv_def tabs at cb by simp
  moreover have "clients_inv m" using inv unfolding node_inv_def clients_inv_def tabs at by simp
  moreover have "srv_inv m"
  proof -
    have set: "{q. (q = p \<or> initialized_server (dealer_at q n)) \<and> (if q = p then sv else d_server (dealer_at q n)) = Some t} =
        (if sv = Some t then insert p {q. initialized_server (dealer_at q n) \<and> d_server (dealer_at q n) = Some t}
         else {q. initialized_server (dealer_at q n) \<and> d_server (dealer_at q n) = Some t})" for t
      using un by auto
    show ?thesis using inv unfolding node_inv_def srv_inv_def tabs at st(2) set ms by (auto split: if_splits)
  qed
  ultimately have "node_inv m" using ci by (simp add: node_inv_def tabs)
  then show ?thesis by (simp only: m_def)
qed

lemma server_create_dealer_ok:
  assumes "node_inv n" "next_dealer_ptr n < ID_LIMIT" "map_of (rpc_servers n) s = Some srv"
  shows "\<exists>n'. server_create_dealer ij s n = Some (Inr (next_dealer_ptr n, n')) \<and> node_inv n'"
proof -
  let ?p = "next_dealer_ptr n"
  from dealer_new_ok [OF assms(1,2), of "srv_rpc_id srv"] obtain n1 where
    n1: "dealer_new (srv_rpc_id srv) n = Some (?p, n1)" "node_inv n1"
      "dealer_at ?p n1 = dealer_object (word_of_nat ?p) (srv_rpc_id srv) (global_rank (self_info (ctx n)))"
      "next_dealer_ptr n1 = Suc ?p" "rpc_servers n1 = rpc_servers n" by blast
  have un: "\<not> initialized_server (dealer_at ?p n1)" and lt: "?p < next_dealer_ptr n1"
    using n1(3,4) by (simp_all add: dealer_object_def)
  define d where "d = (dealer_at ?p n1)\<lparr>d_server := Some s, server_req_ch := Some [], initialized_server := True\<rparr>"
  have pl: "place (set_dealer ?p d n1) ?p = Some (srv_rpc_id srv, sint (srv_id srv))"
    using assms(3) n1(5) by (simp add: place_def d_def)
  from node_inv_server_role [OF n1(2) un lt d_def pl, of ij] obtain c where
    c: "ctx_add_server_dealer ij (srv_rpc_id srv) (srv_id srv) ?p (ctx (set_dealer ?p d n1)) = Inr c"
      "reg_step (ctx (set_dealer ?p d n1)) c" "reg_server c = reg_server (ctx n1)"
      "reg_dealers c = (\<lambda>r t. if r = srv_rpc_id srv \<and> t = sint (srv_id srv) then reg_dealers (ctx n1) r t @ [?p] else reg_dealers (ctx n1) r t)"
    by blast
  define n3 where "n3 = (set_dealer ?p d n1)\<lparr>ctx := c,
    rpc_servers := AList.update s (srv\<lparr>srv_dealers := insert ?p (srv_dealers srv)\<rparr>) (rpc_servers n1)\<rparr>"
  have inv: "node_inv n3" unfolding n3_def
    by (rule node_inv_register [OF n1(2) un lt d_def pl c(2-4)]) (simp add: assms(3) n1(5))
  have "node_inv (dealer_terminate ?p n3)" unfolding dealer_terminate_def
    by (rule set_dealer_view [OF inv]) (simp add: dealer_view_def)
  moreover have "server_create_dealer ij s n = Some (Inr (?p, if srv_terminate srv then dealer_terminate ?p n3 else n3))"
    using n1(1,5) un c(1)
    by (simp add: server_create_dealer_def assms(3) initialize_as_server_def on_ctx_def Let_def n3_def
        d_def [symmetric])
  ultimately show ?thesis using inv by simp
qed

lemma client_create_dealer_ok:
  assumes "node_inv n" "next_dealer_ptr n < ID_LIMIT" "map_of (rpc_clients n) k = Some cli"
  shows "\<exists>n'. client_create_dealer k n = Some (Inr (next_dealer_ptr n, n')) \<and> node_inv n'"
proof -
  let ?p = "next_dealer_ptr n"
  from dealer_new_ok [OF assms(1,2), of "cli_rpc_id cli"] obtain n1 where
    n1: "dealer_new (cli_rpc_id cli) n = Some (?p, n1)" "node_inv n1"
      "dealer_at ?p n1 = dealer_object (word_of_nat ?p) (cli_rpc_id cli) (global_rank (self_info (ctx n)))"
      "next_dealer_ptr n1 = Suc ?p" "rpc_clients n1 = rpc_clients n" by blast
  have un: "\<not> initialized_client (dealer_at ?p n1)" and lt: "?p < next_dealer_ptr n1"
    using n1(3,4) by (simp_all add: dealer_object_def)
  define d where "d = (dealer_at ?p n1)\<lparr>d_client := Some k, client_resp_ch := Some [], initialized_client := True\<rparr>"
  have "node_inv ((set_dealer ?p d n1)\<lparr>ctx := add_client_dealer ?p (ctx (set_dealer ?p d n1)),
      rpc_clients := AList.update k (cli\<lparr>n_dealers := n_dealers cli + 1\<rparr>) (rpc_clients n1)\<rparr>)"
    by (rule node_inv_client_role [OF n1(2) un lt d_def]) (simp add: assms(3) n1(5))
  then show ?thesis using n1(1,5) un
    by (simp add: client_create_dealer_def assms(3) initialize_as_client_def d_def [symmetric])
qed

lemma deliver_client_backend:
  "deliver out (c\<lparr>client_backend := x\<rparr>) = rbind (deliver out c) (\<lambda>c'. Inr (c'\<lparr>client_backend := x\<rparr>))"
proof (induction out arbitrary: c)
  case (Cons a out)
  obtain p r where a: "a = (p, r)" by (metis surj_pair)
  have "dealer_push_request p r (c\<lparr>client_backend := x\<rparr>) =
      rbind (dealer_push_request p r c) (\<lambda>c'. Inr (c'\<lparr>client_backend := x\<rparr>))"
    by (cases "initialized_server (dealers c p)"; cases "server_req_ch (dealers c p)") (simp_all add: dealer_push_request_def)
  then show ?case using Cons.IH by (cases "dealer_push_request p r c") (simp_all add: a)
qed simp

lemma add_dealer_client_backend:
  "ctx_add_server_dealer ij rid s d (c\<lparr>client_backend := x\<rparr>) =
     rbind (ctx_add_server_dealer ij rid s d c) (\<lambda>c'. Inr (c'\<lparr>client_backend := x\<rparr>))"
proof -
  have q: "backend_queue ij rid (c\<lparr>client_backend := x\<rparr>) = backend_queue ij rid c" by (simp add: backend_queue_def)
  have p: "put_backend rid q (c\<lparr>client_backend := x\<rparr>) = (put_backend rid q c)\<lparr>client_backend := x\<rparr>" for q
    by (simp add: put_backend_def)
  show ?thesis unfolding ctx_add_server_dealer_def q p
    by (simp add: deliver_client_backend split: prod.split)
qed

lemma service_create_dealer_ok:
  assumes "node_inv n" "next_dealer_ptr n < ID_LIMIT"
  shows "\<exists>n'. service_create_dealer ij rid n = Some (Inr (next_dealer_ptr n, n')) \<and> node_inv n'"
proof -
  let ?p = "next_dealer_ptr n"
  from dealer_new_ok [OF assms, of rid] obtain n1 where
    n1: "dealer_new rid n = Some (?p, n1)" "node_inv n1"
      "dealer_at ?p n1 = dealer_object (word_of_nat ?p) rid (global_rank (self_info (ctx n)))"
      "next_dealer_ptr n1 = Suc ?p" by blast
  have un: "\<not> initialized_server (dealer_at ?p n1)" "\<not> initialized_client (dealer_at ?p n1)" "?p < next_dealer_ptr n1"
    using n1(3,4) by (simp_all add: dealer_object_def)
  define dc where "dc = (dealer_at ?p n1)\<lparr>d_client := None, client_resp_ch := Some [], initialized_client := True\<rparr>"
  define n2 where "n2 = set_dealer ?p dc n1"
  define x where "x = client_backend (add_client_dealer ?p (ctx n2))"
  define m1 where "m1 = n2\<lparr>ctx := (ctx n2)\<lparr>client_backend := x\<rparr>\<rparr>"
  have acd: "add_client_dealer ?p (ctx n2) = (ctx n2)\<lparr>client_backend := x\<rparr>" by (simp add: x_def add_client_dealer_def)
  have "node_inv ((set_dealer ?p dc n1)\<lparr>ctx := add_client_dealer ?p (ctx (set_dealer ?p dc n1)), rpc_clients := rpc_clients n1\<rparr>)"
    by (rule node_inv_client_role [OF n1(2) un(2,3) dc_def]) simp
  moreover have "(set_dealer ?p dc n1)\<lparr>ctx := y, rpc_clients := rpc_clients n1\<rparr> = (set_dealer ?p dc n1)\<lparr>ctx := y\<rparr>" for y
    by (simp add: set_dealer_def)
  ultimately have inv1: "node_inv m1" by (simp add: m1_def acd [unfolded n2_def] n2_def)
  have m1d: "dealer_at ?p m1 = dc" "next_dealer_ptr m1 = Suc ?p" by (simp_all add: m1_def n2_def n1(4))
  have un1: "\<not> initialized_server (dealer_at ?p m1)" "?p < next_dealer_ptr m1" using un m1d by (simp_all add: dc_def)
  define ds where "ds = (dealer_at ?p m1)\<lparr>d_server := None, server_req_ch := Some [], initialized_server := True\<rparr>"
  have pl: "place (set_dealer ?p ds m1) ?p = Some (rid, sint (-1 :: 32 word))"
    using n1(3) by (simp add: place_def ds_def m1d dc_def dealer_object_def)
  from node_inv_server_role [OF inv1 un1 ds_def pl, of ij] obtain c where
    c: "ctx_add_server_dealer ij rid (-1) ?p (ctx (set_dealer ?p ds m1)) = Inr c"
      "reg_step (ctx (set_dealer ?p ds m1)) c" "reg_server c = reg_server (ctx m1)"
      "reg_dealers c = (\<lambda>r t. if r = rid \<and> t = sint (-1 :: 32 word) then reg_dealers (ctx m1) r t @ [?p] else reg_dealers (ctx m1) r t)"
    by blast
  have "node_inv ((set_dealer ?p ds m1)\<lparr>ctx := c, rpc_servers := rpc_servers m1\<rparr>)"
    by (rule node_inv_register [OF inv1 un1 ds_def pl c(2-4)]) simp
  then have fin: "node_inv ((set_dealer ?p ds n2)\<lparr>ctx := c\<rparr>)"
    by (simp add: m1_def set_dealer_def)
  have e: "ctx (set_dealer ?p ds m1) = (ctx (set_dealer ?p ds n2))\<lparr>client_backend := x\<rparr>"
    by (simp add: m1_def set_dealer_def)
  obtain c0 where c0: "ctx_add_server_dealer ij rid (-1) ?p (ctx (set_dealer ?p ds n2)) = Inr c0" "c = c0\<lparr>client_backend := x\<rparr>"
    using c(1) unfolding e add_dealer_client_backend by (auto simp: prpc_simps)
  have "only_channels (ctx (set_dealer ?p ds m1)) c" using c(2) by (simp add: reg_step_def)
  from only_channels_fields(3) [OF this, of ?p] have idc: "d_id (dealers c0 ?p) = d_id dc"
    by (simp add: c0(2) ds_def m1d)
  have "c0 = c0\<lparr>client_backend := client_backend (ctx n2)\<rparr>"
    using add_dealer_client_backend [where ij = ij and rid = rid and s = "-1" and d = ?p and
        c = "ctx (set_dealer ?p ds n2)" and x = "client_backend (ctx n2)"] c0(1)
    by (simp add: set_dealer_def)
  then have "client_backend c0 = client_backend (c0\<lparr>client_backend := client_backend (ctx n2)\<rparr>)" by (rule arg_cong)
  then have cb0: "client_backend c0 = client_backend (ctx n2)" by simp
  have "add_client_dealer ?p c0 = c"
    using idc cb0 by (simp add: add_client_dealer_def c0(2) x_def n2_def)
  moreover have "dealer_at ?p n2 = dc" "\<not> initialized_server dc" using un by (simp_all add: n2_def dc_def)
  moreover have "ds = dc\<lparr>d_server := None, server_req_ch := Some [], initialized_server := True\<rparr>" by (simp add: ds_def m1d)
  ultimately have "service_create_dealer ij rid n = Some (Inr (?p, (set_dealer ?p ds n2)\<lparr>ctx := c\<rparr>))"
    using n1(1) un(2) c0(1)
    by (simp add: service_create_dealer_def initialize_as_client_def initialize_as_server_def on_ctx_def
        dc_def [symmetric] n2_def [symmetric])
  then show ?thesis using fin by simp
qed

subsection \<open>Finalizing dealers\<close>

lemma node_inv_unregister:
  fixes n :: "'b node"
  assumes inv: "node_inv n" and init: "initialized_server (dealer_at p n)" and pl: "place n p = Some (rid, sint i)"
    and st: "reg_step (ctx n) c" "reg_server c = reg_server (ctx n)" "dealers c = dealers (ctx n)"
      "reg_dealers c = (\<lambda>r t. if r = rid \<and> t = sint i then ds else reg_dealers (ctx n) r t)"
      "set ds = set (reg_dealers (ctx n) rid (sint i)) - {p}"
    and srvs: "case d_server (dealer_at p n) of None \<Rightarrow> srvs = rpc_servers n
      | Some s \<Rightarrow> \<exists>srv. map_of (rpc_servers n) s = Some srv \<and>
          srvs = AList.update s (srv\<lparr>srv_dealers := srv_dealers srv - {p}\<rparr>) (rpc_servers n)"
  shows "node_inv (set_dealer p ((dealer_at p n)\<lparr>server_req_ch := None, initialized_server := False\<rparr>)
    (n\<lparr>ctx := c, rpc_servers := srvs\<rparr>))" (is "node_inv ?m")
proof -
  define m where "m = ?m"
  let ?d = "(dealer_at p n)\<lparr>server_req_ch := None, initialized_server := False\<rparr>"
  have ci: "ctx_inv c" and cb: "client_backend c = client_backend (ctx n)" "self_info c = self_info (ctx n)"
    using st(1) by (simp_all add: reg_step_def)
  have tabs: "next_dealer_ptr m = next_dealer_ptr n" "used_ids m = used_ids n" "next_id m = next_id n"
    "rpc_clients m = rpc_clients n" "next_object m = next_object n" "rpc_servers m = srvs"
    "client_backend (ctx m) = client_backend (ctx n)" "self_info (ctx m) = self_info (ctx n)"
    "reg_server (ctx m) = reg_server (ctx n)" "reg_dealers (ctx m) = reg_dealers c"
    by (simp_all add: m_def cb st(2))
  have at: "dealer_at q m = (if q = p then ?d else dealer_at q n)" for q by (simp add: m_def st(3))
  have fl: "d_id (dealer_at q m) = d_id (dealer_at q n)" "d_rank (dealer_at q m) = d_rank (dealer_at q n)"
    "d_client (dealer_at q m) = d_client (dealer_at q n)" "initialized_client (dealer_at q m) = initialized_client (dealer_at q n)"
    "d_rpc_id (dealer_at q m) = d_rpc_id (dealer_at q n)" "d_server (dealer_at q m) = d_server (dealer_at q n)"
    "client_resp_ch (dealer_at q m) = client_resp_ch (dealer_at q n)"
    "initialized_server (dealer_at q m) \<longleftrightarrow> q \<noteq> p \<and> initialized_server (dealer_at q n)"
    "q \<noteq> p \<Longrightarrow> server_req_ch (dealer_at q m) = server_req_ch (dealer_at q n)" for q
    by (simp_all add: at)
  have ri: "q \<in> set (reg_dealers (ctx n) r t) \<longleftrightarrow> initialized_server (dealer_at q n) \<and> place n q = Some (r, t)" for q r t
    using inv by (simp add: node_inv_def reg_inv_def)
  have reg: "q \<in> set (reg_dealers c r t) \<longleftrightarrow> q \<noteq> p \<and> q \<in> set (reg_dealers (ctx n) r t)" for q r t
    unfolding st(4) using st(5) pl ri by auto
  have np: "p \<notin> set (dealers_of t q)" if "map_of (server_backend c) r = Some q" for r q t
    using reg [of p r t] that by (simp add: reg_dealers_def)
  have sb: "server_backend (ctx m) = server_backend c" by (simp add: m_def set_dealer_def)
  have "backend_ok (ctx m)"
    unfolding backend_ok_def queue_ok_def sb
  proof (intro allI impI conjI ballI)
    fix r q t x
    assume q: "map_of (server_backend c) r = Some q"
    have qo: "queue_ok c q" using ci q by (simp add: ctx_inv_def backend_ok_def)
    then show "fq_inv q" "\<not> fq_empty q" by (simp_all add: queue_ok_def)
    assume x: "x \<in> set (dealers_of t q)"
    then have "x \<noteq> p" using np [OF q] by blast
    then show "initialized_server (dealer_at x m)" "server_req_ch (dealer_at x m) \<noteq> None"
      using qo x by (auto simp: queue_ok_def st(3) fl)
  qed
  moreover have "clients_ok (ctx m)"
    using inv unfolding node_inv_def ctx_inv_def clients_ok_def tabs fl by blast
  moreover have "fes_ok (ctx m)"
    using ci same_rest_fes [OF same_rest_dealers [of c "(dealers c)(p := ?d)"]]
    unfolding ctx_inv_def m_def set_dealer_def by simp
  ultimately have "ctx_inv (ctx m)" by (simp add: ctx_inv_def)
  have ms: "map_of srvs t = (if d_server (dealer_at p n) = Some t
      then map_option (\<lambda>srv. srv\<lparr>srv_dealers := srv_dealers srv - {p}\<rparr>) (map_of (rpc_servers n) t)
      else map_of (rpc_servers n) t)" for t
    using srvs by (auto simp: update_conv split: option.splits)
  have id: "map_option (\<lambda>srv. (srv_rpc_id srv, sint (srv_id srv))) (map_of srvs t) =
      map_option (\<lambda>srv. (srv_rpc_id srv, sint (srv_id srv))) (map_of (rpc_servers n) t)" for t
    by (simp add: ms option.map_comp comp_def)
  have plm: "place m = place n" unfolding place_def fl tabs id by simp
  have "ids_inv m" using inv unfolding node_inv_def ids_inv_def tabs fl by blast
  moreover have "reg_inv m" using inv unfolding node_inv_def reg_inv_def tabs fl reg plm by blast
  moreover have "cli_inv m" using inv unfolding node_inv_def cli_inv_def tabs fl by blast
  moreover have "clients_inv m" using inv unfolding node_inv_def clients_inv_def tabs fl by blast
  moreover have "srv_inv m"
  proof -
    have set: "{q. (q \<noteq> p \<and> initialized_server (dealer_at q n)) \<and> d_server (dealer_at q n) = Some t} =
        (if d_server (dealer_at p n) = Some t then {q. initialized_server (dealer_at q n) \<and> d_server (dealer_at q n) = Some t} - {p}
         else {q. initialized_server (dealer_at q n) \<and> d_server (dealer_at q n) = Some t})" for t
      by auto
    show ?thesis using inv unfolding node_inv_def srv_inv_def tabs fl set ms by (auto split: if_splits)
  qed
  ultimately have "node_inv m" using \<open>ctx_inv (ctx m)\<close> by (simp add: node_inv_def)
  then show ?thesis by (simp only: m_def)
qed

lemma finalize_server_ok:
  assumes "node_inv n"
  shows "\<exists>n1. finalize_server p n = Inr n1 \<and> node_inv n1"
proof (cases "initialized_server (dealer_at p n)")
  case False
  then show ?thesis using assms by (simp add: finalize_server_def)
next
  case True
  then have "place n p \<noteq> None" using assms by (simp add: node_inv_def reg_inv_def)
  have ci: "ctx_inv (ctx n)" using assms by (simp add: node_inv_def)
  have mem: "p \<in> set (reg_dealers (ctx n) r t)" if "place n p = Some (r, t)" for r t
    using assms True that by (simp add: node_inv_def reg_inv_def)
  show ?thesis
  proof (cases "d_server (dealer_at p n)")
    case None
    let ?rid = "d_rpc_id (dealer_at p n)"
    have pl: "place n p = Some (?rid, sint (-1 :: 32 word))" by (simp add: place_def None)
    from ctx_remove_server_dealer_ok [OF ci mem [OF pl]] obtain c ds where
      c: "ctx_remove_server_dealer ?rid (-1) p (ctx n) = Inr c" "reg_step (ctx n) c" "reg_server c = reg_server (ctx n)"
        "reg_dealers c = (\<lambda>r t. if r = ?rid \<and> t = sint (-1 :: 32 word) then ds else reg_dealers (ctx n) r t)"
        "set ds = set (reg_dealers (ctx n) ?rid (sint (-1 :: 32 word))) - {p}" "dealers c = dealers (ctx n)" by blast
    have "node_inv (set_dealer p ((dealer_at p n)\<lparr>server_req_ch := None, initialized_server := False\<rparr>)
        (n\<lparr>ctx := c, rpc_servers := rpc_servers n\<rparr>))"
      by (rule node_inv_unregister [OF assms True pl c(2,3,6,4,5)]) (simp add: None)
    then show ?thesis using True None c(1,6) by (simp add: finalize_server_def on_ctx_def)
  next
    case (Some s)
    then obtain srv where srv: "map_of (rpc_servers n) s = Some srv"
      using \<open>place n p \<noteq> None\<close> by (auto simp: place_def)
    have pl: "place n p = Some (srv_rpc_id srv, sint (srv_id srv))" by (simp add: place_def Some srv)
    from ctx_remove_server_dealer_ok [OF ci mem [OF pl]] obtain c ds where
      c: "ctx_remove_server_dealer (srv_rpc_id srv) (srv_id srv) p (ctx n) = Inr c" "reg_step (ctx n) c"
        "reg_server c = reg_server (ctx n)"
        "reg_dealers c = (\<lambda>r t. if r = srv_rpc_id srv \<and> t = sint (srv_id srv) then ds else reg_dealers (ctx n) r t)"
        "set ds = set (reg_dealers (ctx n) (srv_rpc_id srv) (sint (srv_id srv))) - {p}" "dealers c = dealers (ctx n)" by blast
    have "node_inv (set_dealer p ((dealer_at p n)\<lparr>server_req_ch := None, initialized_server := False\<rparr>)
        (n\<lparr>ctx := c, rpc_servers := AList.update s (srv\<lparr>srv_dealers := srv_dealers srv - {p}\<rparr>) (rpc_servers n)\<rparr>))"
      by (rule node_inv_unregister [OF assms True pl c(2,3,6,4,5)]) (simp add: Some srv)
    then show ?thesis using True Some srv c(1,6) by (simp add: finalize_server_def server_release_dealer_def on_ctx_def)
  qed
qed

lemma node_inv_client_out:
  fixes n :: "'b node"
  assumes inv: "node_inv n" and init: "initialized_client (dealer_at p n)"
    and cls: "case d_client (dealer_at p n) of None \<Rightarrow> cls = rpc_clients n
      | Some k \<Rightarrow> \<exists>cli. map_of (rpc_clients n) k = Some cli \<and> cls = AList.update k (cli\<lparr>n_dealers := n_dealers cli - 1\<rparr>) (rpc_clients n)"
  shows "node_inv (set_dealer p ((dealer_at p n)\<lparr>client_resp_ch := None, initialized_client := False\<rparr>)
    (n\<lparr>ctx := remove_client_dealer p (ctx n), rpc_clients := cls\<rparr>))" (is "node_inv ?m")
proof -
  define m where "m = ?m"
  let ?d = "(dealer_at p n)\<lparr>client_resp_ch := None, initialized_client := False\<rparr>"
  have tabs: "next_dealer_ptr m = next_dealer_ptr n" "used_ids m = used_ids n" "next_id m = next_id n"
    "rpc_clients m = cls" "next_object m = next_object n" "rpc_servers m = rpc_servers n"
    "self_info (ctx m) = self_info (ctx n)" "server_backend (ctx m) = server_backend (ctx n)"
    "reg_server (ctx m) = reg_server (ctx n)" "reg_dealers (ctx m) = reg_dealers (ctx n)"
    by (simp_all add: m_def remove_client_dealer_def reg_server_def reg_dealers_def fun_eq_iff set_dealer_def)
  have cb: "map_of (client_backend (ctx m)) = (map_of (client_backend (ctx n)))(d_id (dealer_at p n) := None)"
    by (simp add: m_def remove_client_dealer_def delete_conv')
  have at: "dealer_at q m = (if q = p then ?d else dealer_at q n)" for q by (simp add: m_def remove_client_dealer_def)
  have fl: "d_id (dealer_at q m) = d_id (dealer_at q n)" "d_rank (dealer_at q m) = d_rank (dealer_at q n)"
    "d_client (dealer_at q m) = d_client (dealer_at q n)" "initialized_server (dealer_at q m) = initialized_server (dealer_at q n)"
    "d_rpc_id (dealer_at q m) = d_rpc_id (dealer_at q n)" "d_server (dealer_at q m) = d_server (dealer_at q n)"
    "server_req_ch (dealer_at q m) = server_req_ch (dealer_at q n)"
    "initialized_client (dealer_at q m) \<longleftrightarrow> q \<noteq> p \<and> initialized_client (dealer_at q n)"
    "q \<noteq> p \<Longrightarrow> client_resp_ch (dealer_at q m) = client_resp_ch (dealer_at q n)" for q
    by (simp_all add: at)
  have lt: "p < next_dealer_ptr n" using inv init by (auto simp: node_inv_def ids_inv_def)
  have ci: "map_of (client_backend (ctx n)) i = Some q \<longleftrightarrow> initialized_client (dealer_at q n) \<and> d_id (dealer_at q n) = i" for i q
    using inv by (simp add: node_inv_def cli_inv_def)
  have mem: "map_of (client_backend (ctx m)) i = Some q \<longleftrightarrow> q \<noteq> p \<and> initialized_client (dealer_at q n) \<and> d_id (dealer_at q n) = i" for i q
    unfolding cb using ci other_id [OF inv _ lt] by auto
  have pl: "place m = place n" unfolding place_def fl tabs by simp
  have "backend_ok (ctx m)"
    using inv unfolding node_inv_def ctx_inv_def backend_ok_def queue_ok_def tabs fl by blast
  moreover have "clients_ok (ctx m)"
    unfolding clients_ok_def
  proof (intro allI impI)
    fix i q
    assume "map_of (client_backend (ctx m)) i = Some q"
    then have q: "q \<noteq> p" "initialized_client (dealer_at q n)" "d_id (dealer_at q n) = i" using mem by auto
    then have "client_resp_ch (dealer_at q n) \<noteq> None" using inv ci by (auto simp: node_inv_def ctx_inv_def clients_ok_def)
    then show "initialized_client (dealer_at q m) \<and> client_resp_ch (dealer_at q m) \<noteq> None \<and> d_id (dealer_at q m) = i"
      using q by (simp add: fl)
  qed
  moreover have "fes_ok (ctx m)"
    using inv by (simp add: m_def set_dealer_def remove_client_dealer_def node_inv_def ctx_inv_def fes_ok_def events_ok_def socket_ok_def)
  moreover have "ids_inv m" using inv unfolding node_inv_def ids_inv_def tabs fl by blast
  moreover have "reg_inv m" using inv unfolding node_inv_def reg_inv_def tabs fl pl by blast
  moreover have "cli_inv m" unfolding cli_inv_def mem fl by blast
  moreover have "srv_inv m" using inv unfolding node_inv_def srv_inv_def tabs fl by blast
  moreover have "clients_inv m"
  proof -
    let ?S = "\<lambda>k. {q. initialized_client (dealer_at q n) \<and> d_client (dealer_at q n) = Some k}"
    have set: "{q. (q \<noteq> p \<and> initialized_client (dealer_at q n)) \<and> d_client (dealer_at q n) = Some k} =
        (if d_client (dealer_at p n) = Some k then ?S k - {p} else ?S k)" for k
      by auto
    have "?S k \<subseteq> {..<next_dealer_ptr n}" for k using inv by (auto simp: node_inv_def ids_inv_def)
    then have fin: "finite (?S k)" for k using finite_lessThan finite_subset by blast
    have card: "int (card (?S k - {p})) = int (card (?S k)) - 1" if "d_client (dealer_at p n) = Some k" for k
    proof -
      have "p \<in> ?S k" using init that by simp
      from card_Suc_Diff1 [OF fin this] show ?thesis by linarith
    qed
    show ?thesis
    proof (cases "d_client (dealer_at p n)")
      case None
      then show ?thesis using inv cls unfolding node_inv_def clients_inv_def tabs fl set by auto
    next
      case (Some k)
      with cls obtain cli where cli: "map_of (rpc_clients n) k = Some cli"
        "cls = AList.update k (cli\<lparr>n_dealers := n_dealers cli - 1\<rparr>) (rpc_clients n)" by auto
      then show ?thesis using inv card [OF Some] Some
        unfolding node_inv_def clients_inv_def tabs fl set by (auto simp: update_conv)
    qed
  qed
  ultimately have "node_inv m" by (simp add: node_inv_def ctx_inv_def)
  then show ?thesis by (simp only: m_def)
qed

lemma finalize_client_ok:
  assumes "node_inv n"
  shows "\<exists>n1. finalize_client p n = Inr n1 \<and> node_inv n1"
proof (cases "initialized_client (dealer_at p n)")
  case False
  then show ?thesis using assms by (simp add: finalize_client_def)
next
  case True
  have rd: "dealers (remove_client_dealer p (ctx n)) = dealers (ctx n)" by (simp add: remove_client_dealer_def)
  show ?thesis
  proof (cases "d_client (dealer_at p n)")
    case None
    have "node_inv (set_dealer p ((dealer_at p n)\<lparr>client_resp_ch := None, initialized_client := False\<rparr>)
        (n\<lparr>ctx := remove_client_dealer p (ctx n), rpc_clients := rpc_clients n\<rparr>))"
      by (rule node_inv_client_out [OF assms True]) (simp add: None)
    then show ?thesis using True None rd by (simp add: finalize_client_def)
  next
    case (Some k)
    then have "map_of (rpc_clients n) k \<noteq> None"
      using assms True unfolding node_inv_def clients_inv_def by blast
    then obtain cli where cli: "map_of (rpc_clients n) k = Some cli" by auto
    have "node_inv (set_dealer p ((dealer_at p n)\<lparr>client_resp_ch := None, initialized_client := False\<rparr>)
        (n\<lparr>ctx := remove_client_dealer p (ctx n), rpc_clients := AList.update k (cli\<lparr>n_dealers := n_dealers cli - 1\<rparr>) (rpc_clients n)\<rparr>))"
      by (rule node_inv_client_out [OF assms True]) (simp add: Some cli)
    then show ?thesis using True Some cli rd by (simp add: finalize_client_def client_release_dealer_def)
  qed
qed

subsection \<open>Servers and clients\<close>

lemma create_server_ok:
  assumes "node_inv n" "\<not> reg_server (ctx n) rid (sint i)"
  shows "\<exists>n1. create_server ij (Some (rid, i)) n = Inr (next_object n, n1) \<and> node_inv n1"
proof -
  have "ctx_inv (ctx n)" using assms(1) by (simp add: node_inv_def)
  from end_add_server_ok [OF this assms(2), of ij] obtain c where
    c: "end_add_server ij rid i (ctx n) = Inr c" "reg_step (ctx n) c" "reg_dealers c = reg_dealers (ctx n)"
      "reg_server c = (\<lambda>r t. (r = rid \<and> t = sint i) \<or> reg_server (ctx n) r t)" by blast
  define m where "m = n\<lparr>ctx := c, rpc_servers := (next_object n, \<lparr>srv_id = i, srv_rpc_id = rid, srv_dealers = {}, srv_terminate = False\<rparr>) # rpc_servers n,
    next_object := next_object n + 1\<rparr>"
  have ci: "ctx_inv c" "same_view (ctx n) c" "client_backend c = client_backend (ctx n)" "self_info c = self_info (ctx n)"
    using c(2) by (simp_all add: reg_step_def only_channels_view)
  note v = same_view_fields [OF ci(2)]
  have fresh: "map_of (rpc_servers n) (next_object n) = None"
    using assms(1) by (auto simp: node_inv_def srv_inv_def) (metis less_irrefl option.exhaust)
  have tabs: "ctx m = c" "next_dealer_ptr m = next_dealer_ptr n" "used_ids m = used_ids n" "next_id m = next_id n"
    "rpc_clients m = rpc_clients n" "next_object m = Suc (next_object n)"
    "map_of (rpc_servers m) = (map_of (rpc_servers n))(next_object n \<mapsto> \<lparr>srv_id = i, srv_rpc_id = rid, srv_dealers = {}, srv_terminate = False\<rparr>)"
    by (simp_all add: m_def)
  have nosrv: "d_server (dealer_at q n) \<noteq> Some (next_object n)" if "initialized_server (dealer_at q n)" for q
  proof
    assume "d_server (dealer_at q n) = Some (next_object n)"
    then have "place n q = None" by (simp add: place_def fresh)
    then show False using assms(1) that unfolding node_inv_def reg_inv_def by blast
  qed
  have pl: "initialized_server (dealer_at q n) \<Longrightarrow> place m q = place n q" for q
    using nosrv [of q] unfolding place_def tabs v by (cases "d_server (dealer_at q n)") auto
  have "ids_inv m" using assms(1) unfolding node_inv_def ids_inv_def tabs v ci(4) by blast
  moreover have "reg_inv m" using assms(1) pl unfolding node_inv_def reg_inv_def tabs v c(3) by metis
  moreover have "cli_inv m" using assms(1) unfolding node_inv_def cli_inv_def tabs v ci(3) by blast
  moreover have "clients_inv m" using assms(1) unfolding node_inv_def clients_inv_def tabs v by (auto simp: less_SucI)
  moreover have "srv_inv m"
  proof -
    have old: "s < next_object n" "reg_server (ctx n) (srv_rpc_id srv) (sint (srv_id srv))"
      "srv_dealers srv = {p. initialized_server (dealer_at p n) \<and> d_server (dealer_at p n) = Some s}"
      if "map_of (rpc_servers n) s = Some srv" for s srv
      using assms(1) that by (auto simp: node_inv_def srv_inv_def)
    have "(srv_rpc_id srv, srv_id srv) \<noteq> (rid, i)" if "map_of (rpc_servers n) s = Some srv" for s srv
      using old(2) [OF that] assms(2) by auto
    moreover have "(srv_rpc_id srv, srv_id srv) \<noteq> (srv_rpc_id tsrv, srv_id tsrv)"
      if "map_of (rpc_servers n) s = Some srv" "map_of (rpc_servers n) t = Some tsrv" "s \<noteq> t" for s t srv tsrv
      using assms(1) that unfolding node_inv_def srv_inv_def by blast
    moreover have "{p. initialized_server (dealer_at p n) \<and> d_server (dealer_at p n) = Some (next_object n)} = {}"
      using nosrv by blast
    ultimately show ?thesis unfolding srv_inv_def tabs v c(4)
      using old by (auto simp: less_SucI split: if_splits)
  qed
  ultimately have "node_inv m" using ci(1) by (simp add: node_inv_def tabs)
  then show ?thesis using c(1) by (simp add: create_server_def on_ctx_def m_def Let_def)
qed

text \<open>Changing a server in a way the other tables do not see.\<close>

lemma node_inv_server_flag:
  assumes inv: "node_inv n" and srv: "map_of (rpc_servers n) s = Some srv"
  shows "node_inv (n\<lparr>rpc_servers := AList.update s (srv\<lparr>srv_terminate := b\<rparr>) (rpc_servers n)\<rparr>)" (is "node_inv ?m")
proof -
  define m where "m = ?m"
  have tabs: "ctx m = ctx n" "next_dealer_ptr m = next_dealer_ptr n" "used_ids m = used_ids n" "next_id m = next_id n"
    "rpc_clients m = rpc_clients n" "next_object m = next_object n" by (simp_all add: m_def)
  have ms: "map_of (rpc_servers m) t =
      (if t = s then Some (srv\<lparr>srv_terminate := b\<rparr>) else map_of (rpc_servers n) t)" for t
    by (simp add: m_def update_conv)
  have pl: "place m = place n"
    unfolding place_def tabs ms by (auto simp: fun_eq_iff srv split: option.split)
  have "srv_inv m" using inv srv unfolding node_inv_def srv_inv_def tabs ms by (auto split: if_splits)
  then have "node_inv m"
    using inv unfolding node_inv_def ids_inv_def reg_inv_def cli_inv_def clients_inv_def tabs pl by blast
  then show ?thesis by (simp only: m_def)
qed

lemma server_terminate_ok:
  assumes "node_inv n" "map_of (rpc_servers n) s = Some srv"
  shows "\<exists>n1. server_terminate s n = Inr n1 \<and> node_inv n1"
proof -
  let ?n = "n\<lparr>rpc_servers := AList.update s (srv\<lparr>srv_terminate := True\<rparr>) (rpc_servers n)\<rparr>"
  let ?ds = "\<lambda>p. if p \<in> srv_dealers srv then (dealer_at p n)\<lparr>d_terminated := True\<rparr> else dealer_at p n"
  have inv: "node_inv ?n" by (rule node_inv_server_flag [OF assms])
  have v: "same_view (ctx ?n) ((ctx ?n)\<lparr>dealers := ?ds\<rparr>)" by (simp add: same_view_def dealer_view_def)
  have "ctx_inv ((ctx ?n)\<lparr>dealers := ?ds\<rparr>)" using ctx_inv_view [OF _ v] inv by (simp add: node_inv_def)
  moreover have "same_reg (ctx ?n) ((ctx ?n)\<lparr>dealers := ?ds\<rparr>)"
    by (simp add: same_reg_def reg_dealers_def reg_server_def fun_eq_iff)
  ultimately have "node_inv (?n\<lparr>ctx := (ctx ?n)\<lparr>dealers := ?ds\<rparr>\<rparr>)" using node_inv_frame [OF inv] v by blast
  moreover have "server_terminate s n = Inr (?n\<lparr>ctx := (ctx ?n)\<lparr>dealers := ?ds\<rparr>\<rparr>)"
    using assms(2) by (simp add: server_terminate_def Let_def)
  ultimately show ?thesis by blast
qed

lemma server_restart_ok:
  assumes "node_inv n" "map_of (rpc_servers n) s = Some srv"
  shows "\<exists>n1. server_restart s n = Inr n1 \<and> node_inv n1"
  using node_inv_server_flag [OF assms, of False] assms(2) by (simp add: server_restart_def)

lemma server_destroy_ok:
  assumes inv: "node_inv n" and srv: "map_of (rpc_servers n) s = Some srv" and none: "srv_dealers srv = {}"
  shows "\<exists>n1. server_destroy True s n = Inr n1 \<and> node_inv n1"
proof -
  have ci: "ctx_inv (ctx n)" using inv by (simp add: node_inv_def)
  have old: "reg_server (ctx n) (srv_rpc_id t) (sint (srv_id t))"
      "srv_dealers t = {p. initialized_server (dealer_at p n) \<and> d_server (dealer_at p n) = Some k}" "k < next_object n"
    if "map_of (rpc_servers n) k = Some t" for k t
    using inv that by (auto simp: node_inv_def srv_inv_def)
  from ctx_remove_server_ok [OF ci old(1) [OF srv]] obtain c where
    c: "ctx_remove_server (srv_rpc_id srv) (srv_id srv) (ctx n) = Inr c" "reg_step (ctx n) c"
      "reg_dealers c = reg_dealers (ctx n)"
      "reg_server c = (\<lambda>r t. \<not> (r = srv_rpc_id srv \<and> t = sint (srv_id srv)) \<and> reg_server (ctx n) r t)" by blast
  define m where "m = n\<lparr>ctx := c, rpc_servers := AList.delete s (rpc_servers n)\<rparr>"
  have v: "same_view (ctx n) c" "client_backend c = client_backend (ctx n)" "self_info c = self_info (ctx n)" "ctx_inv c"
    using c(2) by (simp_all add: reg_step_def only_channels_view)
  note f = same_view_fields [OF v(1)]
  have tabs: "ctx m = c" "next_dealer_ptr m = next_dealer_ptr n" "used_ids m = used_ids n" "next_id m = next_id n"
    "rpc_clients m = rpc_clients n" "next_object m = next_object n"
    "map_of (rpc_servers m) = (map_of (rpc_servers n))(s := None)" by (simp_all add: m_def delete_conv')
  have nos: "initialized_server (dealer_at q n) \<Longrightarrow> d_server (dealer_at q n) \<noteq> Some s" for q
    using old(2) [OF srv] none by auto
  have pl: "initialized_server (dealer_at q n) \<Longrightarrow> place m q = place n q" for q
    using nos [of q] unfolding place_def tabs f by (cases "d_server (dealer_at q n)") auto
  have dist: "(srv_rpc_id t, srv_id t) \<noteq> (srv_rpc_id u, srv_id u)"
    if "map_of (rpc_servers n) k = Some t" "map_of (rpc_servers n) l = Some u" "k \<noteq> l" for k l t u
    using inv that unfolding node_inv_def srv_inv_def by blast
  have "ids_inv m" using inv unfolding node_inv_def ids_inv_def tabs f v(3) by blast
  moreover have "reg_inv m" using inv pl unfolding node_inv_def reg_inv_def tabs f c(3) by metis
  moreover have "cli_inv m" using inv unfolding node_inv_def cli_inv_def tabs f v(2) by blast
  moreover have "clients_inv m" using inv unfolding node_inv_def clients_inv_def tabs f by blast
  moreover have "srv_inv m"
    unfolding srv_inv_def tabs f c(4)
  proof (intro conjI allI impI)
    fix k t
    assume k: "((map_of (rpc_servers n))(s := None)) k = Some t"
    then have k': "k \<noteq> s" "map_of (rpc_servers n) k = Some t" by (auto split: if_splits)
    show "k < next_object n" "reg_server (ctx n) (srv_rpc_id t) (sint (srv_id t))"
      "srv_dealers t = {p. initialized_server (dealer_at p n) \<and> d_server (dealer_at p n) = Some k}"
      using old [OF k'(2)] by auto
    show "\<not> (srv_rpc_id t = srv_rpc_id srv \<and> sint (srv_id t) = sint (srv_id srv))"
      using dist [OF k'(2) srv k'(1)] by (auto dest: signed_word_eqI)
  next
    fix k l t u
    assume "((map_of (rpc_servers n))(s := None)) k = Some t" "((map_of (rpc_servers n))(s := None)) l = Some u" "k \<noteq> l"
    then show "(srv_rpc_id t, srv_id t) \<noteq> (srv_rpc_id u, srv_id u)"
      by (intro dist [of k t l u]) (auto split: if_splits)
  qed
  ultimately have "node_inv m" using v(4) by (simp add: node_inv_def tabs)
  then show ?thesis using srv none c(1) by (simp add: server_destroy_def service_remove_server_def on_ctx_def m_def)
qed

lemma create_client_ok: "node_inv n \<Longrightarrow> node_inv (snd (create_client info n))"
proof -
  assume inv: "node_inv n"
  define m where "m = snd (create_client info n)"
  have tabs: "ctx m = ctx n" "next_dealer_ptr m = next_dealer_ptr n" "used_ids m = used_ids n" "next_id m = next_id n"
    "rpc_servers m = rpc_servers n" "next_object m = Suc (next_object n)"
    "map_of (rpc_clients m) = (map_of (rpc_clients n))(next_object n \<mapsto> \<lparr>cli_rpc_id = service_rpc_id info, n_dealers = 0\<rparr>)"
    by (simp_all add: m_def create_client_def)
  have old: "k < next_object n" if "map_of (rpc_clients n) k = Some cli" for k cli
    using inv that by (auto simp: node_inv_def clients_inv_def)
  have none: "{p. initialized_client (dealer_at p n) \<and> d_client (dealer_at p n) = Some (next_object n)} = {}"
    using inv old unfolding node_inv_def clients_inv_def by (auto, metis less_irrefl option.exhaust)
  have pl: "place m = place n" unfolding place_def tabs ..
  have "clients_inv m" using inv unfolding node_inv_def clients_inv_def tabs by (auto simp: less_SucI none)
  moreover have "srv_inv m" using inv unfolding node_inv_def srv_inv_def tabs by (auto simp: less_SucI)
  ultimately have "node_inv m"
    using inv unfolding node_inv_def ids_inv_def reg_inv_def cli_inv_def tabs pl by blast
  then show "node_inv (snd (create_client info n))" by (simp only: m_def)
qed

lemma client_destroy_ok:
  assumes inv: "node_inv n" and cli: "map_of (rpc_clients n) k = Some cli" and none: "n_dealers cli = 0"
  shows "\<exists>n1. client_destroy k n = Inr n1 \<and> node_inv n1"
proof -
  define m where "m = n\<lparr>rpc_clients := AList.delete k (rpc_clients n)\<rparr>"
  have tabs: "ctx m = ctx n" "next_dealer_ptr m = next_dealer_ptr n" "used_ids m = used_ids n" "next_id m = next_id n"
    "rpc_servers m = rpc_servers n" "next_object m = next_object n"
    "map_of (rpc_clients m) = (map_of (rpc_clients n))(k := None)" by (simp_all add: m_def delete_conv')
  let ?S = "{p. initialized_client (dealer_at p n) \<and> d_client (dealer_at p n) = Some k}"
  have "?S \<subseteq> {..<next_dealer_ptr n}" using inv by (auto simp: node_inv_def ids_inv_def)
  then have "finite ?S" using finite_lessThan finite_subset by blast
  moreover have "card ?S = 0" using inv cli none by (auto simp: node_inv_def clients_inv_def)
  ultimately have e: "?S = {}" by simp
  have pl: "place m = place n" unfolding place_def tabs ..
  have "clients_inv m" using inv e unfolding node_inv_def clients_inv_def tabs by (auto split: if_splits)
  moreover have "ids_inv m" "srv_inv m" using inv unfolding node_inv_def ids_inv_def srv_inv_def tabs by blast+
  moreover have "reg_inv m" "cli_inv m" using inv unfolding node_inv_def reg_inv_def cli_inv_def tabs pl by blast+
  ultimately have "node_inv m" using inv by (simp add: node_inv_def tabs)
  then show ?thesis using cli none by (simp add: client_destroy_def m_def)
qed

subsection \<open>Messages and updates\<close>

text \<open>A dealer in a role has the channel of that role.\<close>

lemma role_channels:
  assumes "node_inv n"
  shows "initialized_server (dealer_at p n) \<Longrightarrow> \<exists>ch. server_req_ch (dealer_at p n) = Some ch"
    and "initialized_client (dealer_at p n) \<Longrightarrow> \<exists>ch. client_resp_ch (dealer_at p n) = Some ch"
proof -
  assume init: "initialized_server (dealer_at p n)"
  then obtain rid s where "place n p = Some (rid, s)" using assms by (auto simp: node_inv_def reg_inv_def)
  then have "p \<in> set (reg_dealers (ctx n) rid s)" using assms init by (simp add: node_inv_def reg_inv_def)
  then obtain q where "map_of (server_backend (ctx n)) rid = Some q" "p \<in> set (dealers_of s q)"
    by (cases "map_of (server_backend (ctx n)) rid") (auto simp: reg_dealers_def)
  then show "\<exists>ch. server_req_ch (dealer_at p n) = Some ch"
    using assms by (auto simp: node_inv_def ctx_inv_def backend_ok_def queue_ok_def)
next
  assume "initialized_client (dealer_at p n)"
  then have "map_of (client_backend (ctx n)) (d_id (dealer_at p n)) = Some p" using assms by (simp add: node_inv_def cli_inv_def)
  then show "\<exists>ch. client_resp_ch (dealer_at p n) = Some ch" using assms by (auto simp: node_inv_def ctx_inv_def clients_ok_def)
qed

lemma recv_request_ok:
  assumes "node_inv n" "initialized_server (dealer_at p n)"
  shows "\<exists>n1. drop_result (recv_request p n) = Inr n1 \<and> node_inv n1"
proof -
  obtain ch where ch: "server_req_ch (dealer_at p n) = Some ch" using role_channels(1) [OF assms] by blast
  have "node_inv (set_dealer p ((dealer_at p n)\<lparr>server_req_ch := Some xs\<rparr>) n)" for xs
    by (rule set_dealer_view [OF assms(1)]) (simp add: dealer_view_def ch)
  then show ?thesis using assms ch by (cases ch) (simp_all add: recv_request_def drop_result_def)
qed

lemma recv_response_ok:
  assumes "node_inv n" "initialized_client (dealer_at p n)"
  shows "\<exists>n1. drop_result (recv_response p n) = Inr n1 \<and> node_inv n1"
proof -
  obtain ch where ch: "client_resp_ch (dealer_at p n) = Some ch" using role_channels(2) [OF assms] by blast
  have "node_inv (set_dealer p ((dealer_at p n)\<lparr>client_resp_ch := Some xs\<rparr>) n)" for xs
    by (rule set_dealer_view [OF assms(1)]) (simp add: dealer_view_def ch)
  then show ?thesis using assms ch by (cases ch) (simp_all add: recv_response_def drop_result_def)
qed

lemma send_response_ok:
  assumes "node_inv n"
  shows "\<exists>n1. send_response now p resp n = Inr n1 \<and> node_inv n1"
proof -
  have ok: "clients_ok (ctx n)" "backend_ok (ctx n)" using assms by (simp_all add: node_inv_def ctx_inv_def)
  from push_response_delivers [OF ok, of resp] obtain c where
    "push_response resp (ctx n) = Inr c" "delivers (ctx n) c" by blast
  then show ?thesis
    using assms node_inv_delivers [OF assms] ctx_send_response_delivers [OF ok(2)]
    by (simp add: send_response_def on_ctx_def)
qed

lemma front_end_events_ok:
  assumes "node_inv n"
  shows "node_allowed (Accept conn) n \<Longrightarrow> \<exists>n1. on_ctx (ctx_accept conn (ctx n)) n = Inr n1 \<and> node_inv n1"
    and "p < next_frontend (ctx n) \<Longrightarrow> \<exists>n1. on_frontend p (frontend_connected p fds (ctx n)) n = Inr n1 \<and> node_inv n1"
    and "p < next_frontend (ctx n) \<Longrightarrow> \<exists>n1. on_frontend p (epipe_begin now p (ctx n)) n = Inr n1 \<and> node_inv n1"
    and "\<exists>n1. on_ctx (update_comm_info now list again (ctx n)) n = Inr n1 \<and> node_inv n1"
    and "p < next_frontend (ctx n) \<Longrightarrow> \<exists>n1. on_frontend p (Inr (epipe_end p (ctx n))) n = Inr n1 \<and> node_inv n1"
proof -
  have ok: "fes_ok (ctx n)" using assms by (simp add: node_inv_def ctx_inv_def)
  note fe = node_inv_fe [OF assms]
  show "\<exists>n1. on_ctx (ctx_accept conn (ctx n)) n = Inr n1 \<and> node_inv n1" if al: "node_allowed (Accept conn) n"
  proof -
    obtain c where c: "ctx_accept conn (ctx n) = Inr c"
      using ctx_accept_ok(1) [OF ok, of conn] al by (cases conn) auto
    then show ?thesis using fe ctx_accept_ok(2) [OF ok c] by (auto simp: on_ctx_def)
  qed
  show "\<exists>n1. on_frontend p (frontend_connected p fds (ctx n)) n = Inr n1 \<and> node_inv n1" if "p < next_frontend (ctx n)"
    using frontend_connected_ok [OF ok that, of fds] fe that by (auto simp: on_frontend_def on_ctx_def)
  show "\<exists>n1. on_frontend p (epipe_begin now p (ctx n)) n = Inr n1 \<and> node_inv n1" if "p < next_frontend (ctx n)"
    using epipe_begin_ok [OF ok, of now p] fe that by (auto simp: on_frontend_def on_ctx_def)
  obtain c where "update_comm_info now list again (ctx n) = Inr c" "fes_ok c" "fe_frame (ctx n) c"
    using update_comm_info_ok [OF ok, of now list again] by blast
  then show "\<exists>n1. on_ctx (update_comm_info now list again (ctx n)) n = Inr n1 \<and> node_inv n1"
    using fe by (simp add: on_ctx_def)
  show "\<exists>n1. on_frontend p (Inr (epipe_end p (ctx n))) n = Inr n1 \<and> node_inv n1" if "p < next_frontend (ctx n)"
    unfolding epipe_end_def using set_fe_state_ok [OF ok] fe that by (auto simp: on_frontend_def on_ctx_def)
qed

lemma messages_ok:
  assumes "node_inv n" "fd_current fd (ctx n)"
  shows "\<exists>n1. on_ctx (handle_message_event fd msgs alive (ctx n)) n = Inr n1 \<and> node_inv n1"
proof -
  have "ctx_inv (ctx n)" using assms by (simp add: node_inv_def)
  from handle_message_event_ok [OF this assms(2), of msgs alive] obtain c where
    "handle_message_event fd msgs alive (ctx n) = Inr c" "ctx_inv c" "same_reg (ctx n) c" "only_channels (ctx n) c" by blast
  then show ?thesis using node_inv_frame [OF assms(1)] only_channels_view by (auto simp: on_ctx_def)
qed

lemma update_services_ok:
  assumes "node_inv n" "distinct (map server_key (all_servers (service_table list (ctx n))))"
  shows "\<exists>n1. on_ctx (update_service_info list (ctx n)) n = Inr n1 \<and> node_inv n1"
proof -
  from assms(2) obtain c where c: "update_service_info list (ctx n) = Inr c"
    using update_service_info_spec [of list "ctx n"] by (cases "update_service_info list (ctx n)") auto
  have "ctx_inv (ctx n)" using assms(1) by (simp add: node_inv_def)
  from update_service_info_inv [OF this c] show ?thesis
    using c node_inv_frame [OF assms(1)] by (simp add: on_ctx_def same_view_def)
qed

lemma update_ctx_ok:
  assumes "node_inv n" "node_allowed (Update_ctx now comm again svc) n"
  shows "\<exists>n1. update_ctx now comm again svc n = Inr n1 \<and> node_inv n1"
proof -
  obtain n1 where n1: "(case comm of None \<Rightarrow> Inr n | Some list \<Rightarrow> on_ctx (update_comm_info now list again (ctx n)) n) = Inr n1"
      "node_inv n1"
    using front_end_events_ok(4) [OF assms(1), of now _ again] assms(1) by (cases comm) auto
  have c1: "(case comm of None \<Rightarrow> Inr (ctx n) | Some nodes \<Rightarrow> update_comm_info now nodes again (ctx n)) = Inr (ctx n1)"
    using n1(1) by (auto simp: on_ctx_def rbind_eq_Inr split: option.splits)
  show ?thesis
    using n1 assms(2) update_services_ok [OF n1(2)] by (cases svc) (auto simp: update_ctx_def c1)
qed

section \<open>Reachable nodes\<close>

lemma node_exec_ok:
  assumes "node_inv n" "node_allowed e n"
  shows "\<exists>n1. node_exec e n = Some (Inr n1) \<and> node_inv n1"
proof (cases e)
  case (Create_server ij reg)
  then obtain rid s where "reg = Some (rid, s)" "\<not> reg_server (ctx n) rid (sint s)"
    using assms(2) by (auto split: option.splits)
  then show ?thesis using create_server_ok [OF assms(1), of rid s ij] Create_server by (auto simp: drop_result_def)
next
  case (Server_dealer ij s)
  then show ?thesis using server_create_dealer_ok [OF assms(1), of s _ ij] assms(2) by (auto simp: drop_result_def)
next
  case (Server_terminate s)
  then show ?thesis using server_terminate_ok [OF assms(1), of s] assms(2) by auto
next
  case (Server_restart s)
  then show ?thesis using server_restart_ok [OF assms(1), of s] assms(2) by auto
next
  case (Server_destroy ret s)
  then show ?thesis using server_destroy_ok [OF assms(1), of s] assms(2) by (auto split: option.splits)
next
  case (Client_dealer k)
  then show ?thesis using client_create_dealer_ok [OF assms(1), of k] assms(2) by (auto simp: drop_result_def)
next
  case (Client_destroy k)
  then show ?thesis using client_destroy_ok [OF assms(1), of k] assms(2) by (auto split: option.splits)
next
  case (Service_dealer ij rid)
  then show ?thesis using service_create_dealer_ok [OF assms(1), of ij rid] assms(2) by (auto simp: drop_result_def)
next
  case (Finalize p)
  obtain n1 where "finalize_server p n = Inr n1" "node_inv n1" using finalize_server_ok [OF assms(1)] by blast
  then show ?thesis using Finalize finalize_client_ok [of n1 p] by (simp add: dealer_finalize_def)
next
  case (Send_request now rand p req)
  then show ?thesis using send_request_raw_ok [OF assms(1), of p] assms(2) by (simp add: send_request_def)
next
  case (Send_one_way now rand p req)
  then show ?thesis using send_request_raw_ok [OF assms(1), of p] assms(2) by (simp add: send_request_one_way_def)
next
  case (Update_ctx now comm again svc)
  then show ?thesis using update_ctx_ok [OF assms(1), of now comm again svc] assms(2) by (simp del: node_allowed.simps)
next
  case (Create_client info)
  then show ?thesis using create_client_ok [OF assms(1)] by simp
next
  case (Send_response now p resp)
  then show ?thesis using send_response_ok [OF assms(1)] by simp
next
  case (Recv_request p)
  then show ?thesis using recv_request_ok [OF assms(1)] assms(2) by simp
next
  case (Recv_response p)
  then show ?thesis using recv_response_ok [OF assms(1)] assms(2) by simp
next
  case (Messages fd msgs alive)
  then show ?thesis using messages_ok [OF assms(1)] assms(2) by simp
next
  case (Accept conn)
  then show ?thesis using front_end_events_ok(1) [OF assms(1), of conn] assms(2) by simp
qed (use front_end_events_ok(2,3,5) [OF assms(1)] assms(2) in simp_all)

text \<open>Conversely, an event that goes through was allowed.\<close>

lemma no_id_left:
  assumes "node_inv n" "dealer_new rid n = Some r"
  shows "next_dealer_ptr n < ID_LIMIT"
proof (rule ccontr)
  assume "\<not> next_dealer_ptr n < ID_LIMIT"
  then have "next_dealer_ptr n = ID_LIMIT" "used_ids n = ids_below ID_LIMIT"
    using assms(1) by (simp_all add: node_inv_def ids_inv_def)
  then show False using assms(2) gen_id_exhausted by (simp add: dealer_new_def)
qed

lemma create_server_allowed:
  assumes "node_inv n" "create_server ij reg n = Inr r"
  shows "\<exists>rid s. reg = Some (rid, s) \<and> \<not> reg_server (ctx n) rid (sint s)"
proof -
  obtain rid s q where q: "reg = Some (rid, s)" "fq_add_server (sint s) (backend_queue ij rid (ctx n)) = Inr q"
    using assms(2) by (auto simp: create_server_def on_ctx_def end_add_server_def rbind_eq_Inr split: option.splits)
  have "backend_ok (ctx n)" using assms(1) by (simp add: node_inv_def ctx_inv_def)
  from backend_queue_facts(3) [OF this, where ij = ij and rid = rid and s = "sint s"] q(2) show ?thesis
    using q(1) by (auto simp: fq_add_server_def has_server_def scheck_def rbind_eq_Inr split: if_splits)
qed

lemma update_ctx_allowed:
  assumes "update_ctx now comm again svc n = Inr n'"
  shows "node_allowed (Update_ctx now comm again svc) n"
proof (cases svc)
  case (Some list)
  obtain n1 c where n1: "(case comm of None \<Rightarrow> Inr n | Some nodes \<Rightarrow> on_ctx (update_comm_info now nodes again (ctx n)) n) = Inr n1"
      "update_service_info list (ctx n1) = Inr c"
    using assms Some by (auto simp: update_ctx_def rbind_eq_Inr on_ctx_def)
  have "(case comm of None \<Rightarrow> Inr (ctx n) | Some nodes \<Rightarrow> update_comm_info now nodes again (ctx n)) = Inr (ctx n1)"
    using n1(1) by (auto simp: on_ctx_def rbind_eq_Inr split: option.splits)
  then show ?thesis using Some n1(2) update_service_info_spec [of list "ctx n1"]
    by (simp split: if_splits)
qed simp

lemma node_exec_allowed:
  assumes "node_inv n" "node_exec e n = Some (Inr n')"
  shows "node_allowed e n"
proof (cases e)
  case (Create_server ij reg)
  then show ?thesis using create_server_allowed [OF assms(1), of ij reg] assms(2) by (auto simp: drop_result_def rbind_eq_Inr)
next
  case (Server_dealer ij s)
  then show ?thesis using no_id_left [OF assms(1)] assms(2) by (auto simp: server_create_dealer_def drop_result_def split: option.splits)
next
  case (Client_dealer k)
  then show ?thesis using no_id_left [OF assms(1)] assms(2) by (auto simp: client_create_dealer_def drop_result_def split: option.splits)
next
  case (Service_dealer ij rid)
  then show ?thesis using no_id_left [OF assms(1)] assms(2) by (auto simp: service_create_dealer_def drop_result_def split: option.splits)
next
  case (Accept conn)
  then show ?thesis using assms(2) by (auto simp: on_ctx_def ctx_accept_def scheck_def rbind_eq_Inr split: option.splits if_splits)
next
  case (Messages fd msgs alive)
  then show ?thesis using assms(2) by (auto simp: on_ctx_def rbind_eq_Inr intro: handle_message_event_current)
next
  case (Update_ctx now comm again svc)
  then show ?thesis using assms(2) update_ctx_allowed [of now comm again svc n n'] by (simp del: node_allowed.simps)
qed (use assms(2) in \<open>auto simp: server_terminate_def server_restart_def server_destroy_def service_remove_server_def client_destroy_def send_request_def
  send_request_one_way_def send_request_raw_def recv_request_def recv_response_def drop_result_def on_frontend_def scheck_def
  rbind_eq_Inr split: option.splits if_splits\<close>)

lemma node_init_inv: "fds \<noteq> [] \<Longrightarrow> node_init rank fds n \<Longrightarrow> node_inv n"
  using ctx_initialize_inv [of fds rank "\<lambda>_. dealer_object 0 (-1) rank"]
  by (simp add: node_inv_defs node_init_def ids_below_def dealer_object_def ctx_initialize_def reg_dealers_def)

lemma node_invariant: "fds \<noteq> [] \<Longrightarrow> inductive_invariant (node_init rank fds) node_step node_inv"
proof
  fix n n' :: "'b node"
  assume "node_inv n" "node_step n n'"
  from this(2) show "node_inv n'"
  proof cases
    case (1 e)
    then show ?thesis using node_exec_ok [OF \<open>node_inv n\<close> node_exec_allowed [OF \<open>node_inv n\<close>]] by fastforce
  qed
qed (rule node_init_inv)

lemmas node_reach = inductive_invariant.inv_reach [OF node_invariant]

section \<open>Properties\<close>


text \<open>C20. In every reachable node the tables agree with the dealers: a dealer is registered for a server exactly while
  it is in the role of a server, responses to an id find exactly the client dealer with that id, and a client counts
  its dealers.\<close>

theorem node_tables_agree:
  assumes "fds \<noteq> []" "reach (node_init rank fds) node_step n"
  shows "(\<forall>p. (\<exists>rid s. p \<in> set (reg_dealers (ctx n) rid s)) \<longleftrightarrow> initialized_server (dealer_at p n)) \<and>
    (\<forall>i p. map_of (client_backend (ctx n)) i = Some p \<longleftrightarrow>
       initialized_client (dealer_at p n) \<and> d_id (dealer_at p n) = i) \<and>
    (\<forall>k cli. map_of (rpc_clients n) k = Some cli \<longrightarrow>
       n_dealers cli = int (card {p. initialized_client (dealer_at p n) \<and> d_client (dealer_at p n) = Some k}))"
proof -
  have inv: "node_inv n" by (rule node_reach [OF assms])
  have "(\<exists>rid s. p \<in> set (reg_dealers (ctx n) rid s)) \<longleftrightarrow> initialized_server (dealer_at p n)" for p
    using inv unfolding node_inv_def reg_inv_def by (metis not_None_eq surj_pair)
  then show ?thesis using inv by (auto simp: node_inv_def cli_inv_def clients_inv_def)
qed

text \<open>A request for a service with a dealer on this node is put into the channel of one.\<close>

lemma push_request_served:
  assumes "backend_ok c" "reg_dealers c (rpc_id (fst r)) t \<noteq> []" "sint (sid (fst r)) \<in> {-1, t}"
  shows "\<exists>c' d ch t'. push_request r c = Inr c' \<and> d \<in> set (reg_dealers c (rpc_id (fst r)) t') \<and>
    (sint (sid (fst r)) \<noteq> -1 \<longrightarrow> t' = t) \<and> server_req_ch (dealers c d) = Some ch \<and>
    dealers c' = (dealers c)(d := (dealers c d)\<lparr>server_req_ch := Some (ch @ [r])\<rparr>) \<and>
    client_backend c' = client_backend c"
proof -
  let ?sid = "sint (sid (fst r))"
  from assms(2) obtain q where q: "map_of (server_backend c) (rpc_id (fst r)) = Some q" "dealers_of t q \<noteq> []"
    by (auto simp: reg_dealers_def split: option.splits)
  have ok: "queue_ok c q" "fq_inv q" using assms(1) q(1) by (auto simp: backend_ok_def queue_ok_def)
  from next_dealer_cases [OF ok(2), of ?sid] obtain x q1 where
    n: "next_dealer ?sid q = Inr (x, q1)"
      "case x of Some d \<Rightarrow> serves ?sid d q | None \<Rightarrow> (if ?sid = -1 then sids q = [] else dealers_of ?sid q = [])" by blast
  have "sids q \<noteq> []" using q(2) no_sids_no_dealers [OF ok(2)] by (auto simp: dealers_of_def)
  then obtain d where d: "x = Some d" "serves ?sid d q" using n(2) q(2) assms(3) by (cases x) (auto split: if_splits)
  then obtain t' where t': "d \<in> set (dealers_of t' q)" "?sid \<noteq> -1 \<longrightarrow> t' = t"
    using assms(3) by (auto simp: serves_def split: if_splits)
  then obtain ch where ch: "initialized_server (dealers c d)" "server_req_ch (dealers c d) = Some ch"
    using ok(1) by (auto simp: queue_ok_def)
  have "push_request r c = Inr ((put_backend (rpc_id (fst r)) q1 c)\<lparr>dealers :=
      (dealers c)(d := (dealers c d)\<lparr>server_req_ch := Some (ch @ [r])\<rparr>)\<rparr>)"
    using q(1) n(1) d ch by (simp add: push_request_def fq_dispatch_def dealer_push_request_def put_backend_def)
  moreover have "d \<in> set (reg_dealers c (rpc_id (fst r)) t')" using t'(1) q(1) by (simp add: reg_dealers_def)
  ultimately show ?thesis using ch(2) t'(2) by (auto simp: put_backend_def)
qed

text \<open>A response for a client dealer of this node goes into its channel.\<close>

lemma send_response_local:
  assumes "initialized_client (dealer_at p n)" "client_resp_ch (dealer_at p n) = Some rch"
    "map_of (client_backend (ctx n)) (dest_dealer (fst resp)) = Some p" "dest_dealer (fst resp) \<noteq> -1"
    "dest_rank (fst resp) = d_rank (dealer_at q n)"
  shows "\<exists>n2. send_response now q resp n = Inr n2 \<and> client_resp_ch (dealer_at p n2) = Some (rch @ [resp]) \<and>
    (\<forall>p'. p' \<noteq> p \<longrightarrow> client_resp_ch (dealer_at p' n2) = client_resp_ch (dealer_at p' n))"
  using assms by (simp add: send_response_def push_response_def dealer_push_response_def on_ctx_def)

lemma client_id_valid:
  assumes "node_inv n" "initialized_client (dealer_at p n)"
  shows "d_id (dealer_at p n) \<noteq> -1"
proof -
  have lt: "p < next_dealer_ptr n" "next_dealer_ptr n \<le> ID_LIMIT" "d_id (dealer_at p n) = word_of_nat p"
    using assms by (auto simp: node_inv_def ids_inv_def)
  have "unat (d_id (dealer_at p n)) < ID_LIMIT" unfolding lt(3) using unat_id [OF less_le_trans [OF lt(1,2)]] lt(1,2) by linarith
  moreover have "\<not> unat (-1 :: 32 word) < ID_LIMIT" by (simp add: unsigned_minus_1_eq_mask mask_eq_exp_minus_1)
  ultimately show ?thesis by metis
qed

text \<open>The request \<open>h\<close> of dealer \<open>p\<close> as it is sent, and the condition for it to stay on this node.\<close>

definition sent_head :: "nat \<Rightarrow> rpc_head \<Rightarrow> 'b node \<Rightarrow> rpc_head" where
  "sent_head p h n = h\<lparr>src_dealer := d_id (dealer_at p n), src_rank := d_rank (dealer_at p n), rpc_id := d_rpc_id (dealer_at p n)\<rparr>"

definition stays_local :: "nat \<Rightarrow> rpc_head \<Rightarrow> 'b node \<Rightarrow> bool" where
  "stays_local p h n \<longleftrightarrow>
     (if sid h \<noteq> -1 then sid h \<in> local_servers (dealer_at p n)
      else if dest_rank h \<noteq> -1 then dest_rank h = d_rank (dealer_at p n)
      else available_rank (dealer_at p n) = d_rank (dealer_at p n))"

text \<open>C8. A call that the client dealer does not route through the context, between two dealers of one node: it names
  a server that an earlier call found to be local, or names no server and this node, or names neither while the last
  call found a local server (\<open>stays_local\<close>), and the service has a dealer here. Then the request reaches one dealer that
  serves it (of the named server, if it names one), unchanged but for the sender's data, and the response that dealer
  sends to it is appended to the channel of exactly the calling dealer, whatever its body and error code.\<close>

theorem local_call_round_trip:
  assumes "fds \<noteq> []" "reach (node_init rank fds) node_step n" "initialized_client (dealer_at p n)"
    "stays_local p h n" "sint (sid h) \<in> {-1, t}" "reg_dealers (ctx n) (d_rpc_id (dealer_at p n)) t \<noteq> []"
  shows "\<exists>n1 q ch t'. send_request now rand p (h, b) n = Inr n1 \<and>
    q \<in> set (reg_dealers (ctx n) (d_rpc_id (dealer_at p n)) t') \<and> (sint (sid h) \<noteq> -1 \<longrightarrow> t' = t) \<and>
    server_req_ch (dealer_at q n) = Some ch \<and> server_req_ch (dealer_at q n1) = Some (ch @ [(sent_head p h n, b)]) \<and>
    (\<forall>r code. let resp = ((response_head (sent_head p h n))\<lparr>error_code := code\<rparr>, r) in
       \<exists>n2 rch. send_response now q resp n1 = Inr n2 \<and> client_resp_ch (dealer_at p n) = Some rch \<and>
         client_resp_ch (dealer_at p n2) = Some (rch @ [resp]) \<and>
         (\<forall>p'. p' \<noteq> p \<longrightarrow> client_resp_ch (dealer_at p' n2) = client_resp_ch (dealer_at p' n)))"
proof -
  have inv: "node_inv n" by (rule node_reach [OF assms(1,2)])
  let ?r = "(sent_head p h n, b)"
  have "backend_ok (ctx n)" using inv by (simp add: node_inv_def ctx_inv_def)
  from push_request_served [OF this, of ?r t] assms(5,6) obtain c1 q ch t' where
    c1: "push_request ?r (ctx n) = Inr c1" "q \<in> set (reg_dealers (ctx n) (d_rpc_id (dealer_at p n)) t')"
      "sint (sid h) \<noteq> -1 \<longrightarrow> t' = t" "server_req_ch (dealer_at q n) = Some ch"
      "dealers c1 = (dealers (ctx n))(q := (dealer_at q n)\<lparr>server_req_ch := Some (ch @ [?r])\<rparr>)"
      "client_backend c1 = client_backend (ctx n)" by (auto simp: sent_head_def)
  have send: "send_request now rand p (h, b) n = Inr (n\<lparr>ctx := c1\<rparr>)"
    using assms(3,4) c1(1)
    by (auto simp: send_request_def send_request_raw_def stays_local_def local_push_def on_ctx_def sent_head_def Let_def
        split: if_splits)
  obtain rch where rch: "client_resp_ch (dealer_at p n) = Some rch" using role_channels(2) [OF inv assms(3)] by blast
  have q: "initialized_server (dealer_at q n)" using inv c1(2) by (simp add: node_inv_def reg_inv_def)
  then have ranks: "d_rank (dealer_at q n) = d_rank (dealer_at p n)"
    using inv assms(3) by (auto simp: node_inv_def ids_inv_def)
  have bk: "map_of (client_backend c1) (d_id (dealer_at p n)) = Some p"
    using inv assms(3) by (simp add: c1(6) node_inv_def cli_inv_def)
  have id: "d_id (dealer_at p n) \<noteq> -1" by (rule client_id_valid [OF inv assms(3)])
  have d: "initialized_client (dealer_at p (n\<lparr>ctx := c1\<rparr>))" "client_resp_ch (dealer_at p (n\<lparr>ctx := c1\<rparr>)) = Some rch"
    "d_rank (dealer_at q (n\<lparr>ctx := c1\<rparr>)) = d_rank (dealer_at p n)"
    "\<And>p'. client_resp_ch (dealer_at p' (n\<lparr>ctx := c1\<rparr>)) = client_resp_ch (dealer_at p' n)"
    using assms(3) rch ranks by (auto simp: c1(5))
  have "\<exists>n2 rch. send_response now q resp (n\<lparr>ctx := c1\<rparr>) = Inr n2 \<and> client_resp_ch (dealer_at p n) = Some rch \<and>
      client_resp_ch (dealer_at p n2) = Some (rch @ [resp]) \<and>
      (\<forall>p'. p' \<noteq> p \<longrightarrow> client_resp_ch (dealer_at p' n2) = client_resp_ch (dealer_at p' n))"
    if "resp = ((response_head (sent_head p h n))\<lparr>error_code := code\<rparr>, r)" for resp r code
    using send_response_local [OF d(1,2), of resp q now] that bk id rch d(3,4)
    by (simp add: response_head_def sent_head_def)
  then show ?thesis using send c1 by (intro exI [of _ "n\<lparr>ctx := c1\<rparr>"] exI [of _ q]) (auto simp: Let_def)
qed

text \<open>Moving a dealer of a server into another \<open>Dealer\<close> object loses the server it belongs to: destroying the new
  object then fails a check, so the process aborts.\<close>

theorem moved_dealer_aborts:
  assumes "fds \<noteq> []" "reach (node_init rank fds) node_step n" "initialized_server (dealer_at q n)" "p \<noteq> q"
    "d_server (dealer_at p n) = None" "reg_dealers (ctx n) (d_rpc_id (dealer_at q n)) (-1) = []"
  shows "dealer_finalize p (dealer_move p q n) = Inl Check_failed"
proof -
  let ?rid = "d_rpc_id (dealer_at q n)"
  have "fq_remove_server_dealer (-1) p fq = Inl Check_failed" if "map_of (server_backend (ctx n)) ?rid = Some fq" for fq
  proof -
    have "fq_inv fq" using node_reach [OF assms(1,2)] that by (auto simp: node_inv_def ctx_inv_def backend_ok_def queue_ok_def)
    then have "map_of (sid2dealers fq) (-1) \<noteq> Some []" unfolding fq_inv_def by blast
    then have "map_of (sid2dealers fq) (-1) = None"
      using assms(6) that by (cases "map_of (sid2dealers fq) (-1)") (auto simp: reg_dealers_def dealers_of_def)
    then show ?thesis by (simp add: fq_remove_server_dealer_def)
  qed
  then have "ctx_remove_server_dealer ?rid (-1) p c = Inl Check_failed" if "server_backend c = server_backend (ctx n)" for c
    using that by (auto simp: ctx_remove_server_dealer_def split: option.split)
  moreover have "server_backend (ctx (dealer_move p q n)) = server_backend (ctx n)"
    by (simp add: dealer_move_def Let_def set_dealer_def)
  moreover have "initialized_server (dealer_at p (dealer_move p q n))" "d_server (dealer_at p (dealer_move p q n)) = None"
    "d_rpc_id (dealer_at p (dealer_move p q n)) = ?rid"
    using assms(3,4,5) by (simp_all add: dealer_move_def Let_def)
  ultimately show ?thesis
    by (simp add: dealer_finalize_def finalize_server_def on_ctx_def)
qed

section \<open>Witnesses\<close>

text \<open>The node after an event that is allowed.\<close>

definition node_after :: "'b node_event \<Rightarrow> 'b node \<Rightarrow> 'b node" where
  "node_after e n = (case node_exec e n of Some (Inr n1) \<Rightarrow> n1 | _ \<Rightarrow> n)"

lemma reach_after:
  assumes "fds \<noteq> []" "reach (node_init rank fds) node_step n" "node_allowed e n"
  shows "reach (node_init rank fds) node_step (node_after e n)"
proof -
  obtain n1 where "node_exec e n = Some (Inr n1)" using node_exec_ok [OF node_reach [OF assms(1,2)] assms(3)] by blast
  then have "node_step n (node_after e n)" by (auto simp: node_after_def intro: node_step.intros)
  then show ?thesis by (rule reach_step [OF assms(2)])
qed

text \<open>A node with a client and its dealer 0, and a server 2 of service 5 with dealer 1.\<close>

definition demo_node0 :: "nat node" where
  "demo_node0 = \<lparr>ctx = ctx_initialize 0 [9] (\<lambda>_. dealer_object 0 (-1) 0), used_ids = {}, next_id = 0, next_dealer_ptr = 0,
     rpc_servers = [], rpc_clients = [], next_object = 0\<rparr>"

definition demo_node2 :: "nat node" where
  "demo_node2 = node_after (Client_dealer 0)
     (node_after (Create_client \<lparr>rpc_service_name = ''s'', service_rpc_id = 5, servers = []\<rparr>) demo_node0)"

definition demo_node :: "nat node" where
  "demo_node = node_after (Server_dealer (0, 0) 1) (node_after (Create_server (0, 0) (Some (5, 2))) demo_node2)"

definition demo_head :: rpc_head where
  "demo_head = rpc_head_new\<lparr>dest_rank := 0, sid := -1\<rparr>"

lemma gen_id_0: "gen_id {} 0 = Some (0, {0}, 1)"
  by (subst gen_id.simps) simp

lemma gen_id_1: "gen_id {0} 1 = Some (1, {1, 0}, 2)"
  by (subst gen_id.simps) simp

lemma demo_node2_eq:
  "demo_node2 = \<lparr>ctx = (ctx_initialize 0 [9] ((\<lambda>_. dealer_object 0 (-1) 0)(0 := (dealer_object 0 5 0)\<lparr>d_client := Some 0,
       client_resp_ch := Some [], initialized_client := True\<rparr>)))\<lparr>client_backend := [(0, 0)]\<rparr>,
     used_ids = {0}, next_id = 1, next_dealer_ptr = 1,
     rpc_servers = [], rpc_clients = [(0, \<lparr>cli_rpc_id = 5, n_dealers = 1\<rparr>)], next_object = 1\<rparr>"
  unfolding demo_node2_def demo_node0_def node_after_def
  by (simp add: create_client_def client_create_dealer_def dealer_new_def gen_id_0 ctx_initialize_def dealer_object_def
      initialize_as_client_def add_client_dealer_def emplace_def set_dealer_def drop_result_def Let_def)

lemma demo_node_eq:
  "demo_node = \<lparr>ctx = (ctx demo_node2)\<lparr>dealers := (dealers (ctx demo_node2))(1 := (dealer_object 1 5 0)\<lparr>d_server := Some 1,
       server_req_ch := Some [], initialized_server := True\<rparr>),
       server_backend := [(5, \<lparr>sid2dealers = [(2, [1])], sids = [2], sids_rr_index = 0, dealer_id_rr_index = 0, sid2cache = [(2, [])]\<rparr>)]\<rparr>,
     used_ids = {1, 0}, next_id = 2, next_dealer_ptr = 2,
     rpc_servers = [(1, \<lparr>srv_id = 2, srv_rpc_id = 5, srv_dealers = {1}, srv_terminate = False\<rparr>)],
     rpc_clients = [(0, \<lparr>cli_rpc_id = 5, n_dealers = 1\<rparr>)], next_object = 2\<rparr>"
  unfolding demo_node_def demo_node2_eq node_after_def
  by (simp add: create_server_def server_create_dealer_def dealer_new_def gen_id_1 ctx_initialize_def dealer_object_def
      initialize_as_server_def end_add_server_def ctx_add_server_dealer_def put_backend_def backend_queue_def on_ctx_def
      fq_add_server_def fq_add_server_dealer_def fq_new_def set_dealer_def drop_result_def Let_def)

lemma demo_node_reach: "reach (node_init 0 [9]) node_step demo_node"
proof -
  have r0: "reach (node_init 0 [9]) node_step demo_node0"
    by (rule reach_init) (simp add: node_init_def demo_node0_def)
  have r2: "reach (node_init 0 [9]) node_step demo_node2"
    unfolding demo_node2_def
    by (intro reach_after r0) (simp_all add: node_after_def demo_node0_def create_client_def)
  show ?thesis
    unfolding demo_node_def
    by (intro reach_after r2)
      (simp_all add: node_after_def demo_node2_eq create_server_def on_ctx_def end_add_server_def put_backend_def
        backend_queue_def fq_add_server_def fq_new_def ctx_initialize_def drop_result_def reg_server_def)
qed

lemma demo_node_facts:
  "initialized_client (dealer_at 0 demo_node)" "d_rpc_id (dealer_at 0 demo_node) = 5" "d_rank (dealer_at 0 demo_node) = 0"
  "client_resp_ch (dealer_at 0 demo_node) = Some []" "initialized_server (dealer_at 1 demo_node)" "d_rpc_id (dealer_at 1 demo_node) = 5"
  "reg_dealers (ctx demo_node) 5 2 = [1]" "reg_dealers (ctx demo_node) 5 (-1) = []" "d_server (dealer_at 2 demo_node) = None"
  by (simp_all add: demo_node_eq demo_node2_eq ctx_initialize_def dealer_object_def reg_dealers_def dealers_of_def)

theorem dealer_id_supply_witness: "gen_id (ids_below (2 ^ 31)) (word_of_nat (2 ^ 31)) = None"
  using dealer_id_supply [of "2 ^ 31"] by simp


theorem node_tables_agree_witness:
  "(\<exists>rid s. 1 \<in> set (reg_dealers (ctx demo_node) rid s)) \<and> \<not> (\<exists>rid s. 0 \<in> set (reg_dealers (ctx demo_node) rid s))"
  using node_tables_agree [OF _ demo_node_reach] by (simp add: demo_node_eq demo_node2_eq ctx_initialize_def dealer_object_def)

theorem local_call_round_trip_witness:
  "\<exists>n1. send_request 0 0 0 (demo_head, Some (42 :: nat)) demo_node = Inr n1 \<and>
     (\<exists>n2. send_response 0 1 (response_head (sent_head 0 demo_head demo_node), Some 43) n1 = Inr n2 \<and>
        client_resp_ch (dealer_at 0 n2) = Some [(response_head (sent_head 0 demo_head demo_node), Some 43)])"
proof -
  have h: "stays_local 0 demo_head demo_node" "sint (sid demo_head) \<in> {-1, 2}"
    by (simp_all add: stays_local_def demo_head_def demo_node_facts)
  let ?h = "response_head (sent_head 0 demo_head demo_node)"
  have e: "?h\<lparr>error_code := error_code ?h\<rparr> = ?h" by simp
  have c: "[9] \<noteq> ([] :: nat list)" "reg_dealers (ctx demo_node) (d_rpc_id (dealer_at 0 demo_node)) 2 \<noteq> []"
    by (simp_all add: demo_node_facts)
  note call = local_call_round_trip [OF c(1) demo_node_reach demo_node_facts(1) h c(2), where now = 0 and rand = 0 and b = "Some 42"]
  then obtain n1 q t' where n1: "send_request 0 0 0 (demo_head, Some (42 :: nat)) demo_node = Inr n1"
      "q \<in> set (reg_dealers (ctx demo_node) (d_rpc_id (dealer_at 0 demo_node)) t')"
    and resp: "\<forall>r code. let resp = (?h\<lparr>error_code := code\<rparr>, r) in
       \<exists>n2 rch. send_response 0 q resp n1 = Inr n2 \<and> client_resp_ch (dealer_at 0 demo_node) = Some rch \<and>
         client_resp_ch (dealer_at 0 n2) = Some (rch @ [resp]) \<and>
         (\<forall>p'. p' \<noteq> 0 \<longrightarrow> client_resp_ch (dealer_at p' n2) = client_resp_ch (dealer_at p' demo_node))" by blast
  from resp [rule_format, of "error_code ?h" "Some 43"] obtain n2 where
    n2: "send_response 0 q (?h, Some 43) n1 = Inr n2" "client_resp_ch (dealer_at 0 n2) = Some [(?h, Some 43)]"
    unfolding Let_def e demo_node_facts by auto
  have "q = 1" using n1(2) by (auto simp: demo_node_eq reg_dealers_def dealers_of_def split: if_splits)
  then show ?thesis using n1(1) n2 by simp
qed

theorem moved_dealer_aborts_witness: "dealer_finalize 2 (dealer_move 2 1 demo_node) = Inl Check_failed"
  by (rule moved_dealer_aborts [OF _ demo_node_reach]) (simp_all add: demo_node_facts [simplified])

end
