(* ===== verification/Front_End.thy ===== *)
theory Front_End
  imports Rpc_Dealer "HOL-Library.Sublist"
begin

text \<open>
  Sending through a front end: \<open>send_msg_nonblock\<close>, \<open>send_msg\<close>, \<open>keep_writing\<close>, \<open>connect\<close> and \<open>epipe\<close> of
  \<open>src/rpc/FrontEnd.cpp\<close>, with any number of calling threads.

  Each call is a thread with a position between its accesses to shared data. The members \<open>_sending_queue_size\<close>,
  \<open>_sending_queue\<close>, \<open>_state\<close>, \<open>_socket\<close>, \<open>_msg\<close>, \<open>_sending_msg\<close>, \<open>_more\<close> and the two cursors are shared. The queue
  is the one of the theory on \<open>MpscQueue\<close>: a push takes its place in the order, and the value can be popped once
  the pushing thread has linked its node. The thread that \<open>async\<close> starts goes on as the call that started it.
  A socket is the number of its connection. A send without blocking sends the whole message, or a part of it, or
  fails; a blocking one sends all that is left or fails, as shown in the theory on \<open>TcpSocket\<close>, so that the
  \<open>SLOG(FATAL)\<close> of \<open>keep_writing\<close>, which \<open>after_send\<close> has, is not taken. \<open>it_next\<close> is the
  connection that has the first part of a message while the cursors are not at their end. \<open>fate\<close> records what
  happened to each message: sent, with the connections of its first and its last part, or handed back to the
  context, which looks for another front end. \<open>ticket\<close> records the order in which messages enter.
\<close>

section \<open>Model\<close>

datatype fate = Sent nat nat | Handed_back

datatype 'm fe_pc =
    Fe_start bool 'm
  | Fe_push 'm
  | Fe_link 'm
  | Fe_state
  | Fe_loop bool nat
  | Fe_send bool nat
  | Fe_keep nat
  | Fe_connect nat
  | Fe_rest nat
  | Fe_dec bool nat
  | Fe_spin bool
  | Fe_epipe nat
  | Fe_resend nat
  | Fe_dec_epipe nat
  | Fe_spin_epipe
  | Fe_disconnect
  | Fe_stuck nat
  | Fe_returned
  | Fe_crashed

record 'm fe_shared =
  fe_size :: int
  fe_queue :: "('m \<times> nat \<times> bool) list"
  fe_flags :: "32 word"
  fe_socket :: "nat option"
  fe_connects :: nat
  fe_client :: bool
  cur_msg :: "'m option"
  sending_msg :: "'m option"
  fe_more :: bool
  it_next :: "nat option"
  fates :: "('m \<times> fate) list"
  fe_ticket :: "'m list"

text \<open>\<open>_sending_msg = std::move(_msg); _more = _sending_queue.pop(_msg)\<close>.\<close>

definition take_next :: "'m fe_shared \<Rightarrow> 'm fe_shared" where
  "take_next sh =
     (case fe_queue sh of
        (x, j, True) # q \<Rightarrow> sh\<lparr>sending_msg := cur_msg sh, cur_msg := Some x, fe_more := True, fe_queue := q\<rparr>
      | _ \<Rightarrow> sh\<lparr>sending_msg := cur_msg sh, cur_msg := None, fe_more := False\<rparr>)"

definition settle :: "'m option \<Rightarrow> fate \<Rightarrow> 'm fe_shared \<Rightarrow> 'm fe_shared" where
  "settle m f sh = (case m of None \<Rightarrow> sh | Some x \<Rightarrow> sh\<lparr>fates := fates sh @ [(x, f)]\<rparr>)"

definition disconnected :: "'m fe_shared \<Rightarrow> bool" where
  "disconnected sh \<longleftrightarrow> and (fe_flags sh) FRONTEND_DISCONNECT \<noteq> 0"

text \<open>
  What \<open>_socket->send_msg\<close> leaves when it returns true on the connection \<open>k\<close>: the whole message is sent, or, without
  blocking, a part of it. The caller then looks at the cursors: a non-blocking call hands over to \<open>keep_writing\<close>, a
  blocking one ends the process.
\<close>

definition send_results :: "bool \<Rightarrow> nat \<Rightarrow> 'm \<Rightarrow> 'm fe_shared \<Rightarrow> 'm fe_shared list" where
  "send_results nonblock k m sh =
     settle (Some m) (Sent k k) (sh\<lparr>it_next := None\<rparr>) # (if nonblock then [sh\<lparr>it_next := Some k\<rparr>] else [])"

definition after_send :: "bool \<Rightarrow> nat \<Rightarrow> 'm fe_shared \<Rightarrow> 'm fe_pc" where
  "after_send nonblock n sh =
     (if it_next sh \<noteq> None then (if nonblock then Fe_keep n else Fe_crashed) else Fe_loop nonblock n)"

text \<open>
  The successors of a position of thread \<open>i\<close>. A call on a missing socket or message is a crash. \<open>keep_writing\<close> reads
  the state and calls \<open>connect\<close>, which reads it again.
\<close>

fun fe_next :: "nat \<Rightarrow> 'm fe_pc \<Rightarrow> 'm fe_shared \<Rightarrow> ('m fe_pc \<times> 'm fe_shared) list" where
  "fe_next i (Fe_start nonblock m) sh =
     (let sz = fe_size sh; sh1 = sh\<lparr>fe_size := sz + 1\<rparr>
      in if sz = 0
         then [(if nonblock then Fe_state else Fe_keep 0,
                sh1\<lparr>cur_msg := Some m, fe_more := True, it_next := None, fe_ticket := fe_ticket sh @ [m]\<rparr>)]
         else [(Fe_push m, sh1)])"
| "fe_next i (Fe_push m) sh =
     [(Fe_link m, sh\<lparr>fe_queue := fe_queue sh @ [(m, i, False)], fe_ticket := fe_ticket sh @ [m]\<rparr>)]"
| "fe_next i (Fe_link m) sh =
     [(Fe_returned, sh\<lparr>fe_queue := map (\<lambda>(x, j, linked). (x, j, linked \<or> j = i)) (fe_queue sh)\<rparr>)]"
| "fe_next i Fe_state sh = [(if disconnected sh then Fe_keep 0 else Fe_loop True 0, sh)]"
| "fe_next i (Fe_loop nonblock n) sh =
     (if fe_more sh then [(Fe_send nonblock (n + 1), take_next sh)] else [(Fe_dec nonblock n, sh)])"
| "fe_next i (Fe_send nonblock n) sh =
     (case (sending_msg sh, fe_socket sh) of
        (Some m, Some k) \<Rightarrow>
          map (\<lambda>sh'. (after_send nonblock n sh', sh')) (send_results nonblock k m sh) @ [(Fe_epipe n, sh)]
      | _ \<Rightarrow> [(Fe_crashed, sh)])"
| "fe_next i (Fe_keep n) sh = [(if disconnected sh then Fe_connect n else Fe_rest n, sh)]"
| "fe_next i (Fe_connect n) sh =
     (if disconnected sh
      then [(Fe_rest n, sh\<lparr>fe_socket := Some (fe_connects sh), fe_connects := fe_connects sh + 1, fe_flags := FRONTEND_CONNECT\<rparr>),
            (Fe_epipe (n + 1), take_next sh)]
      else [(Fe_rest n, sh)])"
| "fe_next i (Fe_rest n) sh =
     (case it_next sh of
        None \<Rightarrow> [(Fe_loop False n, sh)]
      | Some k0 \<Rightarrow>
          (case (sending_msg sh, fe_socket sh) of
             (Some m, Some k) \<Rightarrow>
               [(Fe_loop False n, settle (Some m) (Sent k0 k) (sh\<lparr>it_next := None\<rparr>)), (Fe_epipe n, sh)]
           | _ \<Rightarrow> [(Fe_crashed, sh)]))"
| "fe_next i (Fe_dec nonblock n) sh =
     (let sz = fe_size sh
      in [(if sz = int n then Fe_returned else Fe_spin nonblock, sh\<lparr>fe_size := sz - int n\<rparr>)])"
| "fe_next i (Fe_spin nonblock) sh =
     (case fe_queue sh of
        (x, j, True) # q \<Rightarrow> [(Fe_loop nonblock 0, sh\<lparr>cur_msg := Some x, fe_more := True, fe_queue := q\<rparr>)]
      | _ \<Rightarrow> [])"
| "fe_next i (Fe_epipe n) sh =
     (let sh1 = sh\<lparr>fe_flags := FRONTEND_EPIPE\<rparr>
      in if fe_client sh then [(Fe_resend n, sh1\<lparr>it_next := None\<rparr>)] else [(Fe_stuck n, sh1)])"
| "fe_next i (Fe_resend n) sh =
     (if sending_msg sh = None then [(Fe_crashed, sh)]
      else
        let sh1 = (settle (sending_msg sh) Handed_back sh)\<lparr>sending_msg := None\<rparr>
        in if fe_more sh then [(Fe_dec_epipe (n + 1), (settle (cur_msg sh) Handed_back sh1)\<lparr>cur_msg := None\<rparr>)]
           else [(Fe_dec_epipe n, sh1)])"
| "fe_next i (Fe_dec_epipe n) sh =
     (let sz = fe_size sh
      in [(if sz = int n then Fe_disconnect else Fe_spin_epipe, sh\<lparr>fe_size := sz - int n\<rparr>)])"
| "fe_next i Fe_spin_epipe sh =
     (case fe_queue sh of
        (x, j, True) # q \<Rightarrow> [(Fe_dec_epipe 1, settle (Some x) Handed_back (sh\<lparr>fe_queue := q\<rparr>))]
      | _ \<Rightarrow> [])"
| "fe_next i Fe_disconnect sh = [(Fe_returned, sh\<lparr>fe_flags := or FRONTEND_DISCONNECT FRONTEND_EPIPE\<rparr>)]"
| "fe_next i (Fe_stuck n) sh = []"
| "fe_next i Fe_returned sh = []"
| "fe_next i Fe_crashed sh = []"

type_synonym 'm fe_sys = "'m fe_pc list \<times> 'm fe_shared"

text \<open>A client front end starts without connection, one that was accepted starts with it.\<close>

definition fe_init :: "bool \<Rightarrow> (bool \<times> 'm) list \<Rightarrow> 'm fe_sys \<Rightarrow> bool" where
  "fe_init client calls s \<longleftrightarrow> s = (map (\<lambda>(nonblock, m). Fe_start nonblock m) calls,
     \<lparr>fe_size = 0, fe_queue = [], fe_flags = (if client then FRONTEND_DISCONNECT else FRONTEND_CONNECT),
      fe_socket = (if client then None else Some 0), fe_connects = 1, fe_client = client, cur_msg = None,
      sending_msg = None, fe_more = False, it_next = None, fates = [], fe_ticket = []\<rparr>)"

fun starting :: "'m fe_pc \<Rightarrow> bool" where
  "starting (Fe_start _ _) = True"
| "starting _ = False"

text \<open>Between the last \<open>fetch_sub\<close> of \<open>epipe\<close> and its \<open>set_state\<close>.\<close>

fun lagging :: "'m fe_pc \<Rightarrow> bool" where
  "lagging Fe_disconnect = True"
| "lagging _ = False"

text \<open>
  Steps of the threads, and of the receiving thread, which sets \<open>FRONTEND_EPIPE\<close> when the connection is closed.
  With \<open>calm\<close> no call starts while another thread is between the two last accesses of \<open>epipe\<close>.
\<close>

inductive fe_step :: "bool \<Rightarrow> 'm fe_sys \<Rightarrow> 'm fe_sys \<Rightarrow> bool" for calm where
  thread: "i < length pcs \<Longrightarrow> calm \<and> starting (pcs ! i) \<longrightarrow> cnt lagging pcs = 0 \<Longrightarrow>
     (pc, sh') \<in> set (fe_next i (pcs ! i) sh) \<Longrightarrow> fe_step calm (pcs, sh) (pcs[i := pc], sh')"
| closed: "fe_socket sh \<noteq> None \<Longrightarrow> fe_step calm (pcs, sh) (pcs, sh\<lparr>fe_flags := FRONTEND_EPIPE\<rparr>)"

section \<open>Invariant\<close>

text \<open>The thread that has the right to send: it has not yet taken its messages off the counter.\<close>

fun fe_sender :: "'m fe_pc \<Rightarrow> bool" where
  "fe_sender (Fe_start _ _) = False"
| "fe_sender (Fe_push _) = False"
| "fe_sender (Fe_link _) = False"
| "fe_sender Fe_disconnect = False"
| "fe_sender Fe_returned = False"
| "fe_sender Fe_crashed = False"
| "fe_sender _ = True"

fun fe_pushing :: "'m fe_pc \<Rightarrow> bool" where
  "fe_pushing (Fe_push _) = True"
| "fe_pushing _ = False"

fun linking :: "'m fe_pc \<Rightarrow> bool" where
  "linking (Fe_link _) = True"
| "linking _ = False"

fun recovering :: "'m fe_pc \<Rightarrow> bool" where
  "recovering (Fe_resend _) = True"
| "recovering (Fe_dec_epipe _) = True"
| "recovering Fe_spin_epipe = True"
| "recovering Fe_disconnect = True"
| "recovering _ = False"

fun fe_waiting :: "'m fe_pc \<Rightarrow> 'm list" where
  "fe_waiting (Fe_start _ m) = [m]"
| "fe_waiting (Fe_push m) = [m]"
| "fe_waiting _ = []"

text \<open>What the sender holds, and what it has to take off the counter for it.\<close>

definition opt :: "'m option \<Rightarrow> 'm list" where
  "opt x = (case x of None \<Rightarrow> [] | Some m \<Rightarrow> [m])"

definition more_msg :: "'m fe_shared \<Rightarrow> 'm list" where
  "more_msg sh = (if fe_more sh then opt (cur_msg sh) else [])"

fun fe_held :: "'m fe_pc \<Rightarrow> 'm fe_shared \<Rightarrow> 'm list" where
  "fe_held Fe_state sh = more_msg sh"
| "fe_held (Fe_loop _ _) sh = more_msg sh"
| "fe_held (Fe_send _ _) sh = opt (sending_msg sh) @ more_msg sh"
| "fe_held (Fe_keep _) sh = (if it_next sh = None then [] else opt (sending_msg sh)) @ more_msg sh"
| "fe_held (Fe_connect _) sh = more_msg sh"
| "fe_held (Fe_rest _) sh = (if it_next sh = None then [] else opt (sending_msg sh)) @ more_msg sh"
| "fe_held (Fe_epipe _) sh = opt (sending_msg sh) @ more_msg sh"
| "fe_held (Fe_resend _) sh = opt (sending_msg sh) @ more_msg sh"
| "fe_held (Fe_stuck _) sh = opt (sending_msg sh) @ more_msg sh"
| "fe_held _ sh = []"

fun fe_weight :: "'m fe_pc \<Rightarrow> 'm fe_shared \<Rightarrow> nat" where
  "fe_weight Fe_state sh = one_if (fe_more sh)"
| "fe_weight (Fe_loop _ n) sh = n + one_if (fe_more sh)"
| "fe_weight (Fe_send _ n) sh = n + one_if (fe_more sh)"
| "fe_weight (Fe_keep n) sh = n + one_if (fe_more sh)"
| "fe_weight (Fe_connect n) sh = n + one_if (fe_more sh)"
| "fe_weight (Fe_rest n) sh = n + one_if (fe_more sh)"
| "fe_weight (Fe_epipe n) sh = n + one_if (fe_more sh)"
| "fe_weight (Fe_resend n) sh = n + one_if (fe_more sh)"
| "fe_weight (Fe_stuck n) sh = n + one_if (fe_more sh)"
| "fe_weight (Fe_dec _ n) sh = n"
| "fe_weight (Fe_dec_epipe n) sh = n"
| "fe_weight _ sh = 0"

text \<open>What the sender knows of the members at each of its positions.\<close>

definition linked :: "'m fe_shared \<Rightarrow> bool" where
  "linked sh \<longleftrightarrow> \<not> disconnected sh \<and> fe_socket sh \<noteq> None"

definition more_ok :: "'m fe_shared \<Rightarrow> bool" where
  "more_ok sh \<longleftrightarrow> (fe_more sh \<longrightarrow> cur_msg sh \<noteq> None)"

fun sender_ok :: "'m fe_pc \<Rightarrow> 'm fe_shared \<Rightarrow> bool" where
  "sender_ok Fe_state sh = (fe_more sh \<and> cur_msg sh \<noteq> None \<and> it_next sh = None)"
| "sender_ok (Fe_loop _ _) sh = (more_ok sh \<and> it_next sh = None \<and> linked sh)"
| "sender_ok (Fe_send _ n) sh = (0 < n \<and> sending_msg sh \<noteq> None \<and> more_ok sh \<and> it_next sh = None \<and> linked sh)"
| "sender_ok (Fe_keep n) sh =
     (if it_next sh = None then n = 0 \<and> fe_more sh \<and> cur_msg sh \<noteq> None
      else 0 < n \<and> sending_msg sh \<noteq> None \<and> more_ok sh \<and> \<not> disconnected sh \<and> fe_socket sh = it_next sh)"
| "sender_ok (Fe_connect n) sh = (n = 0 \<and> it_next sh = None \<and> fe_more sh \<and> cur_msg sh \<noteq> None)"
| "sender_ok (Fe_rest n) sh =
     (more_ok sh \<and> linked sh \<and> (it_next sh \<noteq> None \<longrightarrow> 0 < n \<and> sending_msg sh \<noteq> None \<and> fe_socket sh = it_next sh))"
| "sender_ok (Fe_dec _ _) sh = (\<not> fe_more sh \<and> it_next sh = None \<and> linked sh)"
| "sender_ok (Fe_spin _) sh = (it_next sh = None \<and> linked sh)"
| "sender_ok (Fe_epipe n) sh = (0 < n \<and> sending_msg sh \<noteq> None \<and> more_ok sh)"
| "sender_ok (Fe_resend n) sh = (0 < n \<and> sending_msg sh \<noteq> None \<and> more_ok sh)"
| "sender_ok (Fe_stuck n) sh = (0 < n \<and> sending_msg sh \<noteq> None \<and> more_ok sh \<and> \<not> fe_client sh)"
| "sender_ok _ sh = True"

definition sender_inv :: "nat \<Rightarrow> 'm fe_pc \<Rightarrow> 'm fe_shared \<Rightarrow> bool" where
  "sender_inv k pc sh \<longleftrightarrow>
     fe_size sh = int (length (fe_queue sh) + k + fe_weight pc sh) \<and> 0 < fe_size sh \<and>
     fe_ticket sh = map fst (fates sh) @ fe_held pc sh @ map fst (fe_queue sh) \<and> sender_ok pc sh"

text \<open>Nobody has the right to send.\<close>

definition idle_inv :: "nat \<Rightarrow> 'm fe_shared \<Rightarrow> bool" where
  "idle_inv k sh \<longleftrightarrow> fe_size sh = 0 \<and> fe_queue sh = [] \<and> k = 0 \<and> fe_ticket sh = map fst (fates sh)"

definition unlinked_ok :: "'m fe_pc list \<Rightarrow> 'm fe_shared \<Rightarrow> bool" where
  "unlinked_ok pcs sh \<longleftrightarrow> (\<forall>(x, j, b) \<in> set (fe_queue sh). b \<or> j < length pcs \<and> linking (pcs ! j))"

definition fates_ok :: "'m fe_shared \<Rightarrow> bool" where
  "fates_ok sh \<longleftrightarrow> (\<forall>(m, f) \<in> set (fates sh). \<forall>a b. f = Sent a b \<longrightarrow> a = b)"

definition fe_inv :: "bool \<Rightarrow> (bool \<times> 'm) list \<Rightarrow> 'm fe_sys \<Rightarrow> bool" where
  "fe_inv client calls s \<longleftrightarrow> (case s of (pcs, sh) \<Rightarrow>
     length pcs = length calls \<and>
     cnt fe_sender pcs + cnt lagging pcs \<le> 1 \<and>
     (cnt fe_sender pcs = 0 \<longrightarrow> idle_inv (cnt fe_pushing pcs) sh) \<and>
     (\<forall>i < length pcs. fe_sender (pcs ! i) \<longrightarrow> sender_inv (cnt fe_pushing pcs) (pcs ! i) sh) \<and>
     mset (map snd calls) = mset (fe_ticket sh) + mset (concat (map fe_waiting pcs)) \<and>
     unlinked_ok pcs sh \<and> fates_ok sh \<and> fe_client sh = client \<and> (fe_socket sh = None \<longrightarrow> client) \<and> list_all (\<lambda>pc. pc \<noteq> Fe_crashed) pcs \<and>
     (fe_socket sh = None \<and> \<not> disconnected sh \<longrightarrow> 0 < cnt recovering pcs))"

lemma fe_invD:
  assumes "fe_inv client calls (pcs, sh)"
  shows "length pcs = length calls" "cnt fe_sender pcs + cnt lagging pcs \<le> 1"
    "cnt fe_sender pcs = 0 \<Longrightarrow> idle_inv (cnt fe_pushing pcs) sh"
    "\<And>i. i < length pcs \<Longrightarrow> fe_sender (pcs ! i) \<Longrightarrow> sender_inv (cnt fe_pushing pcs) (pcs ! i) sh"
    "mset (map snd calls) = mset (fe_ticket sh) + mset (concat (map fe_waiting pcs))"
    "unlinked_ok pcs sh" "fates_ok sh" "fe_client sh = client" "list_all (\<lambda>pc. pc \<noteq> Fe_crashed) pcs"
    "fe_socket sh = None \<Longrightarrow> \<not> disconnected sh \<Longrightarrow> 0 < cnt recovering pcs" "fe_socket sh = None \<Longrightarrow> client"
  using assms unfolding fe_inv_def by auto

lemma fe_inv_init:
  assumes "fe_init client calls s"
  shows "fe_inv client calls s"
proof -
  let ?pcs = "map (\<lambda>(nonblock, m). Fe_start nonblock m) calls"
  have z: "cnt P ?pcs = 0" if "\<And>b m. \<not> P (Fe_start b m)" for P using that by (auto simp: cnt_zero_iff list_all_iff)
  have "concat (map fe_waiting ?pcs) = map snd calls" by (induction calls) auto
  moreover have "list_all (\<lambda>pc. pc \<noteq> Fe_crashed) ?pcs" by (auto simp: list_all_iff)
  moreover have "\<not> fe_sender (?pcs ! i)" if "i < length ?pcs" for i using that by (cases "calls ! i") simp
  ultimately show ?thesis using assms z [of fe_sender] z [of lagging] z [of fe_pushing]
    by (auto simp: fe_init_def fe_inv_def idle_inv_def unlinked_ok_def fates_ok_def disconnected_def)
qed

lemma fe_waiting_update:
  assumes "i < length pcs"
  shows "mset (concat (map fe_waiting (pcs[i := pc]))) + mset (fe_waiting (pcs ! i)) =
    mset (concat (map fe_waiting pcs)) + mset (fe_waiting pc)"
proof -
  have "pcs = take i pcs @ pcs ! i # drop (Suc i) pcs" using assms by (simp add: id_take_nth_drop)
  then have "mset (concat (map fe_waiting pcs)) = mset (concat (map fe_waiting (take i pcs @ pcs ! i # drop (Suc i) pcs)))" by simp
  then show ?thesis using assms by (simp add: upd_conv_take_nth_drop)
qed

lemma calls_balance:
  assumes "fe_inv client calls (pcs, sh)" "i < length pcs"
    "mset (fe_ticket sh') + mset (fe_waiting pc) = mset (fe_ticket sh) + mset (fe_waiting (pcs ! i))"
  shows "mset (map snd calls) = mset (fe_ticket sh') + mset (concat (map fe_waiting (pcs[i := pc])))"
proof -
  let ?A = "mset (concat (map fe_waiting pcs))" and ?B = "mset (concat (map fe_waiting (pcs[i := pc])))"
  have "mset (fe_ticket sh') + ?B + (mset (fe_waiting pc) + mset (fe_waiting (pcs ! i))) =
      (mset (fe_ticket sh') + mset (fe_waiting pc)) + (?B + mset (fe_waiting (pcs ! i)))" by (simp add: ac_simps)
  also have "\<dots> = mset (fe_ticket sh) + ?A + (mset (fe_waiting pc) + mset (fe_waiting (pcs ! i)))"
    by (simp only: assms(3) fe_waiting_update [OF assms(2)]) (simp add: ac_simps)
  finally show ?thesis using fe_invD(5) [OF assms(1)] by simp
qed

text \<open>A step that leaves the position of the queue links alone.\<close>

lemma unlinked_update:
  assumes "unlinked_ok pcs sh" "\<And>x j b. (x, j, b) \<in> set (fe_queue sh') \<Longrightarrow> (x, j, b) \<in> set (fe_queue sh)" "\<not> linking (pcs ! i)"
  shows "unlinked_ok (pcs[i := pc]) sh'"
  unfolding unlinked_ok_def
proof (clarify)
  fix x j b
  assume "(x, j, b) \<in> set (fe_queue sh')" "\<not> (j < length (pcs[i := pc]) \<and> linking (pcs[i := pc] ! j))"
  moreover have "b \<or> j < length pcs \<and> linking (pcs ! j)" if "(x, j, b) \<in> set (fe_queue sh)"
    using assms(1) that by (auto simp: unlinked_ok_def)
  ultimately show b using assms(2,3) by (cases "j = i") auto
qed

lemma sender_not [simp]:
  assumes "fe_sender pc"
  shows "fe_waiting pc = []" "\<not> fe_pushing pc" "\<not> lagging pc" "\<not> linking pc" "pc \<noteq> Fe_crashed" "\<not> starting pc"
  using assms by (cases pc; simp)+

lemma not_crashed_update:
  "list_all (\<lambda>pc. pc \<noteq> Fe_crashed) pcs \<Longrightarrow> pc \<noteq> Fe_crashed \<Longrightarrow> list_all (\<lambda>pc. pc \<noteq> Fe_crashed) (pcs[i := pc])"
  by (auto simp: list_all_iff dest: set_update_subset_insert [THEN subsetD])

text \<open>A step of the sender.\<close>

lemma sender_stays:
  assumes inv: "fe_inv client calls (pcs, sh)" and i: "i < length pcs" and old: "fe_sender (pcs ! i)" and new: "fe_sender pc"
    and si: "sender_inv (cnt fe_pushing pcs) pc sh'" and tick: "fe_ticket sh' = fe_ticket sh"
    and q: "\<And>x j b. (x, j, b) \<in> set (fe_queue sh') \<Longrightarrow> (x, j, b) \<in> set (fe_queue sh)"
    and rest: "fates_ok sh'" "fe_client sh' = fe_client sh" "fe_socket sh' = None \<Longrightarrow> fe_socket sh = None"
    and g: "fe_socket sh' = None \<Longrightarrow> \<not> disconnected sh' \<Longrightarrow> recovering pc"
  shows "fe_inv client calls (pcs[i := pc], sh')"
proof -
  note d = fe_invD [OF inv]
  note w = sender_not [OF old] sender_not [OF new]
  have c: "cnt fe_sender (pcs[i := pc]) = cnt fe_sender pcs" "cnt lagging (pcs[i := pc]) = cnt lagging pcs"
      "cnt fe_pushing (pcs[i := pc]) = cnt fe_pushing pcs"
    using cnt_update [OF i, of fe_sender pc] cnt_update [OF i, of lagging pc] cnt_update [OF i, of fe_pushing pc] old new w by simp_all
  have pos: "0 < cnt fe_sender pcs" by (rule cnt_pos [of i pcs fe_sender, OF i old])
  have others: "\<not> fe_sender (pcs ! j)" if "j < length pcs" "j \<noteq> i" for j
    using cnt_unique [of fe_sender pcs i j] d(2) that i old by simp
  have "sender_inv (cnt fe_pushing pcs) (pcs[i := pc] ! j) sh'" if "j < length pcs" "fe_sender (pcs[i := pc] ! j)" for j
    using that si others [of j] i by (cases "j = i") auto
  moreover have "mset (map snd calls) = mset (fe_ticket sh') + mset (concat (map fe_waiting (pcs[i := pc])))"
    by (rule calls_balance [OF inv i]) (simp add: w tick)
  moreover have "unlinked_ok (pcs[i := pc]) sh'" by (rule unlinked_update [OF d(6) q w(4)])
  moreover have "0 < cnt recovering (pcs[i := pc])" if "fe_socket sh' = None" "\<not> disconnected sh'"
    using cnt_pos [of i "pcs[i := pc]" recovering] i g [OF that] by simp
  ultimately show ?thesis
    using d(1,2,8,11) not_crashed_update [OF d(9) w(11)] rest pos by (simp add: fe_inv_def c)
qed

text \<open>The sender takes its last messages off the counter.\<close>

lemma sender_leaves:
  assumes inv: "fe_inv client calls (pcs, sh)" and i: "i < length pcs" and old: "fe_sender (pcs ! i)"
    and new: "pc = Fe_returned \<or> pc = Fe_disconnect" and size: "fe_size sh = int (fe_weight (pcs ! i) sh)" and held: "fe_held (pcs ! i) sh = []"
    and sh': "sh' = sh\<lparr>fe_size := 0\<rparr>" and g: "fe_socket sh = None \<Longrightarrow> \<not> disconnected sh \<Longrightarrow> pc = Fe_disconnect"
  shows "fe_inv client calls (pcs[i := pc], sh')"
proof -
  note d = fe_invD [OF inv]
  have n: "fe_waiting pc = []" "\<not> fe_pushing pc" "pc \<noteq> Fe_crashed" "\<not> fe_sender pc" using new by auto
  note w = sender_not [OF old] n
  have pos: "0 < cnt fe_sender pcs" by (rule cnt_pos [of i pcs fe_sender, OF i old])
  have c: "cnt fe_sender (pcs[i := pc]) = 0" "cnt lagging (pcs[i := pc]) \<le> 1" "cnt fe_pushing (pcs[i := pc]) = cnt fe_pushing pcs"
    using cnt_update [OF i, of fe_sender pc] cnt_update [OF i, of lagging pc] cnt_update [OF i, of fe_pushing pc] old w d(2) pos by auto
  have si: "sender_inv (cnt fe_pushing pcs) (pcs ! i) sh" by (rule d(4) [OF i old])
  then have "fe_size sh = int (length (fe_queue sh) + cnt fe_pushing pcs + fe_weight (pcs ! i) sh)" by (simp add: sender_inv_def)
  then have "length (fe_queue sh) = 0" "cnt fe_pushing pcs = 0" using size by linarith+
  then have "idle_inv (cnt fe_pushing (pcs[i := pc])) sh'" using si held by (simp add: idle_inv_def c sh' sender_inv_def)
  moreover have "\<not> fe_sender (pcs[i := pc] ! j)" if "j < length pcs" for j
    using c(1) that by (simp add: cnt_zero_iff list_all_length)
  moreover have "mset (map snd calls) = mset (fe_ticket sh') + mset (concat (map fe_waiting (pcs[i := pc])))"
    by (rule calls_balance [OF inv i]) (simp add: w sh')
  moreover have "unlinked_ok (pcs[i := pc]) sh'" by (rule unlinked_update [OF d(6) _ w(4)]) (simp add: sh')
  moreover have "fates_ok sh'" "fe_client sh' = client" "fe_socket sh' = None \<longrightarrow> client"
    using d(7,8,11) by (simp_all add: sh' fates_ok_def)
  moreover have "0 < cnt recovering (pcs[i := pc])" if "fe_socket sh' = None" "\<not> disconnected sh'"
    using that g cnt_pos [of i "pcs[i := pc]" recovering] i by (simp add: sh' disconnected_def)
  ultimately show ?thesis
    using d(1) not_crashed_update [OF d(9) n(3)] c by (simp add: fe_inv_def)
qed

text \<open>A call that finds nobody sending.\<close>

lemma sender_enters:
  assumes inv: "fe_inv client calls (pcs, sh)" and i: "i < length pcs" and old: "pcs ! i = Fe_start nonblock m"
    and calm: "cnt lagging pcs = 0" and size: "fe_size sh = 0" and new: "pc = (if nonblock then Fe_state else Fe_keep 0)"
    and sh': "sh' = sh\<lparr>fe_size := 1, cur_msg := Some m, fe_more := True, it_next := None, fe_ticket := fe_ticket sh @ [m]\<rparr>"
  shows "fe_inv client calls (pcs[i := pc], sh')"
proof -
  note d = fe_invD [OF inv]
  have z: "cnt fe_sender pcs = 0"
  proof (rule ccontr)
    assume "cnt fe_sender pcs \<noteq> 0"
    then obtain j where j: "j < length pcs" "fe_sender (pcs ! j)" by (auto simp: cnt_zero_iff list_all_length)
    from d(4) [OF this] size show False by (simp add: sender_inv_def)
  qed
  have id: "fe_queue sh = []" "cnt fe_pushing pcs = 0" "fe_ticket sh = map fst (fates sh)" using d(3) [OF z] by (simp_all add: idle_inv_def)
  have s: "fe_sender pc" "\<not> recovering pc" using new by auto
  have c: "cnt fe_sender (pcs[i := pc]) = 1" "cnt lagging (pcs[i := pc]) = 0" "cnt fe_pushing (pcs[i := pc]) = 0"
    using cnt_update [OF i, of fe_sender pc] cnt_update [OF i, of lagging pc] cnt_update [OF i, of fe_pushing pc] z calm id(2) old s(1) by simp_all
  have si: "sender_inv 0 pc sh'" using new id(1,3) by (auto simp: sender_inv_def sh' more_msg_def opt_def)
  have "\<not> fe_sender (pcs ! j)" if "j < length pcs" for j using z that by (simp add: cnt_zero_iff list_all_length)
  then have "sender_inv 0 (pcs[i := pc] ! j) sh'" if "j < length pcs" "fe_sender (pcs[i := pc] ! j)" for j
    using that si i by (cases "j = i") auto
  moreover have "mset (map snd calls) = mset (fe_ticket sh') + mset (concat (map fe_waiting (pcs[i := pc])))"
    by (rule calls_balance [OF inv i]) (simp add: sh' old s(1))
  moreover have "\<not> (\<exists>j < length pcs. recovering (pcs ! j))"
  proof
    assume "\<exists>j < length pcs. recovering (pcs ! j)"
    then obtain j where j: "j < length pcs" "recovering (pcs ! j)" by blast
    then have "fe_sender (pcs ! j) \<or> lagging (pcs ! j)" by (cases "pcs ! j") auto
    then show False using z calm j(1) by (auto simp: cnt_zero_iff list_all_length)
  qed
  then have "cnt recovering pcs = 0" by (auto simp: cnt_zero_iff list_all_length)
  then have "\<not> (fe_socket sh' = None \<and> \<not> disconnected sh')" using d(10) by (auto simp: sh' disconnected_def)
  moreover have "unlinked_ok (pcs[i := pc]) sh'" "fates_ok sh'" using id(1) d(7) by (simp_all add: unlinked_ok_def sh' fates_ok_def)
  moreover have "fe_client sh' = client" "fe_socket sh' = None \<longrightarrow> client" using d(8,11) by (simp_all add: sh')
  ultimately show ?thesis
    using d(1) not_crashed_update [OF d(9) sender_not(5) [OF s(1)]] unfolding fe_inv_def by (auto simp: c)
qed

text \<open>Steps of the threads that only push, and of the receiving thread.\<close>

definition same_core :: "'m fe_shared \<Rightarrow> 'm fe_shared \<Rightarrow> bool" where
  "same_core sh sh' \<longleftrightarrow>
     sh'\<lparr>fe_size := 0, fe_queue := [], fe_ticket := []\<rparr> = sh\<lparr>fe_size := 0, fe_queue := [], fe_ticket := []\<rparr>"

lemma same_core_sender:
  assumes "same_core sh sh'"
  shows "fe_held pc sh' = fe_held pc sh" "fe_weight pc sh' = fe_weight pc sh" "sender_ok pc sh' = sender_ok pc sh"
    "fates sh' = fates sh" "fe_client sh' = fe_client sh" "fe_socket sh' = fe_socket sh" "disconnected sh' = disconnected sh"
proof -
  note e = assms [unfolded same_core_def]
  have g: "cur_msg sh' = cur_msg sh" "sending_msg sh' = sending_msg sh" "fe_more sh' = fe_more sh" "it_next sh' = it_next sh"
      "fates sh' = fates sh" "fe_client sh' = fe_client sh" "fe_socket sh' = fe_socket sh" "fe_flags sh' = fe_flags sh"
    using arg_cong [OF e, of cur_msg] arg_cong [OF e, of sending_msg] arg_cong [OF e, of fe_more] arg_cong [OF e, of it_next]
      arg_cong [OF e, of fates] arg_cong [OF e, of fe_client] arg_cong [OF e, of fe_socket] arg_cong [OF e, of fe_flags] by simp_all
  note f = g more_msg_def more_ok_def linked_def disconnected_def
  show "fates sh' = fates sh" "fe_client sh' = fe_client sh" "fe_socket sh' = fe_socket sh" "disconnected sh' = disconnected sh"
    by (simp_all add: g disconnected_def)
  show "fe_held pc sh' = fe_held pc sh" by (cases pc) (simp_all add: f)
  show "fe_weight pc sh' = fe_weight pc sh" by (cases pc) (simp_all add: f)
  show "sender_ok pc sh' = sender_ok pc sh" by (cases pc) (simp_all add: f)
qed

lemma pusher_step:
  assumes inv: "fe_inv client calls (pcs, sh)" and i: "i < length pcs" and core: "same_core sh sh'"
    and idle: "\<not> fe_sender (pcs ! i)" "\<not> fe_sender pc" "\<not> lagging (pcs ! i)" "\<not> lagging pc" "pc \<noteq> Fe_crashed"
    and size: "fe_size sh' + int (length (fe_queue sh) + one_if (fe_pushing (pcs ! i))) = fe_size sh + int (length (fe_queue sh') + one_if (fe_pushing pc))"
    and pos: "0 < fe_size sh' \<and> fe_size sh \<noteq> 0 \<or> fe_size sh' = fe_size sh \<and> xs = []"
    and tick: "fe_ticket sh' = fe_ticket sh @ xs" "map fst (fe_queue sh') = map fst (fe_queue sh) @ xs"
    and wait: "mset (fe_waiting (pcs ! i)) = mset xs + mset (fe_waiting pc)" and un: "unlinked_ok (pcs[i := pc]) sh'"
  shows "fe_inv client calls (pcs[i := pc], sh')"
proof -
  note d = fe_invD [OF inv] and c = same_core_sender [OF core]
  have k: "cnt fe_sender (pcs[i := pc]) = cnt fe_sender pcs" "cnt lagging (pcs[i := pc]) = cnt lagging pcs"
    "cnt recovering (pcs[i := pc]) = cnt recovering pcs"
  proof -
    have "\<not> recovering x" if "\<not> fe_sender x" "\<not> lagging x" for x :: "'a fe_pc" using that by (cases x) simp_all
    then have "\<not> recovering (pcs ! i)" "\<not> recovering pc" using idle by blast+
    then show "cnt fe_sender (pcs[i := pc]) = cnt fe_sender pcs" "cnt lagging (pcs[i := pc]) = cnt lagging pcs"
      "cnt recovering (pcs[i := pc]) = cnt recovering pcs"
      using cnt_update [OF i, of fe_sender pc] cnt_update [OF i, of lagging pc] cnt_update [OF i, of recovering pc] idle by simp_all
  qed
  have p: "cnt fe_pushing (pcs[i := pc]) + one_if (fe_pushing (pcs ! i)) = cnt fe_pushing pcs + one_if (fe_pushing pc)"
    by (rule cnt_update_one_if [OF i])
  have none: "idle_inv (cnt fe_pushing (pcs[i := pc])) sh'" if "cnt fe_sender pcs = 0"
  proof -
    have z: "idle_inv (cnt fe_pushing pcs) sh" by (rule d(3) [OF that])
    then have e: "fe_size sh' = fe_size sh" "xs = []" using pos by (auto simp: idle_inv_def)
    then have "length (fe_queue sh') = length (fe_queue sh)" using tick(2) by (metis append_Nil2 length_map)
    then show ?thesis using z e size p tick by (simp add: idle_inv_def c)
  qed
  have "sender_inv (cnt fe_pushing (pcs[i := pc])) (pcs[i := pc] ! j) sh'" if "j < length pcs" "fe_sender (pcs[i := pc] ! j)" for j
  proof -
    have "j \<noteq> i" using that idle(2) i by auto
    then have "sender_inv (cnt fe_pushing pcs) (pcs ! j) sh" "pcs[i := pc] ! j = pcs ! j" using d(4) [of j] that by simp_all
    then show ?thesis using size p pos tick unfolding sender_inv_def c by (auto simp: add.assoc)
  qed
  moreover have "mset (map snd calls) = mset (fe_ticket sh') + mset (concat (map fe_waiting (pcs[i := pc])))"
    by (rule calls_balance [OF inv i]) (simp add: tick(1) wait ac_simps)
  ultimately show ?thesis
    using d(1,2,7,8,10,11) un not_crashed_update [OF d(9) idle(5)] none by (simp add: fe_inv_def k c fates_ok_def)
qed

lemma closed_step:
  assumes "fe_inv client calls (pcs, sh)" "fe_socket sh \<noteq> None"
  shows "fe_inv client calls (pcs, sh\<lparr>fe_flags := FRONTEND_EPIPE\<rparr>)"
proof -
  let ?sh = "sh\<lparr>fe_flags := FRONTEND_EPIPE\<rparr>"
  have "\<not> disconnected ?sh" by (simp add: disconnected_def)
  then have "sender_ok pc ?sh" if "sender_ok pc sh" for pc
    using that assms(2) by (cases pc) (auto simp: more_ok_def linked_def split: if_splits)
  moreover have "fe_held pc ?sh = fe_held pc sh" "fe_weight pc ?sh = fe_weight pc sh" for pc
    by (cases pc; simp add: more_msg_def)+
  ultimately have "sender_inv k pc ?sh" if "sender_inv k pc sh" for k pc using that by (simp add: sender_inv_def)
  moreover have "unlinked_ok pcs ?sh = unlinked_ok pcs sh" "fates_ok ?sh = fates_ok sh" "idle_inv k ?sh = idle_inv k sh" for k
    by (simp_all add: unlinked_ok_def fates_ok_def idle_inv_def)
  ultimately show ?thesis using assms by (auto simp: fe_inv_def)
qed

lemma disconnect_step:
  assumes inv: "fe_inv client calls (pcs, sh)" and i: "i < length pcs" and old: "pcs ! i = Fe_disconnect"
  shows "fe_inv client calls (pcs[i := Fe_returned], sh\<lparr>fe_flags := or FRONTEND_DISCONNECT FRONTEND_EPIPE\<rparr>)"
    (is "fe_inv _ _ (?pcs, ?sh)")
proof -
  note d = fe_invD [OF inv]
  have lag: "0 < cnt lagging pcs" using cnt_pos [of i pcs lagging] i old by simp
  then have z: "cnt fe_sender pcs = 0" using d(2) by simp
  have c: "cnt fe_sender ?pcs = 0" "cnt lagging ?pcs \<le> 1" "cnt fe_pushing ?pcs = cnt fe_pushing pcs"
    using cnt_update [OF i, of fe_sender Fe_returned] cnt_update [OF i, of lagging Fe_returned]
      cnt_update [OF i, of fe_pushing Fe_returned] old z d(2) by simp_all
  have "idle_inv (cnt fe_pushing ?pcs) ?sh" using d(3) [OF z] by (simp add: idle_inv_def c)
  moreover have "\<not> fe_sender (?pcs ! j)" if "j < length pcs" for j
    using c(1) that by (simp add: cnt_zero_iff list_all_length)
  moreover have "mset (map snd calls) = mset (fe_ticket ?sh) + mset (concat (map fe_waiting ?pcs))"
    by (rule calls_balance [OF inv i]) (simp add: old)
  moreover have "unlinked_ok ?pcs ?sh" by (rule unlinked_update [OF d(6)]) (simp_all add: old)
  moreover have "disconnected ?sh" by (simp add: disconnected_def)
  moreover have "list_all (\<lambda>pc. pc \<noteq> Fe_crashed) ?pcs" by (rule not_crashed_update [OF d(9)]) simp
  ultimately show ?thesis using d(1,7,8,11) c by (simp add: fe_inv_def fates_ok_def)
qed

lemma take_next_cases:
  obtains (popped) x j q where "fe_queue sh = (x, j, True) # q"
      "take_next sh = sh\<lparr>sending_msg := cur_msg sh, cur_msg := Some x, fe_more := True, fe_queue := q\<rparr>"
  | (empty) "take_next sh = sh\<lparr>sending_msg := cur_msg sh, cur_msg := None, fe_more := False\<rparr>"
proof (cases "\<exists>x j q. fe_queue sh = (x, j, True) # q")
  case False
  then have "take_next sh = sh\<lparr>sending_msg := cur_msg sh, cur_msg := None, fe_more := False\<rparr>"
    by (auto simp: take_next_def split: list.split prod.split bool.split)
  then show thesis by (rule empty)
qed (auto simp: take_next_def intro: popped)

text \<open>\<open>_msg\<close> becomes \<open>_sending_msg\<close>: the held messages and the counter stay the same.\<close>

lemma take_next_inv:
  assumes "fe_more sh" "cur_msg sh \<noteq> None" "fe_size sh = int (length (fe_queue sh) + k + (n + 1))"
    "fe_ticket sh = map fst (fates sh) @ more_msg sh @ map fst (fe_queue sh)"
  shows "fe_size (take_next sh) = int (length (fe_queue (take_next sh)) + k + (n + 1 + one_if (fe_more (take_next sh))))"
    "fe_ticket (take_next sh) = map fst (fates (take_next sh)) @ (opt (sending_msg (take_next sh)) @ more_msg (take_next sh)) @
       map fst (fe_queue (take_next sh))"
    "sending_msg (take_next sh) \<noteq> None" "more_ok (take_next sh)"
    "\<And>x j b. (x, j, b) \<in> set (fe_queue (take_next sh)) \<Longrightarrow> (x, j, b) \<in> set (fe_queue sh)"
  by (cases rule: take_next_cases [of sh]; use assms in \<open>simp add: more_msg_def opt_def more_ok_def\<close>)+

lemma take_next_frame [simp]:
  "it_next (take_next sh) = it_next sh" "fe_socket (take_next sh) = fe_socket sh" "fe_client (take_next sh) = fe_client sh"
  "fates (take_next sh) = fates sh" "fe_ticket (take_next sh) = fe_ticket sh" "fe_size (take_next sh) = fe_size sh"
  "disconnected (take_next sh) = disconnected sh" "linked (take_next sh) = linked sh"
  by (cases rule: take_next_cases [of sh]; simp add: disconnected_def linked_def)+

lemma member_updates [simp]:
  "disconnected (sh\<lparr>it_next := x\<rparr>) = disconnected sh" "disconnected (sh\<lparr>fe_size := z\<rparr>) = disconnected sh"
  "disconnected (sh\<lparr>fe_queue := q\<rparr>) = disconnected sh" "disconnected (sh\<lparr>cur_msg := y\<rparr>) = disconnected sh"
  "disconnected (sh\<lparr>fe_more := b\<rparr>) = disconnected sh" "disconnected (sh\<lparr>sending_msg := y\<rparr>) = disconnected sh"
  "fates_ok (sh\<lparr>it_next := x\<rparr>) = fates_ok sh" "fates_ok (sh\<lparr>fe_size := z\<rparr>) = fates_ok sh"
  "fates_ok (sh\<lparr>fe_queue := q\<rparr>) = fates_ok sh" "fates_ok (sh\<lparr>cur_msg := y\<rparr>) = fates_ok sh"
  "fates_ok (sh\<lparr>fe_more := b\<rparr>) = fates_ok sh" "fates_ok (sh\<lparr>sending_msg := y\<rparr>) = fates_ok sh"
  "fates_ok (sh\<lparr>fe_flags := w\<rparr>) = fates_ok sh" "fates_ok (sh\<lparr>fe_socket := k\<rparr>) = fates_ok sh"
  "fates_ok (sh\<lparr>fe_connects := l\<rparr>) = fates_ok sh" "fates_ok (take_next sh) = fates_ok sh"
  by (simp_all add: disconnected_def fates_ok_def)

lemma fates_ok_settle:
  "fates_ok sh \<Longrightarrow> (\<And>a b. f = Sent a b \<Longrightarrow> a = b) \<Longrightarrow> fates_ok (settle m f sh)"
  by (cases m) (auto simp: fates_ok_def settle_def)

lemma settle_frame [simp]:
  "fe_size (settle m f sh) = fe_size sh" "fe_queue (settle m f sh) = fe_queue sh" "fe_ticket (settle m f sh) = fe_ticket sh"
  "fe_more (settle m f sh) = fe_more sh" "cur_msg (settle m f sh) = cur_msg sh" "sending_msg (settle m f sh) = sending_msg sh"
  "it_next (settle m f sh) = it_next sh" "fe_socket (settle m f sh) = fe_socket sh" "fe_client (settle m f sh) = fe_client sh"
  "disconnected (settle m f sh) = disconnected sh" "linked (settle m f sh) = linked sh" "more_ok (settle m f sh) = more_ok sh"
  "more_msg (settle m f sh) = more_msg sh" "map fst (fates (settle m f sh)) = map fst (fates sh) @ opt m"
  by (cases m; simp add: settle_def disconnected_def linked_def more_ok_def more_msg_def opt_def)+

lemma sole_recovering:
  assumes inv: "fe_inv client calls (pcs, sh)" and i: "i < length pcs" and os: "fe_sender (pcs ! i)"
    and none: "fe_socket sh = None" "\<not> disconnected sh"
  shows "recovering (pcs ! i)"
proof -
  note d = fe_invD [OF inv]
  obtain j where j: "j < length pcs" "recovering (pcs ! j)"
    using d(10) [OF none] cnt_zero_iff [of recovering pcs] by (auto simp: list_all_length)
  then have "fe_sender (pcs ! j) \<or> lagging (pcs ! j)" by (cases "pcs ! j") auto
  moreover have "\<not> lagging (pcs ! j)" using d(2) cnt_pos [of i pcs fe_sender] cnt_pos [of j pcs lagging] i os j(1) by fastforce
  ultimately have "j = i" using d(2) cnt_unique [of fe_sender pcs i j] i os j(1) by auto
  then show ?thesis using j(2) by simp
qed

text \<open>The sender's steps, one lemma for each group of positions.\<close>

lemma writer_step:
  assumes inv: "fe_inv client calls (pcs, sh)" and i: "i < length pcs" and n: "(pc, sh') \<in> set (fe_next i (pcs ! i) sh)"
    and old: "pcs ! i = Fe_state \<or> (\<exists>nb c. pcs ! i = Fe_loop nb c \<or> pcs ! i = Fe_send nb c)"
  shows "fe_inv client calls (pcs[i := pc], sh')"
proof -
  note d = fe_invD [OF inv]
  have os: "fe_sender (pcs ! i)" using old by auto
  have si: "fe_size sh = int (length (fe_queue sh) + cnt fe_pushing pcs + fe_weight (pcs ! i) sh)" "0 < fe_size sh"
      "fe_ticket sh = map fst (fates sh) @ fe_held (pcs ! i) sh @ map fst (fe_queue sh)" "sender_ok (pcs ! i) sh"
    using d(4) [OF i os] by (simp_all add: sender_inv_def)
  note g = sole_recovering [OF inv i os]
  note stay = sender_stays [OF inv i os]
  consider (state) "pcs ! i = Fe_state" | (loop) nb c where "pcs ! i = Fe_loop nb c" | (send) nb c where "pcs ! i = Fe_send nb c"
    using old by blast
  then show ?thesis
  proof cases
    case state
    then have "pc = (if disconnected sh then Fe_keep 0 else Fe_loop True 0)" "sh' = sh" using n by auto
    moreover have "fe_socket sh \<noteq> None" if "\<not> disconnected sh" using g that state by auto
    ultimately show ?thesis
      using si state d(7) by (intro stay) (auto simp: sender_inv_def linked_def more_ok_def split: if_splits)
  next
    case (loop nb c)
    show ?thesis
    proof (cases "fe_more sh")
      case True
      then have e: "pc = Fe_send nb (c + 1)" "sh' = take_next sh" using n loop by auto
      have "cur_msg sh \<noteq> None" using si(4) True by (simp add: loop more_ok_def)
      note t = take_next_inv [OF True this, of "cnt fe_pushing pcs" c]
      show ?thesis
        using si True t d(7) by (intro stay) (auto simp: e loop sender_inv_def linked_def fates_ok_def)
    next
      case False
      then show ?thesis using n loop si d(7) by (intro stay) (auto simp: sender_inv_def more_msg_def linked_def)
    qed
  next
    case (send nb c)
    obtain m k where mk: "sending_msg sh = Some m" "fe_socket sh = Some k" using si(4) by (auto simp: send linked_def)
    have "it_next sh = None" using si(4) by (simp add: send)
    then have it: "sh\<lparr>it_next := None\<rparr> = sh" by simp
    consider "pc = Fe_loop nb c" "sh' = settle (Some m) (Sent k k) sh" | "pc = Fe_epipe c" "sh' = sh"
      | "pc = Fe_keep c" "sh' = sh\<lparr>it_next := Some k\<rparr>"
      using n \<open>it_next sh = None\<close> unfolding send by (auto simp: mk send_results_def after_send_def it split: if_splits)
    then show ?thesis
      using si d(7) fates_ok_settle [OF d(7), of "Sent k k" "Some m"]
      by cases (intro stay; auto simp: send mk sender_inv_def opt_def more_msg_def more_ok_def linked_def)+
  qed
qed

lemma keeper_step:
  assumes inv: "fe_inv client calls (pcs, sh)" and i: "i < length pcs" and n: "(pc, sh') \<in> set (fe_next i (pcs ! i) sh)"
    and old: "\<exists>c. pcs ! i = Fe_keep c \<or> pcs ! i = Fe_connect c \<or> pcs ! i = Fe_rest c"
  shows "fe_inv client calls (pcs[i := pc], sh')"
proof -
  note d = fe_invD [OF inv]
  have os: "fe_sender (pcs ! i)" using old by auto
  have si: "fe_size sh = int (length (fe_queue sh) + cnt fe_pushing pcs + fe_weight (pcs ! i) sh)" "0 < fe_size sh"
      "fe_ticket sh = map fst (fates sh) @ fe_held (pcs ! i) sh @ map fst (fe_queue sh)" "sender_ok (pcs ! i) sh"
    using d(4) [OF i os] by (simp_all add: sender_inv_def)
  note g = sole_recovering [OF inv i os] and stay = sender_stays [OF inv i os]
  consider (keep) c where "pcs ! i = Fe_keep c" | (connect) c where "pcs ! i = Fe_connect c" | (rest) c where "pcs ! i = Fe_rest c"
    using old by blast
  then show ?thesis
  proof cases
    case (keep c)
    have "fe_socket sh \<noteq> None" if "\<not> disconnected sh" using g that by (auto simp: keep)
    then show ?thesis using n si d(7)
      by (intro stay) (auto simp: keep sender_inv_def more_ok_def linked_def split: if_splits)
  next
    case (connect c)
    show ?thesis
    proof (cases "disconnected sh")
      case True
      have f: "it_next sh = None" "c = 0" "fe_more sh" "cur_msg sh \<noteq> None" using si(4) by (auto simp: connect)
      note t = take_next_inv [OF f(3,4), of "cnt fe_pushing pcs" 0]
      consider "pc = Fe_rest 0" "sh' = sh\<lparr>fe_socket := Some (fe_connects sh), fe_connects := fe_connects sh + 1, fe_flags := FRONTEND_CONNECT\<rparr>"
        | "pc = Fe_epipe 1" "sh' = take_next sh" using n True f(2) by (auto simp: connect)
      then show ?thesis
      proof cases
        case 1
        then show ?thesis using si f d(7)
          by (intro stay) (auto simp: connect sender_inv_def more_msg_def more_ok_def linked_def disconnected_def)
      next
        case 2
        then show ?thesis using si f t d(7) True by (intro stay) (auto simp: connect sender_inv_def)
      qed
    next
      case False
      then have "fe_socket sh \<noteq> None" using g by (auto simp: connect)
      then show ?thesis using n False si d(7)
        by (intro stay) (auto simp: connect sender_inv_def more_ok_def linked_def split: if_splits)
    qed
  next
    case (rest c)
    show ?thesis
    proof (cases "it_next sh")
      case None
      then show ?thesis using n si d(7) by (intro stay) (auto simp: rest sender_inv_def linked_def)
    next
      case (Some k)
      then obtain m where m: "sending_msg sh = Some m" "fe_socket sh = Some k" using si(4) by (auto simp: rest)
      consider "pc = Fe_loop False c" "sh' = settle (Some m) (Sent k k) (sh\<lparr>it_next := None\<rparr>)" | "pc = Fe_epipe c" "sh' = sh"
        using n by (auto simp: rest m Some)
      then show ?thesis
        using si d(7) fates_ok_settle [of "sh\<lparr>it_next := None\<rparr>" "Sent k k" "Some m"]
        by cases (intro stay; auto simp: rest m Some sender_inv_def opt_def more_msg_def more_ok_def linked_def)+
    qed
  qed
qed

lemma fe_counter_step:
  assumes inv: "fe_inv client calls (pcs, sh)" and i: "i < length pcs" and n: "(pc, sh') \<in> set (fe_next i (pcs ! i) sh)"
    and old: "pcs ! i = Fe_spin_epipe \<or> (\<exists>nb c. pcs ! i = Fe_dec nb c \<or> pcs ! i = Fe_spin nb \<or> pcs ! i = Fe_dec_epipe c)"
  shows "fe_inv client calls (pcs[i := pc], sh')"
proof -
  note d = fe_invD [OF inv]
  have os: "fe_sender (pcs ! i)" using old by auto
  have si: "fe_size sh = int (length (fe_queue sh) + cnt fe_pushing pcs + fe_weight (pcs ! i) sh)" "0 < fe_size sh"
      "fe_ticket sh = map fst (fates sh) @ fe_held (pcs ! i) sh @ map fst (fe_queue sh)" "sender_ok (pcs ! i) sh"
    using d(4) [OF i os] by (simp_all add: sender_inv_def)
  note stay = sender_stays [OF inv i os] and leave = sender_leaves [OF inv i os]
  consider (dec) nb c where "pcs ! i = Fe_dec nb c" | (spin) nb where "pcs ! i = Fe_spin nb"
    | (dece) c where "pcs ! i = Fe_dec_epipe c" | (spine) "pcs ! i = Fe_spin_epipe" using old by blast
  then show ?thesis
  proof cases
    case (dec nb c)
    show ?thesis
    proof (cases "fe_size sh = int c")
      case True
      then show ?thesis using n si(4) by (intro leave) (auto simp: dec linked_def)
    next
      case False
      then have "int c < fe_size sh" using si(1) by (simp add: dec)
      then show ?thesis using n False si d(7) by (intro stay) (auto simp: dec sender_inv_def linked_def)
    qed
  next
    case (spin nb)
    then obtain x j q where q: "fe_queue sh = (x, j, True) # q" "pc = Fe_loop nb 0"
        "sh' = sh\<lparr>cur_msg := Some x, fe_more := True, fe_queue := q\<rparr>"
      using n by (cases "fe_queue sh") (auto split: prod.splits bool.splits)
    then show ?thesis using si d(7)
      by (intro stay) (auto simp: spin sender_inv_def more_msg_def opt_def more_ok_def linked_def)
  next
    case (dece c)
    show ?thesis
    proof (cases "fe_size sh = int c")
      case True
      then show ?thesis using n by (intro leave) (auto simp: dece)
    next
      case False
      then have "int c < fe_size sh" using si(1) by (simp add: dece)
      then show ?thesis using n False si d(7) by (intro stay) (auto simp: dece sender_inv_def)
    qed
  next
    case spine
    then obtain x j q where q: "fe_queue sh = (x, j, True) # q" "pc = Fe_dec_epipe 1"
        "sh' = settle (Some x) Handed_back (sh\<lparr>fe_queue := q\<rparr>)"
      using n by (cases "fe_queue sh") (auto split: prod.splits bool.splits)
    then show ?thesis using si d(7) fates_ok_settle [of "sh\<lparr>fe_queue := q\<rparr>" Handed_back "Some x"]
      by (intro stay) (auto simp: spine sender_inv_def opt_def)
  qed
qed

lemma epipe_step:
  assumes inv: "fe_inv client calls (pcs, sh)" and i: "i < length pcs" and n: "(pc, sh') \<in> set (fe_next i (pcs ! i) sh)"
    and old: "\<exists>c. pcs ! i = Fe_epipe c \<or> pcs ! i = Fe_resend c"
  shows "fe_inv client calls (pcs[i := pc], sh')"
proof -
  note d = fe_invD [OF inv]
  have os: "fe_sender (pcs ! i)" using old by auto
  have si: "fe_size sh = int (length (fe_queue sh) + cnt fe_pushing pcs + fe_weight (pcs ! i) sh)" "0 < fe_size sh"
      "fe_ticket sh = map fst (fates sh) @ fe_held (pcs ! i) sh @ map fst (fe_queue sh)" "sender_ok (pcs ! i) sh"
    using d(4) [OF i os] by (simp_all add: sender_inv_def)
  note stay = sender_stays [OF inv i os]
  consider (epipe) c where "pcs ! i = Fe_epipe c" | (resend) c where "pcs ! i = Fe_resend c" using old by blast
  then show ?thesis
  proof cases
    case (epipe c)
    show ?thesis
    proof (cases "fe_client sh")
      case True
      then show ?thesis using n si d(7) by (intro stay) (auto simp: epipe sender_inv_def more_msg_def more_ok_def)
    next
      case False
      then have "fe_socket sh \<noteq> None" using d(8,11) by auto
      then show ?thesis using False n si d(7)
        by (intro stay) (auto simp: epipe sender_inv_def more_msg_def more_ok_def)
    qed
  next
    case (resend c)
    then obtain m where m: "sending_msg sh = Some m" using si(4) by auto
    let ?sh1 = "(settle (Some m) Handed_back sh)\<lparr>sending_msg := None\<rparr>"
    have f1: "fates_ok ?sh1" using fates_ok_settle [OF d(7), of Handed_back "Some m"] by simp
    show ?thesis
    proof (cases "fe_more sh")
      case True
      then obtain m2 where m2: "cur_msg sh = Some m2" using si(4) by (auto simp: resend more_ok_def)
      have "pc = Fe_dec_epipe (c + 1)" "sh' = (settle (Some m2) Handed_back ?sh1)\<lparr>cur_msg := None\<rparr>"
        using n True by (auto simp: resend m m2)
      then show ?thesis using si f1 True m m2 fates_ok_settle [OF f1, of Handed_back "Some m2"]
        by (intro stay) (auto simp: resend sender_inv_def opt_def more_msg_def)
    next
      case False
      then have "pc = Fe_dec_epipe c" "sh' = ?sh1" using n by (auto simp: resend m)
      then show ?thesis using si f1 False m by (intro stay) (auto simp: resend sender_inv_def opt_def more_msg_def)
    qed
  qed
qed

lemma push_step:
  assumes inv: "fe_inv client calls (pcs, sh)" and i: "i < length pcs" and n: "(pc, sh') \<in> set (fe_next i (pcs ! i) sh)"
    and old: "starting (pcs ! i) \<and> fe_size sh \<noteq> 0 \<or> fe_pushing (pcs ! i) \<or> linking (pcs ! i)"
  shows "fe_inv client calls (pcs[i := pc], sh')"
proof -
  note d = fe_invD [OF inv]
  have pos: "0 < fe_size sh" if "fe_size sh \<noteq> 0 \<or> cnt fe_pushing pcs \<noteq> 0"
  proof -
    have "cnt fe_sender pcs \<noteq> 0" using d(3) that unfolding idle_inv_def by blast
    then obtain j where "j < length pcs" "fe_sender (pcs ! j)" by (auto simp: cnt_zero_iff list_all_length)
    from d(4) [OF this] show ?thesis by (simp add: sender_inv_def)
  qed
  consider (start) nb m where "pcs ! i = Fe_start nb m" "fe_size sh \<noteq> 0" | (push) m where "pcs ! i = Fe_push m"
    | (link) m where "pcs ! i = Fe_link m" using old by (cases "pcs ! i") auto
  then show ?thesis
  proof cases
    case (start nb m)
    have "unlinked_ok (pcs[i := pc]) sh'" by (rule unlinked_update [OF d(6)]) (use n start in \<open>auto simp: Let_def\<close>)
    then show ?thesis using n start pos
      by (intro pusher_step [OF inv i, where xs = "[]"]) (auto simp: Let_def same_core_def)
  next
    case (push m)
    have "0 < fe_size sh" using pos cnt_pos [of i pcs fe_pushing] i push by auto
    moreover have "unlinked_ok (pcs[i := pc]) sh'" using n push i d(6)
      by (auto simp: unlinked_ok_def nth_list_update split: if_splits)
    ultimately show ?thesis using n push
      by (intro pusher_step [OF inv i, where xs = "[m]"]) (auto simp: same_core_def)
  next
    case (link m)
    let ?q = "map (\<lambda>(x, j, linked). (x, j, linked \<or> j = i)) (fe_queue sh)"
    have e: "pc = Fe_returned" "sh' = sh\<lparr>fe_queue := ?q\<rparr>" using n by (auto simp: link)
    have un: "unlinked_ok (pcs[i := pc]) sh'" using d(6) unfolding unlinked_ok_def e by (fastforce simp: nth_list_update)
    have sp: "map fst ?q = map fst (fe_queue sh)" by (induction "fe_queue sh") auto
    show ?thesis
      using un sp unfolding e
      by (intro pusher_step [OF inv i, where xs = "[]"]) (auto simp: same_core_def link simp del: map_map)
  qed
qed

lemma fe_inv_step:
  assumes inv: "fe_inv client calls (pcs, sh)" and i: "i < length pcs" and n: "(pc, sh') \<in> set (fe_next i (pcs ! i) sh)"
    and calm: "starting (pcs ! i) \<longrightarrow> cnt lagging pcs = 0"
  shows "fe_inv client calls (pcs[i := pc], sh')"
proof (cases "pcs ! i")
  case (Fe_start nb m)
  then show ?thesis
    using sender_enters [OF inv i Fe_start] push_step [OF inv i n] calm n by (cases "fe_size sh = 0") (auto simp: Let_def)
next
  case Fe_disconnect
  then show ?thesis using disconnect_step [OF inv i Fe_disconnect] n by simp
qed (use writer_step [OF inv i n] keeper_step [OF inv i n] fe_counter_step [OF inv i n] epipe_step [OF inv i n] push_step [OF inv i n] n in auto)

lemma fe_inv_steps:
  assumes "fe_inv client calls s" "fe_step True s t"
  shows "fe_inv client calls t"
  using assms(2)
proof cases
  case (thread i pcs pc sh' sh)
  then show ?thesis using fe_inv_step assms(1) by blast
next
  case (closed sh pcs)
  then show ?thesis using closed_step assms(1) by blast
qed

lemma fe_invariant: "inductive_invariant (fe_init client calls) (fe_step True) (fe_inv client calls)"
  by unfold_locales (auto intro: fe_inv_init fe_inv_steps)

lemmas fe_reach = inductive_invariant.inv_reach [OF fe_invariant]

section \<open>Properties of sending\<close>

text \<open>C19. While no call starts in the last two accesses of \<open>epipe\<close>: no thread uses a missing socket or message, at
  most one thread has the right to send, messages are dealt with in the order they entered, each at most once, and
  none is split over two connections, however sends, connects and the receiving thread succeed or fail.\<close>

theorem front_end_order:
  assumes "reach (fe_init client calls) (fe_step True) (pcs, sh)"
  shows "list_all (\<lambda>pc. pc \<noteq> Fe_crashed) pcs \<and> cnt fe_sender pcs \<le> 1 \<and>
    prefix (map fst (fates sh)) (fe_ticket sh) \<and> mset (fe_ticket sh) \<subseteq># mset (map snd calls) \<and>
    (\<forall>m a b. (m, Sent a b) \<in> set (fates sh) \<longrightarrow> a = b)"
proof -
  note d = fe_invD [OF fe_reach [OF assms]]
  have "prefix (map fst (fates sh)) (fe_ticket sh)"
  proof (cases "cnt fe_sender pcs = 0")
    case True
    then show ?thesis using d(3) by (simp add: idle_inv_def)
  next
    case False
    then obtain i where "i < length pcs" "fe_sender (pcs ! i)" by (auto simp: cnt_zero_iff list_all_length)
    from d(4) [OF this] show ?thesis by (simp add: sender_inv_def)
  qed
  moreover have "mset (fe_ticket sh) \<subseteq># mset (map snd calls)" using d(5) by simp
  ultimately show ?thesis using d(2,7,9) by (fastforce simp: fates_ok_def)
qed

text \<open>C7. Under every interleaving in which no call starts between the last \<open>fetch_sub\<close> of an \<open>epipe\<close> and its
  \<open>set_state\<close> (the window of the next section, where this fails): when all calls on a client front end have returned,
  every message was dealt with exactly once, it was either sent as a whole on one connection or handed back to the
  context, and the front end is ready for the next sender: the counter is zero, the queue is empty, and a front end
  without socket is disconnected.\<close>

theorem front_end_settles_all:
  assumes "reach (fe_init True calls) (fe_step True) (pcs, sh)" "list_all (\<lambda>pc. pc = Fe_returned) pcs"
  shows "mset (map fst (fates sh)) = mset (map snd calls) \<and>
    (\<forall>(m, f) \<in> set (fates sh). f = Handed_back \<or> (\<exists>k. f = Sent k k)) \<and>
    fe_size sh = 0 \<and> fe_queue sh = [] \<and> (fe_socket sh = None \<longrightarrow> disconnected sh)"
proof -
  note d = fe_invD [OF fe_reach [OF assms(1)]]
  have z: "cnt P pcs = 0" if "\<not> P Fe_returned" for P using assms(2) that by (auto simp: cnt_zero_iff list_all_iff)
  have "concat (map fe_waiting pcs) = []" using assms(2) by (auto simp: list_all_iff)
  moreover have "f = Handed_back \<or> (\<exists>k. f = Sent k k)" if "(m, f) \<in> set (fates sh)" for m f
    using d(7) that by (cases f) (auto simp: fates_ok_def)
  ultimately show ?thesis using d(3,5,10) z [of fe_sender] z [of recovering] by (auto simp: idle_inv_def)
qed

text \<open>C32. Sending does not get stuck as long as no call starts between the last \<open>fetch_sub\<close> of an \<open>epipe\<close> and its
  \<open>set_state\<close>: in every state reached that way in which a call has not returned some thread can take a step, again
  without starting in that window; only a call on an accepted connection that broke stays where it is.\<close>

theorem front_end_progress:
  assumes "reach (fe_init client calls) (fe_step True) (pcs, sh)"
    "\<not> list_all (\<lambda>pc. pc = Fe_returned \<or> (\<not> client \<and> (\<exists>n. pc = Fe_stuck n))) pcs"
  shows "\<exists>i pc sh'. i < length pcs \<and> fe_step True (pcs, sh) (pcs[i := pc], sh') \<and> (pc, sh') \<in> set (fe_next i (pcs ! i) sh)"
proof -
  note d = fe_invD [OF fe_reach [OF assms(1)]]
  have go: ?thesis if "i < length pcs" "starting (pcs ! i) \<longrightarrow> cnt lagging pcs = 0" "fe_next i (pcs ! i) sh \<noteq> []" for i
    using fe_step.thread [OF that(1), of True "fst (hd (fe_next i (pcs ! i) sh))" "snd (hd (fe_next i (pcs ! i) sh))" sh] that
    by fastforce
  have spin: ?thesis if "i < length pcs" "fe_sender (pcs ! i)" "fe_weight (pcs ! i) sh = 0" "\<And>x j q. fe_queue sh = (x, j, True) # q \<Longrightarrow> fe_next i (pcs ! i) sh \<noteq> []" for i
  proof (cases "fe_queue sh")
    case Nil
    have "0 < cnt fe_pushing pcs" using d(4) [OF that(1,2)] that(3) Nil by (simp add: sender_inv_def)
    then obtain j where "j < length pcs" "fe_pushing (pcs ! j)" using cnt_zero_iff [of fe_pushing pcs] by (auto simp: list_all_length)
    then show ?thesis using go [of j] by (cases "pcs ! j") auto
  next
    case (Cons e q)
    obtain x j b where e: "e = (x, j, b)" by (metis surj_pair)
    show ?thesis
    proof (cases b)
      case True
      then show ?thesis using go [OF that(1)] that(2,4) Cons e by simp
    next
      case False
      then have "j < length pcs" "linking (pcs ! j)" using d(6) Cons e by (auto simp: unlinked_ok_def)
      then show ?thesis using go [of j] by (cases "pcs ! j") auto
    qed
  qed
  obtain i where i: "i < length pcs" "pcs ! i \<noteq> Fe_returned" "client \<or> (\<forall>n. pcs ! i \<noteq> Fe_stuck n)"
    using assms(2) by (auto simp: list_all_length)
  have nc: "pcs ! i \<noteq> Fe_crashed" using d(9) i(1) by (simp add: list_all_length)
  show ?thesis
  proof (cases "pcs ! i")
    case (Fe_start nb m)
    show ?thesis
    proof (cases "cnt lagging pcs = 0")
      case True
      then show ?thesis using go [OF i(1)] Fe_start by (simp add: Let_def)
    next
      case False
      then obtain j where "j < length pcs" "lagging (pcs ! j)" by (auto simp: cnt_zero_iff list_all_length)
      then show ?thesis using go [of j] by (cases "pcs ! j") auto
    qed
  next
    case (Fe_spin nb)
    then show ?thesis using spin [OF i(1)] by simp
  next
    case Fe_spin_epipe
    then show ?thesis using spin [OF i(1)] by simp
  next
    case (Fe_stuck n)
    then have "sender_ok (Fe_stuck n) sh" using d(4) [OF i(1)] by (simp add: sender_inv_def)
    then show ?thesis using Fe_stuck i(3) d(8) by simp
  qed (use go [OF i(1)] i nc in \<open>auto simp: Let_def split: option.split\<close>)
qed

text \<open>A schedule: which thread moves next, and to which of its successors.\<close>

fun fe_run :: "(nat \<times> nat) list \<Rightarrow> 'm fe_sys \<Rightarrow> 'm fe_sys option" where
  "fe_run [] s = Some s"
| "fe_run ((i, k) # sched) (pcs, sh) =
     (if i < length pcs \<and> k < length (fe_next i (pcs ! i) sh)
      then let (pc, sh') = fe_next i (pcs ! i) sh ! k in fe_run sched (pcs[i := pc], sh')
      else None)"

fun calm_run :: "(nat \<times> nat) list \<Rightarrow> 'm fe_sys \<Rightarrow> bool" where
  "calm_run [] s = True"
| "calm_run ((i, k) # sched) (pcs, sh) =
     ((starting (pcs ! i) \<longrightarrow> cnt lagging pcs = 0) \<and>
      (let (pc, sh') = fe_next i (pcs ! i) sh ! k in calm_run sched (pcs[i := pc], sh')))"

lemma fe_run_reach:
  "fe_run sched s = Some t \<Longrightarrow> calm \<longrightarrow> calm_run sched s \<Longrightarrow> reach (fe_init client calls) (fe_step calm) s \<Longrightarrow>
   reach (fe_init client calls) (fe_step calm) t"
proof (induction sched s rule: fe_run.induct)
  case (2 i k sched pcs sh)
  obtain pc sh' where n: "fe_next i (pcs ! i) sh ! k = (pc, sh')" by (cases "fe_next i (pcs ! i) sh ! k") auto
  then have r: "i < length pcs" "k < length (fe_next i (pcs ! i) sh)" "fe_run sched (pcs[i := pc], sh') = Some t"
    using 2(2) by (auto split: if_splits)
  then have "(pc, sh') \<in> set (fe_next i (pcs ! i) sh)" using n by (metis nth_mem)
  then have "fe_step calm (pcs, sh) (pcs[i := pc], sh')" using 2(3) r(1) by (intro fe_step.thread) auto
  then show ?case using 2(1) [OF _ n [symmetric] refl] 2(3) r n reach_step [OF 2(4)] by auto
qed simp

lemma fe_run_steps: "fe_run sched s = Some t \<Longrightarrow> (fe_step False)\<^sup>*\<^sup>* s t"
proof (induction sched s rule: fe_run.induct)
  case (2 i k sched pcs sh)
  obtain pc sh' where n: "fe_next i (pcs ! i) sh ! k = (pc, sh')" by (cases "fe_next i (pcs ! i) sh ! k") auto
  then have r: "i < length pcs" "k < length (fe_next i (pcs ! i) sh)" "fe_run sched (pcs[i := pc], sh') = Some t"
    using 2(2) by (auto split: if_splits)
  then have "(pc, sh') \<in> set (fe_next i (pcs ! i) sh)" using n by (metis nth_mem)
  then have "fe_step False (pcs, sh) (pcs[i := pc], sh')" using r(1) by (intro fe_step.thread) auto
  then show ?case using 2(1) [OF _ n [symmetric] refl] r n by (auto intro: converse_rtranclp_into_rtranclp)
qed simp

section \<open>The window of \<open>epipe\<close>\<close>

text \<open>
  Between the last \<open>fetch_sub\<close> of \<open>epipe\<close> and its \<open>set_state\<close> the counter is zero and the state is \<open>FRONTEND_EPIPE\<close>
  without \<open>FRONTEND_DISCONNECT\<close>. Connections are numbered in the order they were made.
\<close>

definition window_inv :: "'m fe_sys \<Rightarrow> bool" where
  "window_inv s \<longleftrightarrow> (case s of (pcs, sh) \<Rightarrow>
     (0 < cnt recovering pcs \<longrightarrow> \<not> disconnected sh) \<and> (\<forall>k. fe_socket sh = Some k \<longrightarrow> k < fe_connects sh))"

lemma connects_frame [simp]:
  "fe_connects (take_next sh) = fe_connects sh" "fe_flags (take_next sh) = fe_flags sh"
  "fe_connects (settle m f sh) = fe_connects sh" "fe_flags (settle m f sh) = fe_flags sh"
  by (cases rule: take_next_cases [of sh]; simp)+ (cases m; simp add: settle_def)+

lemma fe_next_flags:
  assumes "(pc, sh') \<in> set (fe_next i old sh)" "old \<noteq> Fe_disconnect"
  shows "\<not> disconnected sh' \<or> disconnected sh' = disconnected sh \<and> (recovering pc \<longrightarrow> recovering old)"
  using assms by (cases old)
    (auto simp: Let_def send_results_def after_send_def disconnected_def split: if_splits option.splits list.splits prod.splits bool.splits)

lemma fe_next_socket:
  assumes "(pc, sh') \<in> set (fe_next i old sh)" "\<forall>k. fe_socket sh = Some k \<longrightarrow> k < fe_connects sh"
  shows "\<forall>k. fe_socket sh' = Some k \<longrightarrow> k < fe_connects sh'"
  using assms by (cases old)
    (auto simp: Let_def send_results_def split: if_splits option.splits list.splits prod.splits bool.splits)

lemma window_step:
  assumes inv: "fe_inv client calls s" and w: "window_inv s" and st: "fe_step True s t"
  shows "window_inv t"
  using st
proof cases
  case (thread i pcs pc sh' sh)
  have sock: "\<forall>k. fe_socket sh' = Some k \<longrightarrow> k < fe_connects sh'"
    using fe_next_socket [OF thread(5)] w thread(1) by (simp add: window_inv_def)
  have c: "cnt recovering (pcs[i := pc]) + one_if (recovering (pcs ! i)) = cnt recovering pcs + one_if (recovering pc)"
    by (rule cnt_update_one_if [OF thread(3)])
  show ?thesis
  proof (cases "pcs ! i = Fe_disconnect")
    case True
    have "cnt recovering pcs \<le> cnt fe_sender pcs + cnt lagging pcs"
    proof (induction pcs)
      case (Cons x xs)
      have "recovering x \<longrightarrow> fe_sender x \<or> lagging x" by (cases x) auto
      then show ?case using Cons by (auto simp: cnt_def)
    qed (simp add: cnt_def)
    then have "cnt recovering pcs \<le> 1" using fe_invD(2) [of client calls pcs sh] inv thread(1) by simp
    then have "cnt recovering (pcs[i := pc]) = 0" using c True thread(5) by simp
    then show ?thesis using sock thread(2) by (simp add: window_inv_def)
  next
    case False
    then show ?thesis using fe_next_flags [OF thread(5) False] c sock w thread(1,2)
      by (cases "recovering pc"; cases "recovering (pcs ! i)") (auto simp: window_inv_def)
  qed
next
  case (closed sh pcs)
  then show ?thesis using w by (simp add: window_inv_def disconnected_def)
qed

lemma window_invariant:
  "inductive_invariant (fe_init client calls) (fe_step True) (\<lambda>s. fe_inv client calls s \<and> window_inv s)"
proof unfold_locales
  fix s :: "'a fe_sys"
  assume i: "fe_init client calls s"
  have "cnt recovering (map (\<lambda>(nonblock, m). Fe_start nonblock m) calls) = 0" by (auto simp: cnt_zero_iff list_all_iff)
  then have "window_inv s" using i by (simp add: window_inv_def fe_init_def split: if_splits)
  then show "fe_inv client calls s \<and> window_inv s" using fe_inv_init [OF i] by simp
qed (use fe_inv_steps window_step in blast)

lemmas window_reach = inductive_invariant.inv_reach [OF window_invariant]

lemma in_window:
  assumes "reach (fe_init client calls) (fe_step True) (pcs, sh)" "i < length pcs" "pcs ! i = Fe_disconnect"
  shows "fe_size sh = 0" "fe_queue sh = []" "\<not> disconnected sh" "fe_socket sh = Some k \<Longrightarrow> k < fe_connects sh"
proof -
  note w = window_reach [OF assms(1)]
  note d = fe_invD [OF conjunct1 [OF w]]
  have "0 < cnt lagging pcs" "0 < cnt recovering pcs"
    using cnt_pos [of i pcs lagging] cnt_pos [of i pcs recovering] assms(2,3) by simp_all
  then have "idle_inv (cnt fe_pushing pcs) sh" "\<not> disconnected sh" using d(2,3) w by (simp_all add: window_inv_def)
  then show "fe_size sh = 0" "fe_queue sh = []" "\<not> disconnected sh" by (simp_all add: idle_inv_def)
  show "k < fe_connects sh" if "fe_socket sh = Some k" using w that by (simp add: window_inv_def)
qed

text \<open>All the states that \<open>n\<close> steps of thread \<open>j\<close> alone can lead to.\<close>

fun fe_solo :: "nat \<Rightarrow> nat \<Rightarrow> 'm fe_sys \<Rightarrow> 'm fe_sys list" where
  "fe_solo 0 j s = [s]"
| "fe_solo (Suc n) j (pcs, sh) =
     concat (map (\<lambda>(pc, sh'). fe_solo n j (pcs[j := pc], sh')) (fe_next j (pcs ! j) sh))"

text \<open>C33. A call that starts while another thread is between the last \<open>fetch_sub\<close> of \<open>epipe\<close> and its \<open>set_state\<close>, in
  any state that can be reached without such a start: if the front end never had a socket, because its connects
  failed, the call always comes to use the missing socket when the other thread does not move first, whether it blocks
  or not; if it has the socket of the broken connection, a non-blocking call can send the first part of its message
  there and the rest on a new connection.\<close>

theorem front_end_window:
  assumes "reach (fe_init True calls) (fe_step True) (pcs, sh)" "i < length pcs" "pcs ! i = Fe_disconnect"
    "j < length pcs" "pcs ! j = Fe_start nonblock m"
  shows "case fe_socket sh of
      None \<Rightarrow> \<exists>sh'. fe_solo (if nonblock then 4 else 5) j (pcs, sh) = [(pcs[j := Fe_crashed], sh')]
    | Some k \<Rightarrow> nonblock \<longrightarrow>
        (\<exists>t k'. (fe_step False)\<^sup>*\<^sup>* (pcs, sh) t \<and> (m, Sent k k') \<in> set (fates (snd t)) \<and> k < k')"
proof -
  note w = in_window [OF assms(1-3)]
  note e = numeral_eq_Suc Let_def take_next_def w(1-3) assms(4,5)
  have d: "disconnected (sh\<lparr>fe_size := x, cur_msg := y, fe_more := b, it_next := z, fe_ticket := u\<rparr>) = disconnected sh" for x y b z u
    by (simp add: disconnected_def)
  show ?thesis
  proof (cases "fe_socket sh")
    case None
    then show ?thesis by (cases nonblock) (simp_all add: e d)
  next
    case (Some k)
    have ij: "i \<noteq> j" "j \<noteq> i" using assms(3,5) by auto
    let ?run = "[(j, 0), (j, 0), (j, 0), (j, 1), (i, 0), (j, 0), (j, 0), (j, 0)]"
    have "\<exists>t. fe_run ?run (pcs, sh) = Some t \<and> (m, Sent k (fe_connects sh)) \<in> set (fates (snd t))" if nonblock
      using that assms(2,3) ij
      by (simp add: e d Some send_results_def after_send_def nth_list_update settle_def disconnected_def [of "_\<lparr>fe_flags := _\<rparr>"])
    then show ?thesis using Some fe_run_steps w(4) by fastforce
  qed
qed

definition demo_calls :: "nat fe_sys" where
  "demo_calls = (map (\<lambda>(nonblock, m). Fe_start nonblock m) [(True, 10), (True, 20)],
     \<lparr>fe_size = 0, fe_queue = [], fe_flags = FRONTEND_DISCONNECT, fe_socket = None, fe_connects = 1, fe_client = True,
      cur_msg = None, sending_msg = None, fe_more = False, it_next = None, fates = [], fe_ticket = []\<rparr>)"

lemma demo_calls_reach: "reach (fe_init True [(True, 10), (True, 20)]) (fe_step calm) demo_calls"
  by (rule reach_init) (simp add: fe_init_def demo_calls_def)

text \<open>Thread 0, whose connect failed, is about to set the state; thread 1 has not started.\<close>

definition window_schedule :: "(nat \<times> nat) list" where
  "window_schedule = [(0, 0), (0, 0), (0, 0), (0, 1), (0, 0), (0, 0), (0, 0)]"

lemma window_schedule_run:
  "map_option (\<lambda>(pcs, sh). (pcs, fe_socket sh)) (fe_run window_schedule demo_calls) = Some ([Fe_disconnect, Fe_start True 20], None)"
  "calm_run window_schedule demo_calls"
  by code_simp+

theorem front_end_window_witness:
  "\<exists>pcs sh sh'. fe_run window_schedule demo_calls = Some (pcs, sh) \<and> fe_solo 4 1 (pcs, sh) = [([Fe_disconnect, Fe_crashed], sh')]"
proof -
  obtain pcs sh where r: "fe_run window_schedule demo_calls = Some (pcs, sh)" "pcs = [Fe_disconnect, Fe_start True 20]" "fe_socket sh = None"
    using window_schedule_run(1) by auto
  have "reach (fe_init True [(True, 10), (True, 20)]) (fe_step True) (pcs, sh)"
    using fe_run_reach [OF r(1) _ demo_calls_reach] window_schedule_run(2) by blast
  from front_end_window [OF this, of 0 1 True 20] r show ?thesis by simp
qed

section \<open>A closed connection\<close>

text \<open>
  The front end \<open>f\<close> for node \<open>r\<close> after the receiving thread found its connection closed, while the master still lists
  the node.
\<close>

definition dead :: "16 word \<Rightarrow> nat \<Rightarrow> 'b rpc_ctx \<Rightarrow> bool" where
  "dead r f c \<longleftrightarrow> ctx_inv c \<and> map_of (client_sockets c) r = Some f \<and> fe_state (frontends c f) = FRONTEND_EPIPE \<and>
     r \<notin> to_del_client_sockets c"

text \<open>
  What goes on around it: requests and responses at any time, messages and closed connections of any front end, new
  lists of services, and new lists of nodes that contain \<open>r\<close>.
\<close>

inductive traffic :: "16 word \<Rightarrow> 'b rpc_ctx \<Rightarrow> 'b rpc_ctx \<Rightarrow> bool" for r where
  request: "ctx_send_request now rand msg c = Inr (rank, c') \<Longrightarrow> traffic r c c'"
| response: "traffic r c (ctx_send_response now resp nonblock c)"
| event: "handle_message_event fd msgs alive c = Inr c' \<Longrightarrow> traffic r c c'"
| services: "update_service_info list c = Inr c' \<Longrightarrow> traffic r c c'"
| nodes: "r \<in> global_rank ` set list \<Longrightarrow> r \<in> global_rank ` set again \<Longrightarrow> update_comm_info now list again c = Inr c' \<Longrightarrow>
     traffic r c c'"

lemma dead_unavailable: "dead r f c \<Longrightarrow> \<not> fe_available now (frontends c f)"
  by (simp add: dead_def fe_available_def)

lemma dead_rank:
  assumes "dead r f c"
  shows "global_rank (fe_info (frontends c f)) = r" "is_client_socket (frontends c f)" "f < next_frontend c"
  using assms unfolding dead_def ctx_inv_def fes_ok_def socket_ok_def by blast+

lemma dead_same_rest: "dead r f c \<Longrightarrow> same_rest c c' \<Longrightarrow> ctx_inv c' \<Longrightarrow> dead r f c'"
  by (auto simp: dead_def same_rest_def)

lemma dead_delivers: "dead r f c \<Longrightarrow> delivers c c' \<Longrightarrow> dead r f c'"
  using dead_same_rest [of r f c c'] delivers_inv [of c c'] by (auto simp: dead_def delivers_def)

lemma remove_frontend_to_del:
  "remove_frontend p c = Inr c' \<Longrightarrow> remove_frontend_event p c = Inr c1 \<Longrightarrow>
   to_del_client_sockets c' = to_del_client_sockets c1"
  by (auto simp: remove_frontend_def Let_def split: if_splits)

lemma dead_event:
  assumes d: "dead r f c" and ev: "handle_message_event fd msgs alive c = Inr c'"
  shows "dead r f c'"
proof (cases "map_of (fd_map c) fd")
  case None
  then show ?thesis using d ev by (simp add: handle_message_event_def)
next
  case (Some g)
  have ci: "ctx_inv c" using d by (simp add: dead_def)
  have cur: "fd_current fd c" "fd \<in> set (socket_fds g c)"
    using handle_message_event_current [OF ev] Some by (simp_all add: fd_current_def)
  have inv': "ctx_inv c'" using handle_message_event_ok [OF ci cur(1), of msgs alive] ev by auto
  from push_messages_ok [OF ci, of msgs] obtain c1 where c1: "push_messages msgs c = Inr c1" "delivers c c1" by blast
  have d1: "dead r f c1" by (rule dead_delivers [OF d c1(2)])
  then have "fes_ok c1" by (simp add: dead_def ctx_inv_def)
  from remove_frontend_event_ok [OF this, of g] obtain c2 where
    c2: "remove_frontend_event g c1 = Inr c2" "fes_ok c2" "only_events c1 c2" by blast
  define c3 where "c3 = set_fe_state g FRONTEND_EPIPE c2"
  have f3: "fes_ok c3" unfolding c3_def using set_fe_state_ok [OF c2(2)] by blast
  note e = c2(3) [unfolded only_events_def]
  have e3: "client_sockets c3 = client_sockets c1" "to_del_client_sockets c3 = to_del_client_sockets c1"
      "frontends c3 = (frontends c1)(g := (frontends c1 g)\<lparr>fe_state := FRONTEND_EPIPE\<rparr>)"
    using arg_cong [OF e, of client_sockets] arg_cong [OF e, of to_del_client_sockets] arg_cong [OF e, of frontends]
    by (simp_all add: c3_def set_fe_state_def set_frontend_def)
  have s3: "fe_state (frontends c3 f) = FRONTEND_EPIPE" "map_of (client_sockets c3) r = Some f" "r \<notin> to_del_client_sockets c3"
    using d1 by (simp_all add: dead_def e3)
  show ?thesis
  proof (cases "alive \<or> global_rank (fe_info (frontends c3 g)) \<notin> to_del_client_sockets c3")
    case True
    then have "c' = c1 \<or> c' = c3" using ev Some cur(2) c1(1) c2(1) by (auto simp: handle_message_event_def c3_def Let_def split: if_splits)
    then show ?thesis using d1 s3 inv' by (auto simp: dead_def)
  next
    case False
    then have rm: "remove_frontend g c3 = Inr c'" using ev Some cur(2) c1(1) c2(1) by (auto simp: handle_message_event_def c3_def Let_def)
    from remove_frontend_event_ok [OF f3, of g] obtain c4 where c4: "remove_frontend_event g c3 = Inr c4" "only_events c3 c4" by blast
    have "to_del_client_sockets c4 = to_del_client_sockets c3"
      using arg_cong [OF c4(2) [unfolded only_events_def], of to_del_client_sockets] by simp
    then have t: "to_del_client_sockets c' = to_del_client_sockets c3" using remove_frontend_to_del [OF rm c4(1)] by simp
    have ne: "global_rank (fe_info (frontends c3 g)) \<noteq> r" using False s3(3) by auto
    from remove_frontend_ok [OF f3, of g] rm have "frontends c' = frontends c3" "map_of (client_sockets c') r = map_of (client_sockets c3) r"
      using ne by (auto simp: Let_def split: if_splits)
    then show ?thesis using s3 t inv' by (simp add: dead_def)
  qed
qed

lemma dead_nodes:
  assumes d: "dead r f c" and r: "r \<in> global_rank ` set list" "r \<in> global_rank ` set again"
    and u: "update_comm_info now list again c = Inr c'"
  shows "dead r f c'"
proof -
  note rk = dead_rank [OF d]
  have ok: "fes_ok c" using d by (simp add: dead_def ctx_inv_def)
  obtain known del1 where kd: "(if stale list (server_sockets c) c = [] then (list, [])
      else (again, stale again (server_sockets c) c)) = (known, del1)" by (metis surj_pair)
  let ?del = "del1 @ stale known (client_sockets c) c"
  have nr: "fe_rank c p \<noteq> r" if "p \<in> set ?del" for p
    using that kd r by (auto simp: stale_def fe_rank_def split: if_splits)
  from remove_stale_ok [OF ok, of now ?del] obtain c1 where
    c1: "remove_stale now ?del c = Inr c1" "fes_ok c1" "fe_frame c c1" "frontends c1 = frontends c"
      "to_del_client_sockets c1 = to_del_client_sockets c \<union> fe_rank c ` {p \<in> set ?del. fe_available now (frontends c p)}"
      "map_of (client_sockets c1) r = map_of (client_sockets c) r"
    using nr by fastforce
  have c': "c' = add_clients (filter (\<lambda>i. map_of (client_sockets c1) (global_rank i) = None) list) c1"
    using u kd c1(1) by (simp add: update_comm_info_def Let_def)
  note a = add_clients_ok [OF c1(2), of "filter (\<lambda>i. map_of (client_sockets c1) (global_rank i) = None) list", folded c']
  have "f < next_frontend c1" using rk(3) c1(3) by (simp add: fe_frame_def)
  then have "frontends c' f = frontends c f" using a c1(4) by simp
  moreover have "map_of (client_sockets c') r = Some f" using a c1(6) d by (simp add: dead_def)
  moreover have "r \<notin> to_del_client_sockets c'" using a c1(5) d nr by (auto simp: dead_def)
  moreover have "ctx_inv c'" using fe_frame_inv [OF fe_frame_trans [OF c1(3)]] a d by (auto simp: dead_def)
  ultimately show ?thesis using d by (simp add: dead_def)
qed

lemma dead_services:
  assumes d: "dead r f c" and u: "update_service_info list c = Inr c'"
  shows "dead r f c'"
proof -
  let ?t = "service_table list c"
  let ?c = "c\<lparr>rpc_info := ?t, rpc_server_info := [], rpc_server_frontend := [], rpc_server_id_frontend := []\<rparr>"
  have "tables_of (all_servers ?t) ?c c'" using update_service_info_spec [of list c] u by auto
  then obtain a x b where "c' = ?c\<lparr>rpc_server_info := a, rpc_server_frontend := x, rpc_server_id_frontend := b\<rparr>"
    by (auto simp: tables_of_def same_frontends_def)
  moreover have "ctx_inv c'" using update_service_info_inv [OF _ u] d by (simp add: dead_def)
  ultimately show ?thesis using d by (simp add: dead_def)
qed

lemma dead_traffic:
  assumes "dead r f c" "traffic r c c'"
  shows "dead r f c'"
  using assms(2)
proof cases
  case (request now rand msg rank)
  have "ctx_inv c" using assms(1) by (simp add: dead_def)
  from ctx_send_request_ok [OF this, of now rand msg] request show ?thesis using dead_delivers [OF assms(1)] by auto
next
  case (response now resp nonblock)
  have "backend_ok c" using assms(1) by (simp add: dead_def ctx_inv_def)
  from ctx_send_response_delivers [OF this] response show ?thesis using dead_delivers [OF assms(1)] by auto
qed (use assms(1) dead_event dead_nodes dead_services in blast)+

lemma event_kills:
  assumes "ctx_inv c" "map_of (fd_map c) fd = Some f" "map_of (client_sockets c) r = Some f" "r \<notin> to_del_client_sockets c"
    "handle_message_event fd msgs False c = Inr c1"
  shows "dead r f c1"
proof -
  from push_messages_ok [OF assms(1), of msgs] obtain d1 where d1: "push_messages msgs c = Inr d1" "delivers c d1" by blast
  then have i1: "ctx_inv d1" using delivers_inv assms(1) by blast
  have s1: "client_sockets d1 = client_sockets c" "to_del_client_sockets d1 = to_del_client_sockets c"
    using d1(2) by (auto simp: delivers_def same_rest_def)
  have k: "global_rank (fe_info (frontends d1 f)) = r"
    using i1 assms(3) unfolding s1(1) [symmetric] by (simp add: ctx_inv_def fes_ok_def socket_ok_def)
  have "fes_ok d1" using i1 by (simp add: ctx_inv_def)
  from remove_frontend_event_ok [OF this, of f] obtain d2 where
    d2: "remove_frontend_event f d1 = Inr d2" "only_events d1 d2" by blast
  note e = d2(2) [unfolded only_events_def]
  have e2: "client_sockets d2 = client_sockets d1" "to_del_client_sockets d2 = to_del_client_sockets d1" "frontends d2 = frontends d1"
    using arg_cong [OF e, of client_sockets] arg_cong [OF e, of to_del_client_sockets] arg_cong [OF e, of frontends] by simp_all
  have cur: "fd_current fd c" "fd \<in> set (socket_fds f c)"
    using handle_message_event_current [OF assms(5)] assms(2) by (simp_all add: fd_current_def)
  have "c1 = set_fe_state f FRONTEND_EPIPE d2"
    using assms(2,4,5) cur(2) d1(1) d2(1) k by (simp add: handle_message_event_def Let_def set_fe_state_def set_frontend_def e2 s1)
  moreover have "ctx_inv c1" using handle_message_event_ok [OF assms(1) cur(1), of msgs False] assms(5) by auto
  ultimately show ?thesis using assms(3,4) by (simp add: dead_def set_fe_state_def set_frontend_def e2 s1)
qed

text \<open>Once the receiving thread has seen a connection to another node closed, the node is never reached again as
  long as the master lists it: whatever traffic follows, however much time passes, every request for that node is
  answered with \<open>ENOSUCHSERVER\<close>, because \<open>FRONTEND_EPIPE\<close> alone is never available and only a sender could
  reconnect.\<close>

theorem closed_connection_is_final:
  assumes "ctx_inv c" "map_of (fd_map c) fd = Some f" "map_of (client_sockets c) r = Some f" "r \<notin> to_del_client_sockets c"
    "handle_message_event fd msgs False c = Inr c1" "(traffic r)\<^sup>*\<^sup>* c1 c2" "sid h = -1" "dest_rank h = r" "r \<noteq> -1"
  shows "ctx_send_request now rand (h, b) c2 =
    rbind (push_response ((response_head h)\<lparr>error_code := ENOSUCHSERVER\<rparr>, None) c2) (\<lambda>c3. Inr (-1, c3))"
proof -
  have "dead r f c1" by (rule event_kills [OF assms(1-5)])
  with assms(6) have d2: "dead r f c2" by (induction rule: rtranclp_induct) (auto intro: dead_traffic)
  then have "get_client_frontend_by_rank now r c2 = None"
    using dead_unavailable [of r f c2 now] by (simp add: get_client_frontend_by_rank_def if_available_def dead_def)
  then show ?thesis using assms(7,8,9) by (simp add: ctx_send_request_def choose_frontend_def)
qed

section \<open>Witnesses\<close>

text \<open>Thread 1 queues its message while thread 0 connects; thread 0 sends both.\<close>

definition demo_sends :: "(nat \<times> nat) list" where
  "demo_sends = [(0, 0), (1, 0), (1, 0), (1, 0)] @ replicate 10 (0, 0)"

lemma demo_sends_run:
  "map_option fst (fe_run demo_sends demo_calls) = Some [Fe_returned, Fe_returned]" "calm_run demo_sends demo_calls"
  "map_option fst (fe_run (take 10 demo_sends) demo_calls) = Some [Fe_loop False 1, Fe_returned]" "calm_run (take 10 demo_sends) demo_calls"
  by code_simp+

theorem front_end_settles_all_witness:
  "\<exists>pcs sh. fe_run demo_sends demo_calls = Some (pcs, sh) \<and> mset (map fst (fates sh)) = {#10, 20#}"
proof -
  obtain pcs sh where r: "fe_run demo_sends demo_calls = Some (pcs, sh)" "pcs = [Fe_returned, Fe_returned]"
    using demo_sends_run(1) by auto
  have "reach (fe_init True [(True, 10), (True, 20)]) (fe_step True) (pcs, sh)"
    using fe_run_reach [OF r(1) _ demo_calls_reach] demo_sends_run(2) by blast
  from front_end_settles_all [OF this] r show ?thesis by auto
qed

lemma demo_half:
  obtains pcs sh where "fe_run (take 10 demo_sends) demo_calls = Some (pcs, sh)" "pcs = [Fe_loop False 1, Fe_returned]"
    "reach (fe_init True [(True, 10), (True, 20)]) (fe_step True) (pcs, sh)"
proof -
  obtain pcs sh where r: "fe_run (take 10 demo_sends) demo_calls = Some (pcs, sh)" "pcs = [Fe_loop False 1, Fe_returned]"
    using demo_sends_run(3) by auto
  have "reach (fe_init True [(True, 10), (True, 20)]) (fe_step True) (pcs, sh)"
    using fe_run_reach [OF r(1) _ demo_calls_reach] demo_sends_run(4) by blast
  then show thesis using r by (rule that [rotated 2])
qed

theorem front_end_order_witness:
  "\<exists>pcs sh. fe_run (take 10 demo_sends) demo_calls = Some (pcs, sh) \<and> cnt fe_sender pcs = 1 \<and> prefix (map fst (fates sh)) (fe_ticket sh)"
proof (rule demo_half)
  fix pcs and sh :: "nat fe_shared"
  assume "fe_run (take 10 demo_sends) demo_calls = Some (pcs, sh)" "pcs = [Fe_loop False 1, Fe_returned]"
    and r: "reach (fe_init True [(True, 10), (True, 20)]) (fe_step True) (pcs, sh)"
  then show ?thesis using front_end_order [OF r] by (auto simp: cnt_def)
qed

theorem front_end_progress_witness:
  "\<exists>pcs sh i pc sh'. fe_run (take 10 demo_sends) demo_calls = Some (pcs, sh) \<and> i < length pcs \<and> fe_step True (pcs, sh) (pcs[i := pc], sh')"
proof (rule demo_half)
  fix pcs and sh :: "nat fe_shared"
  assume "fe_run (take 10 demo_sends) demo_calls = Some (pcs, sh)" "pcs = [Fe_loop False 1, Fe_returned]"
    and r: "reach (fe_init True [(True, 10), (True, 20)]) (fe_step True) (pcs, sh)"
  then show ?thesis using front_end_progress [OF r] by auto
qed

text \<open>A node with a connection to node 1 through descriptor 7, which is then closed.\<close>

definition demo_conn :: "nat rpc_ctx" where
  "demo_conn = (case frontend_connected 1 [7] demo_ctx of Inr c \<Rightarrow> c | Inl _ \<Rightarrow> demo_ctx)"

lemma demo_conn_facts:
  "ctx_inv demo_conn" "map_of (fd_map demo_conn) 7 = Some 1" "map_of (client_sockets demo_conn) 1 = Some 1"
  "1 \<notin> to_del_client_sockets demo_conn" "fd_current 7 demo_conn"
proof -
  have ok: "fes_ok demo_ctx" using demo_ctx_inv by (simp add: ctx_inv_def)
  have lt: "1 < next_frontend demo_ctx" by (simp add: demo_ctx_defs)
  from frontend_connected_ok [OF ok lt, of "[7]"] obtain c where
    c: "frontend_connected 1 [7] demo_ctx = Inr c" "fes_ok c" "fe_frame demo_ctx c" "client_sockets c = client_sockets demo_ctx" by blast
  then have e: "demo_conn = c" by (simp add: demo_conn_def)
  show "ctx_inv demo_conn" using fe_frame_inv [OF c(3) demo_ctx_inv c(2)] e by simp
  show "map_of (client_sockets demo_conn) 1 = Some 1" using c(4) by (simp add: e demo_ctx_sockets)
  show "map_of (fd_map demo_conn) 7 = Some 1" "1 \<notin> to_del_client_sockets demo_conn" "fd_current 7 demo_conn"
    by (simp_all add: demo_conn_def frontend_connected_def add_frontend_event_def add_event_def set_fe_state_def demo_ctx_defs
        fd_current_def socket_fds_def Let_def)
qed

theorem closed_connection_is_final_witness:
  "\<exists>c1. handle_message_event 7 [] False demo_conn = Inr c1 \<and>
     ctx_send_request (10 ^ 18) 0 (rpc_head_new\<lparr>sid := -1, dest_rank := 1\<rparr>, None) c1 =
       rbind (push_response ((response_head (rpc_head_new\<lparr>sid := -1, dest_rank := 1\<rparr>))\<lparr>error_code := ENOSUCHSERVER\<rparr>, None) c1)
         (\<lambda>c3. Inr (-1, c3))"
proof -
  obtain c1 where c1: "handle_message_event 7 [] False demo_conn = Inr c1"
    using handle_message_event_ok [OF demo_conn_facts(1,5), of "[]" False] by blast
  show ?thesis using closed_connection_is_final [OF demo_conn_facts(1-4) c1 rtranclp.rtrancl_refl] c1 by simp
qed

end
