(* ===== verification/Lexical_Cast.thy ===== *)
theory Lexical_Cast
  imports Master_Tree "HOL-Library.Word"
begin

text \<open>
  Casts of strings to integers and booleans, \<open>src/common/pico_lexical_cast.h\<close>.

  A \<open>const char*\<close> is \<open>None\<close> for a null pointer and otherwise the characters before the terminating zero. The
  exceptions are the values of \<open>cast_error\<close>. An integer of width \<open>w\<close> is a \<open>w word\<close>, and an assignment to a narrower
  type keeps the low bits, as the compilers the code is built with do. \<open>strtol\<close> and \<open>strtoul\<close> are the functions
  of the C library on a 64-bit system in base 10: value, number of characters read, and whether \<open>errno\<close> is
  \<open>ERANGE\<close>. The casts to floating point numbers are left out.
\<close>

section \<open>Reading digits\<close>

definition is_digit :: "char \<Rightarrow> bool" where
  "is_digit c \<longleftrightarrow> c \<in> set ''0123456789''"

definition digit_val :: "char \<Rightarrow> nat" where
  "digit_val c = length (takeWhile (\<lambda>d. d \<noteq> c) ''0123456789'')"

definition digits_val :: "string \<Rightarrow> nat" where
  "digits_val s = foldl (\<lambda>a c. 10 * a + digit_val c) 0 s"

definition is_space :: "char \<Rightarrow> bool" where
  "is_space c \<longleftrightarrow> c \<in> {CHR '' '', CHR 0x09, CHR 0x0A, CHR 0x0B, CHR 0x0C, CHR 0x0D}"

text \<open>Sign and digits from the start of a string that does not start with white space.\<close>

definition scan :: "string \<Rightarrow> int \<times> nat" where
  "scan s =
     (let (neg, n, r) = (if s \<noteq> [] \<and> hd s = CHR ''-'' then (True, 1, tl s)
                         else if s \<noteq> [] \<and> hd s = CHR ''+'' then (False, 1, tl s) else (False, 0, s));
          ds = takeWhile is_digit r
      in if ds = [] then (0, 0) else (if neg then - int (digits_val ds) else int (digits_val ds), n + length ds))"

text \<open>Both functions skip white space first; with no digits after it nothing is read.\<close>

definition scan_skip :: "string \<Rightarrow> int \<times> nat" where
  "scan_skip s = (let (v, n) = scan (dropWhile is_space s)
     in if n = 0 then (0, 0) else (v, length (takeWhile is_space s) + n))"

definition strtol :: "string \<Rightarrow> int \<times> nat \<times> bool" where
  "strtol s =
     (let (v, n) = scan_skip s
      in if v < - (2 ^ 63) then (- (2 ^ 63), n, True) else if 2 ^ 63 - 1 < v then (2 ^ 63 - 1, n, True) else (v, n, False))"

definition strtoul :: "string \<Rightarrow> int \<times> nat \<times> bool" where
  "strtoul s = (let (v, n) = scan_skip s in if 2 ^ 64 \<le> \<bar>v\<bar> then (2 ^ 64 - 1, n, True) else (v mod 2 ^ 64, n, False))"

section \<open>Checks\<close>

datatype cast_error = Null_pointer | Leading_space | Too_short | Is_negative | No_digits | Unused_char | Out_of_range | Bad_bool

definition cbind :: "cast_error + 'a \<Rightarrow> ('a \<Rightarrow> cast_error + 'b) \<Rightarrow> cast_error + 'b" where
  "cbind r f = (case r of Inl e \<Rightarrow> Inl e | Inr x \<Rightarrow> f x)"

definition precheck :: "string option \<Rightarrow> nat \<Rightarrow> cast_error + string" where
  "precheck p count =
     (case p of
        None \<Rightarrow> Inl Null_pointer
      | Some s \<Rightarrow>
          if s \<noteq> [] \<and> is_space (hd s) then Inl Leading_space
          else if 0 < count \<and> length s < count then Inl Too_short else Inr s)"

definition prechecku :: "string option \<Rightarrow> nat \<Rightarrow> cast_error + string" where
  "prechecku p count =
     cbind (precheck p count) (\<lambda>s. if s \<noteq> [] \<and> hd s = CHR ''-'' then Inl Is_negative else Inr s)"

definition aftcheck :: "string \<Rightarrow> nat \<Rightarrow> bool \<Rightarrow> nat \<Rightarrow> cast_error + unit" where
  "aftcheck s pos erange count =
     (if pos = 0 then Inl No_digits
      else if 0 < count \<and> pos \<noteq> count \<or> count = 0 \<and> pos < length s then Inl Unused_char
      else if erange then Inl Out_of_range else Inr ())"

definition range_check :: "int \<Rightarrow> int \<Rightarrow> int \<Rightarrow> cast_error + unit" where
  "range_check lo hi num = (if num < lo \<or> hi < num then Inl Out_of_range else Inr ())"

definition strntox :: "(string \<Rightarrow> int \<times> nat \<times> bool) \<Rightarrow> string \<Rightarrow> nat \<Rightarrow> int \<times> nat \<times> bool" where
  "strntox func s num = (if 0 < num \<and> num < length s \<and> \<not> is_space (s ! num) then func (take num s) else func s)"

section \<open>Casts\<close>

definition cast_uint8 :: "string option \<Rightarrow> nat \<Rightarrow> cast_error + 8 word" where
  "cast_uint8 p count =
     cbind (prechecku p count) (\<lambda>s.
       let (v, pos, er) = strntox strtoul s count; ret = (word_of_int v :: 32 word)
       in cbind (aftcheck s pos er count) (\<lambda>_. cbind (range_check 0 255 (uint ret)) (\<lambda>_. Inr (ucast ret))))"

definition cast_uint16 :: "string option \<Rightarrow> nat \<Rightarrow> cast_error + 16 word" where
  "cast_uint16 p count =
     cbind (prechecku p count) (\<lambda>s.
       let (v, pos, er) = strntox strtoul s count; ret = (word_of_int v :: 32 word)
       in cbind (aftcheck s pos er count) (\<lambda>_. cbind (range_check 0 65535 (uint ret)) (\<lambda>_. Inr (ucast ret))))"

definition cast_uint32 :: "string option \<Rightarrow> nat \<Rightarrow> cast_error + 32 word" where
  "cast_uint32 p count =
     cbind (prechecku p count) (\<lambda>s.
       let (v, pos, er) = strntox strtoul s count
       in cbind (aftcheck s pos er count) (\<lambda>_. Inr (word_of_int v)))"

definition cast_uint64 :: "string option \<Rightarrow> nat \<Rightarrow> cast_error + 64 word" where
  "cast_uint64 p count =
     cbind (prechecku p count) (\<lambda>s.
       let (v, pos, er) = strntox strtoul s count
       in cbind (aftcheck s pos er count) (\<lambda>_. Inr (word_of_int v)))"

definition cast_int8 :: "string option \<Rightarrow> nat \<Rightarrow> cast_error + 8 word" where
  "cast_int8 p count =
     cbind (precheck p count) (\<lambda>s.
       let (v, pos, er) = strntox strtol s count; ret = (word_of_int v :: 32 word)
       in cbind (aftcheck s pos er count) (\<lambda>_. cbind (range_check (-128) 127 (sint ret)) (\<lambda>_. Inr (ucast ret))))"

text \<open>Here the range is checked before the end of the number.\<close>

definition cast_int16 :: "string option \<Rightarrow> nat \<Rightarrow> cast_error + 16 word" where
  "cast_int16 p count =
     cbind (precheck p count) (\<lambda>s.
       let (v, pos, er) = strntox strtol s count; ret = (word_of_int v :: 32 word)
       in cbind (range_check (-32768) 32767 (sint ret)) (\<lambda>_. cbind (aftcheck s pos er count) (\<lambda>_. Inr (ucast ret))))"

definition cast_int32 :: "string option \<Rightarrow> nat \<Rightarrow> cast_error + 32 word" where
  "cast_int32 p count =
     cbind (precheck p count) (\<lambda>s.
       let (v, pos, er) = strntox strtol s count
       in cbind (aftcheck s pos er count) (\<lambda>_. Inr (word_of_int v)))"

definition cast_int64 :: "string option \<Rightarrow> nat \<Rightarrow> cast_error + 64 word" where
  "cast_int64 p count =
     cbind (precheck p count) (\<lambda>s.
       let (v, pos, er) = strntox strtol s count
       in cbind (aftcheck s pos er count) (\<lambda>_. Inr (word_of_int v)))"

definition cast_bool :: "string option \<Rightarrow> nat \<Rightarrow> cast_error + bool" where
  "cast_bool p count =
     (case p of
        None \<Rightarrow> Inl Null_pointer
      | Some s \<Rightarrow>
          let actual_len = (if 0 < count then count else length s)
          in if actual_len = 1 then Inr (take 1 s \<noteq> ''0'')
             else if actual_len = 4 \<and> (take 4 s = ''True'' \<or> take 4 s = ''true'') then Inr True
             else if actual_len = 5 \<and> (take 5 s = ''False'' \<or> take 5 s = ''false'') then Inr False
             else Inl Bad_bool)"

definition bool_string :: "bool \<Rightarrow> string" where
  "bool_string b = (if b then ''true'' else ''false'')"

text \<open>The two wrappers that catch the exceptions.\<close>

definition pico_lexical_cast :: "cast_error + 'a \<Rightarrow> 'a option" where
  "pico_lexical_cast r = (case r of Inl e \<Rightarrow> None | Inr t \<Rightarrow> Some t)"

definition pico_lexical_cast_check :: "cast_error + 'a \<Rightarrow> 'a res" where
  "pico_lexical_cast_check r = (case pico_lexical_cast r of None \<Rightarrow> Inl Check_failed | Some t \<Rightarrow> Inr t)"

section \<open>Decimal numbers\<close>

lemma cbind_simps [simp]: "cbind (Inl e) f = Inl e" "cbind (Inr x) f = f x"
  by (simp_all add: cbind_def)

lemma last_digit:
  "(n :: nat) mod 10 = 0 \<or> n mod 10 = 1 \<or> n mod 10 = 2 \<or> n mod 10 = 3 \<or> n mod 10 = 4 \<or> n mod 10 = 5 \<or> n mod 10 = 6 \<or>
   n mod 10 = 7 \<or> n mod 10 = 8 \<or> n mod 10 = 9"
  by arith

lemma digit_val_digit: "digit_val (dec_digit n) = n mod 10"
  using last_digit [of n] by (elim disjE) (simp_all add: digit_val_def dec_digit_def)

lemma is_digit_dec: "is_digit (dec_digit n)"
  using last_digit [of n] by (elim disjE) (simp_all add: is_digit_def dec_digit_def)

lemma digits_val_snoc: "digits_val (s @ [c]) = 10 * digits_val s + digit_val c"
  by (simp add: digits_val_def)

lemma dec_string_val: "digits_val (dec_string n) = n \<and> list_all is_digit (dec_string n) \<and> dec_string n \<noteq> []"
proof (induction n rule: dec_string.induct)
  case (1 n)
  show ?case
  proof (cases "n < 10")
    case True
    have "digits_val [dec_digit n] = n" using digits_val_snoc [of "[]" "dec_digit n"] True
      by (simp add: digit_val_digit) (simp add: digits_val_def)
    then show ?thesis using True by (subst (1 2 3) dec_string.simps) (simp add: is_digit_dec)
  next
    case False
    then show ?thesis using 1 by (subst (1 2 3) dec_string.simps) (simp add: digits_val_snoc digit_val_digit is_digit_dec)
  qed
qed

lemma digit_not_sign: "is_digit c \<Longrightarrow> c \<noteq> CHR ''-'' \<and> c \<noteq> CHR ''+'' \<and> \<not> is_space c"
  by (auto simp: is_digit_def is_space_def)

lemma to_string_head: "to_string i \<noteq> []" "\<not> is_space (hd (to_string i))" "hd (to_string i) = CHR ''-'' \<longleftrightarrow> i < 0"
proof -
  have d: "is_digit (hd (dec_string n))" for n using dec_string_val [of n] by (cases "dec_string n") auto
  show "to_string i \<noteq> []" "\<not> is_space (hd (to_string i))" "hd (to_string i) = CHR ''-'' \<longleftrightarrow> i < 0"
    using d digit_not_sign dec_string_val by (auto simp: to_string_def is_space_def)
qed

text \<open>The reference: an optional sign and at least one digit, and nothing else.\<close>

definition decimal :: "string \<Rightarrow> int option" where
  "decimal s =
     (let ds = (if s \<noteq> [] \<and> hd s \<in> {CHR ''-'', CHR ''+''} then tl s else s)
      in if ds = [] \<or> \<not> list_all is_digit ds then None
         else Some (if hd s = CHR ''-'' then - int (digits_val ds) else int (digits_val ds)))"

lemma takeWhile_all: "list_all P xs \<Longrightarrow> takeWhile P xs = xs"
  by (induction xs) auto

lemma takeWhile_eq_all: "length (takeWhile P xs) = length xs \<longleftrightarrow> list_all P xs"
proof (induction xs)
  case (Cons x xs)
  show ?case using Cons by simp
qed simp

text \<open>\<open>scan\<close> reads the longest prefix that is a number.\<close>

lemma scan_sign:
  fixes s
  defines "ds \<equiv> (if s \<noteq> [] \<and> hd s \<in> {CHR ''-'', CHR ''+''} then tl s else s)"
  shows "scan s = (if takeWhile is_digit ds = [] then (0, 0)
      else (if hd s = CHR ''-'' \<and> s \<noteq> [] then - int (digits_val (takeWhile is_digit ds)) else int (digits_val (takeWhile is_digit ds)),
            length s - length ds + length (takeWhile is_digit ds)))"
  by (cases s) (auto simp: scan_def ds_def Let_def)

lemma scan_prefix:
  assumes "decimal t = Some v" "r = [] \<or> \<not> is_digit (hd r)"
  shows "scan (t @ r) = (v, length t)" "t \<noteq> []" "\<not> is_space (hd t)"
proof -
  define ds where "ds = (if t \<noteq> [] \<and> hd t \<in> {CHR ''-'', CHR ''+''} then tl t else t)"
  have ds: "ds \<noteq> []" "list_all is_digit ds" "v = (if hd t = CHR ''-'' then - int (digits_val ds) else int (digits_val ds))"
    using assms(1) by (auto simp: decimal_def ds_def Let_def split: if_splits)
  show t: "t \<noteq> []" using ds(1) by (auto simp: ds_def)
  show "\<not> is_space (hd t)" using ds t digit_not_sign [of "hd t"] by (cases t) (auto simp: ds_def is_space_def split: if_splits)
  have e: "(if t @ r \<noteq> [] \<and> hd (t @ r) \<in> {CHR ''-'', CHR ''+''} then tl (t @ r) else t @ r) = ds @ r" "hd (t @ r) = hd t"
    using t by (auto simp: ds_def)
  have "takeWhile is_digit (ds @ r) = ds" using ds(2) assms(2) by (cases r) (auto simp: takeWhile_append2 list_all_iff)
  moreover have "length (t @ r) - length (ds @ r) + length ds = length t" by (auto simp: ds_def)
  ultimately show "scan (t @ r) = (v, length t)" using scan_sign [of "t @ r", unfolded e(1)] e(2) ds t by simp
qed

lemma scan_decimal:
  assumes "0 < snd (scan s)"
  shows "decimal (take (snd (scan s)) s) = Some (fst (scan s))" "snd (scan s) \<le> length s"
proof -
  define ds where "ds = (if s \<noteq> [] \<and> hd s \<in> {CHR ''-'', CHR ''+''} then tl s else s)"
  define n where "n = length s - length ds"
  let ?d = "takeWhile is_digit ds"
  have sc: "?d \<noteq> []" "scan s = (if hd s = CHR ''-'' then - int (digits_val ?d) else int (digits_val ?d), n + length ?d)"
    using assms scan_sign [of s, folded ds_def n_def] by (auto simp: ds_def split: if_splits)
  have s: "s = take n s @ ds" "n \<le> length s" "n = 0 \<or> n = 1 \<and> hd s \<in> {CHR ''-'', CHR ''+''}" "s \<noteq> []"
    using sc(1) by (cases s; auto simp: n_def ds_def)+
  have d: "ds = ?d @ dropWhile is_digit ds" "list_all is_digit ?d" by (auto simp: list_all_iff dest: set_takeWhileD)
  have tk: "take (n + length ?d) s = take n s @ ?d" using s(1,2) d(1)
    by (metis append_eq_conv_conj length_append length_take min.absorb2 append.assoc)
  show "snd (scan s) \<le> length s" using sc(2) s(2) length_takeWhile_le [of is_digit ds] by (simp add: n_def ds_def)
  have h: "hd (take n s @ ?d) = hd s" using s sc(1) d(1) by (metis append_is_Nil_conv hd_append2 append.assoc)
  have "(if take n s @ ?d \<noteq> [] \<and> hd (take n s @ ?d) \<in> {CHR ''-'', CHR ''+''} then tl (take n s @ ?d) else take n s @ ?d) = ?d"
    using s(3,4) h sc(1) by (cases s) (auto simp: n_def ds_def)
  then show "decimal (take (snd (scan s)) s) = Some (fst (scan s))"
    using sc d(2) h tk by (simp add: decimal_def Let_def)
qed

lemma decimal_to_string: "decimal (to_string i) = Some i"
proof (cases "i < 0")
  case True
  then show ?thesis using dec_string_val [of "nat (- i)"] by (simp add: decimal_def to_string_def)
next
  case False
  have "is_digit (hd (dec_string (nat i)))" using dec_string_val [of "nat i"] by (cases "dec_string (nat i)") auto
  then show ?thesis using False digit_not_sign dec_string_val [of "nat i"] by (auto simp: decimal_def to_string_def)
qed

section \<open>Properties\<close>

text \<open>What a cast without \<open>count\<close> makes of a string: the number, if it is one and in the range of the C function.\<close>

lemma signed_cast:
  "precheck (Some s) 0 = Inr s' \<Longrightarrow> s' = s" "\<not> is_space (hd s) \<or> s = [] \<Longrightarrow> precheck (Some s) 0 = Inr s"
  by (auto simp: precheck_def split: if_splits)

lemma scan_skip_prefix:
  assumes "decimal t = Some v" "r = [] \<or> \<not> is_digit (hd r)"
  shows "scan_skip (t @ r) = (v, length t)"
proof -
  note p = scan_prefix [OF assms]
  then have "dropWhile is_space (t @ r) = t @ r" "takeWhile is_space (t @ r) = []" by (cases t; simp)+
  then show ?thesis using p by (simp add: scan_skip_def)
qed

lemma scan_skip_no_space:
  assumes "s = [] \<or> \<not> is_space (hd s)"
  shows "scan_skip s = (if snd (scan s) = 0 then (0, 0) else scan s)"
proof -
  have "dropWhile is_space s = s" "takeWhile is_space s = []" using assms by (cases s; simp)+
  then show ?thesis by (simp add: scan_skip_def split: prod.split)
qed

lemma strtol_decimal:
  assumes "decimal s = Some v" "- (2 ^ 63) \<le> v" "v < 2 ^ 63"
  shows "strtol s = (v, length s, False)" "s \<noteq> []" "\<not> is_space (hd s)"
  using scan_skip_prefix [OF assms(1), of "[]"] scan_prefix [OF assms(1), of "[]"] assms(2,3) by (simp_all add: strtol_def)

lemma strtoul_decimal:
  assumes "decimal s = Some v" "0 \<le> v" "v < 2 ^ 64" "hd s \<noteq> CHR ''-''"
  shows "strtoul s = (v, length s, False)" "prechecku (Some s) 0 = Inr s" "s \<noteq> []"
  using scan_skip_prefix [OF assms(1), of "[]"] scan_prefix [OF assms(1), of "[]"] assms(2-4)
  by (simp_all add: strtoul_def prechecku_def precheck_def)

lemma strntox_0 [simp]: "strntox f s 0 = f s"
  by (simp add: strntox_def)

lemma aftcheck_all [simp]: "s \<noteq> [] \<Longrightarrow> aftcheck s (length s) False 0 = Inr ()"
  by (simp add: aftcheck_def)

text \<open>Every cast to a signed type on the decimal notation of a number that fits 64 bits.\<close>

lemma signed_casts_to_string:
  assumes "- (2 ^ 63) \<le> v" "v < 2 ^ 63"
  shows "cast_int64 (Some (to_string v)) 0 = Inr (word_of_int v)" "cast_int32 (Some (to_string v)) 0 = Inr (word_of_int v)"
    "cast_int16 (Some (to_string v)) 0 =
       (let r = (word_of_int v :: 32 word) in if sint r < -32768 \<or> 32767 < sint r then Inl Out_of_range else Inr (ucast r))"
    "cast_int8 (Some (to_string v)) 0 =
       (let r = (word_of_int v :: 32 word) in if sint r < -128 \<or> 127 < sint r then Inl Out_of_range else Inr (ucast r))"
proof -
  note d = strtol_decimal [OF decimal_to_string assms]
  note p = signed_cast(2) [of "to_string v"]
  show "cast_int64 (Some (to_string v)) 0 = Inr (word_of_int v)" "cast_int32 (Some (to_string v)) 0 = Inr (word_of_int v)"
    "cast_int16 (Some (to_string v)) 0 =
       (let r = (word_of_int v :: 32 word) in if sint r < -32768 \<or> 32767 < sint r then Inl Out_of_range else Inr (ucast r))"
    "cast_int8 (Some (to_string v)) 0 =
       (let r = (word_of_int v :: 32 word) in if sint r < -128 \<or> 127 < sint r then Inl Out_of_range else Inr (ucast r))"
    using d p by (simp_all add: cast_int64_def cast_int32_def cast_int16_def cast_int8_def range_check_def Let_def)
qed

lemma unsigned_casts_to_string:
  assumes "0 \<le> v" "v < 2 ^ 64"
  shows "cast_uint64 (Some (to_string v)) 0 = Inr (word_of_int v)" "cast_uint32 (Some (to_string v)) 0 = Inr (word_of_int v)"
    "cast_uint16 (Some (to_string v)) 0 =
       (let r = (word_of_int v :: 32 word) in if 65535 < uint r then Inl Out_of_range else Inr (ucast r))"
    "cast_uint8 (Some (to_string v)) 0 =
       (let r = (word_of_int v :: 32 word) in if 255 < uint r then Inl Out_of_range else Inr (ucast r))"
proof -
  have "hd (to_string v) \<noteq> CHR ''-''" using to_string_head(3) assms(1) by simp
  note d = strtoul_decimal [OF decimal_to_string assms this]
  show "cast_uint64 (Some (to_string v)) 0 = Inr (word_of_int v)" "cast_uint32 (Some (to_string v)) 0 = Inr (word_of_int v)"
    "cast_uint16 (Some (to_string v)) 0 =
       (let r = (word_of_int v :: 32 word) in if 65535 < uint r then Inl Out_of_range else Inr (ucast r))"
    "cast_uint8 (Some (to_string v)) 0 =
       (let r = (word_of_int v :: 32 word) in if 255 < uint r then Inl Out_of_range else Inr (ucast r))"
    using d by (simp_all add: cast_uint64_def cast_uint32_def cast_uint16_def cast_uint8_def range_check_def Let_def)
qed

lemma sint_of_narrow:
  fixes c :: "'w :: len word"
  assumes "LENGTH('w) \<le> 32"
  shows "sint (word_of_int (sint c) :: 32 word) = sint c" "ucast (word_of_int (sint c) :: 32 word) = c"
proof -
  have "- (2 ^ (LENGTH('w) - 1)) \<le> sint c" "sint c < 2 ^ (LENGTH('w) - 1)" using sint_greater_eq [of c] sint_less [of c] by auto
  moreover have "(2 :: int) ^ (LENGTH('w) - 1) \<le> 2 ^ 31" using assms by (intro power_increasing) auto
  ultimately have "- (2 ^ 31) \<le> sint c" "sint c < 2 ^ 31" by linarith+
  then show "sint (word_of_int (sint c) :: 32 word) = sint c" by (subst sint_sbintrunc') (simp add: signed_take_bit_int_eq_self)
  show "ucast (word_of_int (sint c) :: 32 word) = c"
    by (rule bit_word_eqI) (use assms in \<open>auto simp: bit_simps\<close>)
qed

lemma uint_of_narrow:
  fixes c :: "'w :: len word"
  assumes "LENGTH('w) \<le> 32"
  shows "uint (word_of_int (uint c) :: 32 word) = uint c" "ucast (word_of_int (uint c) :: 32 word) = c"
proof -
  have "uint c < 2 ^ LENGTH('w)" by (rule uint_lt2p)
  moreover have "(2 :: int) ^ LENGTH('w) \<le> 2 ^ 32" using assms by (intro power_increasing) auto
  ultimately have "uint c < 2 ^ 32" by linarith
  then show "uint (word_of_int (uint c) :: 32 word) = uint c" by (subst uint_word_of_int) simp
  show "ucast (word_of_int (uint c) :: 32 word) = c"
    by (rule bit_word_eqI) (use assms in \<open>auto simp: bit_simps\<close>)
qed

text \<open>Printing and reading back: every value of every integer type, and both booleans, is the result of casting
  its decimal notation.\<close>

theorem lexical_cast_round_trip:
  "cast_int64 (Some (to_string (sint i64))) 0 = Inr i64 \<and> cast_int32 (Some (to_string (sint i32))) 0 = Inr i32 \<and>
   cast_int16 (Some (to_string (sint i16))) 0 = Inr i16 \<and> cast_int8 (Some (to_string (sint i8))) 0 = Inr i8 \<and>
   cast_uint64 (Some (to_string (uint u64))) 0 = Inr u64 \<and> cast_uint32 (Some (to_string (uint u32))) 0 = Inr u32 \<and>
   cast_uint16 (Some (to_string (uint u16))) 0 = Inr u16 \<and> cast_uint8 (Some (to_string (uint u8))) 0 = Inr u8 \<and>
   cast_bool (Some (bool_string b)) 0 = Inr b"
proof (intro conjI)
  have s: "- (2 ^ 63) \<le> sint i64" "sint i64 < 2 ^ 63" "- (2 ^ 63) \<le> sint i32" "sint i32 < 2 ^ 63"
      "- (2 ^ 63) \<le> sint i16" "sint i16 < 2 ^ 63" "- (2 ^ 63) \<le> sint i8" "sint i8 < 2 ^ 63"
    using sint_greater_eq [of i64] sint_less [of i64] sint_greater_eq [of i32] sint_less [of i32]
      sint_greater_eq [of i16] sint_less [of i16] sint_greater_eq [of i8] sint_less [of i8] by simp_all
  have u: "uint u64 < 2 ^ 64" "uint u32 < 2 ^ 64" "uint u16 < 2 ^ 64" "uint u8 < 2 ^ 64"
    using uint_lt2p [of u64] uint_lt2p [of u32] uint_lt2p [of u16] uint_lt2p [of u8] by simp_all
  show "cast_int64 (Some (to_string (sint i64))) 0 = Inr i64" using signed_casts_to_string(1) [OF s(1,2)] by simp
  show "cast_int32 (Some (to_string (sint i32))) 0 = Inr i32" using signed_casts_to_string(2) [OF s(3,4)] by simp
  show "cast_int16 (Some (to_string (sint i16))) 0 = Inr i16"
    using signed_casts_to_string(3) [OF s(5,6)] sint_of_narrow [of i16] sint_greater_eq [of i16] sint_less [of i16] by (simp add: Let_def)
  show "cast_int8 (Some (to_string (sint i8))) 0 = Inr i8"
    using signed_casts_to_string(4) [OF s(7,8)] sint_of_narrow [of i8] sint_greater_eq [of i8] sint_less [of i8] by (simp add: Let_def)
  show "cast_uint64 (Some (to_string (uint u64))) 0 = Inr u64" using unsigned_casts_to_string(1) [OF _ u(1)] by simp
  show "cast_uint32 (Some (to_string (uint u32))) 0 = Inr u32" using unsigned_casts_to_string(2) [OF _ u(2)] by simp
  show "cast_uint16 (Some (to_string (uint u16))) 0 = Inr u16"
    using unsigned_casts_to_string(3) [OF _ u(3)] uint_of_narrow [of u16] uint_lt2p [of u16] by (simp add: Let_def)
  show "cast_uint8 (Some (to_string (uint u8))) 0 = Inr u8"
    using unsigned_casts_to_string(4) [OF _ u(4)] uint_of_narrow [of u8] uint_lt2p [of u8] by (simp add: Let_def)
  show "cast_bool (Some (bool_string b)) 0 = Inr b" by (simp add: cast_bool_def bool_string_def)
qed

text \<open>The part of the string that \<open>count\<close> selects: all of it when \<open>count\<close> is 0.\<close>

definition counted_part :: "string \<Rightarrow> nat \<Rightarrow> string" where
  "counted_part s count = (if count = 0 then s else take count s)"

lemma strntox_part:
  assumes "count \<le> length s"
  obtains r where "strntox f s count = f (counted_part s count @ r)" "r = [] \<or> 0 < count \<and> \<not> is_digit (hd r)"
proof (cases "0 < count \<and> count < length s \<and> \<not> is_space (s ! count)")
  case True
  then show thesis using that [of "[]"] by (simp add: strntox_def counted_part_def)
next
  case False
  have "drop count s = [] \<or> \<not> is_digit (hd (drop count s))" if "0 < count"
    using False that digit_not_sign by (cases "count < length s") (auto simp: hd_drop_conv_nth)
  then show thesis using that [of "if count = 0 then [] else drop count s"] False by (auto simp: strntox_def counted_part_def)
qed

text \<open>What the check after the conversion lets pass.\<close>

lemma aftcheck_number:
  assumes sp: "s = [] \<or> \<not> is_space (hd s)" and len: "count \<le> length s"
    and r: "u = counted_part s count @ r" "r = [] \<or> 0 < count \<and> \<not> is_digit (hd r)"
  shows "case decimal (counted_part s count) of
     Some v \<Rightarrow> scan_skip u = (v, length (counted_part s count)) \<and> aftcheck s (length (counted_part s count)) er count = (if er then Inl Out_of_range else Inr ())
   | None \<Rightarrow> \<exists>e. aftcheck s (snd (scan_skip u)) er count = Inl e"
proof (cases "decimal (counted_part s count)")
  case (Some v)
  then have "counted_part s count \<noteq> []" using scan_prefix(2) by blast
  then show ?thesis using Some scan_skip_prefix [OF Some, of r] r len by (auto simp: aftcheck_def counted_part_def)
next
  case None
  have "\<exists>e. aftcheck s (snd (scan_skip u)) er count = Inl e"
  proof (rule ccontr)
    assume n: "\<not> ?thesis"
    have sp': "u = [] \<or> \<not> is_space (hd u)"
      using sp r len by (cases s) (auto simp: counted_part_def take_Cons' is_digit_def is_space_def split: if_splits)
    have pos: "0 < snd (scan u)" "snd (scan_skip u) = snd (scan u)"
      using n scan_skip_no_space [OF sp'] by (auto simp: aftcheck_def split: if_splits)
    then have "snd (scan u) = length (counted_part s count)"
      using n scan_decimal(2) [OF pos(1)] r len by (auto simp: aftcheck_def counted_part_def split: if_splits)
    then show False using scan_decimal(1) [OF pos(1)] r(1) None by simp
  qed
  then show ?thesis using None by simp
qed

text \<open>C34. The casts to 64-bit integers accept exactly the decimal numbers in range, with their value, and nothing else,
  in particular no white space around the number; a number with a minus sign is never unsigned. With a positive \<open>count\<close>
  the number is made of the first \<open>count\<close> characters, whatever comes after them.\<close>

theorem lexical_cast_exact:
  "pico_lexical_cast (cast_int64 (Some s) count) =
     (if length s < count then None else case decimal (counted_part s count) of None \<Rightarrow> None
      | Some v \<Rightarrow> if - (2 ^ 63) \<le> v \<and> v < 2 ^ 63 then Some (word_of_int v) else None) \<and>
   pico_lexical_cast (cast_uint64 (Some s) count) =
     (if length s < count then None else case decimal (counted_part s count) of None \<Rightarrow> None
      | Some v \<Rightarrow> if hd s \<noteq> CHR ''-'' \<and> v < 2 ^ 64 then Some (word_of_int v) else None)"
proof (cases "length s < count \<or> s \<noteq> [] \<and> is_space (hd s)")
  case True
  have "decimal (counted_part s count) = None" if "count \<le> length s"
    using True that scan_prefix(2,3) [of "counted_part s count" _ "[]"] by (cases "decimal (counted_part s count)") (auto simp: counted_part_def split: if_splits)
  then show ?thesis using True by (auto simp: pico_lexical_cast_def cast_int64_def cast_uint64_def prechecku_def precheck_def)
next
  case False
  then have sp: "s = [] \<or> \<not> is_space (hd s)" and len: "count \<le> length s" by auto
  have pre: "precheck (Some s) count = Inr s" using False by (auto simp: precheck_def)
  obtain r where r: "strntox strtol s count = strtol (counted_part s count @ r)" "r = [] \<or> 0 < count \<and> \<not> is_digit (hd r)"
    by (rule strntox_part [OF len, of strtol])
  obtain q where q: "strntox strtoul s count = strtoul (counted_part s count @ q)" "q = [] \<or> 0 < count \<and> \<not> is_digit (hd q)"
    by (rule strntox_part [OF len, of strtoul])
  note ar = aftcheck_number [OF sp len refl r(2)] and aq = aftcheck_number [OF sp len refl q(2)]
  show ?thesis
  proof (cases "decimal (counted_part s count)")
    case None
    have "\<exists>e. cast_int64 (Some s) count = Inl e" "\<exists>e. cast_uint64 (Some s) count = Inl e"
      using None ar [of True] ar [of False] aq [of True] aq [of False] pre r(1) q(1)
      by (auto simp: cast_int64_def cast_uint64_def prechecku_def strtol_def strtoul_def Let_def split: prod.split)
    then show ?thesis using None len by (auto simp: pico_lexical_cast_def)
  next
    case (Some v)
    have "s \<noteq> []" "hd (counted_part s count) = hd s" using scan_prefix(2) [OF Some, of "[]"] by (auto simp: counted_part_def)
    then have pos: "0 \<le> v" if "hd s \<noteq> CHR ''-''" using Some that by (auto simp: decimal_def Let_def split: if_splits)
    have "cast_int64 (Some s) count = (if - (2 ^ 63) \<le> v \<and> v < 2 ^ 63 then Inr (word_of_int v) else Inl Out_of_range)"
      using Some ar [of True] ar [of False] pre r(1) by (simp add: cast_int64_def strtol_def Let_def)
    moreover have "cast_uint64 (Some s) count =
        (if hd s = CHR ''-'' then Inl Is_negative else if v < 2 ^ 64 then Inr (word_of_int v) else Inl Out_of_range)"
      using Some aq [of True] aq [of False] pre q(1) pos \<open>s \<noteq> []\<close> by (simp add: cast_uint64_def prechecku_def strtoul_def Let_def)
    ultimately show ?thesis using Some len by (simp add: pico_lexical_cast_def)
  qed
qed

text \<open>The cast to a 32-bit integer has no range check of its own: it accepts every number that fits 64 bits and
  keeps the low 32 bits, so each value is the result of many different numbers.\<close>

theorem int32_cast_wraps:
  assumes "- (2 ^ 63) \<le> sint w + k * 2 ^ 32" "sint w + k * 2 ^ 32 < 2 ^ 63"
  shows "cast_int32 (Some (to_string (sint w + k * 2 ^ 32))) 0 = Inr w"
proof -
  have "(word_of_int (sint w + k * 2 ^ 32) :: 32 word) = word_of_int (sint w) + word_of_int k * word_of_int (2 ^ 32)"
    by (simp only: wi_hom_syms)
  also have "word_of_int (2 ^ 32) = (0 :: 32 word)" by simp
  finally show ?thesis using signed_casts_to_string(2) [OF assms] by simp
qed

theorem int32_cast_wraps_witness: "cast_int32 (Some ''4294967301'') 0 = Inr 5"
proof -
  have "to_string (4294967301 :: int) = ''4294967301''" by (simp add: to_string_def dec_string.simps dec_digit_def)
  then show ?thesis using int32_cast_wraps [of "5" 1] by simp
qed

end
