(* ===== verification/Async_Watcher.thy ===== *)
theory Async_Watcher
  imports Prpc_Prelude "HOL-Library.Word"
begin

text \<open>
  \<open>AsyncWatcher\<close> of \<open>src/thread/AsyncWatcher.h\<close>: threads wait until a condition holds, others change the state the
  condition depends on and then call \<open>notify\<close>.

  The steps are the parts under \<open>_mutex\<close>, the evaluations of the condition and \<open>_cv.notify_all\<close>. A thread in \<open>_cv.wait\<close>
  that finds \<open>_version\<close> unchanged gives the mutex back and sleeps in one step; it goes on when \<open>notify_all\<close> wakes it, or for
  no reason at all, and looks at \<open>_version\<close> again. \<open>Some t\<close> selects the \<open>wait\<close> with a timeout of \<open>t\<close> milliseconds,
  which may give up whenever the clock allows it. A thread that changes the state is the function it applies, followed by
  \<open>notify\<close>. \<open>_version\<close> is 64 bits wide, wraps around, and has any value at the start: the code does not initialise it.
\<close>

section \<open>Model\<close>

text \<open>\<open>Check\<close>: in \<open>watch(atom)\<close>, about to evaluate the predicate of \<open>_cv.wait\<close>. \<open>Asleep\<close>: blocked in it.\<close>

datatype wait_pc = Begin_wait | Test "64 word" | Check "64 word" | Asleep "64 word" | Wait_true | Wait_false | Wait_abort

datatype 's notify_pc = Change "'s \<Rightarrow> 's" | Bump | Wake | Notified

record 's watcher =
  version :: "64 word"
  watched :: 's
  waiters :: "wait_pc list"
  notifiers :: "'s notify_pc list"

text \<open>The loop of \<open>wait\<close>: \<open>watch()\<close>, then the condition, then \<open>watch(atom)\<close>.\<close>

fun wait_next :: "int option \<Rightarrow> ('s \<Rightarrow> bool) \<Rightarrow> wait_pc \<Rightarrow> 's watcher \<Rightarrow> wait_pc list" where
  "wait_next timeout pred w s =
     (case w of
        Begin_wait \<Rightarrow> (case timeout of Some t \<Rightarrow> if t < 0 then [Wait_abort] else [Test (version s)] | None \<Rightarrow> [Test (version s)])
      | Test atom \<Rightarrow> if pred (watched s) then [Wait_true]
          else (case timeout of None \<Rightarrow> [Check atom] | Some t \<Rightarrow> if t = 0 then [Wait_false] else [Wait_false, Check atom])
      | Check atom \<Rightarrow> if version s \<noteq> atom then [Test (version s)] else [Asleep atom]
      | Asleep atom \<Rightarrow> [Check atom] @ (case timeout of None \<Rightarrow> [] | Some t \<Rightarrow> if version s \<noteq> atom then [Test (version s)] else [Wait_false])
      | _ \<Rightarrow> [])"

definition wake_up :: "wait_pc \<Rightarrow> wait_pc" where
  "wake_up w = (case w of Asleep atom \<Rightarrow> Check atom | _ \<Rightarrow> w)"

fun notify_next :: "'s notify_pc \<Rightarrow> 's watcher \<Rightarrow> ('s notify_pc \<times> 's watcher) list" where
  "notify_next (Change f) s = [(Bump, s\<lparr>watched := f (watched s)\<rparr>)]"
| "notify_next Bump s = [(Wake, s\<lparr>version := version s + 1\<rparr>)]"
| "notify_next Wake s = [(Notified, s\<lparr>waiters := map wake_up (waiters s)\<rparr>)]"
| "notify_next Notified s = []"

text \<open>\<open>cond i\<close> is the condition of waiter \<open>i\<close> and \<open>timeout i\<close> its timeout.\<close>

inductive watch_step :: "(nat \<Rightarrow> int option) \<Rightarrow> (nat \<Rightarrow> 's \<Rightarrow> bool) \<Rightarrow> 's watcher \<Rightarrow> 's watcher \<Rightarrow> bool" for timeout cond where
  wait: "i < length (waiters s) \<Longrightarrow> w \<in> set (wait_next (timeout i) (cond i) (waiters s ! i) s) \<Longrightarrow>
     watch_step timeout cond s (s\<lparr>waiters := (waiters s)[i := w]\<rparr>)"
| notify: "i < length (notifiers s) \<Longrightarrow> (n, s') \<in> set (notify_next (notifiers s ! i) s) \<Longrightarrow>
     watch_step timeout cond s (s'\<lparr>notifiers := (notifiers s)[i := n]\<rparr>)"

definition watch_init :: "64 word \<Rightarrow> ('s \<Rightarrow> 's) list \<Rightarrow> 's watcher \<Rightarrow> bool" where
  "watch_init v0 changes s \<longleftrightarrow> version s = v0 \<and> list_all (\<lambda>w. w = Begin_wait) (waiters s) \<and> notifiers s = map Change changes"

section \<open>Invariant\<close>

fun bumped :: "'s notify_pc \<Rightarrow> bool" where
  "bumped Wake = True"
| "bumped Notified = True"
| "bumped _ = False"

definition bumps :: "'s watcher \<Rightarrow> nat" where
  "bumps s = cnt bumped (notifiers s)"

text \<open>
  The value a waiter remembers belongs to a number of past increments. If there was none since, its condition is false or
  a thread is about to increment; a sleeping waiter that missed one is about to be woken.
\<close>

definition waiter_ok :: "64 word \<Rightarrow> ('s \<Rightarrow> bool) \<Rightarrow> wait_pc \<Rightarrow> 's watcher \<Rightarrow> bool" where
  "waiter_ok v0 pred w s \<longleftrightarrow> (case w of
       Check atom \<Rightarrow> \<exists>j \<le> bumps s. atom = v0 + word_of_nat j \<and> (j = bumps s \<longrightarrow> \<not> pred (watched s) \<or> Bump \<in> set (notifiers s))
     | Asleep atom \<Rightarrow> \<exists>j \<le> bumps s. atom = v0 + word_of_nat j \<and>
         (if j = bumps s then \<not> pred (watched s) \<or> Bump \<in> set (notifiers s) else Wake \<in> set (notifiers s))
     | Test atom \<Rightarrow> \<exists>j \<le> bumps s. atom = v0 + word_of_nat j
     | _ \<Rightarrow> True)"

definition watch_inv :: "64 word \<Rightarrow> nat \<Rightarrow> (nat \<Rightarrow> 's \<Rightarrow> bool) \<Rightarrow> 's watcher \<Rightarrow> bool" where
  "watch_inv v0 n cond s \<longleftrightarrow> length (notifiers s) = n \<and> version s = v0 + word_of_nat (bumps s) \<and>
     (\<forall>i < length (waiters s). waiter_ok v0 (cond i) (waiters s ! i) s)"

lemma bumps_le: "bumps s \<le> length (notifiers s)"
  by (simp add: bumps_def cnt_le)

lemma word_of_nat_inj:
  assumes "(word_of_nat j :: 64 word) = word_of_nat k" "j \<le> k" "k < 2 ^ 64"
  shows "j = k"
proof -
  have "unat (word_of_nat j :: 64 word) = unat (word_of_nat k :: 64 word)" using assms(1) by (rule arg_cong)
  then show ?thesis using assms(2,3) by (simp add: unat_of_nat)
qed

lemma wait_ok:
  assumes v: "version s = v0 + word_of_nat (bumps s)" "bumps s < 2 ^ 64" and w: "waiter_ok v0 pred w s"
    and nx: "w' \<in> set (wait_next timeout pred w s)"
  shows "waiter_ok v0 pred w' s"
proof (cases w)
  case (Check atom)
  obtain j where j: "j \<le> bumps s" "atom = v0 + word_of_nat j" "j = bumps s \<longrightarrow> \<not> pred (watched s) \<or> Bump \<in> set (notifiers s)"
    using w Check by (auto simp: waiter_ok_def)
  have "j = bumps s" if "version s = atom" using word_of_nat_inj [OF _ j(1) v(2)] that v(1) j(2) by simp
  then show ?thesis using nx Check j v(1) by (auto simp: waiter_ok_def split: if_splits)
qed (use nx w v(1) in \<open>auto simp: waiter_ok_def split: if_splits option.splits\<close>)

text \<open>What a step of a notifier does to the facts a waiter rests on.\<close>

lemma set_update_keep: "x \<in> set xs \<Longrightarrow> xs ! i \<noteq> x \<Longrightarrow> x \<in> set (xs[i := y])"
  by (metis in_set_conv_nth length_list_update nth_list_update_neq)

lemma notify_ok:
  assumes i: "i < length (notifiers s)" and nx: "(m, s') \<in> set (notify_next (notifiers s ! i) s)"
    and t: "t = s'\<lparr>notifiers := (notifiers s)[i := m]\<rparr>"
  shows "version t = version s + word_of_nat (bumps t - bumps s)" "bumps s \<le> bumps t"
    "waiters t = (if notifiers s ! i = Wake then map wake_up (waiters s) else waiters s)"
    "waiter_ok v0 pred w s \<Longrightarrow> waiter_ok v0 pred (if notifiers s ! i = Wake then wake_up w else w) t"
proof -
  let ?ns = "(notifiers s)[i := m]"
  have b: "bumps t + (if bumped (notifiers s ! i) then 1 else 0) = bumps s + (if bumped m then 1 else 0)"
    using cnt_update [OF i, of bumped m] t by (simp add: bumps_def)
  have k: "x \<in> set ?ns" if "x \<in> set (notifiers s)" "notifiers s ! i \<noteq> x" for x using set_update_keep [OF that] .
  have n: "m \<in> set ?ns" using i by (simp add: set_update_memI)
  have "version t = version s + word_of_nat (bumps t - bumps s) \<and> bumps s \<le> bumps t \<and>
      waiters t = (if notifiers s ! i = Wake then map wake_up (waiters s) else waiters s) \<and>
      (waiter_ok v0 pred w s \<longrightarrow> waiter_ok v0 pred (if notifiers s ! i = Wake then wake_up w else w) t)"
  proof (cases "notifiers s ! i")
    case (Change f)
    then have "m = Bump" "s' = s\<lparr>watched := f (watched s)\<rparr>" using nx by auto
    then show ?thesis using Change b n k t by (auto simp: waiter_ok_def split: wait_pc.splits if_splits)
  next
    case Bump
    then have e: "m = Wake" "s' = s\<lparr>version := version s + 1\<rparr>" using nx by auto
    have bt: "bumps t = Suc (bumps s)" using b Bump e by simp
    have "waiter_ok v0 pred w t" if ok: "waiter_ok v0 pred w s"
    proof (cases w)
      case (Asleep atom)
      then obtain j where "j \<le> bumps s" "atom = v0 + word_of_nat j" using ok by (auto simp: waiter_ok_def)
      then show ?thesis using Asleep bt n t e by (auto simp: waiter_ok_def intro!: exI [of _ j])
    next
      case (Check atom)
      then obtain j where "j \<le> bumps s" "atom = v0 + word_of_nat j" using ok by (auto simp: waiter_ok_def)
      then show ?thesis using Check bt by (auto simp: waiter_ok_def intro!: exI [of _ j])
    qed (use ok bt in \<open>auto simp: waiter_ok_def intro: le_SucI\<close>)
    then show ?thesis using Bump t e bt by simp
  next
    case Wake
    then have "m = Notified" "s' = s\<lparr>waiters := map wake_up (waiters s)\<rparr>" using nx by auto
    then show ?thesis using Wake b k t by (auto simp: waiter_ok_def wake_up_def split: wait_pc.splits if_splits)
  qed (use nx in simp)
  then show "version t = version s + word_of_nat (bumps t - bumps s)" "bumps s \<le> bumps t"
    "waiters t = (if notifiers s ! i = Wake then map wake_up (waiters s) else waiters s)"
    "waiter_ok v0 pred w s \<Longrightarrow> waiter_ok v0 pred (if notifiers s ! i = Wake then wake_up w else w) t" by auto
qed

lemma watch_inv_step:
  assumes inv: "watch_inv v0 n cond s" and n: "n < 2 ^ 64" and st: "watch_step timeout cond s t"
  shows "watch_inv v0 n cond t"
  using st
proof cases
  case (wait i w)
  have "bumps t = bumps s" using wait(1) by (simp add: bumps_def)
  moreover have ok: "waiter_ok v0 p x t = waiter_ok v0 p x s" for p x using wait(1) by (simp add: waiter_ok_def bumps_def cong: wait_pc.case_cong)
  moreover have "waiter_ok v0 (cond i) w s"
    using wait_ok [OF _ _ _ wait(3)] inv wait(2) n bumps_le [of s] by (simp add: watch_inv_def)
  ultimately have "waiter_ok v0 (cond j) ((waiters s)[i := w] ! j) t" if "j < length (waiters s)" for j
    using inv that wait(2) by (cases "j = i") (auto simp: watch_inv_def)
  then show ?thesis using inv wait(1) by (simp add: watch_inv_def bumps_def)
next
  case (notify i m s')
  note k = notify_ok [OF notify(2,3) notify(1)]
  have l: "length (notifiers t) = n" using inv notify(1) by (simp add: watch_inv_def)
  have v: "version t = v0 + word_of_nat (bumps t)"
    using inv k(1,2) by (simp add: watch_inv_def)
  show ?thesis unfolding watch_inv_def
  proof (intro conjI l v allI impI)
    fix j assume "j < length (waiters t)"
    then have j: "j < length (waiters s)" using k(3) by (simp split: if_splits)
    then show "waiter_ok v0 (cond j) (waiters t ! j) t" using k(3) k(4) [of v0 "cond j" "waiters s ! j"] inv by (auto simp: watch_inv_def)
  qed
qed

lemma watch_invariant:
  assumes "length changes < 2 ^ 64"
  shows "inductive_invariant (watch_init v0 changes) (watch_step timeout cond) (watch_inv v0 (length changes) cond)"
proof
  fix s
  assume "watch_init v0 changes s"
  moreover have "cnt bumped (map Change changes) = 0" by (auto simp: cnt_zero_iff list_all_iff)
  ultimately show "watch_inv v0 (length changes) cond s"
    by (auto simp: watch_init_def watch_inv_def waiter_ok_def bumps_def list_all_length)
qed (rule watch_inv_step [OF _ assms])

section \<open>Properties\<close>

text \<open>C35. No wake-up is lost: with any number of waiting and of notifying threads, if a thread sleeps in \<open>_cv.wait\<close> and no
  thread is between its change of the state and the end of \<open>notify\<close>, then the condition the sleeping thread waits for is
  false, for fewer than \<open>2 ^ 64\<close> notifications. The wake-ups without a reason that a condition variable allows are not needed
  for it.\<close>

theorem no_lost_notification:
  assumes "reach (watch_init v0 changes) (watch_step timeout cond) s" "length changes < 2 ^ 64"
    "i < length (waiters s)" "waiters s ! i = Asleep atom" "Bump \<notin> set (notifiers s)" "Wake \<notin> set (notifiers s)"
  shows "\<not> cond i (watched s)"
proof -
  have "watch_inv v0 (length changes) cond s"
    by (rule inductive_invariant.inv_reach [OF watch_invariant [OF assms(2)] assms(1)])
  then have "waiter_ok v0 (cond i) (Asleep atom) s" using assms(3,4) unfolding watch_inv_def by metis
  then show ?thesis using assms(5,6) by (auto simp: waiter_ok_def split: if_splits)
qed

text \<open>One thread counts up and notifies while another, which waits for 2, is asleep: it is woken, looks, and sleeps again.\<close>

definition demo_cond :: "nat \<Rightarrow> nat \<Rightarrow> bool" where
  "demo_cond i x \<longleftrightarrow> x = 2"

lemma demo_watch_reach:
  "reach (watch_init (-1) [Suc]) (watch_step (\<lambda>_. None) demo_cond)
     \<lparr>version = 0, watched = 1, waiters = [Asleep 0], notifiers = [Notified]\<rparr>"
proof -
  let ?step = "watch_step (\<lambda>_. None) demo_cond"
  have w: "?step s (s\<lparr>waiters := [w]\<rparr>)" if "waiters s = [x]" "w \<in> set (wait_next None (demo_cond 0) x s)" for s w x
    using watch_step.wait [of 0 s w "\<lambda>_. None" demo_cond] that by simp
  have n: "?step s (s'\<lparr>notifiers := [m]\<rparr>)" if "notifiers s = [x]" "(m, s') \<in> set (notify_next x s)" for s s' m x
    using watch_step.notify [of 0 s m s'] that by simp
  let ?S = "\<lambda>v x w n. \<lparr>version = v, watched = x, waiters = [w], notifiers = [n]\<rparr> :: nat watcher"
  have "?step\<^sup>*\<^sup>* (?S (-1) 0 Begin_wait (Change Suc)) (?S (-1) 0 (Asleep (-1)) (Change Suc))"
    using w [of "?S (-1) 0 Begin_wait (Change Suc)" Begin_wait "Test (-1)"] w [of "?S (-1) 0 (Test (-1)) (Change Suc)" "Test (-1)" "Check (-1)"]
      w [of "?S (-1) 0 (Check (-1)) (Change Suc)" "Check (-1)" "Asleep (-1)"] by (simp add: demo_cond_def)
  moreover have "?step\<^sup>*\<^sup>* (?S (-1) 0 (Asleep (-1)) (Change Suc)) (?S 0 1 (Check (-1)) Notified)"
    using n [of "?S (-1) 0 (Asleep (-1)) (Change Suc)" "Change Suc" Bump "?S (-1) 1 (Asleep (-1)) (Change Suc)"]
      n [of "?S (-1) 1 (Asleep (-1)) Bump" Bump Wake "?S 0 1 (Asleep (-1)) Bump"]
      n [of "?S 0 1 (Asleep (-1)) Wake" Wake Notified "?S 0 1 (Check (-1)) Wake"] by (simp add: wake_up_def)
  moreover have "?step\<^sup>*\<^sup>* (?S 0 1 (Check (-1)) Notified) (?S 0 1 (Asleep 0) Notified)"
    using w [of "?S 0 1 (Check (-1)) Notified" "Check (-1)" "Test 0"] w [of "?S 0 1 (Test 0) Notified" "Test 0" "Check 0"]
      w [of "?S 0 1 (Check 0) Notified" "Check 0" "Asleep 0"] by (simp add: demo_cond_def)
  ultimately show ?thesis unfolding reach_def by (intro exI [of _ "?S (-1) 0 Begin_wait (Change Suc)"]) (auto simp: watch_init_def)
qed

theorem no_lost_notification_witness:
  "\<not> demo_cond 0 (watched \<lparr>version = 0, watched = 1, waiters = [Asleep 0], notifiers = [Notified :: nat notify_pc]\<rparr>)"
  by (rule no_lost_notification [OF demo_watch_reach]) simp_all

end
