(* ===== verification/Master_Names.thy ===== *)
theory Master_Names
  imports Master_Tree
begin

text \<open>
  What the master promises to its clients: a flat map from paths to owners and values. A node has no list of
  children; its children are the paths one level below it. The theory shows that every request of the master of
  \<open>Master_Tree\<close> and every broken connection acts on this map as specified, so that the client (theories
  \<open>Master_Client\<close> and \<open>Master_Lock\<close>) can be verified against the map alone.
\<close>

section \<open>Specification\<close>

type_synonym names = "string \<Rightarrow> (nat option \<times> string) option"

definition kids :: "names \<Rightarrow> string \<Rightarrow> string set" where
  "kids N q = {k. k \<noteq> [] \<and> slash \<notin> set k \<and> N (q @ slash # k) \<noteq> None}"

definition drop_owner :: "nat \<Rightarrow> names \<Rightarrow> names" where
  "drop_owner s N p = (case N p of None \<Rightarrow> None | Some (ow, v) \<Rightarrow> if ow = Some s then None else Some (ow, v))"

definition open_node :: "names \<Rightarrow> string \<Rightarrow> bool" where
  "open_node N q \<longleftrightarrow> (\<exists>v. N q = Some (None, v))"

fun spec_op :: "nat \<Rightarrow> master_req \<Rightarrow> names \<Rightarrow> (string \<Rightarrow> int) \<Rightarrow> (reply \<times> names \<times> (string \<Rightarrow> int)) res" where
  "spec_op s (MASTER_GEN q v e) N C =
     (if \<not> master_check_valid_path q then Inr (Status ERROR, N, C)
      else if \<not> open_node N q then Inr (Status NODE_FAILED, N, C)
      else if C q = int_max then Inl Overflow
      else let k = gen_key (nat (C q)); C1 = C(q := C q + 1)
           in if N (q @ slash # k) \<noteq> None then Inr (Status PATH_FAILED, N, C1)
              else Inr (Status_key OK k, N(q @ slash # k \<mapsto> (if e then Some s else None, v)), C1))"
| "spec_op s (MASTER_ADD p v e) N C =
     Inr (if \<not> master_check_valid_path p then (Status ERROR, N, C)
          else if \<not> open_node N (path_parent p) then (Status PATH_FAILED, N, C)
          else if N p \<noteq> None then (Status NODE_FAILED, N, C)
          else (Status OK, N(p \<mapsto> (if e then Some s else None, v)), C))"
| "spec_op s (MASTER_DEL p) N C =
     Inr (if \<not> master_check_valid_path p then (Status ERROR, N, C)
          else if N p = None then (Status NODE_FAILED, N, C)
          else if kids N p \<noteq> {} then (Status PATH_FAILED, N, C)
          else (Status OK, N(p := None), C(p := 0)))"
| "spec_op s (MASTER_SET p v) N C =
     Inr (if \<not> master_check_valid_path p then (Status ERROR, N, C)
          else case N p of
                 None \<Rightarrow> (Status NODE_FAILED, N, C)
               | Some (ow, v0) \<Rightarrow> (Status OK, N(p \<mapsto> (ow, v)), C))"
| "spec_op s (MASTER_GET p) N C =
     Inr (if \<not> master_check_valid_path p then (Status ERROR, N, C)
          else case N p of
                 None \<Rightarrow> (Status NODE_FAILED, N, C)
               | Some (ow, v) \<Rightarrow> (Status_value OK v, N, C))"
| "spec_op s (MASTER_SUB p) N C =
     Inr (if \<not> master_check_valid_path p then (Status ERROR, N, C)
          else if N p = None then (Status NODE_FAILED, N, C)
          else (Status_children OK (sorted_list_of_set (kids N p)), N, C))"
| "spec_op s MASTER_EXIT N C = Inr (No_reply_body, N, C)"
| "spec_op s MASTER_CLIENT_FINALIZE N C = Inr (No_reply_body, drop_owner s N, C)"
| "spec_op s MASTER_UNKNOWN N C = Inr (No_reply_body, N, C)"

section \<open>Abstraction\<close>

definition flat :: "(string \<Rightarrow> master_node option) \<Rightarrow> names" where
  "flat f p = map_option (\<lambda>n. (owner n, node_value n)) (f p)"

definition names :: "master \<Rightarrow> names" where
  "names m = flat (nodes (ensure_root m))"

lemma flat_None [simp]: "flat f p = None \<longleftrightarrow> f p = None"
  by (simp add: flat_def)

lemma flat_Some: "f p = Some n \<Longrightarrow> flat f p = Some (owner n, node_value n)"
  by (simp add: flat_def)

lemma flat_open: "open_node (flat f) q \<longleftrightarrow> (\<exists>n. f q = Some n \<and> owner n = None)"
  by (auto simp: open_node_def flat_def)

lemma flat_add: "f q = Some pn \<Longrightarrow> flat (add_child q k n f) = (flat f)(q @ slash # k \<mapsto> (owner n, node_value n))"
  by (auto simp: flat_def add_child_def)

lemma flat_del: "f q = Some pn \<Longrightarrow> flat (del_child q k f) = (flat f)(q @ slash # k := None)"
  by (auto simp: flat_def del_child_def)

lemma sub_kids:
  assumes "tree_ok f" "f p = Some n"
  shows "sub n = kids (flat f) p"
  using tree_ok_child [OF assms] tree_ok_key_in_sub [OF assms(1), of p] assms(2) by (fastforce simp: kids_def)

lemma names_root: "nodes m [] \<noteq> None \<Longrightarrow> names m = flat (nodes m)"
  by (auto simp: names_def ensure_root_def get_nodes)

lemma ensure_root_id: "nodes m [] \<noteq> None \<Longrightarrow> ensure_root m = m"
  by (auto simp: ensure_root_def get_nodes)

lemma names_ensure [simp]: "names (ensure_root m) = names m"
proof -
  have "nodes (ensure_root m) [] \<noteq> None" by (auto simp: ensure_root_def get_nodes nodes_put)
  then show ?thesis by (simp add: names_def ensure_root_id)
qed

lemma names_cong: "nodes m1 = nodes m2 \<Longrightarrow> names m1 = names m2"
proof -
  have "nodes (ensure_root m') p = (if p = [] \<and> nodes m' [] = None then Some empty_node else nodes m' p)" for m' p
    by (auto simp: ensure_root_def get_nodes nodes_put)
  then show "nodes m1 = nodes m2 \<Longrightarrow> names m1 = names m2" by (simp add: names_def flat_def fun_eq_iff)
qed

lemma names_frame [simp]:
  "names (m\<lparr>outbox := b\<rparr>) = names m" "names (m\<lparr>watchers := w\<rparr>) = names m"
  "names (m\<lparr>sockets := ss\<rparr>) = names m" "names (m\<lparr>exit_requested := e\<rparr>) = names m" "names (notify_watchers p m) = names m"
  by (rule names_cong; simp)+

lemma flat_keeps: "keeps f g {p. map_option owner (f p) = Some (Some s)} \<Longrightarrow> flat g = drop_owner s (flat f)"
proof
  fix p assume k: "keeps f g {p. map_option owner (f p) = Some (Some s)}"
  show "flat g p = drop_owner s (flat f) p"
  proof (cases "map_option owner (f p) = Some (Some s)")
    case True
    then show ?thesis using k by (auto simp: keeps_def drop_owner_def flat_def split: if_splits)
  next
    case False
    then have "map_option owner (g p) = map_option owner (f p)" "map_option node_value (g p) = map_option node_value (f p)"
      using k by (auto simp: keeps_def split: if_splits)
    then show ?thesis using False by (cases "f p"; cases "g p") (auto simp: drop_owner_def flat_def)
  qed
qed

section \<open>Refinement\<close>

text \<open>The result of a request as the specification sees it.\<close>

definition outcome :: "(reply \<times> master) res \<Rightarrow> (reply \<times> names \<times> (string \<Rightarrow> int)) res" where
  "outcome r = map_sum id (\<lambda>(rep, m). (rep, names m, counter m)) r"

lemma outcome_simps [simp]:
  "outcome (Inl e) = Inl e" "outcome (Inr (rep, m)) = Inr (rep, names m, counter m)"
  by (simp_all add: outcome_def)

lemma key_length: "n < 10 ^ 10 \<Longrightarrow> length (gen_key n) = 11"
  by (simp add: gen_key_digits)

lemma spec_gen:
  assumes inv: "master_inv m" and root: "nodes m [] \<noteq> None" and s: "s \<in> set (sockets m)"
  shows "outcome (master_gen s q v e m) = spec_op s (MASTER_GEN q v e) (names m) (counter m)"
proof (cases "master_check_valid_path q \<and> open_node (names m) q")
  case False
  then show ?thesis using root by (auto simp: master_gen_def names_root flat_open get_nodes)
next
  case True
  then obtain pn where q: "nodes m q = Some pn" "owner pn = None" using root by (auto simp: names_root flat_open)
  show ?thesis
  proof (cases "bump_gen_id q m")
    case (Inl f)
    have "counter m q = int_max \<and> f = Overflow" using bump_fails [OF Inl] by (simp add: counter_def)
    then show ?thesis using True q Inl by (simp add: master_gen_def get_nodes)
  next
    case (Inr cm)
    then obtain c m1 where b: "bump_gen_id q m = Inr (c, m1)" by (cases cm) simp
    note bi = bump_inv [OF inv q b]
    have c: "c = counter m q" "counter m1 = (counter m)(q := counter m q + 1)"
      using b counter_bump [OF b] by (auto simp: bump_gen_id_def counter_def Let_def split: if_splits)
    let ?k = "gen_key (nat c)"
    have k: "CHR ''_'' # pad_key (to_string c) = ?k" using bi(2) by (simp add: gen_key_def)
    have l: "\<not> 11 < length ?k" using key_length [of "nat c"] bi(3) by (simp add: int_max_def)
    have l': "\<not> 10 < length (pad_key (to_string c))" using l unfolding k [symmetric] by simp
    have r1: "nodes m1 [] \<noteq> None" using root bi(4) by simp
    let ?n = "\<lparr>owner = (if e then Some s else None), node_value = v, sub = {}\<rparr>"
    have g: "master_gen s q v e m = (if get_node (q @ slash # ?k) m1 \<noteq> None then Inr (Status PATH_FAILED, m1)
        else rbind (insert_sub q ?k (put_node (q @ slash # ?k) ?n m1)) (\<lambda>m2. Inr (Status_key OK ?k, notify_watchers (q @ slash # ?k) m2)))"
      using True q b l' by (simp add: master_gen_def get_nodes Let_def k)
    have sp: "spec_op s (MASTER_GEN q v e) (names m) (counter m) =
        (if names m (q @ slash # ?k) \<noteq> None then Inr (Status PATH_FAILED, names m, counter m1)
         else Inr (Status_key OK ?k, (names m)(q @ slash # ?k \<mapsto> (owner ?n, node_value ?n)), counter m1))"
      using True bi(3) c by (simp add: Let_def)
    have n1: "names m1 = names m" using root r1 bi(4) by (simp add: names_root)
    show ?thesis
    proof (cases "nodes m (q @ slash # ?k)")
      case None
      have q1: "nodes m1 q = Some pn" and n0: "nodes m1 (q @ slash # ?k) = None" using q bi(4) None by simp_all
      have s1: "owner ?n = Some x \<Longrightarrow> x \<in> set (sockets m1)" for x using s bi(5) by (simp split: if_splits)
      obtain m2 where m2: "insert_sub q ?k (put_node (q @ slash # ?k) ?n m1) = Inr m2"
          "nodes m2 = add_child q ?k ?n (nodes m1)" "gen_id m2 = gen_id m1"
        using add_child_step [OF bi(1) q1 q(2) gen_key_ok [of "nat c"] n0, of ?n "[]"] s1 by auto
      have "nodes m2 [] \<noteq> None" using r1 by (auto simp: m2(2) add_child_def)
      then have "names m2 = (names m)(q @ slash # ?k \<mapsto> (owner ?n, node_value ?n))"
        using flat_add [of "nodes m1" q pn ?k ?n] q1 m2(2) r1 n1 names_root [of m1] by (simp add: names_root [of m2])
      moreover have "counter m2 = counter m1" using m2(3) by (simp add: counter_def fun_eq_iff)
      ultimately show ?thesis using None m2(1) n0 root unfolding g sp by (simp add: get_nodes names_root)
    next
      case (Some n)
      then show ?thesis using bi(4) root n1 unfolding g sp by (simp add: get_nodes names_root)
    qed
  qed
qed

lemma spec_add:
  assumes inv: "master_inv m" and root: "nodes m [] \<noteq> None" and s: "s \<in> set (sockets m)"
  shows "outcome (master_add s p v e m) = spec_op s (MASTER_ADD p v e) (names m) (counter m)"
proof (cases "master_check_valid_path p \<and> nodes m p = None \<and> open_node (names m) (path_parent p)")
  case True
  then obtain pn where q: "nodes m (path_parent p) = Some pn" "owner pn = None"
    using root by (auto simp: names_root flat_open)
  let ?n = "\<lparr>owner = (if e then Some s else None), node_value = v, sub = {}\<rparr>"
  obtain m' where m': "master_add s p v e m = Inr (Status OK, notify_watchers p m')"
      "nodes m' = add_child (path_parent p) (path_key p) ?n (nodes m)" "gen_id m' = gen_id m"
    using master_add_ok [OF inv s conjunct1 [OF True] q conjunct1 [OF conjunct2 [OF True]], of v e] by blast
  have p: "path_parent p @ slash # path_key p = p" using path_split [of p] valid_path_slash True by fastforce
  have "nodes m' [] \<noteq> None" using root by (auto simp: m'(2) add_child_def)
  then have "names m' = (names m)(p \<mapsto> (owner ?n, node_value ?n))"
    using flat_add [of "nodes m" "path_parent p" pn "path_key p" ?n] q(1) m'(2) root p by (simp add: names_root)
  moreover have "counter m' = counter m" using m'(3) by (simp add: counter_def fun_eq_iff)
  ultimately show ?thesis using True m'(1) root by (simp add: names_root)
next
  case False
  then show ?thesis using root by (auto simp: master_add_def Let_def get_nodes names_root flat_open)
qed

lemma spec_del:
  assumes inv: "master_inv m" and root: "nodes m [] \<noteq> None"
  shows "outcome (master_del p m) = spec_op s (MASTER_DEL p) (names m) (counter m)"
proof -
  have ok: "tree_ok (nodes m)" using inv by (simp add: master_inv_def)
  show ?thesis
  proof (cases "master_check_valid_path p \<and> (\<exists>n. nodes m p = Some n \<and> sub n = {})")
    case True
    then obtain n where n: "nodes m p = Some n" "sub n = {}" by blast
    obtain m' where m': "master_del p m = Inr (Status OK, notify_watchers p m')" "master_inv (notify_watchers p m')"
        "nodes m' = del_child (path_parent p) (path_key p) (nodes m)"
      using master_del_ok [OF inv _ n] True by blast
    have p: "path_parent p @ slash # path_key p = p" using path_split [of p] valid_path_slash True by fastforce
    obtain pn where pn: "nodes m (path_parent p) = Some pn"
      using tree_ok_key_in_sub [OF ok _ path_key_no_slash] n(1) p by (metis option.distinct(1))
    have "p \<noteq> []" using True by (auto simp: master_check_valid_path_def)
    then have r: "nodes m' [] \<noteq> None" using root p by (auto simp: m'(3) del_child_def)
    then have nm: "names m' = (names m)(p := None)"
      using flat_del [of "nodes m" "path_parent p" pn "path_key p"] pn m'(3) root p by (simp add: names_root)
    have "map_of (gen_id m') p = None"
    proof (rule ccontr)
      assume "map_of (gen_id m') p \<noteq> None"
      then have "nodes m' p \<noteq> None" using m'(2) by (fastforce simp: master_inv_def gen_ok_def)
      moreover have "flat (nodes m') p = None" using fun_cong [OF nm, of p] r by (simp add: names_root)
      ultimately show False by simp
    qed
    then have "counter m' = (counter m)(p := 0)"
      using counter_del [OF m'(1)] by (auto simp: fun_eq_iff) (simp add: counter_def)
    moreover have "kids (names m) p = {}" using sub_kids [OF ok n(1)] n(2) root by (simp add: names_root)
    ultimately show ?thesis using True m'(1) n(1) nm root by (simp add: names_root)
  next
    case False
    have "kids (names m) p \<noteq> {}" if "nodes m p = Some n" "sub n \<noteq> {}" for n
      using sub_kids [OF ok that(1)] that(2) root by (simp add: names_root)
    then show ?thesis using False root
      by (auto simp: master_del_def Let_def get_nodes names_root split: option.splits)
  qed
qed

lemma spec_set:
  assumes root: "nodes m [] \<noteq> None"
  shows "outcome (master_set p v m) = spec_op s (MASTER_SET p v) (names m) (counter m)"
proof (cases "nodes m p")
  case None
  then show ?thesis using root by (simp add: master_set_def get_nodes names_root flat_def)
next
  case (Some n)
  have "nodes (put_node p (n\<lparr>node_value := v\<rparr>) m) [] \<noteq> None" using root by (simp add: nodes_put)
  then have "names (put_node p (n\<lparr>node_value := v\<rparr>) m) = (names m)(p \<mapsto> (owner n, v))"
    using root by (auto simp: names_root nodes_put flat_def)
  then show ?thesis using root Some by (simp add: master_set_def get_nodes names_root flat_Some)
qed

lemma spec_get: "nodes m [] \<noteq> None \<Longrightarrow> outcome (master_get p m) = spec_op s (MASTER_GET p) (names m) (counter m)"
  by (cases "nodes m p") (simp_all add: master_get_def get_nodes names_root flat_def)

lemma spec_sub:
  assumes "master_inv m" "nodes m [] \<noteq> None"
  shows "outcome (master_sub p m) = spec_op s (MASTER_SUB p) (names m) (counter m)"
  using assms sub_kids [of "nodes m" p]
  by (auto simp: master_sub_def get_nodes names_root master_inv_def split: option.splits)

lemma disconnect_spec:
  assumes "master_inv m" "disconnect_clear_data s m = Inr m'" "nodes m [] \<noteq> None"
  shows "names m' = drop_owner s (names m)" "counter m' = counter m"
proof -
  have k: "keeps (nodes m) (nodes m') {p. map_option owner (nodes m p) = Some (Some s)}"
    using disconnect_ok [OF assms(1), of s] assms(2) by auto
  obtain rn where rn: "nodes m [] = Some rn" "owner rn = None"
    using assms(1,3) by (auto simp: master_inv_def tree_ok_def)
  have "map_option owner (nodes m' []) = map_option owner (nodes m [])"
    using k rn by (auto simp: keeps_def split: if_splits dest: spec [of _ "[]"])
  then have "nodes m' [] \<noteq> None" using rn by auto
  then show "names m' = drop_owner s (names m)" using flat_keeps [OF k] assms(3) by (simp add: names_root)
  show "counter m' = counter m" using assms(2) counter_clear by (simp add: disconnect_clear_data_def)
qed

lemma handle_op_spec:
  assumes inv: "master_inv m" and s: "s \<in> set (sockets m)"
  shows "outcome (handle_op s req m) = spec_op s req (names m) (counter m)"
proof -
  let ?m = "ensure_root m"
  have i: "master_inv ?m" "s \<in> set (sockets ?m)" using ensure_root_inv [OF inv] s by auto
  have r: "nodes ?m [] \<noteq> None" by (auto simp: ensure_root_def get_nodes nodes_put)
  have c: "counter ?m = counter m" "names ?m = names m" by simp_all
  show ?thesis
  proof (cases req)
    case (MASTER_GEN q v e)
    then show ?thesis using spec_gen [OF i(1) r i(2), of q v e] c by (simp add: handle_op_def)
  next
    case (MASTER_ADD p v e)
    then show ?thesis using spec_add [OF i(1) r i(2), of p v e] c by (simp add: handle_op_def)
  next
    case (MASTER_DEL p)
    then show ?thesis using spec_del [OF i(1) r, of p s] c by (simp add: handle_op_def)
  next
    case (MASTER_SET p v)
    then show ?thesis using spec_set [OF r, of p v s] c by (simp add: handle_op_def)
  next
    case (MASTER_GET p)
    then show ?thesis using spec_get [OF r, of p s] c by (simp add: handle_op_def)
  next
    case (MASTER_SUB p)
    then show ?thesis using spec_sub [OF i(1) r, of p s] c by (simp add: handle_op_def)
  next
    case MASTER_CLIENT_FINALIZE
    obtain m1 where m1: "disconnect_clear_data s ?m = Inr m1" using disconnect_ok [OF i(1), of s] by auto
    have "counter (m1\<lparr>watchers := w\<rparr>) = counter m1" for w by simp
    then show ?thesis using MASTER_CLIENT_FINALIZE m1 disconnect_spec [OF i(1) m1 r] c by (simp add: handle_op_def)
  next
    case MASTER_EXIT
    then show ?thesis using c by (simp add: handle_op_def)
  next
    case MASTER_UNKNOWN
    then show ?thesis using c by (simp add: handle_op_def)
  qed
qed

lemma path_parent_shorter: "master_check_valid_path p \<Longrightarrow> length (path_parent p) < length p"
  using arg_cong [OF path_split [OF valid_path_slash], of p length] by simp

text \<open>Without a root the tree is empty.\<close>

lemma no_root_empty:
  assumes "tree_ok f" "f [] = None"
  shows "f p = None"
proof (induction "length p" arbitrary: p rule: less_induct)
  case less
  show ?case
  proof (rule ccontr)
    assume p: "f p \<noteq> None"
    then have "p \<noteq> []" using assms(2) by auto
    then have v: "master_check_valid_path p" "f (path_parent p) \<noteq> None"
      using p assms(1) by (auto simp: tree_ok_def node_ok_def)
    then show False using less.hyps [OF path_parent_shorter [OF v(1)]] by simp
  qed
qed

lemma close_spec:
  assumes inv: "master_inv m" and s: "s \<in> set (sockets m)"
  shows "\<exists>m'. serve_close s m = Inr m' \<and> names m' = drop_owner s (names m) \<and> counter m' = counter m \<and> master_inv m' \<and>
    set (sockets m') = set (sockets m) - {s}"
proof -
  obtain m1 where m1: "disconnect_clear_data s m = Inr m1"
      "keeps (nodes m) (nodes m1) {p. map_option owner (nodes m p) = Some (Some s)}"
    using disconnect_ok [OF inv, of s] by auto
  have c: "counter m1 = counter m" using m1(1) counter_clear by (simp add: disconnect_clear_data_def)
  have "names m1 = drop_owner s (names m)"
  proof (cases "nodes m []")
    case None
    then have e: "nodes m p = None" for p using no_root_empty [of "nodes m" p] inv by (simp add: master_inv_def)
    then have "nodes m1 p = None" for p
      using m1(2) by (simp add: keeps_def)
    then have "nodes m1 = nodes m" using e by auto
    then have "names m1 = names m" by (rule names_cong)
    moreover have "names m p = (if p = [] then Some (None, []) else None)" for p
      using e ensure_root_inv(3) [OF inv, of p] by (simp add: names_def flat_def empty_node_def)
    ultimately show ?thesis by (auto simp: drop_owner_def fun_eq_iff)
  next
    case (Some n)
    then show ?thesis using disconnect_spec(1) [OF inv m1(1)] by simp
  qed
  moreover have "counter (m1\<lparr>watchers := w, sockets := x\<rparr>) = counter m1" "names (m1\<lparr>watchers := w, sockets := x\<rparr>) = names m1" for w x
    by simp_all
  ultimately show ?thesis using m1(1) c serve_close_ok [OF assms] s by (auto simp: serve_close_def)
qed

section \<open>Well-formed maps\<close>

definition names_ok :: "names \<Rightarrow> bool" where
  "names_ok N \<longleftrightarrow> open_node N [] \<and> (\<forall>p. N p \<noteq> None \<longrightarrow> p \<noteq> [] \<longrightarrow> master_check_valid_path p \<and> open_node N (path_parent p)) \<and>
     finite {p. N p \<noteq> None}"

lemma names_ok_inv:
  assumes "master_inv m"
  shows "names_ok (names m)"
proof -
  let ?m = "ensure_root m"
  have i: "master_inv ?m" by (rule ensure_root_inv(1) [OF assms])
  then have ok: "tree_ok (nodes ?m)" by (simp add: master_inv_def)
  have r: "nodes ?m [] \<noteq> None" by (auto simp: ensure_root_def get_nodes nodes_put)
  have "{p. nodes ?m p \<noteq> None} = set (map fst (tree ?m))"
    by (auto simp: nodes_def get_node_def map_of_eq_None_iff)
  then have "finite {p. nodes ?m p \<noteq> None}" by simp
  moreover have "open_node (names m) []" using ok r by (auto simp: names_def flat_open tree_ok_def)
  ultimately show ?thesis
    using ok by (auto simp: names_ok_def names_def tree_ok_def node_ok_def flat_open)
qed

lemma kids_finite: "names_ok N \<Longrightarrow> finite (kids N q)"
proof -
  assume "names_ok N"
  then have "finite {p. N p \<noteq> None}" by (simp add: names_ok_def)
  then have "finite ((\<lambda>k. q @ slash # k) -` {p. N p \<noteq> None})" by (rule finite_vimageI) (simp add: inj_def)
  moreover have "kids N q \<subseteq> (\<lambda>k. q @ slash # k) -` {p. N p \<noteq> None}" by (auto simp: kids_def)
  ultimately show ?thesis by (rule rev_finite_subset)
qed

lemma names_okD:
  assumes "names_ok N" "N p \<noteq> None" "p \<noteq> []"
  shows "master_check_valid_path p" "open_node N (path_parent p)"
  using assms unfolding names_ok_def by blast+

lemma kids_open: "names_ok N \<Longrightarrow> k \<in> kids N q \<Longrightarrow> open_node N q"
  using names_okD(2) [of N "q @ slash # k"] by (simp add: kids_def path_join)

lemma kids_upd:
  "path_parent p \<noteq> q \<Longrightarrow> kids (N(p := x)) q = kids N q"
  "k \<noteq> [] \<Longrightarrow> slash \<notin> set k \<Longrightarrow> kids (N(q @ slash # k \<mapsto> y)) q = insert k (kids N q)"
  "kids (N(q @ slash # k := None)) q = kids N q - {k}"
  by (auto simp: kids_def path_join)

lemma counter_range:
  assumes "master_inv m"
  shows "0 \<le> counter m q" "counter m q \<le> int_max"
  using assms by (fastforce simp: counter_def master_inv_def gen_ok_def int_max_def split: option.splits)+

section \<open>Properties\<close>

text \<open>C4. In every state the master reaches, a request of a connected client returns the reply that the flat map of
  names prescribes and changes the map and the counters of generated keys as prescribed, and a broken connection removes
  exactly the names its client owns.\<close>

theorem master_refines_names:
  assumes "reach (\<lambda>m. m = master_new) master_step m" "s \<in> set (sockets m)"
  shows "outcome (handle_op s req m) = spec_op s req (names m) (counter m) \<and>
    (\<exists>m'. serve_close s m = Inr m' \<and> names m' = drop_owner s (names m) \<and> counter m' = counter m)"
proof -
  have inv: "master_inv m" by (rule mt.inv_reach [OF assms(1)])
  show ?thesis using handle_op_spec [OF inv assms(2)] close_spec [OF inv assms(2)] by blast
qed

text \<open>A client removes the ephemeral node of another one, and the connection of the owner breaks.\<close>

theorem master_refines_names_witness:
  "outcome (handle_op 8 (MASTER_GET ''/a'') demo_added) = Inr (Status_value OK ''v'', names demo_added, counter demo_added) \<and>
   (\<exists>m'. serve_close 7 demo_added = Inr m' \<and> names m' ''/a'' = None)"
proof -
  have n: "names demo_added ''/a'' = Some (Some 7, ''v'')"
    by (simp add: names_def flat_def ensure_root_def nodes_def get_node_def demo_added_def)
  have s: "8 \<in> set (sockets demo_added)" "7 \<in> set (sockets demo_added)" by (simp_all add: demo_added_def)
  have "outcome (handle_op 8 (MASTER_GET ''/a'') demo_added) = Inr (Status_value OK ''v'', names demo_added, counter demo_added)"
    using master_refines_names [OF demo_added_reach s(1), of "MASTER_GET ''/a''"] n
    by (simp add: master_check_valid_path_def)
  moreover have "\<exists>m'. serve_close 7 demo_added = Inr m' \<and> names m' ''/a'' = None"
    using conjunct2 [OF master_refines_names [OF demo_added_reach s(2), of MASTER_EXIT]] n by (auto simp: drop_owner_def)
  ultimately show ?thesis by blast
qed

end
