(* ===== verification/Master_Client.thy ===== *)
theory Master_Client
  imports Lexical_Cast Rpc_Context Master_Names
begin

text \<open>
  The client of the master: \<open>src/rpc/MasterClient.h\<close>, \<open>src/rpc/MasterClient.cpp\<close> and the requests of
  \<open>src/rpc/TcpMasterClient.cpp\<close>.

  An operation of the client is a program of type \<open>'a mprog\<close>: it returns a value, fails a check, or makes a call to
  the master and goes on with the reply, where \<open>None\<close> means that the same call is made again. The last case is the
  loop of \<open>RETRY_MASTER_METHOD\<close> and also \<open>AsyncWatcher::wait\<close>, which tests its condition again. When that may happen is
  said where programs are run: alone (\<open>run_prog\<close>), a program whose condition is false waits for ever; interleaved call by
  call with other clients, the theory \<open>Master_Lock\<close> allows a new test at any time, as safety needs no more, and in
  \<open>Master_Wait\<close> the client sleeps until a notification of the master wakes it up. \<open>tree_clear_path\<close> is the only loop without a bound in its
  text; it has fuel, and \<open>Out_of_fuel\<close> is a program that does not return.

  The first argument \<open>root\<close> is the member \<open>_root_path\<close>, \<open>locks\<close> is \<open>_acquired_lock\<close>. The JSON text of a node is
  written and read by a library; it is a parameter. The table of watchers is a separate record, as its callbacks only
  wake up threads.
\<close>

section \<open>Programs that call the master\<close>

datatype 'a mprog =
    Done 'a
  | Abort fault
  | Out_of_fuel
  | Call master_req "reply \<Rightarrow> 'a mprog option"

primrec mbind :: "'a mprog \<Rightarrow> ('a \<Rightarrow> 'b mprog) \<Rightarrow> 'b mprog" where
  "mbind (Done a) f = f a"
| "mbind (Abort e) f = Abort e"
| "mbind Out_of_fuel f = Out_of_fuel"
| "mbind (Call req k) f = Call req (\<lambda>r. map_option (\<lambda>p. mbind p f) (k r))"

definition mcheck :: "bool \<Rightarrow> unit mprog" where
  "mcheck b = (if b then Done () else Abort Check_failed)"

definition mres :: "'a res \<Rightarrow> 'a mprog" where
  "mres r = (case r of Inl e \<Rightarrow> Abort e | Inr a \<Rightarrow> Done a)"

text \<open>A loop that appends to a vector what the body produces, if anything.\<close>

primrec mcollect :: "('x \<Rightarrow> 'y option mprog) \<Rightarrow> 'x list \<Rightarrow> 'y list mprog" where
  "mcollect f [] = Done []"
| "mcollect f (x # xs) =
     mbind (f x) (\<lambda>y. mbind (mcollect f xs) (\<lambda>ys. Done (case y of None \<Rightarrow> ys | Some y' \<Rightarrow> y' # ys)))"

text \<open>A call of connection \<open>sock\<close>: the master handles the request and sends the reply.\<close>

definition master_call :: "nat \<Rightarrow> master_req \<Rightarrow> master \<Rightarrow> (reply \<times> master) res" where
  "master_call sock req m =
     rbind (scheck (sock \<in> set (sockets m))) (\<lambda>_.
     rbind (handle_op sock req m) (\<lambda>(r, m1).
       Inr (r, m1\<lparr>outbox := outbox m1 @ [(sock, Response r)]\<rparr>)))"

text \<open>A program alone: \<open>None\<close> if it waits for ever.\<close>

primrec run_prog :: "'a mprog \<Rightarrow> nat \<Rightarrow> master \<Rightarrow> ('a \<times> master) res option" where
  "run_prog (Done a) sock m = Some (Inr (a, m))"
| "run_prog (Abort e) sock m = Some (Inl e)"
| "run_prog Out_of_fuel sock m = None"
| "run_prog (Call req k) sock m =
     (case master_call sock req m of
        Inl e \<Rightarrow> Some (Inl e)
      | Inr (r, m1) \<Rightarrow>
          (case map_option run_prog (k r) of
             None \<Rightarrow> None
           | Some f \<Rightarrow> f sock m1))"

section \<open>Requests of TcpMasterClient\<close>

text \<open>\<open>RPC_METHOD\<close>: the status, \<open>ERROR\<close> when the reply has no body, and the value when the status is \<open>OK\<close>.\<close>

fun status_of :: "reply \<Rightarrow> master_status" where
  "status_of (Status st) = st"
| "status_of (Status_key st k) = st"
| "status_of (Status_value st v) = st"
| "status_of (Status_children st cs) = st"
| "status_of No_reply_body = ERROR"

fun key_of :: "reply \<Rightarrow> string" where
  "key_of (Status_key OK k) = k"
| "key_of r = []"

fun value_of :: "reply \<Rightarrow> string" where
  "value_of (Status_value OK v) = v"
| "value_of r = []"

fun children_of :: "reply \<Rightarrow> string list" where
  "children_of (Status_children OK cs) = cs"
| "children_of r = []"

section \<open>Nodes of the tree\<close>

definition PATH_NODE :: string where "PATH_NODE = ''_node_''"
definition PATH_TASK_STATE :: string where "PATH_TASK_STATE = ''_task_state_''"
definition PATH_GENERATE_ID :: string where "PATH_GENERATE_ID = ''_id_gen_''"
definition PATH_LOCK :: string where "PATH_LOCK = ''_lock_''"
definition PATH_BARRIER :: string where "PATH_BARRIER = ''_barrier_''"
definition PATH_RPC :: string where "PATH_RPC = ''_rpc_''"
definition PATH_CONTEXT :: string where "PATH_CONTEXT = ''_context_''"
definition PATH_MODEL :: string where "PATH_MODEL = ''_model_''"

definition client_root :: "string \<Rightarrow> string" where
  "client_root root_path =
     (if root_path = [] then [slash]
      else let r1 = (if hd root_path \<noteq> slash then slash # root_path else root_path)
           in if last r1 \<noteq> slash then r1 @ [slash] else r1)"

text \<open>\<open>RETRY_MASTER_METHOD\<close>, with what is done after the loop.\<close>

definition retry_master_method ::
  "string \<Rightarrow> string \<Rightarrow> (string \<Rightarrow> master_req) \<Rightarrow> (master_status \<Rightarrow> reply \<Rightarrow> 'a mprog option) \<Rightarrow> 'a mprog" where
  "retry_master_method root path req f =
     (if \<not> master_check_valid_path (root @ path) then Abort Check_failed
      else Call (req (root @ path)) (\<lambda>r.
        if status_of r = ERROR then Some (Abort Check_failed)
        else if status_of r = DISCONNECTED then None
        else f (status_of r) r))"

definition tree_node_gen :: "string \<Rightarrow> string \<Rightarrow> string \<Rightarrow> bool \<Rightarrow> string mprog" where
  "tree_node_gen root path val ephemeral =
     retry_master_method root path (\<lambda>p. MASTER_GEN p val ephemeral) (\<lambda>st r. Some (Done (key_of r)))"

definition tree_node_add :: "string \<Rightarrow> string \<Rightarrow> string \<Rightarrow> bool \<Rightarrow> bool mprog" where
  "tree_node_add root path val ephemeral =
     retry_master_method root path (\<lambda>p. MASTER_ADD p val ephemeral) (\<lambda>st r. Some (Done (st = OK)))"

definition tree_node_set :: "string \<Rightarrow> string \<Rightarrow> string \<Rightarrow> bool mprog" where
  "tree_node_set root path val = retry_master_method root path (\<lambda>p. MASTER_SET p val) (\<lambda>st r. Some (Done (st = OK)))"

definition tree_node_get :: "string \<Rightarrow> string \<Rightarrow> string option mprog" where
  "tree_node_get root path =
     retry_master_method root path MASTER_GET (\<lambda>st r. Some (Done (if st = OK then Some (value_of r) else None)))"

definition tree_node_del :: "string \<Rightarrow> string \<Rightarrow> bool mprog" where
  "tree_node_del root path = retry_master_method root path MASTER_DEL (\<lambda>st r. Some (Done (st = OK)))"

definition tree_node_sub :: "string \<Rightarrow> string \<Rightarrow> string list option mprog" where
  "tree_node_sub root path =
     retry_master_method root path MASTER_SUB (\<lambda>st r. Some (Done (if st = OK then Some (children_of r) else None)))"

text \<open>The two calls of \<open>tree_watch\<close>, whose results are not used; the callback is entered by \<open>watcher_insert\<close>.\<close>

definition tree_watch :: "string \<Rightarrow> string \<Rightarrow> unit mprog" where
  "tree_watch root path =
     (if \<not> master_check_valid_path (root @ path) then Abort Check_failed
      else Call (MASTER_GET (root @ path)) (\<lambda>_. Some (Call (MASTER_SUB (root @ path)) (\<lambda>_. Some (Done ())))))"

text \<open>\<open>watcher.wait(condition)\<close> for a condition that makes one call. \<open>None\<close> is a condition that is false: the thread sleeps,
  and the call is made again when it has been woken up (theory \<open>Master_Wait\<close>).\<close>

definition wait_get :: "string \<Rightarrow> string \<Rightarrow> (string option \<Rightarrow> bool) \<Rightarrow> unit mprog" where
  "wait_get root path cond =
     retry_master_method root path MASTER_GET
       (\<lambda>st r. if cond (if st = OK then Some (value_of r) else None) then Some (Done ()) else None)"

definition wait_sub :: "string \<Rightarrow> string \<Rightarrow> (string list \<Rightarrow> bool res) \<Rightarrow> unit mprog" where
  "wait_sub root path cond =
     retry_master_method root path MASTER_SUB
       (\<lambda>st r. if st \<noteq> OK then Some (Abort Check_failed)
               else case cond (children_of r) of
                      Inl e \<Rightarrow> Some (Abort e)
                    | Inr b \<Rightarrow> if b then Some (Done ()) else None)"

fun tree_clear_path :: "nat \<Rightarrow> string \<Rightarrow> string \<Rightarrow> unit mprog" and
    clear_children :: "nat \<Rightarrow> string \<Rightarrow> string \<Rightarrow> string list \<Rightarrow> unit mprog" where
  "tree_clear_path 0 root path = Out_of_fuel"
| "tree_clear_path (Suc n) root path =
     mbind (tree_node_sub root path) (\<lambda>children.
       case children of
         None \<Rightarrow> Done ()
       | Some cs \<Rightarrow>
           mbind (clear_children n root path cs) (\<lambda>_.
           mbind (tree_node_del root path) (\<lambda>_.
           tree_clear_path n root path)))"
| "clear_children n root path [] = Done ()"
| "clear_children n root path (child # cs) =
     mbind (tree_clear_path n root (path @ slash # child)) (\<lambda>_. clear_children n root path cs)"

section \<open>Initialisation\<close>

text \<open>\<open>boost::split\<close> at every slash.\<close>

fun split_path :: "string \<Rightarrow> string list" where
  "split_path [] = [[]]"
| "split_path (c # cs) =
     (if c = slash then [] # split_path cs
      else case split_path cs of seg # segs \<Rightarrow> (c # seg) # segs | [] \<Rightarrow> [[c]])"

text \<open>The values of \<open>cur\<close> in the loops over the segments.\<close>

fun cur_paths :: "string \<Rightarrow> string list \<Rightarrow> string list" where
  "cur_paths cur [] = []"
| "cur_paths cur (seg # segs) =
     (if seg \<noteq> [] then let cur1 = cur @ slash # seg in cur1 # cur_paths cur1 segs else cur_paths cur segs)"

fun add_nodes :: "string \<Rightarrow> string list \<Rightarrow> unit mprog" where
  "add_nodes root [] = Done ()"
| "add_nodes root (path # paths) = mbind (tree_node_add root path [] False) (\<lambda>_. add_nodes root paths)"

definition client_initialize :: "string \<Rightarrow> bool mprog" where
  "client_initialize root =
     mbind (add_nodes [] (cur_paths [] (split_path root))) (\<lambda>_.
     mbind (add_nodes root [PATH_NODE, PATH_TASK_STATE, PATH_RPC, PATH_GENERATE_ID, PATH_LOCK, PATH_BARRIER,
                            PATH_CONTEXT, PATH_MODEL]) (\<lambda>_.
     Done True))"

text \<open>\<open>master_sub\<close> is called once and directly: no check of the path, no retry.\<close>

fun clear_each :: "nat \<Rightarrow> string \<Rightarrow> string list \<Rightarrow> unit mprog" where
  "clear_each n root [] = Done ()"
| "clear_each n root (child # cs) = mbind (tree_clear_path n root child) (\<lambda>_. clear_each n root cs)"

definition clear_master :: "nat \<Rightarrow> string \<Rightarrow> unit mprog" where
  "clear_master n root = Call (MASTER_SUB (butlast root)) (\<lambda>r. Some (clear_each n root (children_of r)))"

section \<open>State of the task\<close>

definition set_task_ready :: "string \<Rightarrow> unit mprog" where
  "set_task_ready root = mbind (tree_node_add root (PATH_TASK_STATE @ ''/ready'') [] False) mcheck"

definition set_task_failed :: "string \<Rightarrow> string \<Rightarrow> bool mprog" where
  "set_task_failed root msg = tree_node_add root (PATH_TASK_STATE @ ''/fail'') msg False"

definition get_task_ready :: "string \<Rightarrow> bool mprog" where
  "get_task_ready root = mbind (tree_node_get root (PATH_TASK_STATE @ ''/ready'')) (\<lambda>v. Done (v \<noteq> None))"

definition get_task_failed :: "string \<Rightarrow> string option mprog" where
  "get_task_failed root = tree_node_get root (PATH_TASK_STATE @ ''/fail'')"

definition add_task_node :: "string \<Rightarrow> 16 word \<Rightarrow> string \<Rightarrow> bool mprog" where
  "add_task_node root g_rank role =
     mbind (tree_node_add root (PATH_TASK_STATE @ ''/node'') [] False) (\<lambda>_.
     tree_node_add root (PATH_TASK_STATE @ ''/node/'' @ to_string (sint g_rank)) role False)"

definition del_task_node :: "string \<Rightarrow> 16 word \<Rightarrow> bool mprog" where
  "del_task_node root g_rank = tree_node_del root (PATH_TASK_STATE @ ''/node/'' @ to_string (sint g_rank))"

text \<open>\<open>pico_lexical_cast_check<int>\<close>, and its conversion to \<open>comm_rank_t\<close>.\<close>

definition int_cast :: "string \<Rightarrow> 32 word mprog" where
  "int_cast s = mres (pico_lexical_cast_check (cast_int32 (Some s) 0))"

definition rank_cast :: "string \<Rightarrow> 16 word mprog" where
  "rank_cast s = mbind (int_cast s) (\<lambda>i. Done (ucast i))"

definition get_task_node :: "string \<Rightarrow> string \<Rightarrow> 16 word list option mprog" where
  "get_task_node root role =
     mbind (tree_node_sub root (PATH_TASK_STATE @ ''/node'')) (\<lambda>ranks.
       case ranks of
         None \<Rightarrow> Done None
       | Some rs \<Rightarrow>
           mbind (mcollect (\<lambda>rank.
             if role = [] then mbind (rank_cast rank) (\<lambda>i. Done (Some i))
             else mbind (tree_node_get root (PATH_TASK_STATE @ ''/node/'' @ rank)) (\<lambda>rank_role.
               if rank_role \<noteq> None \<and> (the rank_role = role \<or> role = []) then mbind (rank_cast rank) (\<lambda>i. Done (Some i))
               else Done None)) rs) (\<lambda>g_rank. Done (Some g_rank)))"

definition wait_task_ready :: "string \<Rightarrow> unit mprog" where
  "wait_task_ready root =
     mbind (tree_watch root PATH_TASK_STATE) (\<lambda>_. wait_get root (PATH_TASK_STATE @ ''/ready'') (\<lambda>v. v \<noteq> None))"

text \<open>The message handed to the callback, if there is one already.\<close>

definition watch_task_fail :: "string \<Rightarrow> string option mprog" where
  "watch_task_fail root =
     mbind (tree_watch root (PATH_TASK_STATE @ ''/fail'')) (\<lambda>_. tree_node_get root (PATH_TASK_STATE @ ''/fail''))"

definition watch_task_node :: "string \<Rightarrow> unit mprog" where
  "watch_task_node root = tree_watch root (PATH_TASK_STATE @ ''/node'')"

definition watch_comm_node :: "string \<Rightarrow> unit mprog" where
  "watch_comm_node root = tree_watch root PATH_NODE"

section \<open>Nodes of the cluster\<close>

definition register_node :: "(comm_info \<Rightarrow> string) \<Rightarrow> string \<Rightarrow> comm_info \<Rightarrow> unit mprog" where
  "register_node to_json root info =
     mbind (tree_node_add root (PATH_NODE @ ''/'' @ to_string (sint (global_rank info))) (to_json info) True) mcheck"

text \<open>The JSON text is read into \<open>info\<close> also when the node was not found; the reader leaves out what it cannot read.\<close>

definition get_comm_info_of ::
  "(string \<Rightarrow> comm_info \<Rightarrow> comm_info) \<Rightarrow> string \<Rightarrow> 16 word \<Rightarrow> comm_info \<Rightarrow> (bool \<times> comm_info) mprog" where
  "get_comm_info_of from_json root g_rank info =
     mbind (tree_node_get root (PATH_NODE @ ''/'' @ to_string (sint g_rank))) (\<lambda>str.
       Done (str \<noteq> None, from_json (case str of None \<Rightarrow> [] | Some s \<Rightarrow> s) info))"

definition get_comm_info_all ::
  "(string \<Rightarrow> comm_info \<Rightarrow> comm_info) \<Rightarrow> comm_info \<Rightarrow> string \<Rightarrow> comm_info list mprog" where
  "get_comm_info_all from_json blank root =
     mbind (tree_node_sub root PATH_NODE) (\<lambda>ranks.
       mcollect (\<lambda>rank.
         mbind (rank_cast rank) (\<lambda>i.
         mbind (get_comm_info_of from_json root i blank) (\<lambda>(ret, tmp).
           Done (if ret then Some tmp else None)))) (case ranks of None \<Rightarrow> [] | Some rs \<Rightarrow> rs))"

definition watch_node :: "string \<Rightarrow> unit mprog" where
  "watch_node root = mbind (tree_node_add root PATH_NODE [] False) (\<lambda>_. tree_watch root PATH_NODE)"

section \<open>Barriers and locks\<close>

definition barrier :: "string \<Rightarrow> string \<Rightarrow> nat \<Rightarrow> unit mprog" where
  "barrier root barrier_name number =
     (let base_path = PATH_BARRIER @ slash # barrier_name;
          node_path = base_path @ ''/node'';
          ready_path = base_path @ ''/ready''
      in mbind (tree_watch root ready_path) (\<lambda>_.
         mbind (wait_get root ready_path (\<lambda>v. v = None)) (\<lambda>_.
         mbind (tree_node_add root base_path [] False) (\<lambda>_.
         mbind (tree_node_add root node_path [] False) (\<lambda>_.
         mbind (tree_node_gen root node_path [] True) (\<lambda>gen.
         mbind (mcheck (gen \<noteq> [])) (\<lambda>_.
         mbind (tree_node_sub root node_path) (\<lambda>children.
         case children of
           None \<Rightarrow> Abort Check_failed
         | Some cs \<Rightarrow>
             if length cs = number \<and> cs = [] then Abort Out_of_bounds
             else if length cs = number \<and> gen = last cs then
               mbind (tree_watch root node_path) (\<lambda>_.
               mbind (tree_node_add root ready_path [] True) (\<lambda>ok.
               mbind (mcheck ok) (\<lambda>_.
               mbind (wait_sub root node_path (\<lambda>cs1. Inr (length cs1 = 1))) (\<lambda>_.
               mbind (tree_node_del root (node_path @ slash # gen)) (\<lambda>ok1.
               mbind (mcheck ok1) (\<lambda>_.
               mbind (tree_node_del root ready_path) mcheck))))))
             else
               mbind (wait_get root ready_path (\<lambda>v. v \<noteq> None)) (\<lambda>_.
               mbind (tree_node_del root (node_path @ slash # gen)) mcheck)))))))))"

definition lock_path :: "string \<Rightarrow> string" where
  "lock_path lock_name = PATH_LOCK @ slash # lock_name"

definition first_child_is :: "string \<Rightarrow> string list \<Rightarrow> bool res" where
  "first_child_is gen children = (case children of [] \<Rightarrow> Inl Out_of_bounds | c # cs \<Rightarrow> Inr (gen = c))"

definition acquire_lock :: "string \<Rightarrow> string \<Rightarrow> (string \<times> string) list \<Rightarrow> (string \<times> string) list mprog" where
  "acquire_lock root lock_name locks =
     mbind (tree_node_add root (lock_path lock_name) [] False) (\<lambda>_.
     mbind (tree_node_gen root (lock_path lock_name) [] True) (\<lambda>gen.
     mbind (mcheck (gen \<noteq> [])) (\<lambda>_.
     mbind (tree_watch root (lock_path lock_name)) (\<lambda>_.
     mbind (wait_sub root (lock_path lock_name) (first_child_is gen)) (\<lambda>_.
     mbind (mcheck (map_of locks lock_name = None)) (\<lambda>_.
     Done ((lock_name, lock_path lock_name @ slash # gen) # locks)))))))"

definition release_lock :: "string \<Rightarrow> string \<Rightarrow> (string \<times> string) list \<Rightarrow> (string \<times> string) list mprog" where
  "release_lock root lock_name locks =
     (case map_of locks lock_name of
        None \<Rightarrow> Abort Check_failed
      | Some path \<Rightarrow>
          mbind (tree_node_del root path) (\<lambda>ok.
          mbind (mcheck ok) (\<lambda>_.
          Done (AList.delete lock_name locks))))"

section \<open>Ids\<close>

text \<open>\<open>std::stoi\<close>: an exception when there is no number or it does not fit an \<open>int\<close>.\<close>

definition stoi :: "string \<Rightarrow> 32 word mprog" where
  "stoi s =
     (case strtol s of
        (v, n, out) \<Rightarrow>
          if n = 0 then Abort Check_failed
          else if out \<or> v < - (2 ^ 31) \<or> 2 ^ 31 \<le> v then Abort Overflow
          else Done (word_of_int v))"

text \<open>The result \<open>size_t\<close> of an \<open>int\<close> is its sign extension.\<close>

definition generate_id :: "string \<Rightarrow> string \<Rightarrow> 64 word mprog" where
  "generate_id root key =
     (let path = PATH_GENERATE_ID @ slash # key
      in mbind (tree_node_add root path [] False) (\<lambda>_.
         mbind (tree_node_gen root path [] True) (\<lambda>gen.
         mbind (mcheck (length gen > 1)) (\<lambda>_.
         mbind (stoi (drop 1 gen)) (\<lambda>i.
         Done (scast i))))))"

definition reset_generate_id :: "nat \<Rightarrow> string \<Rightarrow> string \<Rightarrow> unit mprog" where
  "reset_generate_id n root key = tree_clear_path n root (PATH_GENERATE_ID @ slash # key)"

text \<open>The loop over \<open>children\<close> in \<open>alloc_role_rank\<close>: the last position of \<open>global_rank\<close>, and all ranks.\<close>

fun find_role_rank :: "16 word \<Rightarrow> nat \<Rightarrow> string list \<Rightarrow> 16 word \<Rightarrow> (16 word \<times> 16 word list) mprog" where
  "find_role_rank g_rank i [] role_rank = Done (role_rank, [])"
| "find_role_rank g_rank i (child # cs) role_rank =
     mbind (rank_cast child) (\<lambda>rank.
     mbind (find_role_rank g_rank (i + 1) cs (if rank = g_rank then of_nat i else role_rank)) (\<lambda>(rr, all).
     Done (rr, rank # all)))"

definition alloc_role_rank ::
  "nat \<Rightarrow> string \<Rightarrow> string \<Rightarrow> nat \<Rightarrow> 16 word \<Rightarrow> 16 word \<Rightarrow> (16 word \<times> 16 word list) mprog" where
  "alloc_role_rank n root role role_num g_rank role_rank =
     (let key = ''alloc_role_rank_'' @ role
      in mbind (tree_clear_path n root key) (\<lambda>_.
         mbind (barrier root key role_num) (\<lambda>_.
         mbind (tree_node_add root key [] False) (\<lambda>_.
         mbind (tree_node_add root (key @ slash # to_string (sint g_rank)) [] False) (\<lambda>ok.
         mbind (mcheck ok) (\<lambda>_.
         mbind (barrier root key role_num) (\<lambda>_.
         mbind (tree_node_sub root key) (\<lambda>children.
         let cs = (case children of None \<Rightarrow> [] | Some cs1 \<Rightarrow> cs1)
         in mbind (mcheck (length cs = role_num)) (\<lambda>_.
            mbind (find_role_rank g_rank 0 cs role_rank) (\<lambda>res.
            mbind (barrier root key role_num) (\<lambda>_.
            Done res)))))))))))"

section \<open>Storages and models\<close>

definition storage_path :: "32 word \<Rightarrow> string" where
  "storage_path storage_id = PATH_CONTEXT @ slash # to_string (sint storage_id)"

definition add_context :: "string \<Rightarrow> 32 word \<Rightarrow> string \<Rightarrow> bool mprog" where
  "add_context root storage_id ctxt = tree_node_add root (storage_path storage_id) ctxt False"

definition set_context :: "string \<Rightarrow> 32 word \<Rightarrow> string \<Rightarrow> bool mprog" where
  "set_context root storage_id ctxt = tree_node_set root (storage_path storage_id) ctxt"

definition get_context :: "string \<Rightarrow> 32 word \<Rightarrow> string option mprog" where
  "get_context root storage_id = tree_node_get root (storage_path storage_id)"

definition delete_storage :: "string \<Rightarrow> 32 word \<Rightarrow> bool mprog" where
  "delete_storage root storage_id = tree_node_del root (storage_path storage_id)"

definition get_storage_list :: "string \<Rightarrow> 32 word list mprog" where
  "get_storage_list root =
     mbind (tree_node_sub root PATH_CONTEXT) (\<lambda>ids.
       case ids of
         None \<Rightarrow> Abort Check_failed
       | Some cs \<Rightarrow> mcollect (\<lambda>s. mbind (int_cast s) (\<lambda>i. Done (Some i))) cs)"

definition model_path :: "string \<Rightarrow> string" where
  "model_path name = PATH_MODEL @ slash # name"

definition add_model :: "string \<Rightarrow> string \<Rightarrow> string \<Rightarrow> bool mprog" where
  "add_model root name model = tree_node_add root (model_path name) model False"

definition set_model :: "string \<Rightarrow> string \<Rightarrow> string \<Rightarrow> bool mprog" where
  "set_model root name model = tree_node_set root (model_path name) model"

definition get_model :: "string \<Rightarrow> string \<Rightarrow> string option mprog" where
  "get_model root name = tree_node_get root (model_path name)"

definition del_model :: "string \<Rightarrow> string \<Rightarrow> bool mprog" where
  "del_model root name = tree_node_del root (model_path name)"

definition get_model_names :: "string \<Rightarrow> string list mprog" where
  "get_model_names root =
     mbind (tree_node_sub root PATH_MODEL) (\<lambda>names. case names of None \<Rightarrow> Abort Check_failed | Some ns \<Rightarrow> Done ns)"

definition watch_model :: "string \<Rightarrow> string \<Rightarrow> unit mprog" where
  "watch_model root name = tree_watch root (model_path name)"

section \<open>Services\<close>

definition api_path :: "string \<Rightarrow> string" where
  "api_path api = PATH_RPC @ slash # api"

definition service_path :: "string \<Rightarrow> string \<Rightarrow> string" where
  "service_path api name = api_path api @ slash # name"

text \<open>The body of the loop over the servers.\<close>

definition read_server :: "string \<Rightarrow> string \<Rightarrow> string \<Rightarrow> string \<Rightarrow> server_info option mprog" where
  "read_server root api name sv_id =
     mbind (tree_node_get root (service_path api name @ slash # sv_id)) (\<lambda>g_rank.
       case g_rank of
         None \<Rightarrow> Done None
       | Some gr \<Rightarrow>
           mbind (int_cast sv_id) (\<lambda>i.
           mbind (rank_cast gr) (\<lambda>rk.
           Done (Some \<lparr>server_id = i, server_rank = rk\<rparr>))))"

definition get_rpc_service_info_of :: "string \<Rightarrow> string \<Rightarrow> string \<Rightarrow> rpc_service_info option mprog" where
  "get_rpc_service_info_of root api name =
     mbind (tree_node_get root (service_path api name)) (\<lambda>id_str.
       case id_str of
         None \<Rightarrow> Done None
       | Some s \<Rightarrow>
           mbind (int_cast s) (\<lambda>rid.
           mbind (tree_node_sub root (service_path api name)) (\<lambda>sids.
           case sids of
             None \<Rightarrow> Done None
           | Some cs \<Rightarrow>
               mbind (mcollect (read_server root api name) cs) (\<lambda>srvs.
               Done (Some \<lparr>rpc_service_name = name, service_rpc_id = rid, servers = srvs\<rparr>)))))"

definition get_rpc_service_info_all :: "string \<Rightarrow> string \<Rightarrow> rpc_service_info list option mprog" where
  "get_rpc_service_info_all root api =
     mbind (tree_node_sub root (api_path api)) (\<lambda>names.
       case names of
         None \<Rightarrow> Done None
       | Some ns \<Rightarrow> mbind (mcollect (get_rpc_service_info_of root api) ns) (\<lambda>out. Done (Some out)))"

definition del_rpc_service_info :: "string \<Rightarrow> string \<Rightarrow> string \<Rightarrow> bool mprog" where
  "del_rpc_service_info root api name = tree_node_del root (service_path api name)"

definition watch_rpc_service_info :: "string \<Rightarrow> string \<Rightarrow> unit mprog" where
  "watch_rpc_service_info root api =
     mbind (tree_node_add root (api_path api) [] False) (\<lambda>_. tree_watch root (api_path api))"

definition rpc_key :: "string \<Rightarrow> string \<Rightarrow> string" where
  "rpc_key api name = api @ ''$'' @ name"

text \<open>The id of the service: the stored one, or a new one that is stored.\<close>

definition find_or_generate :: "string \<Rightarrow> string \<Rightarrow> string \<Rightarrow> 32 word mprog" where
  "find_or_generate root api name =
     mbind (tree_node_get root (service_path api name)) (\<lambda>info_str.
       case info_str of
         None \<Rightarrow>
           mbind (generate_id root api) (\<lambda>i.
           mbind (tree_node_add root (service_path api name) (to_string (sint (ucast i :: 32 word))) False) (\<lambda>_.
           Done (ucast i)))
       | Some s \<Rightarrow> int_cast s)"

definition register_rpc_service ::
  "string \<Rightarrow> string \<Rightarrow> string \<Rightarrow> (string \<times> string) list \<Rightarrow> (32 word \<times> (string \<times> string) list) mprog" where
  "register_rpc_service root api name locks =
     mbind (acquire_lock root (rpc_key api name) locks) (\<lambda>locks1.
     mbind (tree_node_add root (api_path api) [] False) (\<lambda>_.
     mbind (find_or_generate root api name) (\<lambda>rid.
     mbind (release_lock root (rpc_key api name) locks1) (\<lambda>locks2.
     Done (rid, locks2)))))"

definition deregister_rpc_service ::
  "string \<Rightarrow> string \<Rightarrow> string \<Rightarrow> (string \<times> string) list \<Rightarrow> (bool \<times> (string \<times> string) list) mprog" where
  "deregister_rpc_service root api name locks =
     mbind (acquire_lock root (rpc_key api name) locks) (\<lambda>locks1.
     mbind (del_rpc_service_info root api name) (\<lambda>ret.
     mbind (release_lock root (rpc_key api name) locks1) (\<lambda>locks2.
     Done (ret, locks2))))"

definition server_path :: "string \<Rightarrow> string \<Rightarrow> 32 word \<Rightarrow> string" where
  "server_path api name sv_id = service_path api name @ slash # to_string (sint sv_id)"

text \<open>The returned flag, rpc id and server id, and the table of locks.\<close>

definition register_server ::
  "string \<Rightarrow> string \<Rightarrow> string \<Rightarrow> 32 word \<Rightarrow> 32 word \<Rightarrow> (string \<times> string) list
    \<Rightarrow> (bool \<times> 32 word \<times> 32 word \<times> (string \<times> string) list) mprog" where
  "register_server root api name rank sv_id locks =
     mbind (register_rpc_service root api name locks) (\<lambda>(rid, locks1).
     mbind (if sv_id = -1 then mbind (generate_id root (rpc_key api name)) (\<lambda>i. Done (ucast i)) else Done sv_id) (\<lambda>sv_id1.
     mbind (tree_node_add root (server_path api name sv_id1) (to_string (sint rank)) True) (\<lambda>ok.
     Done (ok, rid, sv_id1, locks1))))"

definition deregister_server :: "string \<Rightarrow> string \<Rightarrow> string \<Rightarrow> 32 word \<Rightarrow> bool mprog" where
  "deregister_server root api name sv_id = tree_node_del root (server_path api name sv_id)"

section \<open>Watchers\<close>

text \<open>\<open>WatcherTable\<close>: \<open>wt_this\<close> is its address, and the iterator in a handle is the number of its entry.\<close>

type_synonym watcher_handle = "nat \<times> string \<times> nat"

record 'cb watcher_table =
  wt_this :: nat
  wt_map :: "(string \<times> (nat \<times> 'cb) list) list"
  wt_next :: nat

definition watcher_list :: "string \<Rightarrow> 'cb watcher_table \<Rightarrow> (nat \<times> 'cb) list" where
  "watcher_list key t = (case map_of (wt_map t) key of None \<Rightarrow> [] | Some ws \<Rightarrow> ws)"

definition watcher_insert :: "string \<Rightarrow> 'cb \<Rightarrow> 'cb watcher_table \<Rightarrow> watcher_handle \<times> 'cb watcher_table" where
  "watcher_insert key cb t =
     ((wt_this t, key, wt_next t),
      t\<lparr>wt_map := AList.update key (watcher_list key t @ [(wt_next t, cb)]) (wt_map t), wt_next := wt_next t + 1\<rparr>)"

definition watcher_erase :: "watcher_handle \<Rightarrow> 'cb watcher_table \<Rightarrow> 'cb watcher_table res" where
  "watcher_erase handle t =
     (case handle of (table, key, w) \<Rightarrow>
        rbind (scheck (table = wt_this t)) (\<lambda>_.
        case map_of (wt_map t) key of
          None \<Rightarrow> Inl Check_failed
        | Some ws \<Rightarrow>
            if map_of ws w = None then Inl Out_of_bounds
            else let ws1 = AList.delete w ws
                 in Inr (t\<lparr>wt_map := (if ws1 = [] then AList.delete key (wt_map t) else AList.update key ws1 (wt_map t))\<rparr>)))"

definition watcher_invoke :: "string \<Rightarrow> 'cb watcher_table \<Rightarrow> 'cb list" where
  "watcher_invoke key t = map snd (watcher_list key t)"

definition watcher_destroy :: "'cb watcher_table \<Rightarrow> unit res" where
  "watcher_destroy t = scheck (wt_map t = [])"

text \<open>\<open>MasterClient::notify_watchers\<close>: the callbacks that run, in order.\<close>

definition client_notify :: "string \<Rightarrow> 'cb watcher_table \<Rightarrow> 'cb list" where
  "client_notify path t = concat (map (\<lambda>cur. watcher_invoke cur t) (cur_paths [] (split_path path)))"

section \<open>Programs against the specification of the master\<close>

primrec spec_run ::
  "'a mprog \<Rightarrow> nat \<Rightarrow> names \<Rightarrow> (string \<Rightarrow> int) \<Rightarrow> ('a \<times> names \<times> (string \<Rightarrow> int)) res option" where
  "spec_run (Done a) s N C = Some (Inr (a, N, C))"
| "spec_run (Abort e) s N C = Some (Inl e)"
| "spec_run Out_of_fuel s N C = None"
| "spec_run (Call req k) s N C =
     (case spec_op s req N C of
        Inl e \<Rightarrow> Some (Inl e)
      | Inr (r, N1, C1) \<Rightarrow>
          (case map_option spec_run (k r) of
             None \<Rightarrow> None
           | Some f \<Rightarrow> f s N1 C1))"

definition view :: "('a \<times> master) res option \<Rightarrow> ('a \<times> names \<times> (string \<Rightarrow> int)) res option" where
  "view r = map_option (map_sum id (\<lambda>(a, m). (a, names m, counter m))) r"

lemma master_call_ok:
  assumes inv: "master_inv m" and s: "s \<in> set (sockets m)"
  shows "outcome (master_call s req m) = spec_op s req (names m) (counter m)"
    and "master_call s req m = Inr (r, m1) \<Longrightarrow>
      master_inv m1 \<and> sockets m1 = sockets m \<and> spec_op s req (names m) (counter m) = Inr (r, names m1, counter m1)"
proof -
  have o: "outcome (handle_op s req m) = spec_op s req (names m) (counter m)" by (rule handle_op_spec [OF assms])
  show e: "outcome (master_call s req m) = spec_op s req (names m) (counter m)"
    unfolding o [symmetric] master_call_def using s by (cases "handle_op s req m") auto
  assume m1: "master_call s req m = Inr (r, m1)"
  then obtain m2 where m2: "handle_op s req m = Inr (r, m2)" "m1 = m2\<lparr>outbox := outbox m2 @ [(s, Response r)]\<rparr>"
    using s by (auto simp: master_call_def prpc_simps)
  have "keeps_inv m (handle_op s req m)" using handle_op_keeps [OF assms, of req] m2(1) by auto
  then have "master_inv m1 \<and> sockets m1 = sockets m" using m2 by (auto simp: master_inv_def)
  then show "master_inv m1 \<and> sockets m1 = sockets m \<and> spec_op s req (names m) (counter m) = Inr (r, names m1, counter m1)"
    using e m1 by simp
qed

lemma run_spec:
  assumes "master_inv m" "s \<in> set (sockets m)"
  shows "view (run_prog p s m) = spec_run p s (names m) (counter m)"
  using assms
proof (induction p arbitrary: m)
  case (Call req k)
  show ?case
  proof (cases "master_call s req m")
    case (Inl e)
    then show ?thesis using master_call_ok(1) [OF Call.prems, of req] by (simp add: view_def) (metis outcome_simps(1) sum.case(1))
  next
    case (Inr rm)
    then obtain r m1 where c: "master_call s req m = Inr (r, m1)" by (cases rm) simp
    note ok = master_call_ok(2) [OF Call.prems c]
    show ?thesis
    proof (cases "k r")
      case None
      then show ?thesis using c ok by (simp add: view_def)
    next
      case (Some q)
      then have "view (run_prog q s m1) = spec_run q s (names m1) (counter m1)"
        using Call.IH [OF rangeI [of k r], of q m1] ok Call.prems by simp
      then show ?thesis using c ok Some by simp
    qed
  qed
qed (simp_all add: view_def)

lemma run_inv:
  assumes "master_inv m" "s \<in> set (sockets m)" "run_prog p s m = Some (Inr (a, m'))"
  shows "master_inv m' \<and> sockets m' = sockets m"
  using assms
proof (induction p arbitrary: m)
  case (Call req k)
  then obtain r m1 q where c: "master_call s req m = Inr (r, m1)" "k r = Some q" "run_prog q s m1 = Some (Inr (a, m'))"
    by (auto split: sum.splits option.splits)
  then show ?case using master_call_ok(2) [OF Call.prems(1,2) c(1)] Call.IH [OF rangeI [of k r], of q m1] Call.prems(2) by simp
qed auto

text \<open>What a program does according to the specification it does on the master.\<close>

lemma run_from_spec:
  assumes "master_inv m" "s \<in> set (sockets m)" "spec_run p s (names m) (counter m) = Some (Inr (a, N, C))"
  shows "\<exists>m'. run_prog p s m = Some (Inr (a, m')) \<and> names m' = N \<and> counter m' = C \<and> master_inv m' \<and> sockets m' = sockets m"
proof -
  have "view (run_prog p s m) = Some (Inr (a, N, C))" using run_spec [OF assms(1,2), of p] assms(3) by simp
  then obtain z where z: "run_prog p s m = Some z" "map_sum id (\<lambda>(a, m). (a, names m, counter m)) z = Inr (a, N, C)"
    by (auto simp: view_def)
  then obtain m' where "run_prog p s m = Some (Inr (a, m'))" "names m' = N" "counter m' = C" by (cases z) auto
  then show ?thesis using run_inv [OF assms(1,2), of p a m'] by simp
qed

lemma run_to_spec:
  assumes "master_inv m" "s \<in> set (sockets m)" "run_prog p s m = Some (Inr (a, m'))"
  shows "spec_run p s (names m) (counter m) = Some (Inr (a, names m', counter m'))"
  using run_spec [OF assms(1,2), of p] assms(3) by (simp add: view_def)

lemma spec_run_bind:
  "spec_run (mbind p f) s N C =
     (case spec_run p s N C of
        None \<Rightarrow> None
      | Some (Inl e) \<Rightarrow> Some (Inl e)
      | Some (Inr (a, N1, C1)) \<Rightarrow> spec_run (f a) s N1 C1)"
proof (induction p arbitrary: N C)
  case (Call req k)
  show ?case
  proof (cases "spec_op s req N C")
    case (Inr x)
    then obtain r N1 C1 where x: "spec_op s req N C = Inr (r, N1, C1)" by (cases x) auto
    show ?thesis
    proof (cases "k r")
      case (Some q)
      then show ?thesis using x Call.IH [OF rangeI [of k r], of q N1 C1] by simp
    qed (use x in simp)
  qed simp
qed simp_all

section \<open>Operations on the tree\<close>

lemma spec_run_get:
  "spec_run (tree_node_get root path) s N C =
     (if master_check_valid_path (root @ path) then Some (Inr (map_option snd (N (root @ path)), N, C)) else Some (Inl Check_failed))"
  by (auto simp: tree_node_get_def retry_master_method_def split: option.splits)

lemma spec_run_sub:
  "spec_run (tree_node_sub root path) s N C =
     (if master_check_valid_path (root @ path)
      then Some (Inr (if N (root @ path) = None then None else Some (sorted_list_of_set (kids N (root @ path))), N, C))
      else Some (Inl Check_failed))"
  by (auto simp: tree_node_sub_def retry_master_method_def)

lemma spec_run_add:
  "spec_run (tree_node_add root path v e) s N C =
     (if master_check_valid_path (root @ path)
      then (if open_node N (path_parent (root @ path)) \<and> N (root @ path) = None
            then Some (Inr (True, N(root @ path \<mapsto> (if e then Some s else None, v)), C))
            else Some (Inr (False, N, C)))
      else Some (Inl Check_failed))"
  by (auto simp: tree_node_add_def retry_master_method_def)

lemma spec_run_set:
  "spec_run (tree_node_set root path v) s N C =
     (if master_check_valid_path (root @ path)
      then (case N (root @ path) of
              None \<Rightarrow> Some (Inr (False, N, C))
            | Some (ow, v0) \<Rightarrow> Some (Inr (True, N(root @ path \<mapsto> (ow, v)), C)))
      else Some (Inl Check_failed))"
  by (auto simp: tree_node_set_def retry_master_method_def split: option.splits)

lemma spec_run_del:
  "spec_run (tree_node_del root path) s N C =
     (if master_check_valid_path (root @ path)
      then (if N (root @ path) \<noteq> None \<and> kids N (root @ path) = {}
            then Some (Inr (True, N(root @ path := None), C(root @ path := 0)))
            else Some (Inr (False, N, C)))
      else Some (Inl Check_failed))"
  by (auto simp: tree_node_del_def retry_master_method_def)

lemma spec_run_gen:
  "spec_run (tree_node_gen root path v e) s N C =
     (let q = root @ path; k = gen_key (nat (C q)) in
      if \<not> master_check_valid_path q then Some (Inl Check_failed)
      else if \<not> open_node N q then Some (Inr ([], N, C))
      else if C q = int_max then Some (Inl Overflow)
      else if N (q @ slash # k) \<noteq> None then Some (Inr ([], N, C(q := C q + 1)))
      else Some (Inr (k, N(q @ slash # k \<mapsto> (if e then Some s else None, v)), C(q := C q + 1))))"
  by (auto simp: tree_node_gen_def retry_master_method_def Let_def)

lemma spec_run_watch:
  "master_check_valid_path (root @ path) \<Longrightarrow> spec_run (tree_watch root path) s N C = Some (Inr ((), N, C))"
  by (auto simp: tree_watch_def split: option.splits)

lemma spec_run_wait_sub:
  "master_check_valid_path (root @ path) \<Longrightarrow>
   spec_run (wait_sub root path cond) s N C =
     (if N (root @ path) = None then Some (Inl Check_failed)
      else case cond (sorted_list_of_set (kids N (root @ path))) of
             Inl e \<Rightarrow> Some (Inl e)
           | Inr b \<Rightarrow> if b then Some (Inr ((), N, C)) else None)"
  by (auto simp: wait_sub_def retry_master_method_def split: sum.splits)

lemma spec_run_mcheck [simp]: "spec_run (mcheck b) s N C = (if b then Some (Inr ((), N, C)) else Some (Inl Check_failed))"
  by (simp add: mcheck_def)

lemmas spec_runs = spec_run_bind spec_run_get spec_run_sub spec_run_add spec_run_set spec_run_del spec_run_gen
  spec_run_watch spec_run_wait_sub

section \<open>Clearing a path\<close>

definition below :: "string \<Rightarrow> string \<Rightarrow> bool" where
  "below q p \<longleftrightarrow> p = q \<or> (\<exists>r. p = q @ slash # r)"

definition cut :: "string \<Rightarrow> names \<Rightarrow> names" where
  "cut q N p = (if below q p then None else N p)"

lemma below_refl [simp]: "below q q"
  by (simp add: below_def)

lemma below_child: "below q p \<Longrightarrow> below q (p @ slash # k)"
  by (auto simp: below_def)

lemma below_up: "below (q @ slash # k) p \<Longrightarrow> below q p"
  by (auto simp: below_def)

lemma below_parent:
  assumes "below q p" "p \<noteq> q"
  shows "below q (path_parent p)"
proof -
  obtain r where r: "p = q @ slash # r" using assms by (auto simp: below_def)
  show ?thesis
  proof (cases "slash \<in> set r")
    case True
    have "p = (q @ slash # path_parent r) @ slash # path_key r" using path_split [OF True] r by simp
    then have "path_parent p = q @ slash # path_parent r" using path_join(1) [OF path_key_no_slash [of r]] by metis
    then show ?thesis by (simp add: below_def)
  next
    case False
    then show ?thesis using r by (simp add: path_join)
  qed
qed

lemma valid_split: "master_check_valid_path p \<Longrightarrow> p = path_parent p @ slash # path_key p"
  using path_split [OF valid_path_slash] by simp

lemma slashes_ok_prefix: "slashes_ok (q @ slash # k) \<Longrightarrow> slashes_ok q"
  by (induction q rule: slashes_ok.induct) (auto simp: hd_append split: if_splits)

lemma valid_parent: "master_check_valid_path p \<Longrightarrow> path_parent p = [] \<or> master_check_valid_path (path_parent p)"
proof -
  assume v: "master_check_valid_path p"
  have "slashes_ok (path_parent p @ slash # path_key p)" "hd (path_parent p @ slash # path_key p) = slash"
    using v unfolding valid_split [OF v, symmetric] by (auto simp: master_check_valid_path_def split: if_splits)
  then show ?thesis using slashes_ok_prefix [of "path_parent p" "path_key p"] by (cases "path_parent p = []") (simp_all add: master_check_valid_path_def)
qed

lemma below_absent:
  assumes "names_ok N" "N q = None" "below q p"
  shows "N p = None"
  using assms(3)
proof (induction "length p" arbitrary: p rule: less_induct)
  case less
  show ?case
  proof (rule ccontr)
    assume p: "N p \<noteq> None"
    then have "p \<noteq> q" using assms(2) by auto
    moreover have "p \<noteq> []" using less.prems \<open>p \<noteq> q\<close> by (auto simp: below_def)
    ultimately have "below q (path_parent p)" "master_check_valid_path p" "open_node N (path_parent p)"
      using below_parent [OF less.prems] names_okD [OF assms(1) p] by auto
    then show False using less.hyps [OF path_parent_shorter] by (auto simp: open_node_def)
  qed
qed

lemma below_kid:
  assumes "names_ok N" "N p \<noteq> None" "below q p" "p \<noteq> q"
  shows "\<exists>k \<in> kids N q. below (q @ slash # k) p"
  using assms(2-4)
proof (induction "length p" arbitrary: p rule: less_induct)
  case less
  have "p \<noteq> []" using less.prems(2,3) by (auto simp: below_def)
  then have v: "master_check_valid_path p" "open_node N (path_parent p)" using names_okD [OF assms(1) less.prems(1)] by auto
  have e: "p = path_parent p @ slash # path_key p" by (rule valid_split [OF v(1)])
  show ?case
  proof (cases "path_parent p = q")
    case True
    then have "path_key p \<in> kids N q" using e less.prems(1) valid_path_key [OF v(1)] path_key_no_slash [of p] by (simp add: kids_def)
    then show ?thesis using e True by (metis below_refl)
  next
    case False
    have "N (path_parent p) \<noteq> None" using v(2) by (auto simp: open_node_def)
    then obtain k where "k \<in> kids N q" "below (q @ slash # k) (path_parent p)"
      using less.hyps [OF path_parent_shorter [OF v(1)]] below_parent [OF less.prems(2,3)] False by blast
    then show ?thesis using e below_child by metis
  qed
qed

lemma names_ok_cut:
  assumes "names_ok N" "q \<noteq> []"
  shows "names_ok (cut q N)"
proof -
  have "finite {p. cut q N p \<noteq> None}"
    using assms(1) by (auto simp: names_ok_def cut_def elim!: rev_finite_subset)
  moreover have "open_node (cut q N) []" using assms by (auto simp: names_ok_def open_node_def cut_def below_def)
  moreover have "master_check_valid_path p \<and> open_node (cut q N) (path_parent p)" if "cut q N p \<noteq> None" "p \<noteq> []" for p
  proof -
    have p: "N p \<noteq> None" "\<not> below q p" using that(1) by (auto simp: cut_def split: if_splits)
    note v = names_okD [OF assms(1) p(1) that(2)]
    have "\<not> below q (path_parent p)" using below_child [of q "path_parent p" "path_key p"] valid_split [OF v(1)] p(2) by auto
    then show ?thesis using v by (simp add: open_node_def cut_def)
  qed
  ultimately show ?thesis by (simp add: names_ok_def)
qed

fun cut_list :: "string \<Rightarrow> string list \<Rightarrow> names \<Rightarrow> names" where
  "cut_list q [] N = N"
| "cut_list q (c # cs) N = cut_list q cs (cut (q @ slash # c) N)"

lemma cut_list_eq: "cut_list q cs N p = (if \<exists>c \<in> set cs. below (q @ slash # c) p then None else N p)"
  by (induction cs arbitrary: N) (auto simp: cut_def)

lemma clear_children_spec:
  assumes IH: "\<And>path N C. names_ok N \<Longrightarrow> master_check_valid_path (root @ path) \<Longrightarrow>
      card {p. N p \<noteq> None \<and> below (root @ path) p} < n \<Longrightarrow>
      \<exists>C'. spec_run (tree_clear_path n root path) s N C = Some (Inr ((), cut (root @ path) N, C'))"
    and v: "master_check_valid_path (root @ path)"
  shows "names_ok N \<Longrightarrow> \<forall>c \<in> set cs. c \<noteq> [] \<and> slash \<notin> set c \<Longrightarrow>
    \<forall>c \<in> set cs. card {p. N p \<noteq> None \<and> below (root @ path @ slash # c) p} < n \<Longrightarrow>
    \<exists>C'. spec_run (clear_children n root path cs) s N C = Some (Inr ((), cut_list (root @ path) cs N, C'))"
proof (induction cs arbitrary: N C)
  case (Cons c cs)
  let ?q = "root @ path @ slash # c"
  have vc: "master_check_valid_path ?q" using valid_path_join [of "root @ path" c] v Cons.prems(2) by simp
  obtain C1 where c: "spec_run (tree_clear_path n root (path @ slash # c)) s N C = Some (Inr ((), cut ?q N, C1))"
    using IH [OF Cons.prems(1), of "path @ slash # c" C] vc Cons.prems(3) by auto
  have ok: "names_ok (cut ?q N)" by (rule names_ok_cut [OF Cons.prems(1)]) simp
  have fin: "finite {p. N p \<noteq> None}" using Cons.prems(1) by (simp add: names_ok_def)
  have "card {p. cut ?q N p \<noteq> None \<and> below r p} \<le> card {p. N p \<noteq> None \<and> below r p}" for r
    by (rule card_mono) (auto simp: cut_def intro: rev_finite_subset [OF fin])
  then have "\<forall>d \<in> set cs. card {p. cut ?q N p \<noteq> None \<and> below (root @ path @ slash # d) p} < n"
    using Cons.prems(3) by (meson le_less_trans list.set_intros(2))
  then show ?case using Cons.IH [OF ok, of C1] Cons.prems(2) c by (simp add: spec_run_bind)
qed simp

lemma clear_path_spec:
  "names_ok N \<Longrightarrow> master_check_valid_path (root @ path) \<Longrightarrow> card {p. N p \<noteq> None \<and> below (root @ path) p} < n \<Longrightarrow>
   \<exists>C'. spec_run (tree_clear_path n root path) s N C = Some (Inr ((), cut (root @ path) N, C'))"
proof (induction n arbitrary: path N C)
  case (Suc n)
  let ?q = "root @ path" and ?cs = "sorted_list_of_set (kids N (root @ path))"
  have fin: "finite {p. N p \<noteq> None}" using Suc.prems(1) by (simp add: names_ok_def)
  show ?case
  proof (cases "N ?q")
    case None
    then have "cut ?q N = N" using below_absent [OF Suc.prems(1) None] by (auto simp: cut_def fun_eq_iff)
    then show ?thesis using Suc.prems(2) None by (simp add: spec_runs)
  next
    case (Some x)
    have ks: "set ?cs = kids N ?q" using kids_finite [OF Suc.prems(1)] by simp
    have sl: "\<forall>c \<in> set ?cs. c \<noteq> [] \<and> slash \<notin> set c" unfolding ks by (simp add: kids_def)
    have lt: "card {p. N p \<noteq> None \<and> below (root @ path @ slash # c) p} < n" for c
    proof -
      have "?q \<in> {p. N p \<noteq> None \<and> below ?q p}" "?q \<notin> {p. N p \<noteq> None \<and> below (?q @ slash # c) p}"
        using Some by (simp_all add: below_def)
      moreover have "{p. N p \<noteq> None \<and> below (?q @ slash # c) p} \<subseteq> {p. N p \<noteq> None \<and> below ?q p}"
        using below_up by blast
      ultimately have "{p. N p \<noteq> None \<and> below (?q @ slash # c) p} \<subset> {p. N p \<noteq> None \<and> below ?q p}" by blast
      then have "card {p. N p \<noteq> None \<and> below (?q @ slash # c) p} < card {p. N p \<noteq> None \<and> below ?q p}"
        by (rule psubset_card_mono [rotated]) (auto intro: rev_finite_subset [OF fin])
      then show ?thesis using Suc.prems(3) by simp
    qed
    obtain C1 where c1: "spec_run (clear_children n root path ?cs) s N C = Some (Inr ((), cut_list ?q ?cs N, C1))"
      using clear_children_spec [OF Suc.IH Suc.prems(2) Suc.prems(1), of ?cs] sl lt by blast
    let ?N = "cut_list ?q ?cs N"
    have nq: "?N ?q = Some x" using Some by (auto simp: cut_list_eq below_def)
    have rest: "?N p = None" if "below ?q p" "p \<noteq> ?q" for p
      using below_kid [OF Suc.prems(1) _ that] unfolding cut_list_eq ks append_assoc by (cases "N p") auto
    have k0: "kids ?N ?q = {}" using rest by (auto simp: kids_def below_def)
    have e: "?N(?q := None) = cut ?q N"
      using rest by (auto simp: fun_eq_iff cut_def) (auto simp: cut_list_eq below_def)
    have "cut ?q N ?q = None" by (simp add: cut_def)
    moreover have "0 < n" using lt [of "[]"] by simp
    then obtain n' where "n = Suc n'" by (cases n) auto
    ultimately have "spec_run (tree_clear_path n root path) s (cut ?q N) (C1(?q := 0)) = Some (Inr ((), cut ?q N, C1(?q := 0)))"
      using Suc.prems(2) by (simp add: spec_runs)
    then show ?thesis using Some Suc.prems(2) c1 nq k0 e by (simp add: spec_runs)
  qed
qed simp

section \<open>Paths of the client\<close>

definition root_ok :: "string \<Rightarrow> bool" where
  "root_ok root \<longleftrightarrow> root \<noteq> [] \<and> last root = slash \<and> (butlast root = [] \<or> master_check_valid_path (butlast root))"

definition name_ok :: "string \<Rightarrow> bool" where
  "name_ok k \<longleftrightarrow> k \<noteq> [] \<and> slash \<notin> set k"

lemma path_one:
  assumes "root_ok root" "name_ok a"
  shows "master_check_valid_path (root @ a)"
proof -
  have "root @ a = butlast root @ slash # a" using assms(1) append_butlast_last_id [of root] by (metis append.assoc append_Cons append_Nil root_ok_def)
  moreover have "master_check_valid_path (butlast root @ slash # a)"
    by (rule valid_path_join) (use assms in \<open>simp_all add: root_ok_def name_ok_def\<close>)
  ultimately show ?thesis by (rule ssubst)
qed

lemma path_more:
  assumes "master_check_valid_path (root @ a)" "name_ok b"
  shows "master_check_valid_path (root @ a @ slash # b)" "path_parent (root @ a @ slash # b) = root @ a"
  using valid_path_join [of "root @ a" b] path_join(1) [of b "root @ a"] assms by (simp_all add: name_ok_def)

lemmas path_defs = PATH_NODE_def PATH_TASK_STATE_def PATH_GENERATE_ID_def PATH_LOCK_def PATH_BARRIER_def PATH_RPC_def
  PATH_CONTEXT_def PATH_MODEL_def

lemma path_names: "name_ok PATH_LOCK" "name_ok PATH_GENERATE_ID" "name_ok PATH_RPC" "name_ok PATH_BARRIER" "name_ok PATH_NODE"
  by (simp_all add: name_ok_def path_defs)

lemma to_string_name: "name_ok (to_string i)"
proof -
  have "slash \<notin> set (dec_string n)" for n using dec_string_digits [of slash n] by auto
  then show ?thesis using to_string_head(1) [of i] by (auto simp: name_ok_def to_string_def)
qed

lemma gen_key_name: "name_ok (gen_key n)"
  using gen_key_ok [of n] by (simp add: name_ok_def)

section \<open>Numbers\<close>

lemma scan_digits: "list_all is_digit s \<Longrightarrow> s \<noteq> [] \<Longrightarrow> scan s = (int (digits_val s), length s)"
  using digit_not_sign [of "hd s"] by (cases s) (auto simp: scan_def takeWhile_all)

lemma digits_read: "n < 10 ^ k \<Longrightarrow> digits_val (digits k n) = n \<and> list_all is_digit (digits k n)"
proof (induction k arbitrary: n)
  case (Suc k)
  then have "n div 10 < 10 ^ k" by auto
  then show ?case using Suc.IH [of "n div 10"] by (simp add: digits_val_snoc digit_val_digit is_digit_dec)
qed (simp add: digits_val_def)

lemma stoi_key:
  assumes "n < 2 ^ 31"
  shows "stoi (drop 1 (gen_key n)) = Done (word_of_nat n)"
proof -
  have lt: "n < 10 ^ 10" using assms by simp
  let ?s = "digits 10 n"
  have d: "digits_val ?s = n" "list_all is_digit ?s" using digits_read [OF lt] by auto
  have ne: "?s \<noteq> []" using digits_length [of 10 n] by (metis list.size(3) zero_neq_numeral)
  have "?s = [] \<or> \<not> is_space (hd ?s)" using d(2) ne digit_not_sign [of "hd ?s"] by (cases ?s) auto
  from scan_skip_no_space [OF this] have "strtol ?s = (int n, 10, False)"
    using scan_digits [OF d(2) ne] d(1) assms by (simp add: strtol_def)
  then show ?thesis using assms by (simp add: stoi_def gen_key_digits [OF lt])
qed

definition read_int :: "string \<Rightarrow> 32 word" where
  "read_int s = (case cast_int32 (Some s) 0 of Inl e \<Rightarrow> 0 | Inr i \<Rightarrow> i)"

lemma cast_back: "cast_int32 (Some (to_string (sint i))) 0 = Inr (i :: 32 word)"
proof -
  have "- (2 ^ 63) \<le> sint i" "sint i < 2 ^ 63" using sint_range_size [of i] by (auto simp: word_size)
  from signed_casts_to_string(2) [OF this] show ?thesis by simp
qed

lemma read_back [simp]: "read_int (to_string (sint i)) = i"
  by (simp add: read_int_def cast_back)

lemma int_cast_back [simp]:
  "int_cast (to_string (sint i)) = Done i" "rank_cast (to_string (sint i)) = Done (ucast i)"
  by (simp_all add: int_cast_def rank_cast_def mres_def pico_lexical_cast_check_def pico_lexical_cast_def cast_back)

lemma id_cast: "(ucast (scast (w :: 32 word) :: 64 word) :: 32 word) = w"
  by (rule bit_word_eqI) (simp add: bit_simps)

section \<open>Locks and ids alone\<close>

definition touch :: "string \<Rightarrow> names \<Rightarrow> names" where
  "touch q N = (if N q = None then N(q \<mapsto> (None, [])) else N)"

definition can_generate :: "string \<Rightarrow> names \<Rightarrow> (string \<Rightarrow> int) \<Rightarrow> bool" where
  "can_generate q N C \<longleftrightarrow> (N q = None \<or> open_node N q) \<and> 0 \<le> C q \<and> C q < int_max \<and> N (q @ slash # gen_key (nat (C q))) = None"

lemma touch_open: "N q = None \<or> open_node N q \<Longrightarrow> open_node (touch q N) q"
  by (auto simp: touch_def open_node_def)

lemma touch_other [simp]: "p \<noteq> q \<Longrightarrow> touch q N p = N p"
  by (simp add: touch_def)

lemma spec_run_touch:
  "master_check_valid_path (root @ path) \<Longrightarrow> open_node N (path_parent (root @ path)) \<Longrightarrow>
   spec_run (tree_node_add root path [] False) s N C = Some (Inr (N (root @ path) = None, touch (root @ path) N, C))"
  by (simp add: spec_runs touch_def)

lemma spec_run_generate:
  assumes "q = root @ path" "master_check_valid_path q" "can_generate q N C"
  shows "spec_run (tree_node_gen root path v e) s (touch q N) C =
     Some (Inr (gen_key (nat (C q)), (touch q N)(q @ slash # gen_key (nat (C q)) \<mapsto> (if e then Some s else None, v)), C(q := C q + 1)))"
  using touch_open [of N q] assms by (auto simp: spec_runs can_generate_def Let_def)

lemma acquire_spec:
  fixes root ln :: string
  defines "q \<equiv> root @ lock_path ln"
  assumes ok: "root_ok root" "name_ok ln" and o: "open_node N (root @ PATH_LOCK)" and g: "can_generate q N C"
    and free: "kids N q = {}" "map_of locks ln = None"
  shows "spec_run (acquire_lock root ln locks) s N C =
    Some (Inr ((ln, lock_path ln @ slash # gen_key (nat (C q))) # locks,
      (touch q N)(q @ slash # gen_key (nat (C q)) \<mapsto> (Some s, [])), C(q := C q + 1)))"
proof -
  let ?k = "gen_key (nat (C q))"
  have v: "master_check_valid_path q" "path_parent q = root @ PATH_LOCK"
    using path_more [OF path_one [OF ok(1) path_names(1)] ok(2)] by (simp_all add: q_def lock_path_def)
  have e: "q @ slash # ?k \<noteq> q" by simp
  have "kids (touch q N) q = {}" using free(1) by (auto simp: kids_def touch_def split: if_splits)
  then have k: "kids ((touch q N)(q @ slash # ?k \<mapsto> (Some s, []))) q = {?k}"
    using kids_upd(2) [of ?k "touch q N" q] gen_key_ok [of "nat (C q)"] by simp
  have p: "((touch q N)(q @ slash # ?k \<mapsto> (Some s, []))) q \<noteq> None" by (simp add: touch_def)
  show ?thesis
    unfolding acquire_lock_def
    using v o g k p free(2) gen_key_ok [of "nat (C q)"]
    by (simp add: spec_run_touch [of root "lock_path ln", folded q_def] spec_run_bind
        spec_run_generate [of q root "lock_path ln", OF q_def [THEN meta_eq_to_obj_eq]] spec_run_watch [of root "lock_path ln", folded q_def]
        spec_run_wait_sub [of root "lock_path ln", folded q_def] first_child_is_def)
qed

lemma release_spec:
  assumes "map_of locks ln = Some path" "master_check_valid_path (root @ path)" "N (root @ path) \<noteq> None" "kids N (root @ path) = {}"
  shows "spec_run (release_lock root ln locks) s N C =
    Some (Inr (AList.delete ln locks, N(root @ path := None), C(root @ path := 0)))"
  using assms by (simp add: release_lock_def spec_runs)

lemma generate_spec:
  fixes root key :: string
  defines "q \<equiv> root @ PATH_GENERATE_ID @ slash # key"
  assumes ok: "root_ok root" "name_ok key" and o: "open_node N (root @ PATH_GENERATE_ID)" and g: "can_generate q N C"
  shows "spec_run (generate_id root key) s N C =
    Some (Inr (word_of_int (C q), (touch q N)(q @ slash # gen_key (nat (C q)) \<mapsto> (Some s, [])), C(q := C q + 1)))"
proof -
  have v: "master_check_valid_path q" "path_parent q = root @ PATH_GENERATE_ID"
    using path_more [OF path_one [OF ok(1) path_names(2)] ok(2)] by (simp_all add: q_def)
  have lt': "0 \<le> C q" "C q < 2 ^ 31" using g by (simp_all add: can_generate_def int_max_def)
  then have lt: "nat (C q) < 2 ^ 31" by (simp add: nat_less_iff)
  have l: "1 < length (gen_key (nat (C q)))" using key_length [of "nat (C q)"] lt by simp
  have w: "(scast (word_of_nat (nat (C q)) :: 32 word) :: 64 word) = word_of_int (C q)"
    using lt' by (simp add: scast_eq sint_sbintrunc' signed_take_bit_int_eq_self)
  show ?thesis
    unfolding generate_id_def Let_def
    using v o g l stoi_key [OF lt(1)] w
    by (simp add: spec_run_touch [of root "PATH_GENERATE_ID @ slash # key", folded q_def] spec_run_bind
        spec_run_generate [of q root "PATH_GENERATE_ID @ slash # key", OF q_def [THEN meta_eq_to_obj_eq]])
qed

section \<open>Registration and lookup of services\<close>

text \<open>The record of a service as it stands in the tree, and when it can be read.\<close>

definition service_view :: "string \<Rightarrow> string \<Rightarrow> names \<Rightarrow> string \<Rightarrow> rpc_service_info" where
  "service_view root api N name =
     (let q = root @ service_path api name
      in \<lparr>rpc_service_name = name, service_rpc_id = read_int (snd (the (N q))),
          servers = map (\<lambda>k. \<lparr>server_id = read_int k, server_rank = ucast (read_int (snd (the (N (q @ slash # k)))))\<rparr>)
            (sorted_list_of_set (kids N q))\<rparr>)"

definition number :: "string \<Rightarrow> bool" where
  "number s \<longleftrightarrow> (\<exists>i :: 32 word. s = to_string (sint i))"

definition service_ok :: "string \<Rightarrow> string \<Rightarrow> names \<Rightarrow> string \<Rightarrow> bool" where
  "service_ok root api N name \<longleftrightarrow>
     (let q = root @ service_path api name
      in (\<exists>v. N q = Some (None, v) \<and> number v) \<and>
         (\<forall>k \<in> kids N q. number k \<and> number (snd (the (N (q @ slash # k))))))"

lemma number_casts: "number v \<Longrightarrow> int_cast v = Done (read_int v)" "number v \<Longrightarrow> rank_cast v = Done (ucast (read_int v))"
  by (auto simp: number_def)

lemma spec_run_collect:
  assumes "\<And>x. x \<in> set xs \<Longrightarrow> spec_run (f x) s N C = Some (Inr (Some (g x), N, C))"
  shows "spec_run (mcollect f xs) s N C = Some (Inr (map g xs, N, C))"
  using assms by (induction xs) (simp_all add: spec_run_bind)

lemma api_paths:
  assumes "root_ok root" "name_ok api"
  shows "master_check_valid_path (root @ api_path api)" "path_parent (root @ api_path api) = root @ PATH_RPC"
  using path_more [OF path_one [OF assms(1) path_names(3)] assms(2)] by (simp_all add: api_path_def)

lemma service_paths:
  assumes "root_ok root" "name_ok api" "name_ok name"
  shows "master_check_valid_path (root @ service_path api name)" "path_parent (root @ service_path api name) = root @ api_path api"
  using path_more [OF api_paths(1) [OF assms(1,2)] assms(3)] by (simp_all add: service_path_def)

lemma get_service_spec:
  assumes ok: "root_ok root" "name_ok api" "name_ok name" and sv: "service_ok root api N name" and n: "names_ok N"
  shows "spec_run (get_rpc_service_info_of root api name) s N C = Some (Inr (Some (service_view root api N name), N, C))"
proof -
  let ?q = "root @ service_path api name"
  have v: "master_check_valid_path ?q" by (rule service_paths(1) [OF ok])
  obtain x where x: "N ?q = Some (None, x)" "number x" using sv by (auto simp: service_ok_def Let_def)
  have ks: "set (sorted_list_of_set (kids N ?q)) = kids N ?q" using kids_finite [OF n] by simp
  have vk: "master_check_valid_path (root @ service_path api name @ slash # k)" if "k \<in> kids N ?q" for k
    using path_more(1) [OF v, of k] that by (simp add: kids_def name_ok_def)
  have one: "spec_run (read_server root api name k) s N C =
      Some (Inr (Some \<lparr>server_id = read_int k, server_rank = ucast (read_int (snd (the (N (?q @ slash # k)))))\<rparr>, N, C))"
    if k: "k \<in> set (sorted_list_of_set (kids N ?q))" for k
  proof -
    obtain y where "N (?q @ slash # k) = Some y" "number k" "number (snd y)"
      using k sv unfolding ks by (auto simp: service_ok_def kids_def)
    then show ?thesis using vk k unfolding ks read_server_def by (simp add: spec_runs number_casts)
  qed
  show ?thesis
    unfolding get_rpc_service_info_of_def
    using v x spec_run_collect [of "sorted_list_of_set (kids N ?q)" "read_server root api name", OF one]
    by (simp add: spec_runs number_casts service_view_def)
qed

lemma get_services_spec:
  assumes ok: "root_ok root" "name_ok api" and n: "names_ok N" and q: "N (root @ api_path api) \<noteq> None"
    and sv: "\<And>name. name \<in> kids N (root @ api_path api) \<Longrightarrow> service_ok root api N name"
  shows "spec_run (get_rpc_service_info_all root api) s N C =
    Some (Inr (Some (map (service_view root api N) (sorted_list_of_set (kids N (root @ api_path api)))), N, C))"
proof -
  have "spec_run (get_rpc_service_info_of root api name) s N C = Some (Inr (Some (service_view root api N name), N, C))"
    if "name \<in> set (sorted_list_of_set (kids N (root @ api_path api)))" for name
  proof -
    have k: "name \<in> kids N (root @ api_path api)" using that kids_finite [OF n] by simp
    then have "name_ok name" by (simp add: kids_def name_ok_def)
    then show ?thesis using get_service_spec [OF ok _ sv [OF k] n] by blast
  qed
  from spec_run_collect [of "sorted_list_of_set (kids N (root @ api_path api))" "get_rpc_service_info_of root api", OF this]
  show ?thesis
    using api_paths(1) [OF ok] q by (simp add: get_rpc_service_info_all_def spec_runs)
qed

text \<open>When a server can be registered: the nodes of the client exist, nobody holds or waits for the lock of the service,
  and keys can be generated.\<close>

definition id_path :: "string \<Rightarrow> string \<Rightarrow> string" where
  "id_path root key = root @ PATH_GENERATE_ID @ slash # key"

definition register_ready :: "string \<Rightarrow> string \<Rightarrow> string \<Rightarrow> names \<Rightarrow> (string \<Rightarrow> int) \<Rightarrow> bool" where
  "register_ready root api name N C \<longleftrightarrow>
     open_node N (root @ PATH_LOCK) \<and> open_node N (root @ PATH_RPC) \<and> open_node N (root @ PATH_GENERATE_ID) \<and>
     can_generate (root @ lock_path (rpc_key api name)) N C \<and> kids N (root @ lock_path (rpc_key api name)) = {} \<and>
     can_generate (id_path root api) N C \<and> can_generate (id_path root (rpc_key api name)) N C \<and>
     (N (root @ api_path api) = None \<or> open_node N (root @ api_path api)) \<and>
     (N (root @ service_path api name) = None \<or> service_ok root api N name)"

lemma can_generate_frame:
  assumes "can_generate q N C" "N' q = N q" "N' (q @ slash # gen_key (nat (C q))) = N (q @ slash # gen_key (nat (C q)))" "C' q = C q"
  shows "can_generate q N' C'"
  using assms by (simp add: can_generate_def open_node_def)

lemma kids_cong: "(\<And>k. N' (q @ slash # k) = N (q @ slash # k)) \<Longrightarrow> kids N' q = kids N q"
  by (simp add: kids_def)

lemma kids_absent: "names_ok N \<Longrightarrow> N q = None \<Longrightarrow> kids N q = {}"
  using kids_open [of N _ q] by (auto simp: open_node_def)

lemma find_or_generate_spec:
  fixes root api name :: string
  defines "aq \<equiv> root @ api_path api" and "sq \<equiv> root @ service_path api name" and "iq \<equiv> id_path root api"
  assumes ok: "root_ok root" "name_ok api" "name_ok name" and o: "open_node N (root @ PATH_GENERATE_ID)" "open_node N aq"
    and g: "can_generate iq N C" and sv: "N sq = None \<or> (\<exists>v. N sq = Some (None, v) \<and> number v)"
  shows "\<exists>rid N2. spec_run (find_or_generate root api name) s N C =
      Some (Inr (rid, N2, if N sq = None then C(iq := C iq + 1) else C)) \<and>
    N2 sq = Some (None, to_string (sint rid)) \<and> (N sq \<noteq> None \<longrightarrow> N2 = N) \<and>
    (\<forall>p. \<not> below iq p \<longrightarrow> p \<noteq> sq \<longrightarrow> N2 p = N p)"
proof (cases "N sq")
  case None
  let ?N1 = "(touch iq N)(iq @ slash # gen_key (nat (C iq)) \<mapsto> (Some s, []))"
  let ?rid = "ucast (word_of_int (C iq) :: 64 word) :: 32 word"
  have d: "aq \<noteq> iq" "sq \<noteq> iq" "aq \<noteq> iq @ slash # x" "sq \<noteq> iq @ slash # x" for x
    by (simp_all add: aq_def sq_def iq_def path_defs id_path_def api_path_def service_path_def)
  have gs: "spec_run (generate_id root api) s N C = Some (Inr (word_of_int (C iq), ?N1, C(iq := C iq + 1)))"
    using generate_spec [OF ok(1,2) o(1), of C s] g by (simp add: iq_def id_path_def)
  have v: "master_check_valid_path sq" "path_parent sq = aq" using service_paths [OF ok] by (simp_all add: sq_def aq_def)
  have "?N1 sq = None" "open_node ?N1 aq" using None d o(2) by (simp_all add: open_node_def)
  then have "spec_run (find_or_generate root api name) s N C =
      Some (Inr (?rid, ?N1(sq \<mapsto> (None, to_string (sint ?rid))), C(iq := C iq + 1)))"
    unfolding find_or_generate_def using None v gs
    by (simp add: spec_run_bind spec_run_get [of root "service_path api name", folded sq_def]
        spec_run_add [of root "service_path api name", folded sq_def])
  moreover have "(?N1(sq \<mapsto> (None, to_string (sint ?rid)))) p = N p" if "\<not> below iq p" "p \<noteq> sq" for p
    using that by (auto simp: below_def touch_def)
  ultimately show ?thesis using None by auto
next
  case (Some x)
  then obtain i where "N sq = Some (None, to_string (sint (i :: 32 word)))" using sv by (auto simp: number_def)
  then show ?thesis
    using service_paths(1) [OF ok]
    by (auto simp: find_or_generate_def spec_run_bind spec_run_get [of root "service_path api name", folded sq_def] sq_def [symmetric])
qed

lemma register_service_spec:
  fixes root api name :: string
  defines "lq \<equiv> root @ lock_path (rpc_key api name)" and "aq \<equiv> root @ api_path api" and "sq \<equiv> root @ service_path api name"
    and "iq \<equiv> id_path root api"
  assumes ok: "root_ok root" "name_ok api" "name_ok name" and n: "names_ok N" and r: "register_ready root api name N C"
    and l: "map_of locks (rpc_key api name) = None"
  shows "\<exists>rid N2 C2. spec_run (register_rpc_service root api name locks) s N C = Some (Inr ((rid, locks), N2, C2)) \<and>
    N2 sq = Some (None, to_string (sint rid)) \<and> (N sq \<noteq> None \<longrightarrow> N2 sq = N sq) \<and> open_node N2 aq \<and>
    (\<forall>p. \<not> below lq p \<longrightarrow> \<not> below iq p \<longrightarrow> p \<noteq> aq \<longrightarrow> p \<noteq> sq \<longrightarrow> N2 p = N p) \<and>
    (\<forall>p. \<not> below lq p \<longrightarrow> p \<noteq> iq \<longrightarrow> C2 p = C p)"
proof -
  let ?key = "rpc_key api name" and ?k = "gen_key (nat (C lq))"
  let ?lk = "lq @ slash # ?k"
  have kn: "name_ok ?key" using ok(2,3) by (simp add: name_ok_def rpc_key_def)
  let ?N1 = "(touch lq N)(?lk \<mapsto> (Some s, []))" and ?C1 = "C(lq := C lq + 1)"
  let ?L1 = "(?key, lock_path ?key @ slash # ?k) # locks"
  have rr: "can_generate lq N C" "kids N lq = {}" "can_generate iq N C" "N aq = None \<or> open_node N aq"
      "N sq = None \<or> service_ok root api N name"
    using r by (simp_all add: register_ready_def lq_def aq_def sq_def iq_def)
  have a1: "spec_run (acquire_lock root ?key locks) s N C = Some (Inr (?L1, ?N1, ?C1))"
    using acquire_spec [OF ok(1) kn, of N C locks s] r l by (simp add: register_ready_def lq_def)
  have d: "\<not> below lq aq" "\<not> below lq sq" "\<not> below lq iq" "\<not> below lq (iq @ slash # x)" "sq \<noteq> aq" "iq \<noteq> aq" "iq @ slash # x \<noteq> aq"
      "\<not> below lq (root @ PATH_RPC)" "\<not> below lq (root @ PATH_GENERATE_ID)" "\<not> below iq (lq @ slash # x)" "lq @ slash # x \<noteq> sq"
      "lq @ slash # x \<noteq> aq" "\<not> below iq aq" "root @ PATH_GENERATE_ID \<noteq> aq" "iq \<noteq> lq" for x
    by (simp_all add: below_def aq_def sq_def lq_def iq_def id_path_def path_defs lock_path_def api_path_def service_path_def)
  have n1: "?N1 p = N p" if "\<not> below lq p" for p using that by (auto simp: below_def touch_def)
  let ?N2 = "touch aq ?N1"
  have n2: "?N2 p = N p" if "\<not> below lq p" "p \<noteq> aq" for p using n1 that by simp
  have o: "open_node N (root @ PATH_RPC)" "open_node N (root @ PATH_GENERATE_ID)" using r by (simp_all add: register_ready_def)
  have o2: "open_node ?N1 (root @ PATH_RPC)" "open_node ?N2 (root @ PATH_GENERATE_ID)"
    using o n1 [OF d(8)] n2 [OF d(9) d(14)] by (simp_all only: open_node_def)
  have o3: "open_node ?N2 aq" using rr(4) n1 [OF d(1)] by (intro touch_open) (simp only: open_node_def)
  have o4: "can_generate iq ?N2 ?C1"
    by (rule can_generate_frame [OF rr(3) n2 [OF d(3) d(6)] n2 [OF d(4) d(7)]]) (simp add: d(15))
  have sv: "?N2 sq = None \<or> (\<exists>v. ?N2 sq = Some (None, v) \<and> number v)"
    using rr(5) n2 d by (auto simp: service_ok_def Let_def sq_def [symmetric])
  obtain rid N3 C3 where f: "spec_run (find_or_generate root api name) s ?N2 ?C1 = Some (Inr (rid, N3, C3))"
      "C3 = (if ?N2 sq = None then ?C1(iq := ?C1 iq + 1) else ?C1)" "N3 sq = Some (None, to_string (sint rid))"
      "?N2 sq \<noteq> None \<longrightarrow> N3 = ?N2" "\<forall>p. \<not> below iq p \<longrightarrow> p \<noteq> sq \<longrightarrow> N3 p = ?N2 p"
    using find_or_generate_spec [OF ok, of ?N2 ?C1 s] o2(2) o3 o4 sv unfolding aq_def sq_def iq_def by blast
  have "N3 ?lk = ?N1 ?lk" "N3 (?lk @ slash # x) = N (?lk @ slash # x)" for x
    using f(5) d by (auto simp: touch_def)
  then have lk: "N3 ?lk \<noteq> None" "kids N3 ?lk = kids N ?lk" by (simp_all add: kids_def)
  moreover have "kids N ?lk = {}" using kids_absent [OF n] rr(1) by (simp add: can_generate_def)
  moreover have "master_check_valid_path ?lk"
    using path_more(1) [OF path_more(1) [OF path_one [OF ok(1) path_names(1)] kn] gen_key_name] by (simp add: lq_def lock_path_def)
  ultimately have rel: "spec_run (release_lock root ?key ?L1) s N3 C3 = Some (Inr (locks, N3(?lk := None), C3(?lk := 0)))"
    using release_spec [of ?L1 ?key "lock_path ?key @ slash # ?k" root N3 s C3] l
    by (simp add: lq_def map_of_eq_None_iff delete_id)
  have run: "spec_run (register_rpc_service root api name locks) s N C = Some (Inr ((rid, locks), N3(?lk := None), C3(?lk := 0)))"
    unfolding register_rpc_service_def
    using a1 o2(1) f(1) rel api_paths [OF ok(1,2)] by (simp add: spec_run_touch spec_run_bind aq_def)
  have "N3 aq = ?N2 aq" using f(5) d(5,13) by metis
  then have "(N3(?lk := None)) sq = Some (None, to_string (sint rid))" "open_node (N3(?lk := None)) aq"
    using f(3) o3 d(11,12) [THEN not_sym] by (simp_all add: open_node_def)
  moreover have "(N3(?lk := None)) sq = N sq" if "N sq \<noteq> None"
    using f(4) n2 [OF d(2,5)] that d(11) [THEN not_sym] by simp
  moreover have "(N3(?lk := None)) p = N p" if "\<not> below lq p" "\<not> below iq p" "p \<noteq> aq" "p \<noteq> sq" for p
    using f(5) n2 [OF that(1,3)] that by (auto simp: below_def)
  moreover have "(C3(?lk := 0)) p = C p" if "\<not> below lq p" "p \<noteq> iq" for p
    using that f(2) by (auto simp: below_def)
  ultimately show ?thesis using run by blast
qed

definition new_server_id :: "string \<Rightarrow> string \<Rightarrow> string \<Rightarrow> 32 word \<Rightarrow> (string \<Rightarrow> int) \<Rightarrow> 32 word" where
  "new_server_id root api name sv_id C = (if sv_id = -1 then word_of_int (C (id_path root (rpc_key api name))) else sv_id)"

lemma register_server_spec:
  fixes root api name :: string and sv_id :: "32 word" and C :: "string \<Rightarrow> int"
  defines "sq \<equiv> root @ service_path api name" and "sd \<equiv> new_server_id root api name sv_id C"
  assumes ok: "root_ok root" "name_ok api" "name_ok name" and n: "names_ok N" and r: "register_ready root api name N C"
    and l: "map_of locks (rpc_key api name) = None" and new: "N (sq @ slash # to_string (sint sd)) = None"
  shows "\<exists>rid N2 C2. spec_run (register_server root api name rank sv_id locks) s N C = Some (Inr ((True, rid, sd, locks), N2, C2)) \<and>
    N2 sq = Some (None, to_string (sint rid)) \<and> (N sq \<noteq> None \<longrightarrow> N2 sq = N sq) \<and> open_node N2 (root @ api_path api) \<and>
    (\<forall>k. N2 (sq @ slash # k) = (if k = to_string (sint sd) then Some (Some s, to_string (sint rank)) else N (sq @ slash # k))) \<and>
    (\<forall>p. below (root @ api_path api) p \<longrightarrow> p \<noteq> root @ api_path api \<longrightarrow> \<not> below sq p \<longrightarrow> N2 p = N p)"
proof -
  let ?key = "rpc_key api name" and ?aq = "root @ api_path api" and ?lq = "root @ lock_path (rpc_key api name)"
  let ?iq = "id_path root api" and ?jq = "id_path root (rpc_key api name)"
  have kn: "name_ok ?key" using ok(2,3) by (simp add: name_ok_def rpc_key_def)
  obtain rid N1 C1 where r1: "spec_run (register_rpc_service root api name locks) s N C = Some (Inr ((rid, locks), N1, C1))"
      "N1 sq = Some (None, to_string (sint rid))" "N sq \<noteq> None \<longrightarrow> N1 sq = N sq" "open_node N1 ?aq"
      "\<forall>p. \<not> below ?lq p \<longrightarrow> \<not> below ?iq p \<longrightarrow> p \<noteq> ?aq \<longrightarrow> p \<noteq> sq \<longrightarrow> N1 p = N p"
      "\<forall>p. \<not> below ?lq p \<longrightarrow> p \<noteq> ?iq \<longrightarrow> C1 p = C p"
    using register_service_spec [OF ok n r l, of s] unfolding sq_def by blast
  have d: "\<not> below ?lq ?jq" "\<not> below ?iq ?jq" "?jq \<noteq> ?aq" "?jq \<noteq> sq" "\<not> below ?lq (?jq @ slash # x)" "\<not> below ?iq (?jq @ slash # x)"
      "?jq @ slash # x \<noteq> ?aq" "?jq @ slash # x \<noteq> sq" "?jq \<noteq> ?iq"
      "\<not> below ?lq (root @ PATH_GENERATE_ID)" "\<not> below ?iq (root @ PATH_GENERATE_ID)" "root @ PATH_GENERATE_ID \<noteq> ?aq"
      "root @ PATH_GENERATE_ID \<noteq> sq" "\<not> below ?lq (?aq @ slash # x)" "\<not> below ?iq (?aq @ slash # x)"
      "\<not> below ?jq (?aq @ slash # x)" "sq @ slash # x \<noteq> sq" "\<not> below ?jq sq" "\<not> below ?jq ?aq" for x
    by (simp_all add: below_def sq_def id_path_def path_defs lock_path_def api_path_def service_path_def rpc_key_def)
  have sqa: "sq = ?aq @ slash # name" "sq @ slash # x = ?aq @ slash # (name @ slash # x)" for x
    by (simp_all add: sq_def service_path_def)
  have "open_node N1 (root @ PATH_GENERATE_ID)" using r r1(5) d by (simp add: register_ready_def open_node_def)
  moreover have "can_generate ?jq N1 C1"
    by (rule can_generate_frame [of _ N C]) (use r r1(5,6) d in \<open>simp_all add: register_ready_def\<close>)
  ultimately have g: "spec_run (generate_id root ?key) s N1 C1 =
      Some (Inr (word_of_int (C1 ?jq), (touch ?jq N1)(?jq @ slash # gen_key (nat (C1 ?jq)) \<mapsto> (Some s, [])), C1(?jq := C1 ?jq + 1)))"
    using generate_spec [OF ok(1) kn, of N1 C1 s] by (simp add: id_path_def)
  have c1: "C1 ?jq = C ?jq" using r1(6) d by simp
  have w: "(ucast (word_of_int c :: 64 word) :: 32 word) = word_of_int c" for c
    by (rule bit_word_eqI) (simp add: bit_simps)
  obtain N2 C2 where s2: "spec_run (if sv_id = -1 then mbind (generate_id root ?key) (\<lambda>i. Done (ucast i)) else Done sv_id) s N1 C1 =
        Some (Inr (sd, N2, C2))" "\<forall>p. \<not> below ?jq p \<longrightarrow> N2 p = N1 p"
  proof (cases "sv_id = -1")
    case True
    let ?N2 = "(touch ?jq N1)(?jq @ slash # gen_key (nat (C1 ?jq)) \<mapsto> (Some s, []))"
    show thesis
      by (rule that [of ?N2 "C1(?jq := C1 ?jq + 1)"])
        (use True g w c1 in \<open>auto simp: spec_run_bind sd_def new_server_id_def below_def touch_def\<close>)
  qed (auto simp: sd_def new_server_id_def intro: that [of N1 C1])
  let ?p = "sq @ slash # to_string (sint sd)"
  have v: "master_check_valid_path ?p" "path_parent ?p = sq"
    using path_more [OF service_paths(1) [OF ok] to_string_name, of "sint sd"] by (simp_all add: sq_def)
  have e: "N2 (?aq @ slash # x) = N1 (?aq @ slash # x)" "N2 ?aq = N1 ?aq" for x using s2(2) d by simp_all
  have f: "N2 (?aq @ slash # x) = N (?aq @ slash # x)" if "?aq @ slash # x \<noteq> sq" for x
    unfolding e using r1(5) d that by simp
  have sq2: "N2 sq = Some (None, to_string (sint rid))" using e(1) [of name] r1(2) sqa by simp
  have new2: "N2 ?p = None" using f [of "name @ slash # to_string (sint sd)"] new sqa d(17) by metis
  have pa: "?p = root @ server_path api name sd" by (simp add: sq_def server_path_def)
  have "spec_run (register_server root api name rank sv_id locks) s N C =
      Some (Inr ((True, rid, sd, locks), N2(?p \<mapsto> (Some s, to_string (sint rank))), C2))"
    unfolding register_server_def using r1(1) s2(1) v new2 sq2
    by (simp add: spec_run_bind spec_run_add [of root "server_path api name sd", folded pa] open_node_def)
  moreover have "(N2(?p \<mapsto> y)) (sq @ slash # k) = (if k = to_string (sint sd) then Some y else N (sq @ slash # k))" for k y
    using f [of "name @ slash # k"] sqa d(17) by (metis append_same_eq fun_upd_apply list.inject same_append_eq)
  moreover have "(N2(?p \<mapsto> y)) p = N p" if "below ?aq p" "p \<noteq> ?aq" "\<not> below sq p" for p y
    using f that by (auto simp: below_def)
  moreover have "(N2(?p \<mapsto> y)) sq = N2 sq" "open_node (N2(?p \<mapsto> y)) ?aq" for y
    using e(2) r1(4) by (simp_all add: open_node_def sq_def service_path_def)
  ultimately show ?thesis using r1(2,3) sq2 by fastforce
qed

lemma registered_service:
  fixes root api name :: string and rank :: "32 word"
  defines "sq \<equiv> root @ service_path api name"
  assumes n: "names_ok N" "names_ok N2" and r: "N sq = None \<or> service_ok root api N name" and new: "N (sq @ slash # to_string (sint sd)) = None"
    and q: "N2 sq = Some (None, to_string (sint rid))"
    and k: "\<forall>k. N2 (sq @ slash # k) = (if k = to_string (sint sd) then Some (Some s, to_string (sint rank)) else N (sq @ slash # k))"
  shows "service_ok root api N2 name" "service_rpc_id (service_view root api N2 name) = rid"
    "set (servers (service_view root api N2 name)) = insert \<lparr>server_id = sd, server_rank = ucast rank\<rparr>
       (if N sq = None then {} else set (servers (service_view root api N name)))"
proof -
  let ?new = "to_string (sint sd)"
  have nn: "name_ok ?new" by (rule to_string_name)
  have ks: "kids N2 sq = insert ?new (kids N sq)" "?new \<notin> kids N sq"
    using k nn new by (auto simp: kids_def name_ok_def split: if_splits)
  have old: "\<forall>x \<in> kids N sq. number x \<and> number (snd (the (N (sq @ slash # x))))"
    using r kids_absent [OF n(1), of sq] by (auto simp: service_ok_def Let_def sq_def)
  have same: "N2 (sq @ slash # x) = N (sq @ slash # x)" if "x \<in> kids N sq" for x using k ks(2) that by auto
  have "N2 (sq @ slash # ?new) = Some (Some s, to_string (sint rank))" using k by simp
  then show "service_ok root api N2 name"
    using q old same ks by (auto simp: service_ok_def Let_def sq_def [symmetric] number_def)
  show "service_rpc_id (service_view root api N2 name) = rid"
    using q by (simp add: service_view_def sq_def)
  let ?f = "\<lambda>N k. \<lparr>server_id = read_int k, server_rank = ucast (read_int (snd (the (N (sq @ slash # k)))))\<rparr>"
  have v: "set (servers (service_view root api N' name)) = ?f N' ` kids N' sq" if "names_ok N'" for N'
    using kids_finite [OF that] by (simp add: service_view_def Let_def sq_def)
  have "?f N2 ` kids N2 sq = insert \<lparr>server_id = sd, server_rank = ucast rank\<rparr> (?f N ` kids N sq)"
    using same \<open>N2 (sq @ slash # ?new) = _\<close> unfolding ks(1) image_insert by simp
  then show "set (servers (service_view root api N2 name)) = insert \<lparr>server_id = sd, server_rank = ucast rank\<rparr>
       (if N sq = None then {} else set (servers (service_view root api N name)))"
    using v [OF n(1)] v [OF n(2)] kids_absent [OF n(1), of sq] by simp
qed

lemma run_reach:
  assumes "reach (\<lambda>m. m = master_new) master_step m" "s \<in> set (sockets m)" "run_prog p s m = Some (Inr (a, m'))"
  shows "reach (\<lambda>m. m = master_new) master_step m' \<and> sockets m' = sockets m"
  using assms
proof (induction p arbitrary: m)
  case (Call req k)
  then obtain r m1 q where c: "master_call s req m = Inr (r, m1)" "k r = Some q" "run_prog q s m1 = Some (Inr (a, m'))"
    by (auto split: sum.splits option.splits)
  have "serve_request s req m = Inr m1" using c(1) Call.prems(2) by (auto simp: master_call_def serve_request_def prpc_simps)
  then have "master_step m m1" by (rule master_step.request [OF Call.prems(2)])
  then have "reach (\<lambda>m. m = master_new) master_step m1" using Call.prems(1) by (blast intro: reach_step)
  moreover have "sockets m1 = sockets m" using master_call_ok(2) [OF mt.inv_reach [OF Call.prems(1)] Call.prems(2) c(1)] by simp
  ultimately show ?case using Call.IH [OF rangeI [of k r], of q m1] c Call.prems(2) by simp
qed auto

section \<open>Notification of watchers\<close>

text \<open>The ancestors of a path, from the top down to the path itself.\<close>

function chain :: "string \<Rightarrow> string list" where
  "chain p = (if master_check_valid_path p then chain (path_parent p) @ [p] else [])"
  by pat_completeness auto
termination by (relation "measure length") (auto simp: path_parent_shorter)

declare chain.simps [simp del]

lemma split_path_ne [simp]: "split_path p \<noteq> []"
  by (induction p) (auto split: list.splits)

lemma split_path_join: "slash \<notin> set k \<Longrightarrow> split_path (q @ slash # k) = split_path q @ [k]"
proof (induction q)
  case Nil
  have "split_path k = [k]" using Nil by (induction k) auto
  then show ?case by simp
next
  case (Cons c q)
  then show ?case by (cases "split_path q") auto
qed

lemma cur_paths_snoc: "k \<noteq> [] \<Longrightarrow> cur_paths cur (segs @ [k]) = cur_paths cur segs @ [fold (\<lambda>s c. if s = [] then c else c @ slash # s) segs cur @ slash # k]"
  by (induction segs arbitrary: cur) (simp_all add: Let_def)

lemma join_split:
  "p = [] \<or> master_check_valid_path p \<Longrightarrow> fold (\<lambda>s c. if s = [] then c else c @ slash # s) (split_path p) [] = p"
proof (induction "length p" arbitrary: p rule: less_induct)
  case less
  show ?case
  proof (cases "p = []")
    case False
    then have v: "master_check_valid_path p" using less.prems by simp
    let ?q = "path_parent p" and ?k = "path_key p"
    have e: "p = ?q @ slash # ?k" by (rule valid_split [OF v])
    have k: "?k \<noteq> []" "slash \<notin> set ?k" using valid_path_key [OF v] path_key_no_slash [of p] by auto
    have q: "?q = [] \<or> master_check_valid_path ?q" by (rule valid_parent [OF v])
    have "split_path p = split_path ?q @ [?k]" using split_path_join [OF k(2), of ?q] e by simp
    then show ?thesis using less.hyps [OF path_parent_shorter [OF v] q] k(1) e by simp
  qed simp
qed

lemma cur_paths_chain: "p = [] \<or> master_check_valid_path p \<Longrightarrow> cur_paths [] (split_path p) = chain p"
proof (induction "length p" arbitrary: p rule: less_induct)
  case less
  show ?case
  proof (cases "p = []")
    case True
    then show ?thesis by (simp add: chain.simps master_check_valid_path_def)
  next
    case False
    then have v: "master_check_valid_path p" using less.prems by simp
    let ?q = "path_parent p" and ?k = "path_key p"
    have e: "p = ?q @ slash # ?k" by (rule valid_split [OF v])
    have k: "?k \<noteq> []" "slash \<notin> set ?k" using valid_path_key [OF v] path_key_no_slash [of p] by auto
    have q: "?q = [] \<or> master_check_valid_path ?q" by (rule valid_parent [OF v])
    have "split_path p = split_path ?q @ [?k]" using split_path_join [OF k(2), of ?q] e by simp
    then show ?thesis
      using less.hyps [OF path_parent_shorter [OF v] q] cur_paths_snoc [OF k(1), of "[]" "split_path ?q"] join_split [OF q] v e
      by (subst chain.simps) simp
  qed
qed

text \<open>A sequence of insertions and of erasures by handle.\<close>

datatype 'cb watch_op = Watch_insert string 'cb | Watch_erase watcher_handle

fun watch_ops :: "'cb watch_op list \<Rightarrow> 'cb watcher_table \<Rightarrow> 'cb watcher_table res" where
  "watch_ops [] t = Inr t"
| "watch_ops (Watch_insert key cb # ops) t = watch_ops ops (snd (watcher_insert key cb t))"
| "watch_ops (Watch_erase h # ops) t = rbind (watcher_erase h t) (watch_ops ops)"

lemma watcher_list_upd: "watcher_list key (t\<lparr>wt_map := AList.update key' ws (wt_map t), wt_next := x\<rparr>) = (if key' = key then ws else watcher_list key t)"
  "watcher_list key (t\<lparr>wt_map := AList.update key' ws (wt_map t)\<rparr>) = (if key' = key then ws else watcher_list key t)"
  "watcher_list key (t\<lparr>wt_map := AList.delete key' (wt_map t)\<rparr>) = (if key' = key then [] else watcher_list key t)"
  by (simp_all add: watcher_list_def update_conv' delete_conv')

lemma watcher_erase_list:
  assumes "watcher_erase (a, key1, w1) t = Inr t1"
  shows "watcher_list key t1 = (if key1 = key then AList.delete w1 (watcher_list key t) else watcher_list key t) \<and> wt_next t1 = wt_next t \<and>
    a = wt_this t \<and> wt_this t1 = wt_this t"
  using assms
  by (auto simp: watcher_erase_def Let_def watcher_list_upd prpc_simps split: option.splits if_splits) (simp_all add: watcher_list_def)

lemma watch_ops_keep:
  assumes "watch_ops ops t = Inr t'" "Watch_erase (wt_this t, key, w) \<notin> set ops" "map_of (watcher_list key t) w = Some cb"
  shows "map_of (watcher_list key t') w = Some cb \<and> wt_this t' = wt_this t"
  using assms
proof (induction ops t rule: watch_ops.induct)
  case (2 key1 cb1 ops t)
  have "map_of (watcher_list key (snd (watcher_insert key1 cb1 t))) w = Some cb"
    using "2.prems"(3) by (auto simp: watcher_insert_def watcher_list_upd map_add_Some_iff)
  then show ?case using 2 by (simp add: watcher_insert_def)
next
  case (3 h ops t)
  obtain t1 where t1: "watcher_erase h t = Inr t1" "watch_ops ops t1 = Inr t'" using "3.prems"(1) by (auto simp: prpc_simps)
  obtain a key1 w1 where h: "h = (a, key1, w1)" by (metis surj_pair)
  note e = watcher_erase_list [OF t1(1) [unfolded h]]
  have ne: "(key1, w1) \<noteq> (key, w)" using "3.prems"(2) h e by auto
  have "map_of (watcher_list key t1) w = Some cb"
    using e [of key] ne "3.prems"(3) by (auto simp: delete_conv' split: if_splits)
  then show ?case using "3.IH" [OF t1(2)] "3.prems"(2) e by simp
qed simp

lemma watch_ids_step:
  assumes "watch_ops ops t = Inr t'" "\<And>q w x. (w, x) \<in> set (watcher_list q t) \<Longrightarrow> w < wt_next t"
  shows "(w, x) \<in> set (watcher_list q t') \<Longrightarrow> w < wt_next t'"
  using assms
proof (induction ops t rule: watch_ops.induct)
  case (2 key cb ops t)
  have "(w, x) \<in> set (watcher_list q (snd (watcher_insert key cb t))) \<Longrightarrow> w < wt_next (snd (watcher_insert key cb t))" for q w x
    using "2.prems"(3) [of w x q] by (auto simp: watcher_insert_def watcher_list_upd less_SucI split: if_splits)
  then show ?case using 2 by simp
next
  case (3 h ops t)
  obtain t1 where t1: "watcher_erase h t = Inr t1" "watch_ops ops t1 = Inr t'" using "3.prems"(2) by (auto simp: prpc_simps)
  obtain a key1 w1 where h: "h = (a, key1, w1)" by (metis surj_pair)
  have "set (watcher_list q t1) \<subseteq> set (watcher_list q t)" "wt_next t1 = wt_next t" for q
    using watcher_erase_list [of a key1 w1 t t1 q] t1(1) h by (auto simp: AList.delete_eq split: if_splits)
  then show ?case using "3.IH" [OF "3.prems"(1) t1(2)] "3.prems"(3) by (metis subsetD)
qed simp

lemma watch_fresh: "watch_ops ops \<lparr>wt_this = a, wt_map = [], wt_next = 0\<rparr> = Inr t \<Longrightarrow> map_of (watcher_list q t) (wt_next t) = None"
  using watch_ids_step [of ops "\<lparr>wt_this = a, wt_map = [], wt_next = 0\<rparr>" t "wt_next t" _ q] by (force simp: map_of_eq_None_iff watcher_list_def)

section \<open>Properties\<close>

text \<open>A server that is registered can be looked up: registering alone returns, with the id that was asked for or a
  new one, and a lookup of the service by any client then returns the id of the service and exactly the servers that were
  there before and the new one, with the rank of its node.\<close>

theorem register_lookup:
  fixes root api name :: string and m :: master and sv_id :: "32 word"
  defines "N \<equiv> names m" and "sd \<equiv> new_server_id root api name sv_id (counter m)"
  assumes "reach (\<lambda>m. m = master_new) master_step m" "s \<in> set (sockets m)" "root_ok root" "name_ok api" "name_ok name"
    and "register_ready root api name N (counter m)" "map_of locks (rpc_key api name) = None"
    and "N (root @ server_path api name sd) = None"
  shows "\<exists>rid m'. run_prog (register_server root api name rank sv_id locks) s m = Some (Inr ((True, rid, sd, locks), m')) \<and>
    sockets m' = sockets m \<and>
    (\<forall>s'. s' \<in> set (sockets m') \<longrightarrow> (\<exists>info m''.
       run_prog (get_rpc_service_info_of root api name) s' m' = Some (Inr (Some info, m'')) \<and> names m'' = names m' \<and>
       service_rpc_id info = rid \<and>
       set (servers info) = insert \<lparr>server_id = sd, server_rank = ucast rank\<rparr>
         (if N (root @ service_path api name) = None then {} else set (servers (service_view root api N name)))))"
proof -
  let ?sq = "root @ service_path api name"
  have inv: "master_inv m" by (rule mt.inv_reach [OF assms(3)])
  then have ok: "names_ok N" by (simp add: N_def names_ok_inv)
  have new: "N (?sq @ slash # to_string (sint sd)) = None" using assms(10) by (simp add: server_path_def)
  obtain rid N2 C2 where r: "spec_run (register_server root api name rank sv_id locks) s N (counter m) =
        Some (Inr ((True, rid, sd, locks), N2, C2))" "N2 ?sq = Some (None, to_string (sint rid))"
      "\<forall>k. N2 (?sq @ slash # k) = (if k = to_string (sint sd) then Some (Some s, to_string (sint rank)) else N (?sq @ slash # k))"
    using register_server_spec [OF assms(5-7) ok assms(8,9), of sv_id rank s] new unfolding sd_def by blast
  obtain m' where m': "run_prog (register_server root api name rank sv_id locks) s m = Some (Inr ((True, rid, sd, locks), m'))"
      "names m' = N2" "master_inv m'" "sockets m' = sockets m"
    using run_from_spec [OF inv assms(4) r(1) [unfolded N_def]] by blast
  have ok2: "names_ok N2" using names_ok_inv [OF m'(3)] m'(2) by simp
  have sv: "N ?sq = None \<or> service_ok root api N name" using assms(8) by (simp add: register_ready_def)
  note rs = registered_service [OF ok ok2 sv new r(2,3)]
  have "\<exists>info m''. run_prog (get_rpc_service_info_of root api name) s' m' = Some (Inr (Some info, m'')) \<and> names m'' = names m' \<and>
       service_rpc_id info = rid \<and> set (servers info) = insert \<lparr>server_id = sd, server_rank = ucast rank\<rparr>
         (if N ?sq = None then {} else set (servers (service_view root api N name)))" if "s' \<in> set (sockets m')" for s'
    using run_from_spec [OF m'(3) that get_service_spec [OF assms(5-7) rs(1) ok2, folded m'(2)]] rs(2,3) m'(2) by metis
  then show ?thesis using m' by blast
qed

text \<open>C27. Clearing a path returns and removes exactly the nodes at and below it: with fuel for two more rounds than there
  are nodes the program does not run out of it.\<close>

theorem tree_clear_path_total:
  assumes "reach (\<lambda>m. m = master_new) master_step m" "s \<in> set (sockets m)" "master_check_valid_path (root @ path)"
    and "length (tree m) + 1 < fuel"
  shows "\<exists>m'. run_prog (tree_clear_path fuel root path) s m = Some (Inr ((), m')) \<and>
    (\<forall>p. names m' p = (if p = root @ path \<or> (\<exists>r. p = root @ path @ slash # r) then None else names m p))"
proof -
  have inv: "master_inv m" by (rule mt.inv_reach [OF assms(1)])
  have "{p. names m p \<noteq> None} \<subseteq> insert [] (fst ` set (tree m))"
    using ensure_root_inv(3) [OF inv]
    by (force simp: names_def flat_def nodes_def [of m] get_node_def split: if_splits dest: map_of_SomeD)
  then have "card {p. names m p \<noteq> None \<and> below (root @ path) p} \<le> card (insert [] (fst ` set (tree m)))"
    by (intro card_mono) auto
  also have "\<dots> \<le> length (tree m) + 1"
    using card_image_le [of "set (tree m)" fst] card_length [of "tree m"] by (simp add: card_insert_if)
  finally have "card {p. names m p \<noteq> None \<and> below (root @ path) p} < fuel" using assms(4) by simp
  then obtain C' where "spec_run (tree_clear_path fuel root path) s (names m) (counter m) =
      Some (Inr ((), cut (root @ path) (names m), C'))"
    using clear_path_spec [OF names_ok_inv [OF inv] assms(3)] by blast
  from run_from_spec [OF inv assms(2) this] show ?thesis by (auto simp: cut_def below_def)
qed

text \<open>A client with the root path \<open>/\<close> clears nothing: \<open>clear_master\<close> asks for the children of the empty path, which the
  master refuses.\<close>

theorem clear_master_noop:
  assumes "reach (\<lambda>m. m = master_new) master_step m" "s \<in> set (sockets m)"
  shows "\<exists>m'. run_prog (clear_master fuel (client_root [])) s m = Some (Inr ((), m')) \<and> names m' = names m"
proof -
  have "spec_run (clear_master fuel (client_root [])) s (names m) (counter m) = Some (Inr ((), names m, counter m))"
    by (simp add: clear_master_def client_root_def master_check_valid_path_def)
  from run_from_spec [OF mt.inv_reach [OF assms(1)] assms(2) this] show ?thesis by blast
qed

text \<open>C36. A callback registered for a path runs on every notification of a change at or below it, whatever other callbacks
  are inserted and erased in the meantime, and its handle can then be erased.\<close>

theorem watch_notified:
  assumes "watch_ops ops0 \<lparr>wt_this = a, wt_map = [], wt_next = 0\<rparr> = Inr t" "watcher_insert q cb t = (h, t1)"
    and "watch_ops ops t1 = Inr t2" "Watch_erase h \<notin> set ops"
    and "master_check_valid_path p" "q \<in> set (chain p)"
  shows "cb \<in> set (client_notify p t2) \<and> (\<exists>t3. watcher_erase h t2 = Inr t3)"
proof -
  have h: "h = (wt_this t, q, wt_next t)" "map_of (watcher_list q t1) (wt_next t) = Some cb" "wt_this t1 = wt_this t"
    using assms(2) watch_fresh [OF assms(1)] by (auto simp: watcher_insert_def watcher_list_upd map_add_Some_iff)
  then have k: "map_of (watcher_list q t2) (wt_next t) = Some cb" "wt_this t2 = wt_this t"
    using watch_ops_keep [OF assms(3)] assms(4) by simp_all
  have "cb \<in> set (watcher_invoke q t2)" using k(1) unfolding watcher_invoke_def by (force dest: map_of_SomeD)
  then have "cb \<in> set (client_notify p t2)"
    using assms(6) cur_paths_chain [of p] assms(5) by (auto simp: client_notify_def)
  moreover have "\<exists>t3. watcher_erase h t2 = Inr t3"
    using k h(1) by (auto simp: watcher_erase_def watcher_list_def Let_def split: option.splits)
  ultimately show ?thesis by blast
qed

section \<open>Witnesses\<close>

text \<open>A master with one connection, and its names after the client with root path \<open>/\<close> was initialised.\<close>

definition demo_master :: master where
  "demo_master = serve_accept 7 master_new"

definition demo_names :: names where
  "demo_names = (\<lambda>_. None)([] \<mapsto> (None, []), ''/_node_'' \<mapsto> (None, []), ''/_task_state_'' \<mapsto> (None, []), ''/_rpc_'' \<mapsto> (None, []),
     ''/_id_gen_'' \<mapsto> (None, []), ''/_lock_'' \<mapsto> (None, []), ''/_barrier_'' \<mapsto> (None, []), ''/_context_'' \<mapsto> (None, []),
     ''/_model_'' \<mapsto> (None, []))"

lemma demo_master_facts:
  "reach (\<lambda>m. m = master_new) master_step demo_master" "sockets demo_master = [7]" "counter demo_master = (\<lambda>_. 0)"
  "names demo_master = (\<lambda>_. None)([] \<mapsto> (None, []))"
proof -
  have "master_step master_new demo_master" unfolding demo_master_def by (rule master_step.accept) (simp add: master_new_def)
  then show "reach (\<lambda>m. m = master_new) master_step demo_master" by (blast intro: reach_step reach_init)
  show "sockets demo_master = [7]" "counter demo_master = (\<lambda>_. 0)"
    by (simp_all add: demo_master_def serve_accept_def master_new_def counter_def fun_eq_iff)
  have "nodes demo_master p = None" for p by (simp add: demo_master_def serve_accept_def master_new_def nodes_def get_node_def)
  then show "names demo_master = (\<lambda>_. None)([] \<mapsto> (None, []))"
    by (auto simp: names_def flat_def ensure_root_def get_nodes nodes_put empty_node_def)
qed

lemma demo_initialize:
  "\<exists>m. run_prog (client_initialize ''/'') 7 demo_master = Some (Inr (True, m)) \<and> names m = demo_names \<and> counter m = (\<lambda>_. 0) \<and>
     reach (\<lambda>m. m = master_new) master_step m \<and> sockets m = [7]"
proof -
  have "spec_run (client_initialize ''/'') 7 (names demo_master) (counter demo_master) = Some (Inr (True, demo_names, \<lambda>_. 0))"
    by (simp add: client_initialize_def spec_runs demo_master_facts path_defs master_check_valid_path_def open_node_def path_parent_def
        demo_names_def)
  from run_from_spec [OF mt.inv_reach [OF demo_master_facts(1)] _ this] show ?thesis
    using run_reach [OF demo_master_facts(1), of 7 "client_initialize ''/''" True] by (auto simp: demo_master_facts)
qed

lemma demo_ready: "register_ready ''/'' ''api'' ''sum'' demo_names (\<lambda>_. 0)"
  by (simp add: register_ready_def demo_names_def path_defs lock_path_def api_path_def service_path_def rpc_key_def id_path_def
      can_generate_def open_node_def int_max_def kids_def)

theorem register_lookup_witness:
  "\<exists>m m' rid info m''. run_prog (client_initialize ''/'') 7 demo_master = Some (Inr (True, m)) \<and>
     run_prog (register_server ''/'' ''api'' ''sum'' 3 (-1) []) 7 m = Some (Inr ((True, rid, 0, []), m')) \<and>
     run_prog (get_rpc_service_info_of ''/'' ''api'' ''sum'') 7 m' = Some (Inr (Some info, m'')) \<and>
     set (servers info) = {\<lparr>server_id = 0, server_rank = 3\<rparr>}"
proof -
  obtain m where m: "run_prog (client_initialize ''/'') 7 demo_master = Some (Inr (True, m))" "names m = demo_names"
      "counter m = (\<lambda>_. 0)" "reach (\<lambda>m. m = master_new) master_step m" "sockets m = [7]"
    using demo_initialize by blast
  have id: "new_server_id ''/'' ''api'' ''sum'' (-1) (counter m) = 0" by (simp add: new_server_id_def m(3))
  have r: "root_ok ''/''" "name_ok ''api''" "name_ok ''sum''" "register_ready ''/'' ''api'' ''sum'' (names m) (counter m)"
    using demo_ready by (simp_all add: root_ok_def name_ok_def m(2,3))
  have n: "names m (''/'' @ server_path ''api'' ''sum'' 0) = None" "names m (''/'' @ service_path ''api'' ''sum'') = None"
    by (simp_all add: m(2) demo_names_def server_path_def service_path_def api_path_def path_defs)
  from register_lookup [where s = 7 and rank = 3 and locks = "[]" and sv_id = "-1", OF m(4) _ r] id n m(1,5) show ?thesis
    by auto
qed

theorem tree_clear_path_total_witness:
  "\<exists>m'. run_prog (tree_clear_path 9 ''/'' ''a'') 8 demo_added = Some (Inr ((), m')) \<and> names m' ''/a'' = None \<and> names m' [] \<noteq> None"
proof -
  have "names demo_added [] \<noteq> None" by (simp add: names_def flat_def ensure_root_def nodes_def get_node_def demo_added_def)
  then show ?thesis
    using tree_clear_path_total [OF demo_added_reach, of 8 "''/''" "''a''" 9]
    by (auto simp: demo_added_def master_check_valid_path_def)
qed

theorem clear_master_noop_witness:
  "\<exists>m'. run_prog (clear_master 9 (client_root [])) 8 demo_added = Some (Inr ((), m')) \<and> names m' ''/a'' \<noteq> None"
proof -
  have "names demo_added ''/a'' \<noteq> None" by (simp add: names_def flat_def ensure_root_def nodes_def get_node_def demo_added_def)
  then show ?thesis using clear_master_noop [OF demo_added_reach, of 8 9] by (auto simp: demo_added_def)
qed

text \<open>A callback for \<open>/a\<close>, and a change of \<open>/a/b\<close>.\<close>

theorem watch_notified_witness:
  "\<exists>t1 t2. watcher_insert ''/a'' (1 :: nat) \<lparr>wt_this = 3, wt_map = [], wt_next = 0\<rparr> = ((3, ''/a'', 0), t1) \<and>
     watch_ops [Watch_insert ''/a'' 2, Watch_erase (3, ''/a'', 1)] t1 = Inr t2 \<and> 1 \<in> set (client_notify ''/a/b'' t2)"
proof -
  let ?t0 = "\<lparr>wt_this = 3, wt_map = [], wt_next = 0\<rparr> :: nat watcher_table"
  let ?t1 = "snd (watcher_insert ''/a'' (1 :: nat) ?t0)"
  have i: "watcher_insert ''/a'' (1 :: nat) ?t0 = ((3, ''/a'', 0), ?t1)" by (simp add: watcher_insert_def)
  have o: "\<exists>t2. watch_ops [Watch_insert ''/a'' 2, Watch_erase (3, ''/a'', 1)] ?t1 = Inr t2"
    by (simp add: watcher_insert_def watcher_erase_def watcher_list_def)
  then obtain t2 where o2: "watch_ops [Watch_insert ''/a'' 2, Watch_erase (3, ''/a'', 1)] ?t1 = Inr t2" by blast
  have c: "''/a'' \<in> set (chain ''/a/b'')" by (simp add: cur_paths_chain [symmetric] master_check_valid_path_def)
  have "1 \<in> set (client_notify ''/a/b'' t2)"
    using watch_notified [of "[]" 3 ?t0 "''/a''" 1 "(3, ''/a'', 0)" ?t1 "[Watch_insert ''/a'' 2, Watch_erase (3, ''/a'', 1)]" t2 "''/a/b''"] i o2 c
    by (simp add: master_check_valid_path_def)
  then show ?thesis using i o2 by blast
qed

end
