(* ===== verification/Master_Lock.thy ===== *)
theory Master_Lock
  imports Master_Client
begin

text \<open>
  Clients of the master that run at the same time: locks and generated ids of
  \<open>src/rpc/MasterClient.cpp\<close>.

  Each client is a connection and a program of \<open>Master_Client\<close>. A step is one call of one client (\<open>again\<close> says what a
  client whose program has returned may start next), the loss of a client with its connection, or anything else the
  master does for other connections, as far as it leaves the directory under study alone. The proofs see the master only
  through \<open>Master_Names\<close>: a directory is the map from its keys to their owners, with the counter of generated keys. A client
  that waits may test its condition again at any time here, which includes the times at which it is woken up by a
  notification; progress, which depends on the notifications, is the subject of \<open>Master_Wait\<close>.
\<close>

section \<open>Clients at the same time\<close>

record 'a psys =
  procs :: "(nat \<times> 'a mprog) list"
  mst :: master

definition next_prog :: "master_req \<Rightarrow> (reply \<Rightarrow> 'a mprog option) \<Rightarrow> reply \<Rightarrow> 'a mprog" where
  "next_prog req k r = (case k r of None \<Rightarrow> Call req k | Some p \<Rightarrow> p)"

inductive psys_step :: "('a mprog \<Rightarrow> 'a mprog \<Rightarrow> bool) \<Rightarrow> (master_req \<Rightarrow> bool) \<Rightarrow> 'a psys \<Rightarrow> 'a psys \<Rightarrow> bool"
  for again :: "'a mprog \<Rightarrow> 'a mprog \<Rightarrow> bool" and foreign :: "master_req \<Rightarrow> bool" where
  call: "i < length (procs S) \<Longrightarrow> procs S ! i = (s, Call req k) \<Longrightarrow> master_call s req (mst S) = Inr (r, m') \<Longrightarrow>
    psys_step again foreign S (S\<lparr>procs := (procs S)[i := (s, next_prog req k r)], mst := m'\<rparr>)"
| again: "i < length (procs S) \<Longrightarrow> procs S ! i = (s, p) \<Longrightarrow> again p p' \<Longrightarrow>
    psys_step again foreign S (S\<lparr>procs := (procs S)[i := (s, p')]\<rparr>)"
| crash: "i < length (procs S) \<Longrightarrow> procs S ! i = (s, p) \<Longrightarrow> s \<in> set (sockets (mst S)) \<Longrightarrow> serve_close s (mst S) = Inr m' \<Longrightarrow>
    psys_step again foreign S (S\<lparr>procs := (procs S)[i := (s, Abort Check_failed)], mst := m'\<rparr>)"
| other: "foreign req \<Longrightarrow> (req = MASTER_CLIENT_FINALIZE \<longrightarrow> s \<notin> fst ` set (procs S)) \<Longrightarrow>
    s \<in> set (sockets (mst S)) \<Longrightarrow> serve_request s req (mst S) = Inr m' \<Longrightarrow> psys_step again foreign S (S\<lparr>mst := m'\<rparr>)"
| arrive: "s \<notin> set (sockets (mst S)) \<Longrightarrow> s \<notin> fst ` set (procs S) \<Longrightarrow>
    psys_step again foreign S (S\<lparr>mst := serve_accept s (mst S)\<rparr>)"
| leave: "s \<notin> fst ` set (procs S) \<Longrightarrow> s \<in> set (sockets (mst S)) \<Longrightarrow> serve_close s (mst S) = Inr m' \<Longrightarrow>
    psys_step again foreign S (S\<lparr>mst := m'\<rparr>)"

section \<open>Directories\<close>

type_synonym dir = "string \<rightharpoonup> nat option"

definition dir_of :: "string \<Rightarrow> names \<Rightarrow> dir" where
  "dir_of q N k = (if name_ok k then map_option fst (N (q @ slash # k)) else None)"

definition drop_dir :: "nat \<Rightarrow> dir \<Rightarrow> dir" where
  "drop_dir s D k = (if D k = Some (Some s) then None else D k)"

text \<open>Requests of others that leave the keys of the directory \<open>q\<close> alone.\<close>

fun keeps_dir :: "string \<Rightarrow> master_req \<Rightarrow> bool" where
  "keeps_dir q (MASTER_GEN p v e) \<longleftrightarrow> p \<noteq> q"
| "keeps_dir q (MASTER_ADD p v e) \<longleftrightarrow> path_parent p \<noteq> q"
| "keeps_dir q (MASTER_DEL p) \<longleftrightarrow> p \<noteq> q \<and> path_parent p \<noteq> q"
| "keeps_dir q req \<longleftrightarrow> True"

lemma dir_kids: "kids N q = dom (dir_of q N)"
  by (auto simp: kids_def dir_of_def name_ok_def split: if_splits)

lemma dir_drop: "dir_of q (drop_owner s N) = drop_dir s (dir_of q N)"
  by (auto simp: dir_of_def drop_dir_def drop_owner_def fun_eq_iff split: option.splits)

lemma dir_upd_other: "path_parent p \<noteq> q \<Longrightarrow> dir_of q (N(p := x)) = dir_of q N"
  by (auto simp: dir_of_def fun_eq_iff name_ok_def path_join)

lemma dir_upd_key: "name_ok k \<Longrightarrow> dir_of q (N(q @ slash # k := x)) = (dir_of q N)(k := map_option fst x)"
  by (auto simp: dir_of_def fun_eq_iff)

lemma dir_set: "N p = Some (ow, v0) \<Longrightarrow> dir_of q (N(p \<mapsto> (ow, v))) = dir_of q N"
  by (auto simp: dir_of_def fun_eq_iff)

lemma dir_spec:
  assumes "spec_op s req N C = Inr (r, N', C')" "keeps_dir q req"
  shows "dir_of q N' = (if req = MASTER_CLIENT_FINALIZE then drop_dir s (dir_of q N) else dir_of q N)" "C' q = C q"
proof -
  have "dir_of q N' = (if req = MASTER_CLIENT_FINALIZE then drop_dir s (dir_of q N) else dir_of q N) \<and> C' q = C q"
  proof (cases req)
    case (MASTER_GEN p v e)
    have "path_parent (p @ slash # gen_key n) \<noteq> q" for n using MASTER_GEN assms(2) path_join(1) [OF gen_key_ok(2)] by simp
    then show ?thesis using assms MASTER_GEN by (auto simp: Let_def dir_upd_other split: if_splits)
  next
    case (MASTER_SET p v)
    then show ?thesis using assms by (auto simp: dir_set split: if_splits option.splits)
  qed (use assms in \<open>auto simp: dir_upd_other dir_drop split: if_splits option.splits\<close>)
  then show "dir_of q N' = (if req = MASTER_CLIENT_FINALIZE then drop_dir s (dir_of q N) else dir_of q N)" "C' q = C q" by blast+
qed

lemma dir_gen:
  assumes "spec_op s (MASTER_GEN q v e) N C = Inr (r, N', C')" "master_check_valid_path q"
  shows "key_of r = [] \<and> dir_of q N' = dir_of q N \<and> (C' q = C q \<or> C' q = C q + 1 \<and> C q \<noteq> int_max) \<or>
    (C q \<noteq> int_max \<and> key_of r = gen_key (nat (C q)) \<and> dir_of q N (key_of r) = None \<and>
     dir_of q N' = (dir_of q N)(key_of r \<mapsto> (if e then Some s else None)) \<and> C' q = C q + 1)"
    "status_of r \<noteq> ERROR" "status_of r \<noteq> DISCONNECTED"
proof -
  let ?k = "gen_key (nat (C q))"
  have d: "N (q @ slash # ?k) = None \<Longrightarrow> dir_of q N ?k = None" by (simp add: dir_of_def)
  show "key_of r = [] \<and> dir_of q N' = dir_of q N \<and> (C' q = C q \<or> C' q = C q + 1 \<and> C q \<noteq> int_max) \<or>
    (C q \<noteq> int_max \<and> key_of r = gen_key (nat (C q)) \<and> dir_of q N (key_of r) = None \<and>
     dir_of q N' = (dir_of q N)(key_of r \<mapsto> (if e then Some s else None)) \<and> C' q = C q + 1)"
    using assms gen_key_name [of "nat (C q)"] d
    by (cases "N (q @ slash # ?k)") (auto simp: Let_def dir_upd_key split: if_splits)
  show "status_of r \<noteq> ERROR" "status_of r \<noteq> DISCONNECTED" using assms by (auto simp: Let_def split: if_splits)
qed

lemma dir_del:
  assumes "spec_op s (MASTER_DEL (q @ slash # k)) N C = Inr (r, N', C')" "names_ok N" "dir_of q N k = Some (Some s')"
  shows "r = Status OK" "dir_of q N' = (dir_of q N)(k := None)" "C' q = C q"
proof -
  have k: "name_ok k" "\<not> open_node N (q @ slash # k)" "N (q @ slash # k) \<noteq> None"
    using assms(3) by (auto simp: dir_of_def open_node_def split: if_splits)
  have "kids N (q @ slash # k) = {}" using kids_open [OF assms(2)] k(2) by blast
  moreover have "master_check_valid_path (q @ slash # k)" using names_okD(1) [OF assms(2) k(3)] by simp
  ultimately have "r = Status OK \<and> N' = N(q @ slash # k := None) \<and> C' = C(q @ slash # k := 0)" using assms(1) k(3) by auto
  then show "r = Status OK" "dir_of q N' = (dir_of q N)(k := None)" "C' q = C q" using dir_upd_key [OF k(1)] by auto
qed

lemma dir_owner:
  assumes "master_inv m" "dir_of q (names m) k = Some (Some s)"
  shows "s \<in> set (sockets m)"
proof -
  obtain n where "nodes (ensure_root m) (q @ slash # k) = Some n" "owner n = Some s"
    using assms(2) by (auto simp: dir_of_def names_def flat_def split: if_splits)
  then show ?thesis using ensure_root_inv(1,2) [OF assms(1)] by (auto simp: master_inv_def owners_ok_def)
qed

text \<open>The steps of the clients on names and counters.\<close>

lemma psys_step_names:
  assumes "psys_step again foreign S S'" "master_inv (mst S)"
  obtains (call) i s req k r where "i < length (procs S)" "procs S ! i = (s, Call req k)"
      "spec_op s req (names (mst S)) (counter (mst S)) = Inr (r, names (mst S'), counter (mst S'))"
      "procs S' = (procs S)[i := (s, next_prog req k r)]" "master_inv (mst S')"
  | (again) i s p p' where "i < length (procs S)" "procs S ! i = (s, p)" "again p p'" "procs S' = (procs S)[i := (s, p')]"
      "mst S' = mst S"
  | (crash) i s p where "i < length (procs S)" "procs S ! i = (s, p)" "procs S' = (procs S)[i := (s, Abort Check_failed)]"
      "names (mst S') = drop_owner s (names (mst S))" "counter (mst S') = counter (mst S)" "master_inv (mst S')"
  | (other) s req r where "foreign req" "req = MASTER_CLIENT_FINALIZE \<longrightarrow> s \<notin> fst ` set (procs S)"
      "spec_op s req (names (mst S)) (counter (mst S)) = Inr (r, names (mst S'), counter (mst S'))"
      "procs S' = procs S" "master_inv (mst S')"
  | (arrive) "procs S' = procs S" "names (mst S') = names (mst S)" "counter (mst S') = counter (mst S)" "master_inv (mst S')"
  | (leave) s where "s \<notin> fst ` set (procs S)" "procs S' = procs S" "names (mst S') = drop_owner s (names (mst S))"
      "counter (mst S') = counter (mst S)" "master_inv (mst S')"
  using assms(1)
proof cases
  case (call i s req k r m')
  have "s \<in> set (sockets (mst S))" using call(4) by (auto simp: master_call_def prpc_simps)
  from master_call_ok(2) [OF assms(2) this call(4)] show thesis using that(1) call by simp
next
  case (again i s p p')
  then show thesis using that(2) by simp
next
  case (crash i s p m')
  from close_spec [OF assms(2) crash(4)] show thesis using that(3) crash by auto
next
  case (other req s m')
  obtain r m1 where c: "master_call s req (mst S) = Inr (r, m1)" "m' = m1"
    using other(4,5) by (auto simp: serve_request_def master_call_def prpc_simps)
  from master_call_ok(2) [OF assms(2) other(4) c(1)] show thesis using that(4) other c by simp
next
  case (arrive s)
  have "master_inv (serve_accept s (mst S))" by (rule master_inv_step [OF assms(2) master_step.accept [OF arrive(2)]])
  then show thesis using that(5) arrive by (simp add: serve_accept_def)
next
  case (leave s m')
  from close_spec [OF assms(2) leave(3)] show thesis using that(6) leave by auto
qed

section \<open>Locks\<close>

text \<open>A client whose call has returned acquires the lock, or releases it if it has it.\<close>

fun lock_again :: "string \<Rightarrow> string \<Rightarrow> (string \<times> string) list mprog \<Rightarrow> (string \<times> string) list mprog \<Rightarrow> bool" where
  "lock_again root name (Done locks) p' \<longleftrightarrow>
     p' = (if map_of locks name = None then acquire_lock root name locks else release_lock root name locks)"
| "lock_again root name p p' \<longleftrightarrow> False"

definition lock_init :: "string \<Rightarrow> string \<Rightarrow> (string \<times> string) list psys \<Rightarrow> bool" where
  "lock_init root name S \<longleftrightarrow> reach (\<lambda>m. m = master_new) master_step (mst S) \<and> distinct (map fst (procs S)) \<and>
     (\<forall>x \<in> set (procs S). snd x = Done []) \<and> kids (names (mst S)) (root @ lock_path name) = {}"

definition holds :: "string \<Rightarrow> (string \<times> string) list mprog \<Rightarrow> bool" where
  "holds name p \<longleftrightarrow> (\<exists>locks. p = Done locks \<and> map_of locks name \<noteq> None)"

text \<open>The positions inside the two operations, and the programs that are left there.\<close>

datatype lock_pc =
    L_free | L_add | L_gen | L_watch1 string | L_watch2 string | L_wait string | L_hold string | L_del string | L_dead fault

definition lock_wait :: "string \<Rightarrow> string \<Rightarrow> string \<Rightarrow> (string \<times> string) list mprog" where
  "lock_wait root name gen =
     mbind (wait_sub root (lock_path name) (first_child_is gen)) (\<lambda>_.
     mbind (mcheck (map_of ([] :: (string \<times> string) list) name = None)) (\<lambda>_.
     Done [(name, lock_path name @ slash # gen)]))"

fun lock_prog :: "string \<Rightarrow> string \<Rightarrow> lock_pc \<Rightarrow> (string \<times> string) list mprog" where
  "lock_prog root name L_free = Done []"
| "lock_prog root name L_add = acquire_lock root name []"
| "lock_prog root name L_gen =
     mbind (tree_node_gen root (lock_path name) [] True) (\<lambda>gen.
     mbind (mcheck (gen \<noteq> [])) (\<lambda>_.
     mbind (tree_watch root (lock_path name)) (\<lambda>_. lock_wait root name gen)))"
| "lock_prog root name (L_watch1 k) = mbind (tree_watch root (lock_path name)) (\<lambda>_. lock_wait root name k)"
| "lock_prog root name (L_watch2 k) = Call (MASTER_SUB (root @ lock_path name)) (\<lambda>_. Some (lock_wait root name k))"
| "lock_prog root name (L_wait k) = lock_wait root name k"
| "lock_prog root name (L_hold k) = Done [(name, lock_path name @ slash # k)]"
| "lock_prog root name (L_del k) = release_lock root name [(name, lock_path name @ slash # k)]"
| "lock_prog root name (L_dead e) = Abort e"

fun pc_key :: "lock_pc \<Rightarrow> string option" where
  "pc_key (L_watch1 k) = Some k"
| "pc_key (L_watch2 k) = Some k"
| "pc_key (L_wait k) = Some k"
| "pc_key (L_hold k) = Some k"
| "pc_key (L_del k) = Some k"
| "pc_key pc = None"

fun owning :: "lock_pc \<Rightarrow> bool" where
  "owning (L_hold k) = True"
| "owning (L_del k) = True"
| "owning pc = False"

definition lock_abs :: "nat list \<Rightarrow> lock_pc list \<Rightarrow> dir \<Rightarrow> int \<Rightarrow> bool" where
  "lock_abs ss pcs D c \<longleftrightarrow>
     (\<forall>i < length pcs. \<forall>k. pc_key (pcs ! i) = Some k \<longrightarrow> D k = Some (Some (ss ! i))) \<and>
     (\<forall>k. D k \<noteq> None \<longrightarrow> (\<exists>i < length pcs. pc_key (pcs ! i) = Some k)) \<and>
     (\<forall>k. D k \<noteq> None \<longrightarrow> (\<exists>n. k = gen_key n \<and> int n < c)) \<and>
     (\<forall>i < length pcs. owning (pcs ! i) \<longrightarrow> (\<forall>k. D k \<noteq> None \<longrightarrow> the (pc_key (pcs ! i)) \<le> k))"

lemma lock_absD:
  assumes "lock_abs ss pcs D c"
  shows "i < length pcs \<Longrightarrow> pc_key (pcs ! i) = Some k \<Longrightarrow> D k = Some (Some (ss ! i))"
    "D k \<noteq> None \<Longrightarrow> \<exists>i < length pcs. pc_key (pcs ! i) = Some k" "D k \<noteq> None \<Longrightarrow> \<exists>n. k = gen_key n \<and> int n < c"
    "i < length pcs \<Longrightarrow> owning (pcs ! i) \<Longrightarrow> D k \<noteq> None \<Longrightarrow> the (pc_key (pcs ! i)) \<le> k"
  using assms unfolding lock_abs_def by blast+

text \<open>A step that keeps the key.\<close>

lemma lock_abs_move:
  assumes a: "lock_abs ss pcs D c" and i: "i < length pcs" and k: "pc_key pc = pc_key (pcs ! i)"
    and o: "owning pc \<Longrightarrow> owning (pcs ! i) \<or> (\<forall>k. D k \<noteq> None \<longrightarrow> the (pc_key pc) \<le> k)" and c: "c \<le> c'"
  shows "lock_abs ss (pcs[i := pc]) D c'"
proof -
  have key: "pc_key (pcs[i := pc] ! j) = pc_key (pcs ! j)" for j using k i by (cases "j = i") auto
  show ?thesis
    unfolding lock_abs_def
  proof (intro conjI allI impI)
    fix k assume D: "D k \<noteq> None"
    show "\<exists>n. k = gen_key n \<and> int n < c'" using lock_absD(3) [OF a D] c by fastforce
    show "\<exists>j < length (pcs[i := pc]). pc_key (pcs[i := pc] ! j) = Some k" unfolding key using lock_absD(2) [OF a D] by simp
  next
    fix j k assume j: "j < length (pcs[i := pc])" "owning (pcs[i := pc] ! j)" "D k \<noteq> None"
    then show "the (pc_key (pcs[i := pc] ! j)) \<le> k"
      using lock_absD(4) [OF a, of j k] k o by (cases "j = i") auto
  qed (use lock_absD(1) [OF a] key in auto)
qed

lemma gen_key_mono: "n < n' \<Longrightarrow> n' < 10 ^ 10 \<Longrightarrow> gen_key n < gen_key n'"
  using digits_less [of n n' 10] by (subst (1 2) gen_key_digits) auto

lemma lock_abs_gen:
  assumes a: "lock_abs ss pcs D c" and i: "i < length pcs" "pc_key (pcs ! i) = None" and c: "0 \<le> c" "c < int_max"
    and new: "D (gen_key (nat c)) = None"
  shows "lock_abs ss (pcs[i := L_watch1 (gen_key (nat c))]) (D(gen_key (nat c) \<mapsto> Some (ss ! i))) (c + 1)"
proof -
  let ?k = "gen_key (nat c)" and ?pcs = "pcs[i := L_watch1 (gen_key (nat c))]"
  have less: "k < ?k" if d: "D k \<noteq> None" for k
  proof -
    obtain n where "k = gen_key n" "int n < c" using lock_absD(3) [OF a d] by blast
    then show ?thesis using gen_key_mono [of n "nat c"] c by (simp add: int_max_def)
  qed
  have ne: "pc_key (pcs ! j) \<noteq> Some ?k" if "j < length pcs" for j using lock_absD(1) [OF a that] new by auto
  show ?thesis
    unfolding lock_abs_def
  proof (intro conjI allI impI)
    fix j k assume "j < length ?pcs" "pc_key (?pcs ! j) = Some k"
    then show "(D(?k \<mapsto> Some (ss ! i))) k = Some (Some (ss ! j))"
      using lock_absD(1) [OF a, of j k] ne [of j] i by (cases "j = i") auto
  next
    fix k assume k: "(D(?k \<mapsto> Some (ss ! i))) k \<noteq> None"
    show "\<exists>j < length ?pcs. pc_key (?pcs ! j) = Some k"
    proof (cases "k = ?k")
      case True
      then show ?thesis using i(1) by (intro exI [of _ i]) simp
    next
      case False
      then obtain j where "j < length pcs" "pc_key (pcs ! j) = Some k" using lock_absD(2) [OF a] k by auto
      then show ?thesis using i by (intro exI [of _ j]) (auto simp: nth_list_update)
    qed
    show "\<exists>n. k = gen_key n \<and> int n < c + 1"
    proof (cases "k = ?k")
      case True
      then show ?thesis using c by (intro exI [of _ "nat c"]) simp
    next
      case False
      then obtain n where "k = gen_key n \<and> int n < c" using lock_absD(3) [OF a] k by auto
      then show ?thesis by (intro exI [of _ n]) simp
    qed
  next
    fix j k assume j: "j < length ?pcs" "owning (?pcs ! j)" "(D(?k \<mapsto> Some (ss ! i))) k \<noteq> None"
    then have j': "j \<noteq> i" "j < length pcs" "owning (pcs ! j)" using i(1) by (auto simp: nth_list_update split: if_splits)
    then obtain kj where kj: "pc_key (pcs ! j) = Some kj" by (cases "pcs ! j") auto
    then have "D kj \<noteq> None" using lock_absD(1) [OF a j'(2)] by simp
    then show "the (pc_key (?pcs ! j)) \<le> k"
      using lock_absD(4) [OF a j'(2,3), of k] j(3) less [of kj] kj j'(1) by (cases "k = ?k") auto
  qed
qed

text \<open>The key of client \<open>i\<close> disappears.\<close>

lemma lock_abs_del:
  assumes a: "lock_abs ss pcs D c" and i: "i < length pcs" "pc_key pc = None"
    and D': "\<And>k. D' k = (if pc_key (pcs ! i) = Some k then None else D k)" and s: "distinct ss" "length ss = length pcs"
  shows "lock_abs ss (pcs[i := pc]) D' c"
proof -
  have inj: "j = i" if "j < length pcs" "pc_key (pcs ! j) = Some k" "pc_key (pcs ! i) = Some k" for j k
    using lock_absD(1) [OF a that(1,2)] lock_absD(1) [OF a i(1) that(3)] s that(1) i(1) by (simp add: nth_eq_iff_index_eq)
  have o: "owning pc = False" using i(2) by (cases pc) auto
  show ?thesis
    unfolding lock_abs_def
  proof (intro conjI allI impI)
    fix j k assume j: "j < length (pcs[i := pc])" "pc_key (pcs[i := pc] ! j) = Some k"
    then have "j \<noteq> i" "j < length pcs" "pc_key (pcs ! j) = Some k" using i by (auto simp: nth_list_update split: if_splits)
    then show "D' k = Some (Some (ss ! j))" using D' inj lock_absD(1) [OF a] by auto
  next
    fix k assume k: "D' k \<noteq> None"
    then have k': "D k \<noteq> None" "pc_key (pcs ! i) \<noteq> Some k" using D' by (auto split: if_splits)
    then obtain j where j: "j < length pcs" "pc_key (pcs ! j) = Some k" using lock_absD(2) [OF a] by blast
    then have "j \<noteq> i" using k'(2) by auto
    then show "\<exists>j < length (pcs[i := pc]). pc_key (pcs[i := pc] ! j) = Some k" using j by (intro exI [of _ j]) simp
    show "\<exists>n. k = gen_key n \<and> int n < c" by (rule lock_absD(3) [OF a k'(1)])
  next
    fix j k assume j: "j < length (pcs[i := pc])" "owning (pcs[i := pc] ! j)" "D' k \<noteq> None"
    then have "j \<noteq> i" "j < length pcs" "owning (pcs ! j)" "D k \<noteq> None"
      using i o D' by (auto simp: nth_list_update split: if_splits)
    then show "the (pc_key (pcs[i := pc] ! j)) \<le> k" using lock_absD(4) [OF a] by simp
  qed
qed

lemma lock_abs_exclusive:
  assumes "lock_abs ss pcs D c" "distinct ss" "length ss = length pcs"
    and "i < length pcs" "j < length pcs" "owning (pcs ! i)" "owning (pcs ! j)"
  shows "i = j"
proof -
  obtain ki kj where k: "pc_key (pcs ! i) = Some ki" "pc_key (pcs ! j) = Some kj"
    using assms(6,7) by (cases "pcs ! i"; cases "pcs ! j") auto
  then have D: "D ki = Some (Some (ss ! i))" "D kj = Some (Some (ss ! j))" using lock_absD(1) [OF assms(1)] assms(4,5) by auto
  have "ki \<le> kj" "kj \<le> ki" using lock_absD(4) [OF assms(1) assms(4,6), of kj] lock_absD(4) [OF assms(1) assms(5,7), of ki] k D by auto
  then have "ss ! i = ss ! j" using D by simp
  then show ?thesis using assms(2-5) by (simp add: nth_eq_iff_index_eq)
qed

text \<open>What each position calls, and where it goes with the reply.\<close>

lemma lock_next_add:
  assumes "master_check_valid_path (root @ lock_path name)" "lock_prog root name L_add = Call req k" "spec_op s req N C = Inr (r, N', C')"
  shows "req = MASTER_ADD (root @ lock_path name) [] False" "next_prog req k r = lock_prog root name L_gen"
proof -
  have "lock_prog root name L_add = Call (MASTER_ADD (root @ lock_path name) [] False)
      (\<lambda>r. if status_of r = ERROR then Some (Abort Check_failed)
            else if status_of r = DISCONNECTED then None else Some (lock_prog root name L_gen))"
    using assms(1) by (auto simp: acquire_lock_def tree_node_add_def retry_master_method_def lock_wait_def fun_eq_iff)
  then have e: "req = MASTER_ADD (root @ lock_path name) [] False" "k = (\<lambda>r. if status_of r = ERROR then Some (Abort Check_failed)
      else if status_of r = DISCONNECTED then None else Some (lock_prog root name L_gen))"
    using assms(2) by simp_all
  show "req = MASTER_ADD (root @ lock_path name) [] False" by (rule e)
  show "next_prog req k r = lock_prog root name L_gen"
    using assms(1,3) by (auto simp: e next_prog_def split: if_splits)
qed

lemma lock_next_gen:
  assumes "master_check_valid_path (root @ lock_path name)" "lock_prog root name L_gen = Call req k" "spec_op s req N C = Inr (r, N', C')"
  shows "req = MASTER_GEN (root @ lock_path name) [] True"
    "next_prog req k r = lock_prog root name (if key_of r = [] then L_dead Check_failed else L_watch1 (key_of r))"
proof -
  have "lock_prog root name L_gen = Call (MASTER_GEN (root @ lock_path name) [] True)
      (\<lambda>r. if status_of r = ERROR then Some (Abort Check_failed)
            else if status_of r = DISCONNECTED then None
            else Some (lock_prog root name (if key_of r = [] then L_dead Check_failed else L_watch1 (key_of r))))"
    using assms(1) by (auto simp: tree_node_gen_def retry_master_method_def mcheck_def fun_eq_iff)
  then have e: "req = MASTER_GEN (root @ lock_path name) [] True" "k = (\<lambda>r. if status_of r = ERROR then Some (Abort Check_failed)
      else if status_of r = DISCONNECTED then None
      else Some (lock_prog root name (if key_of r = [] then L_dead Check_failed else L_watch1 (key_of r))))"
    using assms(2) by simp_all
  show "req = MASTER_GEN (root @ lock_path name) [] True" by (rule e)
  then show "next_prog req k r = lock_prog root name (if key_of r = [] then L_dead Check_failed else L_watch1 (key_of r))"
    using dir_gen(2,3) [of s "root @ lock_path name" "[]" True N C r N' C'] assms(1,3) by (simp add: e(2) next_prog_def)
qed

lemma lock_next_watch:
  assumes "master_check_valid_path (root @ lock_path name)"
  shows "lock_prog root name (L_watch1 g) = Call req k \<Longrightarrow>
      req = MASTER_GET (root @ lock_path name) \<and> next_prog req k r = lock_prog root name (L_watch2 g)"
    "lock_prog root name (L_watch2 g) = Call req k \<Longrightarrow>
      req = MASTER_SUB (root @ lock_path name) \<and> next_prog req k r = lock_prog root name (L_wait g)"
  using assms by (auto simp: tree_watch_def next_prog_def)

lemma lock_wait_call:
  assumes "master_check_valid_path (root @ lock_path name)"
  shows "lock_wait root name g = Call (MASTER_SUB (root @ lock_path name)) (\<lambda>r. if status_of r = ERROR then Some (Abort Check_failed)
      else if status_of r = DISCONNECTED then None
      else if status_of r \<noteq> OK then Some (Abort Check_failed)
      else case first_child_is g (children_of r) of
             Inl e \<Rightarrow> Some (Abort e)
           | Inr b \<Rightarrow> if b then Some (Done [(name, lock_path name @ slash # g)]) else None)"
  using assms
  by (auto simp: lock_wait_def wait_sub_def retry_master_method_def mcheck_def fun_eq_iff split: sum.splits)

lemma lock_next_wait:
  assumes "master_check_valid_path (root @ lock_path name)" "lock_prog root name (L_wait g) = Call req k" "spec_op s req N C = Inr (r, N', C')"
    and "names_ok N" "g \<in> kids N (root @ lock_path name)"
  shows "req = MASTER_SUB (root @ lock_path name)"
    "next_prog req k r = lock_prog root name (if \<forall>x \<in> kids N (root @ lock_path name). g \<le> x then L_hold g else L_wait g)"
proof -
  let ?q = "root @ lock_path name" and ?cs = "sorted_list_of_set (kids N (root @ lock_path name))"
  have req: "req = MASTER_SUB ?q" using assms(2) lock_wait_call [OF assms(1)] by simp
  have fin: "finite (kids N ?q)" by (rule kids_finite [OF assms(4)])
  have "N ?q \<noteq> None" using kids_open [OF assms(4,5)] by (auto simp: open_node_def)
  then have r: "r = Status_children OK ?cs" using assms(1,3) req by auto
  obtain c cs where cs: "?cs = c # cs" using fin assms(5) by (cases ?cs) (auto dest: sorted_list_of_set_eq_Nil_iff [THEN iffD1])
  have "sorted (c # cs)" "set (c # cs) = kids N ?q" using fin cs sorted_sorted_list_of_set [of "kids N ?q"] set_sorted_list_of_set [of "kids N ?q"] by metis+
  then have "c \<in> kids N ?q" "\<forall>x \<in> kids N ?q. c \<le> x" by auto
  then have "(g = c) = (\<forall>x \<in> kids N ?q. g \<le> x)" using assms(5) by (auto intro: order_antisym)
  then show "next_prog req k r = lock_prog root name (if \<forall>x \<in> kids N ?q. g \<le> x then L_hold g else L_wait g)"
    using assms(2) cs by (auto simp: lock_wait_call [OF assms(1)] next_prog_def r first_child_is_def)
  show "req = MASTER_SUB ?q" by (rule req)
qed

lemma lock_next_del:
  assumes "master_check_valid_path (root @ lock_path name @ slash # g)" "lock_prog root name (L_del g) = Call req k"
  shows "req = MASTER_DEL ((root @ lock_path name) @ slash # g)" "next_prog req k (Status OK) = lock_prog root name L_free"
  using assms by (auto simp: release_lock_def tree_node_del_def retry_master_method_def next_prog_def mcheck_def)

lemma lock_next_none: "lock_prog root name pc = Call req k \<Longrightarrow> pc \<noteq> L_free \<and> (\<forall>g. pc \<noteq> L_hold g) \<and> (\<forall>e. pc \<noteq> L_dead e)"
  by auto

lemma retry_not_done: "retry_master_method root path req f \<noteq> Done x" "mbind (retry_master_method root path req f) g \<noteq> Done y"
  by (simp_all add: retry_master_method_def)

lemma lock_prog_done:
  assumes "lock_prog root name pc = Done locks"
  shows "pc = L_free \<and> locks = [] \<or> (\<exists>g. pc = L_hold g \<and> locks = [(name, lock_path name @ slash # g)])"
  using assms
  by (cases pc) (auto simp: acquire_lock_def release_lock_def tree_node_add_def tree_node_gen_def tree_node_del_def tree_watch_def
      lock_wait_def wait_sub_def retry_not_done split: if_splits)

section \<open>The invariant of the lock\<close>

definition lock_inv :: "string \<Rightarrow> string \<Rightarrow> (string \<times> string) list psys \<Rightarrow> bool" where
  "lock_inv root name S \<longleftrightarrow> master_inv (mst S) \<and> distinct (map fst (procs S)) \<and>
     (\<exists>pcs. map snd (procs S) = map (lock_prog root name) pcs \<and>
        lock_abs (map fst (procs S)) pcs (dir_of (root @ lock_path name) (names (mst S))) (counter (mst S) (root @ lock_path name)))"

lemma procs_upd:
  assumes "i < length ps" "ps ! i = (s, p)" "map snd ps = map f pcs"
  shows "map fst (ps[i := (s, f pc)]) = map fst ps" "map snd (ps[i := (s, f pc)]) = map f (pcs[i := pc])" "f (pcs ! i) = p"
    "i < length pcs" "map fst ps ! i = s"
proof -
  have l: "length pcs = length ps" using arg_cong [OF assms(3), of length] by simp
  show "i < length pcs" using assms(1) l by simp
  have "map snd ps ! i = map f pcs ! i" using assms(3) by simp
  then show "f (pcs ! i) = p" using assms(1,2) l by simp
  show "map fst ps ! i = s" using assms(1,2) by simp
  then show "map fst (ps[i := (s, f pc)]) = map fst ps" using assms(1) by (simp add: map_update list_update_same_conv)
  show "map snd (ps[i := (s, f pc)]) = map f (pcs[i := pc])" using assms(3) by (simp add: map_update)
qed

lemma lock_inv_call:
  fixes root name :: string and S S' :: "(string \<times> string) list psys"
  defines "q \<equiv> root @ lock_path name"
  assumes v: "master_check_valid_path q" and ok: "names_ok N" and a: "lock_abs ss pcs (dir_of q N) (C q)" and c: "0 \<le> C q" "C q \<le> int_max"
    and ds: "distinct ss" "length ss = length pcs"
    and i: "i < length pcs" "lock_prog root name (pcs ! i) = Call req k" and sp: "spec_op (ss ! i) req N C = Inr (r, N', C')"
  shows "\<exists>pc. next_prog req k r = lock_prog root name pc \<and> lock_abs ss (pcs[i := pc]) (dir_of q N') (C' q)"
proof -
  note key = lock_absD(1) [OF a i(1)]
  have move: "\<exists>pc. next_prog req k r = lock_prog root name pc \<and> lock_abs ss (pcs[i := pc]) (dir_of q N') (C' q)"
    if "next_prog req k r = lock_prog root name pc" "pc_key pc = pc_key (pcs ! i)" "keeps_dir q req" "req \<noteq> MASTER_CLIENT_FINALIZE"
      "owning pc \<Longrightarrow> owning (pcs ! i) \<or> (\<forall>k. dir_of q N k \<noteq> None \<longrightarrow> the (pc_key pc) \<le> k)" for pc
    using lock_abs_move [OF a i(1) that(2,5), of "C q"] dir_spec [OF sp that(3)] that(1,4) by auto
  show ?thesis
  proof (cases "pcs ! i")
    case L_add
    note l = lock_next_add [OF v [unfolded q_def], of req k "ss ! i" N C r N' C'] i(2) sp
    show ?thesis by (rule move [of L_gen]) (use l L_add path_parent_neq [OF valid_path_slash [OF v]] in \<open>auto simp: q_def\<close>)
  next
    case L_gen
    note l = lock_next_gen [OF v [unfolded q_def] i(2) [unfolded L_gen] sp]
    have sp': "spec_op (ss ! i) (MASTER_GEN q [] True) N C = Inr (r, N', C')" using sp l(1) by (simp add: q_def)
    note g = dir_gen(1) [OF sp' v]
    show ?thesis
    proof (cases "key_of r = []")
      case True
      then have "dir_of q N' = dir_of q N" "C q \<le> C' q" using g gen_key_ok(1) [of "nat (C q)"] by auto
      then show ?thesis using lock_abs_move [OF a i(1), of "L_dead Check_failed" "C' q"] l(2) True L_gen
        by (intro exI [of _ "L_dead Check_failed"]) auto
    next
      case False
      then have g': "C q \<noteq> int_max" "key_of r = gen_key (nat (C q))" "dir_of q N (key_of r) = None"
          "dir_of q N' = (dir_of q N)(key_of r \<mapsto> Some (ss ! i))" "C' q = C q + 1" using g by auto
      then show ?thesis using lock_abs_gen [OF a i(1) _ c(1)] l(2) False L_gen c(2)
        by (intro exI [of _ "L_watch1 (key_of r)"]) auto
    qed
  next
    case (L_watch1 g)
    then show ?thesis using lock_next_watch(1) [OF v [unfolded q_def], of g req k r] i(2) by (intro move [of "L_watch2 g"]) auto
  next
    case (L_watch2 g)
    then show ?thesis using lock_next_watch(2) [OF v [unfolded q_def], of g req k r] i(2) by (intro move [of "L_wait g"]) auto
  next
    case (L_wait g)
    have g: "g \<in> kids N q" using key [of g] L_wait by (auto simp: dir_kids)
    note l = lock_next_wait [OF v [unfolded q_def] i(2) [unfolded L_wait] sp ok g [unfolded q_def], folded q_def]
    show ?thesis
      by (rule move [of "if \<forall>x \<in> kids N q. g \<le> x then L_hold g else L_wait g"]) (use l L_wait in \<open>auto simp: dir_kids split: if_splits\<close>)
  next
    case (L_del g)
    have g: "dir_of q N g = Some (Some (ss ! i))" using key [of g] L_del by simp
    then have vg: "master_check_valid_path (q @ slash # g)"
      using names_okD(1) [OF ok, of "q @ slash # g"] by (auto simp: dir_of_def split: if_splits)
    note l = lock_next_del [of root name g req k] i(2) L_del vg
    have req: "req = MASTER_DEL (q @ slash # g)" using l by (auto simp: q_def)
    note d = dir_del [OF sp [unfolded req] ok g]
    have "lock_abs ss (pcs[i := L_free]) (dir_of q N') (C q)"
      by (rule lock_abs_del [OF a i(1) _ _ ds]) (use L_del d(2) in auto)
    then show ?thesis using l d by (intro exI [of _ L_free]) (auto simp: q_def)
  qed (use i(2) lock_next_none in auto)
qed

lemma lock_inv_step:
  assumes v: "root_ok root" "name_ok name" and inv: "lock_inv root name S"
    and step: "psys_step (lock_again root name) (keeps_dir (root @ lock_path name)) S S'"
  shows "lock_inv root name S'"
proof -
  let ?q = "root @ lock_path name" and ?ss = "map fst (procs S)"
  have vq: "master_check_valid_path ?q" using path_more(1) [OF path_one [OF v(1) path_names(1)] v(2)] by (simp add: lock_path_def)
  have m: "master_inv (mst S)" and ds: "distinct ?ss" using inv by (auto simp: lock_inv_def)
  obtain pcs where p: "map snd (procs S) = map (lock_prog root name) pcs"
      and a: "lock_abs ?ss pcs (dir_of ?q (names (mst S))) (counter (mst S) ?q)"
    using inv by (auto simp: lock_inv_def)
  have len: "length pcs = length (procs S)" using arg_cong [OF p, of length] by simp
  have drop: "lock_abs ?ss pcs (drop_dir s (dir_of ?q (names (mst S)))) (counter (mst S) ?q)" if "s \<notin> set ?ss" for s
  proof -
    have "dir_of ?q (names (mst S)) k \<noteq> Some (Some s)" for k
      using lock_absD(2) [OF a, of k] lock_absD(1) [OF a, of _ k] that len by force
    then have "drop_dir s (dir_of ?q (names (mst S))) = dir_of ?q (names (mst S))" by (simp add: drop_dir_def fun_eq_iff)
    then show ?thesis using a by simp
  qed
  from step m show ?thesis
  proof (cases rule: psys_step_names)
    case (call i s req k r)
    note u = procs_upd [OF call(1,2) p]
    obtain pc where pc: "next_prog req k r = lock_prog root name pc"
        "lock_abs ?ss (pcs[i := pc]) (dir_of ?q (names (mst S'))) (counter (mst S') ?q)"
      using lock_inv_call [where root = root and name = name and ss = ?ss and pcs = pcs and N = "names (mst S)" and C = "counter (mst S)"
          and N' = "names (mst S')" and C' = "counter (mst S')" and i = i and req = req and k = k and r = r]
        vq names_ok_inv [OF m] a counter_range [OF m, of ?q] ds u(3-5) call(3) len by auto
    then show ?thesis using call(4,5) u(1,2) [of pc] ds unfolding lock_inv_def by auto
  next
    case (again i s p0 p')
    note u = procs_upd [OF again(1,2) p]
    obtain locks where d: "p0 = Done locks" using again(3) by (cases p0) auto
    then have "pcs ! i = L_free \<and> locks = [] \<or> (\<exists>g. pcs ! i = L_hold g \<and> locks = [(name, lock_path name @ slash # g)])"
      using lock_prog_done u(3) by blast
    then have "\<exists>pc. p' = lock_prog root name pc \<and> pc_key pc = pc_key (pcs ! i) \<and> (owning pc \<longrightarrow> owning (pcs ! i))"
    proof (elim disjE exE)
      assume "pcs ! i = L_free \<and> locks = []"
      then show ?thesis using again(3) d by (intro exI [of _ L_add]) auto
    next
      fix g assume "pcs ! i = L_hold g \<and> locks = [(name, lock_path name @ slash # g)]"
      then show ?thesis using again(3) d by (intro exI [of _ "L_del g"]) auto
    qed
    then obtain pc where pc: "p' = lock_prog root name pc" "pc_key pc = pc_key (pcs ! i)" "owning pc \<longrightarrow> owning (pcs ! i)" by blast
    have "lock_abs ?ss (pcs[i := pc]) (dir_of ?q (names (mst S))) (counter (mst S) ?q)"
      by (rule lock_abs_move [OF a u(4) pc(2)]) (use pc(3) in auto)
    then show ?thesis using again(4,5) u(1,2) [of pc] pc(1) ds m unfolding lock_inv_def by auto
  next
    case (crash i s p0)
    note u = procs_upd [OF crash(1,2) p]
    have "drop_dir s (dir_of ?q (names (mst S))) k = (if pc_key (pcs ! i) = Some k then None else dir_of ?q (names (mst S)) k)" for k
    proof (cases "dir_of ?q (names (mst S)) k = Some (Some s)")
      case True
      then obtain j where j: "j < length pcs" "pc_key (pcs ! j) = Some k" using lock_absD(2) [OF a, of k] by auto
      then have "?ss ! j = ?ss ! i" using lock_absD(1) [OF a j] True u(5) by simp
      then have "j = i" using nth_eq_iff_index_eq [OF ds, of j i] j(1) u(4) len by simp
      then show ?thesis using True j(2) by (simp add: drop_dir_def)
    next
      case False
      then show ?thesis using lock_absD(1) [OF a u(4), of k] u(5) by (auto simp: drop_dir_def)
    qed
    then have "lock_abs ?ss (pcs[i := L_dead Check_failed]) (drop_dir s (dir_of ?q (names (mst S)))) (counter (mst S) ?q)"
      using ds len by (intro lock_abs_del [OF a u(4)]) auto
    then show ?thesis using crash(3-6) u(1,2) [of "L_dead Check_failed"] ds unfolding lock_inv_def by (auto simp: dir_drop)
  next
    case (other s req r)
    note d = dir_spec [OF other(3,1)]
    have "lock_abs ?ss pcs (dir_of ?q (names (mst S'))) (counter (mst S') ?q)"
      using a drop [of s] other(2) unfolding d by (cases "req = MASTER_CLIENT_FINALIZE") simp_all
    then show ?thesis using other(4,5) p ds unfolding lock_inv_def by auto
  next
    case arrive
    then show ?thesis using a p ds unfolding lock_inv_def by auto
  next
    case (leave s)
    then show ?thesis using drop [of s] p ds unfolding lock_inv_def by (auto simp: dir_drop)
  qed
qed

lemma lock_inv_init: "lock_init root name S \<Longrightarrow> lock_inv root name S"
proof -
  assume i: "lock_init root name S"
  have "map snd (procs S) = map (lock_prog root name) (replicate (length (procs S)) L_free)"
    using i by (auto simp: lock_init_def intro: nth_equalityI)
  moreover have "dir_of (root @ lock_path name) (names (mst S)) = Map.empty" using i by (simp add: lock_init_def dir_kids)
  then have "lock_abs (map fst (procs S)) (replicate (length (procs S)) L_free) (dir_of (root @ lock_path name) (names (mst S)))
      (counter (mst S) (root @ lock_path name))" by (simp add: lock_abs_def)
  moreover have "master_inv (mst S)" using i by (auto simp: lock_init_def intro: mt.inv_reach)
  ultimately show ?thesis using i unfolding lock_inv_def lock_init_def by blast
qed

lemma lock_invariant:
  assumes "root_ok root" "name_ok name"
  shows "inductive_invariant (lock_init root name) (psys_step (lock_again root name) (keeps_dir (root @ lock_path name))) (lock_inv root name)"
  by unfold_locales (use lock_inv_init lock_inv_step [OF assms] in blast)+

text \<open>A client that runs alone for a while.\<close>

lemma run_psys:
  assumes "run_prog p s m = Some (Inr (a, m'))" "i < length ps" "ps ! i = (s, mbind p f)"
  shows "(psys_step again foreign)\<^sup>*\<^sup>* \<lparr>procs = ps, mst = m\<rparr> \<lparr>procs = ps[i := (s, f a)], mst = m'\<rparr>"
  using assms
proof (induction p arbitrary: m ps)
  case (Call req k)
  then obtain r m1 p1 where c: "master_call s req m = Inr (r, m1)" "k r = Some p1" "run_prog p1 s m1 = Some (Inr (a, m'))"
    by (auto split: sum.splits option.splits)
  let ?ps = "ps[i := (s, mbind p1 f)]"
  have "psys_step again foreign \<lparr>procs = ps, mst = m\<rparr> \<lparr>procs = ?ps, mst = m1\<rparr>"
    using psys_step.call [of i "\<lparr>procs = ps, mst = m\<rparr>" s req "\<lambda>r. map_option (\<lambda>p. mbind p f) (k r)" r m1] Call.prems(2,3) c(1,2)
    by (simp add: next_prog_def)
  moreover have "(psys_step again foreign)\<^sup>*\<^sup>* \<lparr>procs = ?ps, mst = m1\<rparr> \<lparr>procs = ?ps[i := (s, f a)], mst = m'\<rparr>"
    using Call.IH [OF rangeI [of k r], of p1 m1 ?ps] c(2,3) Call.prems(2) by simp
  ultimately show ?case by (simp add: converse_rtranclp_into_rtranclp)
next
  case (Done b)
  then have "ps[i := (s, f a)] = ps" by (metis list_update_id mbind.simps(1) option.inject prod.inject run_prog.simps(1) sum.inject(2))
  then show ?case using Done.prems(1) by simp
qed simp_all

lemma mbind_assoc: "mbind (mbind p f) g = mbind p (\<lambda>x. mbind (f x) g)"
proof (induction p)
  case (Call req k)
  have "map_option (\<lambda>p. mbind p g) (map_option (\<lambda>p. mbind p f) (k r)) = map_option (\<lambda>p. mbind p (\<lambda>x. mbind (f x) g)) (k r)" for r
    using Call.IH [OF rangeI [of k r]] by (cases "k r") auto
  then show ?case by simp
qed simp_all

section \<open>Properties of the lock\<close>

text \<open>C3. Two clients never hold the same lock at the same time: for any number of clients that acquire and release it over
  and over, whose calls interleave in any order, some of which may be lost with their connection at any time, and with any
  other requests that leave the directory of the lock alone.\<close>

theorem lock_mutual_exclusion:
  assumes "root_ok root" "name_ok name"
    and "reach (lock_init root name) (psys_step (lock_again root name) (keeps_dir (root @ lock_path name))) S"
    and "i < length (procs S)" "j < length (procs S)" "holds name (snd (procs S ! i))" "holds name (snd (procs S ! j))"
  shows "i = j"
proof -
  have inv: "lock_inv root name S" by (rule inductive_invariant.inv_reach [OF lock_invariant [OF assms(1,2)] assms(3)])
  then obtain pcs where p: "map snd (procs S) = map (lock_prog root name) pcs" "distinct (map fst (procs S))"
      "lock_abs (map fst (procs S)) pcs (dir_of (root @ lock_path name) (names (mst S))) (counter (mst S) (root @ lock_path name))"
    by (auto simp: lock_inv_def)
  have len: "length (procs S) = length pcs" using arg_cong [OF p(1), of length] by simp
  have "owning (pcs ! x)" if "x < length (procs S)" "holds name (snd (procs S ! x))" for x
  proof -
    have "snd (procs S ! x) = lock_prog root name (pcs ! x)" using arg_cong [OF p(1), of "\<lambda>l. l ! x"] that(1) len by simp
    then show ?thesis using that(2) lock_prog_done [of root name "pcs ! x"] by (auto simp: holds_def)
  qed
  then show ?thesis using lock_abs_exclusive [OF p(3,2), of i j] assms(4-7) len by simp
qed

section \<open>Generated ids\<close>

text \<open>Clients that each generate an id for the same key. The node of the key may not be deleted, which would start the
  counter again (\<open>reset_generate_id\<close> does that).\<close>

definition id_init :: "string \<Rightarrow> string \<Rightarrow> 64 word psys \<Rightarrow> bool" where
  "id_init root key S \<longleftrightarrow> reach (\<lambda>m. m = master_new) master_step (mst S) \<and> (\<forall>x \<in> set (procs S). snd x = generate_id root key)"

fun keeps_counter :: "string \<Rightarrow> master_req \<Rightarrow> bool" where
  "keeps_counter q (MASTER_DEL p) \<longleftrightarrow> p \<noteq> q"
| "keeps_counter q req \<longleftrightarrow> True"

lemma counter_spec: "spec_op s req N C = Inr (r, N', C') \<Longrightarrow> keeps_counter q req \<Longrightarrow> C q \<le> C' q"
  by (cases req) (auto simp: Let_def split: if_splits option.splits)

datatype id_pc = I_add | I_gen | I_done int | I_dead fault

fun id_prog :: "string \<Rightarrow> string \<Rightarrow> id_pc \<Rightarrow> 64 word mprog" where
  "id_prog root key I_add = generate_id root key"
| "id_prog root key I_gen =
     mbind (tree_node_gen root (PATH_GENERATE_ID @ slash # key) [] True) (\<lambda>gen.
     mbind (mcheck (length gen > 1)) (\<lambda>_.
     mbind (stoi (drop 1 gen)) (\<lambda>i. Done (scast i))))"
| "id_prog root key (I_done n) = Done (word_of_int n)"
| "id_prog root key (I_dead e) = Abort e"

definition id_abs :: "id_pc list \<Rightarrow> int \<Rightarrow> bool" where
  "id_abs pcs c \<longleftrightarrow>
     (\<forall>i < length pcs. \<forall>n. pcs ! i = I_done n \<longrightarrow> 0 \<le> n \<and> n < c) \<and>
     (\<forall>i < length pcs. \<forall>j < length pcs. \<forall>n. pcs ! i = I_done n \<longrightarrow> pcs ! j = I_done n \<longrightarrow> i = j)"

lemma id_abs_upd:
  assumes "id_abs pcs c" "i < length pcs" "c \<le> c'" "\<And>n. pc = I_done n \<Longrightarrow> n = c \<and> 0 \<le> c \<and> c < c'"
  shows "id_abs (pcs[i := pc]) c'"
  using assms unfolding id_abs_def by (auto simp: nth_list_update)

text \<open>How a program that starts with a call of \<open>RETRY_MASTER_METHOD\<close> goes on.\<close>

lemma retry_next:
  assumes "master_check_valid_path (root @ path)" "mbind (retry_master_method root path rq f) g = Call req k"
  shows "req = rq (root @ path)"
    "next_prog req k r = (if status_of r = ERROR then Abort Check_failed
       else if status_of r = DISCONNECTED then Call req k
       else case f (status_of r) r of None \<Rightarrow> Call req k | Some p \<Rightarrow> mbind p g)"
  using assms by (auto simp: retry_master_method_def next_prog_def split: option.splits)

lemma id_inv_call:
  fixes root key :: string
  defines "q \<equiv> root @ PATH_GENERATE_ID @ slash # key"
  assumes v: "master_check_valid_path q" and a: "id_abs pcs (C q)" and c: "0 \<le> C q" "C q \<le> int_max"
    and i: "i < length pcs" "id_prog root key (pcs ! i) = Call req k" and sp: "spec_op s req N C = Inr (r, N', C')"
  shows "\<exists>pc. next_prog req k r = id_prog root key pc \<and> id_abs (pcs[i := pc]) (C' q)"
proof (cases "pcs ! i")
  case I_add
  let ?p = "PATH_GENERATE_ID @ slash # key"
  have v': "master_check_valid_path (root @ ?p)" using v by (simp add: q_def)
  have e: "mbind (retry_master_method root ?p (\<lambda>p. MASTER_ADD p [] False) (\<lambda>st r. Some (Done (st = OK)))) (\<lambda>_. id_prog root key I_gen) = Call req k"
    using i(2) I_add by (simp add: generate_id_def Let_def tree_node_add_def)
  note n = retry_next [OF v' e]
  have r: "status_of r \<noteq> ERROR" "status_of r \<noteq> DISCONNECTED" "C' q = C q" using sp v' unfolding n(1) by (auto split: if_splits)
  then show ?thesis using n(2) [of r] id_abs_upd [OF a i(1), of "C' q" I_gen] by (intro exI [of _ I_gen]) simp
next
  case I_gen
  let ?p = "PATH_GENERATE_ID @ slash # key"
  have v': "master_check_valid_path (root @ ?p)" using v by (simp add: q_def)
  let ?g = "\<lambda>gen. mbind (mcheck (length gen > 1)) (\<lambda>_. mbind (stoi (drop 1 gen)) (\<lambda>i. Done (scast i :: 64 word)))"
  have e: "mbind (retry_master_method root ?p (\<lambda>p. MASTER_GEN p [] True) (\<lambda>st r. Some (Done (key_of r)))) ?g = Call req k"
    using i(2) I_gen by (simp add: tree_node_gen_def)
  note n = retry_next [OF v' e]
  have sp': "spec_op s (MASTER_GEN q [] True) N C = Inr (r, N', C')" using sp n(1) by (simp add: q_def)
  note g = dir_gen [OF sp' v]
  have nx: "next_prog req k r = ?g (key_of r)" using n(2) [of r] g(2,3) by simp
  show ?thesis
  proof (cases "key_of r = []")
    case True
    then have "C q \<le> C' q" using g(1) by auto
    then show ?thesis using nx True id_abs_upd [OF a i(1), of "C' q" "I_dead Check_failed"]
      by (intro exI [of _ "I_dead Check_failed"]) (simp add: mcheck_def)
  next
    case False
    then have k: "C q \<noteq> int_max" "key_of r = gen_key (nat (C q))" "C' q = C q + 1" using g(1) by auto
    then have lt: "C q < int_max" using c by simp
    then have lt': "nat (C q) < 2 ^ 31" "C q < 2 ^ 31" using c by (simp_all add: int_max_def nat_less_iff)
    have "(scast (word_of_nat (nat (C q)) :: 32 word) :: 64 word) = word_of_int (C q)"
      using c lt' by (simp add: scast_eq sint_sbintrunc' signed_take_bit_int_eq_self)
    then have "?g (key_of r) = id_prog root key (I_done (C q))"
      using stoi_key [OF lt'(1)] key_length [of "nat (C q)"] lt'(1) k(2) by (simp add: mcheck_def)
    then show ?thesis using nx id_abs_upd [OF a i(1), of "C' q" "I_done (C q)"] k(3) c(1) by (intro exI [of _ "I_done (C q)"]) simp
  qed
qed (use i(2) in auto)

definition id_inv :: "string \<Rightarrow> string \<Rightarrow> 64 word psys \<Rightarrow> bool" where
  "id_inv root key S \<longleftrightarrow> master_inv (mst S) \<and>
     (\<exists>pcs. map snd (procs S) = map (id_prog root key) pcs \<and> id_abs pcs (counter (mst S) (id_path root key)))"

lemma id_abs_mono: "id_abs pcs c \<Longrightarrow> c \<le> c' \<Longrightarrow> id_abs pcs c'"
  unfolding id_abs_def by (meson less_le_trans)

lemma id_invariant:
  assumes "root_ok root" "name_ok key"
  shows "inductive_invariant (id_init root key) (psys_step (\<lambda>_ _. False) (keeps_counter (id_path root key))) (id_inv root key)"
proof
  let ?q = "id_path root key"
  have vq: "master_check_valid_path ?q" using path_more(1) [OF path_one [OF assms(1) path_names(2)] assms(2)] by (simp add: id_path_def)
  show "id_inv root key S" if "id_init root key S" for S
  proof -
    have "map snd (procs S) = map (id_prog root key) (replicate (length (procs S)) I_add)"
      using that by (auto simp: id_init_def intro: nth_equalityI)
    moreover have "id_abs (replicate (length (procs S)) I_add) c" for c by (simp add: id_abs_def)
    moreover have "master_inv (mst S)" using that by (auto simp: id_init_def intro: mt.inv_reach)
    ultimately show ?thesis unfolding id_inv_def by blast
  qed
  show "id_inv root key S'" if inv: "id_inv root key S" and step: "psys_step (\<lambda>_ _. False) (keeps_counter ?q) S S'" for S S'
  proof -
    obtain pcs where m: "master_inv (mst S)" and p: "map snd (procs S) = map (id_prog root key) pcs" and a: "id_abs pcs (counter (mst S) ?q)"
      using inv by (auto simp: id_inv_def)
    from step m show ?thesis
    proof (cases rule: psys_step_names)
      case (call i s req k r)
      note u = procs_upd [OF call(1,2) p]
      have "\<exists>pc. next_prog req k r = id_prog root key pc \<and> id_abs (pcs[i := pc]) (counter (mst S') ?q)"
        using id_inv_call [of root key pcs "counter (mst S)" i req k s "names (mst S)" r "names (mst S')" "counter (mst S')"] vq a
          counter_range [OF m, of ?q] u(3,4) call(3) by (simp add: id_path_def)
      then show ?thesis using call(4,5) u(2) unfolding id_inv_def by auto
    next
      case (crash i s p0)
      note u = procs_upd [OF crash(1,2) p]
      have "id_abs (pcs[i := I_dead Check_failed]) (counter (mst S) ?q)" by (rule id_abs_upd [OF a u(4)]) auto
      then show ?thesis using crash(3-6) u(2) [of "I_dead Check_failed"] unfolding id_inv_def by auto
    next
      case (other s req r)
      then show ?thesis using id_abs_mono [OF a counter_spec [OF other(3,1)]] p unfolding id_inv_def by auto
    qed (use a p in \<open>auto simp: id_inv_def\<close>)
  qed
qed

text \<open>C25. Generated ids are unique: clients that call \<open>generate_id\<close> for the same key at the same time never get the same id,
  in any order of their calls, also when clients are lost and when others generate keys in the same directory.\<close>

theorem generated_ids_unique:
  assumes "root_ok root" "name_ok key"
    and "reach (id_init root key) (psys_step (\<lambda>_ _. False) (keeps_counter (id_path root key))) S"
    and "i < length (procs S)" "j < length (procs S)" "snd (procs S ! i) = Done a" "snd (procs S ! j) = Done b" "i \<noteq> j"
  shows "a \<noteq> b"
proof -
  have "id_inv root key S" by (rule inductive_invariant.inv_reach [OF id_invariant [OF assms(1,2)] assms(3)])
  then obtain pcs where p: "map snd (procs S) = map (id_prog root key) pcs" "id_abs pcs (counter (mst S) (id_path root key))" "master_inv (mst S)"
    by (auto simp: id_inv_def)
  have len: "length (procs S) = length pcs" using arg_cong [OF p(1), of length] by simp
  have ret: "\<exists>n. pcs ! x = I_done n \<and> c = word_of_int n \<and> 0 \<le> n \<and> n < 2 ^ 31" if "x < length pcs" "snd (procs S ! x) = Done c" for x c
  proof -
    have "id_prog root key (pcs ! x) = Done c" using arg_cong [OF p(1), of "\<lambda>l. l ! x"] that len by simp
    then obtain n where n: "pcs ! x = I_done n" "c = word_of_int n"
      by (cases "pcs ! x") (auto simp: generate_id_def Let_def tree_node_add_def tree_node_gen_def retry_not_done)
    then show ?thesis using p(2) that(1) counter_range(2) [OF p(3), of "id_path root key"] by (fastforce simp: id_abs_def int_max_def)
  qed
  obtain n n' where n: "pcs ! i = I_done n" "a = word_of_int n" "0 \<le> n" "n < 2 ^ 31" "pcs ! j = I_done n'" "b = word_of_int n'" "0 \<le> n'" "n' < 2 ^ 31"
    using ret [of i a] ret [of j b] assms(4-7) len by auto
  then have "n \<noteq> n'" using p(2) assms(4,5,8) len by (auto simp: id_abs_def)
  then show ?thesis using n by (simp add: word_of_int_eq_iff take_bit_int_eq_self)
qed

section \<open>Witnesses\<close>

lemma mbind_Done [simp]: "mbind p Done = p"
proof (induction p)
  case (Call req k)
  have "map_option (\<lambda>p. mbind p Done) (k r) = k r" for r using Call.IH [OF rangeI [of k r]] by (cases "k r") auto
  then show ?case by simp
qed simp_all

text \<open>The master of \<open>demo_initialize\<close> with two clients that use the lock \<open>a\<close>.\<close>

lemma demo_lock_start:
  "\<exists>m. names m = demo_names \<and> counter m = (\<lambda>_. 0) \<and> sockets m = [7] \<and> master_inv m \<and>
     lock_init ''/'' ''a'' \<lparr>procs = [(7, Done []), (8, Done [])], mst = m\<rparr> \<and>
     id_init ''/'' ''a'' \<lparr>procs = [(7, generate_id ''/'' ''a''), (7, generate_id ''/'' ''a'')], mst = m\<rparr>"
proof -
  obtain m where m: "names m = demo_names" "counter m = (\<lambda>_. 0)" "reach (\<lambda>m. m = master_new) master_step m" "sockets m = [7]"
    using demo_initialize by blast
  have "kids demo_names (''/'' @ lock_path ''a'') = {}" by (simp add: kids_def demo_names_def lock_path_def path_defs)
  then show ?thesis using m mt.inv_reach [OF m(3)] by (intro exI [of _ m]) (simp add: lock_init_def id_init_def)
qed

lemma demo_names_ok: "root_ok ''/''" "name_ok ''a''" "can_generate (''/'' @ lock_path ''a'') demo_names (\<lambda>_. 0)"
  "open_node demo_names (''/'' @ PATH_LOCK)" "kids demo_names (''/'' @ lock_path ''a'') = {}"
  "open_node demo_names (''/'' @ PATH_GENERATE_ID)" "can_generate (''/'' @ PATH_GENERATE_ID @ slash # ''a'') demo_names (\<lambda>_. 0)"
  by (simp_all add: root_ok_def name_ok_def can_generate_def kids_def open_node_def demo_names_def lock_path_def path_defs int_max_def)

text \<open>The first client acquires the lock; the second one then does not have it.\<close>

theorem lock_mutual_exclusion_witness:
  "\<exists>S. reach (lock_init ''/'' ''a'') (psys_step (lock_again ''/'' ''a'') (keeps_dir (''/'' @ lock_path ''a''))) S \<and>
     length (procs S) = 2 \<and> holds ''a'' (snd (procs S ! 0)) \<and> \<not> holds ''a'' (snd (procs S ! 1))"
proof -
  let ?st = "psys_step (lock_again ''/'' ''a'') (keeps_dir (''/'' @ lock_path ''a''))"
  obtain m where m: "names m = demo_names" "counter m = (\<lambda>_. 0)" "sockets m = [7]" "master_inv m"
      "lock_init ''/'' ''a'' \<lparr>procs = [(7, Done []), (8, Done [])], mst = m\<rparr>" using demo_lock_start by blast
  let ?S = "\<lambda>p m. \<lparr>procs = [(7, p), (8, Done [])], mst = m\<rparr> :: (string \<times> string) list psys"
  let ?L = "[(''a'', lock_path ''a'' @ slash # gen_key 0)]"
  have "\<exists>N C. spec_run (acquire_lock ''/'' ''a'' []) 7 (names m) (counter m) = Some (Inr (?L, N, C))"
    using acquire_spec [OF demo_names_ok(1,2,4,3,5), of "[]" 7] by (simp add: m)
  then obtain m' where run: "run_prog (acquire_lock ''/'' ''a'' []) 7 m = Some (Inr (?L, m'))"
    using run_from_spec [OF m(4)] m(3) by fastforce
  have "?st (?S (Done []) m) (?S (acquire_lock ''/'' ''a'' []) m)"
    using psys_step.again [of 0 "?S (Done []) m" 7 "Done []" "lock_again ''/'' ''a''" "acquire_lock ''/'' ''a'' []"] by simp
  moreover have "?st\<^sup>*\<^sup>* (?S (acquire_lock ''/'' ''a'' []) m) (?S (Done ?L) m')"
    using run_psys [OF run, of 0 "[(7, acquire_lock ''/'' ''a'' []), (8, Done [])]" Done] by simp
  ultimately have r: "reach (lock_init ''/'' ''a'') ?st (?S (Done ?L) m')"
    using m(5) unfolding reach_def by (meson converse_rtranclp_into_rtranclp)
  have h: "holds ''a'' (Done ?L)" by (simp add: holds_def)
  have "\<not> holds ''a'' (snd (procs (?S (Done ?L) m') ! 1))"
  proof
    assume "holds ''a'' (snd (procs (?S (Done ?L) m') ! 1))"
    then have "(0 :: nat) = 1" using h by (intro lock_mutual_exclusion [OF demo_names_ok(1,2) r]) simp_all
    then show False by simp
  qed
  then show ?thesis using r h by (intro exI [of _ "?S (Done ?L) m'"]) simp
qed

text \<open>Two threads of a client get the ids 0 and 1.\<close>

theorem generated_ids_unique_witness:
  "\<exists>S a b. reach (id_init ''/'' ''a'') (psys_step (\<lambda>_ _. False) (keeps_counter (id_path ''/'' ''a''))) S \<and>
     map snd (procs S) = [Done a, Done b] \<and> a \<noteq> b"
proof -
  let ?st = "psys_step (\<lambda>_ _. False) (keeps_counter (id_path ''/'' ''a'')) :: 64 word psys \<Rightarrow> 64 word psys \<Rightarrow> bool"
  let ?g = "generate_id ''/'' ''a''" and ?q = "''/'' @ PATH_GENERATE_ID @ slash # ''a''"
  obtain m where m: "names m = demo_names" "counter m = (\<lambda>_. 0)" "sockets m = [7]" "master_inv m"
      "id_init ''/'' ''a'' \<lparr>procs = [(7, ?g), (7, ?g)], mst = m\<rparr>" using demo_lock_start by blast
  let ?N1 = "(touch ?q demo_names)(?q @ slash # gen_key 0 \<mapsto> (Some 7, []))" and ?C1 = "(\<lambda>_. 0)(?q := 1) :: string \<Rightarrow> int"
  have "spec_run ?g 7 (names m) (counter m) = Some (Inr (0, ?N1, ?C1))"
    using generate_spec [OF demo_names_ok(1,2,6,7), of 7] by (simp add: m)
  then obtain m1 where r1: "run_prog ?g 7 m = Some (Inr (0, m1))" "names m1 = ?N1" "counter m1 = ?C1" "master_inv m1" "sockets m1 = [7]"
    using run_from_spec [OF m(4)] m(3) by fastforce
  have ne: "gen_key 0 \<noteq> gen_key 1" using gen_key_mono [of 0 1] by simp
  have "open_node ?N1 (''/'' @ PATH_GENERATE_ID)" "can_generate ?q ?N1 ?C1"
    using ne by (simp_all add: open_node_def can_generate_def touch_def demo_names_def path_defs int_max_def)
  then have "\<exists>N C. spec_run ?g 7 (names m1) (counter m1) = Some (Inr (1, N, C))"
    using generate_spec [OF demo_names_ok(1,2), of ?N1 ?C1 7] by (simp add: r1)
  then obtain m2 where r2: "run_prog ?g 7 m1 = Some (Inr (1, m2))"
    using run_from_spec [OF r1(4)] r1(5) by fastforce
  have "?st\<^sup>*\<^sup>* \<lparr>procs = [(7, ?g), (7, ?g)], mst = m\<rparr> \<lparr>procs = [(7, Done 0), (7, ?g)], mst = m1\<rparr>"
    using run_psys [OF r1(1), of 0 "[(7, ?g), (7, ?g)]" Done] by simp
  moreover have "?st\<^sup>*\<^sup>* \<lparr>procs = [(7, Done 0), (7, ?g)], mst = m1\<rparr> \<lparr>procs = [(7, Done 0), (7, Done 1)], mst = m2\<rparr>"
    using run_psys [OF r2, of 1 "[(7, Done 0), (7, ?g)]" Done] by simp
  ultimately have r: "reach (id_init ''/'' ''a'') ?st \<lparr>procs = [(7, Done 0), (7, Done 1)], mst = m2\<rparr>"
    using m(5) unfolding reach_def by (meson rtranclp_trans)
  have "(0 :: 64 word) \<noteq> 1" using generated_ids_unique [OF demo_names_ok(1,2) r, of 0 1 0 1] by simp
  then show ?thesis using r by (intro exI [of _ "\<lparr>procs = [(7, Done 0), (7, Done 1)], mst = m2\<rparr>"]) auto
qed

end
