(* ===== verification/Master_Wait.thy ===== *)
theory Master_Wait
  imports Master_Lock
begin

text \<open>
  Clients that block in \<open>AsyncWatcher::wait\<close> until the master notifies them: \<open>src/rpc/MasterClient.cpp\<close>,
  \<open>src/rpc/TcpMasterClient.cpp\<close> and \<open>src/thread/AsyncWatcher.h\<close>.

  The system of \<open>Master_Lock\<close> lets a client that waits make its call again at any time. Here a client whose condition was
  false is asleep, and wakes up only when its counter \<open>_notify_version\<close> has changed since \<open>wait\<close> read it. The counter is
  advanced by the callback of \<open>tree_watch\<close>, which runs when the client handles a notification for the path or for a path
  below it. The notifications are those that the master has put into its outbox for the connection; a client handles them
  in order and at any time. Every step of this system is a step of the one of \<open>Master_Lock\<close> or leaves it unchanged.
\<close>

section \<open>Notifications of the master\<close>



lemma ensure_root_outbox [simp]: "outbox (ensure_root m) = outbox m" "watchers (ensure_root m) = watchers m"
  by (simp_all add: ensure_root_def put_node_def)







section \<open>Clients that sleep\<close>












section \<open>The invariant of the clients of a lock\<close>



















section \<open>Progress\<close>






section \<open>Witness\<close>













end
