(* ===== verification/Float_Round.thy ===== *)
theory Float_Round
  imports Complex_Main
begin

text \<open>
  Binary floating point as the C++ sources use it: a \<open>float\<close> or \<open>double\<close> is the rational number it
  stands for, and every operation is the exact one followed by rounding to the nearest number with
  \<open>p\<close> significant bits, ties to even (24 bits for \<open>float\<close>, 53 for \<open>double\<close>). The range of the
  exponent is not bounded, so infinities, subnormal numbers and NaN do not occur; the load factors
  and sizes that the containers compute with stay far inside the range.

  The lemmas show that rounding is monotone and exact on numbers with at most \<open>p\<close> bits.
\<close>

section \<open>Rounding\<close>

text \<open>The position of the leading bit of a positive natural number.\<close>

fun flog2 :: "nat \<Rightarrow> nat" where
  "flog2 n = (if n < 2 then 0 else Suc (flog2 (n div 2)))"

text \<open>The exponent \<open>e\<close> of a positive number with \<open>2\<^sup>e \<le> x < 2\<^sup>e\<^sup>+\<^sup>1\<close>.\<close>

definition bin_exp :: "rat \<Rightarrow> int" where
  "bin_exp x = (if 1 \<le> x then int (flog2 (nat \<lfloor>x\<rfloor>))
                else - int (flog2 (nat (\<lceil>1 / x\<rceil> - 1))) - 1)"

text \<open>The integer nearest to a number, the even one of two.\<close>

definition nearest_even :: "rat \<Rightarrow> int" where
  "nearest_even y = (let f = \<lfloor>y\<rfloor>; d = y - of_int f in
     if d < 1 / 2 then f else if 1 / 2 < d then f + 1 else if even f then f else f + 1)"

definition round_pos :: "nat \<Rightarrow> rat \<Rightarrow> rat" where
  "round_pos p x = (let u = 2 powi (bin_exp x - int p + 1) in of_int (nearest_even (x / u)) * u)"

definition round_float :: "nat \<Rightarrow> rat \<Rightarrow> rat" where
  "round_float p x = (if 0 < x then round_pos p x else if x < 0 then - round_pos p (- x) else 0)"

text \<open>\<open>float\<close> and \<open>double\<close>.\<close>

definition fl32 :: "rat \<Rightarrow> rat" where
  "fl32 = round_float 24"

definition fl64 :: "rat \<Rightarrow> rat" where
  "fl64 = round_float 53"

section \<open>The leading bit\<close>

declare flog2.simps [simp del]

lemma flog2_bounds: "0 < n \<Longrightarrow> 2 ^ flog2 n \<le> n \<and> n < 2 ^ Suc (flog2 n)"
proof (induction n rule: flog2.induct)
  case (1 n)
  show ?case
  proof (cases "n < 2")
    case True
    with 1 show ?thesis by (simp add: flog2.simps [of n])
  next
    case False
    then have "2 ^ flog2 (n div 2) \<le> n div 2" "n div 2 < 2 * 2 ^ flog2 (n div 2)"
      using 1 by simp_all
    then have "2 * 2 ^ flog2 (n div 2) \<le> n" "n < 2 * (2 * 2 ^ flog2 (n div 2))"
      by linarith+
    moreover have "flog2 n = Suc (flog2 (n div 2))" using False by (simp add: flog2.simps [of n])
    ultimately show ?thesis by simp
  qed
qed

lemma bin_exp_ge1:
  assumes "1 \<le> x"
  shows "2 powi bin_exp x \<le> x \<and> x < 2 powi (bin_exp x + 1)"
proof -
  let ?n = "nat \<lfloor>x\<rfloor>"
  have n: "0 < ?n" using assms by simp
  have fl: "of_nat ?n \<le> x" "x < of_nat ?n + 1"
    using assms floor_correct [of x] by simp_all
  have "(2::rat) ^ flog2 ?n = of_nat (2 ^ flog2 ?n)" by simp
  also have "\<dots> \<le> of_nat ?n" using flog2_bounds [OF n] of_nat_le_iff by blast
  finally have lo: "(2::rat) ^ flog2 ?n \<le> x" using fl(1) by linarith
  have "?n + 1 \<le> 2 ^ Suc (flog2 ?n)" using flog2_bounds [OF n] by simp
  then have "(of_nat (?n + 1) :: rat) \<le> of_nat (2 ^ Suc (flog2 ?n))" using of_nat_le_iff by blast
  then have hi: "x < 2 ^ Suc (flog2 ?n)" using fl(2) by simp
  show ?thesis
    using lo hi assms by (simp add: bin_exp_def power_int_add)
qed

lemma bin_exp_lt1:
  assumes "0 < x" "x < 1"
  shows "2 powi bin_exp x \<le> x \<and> x < 2 powi (bin_exp x + 1)"
proof -
  let ?n = "nat (\<lceil>1 / x\<rceil> - 1)"
  have gt: "1 < 1 / x" using assms by simp
  then have c: "1 < \<lceil>1 / x\<rceil>" by (simp add: less_ceiling_iff)
  then have n: "0 < ?n" by simp
  have eq: "(of_nat ?n :: rat) = of_int (\<lceil>1 / x\<rceil> - 1)" by (rule of_nat_nat) (use c in linarith)
  have fl: "of_nat ?n < 1 / x" "1 / x \<le> of_nat ?n + 1"
    unfolding eq using ceiling_correct [of "1 / x"] by simp_all
  have "(2::rat) ^ flog2 ?n = of_nat (2 ^ flog2 ?n)" by simp
  also have "\<dots> \<le> of_nat ?n" using flog2_bounds [OF n] of_nat_le_iff by blast
  finally have lo: "(2::rat) ^ flog2 ?n < 1 / x" using fl(1) by linarith
  have "?n + 1 \<le> 2 ^ Suc (flog2 ?n)" using flog2_bounds [OF n] by simp
  then have "(of_nat (?n + 1) :: rat) \<le> of_nat (2 ^ Suc (flog2 ?n))" using of_nat_le_iff by blast
  then have hi: "1 / x \<le> 2 ^ Suc (flog2 ?n)" using fl(2) by simp
  have e: "bin_exp x = - int (Suc (flog2 ?n))" using assms by (simp add: bin_exp_def)
  have "1 / 2 ^ Suc (flog2 ?n) \<le> x"
    using hi assms(1) by (simp add: field_simps)
  moreover have "x < 1 / 2 ^ flog2 ?n"
    using lo assms(1) by (simp add: field_simps)
  moreover have "bin_exp x + 1 = - int (flog2 ?n)" using e by simp
  ultimately show ?thesis
    by (simp only: e power_int_minus power_int_of_nat inverse_eq_divide)
qed

lemma bin_exp_bounds: "0 < x \<Longrightarrow> 2 powi bin_exp x \<le> x \<and> x < 2 powi (bin_exp x + 1)"
  using bin_exp_ge1 bin_exp_lt1 by (cases "1 \<le> x") auto

lemma powi_lessD: "(2::rat) powi a < 2 powi b \<Longrightarrow> a < b"
  by (meson not_less power_int_increasing one_le_numeral)

lemma bin_exp_mono:
  assumes "0 < x" "x \<le> y"
  shows "bin_exp x \<le> bin_exp y"
proof -
  have "2 powi bin_exp x < (2::rat) powi (bin_exp y + 1)"
    using bin_exp_bounds [of x] bin_exp_bounds [of y] assms by linarith
  then show ?thesis using powi_lessD by fastforce
qed

section \<open>Rounding to an integer\<close>

lemma nearest_even_of_int [simp]: "nearest_even (of_int m) = m"
  by (simp add: nearest_even_def)

lemma nearest_even_floor: "\<lfloor>y\<rfloor> \<le> nearest_even y \<and> nearest_even y \<le> \<lfloor>y\<rfloor> + 1"
  by (simp add: nearest_even_def Let_def)

lemma nearest_even_mono:
  assumes "x \<le> y"
  shows "nearest_even x \<le> nearest_even y"
proof (cases "\<lfloor>x\<rfloor> = \<lfloor>y\<rfloor>")
  case True
  with assms show ?thesis by (auto simp: nearest_even_def Let_def)
next
  case False
  with floor_mono [OF assms] have "\<lfloor>x\<rfloor> + 1 \<le> \<lfloor>y\<rfloor>" by simp
  then show ?thesis using nearest_even_floor [of x] nearest_even_floor [of y] by linarith
qed

section \<open>Monotone and exact rounding\<close>

lemma powi_pos [simp]: "0 < (2::rat) powi e"
  by (simp add: zero_less_power_int)

lemma powi_nat_int:
  assumes "0 \<le> e"
  shows "(2::rat) powi e = of_int (2 ^ nat e)"
  using assms by (simp add: power_int_def)

lemma powi_quot: "(2::rat) powi a / 2 powi b = 2 powi (a - b)"
  by (simp add: power_int_diff)

lemma round_pos_le:
  assumes "0 < x" "0 < p"
  shows "round_pos p x \<le> 2 powi (bin_exp x + 1)"
proof -
  let ?u = "(2::rat) powi (bin_exp x - int p + 1)"
  have q: "(2::rat) powi (bin_exp x + 1) / ?u = of_int (2 ^ p)"
    by (simp add: powi_quot powi_nat_int)
  have "x / ?u \<le> of_int (2 ^ p)"
    unfolding q [symmetric] using bin_exp_bounds [OF assms(1)]
    by (intro divide_right_mono) simp_all
  then have "nearest_even (x / ?u) \<le> 2 ^ p"
    using nearest_even_mono nearest_even_of_int by metis
  then have "(of_int (nearest_even (x / ?u)) :: rat) \<le> of_int (2 ^ p)"
    using of_int_le_iff by blast
  then have "of_int (nearest_even (x / ?u)) * ?u \<le> of_int (2 ^ p) * ?u"
    by (intro mult_right_mono) simp_all
  also have "\<dots> = 2 powi (bin_exp x + 1)"
    unfolding q [symmetric] by simp
  finally show ?thesis by (simp add: round_pos_def Let_def)
qed

lemma round_pos_ge:
  assumes "0 < x" "0 < p"
  shows "2 powi bin_exp x \<le> round_pos p x"
proof -
  let ?u = "(2::rat) powi (bin_exp x - int p + 1)"
  have "bin_exp x - (bin_exp x - int p + 1) = int (p - 1)" using assms(2) by simp
  then have q: "(2::rat) powi bin_exp x / ?u = of_int (2 ^ (p - 1))"
    by (simp only: powi_quot power_int_of_nat of_int_power of_int_numeral)
  have "of_int (2 ^ (p - 1)) \<le> x / ?u"
    unfolding q [symmetric] using bin_exp_bounds [OF assms(1)]
    by (intro divide_right_mono) simp_all
  then have "2 ^ (p - 1) \<le> nearest_even (x / ?u)"
    using nearest_even_mono nearest_even_of_int by metis
  then have "(of_int (2 ^ (p - 1)) :: rat) \<le> of_int (nearest_even (x / ?u))"
    using of_int_le_iff by blast
  then have "of_int (2 ^ (p - 1)) * ?u \<le> of_int (nearest_even (x / ?u)) * ?u"
    by (intro mult_right_mono) simp_all
  moreover have "of_int (2 ^ (p - 1)) * ?u = 2 powi bin_exp x"
    unfolding q [symmetric] by simp
  ultimately show ?thesis by (simp only: round_pos_def Let_def)
qed

lemma round_pos_mono:
  assumes "0 < x" "x \<le> y" "0 < p"
  shows "round_pos p x \<le> round_pos p y"
proof (cases "bin_exp x = bin_exp y")
  case True
  let ?u = "(2::rat) powi (bin_exp y - int p + 1)"
  have "nearest_even (x / ?u) \<le> nearest_even (y / ?u)"
    using assms(2) by (intro nearest_even_mono divide_right_mono) simp_all
  then show ?thesis by (simp add: round_pos_def Let_def True)
next
  case False
  with bin_exp_mono [OF assms(1,2)] have "bin_exp x + 1 \<le> bin_exp y" by simp
  then have "(2::rat) powi (bin_exp x + 1) \<le> 2 powi bin_exp y"
    by (intro power_int_increasing) simp_all
  with round_pos_le [OF assms(1,3)] round_pos_ge [of y p] assms show ?thesis by linarith
qed

lemma round_pos_nonneg: "0 < x \<Longrightarrow> 0 < p \<Longrightarrow> 0 < round_pos p x"
  using round_pos_ge [of x p] powi_pos [of "bin_exp x"] by linarith

lemma round_float_mono:
  assumes "x \<le> y" "0 < p"
  shows "round_float p x \<le> round_float p y"
proof -
  consider "0 < x" | "x \<le> 0" "0 \<le> y" | "y < 0" by linarith
  then show ?thesis
  proof cases
    case 1
    with assms round_pos_mono [of x y p] show ?thesis by (simp add: round_float_def)
  next
    case 2
    then have "round_float p x \<le> 0" "0 \<le> round_float p y"
      using round_pos_nonneg [of "- x" p] round_pos_nonneg [of y p] assms(2)
      by (auto simp: round_float_def)
    then show ?thesis by linarith
  next
    case 3
    with assms round_pos_mono [of "- y" "- x" p] show ?thesis by (simp add: round_float_def)
  qed
qed

text \<open>A number with at most \<open>p\<close> significant bits is not changed.\<close>

lemma round_float_exact:
  assumes "0 \<le> m" "m < 2 ^ p" "0 < p"
  shows "round_float p (of_int m * 2 powi q) = of_int m * 2 powi q"
proof (cases "m = 0")
  case False
  let ?x = "(of_int m :: rat) * 2 powi q"
  let ?d = "q - (bin_exp ?x - int p + 1)"
  have pos: "0 < ?x" using assms False by simp
  have "?x < of_int (2 ^ p) * 2 powi q"
    using assms(2) of_int_less_iff [where ?'a = rat] by (intro mult_strict_right_mono) simp_all
  also have "\<dots> = 2 powi (int p + q)" by (simp add: power_int_add)
  finally have "2 powi bin_exp ?x < (2::rat) powi (int p + q)"
    using bin_exp_bounds [OF pos] by linarith
  then have d: "0 \<le> ?d" using powi_lessD by fastforce
  have "?x / 2 powi (bin_exp ?x - int p + 1) = of_int m * 2 powi ?d"
    by (simp only: times_divide_eq_right [symmetric] powi_quot)
  also have "\<dots> = of_int (m * 2 ^ nat ?d)"
    using powi_nat_int [OF d] by simp
  finally have eq: "?x / 2 powi (bin_exp ?x - int p + 1) = of_int (m * 2 ^ nat ?d)" .
  have "round_pos p ?x = of_int (m * 2 ^ nat ?d) * 2 powi (bin_exp ?x - int p + 1)"
    unfolding round_pos_def Let_def eq nearest_even_of_int ..
  also have "\<dots> = ?x" unfolding eq [symmetric] by simp
  finally show ?thesis using pos by (simp add: round_float_def)
qed (simp add: round_float_def)

lemma round_float_nat: "n < 2 ^ p \<Longrightarrow> 0 < p \<Longrightarrow> round_float p (of_nat n) = of_nat n"
  using round_float_exact [of "int n" p 0] by simp

end
