(* ===== verification/Hash_Table.thy ===== *)
theory Hash_Table
  imports Prpc_Prelude Float_Round
begin

text \<open>
  The hash table of \<open>misc/HashTable.h\<close>: linear hashing with an incremental move of the buckets.

  A table has \<open>_bucket_count\<close> buckets in use. An insertion that makes the table too full adds two
  buckets, each of which takes its entries from one older bucket. When the array of buckets is
  full a larger array is allocated, and every later insertion or removal moves one bucket to it, so
  that the buckets below \<open>_new_begin\<close> are still in the old array.

  \<^item> A bucket is the list of its entries in the order of their \<open>next\<close> pointers; an array is a list of
    slots, \<open>None\<close> where \<open>new Entry*[n]\<close> has left the pointer uninitialized. Reading such a slot or one
    outside the array is the fault \<open>Out_of_bounds\<close>.
  \<^item> \<open>Entry*&\<close>, the reference to the pointer that \<open>find_entry\<close> returns, is the bucket and the position
    in it; the position at the end of the list is the null pointer there.
  \<^item> An iterator holds the key of the entry it points to, \<open>None\<close> at the end.
  \<^item> The hash function is a parameter. \<open>float\<close> arithmetic is \<open>fl32\<close> after each operation. Sizes are
    natural numbers: a table of \<open>2\<^sup>6\<^sup>4\<close> entries does not fit in memory; the decrement of \<open>_size\<close>
    wraps.

  The invariant has two parts: the layout (which slots are initialized, how much of the move is
  left) and the placement of the entries over the list of buckets in use. The properties: every
  sequence of operations behaves like a finite map and never fails; iteration visits every entry
  once; \<open>reserve\<close> fails when an earlier move is not finished.
\<close>

unbundle bit_operations_syntax

section \<open>State\<close>

record ('k, 'v) hash_table_entry =
  he_first :: 'k
  he_second :: 'v
  he_hash_code :: nat

type_synonym ('k, 'v) chain = "('k, 'v) hash_table_entry list"

type_synonym ('k, 'v) slots = "('k, 'v) chain option list"

record ('k, 'v) hash_table =
  ht_size :: nat
  ht_mask :: nat
  ht_bucket_count :: nat
  ht_bucket_capacity :: nat
  ht_new_begin :: nat
  ht_max_load_factor :: rat
  ht_new_buckets :: "('k, 'v) slots"
  ht_old_buckets :: "('k, 'v) slots"

definition get_slot :: "('k, 'v) slots \<Rightarrow> nat \<Rightarrow> ('k, 'v) chain res" where
  "get_slot a i = (if i < length a then case a ! i of None \<Rightarrow> Inl Out_of_bounds | Some c \<Rightarrow> Inr c
                   else Inl Out_of_bounds)"

definition put_slot :: "('k, 'v) slots \<Rightarrow> nat \<Rightarrow> ('k, 'v) chain \<Rightarrow> ('k, 'v) slots res" where
  "put_slot a i c = (if i < length a then Inr (a[i := Some c]) else Inl Out_of_bounds)"

definition ht_new :: "nat \<Rightarrow> ('k, 'v) hash_table res" where
  "ht_new capacity = rbind (put_slot (replicate capacity None) 0 []) (\<lambda>a. Inr
     \<lparr>ht_size = 0, ht_mask = 0, ht_bucket_count = 1, ht_bucket_capacity = capacity,
      ht_new_begin = 0, ht_max_load_factor = 3 / 4, ht_new_buckets = a, ht_old_buckets = []\<rparr>)"

section \<open>Buckets\<close>

definition hash_to_bucket :: "('k, 'v) hash_table \<Rightarrow> nat \<Rightarrow> nat" where
  "hash_to_bucket t h = (let i = h AND ht_mask t in
     if i < ht_bucket_count t then i else h AND drop_bit 1 (ht_mask t))"

definition ht_bucket :: "('k, 'v) hash_table \<Rightarrow> nat \<Rightarrow> ('k, 'v) chain res" where
  "ht_bucket t i = (if i < ht_new_begin t then get_slot (ht_old_buckets t) i
                    else get_slot (ht_new_buckets t) i)"

definition ht_set_bucket ::
  "('k, 'v) hash_table \<Rightarrow> nat \<Rightarrow> ('k, 'v) chain \<Rightarrow> ('k, 'v) hash_table res" where
  "ht_set_bucket t i c =
     (if i < ht_new_begin t
      then rbind (put_slot (ht_old_buckets t) i c) (\<lambda>a. Inr (t\<lparr>ht_old_buckets := a\<rparr>))
      else rbind (put_slot (ht_new_buckets t) i c) (\<lambda>a. Inr (t\<lparr>ht_new_buckets := a\<rparr>)))"

function find_first_nonempty :: "('k, 'v) hash_table \<Rightarrow> nat \<Rightarrow> nat res" where
  "find_first_nonempty t i =
     (if i < ht_bucket_count t
      then rbind (ht_bucket t i) (\<lambda>c. if c = [] then find_first_nonempty t (Suc i) else Inr i)
      else Inr i)"
  by pat_completeness auto

termination
  by (relation "measure (\<lambda>(t, i). ht_bucket_count t - i)") auto

definition nonempty_bucket_num :: "('k, 'v) hash_table \<Rightarrow> nat res" where
  "nonempty_bucket_num t = fold (\<lambda>i r. rbind r (\<lambda>n. rbind (ht_bucket t i)
     (\<lambda>c. Inr (if c = [] then n else Suc n)))) [0..<ht_bucket_count t] (Inr 0)"

text \<open>The loop of \<open>find_entry\<close> along one bucket.\<close>

fun find_in_chain :: "nat \<Rightarrow> 'k \<Rightarrow> ('k, 'v) chain \<Rightarrow> nat" where
  "find_in_chain h k [] = 0"
| "find_in_chain h k (e # c) =
     (if he_hash_code e = h \<and> he_first e = k then 0 else Suc (find_in_chain h k c))"

definition find_entry ::
  "('k \<Rightarrow> nat) \<Rightarrow> ('k, 'v) hash_table \<Rightarrow> 'k \<Rightarrow> (nat \<times> ('k, 'v) chain \<times> nat) res" where
  "find_entry hash t k = (let h = hash k; i = hash_to_bucket t h in
     rbind (ht_bucket t i) (\<lambda>c. Inr (i, c, find_in_chain h k c)))"

section \<open>Growing\<close>

definition ht_reserve :: "('k, 'v) hash_table \<Rightarrow> nat \<Rightarrow> ('k, 'v) hash_table res" where
  "ht_reserve t n =
     (if n \<le> ht_bucket_capacity t then Inr t
      else rbind (scheck (ht_new_begin t = 0)) (\<lambda>_. Inr
        (t\<lparr>ht_old_buckets := ht_new_buckets t, ht_new_buckets := replicate n None,
           ht_new_begin := ht_bucket_count t, ht_bucket_capacity := n\<rparr>)))"

text \<open>The loop of \<open>add_bucket\<close> that splits a bucket.\<close>

fun split_chain :: "nat \<Rightarrow> nat \<Rightarrow> ('k, 'v) chain \<Rightarrow> ('k, 'v) chain \<times> ('k, 'v) chain" where
  "split_chain msk to_i [] = ([], [])"
| "split_chain msk to_i (e # c) = (case split_chain msk to_i c of (src, dest) \<Rightarrow>
     if he_hash_code e AND msk = to_i then (src, e # dest) else (e # src, dest))"

text \<open>\<open>add_bucket\<close> after the check of the capacity, and as a whole.\<close>

definition split_last :: "('k, 'v) hash_table \<Rightarrow> ('k, 'v) hash_table res" where
  "split_last t = (
     let n = ht_bucket_count t;
         t = (if n AND (n - 1) = 0 then t\<lparr>ht_mask := n * 2 - 1\<rparr> else t);
         to_i = n;
         t = t\<lparr>ht_bucket_count := n + 1\<rparr>;
         from_i = to_i AND drop_bit 1 (ht_mask t)
     in rbind (ht_set_bucket t to_i []) (\<lambda>t.
        rbind (ht_bucket t from_i) (\<lambda>c.
        case split_chain (ht_mask t) to_i c of (src, dest) \<Rightarrow>
        rbind (ht_set_bucket t from_i src) (\<lambda>t. ht_set_bucket t to_i dest))))"

definition add_bucket :: "('k, 'v) hash_table \<Rightarrow> ('k, 'v) hash_table res" where
  "add_bucket t =
     rbind (if ht_bucket_capacity t \<le> ht_bucket_count t
            then ht_reserve t (ht_bucket_capacity t * 2) else Inr t) split_last"

definition move_bucket :: "('k, 'v) hash_table \<Rightarrow> ('k, 'v) hash_table res" where
  "move_bucket t =
     (if 0 < ht_new_begin t then
        let b = ht_new_begin t - 1; t = t\<lparr>ht_new_begin := b\<rparr> in
        rbind (get_slot (ht_old_buckets t) b) (\<lambda>c.
        rbind (put_slot (ht_new_buckets t) b c) (\<lambda>a.
        let t = t\<lparr>ht_new_buckets := a\<rparr> in
        Inr (if b = 0 then t\<lparr>ht_old_buckets := []\<rparr> else t)))
      else Inr t)"

text \<open>The comparison \<open>_size > _max_load_factor * _bucket_count\<close> in \<open>float\<close>.\<close>

definition too_full :: "('k, 'v) hash_table \<Rightarrow> bool" where
  "too_full t \<longleftrightarrow>
     fl32 (ht_max_load_factor t * fl32 (of_nat (ht_bucket_count t))) < fl32 (of_nat (ht_size t))"

definition insert_postprocess :: "('k, 'v) hash_table \<Rightarrow> ('k, 'v) hash_table res" where
  "insert_postprocess t = (let t = t\<lparr>ht_size := ht_size t + 1\<rparr> in
     rbind (if too_full t
            then rbind (add_bucket t) (\<lambda>t. rbind (move_bucket t) add_bucket)
            else Inr t)
       move_bucket)"

section \<open>Lookup, insertion and removal\<close>

text \<open>\<open>at\<close> throws \<open>std::out_of_range\<close> where the result is \<open>None\<close>.\<close>

definition ht_at :: "('k \<Rightarrow> nat) \<Rightarrow> ('k, 'v) hash_table \<Rightarrow> 'k \<Rightarrow> 'v option res" where
  "ht_at hash t k = rbind (find_entry hash t k) (\<lambda>(i, c, j).
     Inr (if j < length c then Some (he_second (c ! j)) else None))"

definition ht_find :: "('k \<Rightarrow> nat) \<Rightarrow> ('k, 'v) hash_table \<Rightarrow> 'k \<Rightarrow> 'k option res" where
  "ht_find hash t k = rbind (find_entry hash t k) (\<lambda>(i, c, j).
     Inr (if j < length c then Some (he_first (c ! j)) else None))"

text \<open>A write through the reference that \<open>at\<close> returns.\<close>

definition ht_at_put ::
  "('k \<Rightarrow> nat) \<Rightarrow> ('k, 'v) hash_table \<Rightarrow> 'k \<Rightarrow> 'v \<Rightarrow> (('k, 'v) hash_table \<times> bool) res" where
  "ht_at_put hash t k v = rbind (find_entry hash t k) (\<lambda>(i, c, j).
     if j < length c
     then rbind (ht_set_bucket t i (c[j := (c ! j)\<lparr>he_second := v\<rparr>])) (\<lambda>t. Inr (t, True))
     else Inr (t, False))"

text \<open>Linking a new entry where the search has ended.\<close>

definition link_entry ::
  "('k, 'v) hash_table \<Rightarrow> nat \<Rightarrow> ('k, 'v) chain \<Rightarrow> nat \<Rightarrow> 'k \<Rightarrow> 'v \<Rightarrow> ('k, 'v) hash_table res" where
  "link_entry t i c h k v = rbind
     (ht_set_bucket t i (c @ [\<lparr>he_first = k, he_second = v, he_hash_code = h\<rparr>]))
     insert_postprocess"

definition ht_index ::
  "('k \<Rightarrow> nat) \<Rightarrow> 'v \<Rightarrow> ('k, 'v) hash_table \<Rightarrow> 'k \<Rightarrow> (('k, 'v) hash_table \<times> 'v) res" where
  "ht_index hash dflt t k = rbind (find_entry hash t k) (\<lambda>(i, c, j).
     if j < length c then Inr (t, he_second (c ! j))
     else rbind (link_entry t i c (hash k) k dflt) (\<lambda>t. Inr (t, dflt)))"

definition ht_insert ::
  "('k \<Rightarrow> nat) \<Rightarrow> ('k, 'v) hash_table \<Rightarrow> 'k \<Rightarrow> 'v \<Rightarrow> (('k, 'v) hash_table \<times> bool) res" where
  "ht_insert hash t k v = rbind (find_entry hash t k) (\<lambda>(i, c, j).
     if j < length c then Inr (t, False)
     else rbind (link_entry t i c (hash k) k v) (\<lambda>t. Inr (t, True)))"

definition ht_emplace ::
  "('k \<Rightarrow> nat) \<Rightarrow> ('k, 'v) hash_table \<Rightarrow> 'k \<times> 'v \<Rightarrow> (('k, 'v) hash_table \<times> bool) res" where
  "ht_emplace hash t kv = (case kv of (k, v) \<Rightarrow> rbind (find_entry hash t k) (\<lambda>(i, c, j).
     if j < length c then Inr (t, False)
     else rbind (link_entry t i c (hash k) k v) (\<lambda>t. Inr (t, True))))"

fun ht_insert_list ::
  "('k \<Rightarrow> nat) \<Rightarrow> ('k, 'v) hash_table \<Rightarrow> ('k \<times> 'v) list \<Rightarrow> ('k, 'v) hash_table res" where
  "ht_insert_list hash t [] = Inr t"
| "ht_insert_list hash t ((k, v) # kvs) =
     rbind (ht_insert hash t k v) (\<lambda>(t, _). ht_insert_list hash t kvs)"

text \<open>\<open>--_size\<close> on \<open>size_t\<close>.\<close>

definition dec_size :: "nat \<Rightarrow> nat" where
  "dec_size n = (if n = 0 then 2 ^ 64 - 1 else n - 1)"

definition unlink_entry ::
  "('k, 'v) hash_table \<Rightarrow> nat \<Rightarrow> ('k, 'v) chain \<Rightarrow> nat \<Rightarrow> ('k, 'v) hash_table res" where
  "unlink_entry t i c j = rbind (ht_set_bucket t i (take j c @ drop (Suc j) c))
     (\<lambda>t. move_bucket (t\<lparr>ht_size := dec_size (ht_size t)\<rparr>))"

definition ht_erase_key ::
  "('k \<Rightarrow> nat) \<Rightarrow> ('k, 'v) hash_table \<Rightarrow> 'k \<Rightarrow> (('k, 'v) hash_table \<times> nat) res" where
  "ht_erase_key hash t k = rbind (find_entry hash t k) (\<lambda>(i, c, j).
     if j < length c then rbind (unlink_entry t i c j) (\<lambda>t. Inr (t, 1)) else Inr (t, 0))"

definition ht_erase_pos ::
  "('k \<Rightarrow> nat) \<Rightarrow> ('k, 'v) hash_table \<Rightarrow> 'k \<Rightarrow> ('k, 'v) hash_table res" where
  "ht_erase_pos hash t k = rbind (find_entry hash t k) (\<lambda>(i, c, j).
     rbind (scheck (j < length c)) (\<lambda>_. unlink_entry t i c j))"

text \<open>The loop of \<open>clear\<close> over the buckets in use.\<close>

fun clear_buckets :: "('k, 'v) hash_table \<Rightarrow> nat list \<Rightarrow> ('k, 'v) hash_table res" where
  "clear_buckets t [] = Inr t"
| "clear_buckets t (i # is) = rbind (ht_bucket t i) (\<lambda>c.
     rbind (ht_set_bucket (t\<lparr>ht_size := (dec_size ^^ length c) (ht_size t)\<rparr>) i [])
       (\<lambda>t. clear_buckets t is))"

definition ht_clear :: "('k, 'v) hash_table \<Rightarrow> ('k, 'v) hash_table res" where
  "ht_clear t = rbind (clear_buckets t [0..<ht_bucket_count t]) (\<lambda>t.
     rbind (scheck (ht_size t = 0)) (\<lambda>_.
     rbind (put_slot (ht_new_buckets t) 0 []) (\<lambda>a. Inr
       (t\<lparr>ht_new_begin := 0, ht_bucket_count := 1, ht_new_buckets := a, ht_mask := 0,
          ht_old_buckets := []\<rparr>))))"

definition ht_set_max_load_factor :: "('k, 'v) hash_table \<Rightarrow> rat \<Rightarrow> ('k, 'v) hash_table" where
  "ht_set_max_load_factor t ml = t\<lparr>ht_max_load_factor := ml\<rparr>"

definition ht_load_factor :: "('k, 'v) hash_table \<Rightarrow> rat" where
  "ht_load_factor t = fl32 (fl32 (of_nat (ht_size t)) / fl32 (of_nat (ht_bucket_count t)))"

definition ht_empty :: "('k, 'v) hash_table \<Rightarrow> bool" where
  "ht_empty t \<longleftrightarrow> ht_size t = 0"

section \<open>Iterators\<close>

definition iter_first :: "('k, 'v) hash_table \<Rightarrow> nat \<Rightarrow> 'k option res" where
  "iter_first t i = rbind (find_first_nonempty t i) (\<lambda>i.
     if ht_bucket_count t \<le> i then Inr None
     else rbind (ht_bucket t i) (\<lambda>c. case c of [] \<Rightarrow> Inr None | e # _ \<Rightarrow> Inr (Some (he_first e))))"

definition ht_begin :: "('k, 'v) hash_table \<Rightarrow> 'k option res" where
  "ht_begin t = iter_first t 0"

text \<open>
  The entry an iterator points to, the entries after it in its bucket; a pointer to no entry of the
  table dangles.
\<close>

definition iter_entry ::
  "('k \<Rightarrow> nat) \<Rightarrow> ('k, 'v) hash_table \<Rightarrow> 'k \<Rightarrow> (('k, 'v) hash_table_entry \<times> ('k, 'v) chain) res" where
  "iter_entry hash t k = rbind (find_entry hash t k) (\<lambda>(i, c, j).
     case drop j c of [] \<Rightarrow> Inl Out_of_bounds | e # es \<Rightarrow> Inr (e, es))"

definition iter_next :: "('k \<Rightarrow> nat) \<Rightarrow> ('k, 'v) hash_table \<Rightarrow> 'k \<Rightarrow> 'k option res" where
  "iter_next hash t k = rbind (iter_entry hash t k) (\<lambda>(e, es).
     case es of
       e' # _ \<Rightarrow> Inr (Some (he_first e'))
     | [] \<Rightarrow> iter_first t (hash_to_bucket t (he_hash_code e) + 1))"

definition iter_deref :: "('k \<Rightarrow> nat) \<Rightarrow> ('k, 'v) hash_table \<Rightarrow> 'k \<Rightarrow> ('k \<times> 'v) res" where
  "iter_deref hash t k = rbind (iter_entry hash t k) (\<lambda>(e, _). Inr (he_first e, he_second e))"

text \<open>
  \<open>for (it = first; it != last; ++it) insert(*it)\<close> with iterators of a table, and the loop of
  \<open>erase(first, last)\<close>. Both loops may run forever on a wrong \<open>last\<close>.
\<close>

partial_function (option) ht_insert_range ::
  "('k \<Rightarrow> nat) \<Rightarrow> ('k, 'v) hash_table \<Rightarrow> ('k, 'v) hash_table \<Rightarrow> 'k option \<Rightarrow> 'k option
    \<Rightarrow> ('k, 'v) hash_table res option" where
  "ht_insert_range hash t src it stop =
     (if it = stop then Some (Inr t)
      else case it of
        None \<Rightarrow> Some (Inl Out_of_bounds)
      | Some k \<Rightarrow>
          (case rbind (iter_deref hash src k) (\<lambda>(k, v). rbind (ht_insert hash t k v) (\<lambda>(t, _).
                  rbind (iter_next hash src k) (\<lambda>it. Inr (t, it)))) of
             Inl e \<Rightarrow> Some (Inl e)
           | Inr (t, it) \<Rightarrow> ht_insert_range hash t src it stop))"

partial_function (option) ht_erase_range ::
  "('k \<Rightarrow> nat) \<Rightarrow> ('k, 'v) hash_table \<Rightarrow> 'k option \<Rightarrow> 'k option \<Rightarrow> ('k, 'v) hash_table res option" where
  "ht_erase_range hash t it stop =
     (if it = stop then Some (Inr t)
      else case it of
        None \<Rightarrow> Some (Inl Out_of_bounds)
      | Some k \<Rightarrow>
          (case rbind (iter_next hash t k) (\<lambda>it. rbind (ht_erase_pos hash t k) (\<lambda>t. Inr (t, it))) of
             Inl e \<Rightarrow> Some (Inl e)
           | Inr (t, it) \<Rightarrow> ht_erase_range hash t it stop))"

section \<open>Copy, move and swap\<close>

text \<open>All members change places; each table is built with an empty hash function object.\<close>

definition ht_swap ::
  "('k, 'v) hash_table \<Rightarrow> ('k, 'v) hash_table \<Rightarrow> ('k, 'v) hash_table \<times> ('k, 'v) hash_table" where
  "ht_swap t u = (u, t)"

definition ht_insert_all ::
  "('k \<Rightarrow> nat) \<Rightarrow> ('k, 'v) hash_table \<Rightarrow> ('k, 'v) hash_table \<Rightarrow> ('k, 'v) hash_table res option" where
  "ht_insert_all hash t src = (case ht_begin src of
     Inl e \<Rightarrow> Some (Inl e)
   | Inr it \<Rightarrow> ht_insert_range hash t src it None)"

definition ht_copy ::
  "('k \<Rightarrow> nat) \<Rightarrow> ('k, 'v) hash_table \<Rightarrow> ('k, 'v) hash_table res option" where
  "ht_copy hash src = (case ht_new 1 of
     Inl e \<Rightarrow> Some (Inl e)
   | Inr t \<Rightarrow> ht_insert_all hash t src)"

definition ht_move :: "('k, 'v) hash_table \<Rightarrow> (('k, 'v) hash_table \<times> ('k, 'v) hash_table) res" where
  "ht_move src = rbind (ht_new 1) (\<lambda>t. Inr (ht_swap t src))"

definition ht_copy_assign ::
  "('k \<Rightarrow> nat) \<Rightarrow> ('k, 'v) hash_table \<Rightarrow> ('k, 'v) hash_table \<Rightarrow> ('k, 'v) hash_table res option" where
  "ht_copy_assign hash t src = (case ht_clear t of
     Inl e \<Rightarrow> Some (Inl e)
   | Inr t \<Rightarrow> ht_insert_all hash t src)"

text \<open>The same when both sides are one table: the source is cleared first.\<close>

definition ht_self_assign ::
  "('k \<Rightarrow> nat) \<Rightarrow> ('k, 'v) hash_table \<Rightarrow> ('k, 'v) hash_table res option" where
  "ht_self_assign hash t = (case ht_clear t of
     Inl e \<Rightarrow> Some (Inl e)
   | Inr t \<Rightarrow> ht_insert_all hash t t)"

definition ht_move_assign ::
  "('k, 'v) hash_table \<Rightarrow> ('k, 'v) hash_table \<Rightarrow> (('k, 'v) hash_table \<times> ('k, 'v) hash_table) res" where
  "ht_move_assign t src = rbind (ht_clear t) (\<lambda>t. case ht_swap t src of (t, src) \<Rightarrow>
     rbind (ht_new 1) (\<lambda>empty. case ht_swap src empty of (src, empty) \<Rightarrow> Inr (t, src)))"

definition ht_assign_list ::
  "('k \<Rightarrow> nat) \<Rightarrow> ('k, 'v) hash_table \<Rightarrow> ('k \<times> 'v) list \<Rightarrow> ('k, 'v) hash_table res" where
  "ht_assign_list hash t kvs = rbind (ht_clear t) (\<lambda>t. ht_insert_list hash t kvs)"

definition ht_of_list ::
  "('k \<Rightarrow> nat) \<Rightarrow> nat \<Rightarrow> ('k \<times> 'v) list \<Rightarrow> ('k, 'v) hash_table res" where
  "ht_of_list hash capacity kvs = rbind (ht_new capacity) (\<lambda>t. ht_insert_list hash t kvs)"


section \<open>Placement of a hash code\<close>

definition place :: "nat \<Rightarrow> nat \<Rightarrow> nat \<Rightarrow> nat" where
  "place m n h = (let i = h AND m in if i < n then i else h AND drop_bit 1 m)"

definition mask_ok :: "nat \<Rightarrow> nat \<Rightarrow> bool" where
  "mask_ok m n \<longleftrightarrow> (\<exists>k. m = 2 ^ k - 1 \<and> n \<le> 2 ^ k \<and> 2 ^ k < 2 * n)"

text \<open>The mask after one more bucket.\<close>

definition next_mask :: "nat \<Rightarrow> nat \<Rightarrow> nat" where
  "next_mask m n = (if n AND (n - 1) = 0 then n * 2 - 1 else m)"

lemma hash_to_bucket_place: "hash_to_bucket t h = place (ht_mask t) (ht_bucket_count t) h"
  by (simp add: hash_to_bucket_def place_def)

lemma drop_ones: "drop_bit 1 (2 ^ k - 1) = (2 ^ (k - 1) - 1 :: nat)"
proof (cases k)
  case (Suc j)
  have "(2 ^ Suc j - 1) div 2 = (2 ^ j - 1 :: nat)" by simp
  then show ?thesis by (simp add: Suc drop_bit_Suc)
qed simp

lemma place_mod:
  "place (2 ^ k - 1) n h = (if h mod 2 ^ k < n then h mod 2 ^ k else h mod 2 ^ (k - 1))"
  by (simp only: place_def Let_def and_ones drop_ones)

lemmas ones_simps = and_ones [unfolded One_nat_def] drop_ones [unfolded One_nat_def]
  place_mod [unfolded One_nat_def]

lemma place_less:
  assumes "mask_ok m n"
  shows "place m n h < n"
proof -
  obtain k where k: "m = 2 ^ k - 1" "n \<le> 2 ^ k" "2 ^ k < 2 * n"
    using assms by (auto simp: mask_ok_def)
  have "h mod 2 ^ (k - 1) < n" if "\<not> h mod 2 ^ k < n"
  proof (cases k)
    case 0
    with k that show ?thesis by simp
  next
    case (Suc j)
    have "h mod 2 ^ j < 2 ^ j" by simp
    also have "2 ^ j < n" using k Suc by simp
    finally show ?thesis by (simp add: Suc)
  qed
  then show ?thesis by (simp add: k(1) ones_simps)
qed

lemma power2_test:
  fixes n :: nat
  assumes "n \<le> 2 ^ k" "2 ^ k < 2 * n"
  shows "n AND (n - 1) = 0 \<longleftrightarrow> n = 2 ^ k"
proof
  assume z: "n AND (n - 1) = 0"
  show "n = 2 ^ k"
  proof (rule ccontr)
    assume "n \<noteq> 2 ^ k"
    with assms have lt: "n < 2 ^ k" by simp
    then obtain j where j: "k = Suc j" using assms by (cases k) auto
    have "bit x j" if "2 ^ j \<le> x" "x < 2 ^ k" for x :: nat
    proof -
      have "x div 2 ^ j = 1"
        using that j by (intro div_nat_eqI) simp_all
      then show ?thesis by (simp add: bit_iff_odd)
    qed
    then have "bit n j" "bit (n - 1) j" using lt assms j by auto
    then have "bit (n AND (n - 1)) j" by (simp add: bit_and_iff)
    with z show False by simp
  qed
next
  assume "n = 2 ^ k"
  then show "n AND (n - 1) = 0" by (simp only: and_ones) simp
qed

lemma next_maskE:
  assumes "mask_ok m n"
  obtains k where "next_mask m n = 2 ^ k - 1" "n < 2 ^ k" "2 ^ k \<le> 2 * n" "0 < k"
    "m = 2 ^ k - 1 \<or> (m = 2 ^ (k - 1) - 1 \<and> n = 2 ^ (k - 1))"
proof -
  obtain k where k: "m = 2 ^ k - 1" "n \<le> 2 ^ k" "2 ^ k < 2 * n"
    using assms by (auto simp: mask_ok_def)
  note test = power2_test [OF k(2,3)]
  show thesis
  proof (cases "n = 2 ^ k")
    case True
    with test have "next_mask m n = 2 ^ Suc k - 1" by (simp add: next_mask_def)
    with True k show thesis by (intro that [of "Suc k"]) simp_all
  next
    case False
    then have "0 < k" using k by (cases k) auto
    with False test k show thesis by (intro that [of k]) (simp_all add: next_mask_def)
  qed
qed

lemma next_mask_ok: "mask_ok m n \<Longrightarrow> mask_ok (next_mask m n) (n + 1)"
  by (erule next_maskE) (simp add: mask_ok_def, metis Suc_leI less_SucI le_imp_less_Suc)

lemma mod_half:
  fixes h :: nat
  assumes "h mod 2 ^ k = n" "0 < k"
  shows "h mod 2 ^ (k - 1) = n mod 2 ^ (k - 1)"
proof -
  have "h mod 2 ^ k mod 2 ^ (k - 1) = h mod 2 ^ (k - 1)"
    by (rule mod_mod_cancel) (simp add: le_imp_power_dvd)
  with assms show ?thesis by simp
qed

text \<open>A new bucket takes entries from one bucket only; all others stay where they are.\<close>

lemma place_next:
  assumes ok: "mask_ok m n"
  shows "place (next_mask m n) (n + 1) h = (if h AND next_mask m n = n then n else place m n h)"
    and "h AND next_mask m n = n \<Longrightarrow> place m n h = n AND drop_bit 1 (next_mask m n)"
proof -
  obtain k where k: "next_mask m n = 2 ^ k - 1" "n < 2 ^ k" "2 ^ k \<le> 2 * n" "0 < k"
    and m: "m = 2 ^ k - 1 \<or> (m = 2 ^ (k - 1) - 1 \<and> n = 2 ^ (k - 1))"
    using next_maskE [OF ok] by blast
  have half: "h mod 2 ^ (k - 1) = h mod 2 ^ k" if "h mod 2 ^ k < 2 ^ (k - 1)"
    using mod_half [OF refl k(4), of h] that by simp
  show "place (next_mask m n) (n + 1) h = (if h AND next_mask m n = n then n else place m n h)"
    using m k half by (auto simp: ones_simps)
  show "place m n h = n AND drop_bit 1 (next_mask m n)" if "h AND next_mask m n = n"
  proof -
    have "h mod 2 ^ k = n" using that by (simp add: k(1) ones_simps)
    with m mod_half [OF this k(4)] show ?thesis
      by (auto simp: k(1) ones_simps)
  qed
qed

lemma source_bucket_less: "mask_ok m n \<Longrightarrow> n AND drop_bit 1 (next_mask m n) < n"
proof (erule next_maskE)
  fix k assume k: "next_mask m n = 2 ^ k - 1" "n < 2 ^ k" "2 ^ k \<le> 2 * n" "0 < k"
  then obtain j where "k = Suc j" by (cases k) auto
  with k have "n mod 2 ^ (k - 1) < n" by (simp add: order_less_le_trans [OF mod_less_divisor])
  then show "n AND drop_bit 1 (next_mask m n) < n" by (simp add: k(1) ones_simps)
qed

section \<open>Buckets in use and the map they hold\<close>

definition ht_raw :: "('k, 'v) hash_table \<Rightarrow> nat \<Rightarrow> ('k, 'v) chain option" where
  "ht_raw t i = (if i < ht_new_begin t then ht_old_buckets t ! i else ht_new_buckets t ! i)"

definition ht_chains :: "('k, 'v) hash_table \<Rightarrow> ('k, 'v) chain list" where
  "ht_chains t = map (\<lambda>i. the (ht_raw t i)) [0..<ht_bucket_count t]"

definition chain_map :: "('k, 'v) chain \<Rightarrow> 'k \<rightharpoonup> 'v" where
  "chain_map c = map_of (map (\<lambda>e. (he_first e, he_second e)) c)"

text \<open>The finite map that a table stands for.\<close>

definition ht_abs :: "('k, 'v) hash_table \<Rightarrow> 'k \<rightharpoonup> 'v" where
  "ht_abs t = chain_map (concat (ht_chains t))"

definition chains_ok :: "('k \<Rightarrow> nat) \<Rightarrow> nat \<Rightarrow> ('k, 'v) chain list \<Rightarrow> bool" where
  "chains_ok hash m cs \<longleftrightarrow> mask_ok m (length cs) \<and>
     (\<forall>i<length cs. distinct (map he_first (cs ! i)) \<and>
        (\<forall>e\<in>set (cs ! i). he_hash_code e = hash (he_first e) \<and>
                          place m (length cs) (hash (he_first e)) = i))"

text \<open>Which slots hold a bucket.\<close>

definition ht_layout :: "('k, 'v) hash_table \<Rightarrow> bool" where
  "ht_layout t \<longleftrightarrow> 0 < ht_bucket_count t \<and> ht_bucket_count t \<le> ht_bucket_capacity t \<and>
     ht_new_begin t \<le> ht_bucket_count t \<and> ht_new_begin t \<le> length (ht_old_buckets t) \<and>
     length (ht_new_buckets t) = ht_bucket_capacity t \<and>
     (\<forall>i<ht_bucket_count t. ht_raw t i \<noteq> None)"

text \<open>
  The invariant. The last conjunct is what keeps \<open>reserve\<close> from failing: as many buckets can still be
  added before the next allocation as buckets are left to move.
\<close>

definition ht_inv :: "('k \<Rightarrow> nat) \<Rightarrow> ('k, 'v) hash_table \<Rightarrow> bool" where
  "ht_inv hash t \<longleftrightarrow> ht_layout t \<and> chains_ok hash (ht_mask t) (ht_chains t) \<and>
     ht_size t = length (concat (ht_chains t)) \<and>
     ht_new_begin t + ht_bucket_count t \<le> ht_bucket_capacity t"

subsection \<open>Chains\<close>

lemma chain_map_Nil [simp]: "chain_map [] = Map.empty"
  by (simp add: chain_map_def)

lemma chain_map_Cons [simp]: "chain_map (e # c) = (chain_map c)(he_first e \<mapsto> he_second e)"
  by (simp add: chain_map_def)

lemma dom_chain_map: "dom (chain_map c) = he_first ` set c"
  by (simp add: chain_map_def dom_map_of_conv_image_fst image_image)

lemma chain_map_None: "chain_map c k = None \<longleftrightarrow> k \<notin> he_first ` set c"
  using dom_chain_map [of c] by (auto simp: domIff)

lemma chain_map_snoc:
  "he_first e \<notin> he_first ` set c \<Longrightarrow> chain_map (c @ [e]) = (chain_map c)(he_first e \<mapsto> he_second e)"
  by (induction c) (auto simp: fun_upd_twist)

lemma chain_map_filter:
  assumes "\<And>e. e \<in> set c \<Longrightarrow> he_first e = k \<Longrightarrow> P e"
  shows "chain_map (filter P c) k = chain_map c k"
  using assms by (induction c) auto

lemma split_chain_filter:
  "split_chain m j c = (filter (\<lambda>e. he_hash_code e AND m \<noteq> j) c, filter (\<lambda>e. he_hash_code e AND m = j) c)"
  by (induction c) auto

lemma find_in_chain_le: "find_in_chain h k c \<le> length c"
  by (induction c) auto

lemma find_in_chain_less:
  assumes "\<forall>e\<in>set c. he_hash_code e = hash (he_first e)"
  shows "find_in_chain (hash k) k c < length c \<longleftrightarrow> k \<in> he_first ` set c"
  using assms by (induction c) auto

lemma find_in_chain_map:
  assumes "\<forall>e\<in>set c. he_hash_code e = hash (he_first e)" "find_in_chain (hash k) k c < length c"
  shows "he_first (c ! find_in_chain (hash k) k c) = k \<and>
         chain_map c k = Some (he_second (c ! find_in_chain (hash k) k c))"
  using assms by (induction c) auto

lemma chain_map_remove:
  assumes "distinct (map he_first c)" "j < length c"
  shows "chain_map (take j c @ drop (Suc j) c) = (chain_map c)(he_first (c ! j) := None)"
  using assms
proof (induction c arbitrary: j)
  case (Cons e c)
  show ?case
  proof (cases j)
    case 0
    have "chain_map c (he_first e) = None" using Cons.prems by (simp add: chain_map_None)
    with 0 show ?thesis by auto
  next
    case (Suc i)
    then have "he_first e \<noteq> he_first (c ! i)" using Cons.prems by auto
    with Suc Cons show ?thesis by (auto simp: fun_upd_twist)
  qed
qed simp

lemma chain_map_put:
  assumes "distinct (map he_first c)" "j < length c"
  shows "chain_map (c[j := (c ! j)\<lparr>he_second := v\<rparr>]) = (chain_map c)(he_first (c ! j) \<mapsto> v)"
  using assms
proof (induction c arbitrary: j)
  case (Cons e c)
  show ?case
  proof (cases j)
    case (Suc i)
    then have "he_first e \<noteq> he_first (c ! i)" using Cons.prems by auto
    with Suc Cons show ?thesis by (auto simp: fun_upd_twist)
  qed (simp add: fun_eq_iff)
qed simp


subsection \<open>Placement over the buckets\<close>

lemma chains_okD:
  assumes "chains_ok hash m cs" "i < length cs"
  shows "distinct (map he_first (cs ! i))"
    and "\<forall>e\<in>set (cs ! i). he_hash_code e = hash (he_first e)"
    and "e \<in> set (cs ! i) \<Longrightarrow> place m (length cs) (hash (he_first e)) = i"
  using assms by (auto simp: chains_ok_def)

lemma chains_ok_place: "chains_ok hash m cs \<Longrightarrow> place m (length cs) h < length cs"
  by (simp add: chains_ok_def place_less)

lemma concat_distinct:
  assumes "\<forall>i<length cs. distinct (map f (cs ! i)) \<and> (\<forall>e\<in>set (cs ! i). g (f e) = i)"
  shows "distinct (map f (concat cs))"
  using assms
proof (induction cs rule: rev_induct)
  case (snoc c cs)
  have "distinct (map f (concat cs))"
    using snoc by (auto simp: nth_append split: if_splits)
  moreover have last: "distinct (map f c)" "\<forall>e\<in>set c. g (f e) = length cs"
    using snoc.prems [rule_format, of "length cs"] by auto
  moreover have "f ` set (concat cs) \<inter> f ` set c = {}"
  proof (rule ccontr)
    assume "f ` set (concat cs) \<inter> f ` set c \<noteq> {}"
    then obtain d e e' where "d \<in> set cs" "e \<in> set d" "e' \<in> set c" "f e = f e'" by auto
    moreover from this obtain i where "i < length cs" "d = cs ! i" by (auto simp: in_set_conv_nth)
    ultimately have "i < length cs" "e \<in> set (cs ! i)" "e' \<in> set c" "f e = f e'" by simp_all
    with snoc.prems [rule_format, of i] last(2) show False
      by (auto simp: nth_append)
  qed
  ultimately show ?case by auto
qed simp

lemma chains_ok_distinct: "chains_ok hash m cs \<Longrightarrow> distinct (map he_first (concat cs))"
  by (rule concat_distinct [where g = "\<lambda>k. place m (length cs) (hash k)"])
     (auto simp: chains_ok_def)

lemma chains_ok_key:
  assumes "chains_ok hash m cs" "e \<in> set (concat cs)"
  shows "e \<in> set (cs ! place m (length cs) (hash (he_first e)))"
proof -
  obtain d where "d \<in> set cs" "e \<in> set d" using assms(2) by auto
  moreover from this obtain i where "i < length cs" "d = cs ! i" by (auto simp: in_set_conv_nth)
  ultimately have "i < length cs" "e \<in> set (cs ! i)" by simp_all
  with chains_okD(3) [OF assms(1)] show ?thesis by auto
qed

lemma chain_map_Some:
  "distinct (map he_first c) \<Longrightarrow>
     chain_map c k = Some v \<longleftrightarrow> (\<exists>e\<in>set c. he_first e = k \<and> he_second e = v)"
  by (induction c) (auto simp: rev_image_eqI)

lemma chain_map_eqI:
  assumes "distinct (map he_first c)" "distinct (map he_first d)"
    and "\<And>e. he_first e = k \<Longrightarrow> e \<in> set c \<longleftrightarrow> e \<in> set d"
  shows "chain_map c k = chain_map d k"
proof -
  have eq: "chain_map c k = Some v \<longleftrightarrow> chain_map d k = Some v" for v
    using assms by (auto simp: chain_map_Some)
  show ?thesis
  proof (cases "chain_map c k")
    case None
    then show ?thesis using eq [of "the (chain_map d k)"] by (cases "chain_map d k") simp_all
  next
    case (Some v)
    then show ?thesis using eq [of v] by simp
  qed
qed

text \<open>A key is looked up in the bucket of its hash code.\<close>

lemma chains_lookup:
  assumes "chains_ok hash m cs"
  shows "chain_map (concat cs) k = chain_map (cs ! place m (length cs) (hash k)) k"
proof (rule chain_map_eqI)
  have i: "place m (length cs) (hash k) < length cs" using chains_ok_place [OF assms] .
  show "distinct (map he_first (concat cs))" using chains_ok_distinct [OF assms] .
  show "distinct (map he_first (cs ! place m (length cs) (hash k)))" using chains_okD(1) [OF assms i] .
  show "e \<in> set (concat cs) \<longleftrightarrow> e \<in> set (cs ! place m (length cs) (hash k))" if "he_first e = k" for e
    using chains_ok_key [OF assms, of e] nth_mem [OF i] that by auto
qed

lemma chains_ok_update:
  assumes ok: "chains_ok hash m cs" and i: "i < length cs"
    and c: "distinct (map he_first c)"
      "\<forall>e\<in>set c. he_hash_code e = hash (he_first e) \<and> place m (length cs) (hash (he_first e)) = i"
  shows "chains_ok hash m (cs[i := c])"
  using assms by (auto simp: chains_ok_def nth_list_update)

lemma length_concat_update:
  "i < length cs \<Longrightarrow> length (concat (cs[i := c])) + length (cs ! i) = length (concat cs) + length c"
  by (induction cs arbitrary: i) (auto simp: less_Suc_eq_0_disj split: nat.split)

text \<open>Changing the bucket of one key changes the map at that key only.\<close>

lemma chains_abs_update:
  assumes ok: "chains_ok hash m cs" and ok': "chains_ok hash m (cs[i := c])"
    and i: "i = place m (length cs) (hash k)"
    and c: "chain_map c = (chain_map (cs ! i))(k := x)"
  shows "chain_map (concat (cs[i := c])) = (chain_map (concat cs))(k := x)"
proof
  fix k'
  show "chain_map (concat (cs[i := c])) k' = ((chain_map (concat cs))(k := x)) k'"
    using chains_lookup [OF ok] chains_lookup [OF ok'] chains_ok_place [OF ok] i c
    by (cases "place m (length cs) (hash k') = i") auto
qed

subsection \<open>Splitting a bucket\<close>

definition split_at :: "nat \<Rightarrow> nat \<Rightarrow> ('k, 'v) chain list \<Rightarrow> ('k, 'v) chain list" where
  "split_at m j cs = (let n = length cs; c = cs ! j in
     cs[j := filter (\<lambda>e. he_hash_code e AND m \<noteq> n) c] @ [filter (\<lambda>e. he_hash_code e AND m = n) c])"

lemma length_split_at [simp]: "length (split_at m j cs) = Suc (length cs)"
  by (simp add: split_at_def Let_def)

lemma nth_split_at:
  assumes "j < length cs" "i < Suc (length cs)"
  shows "split_at m j cs ! i =
    (if i = length cs then filter (\<lambda>e. he_hash_code e AND m = length cs) (cs ! j)
     else if i = j then filter (\<lambda>e. he_hash_code e AND m \<noteq> length cs) (cs ! j) else cs ! i)"
  using assms by (auto simp: split_at_def Let_def nth_append)

lemma chains_ok_split:
  assumes ok: "chains_ok hash m cs"
  shows "chains_ok hash (next_mask m (length cs))
           (split_at (next_mask m (length cs)) (length cs AND drop_bit 1 (next_mask m (length cs))) cs)"
proof -
  let ?n = "length cs" let ?m = "next_mask m ?n" let ?j = "?n AND drop_bit 1 ?m"
  have mok: "mask_ok m ?n" using ok by (simp add: chains_ok_def)
  have j: "?j < ?n" using source_bucket_less [OF mok] .
  note pn = place_next [OF mok]
  have "distinct (map he_first (split_at ?m ?j cs ! i)) \<and>
        (\<forall>e\<in>set (split_at ?m ?j cs ! i). he_hash_code e = hash (he_first e) \<and>
           place ?m (Suc ?n) (hash (he_first e)) = i)" if "i < Suc ?n" for i
  proof (cases "i = ?n")
    case True
    then show ?thesis
      using j chains_okD [OF ok j] pn(1) by (auto simp: nth_split_at distinct_map_filter)
  next
    case False
    with that have i: "i < ?n" by simp
    have "e \<in> set (cs ! i) \<Longrightarrow> i \<noteq> ?j \<Longrightarrow> hash (he_first e) AND ?m \<noteq> ?n" for e
      using chains_okD(3) [OF ok i] pn(2) [of "hash (he_first e)"] by metis
    then show ?thesis
      using i j chains_okD [OF ok i] pn(1) by (auto simp: nth_split_at distinct_map_filter)
  qed
  with next_mask_ok [OF mok] show ?thesis by (simp add: chains_ok_def)
qed

lemma chains_abs_split:
  assumes ok: "chains_ok hash m cs"
  shows "chain_map (concat (split_at (next_mask m (length cs))
           (length cs AND drop_bit 1 (next_mask m (length cs))) cs)) = chain_map (concat cs)"
proof
  fix k
  let ?n = "length cs" let ?m = "next_mask m ?n" let ?j = "?n AND drop_bit 1 ?m"
  have mok: "mask_ok m ?n" using ok by (simp add: chains_ok_def)
  have j: "?j < ?n" using source_bucket_less [OF mok] .
  have p: "place m ?n (hash k) < ?n" using place_less [OF mok] .
  note pn = place_next [OF mok, of "hash k"]
  have h: "e \<in> set (cs ! i) \<Longrightarrow> i < ?n \<Longrightarrow> he_hash_code e = hash (he_first e)" for e i
    using chains_okD(2) [OF ok] by blast
  show "chain_map (concat (split_at ?m ?j cs)) k = chain_map (concat cs) k"
  proof (cases "hash k AND ?m = ?n")
    case True
    then have "chain_map (concat (split_at ?m ?j cs)) k =
               chain_map (filter (\<lambda>e. he_hash_code e AND ?m = ?n) (cs ! ?j)) k"
      using chains_lookup [OF chains_ok_split [OF ok], of k] pn j by (simp add: nth_split_at)
    also have "\<dots> = chain_map (cs ! ?j) k"
      using h [OF _ j] True by (intro chain_map_filter) auto
    finally show ?thesis using chains_lookup [OF ok, of k] pn True by simp
  next
    case False
    then have "chain_map (concat (split_at ?m ?j cs)) k =
               chain_map (split_at ?m ?j cs ! place m ?n (hash k)) k"
      using chains_lookup [OF chains_ok_split [OF ok], of k] pn by simp
    also have "\<dots> = chain_map (cs ! place m ?n (hash k)) k"
      using h [OF _ j] False p j by (auto simp: nth_split_at intro!: chain_map_filter)
    finally show ?thesis using chains_lookup [OF ok, of k] by simp
  qed
qed

lemma length_concat_split:
  "j < length cs \<Longrightarrow> length (concat (split_at m j cs)) = length (concat cs)"
  using length_concat_update [of j cs "filter (\<lambda>e. he_hash_code e AND m \<noteq> length cs) (cs ! j)"]
    sum_length_filter_compl [of "\<lambda>e. he_hash_code e AND m = length cs" "cs ! j"]
  by (simp add: split_at_def Let_def)

section \<open>Operations on the layout\<close>

text \<open>The members that a write to a bucket keeps.\<close>

definition same_members :: "('k, 'v) hash_table \<Rightarrow> ('k, 'v) hash_table \<Rightarrow> bool" where
  "same_members t u \<longleftrightarrow> ht_size u = ht_size t \<and> ht_mask u = ht_mask t \<and>
     ht_bucket_count u = ht_bucket_count t \<and> ht_bucket_capacity u = ht_bucket_capacity t \<and>
     ht_new_begin u = ht_new_begin t \<and> ht_max_load_factor u = ht_max_load_factor t"

lemma length_chains [simp]: "length (ht_chains t) = ht_bucket_count t"
  by (simp add: ht_chains_def)

lemma nth_chains: "i < ht_bucket_count t \<Longrightarrow> ht_chains t ! i = the (ht_raw t i)"
  by (simp add: ht_chains_def)

lemma chains_eqI:
  assumes "ht_bucket_count t = length cs" "\<And>i. i < length cs \<Longrightarrow> ht_raw t i = Some (cs ! i)"
  shows "ht_chains t = cs"
  using assms by (intro nth_equalityI) (auto simp: nth_chains)

lemma get_slot_Some [simp]: "i < length a \<Longrightarrow> a ! i = Some c \<Longrightarrow> get_slot a i = Inr c"
  by (simp add: get_slot_def)

lemma ht_bucket_chains:
  assumes "ht_layout t" "i < ht_bucket_count t"
  shows "ht_bucket t i = Inr (ht_chains t ! i)"
proof -
  obtain c where "ht_raw t i = Some c" using assms by (auto simp: ht_layout_def)
  with assms show ?thesis
    by (auto simp: ht_bucket_def ht_raw_def ht_layout_def nth_chains split: if_splits)
qed

lemma ht_set_bucket_chains:
  assumes "ht_layout t" "i < ht_bucket_count t"
  obtains u where "ht_set_bucket t i c = Inr u" "ht_layout u" "same_members t u"
    "ht_chains u = (ht_chains t)[i := c]"
proof -
  let ?u = "if i < ht_new_begin t then t\<lparr>ht_old_buckets := (ht_old_buckets t)[i := Some c]\<rparr>
            else t\<lparr>ht_new_buckets := (ht_new_buckets t)[i := Some c]\<rparr>"
  have set: "ht_set_bucket t i c = Inr ?u"
    using assms by (auto simp: ht_set_bucket_def put_slot_def ht_layout_def)
  have raw: "ht_raw ?u j = (if j = i then Some c else ht_raw t j)" if "j < ht_bucket_count t" for j
    using assms that by (auto simp: ht_raw_def ht_layout_def nth_list_update)
  have "ht_layout ?u" using assms raw by (auto simp: ht_layout_def)
  moreover have "ht_chains ?u = (ht_chains t)[i := c]"
    using raw assms by (intro chains_eqI) (auto simp: nth_list_update nth_chains ht_layout_def)
  moreover have "same_members t ?u" by (simp add: same_members_def)
  ultimately show thesis using that set by blast
qed

lemma ht_add_slot:
  assumes "ht_layout t" "ht_bucket_count t < ht_bucket_capacity t"
  obtains u where "ht_set_bucket (t\<lparr>ht_bucket_count := Suc (ht_bucket_count t)\<rparr>) (ht_bucket_count t) c = Inr u"
    "ht_layout u" "same_members (t\<lparr>ht_bucket_count := Suc (ht_bucket_count t)\<rparr>) u"
    "ht_chains u = ht_chains t @ [c]"
proof -
  let ?n = "ht_bucket_count t"
  let ?u = "t\<lparr>ht_bucket_count := Suc ?n, ht_new_buckets := (ht_new_buckets t)[?n := Some c]\<rparr>"
  have set: "ht_set_bucket (t\<lparr>ht_bucket_count := Suc ?n\<rparr>) ?n c = Inr ?u"
    using assms by (auto simp: ht_set_bucket_def put_slot_def ht_layout_def)
  have raw: "ht_raw ?u j = (if j = ?n then Some c else ht_raw t j)" if "j < Suc ?n" for j
    using assms that by (auto simp: ht_raw_def ht_layout_def nth_list_update)
  have "ht_layout ?u" using assms raw by (auto simp: ht_layout_def less_Suc_eq)
  moreover have "ht_chains ?u = ht_chains t @ [c]"
    using raw assms by (intro chains_eqI) (auto simp: nth_append nth_chains ht_layout_def less_Suc_eq)
  moreover have "same_members (t\<lparr>ht_bucket_count := Suc ?n\<rparr>) ?u" by (simp add: same_members_def)
  ultimately show thesis using that set by blast
qed

lemma move_bucket_chains:
  assumes "ht_layout t"
  obtains u where "move_bucket t = Inr u" "ht_layout u" "ht_chains u = ht_chains t"
    "same_members (t\<lparr>ht_new_begin := ht_new_begin t - 1\<rparr>) u"
proof (cases "ht_new_begin t")
  case 0
  with assms that [of t] show thesis by (simp add: move_bucket_def same_members_def)
next
  case (Suc b)
  with assms obtain c where c: "ht_old_buckets t ! b = Some c"
    unfolding ht_layout_def ht_raw_def by (metis Suc_le_eq lessI not_None_eq)
  let ?v = "t\<lparr>ht_new_begin := b, ht_new_buckets := (ht_new_buckets t)[b := Some c]\<rparr>"
  let ?u = "if b = 0 then ?v\<lparr>ht_old_buckets := []\<rparr> else ?v"
  have mv: "move_bucket t = Inr ?u"
    using assms Suc c by (simp add: move_bucket_def put_slot_def Let_def ht_layout_def)
  have raw: "ht_raw ?u j = ht_raw t j" if "j < ht_bucket_count t" for j
    using assms Suc c that by (auto simp: ht_raw_def ht_layout_def nth_list_update less_Suc_eq)
  have "ht_layout ?u" using assms Suc raw by (auto simp: ht_layout_def)
  moreover have "ht_chains ?u = ht_chains t"
    using raw assms by (intro chains_eqI) (auto simp: nth_chains ht_layout_def)
  moreover have "same_members (t\<lparr>ht_new_begin := ht_new_begin t - 1\<rparr>) ?u"
    using Suc by (simp add: same_members_def)
  ultimately show thesis using that mv by blast
qed

lemma ht_reserve_chains:
  assumes "ht_layout t" "ht_new_begin t = 0" "ht_bucket_capacity t < n"
  obtains u where "ht_reserve t n = Inr u" "ht_layout u" "ht_chains u = ht_chains t"
    "same_members (t\<lparr>ht_new_begin := ht_bucket_count t, ht_bucket_capacity := n\<rparr>) u"
proof -
  let ?u = "t\<lparr>ht_old_buckets := ht_new_buckets t, ht_new_buckets := replicate n None,
              ht_new_begin := ht_bucket_count t, ht_bucket_capacity := n\<rparr>"
  have raw: "ht_raw ?u j = ht_raw t j" if "j < ht_bucket_count t" for j
    using assms that by (simp add: ht_raw_def)
  have "ht_layout ?u" using assms raw by (auto simp: ht_layout_def)
  moreover have "ht_chains ?u = ht_chains t"
    using raw assms by (intro chains_eqI) (auto simp: nth_chains ht_layout_def)
  moreover have "ht_reserve t n = Inr ?u" using assms by (simp add: ht_reserve_def)
  ultimately show thesis using that by (simp add: same_members_def)
qed


section \<open>Operations keep the invariant\<close>

text \<open>Between the two halves of an insertion one bucket more may be in use than the moves allow.\<close>

definition ht_inv1 :: "('k \<Rightarrow> nat) \<Rightarrow> nat \<Rightarrow> ('k, 'v) hash_table \<Rightarrow> bool" where
  "ht_inv1 hash d t \<longleftrightarrow> ht_layout t \<and> chains_ok hash (ht_mask t) (ht_chains t) \<and>
     ht_size t = length (concat (ht_chains t)) \<and>
     ht_new_begin t + ht_bucket_count t \<le> ht_bucket_capacity t + d"

lemma ht_inv1_0: "ht_inv hash t \<longleftrightarrow> ht_inv1 hash 0 t"
  by (simp add: ht_inv_def ht_inv1_def)

lemma ht_layout_members:
  "ht_layout (t\<lparr>ht_size := n\<rparr>) = ht_layout t" "ht_layout (t\<lparr>ht_mask := m\<rparr>) = ht_layout t"
  "ht_layout (t\<lparr>ht_max_load_factor := ml\<rparr>) = ht_layout t"
  by (simp_all add: ht_layout_def ht_raw_def)

lemma ht_chains_members:
  "ht_chains (t\<lparr>ht_size := n\<rparr>) = ht_chains t" "ht_chains (t\<lparr>ht_mask := m\<rparr>) = ht_chains t"
  "ht_chains (t\<lparr>ht_max_load_factor := ml\<rparr>) = ht_chains t"
  by (simp_all add: ht_chains_def ht_raw_def)

lemmas ht_members = ht_layout_members ht_chains_members

lemma split_last_inv:
  assumes "ht_layout t" "chains_ok hash (ht_mask t) (ht_chains t)"
    and "ht_bucket_count t < ht_bucket_capacity t"
  obtains u where "split_last t = Inr u"
    "ht_layout u" "chains_ok hash (ht_mask u) (ht_chains u)" "ht_abs u = ht_abs t"
    "length (concat (ht_chains u)) = length (concat (ht_chains t))"
    "same_members (t\<lparr>ht_bucket_count := Suc (ht_bucket_count t)\<rparr>) (u\<lparr>ht_mask := ht_mask t\<rparr>)"
proof -
  let ?n = "ht_bucket_count t" let ?m = "next_mask (ht_mask t) ?n"
  let ?j = "?n AND drop_bit 1 ?m" let ?cs = "ht_chains t" let ?t = "t\<lparr>ht_mask := ?m\<rparr>"
  have t1: "(if ?n AND (?n - 1) = 0 then t\<lparr>ht_mask := ?n * 2 - 1\<rparr> else t) = ?t"
    by (simp add: next_mask_def)
  have "mask_ok (ht_mask t) ?n" using assms(2) by (simp add: chains_ok_def)
  then have j: "?j < ?n" by (rule source_bucket_less)
  obtain a where a: "ht_set_bucket (?t\<lparr>ht_bucket_count := Suc ?n\<rparr>) ?n [] = Inr a" "ht_layout a"
    "same_members (?t\<lparr>ht_bucket_count := Suc ?n\<rparr>) a" "ht_chains a = ?cs @ [[]]"
    using ht_add_slot [of ?t "[]"] assms by (auto simp: ht_members)
  have am: "ht_mask a = ?m" "ht_bucket_count a = Suc ?n" using a(3) by (simp_all add: same_members_def)
  let ?src = "filter (\<lambda>e. he_hash_code e AND ?m \<noteq> ?n) (?cs ! ?j)"
  let ?dest = "filter (\<lambda>e. he_hash_code e AND ?m = ?n) (?cs ! ?j)"
  have b: "ht_bucket a ?j = Inr (?cs ! ?j)"
    using ht_bucket_chains [OF a(2), of ?j] am j a(4) by (simp add: nth_append)
  obtain c where c: "ht_set_bucket a ?j ?src = Inr c" "ht_layout c" "same_members a c"
    "ht_chains c = (?cs @ [[]])[?j := ?src]"
    using ht_set_bucket_chains [OF a(2), of ?j ?src] am j a(4) by auto
  obtain u where u: "ht_set_bucket c ?n ?dest = Inr u" "ht_layout u" "same_members c u"
    "ht_chains u = ((?cs @ [[]])[?j := ?src])[?n := ?dest]"
    using ht_set_bucket_chains [OF c(2), of ?n ?dest] am c(3,4) by (auto simp: same_members_def)
  have cs: "ht_chains u = split_at ?m ?j ?cs"
    using u(4) j by (simp add: split_at_def Let_def list_update_append)
  have um: "ht_mask u = ?m" using u(3) c(3) am by (simp add: same_members_def)
  show thesis
  proof (rule that)
    show "ht_layout u" by (rule u(2))
    show "chains_ok hash (ht_mask u) (ht_chains u)"
      using chains_ok_split [OF assms(2)] by (simp add: cs um)
    show "ht_abs u = ht_abs t"
      using chains_abs_split [OF assms(2)] by (simp add: ht_abs_def cs)
    show "length (concat (ht_chains u)) = length (concat (ht_chains t))"
      using length_concat_split [of ?j ?cs ?m] j by (simp add: cs)
    show "same_members (t\<lparr>ht_bucket_count := Suc ?n\<rparr>) (u\<lparr>ht_mask := ht_mask t\<rparr>)"
      using a(3) c(3) u(3) by (simp add: same_members_def)
    have "ht_bucket a (?n AND drop_bit (Suc 0) ?m) = Inr (?cs ! ?j)"
      "ht_set_bucket a (?n AND drop_bit (Suc 0) ?m) ?src = Inr c"
      "ht_set_bucket c ?n (filter (\<lambda>e. he_hash_code e AND ?m = ?n)
         (?cs ! (?n AND drop_bit (Suc 0) ?m))) = Inr u"
      using b c(1) u(1) by simp_all
    then show "split_last t = Inr u"
      unfolding split_last_def Let_def t1 by (simp add: a(1) am split_chain_filter)
  qed
qed

lemma add_bucket_inv:
  assumes "ht_inv1 hash 0 t"
  obtains u where "add_bucket t = Inr u" "ht_inv1 hash 1 u" "ht_abs u = ht_abs t"
    "ht_size u = ht_size t" "ht_max_load_factor u = ht_max_load_factor t"
    "ht_bucket_count u = ht_bucket_count t + 1"
proof -
  let ?grown = "\<lambda>v. ht_layout v \<and> ht_chains v = ht_chains t \<and> ht_size v = ht_size t \<and>
    ht_mask v = ht_mask t \<and> ht_max_load_factor v = ht_max_load_factor t \<and>
    ht_bucket_count v = ht_bucket_count t \<and> ht_bucket_count v < ht_bucket_capacity v \<and>
    ht_new_begin v + ht_bucket_count v \<le> ht_bucket_capacity v"
  have inv: "ht_layout t" "chains_ok hash (ht_mask t) (ht_chains t)"
    "ht_size t = length (concat (ht_chains t))"
    "ht_new_begin t + ht_bucket_count t \<le> ht_bucket_capacity t"
    "0 < ht_bucket_count t" "ht_bucket_count t \<le> ht_bucket_capacity t"
    using assms by (auto simp: ht_inv1_def ht_layout_def)
  obtain v where v: "(if ht_bucket_capacity t \<le> ht_bucket_count t
      then ht_reserve t (ht_bucket_capacity t * 2) else Inr t) = Inr v" "?grown v"
  proof (cases "ht_bucket_capacity t \<le> ht_bucket_count t")
    case True
    then obtain v where "ht_reserve t (ht_bucket_capacity t * 2) = Inr v" "ht_layout v"
      "ht_chains v = ht_chains t" "same_members (t\<lparr>ht_new_begin := ht_bucket_count t,
         ht_bucket_capacity := ht_bucket_capacity t * 2\<rparr>) v"
      using ht_reserve_chains [of t "ht_bucket_capacity t * 2"] inv by auto
    with True inv show thesis by (intro that [of v]) (simp_all add: same_members_def)
  next
    case False
    with inv show thesis by (intro that [of t]) simp_all
  qed
  obtain u where u: "ht_layout u" "chains_ok hash (ht_mask u) (ht_chains u)" "ht_abs u = ht_abs v"
    "length (concat (ht_chains u)) = length (concat (ht_chains v))"
    "same_members (v\<lparr>ht_bucket_count := Suc (ht_bucket_count v)\<rparr>) (u\<lparr>ht_mask := ht_mask v\<rparr>)"
    and eq: "add_bucket t = Inr u"
    using split_last_inv [of v hash] v inv(2) unfolding add_bucket_def v(1) rbind_Inr by metis
  have "ht_abs v = ht_abs t" using v(2) by (simp add: ht_abs_def)
  with u v(2) inv show thesis
    by (intro that [OF eq]) (simp_all add: ht_inv1_def same_members_def)
qed

lemma move_bucket_inv:
  assumes "ht_inv1 hash d t" "d \<le> 1"
  obtains u where "move_bucket t = Inr u" "ht_inv1 hash 0 u" "ht_abs u = ht_abs t"
    "ht_size u = ht_size t" "ht_max_load_factor u = ht_max_load_factor t"
    "ht_bucket_count u = ht_bucket_count t"
proof -
  have l: "ht_layout t" using assms by (simp add: ht_inv1_def)
  obtain u where u: "move_bucket t = Inr u" "ht_layout u" "ht_chains u = ht_chains t"
    "same_members (t\<lparr>ht_new_begin := ht_new_begin t - 1\<rparr>) u"
    using move_bucket_chains [OF l] by blast
  from l have "ht_bucket_count t \<le> ht_bucket_capacity t" by (simp add: ht_layout_def)
  with assms u show thesis
    by (intro that [OF u(1)]) (auto simp: ht_inv1_def same_members_def ht_abs_def)
qed

lemma insert_postprocess_inv:
  assumes "ht_inv1 hash 0 (t\<lparr>ht_size := ht_size t + 1\<rparr>)"
  obtains u where "insert_postprocess t = Inr u" "ht_inv hash u" "ht_abs u = ht_abs t"
    "ht_size u = ht_size t + 1" "ht_max_load_factor u = ht_max_load_factor t"
    "ht_bucket_count u = ht_bucket_count t + (if too_full (t\<lparr>ht_size := ht_size t + 1\<rparr>) then 2 else 0)"
proof -
  let ?t = "t\<lparr>ht_size := ht_size t + 1\<rparr>"
  have abs: "ht_abs ?t = ht_abs t" by (simp add: ht_abs_def ht_members)
  show thesis
  proof (cases "too_full ?t")
    case True
    obtain a where a: "add_bucket ?t = Inr a" "ht_inv1 hash 1 a" "ht_abs a = ht_abs ?t"
      "ht_size a = ht_size ?t" "ht_max_load_factor a = ht_max_load_factor ?t"
      "ht_bucket_count a = ht_bucket_count ?t + 1"
      using add_bucket_inv [OF assms] by blast
    obtain b where b: "move_bucket a = Inr b" "ht_inv1 hash 0 b" "ht_abs b = ht_abs a"
      "ht_size b = ht_size a" "ht_max_load_factor b = ht_max_load_factor a"
      "ht_bucket_count b = ht_bucket_count a"
      using move_bucket_inv [OF a(2) order_refl] by blast
    obtain c where c: "add_bucket b = Inr c" "ht_inv1 hash 1 c" "ht_abs c = ht_abs b"
      "ht_size c = ht_size b" "ht_max_load_factor c = ht_max_load_factor b"
      "ht_bucket_count c = ht_bucket_count b + 1"
      using add_bucket_inv [OF b(2)] by blast
    obtain u where u: "move_bucket c = Inr u" "ht_inv1 hash 0 u" "ht_abs u = ht_abs c"
      "ht_size u = ht_size c" "ht_max_load_factor u = ht_max_load_factor c"
      "ht_bucket_count u = ht_bucket_count c"
      using move_bucket_inv [OF c(2) order_refl] by blast
    have "insert_postprocess t = Inr u"
      using True a(1) b(1) c(1) u(1) by (simp add: insert_postprocess_def)
    with True a b c u abs show thesis by (intro that [of u]) (simp_all add: ht_inv1_0)
  next
    case False
    obtain u where u: "move_bucket ?t = Inr u" "ht_inv1 hash 0 u" "ht_abs u = ht_abs ?t"
      "ht_size u = ht_size ?t" "ht_max_load_factor u = ht_max_load_factor ?t"
      "ht_bucket_count u = ht_bucket_count ?t"
      using move_bucket_inv [OF assms] by blast
    have "insert_postprocess t = Inr u" using False u(1) by (simp add: insert_postprocess_def)
    with False u abs show thesis by (intro that [of u]) (simp_all add: ht_inv1_0)
  qed
qed

section \<open>Each operation against the map\<close>

lemma find_entry_inv:
  assumes "ht_inv hash t"
  obtains i c j where "find_entry hash t k = Inr (i, c, j)" "i < ht_bucket_count t"
    "c = ht_chains t ! i" "i = place (ht_mask t) (ht_bucket_count t) (hash k)"
    "j < length c \<longleftrightarrow> ht_abs t k \<noteq> None"
    "j < length c \<Longrightarrow> he_first (c ! j) = k \<and> ht_abs t k = Some (he_second (c ! j))"
    "j = find_in_chain (hash k) k c"
proof -
  let ?i = "place (ht_mask t) (ht_bucket_count t) (hash k)" let ?c = "ht_chains t ! ?i"
  let ?j = "find_in_chain (hash k) k ?c"
  have ok: "chains_ok hash (ht_mask t) (ht_chains t)" and l: "ht_layout t"
    using assms by (auto simp: ht_inv_def)
  have i: "?i < ht_bucket_count t" using chains_ok_place [OF ok] by simp
  have f: "find_entry hash t k = Inr (?i, ?c, ?j)"
    using ht_bucket_chains [OF l i] by (simp add: find_entry_def Let_def hash_to_bucket_place)
  have h: "\<forall>e\<in>set ?c. he_hash_code e = hash (he_first e)" using chains_okD(2) [OF ok] i by simp
  have m: "ht_abs t k = chain_map ?c k"
    using chains_lookup [OF ok] by (simp add: ht_abs_def)
  have "chain_map ?c k \<noteq> None \<longleftrightarrow> k \<in> he_first ` set ?c" unfolding chain_map_None by simp
  then show thesis
    using find_in_chain_map [where hash = hash, OF h]
    by (intro that [OF f i]) (auto simp: m find_in_chain_less [OF h])
qed

lemma ht_set_bucket_inv:
  assumes inv: "ht_inv hash t" and i: "i = place (ht_mask t) (ht_bucket_count t) (hash k)"
    and c: "distinct (map he_first c)" "\<forall>e\<in>set c. he_hash_code e = hash (he_first e) \<and>
             place (ht_mask t) (ht_bucket_count t) (hash (he_first e)) = i"
    and m: "chain_map c = (chain_map (ht_chains t ! i))(k := x)"
  obtains u where "ht_set_bucket t i c = Inr u" "same_members t u"
    "ht_inv1 hash 0 (u\<lparr>ht_size := ht_size t + length c - length (ht_chains t ! i)\<rparr>)"
    "ht_abs u = (ht_abs t)(k := x)" "ht_chains u = (ht_chains t)[i := c]" "ht_layout u"
proof -
  have ok: "chains_ok hash (ht_mask t) (ht_chains t)" and l: "ht_layout t"
    using inv by (auto simp: ht_inv_def)
  have il: "i < ht_bucket_count t" using chains_ok_place [OF ok] i by simp
  obtain u where u: "ht_set_bucket t i c = Inr u" "ht_layout u" "same_members t u"
    "ht_chains u = (ht_chains t)[i := c]"
    using ht_set_bucket_chains [OF l il] by blast
  have ok': "chains_ok hash (ht_mask t) (ht_chains u)"
    unfolding u(4) using ok il c by (intro chains_ok_update) simp_all
  have "ht_abs u = (ht_abs t)(k := x)"
    unfolding ht_abs_def u(4) using ok ok' i m
    by (intro chains_abs_update [where hash = hash and m = "ht_mask t"]) (simp_all add: u(4))
  moreover have "length (concat (ht_chains u)) = ht_size t + length c - length (ht_chains t ! i)"
    using length_concat_update [of i "ht_chains t" c] il inv by (simp add: u(4) ht_inv_def)
  ultimately show thesis
    using u ok' inv by (intro that) (simp_all add: ht_inv1_def ht_inv_def same_members_def ht_members)
qed

lemma link_entry_inv:
  assumes inv: "ht_inv hash t" and i: "i = place (ht_mask t) (ht_bucket_count t) (hash k)"
    and c: "c = ht_chains t ! i" and n: "ht_abs t k = None"
  obtains u where "link_entry t i c (hash k) k v = Inr u" "ht_inv hash u"
    "ht_abs u = (ht_abs t)(k \<mapsto> v)"
    "ht_size u = ht_size t + 1" "ht_max_load_factor u = ht_max_load_factor t"
    "ht_bucket_count u =
       ht_bucket_count t + (if too_full (t\<lparr>ht_size := ht_size t + 1\<rparr>) then 2 else 0)"
proof -
  let ?e = "\<lparr>he_first = k, he_second = v, he_hash_code = hash k\<rparr>"
  have ok: "chains_ok hash (ht_mask t) (ht_chains t)" using inv by (simp add: ht_inv_def)
  have il: "i < ht_bucket_count t" using chains_ok_place [OF ok] i by simp
  have k: "k \<notin> he_first ` set c"
    using n chains_lookup [OF ok, of k] by (simp add: ht_abs_def i c chain_map_None)
  have d: "distinct (map he_first (c @ [?e]))" using chains_okD(1) [OF ok] il k c by auto
  have h: "\<forall>e\<in>set (c @ [?e]). he_hash_code e = hash (he_first e) \<and>
             place (ht_mask t) (ht_bucket_count t) (hash (he_first e)) = i"
    using chains_okD(2,3) [OF ok, of i] il c i by auto
  have m: "chain_map (c @ [?e]) = (chain_map (ht_chains t ! i))(k := Some v)"
    using chain_map_snoc [of ?e c] k c by simp
  obtain u where u: "ht_set_bucket t i (c @ [?e]) = Inr u" "same_members t u"
    "ht_inv1 hash 0 (u\<lparr>ht_size := ht_size t + length (c @ [?e]) - length (ht_chains t ! i)\<rparr>)"
    "ht_abs u = (ht_abs t)(k := Some v)"
    using ht_set_bucket_inv [OF inv i d h m] by blast
  have "ht_inv1 hash 0 (u\<lparr>ht_size := ht_size u + 1\<rparr>)" using u(2,3) c by (simp add: same_members_def)
  then obtain w where "insert_postprocess u = Inr w" "ht_inv hash w" "ht_abs w = ht_abs u"
    "ht_size w = ht_size u + 1" "ht_max_load_factor w = ht_max_load_factor u"
    "ht_bucket_count w = ht_bucket_count u + (if too_full (u\<lparr>ht_size := ht_size u + 1\<rparr>) then 2 else 0)"
    using insert_postprocess_inv by blast
  moreover have "too_full (u\<lparr>ht_size := ht_size u + 1\<rparr>) = too_full (t\<lparr>ht_size := ht_size t + 1\<rparr>)"
    using u(2) by (simp add: too_full_def same_members_def)
  ultimately show thesis using u by (intro that [of w]) (simp_all add: link_entry_def same_members_def)
qed


lemma unlink_entry_inv:
  assumes inv: "ht_inv hash t" and i: "i = place (ht_mask t) (ht_bucket_count t) (hash k)"
    and c: "c = ht_chains t ! i" and j: "j < length c" "he_first (c ! j) = k"
  obtains u where "unlink_entry t i c j = Inr u" "ht_inv hash u" "ht_abs u = (ht_abs t)(k := None)"
    "Suc (ht_size u) = ht_size t" "ht_max_load_factor u = ht_max_load_factor t"
    "ht_bucket_count u = ht_bucket_count t"
proof -
  let ?c = "take j c @ drop (Suc j) c"
  have ok: "chains_ok hash (ht_mask t) (ht_chains t)" using inv by (simp add: ht_inv_def)
  have il: "i < ht_bucket_count t" using chains_ok_place [OF ok] i by simp
  have dc: "distinct (map he_first c)" using chains_okD(1) [OF ok] il c by simp
  have sub: "set ?c \<subseteq> set c" by (auto dest: in_set_takeD in_set_dropD)
  have "map he_first ?c = take j (map he_first c) @ drop (Suc j) (map he_first c)"
    by (simp add: take_map drop_map)
  then have d: "distinct (map he_first ?c)"
    using dc set_take_disj_set_drop_if_distinct [of "map he_first c" j "Suc j"] by simp
  have h: "\<forall>e\<in>set ?c. he_hash_code e = hash (he_first e) \<and>
             place (ht_mask t) (ht_bucket_count t) (hash (he_first e)) = i"
    using chains_okD(2,3) [OF ok, of i] il c sub by auto
  have m: "chain_map ?c = (chain_map (ht_chains t ! i))(k := None)"
    using chain_map_remove [OF dc j(1)] j(2) c by simp
  obtain u where u: "ht_set_bucket t i ?c = Inr u" "same_members t u"
    "ht_inv1 hash 0 (u\<lparr>ht_size := ht_size t + length ?c - length (ht_chains t ! i)\<rparr>)"
    "ht_abs u = (ht_abs t)(k := None)"
    using ht_set_bucket_inv [OF inv i d h m] by blast
  have "length c \<le> length (concat (ht_chains t))"
    using nth_mem [of i "ht_chains t"] il c by (auto simp: length_concat intro!: member_le_sum_list)
  then have pos: "0 < ht_size t" using j(1) inv unfolding ht_inv_def by linarith
  then have "ht_size t + length ?c - length (ht_chains t ! i) = dec_size (ht_size u)"
    using j(1) c u(2) by (simp add: dec_size_def same_members_def)
  with u(3) have "ht_inv1 hash 0 (u\<lparr>ht_size := dec_size (ht_size u)\<rparr>)" by simp
  then obtain w where w: "move_bucket (u\<lparr>ht_size := dec_size (ht_size u)\<rparr>) = Inr w" "ht_inv1 hash 0 w"
    "ht_abs w = ht_abs (u\<lparr>ht_size := dec_size (ht_size u)\<rparr>)" "ht_size w = dec_size (ht_size u)"
    "ht_max_load_factor w = ht_max_load_factor u" "ht_bucket_count w = ht_bucket_count u"
    by (rule move_bucket_inv) simp_all
  have "ht_abs (u\<lparr>ht_size := dec_size (ht_size u)\<rparr>) = ht_abs u" by (simp add: ht_abs_def ht_members)
  with u w pos show thesis
    by (intro that [of w]) (simp_all add: unlink_entry_def ht_inv1_0 dec_size_def same_members_def)
qed

subsection \<open>Clearing\<close>

lemma dec_size_pow: "n \<le> s \<Longrightarrow> (dec_size ^^ n) s = s - n"
  by (induction n arbitrary: s) (auto simp: dec_size_def)

lemma clear_buckets_chains:
  assumes "ht_layout t" "j + n = ht_bucket_count t"
    and "length (concat (drop j (ht_chains t))) \<le> ht_size t"
  obtains u where "clear_buckets t [j..<j + n] = Inr u" "ht_layout u"
    "same_members (t\<lparr>ht_size := ht_size t - length (concat (drop j (ht_chains t)))\<rparr>) u"
  using assms
proof (induction n arbitrary: j t thesis)
  case 0
  then show ?case by (simp add: same_members_def)
next
  case (Suc n)
  let ?c = "ht_chains t ! j" let ?s = "ht_size t - length ?c"
  have j: "j < ht_bucket_count t" using Suc.prems by simp
  have dr: "drop j (ht_chains t) = ?c # drop (Suc j) (ht_chains t)"
    using j by (simp add: Cons_nth_drop_Suc)
  have s: "(dec_size ^^ length ?c) (ht_size t) = ?s"
    using Suc.prems(4) dr by (intro dec_size_pow) simp
  obtain a where a: "ht_set_bucket (t\<lparr>ht_size := ?s\<rparr>) j [] = Inr a" "ht_layout a"
    "same_members (t\<lparr>ht_size := ?s\<rparr>) a" "ht_chains a = (ht_chains t)[j := []]"
    using ht_set_bucket_chains [of "t\<lparr>ht_size := ?s\<rparr>" j "[]"] Suc.prems(2) j by (auto simp: ht_members)
  have da: "drop (Suc j) (ht_chains a) = drop (Suc j) (ht_chains t)" by (simp add: a(4))
  have pre: "Suc j + n = ht_bucket_count a"
    "length (concat (drop (Suc j) (ht_chains a))) \<le> ht_size a"
    using a(3) Suc.prems dr by (simp_all add: same_members_def da)
  from Suc.IH [OF _ a(2) pre] obtain u where u: "clear_buckets a [Suc j..<Suc j + n] = Inr u"
    "ht_layout u"
    "same_members (a\<lparr>ht_size := ht_size a - length (concat (drop (Suc j) (ht_chains a)))\<rparr>) u"
    by blast
  have "[j..<j + Suc n] = j # [Suc j..<Suc j + n]"
    using upt_conv_Cons [of j "j + Suc n"] by simp
  then have "clear_buckets t [j..<j + Suc n] = Inr u"
    using u(1) a(1) s ht_bucket_chains [OF Suc.prems(2) j] by (simp del: upt_Suc)
  with u a(3) dr show ?case
    by (intro Suc.prems(1) [of u]) (simp_all add: same_members_def da)
qed

lemma ht_fresh_inv:
  assumes "ht_size t = 0" "ht_mask t = 0" "ht_bucket_count t = 1" "ht_new_begin t = 0"
    "0 < ht_bucket_capacity t" "length (ht_new_buckets t) = ht_bucket_capacity t"
    "ht_new_buckets t ! 0 = Some []"
  shows "ht_inv hash t" "ht_abs t = Map.empty"
proof -
  have cs: "ht_chains t = [[]]" using assms by (intro chains_eqI) (auto simp: ht_raw_def)
  have "mask_ok 0 1" by (simp add: mask_ok_def exI [of _ 0])
  with assms cs show "ht_inv hash t" "ht_abs t = Map.empty"
    by (simp_all add: ht_inv_def ht_layout_def chains_ok_def ht_abs_def ht_raw_def)
qed

lemma ht_clear_inv:
  assumes inv: "ht_inv hash t"
  obtains u where "ht_clear t = Inr u" "ht_inv hash u" "ht_abs u = Map.empty"
    "ht_bucket_count u = 1" "ht_size u = 0" "ht_max_load_factor u = ht_max_load_factor t"
proof -
  have l: "ht_layout t" and s: "ht_size t = length (concat (ht_chains t))"
    using inv by (simp_all add: ht_inv_def)
  obtain a where a: "clear_buckets t [0..<0 + ht_bucket_count t] = Inr a" "ht_layout a"
    "same_members (t\<lparr>ht_size := ht_size t - length (concat (drop 0 (ht_chains t)))\<rparr>) a"
    using clear_buckets_chains [OF l, of 0 "ht_bucket_count t"] s by auto
  let ?u = "a\<lparr>ht_new_begin := 0, ht_bucket_count := 1, ht_mask := 0, ht_old_buckets := [],
               ht_new_buckets := (ht_new_buckets a)[0 := Some []]\<rparr>"
  have "0 < length (ht_new_buckets a)" using a(2) by (auto simp: ht_layout_def)
  then have "ht_clear t = Inr ?u"
    using a(1,3) s by (simp add: ht_clear_def put_slot_def same_members_def)
  moreover have "ht_inv hash ?u" "ht_abs ?u = Map.empty"
    using a s by (intro ht_fresh_inv; auto simp: ht_layout_def same_members_def)+
  ultimately show thesis using a(3) s by (intro that [of ?u]) (simp_all add: same_members_def)
qed

lemma ht_new_inv:
  assumes "0 < capacity"
  obtains t :: "('k, 'v) hash_table" where "ht_new capacity = Inr t" "ht_inv hash t"
    "ht_abs t = Map.empty" "ht_size t = 0" "ht_bucket_count t = 1" "ht_max_load_factor t = 3 / 4"
proof -
  let ?t = "\<lparr>ht_size = 0, ht_mask = 0, ht_bucket_count = 1, ht_bucket_capacity = capacity,
    ht_new_begin = 0, ht_max_load_factor = 3 / 4,
    ht_new_buckets = (replicate capacity None)[0 := Some []], ht_old_buckets = []\<rparr>
    :: ('k, 'v) hash_table"
  have "ht_inv hash ?t" "ht_abs ?t = Map.empty" using assms by (intro ht_fresh_inv; simp)+
  moreover have "ht_new capacity = Inr ?t" using assms by (simp add: ht_new_def put_slot_def)
  ultimately show thesis by (intro that [of ?t]) simp_all
qed

section \<open>Sequences of operations\<close>

text \<open>
  The calls a client can make, their results, and the same calls on a finite map. The client's write
  through a reference is \<open>Put\<close>; \<open>Index\<close> is \<open>operator[]\<close>.
\<close>

datatype ('k, 'v) ht_op =
    Insert 'k 'v | Emplace 'k 'v | Index 'k | Put 'k 'v | Erase 'k | At 'k | Find 'k | Clear
  | Set_load rat | Size

datatype ('k, 'v) ht_result =
    R_bool bool | R_value 'v | R_option "'v option" | R_iter "'k option" | R_count nat | R_none

fun ht_exec :: "('k \<Rightarrow> nat) \<Rightarrow> 'v \<Rightarrow> ('k, 'v) hash_table \<Rightarrow> ('k, 'v) ht_op
    \<Rightarrow> (('k, 'v) hash_table \<times> ('k, 'v) ht_result) res" where
  "ht_exec hash dflt t (Insert k v) = rbind (ht_insert hash t k v) (\<lambda>(t, b). Inr (t, R_bool b))"
| "ht_exec hash dflt t (Emplace k v) = rbind (ht_emplace hash t (k, v)) (\<lambda>(t, b). Inr (t, R_bool b))"
| "ht_exec hash dflt t (Index k) = rbind (ht_index hash dflt t k) (\<lambda>(t, v). Inr (t, R_value v))"
| "ht_exec hash dflt t (Put k v) = rbind (ht_at_put hash t k v) (\<lambda>(t, b). Inr (t, R_bool b))"
| "ht_exec hash dflt t (Erase k) = rbind (ht_erase_key hash t k) (\<lambda>(t, n). Inr (t, R_count n))"
| "ht_exec hash dflt t (At k) = rbind (ht_at hash t k) (\<lambda>v. Inr (t, R_option v))"
| "ht_exec hash dflt t (Find k) = rbind (ht_find hash t k) (\<lambda>it. Inr (t, R_iter it))"
| "ht_exec hash dflt t Clear = rbind (ht_clear t) (\<lambda>t. Inr (t, R_none))"
| "ht_exec hash dflt t (Set_load ml) = Inr (ht_set_max_load_factor t ml, R_none)"
| "ht_exec hash dflt t Size = Inr (t, R_count (ht_size t))"

fun map_exec :: "'v \<Rightarrow> ('k \<rightharpoonup> 'v) \<Rightarrow> ('k, 'v) ht_op \<Rightarrow> ('k \<rightharpoonup> 'v) \<times> ('k, 'v) ht_result" where
  "map_exec dflt m (Insert k v) = (case m k of Some _ \<Rightarrow> (m, R_bool False) | None \<Rightarrow> (m(k \<mapsto> v), R_bool True))"
| "map_exec dflt m (Emplace k v) = (case m k of Some _ \<Rightarrow> (m, R_bool False) | None \<Rightarrow> (m(k \<mapsto> v), R_bool True))"
| "map_exec dflt m (Index k) = (case m k of Some v \<Rightarrow> (m, R_value v) | None \<Rightarrow> (m(k \<mapsto> dflt), R_value dflt))"
| "map_exec dflt m (Put k v) = (case m k of Some _ \<Rightarrow> (m(k \<mapsto> v), R_bool True) | None \<Rightarrow> (m, R_bool False))"
| "map_exec dflt m (Erase k) = (case m k of Some _ \<Rightarrow> (m(k := None), R_count 1) | None \<Rightarrow> (m, R_count 0))"
| "map_exec dflt m (At k) = (m, R_option (m k))"
| "map_exec dflt m (Find k) = (m, R_iter (case m k of Some _ \<Rightarrow> Some k | None \<Rightarrow> None))"
| "map_exec dflt m Clear = (Map.empty, R_none)"
| "map_exec dflt m (Set_load ml) = (m, R_none)"
| "map_exec dflt m Size = (m, R_count (card (dom m)))"

fun ht_run :: "('k \<Rightarrow> nat) \<Rightarrow> 'v \<Rightarrow> ('k, 'v) hash_table \<Rightarrow> ('k, 'v) ht_op list
    \<Rightarrow> (('k, 'v) hash_table \<times> ('k, 'v) ht_result list) res" where
  "ht_run hash dflt t [] = Inr (t, [])"
| "ht_run hash dflt t (a # as) = rbind (ht_exec hash dflt t a) (\<lambda>(t, r).
     rbind (ht_run hash dflt t as) (\<lambda>(t, rs). Inr (t, r # rs)))"

fun map_run :: "'v \<Rightarrow> ('k \<rightharpoonup> 'v) \<Rightarrow> ('k, 'v) ht_op list \<Rightarrow> ('k \<rightharpoonup> 'v) \<times> ('k, 'v) ht_result list" where
  "map_run dflt m [] = (m, [])"
| "map_run dflt m (a # as) = (case map_exec dflt m a of (m, r) \<Rightarrow>
     case map_run dflt m as of (m, rs) \<Rightarrow> (m, r # rs))"

lemma ht_size_card:
  assumes "ht_inv hash t"
  shows "ht_size t = card (dom (ht_abs t))"
proof -
  have "distinct (map he_first (concat (ht_chains t)))"
    using assms chains_ok_distinct by (auto simp: ht_inv_def)
  from distinct_card [OF this] show ?thesis
    using assms by (simp add: ht_inv_def ht_abs_def dom_chain_map)
qed


text \<open>What a call does to the number of entries and buckets.\<close>

definition load_step :: "('k, 'v) hash_table \<Rightarrow> ('k, 'v) hash_table \<Rightarrow> bool" where
  "load_step t u \<longleftrightarrow> ht_max_load_factor u = ht_max_load_factor t \<and>
     (ht_size u \<le> ht_size t \<and> ht_bucket_count u = ht_bucket_count t \<or>
      ht_size u = 0 \<and> ht_bucket_count u = 1 \<or>
      ht_size u = ht_size t + 1 \<and> ht_bucket_count u =
        ht_bucket_count t + (if too_full (t\<lparr>ht_size := ht_size t + 1\<rparr>) then 2 else 0))"

lemma load_step_refl [simp]: "load_step t t"
  by (simp add: load_step_def)

lemma ht_at_put_inv:
  assumes inv: "ht_inv hash t" and k: "ht_abs t k \<noteq> None"
  obtains u where "ht_at_put hash t k v = Inr (u, True)" "ht_inv hash u"
    "ht_abs u = (ht_abs t)(k \<mapsto> v)" "load_step t u"
proof -
  obtain i c j where f: "find_entry hash t k = Inr (i, c, j)" "i < ht_bucket_count t"
    "c = ht_chains t ! i" "i = place (ht_mask t) (ht_bucket_count t) (hash k)"
    "j < length c" "he_first (c ! j) = k"
    using find_entry_inv [OF inv, of k] k by metis
  let ?c = "c[j := (c ! j)\<lparr>he_second := v\<rparr>]"
  have ok: "chains_ok hash (ht_mask t) (ht_chains t)" using inv by (simp add: ht_inv_def)
  have dc: "distinct (map he_first c)" using chains_okD(1) [OF ok] f(2,3) by simp
  have "map he_first ?c = map he_first c"
    by (simp add: map_update list_update_same_conv f(5))
  with dc have d: "distinct (map he_first ?c)" by simp
  have "e \<in> set ?c \<Longrightarrow> \<exists>e'\<in>set c. he_first e = he_first e' \<and> he_hash_code e = he_hash_code e'" for e
    using f(5) set_update_subset_insert [of c j] by (force simp: subset_iff)
  then have h: "\<forall>e\<in>set ?c. he_hash_code e = hash (he_first e) \<and>
             place (ht_mask t) (ht_bucket_count t) (hash (he_first e)) = i"
    using chains_okD(2,3) [OF ok, of i] f(2,3) by (metis length_chains)
  have m: "chain_map ?c = (chain_map (ht_chains t ! i))(k := Some v)"
    using chain_map_put [OF dc f(5)] f(3,6) by simp
  obtain u where u: "ht_set_bucket t i ?c = Inr u" "same_members t u"
    "ht_inv1 hash 0 (u\<lparr>ht_size := ht_size t + length ?c - length (ht_chains t ! i)\<rparr>)"
    "ht_abs u = (ht_abs t)(k := Some v)"
    using ht_set_bucket_inv [OF inv f(4) d h m] by blast
  have "u\<lparr>ht_size := ht_size t + length ?c - length (ht_chains t ! i)\<rparr> = u"
    using u(2) f(3) by (simp add: same_members_def)
  with u(3) have "ht_inv hash u" by (simp add: ht_inv1_0)
  moreover have "load_step t u" using u(2) by (simp add: load_step_def same_members_def)
  ultimately show thesis using u(1,4) f(1,5) by (intro that [of u]) (simp_all add: ht_at_put_def)
qed

lemma link_entry_map:
  assumes "ht_inv hash t" "i = place (ht_mask t) (ht_bucket_count t) (hash k)"
    and "c = ht_chains t ! i" "ht_abs t k = None"
  shows "\<exists>u. link_entry t i c (hash k) k v = Inr u \<and> ht_inv hash u \<and>
             ht_abs u = (ht_abs t)(k \<mapsto> v) \<and> load_step t u"
  by (rule link_entry_inv [OF assms, of v]) (simp add: load_step_def)

lemma unlink_entry_map:
  assumes "ht_inv hash t" "i = place (ht_mask t) (ht_bucket_count t) (hash k)"
    and "c = ht_chains t ! i" "j < length c" "he_first (c ! j) = k"
  shows "\<exists>u. unlink_entry t i c j = Inr u \<and> ht_inv hash u \<and>
             ht_abs u = (ht_abs t)(k := None) \<and> load_step t u"
  by (rule unlink_entry_inv [OF assms]) (simp add: load_step_def)

lemma find_entry_view:
  assumes "ht_inv hash t"
  shows "\<exists>i c j. find_entry hash t k = Inr (i, c, j) \<and> c = ht_chains t ! i \<and>
      i = place (ht_mask t) (ht_bucket_count t) (hash k) \<and> (j < length c \<longleftrightarrow> ht_abs t k \<noteq> None) \<and>
      (j < length c \<longrightarrow> he_first (c ! j) = k \<and> ht_abs t k = Some (he_second (c ! j)))"
  using find_entry_inv [OF assms, of k] by metis

lemma ht_insert_map:
  assumes inv: "ht_inv hash t"
  shows "\<exists>u. ht_insert hash t k v = Inr (u, ht_abs t k = None) \<and> ht_inv hash u \<and>
             ht_abs u = (if ht_abs t k = None then (ht_abs t)(k \<mapsto> v) else ht_abs t) \<and>
             load_step t u"
proof -
  obtain i c j where f: "find_entry hash t k = Inr (i, c, j)" "c = ht_chains t ! i"
    "i = place (ht_mask t) (ht_bucket_count t) (hash k)" "j < length c \<longleftrightarrow> ht_abs t k \<noteq> None"
    using find_entry_view [OF inv] by blast
  show ?thesis
  proof (cases "ht_abs t k")
    case None
    with link_entry_map [OF inv f(3,2)] obtain u where "link_entry t i c (hash k) k v = Inr u"
      "ht_inv hash u" "ht_abs u = (ht_abs t)(k \<mapsto> v)" "load_step t u" by blast
    with None f show ?thesis by (simp add: ht_insert_def)
  next
    case (Some w)
    with f inv show ?thesis by (simp add: ht_insert_def)
  qed
qed

lemma ht_emplace_insert: "ht_emplace hash t (k, v) = ht_insert hash t k v"
  by (simp add: ht_emplace_def ht_insert_def)

lemma ht_index_map:
  assumes inv: "ht_inv hash t"
  shows "\<exists>u. ht_index hash dflt t k = Inr (u, case ht_abs t k of None \<Rightarrow> dflt | Some v \<Rightarrow> v) \<and>
             ht_inv hash u \<and>
             ht_abs u = (if ht_abs t k = None then (ht_abs t)(k \<mapsto> dflt) else ht_abs t) \<and>
             load_step t u"
proof -
  obtain i c j where f: "find_entry hash t k = Inr (i, c, j)" "c = ht_chains t ! i"
    "i = place (ht_mask t) (ht_bucket_count t) (hash k)" "j < length c \<longleftrightarrow> ht_abs t k \<noteq> None"
    "j < length c \<longrightarrow> ht_abs t k = Some (he_second (c ! j))"
    using find_entry_view [OF inv] by blast
  show ?thesis
  proof (cases "ht_abs t k")
    case None
    with link_entry_map [OF inv f(3,2)] obtain u where "link_entry t i c (hash k) k dflt = Inr u"
      "ht_inv hash u" "ht_abs u = (ht_abs t)(k \<mapsto> dflt)" "load_step t u" by blast
    with None f show ?thesis by (simp add: ht_index_def)
  next
    case (Some w)
    with f inv show ?thesis by (simp add: ht_index_def)
  qed
qed

lemma ht_at_put_map:
  assumes inv: "ht_inv hash t"
  shows "\<exists>u. ht_at_put hash t k v = Inr (u, ht_abs t k \<noteq> None) \<and> ht_inv hash u \<and>
             ht_abs u = (if ht_abs t k = None then ht_abs t else (ht_abs t)(k \<mapsto> v)) \<and>
             load_step t u"
proof (cases "ht_abs t k = None")
  case True
  obtain i c j where "find_entry hash t k = Inr (i, c, j)" "j < length c \<longleftrightarrow> ht_abs t k \<noteq> None"
    using find_entry_view [OF inv] by blast
  with True inv show ?thesis by (simp add: ht_at_put_def)
next
  case False
  with ht_at_put_inv [OF inv] obtain u where "ht_at_put hash t k v = Inr (u, True)" "ht_inv hash u"
    "ht_abs u = (ht_abs t)(k \<mapsto> v)" "load_step t u" by blast
  with False show ?thesis by auto
qed

lemma ht_erase_key_map:
  assumes inv: "ht_inv hash t"
  shows "\<exists>u. ht_erase_key hash t k = Inr (u, if ht_abs t k = None then 0 else 1) \<and> ht_inv hash u \<and>
             ht_abs u = (ht_abs t)(k := None) \<and> load_step t u"
proof -
  obtain i c j where f: "find_entry hash t k = Inr (i, c, j)" "c = ht_chains t ! i"
    "i = place (ht_mask t) (ht_bucket_count t) (hash k)" "j < length c \<longleftrightarrow> ht_abs t k \<noteq> None"
    "j < length c \<longrightarrow> he_first (c ! j) = k"
    using find_entry_view [OF inv] by blast
  show ?thesis
  proof (cases "j < length c")
    case True
    with unlink_entry_map [OF inv f(3,2)] f(5) obtain u where "unlink_entry t i c j = Inr u"
      "ht_inv hash u" "ht_abs u = (ht_abs t)(k := None)" "load_step t u" by blast
    with True f show ?thesis by (auto simp: ht_erase_key_def)
  next
    case False
    with f inv show ?thesis by (auto simp: ht_erase_key_def)
  qed
qed

lemma ht_lookup_map:
  assumes inv: "ht_inv hash t"
  shows "ht_at hash t k = Inr (ht_abs t k)"
    and "ht_find hash t k = Inr (if ht_abs t k = None then None else Some k)"
proof -
  obtain i c j where "find_entry hash t k = Inr (i, c, j)" "j < length c \<longleftrightarrow> ht_abs t k \<noteq> None"
    "j < length c \<longrightarrow> he_first (c ! j) = k \<and> ht_abs t k = Some (he_second (c ! j))"
    using find_entry_view [OF inv] by blast
  then show "ht_at hash t k = Inr (ht_abs t k)"
    "ht_find hash t k = Inr (if ht_abs t k = None then None else Some k)"
    by (auto simp: ht_at_def ht_find_def)
qed

text \<open>One call: no fault, the result of the map, and the invariant again.\<close>

lemma ht_exec_refines:
  assumes inv: "ht_inv hash t"
  shows "\<exists>u. ht_exec hash dflt t a = Inr (u, snd (map_exec dflt (ht_abs t) a)) \<and> ht_inv hash u \<and>
             ht_abs u = fst (map_exec dflt (ht_abs t) a) \<and> ((\<forall>ml. a \<noteq> Set_load ml) \<longrightarrow> load_step t u)"
proof (cases a)
  case (Insert k v)
  with ht_insert_map [OF inv, of k v] show ?thesis by (auto split: option.splits)
next
  case (Emplace k v)
  with ht_insert_map [OF inv, of k v] show ?thesis
    by (auto simp: ht_emplace_insert split: option.splits)
next
  case (Index k)
  with ht_index_map [OF inv, of dflt k] show ?thesis by (auto split: option.splits)
next
  case (Put k v)
  with ht_at_put_map [OF inv, of k v] show ?thesis by (auto split: option.splits)
next
  case (Erase k)
  with ht_erase_key_map [OF inv, of k] show ?thesis by (auto simp: fun_upd_idem split: option.splits)
next
  case (At k)
  with inv show ?thesis by (simp add: ht_lookup_map)
next
  case (Find k)
  with inv show ?thesis by (simp add: ht_lookup_map split: option.splits)
next
  case Clear
  obtain u where "ht_clear t = Inr u" "ht_inv hash u" "ht_abs u = Map.empty" "load_step t u"
    using ht_clear_inv [OF inv] by (metis load_step_def)
  with Clear show ?thesis by simp
next
  case (Set_load ml)
  with inv show ?thesis
    by (simp add: ht_set_max_load_factor_def ht_inv_def ht_abs_def ht_members)
next
  case Size
  with inv show ?thesis by (simp add: ht_size_card)
qed

lemma ht_run_refines:
  assumes "ht_inv hash t"
  shows "\<exists>u. ht_run hash dflt t as = Inr (u, snd (map_run dflt (ht_abs t) as)) \<and> ht_inv hash u \<and>
             ht_abs u = fst (map_run dflt (ht_abs t) as)"
  using assms
proof (induction as arbitrary: t)
  case (Cons a as)
  obtain u where u: "ht_exec hash dflt t a = Inr (u, snd (map_exec dflt (ht_abs t) a))" "ht_inv hash u"
    "ht_abs u = fst (map_exec dflt (ht_abs t) a)"
    using ht_exec_refines [OF Cons.prems] by blast
  from Cons.IH [OF u(2)] u show ?case by (auto simp: split_beta)
qed simp


section \<open>Iteration\<close>

definition first_key :: "('k, 'v) chain \<Rightarrow> 'k option" where
  "first_key es = (case es of [] \<Rightarrow> None | e # _ \<Rightarrow> Some (he_first e))"

lemma iter_first_chains:
  assumes "ht_layout t"
  shows "iter_first t i = Inr (first_key (concat (drop i (ht_chains t))))"
proof (induction "ht_bucket_count t - i" arbitrary: i)
  case 0
  then show ?case
    by (simp add: iter_first_def find_first_nonempty.simps first_key_def)
next
  case (Suc n)
  then have i: "i < ht_bucket_count t" by simp
  then have dr: "drop i (ht_chains t) = ht_chains t ! i # drop (Suc i) (ht_chains t)"
    by (simp add: Cons_nth_drop_Suc)
  note b = ht_bucket_chains [OF assms i]
  show ?case
  proof (cases "ht_chains t ! i")
    case Nil
    have "find_first_nonempty t i = find_first_nonempty t (Suc i)"
      using i b Nil by (simp add: find_first_nonempty.simps [of t i])
    then have "iter_first t i = iter_first t (Suc i)" by (simp add: iter_first_def)
    also have "\<dots> = Inr (first_key (concat (drop (Suc i) (ht_chains t))))"
      using Suc.hyps(1) [of "Suc i"] Suc.hyps(2) by simp
    finally show ?thesis by (simp add: dr Nil)
  next
    case (Cons e es)
    have "find_first_nonempty t i = Inr i"
      using i b Cons by (simp add: find_first_nonempty.simps [of t i])
    then show ?thesis using i b Cons by (simp add: iter_first_def dr first_key_def)
  qed
qed

text \<open>Where the search for an entry of the table ends.\<close>

lemma entry_position:
  assumes inv: "ht_inv hash t" and es: "concat (ht_chains t) = xs @ e # ys"
  obtains i c j where "find_entry hash t (he_first e) = Inr (i, c, j)" "j < length c" "c ! j = e"
    "i < ht_bucket_count t" "c = ht_chains t ! i" "he_hash_code e = hash (he_first e)"
    "i = place (ht_mask t) (ht_bucket_count t) (hash (he_first e))"
    "xs = concat (take i (ht_chains t)) @ take j c"
    "ys = drop (Suc j) c @ concat (drop (Suc i) (ht_chains t))"
proof -
  have ok: "chains_ok hash (ht_mask t) (ht_chains t)" using inv by (simp add: ht_inv_def)
  have d: "distinct (map he_first (xs @ e # ys))" using chains_ok_distinct [OF ok] es by simp
  have abs: "ht_abs t (he_first e) = Some (he_second e)"
    unfolding ht_abs_def es using d by (subst chain_map_Some) auto
  obtain i c j where f: "find_entry hash t (he_first e) = Inr (i, c, j)" "i < ht_bucket_count t"
    "c = ht_chains t ! i" "i = place (ht_mask t) (ht_bucket_count t) (hash (he_first e))"
    "j < length c \<longleftrightarrow> ht_abs t (he_first e) \<noteq> None"
    "j < length c \<longrightarrow> he_first (c ! j) = he_first e"
    using find_entry_inv [OF inv, of "he_first e"] by metis
  then have j: "j < length c" "he_first (c ! j) = he_first e" using abs by auto
  have whole: "concat (ht_chains t) = concat (take i (ht_chains t)) @ c @ concat (drop (Suc i) (ht_chains t))"
    using id_take_nth_drop [of i "ht_chains t"] f(2,3)
    by (metis concat.simps(2) concat_append length_chains)
  then have mem: "c ! j \<in> set (xs @ e # ys)" using nth_mem [OF j(1)] es by simp
  have e: "c ! j = e"
    using d mem j(2) by (metis distinct_map inj_onD in_set_conv_decomp)
  have c: "c = take j c @ e # drop (Suc j) c" using id_take_nth_drop [OF j(1)] e by simp
  have "xs @ e # ys = (concat (take i (ht_chains t)) @ take j c) @ e #
          (drop (Suc j) c @ concat (drop (Suc i) (ht_chains t)))"
    using whole es c by (metis append.assoc append_Cons)
  moreover have "e \<notin> set xs" "e \<notin> set ys" using d by auto
  ultimately have "xs = concat (take i (ht_chains t)) @ take j c"
    "ys = drop (Suc j) c @ concat (drop (Suc i) (ht_chains t))"
    using append_Cons_eq_iff by metis+
  moreover have "he_hash_code e = hash (he_first e)"
    using chains_okD(2) [OF ok, of i] f(2,3) e nth_mem [OF j(1)] by auto
  ultimately show thesis using that f(1-4) j(1) e by blast
qed

lemma iter_steps:
  assumes inv: "ht_inv hash t" and es: "concat (ht_chains t) = xs @ e # ys"
  shows "iter_next hash t (he_first e) = Inr (first_key ys)"
    and "iter_deref hash t (he_first e) = Inr (he_first e, he_second e)"
proof -
  have l: "ht_layout t" using inv by (simp add: ht_inv_def)
  obtain i c j where f: "find_entry hash t (he_first e) = Inr (i, c, j)" "j < length c" "c ! j = e"
    "he_hash_code e = hash (he_first e)"
    "i = place (ht_mask t) (ht_bucket_count t) (hash (he_first e))"
    "ys = drop (Suc j) c @ concat (drop (Suc i) (ht_chains t))"
    using entry_position [OF assms] by metis
  then have entry: "iter_entry hash t (he_first e) = Inr (e, drop (Suc j) c)"
    by (simp add: iter_entry_def Cons_nth_drop_Suc [symmetric])
  then show "iter_deref hash t (he_first e) = Inr (he_first e, he_second e)"
    by (simp add: iter_deref_def)
  show "iter_next hash t (he_first e) = Inr (first_key ys)"
    using entry f(4-6) iter_first_chains [OF l, of "Suc i"]
    by (cases "drop (Suc j) c") (simp_all add: iter_next_def hash_to_bucket_place first_key_def)
qed

lemma ht_begin_inv: "ht_inv hash t \<Longrightarrow> ht_begin t = Inr (first_key (concat (ht_chains t)))"
  by (simp add: ht_begin_def iter_first_chains ht_inv_def)

definition entry_pair :: "('k, 'v) hash_table_entry \<Rightarrow> 'k \<times> 'v" where
  "entry_pair e = (he_first e, he_second e)"

text \<open>A loop over the iterators of a table is a loop over the list of its entries.\<close>

lemma ht_insert_range_list:
  assumes inv: "ht_inv hash src" and es: "concat (ht_chains src) = xs @ ys" and t: "ht_inv hash t"
  shows "\<exists>u. ht_insert_list hash t (map entry_pair ys) = Inr u \<and> ht_inv hash u \<and>
             ht_abs u = chain_map ys ++ ht_abs t \<and>
             ht_insert_range hash t src (first_key ys) None = Some (Inr u)"
  using es t
proof (induction ys arbitrary: xs t)
  case Nil
  then show ?case by (simp add: first_key_def ht_insert_range.simps)
next
  case (Cons e ys)
  note steps = iter_steps [OF inv Cons.prems(1)]
  obtain a b where a: "ht_insert hash t (he_first e) (he_second e) = Inr (a, b)" "ht_inv hash a"
    "ht_abs a = (if ht_abs t (he_first e) = None then (ht_abs t)(he_first e \<mapsto> he_second e) else ht_abs t)"
    using ht_insert_map [OF Cons.prems(2)] by blast
  obtain u where u: "ht_insert_list hash a (map entry_pair ys) = Inr u" "ht_inv hash u"
    "ht_abs u = chain_map ys ++ ht_abs a" "ht_insert_range hash a src (first_key ys) None = Some (Inr u)"
    using Cons.IH [of "xs @ [e]" a] Cons.prems(1) a(2) by auto
  have "distinct (map he_first (concat (ht_chains src)))"
    using inv chains_ok_distinct by (auto simp: ht_inv_def)
  then have "chain_map ys (he_first e) = None"
    using Cons.prems(1) by (simp add: chain_map_None)
  then have "ht_abs u = chain_map (e # ys) ++ ht_abs t"
    using u(3) a(3) by (auto simp: map_add_def fun_eq_iff split: option.splits)
  moreover have "ht_insert_range hash t src (first_key (e # ys)) None = Some (Inr u)"
    using a(1) u(4) steps by (subst ht_insert_range.simps) (simp add: first_key_def)
  moreover have "ht_insert_list hash t (map entry_pair (e # ys)) = Inr u"
    using a(1) u(1) by (simp add: entry_pair_def)
  ultimately show ?case using u(2) by blast
qed

lemma ht_insert_all_inv:
  assumes "ht_inv hash src" "ht_inv hash t"
  obtains u where "ht_insert_all hash t src = Some (Inr u)" "ht_inv hash u"
    "ht_abs u = ht_abs src ++ ht_abs t"
  using ht_insert_range_list [OF assms(1) append_Nil [symmetric] assms(2)] assms(1)
  by (auto simp: ht_insert_all_def ht_begin_inv ht_abs_def)

lemma ht_erase_pos_list:
  assumes inv: "ht_inv hash t" and es: "concat (ht_chains t) = xs @ e # ys"
  obtains u where "ht_erase_pos hash t (he_first e) = Inr u" "ht_inv hash u"
    "concat (ht_chains u) = xs @ ys"
proof -
  obtain i c j where f: "find_entry hash t (he_first e) = Inr (i, c, j)" "j < length c" "c ! j = e"
    "i < ht_bucket_count t" "c = ht_chains t ! i"
    "i = place (ht_mask t) (ht_bucket_count t) (hash (he_first e))"
    "xs = concat (take i (ht_chains t)) @ take j c"
    "ys = drop (Suc j) c @ concat (drop (Suc i) (ht_chains t))"
    using entry_position [OF assms] by metis
  obtain u where u: "unlink_entry t i c j = Inr u" "ht_inv hash u"
    using unlink_entry_inv [OF inv f(6,5,2)] f(3) by metis
  have l: "ht_layout t" using inv by (simp add: ht_inv_def)
  obtain a where a: "ht_set_bucket t i (take j c @ drop (Suc j) c) = Inr a" "ht_layout a"
    "ht_chains a = (ht_chains t)[i := take j c @ drop (Suc j) c]"
    using ht_set_bucket_chains [OF l f(4)] by blast
  obtain b where "move_bucket (a\<lparr>ht_size := dec_size (ht_size a)\<rparr>) = Inr b" "ht_chains b = ht_chains a"
    using move_bucket_chains [of "a\<lparr>ht_size := dec_size (ht_size a)\<rparr>"] a(2)
    by (metis ht_members(1,4))
  then have "ht_chains u = ht_chains a" using u(1) a(1) by (simp add: unlink_entry_def)
  then have "concat (ht_chains u) = xs @ ys"
    using f(4,7,8) by (simp add: a(3) upd_conv_take_nth_drop)
  with u f(1,2) show thesis by (intro that [of u]) (simp_all add: ht_erase_pos_def)
qed

lemma ht_erase_range_list:
  assumes "ht_inv hash t" "concat (ht_chains t) = xs @ ys @ zs"
  shows "\<exists>u. ht_erase_range hash t (first_key (ys @ zs)) (first_key zs) = Some (Inr u) \<and>
             ht_inv hash u \<and> concat (ht_chains u) = xs @ zs"
  using assms
proof (induction ys arbitrary: t)
  case Nil
  then show ?case by (simp add: ht_erase_range.simps)
next
  case (Cons e ys)
  have next_key: "iter_next hash t (he_first e) = Inr (first_key (ys @ zs))"
    using iter_steps(1) [of hash t xs e "ys @ zs"] Cons.prems by simp
  obtain a where a: "ht_erase_pos hash t (he_first e) = Inr a" "ht_inv hash a"
    "concat (ht_chains a) = xs @ ys @ zs"
    using ht_erase_pos_list [of hash t xs e "ys @ zs"] Cons.prems by auto
  obtain u where u: "ht_erase_range hash a (first_key (ys @ zs)) (first_key zs) = Some (Inr u)"
    "ht_inv hash u" "concat (ht_chains u) = xs @ zs"
    using Cons.IH [OF a(2,3)] by blast
  have "distinct (map he_first (concat (ht_chains t)))"
    using Cons.prems(1) chains_ok_distinct unfolding ht_inv_def by blast
  then have "first_key zs \<noteq> Some (he_first e)"
    using Cons.prems(2) by (auto simp: first_key_def split: list.splits)
  then have "ht_erase_range hash t (first_key ((e # ys) @ zs)) (first_key zs) = Some (Inr u)"
    using next_key a(1) u(1) by (subst ht_erase_range.simps) (auto simp: first_key_def)
  with u(2,3) show ?case by blast
qed


section \<open>The load of a table\<close>

text \<open>With the default load factor and at most \<open>2\<^sup>2\<^sup>2\<close> buckets the comparison is exact.\<close>

lemma too_full_exact:
  assumes "ht_max_load_factor t = 3 / 4" "ht_bucket_count t \<le> 2 ^ 22" "ht_size t < 2 ^ 24"
  shows "too_full t \<longleftrightarrow> 3 * ht_bucket_count t < 4 * ht_size t"
proof -
  let ?n = "ht_bucket_count t"
  have n: "fl32 (of_nat ?n) = of_nat ?n" and s: "fl32 (of_nat (ht_size t)) = of_nat (ht_size t)"
    using assms by (simp_all add: fl32_def round_float_nat)
  have "fl32 (of_int (int (3 * ?n)) * 2 powi - 2) = of_int (int (3 * ?n)) * 2 powi - 2"
    unfolding fl32_def using assms(2) by (intro round_float_exact) simp_all
  then have p: "fl32 (3 / 4 * of_nat ?n) = 3 / 4 * of_nat ?n"
    by (simp add: power_int_minus)
  have "too_full t \<longleftrightarrow> (of_nat (3 * ?n) :: rat) < of_nat (4 * ht_size t)"
    unfolding too_full_def assms(1) n s p by auto
  then show ?thesis unfolding of_nat_less_iff .
qed

definition ht_loaded :: "nat \<Rightarrow> ('k, 'v) hash_table \<Rightarrow> bool" where
  "ht_loaded n t \<longleftrightarrow> ht_max_load_factor t = 3 / 4 \<and> 4 * ht_size t \<le> 3 * ht_bucket_count t \<and>
     ht_bucket_count t \<le> n"

lemma load_step_loaded:
  assumes "ht_loaded n t" "n + 2 \<le> 2 ^ 22" "0 < ht_bucket_count t" "load_step t u"
  shows "ht_loaded (n + 2) u"
  using too_full_exact [of "t\<lparr>ht_size := ht_size t + 1\<rparr>"] assms
  by (auto simp: ht_loaded_def load_step_def split: if_splits)

lemma ht_run_loaded:
  assumes "ht_inv hash t" "ht_loaded n t" "n + 2 * length as \<le> 2 ^ 22" "\<forall>ml. Set_load ml \<notin> set as"
    and "ht_run hash dflt t as = Inr (u, rs)"
  shows "ht_loaded (n + 2 * length as) u"
  using assms
proof (induction as arbitrary: t n rs)
  case (Cons a as)
  have "\<forall>ml. a \<noteq> Set_load ml" using Cons.prems(4) by auto
  then obtain x where x: "ht_exec hash dflt t a = Inr (x, snd (map_exec dflt (ht_abs t) a))"
    "ht_inv hash x" "load_step t x"
    using ht_exec_refines [OF Cons.prems(1), of dflt a] by blast
  have "0 < ht_bucket_count t" using Cons.prems(1) by (simp add: ht_inv_def ht_layout_def)
  with Cons.prems x(3) have "ht_loaded (n + 2) x" by (intro load_step_loaded [of n t]) auto
  with Cons.IH [OF x(2), of "n + 2"] Cons.prems x(1) show ?case
    by (auto simp: prpc_simps split_beta)
qed (simp add: ht_loaded_def)

section \<open>Properties\<close>

lemma ht_run_new:
  assumes "0 < capacity"
  obtains t u where "ht_new capacity = Inr t"
    "ht_run hash dflt t as = Inr (u, snd (map_run dflt Map.empty as))"
    "ht_inv hash u" "ht_abs u = fst (map_run dflt Map.empty as)"
proof -
  obtain t :: "('a, 'b) hash_table" where t: "ht_new capacity = Inr t" "ht_inv hash t"
    "ht_abs t = Map.empty"
    using ht_new_inv [OF assms] by metis
  with ht_run_refines [OF t(2), of dflt as] show thesis using that by auto
qed

text \<open>C17. A hash table whose client does not call \<open>reserve\<close> behaves like a finite map. From a new table of any positive
  capacity, every sequence of insertions, \<open>operator[]\<close>, writes, removals, lookups, clearing and changes of the load
  factor runs without a fault (no failed check in the calls of \<open>reserve\<close> that the insertions make or in \<open>clear\<close>, no
  access to an uninitialized or missing bucket), returns what the map returns, and leaves the entries of the map. A
  call of the public \<open>reserve\<close> is not among these operations: \<open>hash_table_reserve_aborts\<close> below shows what it can do.
\<close>

theorem hash_table_refines_map:
  assumes "0 < capacity"
  shows "\<exists>t u. ht_new capacity = Inr t \<and>
    ht_run hash dflt t as = Inr (u, snd (map_run dflt Map.empty as)) \<and>
    ht_abs u = fst (map_run dflt Map.empty as)"
  by (rule ht_run_new [OF assms, of hash dflt as]) blast

theorem hash_table_refines_map_witness:
  "\<exists>t u. ht_new 1 = Inr t \<and>
     ht_run (\<lambda>k. k) (0 :: nat) t
       [Insert 1 10, Insert 5 20, Insert 1 30, Index 2, Put 2 7, At 2, Erase 5, At 5, Find 1]
     = Inr (u, [R_bool True, R_bool True, R_bool False, R_value 0, R_bool True, R_option (Some 7),
         R_count 1, R_option None, R_iter (Some 1)]) \<and>
     ht_abs u = [(1::nat) \<mapsto> 10, 2 \<mapsto> 7]"
  using hash_table_refines_map [of 1 "\<lambda>k. k" 0
      "[Insert 1 10, Insert 5 20, Insert 1 30, Index 2, Put 2 7, At 2, Erase 5, At 5, Find 1]"]
  by (simp add: fun_upd_twist)

text \<open>Iteration over a hash table is complete and ends. After any sequence of operations, the
  copy constructor, which walks the iterators of its argument, returns a table with the same entries,
  and removing the range from \<open>begin()\<close> to \<open>end()\<close> returns an empty table, however many buckets are
  empty or not yet moved.
\<close>

theorem hash_table_iteration:
  assumes "0 < capacity"
  shows "\<exists>t u w it e. ht_new capacity = Inr t \<and>
    ht_run hash dflt t as = Inr (u, snd (map_run dflt Map.empty as)) \<and>
    ht_copy hash u = Some (Inr w) \<and> ht_abs w = fst (map_run dflt Map.empty as) \<and>
    ht_begin u = Inr it \<and> ht_erase_range hash u it None = Some (Inr e) \<and> ht_abs e = Map.empty"
proof -
  obtain t u where t: "ht_new capacity = Inr t"
    "ht_run hash dflt t as = Inr (u, snd (map_run dflt Map.empty as))"
    and u: "ht_inv hash u" "ht_abs u = fst (map_run dflt Map.empty as)"
    using ht_run_new [OF assms] by metis
  obtain n :: "('a, 'b) hash_table" where n: "ht_new 1 = Inr n" "ht_inv hash n" "ht_abs n = Map.empty"
    using ht_new_inv [of 1 hash] by auto
  obtain w where w: "ht_insert_all hash n u = Some (Inr w)" "ht_abs w = ht_abs u"
    using ht_insert_all_inv [OF u(1) n(2)] n(3) by (metis map_add_empty)
  have all: "concat (ht_chains u) = [] @ concat (ht_chains u) @ []" by simp
  from ht_erase_range_list [OF u(1) all] obtain e where
    e: "ht_erase_range hash u (first_key (concat (ht_chains u))) None = Some (Inr e)"
      "concat (ht_chains e) = []"
    by (auto simp: first_key_def)
  have "ht_abs e = Map.empty" unfolding ht_abs_def e(2) by simp
  then show ?thesis
    using t u w e(1) n(1) ht_begin_inv [OF u(1)] by (simp add: ht_copy_def)
qed

theorem hash_table_iteration_witness:
  "\<exists>t u w it e. ht_new 2 = Inr t \<and>
     ht_run (\<lambda>k. k) (0 :: nat) t [Insert 4 10, Insert 9 20, Erase 4, Insert 3 30]
       = Inr (u, [R_bool True, R_bool True, R_count 1, R_bool True]) \<and>
     ht_copy (\<lambda>k. k) u = Some (Inr w) \<and> ht_abs w = [(9::nat) \<mapsto> 20, 3 \<mapsto> 30] \<and>
     ht_begin u = Inr it \<and> ht_erase_range (\<lambda>k. k) u it None = Some (Inr e) \<and> ht_abs e = Map.empty"
  using hash_table_iteration [of 2 "\<lambda>k. k" 0 "[Insert 4 10, Insert 9 20, Erase 4, Insert 3 30]"]
  by simp

text \<open>\<open>reserve\<close> called by a client can make a later insertion fail. In a table of two entries
  \<open>reserve(5)\<close> starts a move of three buckets; the next insertion moves two of them and uses up the
  five slots, and the one after it calls \<open>reserve\<close> again while one bucket is not yet moved, where
  \<open>SCHECK(_new_begin == 0)\<close> stops the process.
\<close>

theorem hash_table_reserve_aborts:
  "rbind (ht_new 1) (\<lambda>t. rbind (ht_insert_list (\<lambda>k. k) t [(0::nat, ''a''), (1, ''b'')]) (\<lambda>t.
     rbind (ht_reserve t 5) (\<lambda>t. rbind (ht_insert_list (\<lambda>k. k) t [(2, ''c'')]) (\<lambda>t.
     Inr (ht_size t, ht_bucket_count t, ht_new_begin t))))) = Inr (3, 5, 1) \<and>
   rbind (ht_new 1) (\<lambda>t. rbind (ht_insert_list (\<lambda>k. k) t [(0::nat, ''a''), (1, ''b'')]) (\<lambda>t.
     rbind (ht_reserve t 5) (\<lambda>t. ht_insert_list (\<lambda>k. k) t [(2, ''c''), (3, ''d'')])))
   = Inl Check_failed"
  by code_simp

text \<open>The load stays bounded. With the default maximum load factor and fewer than \<open>2\<^sup>2\<^sup>1\<close> operations,
  a table never holds more than three entries for four buckets: two new buckets for each insertion
  into a full table are enough.
\<close>

theorem hash_table_load_bound:
  assumes "0 < capacity" "length as < 2 ^ 21" "\<forall>ml. Set_load ml \<notin> set as"
  shows "\<exists>t u rs. ht_new capacity = Inr t \<and> ht_run hash dflt t as = Inr (u, rs) \<and>
    4 * ht_size u \<le> 3 * ht_bucket_count u"
proof -
  obtain t :: "('a, 'b) hash_table" where t: "ht_new capacity = Inr t" "ht_inv hash t"
    "ht_size t = 0" "ht_bucket_count t = 1" "ht_max_load_factor t = 3 / 4"
    using ht_new_inv [OF assms(1)] by metis
  obtain u rs where u: "ht_run hash dflt t as = Inr (u, rs)"
    using ht_run_refines [OF t(2)] by blast
  have "ht_loaded 1 t" using t by (simp add: ht_loaded_def)
  with u assms have "ht_loaded (1 + 2 * length as) u"
    by (intro ht_run_loaded [OF t(2) _ _ _ u]) auto
  with t(1) u show ?thesis by (auto simp: ht_loaded_def)
qed

theorem hash_table_load_bound_witness:
  "\<exists>t u rs. ht_new 1 = Inr t \<and>
     ht_run (\<lambda>k. k) ''x'' t [Insert (7::nat) ''a'', Insert 8 ''b'', Index 9, Erase 7] = Inr (u, rs) \<and>
     4 * ht_size u \<le> 3 * ht_bucket_count u"
  by (rule hash_table_load_bound) simp_all

end
