(* ===== verification/Table_Archive.thy ===== *)
theory Table_Archive
  imports Serialization Hash_Table
begin

text \<open>
  Serialization of a \<open>HashTable\<close> (\<open>src/rpc/Archive.h\<close>): the number of entries, then the entries in the
  order of the iterators; reading clears the table and inserts entry by entry, and fails on a key
  that is already there.

  A serializer walks the iterators of the table, a loop that is proved to end. Its bytes are those
  of a \<open>std::map\<close> with the same entries, and a table read back from them is the same map, whatever
  the number of buckets on both sides.
\<close>

section \<open>Writing and reading a table\<close>

partial_function (option) serialize_entries ::
  "('k \<Rightarrow> nat) \<Rightarrow> 'k serializer \<Rightarrow> 'v serializer \<Rightarrow> ('k, 'v) hash_table \<Rightarrow> 'k option \<Rightarrow> marchive
    \<Rightarrow> (bool \<times> marchive) res option" where
  "serialize_entries hash sk sv t it ar = (case it of
     None \<Rightarrow> Some (Inr (True, ar))
   | Some k \<Rightarrow>
       (case rbind (iter_deref hash t k) (\<lambda>(k, v). rbind (and_then (sk k ar) (sv v)) (\<lambda>(b, ar).
               if b then rbind (iter_next hash t k) (\<lambda>it. Inr (Some it, ar)) else Inr (None, ar))) of
          Inl e \<Rightarrow> Some (Inl e)
        | Inr (None, ar) \<Rightarrow> Some (Inr (False, ar))
        | Inr (Some it, ar) \<Rightarrow> serialize_entries hash sk sv t it ar))"

definition serialize_hash_table ::
  "('k \<Rightarrow> nat) \<Rightarrow> 'k serializer \<Rightarrow> 'v serializer \<Rightarrow> ('k, 'v) hash_table \<Rightarrow> marchive
    \<Rightarrow> (bool \<times> marchive) res option" where
  "serialize_hash_table hash sk sv m ar = (case serialize_size (ht_size m) ar of
     Inl e \<Rightarrow> Some (Inl e)
   | Inr (False, ar) \<Rightarrow> Some (Inr (False, ar))
   | Inr (True, ar) \<Rightarrow> (case ht_begin m of
         Inl e \<Rightarrow> Some (Inl e)
       | Inr it \<Rightarrow> serialize_entries hash sk sv m it ar))"

fun insert_entries :: "('k \<Rightarrow> nat) \<Rightarrow> 'k deserializer \<Rightarrow> 'v deserializer \<Rightarrow> nat \<Rightarrow> ('k, 'v) hash_table
    \<Rightarrow> ('k, 'v) hash_table deserializer" where
  "insert_entries hash dk dv 0 m ar = Inr (Some m, ar)"
| "insert_entries hash dk dv (Suc n) m ar =
     or_fail (dk ar) (\<lambda>k ar1. or_fail (dv ar1) (\<lambda>v ar2.
       rbind (ht_insert hash m k v) (\<lambda>(m, new).
         if new then insert_entries hash dk dv n m ar2 else Inr (None, ar2))))"

definition deserialize_hash_table :: "('k \<Rightarrow> nat) \<Rightarrow> 'k deserializer \<Rightarrow> 'v deserializer
    \<Rightarrow> ('k, 'v) hash_table \<Rightarrow> ('k, 'v) hash_table deserializer" where
  "deserialize_hash_table hash dk dv m ar =
     or_fail (deserialize_size ar) (\<lambda>n ar1.
       rbind (ht_clear m) (\<lambda>m. insert_entries hash dk dv n m ar1))"

section \<open>The bytes of a table\<close>

definition ht_pairs :: "('k, 'v) hash_table \<Rightarrow> ('k \<times> 'v) list" where
  "ht_pairs t = map entry_pair (concat (ht_chains t))"

lemma map_of_pairs: "map_of (ht_pairs t) = ht_abs t"
proof -
  have "entry_pair = (\<lambda>e :: ('a, 'b) hash_table_entry. (he_first e, he_second e))"
    by (simp add: fun_eq_iff entry_pair_def)
  then show ?thesis by (simp add: ht_pairs_def ht_abs_def chain_map_def)
qed

lemma ht_pairs_inv:
  assumes "ht_inv hash t"
  shows "distinct (map fst (ht_pairs t))" "length (ht_pairs t) = ht_size t"
proof -
  have "map fst (ht_pairs t) = map he_first (concat (ht_chains t))"
    by (simp add: ht_pairs_def entry_pair_def)
  with assms chains_ok_distinct show "distinct (map fst (ht_pairs t))" by (auto simp: ht_inv_def)
  show "length (ht_pairs t) = ht_size t" using assms by (simp add: ht_pairs_def ht_inv_def)
qed

lemma serialize_entries_each:
  assumes inv: "ht_inv hash t" and es: "concat (ht_chains t) = xs @ ys"
  shows "serialize_entries hash sk sv t (first_key ys) ar =
    Some (serialize_each (\<lambda>item ar1. and_then (sk (fst item) ar1) (sv (snd item))) (map entry_pair ys) ar)"
  using es
proof (induction ys arbitrary: xs ar)
  case Nil
  then show ?case by (simp add: first_key_def serialize_entries.simps)
next
  case (Cons e ys)
  note steps = iter_steps [OF inv Cons.prems]
  have IH: "serialize_entries hash sk sv t (first_key ys) a =
    Some (serialize_each (\<lambda>item ar1. and_then (sk (fst item) ar1) (sv (snd item))) (map entry_pair ys) a)" for a
    using Cons.IH [of "xs @ [e]"] Cons.prems by simp
  have "first_key (e # ys) = Some (he_first e)" by (simp add: first_key_def)
  then show ?case
    using steps IH
    by (subst serialize_entries.simps)
       (auto simp: entry_pair_def and_then_def rbind_def split: sum.splits prod.splits if_splits)
qed

text \<open>A table writes what a map with its entries writes.\<close>

lemma serialize_hash_table_map:
  assumes inv: "ht_inv hash t"
  shows "serialize_hash_table hash sk sv t ar = Some (serialize_map sk sv (ht_pairs t) ar)"
proof -
  have "serialize_entries hash sk sv t (first_key (concat (ht_chains t))) a =
    Some (serialize_each (\<lambda>item ar1. and_then (sk (fst item) ar1) (sv (snd item))) (ht_pairs t) a)" for a
    using serialize_entries_each [OF inv, of "[]"] by (simp add: ht_pairs_def)
  then show ?thesis
    using ht_pairs_inv(2) [OF inv] ht_begin_inv [OF inv]
    by (auto simp: serialize_hash_table_def serialize_map_def and_then_def rbind_def
        split: sum.splits prod.splits bool.splits)
qed

lemma insert_entries_reads:
  assumes k: "archivable sk dk ek vk" and v: "archivable sv dv ev vv"
    and m: "list_all (\<lambda>(k, v). vk k \<and> vv v) m" "distinct (map fst m)"
    and t: "ht_inv hash t" "fst ` set m \<inter> dom (ht_abs t) = {}" and ar: "archive_ok ar"
    and bs: "unread ar = map Some (concat (map (\<lambda>(k, v). ek k @ ev v) m)) @ rest"
  shows "\<exists>u. reads (insert_entries hash dk dv (length m) t ar) u rest \<and> ht_inv hash u \<and>
             ht_abs u = ht_abs t ++ map_of m"
  using m t ar bs
proof (induction m arbitrary: t ar)
  case Nil
  then show ?case by (auto simp: reads_def)
next
  case (Cons kv m)
  obtain k v where kv: "kv = (k, v)" by (cases kv) auto
  let ?bs = "\<lambda>m. concat (map (\<lambda>(k, v). ek k @ ev v) m)"
  have "ht_abs t k = None" using Cons.prems(4) kv by auto
  then obtain a where a: "ht_insert hash t k v = Inr (a, True)" "ht_inv hash a"
    "ht_abs a = (ht_abs t)(k \<mapsto> v)"
    using ht_insert_map [OF Cons.prems(3), of k v] by auto
  have dis: "fst ` set m \<inter> dom (ht_abs a) = {}"
    using Cons.prems(2,4) a(3) kv by auto
  have r1: "reads (dk ar) k (map Some (ev v @ ?bs m) @ rest)"
    using Cons.prems kv by (intro archivable.des_reads [OF assms(1)]) auto
  then obtain ar1 where ar1: "dk ar = Inr (Some k, ar1)" "archive_ok ar1"
    "unread ar1 = map Some (ev v @ ?bs m) @ rest" by (auto simp: reads_def)
  have "reads (dv ar1) v (map Some (?bs m) @ rest)"
    using Cons.prems kv ar1 by (intro archivable.des_reads [OF assms(2)]) auto
  then obtain ar2 where ar2: "dv ar1 = Inr (Some v, ar2)" "archive_ok ar2"
    "unread ar2 = map Some (?bs m) @ rest" by (auto simp: reads_def)
  obtain u where u: "reads (insert_entries hash dk dv (length m) a ar2) u rest" "ht_inv hash u"
    "ht_abs u = ht_abs a ++ map_of m"
    using Cons.IH [OF _ _ a(2) dis ar2(2,3)] Cons.prems by auto
  have "map_of m k = None" using Cons.prems(2) kv by (simp add: map_of_eq_None_iff)
  then have "ht_abs u = ht_abs t ++ map_of (kv # m)"
    using u(3) a(3) kv by (auto simp: fun_eq_iff map_add_def split: option.splits)
  moreover have "insert_entries hash dk dv (length (kv # m)) t ar = insert_entries hash dk dv (length m) a ar2"
    by (simp add: ar1(1) ar2(1) a(1) or_fail_def)
  ultimately show ?case using u(1,2) by metis
qed

section \<open>Round trip\<close>

text \<open>A hash table survives serialization. After any operations on the sender's and on the
  receiver's table, writing the first into a new archive succeeds, reading it into the second
  succeeds and uses all bytes, and the second then holds exactly the entries of the first. The
  bytes are those of a \<open>std::map\<close> with the same entries. The key and value overloads are any pair
  that meets the contract of an archivable type.
\<close>

theorem hash_table_archive_round_trip:
  assumes k: "archivable sk dk ek vk" and v: "archivable sv dv ev vv"
    and caps: "0 < c1" "0 < c2"
    and valid: "\<forall>k v. fst (map_run d Map.empty as) k = Some v \<longrightarrow> vk k \<and> vv v"
    and small: "card (dom (fst (map_run d Map.empty as))) < 2 ^ 64"
  shows "\<exists>t src rs t' dst rs' ar1 u ar2. ht_new c1 = Inr t \<and> ht_run hash d t as = Inr (src, rs) \<and>
    ht_new c2 = Inr t' \<and> ht_run hash d t' bs = Inr (dst, rs') \<and>
    serialize_hash_table hash sk sv src (archive_new msg) = Some (Inr (True, ar1)) \<and>
    deserialize_hash_table hash dk dv dst ar1 = Inr (Some u, ar2) \<and> is_exhausted ar2 \<and>
    ht_abs u = fst (map_run d Map.empty as) \<and>
    (\<exists>m. map_of m = fst (map_run d Map.empty as) \<and>
         serialize_map sk sv m (archive_new msg) = Inr (True, ar1))"
proof -
  obtain t src where src: "ht_new c1 = Inr t"
    "ht_run hash d t as = Inr (src, snd (map_run d Map.empty as))"
    "ht_inv hash src" "ht_abs src = fst (map_run d Map.empty as)"
    using ht_run_new [OF caps(1)] by metis
  obtain t' dst where dst: "ht_new c2 = Inr t'"
    "ht_run hash d t' bs = Inr (dst, snd (map_run d Map.empty bs))" "ht_inv hash dst"
    using ht_run_new [OF caps(2)] by metis
  let ?m = "ht_pairs src"
  note p = ht_pairs_inv [OF src(3)]
  have abs: "map_of ?m = fst (map_run d Map.empty as)" using src(4) map_of_pairs by metis
  then have all: "list_all (\<lambda>(k, v). vk k \<and> vv v) ?m"
    using valid map_of_is_SomeI [OF p(1)] unfolding list_all_iff by fastforce
  have len: "length ?m < 2 ^ 64"
    using small ht_size_card [OF src(3)] src(4) p(2) by simp
  have w: "writes (serialize_map sk sv ?m (archive_new msg)) (archive_new msg)
      (enc_vector (\<lambda>(k, v). ek k @ ev v) ?m)"
    using archivable.ser_writes [OF archivable_map [OF k v] archive_new_ok(1,2)] p(1) all len
    by (simp add: valid_vector_def)
  then obtain ar1 where ar1: "serialize_map sk sv ?m (archive_new msg) = Inr (True, ar1)"
    "archive_ok ar1" "unread ar1 = map Some (enc_vector (\<lambda>(k, v). ek k @ ev v) ?m) @ []"
    by (auto simp: writes_def archive_new_ok)
  obtain e where e: "ht_clear dst = Inr e" "ht_inv hash e" "ht_abs e = Map.empty"
    using ht_clear_inv [OF dst(3)] by metis
  have body: "reads (deserialize_size ar1) (length ?m)
      (map Some (concat (map (\<lambda>(k, v). ek k @ ev v) ?m)))"
    using ar1(2,3) len by (intro size_ar.des_reads) (simp_all add: enc_vector_def)
  then obtain ar where ar: "deserialize_size ar1 = Inr (Some (length ?m), ar)" "archive_ok ar"
    "unread ar = map Some (concat (map (\<lambda>(k, v). ek k @ ev v) ?m)) @ []"
    by (auto simp: reads_def)
  obtain u where u: "reads (insert_entries hash dk dv (length ?m) e ar) u []"
    "ht_abs u = map_of ?m"
    using insert_entries_reads [OF k v all p(1) e(2) _ ar(2,3)] e(3) by auto
  then obtain ar2 where "deserialize_hash_table hash dk dv dst ar1 = Inr (Some u, ar2)"
    "is_exhausted ar2"
    using ar(1) e(1) by (auto simp: deserialize_hash_table_def or_fail_def reads_def is_exhausted_def
      unread_def archive_ok_def capacity_def)
  moreover have "serialize_hash_table hash sk sv src (archive_new msg) = Some (Inr (True, ar1))"
    using serialize_hash_table_map [OF src(3), of sk sv "archive_new msg"] ar1(1) by simp
  moreover have "ht_abs u = fst (map_run d Map.empty as)" using u(2) abs by simp
  ultimately show ?thesis using src(1,2) dst(1,2) ar1(1) abs by blast
qed

theorem hash_table_archive_round_trip_witness:
  "\<exists>t src rs t' dst rs' ar1 u ar2. ht_new 1 = Inr t \<and>
     ht_run unat 0 t [Insert (5 :: 64 word) (6 :: 64 word), Insert 9 7, Insert 5 8] = Inr (src, rs) \<and>
     ht_new 4 = Inr t' \<and> ht_run unat 0 t' [Insert 1 1] = Inr (dst, rs') \<and>
     serialize_hash_table unat serialize_word serialize_word src (archive_new True)
       = Some (Inr (True, ar1)) \<and>
     deserialize_hash_table unat deserialize_word deserialize_word dst ar1 = Inr (Some u, ar2) \<and>
     is_exhausted ar2 \<and> ht_abs u = [5 \<mapsto> 6, (9 :: 64 word) \<mapsto> (7 :: 64 word)] \<and>
     (\<exists>m. map_of m = [5 \<mapsto> 6, (9 :: 64 word) \<mapsto> (7 :: 64 word)] \<and>
          serialize_map serialize_word serialize_word m (archive_new True) = Inr (True, ar1))"
  using hash_table_archive_round_trip [OF u64_ar.archivable_axioms u64_ar.archivable_axioms,
      of 1 4 0 "[Insert 5 6, Insert 9 7, Insert 5 8]" unat "[Insert 1 1]" True]
  by simp

end
