(* ===== verification/Pool_Hash_Table.thy ===== *)
theory Pool_Hash_Table
  imports Prpc_Prelude Float_Round
begin

text \<open>
  The hash table of \<open>misc/PoolHashTable.h\<close>, which keeps all nodes in one block of memory.

  \<^item> Memory is a list of nodes; an offset of the C++ code is the index of a node times the node size,
    and offset 0 is a sentinel. The word \<open>next\<close> of a node is a link with the tag in its two low bits
    (\<open>pool_node_word\<close>); tag and link are two fields here. The word \<open>prev\<close> of a node overlaps
    its item, so a node has one \<open>cell\<close> which is a back link, an item, or memory that holds neither.
  \<^item> Empty nodes form a circular doubly linked list through the sentinel. The node at the hash position
    of a key is the head of the chain of all items with that position; the other nodes of
    a chain are taken from the free list. An item that occupies the position of a new chain but
    belongs to another one is moved away.
  \<^item> Reading an item or a back link from a cell that does not hold one is a fault, as is leaving the
    memory. A loop over links runs on fuel, one more than the number of nodes; \<open>Forever\<close> is the result
    when it runs out.
  \<^item> Hash function, key type and value type are parameters; \<open>pt_trivial\<close> says whether items are moved
    as bytes. \<open>double\<close> arithmetic is \<open>fl64\<close> after each operation. Memory is assumed to be available,
    and offsets to be below \<open>2\<^sup>6\<^sup>3\<close>.

  The invariant describes the memory by the free list, the chains and a set of nodes that
  a rehash has still to place.
\<close>

unbundle bit_operations_syntax

section \<open>Results\<close>

datatype pool_error = Fault fault | Forever

type_synonym 'a pool = "pool_error + 'a"

definition pbind :: "'a pool \<Rightarrow> ('a \<Rightarrow> 'b pool) \<Rightarrow> 'b pool" where
  "pbind m f = (case m of Inl e \<Rightarrow> Inl e | Inr x \<Rightarrow> f x)"

definition pcheck :: "bool \<Rightarrow> unit pool" where
  "pcheck b = (if b then Inr () else Inl (Fault Check_failed))"

section \<open>Nodes and memory\<close>

datatype pool_tag = EMPTY | PROBE | HEAD | REHASH

datatype 'i pool_cell = Prev nat | Item 'i | Raw

record 'i pool_node =
  pn_tag :: pool_tag
  pn_next :: nat
  pn_cell :: "'i pool_cell"

text \<open>The word that holds tag and link, for nodes of \<open>ns\<close> bytes.\<close>

fun tag_code :: "pool_tag \<Rightarrow> nat" where
  "tag_code EMPTY = 0"
| "tag_code PROBE = 1"
| "tag_code HEAD = 2"
| "tag_code REHASH = 3"

definition pool_node_word :: "nat \<Rightarrow> 'i pool_node \<Rightarrow> nat" where
  "pool_node_word ns n = (pn_next n * ns) OR tag_code (pn_tag n)"

definition is_empty :: "'i pool_node \<Rightarrow> bool" where
  "is_empty n \<longleftrightarrow> pn_tag n = EMPTY"

definition is_rehashing :: "'i pool_node \<Rightarrow> bool" where
  "is_rehashing n \<longleftrightarrow> pn_tag n = REHASH"

definition is_head :: "'i pool_node \<Rightarrow> bool" where
  "is_head n \<longleftrightarrow> pn_tag n = HEAD"

text \<open>Memory from \<open>mmap\<close> is zero.\<close>

definition zero_node :: "'i pool_node" where
  "zero_node = \<lparr>pn_tag = EMPTY, pn_next = 0, pn_cell = Prev 0\<rparr>"

record ('k, 'v) pool_table =
  pt_mem :: "('k \<times> 'v) pool_node list"
  pt_mask :: nat
  pt_num_nodes :: nat
  pt_node_size :: nat
  pt_max_load_factor :: rat
  pt_num_items :: nat
  pt_max_num_items :: nat
  pt_trivial :: bool

definition get_node :: "('k, 'v) pool_table \<Rightarrow> nat \<Rightarrow> ('k \<times> 'v) pool_node pool" where
  "get_node t i = (if i < length (pt_mem t) then Inr (pt_mem t ! i) else Inl (Fault Out_of_bounds))"

definition set_node ::
  "('k, 'v) pool_table \<Rightarrow> nat \<Rightarrow> ('k \<times> 'v) pool_node \<Rightarrow> ('k, 'v) pool_table pool" where
  "set_node t i n = (if i < length (pt_mem t) then Inr (t\<lparr>pt_mem := (pt_mem t)[i := n]\<rparr>)
                     else Inl (Fault Out_of_bounds))"

definition upd_node :: "('k, 'v) pool_table \<Rightarrow> nat
    \<Rightarrow> (('k \<times> 'v) pool_node \<Rightarrow> ('k \<times> 'v) pool_node) \<Rightarrow> ('k, 'v) pool_table pool" where
  "upd_node t i f = pbind (get_node t i) (\<lambda>n. set_node t i (f n))"

text \<open>\<open>node->next = tag\<close>, \<open>node->next = offset\<close> (a link of an empty node), \<open>set_next\<close>, \<open>node->prev = p\<close>.\<close>

definition put_tag :: "pool_tag \<Rightarrow> 'i pool_node \<Rightarrow> 'i pool_node" where
  "put_tag g n = n\<lparr>pn_tag := g, pn_next := 0\<rparr>"

definition put_free :: "nat \<Rightarrow> 'i pool_node \<Rightarrow> 'i pool_node" where
  "put_free i n = n\<lparr>pn_tag := EMPTY, pn_next := i\<rparr>"

definition set_next :: "nat \<Rightarrow> 'i pool_node \<Rightarrow> 'i pool_node" where
  "set_next i n = n\<lparr>pn_next := i\<rparr>"

definition put_cell :: "'i pool_cell \<Rightarrow> 'i pool_node \<Rightarrow> 'i pool_node" where
  "put_cell c n = n\<lparr>pn_cell := c\<rparr>"

definition cell_prev :: "'i pool_cell \<Rightarrow> nat pool" where
  "cell_prev c = (case c of Prev p \<Rightarrow> Inr p | _ \<Rightarrow> Inl (Fault Out_of_bounds))"

definition cell_item :: "'i pool_cell \<Rightarrow> 'i pool" where
  "cell_item c = (case c of Item x \<Rightarrow> Inr x | _ \<Rightarrow> Inl (Fault Out_of_bounds))"

definition get_next :: "('k, 'v) pool_table \<Rightarrow> nat \<Rightarrow> nat pool" where
  "get_next t i = pbind (get_node t i) (\<lambda>n. Inr (pn_next n))"

definition get_prev :: "('k, 'v) pool_table \<Rightarrow> nat \<Rightarrow> nat pool" where
  "get_prev t i = pbind (get_node t i) (\<lambda>n. cell_prev (pn_cell n))"

definition get_item :: "('k, 'v) pool_table \<Rightarrow> nat \<Rightarrow> ('k \<times> 'v) pool" where
  "get_item t i = pbind (get_node t i) (\<lambda>n. cell_item (pn_cell n))"

definition get_key :: "('k, 'v) pool_table \<Rightarrow> nat \<Rightarrow> 'k pool" where
  "get_key t i = pbind (get_item t i) (\<lambda>x. Inr (fst x))"

text \<open>\<open>destruct\<close> and \<open>move_from\<close>: a trivial item is copied as bytes, any other leaves its place raw.\<close>

definition destruct_item :: "('k, 'v) pool_table \<Rightarrow> nat \<Rightarrow> ('k, 'v) pool_table pool" where
  "destruct_item t i = pbind (get_item t i) (\<lambda>_. upd_node t i (put_cell Raw))"

definition move_cell :: "bool \<Rightarrow> 'i pool_cell \<Rightarrow> ('i pool_cell \<times> 'i pool_cell) pool" where
  "move_cell trivial c = (if trivial then Inr (c, c) else pbind (cell_item c) (\<lambda>x. Inr (Item x, Raw)))"

definition move_item :: "('k, 'v) pool_table \<Rightarrow> nat \<Rightarrow> nat \<Rightarrow> ('k, 'v) pool_table pool" where
  "move_item t dst src = pbind (get_node t src) (\<lambda>n.
     pbind (move_cell (pt_trivial t) (pn_cell n)) (\<lambda>(d, s).
     pbind (upd_node t src (put_cell s)) (\<lambda>t. upd_node t dst (put_cell d))))"

text \<open>Exchange of two items through a temporary.\<close>

definition swap_items :: "('k, 'v) pool_table \<Rightarrow> nat \<Rightarrow> nat \<Rightarrow> ('k, 'v) pool_table pool" where
  "swap_items t a b = pbind (get_node t a) (\<lambda>n.
     pbind (move_cell (pt_trivial t) (pn_cell n)) (\<lambda>(temp, s).
     pbind (upd_node t a (put_cell s)) (\<lambda>t.
     pbind (move_item t a b) (\<lambda>t.
     pbind (move_cell (pt_trivial t) temp) (\<lambda>(d, _). upd_node t b (put_cell d))))))"

section \<open>Hash positions\<close>

function mask_bits :: "nat \<Rightarrow> nat \<Rightarrow> nat" where
  "mask_bits n num = (if 2 ^ (n + 1) \<le> num then mask_bits (n + 1) num else n)"
  by pat_completeness auto

termination
proof (relation "measure (\<lambda>(n, num). num - n)", simp, clarsimp)
  fix n num :: nat
  assume "2 * 2 ^ n \<le> num"
  then have "2 ^ n \<le> num" by simp
  then show "num - Suc n < num - n" using less_exp [of n] by linarith
qed

declare mask_bits.simps [simp del]

text \<open>
  Memory for \<open>n\<close> nodes and the sentinel. What \<open>mremap\<close> adds is zero. Nodes that are cut off when the table shrinks
  are empty; whether the rest of a page keeps them makes no difference to the operations, which write
  both links of an empty node before they read them.
\<close>

definition set_space :: "('k, 'v) pool_table \<Rightarrow> nat \<Rightarrow> ('k, 'v) pool_table pool" where
  "set_space t n = (let
       t = t\<lparr>pt_mem := take (n + 1) (pt_mem t) @ replicate (n + 1 - length (pt_mem t)) zero_node,
             pt_num_nodes := n, pt_mask := 2 ^ mask_bits 0 n - 1\<rparr>
     in pbind (pcheck (1 \<le> n)) (\<lambda>_. Inr t))"

definition expand_space :: "('k, 'v) pool_table \<Rightarrow> nat" where
  "expand_space t = (let n = pt_num_nodes t; m = pt_mask t;
       ratio = fl64 (fl64 (of_nat n) / fl64 (of_nat m))
     in if m \<noteq> 0 \<and> fl64 (14 / 10) < ratio \<and> ratio < fl64 (18 / 10) then (m + 1) * 2
        else max (nat \<lfloor>fl64 (fl64 (of_nat n) * (45 / 32))\<rfloor>) (n + 1))"

definition get_hash_head :: "('k \<Rightarrow> nat) \<Rightarrow> ('k, 'v) pool_table \<Rightarrow> 'k \<Rightarrow> nat" where
  "get_hash_head hash t k = (hash k AND pt_mask t) + 1"

definition probe_offset :: "('k, 'v) pool_table \<Rightarrow> nat \<Rightarrow> nat" where
  "probe_offset t i = (if i < pt_num_nodes t then i + 1 else 0)"

text \<open>The offsets that \<open>probe_offset\<close> runs through from 0, and a loop over them.\<close>

definition offsets :: "('k, 'v) pool_table \<Rightarrow> nat list" where
  "offsets t = [1..<Suc (pt_num_nodes t)]"

fun for_each :: "(nat \<Rightarrow> 's \<Rightarrow> 's pool) \<Rightarrow> nat list \<Rightarrow> 's \<Rightarrow> 's pool" where
  "for_each f [] t = Inr t"
| "for_each f (i # is) t = pbind (f i t) (for_each f is)"

section \<open>The free list\<close>

text \<open>\<open>++_num_items\<close> and \<open>--_num_items\<close> on \<open>size_t\<close>.\<close>

definition inc_items :: "nat \<Rightarrow> nat" where
  "inc_items n = (n + 1) mod 2 ^ 64"

definition dec_items :: "nat \<Rightarrow> nat" where
  "dec_items n = (if n = 0 then 2 ^ 64 - 1 else n - 1)"

definition allocate_node :: "('k, 'v) pool_table \<Rightarrow> nat \<Rightarrow> ('k, 'v) pool_table pool" where
  "allocate_node t i = (let t = t\<lparr>pt_num_items := inc_items (pt_num_items t)\<rparr> in
     pbind (get_next t i) (\<lambda>nx. pbind (get_prev t i) (\<lambda>pv.
     pbind (upd_node t nx (put_cell (Prev pv))) (\<lambda>t.
     pbind (get_node t i) (\<lambda>n. pbind (get_prev t i) (\<lambda>pv.
     pbind (upd_node t pv (\<lambda>p. p\<lparr>pn_tag := pn_tag n, pn_next := pn_next n\<rparr>)) (\<lambda>t.
     upd_node t i (put_tag PROBE))))))))"

definition deallocate_node :: "('k, 'v) pool_table \<Rightarrow> nat \<Rightarrow> ('k, 'v) pool_table pool" where
  "deallocate_node t i = (let t = t\<lparr>pt_num_items := dec_items (pt_num_items t)\<rparr> in
     pbind (get_prev t 0) (\<lambda>pv.
     pbind (upd_node t i (put_free 0)) (\<lambda>t.
     pbind (upd_node t i (put_cell (Prev pv))) (\<lambda>t.
     pbind (upd_node t 0 (put_cell (Prev i))) (\<lambda>t.
     upd_node t pv (put_free i))))))"

definition reset_sentinel :: "('k, 'v) pool_table \<Rightarrow> ('k, 'v) pool_table pool" where
  "reset_sentinel t = upd_node t 0 (\<lambda>n. put_cell (Prev 0) (put_free 0 n))"

definition initialize_nodes :: "('k, 'v) pool_table \<Rightarrow> ('k, 'v) pool_table pool" where
  "initialize_nodes t =
     pbind (reset_sentinel (t\<lparr>pt_num_items := pt_num_nodes t\<rparr>)) (\<lambda>t.
     for_each (\<lambda>i t. deallocate_node t i) (offsets t) t)"

text \<open>
  The loop of \<open>probe_node\<close>. The difference \<open>offset - probe\<close> of unsigned offsets wraps as soon as
  \<open>probe\<close> is the larger one, and is then far above \<open>PROBE_LEN\<close>.
\<close>

function probe_loop :: "(('k \<times> 'v) pool_node \<Rightarrow> bool) \<Rightarrow> ('k, 'v) pool_table \<Rightarrow> nat \<Rightarrow> nat \<Rightarrow> nat pool" where
  "probe_loop good t offset probe =
     (if probe \<noteq> 0 \<and> \<not> offset < probe \<and> (offset - probe) * pt_node_size t < 128
      then pbind (get_node t probe) (\<lambda>n.
             if good n then Inr probe else probe_loop good t offset (probe_offset t probe))
      else get_prev t 0)"
  by pat_completeness auto

termination
  by (relation "measure (\<lambda>(good, t, offset, probe). if probe = 0 then 0 else Suc (Suc offset - probe))")
     (auto simp: probe_offset_def)

declare probe_loop.simps [simp del]

definition probe_node :: "('k, 'v) pool_table \<Rightarrow> nat \<Rightarrow> nat pool" where
  "probe_node t probe = probe_loop is_empty t probe probe"

definition probe_node_rehash :: "('k, 'v) pool_table \<Rightarrow> nat \<Rightarrow> nat pool" where
  "probe_node_rehash t probe = probe_loop (\<lambda>n. is_empty n \<or> is_rehashing n) t probe probe"

section \<open>Chains\<close>

definition pt_fuel :: "('k, 'v) pool_table \<Rightarrow> nat" where
  "pt_fuel t = Suc (pt_num_nodes t)"

fun find_loop :: "nat \<Rightarrow> ('k, 'v) pool_table \<Rightarrow> 'k \<Rightarrow> nat \<Rightarrow> nat pool" where
  "find_loop 0 t k i = Inl Forever"
| "find_loop (Suc n) t k i = pbind (get_key t i) (\<lambda>k'.
     if k' = k then Inr i
     else pbind (get_next t i) (\<lambda>i. if i = 0 then Inr 0 else find_loop n t k i))"

definition inner_find :: "('k \<Rightarrow> nat) \<Rightarrow> ('k, 'v) pool_table \<Rightarrow> 'k \<Rightarrow> nat pool" where
  "inner_find hash t k = (let i = get_hash_head hash t k in
     pbind (get_node t i) (\<lambda>n. if is_empty n then Inr 0 else find_loop (pt_fuel t) t k i))"

fun chain_tail :: "nat \<Rightarrow> ('k, 'v) pool_table \<Rightarrow> nat \<Rightarrow> nat pool" where
  "chain_tail 0 t i = Inl Forever"
| "chain_tail (Suc n) t i = pbind (get_next t i) (\<lambda>j. if j = 0 then Inr i else chain_tail n t j)"

text \<open>The same loop, which also collects the nodes in \<open>_temp\<close>.\<close>

fun chain_nodes :: "nat \<Rightarrow> ('k, 'v) pool_table \<Rightarrow> nat \<Rightarrow> nat list pool" where
  "chain_nodes 0 t i = Inl Forever"
| "chain_nodes (Suc n) t i = pbind (get_next t i) (\<lambda>j.
     if j = 0 then Inr [i] else pbind (chain_nodes n t j) (\<lambda>is. Inr (i # is)))"

fun find_node_before :: "nat \<Rightarrow> ('k, 'v) pool_table \<Rightarrow> nat \<Rightarrow> nat \<Rightarrow> nat pool" where
  "find_node_before 0 t i target = Inl Forever"
| "find_node_before (Suc n) t i target = pbind (get_next t i) (\<lambda>j.
     if j = target then Inr i else find_node_before n t j target)"

text \<open>Items move one node further along \<open>_temp\<close>, the last one to \<open>probe\<close>.\<close>

fun shift_items :: "('k, 'v) pool_table \<Rightarrow> nat \<Rightarrow> nat list \<Rightarrow> ('k, 'v) pool_table pool" where
  "shift_items t probe [] = Inr t"
| "shift_items t probe (i # is) = pbind (move_item t probe i) (\<lambda>t. shift_items t i is)"

definition inner_allocate_not_exist_no_rehash ::
  "('k \<Rightarrow> nat) \<Rightarrow> ('k, 'v) pool_table \<Rightarrow> 'k \<Rightarrow> (('k, 'v) pool_table \<times> nat) pool" where
  "inner_allocate_not_exist_no_rehash hash t k = (let head = get_hash_head hash t k in
     pbind (get_node t head) (\<lambda>node.
     if is_empty node then
       pbind (allocate_node t head) (\<lambda>t.
       pbind (upd_node t head (put_tag HEAD)) (\<lambda>t. Inr (t, head)))
     else if is_head node then
       pbind (chain_tail (pt_fuel t) t head) (\<lambda>prev.
       pbind (probe_node t prev) (\<lambda>probe.
       pbind (allocate_node t probe) (\<lambda>t.
       pbind (upd_node t prev (set_next probe)) (\<lambda>t. Inr (t, probe)))))
     else
       pbind (get_key t head) (\<lambda>k'. let exchange = get_hash_head hash t k' in
       pbind (chain_nodes (pt_fuel t) t head) (\<lambda>temp. let prev = last temp in
       pbind (probe_node t prev) (\<lambda>probe.
       pbind (allocate_node t probe) (\<lambda>t.
       pbind (upd_node t prev (set_next probe)) (\<lambda>t.
       pbind (shift_items t probe (rev temp)) (\<lambda>t.
       pbind (find_node_before (pt_fuel t) t exchange head) (\<lambda>exchange.
       pbind (get_next t head) (\<lambda>nx.
       pbind (upd_node t exchange (set_next nx)) (\<lambda>t.
       pbind (upd_node t head (put_tag HEAD)) (\<lambda>t. Inr (t, head)))))))))))))"

section \<open>Sizes and rehashing\<close>

definition set_max_load_factor :: "('k, 'v) pool_table \<Rightarrow> rat \<Rightarrow> ('k, 'v) pool_table" where
  "set_max_load_factor t factor = (let
       factor = (if factor < fl64 (1 / 10) then fl64 (1 / 10) else factor);
       ml = min 1 factor;
       n = pt_num_nodes t
     in t\<lparr>pt_max_load_factor := ml,
          pt_max_num_items := min n (nat \<lfloor>fl64 (ml * fl64 (of_nat n))\<rfloor>)\<rparr>)"

text \<open>\<open>while (num_buckets * _max_load_factor < n) ++num_buckets\<close>.\<close>

fun grow_buckets :: "nat \<Rightarrow> rat \<Rightarrow> nat \<Rightarrow> nat \<Rightarrow> nat pool" where
  "grow_buckets 0 ml n b = Inl Forever"
| "grow_buckets (Suc f) ml n b =
     (if fl64 (fl64 (of_nat b) * ml) < fl64 (of_nat n) then grow_buckets f ml n (b + 1) else Inr b)"

definition grow_fuel :: "nat \<Rightarrow> nat" where
  "grow_fuel n = 10 * n + 2"

definition buckets_for :: "rat \<Rightarrow> nat \<Rightarrow> nat" where
  "buckets_for ml n = nat \<lfloor>fl64 (fl64 (of_nat n) / ml)\<rfloor>"

text \<open>First pass of \<open>inner_remap_rehash\<close>: all empty nodes into the free list, the others marked.\<close>

definition mark_node :: "nat \<Rightarrow> ('k, 'v) pool_table \<Rightarrow> ('k, 'v) pool_table pool" where
  "mark_node i t = pbind (get_node t i) (\<lambda>n.
     if is_empty n
     then pbind (deallocate_node t i) (\<lambda>t. Inr (t\<lparr>pt_num_items := inc_items (pt_num_items t)\<rparr>))
     else upd_node t i (\<lambda>n. n\<lparr>pn_tag := REHASH\<rparr>))"

text \<open>
  Second pass: every item whose hash position is not yet a head goes there; an item found at that
  place comes back in exchange and is treated next.
\<close>

fun place_heads :: "nat \<Rightarrow> ('k \<Rightarrow> nat) \<Rightarrow> nat \<Rightarrow> ('k, 'v) pool_table \<Rightarrow> ('k, 'v) pool_table pool" where
  "place_heads 0 hash i t = Inl Forever"
| "place_heads (Suc f) hash i t =
     (if i = 0 then Inr t
      else pbind (get_node t i) (\<lambda>n.
        if is_rehashing n then
          pbind (get_key t i) (\<lambda>k. let probe = get_hash_head hash t k in
          pbind (get_node t probe) (\<lambda>p.
          if is_rehashing p then
            pbind (upd_node t probe (put_tag HEAD)) (\<lambda>t.
            if probe \<noteq> i then pbind (swap_items t probe i) (\<lambda>t. place_heads f hash i t)
            else place_heads f hash (probe_offset t i) t)
          else if is_empty p then
            pbind (allocate_node t probe) (\<lambda>t.
            pbind (upd_node t probe (put_tag HEAD)) (\<lambda>t.
            pbind (move_item t probe i) (\<lambda>t.
            pbind (deallocate_node t i) (\<lambda>t. place_heads f hash (probe_offset t i) t))))
          else place_heads f hash (probe_offset t i) t))
        else place_heads f hash (probe_offset t i) t))"

text \<open>Third pass: the remaining items are appended to the chain of their head.\<close>

fun place_rest :: "nat \<Rightarrow> ('k \<Rightarrow> nat) \<Rightarrow> nat \<Rightarrow> ('k, 'v) pool_table \<Rightarrow> ('k, 'v) pool_table pool" where
  "place_rest 0 hash i t = Inl Forever"
| "place_rest (Suc f) hash i t =
     (if i = 0 then Inr t
      else pbind (get_node t i) (\<lambda>n.
        if is_rehashing n then
          pbind (get_key t i) (\<lambda>k.
          pbind (chain_tail (pt_fuel t) t (get_hash_head hash t k)) (\<lambda>prev.
          pbind (probe_node_rehash t prev) (\<lambda>probe.
          pbind (get_node t probe) (\<lambda>p.
          if is_rehashing p then
            pbind (upd_node t probe (put_tag PROBE)) (\<lambda>t.
            pbind (upd_node t prev (set_next probe)) (\<lambda>t.
            if probe \<noteq> i then pbind (swap_items t probe i) (\<lambda>t. place_rest f hash i t)
            else place_rest f hash (probe_offset t i) t))
          else
            pbind (allocate_node t probe) (\<lambda>t.
            pbind (upd_node t prev (set_next probe)) (\<lambda>t.
            pbind (move_item t probe i) (\<lambda>t.
            pbind (deallocate_node t i) (\<lambda>t. place_rest f hash (probe_offset t i) t))))))))
        else place_rest f hash (probe_offset t i) t))"

definition pass_fuel :: "('k, 'v) pool_table \<Rightarrow> nat" where
  "pass_fuel t = 2 * pt_num_nodes t + 2"

definition inner_remap_rehash ::
  "('k \<Rightarrow> nat) \<Rightarrow> ('k, 'v) pool_table \<Rightarrow> nat \<Rightarrow> ('k, 'v) pool_table pool" where
  "inner_remap_rehash hash t n =
     pbind (pcheck (pt_num_nodes t < n)) (\<lambda>_.
     pbind (set_space t n) (\<lambda>t. let t = set_max_load_factor t (pt_max_load_factor t) in
     pbind (reset_sentinel t) (\<lambda>t.
     pbind (for_each mark_node (offsets t) t) (\<lambda>t.
     pbind (place_heads (pass_fuel t) hash (probe_offset t 0) t) (\<lambda>t.
     place_rest (pass_fuel t) hash (probe_offset t 0) t)))))"

definition pt_clear :: "('k, 'v) pool_table \<Rightarrow> ('k, 'v) pool_table pool" where
  "pt_clear t =
     pbind (for_each (\<lambda>i t. pbind (get_node t i) (\<lambda>n. if is_empty n then Inr t else destruct_item t i))
              (offsets t) t) initialize_nodes"

text \<open>The items in the order of the nodes, as the serializer receives them.\<close>

fun collect_items :: "('k, 'v) pool_table \<Rightarrow> nat list \<Rightarrow> ('k \<times> 'v) list pool" where
  "collect_items t [] = Inr []"
| "collect_items t (i # is) = pbind (get_node t i) (\<lambda>n.
     if is_empty n then collect_items t is
     else pbind (get_item t i) (\<lambda>x. pbind (collect_items t is) (\<lambda>xs. Inr (x # xs))))"

definition put_item :: "('k, 'v) pool_table \<Rightarrow> nat \<Rightarrow> 'k \<times> 'v \<Rightarrow> ('k, 'v) pool_table pool" where
  "put_item t i x = upd_node t i (put_cell (Item x))"

fun insert_items ::
  "('k \<Rightarrow> nat) \<Rightarrow> ('k, 'v) pool_table \<Rightarrow> ('k \<times> 'v) list \<Rightarrow> ('k, 'v) pool_table pool" where
  "insert_items hash t [] = Inr t"
| "insert_items hash t (x # xs) =
     pbind (inner_allocate_not_exist_no_rehash hash t (fst x)) (\<lambda>(t, i).
     pbind (put_item t i x) (\<lambda>t. insert_items hash t xs))"

definition inner_serialize_rehash ::
  "('k \<Rightarrow> nat) \<Rightarrow> ('k, 'v) pool_table \<Rightarrow> nat \<Rightarrow> ('k, 'v) pool_table pool" where
  "inner_serialize_rehash hash t n = (let count = pt_num_items t in
     pbind (collect_items t (offsets t)) (\<lambda>xs.
     pbind (pt_clear t) (\<lambda>t.
     pbind (set_space t n) (\<lambda>t. let t = set_max_load_factor t (pt_max_load_factor t) in
     pbind (initialize_nodes t) (\<lambda>t.
     if count \<le> length xs then insert_items hash t (take count xs)
     else Inl (Fault Out_of_bounds))))))"

definition pt_rehash :: "('k \<Rightarrow> nat) \<Rightarrow> ('k, 'v) pool_table \<Rightarrow> nat \<Rightarrow> ('k, 'v) pool_table pool" where
  "pt_rehash hash t b = (let ml = pt_max_load_factor t; n = pt_num_items t;
       b = max b 1; b = max b (buckets_for ml n)
     in pbind (grow_buckets (grow_fuel n) ml n b) (\<lambda>b.
        if b \<noteq> pt_num_nodes t
        then if pt_num_nodes t < b \<and> pt_trivial t then inner_remap_rehash hash t b
             else inner_serialize_rehash hash t b
        else Inr t))"

definition pt_reserve :: "('k \<Rightarrow> nat) \<Rightarrow> ('k, 'v) pool_table \<Rightarrow> nat \<Rightarrow> ('k, 'v) pool_table pool" where
  "pt_reserve hash t n = (let ml = pt_max_load_factor t in
     if pt_max_num_items t < n
     then pbind (grow_buckets (grow_fuel n) ml n (buckets_for ml n)) (\<lambda>b.
            if pt_num_nodes t < b then pt_rehash hash t (max b (expand_space t)) else Inr t)
     else Inr t)"

section \<open>The table\<close>

text \<open>Node size: the item rounded up to its alignment, and the word of tag and link before it.\<close>

definition pt_new :: "nat \<Rightarrow> nat \<Rightarrow> bool \<Rightarrow> ('k, 'v) pool_table pool" where
  "pt_new item_size item_align trivial = (let
       a = max 8 item_align;
       s = (item_size + a - 1) div a * a;
       t = \<lparr>pt_mem = [], pt_mask = 0, pt_num_nodes = 0, pt_node_size = s + a,
            pt_max_load_factor = 1, pt_num_items = 0, pt_max_num_items = 0, pt_trivial = trivial\<rparr>
     in pbind (set_space t 1) initialize_nodes)"

definition inner_emplace_not_exist ::
  "('k \<Rightarrow> nat) \<Rightarrow> ('k, 'v) pool_table \<Rightarrow> 'k \<times> 'v \<Rightarrow> (('k, 'v) pool_table \<times> nat) pool" where
  "inner_emplace_not_exist hash t x =
     pbind (pt_reserve hash t (pt_num_items t + 1)) (\<lambda>t.
     pbind (inner_allocate_not_exist_no_rehash hash t (fst x)) (\<lambda>(t, i).
     pbind (put_item t i x) (\<lambda>t. Inr (t, i))))"

definition pt_emplace ::
  "('k \<Rightarrow> nat) \<Rightarrow> ('k, 'v) pool_table \<Rightarrow> 'k \<times> 'v \<Rightarrow> (('k, 'v) pool_table \<times> nat \<times> bool) pool" where
  "pt_emplace hash t x = pbind (inner_find hash t (fst x)) (\<lambda>i.
     if i \<noteq> 0 then Inr (t, i, False)
     else pbind (inner_emplace_not_exist hash t x) (\<lambda>(t, i). Inr (t, i, True)))"

definition pt_try_emplace ::
  "('k \<Rightarrow> nat) \<Rightarrow> ('k, 'v) pool_table \<Rightarrow> 'k \<Rightarrow> 'v \<Rightarrow> (('k, 'v) pool_table \<times> nat \<times> bool) pool" where
  "pt_try_emplace hash t k v = pbind (inner_find hash t k) (\<lambda>i.
     if i \<noteq> 0 then Inr (t, i, False)
     else pbind (inner_emplace_not_exist hash t (k, v)) (\<lambda>(t, i). Inr (t, i, True)))"

definition pt_index ::
  "('k \<Rightarrow> nat) \<Rightarrow> 'v \<Rightarrow> ('k, 'v) pool_table \<Rightarrow> 'k \<Rightarrow> (('k, 'v) pool_table \<times> 'v) pool" where
  "pt_index hash dflt t k = pbind (inner_find hash t k) (\<lambda>i.
     if i \<noteq> 0 then pbind (get_item t i) (\<lambda>x. Inr (t, snd x))
     else pbind (inner_emplace_not_exist hash t (k, dflt)) (\<lambda>(t, i).
          pbind (get_item t i) (\<lambda>x. Inr (t, snd x))))"

definition pt_count :: "('k \<Rightarrow> nat) \<Rightarrow> ('k, 'v) pool_table \<Rightarrow> 'k \<Rightarrow> nat pool" where
  "pt_count hash t k = pbind (inner_find hash t k) (\<lambda>i. Inr (if i \<noteq> 0 then 1 else 0))"

definition pt_at :: "('k \<Rightarrow> nat) \<Rightarrow> ('k, 'v) pool_table \<Rightarrow> 'k \<Rightarrow> 'v pool" where
  "pt_at hash t k = pbind (inner_find hash t k) (\<lambda>i.
     pbind (pcheck (i \<noteq> 0)) (\<lambda>_. pbind (get_item t i) (\<lambda>x. Inr (snd x))))"

text \<open>Iterators are offsets, 0 at the end.\<close>

function next_used :: "('k, 'v) pool_table \<Rightarrow> nat \<Rightarrow> nat pool" where
  "next_used t i = (if i = 0 then Inr 0
     else pbind (get_node t i) (\<lambda>n. if is_empty n then next_used t (probe_offset t i) else Inr i))"
  by pat_completeness auto

termination
  by (relation "measure (\<lambda>(t, i). if i = 0 then 0 else Suc (pt_num_nodes t - i))")
     (auto simp: probe_offset_def)

declare next_used.simps [simp del]

definition get_next_offset :: "('k, 'v) pool_table \<Rightarrow> nat \<Rightarrow> nat pool" where
  "get_next_offset t i = next_used t (probe_offset t i)"

definition pt_begin :: "('k, 'v) pool_table \<Rightarrow> nat pool" where
  "pt_begin t = get_next_offset t 0"

definition pt_iter_next :: "('k, 'v) pool_table \<Rightarrow> nat \<Rightarrow> nat pool" where
  "pt_iter_next t i = pbind (pcheck (i \<noteq> 0)) (\<lambda>_. get_next_offset t i)"

definition pt_erase_iter ::
  "('k \<Rightarrow> nat) \<Rightarrow> ('k, 'v) pool_table \<Rightarrow> nat \<Rightarrow> (('k, 'v) pool_table \<times> nat) pool" where
  "pt_erase_iter hash t i =
     pbind (get_node t i) (\<lambda>n. pbind (pcheck (i \<noteq> 0 \<and> \<not> is_empty n)) (\<lambda>_.
     let nx = pn_next n in
     if nx \<noteq> 0 then
       pbind (destruct_item t i) (\<lambda>t.
       pbind (move_item t i nx) (\<lambda>t.
       pbind (get_next t nx) (\<lambda>nn.
       pbind (upd_node t i (set_next nn)) (\<lambda>t.
       pbind (deallocate_node t nx) (\<lambda>t.
       if nx < i then pbind (pt_iter_next t i) (\<lambda>it. Inr (t, it)) else Inr (t, i))))))
     else
       pbind (pt_iter_next t i) (\<lambda>it.
       pbind (get_key t i) (\<lambda>k. let head = get_hash_head hash t k in
       pbind (destruct_item t i) (\<lambda>t.
       pbind (if i \<noteq> head
              then pbind (find_node_before (pt_fuel t) t head i) (\<lambda>prev. upd_node t prev (set_next 0))
              else Inr t) (\<lambda>t.
       pbind (deallocate_node t i) (\<lambda>t. Inr (t, it))))))))"

definition pt_erase_key ::
  "('k \<Rightarrow> nat) \<Rightarrow> ('k, 'v) pool_table \<Rightarrow> 'k \<Rightarrow> (('k, 'v) pool_table \<times> nat) pool" where
  "pt_erase_key hash t k = pbind (inner_find hash t k) (\<lambda>i.
     if i \<noteq> 0 then pbind (pt_erase_iter hash t i) (\<lambda>(t, _). Inr (t, 1)) else Inr (t, 0))"

text \<open>\<open>prioritise\<close> exchanges the item with the one at the head of its chain, even when it is that one.\<close>

fun prioritise_loop ::
  "nat \<Rightarrow> ('k, 'v) pool_table \<Rightarrow> 'k \<Rightarrow> nat \<Rightarrow> nat \<Rightarrow> (('k, 'v) pool_table \<times> nat) pool" where
  "prioritise_loop 0 t k head i = Inl Forever"
| "prioritise_loop (Suc n) t k head i = pbind (get_key t i) (\<lambda>k'.
     if k' = k then pbind (swap_items t i head) (\<lambda>t. Inr (t, head))
     else pbind (get_next t i) (\<lambda>i. if i = 0 then Inr (t, 0) else prioritise_loop n t k head i))"

definition pt_prioritise ::
  "('k \<Rightarrow> nat) \<Rightarrow> ('k, 'v) pool_table \<Rightarrow> 'k \<Rightarrow> (('k, 'v) pool_table \<times> nat) pool" where
  "pt_prioritise hash t k = (let head = get_hash_head hash t k in
     pbind (get_node t head) (\<lambda>n.
       if is_empty n then Inr (t, 0) else prioritise_loop (pt_fuel t) t k head head))"

fun pt_insert_list ::
  "('k \<Rightarrow> nat) \<Rightarrow> ('k, 'v) pool_table \<Rightarrow> ('k \<times> 'v) list \<Rightarrow> ('k, 'v) pool_table pool" where
  "pt_insert_list hash t [] = Inr t"
| "pt_insert_list hash t (x # xs) =
     pbind (pt_emplace hash t x) (\<lambda>(t, _). pt_insert_list hash t xs)"

text \<open>The copy constructor: a space of the same size, then every item in the order of the iterators.\<close>

definition pt_copy :: "('k \<Rightarrow> nat) \<Rightarrow> ('k, 'v) pool_table \<Rightarrow> ('k, 'v) pool_table pool" where
  "pt_copy hash src =
     pbind (set_space (src\<lparr>pt_mem := [], pt_num_items := 0\<rparr>) (pt_num_nodes src)) (\<lambda>t.
     pbind (initialize_nodes t) (\<lambda>t.
     pbind (pt_reserve hash t (pt_num_items src)) (\<lambda>t.
     pbind (collect_items src (offsets src)) (\<lambda>xs. pt_insert_list hash t xs))))"

text \<open>The move constructor: the new table and what is left of the other one.\<close>

definition pt_move :: "('k, 'v) pool_table \<Rightarrow> (('k, 'v) pool_table \<times> ('k, 'v) pool_table) pool" where
  "pt_move src =
     pbind (set_space (src\<lparr>pt_mem := []\<rparr>) 1) (\<lambda>rest.
     pbind (initialize_nodes rest) (\<lambda>rest.
     Inr (src, rest\<lparr>pt_num_items := 0, pt_max_num_items := 0\<rparr>)))"

text \<open>
  Assignment takes its argument by value: the old contents are destroyed, the argument is moved in and what is
  left of it is destroyed.
\<close>

definition pt_assign :: "('k, 'v) pool_table \<Rightarrow> ('k, 'v) pool_table \<Rightarrow> ('k, 'v) pool_table pool" where
  "pt_assign t other = pbind (pt_clear t) (\<lambda>_. pbind (pt_move other) (\<lambda>(new, rest).
     pbind (pt_clear rest) (\<lambda>_. Inr new)))"

definition pt_size :: "('k, 'v) pool_table \<Rightarrow> nat" where
  "pt_size t = pt_num_items t"

definition pt_bucket_count :: "('k, 'v) pool_table \<Rightarrow> nat" where
  "pt_bucket_count t = pt_num_nodes t"

definition pt_empty :: "('k, 'v) pool_table \<Rightarrow> bool" where
  "pt_empty t \<longleftrightarrow> pt_size t = 0"

definition pt_load_factor :: "('k, 'v) pool_table \<Rightarrow> rat" where
  "pt_load_factor t = fl64 (fl64 (of_nat (pt_size t)) / fl64 (of_nat (pt_bucket_count t)))"

end
