(* ===== verification/Pool_Invariant.thy ===== *)
theory Pool_Invariant
  imports Pool_Hash_Table
begin

text \<open>
  The representation of a \<open>PoolHashTable\<close>: the free list is a ring through the sentinel, every node
  is in the free list, in one chain, or waits to be placed by a rehash, and a chain hangs at
  the hash position of its keys. Operations break the invariant for some nodes, work on these and
  put them back; each such step is one lemma. At the end stands the lookup \<open>inner_find\<close>.
\<close>

unbundle bit_operations_syntax

section \<open>Memory\<close>

lemma pbind_simps [simp]: "pbind (Inl e) f = Inl e" "pbind (Inr x) f = f x"
  by (simp_all add: pbind_def)

lemma pcheck_simps [simp]: "pcheck True = Inr ()" "pcheck False = Inl (Fault Check_failed)"
  by (simp_all add: pcheck_def)

abbreviation nd :: "('k, 'v) pool_table \<Rightarrow> nat \<Rightarrow> ('k \<times> 'v) pool_node" where
  "nd t i \<equiv> pt_mem t ! i"

abbreviation tag_at :: "('k, 'v) pool_table \<Rightarrow> nat \<Rightarrow> pool_tag" where
  "tag_at t i \<equiv> pn_tag (nd t i)"

abbreviation next_at :: "('k, 'v) pool_table \<Rightarrow> nat \<Rightarrow> nat" where
  "next_at t i \<equiv> pn_next (nd t i)"

abbreviation cell_at :: "('k, 'v) pool_table \<Rightarrow> nat \<Rightarrow> ('k \<times> 'v) pool_cell" where
  "cell_at t i \<equiv> pn_cell (nd t i)"

definition mem_upd :: "('k, 'v) pool_table \<Rightarrow> nat
    \<Rightarrow> (('k \<times> 'v) pool_node \<Rightarrow> ('k \<times> 'v) pool_node) \<Rightarrow> ('k, 'v) pool_table" where
  "mem_upd t i f = t\<lparr>pt_mem := (pt_mem t)[i := f (nd t i)]\<rparr>"

lemma mem_upd_members [simp]:
  "length (pt_mem (mem_upd t i f)) = length (pt_mem t)" "pt_mask (mem_upd t i f) = pt_mask t"
  "pt_num_nodes (mem_upd t i f) = pt_num_nodes t" "pt_node_size (mem_upd t i f) = pt_node_size t"
  "pt_max_load_factor (mem_upd t i f) = pt_max_load_factor t"
  "pt_num_items (mem_upd t i f) = pt_num_items t"
  "pt_max_num_items (mem_upd t i f) = pt_max_num_items t"
  "pt_trivial (mem_upd t i f) = pt_trivial t"
  by (simp_all add: mem_upd_def)

lemma nd_mem_upd [simp]:
  "i < length (pt_mem t) \<Longrightarrow> nd (mem_upd t i f) j = (if j = i then f (nd t i) else nd t j)"
  by (simp add: mem_upd_def nth_list_update)

lemma get_node_in [simp]: "i < length (pt_mem t) \<Longrightarrow> get_node t i = Inr (nd t i)"
  by (simp add: get_node_def)

lemma upd_node_in [simp]: "i < length (pt_mem t) \<Longrightarrow> upd_node t i f = Inr (mem_upd t i f)"
  by (simp add: upd_node_def set_node_def mem_upd_def)

lemma get_next_in [simp]: "i < length (pt_mem t) \<Longrightarrow> get_next t i = Inr (next_at t i)"
  by (simp add: get_next_def)

lemma get_prev_in [simp]:
  "i < length (pt_mem t) \<Longrightarrow> cell_at t i = Prev p \<Longrightarrow> get_prev t i = Inr p"
  by (simp add: get_prev_def cell_prev_def)

lemma get_item_in [simp]:
  "i < length (pt_mem t) \<Longrightarrow> cell_at t i = Item x \<Longrightarrow> get_item t i = Inr x"
  by (simp add: get_item_def cell_item_def)

lemma get_key_in [simp]:
  "i < length (pt_mem t) \<Longrightarrow> cell_at t i = Item x \<Longrightarrow> get_key t i = Inr (fst x)"
  by (simp add: get_key_def)

text \<open>Tag and link share one word without loss when the node size is a multiple of four.\<close>

lemma pool_node_word_tag:
  assumes "4 dvd ns"
  shows "pool_node_word ns n AND 3 = tag_code (pn_tag n)"
    and "pool_node_word ns n - (pool_node_word ns n AND 3) = pn_next n * ns"
proof -
  obtain c where c: "pn_next n * ns = 4 * c" using assms by (metis dvd_def dvd_mult)
  have g: "tag_code (pn_tag n) < 4" by (cases "pn_tag n") simp_all
  have three: "x AND 3 = x mod 4" for x :: nat
    using take_bit_eq_mask [of 2 x] by (simp add: take_bit_eq_mod mask_eq_exp_minus_1)
  have "4 * c AND tag_code (pn_tag n) = 0"
  proof -
    have "4 * c AND tag_code (pn_tag n) = 4 * c AND (tag_code (pn_tag n) AND 3)"
      using g by (simp add: three)
    also have "\<dots> = (4 * c AND 3) AND tag_code (pn_tag n)" by (metis and.assoc and.commute)
    finally show ?thesis by (simp add: three)
  qed
  then have w: "pool_node_word ns n = 4 * c + tag_code (pn_tag n)"
    unfolding pool_node_word_def c by (rule disjunctive_add_eq_or [symmetric])
  show "pool_node_word ns n AND 3 = tag_code (pn_tag n)" using g by (simp add: three w)
  then show "pool_node_word ns n - (pool_node_word ns n AND 3) = pn_next n * ns" by (simp add: w c)
qed

text \<open>What the operations on single nodes leave alone.\<close>

definition same_space :: "('k, 'v) pool_table \<Rightarrow> ('k, 'v) pool_table \<Rightarrow> bool" where
  "same_space t u \<longleftrightarrow> length (pt_mem u) = length (pt_mem t) \<and> pt_mask u = pt_mask t \<and>
     pt_num_nodes u = pt_num_nodes t \<and> pt_node_size u = pt_node_size t \<and>
     pt_max_load_factor u = pt_max_load_factor t \<and> pt_max_num_items u = pt_max_num_items t \<and>
     pt_trivial u = pt_trivial t"

lemma same_space_refl [simp]: "same_space t t"
  by (simp add: same_space_def)

lemma same_space_trans: "same_space t u \<Longrightarrow> same_space u v \<Longrightarrow> same_space t v"
  by (simp add: same_space_def)

lemma same_space_mem_upd [simp]: "same_space t (mem_upd u i f) \<longleftrightarrow> same_space t u"
  by (simp add: same_space_def)

section \<open>The free list is a ring\<close>

text \<open>Links from \<open>a\<close> through \<open>xs\<close> to \<open>b\<close>, and back.\<close>

fun seg :: "('k, 'v) pool_table \<Rightarrow> nat \<Rightarrow> nat list \<Rightarrow> nat \<Rightarrow> bool" where
  "seg t a [] b \<longleftrightarrow> next_at t a = b \<and> cell_at t b = Prev a"
| "seg t a (x # xs) b \<longleftrightarrow> next_at t a = x \<and> cell_at t x = Prev a \<and> seg t x xs b"

definition free_ok :: "('k, 'v) pool_table \<Rightarrow> nat list \<Rightarrow> bool" where
  "free_ok t F \<longleftrightarrow> distinct (0 # F) \<and> seg t 0 F 0 \<and>
     (\<forall>i\<in>set (0 # F). tag_at t i = EMPTY \<and> i < length (pt_mem t))"

lemma seg_append: "seg t a (xs @ x # ys) b \<longleftrightarrow> seg t a xs x \<and> seg t x ys b"
  by (induction xs arbitrary: a) auto

lemma seg_cong:
  assumes "\<And>i. i \<in> set (a # xs) \<Longrightarrow> next_at u i = next_at t i"
    and "\<And>i. i \<in> set (xs @ [b]) \<Longrightarrow> cell_at u i = cell_at t i"
  shows "seg u a xs b = seg t a xs b"
  using assms by (induction xs arbitrary: a) auto

lemma seg_last: "seg t a xs b \<Longrightarrow> next_at t (last (a # xs)) = b \<and> cell_at t b = Prev (last (a # xs))"
  by (induction xs arbitrary: a) auto

lemma seg_last_prev: "seg t a xs b \<Longrightarrow> cell_at t b = Prev (last (a # xs))"
  using seg_last by blast

lemma seg_hd: "seg t a xs b \<Longrightarrow> next_at t a = hd (xs @ [b]) \<and> cell_at t (hd (xs @ [b])) = Prev a"
  by (cases xs) auto

lemma free_ok_last: "free_ok t F \<Longrightarrow> get_prev t 0 = Inr (last (0 # F))"
  using seg_last_prev [of t 0 F 0] by (simp add: free_ok_def)

lemma free_ok_cong:
  assumes "free_ok t F" "length (pt_mem u) = length (pt_mem t)"
    and "\<And>i. i \<in> set (0 # F) \<Longrightarrow> nd u i = nd t i"
  shows "free_ok u F"
  using assms seg_cong [of 0 F u t 0] by (auto simp: free_ok_def)

text \<open>Taking a node out of the ring.\<close>

lemma seg_unlink:
  assumes s: "seg t a xs i" "seg t i ys b" and d: "distinct (a # xs @ i # ys)"
    and b: "b \<notin> set (xs @ i # ys)" and p: "p = last (a # xs)" and q: "q = hd (ys @ [b])"
    and u1: "\<And>j. j \<in> set (a # xs @ ys) \<Longrightarrow> next_at u j = (if j = p then q else next_at t j)"
    and u2: "\<And>j. j \<in> set (xs @ ys @ [b]) \<Longrightarrow> cell_at u j = (if j = q then Prev p else cell_at t j)"
  shows "seg u a (xs @ ys) b"
proof -
  have upper: "seg u p ys b" if "p \<in> set (a # xs)"
  proof (cases ys)
    case Nil
    with u1 [of p] u2 [of b] q that show ?thesis by auto
  next
    case (Cons y zs)
    have "p \<notin> set ys" using d that by auto
    then have n: "next_at u j = next_at t j" if "j \<in> set (y # zs)" for j
      using u1 [of j] that Cons by auto
    have "q \<notin> set (zs @ [b])" using Cons q d b by auto
    then have c: "cell_at u j = cell_at t j" if "j \<in> set (zs @ [b])" for j
      using u2 [of j] that Cons by auto
    have "seg u y zs b" using s(2) Cons seg_cong [of y zs u t b, OF n c] by simp
    with Cons q u1 [of p] u2 [of y] that show ?thesis by auto
  qed
  show ?thesis
  proof (cases xs rule: rev_cases)
    case Nil
    with upper p show ?thesis by simp
  next
    case (snoc xs' x)
    then have px: "p = x" using p by simp
    have "q \<notin> set (xs' @ [x])" using d b q snoc by (cases ys) auto
    then have c: "cell_at u j = cell_at t j" if "j \<in> set (xs' @ [x])" for j
      using u2 [of j] that snoc by auto
    have "p \<notin> set (a # xs')" using d snoc px by auto
    then have n: "next_at u j = next_at t j" if "j \<in> set (a # xs')" for j
      using u1 [of j] that snoc by auto
    have "seg u a xs' x" using s(1) snoc seg_cong [of a xs' u t x, OF n c] by (simp add: seg_append)
    with upper snoc px show ?thesis by (simp add: seg_append)
  qed
qed

lemma allocate_node_free:
  assumes f: "free_ok t F" and i: "i \<in> set F"
  obtains u where "allocate_node t i = Inr u" "free_ok u (remove1 i F)" "same_space t u"
    "pt_num_items u = inc_items (pt_num_items t)" "nd u i = put_tag PROBE (nd t i)"
    "\<And>j. j \<notin> set (0 # F) \<Longrightarrow> nd u j = nd t j"
proof -
  obtain xs ys where F: "F = xs @ i # ys" using i by (metis in_set_conv_decomp)
  define a b where ab: "a = last (0 # xs)" "b = hd (ys @ [0])"
  have d: "distinct (0 # xs @ i # ys)" using f F by (simp add: free_ok_def)
  have s: "seg t 0 xs i" "seg t i ys 0" using f F by (simp_all add: free_ok_def seg_append)
  have len: "j \<in> set (0 # F) \<Longrightarrow> j < length (pt_mem t)"
    and em: "j \<in> set (0 # F) \<Longrightarrow> tag_at t j = EMPTY" for j
    using f by (auto simp: free_ok_def)
  have a: "a \<in> set (0 # F)" "a \<noteq> i" using d F ab(1) last_in_set [of "0 # xs"] by auto
  have b: "b \<in> set (0 # F)" "b \<noteq> i" using d F ab(2) by (cases ys; auto)+
  have prev: "cell_at t i = Prev a" and nxt: "next_at t i = b"
    using seg_last_prev [OF s(1)] seg_hd [OF s(2)] ab by simp_all
  have iF: "i \<in> set (0 # F)" using F by simp
  note lens = len [OF a(1)] len [OF b(1)] len [OF iF]
  define u where "u = mem_upd (mem_upd (mem_upd (t\<lparr>pt_num_items := inc_items (pt_num_items t)\<rparr>) b
     (put_cell (Prev a))) a (\<lambda>p. p\<lparr>pn_tag := EMPTY, pn_next := b\<rparr>)) i (put_tag PROBE)"
  have al: "allocate_node t i = Inr u"
    using lens em [OF iF] prev nxt a(2) b(2) by (simp add: allocate_node_def u_def)
  have nu: "nd u j = (if j = i then put_tag PROBE (nd t i)
      else if j = a then (if j = b then put_cell (Prev a) (nd t j) else nd t j)\<lparr>pn_tag := EMPTY, pn_next := b\<rparr>
      else if j = b then put_cell (Prev a) (nd t j) else nd t j)" for j
    using lens a(2) b(2) by (auto simp: u_def)
  have sp: "same_space t u" by (simp add: u_def same_space_def)
  have "seg u 0 (xs @ ys) 0"
  proof (rule seg_unlink [OF s _ _ ab])
    show "distinct (0 # xs @ i # ys)" "0 \<notin> set (xs @ i # ys)" using d by auto
    show "next_at u j = (if j = a then b else next_at t j)" if "j \<in> set (0 # xs @ ys)" for j
      using that d by (auto simp: nu put_cell_def)
    show "cell_at u j = (if j = b then Prev a else cell_at t j)" if "j \<in> set (xs @ ys @ [0])" for j
      using that d by (auto simp: nu put_cell_def)
  qed
  moreover have "tag_at u j = EMPTY" if "j \<in> set (0 # xs @ ys)" for j
    using that d em F by (auto simp: nu put_cell_def)
  moreover have "j < length (pt_mem u)" if "j \<in> set (0 # xs @ ys)" for j
    using that len sp F by (auto simp: same_space_def)
  ultimately have "free_ok u (xs @ ys)" using d unfolding free_ok_def by auto
  moreover have "remove1 i F = xs @ ys" using d F by (simp add: remove1_append)
  moreover have "nd u j = nd t j" if "j \<notin> set (0 # F)" for j
    using that a(1) b(1) iF nu [of j] by auto
  moreover have "pt_num_items u = inc_items (pt_num_items t)" by (simp add: u_def)
  ultimately show thesis using that [of u] al sp nu [of i] by simp
qed

lemma deallocate_node_free:
  assumes f: "free_ok t F" and i: "i \<notin> set (0 # F)" "i < length (pt_mem t)"
  obtains u where "deallocate_node t i = Inr u" "free_ok u (F @ [i])" "same_space t u"
    "pt_num_items u = dec_items (pt_num_items t)" "\<And>j. j \<notin> set (0 # F @ [i]) \<Longrightarrow> nd u j = nd t j"
proof -
  define a where a: "a = last (0 # F)"
  have s: "seg t 0 F 0" and d: "distinct (0 # F)" using f by (auto simp: free_ok_def)
  have len: "j \<in> set (0 # F) \<Longrightarrow> j < length (pt_mem t)"
    and em: "j \<in> set (0 # F) \<Longrightarrow> tag_at t j = EMPTY" for j
    using f by (auto simp: free_ok_def)
  have aF: "a \<in> set (0 # F)" using a last_in_set [of "0 # F"] by simp
  then have ai: "a \<noteq> i" using i by auto
  have prev: "cell_at t 0 = Prev a" using seg_last_prev [OF s] a by simp
  note lens = len [OF aF] len [of 0] i(2)
  define u where "u = mem_upd (mem_upd (mem_upd (mem_upd
     (t\<lparr>pt_num_items := dec_items (pt_num_items t)\<rparr>) i (put_free 0)) i (put_cell (Prev a)))
     0 (put_cell (Prev i))) a (put_free i)"
  have al: "deallocate_node t i = Inr u"
    using lens prev by (simp add: deallocate_node_def u_def)
  have nu: "nd u j = (if j = i then put_cell (Prev a) (put_free 0 (nd t i))
      else if j = a then put_free i (if j = 0 then put_cell (Prev i) (nd t j) else nd t j)
      else if j = 0 then put_cell (Prev i) (nd t j) else nd t j)" for j
    using lens ai i(1) by (auto simp: u_def)
  have sp: "same_space t u" by (simp add: u_def same_space_def)
  have "seg u 0 F i"
  proof (cases F rule: rev_cases)
    case Nil
    with a i show ?thesis by (simp add: nu put_cell_def put_free_def)
  next
    case (snoc G x)
    then have "a = x" "x \<noteq> 0" using a d by auto
    moreover have "seg t 0 G x" using s snoc by (simp add: seg_append)
    then have "seg u 0 G x"
      by (subst seg_cong [of 0 G u t x])
         (use d snoc i(1) \<open>a = x\<close> in \<open>auto simp: nu put_cell_def put_free_def\<close>)
    ultimately show ?thesis using snoc i(1) by (simp add: seg_append nu put_cell_def put_free_def)
  qed
  moreover have "seg u i [] 0" using i(1) by (simp add: nu put_cell_def put_free_def)
  ultimately have "seg u 0 (F @ [i]) 0" by (simp add: seg_append)
  moreover have "tag_at u j = EMPTY" if "j \<in> set (0 # F @ [i])" for j
    using that em i by (auto simp: nu put_cell_def put_free_def)
  moreover have "j < length (pt_mem u)" if "j \<in> set (0 # F @ [i])" for j
    using that len i(2) sp by (auto simp: same_space_def)
  ultimately have "free_ok u (F @ [i])" using d i unfolding free_ok_def by auto
  moreover have "nd u j = nd t j" if "j \<notin> set (0 # F @ [i])" for j
    using that aF nu [of j] by auto
  moreover have "pt_num_items u = dec_items (pt_num_items t)" by (simp add: u_def)
  ultimately show thesis using that [of u] al sp by simp
qed


section \<open>The invariant\<close>

fun item_of :: "'i pool_cell \<Rightarrow> 'i" where
  "item_of (Item x) = x"

abbreviation item_at :: "('k, 'v) pool_table \<Rightarrow> nat \<Rightarrow> 'k \<times> 'v" where
  "item_at t i \<equiv> item_of (cell_at t i)"

abbreviation key_at :: "('k, 'v) pool_table \<Rightarrow> nat \<Rightarrow> 'k" where
  "key_at t i \<equiv> fst (item_at t i)"

definition has_item :: "('k, 'v) pool_table \<Rightarrow> nat \<Rightarrow> bool" where
  "has_item t i \<longleftrightarrow> (\<exists>x. cell_at t i = Item x)"

lemma has_itemD: "has_item t i \<Longrightarrow> cell_at t i = Item (item_at t i)"
  by (auto simp: has_item_def)

text \<open>The nodes of a chain in the order of their links.\<close>

fun path :: "('k, 'v) pool_table \<Rightarrow> nat list \<Rightarrow> bool" where
  "path t [] \<longleftrightarrow> True"
| "path t [x] \<longleftrightarrow> next_at t x = 0"
| "path t (x # y # ys) \<longleftrightarrow> next_at t x = y \<and> path t (y # ys)"

definition chain_ok :: "('k \<Rightarrow> nat) \<Rightarrow> ('k, 'v) pool_table \<Rightarrow> nat \<Rightarrow> nat list \<Rightarrow> bool" where
  "chain_ok hash t h c \<longleftrightarrow> c = [] \<or>
     hd c = h \<and> distinct c \<and> path t c \<and> tag_at t h = HEAD \<and> (\<forall>i\<in>set (tl c). tag_at t i = PROBE) \<and>
     (\<forall>i\<in>set c. has_item t i \<and> get_hash_head hash t (key_at t i) = h) \<and> distinct (map (key_at t) c)"

definition chained :: "(nat \<Rightarrow> nat list) \<Rightarrow> nat set" where
  "chained C = (\<Union>h. set (C h))"

text \<open>
  Every node is in the free list \<open>F\<close>, in one of the chains \<open>C\<close>, in the set \<open>R\<close> of nodes that a rehash
  has not placed yet, or in the set \<open>L\<close> of nodes that an operation is working on, of which nothing
  is known.
\<close>

definition parts :: "nat \<Rightarrow> nat set \<Rightarrow> nat set \<Rightarrow> nat set \<Rightarrow> nat set \<Rightarrow> bool" where
  "parts N F R L X \<longleftrightarrow> {1..N} = F \<union> R \<union> L \<union> X \<and> F \<inter> (R \<union> L \<union> X) = {} \<and> R \<inter> L = {} \<and> (R \<union> L) \<inter> X = {}"

definition space_ok :: "('k, 'v) pool_table \<Rightarrow> bool" where
  "space_ok t \<longleftrightarrow> 0 < pt_num_nodes t \<and> length (pt_mem t) = Suc (pt_num_nodes t) \<and>
     (\<exists>m. pt_mask t = 2 ^ m - 1) \<and> pt_mask t < pt_num_nodes t"

definition pool_chains_ok :: "('k \<Rightarrow> nat) \<Rightarrow> ('k, 'v) pool_table \<Rightarrow> (nat \<Rightarrow> nat list) \<Rightarrow> bool" where
  "pool_chains_ok hash t C \<longleftrightarrow> (\<forall>h. chain_ok hash t h (C h)) \<and> (\<forall>g h. g \<noteq> h \<longrightarrow> set (C g) \<inter> set (C h) = {})"

definition loose_ok :: "('k, 'v) pool_table \<Rightarrow> nat set \<Rightarrow> nat set \<Rightarrow> bool" where
  "loose_ok t R X \<longleftrightarrow> (\<forall>i\<in>R. tag_at t i = REHASH \<and> has_item t i) \<and>
     inj_on (key_at t) R \<and> key_at t ` R \<inter> key_at t ` X = {}"

definition pool_inv :: "('k \<Rightarrow> nat) \<Rightarrow> ('k, 'v) pool_table \<Rightarrow> nat list \<Rightarrow> (nat \<Rightarrow> nat list)
    \<Rightarrow> nat set \<Rightarrow> nat set \<Rightarrow> bool" where
  "pool_inv hash t F C R L \<longleftrightarrow> space_ok t \<and> free_ok t F \<and> pool_chains_ok hash t C \<and>
     loose_ok t R (chained C) \<and> parts (pt_num_nodes t) (set F) R L (chained C) \<and>
     pt_num_items t + length F = pt_num_nodes t"

text \<open>The items of the table.\<close>

definition pool_set :: "('k, 'v) pool_table \<Rightarrow> (nat \<Rightarrow> nat list) \<Rightarrow> nat set \<Rightarrow> ('k \<times> 'v) set" where
  "pool_set t C R = item_at t ` (R \<union> chained C)"

subsection \<open>Chains\<close>

lemma path_cong: "(\<And>i. i \<in> set c \<Longrightarrow> next_at u i = next_at t i) \<Longrightarrow> path u c = path t c"
  by (induction c rule: induct_list012) auto

lemma chain_ok_cong:
  assumes "chain_ok hash t h c" "pt_mask u = pt_mask t" "\<And>i. i \<in> set c \<Longrightarrow> nd u i = nd t i"
  shows "chain_ok hash u h c"
proof (cases "c = []")
  case False
  have "path u c = path t c" using assms(3) by (intro path_cong) simp
  moreover have "map (key_at u) c = map (key_at t) c" using assms(3) by simp
  moreover have "\<forall>i\<in>set (tl c). nd u i = nd t i" using assms(3) list.set_sel(2) [OF False] by blast
  moreover have "nd u (hd c) = nd t (hd c)" using assms(3) False by simp
  ultimately show ?thesis
    using assms False unfolding chain_ok_def has_item_def get_hash_head_def by metis
qed (simp add: chain_ok_def)

lemma path_append:
  "path t (xs @ y # ys) \<Longrightarrow> path t (y # ys)"
  by (induction xs rule: induct_list012) auto

lemma path_last: "path t c \<Longrightarrow> c \<noteq> [] \<Longrightarrow> next_at t (last c) = 0"
  by (induction c rule: induct_list012) auto

lemma path_next:
  "path t (xs @ y # z # zs) \<Longrightarrow> next_at t y = z"
  using path_append [of t xs y "z # zs"] by simp

lemma path_snocI:
  assumes "path t c" "c \<noteq> []" "distinct (c @ [f])" "next_at u f = 0" "next_at u (last c) = f"
    and "\<And>i. i \<in> set (butlast c) \<Longrightarrow> next_at u i = next_at t i"
  shows "path u (c @ [f])"
  using assms by (induction c rule: induct_list012) auto

lemma chained_upd: "chained (C(h := c)) = set c \<union> (\<Union>g\<in>-{h}. set (C g))"
  by (auto simp: chained_def split: if_splits)

lemma chained_split: "chained C = set (C h) \<union> (\<Union>g\<in>-{h}. set (C g))"
  by (auto simp: chained_def)

subsection \<open>Steps of an operation\<close>

lemma parts_drop: "parts N F R L X \<Longrightarrow> i \<in> R \<Longrightarrow> parts N F (R - {i}) (insert i L) X"
  unfolding parts_def by blast

lemma parts_mark: "parts N F R L X \<Longrightarrow> i \<in> L \<Longrightarrow> parts N F (insert i R) (L - {i}) X"
  unfolding parts_def by blast

lemma parts_detach: "parts N F R L (S \<union> X) \<Longrightarrow> S \<inter> X = {} \<Longrightarrow> parts N F R (L \<union> S) X"
  unfolding parts_def by blast

lemma parts_attach: "parts N F R L X \<Longrightarrow> S \<subseteq> L \<Longrightarrow> parts N F R (L - S) (S \<union> X)"
  unfolding parts_def by blast

lemma parts_allocate: "parts N F R L X \<Longrightarrow> i \<in> F \<Longrightarrow> parts N (F - {i}) R (insert i L) X"
  unfolding parts_def by blast

lemma parts_deallocate: "parts N F R L X \<Longrightarrow> i \<in> L \<Longrightarrow> parts N (insert i F) R (L - {i}) X"
  unfolding parts_def by blast

lemma partsD:
  assumes "parts N F R L X"
  shows "i \<in> F \<union> R \<union> L \<union> X \<Longrightarrow> 0 < i \<and> i \<le> N" "i \<in> F \<Longrightarrow> i \<notin> R \<and> i \<notin> L \<and> i \<notin> X"
    "i \<in> R \<Longrightarrow> i \<notin> L \<and> i \<notin> X \<and> i \<notin> F" "i \<in> L \<Longrightarrow> i \<notin> R \<and> i \<notin> X \<and> i \<notin> F"
    "i \<in> X \<Longrightarrow> i \<notin> R \<and> i \<notin> L \<and> i \<notin> F"
proof -
  have "{1..N} = F \<union> R \<union> L \<union> X" using assms by (simp add: parts_def)
  then show "i \<in> F \<union> R \<union> L \<union> X \<Longrightarrow> 0 < i \<and> i \<le> N" by (metis atLeastAtMost_iff One_nat_def Suc_le_eq)
qed (use assms in \<open>auto simp: parts_def\<close>)

lemma pool_invD:
  assumes "pool_inv hash t F C R L"
  shows "space_ok t" "free_ok t F" "pool_chains_ok hash t C" "loose_ok t R (chained C)"
    "parts (pt_num_nodes t) (set F) R L (chained C)" "pt_num_items t + length F = pt_num_nodes t"
  using assms by (simp_all add: pool_inv_def)

lemma pool_inv_in:
  assumes "pool_inv hash t F C R L" "i \<in> set F \<union> R \<union> L \<union> chained C"
  shows "0 < i" "i \<le> pt_num_nodes t" "i < length (pt_mem t)"
  using partsD(1) [OF pool_invD(5) [OF assms(1)] assms(2)] pool_invD(1) [OF assms(1)]
  by (auto simp: space_ok_def)

lemma pool_inv_zero: "pool_inv hash t F C R L \<Longrightarrow> 0 \<notin> set F \<union> R \<union> L \<union> chained C"
  using pool_inv_in(1) by blast

text \<open>Parts of the invariant depend on the nodes they speak of only.\<close>

lemma pool_chains_ok_cong:
  assumes "pool_chains_ok hash t C" "same_space t u" "\<And>i. i \<in> chained C \<Longrightarrow> nd u i = nd t i"
  shows "pool_chains_ok hash u C"
proof -
  have "chain_ok hash u h (C h)" for h
  proof (rule chain_ok_cong)
    show "chain_ok hash t h (C h)" using assms(1) by (simp add: pool_chains_ok_def)
    show "pt_mask u = pt_mask t" using assms(2) by (simp add: same_space_def)
    show "nd u i = nd t i" if "i \<in> set (C h)" for i
      using that by (intro assms(3)) (auto simp: chained_def)
  qed
  with assms(1) show ?thesis by (simp add: pool_chains_ok_def)
qed

lemma loose_ok_cong:
  assumes "loose_ok t R X" "\<And>i. i \<in> R \<union> X \<Longrightarrow> nd u i = nd t i"
  shows "loose_ok u R X"
proof -
  have "key_at u ` R = key_at t ` R" "key_at u ` X = key_at t ` X"
    using assms(2) by (auto intro!: image_cong)
  moreover have "inj_on (key_at u) R = inj_on (key_at t) R"
    using assms(2) by (intro inj_on_cong) simp
  ultimately show ?thesis using assms unfolding loose_ok_def has_item_def by auto
qed

lemma space_ok_cong:
  assumes "space_ok t" "same_space t u"
    and "\<And>i. pt_num_nodes t < i \<Longrightarrow> i < length (pt_mem t) \<Longrightarrow> nd u i = nd t i"
  shows "space_ok u"
  using assms by (auto simp: space_ok_def same_space_def)

lemma pool_set_cong:
  "(\<And>i. i \<in> R \<union> chained C \<Longrightarrow> nd u i = nd t i) \<Longrightarrow> pool_set u C R = pool_set t C R"
  unfolding pool_set_def by (rule image_cong) auto

text \<open>Only nodes in \<open>L\<close> change.\<close>

lemma pool_inv_cong:
  assumes inv: "pool_inv hash t F C R L" and sp: "same_space t u" "pt_num_items u = pt_num_items t"
    and nd: "\<And>j. j \<notin> L \<Longrightarrow> nd u j = nd t j"
  shows "pool_inv hash u F C R L" and "pool_set u C R = pool_set t C R"
proof -
  note I = pool_invD [OF inv]
  have x: "nd u j = nd t j" if "j \<in> R \<union> chained C" for j using that nd partsD(4) [OF I(5), of j] by auto
  have "nd u j = nd t j" if "j \<in> set (0 # F)" for j
    using that nd partsD(2) [OF I(5), of j] pool_inv_zero [OF inv] by auto
  then have "free_ok u F" using free_ok_cong [OF I(2)] sp(1) by (simp add: same_space_def)
  moreover have "nd u j = nd t j" if "pt_num_nodes t < j" for j
    using that nd pool_inv_in(2) [OF inv, of j] by fastforce
  then have "space_ok u" using space_ok_cong [OF I(1) sp(1)] by blast
  moreover have "pool_chains_ok hash u C" using pool_chains_ok_cong [OF I(3) sp(1)] x by blast
  moreover have "loose_ok u R (chained C)" using loose_ok_cong [OF I(4)] x by blast
  ultimately show "pool_inv hash u F C R L"
    using I(5,6) sp by (simp add: pool_inv_def same_space_def)
  show "pool_set u C R = pool_set t C R" using x by (rule pool_set_cong)
qed

lemma pool_inv_write:
  assumes "pool_inv hash t F C R L" "i \<in> L"
  shows "pool_inv hash (mem_upd t i f) F C R L" and "pool_set (mem_upd t i f) C R = pool_set t C R"
proof -
  have "i < length (pt_mem t)" using pool_inv_in(3) [OF assms(1), of i] assms(2) by simp
  then have "nd (mem_upd t i f) j = nd t j" if "j \<notin> L" for j using that assms(2) by auto
  then show "pool_inv hash (mem_upd t i f) F C R L" "pool_set (mem_upd t i f) C R = pool_set t C R"
    by (intro pool_inv_cong [OF assms(1)]; simp)+
qed

lemma pool_inv_detach:
  assumes inv: "pool_inv hash t F C R L"
  shows "pool_inv hash t F (C(h := [])) R (L \<union> set (C h))"
    and "pool_set t C R = item_at t ` set (C h) \<union> pool_set t (C(h := [])) R"
proof -
  note I = pool_invD [OF inv]
  have s: "chained C = set (C h) \<union> chained (C(h := []))" by (simp add: chained_upd chained_split [of C h])
  have d: "set (C h) \<inter> chained (C(h := [])) = {}"
    using I(3) unfolding pool_chains_ok_def chained_upd by auto
  have "pool_chains_ok hash t (C(h := []))" using I(3) by (simp add: pool_chains_ok_def chain_ok_def)
  moreover have "loose_ok t R (chained (C(h := [])))" using I(4) unfolding loose_ok_def s by blast
  ultimately show "pool_inv hash t F (C(h := [])) R (L \<union> set (C h))"
    using I parts_detach [OF I(5) [unfolded s] d] by (simp add: pool_inv_def)
  show "pool_set t C R = item_at t ` set (C h) \<union> pool_set t (C(h := [])) R"
    unfolding pool_set_def s by auto
qed

lemma pool_inv_attach:
  assumes inv: "pool_inv hash t F C R L" and h: "C h = []" and c: "chain_ok hash t h c" "set c \<subseteq> L"
    and k: "key_at t ` R \<inter> key_at t ` set c = {}"
  shows "pool_inv hash t F (C(h := c)) R (L - set c)"
    and "pool_set t (C(h := c)) R = item_at t ` set c \<union> pool_set t C R"
proof -
  note I = pool_invD [OF inv]
  have s: "chained (C(h := c)) = set c \<union> chained C" using h by (simp add: chained_upd chained_split [of C h])
  have "set c \<inter> chained C = {}" using partsD(4) [OF I(5)] c(2) by blast
  then have "set c \<inter> set (C g) = {}" for g by (auto simp: chained_def)
  then have "pool_chains_ok hash t (C(h := c))" using I(3) c(1) by (auto simp: pool_chains_ok_def)
  moreover have "loose_ok t R (chained (C(h := c)))"
    using I(4) k unfolding loose_ok_def s image_Un by blast
  ultimately show "pool_inv hash t F (C(h := c)) R (L - set c)"
    using I parts_attach [OF I(5) c(2)] by (simp add: pool_inv_def s)
  show "pool_set t (C(h := c)) R = item_at t ` set c \<union> pool_set t C R"
    unfolding pool_set_def s by auto
qed

lemma pool_inv_drop:
  assumes "pool_inv hash t F C R L" "i \<in> R"
  shows "pool_inv hash t F C (R - {i}) (insert i L)"
proof -
  note I = pool_invD [OF assms(1)]
  have "loose_ok t (R - {i}) (chained C)"
    using I(4) unfolding loose_ok_def by (auto intro: inj_on_subset)
  with I parts_drop [OF I(5) assms(2)] show ?thesis by (simp add: pool_inv_def)
qed

lemma pool_inv_mark:
  assumes inv: "pool_inv hash t F C R L" and i: "i \<in> L" "tag_at t i = REHASH" "has_item t i"
    and k: "key_at t i \<notin> key_at t ` (R \<union> chained C)"
  shows "pool_inv hash t F C (insert i R) (L - {i})"
proof -
  note I = pool_invD [OF inv]
  have "loose_ok t (insert i R) (chained C)"
    using I(4) i k unfolding loose_ok_def by (auto simp: inj_on_insert)
  with I parts_mark [OF I(5) i(1)] show ?thesis by (simp add: pool_inv_def)
qed

lemma pool_inv_allocate:
  assumes inv: "pool_inv hash t F C R L" and f: "f \<in> set F" and n: "pt_num_items t + 1 < 2 ^ 64"
  obtains u where "allocate_node t f = Inr u" "pool_inv hash u (remove1 f F) C R (insert f L)"
    "nd u f = put_tag PROBE (nd t f)" "\<forall>j\<in>R \<union> L \<union> chained C. nd u j = nd t j"
    "pt_num_items u = pt_num_items t + 1" "same_space t u" "pool_set u C R = pool_set t C R"
proof -
  note I = pool_invD [OF inv]
  obtain u where u: "allocate_node t f = Inr u" "free_ok u (remove1 f F)" "same_space t u"
    "pt_num_items u = inc_items (pt_num_items t)" "nd u f = put_tag PROBE (nd t f)"
    "\<And>j. j \<notin> set (0 # F) \<Longrightarrow> nd u j = nd t j"
    using allocate_node_free [OF I(2) f] by blast
  have same: "nd u j = nd t j" if "j \<in> R \<union> L \<union> chained C" for j
    using that partsD(2) [OF I(5), of j] pool_inv_in(1) [OF inv, of j] by (intro u(6)) auto
  have num: "pt_num_items u = pt_num_items t + 1" using u(4) n by (simp add: inc_items_def)
  have "nd u j = nd t j" if "pt_num_nodes t < j" for j
    using that pool_inv_in(2) [OF inv, of j] by (intro u(6)) fastforce
  then have "space_ok u" using space_ok_cong [OF I(1) u(3)] by blast
  moreover have "pool_chains_ok hash u C" using pool_chains_ok_cong [OF I(3) u(3)] same by blast
  moreover have "loose_ok u R (chained C)" using loose_ok_cong [OF I(4)] same by blast
  moreover have "set (remove1 f F) = set F - {f}" using I(2) by (simp add: free_ok_def)
  moreover have "length (remove1 f F) + 1 = length F"
    using f length_pos_if_in_set [OF f] by (simp add: length_remove1)
  ultimately have "pool_inv hash u (remove1 f F) C R (insert f L)"
    using u(2,3) num I(6) parts_allocate [OF I(5) f] by (simp add: pool_inv_def same_space_def)
  moreover have "pool_set u C R = pool_set t C R" using same by (intro pool_set_cong) auto
  ultimately show thesis using that u(1,3,5) same num by blast
qed

lemma pool_inv_deallocate:
  assumes inv: "pool_inv hash t F C R L" and i: "i \<in> L"
  obtains u where "deallocate_node t i = Inr u" "pool_inv hash u (F @ [i]) C R (L - {i})"
    "\<forall>j\<in>R \<union> chained C \<union> (L - {i}). nd u j = nd t j" "pt_num_items t = pt_num_items u + 1"
    "same_space t u" "pool_set u C R = pool_set t C R"
proof -
  note I = pool_invD [OF inv]
  have d: "distinct F" using I(2) by (simp add: free_ok_def)
  have iF: "i \<notin> set (0 # F)" "i < length (pt_mem t)"
    using i partsD(4) [OF I(5) i] pool_inv_in [OF inv, of i] by auto
  obtain u where u: "deallocate_node t i = Inr u" "free_ok u (F @ [i])" "same_space t u"
    "pt_num_items u = dec_items (pt_num_items t)" "\<And>j. j \<notin> set (0 # F @ [i]) \<Longrightarrow> nd u j = nd t j"
    using deallocate_node_free [OF I(2) iF] by blast
  have same: "nd u j = nd t j" if "j \<in> R \<union> chained C \<union> (L - {i})" for j
    using that partsD(2,4) [OF I(5), of j] partsD(4) [OF I(5) i] pool_inv_in(1) [OF inv, of j]
    by (intro u(5)) auto
  have "set F \<subseteq> {1..pt_num_nodes t} - {i}" using I(5) iF(1) unfolding parts_def by auto
  then have "card (set F) \<le> card ({1..pt_num_nodes t} - {i})" by (intro card_mono) auto
  then have num: "pt_num_items t = pt_num_items u + 1"
    using u(4) I(6) d pool_inv_in [OF inv, of i] i by (auto simp: dec_items_def distinct_card)
  have "nd u j = nd t j" if "pt_num_nodes t < j" for j
    using that i pool_inv_in(2) [OF inv, of j] by (intro u(5)) fastforce
  then have "space_ok u" using space_ok_cong [OF I(1) u(3)] by blast
  moreover have "pool_chains_ok hash u C" using pool_chains_ok_cong [OF I(3) u(3)] same by blast
  moreover have "loose_ok u R (chained C)" using loose_ok_cong [OF I(4)] same by blast
  ultimately have "pool_inv hash u (F @ [i]) C R (L - {i})"
    using u(2,3) num I(6) parts_deallocate [OF I(5) i] by (simp add: pool_inv_def same_space_def)
  moreover have "pool_set u C R = pool_set t C R" using same by (intro pool_set_cong) auto
  ultimately show thesis using that u(1,3) same num by blast
qed


section \<open>Following links\<close>

lemma get_hash_head_range:
  assumes "space_ok t"
  shows "0 < get_hash_head hash t k" "get_hash_head hash t k \<le> pt_num_nodes t"
proof -
  obtain m where m: "pt_mask t = 2 ^ m - 1" "pt_mask t < pt_num_nodes t"
    using assms by (auto simp: space_ok_def)
  have "hash k AND pt_mask t < 2 ^ m" unfolding m(1) and_ones by simp
  then show "0 < get_hash_head hash t k" "get_hash_head hash t k \<le> pt_num_nodes t"
    using m by (auto simp: get_hash_head_def)
qed

lemma get_hash_head_cong: "pt_mask u = pt_mask t \<Longrightarrow> get_hash_head hash u k = get_hash_head hash t k"
  by (simp add: get_hash_head_def)

definition linked :: "('k, 'v) pool_table \<Rightarrow> nat list \<Rightarrow> bool" where
  "linked t c \<longleftrightarrow> path t c \<and> 0 \<notin> set c \<and> (\<forall>i\<in>set c. i < length (pt_mem t))"

lemma linked_Cons2:
  "linked t (x # y # ys) \<longleftrightarrow> next_at t x = y \<and> x \<noteq> 0 \<and> x < length (pt_mem t) \<and> linked t (y # ys)"
  by (auto simp: linked_def)

lemma linked_single: "linked t [x] \<longleftrightarrow> next_at t x = 0 \<and> x \<noteq> 0 \<and> x < length (pt_mem t)"
  by (auto simp: linked_def)

lemma linked_hd: "linked t (x # xs) \<Longrightarrow> x \<noteq> 0 \<and> x < length (pt_mem t)"
  by (simp add: linked_def)

lemma find_loop_linked:
  assumes "linked t (x # xs)" "\<forall>i\<in>set (x # xs). has_item t i" "length (x # xs) \<le> n"
  shows "find_loop n t k x = Inr (case find (\<lambda>i. key_at t i = k) (x # xs) of Some i \<Rightarrow> i | None \<Rightarrow> 0)"
  using assms
proof (induction xs arbitrary: n x)
  case Nil
  then obtain m where "n = Suc m" by (cases n) auto
  with Nil show ?case by (auto simp: linked_single dest: has_itemD)
next
  case (Cons y ys)
  then obtain m where m: "n = Suc m" by (cases n) auto
  have l: "next_at t x = y" "x < length (pt_mem t)" "linked t (y # ys)" "y \<noteq> 0"
    using Cons.prems(1) linked_hd [of t y ys] by (simp_all add: linked_Cons2)
  have "get_key t x = Inr (key_at t x)" using Cons.prems(2) l(2) has_itemD [of t x] by simp
  then show ?case using Cons.IH [OF l(3), of m] Cons.prems m l by simp
qed

lemma chain_tail_linked:
  "linked t (x # xs) \<Longrightarrow> length (x # xs) \<le> n \<Longrightarrow> chain_tail n t x = Inr (last (x # xs))"
proof (induction xs arbitrary: n x)
  case Nil
  then show ?case by (cases n) (auto simp: linked_single)
next
  case (Cons y ys)
  then show ?case using linked_hd [of t y ys] by (cases n) (auto simp: linked_Cons2)
qed

lemma chain_nodes_linked:
  "linked t (x # xs) \<Longrightarrow> length (x # xs) \<le> n \<Longrightarrow> chain_nodes n t x = Inr (x # xs)"
proof (induction xs arbitrary: n x)
  case Nil
  then show ?case by (cases n) (auto simp: linked_single)
next
  case (Cons y ys)
  then show ?case using linked_hd [of t y ys] by (cases n) (auto simp: linked_Cons2)
qed

lemma find_node_before_path:
  assumes "\<And>i. i \<in> set (xs @ [y]) \<Longrightarrow> i < length (pt_mem t)" "path t (xs @ y # z # zs)"
    and "distinct (xs @ y # z # zs)" "length (xs @ [y]) \<le> n"
  shows "find_node_before n t (hd (xs @ [y])) z = Inr y"
  using assms
proof (induction xs arbitrary: n)
  case Nil
  then show ?case by (cases n) auto
next
  case (Cons x xs)
  then obtain m where m: "n = Suc m" by (cases n) auto
  have "next_at t x = hd (xs @ [y])" using Cons.prems(2) by (cases xs) auto
  moreover have "path t (xs @ y # z # zs)" using Cons.prems(2) by (cases xs) auto
  moreover have "hd (xs @ [y]) \<noteq> z" using Cons.prems(3) by (cases xs) auto
  ultimately show ?case using Cons m by simp
qed

text \<open>The probing loops stop after the first node, which is in use.\<close>

lemma probe_loop_once:
  assumes "p \<noteq> 0" "p < length (pt_mem t)" "\<not> good (nd t p)"
  shows "probe_loop good t p p = get_prev t 0"
proof -
  have "probe_loop good t p (probe_offset t p) = get_prev t 0"
    by (subst probe_loop.simps) (simp add: probe_offset_def)
  with assms show ?thesis by (subst probe_loop.simps) simp
qed

subsection \<open>Chains of the invariant\<close>

lemma chain_okD:
  assumes "chain_ok hash t h c" "c \<noteq> []"
  shows "hd c = h" "distinct c" "path t c" "tag_at t h = HEAD" "\<And>i. i \<in> set (tl c) \<Longrightarrow> tag_at t i = PROBE"
    "\<And>i. i \<in> set c \<Longrightarrow> has_item t i" "\<And>i. i \<in> set c \<Longrightarrow> get_hash_head hash t (key_at t i) = h"
    "distinct (map (key_at t) c)"
  using assms by (simp_all add: chain_ok_def)

lemma pool_chain:
  assumes inv: "pool_inv hash t F C R L" and c: "C h \<noteq> []"
  shows "chain_ok hash t h (C h)" "linked t (C h)" "length (C h) < pt_fuel t" "h \<in> set (C h)"
    "\<And>i. i \<in> set (C h) \<Longrightarrow> i \<in> chained C"
proof -
  show ok: "chain_ok hash t h (C h)" using pool_invD(3) [OF inv] by (simp add: pool_chains_ok_def)
  show sub: "\<And>i. i \<in> set (C h) \<Longrightarrow> i \<in> chained C" by (auto simp: chained_def)
  note D = chain_okD [OF ok c]
  have range: "0 < i \<and> i \<le> pt_num_nodes t \<and> i < length (pt_mem t)" if "i \<in> set (C h)" for i
    using pool_inv_in [OF inv, of i] sub [OF that] by simp
  then show "linked t (C h)" using D(3) by (force simp: linked_def)
  have "set (C h) \<subseteq> {1..pt_num_nodes t}" using range by (fastforce simp: Suc_le_eq)
  then have "card (set (C h)) \<le> card {1..pt_num_nodes t}" by (intro card_mono) auto
  then show "length (C h) < pt_fuel t" using D(2) by (simp add: distinct_card pt_fuel_def)
  show "h \<in> set (C h)" using D(1) c hd_in_set by metis
qed

text \<open>The tag tells what a node is.\<close>

lemma pool_tags:
  assumes inv: "pool_inv hash t F C R {}" and i: "0 < i" "i \<le> pt_num_nodes t"
  shows "tag_at t i = EMPTY \<longleftrightarrow> i \<in> set F" "tag_at t i = REHASH \<longleftrightarrow> i \<in> R"
    "tag_at t i = HEAD \<longleftrightarrow> C i \<noteq> []" "tag_at t i = PROBE \<longleftrightarrow> (\<exists>h xs ys. C h = xs @ i # ys \<and> xs \<noteq> [])"
proof -
  note I = pool_invD [OF inv]
  have cover: "i \<in> set F \<union> R \<union> chained C" using i I(5) by (auto simp: parts_def)
  have F: "tag_at t i = EMPTY" if "i \<in> set F" using that I(2) by (simp add: free_ok_def)
  have R: "tag_at t i = REHASH" if "i \<in> R" using that I(4) by (simp add: loose_ok_def)
  have hd: "tag_at t i = HEAD" if "C i \<noteq> []"
    using chain_okD(4) [OF pool_chain(1) [OF inv that] that] .
  have tl: "tag_at t i = PROBE" if "C h = xs @ i # ys" "xs \<noteq> []" for h xs ys
  proof -
    have "C h \<noteq> []" "i \<in> set (tl (C h))" using that by (auto simp: hd_append neq_Nil_conv)
    then show ?thesis using chain_okD(5) [OF pool_chain(1) [OF inv]] by blast
  qed
  have split: "C i \<noteq> [] \<or> (\<exists>h xs ys. C h = xs @ i # ys \<and> xs \<noteq> [])" if ch: "i \<in> chained C"
  proof -
    obtain h where "i \<in> set (C h)" using ch by (auto simp: chained_def)
    then obtain xs ys where s: "C h = xs @ i # ys" by (metis in_set_conv_decomp)
    show ?thesis
    proof (cases "xs = []")
      case True
      then have "h = i" using s chain_okD(1) [OF pool_chain(1) [OF inv, of h]] by simp
      with s show ?thesis by auto
    qed (use s in blast)
  qed
  have kinds: "i \<in> set F \<or> i \<in> R \<or> C i \<noteq> [] \<or> (\<exists>h xs ys. C h = xs @ i # ys \<and> xs \<noteq> [])"
    using cover split by blast
  show "tag_at t i = EMPTY \<longleftrightarrow> i \<in> set F" using kinds F R hd tl by (metis pool_tag.distinct(1,3,5))
  show "tag_at t i = REHASH \<longleftrightarrow> i \<in> R" using kinds F R hd tl by (metis pool_tag.distinct(5,9,11))
  show "tag_at t i = HEAD \<longleftrightarrow> C i \<noteq> []" using kinds F R hd tl by (metis pool_tag.distinct(3,7,11))
  show "tag_at t i = PROBE \<longleftrightarrow> (\<exists>h xs ys. C h = xs @ i # ys \<and> xs \<noteq> [])"
    using kinds F R hd tl by (metis pool_tag.distinct(1,7,9))
qed

lemma linked_suffix: "linked t (xs @ y # ys) \<Longrightarrow> linked t (y # ys)"
  using path_append [of t xs y ys] by (auto simp: linked_def)

text \<open>Lookup: the offset of the key, or 0.\<close>

lemma inner_find_inv:
  assumes inv: "pool_inv hash t F C {} {}"
  obtains i where "inner_find hash t k = Inr i" "i = 0 \<Longrightarrow> k \<notin> fst ` pool_set t C {}"
    "i \<noteq> 0 \<Longrightarrow> i \<in> set (C (get_hash_head hash t k)) \<and> key_at t i = k"
proof -
  let ?h = "get_hash_head hash t k"
  note I = pool_invD [OF inv]
  have h: "0 < ?h" "?h \<le> pt_num_nodes t" using get_hash_head_range [OF I(1)] by blast+
  then have len: "?h < length (pt_mem t)" using I(1) by (simp add: space_ok_def)
  note tags = pool_tags [OF inv h]
  have where_k: "i \<in> set (C ?h)" if i: "i \<in> chained C" "key_at t i = k" for i
  proof -
    obtain g where g: "i \<in> set (C g)" using i(1) by (auto simp: chained_def)
    then have "C g \<noteq> []" by auto
    then have "?h = g" using chain_okD(7) [OF pool_chain(1) [OF inv]] g i(2) by blast
    with g show ?thesis by simp
  qed
  have absent: "k \<notin> fst ` pool_set t C {}" if no: "\<And>i. i \<in> set (C ?h) \<Longrightarrow> key_at t i \<noteq> k"
  proof
    assume "k \<in> fst ` pool_set t C {}"
    then obtain i where "i \<in> chained C" "key_at t i = k" unfolding pool_set_def by auto
    with where_k no show False by blast
  qed
  show thesis
  proof (cases "is_empty (nd t ?h)")
    case True
    then have "C ?h = []" using tags by (auto simp: is_empty_def)
    with True len absent show thesis by (intro that [of 0]) (simp_all add: inner_find_def)
  next
    case False
    then obtain g xs ys where g: "C g = xs @ ?h # ys"
    proof -
      have "?h \<in> chained C"
        using False tags I(5) h by (auto simp: is_empty_def parts_def)
      then show thesis using that by (auto simp: chained_def in_set_conv_decomp)
    qed
    then have ne: "C g \<noteq> []" by simp
    note P = pool_chain [OF inv ne] and D = chain_okD [OF pool_chain(1) [OF inv ne] ne]
    have l: "linked t (?h # ys)" using P(2) unfolding g by (rule linked_suffix)
    have it: "\<forall>i\<in>set (?h # ys). has_item t i" using D(6) g by auto
    have "length (?h # ys) \<le> pt_fuel t" using P(3) g by simp
    note f = find_loop_linked [OF l it this, of k]
    have res: "inner_find hash t k = find_loop (pt_fuel t) t k ?h"
      using False len by (simp add: inner_find_def)
    show thesis
    proof (cases "find (\<lambda>i. key_at t i = k) (?h # ys)")
      case None
      then have none: "\<forall>i\<in>set (?h # ys). key_at t i \<noteq> k" unfolding find_None_iff by blast
      have "key_at t i \<noteq> k" if "i \<in> set (C ?h)" for i
      proof (cases "g = ?h")
        case True
        then have "xs = []" using D(1,2) g by (cases xs) auto
        with g True that have "i \<in> set (?h # ys)" by simp
        with none show ?thesis by blast
      next
        case False
        then have "xs \<noteq> []" using D(1) g by auto
        then have "tag_at t ?h = PROBE" using tags(4) g by blast
        then have "C ?h = []" using tags(3) by simp
        with that show ?thesis by simp
      qed
      with None f res absent show thesis by (intro that [of 0]) simp_all
    next
      case (Some i)
      then have i: "i \<in> set (?h # ys)" "key_at t i = k"
        unfolding find_Some_iff by (metis nth_mem)+
      then have "i \<in> set (C ?h)" using where_k [of i] P(5) [of i] g by auto
      moreover have "i \<noteq> 0" using l i(1) unfolding linked_def by metis
      ultimately show thesis using Some f res i(2) by (intro that [of i]) simp_all
    qed
  qed
qed

end
