(* ===== verification/Pool_Insert.thy ===== *)
theory Pool_Insert
  imports Pool_Invariant
begin

text \<open>
  \<open>inner_allocate_not_exist_no_rehash\<close> of \<open>PoolHashTable\<close>: a new key finds its hash position empty, occupied
  by the head of its own chain, or by a node of another chain, which then moves.
  In all three cases the invariant holds again and the table has one more item.
\<close>

section \<open>Insertion\<close>

lemma chain_ok_single:
  assumes "tag_at t h = HEAD" "next_at t h = 0" "cell_at t h = Item x" "get_hash_head hash t (fst x) = h"
  shows "chain_ok hash t h [h]"
  using assms by (simp add: chain_ok_def has_item_def)

text \<open>A chain gets one more node at its end.\<close>

lemma chain_ok_snoc:
  assumes ok: "chain_ok hash t h c" and c: "c \<noteq> []" and f: "f \<notin> set c"
    and u: "pt_mask u = pt_mask t" "\<And>i. i \<in> set c \<Longrightarrow> i \<noteq> last c \<Longrightarrow> nd u i = nd t i"
      "nd u (last c) = set_next f (nd t (last c))"
    and n: "tag_at u f = PROBE" "next_at u f = 0" "cell_at u f = Item x"
    and x: "get_hash_head hash t (fst x) = h" "fst x \<notin> key_at t ` set c"
  shows "chain_ok hash u h (c @ [f])"
proof -
  note D = chain_okD [OF ok c]
  have last: "last c \<in> set c" using c by simp
  have cell: "cell_at u i = cell_at t i" and tag: "tag_at u i = tag_at t i" if "i \<in> set c" for i
    using u(2) [OF that] u(3) by (cases "i = last c"; simp add: set_next_def)+
  have "next_at u i = next_at t i" if "i \<in> set (butlast c)" for i
  proof -
    have "c = butlast c @ [last c]" using c by simp
    then have "i \<noteq> last c" using D(2) that by (metis distinct_append disjoint_iff list.set_intros(1))
    then show ?thesis using u(2) [of i] in_set_butlastD [OF that] by simp
  qed
  then have "path u (c @ [f])"
    using D(2,3) c f n(2) u(3) by (intro path_snocI [of t]) (auto simp: set_next_def)
  moreover have "map (key_at u) (c @ [f]) = map (key_at t) c @ [fst x]" using cell n(3) by simp
  moreover have "tag_at u i = PROBE" if "i \<in> set (tl (c @ [f]))" for i
    using that c tag [of i] D(5) [of i] n(1) list.set_sel(2) [OF c] by (auto simp: tl_append2)
  moreover have "tag_at u h = HEAD" using tag [of h] D(1,4) c hd_in_set [OF c] by simp
  moreover have "has_item u i \<and> get_hash_head hash u (key_at u i) = h" if "i \<in> set (c @ [f])" for i
    using that cell [of i] D(6,7) [of i] n(3) x(1) u(1)
    by (auto simp: has_item_def get_hash_head_def)
  moreover have "distinct (map (key_at u) (c @ [f]))"
    unfolding calculation(2) using D(8) x(2) by simp
  ultimately show ?thesis using D(1,2) c f unfolding chain_ok_def by auto
qed

lemma move_item_in:
  assumes "dst < length (pt_mem t)" "src < length (pt_mem t)" "cell_at t src = Item x"
  shows "move_item t dst src = Inr (mem_upd (mem_upd t src
     (put_cell (if pt_trivial t then Item x else Raw))) dst (put_cell (Item x)))"
  using assms by (simp add: move_item_def move_cell_def cell_item_def)

text \<open>Shifting the items along a list of nodes.\<close>

lemma shift_items_spec:
  assumes "distinct (zs @ [p])" "\<forall>i\<in>set (zs @ [p]). i < length (pt_mem t)" "\<forall>i\<in>set zs. has_item t i"
  obtains u where "shift_items t p (rev zs) = Inr u" "same_space t u" "pt_num_items u = pt_num_items t"
    "\<forall>i. tag_at u i = tag_at t i \<and> next_at u i = next_at t i"
    "\<forall>i. i \<notin> set (zs @ [p]) \<longrightarrow> nd u i = nd t i"
    "map (cell_at u) (tl (zs @ [p])) = map (cell_at t) zs"
  using assms
proof (induction zs arbitrary: t p thesis rule: rev_induct)
  case Nil
  then show ?case by simp
next
  case (snoc z zs)
  let ?x = "item_at t z"
  have z: "z < length (pt_mem t)" "cell_at t z = Item ?x" "p < length (pt_mem t)" "z \<noteq> p"
    using snoc.prems(2-4) has_itemD [of t z] by auto
  let ?t = "mem_upd (mem_upd t z (put_cell (if pt_trivial t then Item ?x else Raw))) p (put_cell (Item ?x))"
  have mv: "move_item t p z = Inr ?t" using move_item_in [OF z(3,1,2)] .
  have nd: "nd ?t i = (if i = p then put_cell (Item ?x) (nd t p) else
      if i = z then put_cell (if pt_trivial t then Item ?x else Raw) (nd t z) else nd t i)" for i
    using z by simp
  have "\<forall>i\<in>set zs. has_item ?t i" using snoc.prems(2,4) nd by (auto simp: has_item_def)
  moreover have "distinct (zs @ [z])" "\<forall>i\<in>set (zs @ [z]). i < length (pt_mem ?t)"
    using snoc.prems(2,3) by auto
  ultimately obtain u where u: "shift_items ?t z (rev zs) = Inr u" "same_space ?t u"
    "pt_num_items u = pt_num_items ?t" "\<forall>i. tag_at u i = tag_at ?t i \<and> next_at u i = next_at ?t i"
    "\<forall>i. i \<notin> set (zs @ [z]) \<longrightarrow> nd u i = nd ?t i"
    "map (cell_at u) (tl (zs @ [z])) = map (cell_at ?t) zs"
    using snoc.IH by blast
  have p: "cell_at u p = Item ?x" using u(5) snoc.prems(2) nd [of p] by (auto simp: put_cell_def)
  have "map (cell_at ?t) zs = map (cell_at t) zs" using snoc.prems(2) nd by auto
  then have "map (cell_at u) (tl (zs @ [z, p])) = map (cell_at t) (zs @ [z])"
    using u(6) p z(2) by (cases zs) auto
  moreover have "nd u i = nd t i" if "i \<notin> set ((zs @ [z]) @ [p])" for i
    using that u(5) nd [of i] by auto
  moreover have "tag_at u i = tag_at t i \<and> next_at u i = next_at t i" for i
    using u(4) nd [of i] by (auto simp: put_cell_def)
  ultimately show ?case
    using u(1-3) mv by (intro snoc.prems(1) [of u]) (simp_all add: same_space_def)
qed

lemma path_skip:
  assumes "path t (xs @ h # zs)" "xs \<noteq> []" "zs \<noteq> []" "distinct (xs @ h # zs)"
    and "next_at u (last xs) = hd zs" "\<And>i. i \<in> set (butlast xs @ zs) \<Longrightarrow> next_at u i = next_at t i"
  shows "path u (xs @ zs)"
  using assms
proof (induction xs rule: induct_list012)
  case (2 x)
  then have "path t zs" by (cases zs) auto
  moreover have "path u zs = path t zs" using 2 by (intro path_cong) auto
  ultimately show ?case using 2 by (cases zs) auto
next
  case (3 x y xs)
  have "path u ((y # xs) @ zs)" using 3 by (intro 3(2)) auto
  with 3 show ?case by auto
qed simp

lemma tag_PROBE_not [simp]:
  "\<not> is_empty (put_tag HEAD n)" "\<not> is_rehashing (put_tag HEAD n)"
  by (simp_all add: is_empty_def is_rehashing_def put_tag_def)

lemma probe_node_last:
  assumes "pool_inv hash t F C R L" "i \<in> R \<union> chained C"
  shows "probe_node t i = Inr (last (0 # F))"
    and "i \<in> chained C \<Longrightarrow> probe_node_rehash t i = Inr (last (0 # F))"
proof -
  note I = pool_invD [OF assms(1)]
  have i: "i \<noteq> 0" "i < length (pt_mem t)" using pool_inv_in [OF assms(1), of i] assms(2) by auto
  have tag: "tag_at t i \<in> {HEAD, PROBE}" if ch: "i \<in> chained C"
  proof -
    obtain h where h: "i \<in> set (C h)" using ch by (auto simp: chained_def)
    then have ne: "C h \<noteq> []" by auto
    note D = chain_okD [OF pool_chain(1) [OF assms(1) ne] ne]
    show ?thesis using h ne D(1,4,5) by (cases "C h") auto
  qed
  have "tag_at t i \<noteq> EMPTY" using tag assms(2) I(4) by (auto simp: loose_ok_def)
  then show "probe_node t i = Inr (last (0 # F))"
    using probe_loop_once [OF i, of is_empty] free_ok_last [OF I(2)]
    by (simp add: probe_node_def is_empty_def)
  show "probe_node_rehash t i = Inr (last (0 # F))" if "i \<in> chained C"
    using probe_loop_once [OF i, of "\<lambda>n. is_empty n \<or> is_rehashing n"] tag [OF that] free_ok_last [OF I(2)]
    by (auto simp: probe_node_rehash_def is_empty_def is_rehashing_def)
qed


text \<open>The tail of a chain and a free node, linked to it but still without an item.\<close>

lemma append_node:
  assumes inv: "pool_inv hash t F C R L" and c: "C h \<noteq> []" and F: "F \<noteq> []"
    and n: "pt_num_items t + 1 < 2 ^ 64" and l: "l = last (C h)" and f: "f = last F"
  obtains u w where "chain_tail (pt_fuel t) t h = Inr l" "probe_node t l = Inr f"
    "probe_node_rehash t l = Inr f" "allocate_node t f = Inr u" "upd_node u l (set_next f) = Inr w"
    "pool_inv hash w (remove1 f F) (C(h := [])) R (insert f (L \<union> set (C h)))"
    "nd w f = put_tag PROBE (nd t f)" "nd w l = set_next f (nd t l)"
    "\<forall>j\<in>R \<union> L \<union> chained C. j \<noteq> l \<longrightarrow> nd w j = nd t j"
    "pt_num_items w = pt_num_items t + 1" "same_space t w"
    "pool_set w (C(h := [])) R = pool_set t (C(h := [])) R"
proof -
  note P = pool_chain [OF inv c] and I = pool_invD [OF inv]
  have lc: "l \<in> set (C h)" using c l by simp
  then have lx: "l \<in> chained C" using P(5) by simp
  have fF: "f \<in> set F" using F f by simp
  obtain c' where ch: "C h = h # c'" using c chain_okD(1) [OF P(1) c] by (cases "C h") auto
  have tail: "chain_tail (pt_fuel t) t h = Inr l"
    using chain_tail_linked [of t h c' "pt_fuel t"] P(2,3) ch l by simp
  have probe: "probe_node t l = Inr f" "probe_node_rehash t l = Inr f"
    using probe_node_last [OF inv, of l] lx F f by simp_all
  note inv1 = pool_inv_detach(1) [OF inv, of h]
  obtain u where u: "allocate_node t f = Inr u"
    "pool_inv hash u (remove1 f F) (C(h := [])) R (insert f (L \<union> set (C h)))"
    "nd u f = put_tag PROBE (nd t f)"
    "\<forall>j\<in>R \<union> (L \<union> set (C h)) \<union> chained (C(h := [])). nd u j = nd t j"
    "pt_num_items u = pt_num_items t + 1" "same_space t u"
    "pool_set u (C(h := [])) R = pool_set t (C(h := [])) R"
    using pool_inv_allocate [OF inv1 fF n] by blast
  have ch_split: "chained C = set (C h) \<union> chained (C(h := []))"
    by (simp add: chained_upd chained_split [of C h])
  have ll: "l \<in> insert f (L \<union> set (C h))" using lc by simp
  have llen: "l < length (pt_mem u)" using pool_inv_in(3) [OF u(2)] ll by blast
  have lf: "l \<noteq> f" using partsD(2) [OF I(5) fF] lx by auto
  define w where "w = mem_upd u l (set_next f)"
  have nw: "nd w j = (if j = l then set_next f (nd u l) else nd u j)" for j
    using llen by (simp add: w_def)
  show thesis
  proof (rule that [OF tail probe u(1)])
    show "upd_node u l (set_next f) = Inr w" using llen by (simp add: w_def)
    show "pool_inv hash w (remove1 f F) (C(h := [])) R (insert f (L \<union> set (C h)))"
      unfolding w_def by (rule pool_inv_write(1) [OF u(2) ll])
    show "nd w f = put_tag PROBE (nd t f)" using nw u(3) lf by simp
    show "nd w l = set_next f (nd t l)" using nw u(4) lc by simp
    show "\<forall>j\<in>R \<union> L \<union> chained C. j \<noteq> l \<longrightarrow> nd w j = nd t j"
      using nw u(4) unfolding ch_split by auto
    show "pool_set w (C(h := [])) R = pool_set t (C(h := [])) R"
      unfolding w_def using pool_inv_write(2) [OF u(2) ll] u(7) by simp
  qed (use u(5,6) in \<open>simp_all add: w_def\<close>)
qed

lemma append_finish:
  assumes inv: "pool_inv hash v F' (C(h := [])) R L" and ok: "chain_ok hash t h (C h)" and c: "C h \<noteq> []"
    and sub: "insert f (set (C h)) \<subseteq> L" and f: "f \<notin> set (C h)" and sp: "same_space t v"
    and nd: "nd v (last (C h)) = set_next f (nd t (last (C h)))"
      "\<And>j. j \<in> set (C h) \<Longrightarrow> j \<noteq> last (C h) \<Longrightarrow> nd v j = nd t j"
      "tag_at v f = PROBE" "next_at v f = 0" "cell_at v f = Item x"
    and x: "get_hash_head hash t (fst x) = h" "fst x \<notin> key_at t ` set (C h)" "fst x \<notin> key_at v ` R"
    and R: "key_at v ` R \<inter> key_at t ` set (C h) = {}"
  shows "pool_inv hash v F' (C(h := C h @ [f])) R (L - insert f (set (C h)))"
    and "pool_set v (C(h := C h @ [f])) R = insert x (item_at t ` set (C h) \<union> pool_set v (C(h := [])) R)"
proof -
  have "chain_ok hash v h (C h @ [f])"
    using sp nd x by (intro chain_ok_snoc [OF ok c f]) (auto simp: same_space_def)
  moreover have cell: "cell_at v j = cell_at t j" if "j \<in> set (C h)" for j
    using nd(1,2) that by (cases "j = last (C h)") (auto simp: set_next_def)
  have "item_at v ` set (C h) = item_at t ` set (C h)" using cell by (intro image_cong) simp_all
  then have it: "item_at v ` set (C h @ [f]) = insert x (item_at t ` set (C h))"
    using nd(5) by simp
  have "key_at v ` set (C h) = key_at t ` set (C h)" using cell by (intro image_cong) simp_all
  then have "key_at v ` set (C h @ [f]) = insert (fst x) (key_at t ` set (C h))" using nd(5) by simp
  then have "key_at v ` R \<inter> key_at v ` set (C h @ [f]) = {}" using x(3) R by auto
  moreover have "set (C h @ [f]) \<subseteq> L" using sub by auto
  ultimately have at: "pool_inv hash v F' ((C(h := []))(h := C h @ [f])) R (L - set (C h @ [f]))"
    "pool_set v ((C(h := []))(h := C h @ [f])) R = item_at v ` set (C h @ [f]) \<union> pool_set v (C(h := [])) R"
    using pool_inv_attach [OF inv, of h "C h @ [f]"] by (simp_all del: set_append)
  show "pool_inv hash v F' (C(h := C h @ [f])) R (L - insert f (set (C h)))" using at(1) by simp
  show "pool_set v (C(h := C h @ [f])) R = insert x (item_at t ` set (C h) \<union> pool_set v (C(h := [])) R)"
    using at(2) unfolding it by simp
qed

lemma put_item_in: "i < length (pt_mem t) \<Longrightarrow> put_item t i x = Inr (mem_upd t i (put_cell (Item x)))"
  by (simp add: put_item_def)

text \<open>The three branches of \<open>inner_allocate_not_exist_no_rehash\<close>, each with the item stored.\<close>

definition inserted :: "('k \<Rightarrow> nat) \<Rightarrow> ('k, 'v) pool_table \<Rightarrow> (nat \<Rightarrow> nat list) \<Rightarrow> 'k \<times> 'v
    \<Rightarrow> ('k, 'v) pool_table \<Rightarrow> nat \<Rightarrow> bool" where
  "inserted hash t C x v i \<longleftrightarrow> (\<exists>F' C'. pool_inv hash v F' C' {} {} \<and>
     pool_set v C' {} = insert x (pool_set t C {}) \<and> i \<in> chained C') \<and> cell_at v i = Item x \<and>
     pt_num_items v = pt_num_items t + 1 \<and> same_space t v"

lemma insert_empty:
  assumes inv: "pool_inv hash t F C {} {}" and n: "pt_num_items t + 1 < 2 ^ 64"
    and h: "h = get_hash_head hash t (fst x)" "h \<in> set F"
  shows "\<exists>u v. inner_allocate_not_exist_no_rehash hash t (fst x) = Inr (u, h) \<and>
    put_item u h x = Inr v \<and> inserted hash t C x v h"
proof -
  note I = pool_invD [OF inv]
  have hr: "0 < h" "h \<le> pt_num_nodes t" "h < length (pt_mem t)" using pool_inv_in [OF inv, of h] h by auto
  note tags = pool_tags [OF inv hr(1,2)]
  have "C h = []" using tags(1,3) h(2) by auto
  obtain u where u: "allocate_node t h = Inr u" "pool_inv hash u (remove1 h F) C {} {h}"
    "nd u h = put_tag PROBE (nd t h)" "pt_num_items u = pt_num_items t + 1" "same_space t u"
    "pool_set u C {} = pool_set t C {}"
    using pool_inv_allocate [OF inv h(2) n] by metis
  have len: "h < length (pt_mem u)" using u(5) hr(3) by (simp add: same_space_def)
  let ?w = "mem_upd u h (put_tag HEAD)" let ?v = "mem_upd ?w h (put_cell (Item x))"
  have w: "pool_inv hash ?w (remove1 h F) C {} {h}" "pool_set ?w C {} = pool_set u C {}"
    using pool_inv_write [OF u(2), of h] by simp_all
  have v: "pool_inv hash ?v (remove1 h F) C {} {h}" "pool_set ?v C {} = pool_set ?w C {}"
    using pool_inv_write [OF w(1), of h] by simp_all
  have nv: "nd ?v h = \<lparr>pn_tag = HEAD, pn_next = 0, pn_cell = Item x\<rparr>"
    using len by (simp add: put_cell_def put_tag_def)
  have "chain_ok hash ?v h [h]"
    using nv h(1) u(5) by (intro chain_ok_single) (simp_all add: same_space_def get_hash_head_def)
  then have "pool_inv hash ?v (remove1 h F) (C(h := [h])) {} {}"
    "pool_set ?v (C(h := [h])) {} = insert x (pool_set t C {})"
    using pool_inv_attach [OF v(1) \<open>C h = []\<close>, of "[h]"] nv v(2) w(2) u(6) by simp_all
  moreover have "h \<in> chained (C(h := [h]))" by (simp add: chained_upd)
  ultimately have "inserted hash t C x ?v h"
    using nv u(4,5) unfolding inserted_def by (intro conjI exI) simp_all
  moreover have "tag_at t h = EMPTY" using tags h(2) by simp
  then have "inner_allocate_not_exist_no_rehash hash t (fst x) = Inr (?w, h)"
    using hr(3) u(1) len by (simp add: inner_allocate_not_exist_no_rehash_def h(1) [symmetric] is_empty_def)
  moreover have "put_item ?w h x = Inr ?v" using len by (simp add: put_item_in)
  ultimately show ?thesis by blast
qed

lemma insert_append:
  assumes inv: "pool_inv hash t F C {} {}" and n: "pt_num_items t + 1 < 2 ^ 64" and F: "F \<noteq> []"
    and h: "h = get_hash_head hash t (fst x)" "C h \<noteq> []" and fresh: "fst x \<notin> fst ` pool_set t C {}"
  shows "\<exists>u v. inner_allocate_not_exist_no_rehash hash t (fst x) = Inr (u, last F) \<and>
    put_item u (last F) x = Inr v \<and> inserted hash t C x v (last F)"
proof -
  note I = pool_invD [OF inv]
  note P = pool_chain [OF inv h(2)]
  define l f where lf: "l = last (C h)" "f = last F"
  obtain u w where w: "chain_tail (pt_fuel t) t h = Inr l" "probe_node t l = Inr f"
    "allocate_node t f = Inr u" "upd_node u l (set_next f) = Inr w"
    "pool_inv hash w (remove1 f F) (C(h := [])) {} (insert f ({} \<union> set (C h)))"
    "nd w f = put_tag PROBE (nd t f)" "nd w l = set_next f (nd t l)"
    "\<forall>j\<in>{} \<union> {} \<union> chained C. j \<noteq> l \<longrightarrow> nd w j = nd t j"
    "pt_num_items w = pt_num_items t + 1" "same_space t w"
    "pool_set w (C(h := [])) {} = pool_set t (C(h := [])) {}"
    using append_node [OF inv h(2) F n lf] by metis
  have winv: "pool_inv hash w (remove1 f F) (C(h := [])) {} (insert f (set (C h)))" using w(5) by simp
  have fF: "f \<in> set F" using F lf by simp
  have fc: "f \<notin> set (C h)" using partsD(2) [OF I(5) fF] P(5) by blast
  have len: "f < length (pt_mem w)" using pool_inv_in(3) [OF winv, of f] by simp
  let ?v = "mem_upd w f (put_cell (Item x))"
  have v: "pool_inv hash ?v (remove1 f F) (C(h := [])) {} (insert f (set (C h)))"
    "pool_set ?v (C(h := [])) {} = pool_set t (C(h := [])) {}"
    using pool_inv_write [OF winv, of f] w(11) by simp_all
  have key: "fst x \<notin> key_at t ` set (C h)"
    using fresh P(5) unfolding pool_set_def by (auto simp: image_iff)
  have nv: "nd ?v j = (if j = f then put_cell (Item x) (nd w f) else nd w j)" for j using len by simp
  have tail: "last (C h) \<noteq> f" using fc last_in_set [OF h(2)] by auto
  have nvl: "nd ?v (last (C h)) = set_next f (nd t (last (C h)))" using nv tail w(7) lf(1) by simp
  have nvj: "nd ?v j = nd t j" if "j \<in> set (C h)" "j \<noteq> last (C h)" for j
    using that w(8) P(5) [of j] fc nv [of j] lf(1) by auto
  have nvf: "tag_at ?v f = PROBE" "next_at ?v f = 0" "cell_at ?v f = Item x"
    using nv w(6) by (simp_all add: put_cell_def put_tag_def)
  have sub: "insert f (set (C h)) \<subseteq> insert f (set (C h))" ..
  have sp: "same_space t ?v" using w(10) by simp
  note fin = append_finish [OF v(1) P(1) h(2) sub fc sp nvl nvj nvf h(1) [symmetric] key]
  have "pool_set ?v (C(h := C h @ [f])) {} = insert x (pool_set t C {})"
    using fin(2) unfolding v(2) pool_inv_detach(2) [OF inv, of h] by simp
  moreover have "pool_inv hash ?v (remove1 f F) (C(h := C h @ [f])) {} {}" using fin(1) by simp
  moreover have "f \<in> chained (C(h := C h @ [f]))" by (simp add: chained_upd)
  ultimately have "inserted hash t C x ?v f"
    using nv [of f] w(9,10) unfolding inserted_def
    by (intro conjI exI [of _ "remove1 f F"] exI [of _ "C(h := C h @ [f])"]) (simp_all add: put_cell_def)
  moreover have hr: "h < length (pt_mem t)" using pool_inv_in(3) [OF inv, of h] P(4,5) by simp
  have "tag_at t h = HEAD" using chain_okD(4) [OF P(1) h(2)] .
  then have "inner_allocate_not_exist_no_rehash hash t (fst x) = Inr (w, f)"
    using hr w(1-4)
    by (simp add: inner_allocate_not_exist_no_rehash_def h(1) [symmetric] is_empty_def is_head_def)
  ultimately show ?thesis using len lf by (auto simp: put_item_in)
qed


text \<open>A chain that holds the cells of another one.\<close>

lemma chain_ok_cells:
  assumes ok: "chain_ok hash t h c" and c: "c \<noteq> []"
    and v: "pt_mask v = pt_mask t" "map (cell_at v) c' = map (cell_at t) c"
    and c': "hd c' = h" "distinct c'" "path v c'" "tag_at v h = HEAD" "\<And>i. i \<in> set (tl c') \<Longrightarrow> tag_at v i = PROBE"
  shows "chain_ok hash v h c'" and "item_at v ` set c' = item_at t ` set c"
    and "key_at v ` set c' = key_at t ` set c"
proof -
  note D = chain_okD [OF ok c]
  have items: "map (item_at v) c' = map (item_at t) c"
    using arg_cong [OF v(2), of "map item_of"] by (simp add: comp_def)
  have keys: "map (key_at v) c' = map (key_at t) c"
    using arg_cong [OF items, of "map fst"] by (simp add: comp_def)
  from arg_cong [OF items, of set] show "item_at v ` set c' = item_at t ` set c" by simp
  from arg_cong [OF keys, of set] show k: "key_at v ` set c' = key_at t ` set c" by simp
  have cells: "cell_at v ` set c' = cell_at t ` set c" using arg_cong [OF v(2), of set] by simp
  have "has_item v i \<and> get_hash_head hash v (key_at v i) = h" if "i \<in> set c'" for i
  proof -
    have "cell_at v i \<in> cell_at t ` set c" using that cells by blast
    then obtain j where "j \<in> set c" "cell_at v i = cell_at t j" by blast
    with D(6,7) [of j] v(1) show ?thesis by (simp add: has_item_def get_hash_head_def)
  qed
  with c' D(8) keys show "chain_ok hash v h c'" by (simp add: chain_ok_def)
qed

lemma insert_evict:
  assumes inv: "pool_inv hash t F C {} {}" and n: "pt_num_items t + 1 < 2 ^ 64" and F: "F \<noteq> []"
    and h: "h = get_hash_head hash t (fst x)" and g: "C g = xs @ h # ys" "xs \<noteq> []"
  shows "\<exists>u v. inner_allocate_not_exist_no_rehash hash t (fst x) = Inr (u, h) \<and>
    put_item u h x = Inr v \<and> inserted hash t C x v h"
proof -
  note I = pool_invD [OF inv]
  have ne: "C g \<noteq> []" using g by simp
  note P = pool_chain [OF inv ne] and D = chain_okD [OF pool_chain(1) [OF inv ne] ne]
  define zs f prev where d: "zs = h # ys" "f = last F" "prev = last zs"
  have cg: "C g = xs @ zs" using g d by simp
  have xg: "hd xs = g" using D(1) g by simp
  have hin: "h \<in> set (C g)" using g by simp
  have hr: "0 < h" "h \<le> pt_num_nodes t" "h < length (pt_mem t)"
    using pool_inv_in [OF inv, of h] P(5) [OF hin] by auto
  have tagh: "tag_at t h = PROBE" using pool_tags(4) [OF inv hr(1,2)] g by blast
  then have Ch: "C h = []" using pool_tags(3) [OF inv hr(1,2)] by simp
  have dist: "distinct (xs @ zs)" using D(2) cg by simp
  have fF: "f \<in> set F" using F d by simp
  have fc: "f \<notin> set (xs @ zs)" using partsD(2) [OF I(5) fF] P(5) cg by auto
  have pz: "prev \<in> set zs" using d by simp
  have hz: "chain_nodes (pt_fuel t) t h = Inr zs"
    using chain_nodes_linked [of t h ys "pt_fuel t"] linked_suffix [of t xs h ys] P(2,3) g d by simp
  have probe: "probe_node t prev = Inr f"
    using probe_node_last(1) [OF inv, of prev] P(5) [of prev] pz cg F d by simp
  have key: "get_key t h = Inr (key_at t h)" "get_hash_head hash t (key_at t h) = g"
    using D(6,7) [OF hin] has_itemD [of t h] hr(3) by simp_all
  let ?L = "insert f ({} \<union> set (C g))" let ?F = "remove1 f F"
  obtain u where u: "allocate_node t f = Inr u" "pool_inv hash u ?F (C(g := [])) {} ?L"
    "nd u f = put_tag PROBE (nd t f)"
    "\<forall>j\<in>{} \<union> ({} \<union> set (C g)) \<union> chained (C(g := [])). nd u j = nd t j"
    "pt_num_items u = pt_num_items t + 1" "same_space t u"
    "pool_set u (C(g := [])) {} = pool_set t (C(g := [])) {}"
    using pool_inv_allocate [OF pool_inv_detach(1) [OF inv, of g] fF n] by metis
  have len: "i < length (pt_mem u)" if "i \<in> set (xs @ zs @ [f])" for i
    using pool_inv_in(3) [OF u(2), of i] that cg by auto
  have ndu: "nd u i = nd t i" if "i \<in> set (xs @ zs)" for i using u(4) that cg by auto
  let ?w = "mem_upd u prev (set_next f)"
  have plen: "prev < length (pt_mem u)" using len pz by simp
  have ndw: "nd ?w i = (if i = prev then set_next f (nd u prev) else nd u i)" for i using plen by simp
  have wi: "pool_inv hash ?w ?F (C(g := [])) {} ?L" "pool_set ?w (C(g := [])) {} = pool_set u (C(g := [])) {}"
    using pool_inv_write [OF u(2), of prev] pz cg by simp_all
  have sh: "distinct (zs @ [f])" "\<forall>i\<in>set (zs @ [f]). i < length (pt_mem ?w)"
    using dist fc len by auto
  have "\<forall>i\<in>set zs. has_item ?w i"
    using D(6) cg ndw ndu by (auto simp: has_item_def set_next_def)
  with sh obtain s where s: "shift_items ?w f (rev zs) = Inr s" "same_space ?w s"
    "pt_num_items s = pt_num_items ?w" "\<forall>i. tag_at s i = tag_at ?w i \<and> next_at s i = next_at ?w i"
    "\<forall>i. i \<notin> set (zs @ [f]) \<longrightarrow> nd s i = nd ?w i"
    "map (cell_at s) (tl (zs @ [f])) = map (cell_at ?w) zs"
    by (rule shift_items_spec [of zs f ?w])
  have si: "pool_inv hash s ?F (C(g := [])) {} ?L" "pool_set s (C(g := [])) {} = pool_set ?w (C(g := [])) {}"
    using pool_inv_cong [OF wi(1) s(2,3)] s(5) cg by auto
  have slen: "i < length (pt_mem s)" if "i \<in> set (xs @ zs @ [f])" for i
    using len [OF that] s(2) by (simp add: same_space_def)
  have nexts: "next_at s i = (if i = prev then f else if i = f then 0 else next_at t i)"
    if "i \<in> set (xs @ zs @ [f])" for i
    using s(4) ndw [of i] ndu [of i] u(3) that fc pz by (auto simp: set_next_def put_tag_def)
  have "path s ((xs @ zs) @ [f])"
  proof (rule path_snocI [of t])
    show "path t (xs @ zs)" using D(3) cg by simp
    show "next_at s i = next_at t i" if "i \<in> set (butlast (xs @ zs))" for i
    proof -
      have "i \<noteq> prev" using that dist d by (auto simp: butlast_append dest: in_set_butlastD
          split: if_splits) (metis append_butlast_last_id distinct_append disjoint_iff list.set_intros(1)
          list.distinct(1))
      with nexts [of i] in_set_butlastD [OF that] fc show ?thesis by auto
    qed
  qed (use nexts dist fc d in auto)
  then have path_s: "path s (xs @ h # ys @ [f])" using d by simp
  have before: "find_node_before (pt_fuel s) s g h = Inr (last xs)"
  proof -
    have e: "butlast xs @ [last xs] = xs" using g(2) by simp
    then have eq: "xs @ h # ys @ [f] = butlast xs @ last xs # h # ys @ [f]"
      by (metis append.assoc append_Cons append_Nil)
    have "length xs \<le> pt_fuel s"
      using P(3) g(1) s(2) u(6) by (simp add: pt_fuel_def same_space_def)
    then show ?thesis
      using find_node_before_path [of "butlast xs" "last xs" s h "ys @ [f]" "pt_fuel s"] path_s dist fc d slen
      unfolding eq [symmetric] e xg by auto
  qed
  define nx where "nx = hd (ys @ [f])"
  have nxt: "next_at s h = nx"
    using path_append [OF path_s] unfolding nx_def by (cases ys) auto
  have lx: "last xs \<in> set xs" using g(2) by simp
  have lh: "last xs \<noteq> h" using lx dist d by auto
  let ?a = "mem_upd s (last xs) (set_next nx)" let ?b = "mem_upd ?a h (put_tag HEAD)"
  let ?v = "mem_upd ?b h (put_cell (Item x))"
  have hL: "h \<in> ?L" "last xs \<in> ?L" using cg lx d by auto
  have ai: "pool_inv hash ?a ?F (C(g := [])) {} ?L" "pool_set ?a (C(g := [])) {} = pool_set s (C(g := [])) {}"
    using pool_inv_write [OF si(1) hL(2)] by simp_all
  have bi: "pool_inv hash ?b ?F (C(g := [])) {} ?L" "pool_set ?b (C(g := [])) {} = pool_set ?a (C(g := [])) {}"
    using pool_inv_write [OF ai(1) hL(1)] by simp_all
  have vi: "pool_inv hash ?v ?F (C(g := [])) {} ?L" "pool_set ?v (C(g := [])) {} = pool_set ?b (C(g := [])) {}"
    using pool_inv_write [OF bi(1) hL(1)] by simp_all
  have hlen: "h < length (pt_mem s)" "last xs < length (pt_mem s)" using slen lx d by auto
  have ndv: "nd ?v i = (if i = h then \<lparr>pn_tag = HEAD, pn_next = 0, pn_cell = Item x\<rparr>
      else if i = last xs then set_next nx (nd s i) else nd s i)" for i
    using hlen lh by (simp add: put_cell_def put_tag_def)
  let ?c = "xs @ ys @ [f]"
  have hc: "h \<notin> set ?c" using dist fc d by auto
  have butlast_x: "i \<noteq> last xs" if "i \<in> set (butlast xs @ ys @ [f])" for i
  proof -
    have "distinct (butlast xs @ [last xs])" using dist g(2) by simp
    then show ?thesis using that dist fc d lx by auto
  qed
  have "path ?v (xs @ (ys @ [f]))"
  proof (rule path_skip [OF path_s g(2)])
    show "next_at ?v (last xs) = hd (ys @ [f])" using ndv [of "last xs"] lh by (simp add: set_next_def nx_def)
    show "next_at ?v i = next_at s i" if "i \<in> set (butlast xs @ ys @ [f])" for i
    proof -
      have "i \<noteq> h" using that hc by (auto dest: in_set_butlastD)
      then show ?thesis
        using ndv [of i] that butlast_x by (simp add: set_next_def)
    qed
  qed (use dist fc d in auto)
  moreover have "map (cell_at ?v) ?c = map (cell_at t) (C g)"
  proof -
    have "cell_at ?v i = cell_at t i" if "i \<in> set xs" for i
    proof -
      have "i \<notin> set (zs @ [f])" using that dist fc by auto
      then have "nd s i = nd ?w i" using s(5) by blast
      then have "cell_at s i = cell_at t i" using ndw [of i] ndu [of i] that pz dist by (auto simp: set_next_def)
      with ndv [of i] that hc show ?thesis by (auto simp: set_next_def)
    qed
    moreover have "map (cell_at ?v) (ys @ [f]) = map (cell_at t) zs"
    proof -
      have "cell_at ?v i = cell_at s i" if "i \<in> set (ys @ [f])" for i
        using ndv [of i] that hc lx dist fc d by (auto simp: set_next_def)
      then have "map (cell_at ?v) (ys @ [f]) = map (cell_at s) (tl (zs @ [f]))" by (simp add: d)
      also have "\<dots> = map (cell_at t) zs"
        unfolding s(6) using ndw ndu by (intro map_cong) (auto simp: set_next_def)
      finally show ?thesis .
    qed
    ultimately show ?thesis unfolding cg by simp
  qed
  moreover have tags: "tag_at ?v i = (if i = f then PROBE else tag_at t i)" if "i \<in> set ?c" for i
  proof -
    have ih: "i \<noteq> h" using that hc by blast
    have "tag_at ?v i = tag_at s i" using ndv [of i] ih by (simp add: set_next_def)
    moreover have "tag_at s i = tag_at ?w i" using s(4) by blast
    moreover have "tag_at ?w i = tag_at u i" using ndw [of i] by (simp add: set_next_def)
    moreover have "tag_at u i = (if i = f then PROBE else tag_at t i)"
      using ndu [of i] u(3) that d(1) by (auto simp: put_tag_def)
    ultimately show ?thesis by simp
  qed
  have "tag_at ?v i = PROBE" if "i \<in> set (tl ?c)" for i
  proof -
    have "i \<in> set (tl (C g)) \<or> i = f" "i \<in> set ?c" using that g by (cases xs; auto)+
    with tags D(5) show ?thesis by auto
  qed
  moreover have "tag_at ?v g = HEAD"
    using tags [of g] D(4) xg g(2) fc hd_in_set [OF g(2)] by (auto split: if_splits)
  moreover have msk: "pt_mask ?v = pt_mask t" using s(2) u(6) by (simp add: same_space_def)
  moreover have "hd ?c = g" "distinct ?c" using xg g(2) dist fc d by auto
  ultimately have ok: "chain_ok hash ?v g ?c" "item_at ?v ` set ?c = item_at t ` set (C g)"
    using chain_ok_cells [OF P(1) ne, of ?v ?c] by auto
  have sub: "set ?c \<subseteq> ?L" using cg d by auto
  have L': "?L - set ?c = {h}" using cg d hc by auto
  have at: "pool_inv hash ?v ?F (C(g := ?c)) {} {h}"
    "pool_set ?v (C(g := ?c)) {} = item_at t ` set (C g) \<union> pool_set ?v (C(g := [])) {}"
    using pool_inv_attach [OF vi(1) _ ok(1) sub] unfolding L' ok(2) by simp_all
  have gh: "g \<noteq> h" using xg g(2) hc hd_in_set by fastforce
  have okh: "chain_ok hash ?v h [h]"
    using ndv [of h] h msk by (intro chain_ok_single) (simp_all add: get_hash_head_def)
  have fin: "pool_inv hash ?v ?F (C(g := ?c, h := [h])) {} {}"
    "pool_set ?v (C(g := ?c, h := [h])) {} = insert x (pool_set ?v (C(g := ?c)) {})"
    using pool_inv_attach [OF at(1) _ okh] Ch gh ndv [of h] by simp_all
  have "pool_set ?v (C(g := ?c, h := [h])) {} = insert x (pool_set t C {})"
    unfolding fin(2) at(2) vi(2) bi(2) ai(2) si(2) wi(2) u(7) pool_inv_detach(2) [OF inv, of g] ..
  moreover have "h \<in> chained (C(g := ?c, h := [h]))" by (simp add: chained_upd)
  ultimately have "inserted hash t C x ?v h"
    using fin(1) ndv [of h] u(5,6) s(2,3) unfolding inserted_def
    by (intro conjI exI [of _ ?F] exI [of _ "C(g := ?c, h := [h])"]) (simp_all add: same_space_def)
  moreover have "inner_allocate_not_exist_no_rehash hash t (fst x) = Inr (?b, h)"
    using hr(3) tagh key hz probe u(1) plen s(1) before nxt hlen d(3)
    by (simp add: inner_allocate_not_exist_no_rehash_def h [symmetric] is_empty_def is_head_def Let_def)
  ultimately show ?thesis using hlen by (auto simp: put_item_in)
qed

lemma allocate_insert:
  assumes inv: "pool_inv hash t F C {} {}" and n: "pt_num_items t + 1 < 2 ^ 64" and F: "F \<noteq> []"
    and fresh: "fst x \<notin> fst ` pool_set t C {}"
  obtains u v i where "inner_allocate_not_exist_no_rehash hash t (fst x) = Inr (u, i)"
    "put_item u i x = Inr v" "inserted hash t C x v i"
proof -
  let ?h = "get_hash_head hash t (fst x)"
  have hr: "0 < ?h" "?h \<le> pt_num_nodes t" using get_hash_head_range [OF pool_invD(1) [OF inv]] by blast+
  note tags = pool_tags [OF inv hr]
  show thesis
  proof (cases "tag_at t ?h")
    case EMPTY
    then show thesis using insert_empty [OF inv n refl] tags(1) that by blast
  next
    case PROBE
    then show thesis using insert_evict [OF inv n F refl] tags(4) that by blast
  next
    case HEAD
    then show thesis using insert_append [OF inv n F refl _ fresh] tags(3) that by blast
  next
    case REHASH
    then show thesis using tags(2) by simp
  qed
qed

end
