(* ===== verification/Pool_Rehash.thy ===== *)
theory Pool_Rehash
  imports Pool_Insert
begin

text \<open>
  Initialisation and the two ways of rehashing of \<open>PoolHashTable\<close>: \<open>inner_remap_rehash\<close> places the items
  within the grown memory in three passes, \<open>inner_serialize_rehash\<close> takes all items out, starts afresh and
  inserts them again. Both end, keep the items and give a table of the requested size.
\<close>

section \<open>Items of a table\<close>

lemma pool_keys_inj:
  assumes inv: "pool_inv hash t F C R L"
  shows "inj_on (key_at t) (R \<union> chained C)"
proof (rule inj_onI)
  fix i j assume ij: "i \<in> R \<union> chained C" "j \<in> R \<union> chained C" and eq: "key_at t i = key_at t j"
  note I = pool_invD [OF inv]
  have key: "get_hash_head hash t (key_at t i) = h" "chain_ok hash t h (C h)" "C h \<noteq> []" if "i \<in> set (C h)" for i h
  proof -
    show "C h \<noteq> []" using that by auto
    then show "chain_ok hash t h (C h)" using pool_chain(1) [OF inv] by blast
    from chain_okD(7) [OF this \<open>C h \<noteq> []\<close> that] show "get_hash_head hash t (key_at t i) = h" .
  qed
  have "key_at t i \<in> key_at t ` R \<Longrightarrow> key_at t i \<notin> key_at t ` chained C" using I(4) by (auto simp: loose_ok_def)
  then have "i \<in> R \<and> j \<in> R \<or> i \<in> chained C \<and> j \<in> chained C" using ij eq by (metis UnE imageI)
  then consider "i \<in> R" "j \<in> R" | g h where "i \<in> set (C g)" "j \<in> set (C h)"
    unfolding chained_def by blast
  then show "i = j"
  proof cases
    case 1
    then show ?thesis using I(4) eq by (auto simp: loose_ok_def inj_on_def)
  next
    case 2
    then have "g = h" using key(1) eq by metis
    with 2 key(2,3) [of i g] have "distinct (map (key_at t) (C g))" using chain_okD(8) by blast
    with 2 \<open>g = h\<close> eq show ?thesis by (auto simp: distinct_map inj_on_def)
  qed
qed

lemma pool_items:
  assumes inv: "pool_inv hash t F C R L" and i: "i \<in> R \<union> chained C"
  shows "has_item t i" "tag_at t i \<noteq> EMPTY"
proof -
  note I = pool_invD [OF inv]
  have "has_item t i \<and> tag_at t i \<noteq> EMPTY"
  proof (cases "i \<in> R")
    case True
    then show ?thesis using I(4) by (simp add: loose_ok_def)
  next
    case False
    then obtain h where h: "i \<in> set (C h)" using i by (auto simp: chained_def)
    then have c: "C h \<noteq> []" by auto
    note D = chain_okD [OF pool_chain(1) [OF inv c] c]
    have "i = h \<or> i \<in> set (tl (C h))" using h D(1) c by (cases "C h") auto
    with D(4,5,6) h show ?thesis by auto
  qed
  then show "has_item t i" "tag_at t i \<noteq> EMPTY" by blast+
qed

definition used_nodes :: "('k, 'v) pool_table \<Rightarrow> nat list" where
  "used_nodes t = filter (\<lambda>i. tag_at t i \<noteq> EMPTY) (offsets t)"

definition pt_items :: "('k, 'v) pool_table \<Rightarrow> ('k \<times> 'v) list" where
  "pt_items t = map (item_at t) (used_nodes t)"

lemma set_offsets: "set (offsets t) = {1..pt_num_nodes t}"
  by (auto simp: offsets_def)

lemma distinct_offsets: "distinct (offsets t)"
  by (simp add: offsets_def)

lemma used_nodes_inv:
  assumes inv: "pool_inv hash t F C R {}"
  shows "set (used_nodes t) = R \<union> chained C"
proof -
  note I = pool_invD [OF inv]
  have "i \<in> {1..pt_num_nodes t} \<and> tag_at t i \<noteq> EMPTY \<longleftrightarrow> i \<in> R \<union> chained C" for i
  proof -
    have "i \<in> {1..pt_num_nodes t} \<longleftrightarrow> i \<in> set F \<union> R \<union> chained C" using I(5) by (simp add: parts_def)
    moreover have "i \<in> set F \<Longrightarrow> tag_at t i = EMPTY" using I(2) by (simp add: free_ok_def)
    ultimately show ?thesis using pool_items(2) [OF inv, of i] by blast
  qed
  then show ?thesis by (auto simp: used_nodes_def set_offsets)
qed

lemma pt_items_inv:
  assumes inv: "pool_inv hash t F C R {}"
  shows "set (pt_items t) = pool_set t C R" and "distinct (map fst (pt_items t))"
    and "length (pt_items t) = pt_num_items t"
proof -
  note U = used_nodes_inv [OF inv] and I = pool_invD [OF inv]
  show "set (pt_items t) = pool_set t C R" by (simp add: pt_items_def U pool_set_def)
  have d: "distinct (used_nodes t)" by (simp add: used_nodes_def distinct_offsets)
  then show "distinct (map fst (pt_items t))"
    using pool_keys_inj [OF inv] by (simp add: pt_items_def distinct_map comp_def U)
  have "finite (R \<union> chained C)" "set F \<inter> (R \<union> chained C) = {}" "{1..pt_num_nodes t} = set F \<union> (R \<union> chained C)"
    using I(5) finite_set [of "used_nodes t"] unfolding U parts_def by auto
  then have "pt_num_nodes t = card (set F) + card (R \<union> chained C)"
    by (metis card_Un_disjoint card_atLeastAtMost diff_Suc_1 List.finite_set)
  moreover have "card (set F) = length F" using I(2) by (simp add: free_ok_def distinct_card)
  moreover have "length (used_nodes t) = card (R \<union> chained C)" using distinct_card [OF d] U by simp
  ultimately show "length (pt_items t) = pt_num_items t" using I(6) by (simp add: pt_items_def)
qed

lemma collect_items_used:
  assumes "\<forall>i\<in>set is. i < length (pt_mem t) \<and> (tag_at t i \<noteq> EMPTY \<longrightarrow> has_item t i)"
  shows "collect_items t is = Inr (map (item_at t) (filter (\<lambda>i. tag_at t i \<noteq> EMPTY) is))"
  using assms by (induction "is") (auto simp: is_empty_def dest!: has_itemD)

lemma pool_node_range:
  assumes "space_ok t" "i \<in> set (offsets t)"
  shows "i < length (pt_mem t)" "0 < i"
  using assms by (auto simp: space_ok_def set_offsets)

lemma collect_items_inv:
  assumes inv: "pool_inv hash t F C R {}"
  shows "collect_items t (offsets t) = Inr (pt_items t)"
proof -
  have "i < length (pt_mem t) \<and> (tag_at t i \<noteq> EMPTY \<longrightarrow> has_item t i)" if "i \<in> set (offsets t)" for i
    using pool_node_range(1) [OF pool_invD(1) [OF inv] that] used_nodes_inv [OF inv]
      pool_items(1) [OF inv, of i] that by (auto simp: used_nodes_def)
  then show ?thesis by (simp add: collect_items_used pt_items_def used_nodes_def)
qed

section \<open>Initialisation\<close>

lemma mask_bits_le: "2 ^ n \<le> num \<Longrightarrow> 2 ^ mask_bits n num \<le> num"
proof (induction n num rule: mask_bits.induct)
  case (1 n num)
  then show ?case by (subst mask_bits.simps) simp
qed

lemma set_space_ok:
  assumes "1 \<le> n"
  obtains u where "set_space t n = Inr u" "space_ok u" "pt_num_nodes u = n"
    "pt_node_size u = pt_node_size t" "pt_max_load_factor u = pt_max_load_factor t"
    "pt_num_items u = pt_num_items t" "pt_trivial u = pt_trivial t" "n < length (pt_mem u)"
    "\<forall>i<length (pt_mem t). i \<le> n \<longrightarrow> nd u i = nd t i"
    "\<forall>i. length (pt_mem t) \<le> i \<and> i \<le> n \<longrightarrow> nd u i = zero_node"
proof -
  let ?u = "t\<lparr>pt_mem := take (n + 1) (pt_mem t) @ replicate (n + 1 - length (pt_mem t)) zero_node,
    pt_num_nodes := n, pt_mask := 2 ^ mask_bits 0 n - 1\<rparr>"
  have "(2::nat) ^ mask_bits 0 n - 1 < n" using mask_bits_le [of 0 n] assms(1) zero_less_power [of "2::nat"]
    by (metis One_nat_def Suc_diff_1 Suc_le_lessD le_trans pos2 power_0)
  then have "space_ok ?u"
    using assms by (auto simp: space_ok_def nth_append zero_node_def)
  with assms(1) show thesis by (intro that [of ?u]) (auto simp: set_space_def nth_append)
qed

lemma deallocate_all:
  assumes "pool_inv hash t F C R L" "set xs \<subseteq> L" "distinct xs"
  shows "\<exists>u. for_each (\<lambda>i t. deallocate_node t i) xs t = Inr u \<and> pool_inv hash u (F @ xs) C R (L - set xs) \<and>
    same_space t u \<and> pool_set u C R = pool_set t C R"
  using assms
proof (induction xs arbitrary: t F L)
  case Nil
  then show ?case by simp
next
  case (Cons x xs)
  obtain u where u: "deallocate_node t x = Inr u" "pool_inv hash u (F @ [x]) C R (L - {x})"
    "same_space t u" "pool_set u C R = pool_set t C R"
    using pool_inv_deallocate [OF Cons.prems(1), of x] Cons.prems(2) by (metis list.set_intros(1) subsetD)
  have "set xs \<subseteq> L - {x}" "distinct xs" using Cons.prems by auto
  from Cons.IH [OF u(2) this] obtain v where v: "for_each (\<lambda>i t. deallocate_node t i) xs u = Inr v"
    "pool_inv hash v ((F @ [x]) @ xs) C R (L - {x} - set xs)" "same_space u v" "pool_set v C R = pool_set u C R"
    by blast
  have "L - {x} - set xs = L - set (x # xs)" by auto
  with u v same_space_trans [OF u(3) v(3)] show ?case by simp
qed

lemma initialize_nodes_inv:
  assumes sp: "space_ok t"
  obtains u where "initialize_nodes t = Inr u" "pool_inv hash u (offsets t) (\<lambda>_. []) {} {}"
    "same_space t u" "pool_set u (\<lambda>_. []) {} = {}" "pt_num_items u = 0"
proof -
  let ?t = "mem_upd (t\<lparr>pt_num_items := pt_num_nodes t\<rparr>) 0 (\<lambda>n. put_cell (Prev 0) (put_free 0 n))"
  let ?N = "{1..pt_num_nodes t}"
  have len: "0 < length (pt_mem t)" using sp by (auto simp: space_ok_def)
  then have r: "reset_sentinel (t\<lparr>pt_num_items := pt_num_nodes t\<rparr>) = Inr ?t" by (simp add: reset_sentinel_def)
  have ss: "same_space t ?t" by (simp add: same_space_def)
  have "space_ok ?t" using space_ok_cong [OF sp ss] len sp by (auto simp: space_ok_def)
  moreover have "free_ok ?t []" using len by (simp add: free_ok_def put_cell_def put_free_def)
  ultimately have "pool_inv hash ?t [] (\<lambda>_. []) {} ?N"
    by (auto simp: pool_inv_def pool_chains_ok_def chain_ok_def loose_ok_def parts_def chained_def)
  from deallocate_all [OF this, of "offsets t"] obtain u where u:
    "for_each (\<lambda>i t. deallocate_node t i) (offsets t) ?t = Inr u"
    "pool_inv hash u (offsets t) (\<lambda>_. []) {} {}" "same_space ?t u"
    by (auto simp: set_offsets distinct_offsets)
  have "offsets ?t = offsets t" by (simp add: offsets_def)
  then have "initialize_nodes t = Inr u" using r u(1) by (simp add: initialize_nodes_def)
  moreover have "same_space t u" using same_space_trans [OF ss u(3)] .
  moreover have "pt_num_items u = 0"
    using pool_invD(6) [OF u(2)] u(3) by (simp add: same_space_def offsets_def del: upt_Suc)
  ultimately show thesis using u(2) by (intro that) (simp_all add: pool_set_def chained_def)
qed

lemma destruct_all:
  assumes "\<forall>i\<in>set xs. i < length (pt_mem t) \<and> (tag_at t i \<noteq> EMPTY \<longrightarrow> has_item t i)" "distinct xs"
  shows "\<exists>u. for_each (\<lambda>i t. pbind (get_node t i) (\<lambda>n. if is_empty n then Inr t else destruct_item t i)) xs t = Inr u \<and>
    same_space t u \<and> pt_num_items u = pt_num_items t \<and> (\<forall>i. tag_at u i = tag_at t i)"
  using assms
proof (induction xs arbitrary: t)
  case Nil
  then show ?case by simp
next
  case (Cons x xs)
  let ?u = "if tag_at t x = EMPTY then t else mem_upd t x (put_cell Raw)"
  have x: "x < length (pt_mem t)" "tag_at t x \<noteq> EMPTY \<Longrightarrow> cell_at t x = Item (item_at t x)"
    using Cons.prems(1) has_itemD [of t x] by auto
  have tags: "tag_at ?u i = tag_at t i" for i using x(1) by (simp add: put_cell_def)
  have "\<forall>i\<in>set xs. i < length (pt_mem ?u) \<and> (tag_at ?u i \<noteq> EMPTY \<longrightarrow> has_item ?u i)"
    using Cons.prems tags x(1) by (auto simp: has_item_def)
  then obtain v where v: "for_each (\<lambda>i t. pbind (get_node t i)
      (\<lambda>n. if is_empty n then Inr t else destruct_item t i)) xs ?u = Inr v"
    "same_space ?u v" "pt_num_items v = pt_num_items ?u" "\<forall>i. tag_at v i = tag_at ?u i"
    using Cons.IH [of ?u] Cons.prems(2) by auto
  have "same_space t ?u" "pt_num_items ?u = pt_num_items t" by simp_all
  moreover have "pbind (get_node t x) (\<lambda>n. if is_empty n then Inr t else destruct_item t x) = Inr ?u"
    using x by (cases "tag_at t x = EMPTY") (simp_all add: is_empty_def destruct_item_def)
  ultimately show ?case using v tags same_space_trans [of t ?u v] by (intro exI [of _ v]) simp
qed

lemma pt_clear_inv:
  assumes inv: "pool_inv hash t F C R {}"
  obtains u where "pt_clear t = Inr u" "pool_inv hash u (offsets t) (\<lambda>_. []) {} {}" "same_space t u"
    "pool_set u (\<lambda>_. []) {} = {}" "pt_num_items u = 0" "\<forall>i<length (pt_mem u). tag_at u i = EMPTY"
proof -
  note sp = pool_invD(1) [OF inv]
  have "\<forall>i\<in>set (offsets t). i < length (pt_mem t) \<and> (tag_at t i \<noteq> EMPTY \<longrightarrow> has_item t i)"
    using pool_node_range(1) [OF sp] used_nodes_inv [OF inv] pool_items(1) [OF inv]
    by (auto simp: used_nodes_def)
  from destruct_all [OF this distinct_offsets] obtain s where s: "for_each (\<lambda>i t. pbind (get_node t i)
      (\<lambda>n. if is_empty n then Inr t else destruct_item t i)) (offsets t) t = Inr s"
    "same_space t s" "\<forall>i. tag_at s i = tag_at t i" by blast
  have ss: "space_ok s" using sp s(2,3) by (simp add: space_ok_def same_space_def)
  obtain u where u: "initialize_nodes s = Inr u" "pool_inv hash u (offsets s) (\<lambda>_. []) {} {}"
    "same_space s u" "pool_set u (\<lambda>_. []) {} = {}" "pt_num_items u = 0"
    using initialize_nodes_inv [OF ss] by metis
  have off: "offsets s = offsets t" using s(2) by (simp add: offsets_def same_space_def)
  have "tag_at u i = EMPTY" if "i < length (pt_mem u)" for i
  proof (cases "pt_num_nodes u < i")
    case True
    then show ?thesis using pool_invD(1) [OF u(2)] that by (simp add: space_ok_def)
  next
    case False
    then have "i \<in> set (0 # offsets s)" using u(3) by (auto simp: set_offsets same_space_def)
    then show ?thesis using pool_invD(2) [OF u(2)] unfolding free_ok_def by blast
  qed
  then have "\<forall>i<length (pt_mem u). tag_at u i = EMPTY" by blast
  with s(1) u off same_space_trans [OF s(2) u(3)] show thesis by (intro that) (simp_all add: pt_clear_def)
qed

section \<open>Rehashing through a serializer\<close>

lemma insert_items_inv:
  assumes "pool_inv hash t F C {} {}" "distinct (map fst xs)" "fst ` set xs \<inter> fst ` pool_set t C {} = {}"
    and "pt_num_items t + length xs \<le> pt_num_nodes t" "pt_num_nodes t < 2 ^ 64"
  shows "\<exists>u F' C'. insert_items hash t xs = Inr u \<and> pool_inv hash u F' C' {} {} \<and> same_space t u \<and>
    pool_set u C' {} = set xs \<union> pool_set t C {}"
  using assms
proof (induction xs arbitrary: t F C)
  case Nil
  then show ?case by auto
next
  case (Cons x xs)
  have n: "pt_num_items t + 1 < 2 ^ 64" and F: "F \<noteq> []"
  proof -
    have "pt_num_items t + 1 \<le> pt_num_nodes t" using Cons.prems(4) by simp
    moreover have "pt_num_items t + length F = pt_num_nodes t" using pool_invD(6) [OF Cons.prems(1)] .
    ultimately show "pt_num_items t + 1 < 2 ^ 64" "F \<noteq> []" using Cons.prems(5) by auto
  qed
  have fresh: "fst x \<notin> fst ` pool_set t C {}" using Cons.prems(3) by auto
  obtain u v i where u: "inner_allocate_not_exist_no_rehash hash t (fst x) = Inr (u, i)"
    "put_item u i x = Inr v" "inserted hash t C x v i"
    using allocate_insert [OF Cons.prems(1) n F fresh] by blast
  then obtain F' C' where v: "pool_inv hash v F' C' {} {}" "pool_set v C' {} = insert x (pool_set t C {})"
    "pt_num_items v = pt_num_items t + 1" "same_space t v"
    unfolding inserted_def by blast
  have "fst ` set xs \<inter> fst ` pool_set v C' {} = {}" using Cons.prems(2,3) v(2) by auto
  moreover have "pt_num_items v + length xs \<le> pt_num_nodes v" "pt_num_nodes v < 2 ^ 64"
    using Cons.prems(4,5) v(3,4) by (simp_all add: same_space_def)
  ultimately obtain w F'' C'' where w: "insert_items hash v xs = Inr w" "pool_inv hash w F'' C'' {} {}"
    "same_space v w" "pool_set w C'' {} = set xs \<union> pool_set v C' {}"
    using Cons.IH [OF v(1)] Cons.prems(2) by auto
  then show ?case using u same_space_trans [OF v(4) w(3)] v(2)
    by (intro exI [of _ w] exI [of _ F''] exI [of _ C'']) simp
qed

text \<open>The invariant does not speak of the load.\<close>

lemma pool_inv_members:
  assumes "pool_inv hash t F C R L" "pt_mem u = pt_mem t" "pt_mask u = pt_mask t"
    "pt_num_nodes u = pt_num_nodes t" "pt_num_items u = pt_num_items t"
  shows "pool_inv hash u F C R L" "pool_set u C R = pool_set t C R"
proof -
  note I = pool_invD [OF assms(1)]
  have "space_ok u" using I(1) assms(2-4) by (simp add: space_ok_def)
  moreover have "free_ok u F" using free_ok_cong [OF I(2), of u] assms(2) by simp
  moreover have "pool_chains_ok hash u C"
    using I(3) chain_ok_cong [of hash t _ _ u] assms(2,3) by (simp add: pool_chains_ok_def)
  moreover have "loose_ok u R (chained C)" using loose_ok_cong [OF I(4), of u] assms(2) by simp
  ultimately show "pool_inv hash u F C R L" using I(5,6) assms(4,5) by (simp add: pool_inv_def)
  show "pool_set u C R = pool_set t C R" using assms(2) by (simp add: pool_set_def)
qed

definition load_ok :: "('k, 'v) pool_table \<Rightarrow> bool" where
  "load_ok t \<longleftrightarrow> fl64 (1 / 10) \<le> pt_max_load_factor t \<and> pt_max_load_factor t \<le> 1 \<and>
     pt_max_num_items t \<le> pt_num_nodes t"

lemma fl64_tenth: "0 < fl64 (1 / 10)" "fl64 (1 / 10) \<le> 1" "1 / 16 \<le> fl64 (1 / 10)"
  by code_simp+

lemma set_max_load_factor_ok: "load_ok (set_max_load_factor t f)"
  using fl64_tenth(2) by (auto simp: load_ok_def set_max_load_factor_def Let_def)

lemma set_max_load_factor_members [simp]:
  "pt_mem (set_max_load_factor t f) = pt_mem t" "pt_mask (set_max_load_factor t f) = pt_mask t"
  "pt_num_nodes (set_max_load_factor t f) = pt_num_nodes t"
  "pt_num_items (set_max_load_factor t f) = pt_num_items t"
  "pt_trivial (set_max_load_factor t f) = pt_trivial t"
  by (simp_all add: set_max_load_factor_def Let_def)

text \<open>A table of \<open>n\<close> nodes that holds the items \<open>S\<close>.\<close>

definition holds :: "('k \<Rightarrow> nat) \<Rightarrow> ('k, 'v) pool_table \<Rightarrow> nat \<Rightarrow> ('k \<times> 'v) set \<Rightarrow> bool" where
  "holds hash t n S \<longleftrightarrow> (\<exists>F C. pool_inv hash t F C {} {} \<and> pool_set t C {} = S) \<and> pt_num_nodes t = n \<and> load_ok t"

lemma serialize_rehash_holds:
  assumes inv: "pool_inv hash t F C {} {}" and n: "pt_num_items t \<le> n" "1 \<le> n" "n < 2 ^ 64"
  shows "\<exists>u. inner_serialize_rehash hash t n = Inr u \<and> holds hash u n (pool_set t C {}) \<and>
    pt_trivial u = pt_trivial t"
proof -
  note items = pt_items_inv [OF inv]
  obtain a where a: "pt_clear t = Inr a" "same_space t a" "\<forall>i<length (pt_mem a). tag_at a i = EMPTY"
    using pt_clear_inv [OF inv] by metis
  obtain b where b: "set_space a n = Inr b" "space_ok b" "pt_num_nodes b = n" "pt_trivial b = pt_trivial a"
    using set_space_ok [OF n(2), of a] by metis
  let ?c = "set_max_load_factor b (pt_max_load_factor b)"
  have "space_ok ?c" using b(2) by (simp add: space_ok_def)
  then obtain d where d: "initialize_nodes ?c = Inr d" "pool_inv hash d (offsets ?c) (\<lambda>_. []) {} {}"
    "same_space ?c d" "pool_set d (\<lambda>_. []) {} = {}" "pt_num_items d = 0"
    using initialize_nodes_inv by metis
  have dn: "pt_num_nodes d = n" using d(3) b(3) by (simp add: same_space_def)
  obtain u F' C' where u: "insert_items hash d (pt_items t) = Inr u" "pool_inv hash u F' C' {} {}"
    "same_space d u" "pool_set u C' {} = pool_set t C {}"
    using insert_items_inv [OF d(2) items(2)] items(1,3) d(4,5) dn n(1,3) by auto
  have "load_ok u" using set_max_load_factor_ok [of b "pt_max_load_factor b"] d(3) u(3)
    by (simp add: load_ok_def same_space_def)
  moreover have "inner_serialize_rehash hash t n = Inr u"
    using collect_items_inv [OF inv] a(1) b(1) d(1) u(1) items(3)
    by (simp add: inner_serialize_rehash_def Let_def)
  moreover have "pt_num_nodes u = n" "pt_trivial u = pt_trivial t"
    using u(3) d(3) b(4) a(2) dn by (simp_all add: same_space_def)
  ultimately show ?thesis using u(2,4) unfolding holds_def by blast
qed

section \<open>Rehashing in place\<close>

subsection \<open>Marking\<close>

lemma inc_dec_items [simp]: "n < 2 ^ 64 \<Longrightarrow> inc_items (dec_items n) = n"
  by (simp add: inc_items_def dec_items_def)

abbreviation rehash_tag :: "'i pool_node \<Rightarrow> 'i pool_node" where
  "rehash_tag n \<equiv> n\<lparr>pn_tag := REHASH\<rparr>"

lemma mark_all:
  assumes "free_ok t F" "distinct (0 # F @ xs)" "\<forall>i\<in>set xs. i < length (pt_mem t)" "pt_num_items t < 2 ^ 64"
  shows "\<exists>u. for_each mark_node xs t = Inr u \<and> free_ok u (F @ filter (\<lambda>i. tag_at t i = EMPTY) xs) \<and>
    same_space t u \<and> pt_num_items u = pt_num_items t \<and>
    (\<forall>j\<in>set xs. tag_at t j \<noteq> EMPTY \<longrightarrow> nd u j = rehash_tag (nd t j)) \<and>
    (\<forall>j. j \<notin> set (0 # F @ xs) \<longrightarrow> nd u j = nd t j)"
  using assms
proof (induction xs arbitrary: t F)
  case Nil
  then show ?case by simp
next
  case (Cons x xs)
  have x: "x < length (pt_mem t)" "x \<notin> set (0 # F)" "x \<notin> set xs" using Cons.prems by auto
  show ?case
  proof (cases "tag_at t x = EMPTY")
    case True
    obtain u where u: "deallocate_node t x = Inr u" "free_ok u (F @ [x])" "same_space t u"
      "pt_num_items u = dec_items (pt_num_items t)" "\<And>j. j \<notin> set (0 # F @ [x]) \<Longrightarrow> nd u j = nd t j"
      using deallocate_node_free [OF Cons.prems(1) x(2,1)] by metis
    let ?v = "u\<lparr>pt_num_items := pt_num_items t\<rparr>"
    have step: "mark_node x t = Inr ?v"
      using x(1) True u(1,4) Cons.prems(4) by (simp add: mark_node_def is_empty_def)
    have fv: "free_ok ?v (F @ [x])" using free_ok_cong [OF u(2), of ?v] by simp
    have same: "nd ?v j = nd t j" if "j \<in> set xs" for j
    proof -
      have "j \<notin> set (0 # F @ [x])" using that Cons.prems(2) by auto
      then show ?thesis using u(5) by simp
    qed
    have filt: "filter (\<lambda>i. tag_at ?v i = EMPTY) xs = filter (\<lambda>i. tag_at t i = EMPTY) xs"
      by (intro filter_cong) (simp_all add: same [simplified])
    have "\<forall>i\<in>set xs. i < length (pt_mem ?v)" "distinct (0 # (F @ [x]) @ xs)"
      using Cons.prems u(3) by (auto simp: same_space_def)
    then obtain w where w: "for_each mark_node xs ?v = Inr w"
      "free_ok w ((F @ [x]) @ filter (\<lambda>i. tag_at ?v i = EMPTY) xs)" "same_space ?v w"
      "pt_num_items w = pt_num_items ?v" "\<forall>j\<in>set xs. tag_at ?v j \<noteq> EMPTY \<longrightarrow> nd w j = rehash_tag (nd ?v j)"
      "\<forall>j. j \<notin> set (0 # (F @ [x]) @ xs) \<longrightarrow> nd w j = nd ?v j"
      using Cons.IH [OF fv] Cons.prems(4) by auto
    have "same_space t w" using u(3) w(3) by (simp add: same_space_def)
    moreover have "free_ok w (F @ filter (\<lambda>i. tag_at t i = EMPTY) (x # xs))"
      using w(2) True unfolding filt by simp
    moreover have "\<forall>j\<in>set (x # xs). tag_at t j \<noteq> EMPTY \<longrightarrow> nd w j = rehash_tag (nd t j)"
      using w(5) same True by auto
    moreover have "\<forall>j. j \<notin> set (0 # F @ x # xs) \<longrightarrow> nd w j = nd t j" using w(6) u(5) by auto
    ultimately show ?thesis using step w(1,4) by (intro exI [of _ w]) simp
  next
    case False
    let ?v = "mem_upd t x rehash_tag"
    have step: "mark_node x t = Inr ?v" using x(1) False by (simp add: mark_node_def is_empty_def)
    have ndv: "nd ?v j = (if j = x then rehash_tag (nd t x) else nd t j)" for j using x(1) by simp
    have fv: "free_ok ?v F" by (rule free_ok_cong [OF Cons.prems(1)]) (use ndv x(2) in auto)
    have same: "nd ?v j = nd t j" if "j \<in> set xs" for j using ndv that x(3) by auto
    have filt: "filter (\<lambda>i. tag_at ?v i = EMPTY) xs = filter (\<lambda>i. tag_at t i = EMPTY) xs"
      by (intro filter_cong) (simp_all only: same)
    have "\<forall>i\<in>set xs. i < length (pt_mem ?v)" "distinct (0 # F @ xs)" using Cons.prems by auto
    then obtain w where w: "for_each mark_node xs ?v = Inr w"
      "free_ok w (F @ filter (\<lambda>i. tag_at ?v i = EMPTY) xs)" "same_space ?v w"
      "pt_num_items w = pt_num_items ?v" "\<forall>j\<in>set xs. tag_at ?v j \<noteq> EMPTY \<longrightarrow> nd w j = rehash_tag (nd ?v j)"
      "\<forall>j. j \<notin> set (0 # F @ xs) \<longrightarrow> nd w j = nd ?v j"
      using Cons.IH [OF fv] Cons.prems(4) by auto
    have "same_space t w" using w(3) by (simp add: same_space_def)
    moreover have "free_ok w (F @ filter (\<lambda>i. tag_at t i = EMPTY) (x # xs))"
      using w(2) False unfolding filt by simp
    moreover have "nd w x = rehash_tag (nd t x)" using w(6) ndv x by auto
    then have "\<forall>j\<in>set (x # xs). tag_at t j \<noteq> EMPTY \<longrightarrow> nd w j = rehash_tag (nd t j)"
      using w(5) same by auto
    moreover have "\<forall>j. j \<notin> set (0 # F @ x # xs) \<longrightarrow> nd w j = nd t j" using w(6) ndv by auto
    ultimately show ?thesis using step w(1,4) by (intro exI [of _ w]) simp
  qed
qed

lemma mark_pass:
  assumes sp: "space_ok t" and free: "free_ok t []" and n: "pt_num_nodes t < 2 ^ 64"
    and items: "\<forall>i\<in>set (used_nodes t). has_item t i" "inj_on (key_at t) (set (used_nodes t))"
    and cnt: "pt_num_items t = length (used_nodes t)"
  shows "\<exists>u F. for_each mark_node (offsets t) t = Inr u \<and> same_space t u \<and> pt_num_items u = pt_num_items t \<and>
    pool_inv hash u F (\<lambda>_. []) (set (used_nodes t)) {} \<and>
    pool_set u (\<lambda>_. []) (set (used_nodes t)) = set (pt_items t)"
proof -
  let ?E = "filter (\<lambda>i. tag_at t i = EMPTY) (offsets t)" and ?R = "set (used_nodes t)"
  have le: "length ?E + length (used_nodes t) = pt_num_nodes t"
    using sum_length_filter_compl [of "\<lambda>i. tag_at t i = EMPTY" "offsets t"]
    by (simp add: used_nodes_def offsets_def del: upt_Suc)
  have "distinct (0 # [] @ offsets t)" "\<forall>i\<in>set (offsets t). i < length (pt_mem t)" "pt_num_items t < 2 ^ 64"
    using distinct_offsets [of t] pool_node_range [OF sp] le cnt n by (auto simp: set_offsets)
  from mark_all [OF free this] obtain u where u: "for_each mark_node (offsets t) t = Inr u" "free_ok u ?E"
    "same_space t u" "pt_num_items u = pt_num_items t"
    "\<forall>j\<in>set (offsets t). tag_at t j \<noteq> EMPTY \<longrightarrow> nd u j = rehash_tag (nd t j)"
    "\<forall>j. j \<notin> set (0 # offsets t) \<longrightarrow> nd u j = nd t j" by auto
  have ndu: "nd u j = rehash_tag (nd t j)" if "j \<in> ?R" for j using u(5) that by (auto simp: used_nodes_def)
  have "space_ok u" by (rule space_ok_cong [OF sp u(3)]) (use u(6) sp in \<open>auto simp: set_offsets space_ok_def\<close>)
  moreover have "loose_ok u ?R (chained (\<lambda>_. []))"
    using items ndu by (auto simp: loose_ok_def chained_def has_item_def inj_on_def)
  moreover have "parts (pt_num_nodes u) (set ?E) ?R {} (chained (\<lambda>_. []))"
    using u(3) by (auto simp: parts_def chained_def used_nodes_def set_offsets same_space_def)
  moreover have "pool_chains_ok hash u (\<lambda>_. [])" by (simp add: pool_chains_ok_def chain_ok_def)
  ultimately have "pool_inv hash u ?E (\<lambda>_. []) ?R {}"
    using u(2,3,4) le cnt by (simp add: pool_inv_def same_space_def)
  moreover have "pool_set u (\<lambda>_. []) ?R = set (pt_items t)"
    using ndu by (auto simp: pool_set_def pt_items_def chained_def image_iff)
  ultimately show ?thesis using u(1,3,4) by blast
qed

subsection \<open>Placing the heads\<close>

lemma swap_items_in:
  assumes "a < length (pt_mem t)" "b < length (pt_mem t)" "a \<noteq> b" "cell_at t a = Item x" "cell_at t b = Item y"
  obtains u where "swap_items t a b = Inr u" "same_space t u" "pt_num_items u = pt_num_items t"
    "nd u a = put_cell (Item y) (nd t a)" "nd u b = put_cell (Item x) (nd t b)"
    "\<forall>j. j \<noteq> a \<and> j \<noteq> b \<longrightarrow> nd u j = nd t j"
proof -
  let ?s = "if pt_trivial t then Item x else Raw" and ?r = "if pt_trivial t then Item y else Raw"
  let ?u = "mem_upd (mem_upd (mem_upd (mem_upd t a (put_cell ?s)) b (put_cell ?r)) a (put_cell (Item y)))
    b (put_cell (Item x))"
  have "cell_at (mem_upd t a (put_cell ?s)) b = Item y" using assms by simp
  then have "swap_items t a b = Inr ?u"
    using assms move_item_in [of a "mem_upd t a (put_cell ?s)" b y]
    by (cases "pt_trivial t") (simp_all add: swap_items_def move_cell_def cell_item_def)
  with assms show thesis by (intro that [of ?u]) (simp_all add: put_cell_def)
qed

text \<open>
  One step of the second pass: the head of a new chain is set, with the item of node \<open>i\<close>. The other
  nodes that wait are not touched.
\<close>

definition head_step :: "('k \<Rightarrow> nat) \<Rightarrow> ('k, 'v) pool_table \<Rightarrow> (nat \<Rightarrow> nat list) \<Rightarrow> nat set \<Rightarrow> nat
    \<Rightarrow> ('k, 'v) pool_table \<Rightarrow> nat \<Rightarrow> nat set \<Rightarrow> bool" where
  "head_step hash t C R i u p R' \<longleftrightarrow> (\<exists>F. pool_inv hash u F (C(p := [p])) R' {}) \<and> same_space t u \<and>
     pt_num_items u = pt_num_items t \<and> pool_set u (C(p := [p])) R' = pool_set t C R \<and>
     (\<forall>j\<in>R'. j \<noteq> i \<longrightarrow> nd u j = nd t j)"

lemma pool_set_split:
  "i \<in> R \<Longrightarrow> pool_set t C R = insert (item_at t i) (pool_set t C (R - {i}))"
  by (auto simp: pool_set_def)

lemma head_here:
  assumes inv: "pool_inv hash t F C R {}" and i: "i \<in> R" "get_hash_head hash t (key_at t i) = i"
  shows "head_step hash t C R i (mem_upd t i (put_tag HEAD)) i (R - {i})"
proof -
  let ?u = "mem_upd t i (put_tag HEAD)"
  have r: "0 < i" "i \<le> pt_num_nodes t" "i < length (pt_mem t)" using pool_inv_in [OF inv, of i] i(1) by auto
  have "tag_at t i = REHASH" using pool_tags(2) [OF inv r(1,2)] i(1) by simp
  then have Ci: "C i = []" using pool_tags(3) [OF inv r(1,2)] by simp
  have cell: "cell_at t i = Item (item_at t i)" using pool_items(1) [OF inv, of i] has_itemD i(1) by blast
  have ndu: "nd ?u j = (if j = i then put_tag HEAD (nd t i) else nd t j)" for j using r(3) by simp
  note W = pool_inv_write [OF pool_inv_drop [OF inv i(1)], of i "put_tag HEAD"]
  have ok: "chain_ok hash ?u i [i]"
    by (rule chain_ok_single [of _ _ "item_at t i"])
       (use ndu [of i] cell i(2) in \<open>simp_all add: put_tag_def get_hash_head_def\<close>)
  have "key_at ?u ` (R - {i}) \<inter> key_at ?u ` set [i] = {}"
    using pool_keys_inj [OF inv] i(1) ndu by (auto simp: inj_on_def put_tag_def)
  from pool_inv_attach [OF W(1) Ci ok _ this] have "pool_inv hash ?u F (C(i := [i])) (R - {i}) {}"
    "pool_set ?u (C(i := [i])) (R - {i}) = insert (item_at ?u i) (pool_set t C (R - {i}))"
    using W(2) by simp_all
  then show ?thesis
    unfolding head_step_def pool_set_split [OF i(1), of t C] using ndu by (auto simp: put_tag_def)
qed

lemma head_swap:
  assumes inv: "pool_inv hash t F C R {}" and i: "i \<in> R"
    and p: "p = get_hash_head hash t (key_at t i)" "p \<in> R" "p \<noteq> i"
  obtains u where "swap_items (mem_upd t p (put_tag HEAD)) p i = Inr u" "head_step hash t C R i u p (R - {p})"
proof -
  let ?w = "mem_upd t p (put_tag HEAD)"
  have r: "0 < p" "p \<le> pt_num_nodes t" "p < length (pt_mem t)" "i < length (pt_mem t)"
    using pool_inv_in [OF inv, of p] pool_inv_in [OF inv, of i] p(2) i by auto
  have "tag_at t p = REHASH" using pool_tags(2) [OF inv r(1,2)] p(2) by simp
  then have Cp: "C p = []" using pool_tags(3) [OF inv r(1,2)] by simp
  have cell: "cell_at t j = Item (item_at t j)" "tag_at t j = REHASH" if "j \<in> R" for j
    using pool_items(1) [OF inv, of j] has_itemD that pool_invD(4) [OF inv] by (auto simp: loose_ok_def)
  obtain u where u: "swap_items ?w p i = Inr u" "same_space ?w u" "pt_num_items u = pt_num_items ?w"
    "nd u p = put_cell (Item (item_at t i)) (nd ?w p)" "nd u i = put_cell (Item (item_at t p)) (nd ?w i)"
    "\<forall>j. j \<noteq> p \<and> j \<noteq> i \<longrightarrow> nd u j = nd ?w j"
    by (rule swap_items_in [of p ?w i "item_at t p" "item_at t i"])
       (use r p(3) cell [OF p(2)] cell [OF i] in \<open>auto simp: put_tag_def\<close>)
  have ndp: "nd u p = \<lparr>pn_tag = HEAD, pn_next = 0, pn_cell = Item (item_at t i)\<rparr>"
    using u(4) r(3) by (simp add: put_tag_def put_cell_def)
  have ndi: "tag_at u i = REHASH" "cell_at u i = Item (item_at t p)"
    using u(5) r(3) p(3) cell(2) [OF i] by (simp_all add: put_cell_def)
  have ndo: "nd u j = nd t j" if "j \<noteq> p" "j \<noteq> i" for j using u(6) that r(3) by simp
  have ss: "same_space t u" "pt_num_items u = pt_num_items t" using u(2,3) by (simp_all add: same_space_def)
  let ?R = "R - {p} - {i}"
  have dropped: "pool_inv hash t F C ?R {i, p}"
    using pool_inv_drop [OF pool_inv_drop [OF inv p(2)], of i] i p(3) by simp
  have ui: "pool_inv hash u F C ?R {i, p}" "pool_set u C ?R = pool_set t C ?R"
    using pool_inv_cong [OF dropped ss] ndo by auto
  have keys: "key_at u ` (?R \<union> chained C) = key_at t ` (?R \<union> chained C)"
    "key_at u ` ?R = key_at t ` ?R"
  proof -
    have "i \<notin> chained C \<and> p \<notin> chained C" using partsD(3) [OF pool_invD(5) [OF inv]] i p(2) by blast
    then have "nd u j = nd t j" if "j \<in> ?R \<union> chained C" for j using that ndo [of j] by auto
    then show "key_at u ` (?R \<union> chained C) = key_at t ` (?R \<union> chained C)" "key_at u ` ?R = key_at t ` ?R"
      by (intro image_cong; simp)+
  qed
  have fresh: "key_at t j \<notin> key_at t ` (?R \<union> chained C)" if "j = i \<or> j = p" for j
  proof -
    have "j \<in> R" "j \<notin> ?R \<union> chained C"
      using that i p(2) partsD(3) [OF pool_invD(5) [OF inv], of j] by auto
    then show ?thesis using pool_keys_inj [OF inv] by (auto simp: inj_on_def)
  qed
  have ok: "chain_ok hash u p [p]"
    by (rule chain_ok_single [of _ _ "item_at t i"]) (use ndp p(1) ss(1) in \<open>simp_all add: get_hash_head_def same_space_def\<close>)
  have "key_at u ` ?R \<inter> key_at u ` set [p] = {}" using fresh [of i] ndp unfolding keys(2) by auto
  from pool_inv_attach [OF ui(1) Cp ok _ this] p(3) have at: "pool_inv hash u F (C(p := [p])) ?R {i}"
    "pool_set u (C(p := [p])) ?R = insert (item_at t i) (pool_set t C ?R)"
    using ui(2) ndp by (simp_all add: insert_Diff_if)
  have "chained (C(p := [p])) \<subseteq> insert p (chained C)" by (auto simp: chained_def split: if_splits)
  then have "key_at u ` (?R \<union> chained (C(p := [p]))) \<subseteq> insert (key_at t i) (key_at t ` (?R \<union> chained C))"
    unfolding keys(1) [symmetric] using ndp by auto
  moreover have "key_at t p \<noteq> key_at t i" using pool_keys_inj [OF inv] i p(2,3) by (auto simp: inj_on_def)
  ultimately have "key_at u i \<notin> key_at u ` (?R \<union> chained (C(p := [p])))"
    using fresh [of p] ndi(2) by auto
  from pool_inv_mark [OF at(1) _ ndi(1) _ this] have m: "pool_inv hash u F (C(p := [p])) (insert i ?R) {}"
    using ndi(2) by (simp add: has_item_def)
  have R': "insert i ?R = R - {p}" using i p(3) by auto
  have "pool_set u (C(p := [p])) (R - {p}) = insert (item_at t p) (insert (item_at t i) (pool_set t C ?R))"
    using pool_set_split [of i "R - {p}" u "C(p := [p])"] i p(3) at(2) ndi(2) by simp
  also have "\<dots> = pool_set t C R"
    using pool_set_split [OF p(2), of t C] pool_set_split [of i "R - {p}" t C] i p(3) by auto
  finally have "head_step hash t C R i u p (R - {p})"
    using m ss ndo unfolding head_step_def R' by auto
  with u(1) show thesis by (rule that)
qed

lemma head_move:
  assumes inv: "pool_inv hash t F C R {}" and i: "i \<in> R" and n: "pt_num_items t + 1 < 2 ^ 64"
    and p: "p = get_hash_head hash t (key_at t i)" "p \<in> set F"
  obtains a b u where "allocate_node t p = Inr a" "p < length (pt_mem a)"
    "move_item (mem_upd a p (put_tag HEAD)) p i = Inr b" "deallocate_node b i = Inr u"
    "head_step hash t C R i u p (R - {i})"
proof -
  note P = pool_invD(5) [OF inv]
  have pi: "p \<noteq> i" "p \<notin> chained C" using partsD(2) [OF P p(2)] i by auto
  have Cp: "C p = []"
  proof (rule ccontr)
    assume c: "C p \<noteq> []"
    then show False using pool_chain(4,5) [OF inv c] pi(2) by blast
  qed
  have cell: "cell_at t i = Item (item_at t i)" using pool_items(1) [OF inv, of i] has_itemD i by blast
  let ?R = "R - {i}"
  obtain a where a: "allocate_node t p = Inr a" "pool_inv hash a (remove1 p F) C ?R {p, i}"
    "\<forall>j\<in>?R \<union> {i} \<union> chained C. nd a j = nd t j"
    "pt_num_items a = pt_num_items t + 1" "same_space t a" "pool_set a C ?R = pool_set t C ?R"
    using pool_inv_allocate [OF pool_inv_drop [OF inv i] p(2) n] by metis
  have len: "p < length (pt_mem a)" "i < length (pt_mem a)" using pool_inv_in(3) [OF a(2)] by auto
  let ?w = "mem_upd a p (put_tag HEAD)"
  let ?v = "mem_upd ?w i (put_cell (if pt_trivial a then Item (item_at t i) else Raw))"
  let ?b = "mem_upd ?v p (put_cell (Item (item_at t i)))"
  have cw: "cell_at ?w i = Item (item_at t i)" using a(3) cell pi(1) len by auto
  then have b: "move_item ?w p i = Inr ?b" using move_item_in [of p ?w i "item_at t i"] len by simp
  have w: "pool_inv hash ?w (remove1 p F) C ?R {p, i}" "pool_set ?w C ?R = pool_set a C ?R"
    using pool_inv_write [OF a(2), of p "put_tag HEAD"] by simp_all
  have v: "pool_inv hash ?v (remove1 p F) C ?R {p, i}" "pool_set ?v C ?R = pool_set ?w C ?R"
    using pool_inv_write [OF w(1), of i] by simp_all
  have bi: "pool_inv hash ?b (remove1 p F) C ?R {p, i}" "pool_set ?b C ?R = pool_set ?v C ?R"
    using pool_inv_write [OF v(1), of p] by simp_all
  have ndp: "nd ?b p = \<lparr>pn_tag = HEAD, pn_next = 0, pn_cell = Item (item_at t i)\<rparr>"
    using len pi(1) by (simp add: put_tag_def put_cell_def)
  have ndo: "nd ?b j = nd t j" if "j \<in> ?R \<union> chained C" for j
  proof -
    have "j \<noteq> p" "j \<noteq> i" "nd a j = nd t j"
      using that a(3) pi(2) partsD(2) [OF P p(2)] partsD(3) [OF P i] by auto
    then show ?thesis using len by simp
  qed
  have ok: "chain_ok hash ?b p [p]"
    by (rule chain_ok_single [of _ _ "item_at t i"])
       (use ndp p(1) a(5) in \<open>simp_all add: get_hash_head_def same_space_def\<close>)
  have "key_at t i \<notin> key_at t ` ?R" using pool_keys_inj [OF inv] i by (auto simp: inj_on_def)
  moreover have "key_at ?b ` ?R = key_at t ` ?R" using ndo by (intro image_cong) simp_all
  ultimately have "key_at ?b ` ?R \<inter> key_at ?b ` set [p] = {}" using ndp by auto
  from pool_inv_attach [OF bi(1) Cp ok _ this] pi(1)
  have at: "pool_inv hash ?b (remove1 p F) (C(p := [p])) ?R {i}"
    "pool_set ?b (C(p := [p])) ?R = insert (item_at t i) (pool_set t C ?R)"
    using bi(2) v(2) w(2) a(6) ndp by (simp_all add: insert_Diff_if)
  obtain u where u: "deallocate_node ?b i = Inr u" "pool_inv hash u (remove1 p F @ [i]) (C(p := [p])) ?R {}"
    "\<forall>j\<in>?R \<union> chained (C(p := [p])) \<union> ({i} - {i}). nd u j = nd ?b j" "pt_num_items ?b = pt_num_items u + 1"
    "same_space ?b u" "pool_set u (C(p := [p])) ?R = pool_set ?b (C(p := [p])) ?R"
    using pool_inv_deallocate [OF at(1), of i] by (metis Diff_cancel insertI1)
  have "same_space t u" "pt_num_items u = pt_num_items t" using u(4,5) a(4,5) by (simp_all add: same_space_def)
  moreover have "\<forall>j\<in>?R. nd u j = nd t j" using u(3) ndo by auto
  ultimately have "head_step hash t C R i u p ?R"
    using u(2,6) at(2) pool_set_split [OF i, of t C] unfolding head_step_def by auto
  with a(1) len(1) b u(1) show thesis by (rule that)
qed

text \<open>The items before offset \<open>i\<close> have a head.\<close>

definition placed :: "('k \<Rightarrow> nat) \<Rightarrow> ('k, 'v) pool_table \<Rightarrow> (nat \<Rightarrow> nat list) \<Rightarrow> nat set \<Rightarrow> nat \<Rightarrow> bool" where
  "placed hash t C R i \<longleftrightarrow> (\<forall>j\<in>R. i = 0 \<or> j < i \<longrightarrow> C (get_hash_head hash t (key_at t j)) \<noteq> [])"

definition offsets_left :: "('k, 'v) pool_table \<Rightarrow> nat \<Rightarrow> nat" where
  "offsets_left t i = (if i = 0 then 0 else pt_num_nodes t + 1 - i)"

lemma offsets_left_next:
  assumes "i \<noteq> 0" "i \<le> pt_num_nodes t"
  shows "Suc (offsets_left t (probe_offset t i)) = offsets_left t i" "probe_offset t i \<le> pt_num_nodes t"
  using assms by (auto simp: offsets_left_def probe_offset_def)

lemma placed_next:
  assumes "placed hash t C R i" "i \<noteq> 0" "i \<in> R \<Longrightarrow> C (get_hash_head hash t (key_at t i)) \<noteq> []"
    and "\<forall>j\<in>R. j \<le> pt_num_nodes t" "i \<le> pt_num_nodes t"
  shows "placed hash t C R (probe_offset t i)"
  unfolding placed_def
proof (intro ballI impI)
  fix j assume j: "j \<in> R" "probe_offset t i = 0 \<or> j < probe_offset t i"
  then have "j < i \<or> j = i" using assms(4,5) by (auto simp: probe_offset_def split: if_splits)
  then show "C (get_hash_head hash t (key_at t j)) \<noteq> []" using assms(1,3) j(1) by (auto simp: placed_def)
qed

lemma placed_step:
  assumes "placed hash t C R i" "head_step hash t C R i u p R'" "R' \<subseteq> R" "i \<noteq> 0"
  shows "placed hash u (C(p := [p])) R' i"
  unfolding placed_def
proof (intro ballI impI)
  fix j assume j: "j \<in> R'" "i = 0 \<or> j < i"
  then have "nd u j = nd t j" "pt_mask u = pt_mask t"
    using assms(2,4) by (auto simp: head_step_def same_space_def)
  then have "get_hash_head hash u (key_at u j) = get_hash_head hash t (key_at t j)"
    by (simp add: get_hash_head_def)
  with assms(1,3,4) j show "(C(p := [p])) (get_hash_head hash u (key_at u j)) \<noteq> []"
    by (auto simp: placed_def)
qed

definition heads_placed :: "('k \<Rightarrow> nat) \<Rightarrow> ('k, 'v) pool_table \<Rightarrow> (nat \<Rightarrow> nat list) \<Rightarrow> nat set
    \<Rightarrow> ('k, 'v) pool_table \<Rightarrow> bool" where
  "heads_placed hash t C R u \<longleftrightarrow> (\<exists>F' C' R'. pool_inv hash u F' C' R' {} \<and> placed hash u C' R' 0 \<and>
     same_space t u \<and> pt_num_items u = pt_num_items t \<and> pool_set u C' R' = pool_set t C R)"

lemma heads_placed_step:
  assumes "head_step hash t C R i u p R'" "heads_placed hash u (C(p := [p])) R' v"
  shows "heads_placed hash t C R v"
proof -
  have a: "same_space t u" "pt_num_items u = pt_num_items t" "pool_set u (C(p := [p])) R' = pool_set t C R"
    using assms(1) by (simp_all add: head_step_def)
  from assms(2) obtain F' C' R'' where b: "pool_inv hash v F' C' R'' {}" "placed hash v C' R'' 0"
    "same_space u v" "pt_num_items v = pt_num_items u" "pool_set v C' R'' = pool_set u (C(p := [p])) R'"
    unfolding heads_placed_def by blast
  with a same_space_trans [OF a(1) b(3)] show ?thesis
    unfolding heads_placed_def by (intro exI [of _ F'] exI [of _ C'] exI [of _ R'']) simp
qed

lemma place_heads_inv:
  assumes "pool_inv hash t F C R {}" "\<forall>h. C h = [] \<or> C h = [h]" "pt_num_nodes t < 2 ^ 64" "i \<le> pt_num_nodes t"
    and "placed hash t C R i" "offsets_left t i + card R < f"
  shows "\<exists>u. place_heads f hash i t = Inr u \<and> heads_placed hash t C R u"
  using assms
proof (induction f arbitrary: t F C R i)
  case 0
  then show ?case by simp
next
  case (Suc f)
  note inv = Suc.prems(1)
  show ?case
  proof (cases "i = 0")
    case True
    then show ?thesis using Suc.prems(1,5) by (auto simp: heads_placed_def)
  next
    case i0: False
    have len: "i < length (pt_mem t)"
      using i0 Suc.prems(4) pool_invD(1) [OF inv] by (simp add: space_ok_def)
    note left = offsets_left_next [OF i0 Suc.prems(4)] and tagi = pool_tags [OF inv, of i]
    have Rle: "\<forall>j\<in>R. j \<le> pt_num_nodes t" using pool_inv_in(2) [OF inv] by blast
    have fin: "finite R" using Rle finite_nat_set_iff_bounded_le by blast
    have IH: "\<exists>v. place_heads f hash j u = Inr v \<and> heads_placed hash t C R v"
      if st: "head_step hash t C R i u p R'" "R' \<subseteq> R" "offsets_left t j + card R' < f"
        "j = i \<or> j = probe_offset t i \<and> i \<notin> R'" for u p R' j
    proof -
      have u: "same_space t u" using st(1) by (simp add: head_step_def)
      have single: "\<forall>h. (C(p := [p])) h = [] \<or> (C(p := [p])) h = [h]" using Suc.prems(2) by simp
      have pl: "placed hash u (C(p := [p])) R' i" using placed_step [OF Suc.prems(5) st(1,2) i0] .
      have nn: "pt_num_nodes u = pt_num_nodes t" "probe_offset u i = probe_offset t i"
        "offsets_left u j = offsets_left t j"
        using u by (simp_all add: same_space_def probe_offset_def offsets_left_def)
      have "placed hash u (C(p := [p])) R' j" "j \<le> pt_num_nodes u"
        using st(2,4) pl placed_next [OF pl i0] Rle Suc.prems(4) left(2) nn by auto
      moreover obtain F' where "pool_inv hash u F' (C(p := [p])) R' {}"
        using st(1) by (auto simp: head_step_def)
      ultimately obtain v where "place_heads f hash j u = Inr v" "heads_placed hash u (C(p := [p])) R' v"
        using Suc.IH [OF _ single, of u F' R' j] Suc.prems(3) st(3) nn by metis
      then show ?thesis using heads_placed_step [OF st(1)] by blast
    qed
    have skip: "\<exists>v. place_heads f hash (probe_offset t i) t = Inr v \<and> heads_placed hash t C R v"
      if "i \<in> R \<Longrightarrow> C (get_hash_head hash t (key_at t i)) \<noteq> []"
      using Suc.IH [OF inv Suc.prems(2,3) left(2)] placed_next [OF Suc.prems(5) i0 that Rle Suc.prems(4)]
        left(1) Suc.prems(6) by simp
    show ?thesis
    proof (cases "i \<in> R")
      case False
      then have "\<not> is_rehashing (nd t i)" using tagi(2) i0 Suc.prems(4) by (simp add: is_rehashing_def)
      then show ?thesis using skip False i0 len by simp
    next
      case True
      then have ri: "is_rehashing (nd t i)" using tagi(2) i0 Suc.prems(4) by (simp add: is_rehashing_def)
      have cell: "cell_at t i = Item (item_at t i)" using pool_items(1) [OF inv, of i] has_itemD True by blast
      define p where p: "p = get_hash_head hash t (key_at t i)"
      have pr: "0 < p" "p \<le> pt_num_nodes t" using get_hash_head_range [OF pool_invD(1) [OF inv]] p by auto
      then have pl: "p < length (pt_mem t)" using pool_invD(1) [OF inv] by (simp add: space_ok_def)
      note tagp = pool_tags [OF inv pr]
      note cR = card_Suc_Diff1 [OF fin True]
      have unf: "place_heads (Suc f) hash i t =
        (if is_rehashing (nd t p) then
           if p \<noteq> i then pbind (swap_items (mem_upd t p (put_tag HEAD)) p i) (\<lambda>t. place_heads f hash i t)
           else place_heads f hash (probe_offset t i) (mem_upd t p (put_tag HEAD))
         else if is_empty (nd t p) then
           pbind (allocate_node t p) (\<lambda>t. pbind (upd_node t p (put_tag HEAD)) (\<lambda>t.
           pbind (move_item t p i) (\<lambda>t. pbind (deallocate_node t i) (\<lambda>t.
           place_heads f hash (probe_offset t i) t))))
         else place_heads f hash (probe_offset t i) t)"
        using i0 len ri cell pl p by (simp add: probe_offset_def Let_def)
      consider "p \<in> R" "p \<noteq> i" | "p = i" | "p \<in> set F" | "p \<notin> R" "p \<notin> set F" by blast
      then show ?thesis
      proof cases
        case 1
        obtain u where u: "swap_items (mem_upd t p (put_tag HEAD)) p i = Inr u"
          "head_step hash t C R i u p (R - {p})" using head_swap [OF inv True p 1] by blast
        have "offsets_left t i + card (R - {p}) < f" using card_Suc_Diff1 [OF fin 1(1)] Suc.prems(6) by linarith
        then show ?thesis unfolding unf using IH [OF u(2), of i] u(1) 1 tagp(2) by (auto simp: is_rehashing_def)
      next
        case 2
        have "offsets_left t (probe_offset t i) + card (R - {i}) < f" using cR Suc.prems(6) left(1) by linarith
        then show ?thesis unfolding unf
          using IH [OF head_here [OF inv True p [symmetric, unfolded 2]], of "probe_offset t i"] 2 ri by auto
      next
        case 3
        have "pt_num_items t + 1 < 2 ^ 64"
        proof -
          have "length F > 0" using 3 by auto
          then show ?thesis using pool_invD(6) [OF inv] Suc.prems(3) by linarith
        qed
        then obtain a b u where u: "allocate_node t p = Inr a" "p < length (pt_mem a)"
          "move_item (mem_upd a p (put_tag HEAD)) p i = Inr b" "deallocate_node b i = Inr u"
          "head_step hash t C R i u p (R - {i})" using head_move [OF inv True _ p 3] by metis
        have po: "probe_offset u i = probe_offset t i"
          using u(5) by (simp add: head_step_def same_space_def probe_offset_def)
        have "offsets_left t (probe_offset t i) + card (R - {i}) < f" using cR Suc.prems(6) left(1) by linarith
        then show ?thesis unfolding unf
          using IH [OF u(5), of "probe_offset t i"] u(1-4) po 3 tagp(1) by (auto simp: is_rehashing_def is_empty_def)
      next
        case 4
        have "\<not> (C h = xs @ p # ys \<and> xs \<noteq> [])" for h xs ys
          using Suc.prems(2) [rule_format, of h] by (cases xs) auto
        then have "tag_at t p = HEAD" using tagp 4 by (cases "tag_at t p") auto
        then have "C p \<noteq> []" using tagp(3) by simp
        then show ?thesis unfolding unf using skip tagp(1,2) 4 p by (simp add: is_rehashing_def is_empty_def)
      qed
    qed
  qed
qed

subsection \<open>Appending the rest\<close>

lemma rest_move:
  assumes inv: "pool_inv hash t F C R {}" and i: "i \<in> R" and n: "pt_num_items t + 1 < 2 ^ 64" and F: "F \<noteq> []"
    and h: "h = get_hash_head hash t (key_at t i)" "C h \<noteq> []"
  obtains l f a w b u F' where "chain_tail (pt_fuel t) t h = Inr l" "probe_node_rehash t l = Inr f"
    "f < length (pt_mem t)" "\<not> is_rehashing (nd t f)" "allocate_node t f = Inr a"
    "upd_node a l (set_next f) = Inr w" "move_item w f i = Inr b" "deallocate_node b i = Inr u"
    "pool_inv hash u F' (C(h := C h @ [f])) (R - {i}) {}" "same_space t u" "pt_num_items u = pt_num_items t"
    "pool_set u (C(h := C h @ [f])) (R - {i}) = pool_set t C R" "\<forall>j\<in>R - {i}. nd u j = nd t j"
proof -
  define l f where lf: "l = last (C h)" "f = last F"
  let ?R = "R - {i}" and ?x = "item_at t i"
  note P = pool_invD(5) [OF inv] and D = pool_inv_drop [OF inv i] and ch = pool_chain [OF inv h(2)]
  obtain a w where w: "chain_tail (pt_fuel t) t h = Inr l" "probe_node_rehash t l = Inr f"
    "allocate_node t f = Inr a" "upd_node a l (set_next f) = Inr w"
    "pool_inv hash w (remove1 f F) (C(h := [])) ?R (insert f (insert i {} \<union> set (C h)))"
    "nd w f = put_tag PROBE (nd t f)" "nd w l = set_next f (nd t l)"
    "\<forall>j\<in>?R \<union> insert i {} \<union> chained C. j \<noteq> l \<longrightarrow> nd w j = nd t j"
    "pt_num_items w = pt_num_items t + 1" "same_space t w"
    "pool_set w (C(h := [])) ?R = pool_set t (C(h := [])) ?R"
    by (rule append_node [OF D h(2) F n lf]) blast
  have fF: "f \<in> set F" using F lf by simp
  have lC: "l \<in> set (C h)" using h(2) lf by simp
  have out: "f \<notin> R" "f \<noteq> i" "f \<notin> chained C" "i \<notin> chained C" "f \<notin> set (C h)" "i \<notin> set (C h)" "l \<noteq> i" "l \<noteq> f"
    using partsD(2) [OF P fF] partsD(3) [OF P i] i ch(5) lC by auto
  have cell: "cell_at t i = Item ?x" using pool_items(1) [OF inv, of i] has_itemD i by blast
  have len: "f < length (pt_mem w)" "i < length (pt_mem w)" using pool_inv_in(3) [OF w(5)] by auto
  have fr: "f < length (pt_mem t)" "\<not> is_rehashing (nd t f)"
    using pool_invD(2) [OF inv] fF by (auto simp: free_ok_def is_rehashing_def)
  let ?v = "mem_upd w i (put_cell (if pt_trivial w then Item ?x else Raw))"
  let ?b = "mem_upd ?v f (put_cell (Item ?x))"
  have "nd w i = nd t i" using w(8) out(7) by auto
  then have b: "move_item w f i = Inr ?b" using move_item_in [OF len, of ?x] cell by simp
  let ?L = "insert f (insert i {} \<union> set (C h))"
  have v: "pool_inv hash ?v (remove1 f F) (C(h := [])) ?R ?L" "pool_set ?v (C(h := [])) ?R = pool_set w (C(h := [])) ?R"
    using pool_inv_write [OF w(5), of i] by simp_all
  have bi: "pool_inv hash ?b (remove1 f F) (C(h := [])) ?R ?L" "pool_set ?b (C(h := [])) ?R = pool_set ?v (C(h := [])) ?R"
    using pool_inv_write [OF v(1), of f] by simp_all
  have ndb: "nd ?b j = nd w j" if "j \<noteq> f" "j \<noteq> i" for j using that len by simp
  have same: "nd ?b j = nd t j" if "j \<in> ?R \<union> set (C h)" "j \<noteq> l" for j
  proof -
    have "j \<noteq> f" "j \<noteq> i" "j \<in> ?R \<union> insert i {} \<union> chained C" using that out ch(5) by auto
    then show ?thesis using ndb w(8) that(2) by simp
  qed
  have lR: "l \<notin> ?R" using partsD(5) [OF P] ch(5) [OF lC] by blast
  have "key_at ?b j = key_at t j" if "j \<in> ?R" for j
  proof -
    have "nd ?b j = nd t j" by (rule same) (use that lR in auto)
    then show ?thesis by (rule arg_cong [of _ _ "\<lambda>n. fst (item_of (pn_cell n))"])
  qed
  then have keys: "key_at ?b ` ?R = key_at t ` ?R" by (rule image_cong [OF refl])
  have keyi: "key_at t i \<notin> key_at t ` (?R \<union> set (C h))"
    using pool_keys_inj [OF inv] i out(6) ch(5) unfolding inj_on_def by blast
  have disj: "key_at t ` ?R \<inter> key_at t ` set (C h) = {}"
    using pool_invD(4) [OF inv] ch(5) by (auto simp: loose_ok_def)
  have ndl: "nd ?b (last (C h)) = set_next f (nd t (last (C h)))"
    using ndb [OF out(8,7)] w(7) unfolding lf(1) by simp
  have ndf: "tag_at ?b f = PROBE" "next_at ?b f = 0" "cell_at ?b f = Item ?x"
    using len w(6) out(2) by (simp_all add: put_tag_def put_cell_def)
  have L: "?L - insert f (set (C h)) = {i}" using out by auto
  have at: "pool_inv hash ?b (remove1 f F) (C(h := C h @ [f])) ?R {i}"
    "pool_set ?b (C(h := C h @ [f])) ?R = insert ?x (item_at t ` set (C h) \<union> pool_set ?b (C(h := [])) ?R)"
  proof -
    have s: "insert f (set (C h)) \<subseteq> ?L" "same_space t ?b" using w(10) by auto
    have nd': "nd ?b j = nd t j" if "j \<in> set (C h)" "j \<noteq> last (C h)" for j
      by (rule same) (use that lf(1) in auto)
    have k: "fst ?x \<notin> key_at t ` set (C h)" "fst ?x \<notin> key_at ?b ` ?R" "key_at ?b ` ?R \<inter> key_at t ` set (C h) = {}"
      unfolding keys using keyi disj by blast+
    note fin = append_finish [OF bi(1) ch(1) h(2) s(1) out(5) s(2) ndl nd' ndf h(1) [symmetric] k]
    show "pool_inv hash ?b (remove1 f F) (C(h := C h @ [f])) ?R {i}" using fin(1) unfolding L .
    show "pool_set ?b (C(h := C h @ [f])) ?R = insert ?x (item_at t ` set (C h) \<union> pool_set ?b (C(h := [])) ?R)"
      by (rule fin(2))
  qed
  obtain u where u: "deallocate_node ?b i = Inr u" "pool_inv hash u (remove1 f F @ [i]) (C(h := C h @ [f])) ?R {}"
    "\<forall>j\<in>?R \<union> chained (C(h := C h @ [f])) \<union> ({i} - {i}). nd u j = nd ?b j" "pt_num_items ?b = pt_num_items u + 1"
    "same_space ?b u" "pool_set u (C(h := C h @ [f])) ?R = pool_set ?b (C(h := C h @ [f])) ?R"
    using pool_inv_deallocate [OF at(1), of i] by (metis Diff_cancel insertI1)
  have ss: "same_space t u" "pt_num_items u = pt_num_items t" using u(4,5) w(9,10) by (simp_all add: same_space_def)
  have "\<forall>j\<in>?R. nd u j = nd t j" using u(3) same lR by (metis UnI1)
  moreover have "pool_set u (C(h := C h @ [f])) ?R = pool_set t C R"
    unfolding u(6) at(2) bi(2) v(2) w(11) pool_inv_detach(2) [OF D, of h, symmetric] pool_set_split [OF i, of t C] ..
  ultimately show thesis using that w(1-4) fr b u(1,2) ss by metis
qed

lemma place_rest_inv:
  assumes "pool_inv hash t F C R {}" "pt_num_nodes t < 2 ^ 64" "pt_num_items t < pt_num_nodes t" "i \<le> pt_num_nodes t"
    and "\<forall>j\<in>R. C (get_hash_head hash t (key_at t j)) \<noteq> []" "\<forall>j\<in>R. i \<noteq> 0 \<and> i \<le> j" "offsets_left t i < f"
  shows "\<exists>u F' C'. place_rest f hash i t = Inr u \<and> pool_inv hash u F' C' {} {} \<and> same_space t u \<and>
    pool_set u C' {} = pool_set t C R"
  using assms
proof (induction f arbitrary: t F C R i)
  case 0
  then show ?case by simp
next
  case (Suc f)
  note inv = Suc.prems(1)
  show ?case
  proof (cases "i = 0")
    case True
    then have "R = {}" using Suc.prems(6) by auto
    with True inv show ?thesis by auto
  next
    case i0: False
    have len: "i < length (pt_mem t)"
      using i0 Suc.prems(4) pool_invD(1) [OF inv] by (simp add: space_ok_def)
    note left = offsets_left_next [OF i0 Suc.prems(4)] and tagi = pool_tags [OF inv, of i]
    have fuel: "offsets_left t (probe_offset t i) < f" using left(1) Suc.prems(7) by linarith
    have ahead: "\<forall>j\<in>R - {i}. probe_offset t i \<noteq> 0 \<and> probe_offset t i \<le> j"
    proof
      fix j assume j: "j \<in> R - {i}"
      then have "i < j" using Suc.prems(6) by (simp add: le_neq_implies_less)
      moreover have "j \<le> pt_num_nodes t" using pool_inv_in(2) [OF inv, of j] j by simp
      ultimately show "probe_offset t i \<noteq> 0 \<and> probe_offset t i \<le> j" by (simp add: probe_offset_def)
    qed
    show ?thesis
    proof (cases "i \<in> R")
      case False
      then have "R - {i} = R" by simp
      then show ?thesis
        using Suc.IH [OF inv Suc.prems(2,3) left(2) Suc.prems(5) _ fuel] ahead False i0 len tagi(2) Suc.prems(4)
        by (simp add: is_rehashing_def)
    next
      case True
      have n: "pt_num_items t + 1 < 2 ^ 64" and F: "F \<noteq> []"
        using Suc.prems(2,3) pool_invD(6) [OF inv] by auto
      define h where h: "h = get_hash_head hash t (key_at t i)"
      obtain l g a w b u F' where u: "chain_tail (pt_fuel t) t h = Inr l" "probe_node_rehash t l = Inr g"
        "g < length (pt_mem t)" "\<not> is_rehashing (nd t g)" "allocate_node t g = Inr a"
        "upd_node a l (set_next g) = Inr w" "move_item w g i = Inr b" "deallocate_node b i = Inr u"
        "pool_inv hash u F' (C(h := C h @ [g])) (R - {i}) {}" "same_space t u" "pt_num_items u = pt_num_items t"
        "pool_set u (C(h := C h @ [g])) (R - {i}) = pool_set t C R" "\<forall>j\<in>R - {i}. nd u j = nd t j"
        using rest_move [OF inv True n F h] Suc.prems(5) True h by metis
      have cell: "cell_at t i = Item (item_at t i)" using pool_items(1) [OF inv, of i] has_itemD True by blast
      have nn: "pt_num_nodes u = pt_num_nodes t" "probe_offset u j = probe_offset t j"
        "offsets_left u j = offsets_left t j" for j
        using u(10) by (simp_all add: same_space_def probe_offset_def offsets_left_def)
      have "\<forall>j\<in>R - {i}. (C(h := C h @ [g])) (get_hash_head hash u (key_at u j)) \<noteq> []"
        using Suc.prems(5) u(10,13) by (auto simp: get_hash_head_def same_space_def)
      then obtain v F'' C'' where v: "place_rest f hash (probe_offset t i) u = Inr v"
        "pool_inv hash v F'' C'' {} {}" "same_space u v" "pool_set v C'' {} = pool_set t C R"
        using Suc.IH [OF u(9), of "probe_offset t i"] Suc.prems(2,3) left(2) ahead fuel
        unfolding nn u(11,12) by blast
      have "place_rest (Suc f) hash i t = Inr v"
        using i0 len cell u(1-8) v(1) nn tagi(2) True Suc.prems(4) h by (simp add: is_rehashing_def)
      then show ?thesis using v(2,4) same_space_trans [OF u(10) v(3)] by blast
    qed
  qed
qed

text \<open>The grown memory after the first pass: the items wait at the nodes where they were.\<close>

lemma remap_marked:
  assumes inv: "pool_inv hash t F C {} {}" and n: "pt_num_nodes t < n" "n < 2 ^ 64"
  obtains a b d F' where "set_space t n = Inr a"
    "reset_sentinel (set_max_load_factor a (pt_max_load_factor a)) = Inr b"
    "for_each mark_node (offsets b) b = Inr d" "pool_inv hash d F' (\<lambda>_. []) (set (used_nodes t)) {}"
    "pool_set d (\<lambda>_. []) (set (used_nodes t)) = set (pt_items t)" "pt_num_items d = pt_num_items t"
    "pt_num_nodes d = n" "load_ok d" "pt_trivial d = pt_trivial t"
proof -
  note sp = pool_invD(1) [OF inv]
  have n1: "1 \<le> n" using n(1) by simp
  obtain a where a: "set_space t n = Inr a" "space_ok a" "pt_num_nodes a = n" "pt_num_items a = pt_num_items t"
    "pt_trivial a = pt_trivial t" "n < length (pt_mem a)" "\<forall>i<length (pt_mem t). i \<le> n \<longrightarrow> nd a i = nd t i"
    "\<forall>i. length (pt_mem t) \<le> i \<and> i \<le> n \<longrightarrow> nd a i = zero_node"
    using set_space_ok [OF n1] by metis
  let ?b = "set_max_load_factor a (pt_max_load_factor a)"
  let ?c = "mem_upd ?b 0 (\<lambda>n. put_cell (Prev 0) (put_free 0 n))"
  have len: "0 < length (pt_mem ?b)" using a(6) by auto
  then have rs: "reset_sentinel ?b = Inr ?c" by (simp add: reset_sentinel_def)
  have ndc: "nd ?c i = nd a i" if "0 < i" for i using that len by simp
  have spc: "space_ok ?c" using a(2,3) ndc by (auto simp: space_ok_def)
  have fr: "free_ok ?c []" using len by (simp add: free_ok_def put_cell_def put_free_def)
  have old: "nd ?c i = nd t i" if "i \<in> set (offsets t)" for i
    using ndc a(7) pool_node_range [OF sp that] that n(1) by (simp add: set_offsets)
  have new: "tag_at ?c i = EMPTY" if "pt_num_nodes t < i" "i \<le> n" for i
    using that ndc a(8) sp by (simp add: space_ok_def zero_node_def)
  have used: "used_nodes ?c = used_nodes t"
  proof -
    have "offsets ?c = offsets t @ [Suc (pt_num_nodes t)..<Suc n]"
      using a(3) n(1) upt_add_eq_append [of 1 "Suc (pt_num_nodes t)" "n - pt_num_nodes t"]
      by (simp add: offsets_def del: upt_Suc)
    moreover have "filter (\<lambda>i. tag_at ?c i \<noteq> EMPTY) [Suc (pt_num_nodes t)..<Suc n] = []"
      using new by (auto simp: filter_empty_conv simp del: upt_Suc)
    moreover have "filter (\<lambda>i. tag_at ?c i \<noteq> EMPTY) (offsets t) = used_nodes t"
      unfolding used_nodes_def by (intro filter_cong) (simp_all only: old)
    ultimately show ?thesis by (simp add: used_nodes_def)
  qed
  have same: "nd ?c i = nd t i" if "i \<in> set (used_nodes t)" for i using old that by (auto simp: used_nodes_def)
  then have items: "pt_items ?c = pt_items t" unfolding pt_items_def used by (intro map_cong) simp_all
  have it: "\<forall>i\<in>set (used_nodes ?c). has_item ?c i" "inj_on (key_at ?c) (set (used_nodes ?c))"
    "pt_num_items ?c = length (used_nodes ?c)"
  proof -
    have "has_item ?c i = has_item t i" if "i \<in> set (used_nodes t)" for i using same [OF that] unfolding has_item_def by simp
    then show "\<forall>i\<in>set (used_nodes ?c). has_item ?c i"
      unfolding used using pool_items(1) [OF inv] used_nodes_inv [OF inv] by blast
    have "key_at ?c i = key_at t i" if "i \<in> set (used_nodes t)" for i using same [OF that] by simp
    then show "inj_on (key_at ?c) (set (used_nodes ?c))"
      unfolding used using pool_keys_inj [OF inv] used_nodes_inv [OF inv] by (auto simp: inj_on_def)
    show "pt_num_items ?c = length (used_nodes ?c)"
      unfolding used using pt_items_inv(3) [OF inv] a(4) by (simp add: pt_items_def)
  qed
  let ?R = "set (used_nodes t)"
  obtain d F1 where d: "for_each mark_node (offsets ?c) ?c = Inr d" "same_space ?c d" "pt_num_items d = pt_num_items ?c"
    "pool_inv hash d F1 (\<lambda>_. []) ?R {}" "pool_set d (\<lambda>_. []) ?R = set (pt_items t)"
    using mark_pass [OF spc fr _ it, of hash] n(2) a(3) unfolding used items by auto
  moreover have "load_ok d" using set_max_load_factor_ok [of a "pt_max_load_factor a"] d(2)
    by (simp add: load_ok_def same_space_def)
  moreover have "pt_num_nodes d = n" "pt_trivial d = pt_trivial t" using d(2) a(3,5) by (simp_all add: same_space_def)
  ultimately show thesis using that a(1,4) rs by simp
qed

lemma remap_rehash_holds:
  assumes inv: "pool_inv hash t F C {} {}" and n: "pt_num_nodes t < n" "n < 2 ^ 64"
  shows "\<exists>u. inner_remap_rehash hash t n = Inr u \<and> holds hash u n (pool_set t C {}) \<and>
    pt_trivial u = pt_trivial t"
proof -
  let ?R = "set (used_nodes t)"
  obtain a b d F1 where d: "set_space t n = Inr a"
    "reset_sentinel (set_max_load_factor a (pt_max_load_factor a)) = Inr b"
    "for_each mark_node (offsets b) b = Inr d" "pool_inv hash d F1 (\<lambda>_. []) ?R {}"
    "pool_set d (\<lambda>_. []) ?R = set (pt_items t)" "pt_num_items d = pt_num_items t"
    "pt_num_nodes d = n" "load_ok d" "pt_trivial d = pt_trivial t"
    using remap_marked [OF inv n] by metis
  have dn: "pt_num_nodes d = n" "pt_fuel d = Suc n" "pass_fuel d = 2 * n + 2"
    using d(7) by (simp_all add: pt_fuel_def pass_fuel_def)
  have n0: "probe_offset d 0 = 1" using dn(1) n(1) by (simp add: probe_offset_def)
  have "card ?R \<le> card {1..n}" using pool_inv_in(1,2) [OF d(4)] dn(1)
    by (intro card_mono) (auto simp: Suc_le_eq)
  then have "offsets_left d 1 + card ?R < pass_fuel d" using dn by (simp add: offsets_left_def)
  moreover have "placed hash d (\<lambda>_. []) ?R 1" using pool_inv_in(1) [OF d(4)] by (auto simp: placed_def)
  ultimately obtain e where e: "place_heads (pass_fuel d) hash 1 d = Inr e" "heads_placed hash d (\<lambda>_. []) ?R e"
    using place_heads_inv [OF d(4), of 1 "pass_fuel d"] dn(1) n by auto
  then obtain F2 C2 R2 where p: "pool_inv hash e F2 C2 R2 {}" "placed hash e C2 R2 0" "same_space d e"
    "pt_num_items e = pt_num_items d" "pool_set e C2 R2 = set (pt_items t)"
    unfolding heads_placed_def d(5) by blast
  have en: "pt_num_nodes e = n" "probe_offset e 0 = 1" "pass_fuel e = 2 * n + 2"
    using p(3) dn n(1) by (simp_all add: same_space_def probe_offset_def pass_fuel_def)
  have "pt_num_items e < pt_num_nodes e"
    using p(4) d(6) pool_invD(6) [OF inv] n(1) en(1) by simp
  moreover have "\<forall>j\<in>R2. (1::nat) \<noteq> 0 \<and> 1 \<le> j" using pool_inv_in(1) [OF p(1)] by (auto simp: Suc_le_eq)
  moreover have "\<forall>j\<in>R2. C2 (get_hash_head hash e (key_at e j)) \<noteq> []" using p(2) by (simp add: placed_def)
  moreover have "offsets_left e 1 < pass_fuel e" using en by (simp add: offsets_left_def)
  ultimately obtain u F3 C3 where u: "place_rest (pass_fuel e) hash 1 e = Inr u" "pool_inv hash u F3 C3 {} {}"
    "same_space e u" "pool_set u C3 {} = set (pt_items t)"
    using place_rest_inv [OF p(1), of 1 "pass_fuel e"] en(1) n p(5) by auto
  have "inner_remap_rehash hash t n = Inr u"
    using n(1) d(1-3) e(1) u(1) n0 en(2) by (simp add: inner_remap_rehash_def Let_def)
  moreover have "load_ok u" using d(8) u(3) p(3) by (simp add: load_ok_def same_space_def)
  moreover have "pt_num_nodes u = n" "pt_trivial u = pt_trivial t"
    using u(3) en(1) p(3) d(9) by (simp_all add: same_space_def)
  ultimately show ?thesis using u(2,4) pt_items_inv(1) [OF inv] unfolding holds_def by auto
qed

end
