(* ===== verification/Pool_Map.thy ===== *)
theory Pool_Map
  imports Pool_Rehash
begin

text \<open>
  \<open>PoolHashTable\<close> as a finite map: the sizes that \<open>reserve\<close> and \<open>rehash\<close> choose in \<open>double\<close> arithmetic are large
  enough, insertion, removal and the other operations act on the set of items as on a map,
  and so do all sequences of them.
\<close>

section \<open>Sizes\<close>

lemma fl64_mono: "x \<le> y \<Longrightarrow> fl64 x \<le> fl64 y"
  by (simp add: fl64_def round_float_mono)

lemma fl64_nat: "n < 2 ^ 53 \<Longrightarrow> fl64 (of_nat n) = of_nat n"
  by (simp add: fl64_def round_float_nat)

lemma tenth_le: "1 / 10 \<le> fl64 (1 / 10)"
  by code_simp

lemma nat_floor_le:
  assumes "x \<le> (of_nat m :: rat)"
  shows "nat \<lfloor>x\<rfloor> \<le> m"
  using floor_mono [OF assms] by (simp add: nat_le_iff)

lemma load_factor_bounds:
  assumes "load_ok t"
  shows "1 / 10 \<le> pt_max_load_factor t" "pt_max_load_factor t \<le> 1" "0 < pt_max_load_factor t"
proof -
  show a: "1 / 10 \<le> pt_max_load_factor t" using assms tenth_le by (simp add: load_ok_def)
  then show "0 < pt_max_load_factor t" by (rule less_le_trans [rotated]) simp
  show "pt_max_load_factor t \<le> 1" using assms by (simp add: load_ok_def)
qed

text \<open>The loop that adds buckets ends, with at least as many buckets as items.\<close>

lemma grow_buckets_enough:
  assumes "10 * n < b + f" "0 < f" "10 * n < 2 ^ 53" "1 / 10 \<le> ml" "ml \<le> 1"
  shows "\<exists>r. grow_buckets f ml n b = Inr r \<and> b \<le> r \<and> n \<le> r \<and> r \<le> max b (10 * n)"
  using assms(1,2)
proof (induction f arbitrary: b)
  case (Suc f)
  have n: "fl64 (of_nat n) = of_nat n" "fl64 (of_nat (10 * n)) = of_nat (10 * n)"
    using assms(3) by (intro fl64_nat; simp)+
  show ?case
  proof (cases "fl64 (fl64 (of_nat b) * ml) < fl64 (of_nat n)")
    case True
    have less: "b < 10 * n"
    proof (rule ccontr)
      assume "\<not> b < 10 * n"
      then have "of_nat (10 * n) \<le> fl64 (of_nat b)" using fl64_mono [of "of_nat (10 * n)" "of_nat b"] n(2) by simp
      then have "of_nat (10 * n) * (1 / 10) \<le> fl64 (of_nat b) * ml" using assms(4) by (intro mult_mono) simp_all
      then have "of_nat n \<le> fl64 (of_nat b) * ml" by simp
      with True show False using fl64_mono by fastforce
    qed
    then obtain r where "grow_buckets f ml n (b + 1) = Inr r" "b + 1 \<le> r" "n \<le> r" "r \<le> max (b + 1) (10 * n)"
      using Suc.IH [of "b + 1"] Suc.prems(1) by auto
    then show ?thesis using True less by auto
  next
    case False
    have "n \<le> b"
    proof (rule ccontr)
      assume less: "\<not> n \<le> b"
      then have b: "fl64 (of_nat b) = of_nat b" using assms(3) by (intro fl64_nat) simp
      then have "fl64 (of_nat b) * ml \<le> of_nat b" using assms(5) by (simp add: mult_left_le)
      then have "fl64 (fl64 (of_nat b) * ml) \<le> of_nat b" using fl64_mono [of _ "of_nat b"] b by simp
      moreover have "(of_nat b :: rat) < of_nat n" using less by simp
      ultimately show False using False n(1) by simp
    qed
    with False show ?thesis by auto
  qed
qed simp

lemma buckets_for_le:
  assumes "10 * n < 2 ^ 53" "1 / 10 \<le> ml"
  shows "buckets_for ml n \<le> 10 * n"
proof -
  have n: "fl64 (of_nat n) = of_nat n" "fl64 (of_nat (10 * n)) = of_nat (10 * n)"
    using assms(1) by (intro fl64_nat; simp)+
  have "of_nat n / ml \<le> of_nat n / (1 / 10)" using assms(2) by (intro divide_left_mono) auto
  then have "fl64 (of_nat n / ml) \<le> of_nat (10 * n)"
    using fl64_mono [of "of_nat n / ml" "of_nat (10 * n)"] n(2) by simp
  then show ?thesis unfolding buckets_for_def n(1) by (rule nat_floor_le)
qed

lemma expand_space_le:
  assumes "space_ok t" "2 * pt_num_nodes t < 2 ^ 53"
  shows "expand_space t \<le> 2 * pt_num_nodes t"
proof -
  let ?n = "pt_num_nodes t"
  have n: "fl64 (of_nat ?n) = of_nat ?n" "fl64 (of_nat (2 * ?n)) = of_nat (2 * ?n)"
    using assms(2) by (intro fl64_nat; simp)+
  have "of_nat ?n * (45 / 32 :: rat) \<le> of_nat (2 * ?n)" by simp
  then have "fl64 (of_nat ?n * (45 / 32)) \<le> of_nat (2 * ?n)" using fl64_mono n(2) by metis
  then have "nat \<lfloor>fl64 (fl64 (of_nat ?n) * (45 / 32))\<rfloor> \<le> 2 * ?n" unfolding n(1) by (rule nat_floor_le)
  then show ?thesis using assms(1) by (auto simp: expand_space_def Let_def space_ok_def)
qed

section \<open>Reserving space\<close>

lemma holds_items:
  assumes "holds hash t n S"
  shows "pt_num_items t = card S" "set (pt_items t) = S" "distinct (map fst (pt_items t))" "finite S" "card S \<le> n" "0 < n"
proof -
  obtain F C where inv: "pool_inv hash t F C {} {}" "pool_set t C {} = S" and n: "pt_num_nodes t = n"
    using assms by (auto simp: holds_def)
  note items = pt_items_inv [OF inv(1)]
  show S: "set (pt_items t) = S" and d: "distinct (map fst (pt_items t))" using items inv(2) by auto
  show "finite S" using S by (metis List.finite_set)
  have "distinct (pt_items t)" using d by (simp add: distinct_map)
  then show c: "pt_num_items t = card S" using distinct_card S items(3) by metis
  show "card S \<le> n" using pool_invD(6) [OF inv(1)] n c by simp
  show "0 < n" using pool_invD(1) [OF inv(1)] n by (simp add: space_ok_def)
qed

lemma pt_rehash_holds:
  assumes h: "holds hash t n S" and b: "b < 2 ^ 53" "n < 2 ^ 53" and c: "10 * card S < 2 ^ 53"
  shows "\<exists>u m. pt_rehash hash t b = Inr u \<and> holds hash u m S \<and> b \<le> m \<and> m \<le> max (max b 1) (10 * card S) \<and>
    pt_trivial u = pt_trivial t"
proof -
  obtain F C where inv: "pool_inv hash t F C {} {}" "pool_set t C {} = S" and n: "pt_num_nodes t = n"
    and l: "load_ok t" using h by (auto simp: holds_def)
  note ml = load_factor_bounds [OF l] and S = holds_items [OF h]
  let ?ml = "pt_max_load_factor t" and ?c = "card S"
  let ?b = "max (max b 1) (buckets_for ?ml ?c)"
  obtain r where r: "grow_buckets (grow_fuel ?c) ?ml ?c ?b = Inr r" "?b \<le> r" "?c \<le> r" "r \<le> max ?b (10 * ?c)"
    using grow_buckets_enough [of ?c ?b "grow_fuel ?c" ?ml] ml c by (auto simp: grow_fuel_def)
  have r': "1 \<le> r" "b \<le> r" "r \<le> max (max b 1) (10 * ?c)"
    using r(2,4) buckets_for_le [OF c ml(1)] by auto
  moreover have "max (max b 1) (10 * ?c) < 2 ^ 64" using b c by simp
  ultimately have r64: "r < 2 ^ 64" by linarith
  show ?thesis
  proof (cases "r = n")
    case True
    then show ?thesis using r(1) r' h S(1) n by (auto simp: pt_rehash_def Let_def)
  next
    case False
    have "\<exists>u. (if n < r \<and> pt_trivial t then inner_remap_rehash hash t r else inner_serialize_rehash hash t r) = Inr u \<and>
      holds hash u r S \<and> pt_trivial u = pt_trivial t"
      using remap_rehash_holds [OF inv(1), of r] serialize_rehash_holds [OF inv(1), of r] r64 r(3) r'(1) S(1) n inv(2)
      by auto
    then show ?thesis using r(1) r' S(1) n False by (auto simp: pt_rehash_def Let_def)
  qed
qed

lemma pt_reserve_holds:
  assumes h: "holds hash t n S" and k: "40 * max k (card S) < 2 ^ 53" "2 * n < 2 ^ 53"
  shows "\<exists>u m. pt_reserve hash t k = Inr u \<and> holds hash u m S \<and> k \<le> m \<and> m \<le> max n (20 * max k (card S)) \<and>
    pt_trivial u = pt_trivial t"
proof -
  obtain F C where inv: "pool_inv hash t F C {} {}" and n: "pt_num_nodes t = n"
    and l: "load_ok t" using h by (auto simp: holds_def)
  note ml = load_factor_bounds [OF l]
  have k10: "10 * k < 2 ^ 53" using k(1) by linarith
  show ?thesis
  proof (cases "pt_max_num_items t < k")
    case True
    let ?ml = "pt_max_load_factor t"
    obtain b where b: "grow_buckets (grow_fuel k) ?ml k (buckets_for ?ml k) = Inr b" "k \<le> b"
      "b \<le> max (buckets_for ?ml k) (10 * k)"
      using grow_buckets_enough [of k "buckets_for ?ml k" "grow_fuel k" ?ml] ml k10 by (auto simp: grow_fuel_def)
    have b10: "b \<le> 10 * k" using b(3) buckets_for_le [OF k10 ml(1)] by simp
    show ?thesis
    proof (cases "n < b")
      case less: True
      have e: "expand_space t \<le> 2 * n" using expand_space_le [OF pool_invD(1) [OF inv]] n k(2) by simp
      have c: "10 * card S < 2 ^ 53" "max b (expand_space t) < 2 ^ 53" "n < 2 ^ 53" using k e b10 by auto
      obtain u m where u: "pt_rehash hash t (max b (expand_space t)) = Inr u" "holds hash u m S"
        "max b (expand_space t) \<le> m" "m \<le> max (max (max b (expand_space t)) 1) (10 * card S)"
        "pt_trivial u = pt_trivial t" using pt_rehash_holds [OF h c(2,3,1)] by blast
      have "m \<le> 20 * max k (card S)" "k \<le> m" using u(3,4) less e b10 b(2) True by linarith+
      then have "m \<le> max n (20 * max k (card S))" by linarith
      with \<open>k \<le> m\<close> show ?thesis using True less b(1) u n by (auto simp: pt_reserve_def Let_def)
    next
      case False
      then show ?thesis using True b h n by (auto simp: pt_reserve_def Let_def)
    qed
  next
    case False
    then have "k \<le> n" using l n by (simp add: load_ok_def)
    with False h show ?thesis by (auto simp: pt_reserve_def Let_def)
  qed
qed

section \<open>Lookup and insertion\<close>

lemma find_holds:
  assumes "holds hash t n S"
  obtains i where "inner_find hash t k = Inr i" "i = 0 \<Longrightarrow> k \<notin> fst ` S"
    "i \<noteq> 0 \<Longrightarrow> i \<in> set (used_nodes t) \<and> i < length (pt_mem t) \<and> cell_at t i = Item (item_at t i) \<and>
       item_at t i \<in> S \<and> key_at t i = k"
proof -
  obtain F C where inv: "pool_inv hash t F C {} {}" and S: "pool_set t C {} = S"
    using assms by (auto simp: holds_def)
  obtain i where i: "inner_find hash t k = Inr i" "i = 0 \<Longrightarrow> k \<notin> fst ` pool_set t C {}"
    "i \<noteq> 0 \<Longrightarrow> i \<in> set (C (get_hash_head hash t k)) \<and> key_at t i = k"
    using inner_find_inv [OF inv] by blast
  have "i \<in> set (used_nodes t) \<and> i < length (pt_mem t) \<and> cell_at t i = Item (item_at t i) \<and>
      item_at t i \<in> S \<and> key_at t i = k" if "i \<noteq> 0"
  proof -
    have c: "i \<in> {} \<union> chained C" using i(3) that by (auto simp: chained_def)
    then show ?thesis
      using used_nodes_inv [OF inv] pool_inv_in(3) [OF inv, of i] has_itemD [OF pool_items(1) [OF inv c]] i(3) S that
      by (auto simp: pool_set_def)
  qed
  with i(1,2) S show thesis by (intro that [of i]) auto
qed

lemma emplace_holds:
  assumes h: "holds hash t n S" and k: "fst x \<notin> fst ` S" and b: "40 * (card S + 1) < 2 ^ 53" "2 * n < 2 ^ 53"
  obtains u i m where "inner_emplace_not_exist hash t x = Inr (u, i)" "holds hash u m (insert x S)"
    "m \<le> max n (20 * (card S + 1))" "i \<noteq> 0" "i < length (pt_mem u)" "cell_at u i = Item x"
    "pt_trivial u = pt_trivial t"
proof -
  obtain w m where w: "pt_reserve hash t (card S + 1) = Inr w" "holds hash w m S" "card S + 1 \<le> m"
    "m \<le> max n (20 * (card S + 1))" "pt_trivial w = pt_trivial t"
    using pt_reserve_holds [OF h _ b(2), of "card S + 1"] b(1) by auto
  obtain F C where inv: "pool_inv hash w F C {} {}" "pool_set w C {} = S" and m: "pt_num_nodes w = m"
    and l: "load_ok w" using w(2) by (auto simp: holds_def)
  note c = holds_items(1) [OF w(2)]
  have n64: "pt_num_items w + 1 < 2 ^ 64" using c b(1) by simp
  have F: "F \<noteq> []" using pool_invD(6) [OF inv(1)] m w(3) c by auto
  obtain a u i where a: "inner_allocate_not_exist_no_rehash hash w (fst x) = Inr (a, i)"
    "put_item a i x = Inr u" "inserted hash w C x u i"
    using allocate_insert [OF inv(1) n64 F] k inv(2) by metis
  then obtain F' C' where u: "pool_inv hash u F' C' {} {}" "pool_set u C' {} = insert x S" "i \<in> chained C'"
    "cell_at u i = Item x" "same_space w u" unfolding inserted_def inv(2) by blast
  have "holds hash u m (insert x S)" using u(1,2,5) m l unfolding holds_def load_ok_def same_space_def by auto
  moreover have "i \<noteq> 0" "i < length (pt_mem u)" using pool_inv_in [OF u(1), of i] u(3) by auto
  moreover have "inner_emplace_not_exist hash t x = Inr (u, i)"
    using w(1) a(1,2) holds_items(1) [OF h] by (simp add: inner_emplace_not_exist_def)
  ultimately show thesis using that w(4,5) u(4,5) by (simp add: same_space_def)
qed

section \<open>Removal\<close>

lemma path_remove:
  assumes "path t (xs @ a # b # ys)" "distinct (xs @ a # b # ys)" "next_at u a = next_at t b"
    and "\<And>i. i \<in> set (xs @ ys) \<Longrightarrow> next_at u i = next_at t i"
  shows "path u (xs @ a # ys)"
  using assms
proof (induction xs)
  case Nil
  have "path u ys = path t ys" using Nil by (intro path_cong) auto
  with Nil show ?case by (cases ys) auto
next
  case (Cons x xs)
  then have "path u (xs @ a # ys)" by (cases xs) auto
  moreover have "next_at u x = next_at t x" using Cons.prems(4) by simp
  ultimately show ?case using Cons.prems(1) by (cases xs) auto
qed

lemma path_butlast:
  assumes "path t (xs @ [b])" "xs \<noteq> []" "distinct xs" "next_at u (last xs) = 0"
    and "\<And>i. i \<in> set (butlast xs) \<Longrightarrow> next_at u i = next_at t i"
  shows "path u xs"
  using assms by (induction xs rule: induct_list012) auto

lemma chain_drop:
  assumes ok: "chain_ok hash t h (xs @ i # d # ys)" and m: "pt_mask w = pt_mask t"
    and w: "tag_at w i = tag_at t i" "next_at w i = next_at t d" "cell_at w i = cell_at t d"
      "\<And>j. j \<in> set (xs @ ys) \<Longrightarrow> nd w j = nd t j"
  shows "chain_ok hash w h (xs @ i # ys)"
proof -
  let ?c = "xs @ i # ys"
  note D = chain_okD [OF ok, simplified]
  have dist: "distinct (xs @ i # d # ys)" using chain_okD(2) [OF ok] by simp
  have "path w ?c" by (rule path_remove [OF chain_okD(3) [OF ok] dist w(2)]) (simp_all add: w(4))
  moreover have keys: "distinct (map (key_at w) ?c)"
  proof -
    have "map (key_at w) ?c = map (key_at t) (xs @ d # ys)" using w(3,4) by simp
    moreover have "distinct (map (key_at t) (xs @ d # ys))" using chain_okD(8) [OF ok] by auto
    ultimately show ?thesis by (rule ssubst)
  qed
  moreover have "has_item w j \<and> get_hash_head hash w (key_at w j) = h" if "j \<in> set ?c" for j
  proof (cases "j = i")
    case True
    then show ?thesis using w(3) D(6,7) [of d] m by (simp add: has_item_def get_hash_head_def)
  next
    case False
    then have "nd w j = nd t j" "j \<in> set (xs @ ys)" using w(4) that by auto
    with D(6,7) [of j] m show ?thesis by (auto simp: has_item_def get_hash_head_def)
  qed
  moreover have "hd ?c = h" "set (tl ?c) \<subseteq> set (tl (xs @ i # d # ys))" using D(1) by (cases xs; auto)+
  moreover have tags: "tag_at w j = tag_at t j" if "j \<in> set ?c" for j using that w(1,4) by auto
  moreover have "h \<in> set ?c" "set (tl ?c) \<subseteq> set ?c" using D(1) by (cases xs; auto)+
  ultimately have "tag_at w h = HEAD" "\<forall>j\<in>set (tl ?c). tag_at w j = PROBE"
    using D(4) chain_okD(5) [OF ok] by (auto simp: subset_iff)
  moreover have "distinct ?c" using dist by auto
  ultimately show ?thesis using \<open>path w ?c\<close> \<open>hd ?c = h\<close> keys
      \<open>\<And>j. j \<in> set ?c \<Longrightarrow> has_item w j \<and> get_hash_head hash w (key_at w j) = h\<close>
    unfolding chain_ok_def by blast
qed

lemma chain_cut:
  assumes ok: "chain_ok hash t h (xs @ [d])" and x: "xs \<noteq> []" and m: "pt_mask w = pt_mask t"
    and w: "nd w (last xs) = set_next 0 (nd t (last xs))" "\<And>j. j \<in> set xs \<Longrightarrow> j \<noteq> last xs \<Longrightarrow> nd w j = nd t j"
  shows "chain_ok hash w h xs"
proof -
  have same: "tag_at w j = tag_at t j \<and> cell_at w j = cell_at t j" if "j \<in> set xs" for j
    using w that by (cases "j = last xs") (simp_all add: set_next_def)
  have dist: "distinct xs" using chain_okD(2) [OF ok] by simp
  have bl: "j \<noteq> last xs" if "j \<in> set (butlast xs)" for j
  proof -
    have "distinct (butlast xs @ [last xs])" using dist x by simp
    then show ?thesis using that by auto
  qed
  have "path w xs"
    by (rule path_butlast [OF _ x dist, of t d]) (use chain_okD(3) [OF ok] w bl in_set_butlastD [of _ xs] in \<open>auto simp: set_next_def\<close>)
  moreover have keys: "distinct (map (key_at w) xs)"
  proof -
    have "map (key_at w) xs = map (key_at t) xs" using same by simp
    moreover have "distinct (map (key_at t) xs)" using chain_okD(8) [OF ok] by simp
    ultimately show ?thesis by (rule ssubst)
  qed
  moreover have sets: "hd xs = h" "h \<in> set xs" "set (tl xs) \<subseteq> set (tl (xs @ [d]))" "set (tl xs) \<subseteq> set xs"
    using chain_okD(1) [OF ok] x by (cases xs; auto)+
  moreover have "\<forall>j\<in>set (tl xs). tag_at w j = PROBE" using sets(3,4) chain_okD(5) [OF ok] same by (simp add: subset_iff)
  moreover have "has_item w j \<and> get_hash_head hash w (key_at w j) = h" if "j \<in> set xs" for j
    using chain_okD(6,7) [OF ok, of j] that same [OF that] m by (simp add: has_item_def get_hash_head_def)
  moreover have "tag_at w h = HEAD" using chain_okD(4) [OF ok] same sets(2) by simp
  ultimately show ?thesis using dist unfolding chain_ok_def by blast
qed

text \<open>
  The nodes after the removal at \<open>i\<close>: one of them, \<open>d\<close>, is free. It is the node itself, or the next one in the
  chain, whose item is then at \<open>i\<close>.
\<close>

definition removed :: "('k \<Rightarrow> nat) \<Rightarrow> ('k, 'v) pool_table \<Rightarrow> nat \<Rightarrow> ('k, 'v) pool_table \<Rightarrow> nat \<Rightarrow> bool" where
  "removed hash t i u d \<longleftrightarrow> (\<exists>F C. pool_inv hash u F C {} {} \<and> chained C = set (used_nodes t) - {d}) \<and>
     d \<in> set (used_nodes t) \<and> same_space t u \<and> (d \<noteq> i \<longrightarrow> item_at u i = item_at t d) \<and>
     (\<forall>j\<in>set (used_nodes t) - {i, d}. item_at u j = item_at t j)"

lemma remove_finish:
  assumes inv: "pool_inv hash t F C {} {}" and d: "d \<in> set (C h)" and c: "set c = set (C h) - {d}"
    and w: "chain_ok hash w h c" "same_space t w" "pt_num_items w = pt_num_items t"
      "\<And>j. j \<notin> set (C h) \<Longrightarrow> nd w j = nd t j"
    and i: "d \<noteq> i \<Longrightarrow> item_at w i = item_at t d \<and> i \<in> set (C h)" "\<And>j. j \<in> set (C h) - {i, d} \<Longrightarrow> item_at w j = item_at t j"
  obtains u where "deallocate_node w d = Inr u" "removed hash t i u d"
proof -
  have wi: "pool_inv hash w F (C(h := [])) {} ({} \<union> set (C h))"
    by (rule pool_inv_cong(1) [OF pool_inv_detach(1) [OF inv] w(2,3)]) (simp add: w(4))
  have sub: "set c \<subseteq> {} \<union> set (C h)" "{} \<union> set (C h) - set c = {d}" using c d by auto
  have at: "pool_inv hash w F (C(h := c)) {} {d}" using pool_inv_attach(1) [OF wi _ w(1) sub(1)] unfolding sub(2) by simp
  obtain u where u: "deallocate_node w d = Inr u" "pool_inv hash u (F @ [d]) (C(h := c)) {} ({d} - {d})"
    "\<forall>j\<in>{} \<union> chained (C(h := c)) \<union> ({d} - {d}). nd u j = nd w j" "same_space w u"
    using pool_inv_deallocate [OF at, of d] by (metis insertI1)
  have "d \<notin> set (C g)" if "g \<noteq> h" for g using pool_invD(3) [OF inv] that d by (auto simp: pool_chains_ok_def)
  then have ch: "chained (C(h := c)) = chained C - {d}" unfolding chained_upd chained_split [of C h] c by auto
  have used: "set (used_nodes t) = chained C" using used_nodes_inv [OF inv] by simp
  have "d \<in> chained C" using d by (auto simp: chained_def)
  moreover have "item_at u i = item_at t d" if "d \<noteq> i"
  proof -
    have "i \<in> chained C - {d}" using i(1) that by (auto simp: chained_def)
    then show ?thesis using u(3) i(1) that unfolding ch by simp
  qed
  moreover have "item_at u j = item_at t j" if "j \<in> chained C - {i, d}" for j
  proof -
    have "nd u j = nd w j" using u(3) that unfolding ch by simp
    then show ?thesis using i(2) [of j] w(4) [of j] that by (cases "j \<in> set (C h)") auto
  qed
  ultimately have "removed hash t i u d"
    using u(2) same_space_trans [OF w(2) u(4)] unfolding removed_def used ch [symmetric] by auto
  with u(1) show thesis by (rule that)
qed

lemma remove_next:
  assumes inv: "pool_inv hash t F C {} {}" and c: "C h = xs @ i # d # ys"
  obtains a b w u where "destruct_item t i = Inr a" "move_item a i d = Inr b" "get_next b d = Inr (next_at t d)"
    "upd_node b i (set_next (next_at t d)) = Inr w" "deallocate_node w d = Inr u" "removed hash t i u d"
proof -
  have ne: "C h \<noteq> []" using c by simp
  note P = pool_chain [OF inv ne] and D = chain_okD [OF pool_chain(1) [OF inv ne] ne]
  have dist: "distinct (xs @ i # d # ys)" using D(2) c by simp
  have len: "i < length (pt_mem t)" "d < length (pt_mem t)"
    using pool_inv_in(3) [OF inv, of i] pool_inv_in(3) [OF inv, of d] P(5) c by auto
  have cell: "cell_at t i = Item (item_at t i)" "cell_at t d = Item (item_at t d)"
    using has_itemD D(6) c by auto
  have id: "i \<noteq> d" using dist by simp
  let ?y = "item_at t d" and ?n = "next_at t d" and ?c = "xs @ i # ys"
  let ?a = "mem_upd t i (put_cell Raw)"
  let ?a' = "mem_upd ?a d (put_cell (if pt_trivial t then Item ?y else Raw))"
  let ?b = "mem_upd ?a' i (put_cell (Item ?y))"
  define w where w: "w = mem_upd ?b i (set_next ?n)"
  have a: "destruct_item t i = Inr ?a" using len cell by (simp add: destruct_item_def)
  have b: "move_item ?a i d = Inr ?b" using move_item_in [of i ?a d ?y] len cell id by simp
  have wb: "get_next ?b d = Inr ?n" "upd_node ?b i (set_next ?n) = Inr w" using len id by (simp_all add: put_cell_def w)
  have ndw: "nd w j = (if j = i then (nd t i)\<lparr>pn_next := ?n, pn_cell := Item ?y\<rparr>
      else if j = d then (nd t d)\<lparr>pn_cell := if pt_trivial t then Item ?y else Raw\<rparr> else nd t j)" for j
    using len id by (simp add: put_cell_def set_next_def w)
  have ss: "same_space t w" "pt_num_items w = pt_num_items t" "pt_mask w = pt_mask t" by (simp_all add: w)
  have "chain_ok hash w h ?c"
    by (rule chain_drop [OF P(1) [unfolded c] ss(3)]) (use ndw cell(2) id dist in auto)
  moreover have "d \<in> set (C h)" "set ?c = set (C h) - {d}" using c dist by auto
  ultimately obtain u where "deallocate_node w d = Inr u" "removed hash t i u d"
    using remove_finish [OF inv, of d h ?c w i] ss ndw c by auto
  with a b wb show thesis by (intro that)
qed

lemma remove_last:
  assumes inv: "pool_inv hash t F C {} {}" and c: "C h = xs @ [i]"
  obtains a w u where "destruct_item t i = Inr a"
    "(if i \<noteq> h then pbind (find_node_before (pt_fuel a) a h i) (\<lambda>prev. upd_node a prev (set_next 0)) else Inr a) = Inr w"
    "deallocate_node w i = Inr u" "removed hash t i u i"
proof -
  have ne: "C h \<noteq> []" using c by simp
  note P = pool_chain [OF inv ne] and D = chain_okD [OF pool_chain(1) [OF inv ne] ne]
  have dist: "distinct (xs @ [i])" using D(2) c by simp
  have len: "j < length (pt_mem t)" if "j \<in> set (xs @ [i])" for j
    using pool_inv_in(3) [OF inv, of j] P(5) [of j] that c by auto
  have cell: "cell_at t i = Item (item_at t i)" using has_itemD D(6) c by auto
  let ?a = "mem_upd t i (put_cell Raw)"
  have ili: "i < length (pt_mem t)" using len by simp
  have a: "destruct_item t i = Inr ?a" using ili cell by (simp add: destruct_item_def)
  have ih: "i \<noteq> h \<longleftrightarrow> xs \<noteq> []" using D(1) c dist by (cases xs) auto
  define w where w: "w = (if xs = [] then ?a else mem_upd ?a (last xs) (set_next 0))"
  have lx: "last xs \<in> set xs" "last xs \<noteq> i" if "xs \<noteq> []" using that dist last_in_set [OF that] by auto
  have "find_node_before (pt_fuel ?a) ?a h i = Inr (last xs)" if x: "xs \<noteq> []"
  proof -
    have e: "butlast xs @ [last xs] = xs" using x by simp
    then have eq: "xs @ [i] = butlast xs @ last xs # i # []" by (metis append.assoc append_Cons append_Nil)
    have "next_at ?a j = next_at t j" for j using ili by (simp add: put_cell_def)
    then have "path ?a (xs @ [i])" using path_cong [of "xs @ [i]" ?a t] D(3) c by simp
    moreover have "hd xs = h" using D(1) c x by simp
    moreover have "length xs \<le> pt_fuel ?a" using P(3) c by (simp add: pt_fuel_def)
    ultimately show ?thesis
      using find_node_before_path [of "butlast xs" "last xs" ?a i "[]" "pt_fuel ?a"] dist len
      unfolding eq [symmetric] e by auto
  qed
  then have wb: "(if i \<noteq> h then pbind (find_node_before (pt_fuel ?a) ?a h i) (\<lambda>prev. upd_node ?a prev (set_next 0))
      else Inr ?a) = Inr w"
    using lx len unfolding ih w by auto
  have ndw: "nd w j = (if j = i then put_cell Raw (nd t i) else if xs \<noteq> [] \<and> j = last xs then set_next 0 (nd t j) else nd t j)" for j
    using ili lx len unfolding w by auto
  have ss: "same_space t w" "pt_num_items w = pt_num_items t" "pt_mask w = pt_mask t" by (simp_all add: w)
  have "chain_ok hash w h xs"
  proof (cases "xs = []")
    case True
    then show ?thesis by (simp add: chain_ok_def)
  next
    case False
    show ?thesis
      by (rule chain_cut [OF P(1) [unfolded c] False ss(3)]) (use ndw lx [OF False] False dist in auto)
  qed
  moreover have "set xs = set (C h) - {i}" "i \<in> set (C h)" using c dist by auto
  moreover have "nd w j = nd t j" if "j \<notin> set (C h)" for j using ndw [of j] that c lx by auto
  moreover have "item_at w j = item_at t j" if "j \<in> set (C h) - {i, i}" for j using ndw [of j] that by (simp add: set_next_def)
  ultimately obtain u where "deallocate_node w i = Inr u" "removed hash t i u i"
    using remove_finish [OF inv, of i h xs w i] ss by metis
  with a wb show thesis by (rule that)
qed

section \<open>Iterators\<close>

text \<open>The first used node after offset \<open>i\<close>, or 0.\<close>

definition following :: "('k, 'v) pool_table \<Rightarrow> nat \<Rightarrow> nat" where
  "following t i = (case filter (\<lambda>j. i < j) (used_nodes t) of [] \<Rightarrow> 0 | j # _ \<Rightarrow> j)"

lemma filter_offsets: "0 < i \<Longrightarrow> filter (\<lambda>j. i \<le> j) (offsets t) = [i..<Suc (pt_num_nodes t)]"
proof -
  assume i: "0 < i"
  have "filter (\<lambda>j. i \<le> j) [1..<m] = [i..<m]" for m
    using i by (induction m) auto
  then show ?thesis by (simp add: offsets_def del: upt_Suc)
qed

lemma next_used_used:
  assumes "space_ok t" "i \<le> pt_num_nodes t" "i \<noteq> 0"
  shows "next_used t i = Inr (case filter (\<lambda>j. i \<le> j) (used_nodes t) of [] \<Rightarrow> 0 | j # _ \<Rightarrow> j)"
  using assms
proof (induction t i rule: next_used.induct)
  case (1 t i)
  have len: "i < length (pt_mem t)" using "1.prems" by (simp add: space_ok_def)
  let ?f = "filter (\<lambda>j. tag_at t j \<noteq> EMPTY)"
  have u: "filter (\<lambda>j. k \<le> j) (used_nodes t) = ?f [k..<Suc (pt_num_nodes t)]" if "0 < k" for k
    using filter_offsets [OF that, of t] unfolding used_nodes_def filter_filter
    by (metis (no_types, lifting) filter_cong filter_filter)
  have ui: "filter (\<lambda>j. i \<le> j) (used_nodes t) = ?f (i # [Suc i..<Suc (pt_num_nodes t)])"
    using u [of i] "1.prems"(2,3) upt_conv_Cons [of i "Suc (pt_num_nodes t)"] by (simp del: upt_Suc)
  show ?case
  proof (cases "tag_at t i = EMPTY")
    case True
    show ?thesis
    proof (cases "i < pt_num_nodes t")
      case less: True
      then have "next_used t (Suc i) = Inr (case ?f [Suc i..<Suc (pt_num_nodes t)] of [] \<Rightarrow> 0 | j # _ \<Rightarrow> j)"
        using "1.IH" [of "nd t i"] "1.prems" len True u [of "Suc i"] by (simp add: probe_offset_def is_empty_def)
      then show ?thesis unfolding ui using "1.prems" len True less
        by (subst next_used.simps) (simp add: probe_offset_def is_empty_def)
    next
      case False
      then have "i = pt_num_nodes t" using "1.prems"(2) by simp
      then show ?thesis unfolding ui using "1.prems" len True
        by (subst next_used.simps) (simp add: probe_offset_def is_empty_def next_used.simps)
    qed
  next
    case False
    then show ?thesis unfolding ui using "1.prems" len by (subst next_used.simps) (simp add: is_empty_def)
  qed
qed

lemma get_next_offset_following:
  assumes "space_ok t" "i \<le> pt_num_nodes t"
  shows "get_next_offset t i = Inr (following t i)"
proof (cases "i < pt_num_nodes t")
  case True
  then show ?thesis using next_used_used [OF assms(1), of "Suc i"]
    by (simp add: get_next_offset_def following_def probe_offset_def Suc_le_eq)
next
  case False
  then have "filter (\<lambda>j. i < j) (used_nodes t) = []"
    by (auto simp: filter_empty_conv used_nodes_def set_offsets)
  then show ?thesis using False
    by (simp add: get_next_offset_def following_def probe_offset_def next_used.simps)
qed

lemma used_nodes_eqI:
  assumes "pt_num_nodes u = pt_num_nodes t" "set (used_nodes u) = set (used_nodes t) - {d}"
  shows "used_nodes u = filter (\<lambda>j. j \<noteq> d) (used_nodes t)"
proof -
  have "used_nodes s = filter (\<lambda>j. j \<in> set (used_nodes s)) (offsets s)" for s :: "('a, 'b) pool_table"
    unfolding used_nodes_def by (intro filter_cong) auto
  then have "used_nodes u = filter (\<lambda>j. j \<in> set (used_nodes t) - {d}) (offsets t)"
    using assms by (metis offsets_def)
  also have "\<dots> = filter (\<lambda>j. j \<noteq> d) (filter (\<lambda>j. j \<in> set (used_nodes t)) (offsets t))"
    by (simp add: conj_commute)
  also have "filter (\<lambda>j. j \<in> set (used_nodes t)) (offsets t) = used_nodes t"
    unfolding used_nodes_def by (intro filter_cong) auto
  finally show ?thesis .
qed

lemma removed_used:
  assumes "removed hash t i u d"
  shows "used_nodes u = filter (\<lambda>j. j \<noteq> d) (used_nodes t)"
  using assms used_nodes_inv [of hash u] used_nodes_eqI [of u t d]
  by (auto simp: removed_def same_space_def)

lemma erase_iter_removed:
  assumes h: "holds hash t n S" and i: "i \<in> set (used_nodes t)"
  obtains u d where "pt_erase_iter hash t i = Inr (u, if i < d then i else following u i)" "removed hash t i u d"
proof -
  obtain F C where inv: "pool_inv hash t F C {} {}" using h by (auto simp: holds_def)
  note sp = pool_invD(1) [OF inv]
  have ch: "i \<in> chained C" using i used_nodes_inv [OF inv] by simp
  then obtain g where g: "i \<in> set (C g)" by (auto simp: chained_def)
  then have ne: "C g \<noteq> []" by auto
  note P = pool_chain [OF inv ne] and D = chain_okD [OF pool_chain(1) [OF inv ne] ne]
  have r: "0 < i" "i \<le> pt_num_nodes t" "i < length (pt_mem t)" using pool_inv_in [OF inv, of i] ch by auto
  have tag: "\<not> is_empty (nd t i)" using pool_items(2) [OF inv, of i] ch by (simp add: is_empty_def)
  have cell: "cell_at t i = Item (item_at t i)" using has_itemD D(6) g by blast
  obtain xs zs where c: "C g = xs @ i # zs" using g by (meson split_list)
  show thesis
  proof (cases zs)
    case (Cons d ys)
    have next_d: "next_at t i = d" using path_next [of t xs i d ys] D(3) c Cons by simp
    have d0: "d \<noteq> 0" using P(2) c Cons by (auto simp: linked_def)
    have di: "d \<noteq> i" using D(2) c Cons by auto
    obtain a b w u where u: "destruct_item t i = Inr a" "move_item a i d = Inr b" "get_next b d = Inr (next_at t d)"
      "upd_node b i (set_next (next_at t d)) = Inr w" "deallocate_node w d = Inr u" "removed hash t i u d"
      using remove_next [OF inv, of g xs i d ys] c Cons by metis
    have "space_ok u" "i \<le> pt_num_nodes u"
      using u(6) r(2) pool_invD(1) [of hash u] by (auto simp: removed_def same_space_def)
    then have "pt_iter_next u i = Inr (following u i)"
      using get_next_offset_following [of u i] r(1) by (simp add: pt_iter_next_def)
    then have "pt_erase_iter hash t i = Inr (u, if i < d then i else following u i)"
      using r tag next_d d0 di u(1-5) by (simp add: pt_erase_iter_def Let_def)
    with u(6) show thesis by (intro that)
  next
    case Nil
    have next_i: "next_at t i = 0" using path_last [OF D(3) ne] c Nil by simp
    obtain a w u where u: "destruct_item t i = Inr a"
      "(if i \<noteq> g then pbind (find_node_before (pt_fuel a) a g i) (\<lambda>prev. upd_node a prev (set_next 0)) else Inr a) = Inr w"
      "deallocate_node w i = Inr u" "removed hash t i u i"
      using remove_last [OF inv, of g xs i] c Nil by metis
    have "filter (\<lambda>j. i < j) (used_nodes t) = filter (\<lambda>j. i < j) (used_nodes u)"
      unfolding removed_used [OF u(4)] filter_filter by (intro filter_cong) auto
    then have "pt_iter_next t i = Inr (following u i)"
      using get_next_offset_following [OF sp r(2)] r(1) by (simp add: pt_iter_next_def following_def)
    then have "pt_erase_iter hash t i = Inr (u, following u i)"
      using r tag next_i u(1-3) cell D(7) [OF g] by (cases "i = g") (simp_all add: pt_erase_iter_def Let_def)
    with u(4) show thesis by (intro that [of u i]) simp_all
  qed
qed

section \<open>Erasing during iteration\<close>

lemma sorted_used: "sorted (used_nodes t)" "distinct (used_nodes t)"
  by (simp_all add: used_nodes_def offsets_def sorted_wrt_filter del: upt_Suc)

definition nodes_from :: "('k, 'v) pool_table \<Rightarrow> nat \<Rightarrow> nat list" where
  "nodes_from t i = (if i = 0 then [] else filter (\<lambda>j. i \<le> j) (used_nodes t))"

lemma used_pos: "i \<in> set (used_nodes t) \<Longrightarrow> 0 < i"
  by (auto simp: used_nodes_def set_offsets)

lemma nodes_from_following:
  "nodes_from t (following t i) = filter (\<lambda>j. i < j) (used_nodes t)"
  "following t i = 0 \<or> following t i \<in> set (used_nodes t)"
proof -
  let ?l = "filter (\<lambda>j. i < j) (used_nodes t)"
  have "nodes_from t (following t i) = ?l \<and> (following t i = 0 \<or> following t i \<in> set (used_nodes t))"
  proof (cases ?l)
    case Nil
    then show ?thesis by (simp add: nodes_from_def following_def)
  next
    case (Cons j js)
    have "j \<in> set ?l" unfolding Cons by simp
    then have j: "j \<in> set (used_nodes t)" "i < j" by simp_all
    have "sorted (j # js)" using sorted_used(1) [of t] Cons by (metis sorted_wrt_filter)
    moreover have "k \<in> set (j # js)" if "k \<in> set (used_nodes t)" "i < k" for k
      using that unfolding Cons [symmetric] by simp
    ultimately have "j \<le> k" if "k \<in> set (used_nodes t)" "i < k" for k using that by fastforce
    then have "filter (\<lambda>k. j \<le> k) (used_nodes t) = ?l" using j(2) by (intro filter_cong) auto
    then show ?thesis using Cons j used_pos [OF j(1)] by (simp add: nodes_from_def following_def)
  qed
  then show "nodes_from t (following t i) = ?l" "following t i = 0 \<or> following t i \<in> set (used_nodes t)" by auto
qed

lemma nodes_from_Cons:
  assumes "i \<in> set (used_nodes t)"
  shows "nodes_from t i = i # filter (\<lambda>j. i < j) (used_nodes t)"
proof -
  obtain xs ys where s: "used_nodes t = xs @ i # ys" using assms by (meson split_list)
  then have "sorted (xs @ i # ys)" "distinct (xs @ i # ys)" using sorted_used [of t] by simp_all
  then have "\<forall>j\<in>set xs. j < i" "\<forall>j\<in>set ys. i < j"
    by (auto simp: sorted_append nat_less_le)
  then have "filter (\<lambda>j. i \<le> j) xs = []" "filter (\<lambda>j. i < j) xs = []" "filter (\<lambda>j. i \<le> j) ys = ys" "filter (\<lambda>j. i < j) ys = ys"
    by (auto simp: filter_empty_conv filter_id_conv)
  then show ?thesis using used_pos [OF assms] s by (simp add: nodes_from_def)
qed

lemma holds_used:
  assumes "holds hash t n S"
  shows "S = item_at t ` set (used_nodes t)" "inj_on (item_at t) (set (used_nodes t))"
    "\<And>i. i \<in> set (used_nodes t) \<Longrightarrow> get_item t i = Inr (item_at t i)"
proof -
  obtain F C where inv: "pool_inv hash t F C {} {}" "pool_set t C {} = S" using assms by (auto simp: holds_def)
  note U = used_nodes_inv [OF inv(1)]
  show "S = item_at t ` set (used_nodes t)" using inv(2) U by (simp add: pool_set_def)
  show "inj_on (item_at t) (set (used_nodes t))"
    using pool_keys_inj [OF inv(1)] unfolding U inj_on_def by metis
  show "get_item t i = Inr (item_at t i)" if "i \<in> set (used_nodes t)" for i
    using get_item_in [OF pool_inv_in(3) [OF inv(1), of i] has_itemD [OF pool_items(1) [OF inv(1)]]] that U by simp
qed

lemma removed_image:
  assumes "removed hash t i u d" "A \<subseteq> set (used_nodes t)" "i \<in> A" "d \<in> A"
  shows "item_at u ` (A - {d}) = item_at t ` (A - {i})"
proof (cases "d = i")
  case True
  then have "item_at u j = item_at t j" if "j \<in> A - {i}" for j
    using that assms(1,2) unfolding removed_def by auto
  then show ?thesis unfolding True by (rule image_cong [OF refl])
next
  case False
  then have split: "A - {d} = insert i (A - {i, d})" "A - {i} = insert d (A - {i, d})" using assms(3,4) by auto
  have "item_at u j = item_at t j" if "j \<in> A - {i, d}" for j using that assms(1,2) unfolding removed_def by auto
  then have "item_at u ` (A - {i, d}) = item_at t ` (A - {i, d})" by (rule image_cong [OF refl])
  moreover have "item_at u i = item_at t d" using assms(1) False by (simp add: removed_def)
  ultimately show ?thesis unfolding split image_insert by simp
qed

lemma removed_holds:
  assumes h: "holds hash t n S" and i: "i \<in> set (used_nodes t)" and r: "removed hash t i u d"
  shows "holds hash u n (S - {item_at t i})"
proof -
  note H = holds_used [OF h]
  obtain F C where u: "pool_inv hash u F C {} {}" "chained C = set (used_nodes t) - {d}" and ss: "same_space t u"
    and d: "d \<in> set (used_nodes t)" using r by (auto simp: removed_def)
  have "pool_set u C {} = item_at u ` (set (used_nodes t) - {d})" using u(2) by (simp add: pool_set_def)
  also have "\<dots> = item_at t ` (set (used_nodes t) - {i})" using removed_image [OF r order_refl i d] .
  also have "\<dots> = S - {item_at t i}" using H(1) inj_on_image_set_diff [OF H(2), of "set (used_nodes t)" "{i}"] i by simp
  finally show ?thesis using u(1) ss h unfolding holds_def load_ok_def same_space_def by auto
qed

text \<open>A client loop: \<open>it = erase(it)\<close> where the test holds, \<open>++it\<close> elsewhere. It also returns the items it saw.\<close>

fun erase_loop :: "nat \<Rightarrow> ('k \<Rightarrow> nat) \<Rightarrow> ('k \<times> 'v \<Rightarrow> bool) \<Rightarrow> ('k, 'v) pool_table \<Rightarrow> nat
    \<Rightarrow> (('k, 'v) pool_table \<times> ('k \<times> 'v) list) pool" where
  "erase_loop 0 hash P t it = Inl Forever"
| "erase_loop (Suc f) hash P t it =
     (if it = 0 then Inr (t, [])
      else pbind (get_item t it) (\<lambda>x.
           pbind (if P x then pt_erase_iter hash t it else pbind (pt_iter_next t it) (\<lambda>it. Inr (t, it))) (\<lambda>(t, it).
           pbind (erase_loop f hash P t it) (\<lambda>(t, xs). Inr (t, x # xs)))))"

lemma erase_step:
  assumes h: "holds hash t n S" and i: "i \<in> set (used_nodes t)"
  obtains u j where "(if P (item_at t i) then pt_erase_iter hash t i else pbind (pt_iter_next t i) (\<lambda>it. Inr (t, it))) = Inr (u, j)"
    "j = 0 \<or> j \<in> set (used_nodes u)" "length (nodes_from u j) < length (nodes_from t i)"
    "item_at u ` set (nodes_from u j) = item_at t ` set (nodes_from t i) - {item_at t i}"
    "holds hash u n (if P (item_at t i) then S - {item_at t i} else S)"
proof -
  note H = holds_used [OF h] and N = nodes_from_Cons [OF i]
  let ?r = "filter (\<lambda>j. i < j) (used_nodes t)"
  have rest: "item_at t ` set (nodes_from t i) - {item_at t i} = item_at t ` set ?r"
  proof -
    have "item_at t i \<notin> item_at t ` set ?r" using H(2) i by (auto simp: inj_on_def)
    then show ?thesis unfolding N by auto
  qed
  obtain F C where inv: "pool_inv hash t F C {} {}" using h by (auto simp: holds_def)
  show thesis
  proof (cases "P (item_at t i)")
    case False
    have "i \<le> pt_num_nodes t" using i by (auto simp: used_nodes_def set_offsets)
    then have "pt_iter_next t i = Inr (following t i)"
      using get_next_offset_following [OF pool_invD(1) [OF inv]] used_pos [OF i] by (simp add: pt_iter_next_def)
    then show thesis
      using False h rest N nodes_from_following [of t i] by (intro that [of t "following t i"]) simp_all
  next
    case True
    obtain u d where u: "pt_erase_iter hash t i = Inr (u, if i < d then i else following u i)" "removed hash t i u d"
      using erase_iter_removed [OF h i] by blast
    note U = removed_used [OF u(2)] and hu = removed_holds [OF h i u(2)]
    have d: "d \<in> set (used_nodes t)" using u(2) by (simp add: removed_def)
    show thesis
    proof (cases "i < d")
      case less: True
      have dr: "d \<in> set ?r" using d less by simp
      have "i \<in> set (used_nodes u)" using i less U by auto
      moreover from nodes_from_Cons [OF this] have nu: "nodes_from u i = i # filter (\<lambda>j. j \<noteq> d) ?r"
        unfolding U filter_filter by (simp add: conj_commute)
      moreover have "length (filter (\<lambda>j. j \<noteq> d) ?r) < length ?r" using dr by (metis (mono_tags, lifting) length_filter_less)
      moreover have "item_at u ` set (nodes_from u i) = item_at t ` set ?r"
      proof -
        have "set (nodes_from u i) = insert i (set ?r) - {d}" "insert i (set ?r) - {i} = set ?r" unfolding nu using less by auto
        moreover have "item_at u ` (insert i (set ?r) - {d}) = item_at t ` (insert i (set ?r) - {i})"
          by (rule removed_image [OF u(2)]) (use i dr in auto)
        ultimately show ?thesis by simp
      qed
      ultimately show thesis using True less u(1) hu rest N by (intro that [of u i]) simp_all
    next
      case False
      have eq: "filter (\<lambda>j. i < j) (used_nodes u) = ?r" unfolding U filter_filter using False by (intro filter_cong) auto
      have "item_at u j = item_at t j" if "j \<in> set ?r" for j using u(2) that False unfolding removed_def by auto
      then have "item_at u ` set ?r = item_at t ` set ?r" by (rule image_cong [OF refl])
      then show thesis using True False u(1) hu rest N nodes_from_following [of u i] eq
        by (intro that [of u "following u i"]) simp_all
    qed
  qed
qed

lemma erase_loop_inv:
  assumes "holds hash t n S" "i = 0 \<or> i \<in> set (used_nodes t)" "length (nodes_from t i) < f"
  shows "\<exists>u xs. erase_loop f hash P t i = Inr (u, xs) \<and> distinct xs \<and> set xs = item_at t ` set (nodes_from t i) \<and>
    holds hash u n (S - {x \<in> set xs. P x})"
  using assms
proof (induction f arbitrary: t S i)
  case (Suc f)
  show ?case
  proof (cases "i = 0")
    case True
    then show ?thesis using Suc.prems(1) by (simp add: nodes_from_def)
  next
    case False
    then have i: "i \<in> set (used_nodes t)" using Suc.prems(2) by simp
    let ?x = "item_at t i"
    obtain u j where u: "(if P ?x then pt_erase_iter hash t i else pbind (pt_iter_next t i) (\<lambda>it. Inr (t, it))) = Inr (u, j)"
      "j = 0 \<or> j \<in> set (used_nodes u)" "length (nodes_from u j) < length (nodes_from t i)"
      "item_at u ` set (nodes_from u j) = item_at t ` set (nodes_from t i) - {?x}"
      "holds hash u n (if P ?x then S - {?x} else S)"
      using erase_step [OF Suc.prems(1) i, of P] by metis
    obtain v xs where v: "erase_loop f hash P u j = Inr (v, xs)" "distinct xs" "set xs = item_at u ` set (nodes_from u j)"
      "holds hash v n ((if P ?x then S - {?x} else S) - {x \<in> set xs. P x})"
      using Suc.IH [OF u(5,2)] u(3) Suc.prems(3) by auto
    have "?x \<in> item_at t ` set (nodes_from t i)" using nodes_from_Cons [OF i] by simp
    then have "set (?x # xs) = item_at t ` set (nodes_from t i)" "distinct (?x # xs)" using v(2,3) u(4) by auto
    moreover have "(if P ?x then S - {?x} else S) - {x \<in> set xs. P x} = S - {x \<in> set (?x # xs). P x}" by auto
    ultimately show ?thesis
      using v(1,4) u(1) False holds_used(3) [OF Suc.prems(1) i] by (intro exI [of _ v] exI [of _ "?x # xs"]) simp
  qed
qed simp

end
