(* ===== verification/Pool_Spec.thy ===== *)
theory Pool_Spec
  imports Pool_Map
begin

text \<open>
  What a \<open>PoolHashTable\<close> promises: sequences of operations behave as on a finite map and never fault
  or run forever, copies and moves keep the items, and a loop that erases while it iterates
  sees every item once.
\<close>

section \<open>The map of a table\<close>

definition pt_abs :: "('k, 'v) pool_table \<Rightarrow> 'k \<rightharpoonup> 'v" where
  "pt_abs t = map_of (pt_items t)"

lemma holds_abs:
  assumes "holds hash t n S"
  shows "pt_abs t k = Some v \<longleftrightarrow> (k, v) \<in> S" "pt_abs t k = None \<longleftrightarrow> k \<notin> fst ` S"
    "card S = card (dom (pt_abs t))"
proof -
  note H = holds_items [OF assms]
  show "pt_abs t k = Some v \<longleftrightarrow> (k, v) \<in> S" "pt_abs t k = None \<longleftrightarrow> k \<notin> fst ` S"
    using H(2,3) by (simp_all add: pt_abs_def map_of_eq_None_iff)
  have "dom (pt_abs t) = fst ` S" using H(2) by (simp add: pt_abs_def dom_map_of_conv_image_fst)
  moreover have "inj_on fst S" using H(2,3) by (auto simp: distinct_map)
  ultimately show "card S = card (dom (pt_abs t))" by (simp add: card_image)
qed

lemma holds_abs_eqI:
  assumes "holds hash t n S" "\<And>k v. (k, v) \<in> S \<longleftrightarrow> m k = Some v"
  shows "pt_abs t = m"
proof
  fix k show "pt_abs t k = m k"
    using holds_abs(1) [OF assms(1), of k] assms(2) [of k] by (metis not_Some_eq)
qed

lemma holds_insert_abs:
  assumes "holds hash t n S" "holds hash u m (insert (k, v) S)" "k \<notin> fst ` S"
  shows "pt_abs u = (pt_abs t)(k \<mapsto> v)"
proof (rule holds_abs_eqI [OF assms(2)])
  show "(k', v') \<in> insert (k, v) S \<longleftrightarrow> ((pt_abs t)(k \<mapsto> v)) k' = Some v'" for k' v'
    using holds_abs(1) [OF assms(1), of k' v'] assms(3) by force
qed

lemma holds_remove_abs:
  assumes h: "holds hash t n S" and u: "holds hash u m (S - {(k, v)})" and k: "(k, v) \<in> S"
  shows "pt_abs u = (pt_abs t)(k := None)"
proof (rule holds_abs_eqI [OF u])
  have kv: "pt_abs t k = Some v" using holds_abs(1) [OF h] k by simp
  show "(k', v') \<in> S - {(k, v)} \<longleftrightarrow> ((pt_abs t)(k := None)) k' = Some v'" for k' v'
    using holds_abs(1) [OF h, of k' v'] kv by auto
qed

lemma holds_same_abs:
  assumes "holds hash t n S" "holds hash u m S"
  shows "pt_abs u = pt_abs t"
  by (rule holds_abs_eqI [OF assms(2)]) (simp add: holds_abs(1) [OF assms(1)])

section \<open>Moving an item to the head of its chain\<close>

lemma prioritise_loop_find:
  "i \<noteq> 0 \<Longrightarrow> prioritise_loop n t k head i = pbind (find_loop n t k i) (\<lambda>j.
     if j = 0 then Inr (t, 0) else pbind (swap_items t j head) (\<lambda>t. Inr (t, head)))"
proof (induction n arbitrary: i)
  case (Suc n)
  have step: "(\<lambda>j. if j = 0 then Inr (t, 0) else prioritise_loop n t k head j) =
    (\<lambda>j. pbind (if j = 0 then Inr 0 else find_loop n t k j) (\<lambda>j.
     if j = 0 then Inr (t, 0) else pbind (swap_items t j head) (\<lambda>t. Inr (t, head))))"
    using Suc.IH by auto
  show ?case
  proof (cases "get_key t i")
    case (Inr k')
    show ?thesis using Suc.prems Inr step by (cases "get_next t i") simp_all
  qed simp
qed simp

lemma pt_prioritise_find:
  "pt_prioritise hash t k = (let head = get_hash_head hash t k in pbind (inner_find hash t k) (\<lambda>i.
     if i = 0 then Inr (t, 0) else pbind (swap_items t i head) (\<lambda>t. Inr (t, head))))"
proof -
  have "get_hash_head hash t k \<noteq> 0" by (simp add: get_hash_head_def)
  then show ?thesis
    by (cases "get_node t (get_hash_head hash t k)")
       (simp_all add: pt_prioritise_def inner_find_def Let_def prioritise_loop_find)
qed

lemma swap_items_self:
  assumes "a < length (pt_mem t)" "cell_at t a = Item x"
  shows "pt_trivial t \<Longrightarrow> swap_items t a a = Inr t"
    and "\<not> pt_trivial t \<Longrightarrow> swap_items t a a = Inl (Fault Out_of_bounds)"
proof -
  have same: "mem_upd t a (put_cell (Item x)) = t"
  proof -
    have "put_cell (Item x) (nd t a) = nd t a" using assms(2) by (cases "nd t a") (simp add: put_cell_def)
    then show ?thesis by (simp add: mem_upd_def)
  qed
  show "swap_items t a a = Inr t" if "pt_trivial t"
    using assms that move_item_in [of a t a x] same by (simp add: swap_items_def move_cell_def)
  show "swap_items t a a = Inl (Fault Out_of_bounds)" if "\<not> pt_trivial t"
    using assms that by (simp add: swap_items_def move_cell_def move_item_def cell_item_def put_cell_def)
qed

lemma swap_in_chain:
  assumes inv: "pool_inv hash t F C {} {}" and i: "i \<in> set (C h)" and tr: "pt_trivial t"
  obtains u where "swap_items t i h = Inr u" "pool_inv hash u F C {} {}" "pool_set u C {} = pool_set t C {}"
    "same_space t u" "item_at u h = item_at t i"
proof -
  have ne: "C h \<noteq> []" using i by auto
  note P = pool_chain [OF inv ne] and D = chain_okD [OF pool_chain(1) [OF inv ne] ne]
  have len: "i < length (pt_mem t)" "h < length (pt_mem t)"
    using pool_inv_in(3) [OF inv, of i] pool_inv_in(3) [OF inv, of h] P(4,5) i by auto
  have cell: "cell_at t i = Item (item_at t i)" "cell_at t h = Item (item_at t h)" using has_itemD D(6) P(4) i by auto
  show thesis
  proof (cases "i = h")
    case True
    then show thesis using swap_items_self(1) [OF len(1) cell(1) tr] inv by (intro that [of t]) simp_all
  next
    case False
    obtain u where u: "swap_items t i h = Inr u" "same_space t u" "pt_num_items u = pt_num_items t"
      "nd u i = put_cell (Item (item_at t h)) (nd t i)" "nd u h = put_cell (Item (item_at t i)) (nd t h)"
      "\<forall>j. j \<noteq> i \<and> j \<noteq> h \<longrightarrow> nd u j = nd t j"
      using swap_items_in [OF len False cell] by metis
    define \<pi> where "\<pi> j = (if j = i then h else if j = h then i else j)" for j
    have ndu: "tag_at u j = tag_at t j" "next_at u j = next_at t j" "item_at u j = item_at t (\<pi> j)"
      "has_item t j \<Longrightarrow> has_item u j" for j
      using u(4-6) by (cases "j = i"; cases "j = h"; simp add: put_cell_def \<pi>_def has_item_def)+
    have pi: "\<pi> j \<in> set (C h) \<longleftrightarrow> j \<in> set (C h)" "\<pi> (\<pi> j) = j" for j using i P(4) by (auto simp: \<pi>_def)
    have msk: "pt_mask u = pt_mask t" using u(2) by (simp add: same_space_def)
    have keys: "distinct (map (key_at u) (C h))"
    proof -
      have "inj_on (key_at t) (set (C h))" using D(8) by (simp add: distinct_map)
      then have "inj_on (key_at u) (set (C h))" using pi ndu(3) unfolding inj_on_def by metis
      then show ?thesis using D(2) by (simp add: distinct_map)
    qed
    have "path u (C h)" using path_cong [of "C h" u t] ndu(2) D(3) by simp
    moreover have "\<forall>j\<in>set (C h). has_item u j \<and> get_hash_head hash u (key_at u j) = h"
      using D(6,7) pi(1) ndu(3,4) get_hash_head_cong [OF msk] by metis
    ultimately have ok: "chain_ok hash u h (C h)" using D(1,2,4,5) keys ndu(1) by (simp add: chain_ok_def)
    let ?L = "{} \<union> set (C h)"
    have d: "pool_inv hash u F (C(h := [])) {} ?L" "pool_set u (C(h := [])) {} = pool_set t (C(h := [])) {}"
    proof -
      have "nd u j = nd t j" if "j \<notin> ?L" for j using u(6) that i P(4) by auto
      then show "pool_inv hash u F (C(h := [])) {} ?L" "pool_set u (C(h := [])) {} = pool_set t (C(h := [])) {}"
        using pool_inv_cong [OF pool_inv_detach(1) [OF inv, of h] u(2,3)] by blast+
    qed
    have "item_at u ` set (C h) = item_at t ` set (C h)"
    proof -
      have "\<pi> ` set (C h) = set (C h)" using i P(4) False by (auto simp: \<pi>_def image_iff)
      moreover have "item_at u ` set (C h) = item_at t ` \<pi> ` set (C h)" using ndu(3) by (simp add: image_image)
      ultimately show ?thesis by simp
    qed
    then have "pool_inv hash u F C {} {}" "pool_set u C {} = pool_set t C {}"
      using pool_inv_attach [OF d(1) _ ok] d(2) pool_inv_detach(2) [OF inv, of h] by simp_all
    with u(1,2) ndu(3) [of h] show thesis by (intro that [of u]) (simp_all add: \<pi>_def)
  qed
qed

lemma prioritise_holds:
  assumes h: "holds hash t n S" and tr: "pt_trivial t"
  obtains u i where "pt_prioritise hash t k = Inr (u, i)" "holds hash u n S" "pt_trivial u" "i = 0 \<longleftrightarrow> k \<notin> fst ` S"
    "i \<noteq> 0 \<Longrightarrow> i = get_hash_head hash t k \<and> key_at u i = k"
proof -
  obtain F C where inv: "pool_inv hash t F C {} {}" and S: "pool_set t C {} = S" using h by (auto simp: holds_def)
  obtain i where i: "inner_find hash t k = Inr i" "i = 0 \<Longrightarrow> k \<notin> fst ` S"
    "i \<noteq> 0 \<Longrightarrow> i \<in> set (C (get_hash_head hash t k)) \<and> key_at t i = k"
    using inner_find_inv [OF inv, of k] unfolding S by metis
  show thesis
  proof (cases "i = 0")
    case True
    then show thesis using i h tr by (intro that [of t 0]) (simp_all add: pt_prioritise_find)
  next
    case False
    let ?h = "get_hash_head hash t k"
    obtain u where u: "swap_items t i ?h = Inr u" "pool_inv hash u F C {} {}" "pool_set u C {} = S" "same_space t u"
      "item_at u ?h = item_at t i" using swap_in_chain [OF inv _ tr, of i ?h] i(3) False S by metis
    have "item_at t i \<in> S" using i(3) False unfolding S [symmetric] pool_set_def chained_def by auto
    then have "k \<in> fst ` S" using i(3) False by (metis imageI)
    moreover have "holds hash u n S" "pt_trivial u"
      using u(2,3,4) h tr by (auto simp: holds_def load_ok_def same_space_def)
    ultimately show thesis using u(1,5) i False
      by (intro that [of u ?h]) (simp_all add: pt_prioritise_find get_hash_head_def)
  qed
qed

section \<open>New tables, copies and moves\<close>

lemma fresh_holds:
  assumes "set_space t n = Inr a" "space_ok a" "pt_num_nodes a = n" "load_ok a"
  obtains u where "initialize_nodes a = Inr u" "holds hash u n {}" "same_space a u" "pt_num_items u = 0"
proof -
  obtain u where u: "initialize_nodes a = Inr u" "pool_inv hash u (offsets a) (\<lambda>_. []) {} {}"
    "same_space a u" "pool_set u (\<lambda>_. []) {} = {}" "pt_num_items u = 0"
    using initialize_nodes_inv [OF assms(2)] by metis
  then have "holds hash u n {}" using assms(3,4) by (auto simp: holds_def load_ok_def same_space_def)
  with u show thesis by (intro that)
qed

lemma space_fields:
  assumes "set_space t n = Inr a"
  shows "pt_max_load_factor a = pt_max_load_factor t" "pt_max_num_items a = pt_max_num_items t"
    "pt_num_nodes a = n" "pt_trivial a = pt_trivial t"
  using assms by (cases "1 \<le> n"; auto simp: set_space_def Let_def)+

lemma pt_new_holds:
  obtains t where "pt_new s a tr = Inr t" "holds hash t 1 {}" "pt_trivial t = tr"
proof -
  let ?t = "\<lparr>pt_mem = [], pt_mask = 0, pt_num_nodes = 0,
    pt_node_size = (s + max 8 a - 1) div max 8 a * max 8 a + max 8 a,
    pt_max_load_factor = 1, pt_num_items = 0, pt_max_num_items = 0, pt_trivial = tr\<rparr> :: ('a, 'b) pool_table"
  obtain b where b: "set_space ?t 1 = Inr b" "space_ok b"
    using set_space_ok [of 1 ?t] by auto
  note f = space_fields [OF b(1)]
  have "load_ok b" using f fl64_tenth(2) by (simp add: load_ok_def)
  then obtain u where "initialize_nodes b = Inr u" "holds hash u 1 {}" "same_space b u"
    using fresh_holds [OF b f(3)] by metis
  then show thesis using b(1) f(4) by (intro that [of u]) (simp_all add: pt_new_def Let_def same_space_def)
qed

lemma pt_emplace_holds:
  assumes h: "holds hash t n S" and b: "40 * (card S + 1) < 2 ^ 53" "2 * n < 2 ^ 53"
  obtains u i m where "pt_emplace hash t (k, v) = Inr (u, i, k \<notin> fst ` S)"
    "holds hash u m (if k \<in> fst ` S then S else insert (k, v) S)"
    "m \<le> max n (20 * (card S + 1))" "pt_trivial u = pt_trivial t" "i \<noteq> 0" "key_at u i = k"
proof -
  obtain i where i: "inner_find hash t k = Inr i" "i = 0 \<Longrightarrow> k \<notin> fst ` S"
    "i \<noteq> 0 \<Longrightarrow> item_at t i \<in> S \<and> key_at t i = k"
    using find_holds [OF h, of k] by metis
  show thesis
  proof (cases "i = 0")
    case True
    then have k: "k \<notin> fst ` S" using i(2) by simp
    then obtain u j m where u: "inner_emplace_not_exist hash t (k, v) = Inr (u, j)" "holds hash u m (insert (k, v) S)"
      "m \<le> max n (20 * (card S + 1))" "j \<noteq> 0" "cell_at u j = Item (k, v)" "pt_trivial u = pt_trivial t"
      using emplace_holds [OF h _ b, of "(k, v)"] by (metis fst_conv)
    then show thesis using k i(1) True by (intro that [of u j m]) (simp_all add: pt_emplace_def)
  next
    case False
    then have "k \<in> fst ` S" using i(3) by (metis imageI)
    then show thesis using h i(1,3) False by (intro that [of t i n]) (simp_all add: pt_emplace_def)
  qed
qed

lemma pt_erase_key_holds:
  assumes h: "holds hash t n S"
  obtains u where "pt_erase_key hash t k = Inr (u, if k \<in> fst ` S then 1 else 0)" "pt_trivial u = pt_trivial t"
    "holds hash u n {x \<in> S. fst x \<noteq> k}"
proof -
  obtain i where i: "inner_find hash t k = Inr i" "i = 0 \<Longrightarrow> k \<notin> fst ` S"
    "i \<noteq> 0 \<Longrightarrow> i \<in> set (used_nodes t) \<and> item_at t i \<in> S \<and> key_at t i = k"
    using find_holds [OF h, of k] by metis
  show thesis
  proof (cases "i = 0")
    case True
    then have "k \<notin> fst ` S" using i(2) by simp
    moreover from this have "{x \<in> S. fst x \<noteq> k} = S" by auto
    ultimately show thesis using h i(1) True by (intro that [of t]) (simp_all add: pt_erase_key_def)
  next
    case False
    then have j: "i \<in> set (used_nodes t)" "item_at t i \<in> S" "key_at t i = k" using i(3) by auto
    obtain u d where u: "pt_erase_iter hash t i = Inr (u, if i < d then i else following u i)" "removed hash t i u d"
      using erase_iter_removed [OF h j(1)] by blast
    have "{x \<in> S. fst x \<noteq> k} = S - {item_at t i}"
    proof -
      have "inj_on fst S" using holds_items(2,3) [OF h] by (auto simp: distinct_map)
      then show ?thesis using j(2,3) by (auto simp: inj_on_def)
    qed
    then have "holds hash u n {x \<in> S. fst x \<noteq> k}" using removed_holds [OF h j(1) u(2)] by simp
    moreover have "k \<in> fst ` S" using j(2,3) by (metis imageI)
    moreover have "pt_trivial u = pt_trivial t" using u(2) by (simp add: removed_def same_space_def)
    ultimately show thesis using u(1) i(1) False by (intro that [of u]) (simp_all add: pt_erase_key_def)
  qed
qed

lemma pt_clear_holds:
  assumes h: "holds hash t n S"
  obtains u where "pt_clear t = Inr u" "holds hash u n {}" "pt_trivial u = pt_trivial t"
proof -
  obtain F C where inv: "pool_inv hash t F C {} {}" using h by (auto simp: holds_def)
  obtain u where u: "pt_clear t = Inr u" "pool_inv hash u (offsets t) (\<lambda>_. []) {} {}" "same_space t u"
    "pool_set u (\<lambda>_. []) {} = {}" using pt_clear_inv [OF inv] by metis
  then have "holds hash u n {}" "pt_trivial u = pt_trivial t" using h by (auto simp: holds_def load_ok_def same_space_def)
  with u(1) show thesis by (rule that)
qed

lemma set_max_load_factor_holds:
  assumes "holds hash t n S"
  shows "holds hash (set_max_load_factor t f) n S"
proof -
  obtain F C where inv: "pool_inv hash t F C {} {}" "pool_set t C {} = S" "pt_num_nodes t = n"
    using assms by (auto simp: holds_def)
  then show ?thesis
    using pool_inv_members [OF inv(1), of "set_max_load_factor t f"] set_max_load_factor_ok [of t f]
    by (auto simp: holds_def)
qed

definition pool_limit :: nat where
  "pool_limit = 2 ^ 47"

lemma pool_limit_bounds:
  assumes "c < pool_limit" "n \<le> 20 * pool_limit"
  shows "40 * (c + 1) < 2 ^ 53" "2 * n < 2 ^ 53" "max n (20 * (c + 1)) \<le> 20 * pool_limit"
proof -
  have l: "40 * pool_limit < 2 ^ 53" by (simp add: pool_limit_def)
  have "40 * (c + 1) \<le> 40 * pool_limit" "2 * n \<le> 40 * pool_limit" using assms by simp_all
  with l show "40 * (c + 1) < 2 ^ 53" "2 * n < 2 ^ 53" by (metis le_less_trans)+
  show "max n (20 * (c + 1)) \<le> 20 * pool_limit" using assms by simp
qed

lemma insert_list_holds:
  assumes "holds hash t n S" "n \<le> 20 * pool_limit" "card S + length xs \<le> pool_limit"
    and "distinct (map fst xs)" "fst ` set xs \<inter> fst ` S = {}"
  shows "\<exists>u m. pt_insert_list hash t xs = Inr u \<and> holds hash u m (set xs \<union> S) \<and> m \<le> 20 * pool_limit \<and>
    pt_trivial u = pt_trivial t"
  using assms
proof (induction xs arbitrary: t n S)
  case Nil
  then show ?case by auto
next
  case (Cons x xs)
  obtain k v where x: "x = (k, v)" by fastforce
  have "card S < pool_limit" using Cons.prems(3) by simp
  note b = pool_limit_bounds [OF this Cons.prems(2)]
  have k: "k \<notin> fst ` S" using Cons.prems(5) x by auto
  obtain u i m where u: "pt_emplace hash t (k, v) = Inr (u, i, k \<notin> fst ` S)"
    "holds hash u m (if k \<in> fst ` S then S else insert (k, v) S)" "m \<le> max n (20 * (card S + 1))"
    "pt_trivial u = pt_trivial t" using pt_emplace_holds [OF Cons.prems(1) b(1,2), of k v] by metis
  have S: "(if k \<in> fst ` S then S else insert (k, v) S) = insert x S" using k x by simp
  have "card (insert x S) + length xs \<le> pool_limit"
    using card_insert_le_m1 [of "Suc (card S)" S x] Cons.prems(3) by simp
  moreover have "fst ` set xs \<inter> fst ` insert x S = {}" using Cons.prems(4,5) by auto
  ultimately obtain w m' where "pt_insert_list hash u xs = Inr w" "holds hash w m' (set xs \<union> insert x S)"
    "m' \<le> 20 * pool_limit" "pt_trivial w = pt_trivial u"
    using Cons.IH [OF u(2) [unfolded S]] u(3) b(3) Cons.prems(4) by auto
  then show ?case using u(1,4) x by auto
qed

lemma pt_copy_holds:
  assumes h: "holds hash t n S" and b: "n \<le> 20 * pool_limit" "card S \<le> pool_limit"
  shows "\<exists>u m. pt_copy hash t = Inr u \<and> holds hash u m S \<and> m \<le> 20 * pool_limit \<and> pt_trivial u = pt_trivial t"
proof -
  note H = holds_items [OF h]
  obtain F C where inv: "pool_inv hash t F C {} {}" and n: "pt_num_nodes t = n" "load_ok t"
    using h by (auto simp: holds_def)
  let ?t = "t\<lparr>pt_mem := [], pt_num_items := 0\<rparr>"
  obtain a where a: "set_space ?t n = Inr a" "space_ok a" using set_space_ok [of n ?t] H(6) by auto
  note f = space_fields [OF a(1)]
  have "load_ok a" using f n by (simp add: load_ok_def)
  then obtain c where c: "initialize_nodes a = Inr c" "holds hash c n {}" "same_space a c"
    using fresh_holds [OF a f(3)] by metis
  have lim: "40 * max (card S) (card ({} :: ('a \<times> 'b) set)) < 2 ^ 53" "2 * n < 2 ^ 53"
    "max n (20 * max (card S) (card ({} :: ('a \<times> 'b) set))) \<le> 20 * pool_limit"
    using b by (auto simp: pool_limit_def)
  obtain d m where d: "pt_reserve hash c (card S) = Inr d" "holds hash d m {}" "m \<le> 20 * pool_limit"
    "pt_trivial d = pt_trivial c"
    using pt_reserve_holds [OF c(2) lim(1,2)] lim(3) by (meson le_trans)
  obtain u m' where u: "pt_insert_list hash d (pt_items t) = Inr u" "holds hash u m' S" "pt_trivial u = pt_trivial d"
    "m' \<le> 20 * pool_limit"
    using insert_list_holds [OF d(2,3), of "pt_items t"] H(1-3) pt_items_inv(3) [OF inv] b(2) by auto
  have "pt_copy hash t = Inr u"
    using a(1) c(1) d(1) u(1) H(1) n(1) collect_items_inv [OF inv] by (simp add: pt_copy_def)
  moreover have "pt_trivial u = pt_trivial t" using u(3) d(4) c(3) f(4) by (simp add: same_space_def)
  ultimately show ?thesis using u(2,4) by blast
qed

lemma pt_move_holds:
  assumes h: "holds hash t n S"
  obtains r where "pt_move t = Inr (t, r)" "holds hash r 1 {}" "pt_trivial r = pt_trivial t"
proof -
  have l: "load_ok t" using h by (simp add: holds_def)
  let ?t = "t\<lparr>pt_mem := []\<rparr>"
  obtain a where a: "set_space ?t 1 = Inr a" "space_ok a" using set_space_ok [of 1 ?t] by auto
  note f = space_fields [OF a(1)]
  obtain c where c: "initialize_nodes a = Inr c" "pool_inv hash c (offsets a) (\<lambda>_. []) {} {}"
    "same_space a c" "pool_set c (\<lambda>_. []) {} = {}" "pt_num_items c = 0"
    using initialize_nodes_inv [OF a(2)] by metis
  let ?r = "c\<lparr>pt_num_items := 0, pt_max_num_items := 0\<rparr>"
  have "pool_inv hash ?r (offsets a) (\<lambda>_. []) {} {}" "pool_set ?r (\<lambda>_. []) {} = {}"
    using pool_inv_members [OF c(2), of ?r] c(4,5) by simp_all
  moreover have "load_ok ?r" "pt_num_nodes ?r = 1" using l f c(3) by (simp_all add: load_ok_def same_space_def)
  ultimately have "holds hash ?r 1 {}" by (auto simp: holds_def)
  then show thesis using a(1) c(1,3) f(4) by (intro that [of ?r]) (simp_all add: pt_move_def same_space_def)
qed

lemma pt_assign_holds:
  assumes "holds hash t n S" "holds hash other m A"
  shows "pt_assign t other = Inr other"
proof -
  obtain u r v where "pt_clear t = Inr u" "pt_move other = Inr (other, r)" "pt_clear r = Inr v"
    using pt_clear_holds [OF assms(1)] pt_move_holds [OF assms(2)] pt_clear_holds by metis
  then show ?thesis by (simp add: pt_assign_def)
qed

section \<open>Sequences of operations\<close>

datatype ('k, 'v) pool_op =
    P_emplace 'k 'v | P_try_emplace 'k 'v | P_index 'k | P_count 'k | P_at 'k | P_erase 'k | P_clear
  | P_reserve nat | P_rehash nat | P_max_load rat | P_size | P_prioritise 'k | P_self_assign

datatype 'v pool_result = P_bool bool | P_value 'v | P_num nat | P_none

fun pt_exec :: "('k \<Rightarrow> nat) \<Rightarrow> 'v \<Rightarrow> ('k, 'v) pool_table \<Rightarrow> ('k, 'v) pool_op
    \<Rightarrow> (('k, 'v) pool_table \<times> 'v pool_result) pool" where
  "pt_exec hash dflt t (P_emplace k v) = pbind (pt_emplace hash t (k, v)) (\<lambda>(t, _, b). Inr (t, P_bool b))"
| "pt_exec hash dflt t (P_try_emplace k v) = pbind (pt_try_emplace hash t k v) (\<lambda>(t, _, b). Inr (t, P_bool b))"
| "pt_exec hash dflt t (P_index k) = pbind (pt_index hash dflt t k) (\<lambda>(t, v). Inr (t, P_value v))"
| "pt_exec hash dflt t (P_count k) = pbind (pt_count hash t k) (\<lambda>n. Inr (t, P_num n))"
| "pt_exec hash dflt t (P_at k) = pbind (pt_at hash t k) (\<lambda>v. Inr (t, P_value v))"
| "pt_exec hash dflt t (P_erase k) = pbind (pt_erase_key hash t k) (\<lambda>(t, n). Inr (t, P_num n))"
| "pt_exec hash dflt t P_clear = pbind (pt_clear t) (\<lambda>t. Inr (t, P_none))"
| "pt_exec hash dflt t (P_reserve n) = pbind (pt_reserve hash t n) (\<lambda>t. Inr (t, P_none))"
| "pt_exec hash dflt t (P_rehash n) = pbind (pt_rehash hash t n) (\<lambda>t. Inr (t, P_none))"
| "pt_exec hash dflt t (P_max_load f) = Inr (set_max_load_factor t f, P_none)"
| "pt_exec hash dflt t P_size = Inr (t, P_num (pt_size t))"
| "pt_exec hash dflt t (P_prioritise k) = pbind (pt_prioritise hash t k) (\<lambda>(t, i). Inr (t, P_bool (i \<noteq> 0)))"
| "pt_exec hash dflt t P_self_assign = pbind (pt_copy hash t) (\<lambda>other.
     pbind (pt_assign t other) (\<lambda>t. Inr (t, P_none)))"

fun pool_map_exec :: "'v \<Rightarrow> ('k \<rightharpoonup> 'v) \<Rightarrow> ('k, 'v) pool_op \<Rightarrow> (('k \<rightharpoonup> 'v) \<times> 'v pool_result) pool" where
  "pool_map_exec dflt m (P_emplace k v) =
     Inr (case m k of Some _ \<Rightarrow> (m, P_bool False) | None \<Rightarrow> (m(k \<mapsto> v), P_bool True))"
| "pool_map_exec dflt m (P_try_emplace k v) =
     Inr (case m k of Some _ \<Rightarrow> (m, P_bool False) | None \<Rightarrow> (m(k \<mapsto> v), P_bool True))"
| "pool_map_exec dflt m (P_index k) =
     Inr (case m k of Some v \<Rightarrow> (m, P_value v) | None \<Rightarrow> (m(k \<mapsto> dflt), P_value dflt))"
| "pool_map_exec dflt m (P_count k) = Inr (m, P_num (if m k = None then 0 else 1))"
| "pool_map_exec dflt m (P_at k) = (case m k of Some v \<Rightarrow> Inr (m, P_value v) | None \<Rightarrow> Inl (Fault Check_failed))"
| "pool_map_exec dflt m (P_erase k) = Inr (m(k := None), P_num (if m k = None then 0 else 1))"
| "pool_map_exec dflt m P_clear = Inr (Map.empty, P_none)"
| "pool_map_exec dflt m (P_reserve n) = Inr (m, P_none)"
| "pool_map_exec dflt m (P_rehash n) = Inr (m, P_none)"
| "pool_map_exec dflt m (P_max_load f) = Inr (m, P_none)"
| "pool_map_exec dflt m P_size = Inr (m, P_num (card (dom m)))"
| "pool_map_exec dflt m (P_prioritise k) = Inr (m, P_bool (m k \<noteq> None))"
| "pool_map_exec dflt m P_self_assign = Inr (m, P_none)"

text \<open>The sizes a client asks for, and the precondition of \<open>prioritise\<close>.\<close>

fun op_fits :: "bool \<Rightarrow> ('k, 'v) pool_op \<Rightarrow> bool" where
  "op_fits trivial (P_reserve n) = (n \<le> pool_limit)"
| "op_fits trivial (P_rehash n) = (n \<le> pool_limit)"
| "op_fits trivial (P_prioritise k) = trivial"
| "op_fits trivial _ = True"

definition simulates :: "('k \<Rightarrow> nat) \<Rightarrow> ('k, 'v) pool_table \<Rightarrow> nat \<Rightarrow> ('k \<rightharpoonup> 'v) \<Rightarrow> bool" where
  "simulates hash t c m \<longleftrightarrow> (\<exists>n S. holds hash t n S \<and> n \<le> 20 * pool_limit \<and> card S \<le> c) \<and> pt_abs t = m"

text \<open>One operation on a table that simulates a map.\<close>

definition refines :: "('k \<Rightarrow> nat) \<Rightarrow> nat \<Rightarrow> bool \<Rightarrow> (('k, 'v) pool_table \<times> 'v pool_result) pool
    \<Rightarrow> (('k \<rightharpoonup> 'v) \<times> 'v pool_result) pool \<Rightarrow> bool" where
  "refines hash c tr r s \<longleftrightarrow> (case s of Inl e \<Rightarrow> r = Inl e
     | Inr (m, x) \<Rightarrow> \<exists>u. r = Inr (u, x) \<and> simulates hash u (Suc c) m \<and> pt_trivial u = tr)"

lemma simulates_holds:
  assumes "simulates hash t c m" "c < pool_limit"
  obtains n S where "holds hash t n S" "n \<le> 20 * pool_limit" "card S \<le> c" "pt_abs t = m"
    "40 * (card S + 1) < 2 ^ 53" "2 * n < 2 ^ 53" "max n (20 * (card S + 1)) \<le> 20 * pool_limit"
proof -
  obtain n S where h: "holds hash t n S" "n \<le> 20 * pool_limit" "card S \<le> c" "pt_abs t = m"
    using assms(1) by (auto simp: simulates_def)
  then have "card S < pool_limit" using assms(2) by simp
  from pool_limit_bounds [OF this h(2)] h show thesis by (intro that)
qed

lemma refinesI:
  assumes "r = Inr (u, x)" "holds hash u n S" "n \<le> 20 * pool_limit" "card S \<le> Suc c" "pt_abs u = m" "pt_trivial u = tr"
    and "s = Inr (m, x)"
  shows "refines hash c tr r s"
  using assms by (auto simp: refines_def simulates_def)

lemma exec_emplace:
  assumes sim: "simulates hash t c m" "c < pool_limit"
  shows "refines hash c (pt_trivial t) (pt_exec hash dflt t (P_emplace k v)) (pool_map_exec dflt m (P_emplace k v))"
proof -
  obtain n S where h: "holds hash t n S" "n \<le> 20 * pool_limit" "card S \<le> c" "pt_abs t = m"
    "40 * (card S + 1) < 2 ^ 53" "2 * n < 2 ^ 53" "max n (20 * (card S + 1)) \<le> 20 * pool_limit"
    using simulates_holds [OF sim] by metis
  obtain u i n' where u: "pt_emplace hash t (k, v) = Inr (u, i, k \<notin> fst ` S)"
    "holds hash u n' (if k \<in> fst ` S then S else insert (k, v) S)"
    "n' \<le> max n (20 * (card S + 1))" "pt_trivial u = pt_trivial t"
    using pt_emplace_holds [OF h(1,5,6)] by metis
  have n': "n' \<le> 20 * pool_limit" using u(3) h(7) by (rule le_trans)
  have k: "k \<in> fst ` S \<longleftrightarrow> m k \<noteq> None" using holds_abs(2) [OF h(1), of k] h(4) by simp
  show ?thesis
  proof (cases "m k")
    case None
    then have S: "k \<notin> fst ` S" using k by simp
    have "card (insert (k, v) S) \<le> Suc c" using h(3) holds_items(4) [OF h(1)] by (simp add: card_insert_if)
    moreover have "pt_abs u = m(k \<mapsto> v)" using holds_insert_abs [OF h(1) _ S] u(2) S h(4) by simp
    ultimately show ?thesis using u S None n' by (intro refinesI [of _ u "P_bool True" _ n' "insert (k, v) S"]) simp_all
  next
    case (Some w)
    then have S: "k \<in> fst ` S" using k by simp
    have "pt_abs u = m" using holds_same_abs [OF h(1)] u(2) S h(4) by simp
    then show ?thesis using u S Some n' h(3) by (intro refinesI [of _ u "P_bool False" _ n' S]) simp_all
  qed
qed

lemma pt_try_emplace_eq: "pt_try_emplace hash t k v = pt_emplace hash t (k, v)"
  by (simp add: pt_try_emplace_def pt_emplace_def)

lemma exec_index:
  assumes sim: "simulates hash t c m" "c < pool_limit"
  shows "refines hash c (pt_trivial t) (pt_exec hash dflt t (P_index k)) (pool_map_exec dflt m (P_index k))"
proof -
  obtain n S where h: "holds hash t n S" "n \<le> 20 * pool_limit" "card S \<le> c" "pt_abs t = m"
    "40 * (card S + 1) < 2 ^ 53" "2 * n < 2 ^ 53" "max n (20 * (card S + 1)) \<le> 20 * pool_limit"
    using simulates_holds [OF sim] by metis
  obtain i where i: "inner_find hash t k = Inr i" "i = 0 \<Longrightarrow> k \<notin> fst ` S"
    "i \<noteq> 0 \<Longrightarrow> i \<in> set (used_nodes t) \<and> item_at t i \<in> S \<and> key_at t i = k"
    using find_holds [OF h(1), of k] by metis
  show ?thesis
  proof (cases "i = 0")
    case True
    then have S: "k \<notin> fst ` S" using i(2) by simp
    then have none: "m k = None" using holds_abs(2) [OF h(1)] h(4) by simp
    obtain u j n' where u: "inner_emplace_not_exist hash t (k, dflt) = Inr (u, j)" "holds hash u n' (insert (k, dflt) S)"
      "n' \<le> max n (20 * (card S + 1))" "j < length (pt_mem u)" "cell_at u j = Item (k, dflt)" "pt_trivial u = pt_trivial t"
      using emplace_holds [OF h(1) _ h(5,6), of "(k, dflt)"] S by (metis fst_conv)
    have "card (insert (k, dflt) S) \<le> Suc c" using h(3) holds_items(4) [OF h(1)] by (simp add: card_insert_if)
    moreover have "pt_abs u = m(k \<mapsto> dflt)" using holds_insert_abs [OF h(1) u(2) S] h(4) by simp
    moreover have "n' \<le> 20 * pool_limit" using u(3) h(7) by (rule le_trans)
    ultimately show ?thesis using i(1) True u none
      by (intro refinesI [of _ u "P_value dflt" _ n' "insert (k, dflt) S"]) (simp_all add: pt_index_def)
  next
    case False
    have "(k, snd (item_at t i)) \<in> S" using i(3) False by (metis prod.collapse)
    then have some: "m k = Some (snd (item_at t i))" using holds_abs(1) [OF h(1)] h(4) by simp
    show ?thesis using i False some h holds_used(3) [OF h(1)]
      by (intro refinesI [of _ t "P_value (snd (item_at t i))" _ n S]) (simp_all add: pt_index_def)
  qed
qed

lemma exec_lookup:
  assumes sim: "simulates hash t c m" "c < pool_limit"
  shows "refines hash c (pt_trivial t) (pt_exec hash dflt t (P_count k)) (pool_map_exec dflt m (P_count k))"
    and "refines hash c (pt_trivial t) (pt_exec hash dflt t (P_at k)) (pool_map_exec dflt m (P_at k))"
    and "refines hash c (pt_trivial t) (pt_exec hash dflt t P_size) (pool_map_exec dflt m P_size)"
proof -
  obtain n S where h: "holds hash t n S" "n \<le> 20 * pool_limit" "card S \<le> c" "pt_abs t = m"
    using simulates_holds [OF sim] by metis
  obtain i where i: "inner_find hash t k = Inr i" "i = 0 \<Longrightarrow> k \<notin> fst ` S"
    "i \<noteq> 0 \<Longrightarrow> i \<in> set (used_nodes t) \<and> item_at t i \<in> S \<and> key_at t i = k"
    using find_holds [OF h(1), of k] by metis
  have mk: "m k = (if i = 0 then None else Some (snd (item_at t i)))"
    using i(2,3) holds_abs(1) [OF h(1), of k "snd (item_at t i)"] holds_abs(2) [OF h(1), of k] h(4)
    by (auto simp: prod_eq_iff)
  show "refines hash c (pt_trivial t) (pt_exec hash dflt t (P_count k)) (pool_map_exec dflt m (P_count k))"
    using i(1) mk h by (intro refinesI [of _ t "P_num (if i = 0 then 0 else 1)" _ n S c m]) (simp_all add: pt_count_def)
  show "refines hash c (pt_trivial t) (pt_exec hash dflt t (P_at k)) (pool_map_exec dflt m (P_at k))"
  proof (cases "i = 0")
    case True
    then show ?thesis using i(1) mk by (simp add: refines_def pt_at_def)
  next
    case False
    then show ?thesis using i(1,3) mk h holds_used(3) [OF h(1), of i]
      by (intro refinesI [of _ t "P_value (snd (item_at t i))" _ n S]) (simp_all add: pt_at_def)
  qed
  show "refines hash c (pt_trivial t) (pt_exec hash dflt t P_size) (pool_map_exec dflt m P_size)"
    using h holds_items(1) [OF h(1)] holds_abs(3) [OF h(1)]
    by (intro refinesI [of _ t "P_num (card S)" _ n S]) (simp_all add: pt_size_def)
qed

lemma exec_erase:
  assumes sim: "simulates hash t c m" "c < pool_limit"
  shows "refines hash c (pt_trivial t) (pt_exec hash dflt t (P_erase k)) (pool_map_exec dflt m (P_erase k))"
    and "refines hash c (pt_trivial t) (pt_exec hash dflt t P_clear) (pool_map_exec dflt m P_clear)"
proof -
  obtain n S where h: "holds hash t n S" "n \<le> 20 * pool_limit" "card S \<le> c" "pt_abs t = m"
    using simulates_holds [OF sim] by metis
  obtain u where u: "pt_erase_key hash t k = Inr (u, if k \<in> fst ` S then 1 else 0)" "pt_trivial u = pt_trivial t"
    "holds hash u n {x \<in> S. fst x \<noteq> k}" using pt_erase_key_holds [OF h(1)] by blast
  have "pt_abs u = m(k := None)"
    by (rule holds_abs_eqI [OF u(3)]) (use holds_abs(1) [OF h(1)] h(4) in auto)
  moreover have "k \<in> fst ` S \<longleftrightarrow> m k \<noteq> None" using holds_abs(2) [OF h(1), of k] h(4) by simp
  moreover have "card {x \<in> S. fst x \<noteq> k} \<le> Suc c"
    using card_mono [OF holds_items(4) [OF h(1)], of "{x \<in> S. fst x \<noteq> k}"] h(3) by simp
  ultimately show "refines hash c (pt_trivial t) (pt_exec hash dflt t (P_erase k)) (pool_map_exec dflt m (P_erase k))"
    using u h(2) by (intro refinesI [of _ u "P_num (if k \<in> fst ` S then 1 else 0)" _ n "{x \<in> S. fst x \<noteq> k}" c "m(k := None)"]) simp_all
  obtain w where w: "pt_clear t = Inr w" "holds hash w n {}" "pt_trivial w = pt_trivial t"
    using pt_clear_holds [OF h(1)] by metis
  have "pt_abs w = Map.empty" by (rule holds_abs_eqI [OF w(2)]) simp
  then show "refines hash c (pt_trivial t) (pt_exec hash dflt t P_clear) (pool_map_exec dflt m P_clear)"
    using w h(2) by (intro refinesI [of _ w P_none _ n "{}"]) simp_all
qed

lemma exec_same:
  assumes sim: "simulates hash t c m" "c < pool_limit" and fits: "op_fits (pt_trivial t) a"
    and a: "a = P_reserve b \<or> a = P_rehash b \<or> a = P_max_load f \<or> a = P_prioritise k \<or> a = P_self_assign"
  shows "refines hash c (pt_trivial t) (pt_exec hash dflt t a) (pool_map_exec dflt m a)"
proof -
  obtain n S where h: "holds hash t n S" "n \<le> 20 * pool_limit" "card S \<le> c" "pt_abs t = m" "2 * n < 2 ^ 53"
    using simulates_holds [OF sim] by metis
  have keep: "refines hash c (pt_trivial t) r (Inr (m, x))"
    if "r = Inr (u, x)" "holds hash u n' S" "n' \<le> 20 * pool_limit" "pt_trivial u = pt_trivial t" for u n' r x
    using that h(3,4) holds_same_abs [OF h(1) that(2)] by (intro refinesI [of _ u x _ n' S]) simp_all
  have c: "card S \<le> pool_limit" using h(3) sim(2) by simp
  have lim: "40 * pool_limit < 2 ^ 53" by (simp add: pool_limit_def)
  consider "a = P_reserve b" | "a = P_rehash b" | "a = P_max_load f" | "a = P_prioritise k" | "a = P_self_assign" using a by blast
  then show ?thesis
  proof cases
    case 1
    then have b: "b \<le> pool_limit" using fits by simp
    then have m: "max b (card S) \<le> pool_limit" using c by simp
    then have "40 * max b (card S) < 2 ^ 53" using lim by (meson le_less_trans mult_le_mono2)
    then obtain u n' where u: "pt_reserve hash t b = Inr u" "holds hash u n' S" "n' \<le> max n (20 * max b (card S))"
      "pt_trivial u = pt_trivial t" using pt_reserve_holds [OF h(1) _ h(5)] by metis
    have "max n (20 * max b (card S)) \<le> 20 * pool_limit" using m h(2) by simp
    with u(3) have "n' \<le> 20 * pool_limit" by (rule le_trans)
    then show ?thesis using 1 keep [of _ u P_none n'] u by simp
  next
    case 2
    then have b: "b \<le> pool_limit" using fits by simp
    have bb: "b < 2 ^ 53" "n < 2 ^ 53" "10 * card S < 2 ^ 53" using b c h(5) lim by linarith+
    obtain u n' where u: "pt_rehash hash t b = Inr u" "holds hash u n' S" "n' \<le> max (max b 1) (10 * card S)"
      "pt_trivial u = pt_trivial t" using pt_rehash_holds [OF h(1) bb] by metis
    have "max (max b 1) (10 * card S) \<le> 20 * pool_limit" using b c by (simp add: pool_limit_def)
    with u(3) have "n' \<le> 20 * pool_limit" by (rule le_trans)
    then show ?thesis using 2 keep [of _ u P_none n'] u by simp
  next
    case 3
    then show ?thesis
      using keep [of _ "set_max_load_factor t f" P_none n] set_max_load_factor_holds [OF h(1)] h(2) by simp
  next
    case 4
    then have tr: "pt_trivial t" using fits by simp
    obtain u i where u: "pt_prioritise hash t k = Inr (u, i)" "holds hash u n S" "pt_trivial u" "i = 0 \<longleftrightarrow> k \<notin> fst ` S"
      using prioritise_holds [OF h(1) tr] by metis
    have "(i \<noteq> 0) = (m k \<noteq> None)" using u(4) holds_abs(2) [OF h(1), of k] h(4) by simp
    then have "pt_exec hash dflt t a = Inr (u, P_bool (m k \<noteq> None))" using u(1) 4 by simp
    from keep [OF this u(2) h(2)] show ?thesis using 4 u(3) tr by simp
  next
    case 5
    obtain u n' where "pt_copy hash t = Inr u" "holds hash u n' S" "n' \<le> 20 * pool_limit" "pt_trivial u = pt_trivial t"
      using pt_copy_holds [OF h(1,2) c] by metis
    then show ?thesis using 5 keep [of _ u P_none n'] pt_assign_holds [OF h(1)] by simp
  qed
qed

lemma exec_refines:
  assumes "simulates hash t c m" "c < pool_limit" "op_fits (pt_trivial t) a"
  shows "refines hash c (pt_trivial t) (pt_exec hash dflt t a) (pool_map_exec dflt m a)"
  using exec_emplace [OF assms(1,2)] exec_index [OF assms(1,2)] exec_lookup [OF assms(1,2)]
    exec_erase [OF assms(1,2)] exec_same [OF assms]
  by (cases a) (simp_all add: pt_try_emplace_eq)

fun pt_run :: "('k \<Rightarrow> nat) \<Rightarrow> 'v \<Rightarrow> ('k, 'v) pool_table \<Rightarrow> ('k, 'v) pool_op list
    \<Rightarrow> (('k, 'v) pool_table \<times> 'v pool_result list) pool" where
  "pt_run hash dflt t [] = Inr (t, [])"
| "pt_run hash dflt t (a # as) = pbind (pt_exec hash dflt t a) (\<lambda>(t, r).
     pbind (pt_run hash dflt t as) (\<lambda>(t, rs). Inr (t, r # rs)))"

fun pool_map_run :: "'v \<Rightarrow> ('k \<rightharpoonup> 'v) \<Rightarrow> ('k, 'v) pool_op list \<Rightarrow> (('k \<rightharpoonup> 'v) \<times> 'v pool_result list) pool" where
  "pool_map_run dflt m [] = Inr (m, [])"
| "pool_map_run dflt m (a # as) = pbind (pool_map_exec dflt m a) (\<lambda>(m, r).
     pbind (pool_map_run dflt m as) (\<lambda>(m, rs). Inr (m, r # rs)))"

definition pool_map_result :: "(('k, 'v) pool_table \<times> 'r) pool \<Rightarrow> (('k \<rightharpoonup> 'v) \<times> 'r) pool" where
  "pool_map_result r = pbind r (\<lambda>(t, x). Inr (pt_abs t, x))"

lemma run_refines:
  assumes "simulates hash t c m" "c + length as \<le> pool_limit" "\<forall>a\<in>set as. op_fits (pt_trivial t) a"
  shows "pool_map_result (pt_run hash dflt t as) = pool_map_run dflt m as"
  using assms
proof (induction as arbitrary: t c m)
  case Nil
  then show ?case by (simp add: pool_map_result_def simulates_def)
next
  case (Cons a as)
  have r: "refines hash c (pt_trivial t) (pt_exec hash dflt t a) (pool_map_exec dflt m a)"
    using exec_refines [OF Cons.prems(1)] Cons.prems(2,3) by simp
  show ?case
  proof (cases "pool_map_exec dflt m a")
    case (Inl e)
    then show ?thesis using r by (simp add: refines_def pool_map_result_def)
  next
    case (Inr mx)
    obtain m' x where mx: "mx = (m', x)" by fastforce
    then obtain u where u: "pt_exec hash dflt t a = Inr (u, x)" "simulates hash u (Suc c) m'" "pt_trivial u = pt_trivial t"
      using r Inr by (auto simp: refines_def)
    have "pool_map_run dflt m' as = pool_map_result (pt_run hash dflt u as)"
      using Cons.IH [OF u(2)] Cons.prems(2,3) u(3) by simp
    then show ?thesis using u(1) Inr mx
      by (cases "pt_run hash dflt u as") (auto simp: pool_map_result_def)
  qed
qed

lemma run_simulates:
  assumes "simulates hash t c m" "c + length as \<le> pool_limit" "\<forall>a\<in>set as. op_fits (pt_trivial t) a"
    and "pt_run hash dflt t as = Inr (u, rs)"
  shows "simulates hash u (c + length as) (pt_abs u) \<and> pt_trivial u = pt_trivial t"
  using assms
proof (induction as arbitrary: t c m rs)
  case Nil
  then show ?case by (auto simp: simulates_def)
next
  case (Cons a as)
  have r: "refines hash c (pt_trivial t) (pt_exec hash dflt t a) (pool_map_exec dflt m a)"
    using exec_refines [OF Cons.prems(1)] Cons.prems(2,3) by simp
  then obtain w x m' where w: "pt_exec hash dflt t a = Inr (w, x)" "simulates hash w (Suc c) m'" "pt_trivial w = pt_trivial t"
    using Cons.prems(4) by (auto simp: refines_def split: sum.splits)
  then obtain rs' where "pt_run hash dflt w as = Inr (u, rs')"
    using Cons.prems(4) by (cases "pt_run hash dflt w as") auto
  then show ?case using Cons.IH [OF w(2)] Cons.prems(2,3) w(3) by simp
qed

lemma new_simulates:
  obtains t :: "('k, 'v) pool_table" where "pt_new s a tr = Inr t" "simulates hash t 0 Map.empty" "pt_trivial t = tr"
proof -
  obtain t :: "('k, 'v) pool_table" where t: "pt_new s a tr = Inr t" "holds hash t 1 {}" "pt_trivial t = tr"
    using pt_new_holds by metis
  have "pt_abs t = Map.empty" by (rule holds_abs_eqI [OF t(2)]) simp
  moreover have "1 \<le> 20 * pool_limit" by (simp add: pool_limit_def)
  ultimately have "simulates hash t 0 Map.empty" using t(2) unfolding simulates_def by (metis card.empty le_refl)
  with t(1,3) show thesis by (intro that)
qed

text \<open>A table that a sequence of operations on a new one has led to.\<close>

definition pool_session :: "('k \<Rightarrow> nat) \<Rightarrow> 'v \<Rightarrow> nat \<Rightarrow> nat \<Rightarrow> bool \<Rightarrow> ('k, 'v) pool_op list
    \<Rightarrow> (('k, 'v) pool_table \<times> 'v pool_result list) pool" where
  "pool_session hash dflt s a tr as = pbind (pt_new s a tr) (\<lambda>t. pt_run hash dflt t as)"

lemma session_holds:
  fixes as :: "('k, 'v) pool_op list"
  assumes "length as \<le> pool_limit" "\<forall>b\<in>set as. op_fits tr b" "pool_session hash dflt s a tr as = Inr (t, rs)"
  obtains n S where "holds hash t n S" "pt_trivial t = tr"
proof -
  obtain t0 :: "('k, 'v) pool_table" where "pt_new s a tr = Inr t0" "simulates hash t0 0 Map.empty" "pt_trivial t0 = tr" using new_simulates by metis
  then show thesis using run_simulates [of hash t0 0 Map.empty as dflt t rs] assms that
    by (auto simp: pool_session_def simulates_def)
qed

section \<open>Properties\<close>

text \<open>C16. Every sequence of at most \<open>2\<^sup>4\<^sup>7\<close> operations on a new \<open>PoolHashTable\<close> in which \<open>reserve\<close> and \<open>rehash\<close> ask for at
  most that many places, and in which \<open>prioritise\<close> is only called on a table whose items are moved as bytes, gives the
  results that the same operations give on a finite map, growing and rehashing on the way, and leaves a table with the
  items of that map. In particular none of the loops over links runs forever, no node outside of the memory and no
  destroyed item is used, and the only failure is \<open>at\<close> of a key that is absent. The other operations are covered for
  items of both kinds; \<open>prioritise\<close> on items that are not moved as bytes is the subject of
  \<open>pool_prioritise_head_faults\<close> below.
\<close>

theorem pool_table_refines_map:
  fixes as :: "('k, 'v) pool_op list"
  assumes "length as \<le> pool_limit" "\<forall>b\<in>set as. op_fits tr b"
  shows "pool_map_result (pool_session hash dflt s a tr as) = pool_map_run dflt Map.empty as"
proof -
  obtain t :: "('k, 'v) pool_table" where "pt_new s a tr = Inr t" "simulates hash t 0 Map.empty" "pt_trivial t = tr" using new_simulates by metis
  then show ?thesis using run_refines [of hash t 0 Map.empty as dflt] assms by (simp add: pool_session_def)
qed

theorem pool_table_refines_map_witness:
  "pool_map_run 0 Map.empty [P_emplace (1::nat) (10::nat), P_emplace 3 30, P_prioritise 3, P_erase 1, P_at 3, P_size] =
     Inr ([3 \<mapsto> 30], [P_bool True, P_bool True, P_bool True, P_num 1, P_value 30, P_num 1]) \<and>
   pool_map_result (pool_session id 0 8 8 True
     [P_emplace (1::nat) (10::nat), P_emplace 3 30, P_prioritise 3, P_erase 1, P_at 3, P_size]) =
     Inr ([3 \<mapsto> 30], [P_bool True, P_bool True, P_bool True, P_num 1, P_value 30, P_num 1])"
proof -
  have m: "pool_map_run 0 Map.empty
      [P_emplace (1::nat) (10::nat), P_emplace 3 30, P_prioritise 3, P_erase 1, P_at 3, P_size] =
    Inr ([3 \<mapsto> 30], [P_bool True, P_bool True, P_bool True, P_num 1, P_value 30, P_num 1])"
    by simp
  then show ?thesis
    using pool_table_refines_map [of "[P_emplace (1::nat) (10::nat), P_emplace 3 30, P_prioritise 3, P_erase 1, P_at 3, P_size]"
        True id 0 8 8]
    by (simp add: pool_limit_def)
qed

text \<open>C37. A client that walks over a \<open>PoolHashTable\<close> and goes on with the iterator returned by \<open>erase\<close> wherever it erases sees
  every item exactly once, although \<open>erase\<close> moves another item into the freed place: the loop
  ends, and the table keeps exactly the items that were not to be erased.
\<close>

theorem pool_erase_during_iteration:
  assumes "length as \<le> pool_limit" "\<forall>b\<in>set as. op_fits tr b" "pool_session hash dflt s a tr as = Inr (t, rs)"
  shows "\<exists>i u xs. pt_begin t = Inr i \<and> erase_loop (Suc (pt_num_nodes t)) hash P t i = Inr (u, xs) \<and>
    distinct xs \<and> set xs = Map.graph (pt_abs t) \<and> Map.graph (pt_abs u) = {x \<in> Map.graph (pt_abs t). \<not> P x}"
proof -
  obtain n S where h: "holds hash t n S" using session_holds [OF assms] by metis
  then obtain F C where inv: "pool_inv hash t F C {} {}" by (auto simp: holds_def)
  have graph: "Map.graph (pt_abs v) = A" if "holds hash v m A" for v m A
    using holds_abs(1) [OF that] by (auto simp: Map.graph_def)
  let ?i = "following t 0"
  have b: "pt_begin t = Inr ?i"
    using get_next_offset_following [OF pool_invD(1) [OF inv], of 0] by (simp add: pt_begin_def)
  have all: "nodes_from t ?i = used_nodes t"
    unfolding nodes_from_following(1) using used_pos by (auto simp: filter_id_conv)
  have "length (used_nodes t) \<le> pt_num_nodes t"
    using length_filter_le [of _ "offsets t"] by (simp add: used_nodes_def offsets_def del: upt_Suc)
  then have "length (nodes_from t ?i) < Suc (pt_num_nodes t)" unfolding all by simp
  from erase_loop_inv [OF h nodes_from_following(2) this, of P] obtain u xs where
    u: "erase_loop (Suc (pt_num_nodes t)) hash P t ?i = Inr (u, xs)" "distinct xs"
      "set xs = item_at t ` set (used_nodes t)" "holds hash u n (S - {x \<in> set xs. P x})"
    unfolding all by blast
  have S: "set xs = S" using u(3) holds_used(1) [OF h] by simp
  then have "S - {x \<in> set xs. P x} = {x \<in> S. \<not> P x}" by auto
  then show ?thesis using b u(1,2) S graph [OF u(4)] graph [OF h] by auto
qed

theorem pool_erase_during_iteration_witness:
  "\<exists>t rs i u xs. pool_session id (0::nat) 8 8 False [P_emplace (1::nat) 10, P_emplace 3 30, P_emplace 5 50] = Inr (t, rs) \<and>
     pt_begin t = Inr i \<and> erase_loop (Suc (pt_num_nodes t)) id (\<lambda>x. fst x = 3) t i = Inr (u, xs) \<and> distinct xs \<and>
     set xs = Map.graph (pt_abs t) \<and> Map.graph (pt_abs u) = {x \<in> Map.graph (pt_abs t). fst x \<noteq> 3}"
proof -
  let ?as = "[P_emplace (1::nat) (10::nat), P_emplace 3 30, P_emplace 5 50]"
  obtain t0 :: "(nat, nat) pool_table" where t0: "pt_new 8 8 False = Inr t0" "simulates id t0 0 Map.empty" "pt_trivial t0 = False"
    using new_simulates by metis
  have "pool_map_result (pt_run id 0 t0 ?as) = pool_map_run 0 Map.empty ?as"
    by (rule run_refines [OF t0(2)]) (simp_all add: pool_limit_def)
  then have "pool_map_result (pool_session id 0 8 8 False ?as) = pool_map_run 0 Map.empty ?as"
    using t0(1) by (simp add: pool_session_def)
  then obtain t rs where "pool_session id 0 8 8 False ?as = Inr (t, rs)"
    by (cases "pool_session id 0 8 8 False ?as") (auto simp: pool_map_result_def)
  moreover have "length ?as \<le> pool_limit" "\<forall>b\<in>set ?as. op_fits False b" by (simp_all add: pool_limit_def)
  ultimately show ?thesis using pool_erase_during_iteration [of ?as False id 0 8 8 t rs "\<lambda>x. fst x = 3"] by blast
qed

text \<open>\<open>prioritise\<close> of a \<open>PoolHashTable\<close> whose items are not moved as bytes uses a destroyed item when the key is already
  at the head of its chain, which every key is after it went into an empty table: the item is moved out
  to the temporary place and then once more from where it was.
\<close>

theorem pool_prioritise_head_faults:
  fixes k :: 'k and v :: 'v
  shows "pool_session hash dflt s a False [P_emplace k v, P_prioritise k] = Inl (Fault Out_of_bounds)"
proof -
  obtain t :: "('k, 'v) pool_table" where t: "pt_new s a False = Inr t" "holds hash t 1 {}" "pt_trivial t = False" using pt_new_holds by metis
  obtain u i m where u: "pt_emplace hash t (k, v) = Inr (u, i, True)" "holds hash u m {(k, v)}" "\<not> pt_trivial u"
    using pt_emplace_holds [OF t(2), of k v, simplified] t(3) by metis
  obtain F C where inv: "pool_inv hash u F C {} {}" and S: "pool_set u C {} = {(k, v)}" using u(2) by (auto simp: holds_def)
  let ?h = "get_hash_head hash u k"
  obtain j where j: "inner_find hash u k = Inr j" "j = 0 \<Longrightarrow> k \<notin> fst ` {(k, v)}"
    "j \<noteq> 0 \<Longrightarrow> j \<in> set (C ?h) \<and> key_at u j = k" using inner_find_inv [OF inv, of k] unfolding S by metis
  have j0: "j \<noteq> 0" using j(2) by auto
  then have jC: "j \<in> set (C ?h)" and ne: "C ?h \<noteq> []" using j(3) by auto
  note P = pool_chain [OF inv ne]
  have items: "item_at u p = (k, v)" if "p \<in> chained C" for p using S that by (auto simp: pool_set_def)
  have "j = ?h"
    using pool_keys_inj [OF inv] items P(4,5) jC unfolding inj_on_def by (metis Un_iff)
  moreover have "?h < length (pt_mem u)" "cell_at u ?h = Item (k, v)"
    using pool_inv_in(3) [OF inv, of ?h] P(4,5) has_itemD [OF pool_items(1) [OF inv, of ?h]] items by auto
  ultimately have "pt_prioritise hash u k = Inl (Fault Out_of_bounds)"
    using swap_items_self(2) [of ?h u "(k, v)"] u(3) j(1) j0 by (simp add: pt_prioritise_find Let_def)
  then show ?thesis using t(1) u(1) by (simp add: pool_session_def)
qed

end
