(* ===== verification/Lru_Cache.thy ===== *)
theory Lru_Cache
  imports Prpc_Prelude "HOL-Library.Word"
begin

text \<open>
  \<open>LRUCache\<close> of \<open>src/misc/LRUCache.h\<close>: a hash map whose entries are linked in the order of their last use, with limits on
  the number of entries, on their memory, on their age and on how often they are read.

  The nodes of the list live on an explicit heap: touching a node that was deleted is \<open>Inl Out_of_bounds\<close>. The clock
  (\<open>std::time\<close>) and the functor that measures a value are arguments. Each method is the code between taking and giving back
  the lock; \<open>find\<close> has a section under the shared lock and one after the upgrade, with the calls of other threads between
  them where the lock allows it.
\<close>

section \<open>Data\<close>

record 'k list_node =
  ln_key :: 'k
  ln_usage :: "64 word"
  ln_prev :: "nat option"
  ln_next :: "nat option"

record 'v hash_map_value =
  hv_value :: 'v
  hv_node :: nat
  hv_access_count :: "32 word"
  hv_insert_timestamp :: "64 word"

record lru_limits =
  max_item_count :: "64 word"
  max_item_memory_usage :: "64 word"
  item_ttl_sec :: "64 word"
  item_max_access_count :: "64 word"

record ('k, 'v) lru =
  lc_heap :: "nat \<Rightarrow> 'k list_node option"
  lc_map :: "'k \<Rightarrow> 'v hash_map_value option"
  lc_head :: "nat option"
  lc_tail :: "nat option"
  lc_count :: "64 word"
  lc_usage :: "64 word"
  lc_limits :: lru_limits
  lc_fresh :: nat

definition lru_new :: "lru_limits \<Rightarrow> ('k, 'v) lru" where
  "lru_new l = \<lparr>lc_heap = (\<lambda>_. None), lc_map = (\<lambda>_. None), lc_head = None, lc_tail = None, lc_count = 0, lc_usage = 0,
     lc_limits = l, lc_fresh = 0\<rparr>"

definition lru_count_only :: "64 word \<Rightarrow> lru_limits" where
  "lru_count_only n = \<lparr>max_item_count = n, max_item_memory_usage = 0, item_ttl_sec = 0, item_max_access_count = 0\<rparr>"

definition ln_get :: "nat \<Rightarrow> ('k, 'v) lru \<Rightarrow> 'k list_node res" where
  "ln_get n c = (case lc_heap c n of None \<Rightarrow> Inl Out_of_bounds | Some nd \<Rightarrow> Inr nd)"

definition ln_set :: "nat \<Rightarrow> ('k list_node \<Rightarrow> 'k list_node) \<Rightarrow> ('k, 'v) lru \<Rightarrow> ('k, 'v) lru res" where
  "ln_set n f c = rbind (ln_get n c) (\<lambda>nd. Inr (c\<lparr>lc_heap := (lc_heap c)(n \<mapsto> f nd)\<rparr>))"

definition ln_set_opt :: "nat option \<Rightarrow> ('k list_node \<Rightarrow> 'k list_node) \<Rightarrow> ('k, 'v) lru \<Rightarrow> ('k, 'v) lru res" where
  "ln_set_opt p f c = (case p of None \<Rightarrow> Inr c | Some n \<Rightarrow> ln_set n f c)"

section \<open>Operations\<close>

definition item_outdated :: "lru_limits \<Rightarrow> 64 word \<Rightarrow> 32 word \<Rightarrow> 64 word \<Rightarrow> bool" where
  "item_outdated l now access stamp \<longleftrightarrow>
     item_max_access_count l \<noteq> 0 \<and> (word_of_int (sint access) :: 64 word) \<ge> item_max_access_count l \<or>
     item_ttl_sec l \<noteq> 0 \<and> now - stamp \<ge> item_ttl_sec l"

definition need_to_evict :: "lru_limits \<Rightarrow> 64 word \<Rightarrow> 64 word \<Rightarrow> bool" where
  "need_to_evict l count usage \<longleftrightarrow> max_item_count l \<noteq> 0 \<and> count > max_item_count l \<or>
     max_item_memory_usage l \<noteq> 0 \<and> usage > max_item_memory_usage l"

definition delink_node :: "nat \<Rightarrow> ('k, 'v) lru \<Rightarrow> ('k, 'v) lru res" where
  "delink_node n c =
     rbind (if lc_tail c = Some n then rbind (ln_get n c) (\<lambda>nd. Inr (c\<lparr>lc_tail := ln_prev nd\<rparr>)) else Inr c) (\<lambda>c.
     rbind (if lc_head c = Some n then rbind (ln_get n c) (\<lambda>nd. Inr (c\<lparr>lc_head := ln_next nd\<rparr>)) else Inr c) (\<lambda>c.
     rbind (ln_get n c) (\<lambda>nd. let prev = ln_prev nd; next = ln_next nd in
     rbind (ln_set_opt prev (\<lambda>nd. nd\<lparr>ln_next := next\<rparr>) c) (\<lambda>c.
     rbind (ln_set_opt next (\<lambda>nd. nd\<lparr>ln_prev := prev\<rparr>) c) (\<lambda>c.
     ln_set n (\<lambda>nd. nd\<lparr>ln_prev := None, ln_next := None\<rparr>) c)))))"

definition push_node_to_front :: "nat \<Rightarrow> ('k, 'v) lru \<Rightarrow> ('k, 'v) lru res" where
  "push_node_to_front n c =
     rbind (ln_set_opt (lc_head c) (\<lambda>nd. nd\<lparr>ln_prev := Some n\<rparr>) c) (\<lambda>c.
     rbind (ln_set n (\<lambda>nd. nd\<lparr>ln_prev := None, ln_next := lc_head c\<rparr>) c) (\<lambda>c.
     let c = c\<lparr>lc_head := Some n\<rparr> in
     Inr (if lc_tail c = None then c\<lparr>lc_tail := lc_head c\<rparr> else c)))"

definition lru_evict :: "nat option \<Rightarrow> ('k, 'v) lru \<Rightarrow> ('k, 'v) lru res" where
  "lru_evict p c = (case p of None \<Rightarrow> Inr c | Some n \<Rightarrow>
     rbind (delink_node n c) (\<lambda>c.
     rbind (ln_get n c) (\<lambda>nd.
     Inr (c\<lparr>lc_count := lc_count c - 1, lc_usage := lc_usage c - ln_usage nd,
            lc_map := (lc_map c)(ln_key nd := None), lc_heap := (lc_heap c)(n := None)\<rparr>))))"

definition evict_if_needed :: "('k, 'v) lru \<Rightarrow> ('k, 'v) lru res" where
  "evict_if_needed c = (if need_to_evict (lc_limits c) (lc_count c) (lc_usage c) then lru_evict (lc_tail c) c else Inr c)"

definition new_list_node :: "'k \<Rightarrow> ('k, 'v) lru \<Rightarrow> nat \<times> ('k, 'v) lru" where
  "new_list_node k c = (lc_fresh c,
     c\<lparr>lc_heap := (lc_heap c)(lc_fresh c \<mapsto> \<lparr>ln_key = k, ln_usage = 0, ln_prev = None, ln_next = None\<rparr>), lc_fresh := lc_fresh c + 1\<rparr>)"

text \<open>\<open>emplace\<close> leaves an entry that is already there as it is.\<close>

definition map_emplace :: "'k \<Rightarrow> 'a \<Rightarrow> ('k \<Rightarrow> 'a option) \<Rightarrow> 'k \<Rightarrow> 'a option" where
  "map_emplace k x m = (case m k of None \<Rightarrow> m(k \<mapsto> x) | Some _ \<Rightarrow> m)"

definition insert_link :: "nat \<Rightarrow> ('k, 'v) lru \<Rightarrow> ('k, 'v) lru res" where
  "insert_link n c =
     rbind (delink_node n c) (\<lambda>c.
     rbind (push_node_to_front n c) (\<lambda>c.
     rbind (ln_get n c) (\<lambda>nd.
     evict_if_needed (c\<lparr>lc_count := lc_count c + 1, lc_usage := lc_usage c + ln_usage nd\<rparr>))))"

definition insert_value :: "('v \<Rightarrow> 64 word) \<Rightarrow> 64 word \<Rightarrow> 'k \<Rightarrow> 'v \<Rightarrow> nat \<Rightarrow> ('k, 'v) lru \<Rightarrow> ('k, 'v) lru res" where
  "insert_value usage_fn now k v n c =
     rbind (ln_set n (\<lambda>nd. nd\<lparr>ln_usage := usage_fn v\<rparr>) c) (\<lambda>c.
     insert_link n (c\<lparr>lc_map :=
       map_emplace k \<lparr>hv_value = v, hv_node = n, hv_access_count = 0, hv_insert_timestamp = now\<rparr> (lc_map c)\<rparr>))"

definition lru_insert :: "('v \<Rightarrow> 64 word) \<Rightarrow> 64 word \<Rightarrow> 'k \<Rightarrow> 'v \<Rightarrow> ('k, 'v) lru \<Rightarrow> ('k, 'v) lru res" where
  "lru_insert usage_fn now k v c =
     (let (n, c) = (case lc_map c k of Some hv \<Rightarrow> (hv_node hv, c) | None \<Rightarrow> new_list_node k c) in
      rbind (evict_if_needed c) (insert_value usage_fn now k v n))"

text \<open>What is left of a call of \<open>find\<close> after its shared section: the entry is to be evicted, or moved to the front.\<close>

datatype 'k find_rest = Find_done | Find_evict 'k | Find_front nat

definition find_shared :: "64 word \<Rightarrow> 'k \<Rightarrow> ('k, 'v) lru \<Rightarrow> 'v option \<times> 'k find_rest \<times> ('k, 'v) lru" where
  "find_shared now k c = (case lc_map c k of None \<Rightarrow> (None, Find_done, c) | Some hv \<Rightarrow>
     let hv = hv\<lparr>hv_access_count := hv_access_count hv + 1\<rparr>; c = c\<lparr>lc_map := (lc_map c)(k \<mapsto> hv)\<rparr> in
     (Some (hv_value hv),
      if item_outdated (lc_limits c) now (hv_access_count hv) (hv_insert_timestamp hv) then Find_evict k else Find_front (hv_node hv), c))"

definition find_evict :: "64 word \<Rightarrow> 'k \<Rightarrow> ('k, 'v) lru \<Rightarrow> ('k, 'v) lru res" where
  "find_evict now k c = (case lc_map c k of None \<Rightarrow> Inr c | Some hv \<Rightarrow>
     if item_outdated (lc_limits c) now (hv_access_count hv) (hv_insert_timestamp hv) then lru_evict (Some (hv_node hv)) c else Inr c)"

definition find_front :: "nat \<Rightarrow> ('k, 'v) lru \<Rightarrow> ('k, 'v) lru res" where
  "find_front n c = rbind (delink_node n c) (push_node_to_front n)"

definition find_finish :: "64 word \<Rightarrow> bool \<Rightarrow> 'k find_rest \<Rightarrow> ('k, 'v) lru \<Rightarrow> ('k, 'v) lru res" where
  "find_finish now upgraded r c = (case r of Find_done \<Rightarrow> Inr c | Find_evict k \<Rightarrow> find_evict now k c
     | Find_front n \<Rightarrow> if upgraded then find_front n c else Inr c)"

text \<open>A call with no other thread at the cache; \<open>try_upgrade\<close> may fail all the same.\<close>

definition lru_find :: "64 word \<Rightarrow> 64 word \<Rightarrow> bool \<Rightarrow> 'k \<Rightarrow> ('k, 'v) lru \<Rightarrow> ('v option \<times> ('k, 'v) lru) res" where
  "lru_find now now' upgraded k c =
     (let (v, r, c) = find_shared now k c in rbind (find_finish now' upgraded r c) (\<lambda>c. Inr (v, c)))"

fun delete_nodes :: "nat \<Rightarrow> nat option \<Rightarrow> ('k, 'v) lru \<Rightarrow> ('k, 'v) lru res option" where
  "delete_nodes f None c = Some (Inr c)"
| "delete_nodes 0 (Some n) c = None"
| "delete_nodes (Suc f) (Some n) c = (case ln_get n c of Inl e \<Rightarrow> Some (Inl e) | Inr nd \<Rightarrow>
     delete_nodes f (ln_next nd) (c\<lparr>lc_heap := (lc_heap c)(n := None)\<rparr>))"

definition lru_clear :: "('k, 'v) lru \<Rightarrow> ('k, 'v) lru res option" where
  "lru_clear c = map_option (\<lambda>r. rbind r (\<lambda>c. Inr (c\<lparr>lc_usage := 0, lc_count := 0, lc_head := None, lc_tail := None\<rparr>)))
     (delete_nodes (lc_fresh c) (lc_head c) (c\<lparr>lc_map := (\<lambda>_. None)\<rparr>))"

section \<open>The cache as a list\<close>

text \<open>Entries from the last used to the one that is evicted next, and the two counters.\<close>

record ('k, 'v) item =
  it_key :: 'k
  it_value :: 'v
  it_usage :: "64 word"
  it_access :: "32 word"
  it_stamp :: "64 word"

record ('k, 'v) lru_list =
  ll_items :: "('k, 'v) item list"
  ll_count :: "64 word"
  ll_usage :: "64 word"

definition list_new :: "('k, 'v) lru_list" where
  "list_new = \<lparr>ll_items = [], ll_count = 0, ll_usage = 0\<rparr>"

definition without :: "'k \<Rightarrow> ('k, 'v) item list \<Rightarrow> ('k, 'v) item list" where
  "without k xs = filter (\<lambda>x. it_key x \<noteq> k) xs"

definition lookup :: "'k \<Rightarrow> ('k, 'v) item list \<Rightarrow> ('k, 'v) item option" where
  "lookup k xs = find (\<lambda>x. it_key x = k) xs"

definition list_remove :: "('k, 'v) item \<Rightarrow> ('k, 'v) lru_list \<Rightarrow> ('k, 'v) lru_list" where
  "list_remove x a = \<lparr>ll_items = without (it_key x) (ll_items a), ll_count = ll_count a - 1, ll_usage = ll_usage a - it_usage x\<rparr>"

definition list_trim :: "lru_limits \<Rightarrow> ('k, 'v) lru_list \<Rightarrow> ('k, 'v) lru_list" where
  "list_trim l a = (if need_to_evict l (ll_count a) (ll_usage a) \<and> ll_items a \<noteq> [] then list_remove (last (ll_items a)) a else a)"

definition list_put :: "('k, 'v) item \<Rightarrow> ('k, 'v) lru_list \<Rightarrow> ('k, 'v) lru_list" where
  "list_put x a = \<lparr>ll_items = x # without (it_key x) (ll_items a), ll_count = ll_count a + 1, ll_usage = ll_usage a + it_usage x\<rparr>"

definition list_insert :: "lru_limits \<Rightarrow> ('v \<Rightarrow> 64 word) \<Rightarrow> 64 word \<Rightarrow> 'k \<Rightarrow> 'v \<Rightarrow> ('k, 'v) lru_list \<Rightarrow> ('k, 'v) lru_list res" where
  "list_insert l usage_fn now k v a = (let a1 = list_trim l a in
     case lookup k (ll_items a) of
       None \<Rightarrow> Inr (list_trim l (list_put \<lparr>it_key = k, it_value = v, it_usage = usage_fn v, it_access = 0, it_stamp = now\<rparr> a1))
     | Some x \<Rightarrow> if lookup k (ll_items a1) = None then Inl Out_of_bounds
         else Inr (list_trim l (list_put (x\<lparr>it_usage := usage_fn v\<rparr>) a1)))"

definition list_find :: "lru_limits \<Rightarrow> 64 word \<Rightarrow> 64 word \<Rightarrow> bool \<Rightarrow> 'k \<Rightarrow> ('k, 'v) lru_list \<Rightarrow> 'v option \<times> ('k, 'v) lru_list" where
  "list_find l now now' upgraded k a = (case lookup k (ll_items a) of None \<Rightarrow> (None, a) | Some x \<Rightarrow>
     let x = x\<lparr>it_access := it_access x + 1\<rparr>; read = map (\<lambda>y. if it_key y = k then x else y) (ll_items a) in
     (Some (it_value x),
      if item_outdated l now (it_access x) (it_stamp x)
      then if item_outdated l now' (it_access x) (it_stamp x) then list_remove x a else a\<lparr>ll_items := read\<rparr>
      else if upgraded then a\<lparr>ll_items := x # without k (ll_items a)\<rparr> else a\<lparr>ll_items := read\<rparr>))"

section \<open>Segments of the linked list\<close>

text \<open>Nodes with their entries; \<open>p\<close> is in front of the segment and \<open>nx\<close> behind it.\<close>

fun front_of :: "nat option \<Rightarrow> (nat \<times> 'i) list \<Rightarrow> nat option" where
  "front_of nx [] = nx"
| "front_of nx ((n, x) # P) = Some n"

definition back_of :: "nat option \<Rightarrow> (nat \<times> 'i) list \<Rightarrow> nat option" where
  "back_of p P = (if P = [] then p else Some (fst (last P)))"

definition node_for :: "('k, 'v) item \<Rightarrow> nat option \<Rightarrow> nat option \<Rightarrow> 'k list_node" where
  "node_for x p nx = \<lparr>ln_key = it_key x, ln_usage = it_usage x, ln_prev = p, ln_next = nx\<rparr>"

fun lseg :: "(nat \<Rightarrow> 'k list_node option) \<Rightarrow> nat option \<Rightarrow> (nat \<times> ('k, 'v) item) list \<Rightarrow> nat option \<Rightarrow> bool" where
  "lseg h p [] nx \<longleftrightarrow> True"
| "lseg h p ((n, x) # P) nx \<longleftrightarrow> h n = Some (node_for x p (front_of nx P)) \<and> lseg h (Some n) P nx"

lemma node_for_simps [simp]:
  "ln_key (node_for x p nx) = it_key x" "ln_usage (node_for x p nx) = it_usage x"
  "ln_prev (node_for x p nx) = p" "ln_next (node_for x p nx) = nx"
  "(node_for x p nx)\<lparr>ln_prev := q\<rparr> = node_for x q nx" "(node_for x p nx)\<lparr>ln_next := q\<rparr> = node_for x p q"
  "(node_for x p nx)\<lparr>ln_usage := u\<rparr> = node_for (x\<lparr>it_usage := u\<rparr>) p nx"
  by (simp_all add: node_for_def)

lemma back_of_simps [simp]: "back_of p [] = p" "back_of p ((n, x) # P) = back_of (Some n) P" "back_of p (P @ [(n, x)]) = Some n"
  by (auto simp: back_of_def)

lemma front_of_append [simp]: "front_of nx (P @ Q) = front_of (front_of nx Q) P"
  by (cases P) auto

lemma back_of_append [simp]: "back_of p (P @ Q) = back_of (back_of p P) Q"
  by (auto simp: back_of_def)

lemma lseg_append: "lseg h p (P @ Q) nx \<longleftrightarrow> lseg h p P (front_of nx Q) \<and> lseg h (back_of p P) Q nx"
  by (induction P arbitrary: p) auto

lemma lseg_other: "n \<notin> fst ` set P \<Longrightarrow> lseg (h(n := y)) p P nx = lseg h p P nx"
  by (induction P arbitrary: p) auto

lemma lseg_mem: "lseg h p P nx \<Longrightarrow> (n, x) \<in> set P \<Longrightarrow> \<exists>q r. h n = Some (node_for x q r)"
proof (induction P arbitrary: p)
  case (Cons a P)
  then show ?case by (cases a) fastforce
qed simp

lemma lseg_cong: "(\<And>m. m \<in> fst ` set P \<Longrightarrow> h' m = h m) \<Longrightarrow> lseg h p P nx \<Longrightarrow> lseg h' p P nx"
  by (induction P arbitrary: p) auto

text \<open>Writing the pointers at both ends of a segment.\<close>

lemma set_opt_front:
  assumes "lseg (lc_heap c) p P nx" "distinct (map fst P)"
  obtains h where "ln_set_opt (front_of None P) (\<lambda>nd. nd\<lparr>ln_prev := q\<rparr>) c = Inr (c\<lparr>lc_heap := h\<rparr>)"
    "lseg h q P nx" "\<forall>m. m \<notin> fst ` set P \<longrightarrow> h m = lc_heap c m" "dom h = dom (lc_heap c)"
proof (cases P)
  case Nil
  then show thesis using that [of "lc_heap c"] by (simp add: ln_set_opt_def)
next
  case (Cons a Q)
  obtain n x where a: "a = (n, x)" by fastforce
  let ?h = "(lc_heap c)(n \<mapsto> node_for x q (front_of nx Q))"
  have "lseg ?h q P nx" using assms Cons a by (auto simp: lseg_other)
  moreover have "ln_set_opt (front_of None P) (\<lambda>nd. nd\<lparr>ln_prev := q\<rparr>) c = Inr (c\<lparr>lc_heap := ?h\<rparr>)"
    using assms(1) Cons a by (simp add: ln_set_opt_def ln_set_def ln_get_def)
  ultimately show thesis using that [of ?h] assms(1) Cons a by auto
qed

lemma set_opt_back:
  assumes "lseg (lc_heap c) p P nx" "distinct (map fst P)"
  obtains h where "ln_set_opt (back_of None P) (\<lambda>nd. nd\<lparr>ln_next := q\<rparr>) c = Inr (c\<lparr>lc_heap := h\<rparr>)"
    "lseg h p P q" "\<forall>m. m \<notin> fst ` set P \<longrightarrow> h m = lc_heap c m" "dom h = dom (lc_heap c)"
proof (cases P rule: rev_cases)
  case Nil
  then show thesis using that [of "lc_heap c"] by (simp add: ln_set_opt_def)
next
  case (snoc Q a)
  obtain n x where a: "a = (n, x)" by fastforce
  let ?h = "(lc_heap c)(n \<mapsto> node_for x (back_of p Q) q)"
  have "lseg ?h p P q" using assms snoc a by (auto simp: lseg_other lseg_append)
  moreover have "ln_set_opt (back_of None P) (\<lambda>nd. nd\<lparr>ln_next := q\<rparr>) c = Inr (c\<lparr>lc_heap := ?h\<rparr>)"
    using assms(1) snoc a by (simp add: ln_set_opt_def ln_set_def ln_get_def lseg_append)
  ultimately show thesis using that [of ?h] assms(1) snoc a by (auto simp: lseg_append)
qed

section \<open>Representation\<close>

definition hv_for :: "nat \<Rightarrow> ('k, 'v) item \<Rightarrow> 'v hash_map_value" where
  "hv_for n x = \<lparr>hv_value = it_value x, hv_node = n, hv_access_count = it_access x, hv_insert_timestamp = it_stamp x\<rparr>"

definition table_of :: "(nat \<times> ('k, 'v) item) list \<Rightarrow> 'k \<Rightarrow> 'v hash_map_value option" where
  "table_of P = map_of (map (\<lambda>(n, x). (it_key x, hv_for n x)) P)"

definition keys :: "(nat \<times> ('k, 'v) item) list \<Rightarrow> 'k list" where
  "keys P = map (\<lambda>(n, x). it_key x) P"

text \<open>The linked list alone, with the nodes \<open>X\<close> that are not part of it.\<close>

definition linked :: "('k, 'v) lru \<Rightarrow> (nat \<times> ('k, 'v) item) list \<Rightarrow> nat set \<Rightarrow> bool" where
  "linked c P X \<longleftrightarrow> lseg (lc_heap c) None P None \<and> distinct (map fst P) \<and> lc_head c = front_of None P \<and>
     lc_tail c = back_of None P \<and> fst ` set P \<inter> X = {} \<and> dom (lc_heap c) = fst ` set P \<union> X \<and>
     (\<forall>n\<in>fst ` set P \<union> X. n < lc_fresh c)"

definition lru_rep :: "('k, 'v) lru \<Rightarrow> (nat \<times> ('k, 'v) item) list \<Rightarrow> nat set \<Rightarrow> ('k, 'v) lru_list \<Rightarrow> bool" where
  "lru_rep c P X a \<longleftrightarrow> linked c P X \<and> distinct (keys P) \<and> lc_map c = table_of P \<and> ll_items a = map snd P \<and>
     lc_count c = ll_count a \<and> lc_usage c = ll_usage a"

lemma linked_irrelevant [simp]:
  "linked (c\<lparr>lc_map := m\<rparr>) P X = linked c P X" "linked (c\<lparr>lc_count := n\<rparr>) P X = linked c P X"
  "linked (c\<lparr>lc_usage := n\<rparr>) P X = linked c P X"
  by (simp_all add: linked_def)

text \<open>The state after \<open>delink_node\<close>: only heap, head and tail have changed.\<close>

definition same_rest :: "('k, 'v) lru \<Rightarrow> ('k, 'v) lru \<Rightarrow> bool" where
  "same_rest c c' \<longleftrightarrow> lc_map c' = lc_map c \<and> lc_count c' = lc_count c \<and> lc_usage c' = lc_usage c \<and>
     lc_limits c' = lc_limits c \<and> lc_fresh c' = lc_fresh c"

lemma delink_ends:
  assumes "lc_heap c n = Some nd"
  shows "delink_node n c =
     (let c1 = c\<lparr>lc_tail := (if lc_tail c = Some n then ln_prev nd else lc_tail c),
                lc_head := (if lc_head c = Some n then ln_next nd else lc_head c)\<rparr> in
     rbind (ln_set_opt (ln_prev nd) (\<lambda>m. m\<lparr>ln_next := ln_next nd\<rparr>) c1) (\<lambda>c.
     rbind (ln_set_opt (ln_next nd) (\<lambda>m. m\<lparr>ln_prev := ln_prev nd\<rparr>) c) (\<lambda>c.
     ln_set n (\<lambda>nd. nd\<lparr>ln_prev := None, ln_next := None\<rparr>) c)))"
  using assms by (cases c) (auto simp: delink_node_def ln_get_def Let_def)

lemma delink_linked:
  assumes l: "linked c (P @ (n, x) # Q) X"
  obtains c' where "delink_node n c = Inr c'" "linked c' (P @ Q) (insert n X)" "lc_heap c' n = Some (node_for x None None)"
    "same_rest c c'" "\<forall>m\<in>X. lc_heap c' m = lc_heap c m"
proof -
  let ?p = "back_of None P" and ?nx = "front_of None Q"
  have s: "lseg (lc_heap c) None P (Some n)" "lc_heap c n = Some (node_for x ?p ?nx)" "lseg (lc_heap c) (Some n) Q None"
    using l by (auto simp: linked_def lseg_append)
  have d: "distinct (map fst P)" "distinct (map fst Q)" "n \<notin> fst ` set P" "n \<notin> fst ` set Q" "fst ` set P \<inter> fst ` set Q = {}"
    using l by (auto simp: linked_def)
  have tail: "lc_tail c = back_of (Some n) Q" and head: "lc_head c = front_of (Some n) P" using l by (simp_all add: linked_def)
  have t1: "(if lc_tail c = Some n then ?p else lc_tail c) = back_of None (P @ Q)"
    using tail d(4) by (cases Q rule: rev_cases) auto
  have h1: "(if lc_head c = Some n then ?nx else lc_head c) = front_of None (P @ Q)"
    using head d(3) by (cases P) auto
  define c1 where "c1 = c\<lparr>lc_tail := back_of None (P @ Q), lc_head := front_of None (P @ Q)\<rparr>"
  have s1: "lseg (lc_heap c1) None P (Some n)" "lseg (lc_heap c1) (Some n) Q None" "lc_heap c1 = lc_heap c"
    using s by (simp_all add: c1_def)
  obtain h where h: "ln_set_opt ?p (\<lambda>nd. nd\<lparr>ln_next := ?nx\<rparr>) c1 = Inr (c1\<lparr>lc_heap := h\<rparr>)" "lseg h None P ?nx"
      "\<forall>m. m \<notin> fst ` set P \<longrightarrow> h m = lc_heap c m" "dom h = dom (lc_heap c)"
    using set_opt_back [OF s1(1) d(1)] s1(3) by metis
  have "lseg (lc_heap (c1\<lparr>lc_heap := h\<rparr>)) (Some n) Q None" using s(3) h(3) d(5) by (intro lseg_cong [OF _ s(3)]) auto
  then obtain h' where h': "ln_set_opt ?nx (\<lambda>nd. nd\<lparr>ln_prev := ?p\<rparr>) (c1\<lparr>lc_heap := h\<rparr>) = Inr (c1\<lparr>lc_heap := h'\<rparr>)" "lseg h' ?p Q None"
      "\<forall>m. m \<notin> fst ` set Q \<longrightarrow> h' m = h m" "dom h' = dom h"
    by (rule set_opt_front [OF _ d(2), where q = ?p]) simp
  have "lseg h' None P ?nx" using h(2) h'(3) d(5) by (intro lseg_cong [OF _ h(2)]) auto
  then have sg: "lseg (h'(n \<mapsto> node_for x None None)) None (P @ Q) None" using h'(2) d(3,4) by (simp add: lseg_append lseg_other)
  let ?c = "c1\<lparr>lc_heap := h'(n \<mapsto> node_for x None None)\<rparr>"
  have hn: "h' n = Some (node_for x ?p ?nx)" using h'(3) h(3) d(3,4) s(2) by simp
  have "delink_node n c = Inr ?c"
    using delink_ends [OF s(2), unfolded node_for_simps t1 h1, folded c1_def] h(1) h'(1) hn
    by (simp add: ln_set_def ln_get_def)
  moreover have "linked ?c (P @ Q) (insert n X)" using l sg h(4) h'(4) d by (auto simp: linked_def c1_def)
  moreover have "lc_heap ?c m = lc_heap c m" if "m \<in> X" for m
  proof -
    have "m \<noteq> n" "m \<notin> fst ` set P" "m \<notin> fst ` set Q" using l that unfolding linked_def by auto
    then show ?thesis using h(3) h'(3) by simp
  qed
  ultimately show thesis using that [of ?c] by (simp add: same_rest_def c1_def)
qed

text \<open>A node that is alone.\<close>

lemma delink_alone:
  assumes "linked c P X" "n \<in> X" "lc_heap c n = Some (node_for x None None)"
  shows "delink_node n c = Inr c"
proof -
  have n: "n \<notin> fst ` set P" using assms(1,2) by (auto simp: linked_def)
  then have "back_of None P \<noteq> Some n" by (cases P rule: rev_cases) auto
  moreover have "front_of None P \<noteq> Some n" using n by (cases P) auto
  moreover have "(lc_heap c)(n \<mapsto> node_for x None None) = lc_heap c" using assms(3) by auto
  ultimately show ?thesis using assms(1,3) delink_ends [OF assms(3)]
    by (cases c) (simp add: linked_def ln_set_opt_def ln_set_def ln_get_def)
qed

lemma push_linked:
  assumes l: "linked c P X" "n \<in> X" "lc_heap c n = Some (node_for x p q)"
  obtains c' where "push_node_to_front n c = Inr c'" "linked c' ((n, x) # P) (X - {n})" "same_rest c c'"
proof -
  have s: "lseg (lc_heap c) None P None" "distinct (map fst P)" "lc_head c = front_of None P" "lc_tail c = back_of None P" "n \<notin> fst ` set P"
    using l(1,2) by (auto simp: linked_def)
  obtain h where h: "ln_set_opt (front_of None P) (\<lambda>nd. nd\<lparr>ln_prev := Some n\<rparr>) c = Inr (c\<lparr>lc_heap := h\<rparr>)" "lseg h (Some n) P None"
      "\<forall>m. m \<notin> fst ` set P \<longrightarrow> h m = lc_heap c m" "dom h = dom (lc_heap c)"
    using set_opt_front [OF s(1,2)] by metis
  have hn: "h n = Some (node_for x p q)" using h(3) s(5) l(3) by simp
  let ?c = "c\<lparr>lc_heap := h(n \<mapsto> node_for x None (front_of None P)), lc_head := Some n, lc_tail := back_of (Some n) P\<rparr>"
  have t: "(if back_of None P = None then Some n else back_of None P) = back_of (Some n) P" by (simp add: back_of_def)
  have "push_node_to_front n c = Inr ?c"
    using h(1) hn s(3,4) t by (cases c) (auto simp: push_node_to_front_def ln_set_def ln_get_def Let_def)
  moreover have "linked ?c ((n, x) # P) (X - {n})" using l(1,2) h(2,4) s(5) by (auto simp: linked_def lseg_other)
  ultimately show thesis using that [of ?c] by (simp add: same_rest_def)
qed

section \<open>The table\<close>

lemma keys_simps [simp]: "keys [] = []" "keys ((n, x) # P) = it_key x # keys P" "keys (P @ Q) = keys P @ keys Q"
  by (simp_all add: keys_def)

lemma keys_items: "keys P = map it_key (map snd P)"
  by (auto simp: keys_def)

lemma keys_split: "k \<in> set (keys P) \<Longrightarrow> \<exists>A n x B. P = A @ (n, x) # B \<and> it_key x = k"
  unfolding keys_def using split_list by fastforce

lemma table_of_simps: "table_of [] = Map.empty" "table_of ((n, x) # P) = (table_of P)(it_key x \<mapsto> hv_for n x)"
  by (simp_all add: table_of_def)

lemma table_of_None: "table_of P k = None \<longleftrightarrow> k \<notin> set (keys P)"
  by (induction P) (auto simp: table_of_simps split: if_splits)

lemma table_of_app: "table_of (P @ Q) k = (case table_of P k of None \<Rightarrow> table_of Q k | Some y \<Rightarrow> Some y)"
  by (induction P) (auto simp: table_of_simps)

lemma table_of_mid:
  assumes "distinct (keys (A @ (n, x) # B))"
  shows "table_of (A @ (n, x) # B) (it_key x) = Some (hv_for n x)"
    "(table_of (A @ (n, x) # B))(it_key x := None) = table_of (A @ B)"
    "table_of (A @ (n, x) # B) = table_of ((n, x) # A @ B)"
    "it_key y = it_key x \<Longrightarrow> (table_of (A @ (n, x) # B))(it_key x \<mapsto> hv_for n y) = table_of (A @ (n, y) # B)"
proof -
  have n: "table_of A (it_key x) = None" "table_of B (it_key x) = None" using assms by (auto simp: table_of_None)
  show "table_of (A @ (n, x) # B) (it_key x) = Some (hv_for n x)"
    "(table_of (A @ (n, x) # B))(it_key x := None) = table_of (A @ B)"
    "table_of (A @ (n, x) # B) = table_of ((n, x) # A @ B)"
    "it_key y = it_key x \<Longrightarrow> (table_of (A @ (n, x) # B))(it_key x \<mapsto> hv_for n y) = table_of (A @ (n, y) # B)"
    using n by (auto simp: fun_eq_iff table_of_app table_of_simps split: option.splits)
qed

lemma lookup_None: "lookup k xs = None \<longleftrightarrow> k \<notin> it_key ` set xs"
  by (auto simp: lookup_def find_None_iff)

lemma lookup_mid: "distinct (keys (A @ (n, x) # B)) \<Longrightarrow> lookup (it_key x) (map snd (A @ (n, x) # B)) = Some x"
  by (induction A) (auto simp: lookup_def)

lemma without_none: "k \<notin> it_key ` set xs \<Longrightarrow> without k xs = xs"
  by (auto simp: without_def filter_id_conv)

lemma without_mid: "distinct (keys (A @ (n, x) # B)) \<Longrightarrow> without (it_key x) (map snd (A @ (n, x) # B)) = map snd (A @ B)"
  using without_none [of "it_key x" "map snd A"] without_none [of "it_key x" "map snd B"]
  by (force simp: without_def keys_def)

lemma rep_lookup:
  assumes "lru_rep c P X a"
  shows "map_option hv_value (lc_map c k) = map_option it_value (lookup k (ll_items a))" "lc_map c k = None \<longleftrightarrow> lookup k (ll_items a) = None"
proof -
  have *: "map_option hv_value (table_of P k) = map_option it_value (lookup k (map snd P))" for P :: "(nat \<times> ('a, 'b) item) list"
    by (induction P) (auto simp: table_of_simps lookup_def hv_for_def)
  show "map_option hv_value (lc_map c k) = map_option it_value (lookup k (ll_items a))" using assms * by (simp add: lru_rep_def)
  then show "lc_map c k = None \<longleftrightarrow> lookup k (ll_items a) = None" by (metis map_option_is_None)
qed

section \<open>The operations implement the list\<close>

lemma evict_rep:
  assumes r: "lru_rep c (A @ (n, x) # B) X a"
  obtains c' where "lru_evict (Some n) c = Inr c'" "lru_rep c' (A @ B) X (list_remove x a)" "\<forall>m\<in>X. lc_heap c' m = lc_heap c m"
    "lc_limits c' = lc_limits c" "lc_fresh c' = lc_fresh c"
proof -
  have l: "linked c (A @ (n, x) # B) X" and d: "distinct (keys (A @ (n, x) # B))" using r by (simp_all add: lru_rep_def)
  have nX: "n \<notin> X" using l by (auto simp: linked_def)
  obtain c1 where c1: "delink_node n c = Inr c1" "linked c1 (A @ B) (insert n X)" "lc_heap c1 n = Some (node_for x None None)"
      "same_rest c c1" "\<forall>m\<in>X. lc_heap c1 m = lc_heap c m"
    by (rule delink_linked [OF l])
  let ?c = "c1\<lparr>lc_count := lc_count c1 - 1, lc_usage := lc_usage c1 - it_usage x, lc_map := (lc_map c1)(it_key x := None),
               lc_heap := (lc_heap c1)(n := None)\<rparr>"
  have "lru_evict (Some n) c = Inr ?c" using c1(1,3) by (simp add: lru_evict_def ln_get_def)
  moreover have "linked ?c (A @ B) X" using c1(2) nX by (auto simp: linked_def lseg_other)
  then have "lru_rep ?c (A @ B) X (list_remove x a)"
    using r d c1(4) table_of_mid(2) [OF d] without_mid [OF d] by (simp add: lru_rep_def same_rest_def list_remove_def)
  ultimately show thesis using that [of ?c] c1(4,5) nX by (auto simp: same_rest_def)
qed

lemma trim_rep:
  assumes r: "lru_rep c P X a"
  obtains c' P' where "evict_if_needed c = Inr c'" "lru_rep c' P' X (list_trim (lc_limits c) a)" "\<forall>m\<in>X. lc_heap c' m = lc_heap c m"
    "lc_limits c' = lc_limits c" "lc_fresh c' = lc_fresh c" "P' = P \<or> (\<exists>p. P = P' @ [p])"
proof (cases "need_to_evict (lc_limits c) (lc_count c) (lc_usage c) \<and> P \<noteq> []")
  case True
  then obtain A n x where P: "P = A @ [(n, x)]" by (metis rev_exhaust surj_pair)
  have t: "lc_tail c = Some n" using r P by (simp add: lru_rep_def linked_def)
  have e: "list_trim (lc_limits c) a = list_remove x a" using True r P by (simp add: list_trim_def lru_rep_def)
  have "lru_rep c (A @ (n, x) # []) X a" using r P by simp
  then obtain c' where "lru_evict (Some n) c = Inr c'" "lru_rep c' (A @ []) X (list_remove x a)" "\<forall>m\<in>X. lc_heap c' m = lc_heap c m"
      "lc_limits c' = lc_limits c" "lc_fresh c' = lc_fresh c"
    by (rule evict_rep)
  then show thesis using that [of c' A] P t e True by (simp add: evict_if_needed_def)
next
  case False
  then have "list_trim (lc_limits c) a = a" "evict_if_needed c = Inr c"
    using r by (auto simp: list_trim_def lru_rep_def evict_if_needed_def linked_def lru_evict_def)
  then show thesis using that [of c P] r by simp
qed

lemma linked_replace:
  assumes "linked c (A @ (n, x) # B) X" "lc_heap c n = Some (node_for x p q)"
  shows "linked (c\<lparr>lc_heap := (lc_heap c)(n \<mapsto> node_for y p q)\<rparr>) (A @ (n, y) # B) X"
proof -
  have "n \<notin> fst ` set A" "n \<notin> fst ` set B" using assms(1) by (auto simp: linked_def)
  moreover have "p = back_of None A" "q = front_of None B" using assms by (auto simp: linked_def lseg_append node_for_def)
  ultimately show ?thesis using assms by (auto simp: linked_def lseg_append lseg_other)
qed

lemma rep_mid_node:
  assumes "lru_rep c (A @ (n, x) # B) X a"
  obtains p q where "lc_heap c n = Some (node_for x p q)"
  using assms by (auto simp: lru_rep_def linked_def lseg_append)

text \<open>\<open>delink_node\<close> and \<open>push_node_to_front\<close> in a row.\<close>

lemma move_front:
  assumes "linked c (A @ (n, x) # B) {}"
  obtains c' where "find_front n c = Inr c'" "linked c' ((n, x) # A @ B) {}" "same_rest c c'"
proof -
  obtain c1 where c1: "delink_node n c = Inr c1" "linked c1 (A @ B) (insert n {})" "lc_heap c1 n = Some (node_for x None None)"
      "same_rest c c1" "\<forall>m\<in>{}. lc_heap c1 m = lc_heap c m"
    by (rule delink_linked [OF assms])
  obtain c2 where c2: "push_node_to_front n c1 = Inr c2" "linked c2 ((n, x) # A @ B) (insert n {} - {n})" "same_rest c1 c2"
    by (rule push_linked [OF c1(2) _ c1(3)]) simp_all
  show thesis using that [of c2] c1(1,4) c2 by (simp add: find_front_def same_rest_def)
qed

lemma insert_link_rep:
  assumes f: "find_front n c = Inr c1" and l: "linked c1 ((n, x) # Q) {}" and s: "same_rest c c1"
    and k: "it_key x \<notin> set (keys Q)" "distinct (keys Q)" "lc_map c = table_of ((n, x) # Q)"
    and a: "without (it_key x) (ll_items a) = map snd Q" "lc_count c = ll_count a" "lc_usage c = ll_usage a"
  shows "\<exists>c' P'. insert_link n c = Inr c' \<and> lru_rep c' P' {} (list_trim (lc_limits c) (list_put x a)) \<and> lc_limits c' = lc_limits c"
proof -
  let ?c = "c1\<lparr>lc_count := lc_count c1 + 1, lc_usage := lc_usage c1 + it_usage x\<rparr>"
  have r: "lru_rep ?c ((n, x) # Q) {} (list_put x a)" using l s k a by (simp add: lru_rep_def same_rest_def list_put_def)
  have "\<exists>nd. lc_heap c1 n = Some nd \<and> ln_usage nd = it_usage x" using l by (auto simp: linked_def)
  then have "insert_link n c = evict_if_needed ?c" using f by (auto simp: insert_link_def find_front_def ln_get_def prpc_simps)
  moreover have "lc_limits ?c = lc_limits c" using s by (simp add: same_rest_def)
  ultimately show ?thesis using trim_rep [OF r] by metis
qed

lemma insert_new_rep:
  assumes r: "lru_rep c P {} a" and k: "lc_map c k = None"
    and x_def: "x = \<lparr>it_key = k, it_value = v, it_usage = f v, it_access = 0, it_stamp = now\<rparr>"
  shows "\<exists>c' P'. lru_insert f now k v c = Inr c' \<and>
     lru_rep c' P' {} (list_trim (lc_limits c) (list_put x (list_trim (lc_limits c) a))) \<and> lc_limits c' = lc_limits c"
proof -
  define c1 where "c1 = snd (new_list_node k c)"
  let ?n = "lc_fresh c" and ?a1 = "list_trim (lc_limits c) a"
  have "?n \<notin> fst ` set P" using r by (auto simp: lru_rep_def linked_def)
  then have r1: "lru_rep c1 P {?n} a" using r by (auto simp: c1_def lru_rep_def linked_def new_list_node_def lseg_other less_Suc_eq)
  obtain c2 P2 where c2: "evict_if_needed c1 = Inr c2" "lru_rep c2 P2 {?n} (list_trim (lc_limits c1) a)"
      "\<forall>m\<in>{?n}. lc_heap c2 m = lc_heap c1 m" "lc_limits c2 = lc_limits c1" "lc_fresh c2 = lc_fresh c1" "P2 = P \<or> (\<exists>p. P = P2 @ [p])"
    by (rule trim_rep [OF r1])
  have l: "lc_limits c1 = lc_limits c" and hn: "lc_heap c2 ?n = Some \<lparr>ln_key = k, ln_usage = 0, ln_prev = None, ln_next = None\<rparr>"
    using c2(3) by (simp_all add: c1_def new_list_node_def)
  have kP: "k \<notin> set (keys P2)" using k r c2(6) by (auto simp: lru_rep_def table_of_None)
  define c3 where "c3 = c2\<lparr>lc_heap := (lc_heap c2)(?n \<mapsto> node_for x None None), lc_map := (lc_map c2)(k \<mapsto> hv_for ?n x)\<rparr>"
  have l3: "linked c3 P2 {?n}" "lc_heap c3 ?n = Some (node_for x None None)"
    using c2(2) by (auto simp: c3_def lru_rep_def linked_def lseg_other)
  obtain c4 where c4: "push_node_to_front ?n c3 = Inr c4" "linked c4 ((?n, x) # P2) ({?n} - {?n})" "same_rest c3 c4"
    by (rule push_linked [OF l3(1) _ l3(2)]) simp_all
  have "find_front ?n c3 = Inr c4" using delink_alone [OF l3(1) _ l3(2)] c4(1) by (simp add: find_front_def)
  moreover have "k \<notin> it_key ` set (ll_items ?a1)" using kP c2(2) l by (auto simp: lru_rep_def keys_def)
  ultimately have "\<exists>c' P'. insert_link ?n c3 = Inr c' \<and> lru_rep c' P' {} (list_trim (lc_limits c3) (list_put x ?a1)) \<and>
      lc_limits c' = lc_limits c3"
    using c2(2) c4 kP l by (intro insert_link_rep [of ?n c3 c4 x P2]) (simp_all add: lru_rep_def c3_def x_def without_none table_of_simps)
  moreover have "lc_limits c3 = lc_limits c" using c2(4) l by (simp add: c3_def)
  moreover have "lru_insert f now k v c = insert_link ?n c3"
  proof -
    have "lc_map c2 k = None" using c2(2) kP by (simp add: lru_rep_def table_of_None)
    moreover have "new_list_node k c = (?n, c1)" by (simp add: c1_def new_list_node_def)
    ultimately show ?thesis using k c2(1) hn
      by (simp add: lru_insert_def insert_value_def ln_set_def ln_get_def map_emplace_def c3_def x_def node_for_def hv_for_def)
  qed
  ultimately show ?thesis by simp
qed

lemma insert_kept_rep:
  assumes r: "lru_rep c (A @ (n, x) # B) {} a" and k: "it_key x = k"
  shows "\<exists>c' P'. insert_value f now k v n c = Inr c' \<and>
     lru_rep c' P' {} (list_trim (lc_limits c) (list_put (x\<lparr>it_usage := f v\<rparr>) a)) \<and> lc_limits c' = lc_limits c"
proof -
  let ?x = "x\<lparr>it_usage := f v\<rparr>"
  obtain p q where pq: "lc_heap c n = Some (node_for x p q)" by (rule rep_mid_node [OF r])
  define c1 where "c1 = c\<lparr>lc_heap := (lc_heap c)(n \<mapsto> node_for ?x p q)\<rparr>"
  have l1: "linked c1 (A @ (n, ?x) # B) {}" unfolding c1_def using r pq by (intro linked_replace) (simp_all add: lru_rep_def)
  obtain c2 where c2: "find_front n c1 = Inr c2" "linked c2 ((n, ?x) # A @ B) {}" "same_rest c1 c2"
    by (rule move_front [OF l1])
  have d: "distinct (keys (A @ (n, x) # B))" using r by (simp add: lru_rep_def)
  have m: "lc_map c = table_of ((n, ?x) # A @ B)" "lc_map c k = Some (hv_for n x)"
    using r table_of_mid(1,3) [OF d] k by (simp_all add: lru_rep_def table_of_simps hv_for_def)
  have "insert_value f now k v n c = insert_link n c1"
    using pq m(2) by (cases c) (simp add: insert_value_def ln_set_def ln_get_def map_emplace_def c1_def)
  moreover have "\<exists>c' P'. insert_link n c1 = Inr c' \<and> lru_rep c' P' {} (list_trim (lc_limits c1) (list_put ?x a)) \<and>
      lc_limits c' = lc_limits c1"
    using r d m(1) without_mid [OF d] c2 k
    by (intro insert_link_rep [of n c1 c2 ?x "A @ B"]) (simp_all add: lru_rep_def c1_def)
  ultimately show ?thesis by (simp add: c1_def)
qed

lemma insert_old_rep:
  assumes r: "lru_rep c P {} a" and k: "lookup k (ll_items a) = Some x" and a1: "a1 = list_trim (lc_limits c) a"
  shows "if lookup k (ll_items a1) = None then lru_insert f now k v c = Inl Out_of_bounds
     else \<exists>c' P'. lru_insert f now k v c = Inr c' \<and>
       lru_rep c' P' {} (list_trim (lc_limits c) (list_put (x\<lparr>it_usage := f v\<rparr>) a1)) \<and> lc_limits c' = lc_limits c"
proof -
  have "k \<in> set (keys P)" using r k lookup_None [of k "ll_items a"] by (auto simp: lru_rep_def keys_items)
  then obtain A n y B where P: "P = A @ (n, y) # B" "it_key y = k" using keys_split by metis
  have dP: "distinct (keys P)" "distinct (map fst P)" using r by (simp_all add: lru_rep_def linked_def)
  have yx: "y = x" using lookup_mid [of A n y B] dP(1) P k r by (simp add: lru_rep_def)
  have hv: "lc_map c k = Some (hv_for n x)" using r table_of_mid(1) [of A n y B] dP P yx by (simp add: lru_rep_def)
  obtain c2 P2 where c2: "evict_if_needed c = Inr c2" "lru_rep c2 P2 {} a1"
      "\<forall>m\<in>{}. lc_heap c2 m = lc_heap c m" "lc_limits c2 = lc_limits c" "lc_fresh c2 = lc_fresh c" "P2 = P \<or> (\<exists>p. P = P2 @ [p])"
    unfolding a1 by (rule trim_rep [OF r])
  have ins: "lru_insert f now k v c = insert_value f now k v n c2" using hv c2(1) by (simp add: lru_insert_def hv_for_def)
  show ?thesis
  proof (cases "P = P2 @ [(n, x)]")
    case True
    then have "n \<notin> fst ` set P2" "k \<notin> set (keys P2)" using dP P(2) yx by auto
    then have "lc_heap c2 n = None" "lookup k (ll_items a1) = None"
      using c2(2) by (auto simp: lru_rep_def linked_def lookup_None keys_items domIff [symmetric])
    then show ?thesis using ins by (simp add: insert_value_def ln_set_def ln_get_def)
  next
    case False
    then obtain B2 where P2: "P2 = A @ (n, x) # B2" using c2(6) P(1) yx by (cases B rule: rev_cases) auto
    have r2: "lru_rep c2 (A @ (n, x) # B2) {} a1" using c2(2) P2 by simp
    then have "lookup k (ll_items a1) \<noteq> None" using lookup_mid [of A n x B2] P(2) yx by (simp add: lru_rep_def)
    then show ?thesis using insert_kept_rep [OF r2, of k f now v] ins c2(4) P(2) yx by auto
  qed
qed

lemma lru_insert_rep:
  assumes r: "lru_rep c P {} a"
  shows "case list_insert (lc_limits c) f now k v a of Inl e \<Rightarrow> lru_insert f now k v c = Inl e
     | Inr a' \<Rightarrow> \<exists>c' P'. lru_insert f now k v c = Inr c' \<and> lru_rep c' P' {} a' \<and> lc_limits c' = lc_limits c"
proof (cases "lookup k (ll_items a)")
  case None
  then show ?thesis using insert_new_rep [OF r] rep_lookup(2) [OF r] by (simp add: list_insert_def)
next
  case (Some x)
  then show ?thesis using insert_old_rep [OF r Some refl, of f now v] by (simp add: list_insert_def Let_def split: if_splits)
qed

lemma rep_found:
  assumes r: "lru_rep c P X a" and hv: "lc_map c k = Some hv"
  shows "\<exists>A n x B. P = A @ (n, x) # B \<and> it_key x = k \<and> hv = hv_for n x \<and> lookup k (ll_items a) = Some x"
proof -
  have "k \<in> set (keys P)" using r hv table_of_None [of P k] by (auto simp: lru_rep_def)
  then obtain A n x B where P: "P = A @ (n, x) # B" "it_key x = k" using keys_split by metis
  have "distinct (keys P)" using r by (simp add: lru_rep_def)
  then have "hv = hv_for n x" "lookup k (ll_items a) = Some x"
    using r hv table_of_mid(1) [of A n x B] lookup_mid [of A n x B] P by (simp_all add: lru_rep_def)
  then show ?thesis using P by blast
qed

lemma replace_items:
  assumes "distinct (keys (A @ (n, x) # B))"
  shows "map (\<lambda>y. if it_key y = it_key x then x' else y) (map snd (A @ (n, x) # B)) = map snd (A @ (n, x') # B)"
proof -
  have "k \<notin> set (keys P) \<Longrightarrow> map (\<lambda>y. if it_key y = k then x' else y) (map snd P) = map snd P" for k and P :: "(nat \<times> ('a, 'b) item) list"
    by (force simp: keys_def)
  from this [of "it_key x" A] this [of "it_key x" B] show ?thesis using assms by simp
qed

lemma shared_rep:
  assumes r: "lru_rep c (A @ (n, x) # B) {} a" and k: "it_key x = k"
    and x1: "x1 = x\<lparr>it_access := it_access x + 1\<rparr>"
  shows "\<exists>c1. find_shared now k c = (Some (it_value x),
       if item_outdated (lc_limits c) now (it_access x1) (it_stamp x1) then Find_evict k else Find_front n, c1) \<and>
     lru_rep c1 (A @ (n, x1) # B) {} (a\<lparr>ll_items := map snd (A @ (n, x1) # B)\<rparr>) \<and> lc_limits c1 = lc_limits c"
proof -
  let ?c = "c\<lparr>lc_map := (lc_map c)(k \<mapsto> hv_for n x1)\<rparr>"
  have d: "distinct (keys (A @ (n, x) # B))" using r by (simp add: lru_rep_def)
  obtain p q where pq: "lc_heap c n = Some (node_for x p q)" by (rule rep_mid_node [OF r])
  have "(lc_heap c)(n \<mapsto> node_for x1 p q) = lc_heap c" using pq x1 by (auto simp: node_for_def)
  then have "linked c (A @ (n, x1) # B) {}"
    using linked_replace [OF _ pq, of A B "{}" x1] r by (cases c) (simp add: lru_rep_def)
  moreover have "it_key x1 = it_key x" using x1 by simp
  ultimately have "lru_rep ?c (A @ (n, x1) # B) {} (a\<lparr>ll_items := map snd (A @ (n, x1) # B)\<rparr>)"
    using r d table_of_mid(4) [OF d, of x1] k by (simp add: lru_rep_def)
  moreover have "lc_map c k = Some (hv_for n x)" using r table_of_mid(1) [OF d] k by (simp add: lru_rep_def)
  ultimately show ?thesis using x1 by (simp add: find_shared_def hv_for_def Let_def)
qed

lemma find_evict_rep:
  assumes r: "lru_rep c (A @ (n, x) # B) {} a" and k: "it_key x = k"
  shows "\<exists>c' P'. find_evict now k c = Inr c' \<and> lc_limits c' = lc_limits c \<and>
     lru_rep c' P' {} (if item_outdated (lc_limits c) now (it_access x) (it_stamp x) then list_remove x a else a)"
proof -
  have d: "distinct (keys (A @ (n, x) # B))" using r by (simp add: lru_rep_def)
  have "lc_map c k = Some (hv_for n x)" using r table_of_mid(1) [OF d] k by (simp add: lru_rep_def)
  moreover obtain c' where "lru_evict (Some n) c = Inr c'" "lru_rep c' (A @ B) {} (list_remove x a)"
      "\<forall>m\<in>{}. lc_heap c' m = lc_heap c m" "lc_limits c' = lc_limits c" "lc_fresh c' = lc_fresh c"
    by (rule evict_rep [OF r])
  ultimately show ?thesis using r by (auto simp: find_evict_def hv_for_def)
qed

lemma find_front_rep:
  assumes r: "lru_rep c (A @ (n, x) # B) {} a"
  shows "\<exists>c'. find_front n c = Inr c' \<and> lc_limits c' = lc_limits c \<and>
     lru_rep c' ((n, x) # A @ B) {} (a\<lparr>ll_items := map snd ((n, x) # A @ B)\<rparr>)"
proof -
  have l: "linked c (A @ (n, x) # B) {}" and d: "distinct (keys (A @ (n, x) # B))" using r by (simp_all add: lru_rep_def)
  obtain c' where "find_front n c = Inr c'" "linked c' ((n, x) # A @ B) {}" "same_rest c c'" by (rule move_front [OF l])
  then show ?thesis using r d table_of_mid(3) [OF d] by (auto simp: lru_rep_def same_rest_def)
qed

lemma lru_find_rep:
  assumes r: "lru_rep c P {} a"
  shows "\<exists>c' P'. lru_find now now' up k c = Inr (fst (list_find (lc_limits c) now now' up k a), c') \<and>
     lru_rep c' P' {} (snd (list_find (lc_limits c) now now' up k a)) \<and> lc_limits c' = lc_limits c"
proof (cases "lc_map c k")
  case None
  then have "lookup k (ll_items a) = None" using rep_lookup(2) [OF r] by simp
  then show ?thesis using None r by (auto simp: lru_find_def find_shared_def find_finish_def list_find_def)
next
  case (Some hv)
  obtain A n x B where P: "P = A @ (n, x) # B" "it_key x = k" and lk: "lookup k (ll_items a) = Some x"
    using rep_found [OF r Some] by blast
  define x1 where "x1 = x\<lparr>it_access := it_access x + 1\<rparr>"
  let ?o = "\<lambda>t. item_outdated (lc_limits c) t (it_access x1) (it_stamp x1)"
  let ?a = "a\<lparr>ll_items := map snd (A @ (n, x1) # B)\<rparr>"
  have d: "distinct (keys (A @ (n, x) # B))" and it: "ll_items a = map snd (A @ (n, x) # B)" using r P(1) by (simp_all add: lru_rep_def)
  obtain c1 where c1: "find_shared now k c = (Some (it_value x), if ?o now then Find_evict k else Find_front n, c1)"
      "lru_rep c1 (A @ (n, x1) # B) {} ?a" "lc_limits c1 = lc_limits c"
    using shared_rep [OF r [unfolded P(1)] P(2) x1_def] by blast
  have k1: "it_key x1 = k" "it_usage x1 = it_usage x" using P(2) by (simp_all add: x1_def)
  have d1: "distinct (keys (A @ (n, x1) # B))" using c1(2) by (simp add: lru_rep_def)
  have w: "without k (map snd (A @ (n, x) # B)) = map snd (A @ B)" "without k (map snd (A @ (n, x1) # B)) = map snd (A @ B)"
    using without_mid [OF d] without_mid [OF d1] P(2) k1 by simp_all
  have lf: "list_find (lc_limits c) now now' up k a = (Some (it_value x),
      if ?o now then if ?o now' then list_remove x1 ?a else ?a else if up then ?a\<lparr>ll_items := map snd ((n, x1) # A @ B)\<rparr> else ?a)"
    using lk w it replace_items [OF d, of x1] P(2) k1(1) by (simp add: list_find_def Let_def x1_def [symmetric] list_remove_def) (simp add: x1_def)
  show ?thesis
    using find_evict_rep [OF c1(2) k1(1), of now'] find_front_rep [OF c1(2)] c1 unfolding lf
    by (fastforce simp: lru_find_def find_finish_def)
qed

lemma delete_nodes_seg:
  "lseg (lc_heap c) p P None \<Longrightarrow> distinct (map fst P) \<Longrightarrow> length P \<le> f \<Longrightarrow>
   delete_nodes f (front_of None P) c = Some (Inr (c\<lparr>lc_heap := (\<lambda>n. if n \<in> fst ` set P then None else lc_heap c n)\<rparr>))"
proof (induction P arbitrary: c p f)
  case (Cons a P)
  obtain n x where a: "a = (n, x)" by fastforce
  obtain f' where f: "f = Suc f'" using Cons.prems(3) by (cases f) auto
  let ?c = "c\<lparr>lc_heap := (lc_heap c)(n := None)\<rparr>"
  have n: "lc_heap c n = Some (node_for x p (front_of None P))" "lseg (lc_heap c) (Some n) P None" "n \<notin> fst ` set P"
    using Cons.prems a by auto
  have "lseg (lc_heap ?c) (Some n) P None" using n(2,3) by (simp add: lseg_other)
  then have "delete_nodes f' (front_of None P) ?c = Some (Inr (?c\<lparr>lc_heap := (\<lambda>m. if m \<in> fst ` set P then None else lc_heap ?c m)\<rparr>))"
    using Cons.prems(2,3) f by (intro Cons.IH [of ?c "Some n"]) (simp_all del: fun_upd_apply)
  moreover have "(\<lambda>m. if m \<in> fst ` set P then None else lc_heap ?c m) = (\<lambda>m. if m \<in> fst ` set (a # P) then None else lc_heap c m)"
    using a by auto
  ultimately show ?case using n(1) f a by (simp add: ln_get_def)
qed simp

lemma rep_length:
  assumes "lru_rep c P {} a"
  shows "card (dom (lc_heap c)) = length (ll_items a)" "length P \<le> lc_fresh c" "card (dom (lc_map c)) = length (ll_items a)"
proof -
  have d: "distinct (map fst P)" "dom (lc_heap c) = set (map fst P)" "fst ` set P \<subseteq> {..<lc_fresh c}"
    using assms by (auto simp: lru_rep_def linked_def)
  then have "card (fst ` set P) = length P" using distinct_card [OF d(1)] by simp
  then show "card (dom (lc_heap c)) = length (ll_items a)" "length P \<le> lc_fresh c"
    using d(2) card_mono [OF _ d(3)] assms by (simp_all add: lru_rep_def)
  have "dom (table_of P) = set (keys P)" using table_of_None [of P] by (metis domIff subsetI subset_antisym)
  then show "card (dom (lc_map c)) = length (ll_items a)"
    using assms distinct_card [of "keys P"] by (simp add: lru_rep_def keys_items)
qed

lemma clear_rep:
  assumes r: "lru_rep c P {} a"
  shows "\<exists>c'. lru_clear c = Some (Inr c') \<and> lru_rep c' [] {} list_new \<and> lc_limits c' = lc_limits c"
proof -
  let ?c = "c\<lparr>lc_map := (\<lambda>_. None)\<rparr>"
  have l: "lseg (lc_heap ?c) None P None" "distinct (map fst P)" "lc_head c = front_of None P" "dom (lc_heap c) = fst ` set P"
    using r by (simp_all add: lru_rep_def linked_def)
  have e: "(\<lambda>n. if n \<in> fst ` set P then None else lc_heap ?c n) = Map.empty"
  proof
    show "(if n \<in> fst ` set P then None else lc_heap ?c n) = None" for n
      by (cases "n \<in> fst ` set P") (auto simp: l(4) [symmetric])
  qed
  have "lru_clear c = Some (Inr (?c\<lparr>lc_heap := Map.empty, lc_usage := 0, lc_count := 0, lc_head := None, lc_tail := None\<rparr>))"
    using delete_nodes_seg [OF l(1,2) rep_length(2) [OF r], unfolded e] l(3) by (simp add: lru_clear_def)
  then show ?thesis by (simp add: lru_rep_def linked_def list_new_def table_of_simps)
qed

section \<open>Sequences of calls\<close>

datatype ('k, 'v) lru_call =
    Call_insert "64 word" 'k 'v | Call_find "64 word" "64 word" bool 'k | Call_clear | Call_item_count | Call_item_memory_usage

datatype 'v lru_answer = Done | Found "'v option" | Size "64 word"

definition lru_exec :: "('v \<Rightarrow> 64 word) \<Rightarrow> ('k, 'v) lru_call \<Rightarrow> ('k, 'v) lru \<Rightarrow> ('v lru_answer \<times> ('k, 'v) lru) res option" where
  "lru_exec f call c = (case call of
     Call_insert now k v \<Rightarrow> Some (rbind (lru_insert f now k v c) (\<lambda>c. Inr (Done, c)))
   | Call_find now now' up k \<Rightarrow> Some (rbind (lru_find now now' up k c) (\<lambda>(v, c). Inr (Found v, c)))
   | Call_clear \<Rightarrow> map_option (\<lambda>r. rbind r (\<lambda>c. Inr (Done, c))) (lru_clear c)
   | Call_item_count \<Rightarrow> Some (Inr (Size (lc_count c), c))
   | Call_item_memory_usage \<Rightarrow> Some (Inr (Size (lc_usage c), c)))"

fun lru_run :: "('v \<Rightarrow> 64 word) \<Rightarrow> ('k, 'v) lru_call list \<Rightarrow> ('k, 'v) lru \<Rightarrow> ('v lru_answer list \<times> ('k, 'v) lru) res option" where
  "lru_run f [] c = Some (Inr ([], c))"
| "lru_run f (call # calls) c = (case lru_exec f call c of None \<Rightarrow> None | Some (Inl e) \<Rightarrow> Some (Inl e)
     | Some (Inr (r, c)) \<Rightarrow> map_option (\<lambda>t. rbind t (\<lambda>(rs, c). Inr (r # rs, c))) (lru_run f calls c))"

definition list_exec :: "lru_limits \<Rightarrow> ('v \<Rightarrow> 64 word) \<Rightarrow> ('k, 'v) lru_call \<Rightarrow> ('k, 'v) lru_list \<Rightarrow> ('v lru_answer \<times> ('k, 'v) lru_list) res" where
  "list_exec l f call a = (case call of
     Call_insert now k v \<Rightarrow> rbind (list_insert l f now k v a) (\<lambda>a. Inr (Done, a))
   | Call_find now now' up k \<Rightarrow> (case list_find l now now' up k a of (v, a) \<Rightarrow> Inr (Found v, a))
   | Call_clear \<Rightarrow> Inr (Done, list_new)
   | Call_item_count \<Rightarrow> Inr (Size (ll_count a), a)
   | Call_item_memory_usage \<Rightarrow> Inr (Size (ll_usage a), a))"

fun list_run :: "lru_limits \<Rightarrow> ('v \<Rightarrow> 64 word) \<Rightarrow> ('k, 'v) lru_call list \<Rightarrow> ('k, 'v) lru_list \<Rightarrow> ('v lru_answer list \<times> ('k, 'v) lru_list) res" where
  "list_run l f [] a = Inr ([], a)"
| "list_run l f (call # calls) a =
     rbind (list_exec l f call a) (\<lambda>(r, a). rbind (list_run l f calls a) (\<lambda>(rs, a). Inr (r # rs, a)))"

lemma lru_exec_rep:
  assumes r: "lru_rep c P {} a"
  shows "case list_exec (lc_limits c) f call a of Inl e \<Rightarrow> lru_exec f call c = Some (Inl e)
     | Inr (x, a') \<Rightarrow> \<exists>c' P'. lru_exec f call c = Some (Inr (x, c')) \<and> lru_rep c' P' {} a' \<and> lc_limits c' = lc_limits c"
proof (cases call)
  case (Call_insert now k v)
  then show ?thesis using lru_insert_rep [OF r, of f now k v] by (auto simp: list_exec_def lru_exec_def split: sum.splits)
next
  case (Call_find now now' up k)
  then show ?thesis using lru_find_rep [OF r, of now now' up k] by (auto simp: list_exec_def lru_exec_def split: prod.splits)
next
  case Call_clear
  then show ?thesis using clear_rep [OF r] by (auto simp: list_exec_def lru_exec_def)
qed (use r in \<open>auto simp: list_exec_def lru_exec_def lru_rep_def\<close>)

lemma lru_run_rep:
  "lru_rep c P {} a \<Longrightarrow> (case list_run (lc_limits c) f calls a of Inl e \<Rightarrow> lru_run f calls c = Some (Inl e)
     | Inr (xs, a') \<Rightarrow> \<exists>c' P'. lru_run f calls c = Some (Inr (xs, c')) \<and> lru_rep c' P' {} a' \<and> lc_limits c' = lc_limits c)"
proof (induction calls arbitrary: c P a)
  case (Cons call calls)
  show ?case
  proof (cases "list_exec (lc_limits c) f call a")
    case (Inl e)
    then show ?thesis using lru_exec_rep [OF Cons.prems, of f call] by simp
  next
    case (Inr y)
    obtain x a1 where y: "y = (x, a1)" by fastforce
    obtain c1 P1 where c1: "lru_exec f call c = Some (Inr (x, c1))" "lru_rep c1 P1 {} a1" "lc_limits c1 = lc_limits c"
      using lru_exec_rep [OF Cons.prems, of f call] Inr y by auto
    show ?thesis using Cons.IH [OF c1(2)] c1 Inr y by (auto split: sum.splits)
  qed
qed auto

lemma lru_new_rep: "lru_rep (lru_new l) [] {} list_new"
  by (simp add: lru_rep_def linked_def lru_new_def list_new_def table_of_simps)

section \<open>Counters\<close>

text \<open>Every insertion is of a key that is not there.\<close>

fun absent_inserts :: "('v \<Rightarrow> 64 word) \<Rightarrow> ('k, 'v) lru_call list \<Rightarrow> ('k, 'v) lru \<Rightarrow> bool" where
  "absent_inserts f [] c \<longleftrightarrow> True"
| "absent_inserts f (call # calls) c \<longleftrightarrow> (case call of Call_insert now k v \<Rightarrow> lc_map c k = None | _ \<Rightarrow> True) \<and>
     (case lru_exec f call c of Some (Inr (r, c)) \<Rightarrow> absent_inserts f calls c | _ \<Rightarrow> True)"

definition counted :: "('k, 'v) lru_list \<Rightarrow> bool" where
  "counted a \<longleftrightarrow> distinct (map it_key (ll_items a)) \<and> ll_count a = of_nat (length (ll_items a)) \<and>
     ll_usage a = sum_list (map it_usage (ll_items a))"

definition within :: "lru_limits \<Rightarrow> ('k, 'v) lru_list \<Rightarrow> bool" where
  "within l a \<longleftrightarrow> (max_item_count l \<noteq> 0 \<and> max_item_count l \<noteq> -1 \<longrightarrow> length (ll_items a) \<le> unat (max_item_count l))"

lemma counted_remove:
  assumes "counted a" "ll_items a = xs @ y # ys" "it_key x = it_key y" "it_usage x = it_usage y"
  shows "counted (list_remove x a)" "length (ll_items (list_remove x a)) = length xs + length ys"
proof -
  have "without (it_key x) (ll_items a) = xs @ ys"
    using assms(1-3) without_none [of "it_key y" xs] without_none [of "it_key y" ys] by (simp add: without_def counted_def)
  then show "counted (list_remove x a)" "length (ll_items (list_remove x a)) = length xs + length ys"
    using assms by (auto simp: counted_def list_remove_def)
qed

lemma counted_trim:
  assumes "counted a"
  shows "counted (list_trim l a)" "length (ll_items (list_trim l a)) \<le> length (ll_items a)"
    "k \<notin> it_key ` set (ll_items a) \<Longrightarrow> k \<notin> it_key ` set (ll_items (list_trim l a))"
proof -
  have "counted (list_trim l a) \<and> length (ll_items (list_trim l a)) \<le> length (ll_items a)"
  proof (cases "ll_items a" rule: rev_cases)
    case (snoc xs x)
    then show ?thesis using counted_remove [OF assms, of xs x "[]" x] assms by (simp add: list_trim_def)
  qed (use assms in \<open>simp add: list_trim_def\<close>)
  then show "counted (list_trim l a)" "length (ll_items (list_trim l a)) \<le> length (ll_items a)" by auto
  show "k \<notin> it_key ` set (ll_items a) \<Longrightarrow> k \<notin> it_key ` set (ll_items (list_trim l a))"
    by (auto simp: list_trim_def list_remove_def without_def)
qed

lemma counted_put:
  assumes "counted a" "it_key x \<notin> it_key ` set (ll_items a)"
  shows "counted (list_put x a)" "ll_items (list_put x a) = x # ll_items a"
  using assms without_none [OF assms(2)] by (auto simp: counted_def list_put_def add.commute)

lemma unat_below_max:
  assumes "(m :: 64 word) \<noteq> -1"
  shows "Suc (unat m) < 2 ^ 64"
proof (rule ccontr)
  assume "\<not> Suc (unat m) < 2 ^ 64"
  moreover have "unat m < 2 ^ LENGTH(64)" by (rule unsigned_less)
  ultimately have "unat m = 2 ^ 64 - 1" by simp
  then have "m = of_nat (2 ^ 64 - 1)" by (metis word_nat_cases of_nat_unat ucast_id)
  then show False using assms by simp
qed

lemma within_trim:
  assumes "counted a" "length (ll_items a) \<le> Suc (unat (max_item_count l))"
  shows "within l (list_trim l a)"
proof (cases "length (ll_items a) = Suc (unat (max_item_count l)) \<and> max_item_count l \<noteq> 0 \<and> max_item_count l \<noteq> -1")
  case True
  then have "Suc (unat (max_item_count l)) < 2 ^ 64" using unat_below_max by blast
  then have "unat (of_nat (Suc (unat (max_item_count l))) :: 64 word) = Suc (unat (max_item_count l))"
    by (simp only: unsigned_of_nat take_bit_nat_eq_self) (simp add: take_bit_nat_eq_self)
  moreover have "ll_count a = of_nat (Suc (unat (max_item_count l)))" using True assms(1) by (metis counted_def)
  ultimately have "unat (ll_count a) = Suc (unat (max_item_count l))" by metis
  then have "ll_count a > max_item_count l" by (simp add: word_less_nat_alt)
  moreover obtain xs x where xs: "ll_items a = xs @ [x]" using True by (cases "ll_items a" rule: rev_cases) auto
  ultimately have "list_trim l a = list_remove x a" using True by (simp add: list_trim_def need_to_evict_def)
  then show ?thesis using counted_remove(2) [OF assms(1), of xs x "[]" x] xs True by (simp add: within_def)
next
  case False
  then show ?thesis using assms counted_trim(2) [OF assms(1), of l] by (auto simp: within_def)
qed

lemma counted_insert:
  assumes "counted a" "within l a" "lookup k (ll_items a) = None"
  shows "\<exists>a'. list_insert l f now k v a = Inr a' \<and> counted a' \<and> within l a'"
proof -
  let ?x = "\<lparr>it_key = k, it_value = v, it_usage = f v, it_access = 0, it_stamp = now\<rparr>" and ?a = "list_trim l a"
  have k: "it_key ?x \<notin> it_key ` set (ll_items ?a)" using counted_trim(3) [OF assms(1)] assms(3) by (simp add: lookup_None)
  note p = counted_put [OF counted_trim(1) [OF assms(1)] k]
  have "within l (list_trim l (list_put ?x ?a))"
  proof (cases "max_item_count l \<noteq> 0 \<and> max_item_count l \<noteq> -1")
    case True
    then show ?thesis using p counted_trim(2) [OF assms(1), of l] assms(2) by (intro within_trim) (auto simp: within_def)
  next
    case False
    then show ?thesis unfolding within_def by blast
  qed
  then show ?thesis using counted_trim(1) [OF p(1), of l] assms(3) by (simp add: list_insert_def)
qed

lemma counted_find:
  assumes "counted a" "within l a"
  shows "counted (snd (list_find l now now' up k a)) \<and> within l (snd (list_find l now now' up k a))"
proof (cases "lookup k (ll_items a)")
  case (Some x)
  then obtain xs ys where xs: "ll_items a = xs @ x # ys" "it_key x = k"
    unfolding lookup_def by (auto simp: find_Some_iff in_set_conv_decomp dest!: nth_mem)
  define x1 where "x1 = x\<lparr>it_access := it_access x + 1\<rparr>"
  have x1: "it_key x1 = k" "it_usage x1 = it_usage x" using xs by (simp_all add: x1_def)
  have nk: "k \<notin> it_key ` set xs" "k \<notin> it_key ` set ys" using assms(1) xs by (auto simp: counted_def)
  have id: "k \<notin> it_key ` set zs \<Longrightarrow> map (\<lambda>y. if it_key y = k then x1 else y) zs = zs" for zs
    by (rule map_idI) auto
  have rd: "map (\<lambda>y. if it_key y = k then x1 else y) (ll_items a) = xs @ x1 # ys"
    using xs id [OF nk(1)] id [OF nk(2)] by simp
  have w: "without k (ll_items a) = xs @ ys" using xs without_none [OF nk(1)] without_none [OF nk(2)] by (simp add: without_def)
  have "counted (a\<lparr>ll_items := xs @ x1 # ys\<rparr>) \<and> within l (a\<lparr>ll_items := xs @ x1 # ys\<rparr>)"
    "counted (a\<lparr>ll_items := x1 # xs @ ys\<rparr>) \<and> within l (a\<lparr>ll_items := x1 # xs @ ys\<rparr>)"
    using assms xs x1 by (auto simp: counted_def within_def)
  moreover have "counted (list_remove x1 a) \<and> within l (list_remove x1 a)"
    using counted_remove [OF assms(1) xs(1), of x1] x1 xs assms(2) by (auto simp: within_def)
  ultimately show ?thesis using Some rd w by (simp add: list_find_def Let_def x1_def [symmetric])
qed (use assms in \<open>simp add: list_find_def\<close>)

lemma counted_run:
  "lru_rep c P {} a \<Longrightarrow> counted a \<Longrightarrow> within (lc_limits c) a \<Longrightarrow> absent_inserts f calls c \<Longrightarrow>
   \<exists>xs c' P' a'. lru_run f calls c = Some (Inr (xs, c')) \<and> lru_rep c' P' {} a' \<and> counted a' \<and> within (lc_limits c) a'"
proof (induction calls arbitrary: c P a)
  case (Cons call calls)
  have "\<exists>x a1. list_exec (lc_limits c) f call a = Inr (x, a1) \<and> counted a1 \<and> within (lc_limits c) a1"
  proof (cases call)
    case (Call_insert now k v)
    then have "lookup k (ll_items a) = None" using Cons.prems(4) rep_lookup(2) [OF Cons.prems(1)] by simp
    then show ?thesis using counted_insert [OF Cons.prems(2,3), of k f now v] Call_insert by (auto simp: list_exec_def)
  next
    case (Call_find now now' up k)
    then show ?thesis using counted_find [OF Cons.prems(2,3), of now now' up k] by (auto simp: list_exec_def split: prod.splits)
  qed (use Cons.prems(2,3) in \<open>auto simp: list_exec_def list_new_def counted_def within_def\<close>)
  then obtain x a1 where a1: "list_exec (lc_limits c) f call a = Inr (x, a1)" "counted a1" "within (lc_limits c) a1" by blast
  obtain c1 P1 where c1: "lru_exec f call c = Some (Inr (x, c1))" "lru_rep c1 P1 {} a1" "lc_limits c1 = lc_limits c"
    using lru_exec_rep [OF Cons.prems(1), of f call] a1(1) by auto
  show ?case using Cons.IH [OF c1(2) a1(2)] a1(3) c1 Cons.prems(4) by fastforce
qed auto

section \<open>Calls of find at the same time\<close>

text \<open>
  What is left of the calls in progress; \<open>Find_done\<close> is a thread that is not in a call. A section under the exclusive lock
  runs when no other thread is between its shared section and the return, except threads that wait for an upgrade;
  \<open>try_upgrade\<close> succeeds only when there is no other reader at all, and \<open>insert\<close> and \<open>clear\<close> wait for all of them.
\<close>

type_synonym ('k, 'v) lru_sys = "('k, 'v) lru \<times> 'k find_rest list"

definition upgrade_granted :: "'k find_rest list \<Rightarrow> bool" where
  "upgrade_granted ts \<longleftrightarrow> (\<forall>t\<in>set ts. case t of Find_front n \<Rightarrow> False | _ \<Rightarrow> True)"

definition no_reader :: "'k find_rest list \<Rightarrow> bool" where
  "no_reader ts \<longleftrightarrow> (\<forall>t\<in>set ts. case t of Find_done \<Rightarrow> True | _ \<Rightarrow> False)"

inductive lru_step :: "('v \<Rightarrow> 64 word) \<Rightarrow> ('k, 'v) lru_sys \<Rightarrow> ('k, 'v) lru_sys \<Rightarrow> bool" for f where
  shared: "i < length ts \<Longrightarrow> ts ! i = Find_done \<Longrightarrow> find_shared now k c = (v, r, c') \<Longrightarrow> lru_step f (c, ts) (c', ts[i := r])"
| evict: "i < length ts \<Longrightarrow> ts ! i = Find_evict k \<Longrightarrow> upgrade_granted ts \<Longrightarrow> find_evict now k c = Inr c' \<Longrightarrow>
    lru_step f (c, ts) (c', ts[i := Find_done])"
| front: "i < length ts \<Longrightarrow> ts ! i = Find_front n \<Longrightarrow> no_reader (ts[i := Find_done]) \<Longrightarrow> find_front n c = Inr c' \<Longrightarrow>
    lru_step f (c, ts) (c', ts[i := Find_done])"
| give_up: "i < length ts \<Longrightarrow> ts ! i = Find_front n \<Longrightarrow> lru_step f (c, ts) (c, ts[i := Find_done])"
| insertion: "no_reader ts \<Longrightarrow> lru_insert f now k v c = Inr c' \<Longrightarrow> lru_step f (c, ts) (c', ts)"
| clearing: "no_reader ts \<Longrightarrow> lru_clear c = Some (Inr c') \<Longrightarrow> lru_step f (c, ts) (c', ts)"

definition lru_start :: "lru_limits \<Rightarrow> ('k, 'v) lru_sys \<Rightarrow> bool" where
  "lru_start l s \<longleftrightarrow> fst s = lru_new l \<and> no_reader (snd s)"

definition lru_inv :: "('k, 'v) lru_sys \<Rightarrow> bool" where
  "lru_inv s \<longleftrightarrow> (\<exists>P a. lru_rep (fst s) P {} a \<and> (\<forall>n. Find_front n \<in> set (snd s) \<longrightarrow> n \<in> fst ` set P))"

lemma find_evict_total:
  assumes "lru_rep c P {} a"
  shows "\<exists>c' P' a'. find_evict now k c = Inr c' \<and> lru_rep c' P' {} a'"
proof (cases "lc_map c k")
  case None
  then show ?thesis using assms by (auto simp: find_evict_def)
next
  case (Some hv)
  then obtain A n x B where "P = A @ (n, x) # B" "it_key x = k" using rep_found [OF assms] by blast
  then show ?thesis using find_evict_rep [of c A n x B a k now] assms by blast
qed

lemma find_front_total:
  assumes "lru_rep c P {} a" "n \<in> fst ` set P"
  shows "\<exists>c' P' a'. find_front n c = Inr c' \<and> lru_rep c' P' {} a'"
proof -
  obtain x where "(n, x) \<in> set P" using assms(2) by auto
  then obtain A B where "P = A @ (n, x) # B" by (meson split_list)
  then show ?thesis using find_front_rep [of c A n x B a] assms(1) by blast
qed

lemma find_shared_total:
  assumes r: "lru_rep c P {} a" and f: "find_shared now k c = (v, t, c')"
  shows "\<exists>P' a'. lru_rep c' P' {} a' \<and> fst ` set P' = fst ` set P \<and> (\<forall>n. t = Find_front n \<longrightarrow> n \<in> fst ` set P)"
proof (cases "lc_map c k")
  case None
  then show ?thesis using r f by (auto simp: find_shared_def)
next
  case (Some hv)
  then obtain A n x B where P: "P = A @ (n, x) # B" "it_key x = k" using rep_found [OF r] by blast
  show ?thesis using shared_rep [OF r [unfolded P(1)] P(2) refl, of now] f P(1) by (fastforce split: if_splits)
qed

lemma no_reader_front: "no_reader ts \<Longrightarrow> Find_front n \<notin> set ts"
  by (auto simp: no_reader_def)

lemma upgrade_granted_front: "upgrade_granted ts \<Longrightarrow> Find_front n \<notin> set ts"
  by (auto simp: upgrade_granted_def)

lemma front_update: "Find_front n \<in> set (ts[i := t]) \<Longrightarrow> t = Find_front n \<or> Find_front n \<in> set ts"
  by (metis in_set_conv_nth length_list_update nth_list_update_eq nth_list_update_neq)

lemma lru_inv_step:
  assumes "lru_inv s" "lru_step f s s'"
  shows "lru_inv s'"
  using assms(2,1)
proof cases
  case (shared i ts now k c v r c')
  obtain P a where P: "lru_rep c P {} a" "\<forall>n. Find_front n \<in> set ts \<longrightarrow> n \<in> fst ` set P"
    using assms(1) shared(1) by (auto simp: lru_inv_def)
  obtain P' a' where "lru_rep c' P' {} a'" "fst ` set P' = fst ` set P" "\<forall>n. r = Find_front n \<longrightarrow> n \<in> fst ` set P"
    using find_shared_total [OF P(1) shared(5)] by blast
  then show ?thesis using P(2) front_update shared(2) unfolding lru_inv_def by (metis fst_conv snd_conv)
next
  case (evict i ts k now c c')
  obtain P a where "lru_rep c P {} a" using assms(1) evict(1) by (auto simp: lru_inv_def)
  then obtain P' a' where "lru_rep c' P' {} a'" using find_evict_total [of c P a now k] evict(6) by auto
  then show ?thesis using front_update [of _ ts i Find_done] upgrade_granted_front [OF evict(5)] evict(2) unfolding lru_inv_def by auto
next
  case (front i ts n c c')
  obtain P a where "lru_rep c P {} a" "n \<in> fst ` set P" using assms(1) front(1,3,4) nth_mem by (fastforce simp: lru_inv_def)
  then obtain P' a' where "lru_rep c' P' {} a'" using find_front_total [of c P a n] front(6) by auto
  then show ?thesis using no_reader_front [OF front(5)] front(2) unfolding lru_inv_def by auto
next
  case (give_up i ts n c)
  then show ?thesis using assms(1) front_update [of _ ts i Find_done] unfolding lru_inv_def by fastforce
next
  case (insertion ts now k v c c')
  obtain P a where r: "lru_rep c P {} a" using assms(1) insertion(1) by (auto simp: lru_inv_def)
  have "\<exists>P' a'. lru_rep c' P' {} a'"
    using lru_insert_rep [OF r, of f now k v] insertion(4) by (auto split: sum.splits)
  then show ?thesis using no_reader_front [OF insertion(3)] insertion(2) unfolding lru_inv_def by auto
next
  case (clearing ts c c')
  obtain P a where r: "lru_rep c P {} a" using assms(1) clearing(1) by (auto simp: lru_inv_def)
  then have "\<exists>P' a'. lru_rep c' P' {} a'" using clear_rep [OF r] clearing(4) by auto
  then show ?thesis using no_reader_front [OF clearing(3)] clearing(2) unfolding lru_inv_def by auto
qed

lemma lru_inv_start: "lru_start l s \<Longrightarrow> lru_inv s"
  using lru_new_rep [of l] no_reader_front unfolding lru_start_def lru_inv_def by metis

interpretation lru: inductive_invariant "lru_start l" "lru_step f" lru_inv
  by unfold_locales (erule lru_inv_start, erule lru_inv_step)

section \<open>Insertion of a key that is there\<close>

lemma lookup_without: "lookup k (without j xs) = (if j = k then None else lookup k xs)"
  by (induction xs) (auto simp: lookup_def without_def)

lemma lookup_trim: "lookup k (ll_items (list_trim l a)) =
    (if need_to_evict l (ll_count a) (ll_usage a) \<and> ll_items a \<noteq> [] \<and> it_key (last (ll_items a)) = k then None else lookup k (ll_items a))"
  by (auto simp: list_trim_def list_remove_def lookup_without)

lemma rep_tail:
  assumes "lru_rep c (A @ (n, x) # B) X a"
  shows "lc_tail c = Some n \<longleftrightarrow> it_key (last (ll_items a)) = it_key x"
proof (cases B rule: rev_cases)
  case (snoc C p)
  obtain m y where "p = (m, y)" by fastforce
  then show ?thesis using assms snoc by (auto simp: lru_rep_def linked_def)
qed (use assms in \<open>auto simp: lru_rep_def linked_def\<close>)

lemma reinsert_rep:
  assumes r: "lru_rep c P {} a" and hv: "lc_map c k = Some hv"
  shows "if need_to_evict (lc_limits c) (lc_count c) (lc_usage c) \<and> lc_tail c = Some (hv_node hv)
     then lru_insert f now k v c = Inl Out_of_bounds
     else \<exists>c'. lru_insert f now k v c = Inr c' \<and> (\<forall>hv'. lc_map c' k = Some hv' \<longrightarrow> hv_value hv' = hv_value hv)"
proof -
  obtain A n x B where P: "P = A @ (n, x) # B" "it_key x = k" "hv = hv_for n x" and lk: "lookup k (ll_items a) = Some x"
    using rep_found [OF r hv] by blast
  define a1 where "a1 = list_trim (lc_limits c) a"
  have ne: "ll_items a \<noteq> []" using lk by (auto simp: lookup_def)
  have c: "lookup k (ll_items a1) = None \<longleftrightarrow> need_to_evict (lc_limits c) (lc_count c) (lc_usage c) \<and> lc_tail c = Some (hv_node hv)"
    using rep_tail [OF r [unfolded P(1)]] P(2,3) lk ne r by (auto simp: a1_def lookup_trim lru_rep_def hv_for_def)
  show ?thesis
  proof (cases "lookup k (ll_items a1) = None")
    case True
    then show ?thesis using c insert_old_rep [OF r lk a1_def, of f now v] by simp
  next
    case False
    let ?x = "x\<lparr>it_usage := f v\<rparr>"
    obtain c' P' where c': "lru_insert f now k v c = Inr c'" "lru_rep c' P' {} (list_trim (lc_limits c) (list_put ?x a1))"
      using insert_old_rep [OF r lk a1_def, of f now v] False by auto
    have "lookup k (ll_items (list_put ?x a1)) = Some ?x" using P(2) by (simp add: list_put_def lookup_def)
    then have "map_option hv_value (lc_map c' k) \<in> {None, Some (it_value x)}"
      using rep_lookup(1) [OF c'(2), of k] by (simp add: lookup_trim split: if_splits)
    then show ?thesis using c c'(1) False P(3) by (auto simp: hv_for_def)
  qed
qed

section \<open>Properties\<close>

text \<open>C18. Any sequence of calls answers what the list of entries in the order of their use answers, with the two counters
  of the cache; both fail in the same calls. After the calls there is exactly one node for each entry, the hash map has the
  entries of the list, and \<open>clear\<close> returned.\<close>

theorem lru_refines_list:
  fixes calls :: "('k, 'v) lru_call list"
  shows "case list_run l f calls list_new of
     Inl e \<Rightarrow> lru_run f calls (lru_new l) = Some (Inl e)
   | Inr (rs, a) \<Rightarrow> \<exists>c. lru_run f calls (lru_new l) = Some (Inr (rs, c)) \<and> card (dom (lc_heap c)) = length (ll_items a) \<and>
       (\<forall>k. map_option hv_value (lc_map c k) = map_option it_value (lookup k (ll_items a)))"
proof -
  have l: "lc_limits (lru_new l :: ('k, 'v) lru) = l" by (simp add: lru_new_def)
  show ?thesis using lru_run_rep [OF lru_new_rep [of l], of f calls] rep_length(1) rep_lookup(1) unfolding l
    by (fastforce split: sum.splits prod.splits)
qed

text \<open>As long as no key is inserted that is already there, no call touches a deleted node, \<open>item_count\<close> is the number of
  entries and, when a maximum is set, at most the maximum.\<close>

theorem lru_counts_exact:
  assumes "absent_inserts f calls (lru_new l)"
  shows "\<exists>rs c. lru_run f calls (lru_new l) = Some (Inr (rs, c)) \<and> lc_count c = of_nat (card (dom (lc_map c))) \<and>
     (max_item_count l \<noteq> 0 \<and> max_item_count l \<noteq> -1 \<longrightarrow> card (dom (lc_map c)) \<le> unat (max_item_count l))"
proof -
  have "counted list_new" "within (lc_limits (lru_new l)) list_new" by (simp_all add: counted_def within_def list_new_def)
  then obtain rs c P a where r: "lru_run f calls (lru_new l) = Some (Inr (rs, c))" "lru_rep c P {} a" "counted a" "within l a"
    using counted_run [OF lru_new_rep _ _ assms] by (auto simp: lru_new_def)
  then have "lc_count c = of_nat (card (dom (lc_map c)))" using rep_length(3) [OF r(2)] by (simp add: lru_rep_def counted_def)
  then show ?thesis using r(1,4) rep_length(3) [OF r(2)] by (auto simp: within_def)
qed

theorem lru_counts_exact_witness:
  "\<exists>rs (c :: (nat, nat) lru). lru_run (\<lambda>_. 8) [Call_insert 0 1 10, Call_insert 0 2 20, Call_find 0 0 True 1, Call_insert 0 3 30]
     (lru_new (lru_count_only 2)) = Some (Inr (rs, c)) \<and> card (dom (lc_map c)) \<le> 2"
proof -
  let ?calls = "[Call_insert 0 1 10, Call_insert 0 2 20, Call_find 0 0 True 1, Call_insert 0 3 30] :: (nat, nat) lru_call list"
  have "absent_inserts (\<lambda>_. 8) ?calls (lru_new (lru_count_only 2))" by code_simp
  from lru_counts_exact [OF this] show ?thesis by (auto simp: lru_count_only_def)
qed

text \<open>C39. A second insertion of a key: when a limit is exceeded and the entry is the one to be evicted, its node is deleted and
  then written to; in all other cases the entry keeps its old value.\<close>

theorem lru_reinsert:
  assumes "lru_run f calls (lru_new l) = Some (Inr (rs, c))" and hv: "lc_map c k = Some hv"
  shows "if need_to_evict l (lc_count c) (lc_usage c) \<and> lc_tail c = Some (hv_node hv)
     then lru_insert f now k v c = Inl Out_of_bounds
     else \<exists>c'. lru_insert f now k v c = Inr c' \<and> (\<forall>hv'. lc_map c' k = Some hv' \<longrightarrow> hv_value hv' = hv_value hv)"
proof -
  have l: "lc_limits (lru_new l) = l" by (simp add: lru_new_def)
  obtain P a where "lru_rep c P {} a" "lc_limits c = l"
    using lru_run_rep [OF lru_new_rep [of l], of f calls] assms(1) unfolding l by (auto split: sum.splits)
  then show ?thesis using reinsert_rep [of c P a k hv f now v] hv by simp
qed


theorem lru_reinsert_witness:
  "\<exists>rs (c :: (nat, nat) lru). lru_run of_nat [Call_insert 0 1 1, Call_insert 0 2 1, Call_insert 0 3 30]
     (lru_new (lru_count_only 0\<lparr>max_item_memory_usage := 10\<rparr>)) = Some (Inr (rs, c)) \<and> lru_insert of_nat 0 2 1 c = Inl Out_of_bounds"
proof -
  let ?l = "lru_count_only 0\<lparr>max_item_memory_usage := 10\<rparr>"
  let ?run = "lru_run of_nat [Call_insert 0 1 1, Call_insert 0 2 1, Call_insert 0 3 30] (lru_new ?l) :: (nat lru_answer list \<times> (nat, nat) lru) res option"
  have "case ?run of Some (Inr (rs, c)) \<Rightarrow> (case lc_map c 2 of Some hv \<Rightarrow>
      need_to_evict ?l (lc_count c) (lc_usage c) \<and> lc_tail c = Some (hv_node hv) | None \<Rightarrow> False) | _ \<Rightarrow> False"
    by code_simp
  then obtain rs c hv where c: "?run = Some (Inr (rs, c))" "lc_map c 2 = Some hv"
      "need_to_evict ?l (lc_count c) (lc_usage c) \<and> lc_tail c = Some (hv_node hv)"
    by (auto split: option.splits sum.splits)
  have "lru_insert of_nat 0 2 1 c = Inl Out_of_bounds" using lru_reinsert [OF c(1,2), of 0 1] c(3) by (simp only: if_True)
  then show ?thesis using c(1) by blast
qed

text \<open>C40. With any number of threads in \<open>find\<close> at the same time, and insertions and \<open>clear\<close> in between, the part of \<open>find\<close>
  after the shared section never touches a node that another thread has deleted.\<close>

theorem lru_find_safe:
  assumes "reach (lru_start l) (lru_step f) (c, ts)" "i < length ts"
  shows "case ts ! i of Find_done \<Rightarrow> True | Find_evict k \<Rightarrow> \<exists>c'. find_evict now k c = Inr c' | Find_front n \<Rightarrow> \<exists>c'. find_front n c = Inr c'"
proof -
  obtain P a where r: "lru_rep c P {} a" "\<forall>n. Find_front n \<in> set ts \<longrightarrow> n \<in> fst ` set P"
    using lru.inv_reach [OF assms(1)] by (auto simp: lru_inv_def)
  show ?thesis using find_evict_total [OF r(1)] find_front_total [OF r(1)] r(2) nth_mem [OF assms(2)]
    by (fastforce split: find_rest.splits)
qed

theorem lru_find_safe_witness:
  "\<exists>(c :: (nat, nat) lru) n c'. reach (lru_start (lru_count_only 2)) (lru_step (\<lambda>_. 8)) (c, [Find_front n]) \<and> find_front n c = Inr c'"
proof -
  let ?c = "lru_new (lru_count_only 2) :: (nat, nat) lru" and ?r = "reach (lru_start (lru_count_only 2)) (lru_step (\<lambda>_. 8))"
  have "?r (?c, [Find_done])" by (rule reach_init) (simp add: lru_start_def no_reader_def)
  note start = this
  have "case lru_insert (\<lambda>_. 8) 0 1 10 ?c of Inr c \<Rightarrow> (case find_shared 0 1 c of (v, Find_front n, c') \<Rightarrow> True | _ \<Rightarrow> False) | Inl _ \<Rightarrow> False"
    by code_simp
  then obtain c v n c' where c: "lru_insert (\<lambda>_. 8) 0 1 10 ?c = Inr c" "find_shared 0 1 c = (v, Find_front n, c')"
    by (auto split: sum.splits prod.splits find_rest.splits)
  have s: "lru_step (\<lambda>_. 8) (?c, [Find_done]) (c, [Find_done])" by (rule insertion [OF _ c(1)]) (simp add: no_reader_def)
  have s': "lru_step (\<lambda>_. 8) (c, [Find_done]) (c', [Find_done][0 := Find_front n])" by (rule shared [OF _ _ c(2)]) simp_all
  have "?r (c, [Find_done])" using start s by (rule reach_step)
  then have "?r (c', [Find_done][0 := Find_front n])" using s' by (rule reach_step)
  then show ?thesis using lru_find_safe [of "lru_count_only 2" "\<lambda>_. 8" c' "[Find_front n]" 0] by auto
qed

end
