(* ===== verification/Spec2Isabelle.thy ===== *)
theory Spec2Isabelle
  imports Prpc_Prelude Codec Rw_Spin_Lock Mpsc_Queue Spsc_Queue Rpc_Channel Memory_Archive Serialization Master_Tree Lazy_Archive Rpc_Message Tcp_Socket Send_Queue Fair_Queue Rpc_Context Rpc_Dealer Front_End Lexical_Cast Async_Watcher Master_Names Master_Client Master_Lock Master_Wait Float_Round Hash_Table Table_Archive Pool_Hash_Table Pool_Invariant Pool_Insert Pool_Rehash Pool_Map Pool_Spec Lru_Cache
begin

text \<open>
  Verification of \<open>prpc\<close>, a C++ RPC framework: nodes find each other through a master, open connections, and exchange
  requests and responses between dealers. File names below are relative to \<open>src/\<close>.

  \<^bold>\<open>The program.\<close> A node has an \<open>RpcService\<close>. It registers itself and its servers at the master through a
  \<open>MasterClient\<close> and watches the master for changes, with which it updates the tables of its \<open>RpcContext\<close>: the connections
  (\<open>FrontEnd\<close>) by rank, and the servers by service and id. A \<open>Dealer\<close> of a client sends a request; the context chooses the
  connection, the front end queues it, and the socket writes the frames of the message, whose values are serialized into a
  \<open>MemoryArchive\<close> and into lazy blocks. The receiving node reads the frames and hands the request to the \<open>FairQueue\<close> of the
  service, which gives it to the \<open>RpcChannel\<close> of a dealer. The response takes the same way back to the dealer whose id the
  request carries.

  \<^bold>\<open>The theories\<close>, from the bottom up.

  \<^item> \<open>Prpc_Prelude\<close>: faults and results (\<open>SCHECK\<close>, reads out of range, overflow of \<open>int\<close>), reachable states, the locale
    \<open>inductive_invariant\<close>, little-endian bytes, counting of threads.
  \<^item> \<open>Codec\<close> (\<open>codec/Base64.h\<close>, \<open>codec/URICode.h\<close>): encoders and decoders; decoding is the inverse of encoding.
  \<^item> \<open>Lexical_Cast\<close> (\<open>common/pico_lexical_cast.h\<close>): casts of strings to integers, with the blanks that \<open>strtol\<close> skips; round trip with printing, equivalence with
    a reference grammar for 64 bits, and what the narrower casts do with numbers that do not fit.
  \<^item> \<open>Rw_Spin_Lock\<close> (\<open>thread/SpinLock.h\<close>): the spin locks at the grain of their atomic accesses; mutual exclusion.
  \<^item> \<open>Mpsc_Queue\<close> (\<open>thread/MpscQueue.h\<close>): nodes on a heap, any number of producers and one consumer; first in first out.
    The locale \<open>fifo_queue\<close> is what the clients of the queue use.
  \<^item> \<open>Spsc_Queue\<close> (\<open>thread/SpscQueue.h\<close>): the queue for one producer and one consumer that uses its nodes again; also a
    \<open>fifo_queue\<close>. First in first out, no node is written to while the consumer is at it, and no more nodes than needed.
  \<^item> \<open>Rpc_Channel\<close> (\<open>thread/RpcChannel.h\<close>): the blocking channel on top of it; order, no lost wake-up, and a race of the
    call with a time limit.
  \<^item> \<open>Async_Watcher\<close> (\<open>thread/AsyncWatcher.h\<close>): waiting for a condition; no notification is lost.
  \<^item> \<open>Memory_Archive\<close>, \<open>Serialization\<close> (\<open>rpc/Archive.h\<close>): the buffer with its cursor and end, and the binary format of
    numbers, strings, vectors, maps, pairs, tuples and so on. The locale \<open>archivable\<close> says what a serializer and its
    deserializer owe each other; it is interpreted for every format.
  \<^item> \<open>Lazy_Archive\<close> (\<open>rpc/LazyArchive.h\<close>): values that are serialized when the message is sent, and blocks that travel
    beside the message. The locales \<open>lazy_archivable\<close> and \<open>lazy_universe\<close>.
  \<^item> \<open>Rpc_Message\<close> (\<open>rpc/RpcMessage.h\<close>): heads, requests, responses, and the frames of a message; sums of sizes wrap at
    64 bits as in the source, and a message that is sent has fewer than \<open>2 ^ 62\<close> bytes.
  \<^item> \<open>Tcp_Socket\<close>, \<open>Send_Queue\<close> (\<open>rpc/TcpSocket.cpp\<close>, \<open>rpc/RpcSocket.cpp\<close>): writing and reading frames over sockets that
    take and give any number of bytes at a time, with the function that gets each message as an argument; the loop over
    the received bytes returns whatever a peer sends; the combining queue of the senders.
  \<^item> \<open>Fair_Queue\<close>, \<open>Rpc_Context\<close> (\<open>rpc/RpcContext.cpp\<close>): the queue of a service and the tables of a node. The answers of
    \<open>epoll_ctl\<close> follow from the descriptors that the sockets have; the magic number of a peer and the descriptor of an
    event are arguments.
  \<^item> \<open>Rpc_Dealer\<close> (\<open>rpc/Dealer.cpp\<close>, \<open>rpc/RpcServer.cpp\<close>, \<open>rpc/RpcClient.cpp\<close>, \<open>rpc/RpcService.cpp\<close>): dealers, servers
    and clients of a node, and every sequence of operations, messages and updates a node can see, with all answers of the
    master; exactly when an operation aborts the process.
  \<^item> \<open>Front_End\<close> (\<open>rpc/FrontEnd.cpp\<close>): sending, reconnecting and broken connections, any number of threads. The results
    hold as long as no call starts between the last two accesses of \<open>epipe\<close>; what happens to a call that does is shown too.
  \<^item> \<open>Master_Tree\<close> (\<open>rpc/Master.cpp\<close>): the tree of named nodes, watchers, and the nodes that go with a connection.
  \<^item> \<open>Master_Names\<close>: the specification of the master as a flat map, and the proof that the tree implements it.
  \<^item> \<open>Master_Client\<close> (\<open>rpc/MasterClient.cpp\<close>, \<open>rpc/TcpMasterClient.cpp\<close>): every operation of the client as a program of
    calls, run against the master or its specification; the table of watchers.
  \<^item> \<open>Master_Lock\<close>: clients that run at the same time; locks and generated ids. \<open>Master_Wait\<close>: clients that wait for a lock
    sleep until the master tells them of a change; one of them always goes on.
  \<^item> \<open>Float_Round\<close>: \<open>float\<close> and \<open>double\<close> as rational numbers with rounding to the nearest; monotone, exact on small integers.
  \<^item> \<open>Hash_Table\<close> (\<open>misc/HashTable.h\<close>): the hash table that grows one bucket at a time while it moves the old buckets. It
    implements a finite map, iteration visits every key once, the load is bounded.
  \<^item> \<open>Table_Archive\<close> (\<open>rpc/Archive.h\<close>): serialization of a hash table; round trip.
  \<^item> \<open>Pool_Hash_Table\<close> (\<open>misc/PoolHashTable.h\<close>): the hash table with all nodes in one block of memory. \<open>Pool_Invariant\<close> has its
    representation and lookup, \<open>Pool_Insert\<close> the insertion, \<open>Pool_Rehash\<close> both ways of rehashing, \<open>Pool_Map\<close> the choice of sizes,
    removal and iterators, and \<open>Pool_Spec\<close> the proof that it implements a finite map and may be erased from while iterating.
  \<^item> \<open>Lru_Cache\<close> (\<open>misc/LRUCache.h\<close>): hash map and doubly linked list with limits; it implements a list in the order of
    use. What goes wrong when a key is inserted again, and that calls of \<open>find\<close> at the same time are safe.
  \<^item> This theory: a server that is registered at the master is reachable from the other nodes.

  \<^bold>\<open>How the code is modelled.\<close> A class is a record, its methods are functions from the state to the new state; a failed
  check is a value of \<open>fault\<close>. Integers have the width of the source where it matters. Concurrent code is a step relation
  whose steps are the accesses to shared memory, sequentially consistent; the memory orders of the source are not
  modelled. Times, random numbers, the results of system calls and the addresses of allocated memory are arguments or
  choices of the step relation.

  \<^bold>\<open>What is shown.\<close> Safety: which conditions on the callers, the master, the peers and the kernel keep a node from aborting,
  and that they are the only ones; tables agree over every history of a node, and no check of the master fails; mutual
  exclusion of the locks in memory and at the master; order and integrity of what queues, channels, sockets and front ends
  carry. Liveness: what was accepted is delivered or handed back, no thread waits for ever while it could go on. Round
  trips: serialization, lazy archives, packets, codecs, casts, registration and lookup. Refinement: routing tables, the
  master, serialization, both hash tables, the cache. Several theorems show what goes wrong: they are listed with the findings of the manifest.

  \<^bold>\<open>Bounds and fuel.\<close> \<open>tree_clear_path\<close> has fuel; two more than the number of nodes of the tree is shown to be enough. The
  destructor of \<open>MpscQueue\<close> has fuel for its walk; the one of \<open>SpscQueue\<close> and \<open>clear\<close> of the cache have one step for each node
  that was ever allocated, which is shown to be enough. Loops over the links of a \<open>PoolHashTable\<close> have one step more than there are
  nodes, the passes of a rehash two steps per node and two more, and the search for a number of buckets ten steps per item
  and two more; the refinement of a map shows that none of them runs out. \<open>parse_loop\<close> and \<open>gen_id\<close> are partial: not returning is \<open>None\<close>, and the
  theorems say when. Bounds on counters (\<open>2 ^ 31\<close> dealers, keys of ten digits, \<open>2 ^ 64\<close> notifications) are hypotheses or
  cases of the theorems.

  \<^bold>\<open>Not modelled.\<close> Code that only calls the operating system or a library: sockets and polling threads themselves,
  \<open>rpc/RdmaSocket.cpp\<close> and \<open>rpc/RdmaContext.h\<close> (ibverbs), \<open>rpc/ZkMasterClient.cpp\<close> (ZooKeeper), \<open>rpc/fetch_ip.cpp\<close>,
  \<open>rpc/masterd.cc\<close>, the mapping of memory and the file serializer of \<open>misc/PoolHashTable.h\<close>, files, shell, HTTP, compression, logging and the memory allocator. \<open>addition/PicoJsonNode.h\<close> is a copy
  of a third-party JSON library; where the code uses it, it is a parameter. Configuration classes are macros over it.
  The channels and thread groups for pipelines, the accumulators and two containers (\<open>misc/LazyVector.h\<close>,
  \<open>misc/BlockAllocator.h\<close>) are not on the path of a request.
\<close>

section \<open>From registration to routing\<close>

lemma fold_emplace_mem:
  assumes "distinct (map rpc_service_name list)" "\<forall>x \<in> set list. map_of al (rpc_service_name x) = None" "info \<in> set list"
  shows "(rpc_service_name info, known_servers c info) \<in> set (fold (\<lambda>info. emplace (rpc_service_name info) info) (map (known_servers c) list) al)"
proof -
  have keep: "y \<in> set al \<Longrightarrow> y \<in> set (fold (\<lambda>info. emplace (rpc_service_name info) info) xs al)" for y al xs
    by (induction xs arbitrary: al) (auto simp: emplace_def)
  have n: "rpc_service_name (known_servers c i) = rpc_service_name i" for i by (simp add: known_servers_def)
  show ?thesis
    using assms
  proof (induction list arbitrary: al)
    case (Cons i list)
    let ?al = "emplace (rpc_service_name i) (known_servers c i) al"
    have f: "?al = al @ [(rpc_service_name i, known_servers c i)]" using Cons.prems(2) by (simp add: emplace_def)
    show ?case
    proof (cases "info = i")
      case True
      then show ?thesis using keep [of "(rpc_service_name i, known_servers c i)" ?al] f n by simp
    next
      case False
      have "\<forall>x \<in> set list. map_of ?al (rpc_service_name x) = None" 
      proof
        fix x assume x: "x \<in> set list"
        then have "rpc_service_name x \<noteq> rpc_service_name i" using Cons.prems(1) by (metis distinct.simps(2) image_eqI list.set_map list.simps(9))
        then show "map_of ?al (rpc_service_name x) = None" using Cons.prems(2) f x by (simp add: map_add_def)
      qed
      then show ?thesis using Cons.IH [of ?al] Cons.prems False n by auto
    qed
  qed simp
qed

lemma listed_server_routed:
  assumes "update_service_info list c = Inr c'" "distinct (map rpc_service_name list)" "info \<in> set list"
    and "srv \<in> set (servers info)" "map_of (client_sockets c) (server_rank srv) \<noteq> None"
  shows "get_client_frontend_by_sid now (service_rpc_id info) (server_id srv) c' = get_client_frontend_by_rank now (server_rank srv) c'"
proof -
  let ?ss = "all_servers (service_table list c)" and ?x = "(service_rpc_id info, srv)"
  have "(rpc_service_name info, known_servers c info) \<in> set (service_table list c)"
    unfolding service_table_def by (rule fold_emplace_mem [OF assms(2) _ assms(3)]) simp
  moreover have "srv \<in> set (servers (known_servers c info))" "service_rpc_id (known_servers c info) = service_rpc_id info"
    using assms(4,5) by (simp_all add: known_servers_def)
  ultimately have m: "?x \<in> set ?ss" by (fastforce simp: all_servers_def intro!: bexI [of _ "(rpc_service_name info, known_servers c info)"])
  let ?c = "c\<lparr>rpc_info := service_table list c, rpc_server_info := [], rpc_server_frontend := [], rpc_server_id_frontend := []\<rparr>"
  have t: "tables_of ?ss ?c c'" and cs: "client_sockets c' = client_sockets c"
    using update_service_info_spec [of list c] assms(1) by auto
  then have "map_of (rpc_server_id_frontend c') (rpc_sid_pack (service_rpc_id info) (server_id srv)) = map_of (client_sockets c') (server_rank srv)"
      "sid_lookup (service_rpc_id info) (server_id srv) c' = Some srv"
    using m by (auto simp: tables_of_def server_key_def)
  then show ?thesis
    by (auto simp: get_client_frontend_by_sid_def sid_lookup_def get_client_frontend_by_rank_def split: option.splits)
qed

text \<open>The services after a server was registered can all be read.\<close>

lemma services_after_register:
  fixes root api name :: string
  defines "aq \<equiv> root @ api_path api" and "sq \<equiv> root @ service_path api name"
  assumes n: "names_ok N" "name_ok name" and sv: "\<forall>x \<in> kids N aq. service_ok root api N x"
    and new: "service_ok root api N2 name"
    and same: "\<forall>p. below aq p \<longrightarrow> p \<noteq> aq \<longrightarrow> \<not> below sq p \<longrightarrow> N2 p = N p"
  shows "name \<in> kids N2 aq" "x \<in> kids N2 aq \<Longrightarrow> service_ok root api N2 x"
proof -
  have sq: "sq = aq @ slash # name" by (simp add: sq_def aq_def service_path_def)
  show "name \<in> kids N2 aq" using new n(2) sq by (auto simp: kids_def name_ok_def service_ok_def Let_def sq_def)
  show "service_ok root api N2 x" if x: "x \<in> kids N2 aq"
  proof (cases "x = name")
    case False
    have xs: "slash \<notin> set x" "slash \<notin> set name" using x n(2) by (auto simp: kids_def name_ok_def)
    have nb: "\<not> below sq (aq @ slash # x)" "\<not> below sq (aq @ slash # x @ slash # y)" for y
      using False xs by (auto simp: below_def sq append_eq_append_conv2 append_eq_Cons_conv Cons_eq_append_conv)
    have e: "N2 (aq @ slash # x) = N (aq @ slash # x)" "N2 (aq @ slash # x @ slash # y) = N (aq @ slash # x @ slash # y)" for y
      using same nb by (auto simp: below_def)
    then have "x \<in> kids N aq" using x by (simp add: kids_def)
    then have "service_ok root api N x" using sv by blast
    moreover have "root @ service_path api x = aq @ slash # x" by (simp add: aq_def service_path_def)
    ultimately show ?thesis using e by (simp add: service_ok_def Let_def kids_def)
  qed (use new in simp)
qed

text \<open>C2. A server that a node registers at the master is reachable from every node: after the registration any client gets
  a list of all services, and when a node that has a connection for the rank of the server updates its tables with this list,
  requests for the returned ids of service and server are routed to the connection of that rank.\<close>

theorem registered_server_reachable:
  fixes root api name :: string and m :: master and sv_id :: "32 word" and c :: "'b rpc_ctx"
  defines "N \<equiv> names m" and "sd \<equiv> new_server_id root api name sv_id (counter m)"
  assumes "reach (\<lambda>m. m = master_new) master_step m" "s \<in> set (sockets m)" "s' \<in> set (sockets m)"
    and "root_ok root" "name_ok api" "name_ok name"
    and "register_ready root api name N (counter m)" "map_of locks (rpc_key api name) = None"
    and "N (root @ server_path api name sd) = None" "\<forall>x \<in> kids N (root @ api_path api). service_ok root api N x"
    and "map_of (client_sockets c) (ucast rank) \<noteq> None"
  shows "\<exists>rid m' list m''. run_prog (register_server root api name rank sv_id locks) s m = Some (Inr ((True, rid, sd, locks), m')) \<and>
    run_prog (get_rpc_service_info_all root api) s' m' = Some (Inr (Some list, m'')) \<and>
    (\<forall>c'. update_service_info list c = Inr c' \<longrightarrow>
       get_client_frontend_by_sid now rid sd c' = get_client_frontend_by_rank now (ucast rank) c')"
proof -
  let ?sq = "root @ service_path api name" and ?aq = "root @ api_path api"
  have inv: "master_inv m" by (rule mt.inv_reach [OF assms(3)])
  then have ok: "names_ok N" by (simp add: N_def names_ok_inv)
  have new: "N (?sq @ slash # to_string (sint sd)) = None" using assms(11) by (simp add: server_path_def)
  obtain rid N2 C2 where r: "spec_run (register_server root api name rank sv_id locks) s N (counter m) =
        Some (Inr ((True, rid, sd, locks), N2, C2))" "N2 ?sq = Some (None, to_string (sint rid))" "open_node N2 ?aq"
      "\<forall>k. N2 (?sq @ slash # k) = (if k = to_string (sint sd) then Some (Some s, to_string (sint rank)) else N (?sq @ slash # k))"
      "\<forall>p. below ?aq p \<longrightarrow> p \<noteq> ?aq \<longrightarrow> \<not> below ?sq p \<longrightarrow> N2 p = N p"
    using register_server_spec [OF assms(6-8) ok assms(9,10), of sv_id rank s] new unfolding sd_def by blast
  obtain m' where m': "run_prog (register_server root api name rank sv_id locks) s m = Some (Inr ((True, rid, sd, locks), m'))"
      "names m' = N2" "master_inv m'" "sockets m' = sockets m"
    using run_from_spec [OF inv assms(4) r(1) [unfolded N_def]] by blast
  have ok2: "names_ok N2" using names_ok_inv [OF m'(3)] m'(2) by simp
  have sv: "N ?sq = None \<or> service_ok root api N name" using assms(9) by (simp add: register_ready_def)
  note rs = registered_service [OF ok ok2 sv new r(2,4)]
  note sa = services_after_register [OF ok assms(8,12) rs(1) r(5)]
  let ?list = "map (service_view root api N2) (sorted_list_of_set (kids N2 ?aq))"
  have "N2 ?aq \<noteq> None" using r(3) by (auto simp: open_node_def)
  from get_services_spec [OF assms(6,7) ok2 this sa(2), of s'] obtain m'' where
    m'': "run_prog (get_rpc_service_info_all root api) s' m' = Some (Inr (Some ?list, m''))"
    using run_from_spec [OF m'(3)] assms(5) m'(2,4) by metis
  let ?info = "service_view root api N2 name" and ?srv = "\<lparr>server_id = sd, server_rank = ucast rank\<rparr>"
  have "map rpc_service_name ?list = sorted_list_of_set (kids N2 ?aq)" by (simp add: service_view_def Let_def comp_def)
  then have d: "distinct (map rpc_service_name ?list)" by (metis distinct_sorted_list_of_set)
  have i: "?info \<in> set ?list" using sa(1) kids_finite [OF ok2] by simp
  have s: "?srv \<in> set (servers ?info)" using rs(3) by simp
  have "get_client_frontend_by_sid now rid sd c' = get_client_frontend_by_rank now (ucast rank) c'"
    if "update_service_info ?list c = Inr c'" for c'
    using listed_server_routed [OF that d i s, of now] assms(13) rs(2) by simp
  then show ?thesis using m'(1) m'' by blast
qed

text \<open>The list of services after the first server of the first service was registered.\<close>

lemma first_server_list:
  fixes root api name :: string and m :: master and rank :: "32 word" and sv_id :: "32 word"
  defines "N \<equiv> names m" and "sd \<equiv> new_server_id root api name sv_id (counter m)" and "aq \<equiv> root @ api_path api"
  assumes ok: "root_ok root" "name_ok api" "name_ok name" and inv: "master_inv m" "s \<in> set (sockets m)"
    and r: "register_ready root api name N (counter m)" "map_of locks (rpc_key api name) = None"
    and no: "\<And>x. N (aq @ slash # x) = None"
    and run: "run_prog (register_server root api name rank sv_id locks) s m = Some (Inr ((True, rid, sd, locks), m'))"
      "run_prog (get_rpc_service_info_all root api) s m' = Some (Inr (Some list, m''))"
  shows "list = [\<lparr>rpc_service_name = name, service_rpc_id = rid, servers = [\<lparr>server_id = sd, server_rank = ucast rank\<rparr>]\<rparr>]"
proof -
  let ?N2 = "names m'"
  define sq where "sq = root @ service_path api name"
  have sq: "sq = aq @ slash # name" by (simp add: sq_def aq_def service_path_def)
  have e: "N sq = None" "N (sq @ slash # x) = None" for x using no [of name] no [of "name @ slash # x"] by (simp_all add: sq)
  have n: "names_ok N" by (simp add: N_def names_ok_inv [OF inv(1)])
  have "\<exists>rid' N2 C2. spec_run (register_server root api name rank sv_id locks) s N (counter m) = Some (Inr ((True, rid', sd, locks), N2, C2)) \<and>
      N2 sq = Some (None, to_string (sint rid')) \<and> open_node N2 aq \<and>
      (\<forall>k. N2 (sq @ slash # k) = (if k = to_string (sint sd) then Some (Some s, to_string (sint rank)) else N (sq @ slash # k))) \<and>
      (\<forall>p. below aq p \<longrightarrow> p \<noteq> aq \<longrightarrow> \<not> below sq p \<longrightarrow> N2 p = N p)"
    using register_server_spec [OF ok n r, of sv_id rank s] e(2) [of "to_string (sint sd)"] unfolding sd_def sq_def aq_def by blast
  then have q: "?N2 sq = Some (None, to_string (sint rid))" "open_node ?N2 aq"
      "\<forall>k. ?N2 (sq @ slash # k) = (if k = to_string (sint sd) then Some (Some s, to_string (sint rank)) else N (sq @ slash # k))"
      "\<forall>p. below aq p \<longrightarrow> p \<noteq> aq \<longrightarrow> \<not> below sq p \<longrightarrow> ?N2 p = N p"
    using run_to_spec [OF inv run(1)] by (auto simp: N_def)
  have i2: "master_inv m'" "sockets m' = sockets m" using run_inv [OF inv run(1)] by auto
  have ks: "kids ?N2 sq = {to_string (sint sd)}"
    using q(3) e(2) to_string_name [of "sint sd"] by (auto simp: kids_def name_ok_def split: if_splits)
  have nn: "name \<noteq> []" "slash \<notin> set name" using ok(3) by (simp_all add: name_ok_def)
  have other: "?N2 (aq @ slash # x) = None" if "x \<noteq> name" "slash \<notin> set x" for x
  proof -
    have "\<not> below sq (aq @ slash # x)" using that nn by (auto simp: below_def sq append_eq_append_conv2 append_eq_Cons_conv Cons_eq_append_conv)
    then show ?thesis using q(4) no [of x] by (simp add: below_def)
  qed
  have ka: "kids ?N2 aq = {name}"
  proof -
    have "name \<in> kids ?N2 aq" using q(1) nn by (simp add: kids_def sq)
    moreover have "x = name" if "x \<in> kids ?N2 aq" for x using other [of x] that by (cases "x = name") (auto simp: kids_def)
    ultimately show ?thesis by blast
  qed
  have so: "service_ok root api ?N2 name"
    using q(1,3) ks unfolding service_ok_def Let_def sq_def [symmetric] by (auto simp: number_def)
  have "?N2 aq \<noteq> None" using q(2) by (auto simp: open_node_def)
  then have "spec_run (get_rpc_service_info_all root api) s ?N2 (counter m') = Some (Inr (Some [service_view root api ?N2 name], ?N2, counter m'))"
    using get_services_spec [OF ok(1,2) names_ok_inv [OF i2(1)], of s "counter m'"] so ka unfolding aq_def by simp
  then have "list = [service_view root api ?N2 name]" using run_to_spec [OF i2(1) _ run(2)] i2(2) inv(2) by simp
  then show ?thesis using q(1,3) ks unfolding service_view_def Let_def sq_def [symmetric] by simp
qed

theorem registered_server_reachable_witness:
  "\<exists>m m' m'' rid list c'. run_prog (client_initialize ''/'') 7 demo_master = Some (Inr (True, m)) \<and>
     run_prog (register_server ''/'' ''api'' ''sum'' 1 (-1) []) 7 m = Some (Inr ((True, rid, 0, []), m')) \<and>
     run_prog (get_rpc_service_info_all ''/'' ''api'') 7 m' = Some (Inr (Some list, m'')) \<and>
     update_service_info list demo_ctx = Inr c' \<and> get_client_frontend_by_sid 0 rid 0 c' = get_client_frontend_by_rank 0 1 c'"
proof -
  obtain m where m: "run_prog (client_initialize ''/'') 7 demo_master = Some (Inr (True, m))" "names m = demo_names"
      "counter m = (\<lambda>_. 0)" "reach (\<lambda>m. m = master_new) master_step m" "sockets m = [7]"
    using demo_initialize by blast
  have nm: "root_ok ''/''" "name_ok ''api''" "name_ok ''sum''" "register_ready ''/'' ''api'' ''sum'' (names m) (counter m)"
    using demo_ready by (simp_all add: root_ok_def name_ok_def m(2,3))
  have id: "new_server_id ''/'' ''api'' ''sum'' (-1) (counter m) = 0" by (simp add: new_server_id_def m(3))
  have e: "names m (''/'' @ server_path ''api'' ''sum'' 0) = None" "kids (names m) (''/'' @ api_path ''api'') = {}"
    by (simp_all add: m(2) demo_names_def server_path_def api_path_def service_path_def path_defs kids_def)
  have s7: "7 \<in> set (sockets m)" by (simp add: m(5))
  have "map_of (client_sockets demo_ctx) (ucast (1 :: 32 word)) \<noteq> None" by (simp add: demo_ctx_sockets)
  from registered_server_reachable [where sv_id = "-1" and rank = 1 and locks = "[]" and now = 0, OF m(4) s7 s7 nm _ _ _ this] e id
  obtain rid m' list m'' where r: "run_prog (register_server ''/'' ''api'' ''sum'' 1 (-1) []) 7 m = Some (Inr ((True, rid, 0, []), m'))"
      "run_prog (get_rpc_service_info_all ''/'' ''api'') 7 m' = Some (Inr (Some list, m''))"
      "\<forall>c'. update_service_info list demo_ctx = Inr c' \<longrightarrow> get_client_frontend_by_sid 0 rid 0 c' = get_client_frontend_by_rank 0 1 c'"
    by auto
  have no: "names m ((''/'' @ api_path ''api'') @ slash # x) = None" for x by (simp add: m(2) demo_names_def api_path_def path_defs)
  have l: "list = [\<lparr>rpc_service_name = ''sum'', service_rpc_id = rid, servers = [\<lparr>server_id = 0, server_rank = ucast (1 :: 32 word)\<rparr>]\<rparr>]"
    using first_server_list [where sv_id = "-1" and rank = 1 and locks = "[]" and list = list, OF nm(1-3) mt.inv_reach [OF m(4)] s7 nm(4) _ no] r(1,2)
    unfolding id by simp
  have "distinct (map server_key (all_servers (service_table list demo_ctx)))"
    by (simp add: l service_table_def known_servers_def demo_ctx_sockets emplace_def all_servers_def)
  then obtain c' where "update_service_info list demo_ctx = Inr c'"
    using update_service_info_spec [of list demo_ctx] by (cases "update_service_info list demo_ctx") auto
  then show ?thesis using m(1) r by blast
qed

end
